(* ===== verification/Ross_Prelude.thy ===== *)
theory Ross_Prelude
  imports Complex_Main "HOL-Library.Monad_Syntax" "HOL-Library.Product_Lexorder"
    "HOL-Library.List_Lexorder"
begin

text \<open>
  Shared vocabulary of the development: the ways the C code can fail, checked
  two's-complement arithmetic, the three-way comparison the code uses for
  virtual time, and generic list facts used by several components.
\<close>

section \<open>Failures\<close>

text \<open>
  Every call of \<open>tw_error\<close> (\<open>core/tw-util.c\<close>) prints a message and ends the
  process, so a function that may call it returns a value of \<open>ross_error + 'a\<close>.
  The constructors name the reason. \<open>Bad_Pointer\<close> stands for behaviour C leaves
  undefined: dereferencing \<open>NULL\<close>, or following a pointer that does not lie in the
  structure at hand. \<open>Assertion\<close> is a failed \<open>assert\<close>. \<open>Out_Of_Fuel\<close> is no failure of the
  code: a loop whose number of rounds is not bounded by its text takes a bound as its first
  argument, and this value says that the bound was too small. \<open>Not_Finite\<close> is a result in floating
  point that is infinite or not a number; the code goes on with it, the model does not.
\<close>

datatype ross_error =
    Tw_Error string
  | Assertion string
  | Bad_Pointer
  | Int_Overflow
  | Out_Of_Fuel
  | Not_Finite

named_theorems bind_simps

text \<open>Sequencing of fallible steps: the first failure ends the run.\<close>

fun ebind :: "'e + 'a \<Rightarrow> ('a \<Rightarrow> 'e + 'b) \<Rightarrow> 'e + 'b" where
  "ebind (Inl e) f = Inl e"
| "ebind (Inr a) f = f a"

lemma ebind_Inr_iff [bind_simps]:
  "ebind m f = Inr b \<longleftrightarrow> (\<exists>a. m = Inr a \<and> f a = Inr b)"
  by (cases m) auto

lemma ebind_Inl_iff [bind_simps]:
  "ebind m f = Inl e \<longleftrightarrow> m = Inl e \<or> (\<exists>a. m = Inr a \<and> f a = Inl e)"
  by (cases m) auto

lemma ebind_cong [fundef_cong]:
  "m = n \<Longrightarrow> (\<And>a. n = Inr a \<Longrightarrow> f a = g a) \<Longrightarrow> ebind m f = ebind n g"
  by (cases n) auto

section \<open>Checked machine integers\<close>

text \<open>
  Overflow of a signed C integer is undefined. \<open>i32\<close> and \<open>i64\<close> give the value
  of an expression where it fits the type and \<open>None\<close> where it does not, so a result
  \<open>Some\<close> says in particular that no intermediate value overflowed.
\<close>

definition i32 :: "int \<Rightarrow> int option" where
  "i32 x = (if - (2 ^ 31) \<le> x \<and> x < 2 ^ 31 then Some x else None)"

definition i64 :: "int \<Rightarrow> int option" where
  "i64 x = (if - (2 ^ 63) \<le> x \<and> x < 2 ^ 63 then Some x else None)"

lemma i32_Some [simp]: "- 2147483648 \<le> x \<Longrightarrow> x < 2147483648 \<Longrightarrow> i32 x = Some x"
  by (simp add: i32_def)

lemma i64_Some [simp]:
  "- 9223372036854775808 \<le> x \<Longrightarrow> x < 9223372036854775808 \<Longrightarrow> i64 x = Some x"
  by (simp add: i64_def)

lemma i32_eq_Some_iff: "i32 x = Some y \<longleftrightarrow> y = x \<and> - 2147483648 \<le> x \<and> x < 2147483648"
  by (auto simp: i32_def)

text \<open>C truncates integer division towards zero; on non-negative operands it is \<open>div\<close>.\<close>

definition c_div :: "int \<Rightarrow> int \<Rightarrow> int" where
  "c_div a b = sgn a * sgn b * (\<bar>a\<bar> div \<bar>b\<bar>)"

lemma c_div_nonneg [simp]: "0 \<le> a \<Longrightarrow> 0 < b \<Longrightarrow> c_div a b = a div b"
  by (cases "a = 0") (simp_all add: c_div_def)

text \<open>The sign of a remainder in C is the sign of the dividend.\<close>

definition c_rem :: "int \<Rightarrow> int \<Rightarrow> int" where
  "c_rem a b = a - c_div a b * b"

lemma c_rem_nonneg [simp]: "0 \<le> a \<Longrightarrow> 0 < b \<Longrightarrow> c_rem a b = a mod b"
  by (simp add: c_rem_def minus_div_mult_eq_mod)

lemma div_mult_bounds:
  fixes t q :: int
  assumes "0 < q" "0 \<le> t"
  shows "0 \<le> t div q" "t div q * q \<le> t" "t < t div q * q + q"
proof -
  have t: "t = t div q * q + t mod q" "0 \<le> t mod q" "t mod q < q"
    using assms by simp_all
  show "0 \<le> t div q" using assms by (simp add: pos_imp_zdiv_nonneg_iff)
  show "t div q * q \<le> t" "t < t div q * q + q" using t by linarith+
qed

section \<open>Three-way comparison\<close>

text \<open>\<open>TW_STIME_CMP\<close> of \<open>core/ross-base.h\<close>: -1, 0 or 1.\<close>

definition cmp3 :: "'a::linorder \<Rightarrow> 'a \<Rightarrow> int" where
  "cmp3 x y = (if x < y then -1 else if y < x then 1 else 0)"

lemma cmp3_simps [simp]:
  "cmp3 x x = 0"
  "cmp3 x y = 0 \<longleftrightarrow> x = y"
  "cmp3 x y < 0 \<longleftrightarrow> x < y"
  "cmp3 x y > 0 \<longleftrightarrow> y < x"
  "cmp3 x y \<le> 0 \<longleftrightarrow> x \<le> y"
  "cmp3 x y \<ge> 0 \<longleftrightarrow> y \<le> x"
  "cmp3 x y = -1 \<longleftrightarrow> x < y"
  "cmp3 x y = 1 \<longleftrightarrow> y < x"
  by (auto simp: cmp3_def)

lemma cmp3_swap: "cmp3 y x = - cmp3 x y"
  by (auto simp: cmp3_def)

lemma cmp3_pair:
  "cmp3 (a, b) (c, d) = (if cmp3 a c \<noteq> 0 then cmp3 a c else cmp3 b d)"
  by (auto simp: cmp3_def less_prod_def)

lemma cmp3_Cons:
  "cmp3 (x # xs) (y # ys) = (if cmp3 x y \<noteq> 0 then cmp3 x y else cmp3 xs ys)"
  by (auto simp: cmp3_def)

section \<open>Lists\<close>

lemma take_update_beyond [simp]: "n \<le> i \<Longrightarrow> take n (xs[i := v]) = take n xs"
  by (simp add: take_update_swap list_update_beyond)

lemma hd_append_tl: "xs \<noteq> [] \<Longrightarrow> xs = hd xs # tl xs"
  by simp

lemma remove1_mid: "x \<notin> set xs \<Longrightarrow> remove1 x (xs @ x # ys) = xs @ ys"
  by (simp add: remove1_append)

end
