(* ===== verification/Event_Sig.thy ===== *)
theory Event_Sig
  imports Ross_Prelude
begin

text \<open>
  Event signatures (\<open>core/ross-types.h\<close>): the virtual time at which an event is to
  happen, with the user priority and the chain of random tie-breakers that order
  simultaneous events. The order on signatures is what every other component sorts by.
  Times are doubles in the code; the comparison of two doubles that are not NaN is the
  comparison of the reals they denote, so they are \<open>real\<close> here.
\<close>

section \<open>The signature and its operations\<close>

definition MAX_TIE_CHAIN :: nat where
  "MAX_TIE_CHAIN = 20"

text \<open>\<open>struct tw_event_sig\<close>; the array has \<open>MAX_TIE_CHAIN\<close> slots.\<close>

record tw_event_sig =
  recv_ts :: real
  priority :: real
  tie_lineage_length :: nat
  event_tiebreaker :: "real list"

definition wf_sig :: "tw_event_sig \<Rightarrow> bool" where
  "wf_sig s \<longleftrightarrow> length (event_tiebreaker s) = MAX_TIE_CHAIN \<and> tie_lineage_length s \<le> MAX_TIE_CHAIN"

text \<open>
  \<open>tw_unique_event_id_eq\<close>: two events are the same one when sender and id agree.
\<close>

record tw_unique_event_id =
  uid_pe_id :: nat
  uid_event_id :: nat

definition tw_unique_event_id_eq :: "tw_unique_event_id \<Rightarrow> tw_unique_event_id \<Rightarrow> int" where
  "tw_unique_event_id_eq e n =
     (if uid_pe_id e = uid_pe_id n then (if uid_event_id e = uid_event_id n then 1 else 0) else 0)"

text \<open>
  The copy loop of \<open>tw_copy_event_sig\<close> writes the first \<open>tie_lineage_length\<close> slots
  of the target and leaves the rest as they were.
\<close>

fun copy_tie_loop :: "nat \<Rightarrow> real list \<Rightarrow> real list \<Rightarrow> real list" where
  "copy_tie_loop 0 src dst = dst"
| "copy_tie_loop (Suc n) src dst = (copy_tie_loop n src dst)[n := src ! n]"

definition tw_copy_event_sig :: "tw_event_sig \<Rightarrow> tw_event_sig \<Rightarrow> tw_event_sig" where
  "tw_copy_event_sig e sig =
     e\<lparr>recv_ts := recv_ts sig, priority := priority sig,
       tie_lineage_length := tie_lineage_length sig,
       event_tiebreaker :=
         copy_tie_loop (tie_lineage_length sig) (event_tiebreaker sig) (event_tiebreaker e)\<rparr>"

definition min_int :: "int \<Rightarrow> int \<Rightarrow> int" where
  "min_int x y = (if x < y then x else y)"

text \<open>
  The loop of \<open>tw_event_sig_compare_ptr\<close> over the common part of the two chains:
  \<open>k\<close> rounds are left and the next index is \<open>i\<close>.
\<close>

fun cmp_tie_loop :: "nat \<Rightarrow> nat \<Rightarrow> real list \<Rightarrow> real list \<Rightarrow> int" where
  "cmp_tie_loop 0 i e n = 0"
| "cmp_tie_loop (Suc k) i e n =
     (if e ! i < n ! i then -1
      else if e ! i > n ! i then 1
      else cmp_tie_loop k (Suc i) e n)"

definition tw_event_sig_compare_ptr :: "tw_event_sig \<Rightarrow> tw_event_sig \<Rightarrow> int" where
  "tw_event_sig_compare_ptr e n =
     (let time_compare = cmp3 (recv_ts e) (recv_ts n) in
      if time_compare \<noteq> 0 then time_compare
      else let prio_compare = cmp3 (priority e) (priority n) in
      if prio_compare \<noteq> 0 then prio_compare
      else let min_len = min_int (int (tie_lineage_length e)) (int (tie_lineage_length n));
               c = cmp_tie_loop (nat min_len) 0 (event_tiebreaker e) (event_tiebreaker n) in
      if c \<noteq> 0 then c
      else if tie_lineage_length e = tie_lineage_length n then 0
      else if tie_lineage_length e > tie_lineage_length n then 1
      else -1)"

text \<open>
  \<open>DBL_MAX\<close> and \<open>g_tw_max_sig\<close> (\<open>core/ross-global.c\<close>).
\<close>

definition DBL_MAX :: real where
  "DBL_MAX = (2 - 1 / 2 ^ 52) * 2 ^ 1023"

definition g_tw_max_sig :: tw_event_sig where
  "g_tw_max_sig = \<lparr>recv_ts = DBL_MAX, priority = DBL_MAX, tie_lineage_length = 1,
     event_tiebreaker = DBL_MAX # replicate 19 0\<rparr>"

text \<open>
  \<open>find_min_sig\<close> (\<open>core/gvt/mpi_allreduce.c\<close>): the reduction operator MPI applies
  element by element; \<open>in\<close> is read and \<open>inout\<close> overwritten. The two asserts bound
  the chains strictly below \<open>MAX_TIE_CHAIN\<close>.
\<close>

definition find_min_sig1 :: "tw_event_sig \<Rightarrow> tw_event_sig \<Rightarrow> ross_error + tw_event_sig" where
  "find_min_sig1 in_sig inout_sig =
     (if \<not> tie_lineage_length in_sig < MAX_TIE_CHAIN then Inl (Assertion ''in_sig'')
      else if \<not> tie_lineage_length inout_sig < MAX_TIE_CHAIN then Inl (Assertion ''inout_sig'')
      else if tw_event_sig_compare_ptr in_sig inout_sig < 0
      then Inr (tw_copy_event_sig inout_sig in_sig)
      else Inr inout_sig)"

fun find_min_sig :: "tw_event_sig list \<Rightarrow> tw_event_sig list \<Rightarrow> ross_error + tw_event_sig list" where
  "find_min_sig (a # as) (b # bs) =
     ebind (find_min_sig1 a b) (\<lambda>c. ebind (find_min_sig as bs) (\<lambda>cs. Inr (c # cs)))"
| "find_min_sig _ bs = Inr bs"

section \<open>The order as a lexicographic order\<close>

text \<open>
  The key of a signature is what the comparison looks at. Pairs and lists are ordered
  lexicographically, so a proper prefix of a chain comes before the chain.
\<close>

definition sig_key :: "tw_event_sig \<Rightarrow> real \<times> real \<times> real list" where
  "sig_key s = (recv_ts s, priority s, take (tie_lineage_length s) (event_tiebreaker s))"

lemma sig_key_sel [simp]:
  "fst (sig_key s) = recv_ts s" "fst (snd (sig_key s)) = priority s"
  "snd (snd (sig_key s)) = take (tie_lineage_length s) (event_tiebreaker s)"
  by (simp_all add: sig_key_def)

lemma cmp_tie_loop_take:
  assumes "i + k \<le> length e" "i + k \<le> length n"
  shows "cmp_tie_loop k i e n = cmp3 (take k (drop i e)) (take k (drop i n))"
  using assms
proof (induction k arbitrary: i)
  case 0
  then show ?case by simp
next
  case (Suc k)
  then have "drop i e = e ! i # drop (Suc i) e" "drop i n = n ! i # drop (Suc i) n"
    by (auto simp: Cons_nth_drop_Suc)
  moreover have "cmp_tie_loop k (Suc i) e n = cmp3 (take k (drop (Suc i) e)) (take k (drop (Suc i) n))"
    using Suc.prems by (intro Suc.IH) auto
  ultimately show ?case
    by (auto simp: cmp3_Cons cmp3_def)
qed

lemma cmp3_take_min:
  fixes xs ys :: "'a::linorder list"
  assumes "m = min (length xs) (length ys)"
  shows "cmp3 xs ys =
     (if cmp3 (take m xs) (take m ys) \<noteq> 0 then cmp3 (take m xs) (take m ys)
      else if length xs = length ys then 0 else if length xs > length ys then 1 else -1)"
  using assms
proof (induction xs arbitrary: ys m)
  case Nil
  then show ?case by (cases ys) (auto simp: cmp3_def)
next
  case (Cons x xs)
  show ?case
  proof (cases ys)
    case Nil
    with Cons.prems show ?thesis by (auto simp: cmp3_def)
  next
    case ys: (Cons y zs)
    with Cons.prems obtain m' where m': "m = Suc m'" "m' = min (length xs) (length zs)"
      by auto
    show ?thesis
    proof (cases "x = y")
      case True
      have "cmp3 xs zs = (if cmp3 (take m' xs) (take m' zs) \<noteq> 0 then cmp3 (take m' xs) (take m' zs)
        else if length xs = length zs then 0 else if length xs > length zs then 1 else -1)"
        by (rule Cons.IH[OF m'(2)])
      with True ys m'(1) show ?thesis
        by (simp only: take_Suc_Cons cmp3_Cons length_Cons nat.inject Suc_less_eq cmp3_simps(1)) auto
    next
      case False
      then have "cmp3 x y \<noteq> 0" by simp
      with ys m'(1) show ?thesis
        by (simp only: take_Suc_Cons cmp3_Cons if_True simp_thms)
    qed
  qed
qed

lemma tw_event_sig_compare_ptr_key:
  assumes "wf_sig e" "wf_sig n"
  shows "tw_event_sig_compare_ptr e n = cmp3 (sig_key e) (sig_key n)"
proof -
  let ?k = "min (tie_lineage_length e) (tie_lineage_length n)"
  let ?xs = "take (tie_lineage_length e) (event_tiebreaker e)"
  let ?ys = "take (tie_lineage_length n) (event_tiebreaker n)"
  have k: "nat (min_int (int (tie_lineage_length e)) (int (tie_lineage_length n))) = ?k"
    by (auto simp: min_int_def)
  have len: "length ?xs = tie_lineage_length e" "length ?ys = tie_lineage_length n"
    using assms by (auto simp: wf_sig_def)
  have tk: "take ?k ?xs = take ?k (event_tiebreaker e)" "take ?k ?ys = take ?k (event_tiebreaker n)"
    by (simp_all add: min.commute)
  have loop: "cmp_tie_loop ?k 0 (event_tiebreaker e) (event_tiebreaker n)
      = cmp3 (take ?k ?xs) (take ?k ?ys)"
    unfolding tk using assms by (subst cmp_tie_loop_take) (auto simp: wf_sig_def)
  have "cmp3 ?xs ?ys =
     (if cmp3 (take ?k ?xs) (take ?k ?ys) \<noteq> 0 then cmp3 (take ?k ?xs) (take ?k ?ys)
      else if tie_lineage_length e = tie_lineage_length n then 0
      else if tie_lineage_length e > tie_lineage_length n then 1 else -1)"
    using cmp3_take_min[of ?k ?xs ?ys] unfolding len by simp
  then show ?thesis
    unfolding tw_event_sig_compare_ptr_def sig_key_def cmp3_pair Let_def k loop by simp
qed

section \<open>Copying a signature\<close>

lemma length_copy_tie_loop [simp]: "length (copy_tie_loop n src dst) = length dst"
  by (induction n) auto

lemma take_copy_tie_loop:
  "n \<le> length src \<Longrightarrow> n \<le> length dst \<Longrightarrow> take n (copy_tie_loop n src dst) = take n src"
proof (induction n)
  case (Suc n)
  then have "take n (copy_tie_loop n src dst) = take n src" by simp
  with Suc.prems show ?case by (simp add: take_Suc_conv_app_nth)
qed simp

lemma wf_copy_sig [simp, intro]: "wf_sig e \<Longrightarrow> wf_sig s \<Longrightarrow> wf_sig (tw_copy_event_sig e s)"
  by (simp add: wf_sig_def tw_copy_event_sig_def)

lemma sig_key_copy [simp]:
  "wf_sig e \<Longrightarrow> wf_sig s \<Longrightarrow> sig_key (tw_copy_event_sig e s) = sig_key s"
  by (simp add: sig_key_def wf_sig_def tw_copy_event_sig_def take_copy_tie_loop)

lemma wf_max_sig [simp]: "wf_sig g_tw_max_sig"
  by (simp add: wf_sig_def g_tw_max_sig_def MAX_TIE_CHAIN_def)

text \<open>
  C40: The comparison of signatures is a total preorder that depends on the keys alone:
  it is the three-way comparison of the lexicographic order on (time, priority,
  tie-breaker chain), where a chain precedes every proper extension of it.
\<close>

theorem sig_compare_lexicographic:
  assumes "wf_sig e" "wf_sig n"
  shows "tw_event_sig_compare_ptr e n =
    (if sig_key e < sig_key n then -1 else if sig_key n < sig_key e then 1 else 0)"
  using assms by (simp add: tw_event_sig_compare_ptr_key cmp3_def)

definition sig_ex :: "real \<Rightarrow> real list \<Rightarrow> tw_event_sig" where
  "sig_ex t bs = \<lparr>recv_ts = t, priority = 1, tie_lineage_length = length bs,
     event_tiebreaker = bs @ replicate (20 - length bs) 0\<rparr>"

lemma wf_sig_ex [simp]: "length bs \<le> 20 \<Longrightarrow> wf_sig (sig_ex t bs)"
  by (simp add: wf_sig_def sig_ex_def MAX_TIE_CHAIN_def)

lemma sig_key_ex [simp]: "sig_key (sig_ex t bs) = (t, 1, bs)"
  by (simp add: sig_key_def sig_ex_def)

theorem sig_compare_lexicographic_witness:
  "tw_event_sig_compare_ptr (sig_ex 2 [1/2]) (sig_ex 2 [1/2, 1/3]) = -1"
  by (subst sig_compare_lexicographic) (simp_all add: less_prod_def)

text \<open>
  Copying a signature copies exactly what the comparison reads: the copy compares
  equal to the original although only the used part of the chain is written, and it is
  well formed.
\<close>

theorem copy_sig_compares_equal:
  assumes "wf_sig e" "wf_sig s"
  shows "wf_sig (tw_copy_event_sig e s) \<and> tw_event_sig_compare_ptr (tw_copy_event_sig e s) s = 0
    \<and> (\<forall>i. tie_lineage_length s \<le> i \<longrightarrow>
          event_tiebreaker (tw_copy_event_sig e s) ! i = event_tiebreaker e ! i)"
proof -
  have "n \<le> i \<Longrightarrow> copy_tie_loop n src dst ! i = dst ! i" for n i and src dst :: "real list"
    by (induction n) auto
  moreover have "event_tiebreaker (tw_copy_event_sig e s)
      = copy_tie_loop (tie_lineage_length s) (event_tiebreaker s) (event_tiebreaker e)"
    by (simp add: tw_copy_event_sig_def)
  ultimately show ?thesis
    using assms by (simp add: tw_event_sig_compare_ptr_key)
qed

theorem copy_sig_compares_equal_witness:
  "tw_event_sig_compare_ptr (tw_copy_event_sig (sig_ex 1 [1, 1, 1]) (sig_ex 2 [1/2])) (sig_ex 2 [1/2]) = 0"
  using copy_sig_compares_equal[of "sig_ex 1 [1, 1, 1]" "sig_ex 2 [1/2]"] by simp

section \<open>The reduction operator\<close>

lemma find_min_sig1_ok:
  assumes "wf_sig a" "wf_sig b"
    "tie_lineage_length a < MAX_TIE_CHAIN" "tie_lineage_length b < MAX_TIE_CHAIN"
  shows "\<exists>c. find_min_sig1 a b = Inr c \<and> wf_sig c \<and> sig_key c = min (sig_key a) (sig_key b)
    \<and> tie_lineage_length c < MAX_TIE_CHAIN"
  using assms
  by (auto simp: find_min_sig1_def tw_event_sig_compare_ptr_key min_def not_less
      tw_copy_event_sig_def dest: wf_copy_sig[of b a] sig_key_copy[of b a])

lemma sig_key_below_max:
  assumes "recv_ts s < DBL_MAX"
  shows "sig_key s < sig_key g_tw_max_sig"
  using assms by (simp add: less_prod_def sig_key_def g_tw_max_sig_def)

end
