(* ===== verification/Event_Queue.thy ===== *)
theory Event_Queue
  imports Event_Sig "HOL-Library.Word"
begin

unbundle bit_operations_syntax

text \<open>
  The intrusive doubly linked lists of \<open>core/tw-eventq.h\<close>, on an explicit heap: events are
  addresses, \<open>NULL\<close> is \<open>None\<close>, and every operation updates the \<open>next\<close> and \<open>prev\<close> fields the
  way the code does. \<open>eventq_rep\<close> says which list of events a queue holds; the lemmas show
  that each operation is the list operation it stands for.
\<close>

section \<open>Heap and queues\<close>

type_synonym addr = nat

text \<open>The enumeration starts at 1; \<open>No_owner\<close> is the value 0 the code stores when an event is in no queue.\<close>

datatype tw_event_owner =
    No_owner | TW_pe_event_q | TW_pe_pq | TW_kp_pevent_q | TW_pe_anti_msg | TW_net_outq
  | TW_net_asend | TW_net_acancel | TW_pe_sevent_q | TW_pe_free_q

text \<open>The part of \<open>struct tw_event\<close> the queues read and write.\<close>

record qnode =
  nextp :: "addr option"
  prevp :: "addr option"
  qowner :: tw_event_owner
  qsig :: tw_event_sig

type_synonym 'a heap = "addr \<Rightarrow> 'a qnode_scheme"

record tw_eventq =
  qsize :: "64 word"
  qhead :: "addr option"
  qtail :: "addr option"

definition empty_eventq :: tw_eventq where
  "empty_eventq = \<lparr>qsize = 0, qhead = None, qtail = None\<rparr>"

definition set_next :: "addr \<Rightarrow> addr option \<Rightarrow> 'a heap \<Rightarrow> 'a heap" where
  "set_next a v hp = hp(a := (hp a)\<lparr>nextp := v\<rparr>)"

definition set_prev :: "addr \<Rightarrow> addr option \<Rightarrow> 'a heap \<Rightarrow> 'a heap" where
  "set_prev a v hp = hp(a := (hp a)\<lparr>prevp := v\<rparr>)"

definition set_owner :: "addr \<Rightarrow> tw_event_owner \<Rightarrow> 'a heap \<Rightarrow> 'a heap" where
  "set_owner a v hp = hp(a := (hp a)\<lparr>qowner := v\<rparr>)"

lemma heap_simps [simp]:
  "nextp (set_next a v hp b) = (if b = a then v else nextp (hp b))"
  "prevp (set_next a v hp b) = prevp (hp b)"
  "nextp (set_prev a v hp b) = nextp (hp b)"
  "prevp (set_prev a v hp b) = (if b = a then v else prevp (hp b))"
  "nextp (set_owner a w hp b) = nextp (hp b)"
  "prevp (set_owner a w hp b) = prevp (hp b)"
  "qsig (set_next a v hp b) = qsig (hp b)"
  "qsig (set_prev a v hp b) = qsig (hp b)"
  "qsig (set_owner a w hp b) = qsig (hp b)"
  "qowner (set_next a v hp b) = qowner (hp b)"
  "qowner (set_prev a v hp b) = qowner (hp b)"
  "qowner (set_owner a w hp b) = (if b = a then w else qowner (hp b))"
  by (simp_all add: set_next_def set_prev_def set_owner_def)

section \<open>The operations\<close>

definition tw_eventq_push :: "tw_eventq \<Rightarrow> addr \<Rightarrow> 'a heap \<Rightarrow> 'a heap \<times> tw_eventq" where
  "tw_eventq_push q e hp =
     (let t = qtail q;
          hp = set_next e None hp;
          hp = set_prev e t hp
      in case t of
           Some t' \<Rightarrow> (set_next t' (Some e) hp, q\<lparr>qtail := Some e, qsize := qsize q + 1\<rparr>)
         | None \<Rightarrow> (hp, q\<lparr>qhead := Some e, qtail := Some e, qsize := qsize q + 1\<rparr>))"

definition tw_eventq_peek :: "tw_eventq \<Rightarrow> addr option" where
  "tw_eventq_peek q = qtail q"

definition tw_eventq_pop :: "tw_eventq \<Rightarrow> 'a heap \<Rightarrow> addr option \<times> 'a heap \<times> tw_eventq" where
  "tw_eventq_pop q hp =
     (case qtail q of
        None \<Rightarrow> (None, hp, q)
      | Some t \<Rightarrow>
          let p = prevp (hp t);
              (hp, q) = (case p of
                  Some p' \<Rightarrow> (set_next p' None hp, q)
                | None \<Rightarrow> (hp, q\<lparr>qhead := None\<rparr>));
              q = q\<lparr>qtail := p, qsize := qsize q - 1\<rparr>
          in (Some t, set_next t None (set_prev t None hp), q))"

definition tw_eventq_unshift :: "tw_eventq \<Rightarrow> addr \<Rightarrow> 'a heap \<Rightarrow> 'a heap \<times> tw_eventq" where
  "tw_eventq_unshift q e hp =
     (let h = qhead q;
          hp = set_prev e None hp;
          hp = set_next e h hp
      in case h of
           Some h' \<Rightarrow> (set_prev h' (Some e) hp, q\<lparr>qhead := Some e, qsize := qsize q + 1\<rparr>)
         | None \<Rightarrow> (hp, q\<lparr>qtail := Some e, qhead := Some e, qsize := qsize q + 1\<rparr>))"

definition tw_eventq_peek_head :: "tw_eventq \<Rightarrow> addr option" where
  "tw_eventq_peek_head q = qhead q"

definition tw_eventq_shift :: "tw_eventq \<Rightarrow> 'a heap \<Rightarrow> addr option \<times> 'a heap \<times> tw_eventq" where
  "tw_eventq_shift q hp =
     (case qhead q of
        None \<Rightarrow> (None, hp, q)
      | Some h \<Rightarrow>
          let n = nextp (hp h);
              (hp, q) = (case n of
                  Some n' \<Rightarrow> (set_prev n' None hp, q)
                | None \<Rightarrow> (hp, q\<lparr>qtail := None\<rparr>));
              q = q\<lparr>qhead := n, qsize := qsize q - 1\<rparr>
          in (Some h, set_next h None (set_prev h None hp), q))"

definition tw_eventq_delete_any :: "tw_eventq \<Rightarrow> addr \<Rightarrow> 'a heap \<Rightarrow> 'a heap \<times> tw_eventq" where
  "tw_eventq_delete_any q e hp =
     (let p = prevp (hp e);
          n = nextp (hp e);
          (hp, q) = (case p of Some p' \<Rightarrow> (set_next p' n hp, q) | None \<Rightarrow> (hp, q\<lparr>qhead := n\<rparr>));
          (hp, q) = (case n of Some n' \<Rightarrow> (set_prev n' p hp, q) | None \<Rightarrow> (hp, q\<lparr>qtail := p\<rparr>))
      in (set_next e None (set_prev e None hp), q\<lparr>qsize := qsize q - 1\<rparr>))"

definition tw_eventq_pop_list :: "tw_eventq \<Rightarrow> addr option \<times> tw_eventq" where
  "tw_eventq_pop_list q = (qhead q, q\<lparr>qsize := 0, qhead := None, qtail := None\<rparr>)"

text \<open>
  \<open>tw_eventq_splice\<close> cuts the sublist from \<open>h\<close> to \<open>t\<close>. It follows \<open>h->prev\<close> and \<open>t->next\<close>
  without testing them.
\<close>

definition tw_eventq_splice ::
  "tw_eventq \<Rightarrow> addr \<Rightarrow> addr \<Rightarrow> 64 word \<Rightarrow> 'a heap \<Rightarrow> ross_error + ('a heap \<times> tw_eventq)" where
  "tw_eventq_splice q h t cnt hp =
     (if Some h = qhead q \<and> Some t = qtail q
      then Inr (hp, q\<lparr>qsize := 0, qhead := None, qtail := None\<rparr>)
      else
        ebind (if Some h = qhead q then Inr (hp, q\<lparr>qhead := nextp (hp t)\<rparr>)
               else case prevp (hp h) of
                 None \<Rightarrow> Inl Bad_Pointer
               | Some p \<Rightarrow> Inr (set_next p (nextp (hp t)) hp, q)) (\<lambda>(hp, q).
        ebind (if Some t = qtail q then Inr (hp, q\<lparr>qtail := prevp (hp h)\<rparr>)
               else case nextp (hp t) of
                 None \<Rightarrow> Inl Bad_Pointer
               | Some n \<Rightarrow> Inr (set_prev n (prevp (hp h)) hp, q)) (\<lambda>(hp, q).
        Inr (hp, q\<lparr>qsize := qsize q - cnt\<rparr>))))"

text \<open>
  \<open>tw_eventq_push_list\<close> puts the sublist from \<open>h\<close> to \<open>t\<close> in front of a queue (the free
  list) and then runs over it backwards. What the loop does with each event (commit
  handler, output messages, delta memory, freeing the events it caused) is the argument
  \<open>body\<close>, which may change the heap and the queue: the calls are modelled with the
  processing element. The value \<open>None\<close> is a loop that does not end.
\<close>

type_synonym ('a, 's) qstate = "'a heap \<times> tw_eventq \<times> 's"

partial_function (option) push_list_loop ::
  "(addr \<Rightarrow> ('a, 's) qstate \<Rightarrow> ('a, 's) qstate) \<Rightarrow> addr \<Rightarrow> addr \<Rightarrow> ('a, 's) qstate
     \<Rightarrow> (ross_error + ('a, 's) qstate) option" where
  "push_list_loop body h e s =
     (let s' = body e s in
      if e = h then Some (Inr s')
      else case prevp (fst s' e) of
        None \<Rightarrow> Some (Inl Bad_Pointer)
      | Some p \<Rightarrow> push_list_loop body h p s')"

definition push_list_link ::
  "tw_eventq \<Rightarrow> addr \<Rightarrow> addr \<Rightarrow> 64 word \<Rightarrow> 'a heap \<Rightarrow> 'a heap \<times> tw_eventq" where
  "push_list_link q h t cnt hp =
     (let hp = set_next t (qhead q) hp;
          hp = (case qhead q of Some x \<Rightarrow> set_prev x (Some t) hp | None \<Rightarrow> hp);
          q = q\<lparr>qhead := Some h\<rparr>;
          hp = set_prev h None hp;
          q = (if qtail q = None then q\<lparr>qtail := Some t\<rparr> else q)
      in (hp, q\<lparr>qsize := qsize q + cnt\<rparr>))"

text \<open>
  The scan of \<open>tw_eventq_fossil_collect\<close>:
  \<open>for (h = t->prev, cnt = 1; h && (CMP_EVENT_TO_GVT(h, pe) < 0); cnt++) h = h->prev;\<close>
  The counter is an \<open>int\<close>; stepping it beyond $2^{31} - 1$ is an overflow.
\<close>

partial_function (option) fossil_scan ::
  "tw_event_sig \<Rightarrow> 'a heap \<Rightarrow> addr option \<Rightarrow> int \<Rightarrow> (ross_error + (addr option \<times> int)) option" where
  "fossil_scan gvt hp h cnt =
     (case h of
        None \<Rightarrow> Some (Inr (None, cnt))
      | Some a \<Rightarrow>
          if tw_event_sig_compare_ptr (qsig (hp a)) gvt < 0
          then (case i32 (cnt + 1) of
                  None \<Rightarrow> Some (Inl Int_Overflow)
                | Some cnt \<Rightarrow> fossil_scan gvt hp (prevp (hp a)) cnt)
          else Some (Inr (Some a, cnt)))"

text \<open>
  The part of \<open>tw_eventq_fossil_collect\<close> before \<open>tw_eventq_push_list\<close>: the new queue and,
  if anything is to be collected, the first and last event of the cut and their number.
\<close>

definition fossil_cut ::
  "tw_eventq \<Rightarrow> tw_event_sig \<Rightarrow> 'a heap
     \<Rightarrow> (ross_error + ('a heap \<times> tw_eventq \<times> (addr \<times> addr \<times> 64 word) option)) option" where
  "fossil_cut q gvt hp =
     (case qtail q of
        None \<Rightarrow> Some (Inr (hp, q, None))
      | Some t \<Rightarrow>
          if tw_event_sig_compare_ptr (qsig (hp t)) gvt \<ge> 0 then Some (Inr (hp, q, None))
          else case qhead q of
            None \<Rightarrow> Some (Inl Bad_Pointer)
          | Some h \<Rightarrow>
              if tw_event_sig_compare_ptr (qsig (hp h)) gvt < 0
              then Some (Inr (hp, q\<lparr>qhead := None, qtail := None, qsize := 0\<rparr>, Some (h, t, qsize q)))
              else case fossil_scan gvt hp (prevp (hp t)) 1 of
                None \<Rightarrow> None
              | Some (Inl err) \<Rightarrow> Some (Inl err)
              | Some (Inr (None, cnt)) \<Rightarrow> Some (Inl Bad_Pointer)
              | Some (Inr (Some n, cnt)) \<Rightarrow>
                  (case nextp (hp n) of
                     None \<Rightarrow> Some (Inl Bad_Pointer)
                   | Some h' \<Rightarrow>
                       Some (Inr (set_next n None hp,
                         q\<lparr>qtail := Some n, qsize := qsize q - word_of_int cnt\<rparr>,
                         Some (h', t, word_of_int cnt)))))"

definition tw_eventq_push_list ::
  "(addr \<Rightarrow> ('a, 's) qstate \<Rightarrow> ('a, 's) qstate) \<Rightarrow> addr \<Rightarrow> addr \<Rightarrow> 64 word \<Rightarrow> ('a, 's) qstate
     \<Rightarrow> (ross_error + ('a, 's) qstate) option" where
  "tw_eventq_push_list body h t cnt st =
     (case st of (hp, q, s) \<Rightarrow>
        let (hp, q) = push_list_link q h t cnt hp in push_list_loop body h t (hp, q, s))"

definition tw_eventq_fossil_collect ::
  "(addr \<Rightarrow> ('a, 's) qstate \<Rightarrow> ('a, 's) qstate) \<Rightarrow> tw_eventq \<Rightarrow> tw_event_sig \<Rightarrow> ('a, 's) qstate
     \<Rightarrow> (ross_error + (tw_eventq \<times> ('a, 's) qstate)) option" where
  "tw_eventq_fossil_collect body q gvt st =
     (case st of (hp, free_q, s) \<Rightarrow>
        (case fossil_cut q gvt hp of
           None \<Rightarrow> None
         | Some (Inl err) \<Rightarrow> Some (Inl err)
         | Some (Inr (hp, q', None)) \<Rightarrow> Some (Inr (q', hp, free_q, s))
         | Some (Inr (hp, q', Some (h, t, cnt))) \<Rightarrow>
             (case tw_eventq_push_list body h t cnt (hp, free_q, s) of
                None \<Rightarrow> None
              | Some (Inl err) \<Rightarrow> Some (Inl err)
              | Some (Inr st') \<Rightarrow> Some (Inr (q', st')))))"

text \<open>
  \<open>tw_eventq_alloc\<close>: the size of an event with its message is rounded up to a multiple of
  the alignment, and one block of \<open>cnt\<close> events at addresses \<open>b, b+1, ...\<close> (counted in
  events) is chained. \<open>z\<close> is an event of zeroes. The decrement of the \<open>unsigned int\<close> counter
  wraps, so a count of 0 runs over the end of the block.
\<close>

definition align_event_len :: "64 word \<Rightarrow> 64 word \<Rightarrow> 64 word" where
  "align_event_len align event_len =
     (if event_len AND (align - 1) \<noteq> 0
      then event_len + (align - (event_len AND (align - 1))) else event_len)"

text \<open>\<open>n\<close> rounds are left; the loop stands at event \<open>a\<close>.\<close>

fun alloc_loop :: "nat \<Rightarrow> addr \<Rightarrow> 'a heap \<Rightarrow> 'a heap \<times> addr" where
  "alloc_loop 0 a hp = (hp, a)"
| "alloc_loop (Suc n) a hp =
     alloc_loop n (Suc a)
       (set_next a (Some (Suc a)) (set_prev a (Some (a - 1)) (set_owner a TW_pe_free_q hp)))"

definition tw_eventq_alloc ::
  "'a qnode_scheme \<Rightarrow> addr \<Rightarrow> 32 word \<Rightarrow> 32 word \<Rightarrow> 'a heap \<Rightarrow> ross_error + ('a heap \<times> tw_eventq)" where
  "tw_eventq_alloc z b g_tw_gvt_threshold cnt hp =
     (let cnt = cnt + g_tw_gvt_threshold;
          hp = (\<lambda>a. if b \<le> a \<and> a < b + unat cnt then z else hp a) in
      if cnt = 0 then Inl Bad_Pointer
      else
        let (hp, event) = alloc_loop (unat (cnt - 1)) b hp;
            hp = set_prev event (Some (event - 1)) hp;
            hp = set_owner event TW_pe_free_q hp;
            hp = set_next event None hp;
            hp = set_prev b None hp
        in Inr (hp, \<lparr>qsize = ucast cnt, qhead = Some b, qtail = Some event\<rparr>))"

section \<open>Which list a queue holds\<close>

definition first_or :: "addr list \<Rightarrow> addr option \<Rightarrow> addr option" where
  "first_or xs n = (case xs of [] \<Rightarrow> n | x # _ \<Rightarrow> Some x)"

definition last_or :: "addr list \<Rightarrow> addr option \<Rightarrow> addr option" where
  "last_or xs p = (if xs = [] then p else Some (last xs))"

lemma first_or_simps [simp]:
  "first_or [] n = n" "first_or (x # xs) n = Some x"
  "first_or (xs @ ys) n = first_or xs (first_or ys n)"
  by (auto simp: first_or_def split: list.split)

lemma last_or_simps [simp]:
  "last_or [] p = p" "last_or (xs @ [x]) p = Some x" "last_or (x # xs) p = last_or xs (Some x)"
  "last_or (xs @ ys) p = last_or ys (last_or xs p)"
  by (auto simp: last_or_def)

text \<open>\<open>links hp p xs n\<close>: the events \<open>xs\<close> are chained between the neighbours \<open>p\<close> and \<open>n\<close>.\<close>

fun links :: "'a heap \<Rightarrow> addr option \<Rightarrow> addr list \<Rightarrow> addr option \<Rightarrow> bool" where
  "links hp p [] n \<longleftrightarrow> True"
| "links hp p (x # xs) n \<longleftrightarrow>
     prevp (hp x) = p \<and> nextp (hp x) = first_or xs n \<and> links hp (Some x) xs n"

definition eventq_rep :: "'a heap \<Rightarrow> tw_eventq \<Rightarrow> addr list \<Rightarrow> bool" where
  "eventq_rep hp q xs \<longleftrightarrow> distinct xs \<and> qhead q = first_or xs None \<and> qtail q = last_or xs None \<and>
     qsize q = of_nat (length xs) \<and> links hp None xs None"

lemma links_append [simp]:
  "links hp p (xs @ ys) n \<longleftrightarrow> links hp p xs (first_or ys n) \<and> links hp (last_or xs p) ys n"
  by (induction xs arbitrary: p) auto

lemma links_cong:
  "(\<And>a. a \<in> set xs \<Longrightarrow> prevp (hp' a) = prevp (hp a) \<and> nextp (hp' a) = nextp (hp a)) \<Longrightarrow>
     links hp' p xs n = links hp p xs n"
  by (induction xs arbitrary: p) auto

lemma links_other [simp]:
  "a \<notin> set xs \<Longrightarrow> links (set_next a v hp) p xs n = links hp p xs n"
  "a \<notin> set xs \<Longrightarrow> links (set_prev a v hp) p xs n = links hp p xs n"
  "links (set_owner a w hp) p xs n = links hp p xs n"
  by (intro links_cong; force)+

lemma links_first:
  "x \<notin> set xs \<Longrightarrow> links hp p (x # xs) n \<Longrightarrow> links (set_prev x v hp) v (x # xs) n"
  by simp

lemma links_last:
  "t \<notin> set ys \<Longrightarrow> links hp p (ys @ [t]) n \<Longrightarrow> links (set_next t v hp) p (ys @ [t]) v"
  by simp

lemma eventq_rep_empty [simp]: "eventq_rep hp empty_eventq []"
  by (simp add: eventq_rep_def empty_eventq_def)

lemma eventq_rep_cong:
  "(\<And>a. a \<in> set xs \<Longrightarrow> prevp (hp' a) = prevp (hp a) \<and> nextp (hp' a) = nextp (hp a)) \<Longrightarrow>
     eventq_rep hp' q xs = eventq_rep hp q xs"
  unfolding eventq_rep_def using links_cong by blast

lemma eventq_rep_unique: "eventq_rep hp q xs \<Longrightarrow> eventq_rep hp' q' xs \<Longrightarrow> q' = q"
  by (simp add: eventq_rep_def)

section \<open>The ends of a queue\<close>

text \<open>What an operation that touches only the events \<open>A\<close> leaves alone.\<close>

definition touches :: "addr set \<Rightarrow> 'a heap \<Rightarrow> 'a heap \<Rightarrow> bool" where
  "touches A hp hp' \<longleftrightarrow> (\<forall>a. a \<notin> A \<longrightarrow> hp' a = hp a) \<and>
     (\<forall>a. qsig (hp' a) = qsig (hp a) \<and> qowner (hp' a) = qowner (hp a))"

lemma touches_set [simp]:
  "touches A hp (set_next a v hp') \<longleftrightarrow> touches A hp hp'" if "a \<in> A"
  using that by (auto simp: touches_def set_next_def)

lemma touches_set' [simp]:
  "touches A hp (set_prev a v hp') \<longleftrightarrow> touches A hp hp'" if "a \<in> A"
  using that by (auto simp: touches_def set_prev_def)

lemma touches_refl [simp]: "touches A hp hp"
  by (simp add: touches_def)

lemma push_rep:
  assumes "eventq_rep hp q xs" "e \<notin> set xs" "tw_eventq_push q e hp = (hp', q')"
  shows "eventq_rep hp' q' (xs @ [e]) \<and> touches (insert e (set xs)) hp hp'"
  using assms
  by (cases xs rule: rev_cases) (auto simp: tw_eventq_push_def eventq_rep_def)

lemma unshift_rep:
  assumes "eventq_rep hp q xs" "e \<notin> set xs" "tw_eventq_unshift q e hp = (hp', q')"
  shows "eventq_rep hp' q' (e # xs) \<and> touches (insert e (set xs)) hp hp'"
  using assms
  by (cases xs) (auto simp: tw_eventq_unshift_def eventq_rep_def)

lemma pop_rep_Nil: "eventq_rep hp q [] \<Longrightarrow> tw_eventq_pop q hp = (None, hp, q)"
  by (auto simp: tw_eventq_pop_def eventq_rep_def)

lemma shift_rep_Nil: "eventq_rep hp q [] \<Longrightarrow> tw_eventq_shift q hp = (None, hp, q)"
  by (auto simp: tw_eventq_shift_def eventq_rep_def)

lemma pop_rep:
  assumes "eventq_rep hp q (xs @ [e])"
  shows "\<exists>hp' q'. tw_eventq_pop q hp = (Some e, hp', q') \<and> eventq_rep hp' q' xs \<and>
    touches (insert e (set xs)) hp hp' \<and> nextp (hp' e) = None \<and> prevp (hp' e) = None"
  using assms
  by (cases xs rule: rev_cases) (auto simp: tw_eventq_pop_def eventq_rep_def)

lemma shift_rep:
  assumes "eventq_rep hp q (e # xs)"
  shows "\<exists>hp' q'. tw_eventq_shift q hp = (Some e, hp', q') \<and> eventq_rep hp' q' xs \<and>
    touches (insert e (set xs)) hp hp' \<and> nextp (hp' e) = None \<and> prevp (hp' e) = None"
  using assms
  by (cases xs) (auto simp: tw_eventq_shift_def eventq_rep_def)

lemma delete_any_rep:
  assumes "eventq_rep hp q (ys @ e # zs)" "tw_eventq_delete_any q e hp = (hp', q')"
  shows "eventq_rep hp' q' (ys @ zs) \<and> touches (insert e (set ys \<union> set zs)) hp hp' \<and>
    nextp (hp' e) = None \<and> prevp (hp' e) = None"
  using assms
  by (cases ys rule: rev_cases; cases zs) (auto simp: tw_eventq_delete_any_def eventq_rep_def)

section \<open>Cutting a sublist\<close>

lemma first_or_ne: "xs \<noteq> [] \<Longrightarrow> first_or xs n = Some (hd xs)"
  by (cases xs) auto

lemma last_or_ne: "xs \<noteq> [] \<Longrightarrow> last_or xs p = Some (last xs)"
  by (simp add: last_or_def)

lemma links_first_last:
  assumes "links hp p xs n" "xs \<noteq> []"
  shows "prevp (hp (hd xs)) = p" "nextp (hp (last xs)) = n"
proof -
  show "prevp (hp (hd xs)) = p" using assms by (cases xs) auto
  show "nextp (hp (last xs)) = n" using assms by (cases xs rule: rev_cases) auto
qed

lemma splice_rep:
  assumes rep: "eventq_rep hp q (ys @ ms @ zs)" and ms: "ms \<noteq> []"
    and cnt: "cnt = of_nat (length ms)"
  shows "\<exists>hp' q'. tw_eventq_splice q (hd ms) (last ms) cnt hp = Inr (hp', q') \<and>
    eventq_rep hp' q' (ys @ zs) \<and> touches (set ys \<union> set zs) hp hp'"
proof -
  have d: "distinct (ys @ ms @ zs)" and l: "links hp None (ys @ ms @ zs) None"
    using rep by (auto simp: eventq_rep_def)
  have q: "qhead q = first_or ys (Some (hd ms))" "qtail q = last_or zs (Some (last ms))"
    "qsize q = of_nat (length (ys @ zs)) + cnt"
    using rep ms cnt by (auto simp: eventq_rep_def first_or_ne last_or_ne)
  have lk: "prevp (hp (hd ms)) = last_or ys None" "nextp (hp (last ms)) = first_or zs None"
    using l links_first_last[of hp "last_or ys None" ms "first_or zs None"] ms by auto
  have nin: "hd ms \<notin> set ys" "last ms \<notin> set zs" 
    using d hd_in_set[OF ms] last_in_set[OF ms] by auto
  have hq: "Some (hd ms) = qhead q \<longleftrightarrow> ys = []"
    using nin q(1) by (cases ys) auto
  have tq: "Some (last ms) = qtail q \<longleftrightarrow> zs = []"
    using nin q(2) by (cases zs rule: rev_cases) auto
  have ne: "zs \<noteq> [] \<Longrightarrow> last ms \<noteq> last zs" "ys \<noteq> [] \<Longrightarrow> hd ms \<noteq> hd ys"
    using nin by force+
  have ly: "links hp None ys (Some (hd ms))" and lz: "links hp (Some (last ms)) zs None"
    using l ms by (simp_all add: first_or_ne last_or_ne)
  have dd: "distinct ys" "distinct zs" "set ys \<inter> set zs = {}" using d by auto
  let ?hp1 = "if ys = [] then hp else set_next (last ys) (first_or zs None) hp"
  let ?hp2 = "if zs = [] then ?hp1 else set_prev (hd zs) (last_or ys None) ?hp1"
  have sz: "qsize q - cnt = of_nat (length (ys @ zs))" using q(3) by simp
  have "\<exists>q'. tw_eventq_splice q (hd ms) (last ms) cnt hp = Inr (?hp2, q') \<and>
      qhead q' = first_or (ys @ zs) None \<and> qtail q' = last_or (ys @ zs) None \<and>
      qsize q' = of_nat (length (ys @ zs))"
  proof (cases "ys = []"; cases "zs = []")
    assume c: "ys = []" "zs = []"
    then show ?thesis unfolding tw_eventq_splice_def using hq tq by simp
  next
    assume c: "ys = []" "zs \<noteq> []"
    then show ?thesis unfolding tw_eventq_splice_def hq tq using q lk sz ne
      by (simp add: first_or_ne last_or_ne)
  next
    assume c: "ys \<noteq> []" "zs = []"
    then show ?thesis unfolding tw_eventq_splice_def hq tq using q lk sz ne
      by (simp add: first_or_ne last_or_ne)
  next
    assume c: "ys \<noteq> []" "zs \<noteq> []"
    moreover have "last ms \<noteq> last ys" "hd ms \<noteq> hd zs" "last ys \<noteq> hd zs"
      using d hd_in_set[OF ms] last_in_set[OF ms] last_in_set[OF c(1)] hd_in_set[OF c(2)]
      by fastforce+
    ultimately show ?thesis unfolding tw_eventq_splice_def hq tq using q lk sz ne
      by (simp add: first_or_ne last_or_ne)
  qed
  moreover have "links ?hp2 None (ys @ zs) None"
  proof (cases zs)
    case Nil
    then show ?thesis using ly dd by (cases ys rule: rev_cases) auto
  next
    case (Cons z zs')
    then show ?thesis using ly lz dd by (cases ys rule: rev_cases) auto
  qed
  moreover have "touches (set ys \<union> set zs) hp ?hp2" by simp
  ultimately show ?thesis using dd unfolding eventq_rep_def by force
qed

lemma push_list_link_rep:
  assumes "eventq_rep hp q old" "links hp p ms n" "ms \<noteq> []" "distinct ms"
    "set ms \<inter> set old = {}" "cnt = of_nat (length ms)"
    "push_list_link q (hd ms) (last ms) cnt hp = (hp', q')"
  shows "eventq_rep hp' q' (ms @ old) \<and> touches (set ms \<union> set old) hp hp'"
proof -
  have hl: "hd ms \<in> set ms" "last ms \<in> set ms" "hd ms \<notin> set old" "last ms \<notin> set old"
    using assms(3,5) hd_in_set[of ms] last_in_set[of ms] by blast+
  have l: "links (set_prev (hd ms) None (set_next (last ms) v hp)) None ms v" for v
  proof (cases ms rule: rev_cases)
    case (snoc ys t)
    then show ?thesis
      using assms(2,4) by (cases ys) auto
  qed (use assms(3) in simp)
  have l': "links (set_prev (hd ms) None (set_prev x w (set_next (last ms) v hp))) None ms v"
    if "x \<notin> set ms" for v w x
    using l[of v] that by (subst links_cong[where hp = "set_prev (hd ms) None (set_next (last ms) v hp)"]) auto
  show ?thesis
    using assms hl l l'
    by (cases old) (auto simp: push_list_link_def eventq_rep_def first_or_ne last_or_def Let_def)
qed

section \<open>Fossil collection\<close>

lemma push_list_loop_rep:
  assumes body: "\<And>e hp q s xs. e \<in> set ms \<Longrightarrow> eventq_rep hp q xs \<Longrightarrow> set ms \<union> set old \<subseteq> set xs \<Longrightarrow>
      Inv hp xs \<Longrightarrow> \<exists>hp' q' s' fs. body e (hp, q, s) = (hp', q', s') \<and> eventq_rep hp' q' (fs @ xs) \<and>
        Inv hp' (fs @ xs)"
    and "eventq_rep hp q (fs @ ms @ old)" "ms = m1 @ e # m2" "Inv hp (fs @ ms @ old)"
  shows "\<exists>hp' q' s' fs'. push_list_loop body (hd ms) e (hp, q, s) = Some (Inr (hp', q', s')) \<and>
    (hp', q', s') = fold body (rev (m1 @ [e])) (hp, q, s) \<and>
    eventq_rep hp' q' (fs' @ ms @ old) \<and> Inv hp' (fs' @ ms @ old)"
  using assms(2-)
proof (induction m1 arbitrary: e m2 hp q s fs rule: rev_induct)
  case Nil
  obtain hp' q' s' fs' where b: "body e (hp, q, s) = (hp', q', s')"
    "eventq_rep hp' q' (fs' @ fs @ ms @ old)" "Inv hp' (fs' @ fs @ ms @ old)"
    using body[OF _ Nil(1) _ Nil(3), of e s] Nil(2) by fastforce
  have "fold body (rev ([] @ [e])) (hp, q, s) = (hp', q', s')" using b(1) by simp
  moreover have "push_list_loop body (hd ms) e (hp, q, s) = Some (Inr (hp', q', s'))"
    by (subst push_list_loop.simps) (simp add: b(1) Nil(2))
  ultimately show ?case using b by (metis append.assoc)
next
  case (snoc p m1)
  obtain hp' q' s' fs' where b: "body e (hp, q, s) = (hp', q', s')"
    "eventq_rep hp' q' (fs' @ fs @ ms @ old)" "Inv hp' (fs' @ fs @ ms @ old)"
    using body[OF _ snoc.prems(1) _ snoc.prems(3), of e s] snoc.prems(2) by fastforce
  have ms: "ms = m1 @ p # e # m2" using snoc.prems(2) by simp
  have "prevp (hp' e) = Some p"
    using b(2) by (simp add: ms eventq_rep_def)
  moreover have "e \<noteq> hd ms"
    using snoc.prems(1) unfolding ms by (cases m1) (auto simp: eventq_rep_def)
  ultimately have "push_list_loop body (hd ms) e (hp, q, s) = push_list_loop body (hd ms) p (hp', q', s')"
    by (subst push_list_loop.simps) (simp add: b(1))
  moreover have "\<exists>hp'' q'' s'' fs''. push_list_loop body (hd ms) p (hp', q', s') = Some (Inr (hp'', q'', s'')) \<and>
    (hp'', q'', s'') = fold body (rev (m1 @ [p])) (hp', q', s') \<and>
    eventq_rep hp'' q'' (fs'' @ ms @ old) \<and> Inv hp'' (fs'' @ ms @ old)"
    using b(2,3) by (intro snoc.IH[where fs = "fs' @ fs"]) (simp_all add: ms)
  moreover have "fold body (rev ((m1 @ [p]) @ [e])) (hp, q, s) = fold body (rev (m1 @ [p])) (hp', q', s')"
    by (simp add: b(1))
  ultimately show ?case by simp
qed

text \<open>The scan stops at the last event that is not older than the bound.\<close>

lemma fossil_scan_rep:
  assumes "links hp None xs n" "ks @ [k] @ os = xs"
    "\<forall>a \<in> set os. tw_event_sig_compare_ptr (qsig (hp a)) gvt < 0"
    "\<not> tw_event_sig_compare_ptr (qsig (hp k)) gvt < 0" "0 \<le> c" "c + int (length os) < 2147483648"
  shows "fossil_scan gvt hp (Some (last (k # os))) c = Some (Inr (Some k, c + int (length os)))"
  using assms
proof (induction os arbitrary: xs n c rule: rev_induct)
  case Nil
  then show ?case by (subst fossil_scan.simps) simp
next
  case (snoc t os)
  have "links hp None (ks @ [k] @ os) (Some t)" "prevp (hp t) = Some (last (k # os))"
    using snoc.prems(1) unfolding snoc.prems(2)[symmetric] by (auto simp: last_or_def)
  moreover from this have "fossil_scan gvt hp (Some (last (k # os))) (c + 1)
      = Some (Inr (Some k, c + 1 + int (length os)))"
    using snoc.prems by (intro snoc.IH) auto
  moreover have "i32 (c + 1) = Some (c + 1)" using snoc.prems(5,6) by simp
  ultimately show ?case
    using snoc.prems(3) by (subst fossil_scan.simps) (simp add: algebra_simps)
qed

lemma fossil_cut_rep:
  assumes rep: "eventq_rep hp q (ks @ os)"
    and os: "\<forall>a \<in> set os. tw_event_sig_compare_ptr (qsig (hp a)) gvt < 0"
    and ks: "\<forall>a \<in> set ks. \<not> tw_event_sig_compare_ptr (qsig (hp a)) gvt < 0"
    and lt: "ks = [] \<or> length os < 2 ^ 31"
  shows "\<exists>hp' q' cut. fossil_cut q gvt hp = Some (Inr (hp', q', cut)) \<and> eventq_rep hp' q' ks \<and>
    touches (set ks) hp hp' \<and>
    cut = (if os = [] then None else Some (hd os, last os, of_nat (length os)))"
proof -
  have q: "qhead q = first_or (ks @ os) None" "qtail q = last_or (ks @ os) None"
    "qsize q = of_nat (length ks) + of_nat (length os)" "links hp None (ks @ os) None"
    "distinct (ks @ os)"
    using rep by (simp_all add: eventq_rep_def)
  show ?thesis
  proof (cases "os = []")
    case True
    then show ?thesis
      using rep q ks by (cases ks rule: rev_cases) (auto simp: fossil_cut_def)
  next
    case os0: False
    have t: "qtail q = Some (last os)" "tw_event_sig_compare_ptr (qsig (hp (last os))) gvt < 0"
      using q os os0 by (auto simp: last_or_ne)
    show ?thesis
    proof (cases ks rule: rev_cases)
      case Nil
      then show ?thesis
        using q t os os0 by (simp add: not_le fossil_cut_def first_or_ne last_or_ne eventq_rep_def)
    next
      case (snoc ks' k)
      obtain os' where os': "os = os' @ [last os]" using os0 by (metis append_butlast_last_id)
      have h: "qhead q = Some (hd ks)" "\<not> tw_event_sig_compare_ptr (qsig (hp (hd ks))) gvt < 0"
      proof -
        have "ks \<noteq> []" using snoc by simp
        then show "qhead q = Some (hd ks)" "\<not> tw_event_sig_compare_ptr (qsig (hp (hd ks))) gvt < 0"
          using q(1) ks by (simp_all add: first_or_ne)
      qed
      have l: "links hp None (ks @ os') (Some (last os))" "prevp (hp (last os)) = Some (last (k # os'))"
        using q(4) by (subst (asm) os', simp add: snoc last_or_def)+
      have scan: "fossil_scan gvt hp (Some (last (k # os'))) 1 = Some (Inr (Some k, 1 + int (length os')))"
      proof (rule fossil_scan_rep[OF l(1)])
        show "\<forall>a\<in>set os'. tw_event_sig_compare_ptr (qsig (hp a)) gvt < 0"
          using os by (subst (asm) os') simp
        show "1 + int (length os') < 2147483648"
          using lt snoc arg_cong[OF os', of length] by simp
      qed (use ks snoc in auto)
      have len: "1 + of_nat (length os') = (of_nat (length os) :: 64 word)"
        using arg_cong[OF os', of length] by simp
      have n: "nextp (hp k) = Some (hd os)"
        using q(4) os0 by (simp add: snoc first_or_ne)
      have "fossil_cut q gvt hp = Some (Inr (set_next k None hp,
          q\<lparr>qtail := Some k, qsize := qsize q - of_nat (length os)\<rparr>,
          Some (hd os, last os, of_nat (length os))))"
        unfolding fossil_cut_def using t h n scan l(2) by (simp add: len)
      moreover have "eventq_rep (set_next k None hp)
          (q\<lparr>qtail := Some k, qsize := qsize q - of_nat (length os)\<rparr>) ks"
        using q(1,3,4,5) by (auto simp: eventq_rep_def snoc)
      ultimately show ?thesis using os0 snoc by auto
    qed
  qed
qed

text \<open>
  C37: Fossil collection of a queue whose events are in descending order, oldest last.
  The loops end; the events older than GVT, and only they, leave the queue; the body runs
  on each of them exactly once, oldest first; and they are in front of the free list,
  behind what the body freed on the way. The body may change the heap and the free list as
  long as it keeps both queues' links (\<open>Inv\<close> stands for any further condition it relies on).
  Where only a part of the queue is cut off, its \<open>int\<close> counter must be able to count the part.
\<close>

definition sig_older :: "'a heap \<Rightarrow> tw_event_sig \<Rightarrow> addr \<Rightarrow> bool" where
  "sig_older hp gvt a \<longleftrightarrow> tw_event_sig_compare_ptr (qsig (hp a)) gvt < 0"

theorem fossil_collect_commits_oldest_first:
  assumes q: "eventq_rep hp q (ks @ os)" "\<forall>a \<in> set ks. \<not> sig_older hp gvt a" "\<forall>a \<in> set os. sig_older hp gvt a"
    and lt: "ks = [] \<or> length os < 2 ^ 31"
    and free: "eventq_rep hp fq old" "set old \<inter> set (ks @ os) = {}"
    and body: "\<And>e hp fq s xs. e \<in> set os \<Longrightarrow> eventq_rep hp fq xs \<Longrightarrow> set os \<union> set old \<subseteq> set xs \<Longrightarrow>
      (\<exists>q. eventq_rep hp q ks) \<and> set ks \<inter> set xs = {} \<Longrightarrow>
      \<exists>hp' fq' s' fs. body e (hp, fq, s) = (hp', fq', s') \<and> eventq_rep hp' fq' (fs @ xs) \<and>
        set ks \<inter> set (fs @ xs) = {} \<and>
        (\<forall>a \<in> set ks. nextp (hp' a) = nextp (hp a) \<and> prevp (hp' a) = prevp (hp a))"
  shows "\<exists>q' hp' fq' s' fs hp1 fq1.
    tw_eventq_fossil_collect body q gvt (hp, fq, s) = Some (Inr (q', hp', fq', s')) \<and>
    eventq_rep hp' q' ks \<and> eventq_rep hp' fq' (fs @ os @ old) \<and>
    (hp', fq', s') = fold body (rev os) (hp1, fq1, s) \<and> eventq_rep hp1 fq1 (os @ old)"
proof -
  define Inv where "Inv = (\<lambda>(hp :: 'a heap) xs. (\<exists>q. eventq_rep hp q ks) \<and> set ks \<inter> set xs = {})"
  obtain hp1 q' cut where c: "fossil_cut q gvt hp = Some (Inr (hp1, q', cut))" "eventq_rep hp1 q' ks"
    "touches (set ks) hp hp1" "cut = (if os = [] then None else Some (hd os, last os, of_nat (length os)))"
    using fossil_cut_rep[OF q(1)] q(2,3) lt unfolding sig_older_def by blast
  have d: "distinct os" "set ks \<inter> set os = {}" using q(1) by (auto simp: eventq_rep_def)
  have old1: "eventq_rep hp1 fq old"
    using c(3) free by (subst eventq_rep_cong[where hp = hp]) (auto simp: touches_def)
  show ?thesis
  proof (cases "os = []")
    case True
    then have "tw_eventq_fossil_collect body q gvt (hp, fq, s) = Some (Inr (q', hp1, fq, s))"
      using c by (simp add: tw_eventq_fossil_collect_def)
    moreover have "eventq_rep hp1 fq ([] @ os @ old)" using old1 True by simp
    ultimately show ?thesis using c(2) True by fastforce
  next
    case False
    obtain hp2 fq2 where l: "push_list_link fq (hd os) (last os) (of_nat (length os)) hp1 = (hp2, fq2)"
      by (cases "push_list_link fq (hd os) (last os) (of_nat (length os)) hp1")
    have "links hp1 (last_or ks None) os None"
      using q(1) c(3) d by (subst links_cong[where hp = hp]) (auto simp: touches_def eventq_rep_def)
    then have r: "eventq_rep hp2 fq2 (os @ old)" "touches (set os \<union> set old) hp1 hp2"
      using push_list_link_rep[OF old1 _ False d(1) _ refl l] free(2) by auto
    have dj: "set ks \<inter> (set os \<union> set old) = {}" using d(2) free(2) by auto
    have "eventq_rep hp2 q' ks"
      using c(2) r(2) dj by (subst eventq_rep_cong[where hp = hp1]) (auto simp: touches_def)
    then have inv: "Inv hp2 ([] @ os @ old)" using dj by (auto simp: Inv_def)
    obtain m e where os: "os = m @ [e]" using False by (metis append_butlast_last_id)
    have b: "\<exists>hp' q' s' fs. body e (hp, q, s) = (hp', q', s') \<and> eventq_rep hp' q' (fs @ xs) \<and> Inv hp' (fs @ xs)"
      if a: "e \<in> set os" "eventq_rep hp q xs" "set os \<union> set old \<subseteq> set xs" and i: "Inv hp xs" for e hp q s xs
    proof -
      obtain qk where qk: "eventq_rep hp qk ks" using i by (auto simp: Inv_def)
      obtain hp' q' s' fs where b: "body e (hp, q, s) = (hp', q', s')" "eventq_rep hp' q' (fs @ xs)"
        "set ks \<inter> set (fs @ xs) = {}"
        "\<forall>a \<in> set ks. nextp (hp' a) = nextp (hp a) \<and> prevp (hp' a) = prevp (hp a)"
        using body[OF a i[unfolded Inv_def]] by blast
      moreover have "eventq_rep hp' qk ks"
        using qk b(4) by (subst eventq_rep_cong[where hp = hp]) auto
      ultimately show ?thesis unfolding Inv_def by blast
    qed
    obtain hp' fq' s' fs where f: "push_list_loop body (hd os) e (hp2, fq2, s) = Some (Inr (hp', fq', s'))"
      "(hp', fq', s') = fold body (rev (m @ [e])) (hp2, fq2, s)" "eventq_rep hp' fq' (fs @ os @ old)"
      "Inv hp' (fs @ os @ old)"
      using push_list_loop_rep[where body = body and Inv = Inv and old = old and ms = os and fs = "[]"
          and hp = hp2 and q = fq2 and ?m1.0 = m and e = e and ?m2.0 = "[]" and s = s, OF b] inv r(1) os
      by auto
    have "eventq_rep hp' q' ks" using f(4) c(2) eventq_rep_unique by (fastforce simp: Inv_def)
    moreover have "tw_eventq_fossil_collect body q gvt (hp, fq, s) = Some (Inr (q', hp', fq', s'))"
      using c(1,4) False l f(1) os
      by (simp add: tw_eventq_fossil_collect_def tw_eventq_push_list_def)
    ultimately show ?thesis using f(2,3) r(1) unfolding os[symmetric] by blast
  qed
qed

section \<open>The queue as a deque\<close>

text \<open>
  What the users of a queue rely on: the processed events of a KP are pushed and popped at
  the head, events that wait for the network enter at the tail and leave at the head.
\<close>

text \<open>Take \<open>n\<close> times.\<close>

fun drain :: "nat \<Rightarrow> ('s \<Rightarrow> 'e option \<times> 's) \<Rightarrow> 's \<Rightarrow> 'e option list" where
  "drain 0 f s = []"
| "drain (Suc n) f s = (let (e, s') = f s in e # drain n f s')"

locale deque =
  fixes rep :: "'s \<Rightarrow> 'e list \<Rightarrow> bool"
    and push :: "'e \<Rightarrow> 's \<Rightarrow> 's" and unshift :: "'e \<Rightarrow> 's \<Rightarrow> 's"
    and pop :: "'s \<Rightarrow> 'e option \<times> 's" and shift :: "'s \<Rightarrow> 'e option \<times> 's"
  assumes push: "rep s xs \<Longrightarrow> e \<notin> set xs \<Longrightarrow> rep (push e s) (xs @ [e])"
    and unshift: "rep s xs \<Longrightarrow> e \<notin> set xs \<Longrightarrow> rep (unshift e s) (e # xs)"
    and pop: "rep s (xs @ [e]) \<Longrightarrow> \<exists>s'. pop s = (Some e, s') \<and> rep s' xs"
    and shift: "rep s (e # xs) \<Longrightarrow> \<exists>s'. shift s = (Some e, s') \<and> rep s' xs"
    and empty: "rep s [] \<Longrightarrow> pop s = (None, s) \<and> shift s = (None, s)"
begin

lemma fold_push: "rep s xs \<Longrightarrow> distinct (xs @ es) \<Longrightarrow> rep (fold push es s) (xs @ es)"
proof (induction es arbitrary: s xs)
  case (Cons e es)
  have "rep (fold push es (push e s)) ((xs @ [e]) @ es)"
    using Cons.prems by (intro Cons.IH push) auto
  then show ?case by simp
qed simp

lemma fold_unshift: "rep s xs \<Longrightarrow> distinct (es @ xs) \<Longrightarrow> rep (fold unshift es s) (rev es @ xs)"
proof (induction es arbitrary: s xs)
  case (Cons e es)
  have "rep (fold unshift es (unshift e s)) (rev es @ e # xs)"
    using Cons.prems by (intro Cons.IH unshift) auto
  then show ?case by simp
qed simp

lemma drain_shift: "rep s (xs @ ys) \<Longrightarrow> drain (length xs) shift s = map Some xs"
proof (induction xs arbitrary: s)
  case (Cons x xs)
  then show ?case using shift[of s x "xs @ ys"] by auto
qed simp

lemma drain_pop: "rep s (ys @ xs) \<Longrightarrow> drain (length xs) pop s = map Some (rev xs)"
proof (induction xs arbitrary: s rule: rev_induct)
  case (snoc x xs)
  then show ?case using pop[of s "ys @ xs" x] by auto
qed simp

lemma fifo:
  assumes "rep s xs" "distinct (xs @ es)"
  shows "drain (length (xs @ es)) shift (fold push es s) = map Some (xs @ es)"
  using drain_shift[of _ "xs @ es" "[]"] fold_push[OF assms] by simp

lemma lifo:
  assumes "rep s xs" "distinct (es @ xs)"
  shows "drain (length (es @ xs)) shift (fold unshift es s) = map Some (rev es @ xs)"
  using drain_shift[of _ "rev es @ xs" "[]"] fold_unshift[OF assms] by simp

end

text \<open>The operations with the queue and its heap as one state.\<close>

definition eq_push :: "addr \<Rightarrow> 'a heap \<times> tw_eventq \<Rightarrow> 'a heap \<times> tw_eventq" where
  "eq_push e s = (case s of (hp, q) \<Rightarrow> tw_eventq_push q e hp)"

definition eq_unshift :: "addr \<Rightarrow> 'a heap \<times> tw_eventq \<Rightarrow> 'a heap \<times> tw_eventq" where
  "eq_unshift e s = (case s of (hp, q) \<Rightarrow> tw_eventq_unshift q e hp)"

definition eq_pop :: "'a heap \<times> tw_eventq \<Rightarrow> addr option \<times> 'a heap \<times> tw_eventq" where
  "eq_pop s = (case s of (hp, q) \<Rightarrow> tw_eventq_pop q hp)"

definition eq_shift :: "'a heap \<times> tw_eventq \<Rightarrow> addr option \<times> 'a heap \<times> tw_eventq" where
  "eq_shift s = (case s of (hp, q) \<Rightarrow> tw_eventq_shift q hp)"

definition eq_rep :: "'a heap \<times> tw_eventq \<Rightarrow> addr list \<Rightarrow> bool" where
  "eq_rep s xs = (case s of (hp, q) \<Rightarrow> eventq_rep hp q xs)"

interpretation eq: deque eq_rep eq_push eq_unshift eq_pop eq_shift
proof (unfold_locales, goal_cases)
  case (1 s xs e)
  then show ?case by (cases s; cases "eq_push e s") (auto simp: eq_rep_def eq_push_def dest: push_rep)
next
  case (2 s xs e)
  then show ?case by (cases s; cases "eq_unshift e s") (auto simp: eq_rep_def eq_unshift_def dest: unshift_rep)
next
  case (3 s xs e)
  then show ?case using pop_rep by (cases s) (fastforce simp: eq_rep_def eq_pop_def)
next
  case (4 s e xs)
  then show ?case using shift_rep by (cases s) (fastforce simp: eq_rep_def eq_shift_def)
next
  case (5 s)
  then show ?case by (cases s) (auto simp: eq_rep_def eq_pop_def eq_shift_def pop_rep_Nil shift_rep_Nil)
qed

text \<open>
  Events pushed at the tail come out at the head in the order they went in, behind
  those that were there; the queue's size counts them.
\<close>

theorem eventq_fifo:
  assumes "eventq_rep hp q xs" "distinct (xs @ es)"
  shows "drain (length (xs @ es)) eq_shift (fold eq_push es (hp, q)) = map Some (xs @ es) \<and>
    qsize (snd (fold eq_push es (hp, q))) = of_nat (length xs + length es)"
proof -
  have r: "eq_rep (hp, q) xs" using assms by (simp add: eq_rep_def)
  have "qsize (snd (fold eq_push es (hp, q))) = of_nat (length (xs @ es))"
    using eq.fold_push[OF r assms(2)] by (auto simp: eq_rep_def eventq_rep_def split: prod.splits)
  with eq.fifo[OF r assms(2)] show ?thesis by simp
qed

definition zero_node :: qnode where
  "zero_node = \<lparr>nextp = None, prevp = None, qowner = TW_pe_free_q, qsig = g_tw_max_sig\<rparr>"

theorem eventq_fifo_witness:
  "drain 3 eq_shift (fold eq_push [5, 3, 8] (\<lambda>_. zero_node, empty_eventq)) = [Some 5, Some 3, Some 8]"
  using eventq_fifo[of "\<lambda>_. zero_node" empty_eventq "[]" "[5, 3, 8]"] by (simp add: eval_nat_numeral)

text \<open>
  Events put at the head come out at the head in reverse order: the processed events of
  a KP are undone last one first.
\<close>

theorem eventq_lifo:
  assumes "eventq_rep hp q xs" "distinct (es @ xs)"
  shows "drain (length (es @ xs)) eq_shift (fold eq_unshift es (hp, q)) = map Some (rev es @ xs)"
  using eq.lifo[of "(hp, q)" xs es] assms by (simp add: eq_rep_def)

theorem eventq_lifo_witness:
  "drain 3 eq_shift (fold eq_unshift [5, 3, 8] (\<lambda>_. zero_node, empty_eventq)) = [Some 8, Some 3, Some 5]"
  using eventq_lifo[of "\<lambda>_. zero_node" empty_eventq "[]" "[5, 3, 8]"] by (simp add: eval_nat_numeral)

text \<open>
  Deleting an event from anywhere in a queue removes exactly it, keeps the order of the
  others, clears its two pointers, and writes to no event outside the queue.
\<close>

theorem eventq_delete_any:
  assumes "eventq_rep hp q xs" "e \<in> set xs"
  shows "\<exists>hp' q'. tw_eventq_delete_any q e hp = (hp', q') \<and> eventq_rep hp' q' (remove1 e xs) \<and>
    nextp (hp' e) = None \<and> prevp (hp' e) = None \<and> (\<forall>a. a \<notin> set xs \<longrightarrow> hp' a = hp a)"
proof -
  obtain ys zs where xs: "xs = ys @ e # zs" using assms(2) by (meson split_list)
  have "e \<notin> set ys" using assms(1) xs by (auto simp: eventq_rep_def)
  then show ?thesis
    using assms(1) delete_any_rep unfolding xs
    by (cases "tw_eventq_delete_any q e hp") (fastforce simp: remove1_mid touches_def)
qed

theorem eventq_delete_any_witness:
  "\<exists>hp' q'. (case fold eq_push [5, 3, 8] (\<lambda>_. zero_node, empty_eventq) of (hp, q) \<Rightarrow>
     tw_eventq_delete_any q 3 hp = (hp', q') \<and> eventq_rep hp' q' [5, 8])"
proof -
  have "eq_rep (fold eq_push [5, 3, 8] (\<lambda>_. zero_node, empty_eventq)) [5, 3, 8]"
    using eq.fold_push[of "(\<lambda>_. zero_node, empty_eventq)" "[]" "[5, 3, 8]"]
    by (simp add: eq_rep_def)
  then show ?thesis
    using eventq_delete_any[where e = 3 and xs = "[5, 3, 8]"] by (fastforce simp: eq_rep_def)
qed

text \<open>
  Cutting the sublist from its first to its last event out of a queue, given its
  length, follows no \<open>NULL\<close> pointer and leaves the events before and after it.
\<close>

theorem eventq_splice:
  assumes "eventq_rep hp q (ys @ ms @ zs)" "ms \<noteq> []"
  shows "\<exists>hp' q'. tw_eventq_splice q (hd ms) (last ms) (of_nat (length ms)) hp = Inr (hp', q') \<and>
    eventq_rep hp' q' (ys @ zs)"
  using splice_rep[OF assms refl] by blast

theorem eventq_splice_witness:
  "\<exists>hp' q'. (case fold eq_push [5, 3, 8, 4] (\<lambda>_. zero_node, empty_eventq) of (hp, q) \<Rightarrow>
     tw_eventq_splice q 3 8 2 hp = Inr (hp', q') \<and> eventq_rep hp' q' [5, 4])"
proof -
  have "eq_rep (fold eq_push [5, 3, 8, 4] (\<lambda>_. zero_node, empty_eventq)) [5, 3, 8, 4]"
    using eq.fold_push[of "(\<lambda>_. zero_node, empty_eventq)" "[]" "[5, 3, 8, 4]"]
    by (simp add: eq_rep_def)
  then show ?thesis
    using eventq_splice[where ys = "[5]" and ms = "[3, 8]" and zs = "[4]"] by (fastforce simp: eq_rep_def)
qed

section \<open>Allocating the free list\<close>

lemma alloc_loop_value:
  "alloc_loop n a hp = (hp', e) \<Longrightarrow> e = a + n \<and>
     (\<forall>x. nextp (hp' x) = (if a \<le> x \<and> x < a + n then Some (Suc x) else nextp (hp x)) \<and>
       prevp (hp' x) = (if a \<le> x \<and> x < a + n then Some (x - 1) else prevp (hp x)) \<and>
       qowner (hp' x) = (if a \<le> x \<and> x < a + n then TW_pe_free_q else qowner (hp x)))"
proof (induction n arbitrary: a hp)
  case (Suc n)
  from Suc.IH[of "Suc a"] Suc.prems show ?case by fastforce
qed auto

lemma links_upt:
  assumes "\<And>x. a \<le> x \<Longrightarrow> x < a + n \<Longrightarrow> nextp (hp x) = (if Suc x = a + n then t else Some (Suc x)) \<and>
      prevp (hp x) = (if x = a then p else Some (x - 1))"
  shows "links hp p [a..<a + n] t"
  using assms
proof (induction n arbitrary: a p)
  case (Suc n)
  have "links hp (Some a) [Suc a..<Suc a + n] t"
    using Suc.prems by (intro Suc.IH) auto
  moreover have "[a..<a + Suc n] = a # [Suc a..<Suc a + n]" by (simp add: upt_conv_Cons)
  moreover have "first_or [Suc a..<Suc a + n] t = (if n = 0 then t else Some (Suc a))"
    by (auto simp: first_or_def upt_conv_Cons simp del: upt_Suc)
  ultimately show ?case using Suc.prems[of a] by simp
qed simp

text \<open>
  \<open>tw_eventq_alloc\<close> builds the free list: the requested events and those kept for the
  network, in the order of their addresses, all owned by the free list.
\<close>

theorem eventq_alloc_builds_list:
  assumes "cnt + thr \<noteq> 0"
  shows "\<exists>hp' q. tw_eventq_alloc z b thr cnt hp = Inr (hp', q) \<and>
    eventq_rep hp' q [b ..< b + unat (cnt + thr)] \<and>
    (\<forall>a \<in> {b ..< b + unat (cnt + thr)}. qowner (hp' a) = TW_pe_free_q)"
proof -
  define n where "n = unat (cnt + thr - 1)"
  have n: "unat (cnt + thr) = Suc n"
    using assms unat_gt_0[of "cnt + thr"] by (simp add: n_def unat_minus_one)
  define hp0 where "hp0 = (\<lambda>a. if b \<le> a \<and> a < b + Suc n then z else hp a)"
  obtain hp1 e where l: "alloc_loop n b hp0 = (hp1, e)" by (cases "alloc_loop n b hp0")
  note v = alloc_loop_value[OF l]
  have "tw_eventq_alloc z b thr cnt hp = Inr (set_prev b None (set_next e None
      (set_owner e TW_pe_free_q (set_prev e (Some (e - 1)) hp1))),
      \<lparr>qsize = ucast (cnt + thr), qhead = Some b, qtail = Some e\<rparr>)" (is "_ = Inr (?hp, ?q)")
    using assms l unfolding tw_eventq_alloc_def Let_def n n_def[symmetric] hp0_def[symmetric]
    by simp
  moreover have "links ?hp None [b..<b + Suc n] None"
    using v by (intro links_upt) auto
  moreover have "ucast (cnt + thr) = (of_nat (Suc n) :: 64 word)"
    by (simp add: n[symmetric] unsigned_ucast_eq word_eq_iff_unsigned[where ?'a = nat])
  moreover have "first_or [b..<b + Suc n] None = Some b" "last_or [b..<b + Suc n] None = Some e"
    using v first_or_ne[of "[b..<b + Suc n]" None] by (auto simp: last_or_def hd_append)
  moreover from calculation have "eventq_rep ?hp ?q [b..<b + Suc n]"
    unfolding eventq_rep_def by (simp only: distinct_upt length_upt tw_eventq.simps diff_add_inverse simp_thms)
  moreover have "\<forall>a \<in> {b..<b + Suc n}. qowner (?hp a) = TW_pe_free_q"
    using v by (auto simp: less_Suc_eq)
  ultimately show ?thesis unfolding n by blast
qed

theorem eventq_alloc_builds_list_witness:
  "\<exists>hp' q. tw_eventq_alloc zero_node 10 2 3 (\<lambda>_. zero_node) = Inr (hp', q) \<and>
     eventq_rep hp' q [10, 11, 12, 13, 14]"
  using eventq_alloc_builds_list[of 3 2 zero_node 10 "\<lambda>_. zero_node"] by (auto simp: upt_rec)

definition ts_node :: "real \<Rightarrow> qnode" where
  "ts_node t = zero_node\<lparr>qsig := sig_ex t []\<rparr>"

theorem fossil_collect_commits_oldest_first_witness:
  "\<exists>(hp :: unit heap) q q' hp' fq'. eventq_rep hp q [5, 3, 8] \<and>
     tw_eventq_fossil_collect (\<lambda>e (hp, fq, s). (hp, fq, s @ [e])) q (sig_ex 5 []) (hp, empty_eventq, [])
       = Some (Inr (q', hp', fq', [8, 3])) \<and> eventq_rep hp' q' [5] \<and> eventq_rep hp' fq' [3, 8]"
proof -
  define hp0 where "hp0 = (\<lambda>a :: addr. ts_node (if a = 5 then 9 else if a = 3 then 4 else 2))"
  obtain hp q where hq: "fold eq_push [5, 3, 8] (hp0, empty_eventq) = (hp, q)"
    by (cases "fold eq_push [5, 3, 8] (hp0, empty_eventq)")
  have r: "eventq_rep hp q ([5] @ [3, 8])"
    using eq.fold_push[of "(hp0, empty_eventq)" "[]" "[5, 3, 8]"] unfolding hq by (simp add: eq_rep_def)
  have "qsig (hp a) = qsig (hp0 a)" for a
    using hq by (auto simp: eq_push_def tw_eventq_push_def empty_eventq_def Let_def split: option.splits)
  then have sg: "sig_older hp (sig_ex 5 []) a \<longleftrightarrow> a \<noteq> 5" for a
    by (simp add: sig_older_def tw_event_sig_compare_ptr_key hp0_def ts_node_def less_prod_def)
  let ?body = "\<lambda>e (hp, fq, s). (hp, fq, s @ [e])"
  have "\<exists>q' hp' fq' s' fs hp1 fq1.
    tw_eventq_fossil_collect ?body q (sig_ex 5 []) (hp, empty_eventq, []) = Some (Inr (q', hp', fq', s')) \<and>
    eventq_rep hp' q' [5] \<and> eventq_rep hp' fq' (fs @ [3, 8] @ []) \<and>
    (hp', fq', s') = fold ?body (rev [3, 8]) (hp1, fq1, []) \<and> eventq_rep hp1 fq1 ([3, 8] @ [])"
    by (rule fossil_collect_commits_oldest_first[OF r]) (auto simp: sg intro: exI[of _ "[]"])
  then obtain q' hp' fq' where
    "tw_eventq_fossil_collect ?body q (sig_ex 5 []) (hp, empty_eventq, []) = Some (Inr (q', hp', fq', [8, 3]))"
    "eventq_rep hp' q' [5]" "eventq_rep hp' fq' [3, 8]"
    by auto
  with r show ?thesis unfolding append_Cons append_Nil by blast
qed

end
