(* ===== verification/Ross_Types.thy ===== *)
theory Ross_Types
  imports Event_Queue
begin

text \<open>
  The event record of \<open>core/ross-types.h\<close>, on top of the fields the queues use, and the two
  orders in which the pending events of a processing element can be sorted
  (\<open>core/queue/splay.c\<close>).
\<close>

section \<open>Events\<close>

text \<open>
  \<open>struct tw_event\<close> without the fields of the delta memory. Logical processes are given
  by their index in the LP table, ids of LPs and PEs are natural numbers. \<open>next\<close>, \<open>prev\<close>,
  \<open>sig\<close> and \<open>state.owner\<close> are the fields of \<open>qnode\<close>; the \<open>up\<close> pointer is part of the tree of
  \<open>Splay_PQ\<close>. The chain of the events an event caused, from \<open>caused_by_me\<close> along \<open>cause_next\<close>,
  is the list \<open>caused_by_me\<close>, and the chain of its output messages is the list \<open>out_msgs\<close>.
\<close>

record tw_event = qnode +
  caused_by_me :: "addr list"
  event_id :: "32 word"
  aborted_total :: nat
  st_cancel_q :: bool
  st_cancel_asend :: bool
  st_remote :: bool
  critical_path :: "32 word"
  dest_lp :: nat
  src_lp :: nat
  ev_recv_ts :: real
  send_pe :: nat
  send_lp :: nat
  dest_lpid :: nat
  send_ts :: real
  out_msgs :: "string list"

section \<open>Comparison of pending events\<close>

text \<open>
  \<open>tw_pq_compare_less_than\<close>; \<open>None\<close> is the call of \<open>tw_error\<close> for two events that agree
  in everything. \<open>gid_of\<close> reads the global id of an LP.
\<close>

definition tw_pq_compare_less_than :: "(nat \<Rightarrow> nat) \<Rightarrow> 'z tw_event_scheme \<Rightarrow> 'z tw_event_scheme \<Rightarrow> bool option" where
  "tw_pq_compare_less_than gid_of n e =
     (if cmp3 (ev_recv_ts n) (ev_recv_ts e) < 0 then Some True
      else if cmp3 (ev_recv_ts n) (ev_recv_ts e) > 0 then Some False
      else if send_lp n < send_lp e then Some True
      else if send_lp n > send_lp e then Some False
      else if gid_of (dest_lp n) < gid_of (dest_lp e) then Some True
      else if gid_of (dest_lp n) > gid_of (dest_lp e) then Some False
      else if event_id n < event_id e then Some True
      else if event_id n > event_id e then Some False
      else None)"

text \<open>The loop over the common part of the two chains; \<open>None\<close> is a loop that runs to its end.\<close>

fun tie_loop_rand :: "nat \<Rightarrow> nat \<Rightarrow> tw_event_sig \<Rightarrow> tw_event_sig \<Rightarrow> bool option" where
  "tie_loop_rand 0 i n e = None"
| "tie_loop_rand (Suc k) i n e =
     (if event_tiebreaker e ! i < event_tiebreaker n ! i then Some False
      else if event_tiebreaker e ! i > event_tiebreaker n ! i then Some True
      else tie_loop_rand k (Suc i) n e)"

definition tw_pq_compare_less_than_rand :: "'z tw_event_scheme \<Rightarrow> 'z tw_event_scheme \<Rightarrow> bool option" where
  "tw_pq_compare_less_than_rand n e =
     (if cmp3 (ev_recv_ts n) (ev_recv_ts e) < 0 then Some True
      else if cmp3 (ev_recv_ts n) (ev_recv_ts e) > 0 then Some False
      else if cmp3 (priority (qsig n)) (priority (qsig e)) < 0 then Some True
      else if cmp3 (priority (qsig n)) (priority (qsig e)) > 0 then Some False
      else
        let min_len = min_int (int (tie_lineage_length (qsig e))) (int (tie_lineage_length (qsig n)))
        in case tie_loop_rand (nat min_len) 0 (qsig n) (qsig e) of
             Some b \<Rightarrow> Some b
           | None \<Rightarrow>
               if tie_lineage_length (qsig e) = tie_lineage_length (qsig n) then
                 (if event_id n < event_id e then Some True
                  else if event_id n > event_id e then Some False
                  else if send_pe n < send_pe e then Some True
                  else if send_pe n > send_pe e then Some False
                  else None)
               else if tie_lineage_length (qsig e) > tie_lineage_length (qsig n) then Some True
               else Some False)"

section \<open>Both comparisons follow a key\<close>

text \<open>
  What the users of a comparison rely on: it is the strict order of a key, and fails exactly
  on two events of the same key.
\<close>

locale keyed_cmp =
  fixes lt :: "'e \<Rightarrow> 'e \<Rightarrow> bool option" and key :: "'e \<Rightarrow> 'k::linorder" and ok :: "'e \<Rightarrow> bool"
  assumes lt: "ok n \<Longrightarrow> ok e \<Longrightarrow> lt n e = (if key n = key e then None else Some (key n < key e))"
begin

lemma lt_None [simp]: "ok n \<Longrightarrow> ok e \<Longrightarrow> lt n e = None \<longleftrightarrow> key n = key e"
  by (simp add: lt)

lemma lt_True [simp]: "ok n \<Longrightarrow> ok e \<Longrightarrow> lt n e = Some True \<longleftrightarrow> key n < key e"
  by (auto simp: lt)

lemma lt_False [simp]: "ok n \<Longrightarrow> ok e \<Longrightarrow> lt n e = Some False \<longleftrightarrow> key e < key n"
  by (auto simp: lt)

end

definition plain_key :: "(nat \<Rightarrow> nat) \<Rightarrow> 'z tw_event_scheme \<Rightarrow> real \<times> nat \<times> nat \<times> 32 word" where
  "plain_key gid_of e = (ev_recv_ts e, send_lp e, gid_of (dest_lp e), event_id e)"

definition rand_key :: "'z tw_event_scheme \<Rightarrow> real \<times> real \<times> real list \<times> 32 word \<times> nat" where
  "rand_key e = (ev_recv_ts e, priority (qsig e),
     take (tie_lineage_length (qsig e)) (event_tiebreaker (qsig e)), event_id e, send_pe e)"

interpretation plain_cmp: keyed_cmp "tw_pq_compare_less_than gid_of" "plain_key gid_of" "\<lambda>_. True"
  for gid_of
  by unfold_locales (auto simp: tw_pq_compare_less_than_def plain_key_def less_prod_def)

lemma tie_loop_rand_cmp:
  "tie_loop_rand k i n e =
     (let c = cmp_tie_loop k i (event_tiebreaker n) (event_tiebreaker e) in
      if c = 0 then None else Some (c < 0))"
  by (induction k arbitrary: i) auto

lemma less_than_rand_key:
  fixes n e :: "'a tw_event_scheme"
  assumes "wf_sig (qsig n)" "wf_sig (qsig e)"
  shows "tw_pq_compare_less_than_rand n e =
    (if rand_key n = rand_key e then None else Some (rand_key n < rand_key e))"
proof -
  let ?n = "take (tie_lineage_length (qsig n)) (event_tiebreaker (qsig n))"
  let ?e = "take (tie_lineage_length (qsig e)) (event_tiebreaker (qsig e))"
  let ?k = "nat (min_int (int (tie_lineage_length (qsig n))) (int (tie_lineage_length (qsig e))))"
  let ?c = "cmp_tie_loop ?k 0 (event_tiebreaker (qsig n)) (event_tiebreaker (qsig e))"
  have sym: "min_int (int (tie_lineage_length (qsig e))) (int (tie_lineage_length (qsig n)))
      = min_int (int (tie_lineage_length (qsig n))) (int (tie_lineage_length (qsig e)))"
    by (auto simp: min_int_def)
  have len: "length ?n = tie_lineage_length (qsig n)" "length ?e = tie_lineage_length (qsig e)"
    using assms by (auto simp: wf_sig_def)
  define s where "s = (\<lambda>e :: 'a tw_event_scheme. \<lparr>recv_ts = 0, priority = 0,
    tie_lineage_length = tie_lineage_length (qsig e), event_tiebreaker = event_tiebreaker (qsig e)\<rparr>)"
  have "tw_event_sig_compare_ptr (s n) (s e) = cmp3 (sig_key (s n)) (sig_key (s e))"
    using assms by (intro tw_event_sig_compare_ptr_key) (auto simp: s_def wf_sig_def)
  then have chain: "(if ?c \<noteq> 0 then ?c
      else if tie_lineage_length (qsig n) = tie_lineage_length (qsig e) then 0
      else if tie_lineage_length (qsig n) > tie_lineage_length (qsig e) then 1 else -1) = cmp3 ?n ?e"
    unfolding tw_event_sig_compare_ptr_def s_def sig_key_def cmp3_pair Let_def tw_event_sig.simps
      cmp3_simps(1)
    by (simp only: simp_thms if_False if_True)
  show ?thesis
  proof (cases "ev_recv_ts n = ev_recv_ts e \<and> priority (qsig n) = priority (qsig e)")
    case False
    then show ?thesis
      by (auto simp: tw_pq_compare_less_than_rand_def rand_key_def less_prod_def)
  next
    case same: True
    show ?thesis
    proof (cases "?c = 0")
      case False
      with chain have c: "?c = cmp3 ?n ?e" by simp
      then have ne: "?n \<noteq> ?e" "?c < 0 \<longleftrightarrow> ?n < ?e" using False by (auto simp: cmp3_def)
      have "tw_pq_compare_less_than_rand n e = Some (?c < 0)"
        using same False
        by (simp add: tw_pq_compare_less_than_rand_def tie_loop_rand_cmp sym Let_def)
      then show ?thesis using ne same by (auto simp: rand_key_def less_prod_def)
    next
      case True
      have "?n = ?e" if "tie_lineage_length (qsig n) = tie_lineage_length (qsig e)"
        using chain that True by (metis cmp3_simps(2))
      moreover have "?n < ?e" if "tie_lineage_length (qsig n) < tie_lineage_length (qsig e)"
        using chain that True by (auto simp: cmp3_def split: if_splits)
      moreover have "?e < ?n" if "tie_lineage_length (qsig n) > tie_lineage_length (qsig e)"
        using chain that True by (auto simp: cmp3_def split: if_splits)
      moreover have "tw_pq_compare_less_than_rand n e =
         (if tie_lineage_length (qsig e) = tie_lineage_length (qsig n) then
            (if event_id n < event_id e then Some True
             else if event_id n > event_id e then Some False
             else if send_pe n < send_pe e then Some True
             else if send_pe n > send_pe e then Some False
             else None)
          else if tie_lineage_length (qsig e) > tie_lineage_length (qsig n) then Some True
          else Some False)"
        using same True
        by (simp add: tw_pq_compare_less_than_rand_def tie_loop_rand_cmp sym Let_def)
      ultimately show ?thesis
        using same by (cases "tie_lineage_length (qsig n)" "tie_lineage_length (qsig e)" rule: linorder_cases)
          (auto simp: rand_key_def less_prod_def)
    qed
  qed
qed

interpretation rand_cmp: keyed_cmp tw_pq_compare_less_than_rand rand_key "\<lambda>e. wf_sig (qsig e)"
  by unfold_locales (rule less_than_rand_key)

end
