(* ===== verification/Splay_PQ.thy ===== *)
theory Splay_PQ
  imports Ross_Types "HOL-Library.Tree" "HOL-Library.Multiset"
begin

text \<open>
  The pending-event queue of \<open>core/queue/splay.c\<close>. The tree is a value of type \<open>'e tree\<close>
  (\<open>next\<close> is the left child, \<open>prev\<close> the right one) and the \<open>up\<close> pointers are the frames of
  a path: a node together with the list of its ancestors, innermost first, is a position in
  the tree. \<open>'e\<close> is the type of event addresses and \<open>lt\<close> the comparison that reads the
  events at them. The lemmas relate every operation to the sorted list of the events.
\<close>

section \<open>The tree and its positions\<close>

datatype 'e frame = LeftOf 'e "'e tree" | RightOf "'e tree" 'e

text \<open>The tree that has subtree \<open>t\<close> at the given position.\<close>

fun plug :: "'e tree \<Rightarrow> 'e frame list \<Rightarrow> 'e tree" where
  "plug t [] = t"
| "plug t (LeftOf p r # c) = plug (Node t p r) c"
| "plug t (RightOf l p # c) = plug (Node l p t) c"

text \<open>\<open>struct tw_pq\<close>.\<close>

record 'e splay_tree =
  root :: "'e tree"
  least :: "'e option"
  nitems :: "32 word"
  max_size :: "32 word"

definition tw_pq_create :: "'e splay_tree" where
  "tw_pq_create = \<lparr>root = Leaf, least = None, nitems = 0, max_size = 0\<rparr>"

text \<open>
  The position of a node: in the code the node's address and its chain of \<open>up\<close> pointers.
  Left and right subtree and the ancestors.
\<close>

fun locate :: "'e \<Rightarrow> 'e tree \<Rightarrow> 'e frame list \<Rightarrow> ('e tree \<times> 'e tree \<times> 'e frame list) option" where
  "locate x Leaf c = None"
| "locate x (Node l a r) c =
     (if x = a then Some (l, r, c)
      else case locate x l (LeftOf a r # c) of
        Some p \<Rightarrow> Some p
      | None \<Rightarrow> locate x r (RightOf l a # c))"

text \<open>
  \<open>splay\<close>: the six cases of the loop, from the node up to the root. \<open>n\<close> is the node with its
  subtrees \<open>l\<close> and \<open>r\<close>; the innermost frames are its parent \<open>p\<close> and grandparent \<open>g\<close>.
\<close>

fun splay :: "'e tree \<Rightarrow> 'e \<Rightarrow> 'e tree \<Rightarrow> 'e frame list \<Rightarrow> 'e tree \<times> 'e \<times> 'e tree" where
  "splay l n r [] = (l, n, r)"
| "splay l n r [LeftOf p pr] = (l, n, Node r p pr)"
| "splay l n r [RightOf pl p] = (Node pl p l, n, r)"
| "splay l n r (LeftOf p pr # LeftOf g gr # c) = splay l n (Node r p (Node pr g gr)) c"
| "splay l n r (LeftOf p pr # RightOf gl g # c) = splay (Node gl g l) n (Node r p pr) c"
| "splay l n r (RightOf pl p # RightOf gl g # c) = splay (Node (Node gl g pl) p l) n r c"
| "splay l n r (RightOf pl p # LeftOf g gr # c) = splay (Node pl p l) n (Node r g gr) c"

definition node_of :: "'e tree \<times> 'e \<times> 'e tree \<Rightarrow> 'e tree" where
  "node_of x = (case x of (l, n, r) \<Rightarrow> Node l n r)"

section \<open>Operations\<close>

text \<open>
  The descent of \<open>tw_pq_enqueue\<close>: the position below a node without a child on the side
  the comparison chooses, or the failure of the comparison. A descent starts at a node.
\<close>

fun descend :: "('e \<Rightarrow> 'e \<Rightarrow> bool option) \<Rightarrow> 'e \<Rightarrow> 'e tree \<Rightarrow> 'e frame list \<Rightarrow> ross_error + 'e frame list" where
  "descend lt e Leaf c = Inr c"
| "descend lt e (Node l n r) c =
     (case lt n e of
        None \<Rightarrow> Inl (Tw_Error ''Identical events found - impossible'')
      | Some True \<Rightarrow> descend lt e r (RightOf l n # c)
      | Some False \<Rightarrow> descend lt e l (LeftOf n r # c))"

text \<open>\<open>if (st->least == n) st->least = e\<close> when \<open>e\<close> becomes the left child of \<open>n\<close>.\<close>

definition new_least :: "'e option \<Rightarrow> 'e \<Rightarrow> 'e frame list \<Rightarrow> 'e option" where
  "new_least lst e c =
     (case c of LeftOf n r # _ \<Rightarrow> if lst = Some n then Some e else lst | _ \<Rightarrow> lst)"

definition tw_pq_enqueue ::
  "('e \<Rightarrow> 'e \<Rightarrow> bool option) \<Rightarrow> 'e splay_tree \<Rightarrow> 'e \<Rightarrow> ross_error + 'e splay_tree" where
  "tw_pq_enqueue lt st e =
     (let st = st\<lparr>nitems := nitems st + 1\<rparr>;
          st = (if nitems st > max_size st then st\<lparr>max_size := nitems st\<rparr> else st)
      in case root st of
           Leaf \<Rightarrow> Inr (st\<lparr>root := Node Leaf e Leaf, least := Some e\<rparr>)
         | Node _ _ _ \<Rightarrow>
             ebind (descend lt e (root st) []) (\<lambda>c.
               Inr (st\<lparr>root := node_of (splay Leaf e Leaf c), least := new_least (least st) e c\<rparr>)))"

text \<open>\<open>for (; LEFT(tmp); tmp = LEFT(tmp))\<close>\<close>

fun leftmost :: "'e tree \<Rightarrow> 'e option" where
  "leftmost Leaf = None"
| "leftmost (Node Leaf a r) = Some a"
| "leftmost (Node l a r) = leftmost l"

text \<open>
  \<open>tw_pq_dequeue\<close>. The code writes the left link of the parent of \<open>least\<close> without asking on
  which side \<open>least\<close> is; if it were the right child, or not in the tree at all, the links
  would be corrupted, and the value is \<open>Bad_Pointer\<close>. \<open>least\<close> is dereferenced without a test
  when the counter is not 0.
\<close>

definition tw_pq_dequeue :: "'e splay_tree \<Rightarrow> ross_error + ('e option \<times> 'e splay_tree)" where
  "tw_pq_dequeue st =
     (if nitems st = 0 then Inr (None, st)
      else
        let st = st\<lparr>nitems := nitems st - 1\<rparr> in
        case least st of
          None \<Rightarrow> Inl Bad_Pointer
        | Some m \<Rightarrow>
            (case locate m (root st) [] of
               None \<Rightarrow> Inl Bad_Pointer
             | Some (l, r, []) \<Rightarrow>
                 Inr (Some m, st\<lparr>root := r, least := leftmost r\<rparr>)
             | Some (l, r, RightOf _ _ # _) \<Rightarrow> Inl Bad_Pointer
             | Some (l, r, LeftOf p pr # c) \<Rightarrow>
                 (case r of
                    Leaf \<Rightarrow> Inr (Some m, st\<lparr>root := plug Leaf (LeftOf p pr # c), least := Some p\<rparr>)
                  | Node _ _ _ \<Rightarrow>
                      Inr (Some m, st\<lparr>root := plug r (LeftOf p pr # c), least := leftmost r\<rparr>))))"

text \<open>
  \<open>for (; RIGHT(n); n = RIGHT(n))\<close>: the position of the last node of a subtree. The code
  starts at a node.
\<close>

fun rightmost :: "'e tree \<Rightarrow> 'e frame list \<Rightarrow> ('e tree \<times> 'e \<times> 'e frame list) option" where
  "rightmost Leaf c = None"
| "rightmost (Node l a Leaf) c = Some (l, a, c)"
| "rightmost (Node l a r) c = rightmost r (RightOf l a # c)"

text \<open>
  The subtree that replaces a deleted node: the left subtree with its last node splayed to
  its root and the right subtree hung below it, or the only subtree there is.
\<close>

definition join_subtrees :: "'e tree \<Rightarrow> 'e tree \<Rightarrow> 'e tree" where
  "join_subtrees l r =
     (case l of
        Leaf \<Rightarrow> r
      | Node _ _ _ \<Rightarrow>
          (case r of
             Leaf \<Rightarrow> l
           | Node _ _ _ \<Rightarrow>
               (case rightmost l [] of
                  None \<Rightarrow> Leaf
                | Some (nl, n, c) \<Rightarrow>
                    (case splay nl n Leaf c of (l', n', _) \<Rightarrow> Node l' n' r))))"

definition tw_pq_delete_any ::
  "'e splay_tree \<Rightarrow> 'e \<Rightarrow> ross_error + 'e splay_tree" where
  "tw_pq_delete_any st r =
     (if least st = Some r then ebind (tw_pq_dequeue st) (\<lambda>(_, st). Inr st)
      else if nitems st = 0
      then Inl (Tw_Error ''tw_pq_delete_any: attempt to delete from empty queue'')
      else
        let st = st\<lparr>nitems := nitems st - 1\<rparr> in
        case locate r (root st) [] of
          None \<Rightarrow> Inl Bad_Pointer
        | Some (rl, rr, c) \<Rightarrow>
            let n = join_subtrees rl rr in
            (case c of
               [] \<Rightarrow> Inr (st\<lparr>root := n\<rparr>)
             | f # c' \<Rightarrow>
                 if n = Leaf then Inr (st\<lparr>root := plug n (f # c')\<rparr>)
                 else
                   (case f of
                      LeftOf p pr \<Rightarrow> Inr (st\<lparr>root := node_of (splay n p pr c')\<rparr>)
                    | RightOf pl p \<Rightarrow> Inr (st\<lparr>root := node_of (splay pl p n c')\<rparr>))))"

definition tw_pq_minimum :: "('e \<Rightarrow> 'z tw_event_scheme) \<Rightarrow> 'e splay_tree \<Rightarrow> real" where
  "tw_pq_minimum hp pq = (case least pq of Some m \<Rightarrow> ev_recv_ts (hp m) | None \<Rightarrow> DBL_MAX)"

definition tw_pq_minimum_sig_ptr :: "('e \<Rightarrow> 'z tw_event_scheme) \<Rightarrow> 'e splay_tree \<Rightarrow> tw_event_sig" where
  "tw_pq_minimum_sig_ptr hp pq = (case least pq of Some m \<Rightarrow> qsig (hp m) | None \<Rightarrow> g_tw_max_sig)"

definition tw_pq_get_size :: "'e splay_tree \<Rightarrow> 32 word" where
  "tw_pq_get_size st = nitems st"

definition tw_pq_max_size :: "'e splay_tree \<Rightarrow> 32 word" where
  "tw_pq_max_size pq = max_size pq"

section \<open>Positions and in-order traversal\<close>

text \<open>The events before and after a position.\<close>

fun before :: "'e frame list \<Rightarrow> 'e list" where
  "before [] = []"
| "before (LeftOf p r # c) = before c"
| "before (RightOf l p # c) = before c @ inorder l @ [p]"

fun after :: "'e frame list \<Rightarrow> 'e list" where
  "after [] = []"
| "after (LeftOf p r # c) = p # inorder r @ after c"
| "after (RightOf l p # c) = after c"

lemma inorder_plug: "inorder (plug t c) = before c @ inorder t @ after c"
  by (induction t c rule: plug.induct) auto

lemma inorder_splay: "inorder (node_of (splay l n r c)) = before c @ inorder l @ n # inorder r @ after c"
  by (induction l n r c rule: splay.induct) (auto simp: node_of_def)

lemma splay_root: "\<exists>l' r'. splay l n r c = (l', n, r')"
  by (induction l n r c rule: splay.induct) auto

lemma splay_right_end: "after c = [] \<Longrightarrow> \<exists>l'. splay l n r c = (l', n, r)"
  by (induction l n r c rule: splay.induct) auto

lemma locate_Some:
  "locate x t c = Some (l, r, c') \<Longrightarrow> plug (Node l x r) c' = plug t c"
  by (induction t arbitrary: c) (auto split: if_splits option.splits)

lemma first_Some: "(case x of Some p \<Rightarrow> Some p | None \<Rightarrow> y) = None \<longleftrightarrow> x = None \<and> y = None"
  by (cases x) auto

lemma locate_None: "locate x t c = None \<longleftrightarrow> x \<notin> set_tree t"
  by (induction t arbitrary: c) (auto simp: first_Some)

lemma leftmost_hd: "leftmost t = (if t = Leaf then None else Some (hd (inorder t)))"
  by (induction t rule: leftmost.induct) (auto simp: hd_append)

lemma rightmost_Some:
  "t \<noteq> Leaf \<Longrightarrow> \<exists>l n c'. rightmost t c = Some (l, n, c') \<and> plug (Node l n Leaf) c' = plug t c \<and>
     after c' = after c"
  by (induction t c rule: rightmost.induct) auto

lemma inorder_join: "inorder (join_subtrees l r) = inorder l @ inorder r"
proof (cases "l = Leaf \<or> r = Leaf")
  case True
  then show ?thesis by (auto simp: join_subtrees_def split: tree.split)
next
  case False
  obtain nl n c where rm: "rightmost l [] = Some (nl, n, c)" "plug (Node nl n Leaf) c = l" "after c = []"
    using rightmost_Some[of l "[]"] False by auto
  obtain l' where s: "splay nl n Leaf c = (l', n, Leaf)" using splay_right_end[OF rm(3)] by blast
  have "inorder l = inorder (node_of (splay nl n Leaf c))"
    by (simp only: rm(2)[symmetric] inorder_plug inorder_splay) simp
  then show ?thesis using False rm s
    by (cases l; cases r) (simp_all add: join_subtrees_def node_of_def)
qed

section \<open>Invariant\<close>

text \<open>
  The events are in strictly ascending order of their keys, \<open>least\<close> is the first of them,
  and the counter counts them.
\<close>

definition contents :: "'e splay_tree \<Rightarrow> 'e list" where
  "contents st = inorder (root st)"

definition key_sorted :: "('e \<Rightarrow> 'k::linorder) \<Rightarrow> 'e list \<Rightarrow> bool" where
  "key_sorted key xs \<longleftrightarrow> sorted_wrt (\<lambda>a b. key a < key b) xs"

definition first_of :: "'e list \<Rightarrow> 'e option" where
  "first_of xs = (case xs of [] \<Rightarrow> None | x # _ \<Rightarrow> Some x)"

definition pq_inv :: "('e \<Rightarrow> 'k::linorder) \<Rightarrow> ('e \<Rightarrow> bool) \<Rightarrow> 'e splay_tree \<Rightarrow> bool" where
  "pq_inv key ok st \<longleftrightarrow> key_sorted key (contents st) \<and> (\<forall>e \<in> set (contents st). ok e) \<and>
     least st = first_of (contents st) \<and> nitems st = of_nat (length (contents st)) \<and>
     length (contents st) < 2 ^ 32"

lemma pq_invI:
  assumes "contents st = xs" "key_sorted key xs" "\<forall>e \<in> set xs. ok e" "least st = first_of xs"
    "nitems st = of_nat (length xs)" "length xs < 2 ^ 32"
  shows "pq_inv key ok st"
  using assms by (simp add: pq_inv_def)

lemma first_of_simps [simp]: "first_of [] = None" "first_of (x # xs) = Some x"
  by (simp_all add: first_of_def)

lemma leftmost_first_of: "leftmost t = first_of (inorder t)"
  by (cases "inorder t") (auto simp: leftmost_hd)

lemma key_sorted_simps [simp]:
  "key_sorted key []"
  "key_sorted key (x # xs) \<longleftrightarrow> (\<forall>y \<in> set xs. key x < key y) \<and> key_sorted key xs"
  "key_sorted key (xs @ ys) \<longleftrightarrow> key_sorted key xs \<and> key_sorted key ys \<and>
     (\<forall>x \<in> set xs. \<forall>y \<in> set ys. key x < key y)"
  by (auto simp: key_sorted_def sorted_wrt_append)

lemma key_sorted_distinct: "key_sorted key xs \<Longrightarrow> distinct (map key xs)"
  by (induction xs) auto

lemma key_sorted_remove1: "key_sorted key xs \<Longrightarrow> key_sorted key (remove1 x xs)"
  by (induction xs) (auto dest: in_set_remove1[THEN iffD1, rotated] notin_set_remove1)

lemma insort_key_mid:
  "(\<forall>x \<in> set xs. key x < key e) \<Longrightarrow> (\<forall>y \<in> set ys. key e < key y) \<Longrightarrow>
     insort_key key e (xs @ ys) = xs @ e # ys"
proof (induction xs)
  case Nil
  then show ?case by (cases ys) auto
qed auto

lemma key_sorted_insort:
  "key_sorted key xs \<Longrightarrow> key e \<notin> key ` set xs \<Longrightarrow> key_sorted key (insort_key key e xs)"
  by (induction xs) (auto simp: set_insort_key dest: order.strict_trans)

lemma size_inorder: "size t = length (inorder t)"
  by simp

lemma of_nat_32_nonzero: "0 < n \<Longrightarrow> n < 2 ^ 32 \<Longrightarrow> (of_nat n :: 32 word) \<noteq> 0"
  by (auto simp: word_of_nat_eq_0_iff dest: nat_dvd_not_less)

section \<open>Correctness of the operations\<close>

lemma before_after_Nil: "before c = [] \<Longrightarrow> after c = [] \<Longrightarrow> c = []"
  by (cases c rule: before.cases) auto

lemma before_Nil_cases:
  "before c = [] \<Longrightarrow> c = [] \<or> (\<exists>p r c'. c = LeftOf p r # c' \<and> before c' = [])"
  by (cases c rule: before.cases) auto

context keyed_cmp
begin

lemma descend_Inr:
  assumes "key_sorted key (before c @ inorder t @ after c)"
    "\<forall>x \<in> set (before c). key x < key e" "\<forall>x \<in> set (after c). key e < key x"
    "key e \<notin> key ` set (inorder t)" "ok e" "\<forall>x \<in> set (inorder t). ok x"
  shows "\<exists>c'. descend lt e t c = Inr c' \<and> before c' @ after c' = before c @ inorder t @ after c \<and>
    (\<forall>x \<in> set (before c'). key x < key e) \<and> (\<forall>x \<in> set (after c'). key e < key x)"
  using assms
proof (induction t arbitrary: c)
  case Leaf
  then show ?case by simp
next
  case (Node l n r)
  show ?case
  proof (cases "key n < key e")
    case True
    then have lt: "lt n e = Some True" using Node.prems by simp
    have "\<exists>c'. descend lt e r (RightOf l n # c) = Inr c' \<and>
        before c' @ after c' = before (RightOf l n # c) @ inorder r @ after (RightOf l n # c) \<and>
        (\<forall>x \<in> set (before c'). key x < key e) \<and> (\<forall>x \<in> set (after c'). key e < key x)"
      using Node.prems True by (intro Node.IH(2)) (auto dest: order.strict_trans)
    with lt show ?thesis by simp
  next
    case False
    then have n: "key e < key n" using Node.prems by auto
    then have lt: "lt n e = Some False" using Node.prems by simp
    have "\<exists>c'. descend lt e l (LeftOf n r # c) = Inr c' \<and>
        before c' @ after c' = before (LeftOf n r # c) @ inorder l @ after (LeftOf n r # c) \<and>
        (\<forall>x \<in> set (before c'). key x < key e) \<and> (\<forall>x \<in> set (after c'). key e < key x)"
      using Node.prems n by (intro Node.IH(1)) (auto dest: order.strict_trans)
    with lt show ?thesis by simp
  qed
qed

lemma descend_Inl:
  assumes "key_sorted key (inorder t)" "key e \<in> key ` set (inorder t)"
    "ok e" "\<forall>x \<in> set (inorder t). ok x"
  shows "\<exists>err. descend lt e t c = Inl err"
  using assms
proof (induction t arbitrary: c)
  case (Node l n r)
  consider "key n = key e" | "key n < key e" | "key e < key n" by fastforce
  then show ?case
  proof cases
    case 1
    then have n: "lt n e = None" using Node.prems by simp
    show ?thesis unfolding descend.simps n by simp
  next
    case 2
    then have n: "lt n e = Some True" "key e \<in> key ` set (inorder r)" using Node.prems by auto
    show ?thesis unfolding descend.simps n(1) using Node n(2) by simp
  next
    case 3
    then have n: "lt n e = Some False" "key e \<in> key ` set (inorder l)" using Node.prems by auto
    show ?thesis unfolding descend.simps n(1) using Node n(2) by simp
  qed
qed simp

lemma enqueue_Inr:
  assumes inv: "pq_inv key ok st" and e: "ok e" "key e \<notin> key ` set (contents st)"
    and len: "Suc (length (contents st)) < 2 ^ 32"
  shows "\<exists>st'. tw_pq_enqueue lt st e = Inr st' \<and> pq_inv key ok st' \<and>
    contents st' = insort_key key e (contents st)"
proof (cases "root st")
  case Leaf
  then show ?thesis
    using assms by (auto simp: tw_pq_enqueue_def pq_inv_def contents_def Let_def)
next
  case (Node l n r)
  obtain c where c: "descend lt e (root st) [] = Inr c" "before c @ after c = contents st"
    "\<forall>x \<in> set (before c). key x < key e" "\<forall>x \<in> set (after c). key e < key x"
    using descend_Inr[of "[]" "root st" e] assms by (auto simp: pq_inv_def contents_def)
  let ?root = "node_of (splay Leaf e Leaf c)"
  have io: "inorder ?root = insort_key key e (contents st)"
    using c by (simp add: inorder_splay insort_key_mid flip: c(2))
  have "new_least (least st) e c = first_of (inorder ?root)"
  proof (cases "before c = []")
    case True
    have "c \<noteq> []" using c(2) Node by (auto simp: contents_def)
    then obtain p t c' where "c = LeftOf p t # c'" using before_Nil_cases[OF True] by auto
    then show ?thesis
      using True inv c(2)[symmetric] by (simp add: inorder_splay new_least_def pq_inv_def)
  next
    case False
    then obtain b bs where b: "before c = b # bs" by (cases "before c") auto
    have least: "least st = Some b" using inv c(2)[symmetric] b by (simp add: pq_inv_def)
    have "distinct (before c @ after c)"
      using key_sorted_distinct[of key "contents st"] inv distinct_map
      unfolding c(2) by (auto simp: pq_inv_def)
    then have "new_least (least st) e c = Some b"
      using least b by (auto simp: new_least_def split: list.split frame.split)
    then show ?thesis using b by (simp add: inorder_splay)
  qed
  moreover have "key_sorted key (insort_key key e (contents st))"
    using key_sorted_insort inv e by (auto simp: pq_inv_def)
  moreover have "size ?root = Suc (size (root st))"
    using arg_cong[OF io, of length] by (simp add: contents_def)
  moreover have "set_tree ?root = insert e (set_tree (root st))"
    using arg_cong[OF io, of set] by (simp add: contents_def set_insort_key)
  ultimately show ?thesis
    using c(1) io inv e len Node
    by (auto simp: tw_pq_enqueue_def pq_inv_def contents_def Let_def set_insort_key)
qed

lemma enqueue_Inl:
  assumes "pq_inv key ok st" "ok e" "key e \<in> key ` set (contents st)"
  shows "\<exists>err. tw_pq_enqueue lt st e = Inl err"
proof -
  obtain err where "descend lt e (root st) [] = Inl err"
    using descend_Inl[of "root st" e "[]"] assms by (auto simp: pq_inv_def contents_def)
  then show ?thesis
    using assms by (cases "root st") (auto simp: tw_pq_enqueue_def contents_def Let_def)
qed

lemma dequeue_empty:
  "pq_inv key ok st \<Longrightarrow> contents st = [] \<Longrightarrow> tw_pq_dequeue st = Inr (None, st)"
  by (simp add: tw_pq_dequeue_def pq_inv_def)

lemma dequeue_Cons:
  assumes inv: "pq_inv key ok st" and c: "contents st = m # es"
  shows "\<exists>st'. tw_pq_dequeue st = Inr (Some m, st') \<and> pq_inv key ok st' \<and> contents st' = es"
proof -
  have len: "of_nat (Suc (length es)) \<noteq> (0 :: 32 word)"
    using inv c by (intro of_nat_32_nonzero) (auto simp: pq_inv_def)
  have least: "least st = Some m" "nitems st = of_nat (Suc (length es))"
    using inv c by (simp_all add: pq_inv_def)
  have dist: "distinct (m # es)"
    using key_sorted_distinct[of key "contents st"] inv distinct_map c by (auto simp: pq_inv_def)
  obtain l r ctx where loc: "locate m (root st) [] = Some (l, r, ctx)"
    using c locate_None[of m "root st" "[]"]
    by (cases "locate m (root st) []") (auto simp: contents_def simp flip: set_inorder)
  have io: "before ctx @ inorder l @ m # inorder r @ after ctx = m # es"
    using arg_cong[OF locate_Some[OF loc], of inorder] c by (simp add: inorder_plug contents_def)
  have "before ctx @ inorder l = []"
  proof (cases "before ctx @ inorder l")
    case (Cons x xs)
    then have "(x # xs) @ m # inorder r @ after ctx = m # es" using io by (metis append.assoc)
    then show ?thesis using dist by auto
  qed simp
  then have e: "before ctx = []" "l = Leaf" "es = inorder r @ after ctx"
    using io by simp_all
  have inv': "pq_inv key ok (st\<lparr>nitems := nitems st - 1, root := t, least := first_of es\<rparr>)"
    if "inorder t = es" for t
    by (rule pq_invI[where xs = es])
      (use inv[unfolded pq_inv_def c] least(2) that in \<open>simp_all add: contents_def\<close>)
  show ?thesis
  proof (cases ctx)
    case Nil
    then show ?thesis using inv'[of r] len least loc e
      by (simp add: tw_pq_dequeue_def leftmost_first_of contents_def)
  next
    case (Cons f ctx')
    then obtain p pr where f: "ctx = LeftOf p pr # ctx'" using before_Nil_cases[OF e(1)] by auto
    then have "inorder (plug r ctx) = es" "inorder (plug Leaf ctx) = es" if "r = Leaf"
      using e that by (simp_all add: inorder_plug)
    moreover have "inorder (plug r ctx) = es" using e f by (simp add: inorder_plug)
    moreover have "first_of es = (if r = Leaf then Some p else leftmost r)"
      using e f by (cases "inorder r") (auto simp: leftmost_first_of)
    ultimately show ?thesis using inv'[of "plug r ctx"] len least loc e(2) f
      by (cases r) (simp_all add: tw_pq_dequeue_def contents_def)
  qed
qed

lemma delete_any_Inr:
  assumes inv: "pq_inv key ok st" and r: "r \<in> set (contents st)"
  shows "\<exists>st'. tw_pq_delete_any st r = Inr st' \<and> pq_inv key ok st' \<and>
    contents st' = remove1 r (contents st)"
proof -
  obtain m es where c: "contents st = m # es" using r by (cases "contents st") auto
  show ?thesis
  proof (cases "r = m")
    case True
    then have "least st = Some r" using inv c by (simp add: pq_inv_def)
    then show ?thesis using dequeue_Cons[OF inv c] True c by (auto simp: tw_pq_delete_any_def)
  next
    case False
    have len: "of_nat (Suc (length es)) \<noteq> (0 :: 32 word)"
      using inv c by (intro of_nat_32_nonzero) (auto simp: pq_inv_def)
    have least: "least st = Some m" "nitems st = of_nat (Suc (length es))"
      using inv c by (simp_all add: pq_inv_def)
    have dist: "distinct (contents st)"
      using key_sorted_distinct[of key "contents st"] inv distinct_map by (auto simp: pq_inv_def)
    obtain rl rr ctx where loc: "locate r (root st) [] = Some (rl, rr, ctx)"
      using r locate_None[of r "root st" "[]"]
      by (cases "locate r (root st) []") (auto simp: contents_def)
    have io: "before ctx @ inorder rl @ r # inorder rr @ after ctx = contents st"
      using arg_cong[OF locate_Some[OF loc], of inorder] by (simp add: inorder_plug contents_def)
    let ?n = "join_subtrees rl rr"
    have "r \<notin> set (before ctx @ inorder rl)" using dist by (auto simp flip: io)
    then have "remove1 r ((before ctx @ inorder rl) @ r # (inorder rr @ after ctx))
        = (before ctx @ inorder rl) @ inorder rr @ after ctx"
      by (rule remove1_mid)
    then have "remove1 r (contents st) = before ctx @ inorder rl @ inorder rr @ after ctx"
      unfolding io[symmetric] by simp
    then have rem: "before ctx @ inorder ?n @ after ctx = remove1 r (contents st)"
      by (simp add: inorder_join)
    have first: "first_of (remove1 r (contents st)) = Some m" using c False by simp
    have "r \<in> set es" using r c False by simp
    then have "length es \<noteq> 0" by auto
    then have len': "length (remove1 r (contents st)) = length es"
      using c False \<open>r \<in> set es\<close> by (simp add: length_remove1)
    have inv': "pq_inv key ok (st\<lparr>nitems := nitems st - 1, root := t\<rparr>)"
      if "inorder t = remove1 r (contents st)" for t
      by (rule pq_invI[where xs = "remove1 r (contents st)"])
        (use inv[unfolded pq_inv_def c] least first len' that[unfolded c] key_sorted_remove1[of key "m # es" r]
          c False set_remove1_subset[of r es] in \<open>auto simp: contents_def[of "st\<lparr>nitems := _, root := _\<rparr>"]\<close>)
    have "\<exists>t. tw_pq_delete_any st r = Inr (st\<lparr>nitems := nitems st - 1, root := t\<rparr>) \<and>
        inorder t = remove1 r (contents st)"
    proof (cases ctx)
      case Nil
      then show ?thesis using loc least len False rem
        by (intro exI[of _ ?n]) (simp add: tw_pq_delete_any_def)
    next
      case (Cons f ctx')
      show ?thesis
      proof (cases "?n = Leaf")
        case True
        then have "inorder (plug ?n ctx) = remove1 r (contents st)"
          using rem by (simp add: inorder_plug)
        then show ?thesis using loc least len False True Cons
          by (intro exI[of _ "plug ?n ctx"]) (simp add: tw_pq_delete_any_def)
      next
        case n: False
        let ?t = "node_of (case f of LeftOf p pr \<Rightarrow> splay ?n p pr ctx' | RightOf pl p \<Rightarrow> splay pl p ?n ctx')"
        show ?thesis using loc least len False rem Cons n
          by (intro exI[of _ ?t], cases f) (simp_all add: tw_pq_delete_any_def inorder_splay)
      qed
    qed
    then show ?thesis using inv' by (auto simp: contents_def)
  qed
qed

end

section \<open>The interface of a pending-event queue\<close>

text \<open>
  What the scheduler relies on, whichever queue is compiled in (\<open>core/queue/tw-queue.h\<close>):
  the queue holds events of different keys, gives out the one with the smallest key, and
  loses none.
\<close>

locale event_pq =
  fixes key :: "'e \<Rightarrow> 'k::linorder" and ok :: "'e \<Rightarrow> bool"
    and inv :: "'q \<Rightarrow> bool" and events :: "'q \<Rightarrow> 'e list"
    and enq :: "'q \<Rightarrow> 'e \<Rightarrow> ross_error + 'q"
    and deq :: "'q \<Rightarrow> ross_error + ('e option \<times> 'q)"
    and del :: "'q \<Rightarrow> 'e \<Rightarrow> ross_error + 'q"
    and bound :: nat
  assumes events_sorted: "inv q \<Longrightarrow> key_sorted key (events q)"
    and enq: "inv q \<Longrightarrow> ok e \<Longrightarrow> key e \<notin> key ` set (events q) \<Longrightarrow> Suc (length (events q)) < bound \<Longrightarrow>
      \<exists>q'. enq q e = Inr q' \<and> inv q' \<and> events q' = insort_key key e (events q)"
    and deq: "inv q \<Longrightarrow> events q = e # es \<Longrightarrow> \<exists>q'. deq q = Inr (Some e, q') \<and> inv q' \<and> events q' = es"
    and deq_empty: "inv q \<Longrightarrow> events q = [] \<Longrightarrow> deq q = Inr (None, q)"
    and del: "inv q \<Longrightarrow> e \<in> set (events q) \<Longrightarrow>
      \<exists>q'. del q e = Inr q' \<and> inv q' \<and> events q' = remove1 e (events q)"

text \<open>Putting events in one after the other, and taking \<open>n\<close> events out.\<close>

fun enqueue_all :: "('q \<Rightarrow> 'e \<Rightarrow> ross_error + 'q) \<Rightarrow> 'q \<Rightarrow> 'e list \<Rightarrow> ross_error + 'q" where
  "enqueue_all f q [] = Inr q"
| "enqueue_all f q (e # es) = ebind (f q e) (\<lambda>q'. enqueue_all f q' es)"

fun dequeue_n :: "('q \<Rightarrow> ross_error + ('e option \<times> 'q)) \<Rightarrow> nat \<Rightarrow> 'q \<Rightarrow> ross_error + 'e option list" where
  "dequeue_n f 0 q = Inr []"
| "dequeue_n f (Suc n) q = ebind (f q) (\<lambda>(e, q'). ebind (dequeue_n f n q') (\<lambda>es. Inr (e # es)))"

context event_pq
begin

lemma enqueue_all_ok:
  assumes "inv q" "\<forall>e \<in> set es. ok e" "distinct (map key (events q @ es))"
    "length (events q) + length es < bound"
  shows "\<exists>q'. enqueue_all enq q es = Inr q' \<and> inv q' \<and>
    events q' = fold (insort_key key) es (events q)"
  using assms
proof (induction es arbitrary: q)
  case (Cons e es)
  obtain q' where q': "enq q e = Inr q'" "inv q'" "events q' = insort_key key e (events q)"
    using enq[of q e] Cons.prems by auto
  have "mset (map key (insort_key key e (events q) @ es)) = mset (map key (events q @ e # es))"
    by (simp add: mset_insort)
  then have "distinct (map key (events q' @ es))"
    unfolding q'(3) using Cons.prems(3) mset_eq_imp_distinct_iff by blast
  then have "\<exists>q''. enqueue_all enq q' es = Inr q'' \<and> inv q'' \<and>
      events q'' = fold (insort_key key) es (events q')"
    using Cons.prems q' by (intro Cons.IH) (auto simp: length_insort)
  then show ?case using q' by simp
qed simp

lemma dequeue_n_ok:
  "inv q \<Longrightarrow> events q = xs @ ys \<Longrightarrow> dequeue_n deq (length xs) q = Inr (map Some xs)"
proof (induction xs arbitrary: q)
  case (Cons x xs)
  then show ?case using deq[of q x "xs @ ys"] by (auto simp: bind_simps)
qed simp

lemma mset_fold_insort: "mset (fold (insort_key key) es xs) = mset es + mset xs"
  by (induction es arbitrary: xs) (auto simp: mset_insort)

lemma delivers_sorted:
  assumes "inv q" "events q = []" "\<forall>e \<in> set es. ok e" "distinct (map key es)" "length es < bound"
  shows "\<exists>out. ebind (enqueue_all enq q es) (dequeue_n deq (length es)) = Inr (map Some out) \<and>
    key_sorted key out \<and> mset out = mset es"
proof -
  obtain q' where q': "enqueue_all enq q es = Inr q'" "inv q'" "events q' = fold (insort_key key) es []"
    using enqueue_all_ok[of q es] assms by auto
  have m: "mset (events q') = mset es" using q'(3) mset_fold_insort[of es "[]"] by simp
  then have "length (events q') = length es" by (metis size_mset)
  then have "dequeue_n deq (length es) q' = Inr (map Some (events q'))"
    using dequeue_n_ok[OF q'(2), of "events q'" "[]"] by simp
  then show ?thesis using q'(1,2) m events_sorted by auto
qed

end

section \<open>The splay tree is a pending-event queue\<close>

text \<open>Wherever a comparison follows a key, the splay tree over it meets the interface.\<close>

sublocale keyed_cmp \<subseteq> splay: event_pq key ok "pq_inv key ok" contents "tw_pq_enqueue lt"
  tw_pq_dequeue tw_pq_delete_any "2 ^ 32"
proof (unfold_locales, goal_cases)
  case (1 q)
  then show ?case by (simp add: pq_inv_def)
next
  case (2 q e)
  then show ?case by (rule enqueue_Inr)
next
  case (3 q e es)
  then show ?case by (rule dequeue_Cons)
next
  case (4 q)
  then show ?case by (rule dequeue_empty)
next
  case (5 q e)
  then show ?case by (rule delete_any_Inr)
qed

text \<open>The two configurations, with events given by their addresses in a heap.\<close>

definition lt_rand :: "(addr \<Rightarrow> 'z tw_event_scheme) \<Rightarrow> addr \<Rightarrow> addr \<Rightarrow> bool option" where
  "lt_rand hp n e = tw_pq_compare_less_than_rand (hp n) (hp e)"

definition lt_plain :: "(nat \<Rightarrow> nat) \<Rightarrow> (addr \<Rightarrow> 'z tw_event_scheme) \<Rightarrow> addr \<Rightarrow> addr \<Rightarrow> bool option" where
  "lt_plain gid_of hp n e = tw_pq_compare_less_than gid_of (hp n) (hp e)"

definition key_at :: "(addr \<Rightarrow> 'z tw_event_scheme) \<Rightarrow> addr \<Rightarrow> real \<times> real \<times> real list \<times> 32 word \<times> nat" where
  "key_at hp a = rand_key (hp a)"

definition wf_at :: "(addr \<Rightarrow> 'z tw_event_scheme) \<Rightarrow> addr \<Rightarrow> bool" where
  "wf_at hp a \<longleftrightarrow> wf_sig (qsig (hp a))"

interpretation pq: keyed_cmp "lt_rand hp" "key_at hp" "wf_at hp" for hp
  by unfold_locales (simp add: lt_rand_def key_at_def wf_at_def less_than_rand_key)

interpretation plain_pq: keyed_cmp "lt_plain gid_of hp" "\<lambda>a. plain_key gid_of (hp a)" "\<lambda>_. True" for gid_of hp
  by unfold_locales (simp add: lt_plain_def plain_cmp.lt)

text \<open>
  C35: The pending-event queue is a priority queue: a tree with tie-breakers filled with
  events of different keys and emptied again gives out exactly these events, in strictly
  ascending order of (time, priority, tie-breaker chain, event id, sending PE), whatever
  the order they were put in.
\<close>

theorem pq_delivers_in_order:
  assumes "\<forall>e \<in> set es. wf_at hp e" "distinct (map (key_at hp) es)" "length es < 2 ^ 32"
  shows "\<exists>out. ebind (enqueue_all (tw_pq_enqueue (lt_rand hp)) tw_pq_create es)
        (dequeue_n tw_pq_dequeue (length es)) = Inr (map Some out) \<and>
    key_sorted (key_at hp) out \<and> mset out = mset es"
  by (rule pq.splay.delivers_sorted)
    (use assms in \<open>simp_all add: pq_inv_def tw_pq_create_def contents_def\<close>)

definition ex_event :: "real \<Rightarrow> real list \<Rightarrow> 32 word \<Rightarrow> tw_event" where
  "ex_event t bs n = \<lparr>nextp = None, prevp = None, qowner = No_owner, qsig = sig_ex t bs,
     caused_by_me = [], event_id = n,
     aborted_total = 0, st_cancel_q = False, st_cancel_asend = False, st_remote = False,
     critical_path = 0, dest_lp = 0, src_lp = 0, ev_recv_ts = t,
     send_pe = 0, send_lp = 0, dest_lpid = 0, send_ts = 0, out_msgs = []\<rparr>"

definition ex_heap :: "addr \<Rightarrow> tw_event" where
  "ex_heap a = ex_event (10 - real a) [1 / 2] 0"

definition ex_heap8 :: "addr \<Rightarrow> tw_event" where
  "ex_heap8 a = ex_event (real (a mod 8)) [1 / 2] 0"

theorem pq_delivers_in_order_witness:
  "\<exists>out. ebind (enqueue_all (tw_pq_enqueue (lt_rand ex_heap)) tw_pq_create [3, 7, 5])
        (dequeue_n tw_pq_dequeue (length [3 :: nat, 7, 5])) = Inr (map Some out) \<and>
    key_sorted (key_at ex_heap) out \<and> mset out = mset [3, 7, 5]"
  by (rule pq_delivers_in_order) (simp_all add: wf_at_def key_at_def rand_key_def ex_event_def ex_heap_def ex_heap8_def)

text \<open>
  C36: Removing a cancelled event from anywhere in the queue removes it alone and keeps the
  queue well formed: the rest stays sorted, \<open>least\<close> is the first event and the counter is
  right, so no later operation can fail.
\<close>

theorem pq_delete_any_removes:
  assumes "pq_inv (key_at hp) (wf_at hp) st" "e \<in> set (contents st)"
  shows "\<exists>st'. tw_pq_delete_any st e = Inr st' \<and> pq_inv (key_at hp) (wf_at hp) st' \<and>
    contents st' = remove1 e (contents st)"
  using assms by (rule pq.splay.del)

lemma pq_filled:
  assumes "\<forall>e \<in> set es. wf_at hp e" "distinct (map (key_at hp) es)" "length es < 2 ^ 32"
  shows "\<exists>q. enqueue_all (tw_pq_enqueue (lt_rand hp)) tw_pq_create es = Inr q \<and>
    pq_inv (key_at hp) (wf_at hp) q \<and> mset (contents q) = mset es"
  using pq.splay.enqueue_all_ok[of hp tw_pq_create es] pq.splay.mset_fold_insort[of hp es "[]"] assms
  by (auto simp: pq_inv_def tw_pq_create_def contents_def)

theorem pq_delete_any_removes_witness:
  "\<exists>q st'. enqueue_all (tw_pq_enqueue (lt_rand ex_heap)) tw_pq_create [3, 7, 5] = Inr q \<and>
     tw_pq_delete_any q 5 = Inr st' \<and> mset (contents st') = {#3, 7#}"
proof -
  let ?hp = ex_heap
  obtain q where q: "enqueue_all (tw_pq_enqueue (lt_rand ?hp)) tw_pq_create [3, 7, 5] = Inr q"
    "pq_inv (key_at ?hp) (wf_at ?hp) q" "mset (contents q) = mset [3, 7, 5]"
    using pq_filled[of "[3, 7, 5]" ?hp] by (auto simp: wf_at_def key_at_def rand_key_def ex_event_def ex_heap_def ex_heap8_def)
  then have "5 \<in> set (contents q)" by (simp flip: set_mset_mset)
  from pq_delete_any_removes[OF q(2) this] q show ?thesis by auto
qed

text \<open>
  Two events that agree in every component of the order never get into the queue
  together: the second is reported as an error, whatever path the descent takes.
\<close>

theorem pq_enqueue_rejects_identical:
  assumes "pq_inv (key_at hp) (wf_at hp) st" "wf_at hp e" "e' \<in> set (contents st)"
    "key_at hp e' = key_at hp e"
  shows "\<exists>err. tw_pq_enqueue (lt_rand hp) st e = Inl err"
  using assms by (intro pq.enqueue_Inl) (auto intro: rev_image_eqI)

theorem pq_enqueue_rejects_identical_witness:
  "\<exists>q err. enqueue_all (tw_pq_enqueue (lt_rand ex_heap8)) tw_pq_create [3, 7, 5] = Inr q \<and>
     tw_pq_enqueue (lt_rand ex_heap8) q 13 = Inl err"
proof -
  let ?hp = ex_heap8
  obtain q where q: "enqueue_all (tw_pq_enqueue (lt_rand ?hp)) tw_pq_create [3, 7, 5] = Inr q"
    "pq_inv (key_at ?hp) (wf_at ?hp) q" "mset (contents q) = mset [3, 7, 5]"
    using pq_filled[of "[3, 7, 5]" ?hp] by (auto simp: wf_at_def key_at_def rand_key_def ex_event_def ex_heap_def ex_heap8_def)
  have "5 \<in> set (contents q)" using q(3) by (simp flip: set_mset_mset)
  moreover have "wf_at ?hp 13" "key_at ?hp 5 = key_at ?hp 13"
    by (simp_all add: wf_at_def key_at_def ex_event_def ex_heap8_def)
  ultimately show ?thesis using pq_enqueue_rejects_identical[OF q(2)] q(1) by blast
qed

lemma pq_minimum_bound:
  assumes "pq_inv (key_at hp) (wf_at hp) st" "\<forall>e \<in> set (contents st). ev_recv_ts (hp e) = recv_ts (qsig (hp e))"
  shows "(contents st = [] \<longrightarrow> tw_pq_minimum_sig_ptr hp st = g_tw_max_sig) \<and>
    (\<forall>e \<in> set (contents st). tw_event_sig_compare_ptr (tw_pq_minimum_sig_ptr hp st) (qsig (hp e)) \<le> 0)"
proof (cases "contents st")
  case Nil
  then show ?thesis using assms(1) by (simp add: pq_inv_def tw_pq_minimum_sig_ptr_def)
next
  case (Cons m es)
  then have min: "tw_pq_minimum_sig_ptr hp st = qsig (hp m)"
    using assms(1) by (simp add: pq_inv_def tw_pq_minimum_sig_ptr_def)
  have "sig_key (qsig (hp m)) \<le> sig_key (qsig (hp e))" if "e \<in> set (contents st)" for e
  proof -
    have "rand_key (hp m) \<le> rand_key (hp e)"
      using assms(1) Cons that by (auto simp: pq_inv_def key_at_def less_imp_le)
    then show ?thesis
      using assms(2) Cons that by (auto simp: rand_key_def sig_key_def less_eq_prod_def less_prod_def)
  qed
  then show ?thesis
    using assms(1) Cons min by (auto simp: tw_event_sig_compare_ptr_key pq_inv_def wf_at_def)
qed

text \<open>
  The signature the queue reports as its minimum is a lower bound of the signatures of
  all pending events, and the largest signature there is when none is pending. This is what
  GVT computation takes from the queue.
\<close>

theorem pq_minimum_sig_lower_bound:
  assumes "pq_inv (key_at hp) (wf_at hp) st" "\<forall>e \<in> set (contents st). ev_recv_ts (hp e) = recv_ts (qsig (hp e))"
  shows "(contents st = [] \<longrightarrow> tw_pq_minimum_sig_ptr hp st = g_tw_max_sig) \<and>
    (\<forall>e \<in> set (contents st). tw_event_sig_compare_ptr (tw_pq_minimum_sig_ptr hp st) (qsig (hp e)) \<le> 0)"
  using assms by (rule pq_minimum_bound)

theorem pq_minimum_sig_lower_bound_witness:
  "\<exists>q. enqueue_all (tw_pq_enqueue (lt_rand ex_heap)) tw_pq_create [3, 7, 5] = Inr q \<and>
     tw_event_sig_compare_ptr (tw_pq_minimum_sig_ptr ex_heap q) (sig_ex (10 - 3) [1 / 2]) \<le> 0"
proof -
  let ?hp = ex_heap
  obtain q where q: "enqueue_all (tw_pq_enqueue (lt_rand ?hp)) tw_pq_create [3, 7, 5] = Inr q"
    "pq_inv (key_at ?hp) (wf_at ?hp) q" "mset (contents q) = mset [3, 7, 5]"
    using pq_filled[of "[3, 7, 5]" ?hp] by (auto simp: wf_at_def key_at_def rand_key_def ex_event_def ex_heap_def ex_heap8_def)
  have "\<forall>e \<in> set (contents q). ev_recv_ts (?hp e) = recv_ts (qsig (?hp e))"
    by (simp add: ex_event_def sig_ex_def ex_heap_def)
  from pq_minimum_sig_lower_bound[OF q(2) this] have
    "\<forall>e \<in> set (contents q). tw_event_sig_compare_ptr (tw_pq_minimum_sig_ptr ?hp q) (qsig (?hp e)) \<le> 0"
    by blast
  moreover have "3 \<in> set (contents q)" using q(3) by (simp flip: set_mset_mset)
  ultimately have "tw_event_sig_compare_ptr (tw_pq_minimum_sig_ptr ?hp q) (qsig (?hp 3)) \<le> 0" by blast
  moreover have "qsig (?hp 3) = sig_ex (10 - 3) [1 / 2]" by (simp add: ex_event_def ex_heap_def)
  ultimately show ?thesis using q(1) by auto
qed

end
