(* ===== verification/Doubles.thy ===== *)
theory Doubles
  imports Ross_Prelude
begin

text \<open>
  Arithmetic in double precision: the result of an operation on doubles is the exact result, rounded to
  53 significant bits, to the nearest and to the even one of two that are equally near (IEEE 754). Real
  numbers stand for the values; the range of the exponents is not bounded, so there is neither overflow
  nor loss of bits in tiny numbers, which the code does not come near.
\<close>

section \<open>Rounding\<close>

definition half_even :: "real \<Rightarrow> int" where
  "half_even x = (let n = \<lfloor>x\<rfloor>; r = x - of_int n in if r < 1 / 2 \<or> (r = 1 / 2 \<and> even n) then n else n + 1)"

definition fl :: "real \<Rightarrow> real" where
  "fl x = (if x = 0 then 0
     else let p = 52 - \<lfloor>log 2 \<bar>x\<bar>\<rfloor> in real_of_int (half_even (x * 2 powr p)) * 2 powr (- p))"

lemma half_even_bounds: "\<lfloor>x\<rfloor> \<le> half_even x" "half_even x \<le> \<lfloor>x\<rfloor> + 1"
  by (simp_all add: half_even_def Let_def)

lemma half_even_of_int [simp]: "half_even (real_of_int n) = n"
  by (simp add: half_even_def)

lemma half_even_near: "\<bar>real_of_int (half_even x) - x\<bar> \<le> 1 / 2"
proof -
  have "of_int \<lfloor>x\<rfloor> \<le> x" "x < of_int \<lfloor>x\<rfloor> + 1" by linarith+
  then show ?thesis by (auto simp: half_even_def Let_def)
qed

lemma half_even_mono: "x \<le> y \<Longrightarrow> half_even x \<le> half_even y"
proof (cases "\<lfloor>x\<rfloor> = \<lfloor>y\<rfloor>")
  case True
  assume "x \<le> y"
  then show ?thesis using True by (auto simp: half_even_def Let_def)
next
  case False
  assume "x \<le> y"
  then have "\<lfloor>x\<rfloor> < \<lfloor>y\<rfloor>" using False floor_mono[of x y] by simp
  then show ?thesis using half_even_bounds(2)[of x] half_even_bounds(1)[of y] by linarith
qed

lemma half_even_unique: "\<bar>x - real_of_int n\<bar> < 1 / 2 \<Longrightarrow> half_even x = n"
proof -
  assume a: "\<bar>x - real_of_int n\<bar> < 1 / 2"
  have "\<bar>real_of_int (half_even x) - real_of_int n\<bar> < 1" using a half_even_near[of x] by arith
  then show ?thesis by linarith
qed

lemma half_even_minus: "half_even (- x) = - half_even x"
proof (cases "x = of_int \<lfloor>x\<rfloor>")
  case True
  then have "x = real_of_int \<lfloor>x\<rfloor>" by simp
  then show ?thesis by (metis half_even_of_int of_int_minus)
next
  case False
  then have f: "\<lfloor>- x\<rfloor> = - \<lfloor>x\<rfloor> - 1" by linarith
  have "of_int \<lfloor>x\<rfloor> < x" "x < of_int \<lfloor>x\<rfloor> + 1" using False by linarith+
  then show ?thesis by (auto simp: half_even_def Let_def f)
qed

text \<open>The value by the power of two it begins with.\<close>

lemma fl_at:
  fixes E :: int
  assumes "2 powr E \<le> x" "x < 2 powr (E + 1)"
  shows "fl x = real_of_int (half_even (x * 2 powr (52 - E))) * 2 powr (E - 52)"
proof -
  have x: "0 < x" using assms(1) by (rule less_le_trans[rotated]) simp
  then have "\<lfloor>log 2 x\<rfloor> = E" using assms by (simp add: floor_log_eq_powr_iff)
  then show ?thesis using x by (simp add: fl_def Let_def)
qed

lemma fl_0 [simp]: "fl 0 = 0"
  by (simp add: fl_def)

lemma fl_minus: "fl (- x) = - fl x"
  by (simp add: fl_def half_even_minus Let_def)

lemma powr_exponent:
  fixes x :: real
  assumes "0 < x"
  obtains E :: int where "2 powr E \<le> x" "x < 2 powr (E + 1)"
proof -
  have "2 powr \<lfloor>log 2 x\<rfloor> \<le> x \<and> x < 2 powr (\<lfloor>log 2 x\<rfloor> + 1)"
    using floor_log_eq_powr_iff[OF assms, of 2 "\<lfloor>log 2 x\<rfloor>"] by simp
  then show thesis using that by blast
qed

lemma scaled:
  fixes E :: int
  assumes "2 powr E \<le> x" "x < 2 powr (E + 1)"
  shows "2 ^ 52 \<le> half_even (x * 2 powr (52 - E))" "half_even (x * 2 powr (52 - E)) \<le> 2 ^ 53"
proof -
  have p: "(2 :: real) powr E * 2 powr (52 - E) = 2 ^ 52" "(2 :: real) powr (E + 1) * 2 powr (52 - E) = 2 ^ 53"
    by (simp_all flip: powr_add)
  have "2 powr E * 2 powr (52 - E) \<le> x * 2 powr (52 - E)" "x * 2 powr (52 - E) \<le> 2 powr (E + 1) * 2 powr (52 - E)"
    using assms by (intro mult_right_mono; simp)+
  then have "real_of_int (2 ^ 52) \<le> x * 2 powr (52 - E)" "x * 2 powr (52 - E) \<le> real_of_int (2 ^ 53)"
    unfolding p by simp_all
  from this[THEN half_even_mono]
  show "2 ^ 52 \<le> half_even (x * 2 powr (52 - E))" "half_even (x * 2 powr (52 - E)) \<le> 2 ^ 53"
    unfolding half_even_of_int by simp_all
qed

lemma fl_binade:
  fixes E :: int
  assumes "2 powr E \<le> x" "x < 2 powr (E + 1)"
  shows "2 powr E \<le> fl x" "fl x \<le> 2 powr (E + 1)"
proof -
  have p: "2 powr E = real_of_int (2 ^ 52) * 2 powr (E - 52)" "2 powr (E + 1) = real_of_int (2 ^ 53) * 2 powr (E - 52)"
    by (simp_all add: powr_diff powr_add)
  show "2 powr E \<le> fl x" unfolding fl_at[OF assms] p(1)
    by (rule mult_right_mono) (use scaled(1)[OF assms] in \<open>simp_all only: of_int_le_iff powr_ge_zero\<close>)
  show "fl x \<le> 2 powr (E + 1)" unfolding fl_at[OF assms] p(2)
    by (rule mult_right_mono) (use scaled(2)[OF assms] in \<open>simp_all only: of_int_le_iff powr_ge_zero\<close>)
qed

lemma fl_pos: "0 < x \<Longrightarrow> 0 < fl x"
proof -
  assume "0 < x"
  then obtain E :: int where E: "2 powr E \<le> x" "x < 2 powr (E + 1)" by (rule powr_exponent)
  show ?thesis using fl_binade(1)[OF E] by (rule less_le_trans[rotated]) simp
qed

lemma fl_mono_pos: "0 < x \<Longrightarrow> x \<le> y \<Longrightarrow> fl x \<le> fl y"
proof -
  assume "0 < x" and xy: "x \<le> y"
  then obtain E :: int where E: "2 powr E \<le> x" "x < 2 powr (E + 1)" by (meson powr_exponent)
  have "0 < y" using \<open>0 < x\<close> xy by simp
  then obtain F :: int where F: "2 powr F \<le> y" "y < 2 powr (F + 1)" by (rule powr_exponent)
  have "(2 :: real) powr E < 2 powr (F + 1)" using E(1) F(2) xy by linarith
  then have "E \<le> F" by simp
  then show ?thesis
  proof (cases "E = F")
    case True
    have "half_even (x * 2 powr (52 - E)) \<le> half_even (y * 2 powr (52 - E))"
      using xy by (intro half_even_mono mult_right_mono) simp_all
    then show ?thesis unfolding fl_at[OF E] fl_at[OF F] True[symmetric] by (intro mult_right_mono) simp_all
  next
    case False
    then have "real_of_int E + 1 \<le> real_of_int F" using \<open>E \<le> F\<close> by linarith
    then have "(2 :: real) powr (E + 1) \<le> 2 powr F" by simp
    then show ?thesis using fl_binade(2)[OF E] fl_binade(1)[OF F] by linarith
  qed
qed

text \<open>Rounding keeps the order.\<close>

lemma fl_mono: "x \<le> y \<Longrightarrow> fl x \<le> fl y"
proof -
  assume xy: "x \<le> y"
  consider "0 < x" | "y < 0" | "x \<le> 0" "0 \<le> y" by linarith
  then show ?thesis
  proof cases
    case 1
    then show ?thesis using xy by (rule fl_mono_pos)
  next
    case 2
    then show ?thesis using fl_mono_pos[of "- y" "- x"] xy by (simp add: fl_minus)
  next
    case 3
    have "fl x \<le> 0" using fl_pos[of "- x"] 3(1) by (cases "x = 0") (simp_all add: fl_minus)
    moreover have "0 \<le> fl y" using fl_pos[of y] 3(2) by (cases "y = 0") simp_all
    ultimately show ?thesis by simp
  qed
qed

text \<open>Integers of up to 53 bits are exact, and so are such multiples of powers of two.\<close>

lemma fl_scaled:
  fixes k e :: int
  assumes "\<bar>k\<bar> < 2 ^ 53"
  shows "fl (real_of_int k * 2 powr e) = real_of_int k * 2 powr e"
proof -
  have pos: "fl (real_of_int k * 2 powr e) = real_of_int k * 2 powr e" if k: "0 < k" "k < 2 ^ 53" for k :: int
  proof -
    have "0 < real_of_int k * 2 powr e" using k by simp
    then obtain E :: int where E: "2 powr E \<le> real_of_int k * 2 powr e" "real_of_int k * 2 powr e < 2 powr (E + 1)"
      by (rule powr_exponent)
    have "real_of_int k * 2 powr e < real_of_int (2 ^ 53) * 2 powr e"
      using k(2) by (intro mult_strict_right_mono) (metis of_int_less_iff, simp)
    also have "\<dots> = 2 powr (e + 53)" by (simp add: powr_add)
    finally have "(2 :: real) powr E < 2 powr (e + 53)" using E(1) by linarith
    then have "E \<le> e + 52" by (simp add: powr_less_cancel_iff)
    define j where "j = nat (e + 52 - E)"
    have "real_of_int k * 2 powr e * 2 powr (52 - E) = real_of_int k * 2 powr (e + (52 - E))"
      by (simp add: powr_add)
    also have "2 powr (e + (52 - E)) = (2 :: real) ^ j"
    proof -
      have "real_of_int e + (52 - real_of_int E) = real j" using \<open>E \<le> e + 52\<close> by (simp add: j_def)
      then show ?thesis by (simp add: powr_realpow)
    qed
    finally have "real_of_int k * 2 powr e * 2 powr (52 - E) = real_of_int (k * 2 ^ j)" by simp
    then have "fl (real_of_int k * 2 powr e) = real_of_int k * 2 powr e * 2 powr (52 - E) * 2 powr (E - 52)"
      unfolding fl_at[OF E] by (simp only: half_even_of_int)
    also have "\<dots> = real_of_int k * 2 powr e" by (simp add: mult.assoc flip: powr_add)
    finally show ?thesis .
  qed
  consider "0 < k" | "k = 0" | "0 < - k" by linarith
  then show ?thesis
  proof cases
    case 3
    then show ?thesis using pos[of "- k"] assms by (simp add: fl_minus)
  qed (use pos[of k] assms in simp_all)
qed

lemma fl_of_int: "\<bar>k\<bar> < 2 ^ 53 \<Longrightarrow> fl (real_of_int k) = real_of_int k"
  using fl_scaled[of k 0] by simp

lemma fl_numbers [simp]: "fl 1 = 1" "fl 2 = 2" "fl (- 1) = - 1"
  using fl_of_int[of 1] fl_of_int[of 2] fl_of_int[of "- 1"] by simp_all

lemma fl_le_1: "x \<le> 1 \<Longrightarrow> fl x \<le> 1" and fl_ge_0: "0 \<le> x \<Longrightarrow> 0 \<le> fl x"
  using fl_mono[of x 1] fl_mono[of 0 x] by simp_all

text \<open>The relative error is at most \<open>2 ^ - 53\<close>.\<close>

lemma fl_error: "0 \<le> x \<Longrightarrow> \<bar>fl x - x\<bar> \<le> x / 2 ^ 53"
proof (cases "x = 0")
  case False
  assume "0 \<le> x"
  then have "0 < x" using False by simp
  then obtain E :: int where E: "2 powr E \<le> x" "x < 2 powr (E + 1)" by (rule powr_exponent)
  let ?y = "x * 2 powr (52 - E)"
  have "fl x - x = (real_of_int (half_even ?y) - ?y) * 2 powr (E - 52)"
    unfolding fl_at[OF E] by (simp add: left_diff_distrib mult.assoc flip: powr_add)
  then have "\<bar>fl x - x\<bar> = \<bar>real_of_int (half_even ?y) - ?y\<bar> * 2 powr (E - 52)" by (simp add: abs_mult)
  also have "\<dots> \<le> 1 / 2 * 2 powr (E - 52)" by (intro mult_right_mono half_even_near) simp
  also have "\<dots> = 2 powr E / 2 ^ 53" by (simp add: powr_diff)
  also have "\<dots> \<le> x / 2 ^ 53" using E(1) by (intro divide_right_mono) simp_all
  finally show ?thesis .
qed simp

text \<open>Ways to compute it.\<close>

lemma fl_dyadic:
  fixes k :: int
  assumes "\<bar>k\<bar> < 2 ^ 53"
  shows "fl (real_of_int k / 2 ^ n) = real_of_int k / 2 ^ n"
proof -
  have "(2 :: real) powr (- int n) = 1 / 2 ^ n" by (simp add: powr_minus powr_realpow divide_inverse)
  then show ?thesis using fl_scaled[OF assms, of "- int n"] by simp
qed

lemma fl_eqI:
  fixes E n :: int
  assumes "2 powr E \<le> x" "x < 2 powr (E + 1)" "\<bar>x * 2 powr (52 - E) - real_of_int n\<bar> < 1 / 2"
  shows "fl x = real_of_int n * 2 powr (E - 52)"
  using fl_at[OF assms(1,2)] half_even_unique[OF assms(3)] by simp

lemma fl_idem [simp]: "fl (fl x) = fl x"
proof -
  have pos: "fl (fl x) = fl x" if x: "0 < x" for x
  proof -
    from x obtain E :: int where E: "2 powr E \<le> x" "x < 2 powr (E + 1)" by (rule powr_exponent)
    let ?n = "half_even (x * 2 powr (52 - E))"
    show ?thesis
    proof (cases "?n = 2 ^ 53")
      case True
      have "fl x = real_of_int (2 ^ 52) * 2 powr (E - 51)" unfolding fl_at[OF E] True by (simp add: powr_diff)
      then show ?thesis using fl_scaled[of "2 ^ 52" "E - 51"] by simp
    next
      case False
      then have "\<bar>?n\<bar> < 2 ^ 53" using scaled[OF E] by simp
      from fl_scaled[OF this, of "E - 52"] show ?thesis unfolding fl_at[OF E] by simp
    qed
  qed
  consider "0 < x" | "x = 0" | "0 < - x" by linarith
  then show ?thesis
  proof cases
    case 3
    then show ?thesis using pos[of "- x"] by (simp add: fl_minus)
  qed (use pos[of x] in simp_all)
qed

section \<open>Numbers below one\<close>

text \<open>The largest double below 1.\<close>

lemma double_below_1:
  assumes "fl u = u" "0 \<le> u" "u < 1"
  shows "u \<le> 1 - 1 / 2 ^ 53"
proof (cases "u < 1 / 2")
  case False
  have "fl u = real_of_int (half_even (u * 2 powr (52 - (- 1 :: int)))) * 2 powr (- 1 - 52 :: int)"
    using assms False by (intro fl_at) simp_all
  then obtain n :: int where "u = real_of_int n * 2 powr (- 1 - 52 :: int)" using assms(1) by metis
  then have v: "u = real_of_int n / 2 ^ 53" by (simp add: powr_minus divide_simps)
  then have "real_of_int n < real_of_int (2 ^ 53)" using assms(3) by (simp add: divide_less_eq)
  then have "n < 2 ^ 53" by (simp only: of_int_less_iff)
  then have "n \<le> 2 ^ 53 - 1" by simp
  then have "real_of_int n \<le> real_of_int (2 ^ 53 - 1)" by (simp only: of_int_le_iff)
  then show ?thesis unfolding v by simp
qed simp

text \<open>A number below 1 times an integer is below the integer, also after rounding.\<close>

lemma fl_times_below:
  fixes R :: int
  assumes u: "fl u = u" "0 \<le> u" "u < 1" and R: "0 < R" "R < 2 ^ 53"
  shows "fl (u * real_of_int R) < real_of_int R"
proof -
  obtain E :: int where E: "2 powr E \<le> real_of_int R" "real_of_int R < 2 powr (E + 1)"
    using powr_exponent[of "real_of_int R"] R(1) by auto
  define z where "z = real_of_int R - real_of_int R / 2 ^ 53"
  have "u * real_of_int R \<le> (1 - 1 / 2 ^ 53) * real_of_int R"
    using double_below_1[OF u] R(1) by (intro mult_right_mono) simp_all
  also have "\<dots> = z" by (simp add: z_def algebra_simps)
  finally have le: "fl (u * real_of_int R) \<le> fl z" by (rule fl_mono)
  have "fl z < real_of_int R"
  proof (cases "real_of_int R = 2 powr E")
    case True
    have "z = real_of_int (2 ^ 53 - 1) * 2 powr real_of_int (E - 53)"
      by (simp add: z_def True powr_diff algebra_simps)
    then have "fl z = z" using fl_scaled[of "2 ^ 53 - 1" "E - 53"] by simp
    then show ?thesis using R(1) by (simp add: z_def)
  next
    case False
    then have lt: "2 powr E < real_of_int R" using E(1) by simp
    have "0 \<le> E"
    proof (rule ccontr)
      assume "\<not> 0 \<le> E"
      then have "(2 :: real) powr (E + 1) \<le> 2 powr 0" by (intro powr_mono) simp_all
      then show False using E(2) R(1) by simp
    qed
    then have pE: "2 powr real_of_int E = real_of_int (2 ^ nat E)" by (simp add: powr_real_of_int)
    then have "2 ^ nat E < R" using lt by (metis of_int_less_iff)
    then have "2 powr E + 1 \<le> real_of_int R" unfolding pE by (metis add_le_cancel_right int_le_real_less le_less of_int_le_iff of_int_1 of_int_add zless_imp_add1_zle)
    moreover have "real_of_int R / 2 ^ 53 < 1"
    proof -
      have "real_of_int R < real_of_int (2 ^ 53)" using R(2) by (simp only: of_int_less_iff)
      then show ?thesis by (simp add: divide_less_eq)
    qed
    ultimately have z: "2 powr E \<le> z" "z < 2 powr (E + 1)" using E(2) R(1) by (auto simp: z_def intro: less_trans[rotated])
    have E52: "E \<le> 52"
    proof (rule ccontr)
      assume "\<not> E \<le> 52"
      then have "(2 :: real) powr 53 \<le> 2 powr E" by (intro powr_mono) simp_all
      moreover have "real_of_int R < real_of_int (2 ^ 53)" using R(2) by (simp only: of_int_less_iff)
      ultimately show False using E(1) by simp
    qed
    define m where "m = R * 2 ^ nat (52 - E)"
    have p52: "2 powr (52 - real_of_int E) = real_of_int (2 ^ nat (52 - E))"
      using powr_real_of_int[of 2 "52 - E"] E52 by simp
    have m: "real_of_int R * 2 powr (52 - real_of_int E) = real_of_int m" unfolding p52 m_def by simp
    have half: "1 / 2 < real_of_int R / 2 ^ 53 * 2 powr (52 - real_of_int E)"
    proof -
      have "2 powr E / 2 ^ 53 * 2 powr (52 - real_of_int E) = 1 / (2 :: real)" by (simp add: powr_diff)
      moreover have "2 powr E / 2 ^ 53 * 2 powr (52 - real_of_int E) < real_of_int R / 2 ^ 53 * 2 powr (52 - real_of_int E)"
        using lt by (intro mult_strict_right_mono divide_strict_right_mono) simp_all
      ultimately show ?thesis by simp
    qed
    have "z * 2 powr (52 - real_of_int E) = real_of_int m - real_of_int R / 2 ^ 53 * 2 powr (52 - real_of_int E)"
      unfolding z_def left_diff_distrib m ..
    then have "real_of_int (half_even (z * 2 powr (52 - real_of_int E))) < real_of_int m"
      using half half_even_near[of "z * 2 powr (52 - real_of_int E)"] by linarith
    moreover have "fl z = real_of_int (half_even (z * 2 powr (52 - real_of_int E))) * 2 powr (real_of_int E - 52)"
      using fl_at[OF z] by simp
    ultimately have "fl z < real_of_int m * 2 powr (real_of_int E - 52)"
      by (simp only:) (intro mult_strict_right_mono, simp_all)
    also have "\<dots> = real_of_int R" unfolding m[symmetric] by (simp add: mult.assoc flip: powr_add)
    finally show ?thesis .
  qed
  then show ?thesis using le by linarith
qed

end
