(* ===== verification/Rng_Clcg4.thy ===== *)
theory Rng_Clcg4
  imports Doubles "HOL-Library.Word"
begin

unbundle bit_operations_syntax

text \<open>
  The combined linear congruential generator of \<open>core/rand-clcg4.c\<close> and the way its
  streams are seeded, advanced and run backwards. All signed arithmetic goes through the
  checked operations, so a result \<open>Some\<close> says that no C expression overflowed. The
  generator of the process is a parameter, as the code reads it from the static variables
  \<open>rng\<close> and \<open>core_rng\<close>.
\<close>

section \<open>Checked 32-bit operations\<close>

definition add32 :: "int \<Rightarrow> int \<Rightarrow> int option" where
  "add32 a b = i32 (a + b)"

definition sub32 :: "int \<Rightarrow> int \<Rightarrow> int option" where
  "sub32 a b = i32 (a - b)"

definition mul32 :: "int \<Rightarrow> int \<Rightarrow> int option" where
  "mul32 a b = i32 (a * b)"

definition div32 :: "int \<Rightarrow> int \<Rightarrow> int option" where
  "div32 a b = (if b = 0 then None else i32 (c_div a b))"

section \<open>MultModM\<close>

definition H :: int where
  "H = 32768"

text \<open>\<open>while (R < 0) R += M\<close>, which does not end when \<open>M\<close> is 0.\<close>

partial_function (option) while_add :: "int \<Rightarrow> int \<Rightarrow> int option" where
  "while_add R M = (if R < 0 then add32 R M \<bind> (\<lambda>R'. while_add R' M) else Some R)"

text \<open>
  \<open>k = t / qh; R = H * (t - k * qh) - k * rh; while (R < 0) R += M;\<close>
  (lines 102-105 and 121-124).
\<close>

definition mult_shift :: "int \<Rightarrow> int \<Rightarrow> int \<Rightarrow> int \<Rightarrow> int option" where
  "mult_shift t qh rh M = do {
     k \<leftarrow> div32 t qh;
     kq \<leftarrow> mul32 k qh;
     d \<leftarrow> sub32 t kq;
     x \<leftarrow> mul32 H d;
     y \<leftarrow> mul32 k rh;
     R \<leftarrow> sub32 x y;
     while_add R M }"

text \<open>
  \<open>q = M / S; k = t / q; R -= k * (M - S * q); if (R > 0) R -= M;
  R += S * (t - k * q); while (R < 0) R += M;\<close> (lines 112-119 and 128-135).
\<close>

definition mult_term :: "int \<Rightarrow> int \<Rightarrow> int \<Rightarrow> int \<Rightarrow> int option" where
  "mult_term S t M R = do {
     q \<leftarrow> div32 M S;
     k \<leftarrow> div32 t q;
     sq \<leftarrow> mul32 S q;
     r \<leftarrow> sub32 M sq;
     kr \<leftarrow> mul32 k r;
     R1 \<leftarrow> sub32 R kr;
     R2 \<leftarrow> (if R1 > 0 then sub32 R1 M else Some R1);
     kq \<leftarrow> mul32 k q;
     d \<leftarrow> sub32 t kq;
     sd \<leftarrow> mul32 S d;
     R3 \<leftarrow> add32 R2 sd;
     while_add R3 M }"

definition MultModM :: "int \<Rightarrow> int \<Rightarrow> int \<Rightarrow> int option" where
  "MultModM s0 t0 M = do {
     s \<leftarrow> (if s0 < 0 then add32 s0 M else Some s0);
     t \<leftarrow> (if t0 < 0 then add32 t0 M else Some t0);
     (S0, R) \<leftarrow>
       (if s < H then Some (s, 0)
        else do {
          S1 \<leftarrow> div32 s H;
          hs \<leftarrow> mul32 H S1;
          S0 \<leftarrow> sub32 s hs;
          qh \<leftarrow> div32 M H;
          hq \<leftarrow> mul32 H qh;
          rh \<leftarrow> sub32 M hq;
          (S1', R1) \<leftarrow>
            (if S1 \<ge> H then do {
               S1' \<leftarrow> sub32 S1 H;
               R1 \<leftarrow> mult_shift t qh rh M;
               Some (S1', R1) }
             else Some (S1, 0));
          R2 \<leftarrow> (if S1' \<noteq> 0 then mult_term S1' t M R1 else Some R1);
          R3 \<leftarrow> mult_shift R2 qh rh M;
          Some (S0, R3) });
     (if S0 \<noteq> 0 then mult_term S0 t M R else Some R) }"

lemma while_add_nonneg [simp]: "0 \<le> R \<Longrightarrow> while_add R M = Some R"
  by (subst while_add.simps) simp

lemma while_add_once:
  assumes "- M \<le> R" "R < M" "M < 2147483648"
  shows "while_add R M = Some (R mod M)"
proof (cases "0 \<le> R")
  case True
  with assms show ?thesis by (simp add: mod_pos_pos_trivial)
next
  case False
  have "(R + M) mod M = R + M" using assms False by (intro mod_pos_pos_trivial) auto
  moreover have "while_add (R + M) M = Some (R + M)" using assms by simp
  ultimately show ?thesis
    using False assms by (subst while_add.simps) (simp add: add32_def)
qed

lemma mult_shift_correct:
  assumes "0 \<le> t" "t < M" "1073741824 \<le> M" "M < 2147483648"
  shows "mult_shift t (M div H) (M mod H) M = Some ((H * t) mod M)"
proof -
  define q r k where "q = M div H" and "r = M mod H" and "k = t div q"
  have M: "M = H * q + r" by (simp add: q_def r_def)
  have rH: "0 \<le> r" "r < H" by (simp_all add: r_def H_def)
  have qH: "H \<le> q" "q < 65536" using assms by (simp_all add: q_def H_def)
  have q0: "0 < q" using qH by (simp add: H_def)
  have k: "0 \<le> k" "k * q \<le> t" "t < k * q + q"
    using div_mult_bounds[OF q0 assms(1)] by (simp_all add: k_def)
  have kr: "0 \<le> k * r" "k * r \<le> t"
    using mult_left_mono[of r q k] k rH qH by auto
  have kt: "k \<le> t" using k q0 mult_left_mono[of 1 q k] by simp
  have d: "0 \<le> t - k * q" "t - k * q \<le> q - 1" using k by auto
  have Hd: "0 \<le> H * (t - k * q)" "H * (t - k * q) \<le> H * (q - 1)"
    using d by (auto simp: H_def)
  have HM: "H * (q - 1) < M" using M rH by (simp add: algebra_simps H_def)
  have "H * (t - k * q) - k * r = H * t - k * M"
    by (subst M) (simp add: algebra_simps)
  then have val: "(H * (t - k * q) - k * r) mod M = (H * t) mod M"
    by (simp add: mod_diff_right_eq[symmetric])
  have "while_add (H * (t - k * q) - k * r) M = Some ((H * t) mod M)"
    unfolding val[symmetric] using kr Hd HM assms by (intro while_add_once) auto
  moreover have "c_div t q = k" using assms q0 by (simp add: k_def)
  ultimately show ?thesis
    unfolding mult_shift_def div32_def mul32_def sub32_def q_def[symmetric] r_def[symmetric]
    using q0 k kt kr Hd HM d assms qH by simp
qed

lemma mult_term_correct:
  assumes "0 < S" "S < H" "0 \<le> t" "t < M" "0 \<le> R" "R < M"
    "1073741824 \<le> M" "M < 2147483648"
  shows "mult_term S t M R = Some ((R + S * t) mod M)"
proof -
  define q r k where "q = M div S" and "r = M mod S" and "k = t div q"
  have M: "M = S * q + r" by (simp add: q_def r_def)
  have rS: "0 \<le> r" "r < S" using assms by (simp_all add: r_def)
  have "M div H \<le> q" unfolding q_def using assms
    by (intro zdiv_mono2) auto
  moreover have "32768 \<le> M div H" using assms by (simp add: H_def)
  ultimately have qS: "S < q" "0 < q" "S * q \<le> M" using assms M rS by (auto simp: H_def)
  have "1 * q \<le> S * q" using assms(1) qS(2) by (intro mult_right_mono) auto
  then have qM: "q \<le> M" "0 \<le> S * q" using qS(2,3) by linarith+
  have k: "0 \<le> k" "k * q \<le> t" "t < k * q + q"
    using div_mult_bounds[OF qS(2) assms(3)] by (simp_all add: k_def)
  have kt: "k \<le> t" using k qS mult_left_mono[of 1 q k] by simp
  have kr: "0 \<le> k * r" "k * r \<le> t"
    using mult_left_mono[of r q k] k rS qS by auto
  have d: "0 \<le> t - k * q" "t - k * q \<le> q - 1" using k by auto
  have Sd: "0 \<le> S * (t - k * q)" "S * (t - k * q) \<le> S * (q - 1)"
    using d assms by (auto intro: mult_left_mono)
  have SM: "S * (q - 1) < M" using M rS assms by (simp add: algebra_simps)
  define R2 where "R2 = (if R - k * r > 0 then R - k * r - M else R - k * r)"
  have R2: "- M < R2" "R2 \<le> 0" using kr assms by (auto simp: R2_def)
  have eq: "R - k * r + S * (t - k * q) = R + S * t - k * M"
    by (subst M) (simp add: algebra_simps)
  have "(R2 + S * (t - k * q)) mod M = (R - k * r + S * (t - k * q)) mod M"
    by (simp add: R2_def) (metis add_diff_eq diff_add_eq minus_mod_self2)
  also have "\<dots> = (R + S * t) mod M"
    unfolding eq by (simp add: mod_diff_right_eq[symmetric])
  finally have val: "(R2 + S * (t - k * q)) mod M = (R + S * t) mod M" .
  have "while_add (R2 + S * (t - k * q)) M = Some ((R + S * t) mod M)"
    unfolding val[symmetric]
    by (intro while_add_once) (use R2 Sd SM assms(8) in linarith)+
  moreover have "c_div M S = q" "c_div t q = k" using assms qS by (simp_all add: k_def q_def)
  moreover have "M - S * q = r" using M by simp
  moreover have "(if 0 < R - k * r then i32 (R - k * r - M) else Some (R - k * r)) = Some R2"
    using kr assms by (auto simp: R2_def)
  moreover have "i32 q = Some q" "i32 k = Some k" "i32 (S * q) = Some (S * q)"
    "i32 r = Some r" "i32 (k * r) = Some (k * r)" "i32 (R - k * r) = Some (R - k * r)"
    "i32 (k * q) = Some (k * q)" "i32 (t - k * q) = Some (t - k * q)"
    "i32 (S * (t - k * q)) = Some (S * (t - k * q))"
    "i32 (R2 + S * (t - k * q)) = Some (R2 + S * (t - k * q))"
    by (rule i32_Some; use assms qS qM k kt kr Sd SM d R2 rS in linarith)+
  ultimately show ?thesis
    unfolding mult_term_def div32_def mul32_def sub32_def add32_def
    using assms(1) qS(2) by simp
qed

lemma MultModM_value:
  assumes "1073741824 \<le> M" "M < 2147483648" "- M < s" "s < M" "- M < t" "t < M"
  shows "MultModM s t M = Some ((s * t) mod M)"
proof -
  define s' t' where "s' = s mod M" and "t' = t mod M"
  have mods: "s' = (if s < 0 then s + M else s)" "t' = (if t < 0 then t + M else t)"
    using assms mod_add_self2[of s M] mod_add_self2[of t M]
    by (auto simp: s'_def t'_def mod_pos_pos_trivial simp del: mod_add_self2)
  have b: "0 \<le> s'" "s' < M" "0 \<le> t'" "t' < M" using assms by (simp_all add: s'_def t'_def)
  have st: "(s * t) mod M = (s' * t') mod M" by (simp add: s'_def t'_def mod_mult_eq)
  have rd: "(if s < 0 then add32 s M else Some s) = Some s'"
    "(if t < 0 then add32 t M else Some t) = Some t'"
    using mods assms by (auto simp: add32_def)
  show ?thesis
  proof (cases "s' < H")
    case True
    then show ?thesis
      using b assms mult_term_correct[of s' t' M 0]
      by (auto simp: MultModM_def rd st)
  next
    case False
    define S1 S0 where "S1 = s' div H" and "S0 = s' mod H"
    have s': "s' = H * S1 + S0" by (simp add: S1_def S0_def)
    have S0: "0 \<le> S0" "S0 < H" by (simp_all add: S0_def H_def)
    have S1: "0 < S1" "S1 < 2 * H" using b assms False by (simp_all add: S1_def H_def)
    have cd: "c_div s' H = S1" "c_div M H = M div H"
      using b assms by (simp_all add: S1_def H_def)
    have hq: "0 \<le> M div H" "M div H < 65536" "M - H * (M div H) = M mod H"
      "0 \<le> M mod H" "M mod H < H" "H * (M div H) \<le> M" "0 \<le> H * (M div H)"
      using assms by (simp_all add: H_def minus_mult_div_eq_mod)
    define S1' R1 where "S1' = (if S1 \<ge> H then S1 - H else S1)"
      and "R1 = (if S1 \<ge> H then (H * t') mod M else 0)"
    have S1': "0 \<le> S1'" "S1' < H" "0 \<le> R1" "R1 < M"
      using S1 b assms by (auto simp: S1'_def R1_def)
    have R2: "(if S1' \<noteq> 0 then mult_term S1' t' M R1 else Some R1) = Some ((S1 * t') mod M)"
    proof -
      have "(R1 + S1' * t') mod M = (S1 * t') mod M"
      proof (cases "S1 \<ge> H")
        case True
        have "((H * t') mod M + (S1 - H) * t') mod M = (H * t' + (S1 - H) * t') mod M"
          by (rule mod_add_left_eq)
        also have "H * t' + (S1 - H) * t' = S1 * t'" by (simp add: algebra_simps)
        finally show ?thesis using True by (simp add: R1_def S1'_def)
      qed (simp add: R1_def S1'_def)
      moreover from this have "S1' = 0 \<Longrightarrow> R1 = (S1 * t') mod M"
        using S1' by (simp add: mod_pos_pos_trivial)
      moreover have "S1' \<noteq> 0 \<Longrightarrow> mult_term S1' t' M R1 = Some ((R1 + S1' * t') mod M)"
        using S1' b assms(1,2) by (intro mult_term_correct) auto
      ultimately show ?thesis by simp
    qed
    have R3: "mult_shift ((S1 * t') mod M) (M div H) (M mod H) M = Some ((H * (S1 * t')) mod M)"
      using mult_shift_correct[of "(S1 * t') mod M" M] assms by (simp add: mod_mult_right_eq)
    have fin: "(if S0 \<noteq> 0 then mult_term S0 t' M ((H * (S1 * t')) mod M)
        else Some ((H * (S1 * t')) mod M)) = Some ((s' * t') mod M)"
    proof -
      have "((H * (S1 * t')) mod M + S0 * t') mod M = (H * (S1 * t') + S0 * t') mod M"
        by (rule mod_add_left_eq)
      also have "H * (S1 * t') + S0 * t' = s' * t'" by (simp add: s' algebra_simps)
      finally have "((H * (S1 * t')) mod M + S0 * t') mod M = (s' * t') mod M" .
      moreover have "S0 \<noteq> 0 \<Longrightarrow> mult_term S0 t' M ((H * (S1 * t')) mod M)
          = Some (((H * (S1 * t')) mod M + S0 * t') mod M)"
        using S0 b assms(1,2) by (intro mult_term_correct) auto
      ultimately show ?thesis by (simp add: s' algebra_simps)
    qed
    have inner: "(if S1 \<ge> H then do {
               S1' \<leftarrow> sub32 S1 H;
               R1 \<leftarrow> mult_shift t' (M div H) (M mod H) M;
               Some (S1', R1) }
             else Some (S1, 0)) = Some (S1', R1)"
      using S1 mult_shift_correct[OF b(3,4) assms(1,2)]
      by (auto simp: S1'_def R1_def sub32_def H_def)
    have divs: "div32 s' H = Some S1" "div32 M H = Some (M div H)"
      "mul32 H S1 = Some (H * S1)" "sub32 s' (H * S1) = Some S0"
      "mul32 H (M div H) = Some (H * (M div H))" "sub32 M (H * (M div H)) = Some (M mod H)"
      using cd hq S1 S0 s' b assms by (simp_all add: div32_def mul32_def sub32_def H_def)
    show ?thesis
      using False by (simp add: MultModM_def rd divs inner R2 R3 fin st)
  qed
qed

text \<open>
  \<open>MultModM\<close> returns the product modulo \<open>M\<close> for every modulus between \<open>2^30\<close> and
  \<open>2^31\<close> and all operands of absolute value below the modulus, its loops end, and no
  intermediate value overflows 32 bits.
\<close>

theorem MultModM_correct:
  assumes "1073741824 \<le> M" "M < 2147483648" "- M < s" "s < M" "- M < t" "t < M"
  shows "MultModM s t M = Some ((s * t) mod M)"
  using assms by (rule MultModM_value)

theorem MultModM_correct_witness:
  "MultModM (- 5) 2147483646 2147483647 = Some 5"
  by (subst MultModM_correct) simp_all

section \<open>Generators and streams\<close>

text \<open>\<open>struct tw_rng\<close> and \<open>struct tw_rng_stream\<close> of \<open>core/rand-clcg4.h\<close>.\<close>

record tw_rng =
  rng_b :: "int list"
  rng_m :: "int list"
  rng_a :: "int list"
  rng_aw :: "int list"
  rng_avw :: "int list"
  rng_seed :: "int list"

record tw_rng_stream =
  st_count :: "64 word"
  Ig :: "int list"
  Lg :: "int list"
  Cg :: "int list"

datatype SeedType = InitialSeed | LastSeed | NewSeed

text \<open>
  \<open>FindB\<close>: the table of repeated squares of \<open>a\<close>, then the product of those the bits of
  \<open>k\<close> select. \<open>power_of_2\<close> takes the value \<open>2^i\<close> in round \<open>i\<close>.
\<close>

fun findb_sqrs :: "nat \<Rightarrow> int \<Rightarrow> int \<Rightarrow> int list option" where
  "findb_sqrs 0 x m = Some [x]"
| "findb_sqrs (Suc n) x m = do {
     xx \<leftarrow> i64 (x * x);
     rest \<leftarrow> findb_sqrs n (c_rem xx m) m;
     Some (x # rest) }"

fun findb_prod :: "int list \<Rightarrow> int \<Rightarrow> int \<Rightarrow> int \<Rightarrow> int \<Rightarrow> int option" where
  "findb_prod [] p k b m = Some b"
| "findb_prod (x # xs) p k b m = do {
     y \<leftarrow> i64 (b * (if p AND k = 0 then 1 else x));
     p' \<leftarrow> i64 (p * 2);
     findb_prod xs p' k (c_rem y m) m }"

definition FindB :: "int \<Rightarrow> int \<Rightarrow> int \<Rightarrow> int option" where
  "FindB a k m = do { sqrs \<leftarrow> findb_sqrs 31 a m; findb_prod sqrs 1 k 1 m }"

definition S_MAX :: "32 word list" where
  "S_MAX = [2147483646, 2147483542, 2147483422, 2147483322]"

definition clamp1 :: "32 word \<Rightarrow> 32 word \<Rightarrow> 32 word" where
  "clamp1 s mx = (let s = (if s < 1 then 1 else s) in if s > mx then mx else s)"

definition clamp_seed :: "32 word list \<Rightarrow> 32 word list" where
  "clamp_seed s = map2 clamp1 s S_MAX"

text \<open>One function applied to the four components in turn.\<close>

fun mapM :: "('a \<Rightarrow> 'b option) \<Rightarrow> 'a list \<Rightarrow> 'b list option" where
  "mapM f [] = Some []"
| "mapM f (x # xs) = do { y \<leftarrow> f x; ys \<leftarrow> mapM f xs; Some (y # ys) }"

definition mult4 :: "int list \<Rightarrow> int list \<Rightarrow> int list \<Rightarrow> int list option" where
  "mult4 ss ts ms = mapM (\<lambda>(s, t, m). MultModM s t m) (zip ss (zip ts ms))"

definition rng_init_generator :: "tw_rng_stream \<Rightarrow> SeedType \<Rightarrow> tw_rng \<Rightarrow> tw_rng_stream option" where
  "rng_init_generator g Where the_rng = do {
     L \<leftarrow> (case Where of
            InitialSeed \<Rightarrow> Some (Ig g)
          | NewSeed \<Rightarrow> mult4 (rng_aw the_rng) (Lg g) (rng_m the_rng)
          | LastSeed \<Rightarrow> Some (Lg g));
     Some (g\<lparr>Lg := L, Cg := L\<rparr>) }"

text \<open>Assigning an unsigned 32-bit value to an \<open>int32_t\<close> keeps its bits.\<close>

definition rng_set_seed :: "tw_rng_stream \<Rightarrow> 32 word list \<Rightarrow> tw_rng \<Rightarrow> tw_rng_stream option" where
  "rng_set_seed g s the_rng =
     rng_init_generator (g\<lparr>Ig := map sint (clamp_seed s)\<rparr>) InitialSeed the_rng"

definition rng_get_state :: "tw_rng_stream \<Rightarrow> 32 word list" where
  "rng_get_state g = map word_of_int (Cg g)"

definition rng_put_state :: "tw_rng_stream \<Rightarrow> 32 word list \<Rightarrow> tw_rng_stream" where
  "rng_put_state g s = g\<lparr>Cg := map sint s\<rparr>"

text \<open>\<open>for (i = 0; i < n; i++) x = MultModM(x, x, m)\<close>\<close>

fun square_loop :: "nat \<Rightarrow> int \<Rightarrow> int \<Rightarrow> int option" where
  "square_loop 0 x m = Some x"
| "square_loop (Suc n) x m = do { y \<leftarrow> MultModM x x m; square_loop n y m }"

definition square4 :: "nat \<Rightarrow> int list \<Rightarrow> int list \<Rightarrow> int list option" where
  "square4 n xs ms = mapM (\<lambda>(x, m). square_loop n x m) (zip xs ms)"

text \<open>
  The loop of \<open>tw_rand_initial_seed\<close> over the bits of the stream id, from bit 63 down to
  bit 1: \<open>positions\<close> is both the loop counter and the number of squarings.
\<close>

fun seed_loop :: "nat \<Rightarrow> 64 word \<Rightarrow> 64 word \<Rightarrow> tw_rng \<Rightarrow> int list \<Rightarrow> int list option" where
  "seed_loop 0 mask_bit gid r Ig_t = Some Ig_t"
| "seed_loop (Suc n) mask_bit gid r Ig_t = do {
     Ig_t \<leftarrow> (if gid AND mask_bit \<noteq> 0
             then do {
               avw_t \<leftarrow> square4 (Suc n) (rng_avw r) (rng_m r);
               mult4 avw_t Ig_t (rng_m r) }
             else Some Ig_t);
     seed_loop n (drop_bit 1 mask_bit) gid r Ig_t }"

definition tw_rand_initial_seed :: "64 word \<Rightarrow> tw_rng \<Rightarrow> tw_rng_stream option" where
  "tw_rand_initial_seed gid r = do {
     Ig_t \<leftarrow> seed_loop 63 (push_bit 63 1) gid r (rng_seed r);
     Ig_t \<leftarrow> (if gid mod 2 \<noteq> 0 then mult4 (rng_avw r) Ig_t (rng_m r) else Some Ig_t);
     rng_init_generator
       \<lparr>st_count = 0, Ig = map sint (clamp_seed (map word_of_int Ig_t)), Lg = [], Cg = []\<rparr>
       InitialSeed r }"

text \<open>
  \<open>rng_init\<close> and \<open>rng_core_init\<close>; the first argument is the seed array the user may
  set (\<open>g_tw_rng_seed\<close>, \<open>g_tw_core_rng_seed\<close>), a null pointer by default.
\<close>

definition rng_m_consts :: "int list" where
  "rng_m_consts = [2147483647, 2147483543, 2147483423, 2147483323]"

definition rng_a_consts :: "int list" where
  "rng_a_consts = [45991, 207707, 138556, 49689]"

definition rng_init :: "32 word list option \<Rightarrow> nat \<Rightarrow> nat \<Rightarrow> tw_rng option" where
  "rng_init g_tw_rng_seed v w = do {
     let seed = (case g_tw_rng_seed of
          Some s \<Rightarrow> map sint (clamp_seed s)
        | None \<Rightarrow> [11111111, 22222222, 33333333, 44444444]);
     aw \<leftarrow> square4 w rng_a_consts rng_m_consts;
     avw \<leftarrow> square4 v aw rng_m_consts;
     b \<leftarrow> mapM (\<lambda>(a, m). FindB a (m - 2) m) (zip rng_a_consts rng_m_consts);
     Some \<lparr>rng_b = b, rng_m = rng_m_consts, rng_a = rng_a_consts, rng_aw = aw,
           rng_avw = avw, rng_seed = seed\<rparr> }"

definition rng_core_init :: "32 word list option \<Rightarrow> tw_rng \<Rightarrow> tw_rng" where
  "rng_core_init g_tw_core_rng_seed rng =
     rng\<lparr>rng_seed := (case g_tw_core_rng_seed of
          Some s \<Rightarrow> map sint (clamp_seed s)
        | None \<Rightarrow> [55555555, 66666666, 77777777, 88888888])\<rparr>"

section \<open>One step forward and one step back\<close>

text \<open>
  \<open>k = s / q; s = a * (s - k * q) - k * r; if (s < 0) s = s + m;\<close>
\<close>

definition lcg_step :: "int \<Rightarrow> int \<Rightarrow> int \<Rightarrow> int \<Rightarrow> int \<Rightarrow> int option" where
  "lcg_step a q r m s = do {
     k \<leftarrow> div32 s q;
     kq \<leftarrow> mul32 k q;
     d \<leftarrow> sub32 s kq;
     x \<leftarrow> mul32 a d;
     y \<leftarrow> mul32 k r;
     s \<leftarrow> sub32 x y;
     (if s < 0 then add32 s m else Some s) }"

text \<open>
  The combination of the four components into a number in the unit interval, in double precision: the
  constants, the products and the sums are each rounded. The state of the stream does not depend on it.
\<close>

definition rng_combine :: "int \<Rightarrow> int \<Rightarrow> int \<Rightarrow> int \<Rightarrow> real" where
  "rng_combine s0 s1 s2 s3 =
     (let u = fl (0 + fl (fl (465661287524579692 / 10 ^ 27) * real_of_int s0));
          u = fl (u - fl (fl (465661310075985993 / 10 ^ 27) * real_of_int s1));
          u = (if u < 0 then fl (u + 1) else u);
          u = fl (u + fl (fl (465661336096842131 / 10 ^ 27) * real_of_int s2));
          u = (if u \<ge> 1 then fl (u - 1) else u);
          u = fl (u - fl (fl (465661357780891134 / 10 ^ 27) * real_of_int s3))
      in if u < 0 then fl (u + 1) else u)"

definition rng_gen_val :: "tw_rng_stream \<Rightarrow> (real \<times> tw_rng_stream) option" where
  "rng_gen_val g = do {
     s0 \<leftarrow> lcg_step 45991 46693 25884 2147483647 (Cg g ! 0);
     s1 \<leftarrow> lcg_step 207707 10339 870 2147483543 (Cg g ! 1);
     s2 \<leftarrow> lcg_step 138556 15499 3979 2147483423 (Cg g ! 2);
     s3 \<leftarrow> lcg_step 49689 43218 24121 2147483323 (Cg g ! 3);
     Some (rng_combine s0 s1 s2 s3, g\<lparr>st_count := st_count g + 1, Cg := [s0, s1, s2, s3]\<rparr>) }"

text \<open>\<open>s = (b[j] * s) % m[j]\<close> in 64-bit arithmetic.\<close>

definition lcg_back :: "int \<Rightarrow> int \<Rightarrow> int \<Rightarrow> int option" where
  "lcg_back b m s = do { x \<leftarrow> i64 (b * s); Some (c_rem x m) }"

definition rng_gen_reverse_val :: "tw_rng \<Rightarrow> tw_rng_stream \<Rightarrow> ross_error + (real \<times> tw_rng_stream) option" where
  "rng_gen_reverse_val rng g =
     (if rng_b rng ! 0 = 0 then Inl (Tw_Error ''b values not calculated'')
      else Inr (do {
        s0 \<leftarrow> lcg_back (rng_b rng ! 0) (rng_m rng ! 0) (Cg g ! 0);
        s1 \<leftarrow> lcg_back (rng_b rng ! 1) (rng_m rng ! 1) (Cg g ! 1);
        s2 \<leftarrow> lcg_back (rng_b rng ! 2) (rng_m rng ! 2) (Cg g ! 2);
        s3 \<leftarrow> lcg_back (rng_b rng ! 3) (rng_m rng ! 3) (Cg g ! 3);
        Some (rng_combine s0 s1 s2 s3, g\<lparr>st_count := st_count g - 1, Cg := [s0, s1, s2, s3]\<rparr>) }))"

lemma lcg_step_correct:
  assumes m: "m = a * q + r" and "0 < a" "0 \<le> r" "r < q" "m < 2147483648" "0 \<le> s" "s < m"
  shows "lcg_step a q r m s = Some ((a * s) mod m)"
proof -
  define k where "k = s div q"
  have q: "0 < q" using assms by simp
  have k: "0 \<le> k" "k * q \<le> s" "s < k * q + q"
    using div_mult_bounds[OF q assms(6)] by (simp_all add: k_def)
  have aq: "a * q \<le> m" "q \<le> a * q" using assms q mult_right_mono[of 1 a q] by simp_all
  have kr: "0 \<le> k * r" "k * r \<le> s" using mult_left_mono[of r q k] k assms by auto
  have ks: "k \<le> s" using k q mult_left_mono[of 1 q k] by simp
  have d: "0 \<le> s - k * q" "s - k * q \<le> q - 1" using k by auto
  have ad: "0 \<le> a * (s - k * q)" "a * (s - k * q) \<le> a * (q - 1)"
    using d assms(2) by (auto intro: mult_left_mono)
  have "a * (q - 1) < m" using assms aq by (simp add: algebra_simps)
  note ad = ad this
  define x where "x = a * (s - k * q) - k * r"
  have x: "- m < x" "x < m" using ad kr assms(7) by (auto simp: x_def)
  have "x = a * s - k * m" unfolding x_def m by (simp add: algebra_simps)
  then have "x mod m = (a * s) mod m" by (simp add: mod_diff_right_eq[symmetric])
  moreover have "x mod m = (if x < 0 then x + m else x)"
    using x by (auto simp: mod_pos_pos_trivial) (metis add.commute add_less_same_cancel1
        add_less_cancel_right diff_minus_eq_add less_diff_eq less_imp_le mod_add_self2
        mod_pos_pos_trivial minus_less_iff add_0)
  moreover have "i32 k = Some k" "i32 (k * q) = Some (k * q)" "i32 (s - k * q) = Some (s - k * q)"
    "i32 (a * (s - k * q)) = Some (a * (s - k * q))" "i32 (k * r) = Some (k * r)" "i32 x = Some x"
    by (rule i32_Some; use assms aq k kr ks d ad x in linarith)+
  moreover from this have "lcg_step a q r m s = (if x < 0 then add32 x m else Some x)"
    unfolding lcg_step_def div32_def mul32_def sub32_def
    using q assms(6) by (simp add: k_def[symmetric] x_def[symmetric])
  ultimately show ?thesis using x assms(5) by (auto simp: add32_def)
qed

section \<open>FindB is exponentiation\<close>

text \<open>The product the second loop of \<open>FindB\<close> forms, from bit \<open>i\<close> of \<open>k\<close> on.\<close>

lemma findb_sqrs_correct:
  assumes "0 \<le> x" "x < m" "m < 2147483648"
  shows "findb_sqrs n x m = Some (map (\<lambda>i. x ^ (2 ^ i) mod m) [0..<Suc n])"
  using assms
proof (induction n arbitrary: x)
  case 0
  then show ?case by (simp add: mod_pos_pos_trivial)
next
  case (Suc n)
  have "x * x \<le> 2147483647 * 2147483647" using Suc.prems by (intro mult_mono) auto
  moreover have "0 \<le> x * x" by simp
  ultimately have xx: "i64 (x * x) = Some (x * x)" by (intro i64_Some) linarith+
  have "((x * x) mod m) ^ (2 ^ i) mod m = x ^ (2 ^ Suc i) mod m" for i
    by (simp add: power_mod power_mult power2_eq_square)
  then have "findb_sqrs n ((x * x) mod m) m = Some (map (\<lambda>i. x ^ (2 ^ Suc i) mod m) [0..<Suc n])"
    using Suc.prems by (subst Suc.IH) simp_all
  moreover have "map (\<lambda>i. x ^ (2 ^ i) mod m) [0..<Suc (Suc n)] =
      x # map (\<lambda>i. x ^ (2 ^ Suc i) mod m) [0..<Suc n]"
    unfolding upt_conv_Cons[OF zero_less_Suc] map_Suc_upt[symmetric]
    using Suc.prems by (simp add: mod_pos_pos_trivial comp_def)
  ultimately show ?case
    using Suc.prems xx by (simp del: upt_Suc)
qed

lemma int_and_pow2: "(2 ^ i AND (k::int)) = 0 \<longleftrightarrow> \<not> bit k i"
  by (metis and_exp_eq_0_iff_not_bit and.commute)

lemma findb_prod_correct:
  assumes "\<forall>j < length xs. 0 \<le> xs ! j \<and> xs ! j < m" "0 \<le> b" "b < m" "1 < m" "m < 2147483648"
    "i + length xs \<le> 32"
  shows "findb_prod xs (2 ^ i) k b m =
    Some ((b * (\<Prod>j < length xs. if bit k (i + j) then xs ! j else 1)) mod m)"
  using assms
proof (induction xs arbitrary: i b)
  case Nil
  then show ?case by (simp add: mod_pos_pos_trivial)
next
  case (Cons x xs)
  define f where "f = (if bit k i then x else 1)"
  have x: "0 \<le> x" "x < m" using Cons.prems(1) by (auto dest: spec[of _ 0])
  have f: "0 \<le> f" "f < m" using x Cons.prems by (auto simp: f_def)
  have "b * f \<le> 2147483647 * 2147483647" using f Cons.prems by (intro mult_mono) auto
  moreover have "0 \<le> b * f" using f Cons.prems by simp
  ultimately have bf: "i64 (b * f) = Some (b * f)" by (intro i64_Some) linarith+
  have "(2::int) ^ i * 2 \<le> 4294967296" using Cons.prems(6) power_increasing[of "Suc i" 32 "2::int"] by simp
  moreover have "0 \<le> (2::int) ^ i * 2" by simp
  ultimately have "i64 (2 ^ i * 2) = Some (2 ^ i * 2)" by (intro i64_Some) linarith+
  then have p: "i64 (2 ^ i * 2) = Some (2 ^ Suc i)" by (simp add: mult.commute)
  have sel: "(if 2 ^ i AND k = 0 then 1 else x) = f" by (simp add: int_and_pow2 f_def)
  have "findb_prod xs (2 ^ Suc i) k ((b * f) mod m) m =
    Some (((b * f) mod m * (\<Prod>j < length xs. if bit k (Suc i + j) then xs ! j else 1)) mod m)"
    using Cons.prems f by (intro Cons.IH) auto
  also have "(\<Prod>j < length xs. if bit k (Suc i + j) then xs ! j else 1)
      = (\<Prod>j < length xs. if bit k (i + Suc j) then (x # xs) ! Suc j else 1)"
    by (intro prod.cong) auto
  also have "((b * f) mod m * (\<Prod>j < length xs. if bit k (i + Suc j) then (x # xs) ! Suc j else 1)) mod m
      = (b * (\<Prod>j < length (x # xs). if bit k (i + j) then (x # xs) ! j else 1)) mod m"
    by (simp add: prod.lessThan_Suc_shift f_def mod_mult_left_eq mult.assoc del: prod.lessThan_Suc)
  finally show ?case
    using f Cons.prems bf p sel by simp
qed

lemma prod_bits_power:
  fixes x k :: int
  shows "(\<Prod>j < n. if bit k j then x ^ (2 ^ j) else 1) = x ^ (nat (take_bit n k))"
proof (induction n)
  case (Suc n)
  have "take_bit (Suc n) k = take_bit n k + of_bool (bit k n) * 2 ^ n"
    by (simp add: take_bit_Suc_from_most)
  then have "nat (take_bit (Suc n) k) = nat (take_bit n k) + (if bit k n then 2 ^ n else 0)"
    by (simp add: nat_add_distrib nat_power_eq)
  with Suc show ?case by (simp add: power_add mult.commute)
qed simp

lemma prod_mod:
  fixes n :: nat
  shows "(\<Prod>j < n. (f j :: int) mod m) mod m = (\<Prod>j < n. f j) mod m"
proof (induction n)
  case (Suc n)
  have "(\<Prod>j < Suc n. f j mod m) mod m = ((\<Prod>j < n. f j mod m) mod m * (f n mod m)) mod m"
    by (simp add: mod_mult_left_eq)
  with Suc show ?case by (simp add: mod_mult_eq)
qed simp

text \<open>
  \<open>FindB a k m\<close> is \<open>a^k mod m\<close> for every exponent below \<open>2^32\<close>, computed without
  overflowing 64 bits.
\<close>

theorem FindB_power:
  assumes "0 \<le> a" "a < m" "1 < m" "m < 2147483648" "0 \<le> k" "k < 2 ^ 32"
  shows "FindB a k m = Some (a ^ nat k mod m)"
proof -
  let ?xs = "map (\<lambda>i. a ^ (2 ^ i) mod m) [0..<32]"
  have "findb_sqrs 31 a m = Some ?xs"
    using findb_sqrs_correct[of a m 31] assms by simp
  moreover have "findb_prod ?xs (2 ^ 0) k 1 m =
    Some ((1 * (\<Prod>j < length ?xs. if bit k (0 + j) then ?xs ! j else 1)) mod m)"
    using assms by (intro findb_prod_correct) auto
  moreover have "(\<Prod>j < 32. if bit k j then ?xs ! j else 1) mod m = a ^ nat k mod m"
  proof -
    have "(\<Prod>j < 32. if bit k j then ?xs ! j else 1)
        = (\<Prod>j < 32. (if bit k j then a ^ (2 ^ j) else 1) mod m)"
      using assms by (intro prod.cong) auto
    then show ?thesis
      using assms by (simp add: prod_mod prod_bits_power take_bit_int_eq_self del: power_numeral)
  qed
  ultimately show ?thesis by (simp add: FindB_def)
qed

theorem FindB_power_witness: "FindB 45991 5 2147483647 = Some (45991 ^ 5 mod 2147483647)"
  by (subst FindB_power) simp_all

section \<open>Four components at a time\<close>

lemma mapM_map:
  "(\<And>x. x \<in> set xs \<Longrightarrow> f (h x) = Some (g x)) \<Longrightarrow> mapM f (map h xs) = Some (map g xs)"
  by (induction xs) auto

lemma zip_maps: "zip (map f xs) (map g xs) = map (\<lambda>x. (f x, g x)) xs"
  by (induction xs) auto

text \<open>The range of moduli for which \<open>MultModM\<close> is correct.\<close>

definition good_m :: "int \<Rightarrow> bool" where
  "good_m m \<longleftrightarrow> 1073741824 \<le> m \<and> m < 2147483648"

lemma good_m_mod: "good_m m \<Longrightarrow> 0 \<le> x mod m \<and> x mod m < m"
  by (simp add: good_m_def)

lemma mult4_map:
  assumes "\<And>j. j \<in> set js \<Longrightarrow> good_m (M j) \<and> 0 \<le> A j \<and> A j < M j \<and> 0 \<le> T j \<and> T j < M j"
  shows "mult4 (map A js) (map T js) (map M js) = Some (map (\<lambda>j. A j * T j mod M j) js)"
  unfolding mult4_def zip_maps
proof (rule mapM_map)
  fix j assume "j \<in> set js"
  from assms[OF this] show "(case (A j, T j, M j) of (s, t, m) \<Rightarrow> MultModM s t m) = Some (A j * T j mod M j)"
    by (auto simp: good_m_def intro!: MultModM_value)
qed

lemma square_loop_correct:
  assumes "good_m m" "0 \<le> x" "x < m"
  shows "square_loop n x m = Some (x ^ (2 ^ n) mod m)"
  using assms(2,3)
proof (induction n arbitrary: x)
  case 0
  then show ?case by (simp add: mod_pos_pos_trivial)
next
  case (Suc n)
  have "MultModM x x m = Some ((x * x) mod m)"
    using assms(1) Suc.prems by (intro MultModM_value) (auto simp: good_m_def)
  moreover have "square_loop n ((x * x) mod m) m = Some (((x * x) mod m) ^ (2 ^ n) mod m)"
    using assms(1) by (intro Suc.IH) (auto simp: good_m_def)
  moreover have "((x * x) mod m) ^ (2 ^ n) mod m = x ^ (2 ^ Suc n) mod m"
    by (simp add: power_mod power_mult power2_eq_square)
  ultimately show ?case by simp
qed

lemma square4_map:
  assumes "\<And>j. j \<in> set js \<Longrightarrow> good_m (M j) \<and> 0 \<le> A j \<and> A j < M j"
  shows "square4 n (map A js) (map M js) = Some (map (\<lambda>j. A j ^ (2 ^ n) mod M j) js)"
  unfolding square4_def zip_maps
  by (rule mapM_map) (use assms square_loop_correct in auto)

section \<open>The constants of the generator\<close>

definition m_of :: "nat \<Rightarrow> int" where "m_of j = rng_m_consts ! j"
definition a_of :: "nat \<Rightarrow> int" where "a_of j = rng_a_consts ! j"

text \<open>The inverses of the multipliers, as \<open>FindB\<close> computes them.\<close>

definition b_of :: "nat \<Rightarrow> int" where
  "b_of j = [1441196816, 1463744518, 499766181, 660421676] ! j"

lemma set_upt4: "set [0..<4] = {0, 1, 2, 3::nat}" by (auto simp: upt_rec)

lemma consts_map:
  "rng_m_consts = map m_of [0..<4]" "rng_a_consts = map a_of [0..<4]"
  by (simp_all add: upt_rec m_of_def a_of_def rng_m_consts_def rng_a_consts_def)

lemma good_consts:
  assumes "j \<in> set [0..<4]"
  shows "good_m (m_of j)" "0 \<le> a_of j" "a_of j < m_of j" "a_of j * b_of j mod m_of j = 1"
    "0 < b_of j" "b_of j < m_of j"
  using assms
  by (auto simp: upt_rec m_of_def a_of_def b_of_def rng_m_consts_def rng_a_consts_def good_m_def)

lemma FindB_consts:
  "mapM (\<lambda>(a, m). FindB a (m - 2) m) (zip rng_a_consts rng_m_consts) = Some (map b_of [0..<4])"
  by code_simp

definition wf_seed :: "int list \<Rightarrow> bool" where
  "wf_seed s \<longleftrightarrow> length s = 4 \<and> (\<forall>j < 4. 0 < s ! j \<and> s ! j < m_of j)"

lemma all4: "(\<forall>j < 4. P j) \<longleftrightarrow> P 0 \<and> P (1::nat) \<and> P 2 \<and> P 3"
  by (auto simp: numeral_eq_Suc less_Suc_eq)

lemma wf_seed4:
  "wf_seed [a, b, c, d] \<longleftrightarrow> (0 < a \<and> a < 2147483647) \<and> (0 < b \<and> b < 2147483543) \<and>
     (0 < c \<and> c < 2147483423) \<and> (0 < d \<and> d < 2147483323)"
  by (simp add: wf_seed_def all4 m_of_def rng_m_consts_def)

lemma wf_seedE:
  assumes "wf_seed s"
  obtains a b c d where "s = [a, b, c, d]"
  using assms by (auto simp: numeral_eq_Suc length_Suc_conv wf_seed_def)

text \<open>What \<open>rng_init\<close> leaves in the generator for the two jump sizes it is given.\<close>

definition avw_of :: "nat \<Rightarrow> nat \<Rightarrow> nat \<Rightarrow> int" where
  "avw_of v w j = (a_of j ^ (2 ^ w) mod m_of j) ^ (2 ^ v) mod m_of j"

lemma rng_init_value:
  "rng_init sd v w = Some \<lparr>rng_b = map b_of [0..<4], rng_m = rng_m_consts, rng_a = rng_a_consts,
     rng_aw = map (\<lambda>j. a_of j ^ (2 ^ w) mod m_of j) [0..<4],
     rng_avw = map (avw_of v w) [0..<4],
     rng_seed = (case sd of Some s \<Rightarrow> map sint (clamp_seed s)
        | None \<Rightarrow> [11111111, 22222222, 33333333, 44444444])\<rparr>"
proof -
  have "square4 w rng_a_consts rng_m_consts = Some (map (\<lambda>j. a_of j ^ (2 ^ w) mod m_of j) [0..<4])"
    unfolding consts_map by (rule square4_map) (use good_consts in auto)
  moreover have "square4 v (map (\<lambda>j. a_of j ^ (2 ^ w) mod m_of j) [0..<4]) rng_m_consts
      = Some (map (avw_of v w) [0..<4])"
    unfolding consts_map avw_of_def
    by (rule square4_map) (use good_consts good_m_mod in blast)
  ultimately show ?thesis
    by (simp add: rng_init_def FindB_consts)
qed

section \<open>Clamped seeds\<close>

lemma uint_clamp1:
  assumes "1 \<le> mx"
  shows "uint (clamp1 s mx) = min (max 1 (uint s)) (uint mx)"
proof -
  have mx: "1 \<le> uint mx" using assms by (simp add: word_le_def)
  have "s \<noteq> 0 \<Longrightarrow> 1 \<le> uint s"
    using uint_ge_0[of s] uint_0_iff[of s] by linarith
  then show ?thesis
    using mx by (cases "s = 0") (auto simp: clamp1_def Let_def word_less_def min_def max_def)
qed

lemma sint_uint_small:
  fixes w :: "32 word"
  assumes "uint w < 2147483648"
  shows "sint w = uint w"
proof -
  have "signed_take_bit 31 (uint w) = uint w"
  proof (rule signed_take_bit_int_eq_self)
    show "- (2 ^ 31) \<le> uint w" using uint_ge_0[of w] by (rule order_trans[rotated]) simp
    show "uint w < 2 ^ 31" using assms by simp
  qed
  then show ?thesis by (simp add: sint_uint)
qed

lemma clamp_seed_wf:
  assumes "length s = 4"
  shows "wf_seed (map sint (clamp_seed s))"
proof -
  obtain a b c d where s: "s = [a, b, c, d]"
    using assms by (auto simp: numeral_eq_Suc length_Suc_conv)
  have "0 < sint (clamp1 x mx) \<and> sint (clamp1 x mx) < uint mx + 1"
    if "1 \<le> mx" "uint mx < 2147483647" for x mx :: "32 word"
  proof -
    have u: "uint (clamp1 x mx) = min (max 1 (uint x)) (uint mx)"
      by (rule uint_clamp1[OF that(1)])
    then have "sint (clamp1 x mx) = uint (clamp1 x mx)"
      using that by (intro sint_uint_small) auto
    moreover have "1 \<le> uint mx" using that(1) by (simp add: word_le_def)
    ultimately show ?thesis using u by auto
  qed
  from this[of 2147483646 a] this[of 2147483542 b] this[of 2147483422 c] this[of 2147483322 d]
  show ?thesis by (simp add: s wf_seed4 clamp_seed_def S_MAX_def)
qed

lemma clamp_seed_id:
  assumes "wf_seed s"
  shows "map sint (clamp_seed (map word_of_int s)) = s"
proof -
  obtain a b c d where s: "s = [a, b, c, d]" using assms by (rule wf_seedE)
  note b = assms[unfolded s wf_seed4]
  have "sint (clamp1 (word_of_int x) mx) = x"
    if "0 < x" "x < uint mx + 1" "uint mx < 2147483647" for x :: int and mx :: "32 word"
  proof -
    have x: "uint (word_of_int x :: 32 word) = x"
      using that by (simp add: word_of_int_inverse)
    then have "clamp1 (word_of_int x) mx = (word_of_int x :: 32 word)"
      using that by (auto simp: clamp1_def Let_def word_less_def)
    then show ?thesis using x that by (simp add: sint_uint_small)
  qed
  then show ?thesis using b by (simp add: s clamp_seed_def S_MAX_def)
qed

section \<open>Streams stay in range\<close>

lemma mult_inv_nonzero:
  fixes a b m x :: int
  assumes "a * b mod m = 1" "0 < x" "x < m"
  shows "0 < a * x mod m"
proof (rule ccontr)
  assume "\<not> 0 < a * x mod m"
  moreover have "0 \<le> a * x mod m" using assms by simp
  ultimately have "a * x mod m = 0" by linarith
  then have "b * (a * x) mod m = 0" by (metis mod_mult_right_eq mult_zero_right mod_0)
  moreover have "b * (a * x) mod m = (x * (a * b mod m)) mod m"
    by (simp only: mod_mult_right_eq) (simp add: ac_simps)
  ultimately show False using assms by (simp add: mod_pos_pos_trivial)
qed

lemma power_inv_nonzero:
  fixes a b m x :: int
  assumes "a * b mod m = 1" "0 < x" "x < m"
  shows "0 < a ^ n * x mod m"
proof (induction n)
  case 0
  with assms show ?case by (simp add: mod_pos_pos_trivial)
next
  case (Suc n)
  have "0 < a * (a ^ n * x mod m) mod m"
    using Suc assms by (intro mult_inv_nonzero[OF assms(1)]) auto
  then show ?case by (simp add: mod_mult_right_eq mult.assoc)
qed

lemma avw_power:
  "(avw_of v w j) ^ n * x mod m_of j = a_of j ^ (2 ^ w * 2 ^ v * n) * x mod m_of j"
proof -
  have "(avw_of v w j) ^ n mod m_of j = a_of j ^ (2 ^ w * 2 ^ v * n) mod m_of j"
    by (simp add: avw_of_def power_mod power_mult)
  then show ?thesis by (metis mod_mult_left_eq)
qed

section \<open>Seeding a stream\<close>

lemma word_and_pow2: "(x AND push_bit n 1) \<noteq> 0 \<longleftrightarrow> bit x n" for x :: "64 word"
  by (simp add: push_bit_eq_mult and_exp_eq_0_iff_not_bit)

lemma seed_loop_correct:
  assumes r: "rng_m r = rng_m_consts" "rng_avw r = map A [0..<4]"
    and A: "\<And>j. j \<in> set [0..<4] \<Longrightarrow> 0 \<le> A j \<and> A j < m_of j"
    and n: "n < 64"
    and I: "\<And>j. j \<in> set [0..<4] \<Longrightarrow> 0 \<le> I j \<and> I j < m_of j"
  shows "seed_loop n (push_bit n 1) gid r (map I [0..<4]) =
    Some (map (\<lambda>j. A j ^ (2 * take_bit n (unat gid div 2)) * I j mod m_of j) [0..<4])"
  using n I
proof (induction n arbitrary: I)
  case 0
  then have "map (\<lambda>j. I j mod m_of j) [0..<4] = map I [0..<4]"
    by (intro map_cong) (auto simp: mod_pos_pos_trivial)
  then show ?case by simp
next
  case (Suc n)
  define I' where "I' = (\<lambda>j. if bit gid (Suc n) then A j ^ (2 ^ Suc n) mod m_of j * I j mod m_of j else I j)"
  have I': "0 \<le> I' j \<and> I' j < m_of j" if "j \<in> set [0..<4]" for j
    using Suc.prems(2)[OF that] good_m_mod[OF good_consts(1)[OF that]] by (auto simp: I'_def)
  have body: "(if gid AND push_bit (Suc n) 1 \<noteq> 0
      then do { avw_t \<leftarrow> square4 (Suc n) (rng_avw r) (rng_m r); mult4 avw_t (map I [0..<4]) (rng_m r) }
      else Some (map I [0..<4])) = Some (map I' [0..<4])"
  proof (cases "bit gid (Suc n)")
    case True
    have sq: "square4 (Suc n) (map A [0..<4]) (map m_of [0..<4])
        = Some (map (\<lambda>j. A j ^ (2 ^ Suc n) mod m_of j) [0..<4])"
      by (rule square4_map) (use A good_consts in blast)
    have "mult4 (map (\<lambda>j. A j ^ (2 ^ Suc n) mod m_of j) [0..<4]) (map I [0..<4]) (map m_of [0..<4])
        = Some (map (\<lambda>j. A j ^ (2 ^ Suc n) mod m_of j * I j mod m_of j) [0..<4])"
      by (rule mult4_map) (use Suc.prems good_consts good_m_mod in blast)
    with sq True show ?thesis
      unfolding r consts_map word_and_pow2 I'_def by (simp del: power_Suc)
  next
    case False
    then show ?thesis unfolding word_and_pow2 I'_def by simp
  qed
  have "seed_loop n (push_bit n 1) gid r (map I' [0..<4]) =
    Some (map (\<lambda>j. A j ^ (2 * take_bit n (unat gid div 2)) * I' j mod m_of j) [0..<4])"
    using Suc.prems I' by (intro Suc.IH) auto
  moreover have "A j ^ (2 * take_bit n (unat gid div 2)) * I' j mod m_of j
      = A j ^ (2 * take_bit (Suc n) (unat gid div 2)) * I j mod m_of j" for j
  proof (cases "bit gid (Suc n)")
    case True
    then have "take_bit (Suc n) (unat gid div 2) = take_bit n (unat gid div 2) + 2 ^ n"
      using Suc.prems(1) by (simp add: take_bit_Suc_from_most bit_unsigned_iff flip: bit_Suc)
    then have "A j ^ (2 * take_bit (Suc n) (unat gid div 2))
        = A j ^ (2 * take_bit n (unat gid div 2)) * A j ^ (2 ^ Suc n)"
      by (simp add: power_add[symmetric] distrib_left)
    then show ?thesis using True
      by (simp add: I'_def mod_mult_right_eq mod_mult_left_eq mult.assoc)
  next
    case False
    then have "take_bit (Suc n) (unat gid div 2) = take_bit n (unat gid div 2)"
      using Suc.prems(1) by (simp add: take_bit_Suc_from_most bit_unsigned_iff flip: bit_Suc)
    with False show ?thesis by (simp add: I'_def)
  qed
  moreover have "drop_bit 1 (push_bit (Suc n) (1 :: 64 word)) = push_bit n 1"
    using Suc.prems(1) by (intro bit_word_eqI) (auto simp: bit_simps)
  ultimately show ?case
    by (simp only: seed_loop.simps body bind.bind_lunit)
qed

lemma wf_seed_map: "wf_seed s \<Longrightarrow> map (\<lambda>j. s ! j) [0..<4] = s"
  by (erule wf_seedE) (simp add: upt_rec)

lemma wf_seed_mapI:
  "(\<And>j. j \<in> set [0..<4] \<Longrightarrow> 0 < f j \<and> f j < m_of j) \<Longrightarrow> wf_seed (map f [0..<4])"
  by (simp add: wf_seed_def)

text \<open>
  C39: Stream \<open>gid\<close> of a generator starts at \<open>avw^gid\<close> times the seed in each of the four
  components: the binary exponentiation over the bits of the id computes exactly that
  jump, nothing overflows, and the final clamping changes nothing. The state is valid, and
  initial, last and current seeds agree.
\<close>

theorem initial_seed_jump:
  assumes "rng_init sd v w = Some r" "case sd of None \<Rightarrow> True | Some s \<Rightarrow> length s = 4"
  shows "\<exists>g. tw_rand_initial_seed gid r = Some g \<and> st_count g = 0 \<and> wf_seed (Cg g) \<and>
    Ig g = Cg g \<and> Lg g = Cg g \<and>
    Cg g = map (\<lambda>j. (rng_avw r ! j) ^ unat gid * (rng_seed r ! j) mod m_of j) [0..<4]"
proof -
  let ?s = "rng_seed r"
  have seed: "wf_seed ?s"
    using assms clamp_seed_wf
    by (auto simp: rng_init_value wf_seed4 split: option.splits)
  have r: "rng_m r = rng_m_consts" "rng_avw r = map (avw_of v w) [0..<4]"
    using assms(1) by (auto simp: rng_init_value)
  have A: "0 \<le> avw_of v w j \<and> avw_of v w j < m_of j" if "j \<in> set [0..<4]" for j
    using good_m_mod[OF good_consts(1)[OF that]] by (auto simp: avw_of_def)
  have S: "0 < ?s ! j \<and> ?s ! j < m_of j" if "j \<in> set [0..<4]" for j
    using seed that by (auto simp: wf_seed_def)
  define I where "I = (\<lambda>j. avw_of v w j ^ (2 * (unat gid div 2)) * ?s ! j mod m_of j)"
  have I: "0 \<le> I j \<and> I j < m_of j" if "j \<in> set [0..<4]" for j
    using good_m_mod[OF good_consts(1)[OF that]] by (auto simp: I_def)
  have tb: "take_bit 63 (unat gid div 2) = unat gid div 2"
    using unsigned_less[of gid, where ?'a=nat] by (simp add: take_bit_nat_eq_self_iff)
  have "seed_loop 63 (push_bit 63 1) gid r (map (\<lambda>j. ?s ! j) [0..<4]) = Some (map I [0..<4])"
    using seed_loop_correct[OF r A, of 63 "\<lambda>j. ?s ! j" gid] S unfolding I_def tb by fastforce
  then have loop: "seed_loop 63 (push_bit 63 1) gid r ?s = Some (map I [0..<4])"
    by (simp only: wf_seed_map[OF seed])
  define F where "F = (\<lambda>j. avw_of v w j ^ unat gid * ?s ! j mod m_of j)"
  have parity: "gid mod 2 = 0 \<longleftrightarrow> unat gid mod 2 = 0"
    by (simp add: word_eq_iff_unsigned [where ?'a = nat] unat_mod_distrib)
  have "(if gid mod 2 \<noteq> 0 then mult4 (rng_avw r) (map I [0..<4]) (rng_m r)
      else Some (map I [0..<4])) = Some (map F [0..<4])"
  proof (cases "gid mod 2 = 0")
    case True
    then have "2 * (unat gid div 2) = unat gid"
      using parity by (metis dvd_mult_div_cancel dvd_eq_mod_eq_0)
    with True show ?thesis by (simp add: I_def F_def)
  next
    case False
    then have "unat gid mod 2 = 1" using parity by (metis not_mod_2_eq_0_eq_1)
    then have e: "Suc (2 * (unat gid div 2)) = unat gid" by presburger
    have "mult4 (map (avw_of v w) [0..<4]) (map I [0..<4]) (map m_of [0..<4])
        = Some (map (\<lambda>j. avw_of v w j * I j mod m_of j) [0..<4])"
      by (rule mult4_map) (use A I good_consts in blast)
    moreover have "avw_of v w j * I j mod m_of j = F j" for j
      unfolding I_def F_def by (subst (2) e[symmetric]) (simp add: mod_mult_right_eq mult.assoc)
    ultimately show ?thesis using False by (simp add: r consts_map)
  qed
  moreover have F: "wf_seed (map F [0..<4])"
  proof (rule wf_seed_mapI)
    fix j :: nat assume j: "j \<in> set [0..<4]"
    have "0 < F j" unfolding F_def avw_power
      using power_inv_nonzero[OF good_consts(4)[OF j]] S[OF j] by blast
    then show "0 < F j \<and> F j < m_of j"
      using good_m_mod[OF good_consts(1)[OF j]] by (simp add: F_def)
  qed
  moreover have "map F [0..<4] = map (\<lambda>j. (rng_avw r ! j) ^ unat gid * ?s ! j mod m_of j) [0..<4]"
    by (intro map_cong) (simp_all add: F_def r)
  ultimately show ?thesis
    unfolding tw_rand_initial_seed_def loop
    by (simp add: rng_init_generator_def clamp_seed_id del: map_map)
qed

theorem initial_seed_jump_witness:
  "\<exists>r g. rng_init None 31 41 = Some r \<and> tw_rand_initial_seed 3 r = Some g \<and> wf_seed (Cg g)"
  using initial_seed_jump[OF rng_init_value[of None 31 41], of 3] rng_init_value[of None 31 41]
  by auto

section \<open>Running a stream backwards\<close>

definition valid_stream :: "tw_rng_stream \<Rightarrow> bool" where
  "valid_stream g \<longleftrightarrow> wf_seed (Cg g)"

lemma rng_gen_val_value:
  assumes "valid_stream g"
  shows "\<exists>u. rng_gen_val g = Some (u, g\<lparr>st_count := st_count g + 1,
    Cg := map (\<lambda>j. a_of j * Cg g ! j mod m_of j) [0..<4]\<rparr>)"
proof -
  obtain a b c d where C: "Cg g = [a, b, c, d]"
    using assms unfolding valid_stream_def by (rule wf_seedE)
  have "wf_seed [a, b, c, d]" using assms C by (simp add: valid_stream_def)
  then have "lcg_step 45991 46693 25884 2147483647 a = Some (45991 * a mod 2147483647)"
    "lcg_step 207707 10339 870 2147483543 b = Some (207707 * b mod 2147483543)"
    "lcg_step 138556 15499 3979 2147483423 c = Some (138556 * c mod 2147483423)"
    "lcg_step 49689 43218 24121 2147483323 d = Some (49689 * d mod 2147483323)"
    by (auto simp: wf_seed4 intro!: lcg_step_correct)
  then show ?thesis
    by (simp add: rng_gen_val_def C upt_rec a_of_def m_of_def rng_a_consts_def rng_m_consts_def)
qed

lemma rng_reverse_value:
  assumes "rng_b r = map b_of [0..<4]" "rng_m r = rng_m_consts" "valid_stream g"
  shows "\<exists>u. rng_gen_reverse_val r g = Inr (Some (u, g\<lparr>st_count := st_count g - 1,
    Cg := map (\<lambda>j. b_of j * Cg g ! j mod m_of j) [0..<4]\<rparr>))"
proof -
  obtain a b c d where C: "Cg g = [a, b, c, d]"
    using assms(3) unfolding valid_stream_def by (rule wf_seedE)
  have "lcg_back (b_of j) (m_of j) (Cg g ! j) = Some (b_of j * Cg g ! j mod m_of j)"
    if "j \<in> set [0..<4]" for j
  proof -
    have c: "0 < Cg g ! j" "Cg g ! j < m_of j"
      using assms(3) that by (auto simp: valid_stream_def wf_seed_def)
    note gc = good_consts[OF that, unfolded good_m_def]
    have "b_of j * Cg g ! j \<le> 2147483648 * 2147483648"
      using c gc by (intro mult_mono) auto
    moreover have "0 \<le> b_of j * Cg g ! j" using c gc by simp
    ultimately have "i64 (b_of j * Cg g ! j) = Some (b_of j * Cg g ! j)"
      by (intro i64_Some) linarith+
    then show ?thesis using c gc \<open>0 \<le> b_of j * Cg g ! j\<close> by (simp add: lcg_back_def)
  qed
  note lb = this[of 0, unfolded C] this[of 1, unfolded C] this[of 2, unfolded C]
    this[of 3, unfolded C]
  have lcgb: "lcg_back (b_of 0) (m_of 0) a = Some (b_of 0 * a mod m_of 0)"
    "lcg_back (b_of 1) (m_of 1) b = Some (b_of 1 * b mod m_of 1)"
    "lcg_back (b_of 2) (m_of 2) c = Some (b_of 2 * c mod m_of 2)"
    "lcg_back (b_of 3) (m_of 3) d = Some (b_of 3 * d mod m_of 3)"
    using lb by (simp_all add: set_upt4 del: One_nat_def)
  have u: "map f [0..<4] = [f 0, f 1, f 2, f 3]" for f :: "nat \<Rightarrow> int"
    by (simp add: upt_rec numeral_eq_Suc)
  have "b_of 0 \<noteq> 0" by (simp add: b_of_def)
  then show ?thesis using assms(1,2) lcgb
    by (simp add: rng_gen_reverse_val_def consts_map C u del: One_nat_def)
qed

lemma rng_reverse_restores:
  assumes "rng_init sd v w = Some r" "valid_stream g"
  shows "\<exists>u g'. rng_gen_val g = Some (u, g') \<and> valid_stream g' \<and>
    (\<exists>u'. rng_gen_reverse_val r g' = Inr (Some (u', g)))"
proof -
  have r: "rng_b r = map b_of [0..<4]" "rng_m r = rng_m_consts"
    using assms(1) by (auto simp: rng_init_value)
  define g' where "g' = g\<lparr>st_count := st_count g + 1,
    Cg := map (\<lambda>j. a_of j * Cg g ! j mod m_of j) [0..<4]\<rparr>"
  have c: "0 < Cg g ! j" "Cg g ! j < m_of j" if "j \<in> set [0..<4]" for j
    using assms(2) that by (auto simp: valid_stream_def wf_seed_def)
  obtain u where u: "rng_gen_val g = Some (u, g')"
    using rng_gen_val_value[OF assms(2)] by (auto simp: g'_def)
  have v: "valid_stream g'"
    unfolding valid_stream_def g'_def
    using mult_inv_nonzero[OF good_consts(4)] c good_m_mod good_consts(1)
    by (auto intro!: wf_seed_mapI)
  obtain u' where "rng_gen_reverse_val r g' = Inr (Some (u', g'\<lparr>st_count := st_count g' - 1,
    Cg := map (\<lambda>j. b_of j * Cg g' ! j mod m_of j) [0..<4]\<rparr>))"
    using rng_reverse_value[OF r v] by auto
  moreover have "map (\<lambda>j. b_of j * Cg g' ! j mod m_of j) [0..<4] = map (\<lambda>j. Cg g ! j) [0..<4]"
  proof (intro map_cong refl)
    fix j :: nat assume j: "j \<in> set [0..<4]"
    have "b_of j * (a_of j * Cg g ! j mod m_of j) mod m_of j
        = (a_of j * b_of j mod m_of j) * Cg g ! j mod m_of j"
      by (simp add: mod_mult_right_eq mod_mult_left_eq ac_simps)
    then show "b_of j * Cg g' ! j mod m_of j = Cg g ! j"
      using j c[OF j] good_consts(4)[OF j] by (simp add: g'_def mod_pos_pos_trivial)
  qed
  moreover have "map (\<lambda>j. Cg g ! j) [0..<4] = Cg g"
    using assms(2) by (simp add: valid_stream_def wf_seed_map)
  ultimately have "rng_gen_reverse_val r g' = Inr (Some (u', g))"
    by (simp add: g'_def)
  with u v show ?thesis by blast
qed

text \<open>
  C38: Reverse computation of random numbers. For every stream in a valid state, drawing a
  number always succeeds and leaves a valid state, and one reverse step with the generator
  \<open>rng_init\<close> built restores the stream exactly, the counter included.
\<close>

theorem rng_reverse_undoes:
  assumes "rng_init sd v w = Some r" "valid_stream g"
  shows "\<exists>u g'. rng_gen_val g = Some (u, g') \<and> valid_stream g' \<and>
    (\<exists>u'. rng_gen_reverse_val r g' = Inr (Some (u', g)))"
  using assms by (rule rng_reverse_restores)

theorem rng_reverse_undoes_witness:
  "\<exists>r u g' u'. rng_init None 31 41 = Some r \<and>
    rng_gen_val \<lparr>st_count = 0, Ig = [1, 2, 3, 4], Lg = [1, 2, 3, 4], Cg = [1, 2, 3, 4]\<rparr> = Some (u, g') \<and>
    rng_gen_reverse_val r g' =
      Inr (Some (u', \<lparr>st_count = 0, Ig = [1, 2, 3, 4], Lg = [1, 2, 3, 4], Cg = [1, 2, 3, 4]\<rparr>))"
  using rng_reverse_undoes[OF rng_init_value[of None 31 41],
      of "\<lparr>st_count = 0, Ig = [1, 2, 3, 4], Lg = [1, 2, 3, 4], Cg = [1, 2, 3, 4]\<rparr>"]
    rng_init_value[of None 31 41]
  by (fastforce simp: valid_stream_def wf_seed4)

section \<open>Bounded integers\<close>

text \<open>Each product is a number from 0 to 1.\<close>

lemma fl_product:
  assumes "0 \<le> c" "c * (1 + 1 / 2 ^ 53) * real_of_int M \<le> 1" "0 \<le> s" "s \<le> M"
  shows "0 \<le> fl (fl c * real_of_int s) \<and> fl (fl c * real_of_int s) \<le> 1"
proof
  have f: "0 \<le> fl c" using assms(1) by (rule fl_ge_0)
  then show "0 \<le> fl (fl c * real_of_int s)" using assms(3) by (intro fl_ge_0) simp
  have "fl c \<le> c + c / 2 ^ 53" using fl_error[OF assms(1)] by linarith
  then have "fl c \<le> c * (1 + 1 / 2 ^ 53)" by (simp add: algebra_simps)
  then have "fl c * real_of_int s \<le> c * (1 + 1 / 2 ^ 53) * real_of_int M"
    using f assms(1,3,4) by (intro mult_mono) simp_all
  then show "fl (fl c * real_of_int s) \<le> 1" using assms(2) by (intro fl_le_1) linarith
qed

lemma rng_combine_unit:
  assumes "0 \<le> s0" "s0 < 2147483647" "0 \<le> s1" "s1 < 2147483543"
    "0 \<le> s2" "s2 < 2147483423" "0 \<le> s3" "s3 < 2147483323"
  shows "0 \<le> rng_combine s0 s1 s2 s3 \<and> rng_combine s0 s1 s2 s3 \<le> 1 \<and> fl (rng_combine s0 s1 s2 s3) = rng_combine s0 s1 s2 s3"
proof -
  define w :: "real \<Rightarrow> real" where "w = (\<lambda>u. if u < 0 then fl (u + 1) else u)"
  define w' :: "real \<Rightarrow> real" where "w' = (\<lambda>u. if u \<ge> 1 then fl (u - 1) else u)"
  define x0 x1 x2 x3 :: real where
    "x0 = fl (fl (465661287524579692 / 10 ^ 27) * s0)" and "x1 = fl (fl (465661310075985993 / 10 ^ 27) * s1)" and
    "x2 = fl (fl (465661336096842131 / 10 ^ 27) * s2)" and "x3 = fl (fl (465661357780891134 / 10 ^ 27) * s3)"
  have x: "0 \<le> x0 \<and> x0 \<le> 1" "0 \<le> x1 \<and> x1 \<le> 1" "0 \<le> x2 \<and> x2 \<le> 1" "0 \<le> x3 \<and> x3 \<le> 1"
    unfolding x0_def x1_def x2_def x3_def using assms
      fl_product[of "465661287524579692 / 10 ^ 27" 2147483646 s0] fl_product[of "465661310075985993 / 10 ^ 27" 2147483542 s1]
      fl_product[of "465661336096842131 / 10 ^ 27" 2147483422 s2] fl_product[of "465661357780891134 / 10 ^ 27" 2147483322 s3]
    by simp_all
  have w1: "0 \<le> w (fl (u - y)) \<and> w (fl (u - y)) \<le> 1" if "0 \<le> u \<and> u \<le> 1" "0 \<le> y \<and> y \<le> 1" for u y
  proof -
    have "- 1 \<le> fl (u - y)" "fl (u - y) \<le> 1" using that fl_mono[of "- 1" "u - y"] fl_mono[of "u - y" 1] by simp_all
    then show ?thesis using fl_ge_0[of "fl (u - y) + 1"] fl_le_1[of "fl (u - y) + 1"] by (auto simp: w_def)
  qed
  have w2: "0 \<le> w' (fl (u + y)) \<and> w' (fl (u + y)) \<le> 1" if "0 \<le> u \<and> u \<le> 1" "0 \<le> y \<and> y \<le> 1" for u y
  proof -
    have "0 \<le> fl (u + y)" "fl (u + y) \<le> 2" using that fl_ge_0[of "u + y"] fl_mono[of "u + y" 2] by simp_all
    then show ?thesis using fl_ge_0[of "fl (u + y) - 1"] fl_le_1[of "fl (u + y) - 1"] by (auto simp: w'_def)
  qed
  have f0: "fl (0 + x0) = x0" by (simp add: x0_def)
  define u1 u2 where "u1 = w (fl (x0 - x1))" and "u2 = w' (fl (u1 + x2))"
  have "0 \<le> u1 \<and> u1 \<le> 1" unfolding u1_def by (rule w1[OF x(1,2)])
  then have "0 \<le> u2 \<and> u2 \<le> 1" unfolding u2_def by (rule w2[OF _ x(3)])
  then have "0 \<le> w (fl (u2 - x3)) \<and> w (fl (u2 - x3)) \<le> 1" by (rule w1[OF _ x(4)])
  moreover have "fl (w (fl (u2 - x3))) = w (fl (u2 - x3))" by (simp add: w_def)
  moreover have "rng_combine s0 s1 s2 s3 = w (fl (u2 - x3))"
    unfolding rng_combine_def Let_def x0_def[symmetric] x1_def[symmetric] x2_def[symmetric] x3_def[symmetric] f0
    unfolding u1_def u2_def w_def w'_def by (rule refl)
  ultimately show ?thesis by simp
qed

text \<open>
  Rounding can give 1: a difference that is negative and tiny is lost when 1 is added to it. The code
  takes a number below 1 for granted.
\<close>

lemma fl_steps:
  shows "fl (465661287524579692 / 10 ^ 27) = 4503599629467648 / 2 ^ 83"
  and "fl (465661310075985993 / 10 ^ 27) = 4503599847571467 / 2 ^ 83"
  and "fl (465661336096842131 / 10 ^ 27) = 4503600099229745 / 2 ^ 83"
  and "fl (465661357780891134 / 10 ^ 27) = 4503600308944999 / 2 ^ 83"
  and "fl (4503599629467648 / 2 ^ 83) = 4503599629467648 / 2 ^ 83"
  and "fl (4503599847571467 / 2 ^ 83) = 4503599847571467 / 2 ^ 83"
  and "fl (4503599629467648 / 2 ^ 83 - 4503599847571467 / 2 ^ 83) = - 218103819 / 2 ^ 83"
  and "fl (- 218103819 / 2 ^ 83 + 1) = 1"
  and "fl (4503600099229745 / 2 ^ 83 * 7) = 7881300173652054 / 2 ^ 81"
  and "fl (1 + 7881300173652054 / 2 ^ 81) = 4503599642050562 / 2 ^ 52"
  and "fl (4503599642050562 / 2 ^ 52 - 1) = 14680066 / 2 ^ 52"
  and "fl (4503600308944999 / 2 ^ 83 * 7) = 7881300540653748 / 2 ^ 81"
  and "fl (14680066 / 2 ^ 52 - 7881300540653748 / 2 ^ 81) = - 119013556 / 2 ^ 81"
  and "fl (- 119013556 / 2 ^ 81 + 1) = 1"
proof -
  note near = fl_eqI[of "- 31"] fl_eqI[of "- 29"] fl_eqI[of "- 1"] fl_eqI[of 0]
  show "fl (465661287524579692 / 10 ^ 27) = 4503599629467648 / 2 ^ 83"
    by (subst near(1)[of _ 4503599629467648]; simp add: powr_minus)
  show "fl (465661310075985993 / 10 ^ 27) = 4503599847571467 / 2 ^ 83"
    by (subst near(1)[of _ 4503599847571467]; simp add: powr_minus)
  show "fl (465661336096842131 / 10 ^ 27) = 4503600099229745 / 2 ^ 83"
    by (subst near(1)[of _ 4503600099229745]; simp add: powr_minus)
  show "fl (465661357780891134 / 10 ^ 27) = 4503600308944999 / 2 ^ 83"
    by (subst near(1)[of _ 4503600308944999]; simp add: powr_minus)
  show "fl (4503600099229745 / 2 ^ 83 * 7) = 7881300173652054 / 2 ^ 81"
    by (subst near(2)[of _ 7881300173652054]; simp add: powr_minus)
  show "fl (4503600308944999 / 2 ^ 83 * 7) = 7881300540653748 / 2 ^ 81"
    by (subst near(2)[of _ 7881300540653748]; simp add: powr_minus)
  show "fl (- 218103819 / 2 ^ 83 + 1) = 1" "fl (- 119013556 / 2 ^ 81 + 1) = 1"
    by (subst near(3)[of _ "2 ^ 53"]; simp add: powr_minus)+
  show "fl (1 + 7881300173652054 / 2 ^ 81) = 4503599642050562 / 2 ^ 52"
    by (subst near(4)[of _ 4503599642050562]; simp add: powr_minus)
  show "fl (4503599629467648 / 2 ^ 83) = 4503599629467648 / 2 ^ 83" "fl (4503599847571467 / 2 ^ 83) = 4503599847571467 / 2 ^ 83"
    using fl_dyadic[of 4503599629467648 83] fl_dyadic[of 4503599847571467 83] by simp_all
  show "fl (4503599629467648 / 2 ^ 83 - 4503599847571467 / 2 ^ 83) = - 218103819 / 2 ^ 83"
    "fl (4503599642050562 / 2 ^ 52 - 1) = 14680066 / 2 ^ 52"
    "fl (14680066 / 2 ^ 52 - 7881300540653748 / 2 ^ 81) = - 119013556 / 2 ^ 81"
    using fl_dyadic[of "- 218103819" 83] fl_dyadic[of 14680066 52] fl_dyadic[of "- 119013556" 81] by simp_all
qed

lemma rng_combine_one: "rng_combine 1 1 7 7 = 1"
proof -
  have neg: "(- 218103819 / 2 ^ 83 :: real) < 0" "(- 119013556 / 2 ^ 81 :: real) < 0" "\<not> 4503599642050562 / 2 ^ 52 < (1 :: real)"
    by simp_all
  show ?thesis
    unfolding rng_combine_def Let_def of_int_1 of_int_numeral mult_1_right add_0 fl_steps if_P[OF neg(1)]
    using neg(2,3) by (simp only: fl_steps not_less if_True)
qed

lemma rng_gen_val_unit:
  assumes "valid_stream g"
  obtains u where "rng_gen_val g = Some (u, g\<lparr>st_count := st_count g + 1,
    Cg := map (\<lambda>j. a_of j * Cg g ! j mod m_of j) [0..<4]\<rparr>)" "0 \<le> u" "u \<le> 1" "fl u = u"
    "u = rng_combine (a_of 0 * Cg g ! 0 mod m_of 0) (a_of 1 * Cg g ! 1 mod m_of 1) (a_of 2 * Cg g ! 2 mod m_of 2)
      (a_of 3 * Cg g ! 3 mod m_of 3)"
proof -
  obtain u where u: "rng_gen_val g = Some (u, g\<lparr>st_count := st_count g + 1,
    Cg := map (\<lambda>j. a_of j * Cg g ! j mod m_of j) [0..<4]\<rparr>)"
    using rng_gen_val_value[OF assms] by blast
  then obtain s0 s1 s2 s3 where s: "u = rng_combine s0 s1 s2 s3"
    "[s0, s1, s2, s3] = map (\<lambda>j. a_of j * Cg g ! j mod m_of j) [0..<4]"
    by (auto simp: rng_gen_val_def split: Option.bind_splits)
      (metis (no_types, lifting) tw_rng_stream.ext_inject tw_rng_stream.surjective
        tw_rng_stream.update_convs(1,4))
  have e: "s0 = a_of 0 * Cg g ! 0 mod m_of 0" "s1 = a_of 1 * Cg g ! 1 mod m_of 1"
    "s2 = a_of 2 * Cg g ! 2 mod m_of 2" "s3 = a_of 3 * Cg g ! 3 mod m_of 3"
    using s(2) by (simp_all add: upt_rec numeral_eq_Suc)
  then have "0 \<le> u \<and> u \<le> 1 \<and> fl u = u" unfolding s(1)
    by (intro rng_combine_unit) (simp_all add: m_of_def rng_m_consts_def)
  with u s(1) show ?thesis unfolding e by (auto intro: that)
qed

text \<open>
  \<open>tw_rand_integer\<close> of \<open>core/ross-random-internal.c\<close>. The width of the range is converted to a double and
  multiplied in double precision; the cast of a non-negative double to \<open>long\<close> drops the fraction.
\<close>

definition LONG_MAX :: int where
  "LONG_MAX = 2 ^ 63 - 1"

definition tw_rand_integer :: "tw_rng_stream \<Rightarrow> int \<Rightarrow> int \<Rightarrow> (int \<times> tw_rng_stream) option" where
  "tw_rand_integer g low high =
     (let safe_high = (if high \<noteq> LONG_MAX then high + 1 else high) in
      if safe_high \<le> low then Some (0, g)
      else do {
        range \<leftarrow> i64 (safe_high - low);
        (u, g') \<leftarrow> rng_gen_val g;
        k \<leftarrow> i64 (\<lfloor>fl (u * fl (real_of_int range))\<rfloor>);
        r \<leftarrow> i64 (low + k);
        Some (r, g') })"

text \<open>\<open>tw_rand_ulong\<close>, on 64-bit words.\<close>

definition tw_rand_ulong :: "tw_rng_stream \<Rightarrow> 64 word \<Rightarrow> 64 word \<Rightarrow> (64 word \<times> tw_rng_stream) option" where
  "tw_rand_ulong g low high =
     (let safe_high = (if high \<noteq> - 1 then high + 1 else high) in
      if safe_high < low then Some (0, g)
      else do {
        (u, g') \<leftarrow> rng_gen_val g;
        Some (low + word_of_int (\<lfloor>fl (u * fl (real_of_int (uint (safe_high - low))))\<rfloor>), g') })"

text \<open>\<open>tw_rand_binomial\<close>: \<open>n\<close> trials are left.\<close>

fun binomial_loop :: "nat \<Rightarrow> real \<Rightarrow> int \<Rightarrow> tw_rng_stream \<Rightarrow> (int \<times> tw_rng_stream) option" where
  "binomial_loop 0 P sucesses g = Some (sucesses, g)"
| "binomial_loop (Suc n) P sucesses g = do {
     (u, g') \<leftarrow> rng_gen_val g;
     binomial_loop n P (if u \<le> P then sucesses + 1 else sucesses) g' }"

definition tw_rand_binomial :: "tw_rng_stream \<Rightarrow> int \<Rightarrow> real \<Rightarrow> (int \<times> tw_rng_stream) option" where
  "tw_rand_binomial g N P = binomial_loop (nat N) P 0 g"

lemma rand_integer_bounds:
  assumes "rng_init sd v w = Some r" "valid_stream g" "0 \<le> low" "low \<le> high" "high < LONG_MAX"
    "high - low < 2 ^ 53 - 1"
  shows "\<exists>k g' u u'. tw_rand_integer g low high = Some (k, g') \<and> rng_gen_val g = Some (u, g') \<and> low \<le> k \<and>
    (if u = 1 then k = high + 1 else k \<le> high) \<and> valid_stream g' \<and> st_count g' = st_count g + 1 \<and>
    rng_gen_reverse_val r g' = Inr (Some (u', g))"
proof -
  obtain u g' u' where g: "rng_gen_val g = Some (u, g')" "valid_stream g'"
    "rng_gen_reverse_val r g' = Inr (Some (u', g))"
    using rng_reverse_restores[OF assms(1,2)] by blast
  have u: "0 \<le> u" "u \<le> 1" "fl u = u" "st_count g' = st_count g + 1"
    using rng_gen_val_unit[OF assms(2)] g(1) by fastforce+
  let ?R = "high + 1 - low"
  let ?x = "fl (u * real_of_int ?R)"
  have R: "0 < ?R" "?R < 2 ^ 53" using assms by auto
  have f: "fl (real_of_int ?R) = real_of_int ?R" by (rule fl_of_int) (use R in simp)
  have x: "0 \<le> ?x" "if u = 1 then ?x = real_of_int ?R else ?x < real_of_int ?R"
    using u R fl_times_below[OF u(3,1), of ?R] f by (auto intro!: fl_ge_0 mult_nonneg_nonneg)
  have k: "0 \<le> \<lfloor>?x\<rfloor>" "if u = 1 then \<lfloor>?x\<rfloor> = ?R else \<lfloor>?x\<rfloor> < ?R"
    using x by (simp_all add: floor_less_iff split: if_splits)
  then have kR: "\<lfloor>?x\<rfloor> \<le> ?R" by (simp split: if_splits)
  have hi: "high < 9223372036854775807" using assms(5) by (simp add: LONG_MAX_def)
  have "i64 ?R = Some ?R" "i64 \<lfloor>?x\<rfloor> = Some \<lfloor>?x\<rfloor>" "i64 (low + \<lfloor>?x\<rfloor>) = Some (low + \<lfloor>?x\<rfloor>)"
    by (rule i64_Some; use k(1) kR R hi assms(3) in linarith)+
  then have "tw_rand_integer g low high = Some (low + \<lfloor>?x\<rfloor>, g')"
    unfolding tw_rand_integer_def using assms g f by (simp add: Let_def)
  moreover have "low \<le> low + \<lfloor>?x\<rfloor>" "if u = 1 then low + \<lfloor>?x\<rfloor> = high + 1 else low + \<lfloor>?x\<rfloor> \<le> high"
    using k by (simp_all split: if_splits)
  ultimately show ?thesis using g u(4) by blast
qed

section \<open>The streams of an LP\<close>

text \<open>
  \<open>tw_rand_init_streams\<close>: the ids under which the streams of LP \<open>gid\<close> are seeded. Ids are
  64-bit; the number of model streams is stored in an \<open>unsigned int\<close> first.
\<close>

record rng_config =
  g_tw_nRNG_per_lp :: "32 word"
  g_tw_nRNG_core_per_lp :: "32 word"
  g_tw_total_lps :: "64 word"

definition total_num_noncore_rngs :: "rng_config \<Rightarrow> 32 word" where
  "total_num_noncore_rngs c = ucast (ucast (g_tw_nRNG_per_lp c) * g_tw_total_lps c :: 64 word)"

definition lp_stream_id :: "rng_config \<Rightarrow> 64 word \<Rightarrow> 32 word \<Rightarrow> 64 word" where
  "lp_stream_id c gid i = gid * ucast (g_tw_nRNG_per_lp c) + ucast i"

definition core_stream_id :: "rng_config \<Rightarrow> 64 word \<Rightarrow> 32 word \<Rightarrow> 64 word" where
  "core_stream_id c gid j =
     ucast (total_num_noncore_rngs c) + gid * ucast (g_tw_nRNG_core_per_lp c) + ucast j"

definition tw_rand_init_streams ::
  "rng_config \<Rightarrow> tw_rng \<Rightarrow> tw_rng \<Rightarrow> 64 word \<Rightarrow> 32 word \<Rightarrow> 32 word
     \<Rightarrow> ross_error + (tw_rng_stream list \<times> tw_rng_stream list) option" where
  "tw_rand_init_streams c rng core_rng gid nstreams n_core_streams =
     (if nstreams > g_tw_nRNG_per_lp c then Inl (Tw_Error ''LP asked for more RNG streams'')
      else if n_core_streams > g_tw_nRNG_core_per_lp c
      then Inl (Tw_Error ''LP asked for more core RNG streams'')
      else Inr (do {
        rs \<leftarrow> mapM (\<lambda>i. tw_rand_initial_seed (lp_stream_id c gid (of_nat i)) rng) [0..<unat nstreams];
        cs \<leftarrow> mapM (\<lambda>j. tw_rand_initial_seed (core_stream_id c gid (of_nat j)) core_rng)
               [0..<unat n_core_streams];
        Some (rs, cs) }))"

lemma scaled_below:
  fixes g n i t :: nat
  assumes "g < t" "i < n"
  shows "g * n + i < t * n"
proof -
  have "Suc g * n \<le> t * n" using assms by (intro mult_right_mono) auto
  then show ?thesis using assms by simp
qed

lemma scaled_inj:
  fixes g n i :: nat
  assumes "g * n + i = g' * n + i'" "i < n" "i' < n"
  shows "g = g' \<and> i = i'"
  using assms by (metis add.commute add_right_cancel div_mult_self3 div_less less_nat_zero_code
      plus_nat.add_0 mult.commute)

lemma unat_ucast32 [simp]: "unat (ucast (x :: 32 word) :: 64 word) = unat x"
  using unsigned_less[of x, where ?'a = nat]
  by (simp add: unsigned_ucast_eq take_bit_nat_eq_self_iff)

lemma unat_lp_id:
  assumes "unat gid * unat (g_tw_nRNG_per_lp c) + unat i < 2 ^ 64"
  shows "unat (lp_stream_id c gid i) = unat gid * unat (g_tw_nRNG_per_lp c) + unat i"
  using assms unfolding lp_stream_id_def
  by (simp add: unat_word_ariths mod_add_left_eq)

lemma unat_core_id:
  assumes "unat (total_num_noncore_rngs c) + unat gid * unat (g_tw_nRNG_core_per_lp c) + unat j < 2 ^ 64"
  shows "unat (core_stream_id c gid j) =
    unat (total_num_noncore_rngs c) + (unat gid * unat (g_tw_nRNG_core_per_lp c) + unat j)"
  using assms unfolding core_stream_id_def
  by (simp add: unat_word_ariths mod_add_left_eq mod_add_right_eq)

lemma unat_total:
  assumes "unat (g_tw_nRNG_per_lp c) * unat (g_tw_total_lps c) < 2 ^ 32"
  shows "unat (total_num_noncore_rngs c) = unat (g_tw_nRNG_per_lp c) * unat (g_tw_total_lps c)"
  using assms unfolding total_num_noncore_rngs_def
  by (simp add: unsigned_ucast_eq unat_word_ariths take_bit_nat_def)

text \<open>
  Seeding gives every stream of the simulation its own id: as long as there are fewer
  than \<open>2^32\<close> model streams in all, the id determines the LP, the number of the stream in
  its LP, and whether it is a model stream or one of the kernel's tie-breaker streams.
\<close>

theorem stream_ids_distinct:
  assumes "unat (g_tw_nRNG_per_lp c) * unat (g_tw_total_lps c) < 2 ^ 32"
    "unat (g_tw_nRNG_per_lp c) * unat (g_tw_total_lps c)
       + unat (g_tw_total_lps c) * unat (g_tw_nRNG_core_per_lp c) < 2 ^ 64"
    and "gid < g_tw_total_lps c" "gid' < g_tw_total_lps c"
  shows "(i < g_tw_nRNG_per_lp c \<and> i' < g_tw_nRNG_per_lp c \<and> lp_stream_id c gid i = lp_stream_id c gid' i'
       \<longrightarrow> gid = gid' \<and> i = i') \<and>
    (j < g_tw_nRNG_core_per_lp c \<and> j' < g_tw_nRNG_core_per_lp c \<and>
       core_stream_id c gid j = core_stream_id c gid' j' \<longrightarrow> gid = gid' \<and> j = j') \<and>
    (i < g_tw_nRNG_per_lp c \<and> j < g_tw_nRNG_core_per_lp c \<longrightarrow> lp_stream_id c gid i \<noteq> core_stream_id c gid' j)"
proof -
  let ?n = "unat (g_tw_nRNG_per_lp c)" and ?k = "unat (g_tw_nRNG_core_per_lp c)"
    and ?T = "unat (g_tw_total_lps c)"
  have g: "unat gid < ?T" "unat gid' < ?T" using assms by (simp_all add: word_less_nat_alt)
  note w = word_less_nat_alt
  have lp: "unat (lp_stream_id c x i) = unat x * ?n + unat i \<and> unat x * ?n + unat i < ?n * ?T"
    if "unat x < ?T" "unat i < ?n" for x i
  proof -
    have "unat x * ?n + unat i < ?T * ?n" using that by (rule scaled_below)
    then have b: "unat x * ?n + unat i < ?n * ?T" by (simp only: mult.commute)
    then have "unat x * ?n + unat i < 2 ^ 64"
      using order.strict_trans[OF order.strict_trans[OF b assms(1)], of "2 ^ 64"] by simp
    from unat_lp_id[OF this] b show ?thesis by simp
  qed
  have core: "unat (core_stream_id c x j) = ?n * ?T + (unat x * ?k + unat j)"
    if "unat x < ?T" "unat j < ?k" for x j
  proof -
    have "unat x * ?k + unat j < ?T * ?k" using that by (rule scaled_below)
    then have "?n * ?T + unat x * ?k + unat j < 2 ^ 64"
      using order.strict_trans[OF add_strict_left_mono assms(2)] by (simp only: add.assoc)
    with unat_core_id[of c x j] show ?thesis by (simp only: unat_total[OF assms(1)])
  qed
  show ?thesis
  proof (intro conjI impI; elim conjE)
    assume i: "i < g_tw_nRNG_per_lp c" "i' < g_tw_nRNG_per_lp c"
      and eq: "lp_stream_id c gid i = lp_stream_id c gid' i'"
    then have "unat gid * ?n + unat i = unat gid' * ?n + unat i'"
      using lp[OF g(1), of i] lp[OF g(2), of i'] by (simp add: w)
    then have "unat gid = unat gid' \<and> unat i = unat i'"
      using i by (intro scaled_inj) (auto simp: w)
    then show "gid = gid'" "i = i'" by (simp_all add: word_eq_iff_unsigned[where ?'a = nat])
  next
    assume j: "j < g_tw_nRNG_core_per_lp c" "j' < g_tw_nRNG_core_per_lp c"
      and eq: "core_stream_id c gid j = core_stream_id c gid' j'"
    then have "unat gid * ?k + unat j = unat gid' * ?k + unat j'"
      using core[OF g(1), of j] core[OF g(2), of j'] by (simp add: w)
    then have "unat gid = unat gid' \<and> unat j = unat j'"
      using j by (intro scaled_inj) (auto simp: w)
    then show "gid = gid'" "j = j'" by (simp_all add: word_eq_iff_unsigned[where ?'a = nat])
  next
    assume i: "i < g_tw_nRNG_per_lp c" "j < g_tw_nRNG_core_per_lp c"
    then have "unat (lp_stream_id c gid i) < unat (core_stream_id c gid' j)"
      using lp[OF g(1), of i] core[OF g(2), of j] by (simp add: w)
    then show "lp_stream_id c gid i \<noteq> core_stream_id c gid' j" by auto
  qed
qed

theorem stream_ids_distinct_witness:
  "lp_stream_id \<lparr>g_tw_nRNG_per_lp = 2, g_tw_nRNG_core_per_lp = 1, g_tw_total_lps = 5\<rparr> 4 1 \<noteq>
   core_stream_id \<lparr>g_tw_nRNG_per_lp = 2, g_tw_nRNG_core_per_lp = 1, g_tw_total_lps = 5\<rparr> 0 0"
  using stream_ids_distinct[of "\<lparr>g_tw_nRNG_per_lp = 2, g_tw_nRNG_core_per_lp = 1, g_tw_total_lps = 5\<rparr>" 4 0 1 _ 0]
  by simp

text \<open>
  The bound is needed: the number of model streams is cut to 32 bits, and with \<open>2^32\<close> of them
  the kernel's streams are those of the model.
\<close>

lemma core_stream_overlap:
  "let c = \<lparr>g_tw_nRNG_per_lp = 4, g_tw_nRNG_core_per_lp = 4, g_tw_total_lps = 2 ^ 30\<rparr>
   in core_stream_id c gid j = lp_stream_id c gid j"
  by (simp add: core_stream_id_def lp_stream_id_def total_num_noncore_rngs_def Let_def)

end
