(* ===== verification/Pe_State.thy ===== *)
theory Pe_State
  imports Splay_PQ Rng_Clcg4
begin

text \<open>
  The state of a processing element (PE), its kernel processes (KPs) and logical processes
  (LPs), and the operations that take an event from the free list, fill it in and put it back
  (\<open>core/ross-types.h\<close>, \<open>core/ross-inline.h\<close>).

  A queue is the list of the events it holds, head first: \<open>Event_Queue\<close> shows that the linked
  operations are these list operations. An LP, a KP and an event are given by their index;
  the event buffers are the heap. Statistics, real-time clocks and the delta memory of an
  event are left out.
\<close>

section \<open>State\<close>

text \<open>An event with the bit field and the message of the model.\<close>

record ('bf, 'm) pevent = tw_event +
  cv :: 'bf
  msg :: 'm

record 'st tw_lp =
  cur_state :: 'st
  core_rng :: tw_rng_stream
  lp_critical_path :: "32 word"
  suspend_flag :: bool
  suspend_event :: "addr option"
  suspend_sig :: tw_event_sig
  suspend_error_number :: int
  suspend_do_orig_event_rc :: int

record tw_kp =
  pevent_q :: "addr list"
  last_sig :: tw_event_sig
  s_nevent_processed :: nat
  s_e_rbs :: nat
  s_rb_total :: nat
  s_rb_secondary :: nat

datatype GVT_HOOK_STATUS =
    GVT_HOOK_STATUS_disabled | GVT_HOOK_STATUS_timestamp
  | GVT_HOOK_STATUS_every_n_gvt | GVT_HOOK_STATUS_model_call

record gvt_hook_trigger =
  hook_status :: GVT_HOOK_STATUS
  sig_at :: tw_event_sig
  starting_at :: int
  nums :: int

text \<open>
  \<open>struct tw_pe\<close> with the variables of the scheduler and of the GVT module that are global
  in the code. \<open>printed\<close> collects what is printed. \<open>cev_abort\<close> and \<open>gvt_status\<close> are flags.
\<close>

record ('st, 'bf, 'm) tw_pe =
  heap :: "addr \<Rightarrow> ('bf, 'm) pevent"
  lps :: "nat \<Rightarrow> 'st tw_lp"
  kps :: "nat \<Rightarrow> tw_kp"
  event_q :: "addr list"
  cancel_q :: "addr list"
  pq :: "addr splay_tree"
  free_q :: "addr list"
  cur_event :: addr
  cev_abort :: bool
  gvt_status :: bool
  trans_msg_sig :: tw_event_sig
  GVT_sig :: tw_event_sig
  GVT_prev_sig :: tw_event_sig
  seq_num :: "32 word"
  min_detected_offset :: real
  no_free_event_buffers :: nat
  gvt_cnt :: nat
  gvt_force :: nat
  hook_trigger :: gvt_hook_trigger
  printed :: "string list"

datatype tw_synch =
    NO_SYNCH | SEQUENTIAL | CONSERVATIVE | OPTIMISTIC | OPTIMISTIC_DEBUG | OPTIMISTIC_REALTIME
  | SEQUENTIAL_ROLLBACK_CHECK

text \<open>
  What a model's handlers do, in terms of the interface they have: they are given the LP, the
  current time and the LP's state, bit field and message, and give new values of these, the
  events they send in order (\<open>tw_event_new_user_prio\<close> followed by \<open>tw_event_send\<close>) and, if
  they call \<open>tw_lp_suspend\<close>, its two numbers. The random stream of the model is part of the
  state \<open>'st\<close>.
\<close>

record 'm send =
  to_gid :: nat
  offset_ts :: real
  prio :: real
  content :: 'm

record ('st, 'bf, 'm) outcome =
  o_state :: 'st
  o_bf :: 'bf
  o_msg :: 'm
  o_sends :: "'m send list"
  o_suspend :: "(int \<times> int) option"

text \<open>
  The configuration of a run. \<open>ts_add\<close> and \<open>ts_sub\<close> are the floating-point operations on
  times, \<open>gid_of\<close>, \<open>kp_of\<close>, \<open>local_lp\<close> the tables of LPs and the mapping of ids to them
  (\<open>tw_getlocal_lp\<close>), \<open>map_pe\<close> the model's mapping of LP ids to PEs, \<open>bf0\<close> the cleared bit
  field. \<open>has_revent\<close> tells if the type of an LP has a reverse handler, \<open>commit_h\<close> gives the new state.
\<close>

record ('st, 'bf, 'm) config =
  protocol :: tw_synch
  mynode :: nat
  nkp :: nat
  ts_end :: real
  lookahead :: real
  mblock :: nat
  gvt_threshold :: nat
  gvt_interval :: nat
  has_hook :: bool
  ts_add :: "real \<Rightarrow> real \<Rightarrow> real"
  ts_sub :: "real \<Rightarrow> real \<Rightarrow> real"
  the_rng :: tw_rng
  abort_event :: addr
  gid_of :: "nat \<Rightarrow> nat"
  kp_of :: "nat \<Rightarrow> nat"
  local_lp :: "nat \<Rightarrow> nat"
  map_pe :: "nat \<Rightarrow> nat"
  bf0 :: 'bf
  event_h :: "nat \<Rightarrow> tw_event_sig \<Rightarrow> 'st \<Rightarrow> 'bf \<Rightarrow> 'm \<Rightarrow> ('st, 'bf, 'm) outcome"
  revent_h :: "nat \<Rightarrow> tw_event_sig \<Rightarrow> 'st \<Rightarrow> 'bf \<Rightarrow> 'm \<Rightarrow> 'st \<times> 'bf \<times> 'm"
  has_revent :: "nat \<Rightarrow> bool"
  commit_h :: "(nat \<Rightarrow> 'st \<Rightarrow> 'bf \<Rightarrow> 'm \<Rightarrow> 'st) option"

type_synonym ('st, 'bf, 'm, 'z) pe_step =
  "('st, 'bf, 'm, 'z) tw_pe_scheme \<Rightarrow> ross_error + ('st, 'bf, 'm, 'z) tw_pe_scheme"

section \<open>Access to events, LPs and KPs\<close>

definition upd_ev :: "addr \<Rightarrow> (('bf, 'm) pevent \<Rightarrow> ('bf, 'm) pevent)
    \<Rightarrow> ('st, 'bf, 'm, 'z) tw_pe_scheme \<Rightarrow> ('st, 'bf, 'm, 'z) tw_pe_scheme" where
  "upd_ev a f pe = pe\<lparr>heap := (heap pe)(a := f (heap pe a))\<rparr>"

definition upd_lp :: "nat \<Rightarrow> ('st tw_lp \<Rightarrow> 'st tw_lp)
    \<Rightarrow> ('st, 'bf, 'm, 'z) tw_pe_scheme \<Rightarrow> ('st, 'bf, 'm, 'z) tw_pe_scheme" where
  "upd_lp i f pe = pe\<lparr>lps := (lps pe)(i := f (lps pe i))\<rparr>"

definition upd_kp :: "nat \<Rightarrow> (tw_kp \<Rightarrow> tw_kp)
    \<Rightarrow> ('st, 'bf, 'm, 'z) tw_pe_scheme \<Rightarrow> ('st, 'bf, 'm, 'z) tw_pe_scheme" where
  "upd_kp k f pe = pe\<lparr>kps := (kps pe)(k := f (kps pe k))\<rparr>"

text \<open>\<open>tw_now_sig\<close> and \<open>tw_now\<close>: the time of an LP is that of its KP.\<close>

definition tw_now_sig :: "('st, 'bf, 'm) config \<Rightarrow> nat \<Rightarrow> ('st, 'bf, 'm, 'z) tw_pe_scheme \<Rightarrow> tw_event_sig" where
  "tw_now_sig c lp pe = last_sig (kps pe (kp_of c lp))"

definition tw_now :: "('st, 'bf, 'm) config \<Rightarrow> nat \<Rightarrow> ('st, 'bf, 'm, 'z) tw_pe_scheme \<Rightarrow> real" where
  "tw_now c lp pe = recv_ts (last_sig (kps pe (kp_of c lp)))"

definition tw_gvt_inprogress :: "('st, 'bf, 'm, 'z) tw_pe_scheme \<Rightarrow> bool" where
  "tw_gvt_inprogress pe = gvt_status pe"

definition tw_gvt_force_update :: "('st, 'bf, 'm) config
    \<Rightarrow> ('st, 'bf, 'm, 'z) tw_pe_scheme \<Rightarrow> ('st, 'bf, 'm, 'z) tw_pe_scheme" where
  "tw_gvt_force_update c pe = pe\<lparr>gvt_force := gvt_force pe + 1, gvt_cnt := gvt_interval c\<rparr>"

text \<open>
  The calls of the pending-event queue: \<open>state.owner\<close> of the event is set by the queue itself.
\<close>

definition pq_enqueue :: "addr \<Rightarrow> ('st, 'bf, 'm, 'z) pe_step" where
  "pq_enqueue a pe =
     (let pe = upd_ev a (\<lambda>e. e\<lparr>qowner := TW_pe_pq\<rparr>) pe in
      ebind (tw_pq_enqueue (lt_rand (heap pe)) (pq pe) a) (\<lambda>q. Inr (pe\<lparr>pq := q\<rparr>)))"

definition pq_dequeue :: "('st, 'bf, 'm, 'z) tw_pe_scheme
    \<Rightarrow> ross_error + (addr option \<times> ('st, 'bf, 'm, 'z) tw_pe_scheme)" where
  "pq_dequeue pe =
     ebind (tw_pq_dequeue (pq pe)) (\<lambda>(r, q).
       case r of
         None \<Rightarrow> Inr (None, pe\<lparr>pq := q\<rparr>)
       | Some a \<Rightarrow> Inr (Some a, upd_ev a (\<lambda>e. e\<lparr>qowner := No_owner\<rparr>) (pe\<lparr>pq := q\<rparr>)))"

definition pq_delete_any :: "addr \<Rightarrow> ('st, 'bf, 'm, 'z) pe_step" where
  "pq_delete_any a pe =
     ebind (tw_pq_delete_any (pq pe) a) (\<lambda>q.
       Inr (upd_ev a (\<lambda>e. e\<lparr>qowner := No_owner\<rparr>) (pe\<lparr>pq := q\<rparr>)))"

section \<open>Event buffers\<close>

text \<open>\<open>tw_event_grab\<close> takes from the tail of the free list and clears the state fields.\<close>

definition tw_event_grab :: "('st, 'bf, 'm, 'z) tw_pe_scheme
    \<Rightarrow> addr option \<times> ('st, 'bf, 'm, 'z) tw_pe_scheme" where
  "tw_event_grab pe =
     (if free_q pe = [] then (None, pe)
      else (Some (last (free_q pe)),
        upd_ev (last (free_q pe)) (\<lambda>e. e\<lparr>caused_by_me := [], qowner := No_owner,
            st_cancel_q := False, st_cancel_asend := False, st_remote := False, event_id := 0\<rparr>)
          (pe\<lparr>free_q := butlast (free_q pe)\<rparr>)))"

definition tw_free_output_messages :: "addr \<Rightarrow> bool
    \<Rightarrow> ('st, 'bf, 'm, 'z) tw_pe_scheme \<Rightarrow> ('st, 'bf, 'm, 'z) tw_pe_scheme" where
  "tw_free_output_messages a print_message pe =
     (let pe' = (if print_message then pe\<lparr>printed := printed pe @ out_msgs (heap pe a)\<rparr> else pe)
      in upd_ev a (\<lambda>e. e\<lparr>out_msgs := []\<rparr>) pe')"

definition tw_event_free :: "addr \<Rightarrow> ('st, 'bf, 'm, 'z) tw_pe_scheme \<Rightarrow> ('st, 'bf, 'm, 'z) tw_pe_scheme" where
  "tw_event_free a pe =
     (let pe = tw_free_output_messages a False pe;
          pe = upd_ev a (\<lambda>e. e\<lparr>qowner := TW_pe_free_q\<rparr>) pe
      in pe\<lparr>free_q := a # free_q pe\<rparr>)"

text \<open>\<open>tw_rand_unif(lp->core_rng)\<close> and \<open>tw_rand_reverse_unif(lp->core_rng)\<close>.\<close>

definition core_unif :: "nat \<Rightarrow> ('st, 'bf, 'm, 'z) tw_pe_scheme
    \<Rightarrow> ross_error + (real \<times> ('st, 'bf, 'm, 'z) tw_pe_scheme)" where
  "core_unif lp pe =
     (case rng_gen_val (core_rng (lps pe lp)) of
        None \<Rightarrow> Inl Int_Overflow
      | Some (u, g) \<Rightarrow> Inr (u, upd_lp lp (\<lambda>l. l\<lparr>core_rng := g\<rparr>) pe))"

definition core_reverse_unif :: "('st, 'bf, 'm) config \<Rightarrow> nat \<Rightarrow> ('st, 'bf, 'm, 'z) pe_step" where
  "core_reverse_unif c lp pe =
     (case rng_gen_reverse_val (the_rng c) (core_rng (lps pe lp)) of
        Inl err \<Rightarrow> Inl err
      | Inr None \<Rightarrow> Inl Int_Overflow
      | Inr (Some (_, g)) \<Rightarrow> Inr (upd_lp lp (\<lambda>l. l\<lparr>core_rng := g\<rparr>) pe))"

text \<open>
  The signature of a new event. An event for the current time extends the chain of the event
  that is being processed, so that it comes after it; any other event starts a chain.
\<close>

definition new_event_sig ::
  "tw_event_sig \<Rightarrow> tw_event_sig \<Rightarrow> real \<Rightarrow> real \<Rightarrow> real \<Rightarrow> real \<Rightarrow> ross_error + tw_event_sig" where
  "new_event_sig e_sig now_sig recv offset pri u =
     (let s = e_sig\<lparr>priority := pri, recv_ts := recv\<rparr> in
      if offset = 0 then
        (let n = tie_lineage_length now_sig in
         if n \<ge> MAX_TIE_CHAIN then Inl (Tw_Error ''Maximum zero-offset tie chain reached'')
         else Inr (s\<lparr>event_tiebreaker :=
             (copy_tie_loop n (event_tiebreaker now_sig) (event_tiebreaker s))[n := u],
           tie_lineage_length := n + 1\<rparr>))
      else Inr (s\<lparr>event_tiebreaker := (event_tiebreaker s)[0 := u], tie_lineage_length := 1\<rparr>))"

text \<open>The event buffer for a send: the abort event past the end of time or out of buffers.\<close>

definition grab_for_send :: "('st, 'bf, 'm) config \<Rightarrow> real \<Rightarrow> ('st, 'bf, 'm, 'z) tw_pe_scheme
    \<Rightarrow> ross_error + (addr \<times> ('st, 'bf, 'm, 'z) tw_pe_scheme)" where
  "grab_for_send c recv pe =
     (if recv \<ge> ts_end c then Inr (abort_event c, pe)
      else case tw_event_grab pe of
        (Some e, pe') \<Rightarrow> Inr (e, pe')
      | (None, pe') \<Rightarrow>
          if protocol c = CONSERVATIVE \<or> protocol c = SEQUENTIAL
          then Inl (Tw_Error ''No free event buffers'')
          else Inr (abort_event c, pe'))"

definition tw_event_new_user_prio ::
  "('st, 'bf, 'm) config \<Rightarrow> nat \<Rightarrow> real \<Rightarrow> nat \<Rightarrow> real \<Rightarrow> ('st, 'bf, 'm, 'z) tw_pe_scheme
     \<Rightarrow> ross_error + (addr \<times> ('st, 'bf, 'm, 'z) tw_pe_scheme)" where
  "tw_event_new_user_prio c dest_gid offset sender pri pe =
     (if offset < 0 then Inl (Tw_Error ''Cannot send events into the past!'')
      else if pri < 0 \<or> pri > 1
      then Inl (Tw_Error ''Cannot specify an event priority outside of range'')
      else
        let recv = ts_add c (tw_now c sender pe) offset;
            pe = (if protocol c = CONSERVATIVE \<and> offset < min_detected_offset pe
                  then pe\<lparr>min_detected_offset := offset\<rparr> else pe)
        in ebind (grab_for_send c recv pe) (\<lambda>(e, pe).
           let pe = upd_ev e (\<lambda>v. v\<lparr>send_pe := mynode c, dest_lp := dest_gid, dest_lpid := dest_gid,
                 src_lp := sender, ev_recv_ts := recv, send_ts := tw_now c sender pe,
                 critical_path := lp_critical_path (lps pe sender) + 1, aborted_total := 0\<rparr>) pe
           in ebind (core_unif sender pe) (\<lambda>(u, pe).
              ebind (new_event_sig (qsig (heap pe e)) (qsig (heap pe (cur_event pe))) recv offset pri u) (\<lambda>s.
                let pe = upd_ev e (\<lambda>v. v\<lparr>qsig := s\<rparr>) pe
                in Inr (e, tw_free_output_messages e False pe)))))"

definition tw_event_new ::
  "('st, 'bf, 'm) config \<Rightarrow> nat \<Rightarrow> real \<Rightarrow> nat \<Rightarrow> ('st, 'bf, 'm, 'z) tw_pe_scheme
     \<Rightarrow> ross_error + (addr \<times> ('st, 'bf, 'm, 'z) tw_pe_scheme)" where
  "tw_event_new c dest_gid offset sender pe = tw_event_new_user_prio c dest_gid offset sender 1 pe"

text \<open>\<open>tw_lp_suspend\<close> (\<open>core/tw-lp.c\<close>).\<close>

definition tw_lp_suspend :: "('st, 'bf, 'm) config \<Rightarrow> nat \<Rightarrow> int \<Rightarrow> int
    \<Rightarrow> ('st, 'bf, 'm, 'z) tw_pe_scheme \<Rightarrow> ('st, 'bf, 'm, 'z) tw_pe_scheme" where
  "tw_lp_suspend c lp do_orig_event_rc error_num pe =
     upd_lp lp (\<lambda>l. l\<lparr>suspend_flag := True, suspend_event := Some (cur_event pe),
       suspend_sig := tw_now_sig c lp pe, suspend_error_number := error_num,
       suspend_do_orig_event_rc := do_orig_event_rc\<rparr>) pe"

end
