(* ===== verification/Time_Warp.thy ===== *)
theory Time_Warp
  imports Pe_State
begin

text \<open>
  The Time Warp protocol on one processing element: sending and cancelling events and rolling
  them back (\<open>core/tw-event.c\<close>), the rollback of a KP (\<open>core/tw-kp.c\<close>), and the optimistic
  scheduler that spins out arrivals, handles cancellations and processes a batch
  (\<open>core/tw-sched.c\<close>).
\<close>

text \<open>
  The two calls of the network layer. They are defined over the MPI queues in the network's
  own part of the state, which the operations here pass through.
\<close>

record 'p net_ops =
  net_send :: "addr \<Rightarrow> 'p \<Rightarrow> ross_error + 'p"
  net_cancel :: "addr \<Rightarrow> 'p \<Rightarrow> ross_error + 'p"

section \<open>Sending an event\<close>

text \<open>\<open>link_causality\<close> puts the new event in front of the chain.\<close>

definition link_causality :: "addr \<Rightarrow> addr \<Rightarrow> ('st, 'bf, 'm, 'z) tw_pe_scheme \<Rightarrow> ('st, 'bf, 'm, 'z) tw_pe_scheme" where
  "link_causality nev cev pe = upd_ev cev (\<lambda>e. e\<lparr>caused_by_me := nev # caused_by_me e\<rparr>) pe"

text \<open>
  \<open>if (tw_gvt_inprogress(pe)) if (compare(trans_msg_sig, sig) >= 0) copy(trans_msg_sig, sig)\<close>
\<close>

definition note_transient :: "tw_event_sig \<Rightarrow> ('st, 'bf, 'm, 'z) tw_pe_scheme \<Rightarrow> ('st, 'bf, 'm, 'z) tw_pe_scheme" where
  "note_transient s pe =
     (if tw_gvt_inprogress pe \<and> tw_event_sig_compare_ptr (trans_msg_sig pe) s \<ge> 0
      then pe\<lparr>trans_msg_sig := tw_copy_event_sig (trans_msg_sig pe) s\<rparr> else pe)"

text \<open>
  \<open>tw_event_send\<close>. All LPs of a process belong to its one PE, so the destination PE of an
  event for this node is the sending one.
\<close>

definition tw_event_send :: "('st, 'bf, 'm) config \<Rightarrow> ('st, 'bf, 'm, 'z) tw_pe_scheme net_ops \<Rightarrow> addr
    \<Rightarrow> ('st, 'bf, 'm, 'z) pe_step" where
  "tw_event_send c net a pe =
     (let src = src_lp (heap pe a);
          recv = ev_recv_ts (heap pe a) in
      if a = abort_event c then
        (let pe = (if recv < ts_end c then pe\<lparr>cev_abort := True\<rparr> else pe)
         in Inr (upd_ev (cur_event pe) (\<lambda>e. e\<lparr>aborted_total := aborted_total e + 1\<rparr>) pe))
      else
        let pe = pe\<lparr>seq_num := seq_num pe + 1\<rparr>;
            pe = upd_ev a (\<lambda>e. e\<lparr>event_id := seq_num pe\<rparr>) pe;
            dest_peid = map_pe c (dest_lp (heap pe a));
            pe = upd_ev a (\<lambda>e. e\<lparr>send_lp := gid_of c src\<rparr>) pe in
        if protocol c = CONSERVATIVE \<and> ts_sub c recv (tw_now c src pe) < lookahead c
        then Inl (Tw_Error ''Lookahead violation: decrease g_tw_lookahead'')
        else if out_msgs (heap pe a) \<noteq> []
        then Inl (Tw_Error ''It is an error to send an event with pre-loaded output message.'')
        else
          let pe = link_causality a (cur_event pe) pe in
          if dest_peid = mynode c then
            (let pe = upd_ev a (\<lambda>e. e\<lparr>dest_lp := local_lp c (dest_lp e)\<rparr>) pe in
             if tw_event_sig_compare_ptr (last_sig (kps pe (kp_of c (dest_lp (heap pe a))))) (qsig (heap pe a)) \<le> 0
             then pq_enqueue a pe
             else
               let pe = upd_ev a (\<lambda>e. e\<lparr>qowner := TW_pe_event_q\<rparr>) pe;
                   pe = pe\<lparr>event_q := event_q pe @ [a]\<rparr>
               in Inr (note_transient (qsig (heap pe a)) pe))
          else
            let pe = upd_ev a (\<lambda>e. e\<lparr>qowner := TW_net_asend\<rparr>) pe in
            ebind (net_send net a pe) (\<lambda>pe. Inr (note_transient (qsig (heap pe a)) pe)))"

section \<open>Cancelling an event\<close>

definition local_cancel :: "addr \<Rightarrow> ('st, 'bf, 'm, 'z) tw_pe_scheme \<Rightarrow> ('st, 'bf, 'm, 'z) tw_pe_scheme" where
  "local_cancel a pe =
     (let pe = upd_ev a (\<lambda>e. e\<lparr>st_cancel_q := True\<rparr>) pe in pe\<lparr>cancel_q := a # cancel_q pe\<rparr>)"

text \<open>
  \<open>event_cancel\<close>; the destination of an event in a local queue is an LP of this PE, so the
  two branches for another PE are never taken.
\<close>

definition event_cancel :: "('st, 'bf, 'm, 'z) tw_pe_scheme net_ops \<Rightarrow> addr \<Rightarrow> ('st, 'bf, 'm, 'z) pe_step" where
  "event_cancel net a pe =
     (case qowner (heap pe a) of
        TW_net_asend \<Rightarrow> ebind (net_cancel net a pe) (\<lambda>pe. Inr (note_transient (qsig (heap pe a)) pe))
      | TW_net_outq \<Rightarrow> ebind (net_cancel net a pe) (\<lambda>pe. Inr (note_transient (qsig (heap pe a)) pe))
      | TW_pe_sevent_q \<Rightarrow> ebind (net_cancel net a pe) (\<lambda>pe. Inr (note_transient (qsig (heap pe a)) pe))
      | TW_pe_pq \<Rightarrow> ebind (pq_delete_any a pe) (\<lambda>pe. Inr (tw_event_free a pe))
      | TW_pe_event_q \<Rightarrow> (let pe = local_cancel a pe in Inr (note_transient (qsig (heap pe a)) pe))
      | TW_kp_pevent_q \<Rightarrow> (let pe = local_cancel a pe in Inr (note_transient (qsig (heap pe a)) pe))
      | _ \<Rightarrow> Inl (Tw_Error ''unknown fast local cancel owner''))"

section \<open>Rolling back an event\<close>

text \<open>The loop over the events that were caused by the one being rolled back.\<close>

fun cancel_children :: "('st, 'bf, 'm) config \<Rightarrow> ('st, 'bf, 'm, 'z) tw_pe_scheme net_ops \<Rightarrow> addr list
    \<Rightarrow> ('st, 'bf, 'm, 'z) pe_step" where
  "cancel_children c net [] pe = Inr pe"
| "cancel_children c net (e # es) pe =
     ebind (core_reverse_unif c (src_lp (heap pe e)) pe) (\<lambda>pe.
     ebind (event_cancel net e pe) (\<lambda>pe. cancel_children c net es pe))"

text \<open>\<open>while (event->aborted_total)\<close>; the count is the argument.\<close>

fun reverse_aborted :: "('st, 'bf, 'm) config \<Rightarrow> addr \<Rightarrow> nat \<Rightarrow> ('st, 'bf, 'm, 'z) pe_step" where
  "reverse_aborted c a 0 pe = Inr pe"
| "reverse_aborted c a (Suc n) pe =
     ebind (core_reverse_unif c (dest_lp (heap pe a)) pe) (\<lambda>pe.
       reverse_aborted c a n (upd_ev a (\<lambda>e. e\<lparr>aborted_total := aborted_total e - 1\<rparr>) pe))"

text \<open>The reverse handler and the critical path.\<close>

definition run_revent :: "('st, 'bf, 'm) config \<Rightarrow> addr \<Rightarrow> ('st, 'bf, 'm, 'z) tw_pe_scheme
    \<Rightarrow> ('st, 'bf, 'm, 'z) tw_pe_scheme" where
  "run_revent c a pe =
     (let e = heap pe a; lp = dest_lp e in
      case revent_h c lp (tw_now_sig c lp pe) (cur_state (lps pe lp)) (cv e) (msg e) of
        (s, bf, m) \<Rightarrow>
          upd_lp lp (\<lambda>l. l\<lparr>cur_state := s, lp_critical_path := critical_path e\<rparr>)
            (upd_ev a (\<lambda>v. v\<lparr>cv := bf, msg := m\<rparr>) pe))"

text \<open>
  The part of \<open>tw_event_rollback\<close> before the label \<open>jump_over_rc_event_handler\<close>. A suspended LP
  processed nothing since the event that suspended it, so only that event, on request, is run
  backwards.
\<close>

definition rollback_handler :: "('st, 'bf, 'm) config \<Rightarrow> addr \<Rightarrow> ('st, 'bf, 'm, 'z) tw_pe_scheme
    \<Rightarrow> ('st, 'bf, 'm, 'z) tw_pe_scheme" where
  "rollback_handler c a pe =
     (let lp = dest_lp (heap pe a); l = lps pe lp in
      if suspend_flag l \<and> suspend_event l = Some a \<and>
         tw_event_sig_compare_ptr (suspend_sig l) (qsig (heap pe a)) = 0
      then
        let pe' = upd_lp lp (\<lambda>l. l\<lparr>suspend_flag := False, suspend_event := None,
            suspend_sig := (suspend_sig l)\<lparr>recv_ts := 0, priority := 0, tie_lineage_length := 0\<rparr>,
            suspend_error_number := 0\<rparr>) pe
        in if suspend_do_orig_event_rc l = 0 then pe'
           else run_revent c a (upd_lp lp (\<lambda>l. l\<lparr>suspend_do_orig_event_rc := 0\<rparr>) pe')
      else if suspend_flag l then pe
      else run_revent c a pe)"

definition tw_event_rollback :: "('st, 'bf, 'm) config \<Rightarrow> ('st, 'bf, 'm, 'z) tw_pe_scheme net_ops \<Rightarrow> addr
    \<Rightarrow> ('st, 'bf, 'm, 'z) pe_step" where
  "tw_event_rollback c net a pe =
     (let e = caused_by_me (heap pe a);
          k = kp_of c (dest_lp (heap pe a));
          pe = tw_free_output_messages a False pe;
          pe = pe\<lparr>cur_event := a\<rparr>;
          pe = upd_kp k (\<lambda>kp. kp\<lparr>last_sig := qsig (heap pe a)\<rparr>) pe;
          pe = rollback_handler c a pe
      in ebind (cancel_children c net e pe) (\<lambda>pe.
         ebind (reverse_aborted c a (aborted_total (heap pe a)) pe) (\<lambda>pe.
           let pe = upd_ev a (\<lambda>v. v\<lparr>caused_by_me := []\<rparr>) pe
           in Inr (upd_kp k (\<lambda>kp. kp\<lparr>s_e_rbs := s_e_rbs kp + 1\<rparr>) pe))))"

section \<open>Rolling back a KP\<close>

definition set_last_sig :: "nat \<Rightarrow> tw_event_sig \<Rightarrow> ('st, 'bf, 'm, 'z) tw_pe_scheme \<Rightarrow> ('st, 'bf, 'm, 'z) tw_pe_scheme" where
  "set_last_sig k s = upd_kp k (\<lambda>kp. kp\<lparr>last_sig := s\<rparr>)"

text \<open>
  The loop of \<open>tw_kp_rollback_to_sig\<close>. Every round takes an event off the processed queue; the
  bound is the length of that queue.
\<close>

fun rollback_loop :: "nat \<Rightarrow> ('st, 'bf, 'm) config \<Rightarrow> ('st, 'bf, 'm, 'z) tw_pe_scheme net_ops \<Rightarrow> nat
    \<Rightarrow> tw_event_sig \<Rightarrow> ('st, 'bf, 'm, 'z) pe_step" where
  "rollback_loop n c net k to_sig pe =
     (case pevent_q (kps pe k) of
        [] \<Rightarrow> Inr pe
      | e # es \<Rightarrow>
          if tw_event_sig_compare_ptr (qsig (heap pe e)) to_sig \<ge> 0 then
            (case n of
               0 \<Rightarrow> Inl Out_Of_Fuel
             | Suc n' \<Rightarrow>
                 let pe = upd_kp k (\<lambda>kp. kp\<lparr>pevent_q := es\<rparr>) pe in
                 ebind (tw_event_rollback c net e pe) (\<lambda>pe.
                   let s = (case pevent_q (kps pe k) of [] \<Rightarrow> GVT_sig pe | h # _ \<Rightarrow> qsig (heap pe h));
                       pe = set_last_sig k (tw_copy_event_sig (last_sig (kps pe k)) s) pe
                   in ebind (pq_enqueue e pe) (rollback_loop n' c net k to_sig)))
          else Inr pe)"

declare rollback_loop.simps [simp del]

definition tw_kp_rollback_to_sig :: "('st, 'bf, 'm) config \<Rightarrow> ('st, 'bf, 'm, 'z) tw_pe_scheme net_ops \<Rightarrow> nat
    \<Rightarrow> tw_event_sig \<Rightarrow> ('st, 'bf, 'm, 'z) pe_step" where
  "tw_kp_rollback_to_sig c net k to_sig pe =
     (let pe = upd_kp k (\<lambda>kp. kp\<lparr>s_rb_total := s_rb_total kp + 1\<rparr>) pe
      in rollback_loop (length (pevent_q (kps pe k))) c net k to_sig pe)"

text \<open>
  The loop of \<open>tw_kp_rollback_event\<close>: \<open>e\<close> is the event just taken from the queue; \<open>None\<close> is the
  null pointer an empty queue gives, which the next round dereferences.
\<close>

fun rollback_event_loop :: "nat \<Rightarrow> ('st, 'bf, 'm) config \<Rightarrow> ('st, 'bf, 'm, 'z) tw_pe_scheme net_ops \<Rightarrow> nat
    \<Rightarrow> addr \<Rightarrow> ('st, 'bf, 'm, 'z) pe_step" where
  "rollback_event_loop n c net k event pe =
     (case pevent_q (kps pe k) of
        [] \<Rightarrow> Inl Bad_Pointer
      | e # es \<Rightarrow>
          let pe = upd_kp k (\<lambda>kp. kp\<lparr>pevent_q := es\<rparr>) pe in
          if e = event then tw_event_rollback c net e pe
          else
            (case (n, es) of
               (Suc n', h # _) \<Rightarrow>
                 let pe = set_last_sig k (qsig (heap pe h)) pe in
                 ebind (tw_event_rollback c net e pe) (\<lambda>pe.
                 ebind (pq_enqueue e pe) (rollback_event_loop n' c net k event))
             | (Suc n', []) \<Rightarrow> Inl Bad_Pointer
             | (0, _) \<Rightarrow> Inl Out_Of_Fuel))"

declare rollback_event_loop.simps [simp del]

definition tw_kp_rollback_event :: "('st, 'bf, 'm) config \<Rightarrow> ('st, 'bf, 'm, 'z) tw_pe_scheme net_ops \<Rightarrow> addr
    \<Rightarrow> ('st, 'bf, 'm, 'z) pe_step" where
  "tw_kp_rollback_event c net event pe =
     (let k = kp_of c (dest_lp (heap pe event));
          pe = upd_kp k (\<lambda>kp. kp\<lparr>s_rb_total := s_rb_total kp + 1,
            s_rb_secondary := s_rb_secondary kp + 1\<rparr>) pe
      in ebind (rollback_event_loop (length (pevent_q (kps pe k))) c net k event pe) (\<lambda>pe.
         Inr (set_last_sig k
           (case pevent_q (kps pe k) of [] \<Rightarrow> GVT_sig pe | h # _ \<Rightarrow> qsig (heap pe h)) pe)))"

section \<open>The scheduler's queues\<close>

text \<open>The inner loop of \<open>tw_sched_event_q\<close> over the list popped from the queue.\<close>

fun spin_events :: "('st, 'bf, 'm) config \<Rightarrow> ('st, 'bf, 'm, 'z) tw_pe_scheme net_ops \<Rightarrow> addr list
    \<Rightarrow> ('st, 'bf, 'm, 'z) pe_step" where
  "spin_events c net [] pe = Inr pe"
| "spin_events c net (e # es) pe =
     (if qowner (heap pe e) = No_owner \<or> qowner (heap pe e) = TW_pe_free_q
      then Inl (Tw_Error ''no owner!'')
      else if st_cancel_q (heap pe e)
      then spin_events c net es (upd_ev e (\<lambda>v. v\<lparr>qowner := TW_pe_anti_msg\<rparr>) pe)
      else if qowner (heap pe e) = TW_pe_event_q then
        (let k = kp_of c (dest_lp (heap pe e)) in
         ebind (if tw_event_sig_compare_ptr (last_sig (kps pe k)) (qsig (heap pe e)) > 0
                then tw_kp_rollback_to_sig c net k (qsig (heap pe e)) pe else Inr pe) (\<lambda>pe.
         ebind (pq_enqueue e pe) (spin_events c net es)))
      else Inl (Tw_Error ''Event in event_q, but owner not recognized''))"

fun tw_sched_event_q :: "nat \<Rightarrow> ('st, 'bf, 'm) config \<Rightarrow> ('st, 'bf, 'm, 'z) tw_pe_scheme net_ops
    \<Rightarrow> ('st, 'bf, 'm, 'z) pe_step" where
  "tw_sched_event_q n c net me =
     (if event_q me = [] then Inr me
      else case n of
        0 \<Rightarrow> Inl Out_Of_Fuel
      | Suc n' \<Rightarrow> ebind (spin_events c net (event_q me) (me\<lparr>event_q := []\<rparr>)) (tw_sched_event_q n' c net))"

declare tw_sched_event_q.simps [simp del]

text \<open>The switch on the owner of a cancelled event, and the inner loop of \<open>tw_sched_cancel_q\<close>.\<close>

definition cancel_owner_switch :: "('st, 'bf, 'm) config \<Rightarrow> ('st, 'bf, 'm, 'z) tw_pe_scheme net_ops \<Rightarrow> addr
    \<Rightarrow> ('st, 'bf, 'm, 'z) pe_step" where
  "cancel_owner_switch c net e pe =
     (case qowner (heap pe e) of
        TW_pe_event_q \<Rightarrow> Inr (tw_event_free e (pe\<lparr>event_q := remove1 e (event_q pe)\<rparr>))
      | TW_pe_anti_msg \<Rightarrow> Inr (tw_event_free e pe)
      | TW_pe_pq \<Rightarrow> ebind (pq_delete_any e pe) (\<lambda>pe. Inr (tw_event_free e pe))
      | TW_kp_pevent_q \<Rightarrow> ebind (tw_kp_rollback_event c net e pe) (\<lambda>pe. Inr (tw_event_free e pe))
      | _ \<Rightarrow> Inl (Tw_Error ''Event in cancel_q, but owner not recognized''))"

fun cancel_events :: "('st, 'bf, 'm) config \<Rightarrow> ('st, 'bf, 'm, 'z) tw_pe_scheme net_ops \<Rightarrow> addr list
    \<Rightarrow> ('st, 'bf, 'm, 'z) pe_step" where
  "cancel_events c net [] pe = Inr pe"
| "cancel_events c net (e # es) pe =
     (if \<not> st_cancel_q (heap pe e) then Inl (Tw_Error ''No cancel_q bit on event in cancel_q'')
      else if qowner (heap pe e) = No_owner \<or> qowner (heap pe e) = TW_pe_free_q
      then Inl (Tw_Error ''Cancelled event, no owner!'')
      else
        ebind (cancel_owner_switch c net e pe) (cancel_events c net es))"

fun tw_sched_cancel_q :: "nat \<Rightarrow> ('st, 'bf, 'm) config \<Rightarrow> ('st, 'bf, 'm, 'z) tw_pe_scheme net_ops
    \<Rightarrow> ('st, 'bf, 'm, 'z) pe_step" where
  "tw_sched_cancel_q n c net me =
     (if cancel_q me = [] then Inr me
      else case n of
        0 \<Rightarrow> Inl Out_Of_Fuel
      | Suc n' \<Rightarrow> ebind (cancel_events c net (cancel_q me) (me\<lparr>cancel_q := []\<rparr>)) (tw_sched_cancel_q n' c net))"

declare tw_sched_cancel_q.simps [simp del]

section \<open>Processing events\<close>

text \<open>The sends of a handler, in order.\<close>

fun do_sends :: "('st, 'bf, 'm) config \<Rightarrow> ('st, 'bf, 'm, 'z) tw_pe_scheme net_ops \<Rightarrow> nat \<Rightarrow> 'm send list
    \<Rightarrow> ('st, 'bf, 'm, 'z) pe_step" where
  "do_sends c net lp [] pe = Inr pe"
| "do_sends c net lp (x # xs) pe =
     ebind (tw_event_new_user_prio c (to_gid x) (offset_ts x) lp (prio x) pe) (\<lambda>(e, pe).
     ebind (tw_event_send c net e (upd_ev e (\<lambda>v. v\<lparr>msg := content x\<rparr>) pe)) (do_sends c net lp xs))"

text \<open>The call of the model's forward handler.\<close>

definition run_event :: "('st, 'bf, 'm) config \<Rightarrow> ('st, 'bf, 'm, 'z) tw_pe_scheme net_ops \<Rightarrow> addr
    \<Rightarrow> ('st, 'bf, 'm, 'z) pe_step" where
  "run_event c net a pe =
     (let e = heap pe a; lp = dest_lp e;
          out = event_h c lp (tw_now_sig c lp pe) (cur_state (lps pe lp)) (cv e) (msg e);
          pe = upd_lp lp (\<lambda>l. l\<lparr>cur_state := o_state out\<rparr>) pe;
          pe = upd_ev a (\<lambda>v. v\<lparr>cv := o_bf out, msg := o_msg out\<rparr>) pe;
          pe = (case o_suspend out of None \<Rightarrow> pe | Some (rc, n) \<Rightarrow> tw_lp_suspend c lp rc n pe)
      in do_sends c net lp (o_sends out) pe)"

text \<open>
  The part of \<open>tw_sched_batch\<close> that processes the event just dequeued, up to the abort check.
\<close>

definition process_event :: "('st, 'bf, 'm) config \<Rightarrow> ('st, 'bf, 'm, 'z) tw_pe_scheme net_ops \<Rightarrow> addr
    \<Rightarrow> ('st, 'bf, 'm, 'z) pe_step" where
  "process_event c net a pe =
     (let lp = dest_lp (heap pe a); k = kp_of c lp;
          pe = pe\<lparr>cur_event := a\<rparr>;
          pe = set_last_sig k (tw_copy_event_sig (last_sig (kps pe k)) (qsig (heap pe a))) pe;
          pe = upd_ev a (\<lambda>v. v\<lparr>cv := bf0 c\<rparr>) pe
      in if \<not> has_revent c lp then Inl (Tw_Error ''Reverse Computation must be implemented!'')
      else ebind
          (if \<not> suspend_flag (lps pe lp) then
             (let prev_cp = lp_critical_path (lps pe lp);
                  pe = upd_lp lp (\<lambda>l. l\<lparr>lp_critical_path := max prev_cp (critical_path (heap pe a)) + 1\<rparr>) pe
              in ebind (run_event c net a pe) (\<lambda>pe.
                   Inr (upd_ev a (\<lambda>v. v\<lparr>critical_path := prev_cp\<rparr>) pe)))
           else Inr pe)
          (\<lambda>pe. Inr (upd_kp k (\<lambda>kp. kp\<lparr>s_nevent_processed := s_nevent_processed kp + 1\<rparr>) pe)))"

text \<open>
  The end of a round: an event whose sends ran out of buffers is undone at once and put back
  (the value \<open>False\<close> leaves the batch), any other goes to the head of the processed queue.
\<close>

definition finish_event :: "('st, 'bf, 'm) config \<Rightarrow> ('st, 'bf, 'm, 'z) tw_pe_scheme net_ops \<Rightarrow> addr
    \<Rightarrow> ('st, 'bf, 'm, 'z) tw_pe_scheme \<Rightarrow> ross_error + (bool \<times> ('st, 'bf, 'm, 'z) tw_pe_scheme)" where
  "finish_event c net a pe =
     (let k = kp_of c (dest_lp (heap pe a)) in
      if cev_abort pe then
        let pe = pe\<lparr>cev_abort := False\<rparr> in
        ebind (tw_event_rollback c net a pe) (\<lambda>pe.
        ebind (pq_enqueue a pe) (\<lambda>pe.
          let s = (case pevent_q (kps pe k) of [] \<Rightarrow> GVT_sig pe | _ \<Rightarrow> qsig (heap pe (last (pevent_q (kps pe k)))));
              pe = set_last_sig k (tw_copy_event_sig (last_sig (kps pe k)) s) pe
          in Inr (False, tw_gvt_force_update c pe)))
      else
        let pe = upd_ev a (\<lambda>v. v\<lparr>qowner := TW_kp_pevent_q\<rparr>) pe
        in Inr (True, upd_kp k (\<lambda>kp. kp\<lparr>pevent_q := a # pevent_q kp\<rparr>) pe))"

text \<open>\<open>max_alloc_fail_count\<close>\<close>

definition max_alloc_fail_count :: nat where
  "max_alloc_fail_count = 20"

text \<open>One round of \<open>tw_sched_batch\<close>; \<open>False\<close> leaves the loop.\<close>

definition sched_round :: "('st, 'bf, 'm) config \<Rightarrow> ('st, 'bf, 'm, 'z) tw_pe_scheme net_ops
    \<Rightarrow> ('st, 'bf, 'm, 'z) tw_pe_scheme \<Rightarrow> ross_error + (bool \<times> ('st, 'bf, 'm, 'z) tw_pe_scheme)" where
  "sched_round c net me =
     (if length (free_q me) \<le> gvt_threshold c then
        let me = me\<lparr>no_free_event_buffers := no_free_event_buffers me + 1\<rparr> in
        if no_free_event_buffers me > 10 \<and> no_free_event_buffers me \<ge> max_alloc_fail_count
        then Inl (Tw_Error ''Event allocation failed consecutive times.  Exiting.'')
        else Inr (False, tw_gvt_force_update c me)
      else
        let me = me\<lparr>no_free_event_buffers := 0\<rparr> in
        if has_hook c \<and> (hook_status (hook_trigger me) = GVT_HOOK_STATUS_timestamp
             \<or> hook_status (hook_trigger me) = GVT_HOOK_STATUS_model_call)
           \<and> tw_event_sig_compare_ptr (sig_at (hook_trigger me)) (tw_pq_minimum_sig_ptr (heap me) (pq me)) \<le> 0
        then Inr (False, tw_gvt_force_update c me)
        else
          ebind (pq_dequeue me) (\<lambda>(r, me).
            case r of
              None \<Rightarrow> Inr (False, me)
            | Some a \<Rightarrow> ebind (process_event c net a me) (finish_event c net a)))"

fun batch_loop :: "nat \<Rightarrow> ('st, 'bf, 'm) config \<Rightarrow> ('st, 'bf, 'm, 'z) tw_pe_scheme net_ops
    \<Rightarrow> ('st, 'bf, 'm, 'z) pe_step" where
  "batch_loop 0 c net me = Inr me"
| "batch_loop (Suc n) c net me =
     ebind (sched_round c net me) (\<lambda>(go, me). if go then batch_loop n c net me else Inr me)"

definition tw_sched_batch :: "('st, 'bf, 'm) config \<Rightarrow> ('st, 'bf, 'm, 'z) tw_pe_scheme net_ops
    \<Rightarrow> ('st, 'bf, 'm, 'z) pe_step" where
  "tw_sched_batch c net me = batch_loop (mblock c) c net me"

end
