(* ===== verification/Tw_Lemmas.thy ===== *)
theory Tw_Lemmas
  imports Time_Warp
begin

text \<open>
  What the elementary operations of a processing element read and write, the effect of the
  tie-breaker streams, and the invariant that ties the \<open>owner\<close> field of an event to the queue
  that holds it.
\<close>

section \<open>Projections\<close>

named_theorems pe_simps

lemma upd_ev_sel [pe_simps]:
  "heap (upd_ev a f pe) = (heap pe)(a := f (heap pe a))"
  "lps (upd_ev a f pe) = lps pe" "kps (upd_ev a f pe) = kps pe"
  "event_q (upd_ev a f pe) = event_q pe" "cancel_q (upd_ev a f pe) = cancel_q pe"
  "pq (upd_ev a f pe) = pq pe" "free_q (upd_ev a f pe) = free_q pe"
  "cur_event (upd_ev a f pe) = cur_event pe" "cev_abort (upd_ev a f pe) = cev_abort pe"
  "gvt_status (upd_ev a f pe) = gvt_status pe" "trans_msg_sig (upd_ev a f pe) = trans_msg_sig pe"
  "GVT_sig (upd_ev a f pe) = GVT_sig pe" "seq_num (upd_ev a f pe) = seq_num pe"
  "min_detected_offset (upd_ev a f pe) = min_detected_offset pe"
  "hook_trigger (upd_ev a f pe) = hook_trigger pe"
  by (simp_all add: upd_ev_def)

lemma upd_lp_sel [pe_simps]:
  "heap (upd_lp i g pe) = heap pe"
  "lps (upd_lp i g pe) = (lps pe)(i := g (lps pe i))" "kps (upd_lp i g pe) = kps pe"
  "event_q (upd_lp i g pe) = event_q pe" "cancel_q (upd_lp i g pe) = cancel_q pe"
  "pq (upd_lp i g pe) = pq pe" "free_q (upd_lp i g pe) = free_q pe"
  "cur_event (upd_lp i g pe) = cur_event pe" "cev_abort (upd_lp i g pe) = cev_abort pe"
  "gvt_status (upd_lp i g pe) = gvt_status pe" "trans_msg_sig (upd_lp i g pe) = trans_msg_sig pe"
  "GVT_sig (upd_lp i g pe) = GVT_sig pe" "seq_num (upd_lp i g pe) = seq_num pe"
  "min_detected_offset (upd_lp i g pe) = min_detected_offset pe"
  "hook_trigger (upd_lp i g pe) = hook_trigger pe"
  by (simp_all add: upd_lp_def)

lemma upd_kp_sel [pe_simps]:
  "heap (upd_kp k h pe) = heap pe" "lps (upd_kp k h pe) = lps pe"
  "kps (upd_kp k h pe) = (kps pe)(k := h (kps pe k))"
  "event_q (upd_kp k h pe) = event_q pe" "cancel_q (upd_kp k h pe) = cancel_q pe"
  "pq (upd_kp k h pe) = pq pe" "free_q (upd_kp k h pe) = free_q pe"
  "cur_event (upd_kp k h pe) = cur_event pe" "cev_abort (upd_kp k h pe) = cev_abort pe"
  "gvt_status (upd_kp k h pe) = gvt_status pe" "trans_msg_sig (upd_kp k h pe) = trans_msg_sig pe"
  "GVT_sig (upd_kp k h pe) = GVT_sig pe" "seq_num (upd_kp k h pe) = seq_num pe"
  "min_detected_offset (upd_kp k h pe) = min_detected_offset pe"
  "hook_trigger (upd_kp k h pe) = hook_trigger pe"
  by (simp_all add: upd_kp_def)

lemma set_last_sig_sel [pe_simps]:
  "heap (set_last_sig k s pe) = heap pe" "lps (set_last_sig k s pe) = lps pe"
  "kps (set_last_sig k s pe) = (kps pe)(k := (kps pe k)\<lparr>last_sig := s\<rparr>)"
  "event_q (set_last_sig k s pe) = event_q pe" "cancel_q (set_last_sig k s pe) = cancel_q pe"
  "pq (set_last_sig k s pe) = pq pe" "free_q (set_last_sig k s pe) = free_q pe"
  "cur_event (set_last_sig k s pe) = cur_event pe" "cev_abort (set_last_sig k s pe) = cev_abort pe"
  "gvt_status (set_last_sig k s pe) = gvt_status pe" "GVT_sig (set_last_sig k s pe) = GVT_sig pe"
  "seq_num (set_last_sig k s pe) = seq_num pe"
  by (simp_all add: set_last_sig_def pe_simps)

text \<open>The parts of the state that sending and cancelling leave alone.\<close>

lemma note_transient_sel [pe_simps]:
  "heap (note_transient s pe) = heap pe" "lps (note_transient s pe) = lps pe"
  "kps (note_transient s pe) = kps pe" "event_q (note_transient s pe) = event_q pe"
  "cancel_q (note_transient s pe) = cancel_q pe" "pq (note_transient s pe) = pq pe"
  "free_q (note_transient s pe) = free_q pe" "cur_event (note_transient s pe) = cur_event pe"
  "cev_abort (note_transient s pe) = cev_abort pe" "gvt_status (note_transient s pe) = gvt_status pe"
  "GVT_sig (note_transient s pe) = GVT_sig pe" "seq_num (note_transient s pe) = seq_num pe"
  by (simp_all add: note_transient_def)

lemma tw_event_free_sel [pe_simps]:
  "heap (tw_event_free a pe) = (heap pe)(a := (heap pe a)\<lparr>out_msgs := [], qowner := TW_pe_free_q\<rparr>)"
  "lps (tw_event_free a pe) = lps pe" "kps (tw_event_free a pe) = kps pe"
  "event_q (tw_event_free a pe) = event_q pe" "cancel_q (tw_event_free a pe) = cancel_q pe"
  "pq (tw_event_free a pe) = pq pe" "free_q (tw_event_free a pe) = a # free_q pe"
  "cur_event (tw_event_free a pe) = cur_event pe" "cev_abort (tw_event_free a pe) = cev_abort pe"
  "gvt_status (tw_event_free a pe) = gvt_status pe" "GVT_sig (tw_event_free a pe) = GVT_sig pe"
  "seq_num (tw_event_free a pe) = seq_num pe"
  by (simp_all add: tw_event_free_def tw_free_output_messages_def pe_simps Let_def)

lemma tw_free_output_messages_sel [pe_simps]:
  "heap (tw_free_output_messages a b pe) = (heap pe)(a := (heap pe a)\<lparr>out_msgs := []\<rparr>)"
  "lps (tw_free_output_messages a b pe) = lps pe" "kps (tw_free_output_messages a b pe) = kps pe"
  "event_q (tw_free_output_messages a b pe) = event_q pe"
  "cancel_q (tw_free_output_messages a b pe) = cancel_q pe"
  "pq (tw_free_output_messages a b pe) = pq pe" "free_q (tw_free_output_messages a b pe) = free_q pe"
  "cur_event (tw_free_output_messages a b pe) = cur_event pe"
  "cev_abort (tw_free_output_messages a b pe) = cev_abort pe"
  "gvt_status (tw_free_output_messages a b pe) = gvt_status pe"
  "GVT_sig (tw_free_output_messages a b pe) = GVT_sig pe"
  "seq_num (tw_free_output_messages a b pe) = seq_num pe"
  by (simp_all add: tw_free_output_messages_def pe_simps Let_def)

lemma local_cancel_sel [pe_simps]:
  "heap (local_cancel a pe) = (heap pe)(a := (heap pe a)\<lparr>st_cancel_q := True\<rparr>)"
  "lps (local_cancel a pe) = lps pe" "kps (local_cancel a pe) = kps pe"
  "event_q (local_cancel a pe) = event_q pe" "cancel_q (local_cancel a pe) = a # cancel_q pe"
  "pq (local_cancel a pe) = pq pe" "free_q (local_cancel a pe) = free_q pe"
  "cur_event (local_cancel a pe) = cur_event pe" "cev_abort (local_cancel a pe) = cev_abort pe"
  "gvt_status (local_cancel a pe) = gvt_status pe" "GVT_sig (local_cancel a pe) = GVT_sig pe"
  "seq_num (local_cancel a pe) = seq_num pe"
  by (simp_all add: local_cancel_def pe_simps Let_def)

section \<open>Tie-breaker streams\<close>

definition core_fwd :: "tw_rng_stream \<Rightarrow> tw_rng_stream" where
  "core_fwd g = g\<lparr>st_count := st_count g + 1, Cg := map (\<lambda>j. a_of j * Cg g ! j mod m_of j) [0..<4]\<rparr>"

definition core_back :: "tw_rng_stream \<Rightarrow> tw_rng_stream" where
  "core_back g = g\<lparr>st_count := st_count g - 1, Cg := map (\<lambda>j. b_of j * Cg g ! j mod m_of j) [0..<4]\<rparr>"

definition good_rng :: "tw_rng \<Rightarrow> bool" where
  "good_rng r \<longleftrightarrow> rng_b r = map b_of [0..<4] \<and> rng_m r = rng_m_consts"

lemma rng_init_good: "rng_init sd v w = Some r \<Longrightarrow> good_rng r"
  by (auto simp: rng_init_value good_rng_def)

lemma valid_streamD: "valid_stream g \<Longrightarrow> j \<in> set [0..<4] \<Longrightarrow> 0 < Cg g ! j \<and> Cg g ! j < m_of j"
  by (auto simp: valid_stream_def wf_seed_def)

lemma valid_core_fwd [simp]: "valid_stream g \<Longrightarrow> valid_stream (core_fwd g)"
  using mult_inv_nonzero[OF good_consts(4)] valid_streamD good_m_mod good_consts(1)
  by (subst valid_stream_def) (auto simp: core_fwd_def intro!: wf_seed_mapI)

lemma ab_comm: "j \<in> set [0..<4] \<Longrightarrow> b_of j * a_of j mod m_of j = 1"
  using good_consts(4)[of j] by (simp add: mult.commute)

lemma valid_core_back [simp]: "valid_stream g \<Longrightarrow> valid_stream (core_back g)"
  using mult_inv_nonzero[OF ab_comm] valid_streamD good_m_mod good_consts(1)
  by (subst valid_stream_def) (auto simp: core_back_def intro!: wf_seed_mapI)

lemma core_back_fwd [simp]: "valid_stream g \<Longrightarrow> core_back (core_fwd g) = g"
proof -
  assume v: "valid_stream g"
  have "map (\<lambda>j. b_of j * Cg (core_fwd g) ! j mod m_of j) [0..<4] = map (\<lambda>j. Cg g ! j) [0..<4]"
  proof (intro map_cong refl)
    fix j :: nat assume j: "j \<in> set [0..<4]"
    have "b_of j * (a_of j * Cg g ! j mod m_of j) mod m_of j
        = (b_of j * a_of j mod m_of j) * Cg g ! j mod m_of j"
      by (simp add: mod_mult_right_eq mod_mult_left_eq ac_simps)
    then show "b_of j * Cg (core_fwd g) ! j mod m_of j = Cg g ! j"
      using j ab_comm[OF j] valid_streamD[OF v j] by (simp add: core_fwd_def mod_pos_pos_trivial)
  qed
  also have "\<dots> = Cg g" using v by (simp add: valid_stream_def wf_seed_map)
  finally show ?thesis by (simp add: core_back_def core_fwd_def)
qed

lemma valid_core_backs [simp]: "valid_stream g \<Longrightarrow> valid_stream ((core_back ^^ n) g)"
  by (induction n) auto

lemma valid_core_fwds [simp]: "valid_stream g \<Longrightarrow> valid_stream ((core_fwd ^^ n) g)"
  by (induction n) auto

lemma core_backs_fwds [simp]: "valid_stream g \<Longrightarrow> (core_back ^^ n) ((core_fwd ^^ n) g) = g"
proof (induction n)
  case (Suc n)
  have "(core_back ^^ Suc n) ((core_fwd ^^ Suc n) g) = (core_back ^^ n) (core_back (core_fwd ((core_fwd ^^ n) g)))"
    by (simp add: funpow_swap1)
  with Suc show ?case by simp
qed simp

lemma core_unif_eq:
  assumes "valid_stream (core_rng (lps pe lp))"
  shows "\<exists>u. core_unif lp pe = Inr (u, upd_lp lp (\<lambda>l. l\<lparr>core_rng := core_fwd (core_rng l)\<rparr>) pe)"
  using rng_gen_val_value[OF assms] by (auto simp: core_unif_def core_fwd_def upd_lp_def)

lemma core_reverse_unif_eq:
  assumes "good_rng (the_rng c)" "valid_stream (core_rng (lps pe lp))"
  shows "core_reverse_unif c lp pe = Inr (upd_lp lp (\<lambda>l. l\<lparr>core_rng := core_back (core_rng l)\<rparr>) pe)"
  using rng_reverse_value[of "the_rng c" "core_rng (lps pe lp)"] assms
  by (auto simp: core_reverse_unif_def core_back_def good_rng_def upd_lp_def)

end
