(* ===== verification/Rollback.thy ===== *)
theory Rollback
  imports Tw_Lemmas
begin

text \<open>
  The invariant that ties the owner field of an event to the queue that holds it, and what
  \<open>event_cancel\<close> and \<open>tw_event_rollback\<close> (\<open>core/tw-event.c\<close>) do under it.
\<close>

section \<open>The owner of an event\<close>

definition live_owner :: "tw_event_owner \<Rightarrow> bool" where
  "live_owner w \<longleftrightarrow> w = TW_pe_pq \<or> w = TW_pe_event_q \<or> w = TW_kp_pevent_q"

text \<open>
  Of the event buffers \<open>U\<close>, those in the free list, in the arrival queue, in the pending
  queue and in the processed queue of each KP are exactly those whose \<open>owner\<close> field says so,
  each once; the pending queue is well formed; and no two live events agree in everything the
  order looks at. The queues are arguments because a loop may hold one of them in a local
  variable.
\<close>

definition owned :: "('st, 'bf, 'm) config \<Rightarrow> addr set \<Rightarrow> (addr \<Rightarrow> ('bf, 'm) pevent) \<Rightarrow> addr list
    \<Rightarrow> addr list \<Rightarrow> addr splay_tree \<Rightarrow> (nat \<Rightarrow> addr list) \<Rightarrow> bool" where
  "owned c U hp fq eq q pk \<longleftrightarrow>
     finite U \<and> card U < 2 ^ 32 - 1 \<and>
     distinct fq \<and> distinct eq \<and> (\<forall>k. distinct (pk k)) \<and> pq_inv (key_at hp) (wf_at hp) q \<and>
     set fq = {a \<in> U. qowner (hp a) = TW_pe_free_q} \<and>
     set eq = {a \<in> U. qowner (hp a) = TW_pe_event_q} \<and>
     set (contents q) = {a \<in> U. qowner (hp a) = TW_pe_pq} \<and>
     (\<forall>k. set (pk k) = {a \<in> U. qowner (hp a) = TW_kp_pevent_q \<and> kp_of c (dest_lp (hp a)) = k}) \<and>
     (\<forall>a \<in> U. wf_sig (qsig (hp a))) \<and>
     inj_on (key_at hp) {a \<in> U. live_owner (qowner (hp a))}"

lemma ownedD:
  assumes "owned c U hp fq eq q pk"
  shows "finite U" "distinct fq" "distinct eq" "set fq = {a \<in> U. qowner (hp a) = TW_pe_free_q}"
    "set eq = {a \<in> U. qowner (hp a) = TW_pe_event_q}" "set (contents q) = {a \<in> U. qowner (hp a) = TW_pe_pq}"
    "set (pk k) = {a \<in> U. qowner (hp a) = TW_kp_pevent_q \<and> kp_of c (dest_lp (hp a)) = k}" "distinct (pk k)"
    "b \<in> U \<Longrightarrow> wf_sig (qsig (hp b))" "inj_on (key_at hp) {a \<in> U. live_owner (qowner (hp a))}"
  using assms unfolding owned_def by metis+

lemma key_at_cong: "(\<And>b. rand_key (hp' b) = rand_key (hp b)) \<Longrightarrow> key_at hp' = key_at hp"
  by (rule ext) (simp add: key_at_def)

lemma wf_at_cong: "(\<And>b. qsig (hp' b) = qsig (hp b)) \<Longrightarrow> wf_at hp' = wf_at hp"
  by (rule ext) (simp add: wf_at_def)

lemma rand_key_upd [simp]:
  "rand_key (e\<lparr>qowner := w\<rparr>) = rand_key e" "rand_key (e\<lparr>out_msgs := ms\<rparr>) = rand_key e"
  "rand_key (e\<lparr>st_cancel_q := b\<rparr>) = rand_key e" "rand_key (e\<lparr>caused_by_me := es\<rparr>) = rand_key e"
  "rand_key (e\<lparr>aborted_total := n\<rparr>) = rand_key e" "rand_key (e\<lparr>critical_path := cp\<rparr>) = rand_key e"
  for e :: "'z tw_event_scheme"
  by (simp_all add: rand_key_def)

lemma rand_key_upd' [simp]:
  "rand_key (e\<lparr>cv := b\<rparr>) = rand_key e" "rand_key (e\<lparr>msg := m\<rparr>) = rand_key e"
  by (simp_all add: rand_key_def)

lemma owned_cong:
  assumes "\<And>b. rand_key (hp' b) = rand_key (hp b)" "\<And>b. qsig (hp' b) = qsig (hp b)"
    "\<And>b. qowner (hp' b) = qowner (hp b)" "\<And>b. dest_lp (hp' b) = dest_lp (hp b)"
  shows "owned c U hp' fq eq q pk = owned c U hp fq eq q pk"
  unfolding owned_def key_at_cong[OF assms(1)] wf_at_cong[OF assms(2)] assms(2-4) ..

lemma owned_length: "owned c U hp fq eq q pk \<Longrightarrow> length (contents q) \<le> card U"
proof -
  assume o: "owned c U hp fq eq q pk"
  then have "distinct (contents q)"
    using key_sorted_distinct distinct_map by (fastforce simp: owned_def pq_inv_def)
  then have "length (contents q) = card (set (contents q))" by (simp add: distinct_card)
  also have "\<dots> \<le> card U" using o by (intro card_mono) (auto simp: owned_def)
  finally show ?thesis .
qed

text \<open>An event outside the pending queue whose key no event in it has can be put in.\<close>

lemma enqueue_any:
  assumes o: "owned c U hp fq eq q pk" and a: "a \<in> U" "qowner (hp a) \<noteq> TW_pe_pq" "key_at hp a \<notin> key_at hp ` set (contents q)"
  shows "\<exists>q'. tw_pq_enqueue (lt_rand (hp(a := (hp a)\<lparr>qowner := TW_pe_pq\<rparr>))) q a = Inr q' \<and>
    pq_inv (key_at hp) (wf_at hp) q' \<and> contents q' = insort_key (key_at hp) a (contents q)"
proof -
  let ?hp = "hp(a := (hp a)\<lparr>qowner := TW_pe_pq\<rparr>)"
  have k: "key_at ?hp = key_at hp" "wf_at ?hp = wf_at hp"
    by (rule key_at_cong, simp) (rule wf_at_cong, simp)
  have "Suc (length (contents q)) < 2 ^ 32" using owned_length[OF o] o by (auto simp: owned_def)
  moreover have "wf_at hp a" using o a by (auto simp: owned_def wf_at_def)
  moreover have "pq_inv (key_at hp) (wf_at hp) q" using o by (simp add: owned_def)
  ultimately show ?thesis using pq.enqueue_Inr[of ?hp q a] a(3) by (simp add: k)
qed

lemma inj_on_live:
  assumes "owned c U hp fq eq q pk" "a \<in> U" "live_owner (qowner (hp a))" "qowner (hp a) \<noteq> TW_pe_pq"
  shows "key_at hp a \<notin> key_at hp ` set (contents q)"
proof
  assume "key_at hp a \<in> key_at hp ` set (contents q)"
  then obtain b where b: "b \<in> U" "qowner (hp b) = TW_pe_pq" "key_at hp a = key_at hp b"
    using assms(1) by (auto simp: owned_def)
  then have "a = b"
    using assms by (auto simp: owned_def live_owner_def dest: inj_onD)
  then show False using assms b by simp
qed

lemma owned_enqueue_pevent:
  assumes o: "owned c U hp fq eq q pk" and a: "pk k = a # es"
  shows "\<exists>q'. tw_pq_enqueue (lt_rand (hp(a := (hp a)\<lparr>qowner := TW_pe_pq\<rparr>))) q a = Inr q' \<and>
    contents q' = insort_key (key_at hp) a (contents q) \<and>
    owned c U (hp(a := (hp a)\<lparr>qowner := TW_pe_pq\<rparr>)) fq eq q' (pk(k := es))"
proof -
  let ?hp = "hp(a := (hp a)\<lparr>qowner := TW_pe_pq\<rparr>)"
  have k: "key_at ?hp = key_at hp" "wf_at ?hp = wf_at hp"
    by (rule key_at_cong, simp) (rule wf_at_cong, simp)
  have "a \<in> set (pk k)" using a by simp
  then have a': "a \<in> U" "qowner (hp a) = TW_kp_pevent_q" "kp_of c (dest_lp (hp a)) = k"
    using o by (auto simp: owned_def)
  obtain q' where q': "tw_pq_enqueue (lt_rand ?hp) q a = Inr q'"
    "pq_inv (key_at hp) (wf_at hp) q'" "contents q' = insort_key (key_at hp) a (contents q)"
    using enqueue_any[OF o a'(1)] inj_on_live[OF o a'(1)] a'(2) by (auto simp: live_owner_def)
  have d: "distinct (a # es)" "\<And>i. set (pk i) = {x \<in> U. qowner (hp x) = TW_kp_pevent_q \<and> kp_of c (dest_lp (hp x)) = i}"
    using o a unfolding owned_def by metis+
  have es: "set es = {x \<in> U. qowner (hp x) = TW_kp_pevent_q \<and> kp_of c (dest_lp (hp x)) = k} - {a}"
    using d(1) d(2)[of k] a by auto
  have live: "{x \<in> U. live_owner (qowner (?hp x))} = {x \<in> U. live_owner (qowner (hp x))}"
    using a' by (auto simp: live_owner_def)
  have "owned c U ?hp fq eq q' (pk(k := es))"
    unfolding owned_def k live
  proof (intro conjI allI)
    fix i
    show "distinct ((pk(k := es)) i)" using o d(1) by (simp add: owned_def)
    show "set ((pk(k := es)) i) = {x \<in> U. qowner (?hp x) = TW_kp_pevent_q \<and> kp_of c (dest_lp (?hp x)) = i}"
      using es a' d(2)[of i] by auto
  qed (use o a' q' in \<open>auto simp: owned_def set_insort_key\<close>)
  with q' show ?thesis by blast
qed

lemma owned_enqueue_event_q:
  assumes o: "owned c U hp fq (xs @ a # ys) q pk"
  shows "\<exists>q'. tw_pq_enqueue (lt_rand (hp(a := (hp a)\<lparr>qowner := TW_pe_pq\<rparr>))) q a = Inr q' \<and>
    contents q' = insort_key (key_at hp) a (contents q) \<and>
    owned c U (hp(a := (hp a)\<lparr>qowner := TW_pe_pq\<rparr>)) fq (xs @ ys) q' pk"
proof -
  let ?hp = "hp(a := (hp a)\<lparr>qowner := TW_pe_pq\<rparr>)"
  have k: "key_at ?hp = key_at hp" "wf_at ?hp = wf_at hp"
    by (rule key_at_cong, simp) (rule wf_at_cong, simp)
  have eq: "set (xs @ a # ys) = {x \<in> U. qowner (hp x) = TW_pe_event_q}" "distinct (xs @ a # ys)"
    using o by (simp_all only: owned_def)
  then have a': "a \<in> U" "qowner (hp a) = TW_pe_event_q" by auto
  obtain q' where q': "tw_pq_enqueue (lt_rand ?hp) q a = Inr q'"
    "pq_inv (key_at hp) (wf_at hp) q'" "contents q' = insort_key (key_at hp) a (contents q)"
    using enqueue_any[OF o a'(1)] inj_on_live[OF o a'(1)] a'(2) by (auto simp: live_owner_def)
  have live: "{x \<in> U. live_owner (qowner (?hp x))} = {x \<in> U. live_owner (qowner (hp x))}"
    using a' by (auto simp: live_owner_def)
  have "set (xs @ ys) = {x \<in> U. qowner (hp x) = TW_pe_event_q} - {a}" using eq by auto
  then have "set (xs @ ys) = {x \<in> U. qowner (?hp x) = TW_pe_event_q}" by auto
  moreover have "set (pk i) = {x \<in> U. qowner (?hp x) = TW_kp_pevent_q \<and> kp_of c (dest_lp (?hp x)) = i}" for i
  proof -
    have "set (pk i) = {x \<in> U. qowner (hp x) = TW_kp_pevent_q \<and> kp_of c (dest_lp (hp x)) = i}"
      using o unfolding owned_def by metis
    then show ?thesis using a' by auto
  qed
  ultimately have "owned c U ?hp fq (xs @ ys) q' pk"
    using o a' q' eq(2) unfolding owned_def k live
    by (auto simp: set_insort_key)
  with q' show ?thesis by blast
qed

lemma owned_enqueue_new:
  assumes o: "owned c U hp fq eq q pk" and a: "a \<in> U" "qowner (hp a) = No_owner"
    and key: "\<And>b. b \<in> U \<Longrightarrow> live_owner (qowner (hp b)) \<Longrightarrow> key_at hp b \<noteq> key_at hp a"
  shows "\<exists>q'. tw_pq_enqueue (lt_rand (hp(a := (hp a)\<lparr>qowner := TW_pe_pq\<rparr>))) q a = Inr q' \<and>
    contents q' = insort_key (key_at hp) a (contents q) \<and>
    owned c U (hp(a := (hp a)\<lparr>qowner := TW_pe_pq\<rparr>)) fq eq q' pk"
proof -
  let ?hp = "hp(a := (hp a)\<lparr>qowner := TW_pe_pq\<rparr>)"
  have k: "key_at ?hp = key_at hp" "wf_at ?hp = wf_at hp"
    by (rule key_at_cong, simp) (rule wf_at_cong, simp)
  have "key_at hp a \<notin> key_at hp ` set (contents q)"
  proof
    assume "key_at hp a \<in> key_at hp ` set (contents q)"
    then obtain b where "b \<in> U" "qowner (hp b) = TW_pe_pq" "key_at hp b = key_at hp a"
      using o by (auto simp: owned_def)
    then show False using key[of b] by (simp add: live_owner_def)
  qed
  then obtain q' where q': "tw_pq_enqueue (lt_rand ?hp) q a = Inr q'"
    "pq_inv (key_at hp) (wf_at hp) q'" "contents q' = insort_key (key_at hp) a (contents q)"
    using enqueue_any[OF o a(1)] a(2) by auto
  have live: "{x \<in> U. live_owner (qowner (?hp x))} = insert a {x \<in> U. live_owner (qowner (hp x))}"
    using a by (auto simp: live_owner_def)
  have inj: "inj_on (key_at hp) (insert a {x \<in> U. live_owner (qowner (hp x))})"
    unfolding inj_on_insert using o key by (force simp: owned_def)
  have "owned c U ?hp fq eq q' pk"
    unfolding owned_def k live
  proof (intro conjI allI)
    fix i
    show "set (pk i) = {x \<in> U. qowner (?hp x) = TW_kp_pevent_q \<and> kp_of c (dest_lp (?hp x)) = i}"
    proof -
      have "set (pk i) = {x \<in> U. qowner (hp x) = TW_kp_pevent_q \<and> kp_of c (dest_lp (hp x)) = i}"
        using o unfolding owned_def by metis
      then show ?thesis using a by auto
    qed
  qed (use o a q' inj in \<open>auto simp: owned_def set_insort_key\<close>)
  with q' show ?thesis by blast
qed

lemma owned_free_pq:
  assumes o: "owned c U hp fq eq q pk" and a: "a \<in> U" "qowner (hp a) = TW_pe_pq"
    and hp': "\<And>b. b \<noteq> a \<Longrightarrow> hp' b = hp b" "qowner (hp' a) = TW_pe_free_q" "qsig (hp' a) = qsig (hp a)"
      "rand_key (hp' a) = rand_key (hp a)"
  shows "\<exists>q'. tw_pq_delete_any q a = Inr q' \<and> contents q' = remove1 a (contents q) \<and>
    owned c U hp' (a # fq) eq q' pk"
proof -
  have k: "key_at hp' = key_at hp" "wf_at hp' = wf_at hp"
    by (rule key_at_cong, metis hp'(1,4)) (rule wf_at_cong, metis hp'(1,3))
  have "a \<in> set (contents q)" using o a by (auto simp: owned_def)
  then obtain q' where q': "tw_pq_delete_any q a = Inr q'" "pq_inv (key_at hp) (wf_at hp) q'"
    "contents q' = remove1 a (contents q)"
    using pq.delete_any_Inr[of hp q a] o by (auto simp: owned_def)
  have "distinct (contents q)"
    using o key_sorted_distinct distinct_map by (fastforce simp: owned_def pq_inv_def)
  then have sc: "set (contents q') = set (contents q) - {a}" using q'(3) by simp
  have ow: "qowner (hp' b) = (if b = a then TW_pe_free_q else qowner (hp b))" for b
    using hp' by auto
  have ow': "b \<noteq> a \<Longrightarrow> dest_lp (hp' b) = dest_lp (hp b)" for b using hp' by auto
  have qs: "qsig (hp' b) = qsig (hp b)" for b using hp' by (cases "b = a") auto
  have "owned c U hp' (a # fq) eq q' pk"
    unfolding owned_def k
  proof (intro conjI allI)
    fix i
    have "set (pk i) = {x \<in> U. qowner (hp x) = TW_kp_pevent_q \<and> kp_of c (dest_lp (hp x)) = i}"
      using o unfolding owned_def by metis
    then show "set (pk i) = {x \<in> U. qowner (hp' x) = TW_kp_pevent_q \<and> kp_of c (dest_lp (hp' x)) = i}"
      using a ow ow' by auto
    show "inj_on (key_at hp) {x \<in> U. live_owner (qowner (hp' x))}"
      using o by (rule_tac inj_on_subset[of _ "{x \<in> U. live_owner (qowner (hp x))}"])
        (auto simp: owned_def ow live_owner_def split: if_splits)
  qed (use o a q' sc in \<open>auto simp: owned_def ow qs\<close>)
  with q' show ?thesis by blast
qed

text \<open>A processed event, an arrived one and one that was only cancelled are freed likewise.\<close>

lemma owned_free_any:
  assumes o: "owned c U hp fq eq q pk" and a: "a \<in> U" "qowner (hp a) \<noteq> TW_pe_pq" "qowner (hp a) \<noteq> TW_pe_free_q"
    and hp': "\<And>b. b \<noteq> a \<Longrightarrow> hp' b = hp b" "qowner (hp' a) = TW_pe_free_q" "qsig (hp' a) = qsig (hp a)"
      "rand_key (hp' a) = rand_key (hp a)"
    and q': "\<And>k. distinct (pk' k)" "\<And>k. set (pk' k) = set (pk k) - {a}" "distinct eq'" "set eq' = set eq - {a}"
  shows "owned c U hp' (a # fq) eq' q pk'"
proof -
  have k: "key_at hp' = key_at hp" "wf_at hp' = wf_at hp"
    by (rule key_at_cong, metis hp'(1,4)) (rule wf_at_cong, metis hp'(1,3))
  have ow: "qowner (hp' b) = (if b = a then TW_pe_free_q else qowner (hp b))" for b
    using hp' by auto
  have ow': "b \<noteq> a \<Longrightarrow> dest_lp (hp' b) = dest_lp (hp b)" for b using hp' by auto
  have qs: "qsig (hp' b) = qsig (hp b)" for b using hp' by (cases "b = a") auto
  show ?thesis
    unfolding owned_def k
  proof (intro conjI allI)
    fix i
    have "set (pk i) = {x \<in> U. qowner (hp x) = TW_kp_pevent_q \<and> kp_of c (dest_lp (hp x)) = i}"
      using o unfolding owned_def by metis
    then show "set (pk' i) = {x \<in> U. qowner (hp' x) = TW_kp_pevent_q \<and> kp_of c (dest_lp (hp' x)) = i}"
      using a ow ow' q'(2)[of i] by auto
    show "distinct (pk' i)" by (rule q'(1))
    show "inj_on (key_at hp) {x \<in> U. live_owner (qowner (hp' x))}"
      using o by (rule_tac inj_on_subset[of _ "{x \<in> U. live_owner (qowner (hp x))}"])
        (auto simp: owned_def ow live_owner_def split: if_splits)
  qed (use o a q' in \<open>auto simp: owned_def ow qs\<close>)
qed

lemma owned_free_pevent:
  assumes o: "owned c U hp fq eq q pk" and a: "pk k = a # es"
    and hp': "\<And>b. b \<noteq> a \<Longrightarrow> hp' b = hp b" "qowner (hp' a) = TW_pe_free_q" "qsig (hp' a) = qsig (hp a)"
      "rand_key (hp' a) = rand_key (hp a)"
  shows "owned c U hp' (a # fq) eq q (pk(k := es))"
proof -
  have pk: "set (pk i) = {x \<in> U. qowner (hp x) = TW_kp_pevent_q \<and> kp_of c (dest_lp (hp x)) = i}" "distinct (pk i)" for i
    using o unfolding owned_def by metis+
  have a': "a \<in> U" "qowner (hp a) = TW_kp_pevent_q" "kp_of c (dest_lp (hp a)) = k"
    using pk(1)[of k] a by auto
  have i: "i \<noteq> k \<Longrightarrow> a \<notin> set (pk i)" for i using pk(1)[of i] a'(3) by auto
  have eq: "distinct eq" "a \<notin> set eq" using o a'(2) by (auto simp: owned_def)
  show ?thesis
    by (rule owned_free_any[OF o a'(1) _ _ hp']) (use a'(2) pk(2) pk(2)[of k] a i eq in auto)
qed

section \<open>Cancelling the events an event caused\<close>

definition good_streams :: "('st, 'bf, 'm, 'z) tw_pe_scheme \<Rightarrow> bool" where
  "good_streams pe \<longleftrightarrow> (\<forall>i. valid_stream (core_rng (lps pe i)))"

text \<open>
  What cancelling the events \<open>es\<close> does to an event: one that is pending goes to the free list,
  one that has arrived or was processed is marked.
\<close>

definition cancelled :: "('bf, 'm) pevent \<Rightarrow> ('bf, 'm) pevent" where
  "cancelled e = (if qowner e = TW_pe_pq then e\<lparr>out_msgs := [], qowner := TW_pe_free_q\<rparr>
     else e\<lparr>st_cancel_q := True\<rparr>)"

lemma cancelled_sel [simp]:
  "rand_key (cancelled e) = rand_key e" "qsig (cancelled e) = qsig e" "ev_recv_ts (cancelled e) = ev_recv_ts e" "dest_lp (cancelled e) = dest_lp e"
  "src_lp (cancelled e) = src_lp e" "caused_by_me (cancelled e) = caused_by_me e"
  "event_id (cancelled e) = event_id e" "send_pe (cancelled e) = send_pe e"
  "aborted_total (cancelled e) = aborted_total e" "cv (cancelled e) = cv e" "msg (cancelled e) = msg e"
  "critical_path (cancelled e) = critical_path e"
  "qowner (cancelled e) = (if qowner e = TW_pe_pq then TW_pe_free_q else qowner e)"
  by (simp_all add: cancelled_def)

text \<open>The cancellation of one event in a local queue.\<close>

lemma event_cancel_local:
  assumes o: "owned c U (heap pe) (free_q pe) eq (pq pe) pk"
    and a: "a \<in> U" "live_owner (qowner (heap pe a))"
  shows "\<exists>pe'. event_cancel net a pe = Inr pe' \<and>
    owned c U (heap pe') (free_q pe') eq (pq pe') pk \<and>
    heap pe' = (heap pe)(a := cancelled (heap pe a)) \<and>
    contents (pq pe') = remove1 a (contents (pq pe)) \<and>
    free_q pe' = (if qowner (heap pe a) = TW_pe_pq then a # free_q pe else free_q pe) \<and>
    cancel_q pe' = (if qowner (heap pe a) = TW_pe_pq then cancel_q pe else a # cancel_q pe) \<and>
    lps pe' = lps pe \<and> kps pe' = kps pe \<and> event_q pe' = event_q pe \<and> cur_event pe' = cur_event pe \<and>
    cev_abort pe' = cev_abort pe \<and> GVT_sig pe' = GVT_sig pe \<and> seq_num pe' = seq_num pe"
proof (cases "qowner (heap pe a) = TW_pe_pq")
  case True
  obtain q' where q': "tw_pq_delete_any (pq pe) a = Inr q'" "contents q' = remove1 a (contents (pq pe))"
    "owned c U ((heap pe)(a := cancelled (heap pe a))) (a # free_q pe) eq q' pk"
    using owned_free_pq[OF o a(1) True, of "(heap pe)(a := cancelled (heap pe a))"] True by auto
  have "heap pe' = (heap pe)(a := cancelled (heap pe a))"
    if "heap pe' = (heap pe)(a := (heap pe a)\<lparr>qowner := No_owner, out_msgs := [], qowner := TW_pe_free_q\<rparr>)" for pe' :: "('a, 'b, 'c, 'd) tw_pe_scheme"
    using that True by (simp add: cancelled_def)
  then show ?thesis
    using q' True by (simp add: event_cancel_def pq_delete_any_def pe_simps cancelled_def)
next
  case False
  then have pe: "event_cancel net a pe = Inr (note_transient (qsig (heap pe a)) (local_cancel a pe))"
    using a(2) by (auto simp: live_owner_def event_cancel_def pe_simps Let_def)
  have "owned c U ((heap pe)(a := cancelled (heap pe a))) (free_q pe) eq (pq pe) pk"
    using o by (subst owned_cong[where hp = "heap pe"]) (auto simp: False)
  moreover have "a \<notin> set (contents (pq pe))" using o a False by (auto simp: owned_def)
  ultimately show ?thesis unfolding pe
    using False by (simp add: pe_simps cancelled_def remove1_idem)
qed

lemma filter_remove1: "distinct xs \<Longrightarrow> filter (\<lambda>x. x \<notin> A) (remove1 a xs) = filter (\<lambda>x. x \<notin> insert a A) xs"
  by (induction xs) (auto simp: filter_id_conv intro!: filter_cong)

text \<open>
  The effect of cancelling a list of events: the pending ones are freed, the others marked and
  put on the cancel queue, and the stream of the sender goes back one step for each.
\<close>

lemma cancel_children_ok:
  assumes "good_rng (the_rng c)" "good_streams pe" "owned c U (heap pe) (free_q pe) eq (pq pe) pk"
    "distinct es" "\<forall>e \<in> set es. e \<in> U \<and> live_owner (qowner (heap pe e)) \<and> src_lp (heap pe e) = i"
  shows "\<exists>pe'. cancel_children c net es pe = Inr pe' \<and> good_streams pe' \<and>
    owned c U (heap pe') (free_q pe') eq (pq pe') pk \<and>
    heap pe' = (\<lambda>b. if b \<in> set es then cancelled (heap pe b) else heap pe b) \<and>
    contents (pq pe') = filter (\<lambda>b. b \<notin> set es) (contents (pq pe)) \<and>
    free_q pe' = rev (filter (\<lambda>b. qowner (heap pe b) = TW_pe_pq) es) @ free_q pe \<and>
    cancel_q pe' = rev (filter (\<lambda>b. qowner (heap pe b) \<noteq> TW_pe_pq) es) @ cancel_q pe \<and>
    lps pe' = (lps pe)(i := (lps pe i)\<lparr>core_rng := (core_back ^^ length es) (core_rng (lps pe i))\<rparr>) \<and>
    kps pe' = kps pe \<and> event_q pe' = event_q pe \<and> cur_event pe' = cur_event pe \<and>
    cev_abort pe' = cev_abort pe \<and> GVT_sig pe' = GVT_sig pe \<and> seq_num pe' = seq_num pe"
  using assms
proof (induction es arbitrary: pe)
  case Nil
  then show ?case by simp
next
  case (Cons e es)
  let ?pe1 = "upd_lp i (\<lambda>l. l\<lparr>core_rng := core_back (core_rng l)\<rparr>) pe"
  have g1: "good_streams ?pe1"
    using Cons.prems(2) by (auto simp: good_streams_def pe_simps)
  have rev: "core_reverse_unif c (src_lp (heap pe e)) pe = Inr ?pe1"
    using Cons.prems by (simp add: core_reverse_unif_eq good_streams_def)
  have "owned c U (heap ?pe1) (free_q ?pe1) eq (pq ?pe1) pk"
    using Cons.prems by (simp add: pe_simps)
  from event_cancel_local[OF this, of e net, unfolded upd_lp_sel] Cons.prems(5)
  obtain pe2 where p2: "event_cancel net e ?pe1 = Inr pe2"
    "owned c U (heap pe2) (free_q pe2) eq (pq pe2) pk"
    "heap pe2 = (heap pe)(e := cancelled (heap pe e))"
    "contents (pq pe2) = remove1 e (contents (pq pe))"
    "free_q pe2 = (if qowner (heap pe e) = TW_pe_pq then e # free_q pe else free_q pe)"
    "cancel_q pe2 = (if qowner (heap pe e) = TW_pe_pq then cancel_q pe else e # cancel_q pe)"
    "lps pe2 = (lps pe)(i := (lps pe i)\<lparr>core_rng := core_back (core_rng (lps pe i))\<rparr>)" "kps pe2 = kps pe" "event_q pe2 = event_q pe" "cur_event pe2 = cur_event pe"
    "cev_abort pe2 = cev_abort pe" "GVT_sig pe2 = GVT_sig pe" "seq_num pe2 = seq_num pe"
    by auto
  have g2: "good_streams pe2" using g1 p2(7) by (simp add: good_streams_def pe_simps)
  have es: "\<forall>x \<in> set es. x \<in> U \<and> live_owner (qowner (heap pe2 x)) \<and> src_lp (heap pe2 x) = i"
    "\<And>b. b \<in> set es \<Longrightarrow> heap pe2 b = heap pe b"
    using Cons.prems(4,5) p2(3) by auto
  have d: "distinct (contents (pq pe))"
    using Cons.prems(3) key_sorted_distinct distinct_map by (fastforce simp: owned_def pq_inv_def)
  have de: "distinct es" using Cons.prems(4) by simp
  obtain pe3 where p3: "cancel_children c net es pe2 = Inr pe3" "good_streams pe3"
    "owned c U (heap pe3) (free_q pe3) eq (pq pe3) pk"
    "heap pe3 = (\<lambda>b. if b \<in> set es then cancelled (heap pe2 b) else heap pe2 b)"
    "contents (pq pe3) = filter (\<lambda>b. b \<notin> set es) (contents (pq pe2))"
    "free_q pe3 = rev (filter (\<lambda>b. qowner (heap pe2 b) = TW_pe_pq) es) @ free_q pe2"
    "cancel_q pe3 = rev (filter (\<lambda>b. qowner (heap pe2 b) \<noteq> TW_pe_pq) es) @ cancel_q pe2"
    "lps pe3 = (lps pe2)(i := (lps pe2 i)\<lparr>core_rng := (core_back ^^ length es) (core_rng (lps pe2 i))\<rparr>)"
    "kps pe3 = kps pe2" "event_q pe3 = event_q pe2" "cur_event pe3 = cur_event pe2"
    "cev_abort pe3 = cev_abort pe2" "GVT_sig pe3 = GVT_sig pe2" "seq_num pe3 = seq_num pe2"
    using Cons.IH[OF Cons.prems(1) g2 p2(2) de es(1)] by blast
  have h: "heap pe3 = (\<lambda>b. if b \<in> set (e # es) then cancelled (heap pe b) else heap pe b)"
    using p3(4) p2(3) Cons.prems(4) by (auto simp: fun_eq_iff)
  have q: "contents (pq pe3) = filter (\<lambda>b. b \<notin> set (e # es)) (contents (pq pe))"
    using p3(5) p2(4) filter_remove1[OF d] by simp
  have f: "filter (\<lambda>b. P (qowner (heap pe2 b))) es = filter (\<lambda>b. P (qowner (heap pe b))) es" for P
    using es(2) by (intro filter_cong) auto
  have fq: "free_q pe3 = rev (filter (\<lambda>b. qowner (heap pe b) = TW_pe_pq) (e # es)) @ free_q pe"
    using p3(6) p2(5) unfolding f[of "\<lambda>w. w = TW_pe_pq"] by simp
  have cq: "cancel_q pe3 = rev (filter (\<lambda>b. qowner (heap pe b) \<noteq> TW_pe_pq) (e # es)) @ cancel_q pe"
    using p3(7) p2(6) unfolding f[of "\<lambda>w. w \<noteq> TW_pe_pq"] by simp
  have l: "lps pe3 = (lps pe)(i := (lps pe i)\<lparr>core_rng := (core_back ^^ length (e # es)) (core_rng (lps pe i))\<rparr>)"
    using p3(8) p2(7) by (simp add: pe_simps funpow_swap1)
  have run: "cancel_children c net (e # es) pe = Inr pe3" using rev p2(1) p3(1) by simp
  have rest: "kps pe3 = kps pe" "event_q pe3 = event_q pe" "cur_event pe3 = cur_event pe"
    "cev_abort pe3 = cev_abort pe" "GVT_sig pe3 = GVT_sig pe" "seq_num pe3 = seq_num pe"
    using p3(9-14) p2(8-13) by simp_all
  show ?case by (rule exI[of _ pe3]) (intro conjI run p3(2,3) h q fq cq l rest)
qed

section \<open>The effect of rolling back an event\<close>

text \<open>What the reverse handler, or its omission in a suspended LP, makes of the LP and the event.\<close>

definition reverse_view :: "('st, 'bf, 'm) config \<Rightarrow> ('bf, 'm) pevent \<Rightarrow> 'st tw_lp \<Rightarrow> 'st tw_lp \<times> 'bf \<times> 'm" where
  "reverse_view c e l =
     (case revent_h c (dest_lp e) (qsig e) (cur_state l) (cv e) (msg e) of
        (s, bf, m) \<Rightarrow> (l\<lparr>cur_state := s, lp_critical_path := critical_path e\<rparr>, bf, m))"

definition rollback_view :: "('st, 'bf, 'm) config \<Rightarrow> addr \<Rightarrow> ('bf, 'm) pevent \<Rightarrow> 'st tw_lp \<Rightarrow> 'st tw_lp \<times> 'bf \<times> 'm" where
  "rollback_view c a e l =
     (if suspend_flag l \<and> suspend_event l = Some a \<and> tw_event_sig_compare_ptr (suspend_sig l) (qsig e) = 0
      then
        let l' = l\<lparr>suspend_flag := False, suspend_event := None,
            suspend_sig := (suspend_sig l)\<lparr>recv_ts := 0, priority := 0, tie_lineage_length := 0\<rparr>,
            suspend_error_number := 0\<rparr>
        in if suspend_do_orig_event_rc l = 0 then (l', cv e, msg e)
           else reverse_view c e (l'\<lparr>suspend_do_orig_event_rc := 0\<rparr>)
      else if suspend_flag l then (l, cv e, msg e)
      else reverse_view c e l)"

lemma reverse_view_out [simp]: "reverse_view c (e\<lparr>out_msgs := ms\<rparr>) l = reverse_view c e l"
  by (simp add: reverse_view_def)

lemma rollback_view_out [simp]: "rollback_view c a (e\<lparr>out_msgs := ms\<rparr>) l = rollback_view c a e l"
  by (simp add: rollback_view_def Let_def)

lemma rollback_view_active: "\<not> suspend_flag l \<Longrightarrow> rollback_view c a e l = reverse_view c e l"
  by (simp add: rollback_view_def)

lemma reverse_view_rng: "reverse_view c e l = (l', bf, m) \<Longrightarrow> core_rng l' = core_rng l"
  by (auto simp: reverse_view_def split: prod.splits)

lemma rollback_view_rng: "rollback_view c a e l = (l', bf, m) \<Longrightarrow> core_rng l' = core_rng l"
  by (auto simp: rollback_view_def Let_def dest!: reverse_view_rng split: if_splits)

lemma pevent_self [simp]: "(e :: ('bf, 'm) pevent)\<lparr>cv := cv e, msg := msg e\<rparr> = e"
  by simp

lemma run_revent_eq:
  assumes "last_sig (kps pe (kp_of c (dest_lp (heap pe a)))) = qsig (heap pe a)"
    "reverse_view c (heap pe a) (lps pe (dest_lp (heap pe a))) = (l', bf, m)"
  shows "run_revent c a pe = upd_lp (dest_lp (heap pe a)) (\<lambda>_. l') (upd_ev a (\<lambda>v. v\<lparr>cv := bf, msg := m\<rparr>) pe)"
  using assms
  by (auto simp: run_revent_def reverse_view_def tw_now_sig_def Let_def upd_lp_def upd_ev_def split: prod.splits)

lemma upd_lp_lp: "upd_lp i f (upd_lp i g pe) = upd_lp i (\<lambda>l. f (g l)) pe"
  by (simp add: upd_lp_def)

lemma upd_lp_ev: "upd_ev a f (upd_lp i g pe) = upd_lp i g (upd_ev a f pe)"
  by (simp add: upd_lp_def upd_ev_def)

lemma upd_id: "upd_lp i (\<lambda>_. lps pe i) (upd_ev a (\<lambda>v. v) pe) = pe"
  by (simp add: upd_lp_def upd_ev_def)

lemma rollback_handler_eq:
  assumes "last_sig (kps pe (kp_of c (dest_lp (heap pe a)))) = qsig (heap pe a)"
    "rollback_view c a (heap pe a) (lps pe (dest_lp (heap pe a))) = (l', bf, m)"
  shows "\<exists>f. rollback_handler c a pe = upd_lp (dest_lp (heap pe a)) f (upd_ev a (\<lambda>v. v\<lparr>cv := bf, msg := m\<rparr>) pe) \<and>
    f (lps pe (dest_lp (heap pe a))) = l'"
proof -
  let ?i = "dest_lp (heap pe a)" and ?l = "lps pe (dest_lp (heap pe a))"
  have same: "upd_ev a (\<lambda>v. v\<lparr>cv := cv (heap pe a), msg := msg (heap pe a)\<rparr>) pe = pe"
    by (simp add: upd_ev_def)
  consider (match) "suspend_flag ?l \<and> suspend_event ?l = Some a \<and>
      tw_event_sig_compare_ptr (suspend_sig ?l) (qsig (heap pe a)) = 0"
    | (off) "suspend_flag ?l" "\<not> (suspend_flag ?l \<and> suspend_event ?l = Some a \<and>
      tw_event_sig_compare_ptr (suspend_sig ?l) (qsig (heap pe a)) = 0)"
    | (on) "\<not> suspend_flag ?l" by blast
  then show ?thesis
  proof cases
    case match
    let ?f = "\<lambda>l. l\<lparr>suspend_flag := False, suspend_event := None,
            suspend_sig := (suspend_sig l)\<lparr>recv_ts := 0, priority := 0, tie_lineage_length := 0\<rparr>,
            suspend_error_number := 0\<rparr>"
    show ?thesis
    proof (cases "suspend_do_orig_event_rc ?l = 0")
      case True
      then have "rollback_handler c a pe = upd_lp ?i ?f pe"
        using match by (simp add: rollback_handler_def Let_def)
      moreover have "l' = ?f ?l" "bf = cv (heap pe a)" "m = msg (heap pe a)"
        using match True assms(2) by (simp_all add: rollback_view_def Let_def)
      ultimately show ?thesis using same by auto
    next
      case False
      let ?pe = "upd_lp ?i (\<lambda>l. l\<lparr>suspend_do_orig_event_rc := 0\<rparr>) (upd_lp ?i ?f pe)"
      have "rollback_handler c a pe = run_revent c a ?pe"
        using match False by (simp add: rollback_handler_def Let_def)
      moreover have "run_revent c a ?pe = upd_lp ?i (\<lambda>_. l') (upd_ev a (\<lambda>v. v\<lparr>cv := bf, msg := m\<rparr>) ?pe)"
        using match False assms
        by (subst run_revent_eq[where l' = l' and bf = bf and m = m])
          (simp_all add: pe_simps rollback_view_def Let_def)
      ultimately show ?thesis
        by (auto simp: upd_lp_ev upd_lp_lp)
    qed
  next
    case off
    have "rollback_handler c a pe = pe"
      unfolding rollback_handler_def Let_def if_not_P[OF off(2)] if_P[OF off(1)] ..
    then have "rollback_handler c a pe = upd_lp ?i (\<lambda>l. l) pe" by (simp add: upd_lp_def)
    moreover have "rollback_view c a (heap pe a) ?l = (?l, cv (heap pe a), msg (heap pe a))"
      unfolding rollback_view_def Let_def if_not_P[OF off(2)] if_P[OF off(1)] ..
    ultimately show ?thesis using same assms(2) by (intro exI[of _ "\<lambda>l. l"]) simp
  next
    case on
    then have "rollback_handler c a pe = run_revent c a pe"
      by (simp add: rollback_handler_def Let_def)
    also have "\<dots> = upd_lp ?i (\<lambda>_. l') (upd_ev a (\<lambda>v. v\<lparr>cv := bf, msg := m\<rparr>) pe)"
      using on assms by (intro run_revent_eq) (simp_all add: rollback_view_active)
    finally show ?thesis by (intro exI[of _ "\<lambda>_. l'"]) simp
  qed
qed

lemma reverse_aborted_ok:
  assumes "good_rng (the_rng c)" "good_streams pe" "dest_lp (heap pe a) = i"
  shows "\<exists>pe'. reverse_aborted c a n pe = Inr pe' \<and> good_streams pe' \<and>
    heap pe' = (heap pe)(a := (heap pe a)\<lparr>aborted_total := aborted_total (heap pe a) - n\<rparr>) \<and>
    lps pe' = (lps pe)(i := (lps pe i)\<lparr>core_rng := (core_back ^^ n) (core_rng (lps pe i))\<rparr>) \<and>
    pq pe' = pq pe \<and> free_q pe' = free_q pe \<and> cancel_q pe' = cancel_q pe \<and>
    kps pe' = kps pe \<and> event_q pe' = event_q pe \<and> cur_event pe' = cur_event pe \<and>
    cev_abort pe' = cev_abort pe \<and> GVT_sig pe' = GVT_sig pe \<and> seq_num pe' = seq_num pe"
  using assms
proof (induction n arbitrary: pe)
  case 0
  then show ?case by simp
next
  case (Suc n)
  let ?pe1 = "upd_ev a (\<lambda>e. e\<lparr>aborted_total := aborted_total e - 1\<rparr>)
    (upd_lp i (\<lambda>l. l\<lparr>core_rng := core_back (core_rng l)\<rparr>) pe)"
  have "good_streams ?pe1" using Suc.prems(2) by (auto simp: good_streams_def pe_simps)
  moreover have "dest_lp (heap ?pe1 a) = i" using Suc.prems(3) by (simp add: pe_simps)
  ultimately obtain pe' where p: "reverse_aborted c a n ?pe1 = Inr pe'" "good_streams pe'"
    "heap pe' = (heap ?pe1)(a := (heap ?pe1 a)\<lparr>aborted_total := aborted_total (heap ?pe1 a) - n\<rparr>)"
    "lps pe' = (lps ?pe1)(i := (lps ?pe1 i)\<lparr>core_rng := (core_back ^^ n) (core_rng (lps ?pe1 i))\<rparr>)"
    "pq pe' = pq ?pe1" "free_q pe' = free_q ?pe1" "cancel_q pe' = cancel_q ?pe1" "kps pe' = kps ?pe1"
    "event_q pe' = event_q ?pe1" "cur_event pe' = cur_event ?pe1"
    "cev_abort pe' = cev_abort ?pe1" "GVT_sig pe' = GVT_sig ?pe1" "seq_num pe' = seq_num ?pe1"
    using Suc.IH[OF Suc.prems(1)] by blast
  have "core_reverse_unif c i pe = Inr (upd_lp i (\<lambda>l. l\<lparr>core_rng := core_back (core_rng l)\<rparr>) pe)"
    using Suc.prems by (simp add: core_reverse_unif_eq good_streams_def)
  then have run: "reverse_aborted c a (Suc n) pe = Inr pe'"
    using p(1) Suc.prems(3) by simp
  have h: "heap pe' = (heap pe)(a := (heap pe a)\<lparr>aborted_total := aborted_total (heap pe a) - Suc n\<rparr>)"
    using p(3) by (simp add: pe_simps)
  have l: "lps pe' = (lps pe)(i := (lps pe i)\<lparr>core_rng := (core_back ^^ Suc n) (core_rng (lps pe i))\<rparr>)"
    using p(4) by (simp add: pe_simps funpow_swap1)
  show ?case by (rule exI[of _ pe']) (intro conjI run p(2) h l p(5-)[unfolded upd_ev_sel upd_lp_sel])
qed

text \<open>
  Rolling an event back never fails, whatever the queues its children are in; it gives the LP
  what the reverse handler computes, moves the stream back by the number of sends, removes the
  children, and keeps the owner invariant.
\<close>

lemma rollback_effect:
  assumes rng: "good_rng (the_rng c)" "good_streams pe"
    and o: "owned c U (heap pe) (free_q pe) eq (pq pe) pk"
    and ch: "distinct (caused_by_me (heap pe a))" "a \<notin> set (caused_by_me (heap pe a))"
      "\<forall>e \<in> set (caused_by_me (heap pe a)). e \<in> U \<and> live_owner (qowner (heap pe e)) \<and> src_lp (heap pe e) = i"
    and i: "dest_lp (heap pe a) = i" "rollback_view c a (heap pe a) (lps pe i) = (l', bf, m)"
  shows "\<exists>pe'. tw_event_rollback c net a pe = Inr pe' \<and> good_streams pe' \<and>
    owned c U (heap pe') (free_q pe') eq (pq pe') pk \<and>
    heap pe' = (\<lambda>b. if b = a then (heap pe a)\<lparr>out_msgs := [], cv := bf, msg := m, aborted_total := 0, caused_by_me := []\<rparr>
      else if b \<in> set (caused_by_me (heap pe a)) then cancelled (heap pe b) else heap pe b) \<and>
    contents (pq pe') = filter (\<lambda>b. b \<notin> set (caused_by_me (heap pe a))) (contents (pq pe)) \<and>
    free_q pe' = rev (filter (\<lambda>b. qowner (heap pe b) = TW_pe_pq) (caused_by_me (heap pe a))) @ free_q pe \<and>
    cancel_q pe' = rev (filter (\<lambda>b. qowner (heap pe b) \<noteq> TW_pe_pq) (caused_by_me (heap pe a))) @ cancel_q pe \<and>
    lps pe' = (lps pe)(i := l'\<lparr>core_rng := (core_back ^^ (length (caused_by_me (heap pe a)) + aborted_total (heap pe a)))
      (core_rng (lps pe i))\<rparr>) \<and>
    kps pe' = (kps pe)(kp_of c i := (kps pe (kp_of c i))\<lparr>last_sig := qsig (heap pe a),
      s_e_rbs := s_e_rbs (kps pe (kp_of c i)) + 1\<rparr>) \<and>
    event_q pe' = event_q pe \<and> cur_event pe' = a \<and>
    cev_abort pe' = cev_abort pe \<and> GVT_sig pe' = GVT_sig pe \<and> seq_num pe' = seq_num pe"
proof -
  let ?es = "caused_by_me (heap pe a)" and ?k = "kp_of c i"
  define pe1 where "pe1 = upd_kp ?k (\<lambda>kp. kp\<lparr>last_sig := qsig (heap pe a)\<rparr>)
    ((tw_free_output_messages a False pe)\<lparr>cur_event := a\<rparr>)"
  have h1: "heap pe1 = (heap pe)(a := (heap pe a)\<lparr>out_msgs := []\<rparr>)" "lps pe1 = lps pe"
    "kps pe1 = (kps pe)(?k := (kps pe ?k)\<lparr>last_sig := qsig (heap pe a)\<rparr>)" "pq pe1 = pq pe"
    "free_q pe1 = free_q pe" "cancel_q pe1 = cancel_q pe" "event_q pe1 = event_q pe" "cur_event pe1 = a"
    "cev_abort pe1 = cev_abort pe" "GVT_sig pe1 = GVT_sig pe" "seq_num pe1 = seq_num pe"
    by (simp_all add: pe1_def pe_simps)
  have "rollback_view c a (heap pe1 a) (lps pe1 i) = (l', bf, m)"
    using i(2) h1 by simp
  then obtain f where f: "rollback_handler c a pe1 = upd_lp i f (upd_ev a (\<lambda>v. v\<lparr>cv := bf, msg := m\<rparr>) pe1)"
    "f (lps pe1 i) = l'"
    using rollback_handler_eq[of pe1 c a l' bf m] h1 i(1) by auto
  define pe2 where "pe2 = rollback_handler c a pe1"
  have h2: "heap pe2 = (heap pe)(a := (heap pe a)\<lparr>out_msgs := [], cv := bf, msg := m\<rparr>)"
    "lps pe2 = (lps pe)(i := l')" "kps pe2 = kps pe1" "pq pe2 = pq pe"
    "free_q pe2 = free_q pe" "cancel_q pe2 = cancel_q pe" "event_q pe2 = event_q pe" "cur_event pe2 = a"
    "cev_abort pe2 = cev_abort pe" "GVT_sig pe2 = GVT_sig pe" "seq_num pe2 = seq_num pe"
    using f h1 by (simp_all add: pe2_def pe_simps)
  have g2: "good_streams pe2"
    using rng(2) rollback_view_rng[OF i(2)] h2(2) by (auto simp: good_streams_def)
  have o2: "owned c U (heap pe2) (free_q pe2) eq (pq pe2) pk"
    using o unfolding h2 by (subst owned_cong[where hp = "heap pe"]) auto
  have ch2: "\<forall>e \<in> set ?es. e \<in> U \<and> live_owner (qowner (heap pe2 e)) \<and> src_lp (heap pe2 e) = i"
    using ch h2(1) by auto
  obtain pe3 where p3: "cancel_children c net ?es pe2 = Inr pe3" "good_streams pe3"
    "owned c U (heap pe3) (free_q pe3) eq (pq pe3) pk"
    "heap pe3 = (\<lambda>b. if b \<in> set ?es then cancelled (heap pe2 b) else heap pe2 b)"
    "contents (pq pe3) = filter (\<lambda>b. b \<notin> set ?es) (contents (pq pe2))"
    "free_q pe3 = rev (filter (\<lambda>b. qowner (heap pe2 b) = TW_pe_pq) ?es) @ free_q pe2"
    "cancel_q pe3 = rev (filter (\<lambda>b. qowner (heap pe2 b) \<noteq> TW_pe_pq) ?es) @ cancel_q pe2"
    "lps pe3 = (lps pe2)(i := (lps pe2 i)\<lparr>core_rng := (core_back ^^ length ?es) (core_rng (lps pe2 i))\<rparr>)"
    "kps pe3 = kps pe2" "event_q pe3 = event_q pe2" "cur_event pe3 = cur_event pe2"
    "cev_abort pe3 = cev_abort pe2" "GVT_sig pe3 = GVT_sig pe2" "seq_num pe3 = seq_num pe2"
    using cancel_children_ok[OF rng(1) g2 o2 ch(1) ch2] by blast
  have a3: "heap pe3 a = (heap pe a)\<lparr>out_msgs := [], cv := bf, msg := m\<rparr>"
    using p3(4) h2(1) ch(2) by simp
  then have d3: "dest_lp (heap pe3 a) = i" using i(1) by simp
  let ?n = "aborted_total (heap pe a)"
  obtain pe4 where p4: "reverse_aborted c a ?n pe3 = Inr pe4" "good_streams pe4"
    "heap pe4 = (heap pe3)(a := (heap pe3 a)\<lparr>aborted_total := aborted_total (heap pe3 a) - ?n\<rparr>)"
    "lps pe4 = (lps pe3)(i := (lps pe3 i)\<lparr>core_rng := (core_back ^^ ?n) (core_rng (lps pe3 i))\<rparr>)"
    "pq pe4 = pq pe3" "free_q pe4 = free_q pe3" "cancel_q pe4 = cancel_q pe3" "kps pe4 = kps pe3"
    "event_q pe4 = event_q pe3" "cur_event pe4 = cur_event pe3"
    "cev_abort pe4 = cev_abort pe3" "GVT_sig pe4 = GVT_sig pe3" "seq_num pe4 = seq_num pe3"
    using reverse_aborted_ok[OF rng(1) p3(2) d3, of ?n] by blast
  define pe5 where "pe5 = upd_kp ?k (\<lambda>kp. kp\<lparr>s_e_rbs := s_e_rbs kp + 1\<rparr>)
    (upd_ev a (\<lambda>v. v\<lparr>caused_by_me := []\<rparr>) pe4)"
  have run: "tw_event_rollback c net a pe = Inr pe5"
    using i(1) p3(1) p4(1) a3
    by (simp add: tw_event_rollback_def Let_def pe1_def[symmetric] pe2_def[symmetric] pe5_def pe_simps)
  have h5: "heap pe5 = (\<lambda>b. if b = a then (heap pe a)\<lparr>out_msgs := [], cv := bf, msg := m, aborted_total := 0, caused_by_me := []\<rparr>
      else if b \<in> set ?es then cancelled (heap pe b) else heap pe b)"
    using p3(4) p4(3) h2(1) ch(2) a3 by (auto simp: pe5_def pe_simps fun_eq_iff)
  have o5: "owned c U (heap pe5) (free_q pe5) eq (pq pe5) pk"
    using p3(3) p4(3,5,6) by (subst owned_cong[where hp = "heap pe3"]) (auto simp: pe5_def pe_simps)
  have f2: "filter (\<lambda>b. P (qowner (heap pe2 b))) ?es = filter (\<lambda>b. P (qowner (heap pe b))) ?es" for P
    using ch(2) h2(1) by (intro filter_cong) auto
  have q5: "contents (pq pe5) = filter (\<lambda>b. b \<notin> set ?es) (contents (pq pe))"
    "free_q pe5 = rev (filter (\<lambda>b. qowner (heap pe b) = TW_pe_pq) ?es) @ free_q pe"
    "cancel_q pe5 = rev (filter (\<lambda>b. qowner (heap pe b) \<noteq> TW_pe_pq) ?es) @ cancel_q pe"
    using p3(5-7) p4(5-7) h2 unfolding f2[of "\<lambda>w. w = TW_pe_pq"] f2[of "\<lambda>w. w \<noteq> TW_pe_pq"]
    by (simp_all add: pe5_def pe_simps)
  have l5: "lps pe5 = (lps pe)(i := l'\<lparr>core_rng := (core_back ^^ (length ?es + ?n)) (core_rng (lps pe i))\<rparr>)"
    using p3(8) p4(4) h2(2) rollback_view_rng[OF i(2)]
    by (simp add: pe5_def pe_simps funpow_add add.commute[of "length ?es"])
  have k5: "kps pe5 = (kps pe)(?k := (kps pe ?k)\<lparr>last_sig := qsig (heap pe a), s_e_rbs := s_e_rbs (kps pe ?k) + 1\<rparr>)"
    using p3(9) p4(8) h2(3) h1(3) by (simp add: pe5_def pe_simps)
  have r5: "event_q pe5 = event_q pe" "cur_event pe5 = a" "cev_abort pe5 = cev_abort pe"
    "GVT_sig pe5 = GVT_sig pe" "seq_num pe5 = seq_num pe" "good_streams pe5"
    using p3 p4 h2 by (simp_all add: pe5_def pe_simps good_streams_def)
  show ?thesis by (rule exI[of _ pe5]) (intro conjI run o5 h5 q5 l5 k5 r5)
qed

end
