(* ===== verification/Kp_Rollback.thy ===== *)
theory Kp_Rollback
  imports Rollback
begin

text \<open>
  The rollback of a KP (\<open>core/tw-kp.c\<close>): the loops of \<open>tw_kp_rollback_to_sig\<close> and
  \<open>tw_kp_rollback_event\<close> undo the newest processed events one by one. The effect on the LPs is
  the function \<open>undo\<close>; the invariant \<open>kids\<close> describes the events the processed ones caused.
\<close>

section \<open>The events caused by processed ones\<close>

text \<open>
  Each event in \<open>caused_by_me\<close> of a processed one is in a queue of this PE. An event sent to another
  PE would be on the list too, but in no queue here: states with such children are outside the
  invariant, and so outside of what is proved of a rollback. Their cancellation, by an anti-message,
  is the subject of \<open>Net_Send\<close> and \<open>Net_Recv\<close>.
\<close>

abbreviation processed :: "addr set \<Rightarrow> (addr \<Rightarrow> ('bf, 'm) pevent) \<Rightarrow> addr set" where
  "processed U hp \<equiv> {e \<in> U. qowner (hp e) = TW_kp_pevent_q}"

definition kids :: "addr set \<Rightarrow> (addr \<Rightarrow> ('bf, 'm) pevent) \<Rightarrow> addr set \<Rightarrow> bool" where
  "kids U hp P \<longleftrightarrow>
     (\<forall>e \<in> P. distinct (caused_by_me (hp e)) \<and> e \<notin> set (caused_by_me (hp e)) \<and>
        (\<forall>x \<in> set (caused_by_me (hp e)). x \<in> U \<and> live_owner (qowner (hp x)) \<and> src_lp (hp x) = dest_lp (hp e))) \<and>
     (\<forall>e \<in> P. \<forall>e' \<in> P. e \<noteq> e' \<longrightarrow> set (caused_by_me (hp e)) \<inter> set (caused_by_me (hp e')) = {})"

abbreviation pevents :: "('st, 'bf, 'm, 'z) tw_pe_scheme \<Rightarrow> nat \<Rightarrow> addr list" where
  "pevents pe k \<equiv> pevent_q (kps pe k)"

text \<open>
  The cancelled events \<open>cq\<close> are exactly the marked ones, and no processed event lists them
  among its children any more.
\<close>

definition in_use :: "tw_event_owner \<Rightarrow> bool" where
  "in_use w \<longleftrightarrow> live_owner w \<or> w = TW_pe_anti_msg"

definition cancel_ok :: "addr set \<Rightarrow> (addr \<Rightarrow> ('bf, 'm) pevent) \<Rightarrow> addr list \<Rightarrow> bool" where
  "cancel_ok U hp cq \<longleftrightarrow> distinct cq \<and>
     set cq = {x \<in> U. in_use (qowner (hp x)) \<and> st_cancel_q (hp x)} \<and>
     (\<forall>e \<in> processed U hp. set (caused_by_me (hp e)) \<inter> set cq = {}) \<and>
     (\<forall>x \<in> U. qowner (hp x) = TW_pe_anti_msg \<longrightarrow> st_cancel_q (hp x))"

text \<open>
  An event that waits to be processed has sent nothing.
\<close>

definition idle :: "('bf, 'm) pevent \<Rightarrow> bool" where
  "idle e \<longleftrightarrow> (qowner e = TW_pe_pq \<or> qowner e = TW_pe_event_q \<longrightarrow> caused_by_me e = [] \<and> aborted_total e = 0)"

lemma idle_cancelled: "idle e \<Longrightarrow> idle (cancelled e)"
  by (auto simp: idle_def cancelled_def)

lemma idle_upd [simp]: "idle (e\<lparr>st_cancel_q := b\<rparr>) = idle e" "idle (e\<lparr>out_msgs := ms\<rparr>) = idle e"
  by (simp_all add: idle_def)

text \<open>
  The state between two steps of the scheduler; \<open>eq\<close> is the arrival queue, or the list the
  scheduler has popped from it, \<open>cl\<close> the list it has popped from the cancel queue.
\<close>

definition pe_ok :: "('st, 'bf, 'm) config \<Rightarrow> addr set \<Rightarrow> addr list \<Rightarrow> addr list
    \<Rightarrow> ('st, 'bf, 'm, 'z) tw_pe_scheme \<Rightarrow> bool" where
  "pe_ok c U eq cl pe \<longleftrightarrow> good_rng (the_rng c) \<and> good_streams pe \<and>
     owned c U (heap pe) (free_q pe) eq (pq pe) (pevents pe) \<and> kids U (heap pe) (processed U (heap pe)) \<and>
     cancel_ok U (heap pe) (cl @ cancel_q pe) \<and>
     (\<forall>a \<in> U. live_owner (qowner (heap pe a)) \<longrightarrow> ev_recv_ts (heap pe a) = recv_ts (qsig (heap pe a))) \<and>
     (\<forall>a \<in> U. idle (heap pe a)) \<and>
     wf_sig (GVT_sig pe) \<and> (\<forall>k. wf_sig (last_sig (kps pe k)))"

lemma pe_okD:
  assumes "pe_ok c U eq cl pe"
  shows "good_rng (the_rng c)" "good_streams pe" "owned c U (heap pe) (free_q pe) eq (pq pe) (pevents pe)"
    "kids U (heap pe) (processed U (heap pe))" "cancel_ok U (heap pe) (cl @ cancel_q pe)"
    "a \<in> U \<Longrightarrow> live_owner (qowner (heap pe a)) \<Longrightarrow> ev_recv_ts (heap pe a) = recv_ts (qsig (heap pe a))"
    "wf_sig (GVT_sig pe)" "wf_sig (last_sig (kps pe k))" "a \<in> U \<Longrightarrow> idle (heap pe a)"
  using assms by (simp_all add: pe_ok_def)

lemma pe_okI:
  assumes "good_rng (the_rng c)" "good_streams pe" "owned c U (heap pe) (free_q pe) eq (pq pe) (pevents pe)"
    "kids U (heap pe) (processed U (heap pe))" "cancel_ok U (heap pe) (cl @ cancel_q pe)"
    "\<And>a. a \<in> U \<Longrightarrow> live_owner (qowner (heap pe a)) \<Longrightarrow> ev_recv_ts (heap pe a) = recv_ts (qsig (heap pe a))"
    "wf_sig (GVT_sig pe)" "\<And>k. wf_sig (last_sig (kps pe k))" "\<And>a. a \<in> U \<Longrightarrow> idle (heap pe a)"
  shows "pe_ok c U eq cl pe"
  using assms by (simp add: pe_ok_def)

lemma pe_ok_pevents:
  assumes "pe_ok c U eq cl pe"
  shows "set (pevents pe k) = {x \<in> U. qowner (heap pe x) = TW_kp_pevent_q \<and> kp_of c (dest_lp (heap pe x)) = k}"
    "distinct (pevents pe k)" "set (pevents pe k) \<subseteq> processed U (heap pe)"
proof -
  show *: "set (pevents pe k) = {x \<in> U. qowner (heap pe x) = TW_kp_pevent_q \<and> kp_of c (dest_lp (heap pe x)) = k}"
    using assms unfolding pe_ok_def owned_def by metis
  show "distinct (pevents pe k)" using assms unfolding pe_ok_def owned_def by metis
  show "set (pevents pe k) \<subseteq> processed U (heap pe)" using * by auto
qed

lemma pe_ok_wf: "pe_ok c U eq cl pe \<Longrightarrow> e \<in> set (pevents pe k) \<Longrightarrow> wf_sig (qsig (heap pe e))"
  using pe_ok_pevents(1)[of c U eq cl pe k] by (auto simp: pe_ok_def owned_def)

section \<open>What undoing events does to the LPs\<close>

definition undo_step :: "('st, 'bf, 'm) config \<Rightarrow> (addr \<Rightarrow> ('bf, 'm) pevent) \<Rightarrow> addr
    \<Rightarrow> (nat \<Rightarrow> 'st tw_lp) \<Rightarrow> nat \<Rightarrow> 'st tw_lp" where
  "undo_step c hp e L =
     (let i = dest_lp (hp e) in
      L(i := (fst (rollback_view c e (hp e) (L i)))
        \<lparr>core_rng := (core_back ^^ (length (caused_by_me (hp e)) + aborted_total (hp e))) (core_rng (L i))\<rparr>))"

definition undo :: "('st, 'bf, 'm) config \<Rightarrow> (addr \<Rightarrow> ('bf, 'm) pevent) \<Rightarrow> addr list
    \<Rightarrow> (nat \<Rightarrow> 'st tw_lp) \<Rightarrow> nat \<Rightarrow> 'st tw_lp" where
  "undo c hp es = fold (undo_step c hp) es"

lemma undo_simps [simp]: "undo c hp [] L = L" "undo c hp (e # es) L = undo c hp es (undo_step c hp e L)"
  by (simp_all add: undo_def)

text \<open>Undoing reads these parts of an event only.\<close>

definition undo_same :: "('bf, 'm) pevent \<Rightarrow> ('bf, 'm) pevent \<Rightarrow> bool" where
  "undo_same e e' \<longleftrightarrow> dest_lp e = dest_lp e' \<and> qsig e = qsig e' \<and> cv e = cv e' \<and> msg e = msg e' \<and>
     critical_path e = critical_path e' \<and> caused_by_me e = caused_by_me e' \<and> aborted_total e = aborted_total e'"

lemma undo_same_refl [simp]: "undo_same e e"
  by (simp add: undo_same_def)

lemma undo_same_cancelled [simp]: "undo_same (cancelled e) e"
  by (simp add: undo_same_def)

lemma undo_step_same: "undo_same (hp' e) (hp e) \<Longrightarrow> undo_step c hp' e = undo_step c hp e"
  by (rule ext) (auto simp: undo_step_def undo_same_def rollback_view_def reverse_view_def Let_def)

lemma undo_cong:
  "(\<And>e. e \<in> set es \<Longrightarrow> undo_same (hp' e) (hp e)) \<Longrightarrow> undo c hp' es L = undo c hp es L"
proof (induction es arbitrary: L)
  case (Cons e es)
  then show ?case using undo_step_same[of hp' e hp c] by simp
qed simp

section \<open>One round\<close>

text \<open>
  The heap after the events \<open>es\<close>, newest first, have been undone. They are pending again, unless
  they were undone as a child of one of them or, for \<open>F\<close>, were cancelled.
\<close>

definition kids_of :: "(addr \<Rightarrow> ('bf, 'm) pevent) \<Rightarrow> addr list \<Rightarrow> addr set" where
  "kids_of hp es = (\<Union>e \<in> set es. set (caused_by_me (hp e)))"

lemma kids_of_simps [simp]: "kids_of hp [] = {}" "kids_of hp (e # es) = set (caused_by_me (hp e)) \<union> kids_of hp es"
  by (simp_all add: kids_of_def)

definition undone_heap :: "addr set \<Rightarrow> (addr \<Rightarrow> ('bf, 'm) pevent) \<Rightarrow> (addr \<Rightarrow> ('bf, 'm) pevent) \<Rightarrow> addr list \<Rightarrow> bool" where
  "undone_heap F hp' hp es \<longleftrightarrow>
     (\<forall>b. b \<notin> set es \<longrightarrow> hp' b = (if b \<in> kids_of hp es then cancelled (hp b) else hp b)) \<and>
     (\<forall>b \<in> set es. qowner (hp' b) = TW_pe_pq \<and> b \<notin> F \<or> qowner (hp' b) = TW_pe_free_q \<and> b \<in> kids_of hp es \<union> F) \<and>
     (\<forall>b \<in> set es. caused_by_me (hp' b) = [] \<and> aborted_total (hp' b) = 0 \<and> qsig (hp' b) = qsig (hp b) \<and>
        dest_lp (hp' b) = dest_lp (hp b) \<and> ev_recv_ts (hp' b) = ev_recv_ts (hp b) \<and>
        event_id (hp' b) = event_id (hp b) \<and> send_pe (hp' b) = send_pe (hp b))"

text \<open>The heap after the handler part of the rollback of \<open>e\<close>.\<close>

definition rolled :: "(addr \<Rightarrow> ('bf, 'm) pevent) \<Rightarrow> (addr \<Rightarrow> ('bf, 'm) pevent) \<Rightarrow> addr \<Rightarrow> tw_event_owner \<Rightarrow> bool" where
  "rolled hp' hp e w \<longleftrightarrow>
     (\<exists>bf m. hp' e = (hp e)\<lparr>out_msgs := [], cv := bf, msg := m, aborted_total := 0, caused_by_me := [], qowner := w\<rparr>) \<and>
     (\<forall>b. b \<noteq> e \<longrightarrow> hp' b = (if b \<in> set (caused_by_me (hp e)) then cancelled (hp b) else hp b))"

lemma rolledD:
  assumes "rolled hp' hp e w"
  shows "qowner (hp' e) = w" "caused_by_me (hp' e) = []" "aborted_total (hp' e) = 0"
    "st_cancel_q (hp' e) = st_cancel_q (hp e)"
    "b \<noteq> e \<Longrightarrow> hp' b = (if b \<in> set (caused_by_me (hp e)) then cancelled (hp b) else hp b)"
    "b \<noteq> e \<Longrightarrow> caused_by_me (hp' b) = caused_by_me (hp b)"
    "dest_lp (hp' b) = dest_lp (hp b)" "src_lp (hp' b) = src_lp (hp b)"
    "qsig (hp' b) = qsig (hp b)" "ev_recv_ts (hp' b) = ev_recv_ts (hp b)"
    "qowner (hp' b) = (if b = e then w
       else if b \<in> set (caused_by_me (hp e)) \<and> qowner (hp b) = TW_pe_pq then TW_pe_free_q else qowner (hp b))"
  using assms by (auto simp: rolled_def) (cases "b = e"; simp)+

lemma idle_rolled:
  assumes "rolled hp' hp e w" "idle (hp b)"
  shows "idle (hp' b)"
proof (cases "b = e")
  case True
  then show ?thesis using rolledD(2,3)[OF assms(1)] by (simp add: idle_def)
next
  case False
  then show ?thesis using rolledD(5)[OF assms(1)] assms(2) idle_cancelled by auto
qed

lemma processed_rolled:
  assumes "rolled hp' hp e w" "w \<noteq> TW_kp_pevent_q"
  shows "processed U hp' = processed U hp - {e}"
  using rolledD(11)[OF assms(1)] assms(2) by auto

lemma kids_rollback:
  assumes k: "kids U hp P" and e: "e \<in> P" and r: "rolled hp' hp e w"
    and w: "live_owner w \<or> (\<forall>b \<in> P. e \<notin> set (caused_by_me (hp b)))"
  shows "kids U hp' (P - {e})"
proof -
  note c = rolledD(6)[OF r] rolledD(7,8)[OF r]
  have disj: "set (caused_by_me (hp b)) \<inter> set (caused_by_me (hp e)) = {}" if "b \<in> P" "b \<noteq> e" for b
    using k e that unfolding kids_def by metis
  have live: "live_owner (qowner (hp' x))" if "b \<in> P" "b \<noteq> e" "x \<in> set (caused_by_me (hp b))" for b x
  proof (cases "x = e")
    case True
    then show ?thesis using rolledD(1)[OF r] w that by auto
  next
    case False
    then have "hp' x = hp x" using rolledD(5)[OF r] disj[OF that(1,2)] that(3) by auto
    then show ?thesis using k that unfolding kids_def by metis
  qed
  show ?thesis
    unfolding kids_def
  proof (intro conjI ballI impI)
    fix b assume b: "b \<in> P - {e}"
    then show "distinct (caused_by_me (hp' b))" "b \<notin> set (caused_by_me (hp' b))"
      using k c(1) by (auto simp: kids_def)
    fix x assume "x \<in> set (caused_by_me (hp' b))"
    then have x: "x \<in> set (caused_by_me (hp b))" using b c(1) by auto
    then show "x \<in> U" "live_owner (qowner (hp' x))" "src_lp (hp' x) = dest_lp (hp' b)"
      using k b live[of b x] c by (auto simp: kids_def)
  next
    fix b b' assume "b \<in> P - {e}" "b' \<in> P - {e}" "b \<noteq> b'"
    then show "set (caused_by_me (hp' b)) \<inter> set (caused_by_me (hp' b')) = {}"
      using k c(1) by (simp add: kids_def)
  qed
qed

lemma childrenD:
  assumes "kids U hp P" "e \<in> P"
  shows "distinct (caused_by_me (hp e))" "e \<notin> set (caused_by_me (hp e))"
    "x \<in> set (caused_by_me (hp e)) \<Longrightarrow> x \<in> U" "x \<in> set (caused_by_me (hp e)) \<Longrightarrow> live_owner (qowner (hp x))"
    "x \<in> set (caused_by_me (hp e)) \<Longrightarrow> src_lp (hp x) = dest_lp (hp e)"
  using assms by (simp_all add: kids_def)

lemma children_disjoint:
  "kids U hp P \<Longrightarrow> b \<in> P \<Longrightarrow> e \<in> P \<Longrightarrow> b \<noteq> e \<Longrightarrow> set (caused_by_me (hp b)) \<inter> set (caused_by_me (hp e)) = {}"
  by (simp add: kids_def)

lemma cancel_okD:
  assumes "cancel_ok U hp cq"
  shows "distinct cq" "set cq = {x \<in> U. in_use (qowner (hp x)) \<and> st_cancel_q (hp x)}"
    "e \<in> processed U hp \<Longrightarrow> set (caused_by_me (hp e)) \<inter> set cq = {}"
    "x \<in> U \<Longrightarrow> qowner (hp x) = TW_pe_anti_msg \<Longrightarrow> st_cancel_q (hp x)"
  using assms unfolding cancel_ok_def by blast+

lemma cancel_rollback:
  assumes k: "kids U hp (processed U hp)" and e: "e \<in> processed U hp" and r: "rolled hp' hp e w"
    and w: "w = TW_pe_pq \<or> w = TW_pe_free_q" and c: "cancel_ok U hp cq"
    and cq: "set cq' = {x \<in> set cq \<union> {x \<in> set (caused_by_me (hp e)). qowner (hp x) \<noteq> TW_pe_pq}. w = TW_pe_free_q \<longrightarrow> x \<noteq> e}"
      "distinct cq'"
  shows "cancel_ok U hp' cq'"
proof -
  have ne: "e \<notin> set (caused_by_me (hp e))" using k e by (simp add: kids_def)
  have ch: "x \<in> U" "live_owner (qowner (hp x))" "x \<notin> set cq" if "x \<in> set (caused_by_me (hp e))" for x
    using childrenD(3,4)[OF k e that] cancel_okD(3)[OF c e] that by blast+
  have st: "st_cancel_q (hp' x) = (if x \<in> set (caused_by_me (hp e)) \<and> qowner (hp x) \<noteq> TW_pe_pq then True else st_cancel_q (hp x))" for x
    using rolledD(4,5)[OF r] ne by (cases "x = e") (auto simp: cancelled_def)
  have wk: "w \<noteq> TW_kp_pevent_q" using w by auto
  have "set cq' = {x \<in> U. in_use (qowner (hp' x)) \<and> st_cancel_q (hp' x)}"
  proof (intro set_eqI)
    fix x
    have q: "x \<in> set cq \<longleftrightarrow> x \<in> U \<and> in_use (qowner (hp x)) \<and> st_cancel_q (hp x)" using cancel_okD(2)[OF c] by auto
    have e': "e \<in> U" "in_use (qowner (hp e))" using e by (auto simp: in_use_def live_owner_def)
    consider "x = e" | "x \<in> set (caused_by_me (hp e))" "x \<noteq> e" | "x \<notin> set (caused_by_me (hp e))" "x \<noteq> e" by blast
    then show "x \<in> set cq' \<longleftrightarrow> x \<in> {x \<in> U. in_use (qowner (hp' x)) \<and> st_cancel_q (hp' x)}"
    proof cases
      case 1
      then show ?thesis using q e' ne w unfolding cq(1) mem_Collect_eq st rolledD(11)[OF r]
        by (auto simp: in_use_def live_owner_def)
    next
      case 2
      then show ?thesis using ch[of x] unfolding cq(1) mem_Collect_eq st rolledD(11)[OF r]
        by (auto simp: in_use_def live_owner_def)
    next
      case 3
      then show ?thesis using q unfolding cq(1) mem_Collect_eq st rolledD(11)[OF r] by simp
    qed
  qed
  moreover have "set (caused_by_me (hp' b)) \<inter> set cq' = {}" if "b \<in> processed U hp'" for b
  proof -
    have b: "b \<in> processed U hp" "b \<noteq> e" using that unfolding processed_rolled[OF r wk] by auto
    then have "set (caused_by_me (hp b)) \<inter> set (caused_by_me (hp e)) = {}"
      by (rule children_disjoint[OF k _ e])
    moreover have "set (caused_by_me (hp b)) \<inter> set cq = {}" by (rule cancel_okD(3)[OF c b(1)])
    moreover have "set cq' \<subseteq> set cq \<union> set (caused_by_me (hp e))" unfolding cq(1) by blast
    ultimately show ?thesis unfolding rolledD(6)[OF r b(2)] by blast
  qed
  moreover have "\<forall>x \<in> U. qowner (hp' x) = TW_pe_anti_msg \<longrightarrow> st_cancel_q (hp' x)"
    using c w unfolding rolledD(11)[OF r] st cancel_ok_def by (auto split: if_splits)
  ultimately show ?thesis using cq(2) unfolding cancel_ok_def by blast
qed

text \<open>
  The call of \<open>tw_event_rollback\<close> on the newest event of a KP: it succeeds and undoes the event,
  which is then in no queue.
\<close>

lemma rollback_mid:
  assumes ok: "pe_ok c U eq cl pe" and e: "pevents pe k = e # es"
    and pe0: "heap pe0 = heap pe" "free_q pe0 = free_q pe" "pq pe0 = pq pe" "lps pe0 = lps pe" "cancel_q pe0 = cancel_q pe"
      "pevents pe0 = (pevents pe)(k := es)" "\<forall>j. j \<noteq> k \<longrightarrow> kps pe0 j = kps pe j"
      "event_q pe0 = event_q pe" "cev_abort pe0 = cev_abort pe" "GVT_sig pe0 = GVT_sig pe"
  shows "\<exists>pe1. tw_event_rollback c net e pe0 = Inr pe1 \<and> good_streams pe1 \<and>
    owned c U (heap pe1) (free_q pe1) eq (pq pe1) (pevents pe) \<and>
    rolled (heap pe1) (heap pe) e TW_kp_pevent_q \<and>
    lps pe1 = undo_step c (heap pe) e (lps pe) \<and>
    pevents pe1 = (pevents pe)(k := es) \<and> (\<forall>j. j \<noteq> k \<longrightarrow> kps pe1 j = kps pe j) \<and>
    last_sig (kps pe1 k) = qsig (heap pe e) \<and>
    cancel_q pe1 = rev (filter (\<lambda>b. qowner (heap pe b) \<noteq> TW_pe_pq) (caused_by_me (heap pe e))) @ cancel_q pe \<and>
    event_q pe1 = event_q pe \<and> cev_abort pe1 = cev_abort pe \<and> GVT_sig pe1 = GVT_sig pe"
proof -
  let ?i = "dest_lp (heap pe e)" and ?hp = "heap pe"
  have o: "good_rng (the_rng c)" "good_streams pe0" "owned c U ?hp (free_q pe) eq (pq pe) (pevents pe)"
    "kids U ?hp (processed U ?hp)"
    using ok pe0(4) by (simp_all add: pe_ok_def good_streams_def)
  have "set (pevents pe k) = {x \<in> U. qowner (?hp x) = TW_kp_pevent_q \<and> kp_of c (dest_lp (?hp x)) = k}"
    using o(3) unfolding owned_def by metis
  then have eU: "e \<in> U" "qowner (?hp e) = TW_kp_pevent_q" "kp_of c ?i = k" using e by auto
  obtain l' bf m where v: "rollback_view c e (?hp e) (lps pe ?i) = (l', bf, m)" by (cases "rollback_view c e (?hp e) (lps pe ?i)") auto
  have ch: "distinct (caused_by_me (?hp e))" "e \<notin> set (caused_by_me (?hp e))"
    "\<forall>x \<in> set (caused_by_me (?hp e)). x \<in> U \<and> live_owner (qowner (?hp x)) \<and> src_lp (?hp x) = ?i"
    using o(4) eU unfolding kids_def by blast+
  obtain pe1 where p1: "tw_event_rollback c net e pe0 = Inr pe1" "good_streams pe1"
    "owned c U (heap pe1) (free_q pe1) eq (pq pe1) (pevents pe)"
    "heap pe1 = (\<lambda>b. if b = e then (?hp e)\<lparr>out_msgs := [], cv := bf, msg := m, aborted_total := 0, caused_by_me := []\<rparr>
      else if b \<in> set (caused_by_me (?hp e)) then cancelled (?hp b) else ?hp b)"
    "cancel_q pe1 = rev (filter (\<lambda>b. qowner (?hp b) \<noteq> TW_pe_pq) (caused_by_me (?hp e))) @ cancel_q pe"
    "lps pe1 = (lps pe)(?i := l'\<lparr>core_rng := (core_back ^^ (length (caused_by_me (?hp e)) + aborted_total (?hp e)))
      (core_rng (lps pe ?i))\<rparr>)"
    "kps pe1 = (kps pe0)(k := (kps pe0 k)\<lparr>last_sig := qsig (?hp e), s_e_rbs := s_e_rbs (kps pe0 k) + 1\<rparr>)"
    "event_q pe1 = event_q pe" "cev_abort pe1 = cev_abort pe" "GVT_sig pe1 = GVT_sig pe"
    using rollback_effect[of c pe0 U eq "pevents pe" e ?i l' bf m net, unfolded pe0, OF o(1,2,3) ch refl v] eU(3)
    by blast
  have l: "lps pe1 = undo_step c ?hp e (lps pe)"
    unfolding p1(6) undo_step_def Let_def v by simp
  have "pevents pe1 j = ((pevents pe)(k := es)) j" for j
    using fun_cong[OF pe0(6), of j] p1(7) by (cases "j = k") simp_all
  then have kp1: "pevents pe1 = (pevents pe)(k := es)" by (rule ext)
  have kp2: "\<forall>j. j \<noteq> k \<longrightarrow> kps pe1 j = kps pe j" "last_sig (kps pe1 k) = qsig (?hp e)"
    using p1(7) pe0(7) by auto
  have own: "x\<lparr>out_msgs := [], cv := bf, msg := m, aborted_total := 0, caused_by_me := [], qowner := qowner x\<rparr>
      = x\<lparr>out_msgs := [], cv := bf, msg := m, aborted_total := 0, caused_by_me := []\<rparr>" for x :: "('b, 'c) pevent"
    by simp
  have r: "rolled (heap pe1) ?hp e TW_kp_pevent_q"
    unfolding rolled_def p1(4) eU(2)[symmetric] own by auto
  show ?thesis
    by (rule exI[of _ pe1]) (intro conjI p1(1-3,5,8-10) r l kp1 kp2)
qed

lemma pop_facts:
  fixes pe :: "('st, 'bf, 'm, 'z) tw_pe_scheme"
  assumes "pe0 = upd_kp k (\<lambda>kp. kp\<lparr>pevent_q := es\<rparr>) pe"
  shows "heap pe0 = heap pe" "free_q pe0 = free_q pe" "pq pe0 = pq pe" "lps pe0 = lps pe" "cancel_q pe0 = cancel_q pe"
    "kps pe0 = (kps pe)(k := (kps pe k)\<lparr>pevent_q := es\<rparr>)"
    "pevents pe0 = (pevents pe)(k := es)" "\<forall>j. j \<noteq> k \<longrightarrow> kps pe0 j = kps pe j"
    "event_q pe0 = event_q pe" "cev_abort pe0 = cev_abort pe" "GVT_sig pe0 = GVT_sig pe"
  using assms by (simp_all add: pe_simps fun_eq_iff)

text \<open>Then the event goes back to the pending queue, or it is freed.\<close>

lemma rolled_owner:
  assumes r: "rolled hp1 hp e w" and hp': "hp' = hp1(e := (hp1 e)\<lparr>out_msgs := [], qowner := w'\<rparr>)"
  shows "rolled hp' hp e w'"
proof -
  obtain bf m where "hp1 e = (hp e)\<lparr>out_msgs := [], cv := bf, msg := m, aborted_total := 0, caused_by_me := [], qowner := w\<rparr>"
    using r unfolding rolled_def by blast
  then have "hp' e = (hp e)\<lparr>out_msgs := [], cv := bf, msg := m, aborted_total := 0, caused_by_me := [], qowner := w'\<rparr>"
    using hp' by simp
  then show ?thesis
    using r hp' unfolding rolled_def by simp blast
qed

lemma rolled_out_msgs: "rolled hp1 hp e w \<Longrightarrow> (hp1 e)\<lparr>out_msgs := []\<rparr> = hp1 e"
  by (auto simp: rolled_def)

lemma rollback_put_back:
  assumes ok: "pe_ok c U eq cl pe" and e: "pevents pe k = e # es" and s: "wf_sig s"
    and p1: "good_streams pe1" "owned c U (heap pe1) (free_q pe1) eq (pq pe1) (pevents pe)"
      "rolled (heap pe1) (heap pe) e TW_kp_pevent_q"
      "pevents pe1 = (pevents pe)(k := es)" "\<forall>j. j \<noteq> k \<longrightarrow> kps pe1 j = kps pe j"
      "cancel_q pe1 = rev (filter (\<lambda>b. qowner (heap pe b) \<noteq> TW_pe_pq) (caused_by_me (heap pe e))) @ cancel_q pe"
      "GVT_sig pe1 = GVT_sig pe"
  shows "\<exists>pe'. pq_enqueue e (set_last_sig k s pe1) = Inr pe' \<and> pe_ok c U eq cl pe' \<and>
      pevents pe' = (pevents pe)(k := es) \<and> last_sig (kps pe' k) = s \<and>
      (\<forall>j. j \<noteq> k \<longrightarrow> kps pe' j = kps pe j) \<and>
      lps pe' = lps pe1 \<and> rolled (heap pe') (heap pe) e TW_pe_pq \<and>
      event_q pe' = event_q pe1 \<and> cev_abort pe' = cev_abort pe1 \<and> GVT_sig pe' = GVT_sig pe \<and> cancel_q pe' = cancel_q pe1"
proof -
  let ?hp = "heap pe" and ?pe2 = "set_last_sig k s pe1"
  note o = ok[unfolded pe_ok_def]
  obtain q' where q': "tw_pq_enqueue (lt_rand ((heap pe1)(e := (heap pe1 e)\<lparr>qowner := TW_pe_pq\<rparr>))) (pq pe1) e = Inr q'"
    "owned c U ((heap pe1)(e := (heap pe1 e)\<lparr>qowner := TW_pe_pq\<rparr>)) (free_q pe1) eq q' ((pevents pe)(k := es))"
    using owned_enqueue_pevent[of c U "heap pe1" "free_q pe1" eq "pq pe1" "pevents pe" k e es] p1(2) e by blast
  define pe' where "pe' = (upd_ev e (\<lambda>v. v\<lparr>qowner := TW_pe_pq\<rparr>) ?pe2)\<lparr>pq := q'\<rparr>"
  have run: "pq_enqueue e ?pe2 = Inr pe'"
    using q'(1) by (simp add: pq_enqueue_def pe'_def pe_simps Let_def)
  have pe': "heap pe' = (heap pe1)(e := (heap pe1 e)\<lparr>qowner := TW_pe_pq\<rparr>)" "free_q pe' = free_q pe1" "pq pe' = q'"
    "lps pe' = lps pe1" "kps pe' = (kps pe1)(k := (kps pe1 k)\<lparr>last_sig := s\<rparr>)" "event_q pe' = event_q pe1"
    "cev_abort pe' = cev_abort pe1" "GVT_sig pe' = GVT_sig pe1" "cancel_q pe' = cancel_q pe1"
    by (simp_all add: pe'_def pe_simps)
  have "pevents pe' j = pevents pe1 j" for j by (simp add: pe'(5))
  then have pv: "pevents pe' = (pevents pe)(k := es)" using p1(4) by presburger
  have r: "rolled (heap pe') ?hp e TW_pe_pq" using rolled_owner[OF p1(3)] rolled_out_msgs[OF p1(3)] unfolding pe'(1) by metis
  have eP: "e \<in> processed U ?hp"
    using pe_ok_pevents(3)[OF ok, of k] e by auto
  have k: "kids U ?hp (processed U ?hp)" and c: "cancel_ok U ?hp (cl @ cancel_q pe)" using o by simp_all
  have "processed U (heap pe') = processed U ?hp - {e}" by (rule processed_rolled[OF r]) simp
  then have k': "kids U (heap pe') (processed U (heap pe'))"
    using kids_rollback[OF k eP r] by (simp add: live_owner_def)
  have c': "cancel_ok U (heap pe') (cl @ cancel_q pe')"
  proof (rule cancel_rollback[OF k eP r _ c])
    have "distinct (caused_by_me (?hp e))" "set (caused_by_me (?hp e)) \<inter> set (cl @ cancel_q pe) = {}" "distinct (cl @ cancel_q pe)"
      using childrenD(1)[OF k eP] cancel_okD(3)[OF c eP] cancel_okD(1)[OF c] by simp_all
    then show "distinct (cl @ cancel_q pe')" unfolding pe'(9) p1(6) by auto
  qed (auto simp: pe'(9) p1(6))
  have "\<forall>a \<in> U. live_owner (qowner (heap pe' a)) \<longrightarrow> ev_recv_ts (heap pe' a) = recv_ts (qsig (heap pe' a))"
  proof (intro ballI impI)
    fix x assume x: "x \<in> U" "live_owner (qowner (heap pe' x))"
    then have "live_owner (qowner (?hp x))"
      using eP unfolding rolledD(11)[OF r] by (auto simp: live_owner_def split: if_splits)
    then show "ev_recv_ts (heap pe' x) = recv_ts (qsig (heap pe' x))"
      using o x(1) by (simp add: rolledD(9,10)[OF r])
  qed
  moreover have "idle (heap pe' x)" if "x \<in> U" for x
    by (rule idle_rolled[OF r pe_okD(9)[OF ok that]])
  moreover have "wf_sig (last_sig (kps pe' j))" for j
    using o s p1(5) by (simp add: pe'(5))
  ultimately have "pe_ok c U eq cl pe'"
    using o p1(1) q'(2) k' c' unfolding pe_ok_def pv
    by (simp add: pe'(1-4,8) p1(7) good_streams_def)
  then show ?thesis
    using run pv r pe' p1(5,7) by (intro exI[of _ pe']) simp
qed

lemma rollback_free:
  assumes ok: "pe_ok c U eq (e # cl) pe" and e: "pevents pe k = e # es" and s: "wf_sig s"
    and p1: "good_streams pe1" "owned c U (heap pe1) (free_q pe1) eq (pq pe1) (pevents pe)"
      "rolled (heap pe1) (heap pe) e TW_kp_pevent_q"
      "pevents pe1 = (pevents pe)(k := es)" "\<forall>j. j \<noteq> k \<longrightarrow> kps pe1 j = kps pe j"
      "cancel_q pe1 = rev (filter (\<lambda>b. qowner (heap pe b) \<noteq> TW_pe_pq) (caused_by_me (heap pe e))) @ cancel_q pe"
      "GVT_sig pe1 = GVT_sig pe"
  shows "pe_ok c U eq cl (tw_event_free e (set_last_sig k s pe1)) \<and>
    rolled (heap (tw_event_free e (set_last_sig k s pe1))) (heap pe) e TW_pe_free_q"
proof -
  let ?hp = "heap pe" and ?pe' = "tw_event_free e (set_last_sig k s pe1)"
  note o = ok[unfolded pe_ok_def]
  have pe': "heap ?pe' = (heap pe1)(e := (heap pe1 e)\<lparr>out_msgs := [], qowner := TW_pe_free_q\<rparr>)" "free_q ?pe' = e # free_q pe1"
    "pq ?pe' = pq pe1"
    "lps ?pe' = lps pe1" "kps ?pe' = (kps pe1)(k := (kps pe1 k)\<lparr>last_sig := s\<rparr>)" "event_q ?pe' = event_q pe1"
    "GVT_sig ?pe' = GVT_sig pe1" "cancel_q ?pe' = cancel_q pe1"
    by (simp_all add: pe_simps)
  have "pevents ?pe' j = pevents pe1 j" for j by (simp add: pe'(5))
  then have pv: "pevents ?pe' = (pevents pe)(k := es)" using p1(4) by presburger
  have r: "rolled (heap ?pe') ?hp e TW_pe_free_q"
    by (rule rolled_owner[OF p1(3) pe'(1)])
  have ek: "set (pevents pe k) = {x \<in> U. qowner (?hp x) = TW_kp_pevent_q \<and> kp_of c (dest_lp (?hp x)) = k}"
    "distinct (pevents pe k)"
    using o unfolding owned_def by metis+
  then have eP: "e \<in> processed U ?hp" "kp_of c (dest_lp (?hp e)) = k" using e by auto
  have k: "kids U ?hp (processed U ?hp)" and c: "cancel_ok U ?hp ((e # cl) @ cancel_q pe)" using o by simp_all
  have "processed U (heap ?pe') = processed U ?hp - {e}" by (rule processed_rolled[OF r]) simp
  moreover have "\<forall>b \<in> processed U ?hp. e \<notin> set (caused_by_me (?hp b))" using c by (auto simp: cancel_ok_def)
  ultimately have k': "kids U (heap ?pe') (processed U (heap ?pe'))"
    using kids_rollback[OF k eP(1) r] by simp
  have c': "cancel_ok U (heap ?pe') (cl @ cancel_q ?pe')"
  proof (rule cancel_rollback[OF k eP(1) r _ c])
    have d: "distinct (caused_by_me (?hp e))" "set (caused_by_me (?hp e)) \<inter> set ((e # cl) @ cancel_q pe) = {}"
      "distinct ((e # cl) @ cancel_q pe)"
      using childrenD(1)[OF k eP(1)] cancel_okD(3)[OF c eP(1)] cancel_okD(1)[OF c] by simp_all
    then show "distinct (cl @ cancel_q ?pe')" unfolding pe'(8) p1(6) by auto
    show "set (cl @ cancel_q ?pe') = {x \<in> set ((e # cl) @ cancel_q pe) \<union> {x \<in> set (caused_by_me (?hp e)).
      qowner (?hp x) \<noteq> TW_pe_pq}. TW_pe_free_q = TW_pe_free_q \<longrightarrow> x \<noteq> e}"
      using d unfolding pe'(8) p1(6) by auto
  qed simp
  have "\<forall>a \<in> U. live_owner (qowner (heap ?pe' a)) \<longrightarrow> ev_recv_ts (heap ?pe' a) = recv_ts (qsig (heap ?pe' a))"
  proof (intro ballI impI)
    fix x assume x: "x \<in> U" "live_owner (qowner (heap ?pe' x))"
    then have "live_owner (qowner (?hp x))"
      unfolding rolledD(11)[OF r] by (auto simp: live_owner_def split: if_splits)
    then show "ev_recv_ts (heap ?pe' x) = recv_ts (qsig (heap ?pe' x))"
      using o x(1) by (simp add: rolledD(9,10)[OF r])
  qed
  moreover have "idle (heap ?pe' x)" if "x \<in> U" for x
    by (rule idle_rolled[OF r pe_okD(9)[OF ok that]])
  moreover have "wf_sig (last_sig (kps ?pe' j))" for j
    using o s p1(5) by (simp add: pe'(5))
  moreover have "owned c U (heap ?pe') (free_q ?pe') eq (pq ?pe') (pevents ?pe')"
    using owned_free_pevent[OF p1(2) e, of "heap ?pe'"] rolledD(1)[OF p1(3)] unfolding pe'(1-3) pv by auto
  ultimately have "pe_ok c U eq cl ?pe'"
    using o p1(1) k' c' unfolding pe_ok_def pv
    by (simp add: pe'(1-4,7) p1(7) good_streams_def)
  with r show ?thesis by blast
qed

section \<open>Rolling back to a signature\<close>

lemma undone_heap_Cons:
  assumes "undone_heap {} hp1 hp [e]" "undone_heap F hp2 hp1 es" "e \<notin> set es" "e \<notin> set (caused_by_me (hp e))"
    "set (caused_by_me (hp e)) \<inter> kids_of hp es = {}" "e \<notin> F"
  shows "undone_heap F hp2 hp (e # es)"
proof -
  have h1: "\<And>b. b \<noteq> e \<Longrightarrow> hp1 b = (if b \<in> set (caused_by_me (hp e)) then cancelled (hp b) else hp b)"
    "caused_by_me (hp1 e) = []" "aborted_total (hp1 e) = 0" "qsig (hp1 e) = qsig (hp e)" "dest_lp (hp1 e) = dest_lp (hp e)"
    "ev_recv_ts (hp1 e) = ev_recv_ts (hp e)" "qowner (hp1 e) = TW_pe_pq"
    "event_id (hp1 e) = event_id (hp e)" "send_pe (hp1 e) = send_pe (hp e)"
    using assms(1,4) by (auto simp: undone_heap_def)
  then have sel: "caused_by_me (hp1 b) = caused_by_me (hp b)" "qsig (hp1 b) = qsig (hp b)" "dest_lp (hp1 b) = dest_lp (hp b)"
    "ev_recv_ts (hp1 b) = ev_recv_ts (hp b)" "event_id (hp1 b) = event_id (hp b)" "send_pe (hp1 b) = send_pe (hp b)"
    if "b \<noteq> e" for b using that by auto
  have "(\<lambda>x. set (caused_by_me (hp1 x))) x = (\<lambda>x. set (caused_by_me (hp x))) x" if "x \<in> set es" for x
  proof -
    have "x \<noteq> e" using assms(3) that by metis
    then show ?thesis by (simp add: sel(1))
  qed
  then have ks: "kids_of hp1 es = kids_of hp es"
    unfolding kids_of_def by (rule SUP_cong[OF refl])
  have h2: "\<And>b. b \<notin> set es \<Longrightarrow> hp2 b = (if b \<in> kids_of hp es then cancelled (hp1 b) else hp1 b)"
    "\<And>b. b \<in> set es \<Longrightarrow> qowner (hp2 b) = TW_pe_pq \<and> b \<notin> F \<or> qowner (hp2 b) = TW_pe_free_q \<and> b \<in> kids_of hp es \<union> F"
    "\<And>b. b \<in> set es \<Longrightarrow> caused_by_me (hp2 b) = [] \<and> aborted_total (hp2 b) = 0 \<and> qsig (hp2 b) = qsig (hp1 b) \<and>
         dest_lp (hp2 b) = dest_lp (hp1 b) \<and> ev_recv_ts (hp2 b) = ev_recv_ts (hp1 b) \<and>
         event_id (hp2 b) = event_id (hp1 b) \<and> send_pe (hp2 b) = send_pe (hp1 b)"
    using assms(2) ks by (auto simp: undone_heap_def)
  have e2: "hp2 e = (if e \<in> kids_of hp es then cancelled (hp1 e) else hp1 e)" using h2(1) assms(3) by simp
  show ?thesis
    unfolding undone_heap_def
  proof (intro conjI allI impI ballI)
    fix b assume b: "b \<notin> set (e # es)"
    then show "hp2 b = (if b \<in> kids_of hp (e # es) then cancelled (hp b) else hp b)"
      using h2(1)[of b] h1(1)[of b] assms(5) by auto
  next
    fix b assume b: "b \<in> set (e # es)"
    then show "qowner (hp2 b) = TW_pe_pq \<and> b \<notin> F \<or> qowner (hp2 b) = TW_pe_free_q \<and> b \<in> kids_of hp (e # es) \<union> F"
      using h2(2)[of b] e2 h1(7) assms(6) by (cases "b = e") auto
    have "caused_by_me (hp2 b) = [] \<and> aborted_total (hp2 b) = 0 \<and> qsig (hp2 b) = qsig (hp b) \<and> dest_lp (hp2 b) = dest_lp (hp b) \<and>
        ev_recv_ts (hp2 b) = ev_recv_ts (hp b) \<and> event_id (hp2 b) = event_id (hp b) \<and> send_pe (hp2 b) = send_pe (hp b)"
    proof (cases "b = e")
      case True
      then show ?thesis using h1(2-6,8,9) unfolding True e2 by (cases "e \<in> kids_of hp es") simp_all
    next
      case False
      then have "b \<in> set es" using b by simp
      then show ?thesis unfolding h2(3)[THEN conjunct1] using h2(3)[of b] sel(2-6)[OF False] by metis
    qed
    then show "caused_by_me (hp2 b) = []" "aborted_total (hp2 b) = 0" "qsig (hp2 b) = qsig (hp b)" "dest_lp (hp2 b) = dest_lp (hp b)"
      "ev_recv_ts (hp2 b) = ev_recv_ts (hp b)" "event_id (hp2 b) = event_id (hp b)" "send_pe (hp2 b) = send_pe (hp b)"
      by simp_all
  qed
qed

lemma rolled_undone: "rolled hp' hp e TW_pe_pq \<Longrightarrow> e \<notin> set (caused_by_me (hp e)) \<Longrightarrow> undone_heap {} hp' hp [e]"
  by (auto simp: undone_heap_def rolled_def)

lemma rolled_freed: "rolled hp' hp e TW_pe_free_q \<Longrightarrow> e \<notin> set (caused_by_me (hp e)) \<Longrightarrow> undone_heap {e} hp' hp [e]"
  by (auto simp: undone_heap_def rolled_def)

lemma undone_heap_qsig: "undone_heap F hp' hp es \<Longrightarrow> qsig (hp' b) = qsig (hp b)"
  "undone_heap F hp' hp es \<Longrightarrow> dest_lp (hp' b) = dest_lp (hp b)"
  "undone_heap F hp' hp es \<Longrightarrow> event_id (hp' b) = event_id (hp b)"
  "undone_heap F hp' hp es \<Longrightarrow> send_pe (hp' b) = send_pe (hp b)"
  by (cases "b \<in> set es"; auto simp: undone_heap_def)+

text \<open>
  When every child of an event that is undone is pending or has been undone before it, all
  children are freed, and none goes to the queue of cancelled events.
\<close>

definition tidy :: "(addr \<Rightarrow> ('bf, 'm) pevent) \<Rightarrow> addr list \<Rightarrow> bool" where
  "tidy hp xs \<longleftrightarrow> (\<forall>us e vs. xs = us @ e # vs \<longrightarrow>
     (\<forall>b \<in> set (caused_by_me (hp e)). qowner (hp b) = TW_pe_pq \<or> b \<in> set us))"

lemma tidy_Cons:
  assumes t: "tidy hp (e # es)" and u: "undone_heap {} hp' hp [e]" and d: "e \<notin> set es" "e \<notin> set (caused_by_me (hp e))"
    and k: "set (caused_by_me (hp e)) \<inter> kids_of hp es = {}"
  shows "\<forall>b \<in> set (caused_by_me (hp e)). qowner (hp b) = TW_pe_pq" "tidy hp' es"
proof -
  show "\<forall>b \<in> set (caused_by_me (hp e)). qowner (hp b) = TW_pe_pq"
    using t unfolding tidy_def by (metis append_Nil empty_iff empty_set)
  have h: "qowner (hp' e) = TW_pe_pq" "\<And>b. b \<noteq> e \<Longrightarrow> hp' b = (if b \<in> set (caused_by_me (hp e)) then cancelled (hp b) else hp b)"
    using u d(2) by (auto simp: undone_heap_def)
  show "tidy hp' es"
    unfolding tidy_def
  proof (intro allI impI ballI)
    fix us x vs b assume es: "es = us @ x # vs" and b: "b \<in> set (caused_by_me (hp' x))"
    have x: "x \<noteq> e" "x \<in> set es" using es d(1) by auto
    have c: "caused_by_me (hp' x) = caused_by_me (hp x)" using h(2)[OF x(1)] by simp
    then have b': "b \<in> kids_of hp es" "b \<in> set (caused_by_me (hp x))" using b x(2) by (auto simp: kids_of_def)
    have "e # es = (e # us) @ x # vs" using es by simp
    then have "qowner (hp b) = TW_pe_pq \<or> b \<in> set (e # us)" using t b'(2) unfolding tidy_def by blast
    moreover have "b \<notin> set (caused_by_me (hp e))" using b'(1) k by blast
    ultimately show "qowner (hp' b) = TW_pe_pq \<or> b \<in> set us" using h(1) h(2)[of b] by (cases "b = e") auto
  qed
qed

lemma undone_heap_Nil [simp]: "undone_heap {} hp hp []"
  by (simp add: undone_heap_def)

lemma kids_of_disjoint:
  assumes "kids U hp P" "e \<in> P" "set es \<subseteq> P" "e \<notin> set es"
  shows "set (caused_by_me (hp e)) \<inter> kids_of hp es = {}" "e \<notin> set (caused_by_me (hp e))"
proof -
  show "e \<notin> set (caused_by_me (hp e))" using assms(1,2) by (simp add: kids_def)
  have "set (caused_by_me (hp e)) \<inter> set (caused_by_me (hp x)) = {}" if "x \<in> set es" for x
  proof -
    have "x \<in> P" "e \<noteq> x" using that assms(3,4) by auto
    then show ?thesis using assms(1,2) by (simp add: kids_def)
  qed
  then show "set (caused_by_me (hp e)) \<inter> kids_of hp es = {}"
    unfolding kids_of_def by blast
qed

text \<open>
  The loop of \<open>tw_kp_rollback_to_sig\<close> never fails; the length of the processed queue bounds it.
  It undoes the longest prefix of events not before the signature and, if there is any, leaves
  the KP at the time of the newest event left, or at GVT.
\<close>

definition head_sig :: "('st, 'bf, 'm, 'z) tw_pe_scheme \<Rightarrow> nat \<Rightarrow> tw_event_sig" where
  "head_sig pe k = (case pevents pe k of [] \<Rightarrow> GVT_sig pe | h # _ \<Rightarrow> qsig (heap pe h))"

lemma rollback_loop_ok:
  assumes "pe_ok c U eq cl pe" "length (pevents pe k) \<le> n"
  shows "\<exists>pe'. rollback_loop n c net k to_sig pe = Inr pe' \<and> pe_ok c U eq cl pe' \<and>
    pevents pe' = (pevents pe)(k := dropWhile (\<lambda>e. tw_event_sig_compare_ptr (qsig (heap pe e)) to_sig \<ge> 0) (pevents pe k)) \<and>
    (\<forall>j. j \<noteq> k \<longrightarrow> kps pe' j = kps pe j) \<and>
    lps pe' = undo c (heap pe) (takeWhile (\<lambda>e. tw_event_sig_compare_ptr (qsig (heap pe e)) to_sig \<ge> 0) (pevents pe k)) (lps pe) \<and>
    undone_heap {} (heap pe') (heap pe) (takeWhile (\<lambda>e. tw_event_sig_compare_ptr (qsig (heap pe e)) to_sig \<ge> 0) (pevents pe k)) \<and>
    event_q pe' = event_q pe \<and> cev_abort pe' = cev_abort pe \<and> GVT_sig pe' = GVT_sig pe \<and>
    (if pevents pe' k = pevents pe k then last_sig (kps pe' k) = last_sig (kps pe k)
     else sig_key (last_sig (kps pe' k)) = sig_key (head_sig pe' k)) \<and>
    (tidy (heap pe) (takeWhile (\<lambda>e. tw_event_sig_compare_ptr (qsig (heap pe e)) to_sig \<ge> 0) (pevents pe k)) \<longrightarrow>
      cancel_q pe' = cancel_q pe \<and>
      (\<forall>b \<in> kids_of (heap pe) (takeWhile (\<lambda>e. tw_event_sig_compare_ptr (qsig (heap pe e)) to_sig \<ge> 0) (pevents pe k)).
        qowner (heap pe' b) = TW_pe_free_q))"
  using assms
proof (induction n arbitrary: pe)
  case 0
  then show ?case by (auto simp: rollback_loop.simps fun_eq_iff)
next
  case (Suc n)
  show ?case
  proof (cases "pevents pe k")
    case Nil
    then show ?thesis using Suc.prems by (auto simp: rollback_loop.simps fun_eq_iff)
  next
    case (Cons e es)
    let ?P = "\<lambda>e. tw_event_sig_compare_ptr (qsig (heap pe e)) to_sig \<ge> 0"
    show ?thesis
    proof (cases "?P e")
      case False
      then show ?thesis using Cons Suc.prems by (auto simp: rollback_loop.simps fun_eq_iff)
    next
      case True
      let ?pe0 = "upd_kp k (\<lambda>kp. kp\<lparr>pevent_q := es\<rparr>) pe"
      obtain pe1 where p1: "tw_event_rollback c net e ?pe0 = Inr pe1" "good_streams pe1"
        "owned c U (heap pe1) (free_q pe1) eq (pq pe1) (pevents pe)"
        "rolled (heap pe1) (heap pe) e TW_kp_pevent_q" "lps pe1 = undo_step c (heap pe) e (lps pe)"
        "pevents pe1 = (pevents pe)(k := es)" "\<forall>j. j \<noteq> k \<longrightarrow> kps pe1 j = kps pe j"
        "last_sig (kps pe1 k) = qsig (heap pe e)"
        "cancel_q pe1 = rev (filter (\<lambda>b. qowner (heap pe b) \<noteq> TW_pe_pq) (caused_by_me (heap pe e))) @ cancel_q pe"
        "event_q pe1 = event_q pe" "cev_abort pe1 = cev_abort pe" "GVT_sig pe1 = GVT_sig pe"
        using rollback_mid[OF Suc.prems(1) Cons pop_facts(1-5,7-11)[OF refl]] by blast
      have ne: "e \<notin> set (caused_by_me (heap pe e))"
        using pe_ok_pevents(3)[OF Suc.prems(1), of k] Cons Suc.prems(1) by (auto simp: pe_ok_def kids_def)
      define s where "s = tw_copy_event_sig (last_sig (kps pe1 k))
        (case pevents pe1 k of [] \<Rightarrow> GVT_sig pe1 | h # _ \<Rightarrow> qsig (heap pe1 h))"
      have pv1: "pevents pe1 k = es" using fun_cong[OF p1(6), of k] by simp
      define hs where "hs = (case es of [] \<Rightarrow> GVT_sig pe | h # _ \<Rightarrow> qsig (heap pe h))"
      have s_eq: "s = tw_copy_event_sig (qsig (heap pe e)) hs"
        unfolding s_def pv1 p1(8,12) hs_def rolledD(9)[OF p1(4)] by (simp split: list.split)
      have "wf_sig (qsig (heap pe e))" using pe_ok_wf[OF Suc.prems(1), of e k] Cons by simp
      moreover have whs: "wf_sig hs"
      proof (cases es)
        case Nil
        then show ?thesis using Suc.prems(1) by (simp add: hs_def pe_ok_def)
      next
        case (Cons h t)
        then show ?thesis using pe_ok_wf[OF Suc.prems(1), of h k] \<open>pevents pe k = e # es\<close> by (simp add: hs_def)
      qed
      ultimately have s: "wf_sig s" "sig_key s = sig_key hs"
        unfolding s_eq by (auto intro: wf_copy_sig sig_key_copy)
      obtain pe2 where p2: "pq_enqueue e (set_last_sig k s pe1) = Inr pe2" "pe_ok c U eq cl pe2"
          "pevents pe2 = (pevents pe)(k := es)" "\<forall>j. j \<noteq> k \<longrightarrow> kps pe2 j = kps pe j"
          "lps pe2 = undo_step c (heap pe) e (lps pe)" "undone_heap {} (heap pe2) (heap pe) [e]" "last_sig (kps pe2 k) = s"
          "event_q pe2 = event_q pe" "cev_abort pe2 = cev_abort pe" "GVT_sig pe2 = GVT_sig pe" "cancel_q pe2 = cancel_q pe1"
        using rollback_put_back[OF Suc.prems(1) Cons s(1) p1(2-4,6,7,9,12)] p1(5,10,11) rolled_undone[where hp = "heap pe" and e = e] ne by auto
      have step: "rollback_loop (Suc n) c net k to_sig pe = rollback_loop n c net k to_sig pe2"
        using Cons True p1(1) p2(1) by (subst rollback_loop.simps) (simp add: s_def[symmetric] Let_def)
      have es: "pevents pe2 k = es" using fun_cong[OF p2(3), of k] by simp
      then have "length (pevents pe2 k) \<le> n" using Suc.prems(2) Cons by simp
      from Suc.IH[OF p2(2) this] obtain pe3 where p3: "rollback_loop n c net k to_sig pe2 = Inr pe3" "pe_ok c U eq cl pe3"
        "pevents pe3 = (pevents pe2)(k := dropWhile (\<lambda>e. tw_event_sig_compare_ptr (qsig (heap pe2 e)) to_sig \<ge> 0) es)"
        "\<forall>j. j \<noteq> k \<longrightarrow> kps pe3 j = kps pe2 j"
        "lps pe3 = undo c (heap pe2) (takeWhile (\<lambda>e. tw_event_sig_compare_ptr (qsig (heap pe2 e)) to_sig \<ge> 0) es) (lps pe2)"
        "undone_heap {} (heap pe3) (heap pe2) (takeWhile (\<lambda>e. tw_event_sig_compare_ptr (qsig (heap pe2 e)) to_sig \<ge> 0) es)"
        "event_q pe3 = event_q pe2" "cev_abort pe3 = cev_abort pe2" "GVT_sig pe3 = GVT_sig pe2"
        "if pevents pe3 k = es then last_sig (kps pe3 k) = last_sig (kps pe2 k)
         else sig_key (last_sig (kps pe3 k)) = sig_key (head_sig pe3 k)"
        "tidy (heap pe2) (takeWhile (\<lambda>e. tw_event_sig_compare_ptr (qsig (heap pe2 e)) to_sig \<ge> 0) es) \<longrightarrow> cancel_q pe3 = cancel_q pe2 \<and>
          (\<forall>b \<in> kids_of (heap pe2) (takeWhile (\<lambda>e. tw_event_sig_compare_ptr (qsig (heap pe2 e)) to_sig \<ge> 0) es).
            qowner (heap pe3 b) = TW_pe_free_q)"
        unfolding es by blast
      have d: "e \<notin> set es" using pe_ok_pevents(2)[OF Suc.prems(1), of k] Cons by simp
      have qs: "qsig (heap pe2 x) = qsig (heap pe x)" for x
        using p2(6) by (cases "x = e") (auto simp: undone_heap_def)
      have sub: "set es \<subseteq> processed U (heap pe)" "e \<in> processed U (heap pe)"
        using pe_ok_pevents(3)[OF Suc.prems(1), of k] Cons by auto
      have us: "undo_same (heap pe2 x) (heap pe x)" if "x \<in> set (takeWhile ?P es)" for x
      proof -
        have "x \<noteq> e" using that d set_takeWhileD by metis
        then show ?thesis using p2(6) by (simp add: undone_heap_def)
      qed
      have tw: "takeWhile ?P (pevents pe k) = e # takeWhile ?P es" using Cons True by simp
      have dj: "set (caused_by_me (heap pe e)) \<inter> kids_of (heap pe) (takeWhile ?P es) = {}" "e \<notin> set (caused_by_me (heap pe e))"
      proof -
        have "kids U (heap pe) (processed U (heap pe))" using Suc.prems(1) by (simp add: pe_ok_def)
        moreover have tw: "set (takeWhile ?P es) \<subseteq> processed U (heap pe)"
          using sub(1) set_takeWhileD by fast
        moreover have tw': "e \<notin> set (takeWhile ?P es)"
          using d set_takeWhileD by metis
        ultimately show "set (caused_by_me (heap pe e)) \<inter> kids_of (heap pe) (takeWhile ?P es) = {}" "e \<notin> set (caused_by_me (heap pe e))"
          by (rule kids_of_disjoint[OF _ sub(2)])+
      qed
      have u: "undone_heap {} (heap pe3) (heap pe) (e # takeWhile ?P es)"
        using p3(6) unfolding qs by (intro undone_heap_Cons[OF p2(6)] dj) (auto dest: set_takeWhileD simp: d)
      have l: "lps pe3 = undo c (heap pe) (e # takeWhile ?P es) (lps pe)"
        using p3(5) p2(5) undo_cong[of "takeWhile ?P es" "heap pe2" "heap pe" c "lps pe2", OF us] unfolding qs by simp
      have pv: "pevents pe3 = (pevents pe)(k := dropWhile ?P (pevents pe k))"
        using p3(3) p2(3) Cons True unfolding qs by simp
      have kp: "\<forall>j. j \<noteq> k \<longrightarrow> kps pe3 j = kps pe j" using p3(4) p2(4) by simp
      have rest: "event_q pe3 = event_q pe" "cev_abort pe3 = cev_abort pe" "GVT_sig pe3 = GVT_sig pe"
        using p3(7-9) p2(8-10) by simp_all
      have td: "tidy (heap pe) (e # takeWhile ?P es) \<longrightarrow> cancel_q pe3 = cancel_q pe \<and>
          (\<forall>b \<in> kids_of (heap pe) (e # takeWhile ?P es). qowner (heap pe3 b) = TW_pe_free_q)"
      proof
        assume t: "tidy (heap pe) (e # takeWhile ?P es)"
        have de: "e \<notin> set (takeWhile ?P es)" using d set_takeWhileD by metis
        have t1: "\<forall>b \<in> set (caused_by_me (heap pe e)). qowner (heap pe b) = TW_pe_pq" and t2: "tidy (heap pe2) (takeWhile ?P es)"
          by (rule tidy_Cons[OF t p2(6) de dj(2,1)])+
        have kk: "kids_of (heap pe2) (takeWhile ?P es) = kids_of (heap pe) (takeWhile ?P es)"
          unfolding kids_of_def using us by (intro SUP_cong) (simp_all add: undo_same_def)
        have c3: "cancel_q pe3 = cancel_q pe2 \<and> (\<forall>b \<in> kids_of (heap pe) (takeWhile ?P es). qowner (heap pe3 b) = TW_pe_free_q)"
          using p3(11) t2 unfolding qs kk by blast
        have "filter (\<lambda>b. qowner (heap pe b) \<noteq> TW_pe_pq) (caused_by_me (heap pe e)) = []" using t1 by simp
        then have "cancel_q pe3 = cancel_q pe" using c3 p2(11) p1(9) by simp
        moreover have "qowner (heap pe3 b) = TW_pe_free_q" if b: "b \<in> set (caused_by_me (heap pe e))" for b
        proof -
          have pq: "qowner (heap pe b) = TW_pe_pq" and be: "b \<noteq> e" using b t1 dj(2) by auto
          have "set (takeWhile ?P es) \<subseteq> processed U (heap pe)" using sub(1) set_takeWhileD by fast
          then have "b \<notin> set (takeWhile ?P es)" using pq by auto
          moreover have "b \<notin> kids_of (heap pe) (takeWhile ?P es)" using b dj(1) by blast
          ultimately have "heap pe3 b = heap pe2 b" using p3(6) unfolding undone_heap_def qs kk by simp
          moreover have "heap pe2 b = cancelled (heap pe b)" using p2(6) be b by (simp add: undone_heap_def)
          ultimately show ?thesis using pq by (simp add: cancelled_def)
        qed
        ultimately show "cancel_q pe3 = cancel_q pe \<and> (\<forall>b \<in> kids_of (heap pe) (e # takeWhile ?P es). qowner (heap pe3 b) = TW_pe_free_q)"
          using c3 by (simp add: ball_Un)
      qed
      have qs3: "qsig (heap pe3 x) = qsig (heap pe x)" for x
        using u by (cases "x \<in> set (e # takeWhile ?P es)") (auto simp: undone_heap_def)
      have "sig_key (last_sig (kps pe3 k)) = sig_key (head_sig pe3 k)"
      proof (cases "pevents pe3 k = es")
        case True
        then have "head_sig pe3 k = hs" using qs3 rest(3) by (simp add: head_sig_def hs_def split: list.split)
        then show ?thesis using True p3(10) p2(7) s(2) by simp
      qed (use p3(10) in simp)
      moreover have "pevents pe3 k \<noteq> pevents pe k"
      proof -
        have "pevents pe3 k = dropWhile ?P es" using fun_cong[OF pv, of k] Cons True by simp
        then have "length (pevents pe3 k) \<le> length es" by (simp add: length_dropWhile_le)
        then show ?thesis using Cons by auto
      qed
      ultimately have ls: "if pevents pe3 k = pevents pe k then last_sig (kps pe3 k) = last_sig (kps pe k)
         else sig_key (last_sig (kps pe3 k)) = sig_key (head_sig pe3 k)" by simp
      show ?thesis unfolding tw
        by (rule exI[of _ pe3]) (intro conjI p3(2) pv kp l u rest ls td trans[OF step p3(1)])
    qed
  qed
qed


text \<open>\<open>tw_kp_rollback_to_sig\<close> counts the rollback and runs the loop.\<close>

lemma pe_ok_same:
  assumes "pe_ok c U eq cl pe" "heap pe' = heap pe" "free_q pe' = free_q pe" "pq pe' = pq pe" "lps pe' = lps pe"
    "cancel_q pe' = cancel_q pe" "\<And>k. pevents pe' k = pevents pe k" "\<And>k. wf_sig (last_sig (kps pe' k))" "GVT_sig pe' = GVT_sig pe"
  shows "pe_ok c U eq cl pe'"
  using assms by (simp add: pe_ok_def good_streams_def)

lemma kp_stat_facts:
  fixes pe :: "('st, 'bf, 'm, 'z) tw_pe_scheme"
  assumes "pe0 = upd_kp k f pe" "\<And>kp. pevent_q (f kp) = pevent_q kp" "\<And>kp. last_sig (f kp) = last_sig kp"
  shows "heap pe0 = heap pe" "free_q pe0 = free_q pe" "pq pe0 = pq pe" "lps pe0 = lps pe" "cancel_q pe0 = cancel_q pe"
    "pevents pe0 j = pevents pe j" "last_sig (kps pe0 j) = last_sig (kps pe j)" "j \<noteq> k \<Longrightarrow> kps pe0 j = kps pe j"
    "event_q pe0 = event_q pe" "cev_abort pe0 = cev_abort pe" "GVT_sig pe0 = GVT_sig pe"
  using assms by (simp_all add: pe_simps)

text \<open>The outcome of undoing the newest events \<open>xs\<close> of a KP and leaving \<open>ys\<close>.\<close>

definition undone :: "('st, 'bf, 'm) config \<Rightarrow> addr set \<Rightarrow> nat \<Rightarrow> addr list \<Rightarrow> addr list
    \<Rightarrow> ('st, 'bf, 'm, 'z) tw_pe_scheme \<Rightarrow> ('st, 'bf, 'm, 'z) tw_pe_scheme \<Rightarrow> bool" where
  "undone c F k xs ys pe pe' \<longleftrightarrow>
     pevents pe k = xs @ ys \<and> (\<forall>j. pevents pe' j = (if j = k then ys else pevents pe j)) \<and>
     (\<forall>j. j \<noteq> k \<longrightarrow> last_sig (kps pe' j) = last_sig (kps pe j)) \<and>
     lps pe' = undo c (heap pe) xs (lps pe) \<and> undone_heap F (heap pe') (heap pe) xs \<and>
     event_q pe' = event_q pe \<and> cev_abort pe' = cev_abort pe \<and> GVT_sig pe' = GVT_sig pe \<and>
     (if xs = [] then last_sig (kps pe' k) = last_sig (kps pe k)
      else sig_key (last_sig (kps pe' k)) = sig_key (head_sig pe' k))"

lemma rollback_to_sig_ok:
  assumes "pe_ok c U eq cl pe" and P_def: "P = (\<lambda>e. tw_event_sig_compare_ptr (qsig (heap pe e)) to_sig \<ge> 0)"
  shows "\<exists>pe'. tw_kp_rollback_to_sig c net k to_sig pe = Inr pe' \<and> pe_ok c U eq cl pe' \<and>
    undone c {} k (takeWhile P (pevents pe k)) (dropWhile P (pevents pe k)) pe pe' \<and>
    (tidy (heap pe) (takeWhile P (pevents pe k)) \<longrightarrow> cancel_q pe' = cancel_q pe \<and>
       (\<forall>b \<in> kids_of (heap pe) (takeWhile P (pevents pe k)). qowner (heap pe' b) = TW_pe_free_q))"
proof -
  define pe0 where "pe0 = upd_kp k (\<lambda>kp. kp\<lparr>s_rb_total := s_rb_total kp + 1\<rparr>) pe"
  note f = kp_stat_facts[OF pe0_def, simplified]
  have ok: "pe_ok c U eq cl pe0"
    using assms(1) by (rule pe_ok_same) (use assms(1) f in \<open>auto simp: pe_ok_def\<close>)
  have hd: "head_sig pe0 = head_sig pe" by (rule ext) (simp add: head_sig_def f split: list.split)
  have eq: "takeWhile P xs = xs \<and> dropWhile P xs = [] \<longleftrightarrow> (\<forall>x\<in>set xs. P x)" for xs
    by (auto dest: set_takeWhileD simp: takeWhile_eq_all_conv)
  obtain pe' where p: "rollback_loop (length (pevents pe0 k)) c net k to_sig pe0 = Inr pe'" "pe_ok c U eq cl pe'"
    "pevents pe' = (pevents pe0)(k := dropWhile P (pevents pe0 k))"
    "\<forall>j. j \<noteq> k \<longrightarrow> kps pe' j = kps pe0 j"
    "lps pe' = undo c (heap pe0) (takeWhile P (pevents pe0 k)) (lps pe0)"
    "undone_heap {} (heap pe') (heap pe0) (takeWhile P (pevents pe0 k))"
    "event_q pe' = event_q pe0" "cev_abort pe' = cev_abort pe0" "GVT_sig pe' = GVT_sig pe0"
    "if pevents pe' k = pevents pe0 k then last_sig (kps pe' k) = last_sig (kps pe0 k)
     else sig_key (last_sig (kps pe' k)) = sig_key (head_sig pe' k)"
    "tidy (heap pe0) (takeWhile P (pevents pe0 k)) \<longrightarrow> cancel_q pe' = cancel_q pe0 \<and>
       (\<forall>b \<in> kids_of (heap pe0) (takeWhile P (pevents pe0 k)). qowner (heap pe' b) = TW_pe_free_q)"
    using rollback_loop_ok[OF ok order_refl, of k net to_sig] unfolding P_def f(1) by blast
  have run: "tw_kp_rollback_to_sig c net k to_sig pe = Inr pe'"
    using p(1) unfolding tw_kp_rollback_to_sig_def Let_def pe0_def[symmetric] .
  have pv: "pevents pe' j = (if j = k then dropWhile P (pevents pe k) else pevents pe j)" for j
    using fun_cong[OF p(3), of j] f(6) by simp
  have "dropWhile P (pevents pe k) = pevents pe k \<longleftrightarrow> takeWhile P (pevents pe k) = []"
    by (metis append_Nil append_self_conv2 takeWhile_dropWhile_id)
  then have ls: "if takeWhile P (pevents pe k) = [] then last_sig (kps pe' k) = last_sig (kps pe k)
      else sig_key (last_sig (kps pe' k)) = sig_key (head_sig pe' k)"
    using p(10) pv[of k] f(6,7) by simp
  have "undone c {} k (takeWhile P (pevents pe k)) (dropWhile P (pevents pe k)) pe pe'"
    unfolding undone_def using pv p(4-9) f ls by simp
  moreover have "tidy (heap pe) (takeWhile P (pevents pe k)) \<longrightarrow> cancel_q pe' = cancel_q pe \<and>
       (\<forall>b \<in> kids_of (heap pe) (takeWhile P (pevents pe k)). qowner (heap pe' b) = TW_pe_free_q)"
    using p(11) unfolding f(1,5,6) .
  ultimately show ?thesis using run p(2) by blast
qed


section \<open>Rolling back one event\<close>

lemma set_last_sig_id: "set_last_sig k (last_sig (kps pe k)) pe = pe"
  by (simp add: set_last_sig_def upd_kp_def)

lemma set_last_sig_pop_facts:
  fixes pe :: "('st, 'bf, 'm, 'z) tw_pe_scheme"
  assumes "pe0 = set_last_sig k s (upd_kp k (\<lambda>kp. kp\<lparr>pevent_q := es\<rparr>) pe)"
  shows "heap pe0 = heap pe" "free_q pe0 = free_q pe" "pq pe0 = pq pe" "lps pe0 = lps pe" "cancel_q pe0 = cancel_q pe"
    "pevents pe0 = (pevents pe)(k := es)" "\<forall>j. j \<noteq> k \<longrightarrow> kps pe0 j = kps pe j"
    "event_q pe0 = event_q pe" "cev_abort pe0 = cev_abort pe" "GVT_sig pe0 = GVT_sig pe"
  using assms by (simp_all add: pe_simps fun_eq_iff)

lemma undo_append: "undo c hp (xs @ ys) L = undo c hp ys (undo c hp xs L)"
  by (simp add: undo_def)

text \<open>
  The loop of \<open>tw_kp_rollback_event\<close> up to the event itself, which is then in no queue; \<open>x\<close>
  stands for the state in which the caller frees it.
\<close>

lemma rollback_event_loop_ok:
  assumes "pe_ok c U eq (event # cl) pe" "pevents pe k = xs @ event # ys" "event \<notin> set xs" "length xs \<le> n"
  shows "\<exists>pe1. rollback_event_loop n c net k event pe = Inr pe1 \<and>
    pevents pe1 k = ys \<and> GVT_sig pe1 = GVT_sig pe \<and> (\<forall>b. qsig (heap pe1 b) = qsig (heap pe b)) \<and>
    (\<forall>s pe'. wf_sig s \<longrightarrow> sig_key s = sig_key (head_sig pe1 k) \<longrightarrow> pe' = tw_event_free event (set_last_sig k s pe1) \<longrightarrow>
      pe_ok c U eq cl pe' \<and> undone c {event} k (xs @ [event]) ys pe pe')"
  using assms
proof (induction xs arbitrary: pe n)
  case Nil
  note pv = Nil.prems(2)[unfolded append_Nil]
  let ?pe0 = "upd_kp k (\<lambda>kp. kp\<lparr>pevent_q := ys\<rparr>) pe"
  obtain pe1 where p1: "tw_event_rollback c net event ?pe0 = Inr pe1" "good_streams pe1"
    "owned c U (heap pe1) (free_q pe1) eq (pq pe1) (pevents pe)"
    "rolled (heap pe1) (heap pe) event TW_kp_pevent_q" "lps pe1 = undo_step c (heap pe) event (lps pe)"
    "pevents pe1 = (pevents pe)(k := ys)" "\<forall>j. j \<noteq> k \<longrightarrow> kps pe1 j = kps pe j"
    "last_sig (kps pe1 k) = qsig (heap pe event)"
    "cancel_q pe1 = rev (filter (\<lambda>b. qowner (heap pe b) \<noteq> TW_pe_pq) (caused_by_me (heap pe event))) @ cancel_q pe"
    "event_q pe1 = event_q pe" "cev_abort pe1 = cev_abort pe" "GVT_sig pe1 = GVT_sig pe"
    using rollback_mid[OF Nil.prems(1) pv pop_facts(1-5,7-11)[OF refl]] by blast
  have run: "rollback_event_loop n c net k event pe = Inr pe1"
    using pv p1(1) by (subst rollback_event_loop.simps) (simp add: Let_def)
  have ys: "pevents pe1 k = ys" using fun_cong[OF p1(6), of k] by simp
  have ne: "event \<notin> set (caused_by_me (heap pe event))"
    using pe_ok_pevents(3)[OF Nil.prems(1), of k] pv Nil.prems(1) by (auto simp: pe_ok_def kids_def)
  have fin: "pe_ok c U eq cl pe' \<and> undone c {event} k ([] @ [event]) ys pe pe'"
    if s: "wf_sig s" "sig_key s = sig_key (head_sig pe1 k)" "pe' = tw_event_free event (set_last_sig k s pe1)" for s pe'
  proof -
    have ok: "pe_ok c U eq cl pe'" "rolled (heap pe') (heap pe) event TW_pe_free_q"
      using rollback_free[OF Nil.prems(1) pv s(1) p1(2-4,6,7,9,12)] s(3) by simp_all
    have hd: "head_sig pe' k = head_sig pe1 k"
      unfolding head_sig_def s(3) by (auto simp: pe_simps split: list.split)
    have "pevents pe' j = (if j = k then ys else pevents pe j)" for j
      using fun_cong[OF p1(6), of j] ys unfolding s(3) by (cases "j = k") (simp_all add: pe_simps)
    then have "undone c {event} k ([] @ [event]) ys pe pe'"
      using rolled_freed[OF ok(2) ne] pv p1(5,7,10-12) s(2) hd unfolding undone_def
      by (simp add: s(3) pe_simps)
    with ok(1) show ?thesis ..
  qed
  show ?case
    by (rule exI[of _ pe1]) (intro conjI run ys p1(12) allI impI fin; use rolledD(9)[OF p1(4)] in simp)
next
  case (Cons e xs)
  then obtain n' where n: "n = Suc n'" by (cases n) auto
  obtain h es where es: "xs @ event # ys = h # es" by (cases xs) auto
  have pv: "pevents pe k = e # h # es" using Cons.prems(2) es by simp
  let ?pe0 = "set_last_sig k (qsig (heap pe h)) (upd_kp k (\<lambda>kp. kp\<lparr>pevent_q := h # es\<rparr>) pe)"
  obtain pe1 where p1: "tw_event_rollback c net e ?pe0 = Inr pe1" "good_streams pe1"
    "owned c U (heap pe1) (free_q pe1) eq (pq pe1) (pevents pe)"
    "rolled (heap pe1) (heap pe) e TW_kp_pevent_q" "lps pe1 = undo_step c (heap pe) e (lps pe)"
    "pevents pe1 = (pevents pe)(k := h # es)" "\<forall>j. j \<noteq> k \<longrightarrow> kps pe1 j = kps pe j"
    "last_sig (kps pe1 k) = qsig (heap pe e)"
    "cancel_q pe1 = rev (filter (\<lambda>b. qowner (heap pe b) \<noteq> TW_pe_pq) (caused_by_me (heap pe e))) @ cancel_q pe"
    "event_q pe1 = event_q pe" "cev_abort pe1 = cev_abort pe" "GVT_sig pe1 = GVT_sig pe"
    using rollback_mid[OF Cons.prems(1) pv set_last_sig_pop_facts[OF refl]] by blast
  have "wf_sig (qsig (heap pe e))" using pe_ok_wf[OF Cons.prems(1), of e k] pv by simp
  then have wf: "wf_sig (last_sig (kps pe1 k))" using p1(8) by simp
  obtain pe2 where p2: "pq_enqueue e pe1 = Inr pe2" "pe_ok c U eq (event # cl) pe2"
      "pevents pe2 = (pevents pe)(k := h # es)" "\<forall>j. j \<noteq> k \<longrightarrow> kps pe2 j = kps pe j"
      "lps pe2 = lps pe1" "rolled (heap pe2) (heap pe) e TW_pe_pq"
      "event_q pe2 = event_q pe1" "cev_abort pe2 = cev_abort pe1" "GVT_sig pe2 = GVT_sig pe"
    using rollback_put_back[OF Cons.prems(1) pv wf p1(2-4,6,7,9,12)] unfolding set_last_sig_id by blast
  have step: "rollback_event_loop n c net k event pe = rollback_event_loop n' c net k event pe2"
    using pv p1(1) p2(1) Cons.prems(3) n by (subst rollback_event_loop.simps) (simp add: Let_def pe_simps)
  have pv2: "pevents pe2 k = xs @ event # ys" using fun_cong[OF p2(3), of k] es by simp
  obtain pe3 where p3: "rollback_event_loop n' c net k event pe2 = Inr pe3"
    "pevents pe3 k = ys" "GVT_sig pe3 = GVT_sig pe2" "\<forall>b. qsig (heap pe3 b) = qsig (heap pe2 b)"
    "\<forall>s pe'. wf_sig s \<longrightarrow> sig_key s = sig_key (head_sig pe3 k) \<longrightarrow> pe' = tw_event_free event (set_last_sig k s pe3) \<longrightarrow>
      pe_ok c U eq cl pe' \<and> undone c {event} k (xs @ [event]) ys pe2 pe'"
    using Cons.IH[OF p2(2) pv2, of n'] Cons.prems(3,4) n by auto
  let ?zs = "xs @ [event]"
  have d: "e \<notin> set (?zs @ ys)" using pe_ok_pevents(2)[OF Cons.prems(1), of k] Cons.prems(2) by auto
  have sub: "set ?zs \<subseteq> processed U (heap pe)" "e \<in> processed U (heap pe)"
    using pe_ok_pevents(3)[OF Cons.prems(1), of k] Cons.prems(2) by auto
  have kd: "kids U (heap pe) (processed U (heap pe))" using Cons.prems(1) by (simp add: pe_ok_def)
  have dj: "set (caused_by_me (heap pe e)) \<inter> kids_of (heap pe) ?zs = {}" "e \<notin> set (caused_by_me (heap pe e))"
    using kids_of_disjoint[OF kd sub(2,1)] d by auto
  have u2: "undone_heap {} (heap pe2) (heap pe) [e]" by (rule rolled_undone[OF p2(6) dj(2)])
  have us: "undo_same (heap pe2 x) (heap pe x)" if "x \<in> set ?zs" for x
  proof -
    have "x \<noteq> e" using that d by auto
    then show ?thesis using u2 by (simp add: undone_heap_def)
  qed
  have fin: "pe_ok c U eq cl pe' \<and> undone c {event} k ((e # xs) @ [event]) ys pe pe'"
    if s: "wf_sig s" "sig_key s = sig_key (head_sig pe3 k)" "pe' = tw_event_free event (set_last_sig k s pe3)" for s pe'
  proof -
    have q: "pe_ok c U eq cl pe'" "undone c {event} k ?zs ys pe2 pe'" using p3(5) s by blast+
    have "undone_heap {event} (heap pe') (heap pe) (e # ?zs)"
      using q(2) d by (intro undone_heap_Cons[OF u2 _ _ dj(2,1)]) (auto simp: undone_def)
    moreover have "lps pe' = undo c (heap pe) (e # ?zs) (lps pe)"
      using q(2) p1(5) p2(5) undo_cong[of ?zs "heap pe2" "heap pe" c "lps pe2", OF us] by (simp add: undone_def)
    moreover have "pevents pe' j = (if j = k then ys else pevents pe j)" for j
      using q(2) fun_cong[OF p2(3), of j] by (auto simp: undone_def)
    moreover have "last_sig (kps pe' j) = last_sig (kps pe j)" if "j \<noteq> k" for j
      using q(2) p2(4) that by (simp add: undone_def)
    moreover have "sig_key (last_sig (kps pe' k)) = sig_key (head_sig pe' k)"
      using q(2) by (simp add: undone_def)
    ultimately have "undone c {event} k ((e # xs) @ [event]) ys pe pe'"
      using q(2) p1(10-12) p2(7-9) Cons.prems(2) by (simp add: undone_def)
    with q(1) show ?thesis ..
  qed
  show ?case
    by (rule exI[of _ pe3]) (intro conjI trans[OF step p3(1)] p3(2) allI impI fin;
        use p3(3,4) p2(9) rolledD(9)[OF p2(6)] in simp)
qed


text \<open>\<open>tw_kp_rollback_event\<close> followed by the release of the event, as its caller does it.\<close>

lemma rollback_event_free_ok:
  assumes ok: "pe_ok c U eq (event # cl) pe" and k: "kp_of c (dest_lp (heap pe event)) = k"
    and pv: "pevents pe k = xs @ event # ys"
  shows "\<exists>pe1. tw_kp_rollback_event c net event pe = Inr pe1 \<and> pe_ok c U eq cl (tw_event_free event pe1) \<and>
    undone c {event} k (xs @ [event]) ys pe (tw_event_free event pe1)"
proof -
  define pe0 where "pe0 = upd_kp k (\<lambda>kp. kp\<lparr>s_rb_total := s_rb_total kp + 1, s_rb_secondary := s_rb_secondary kp + 1\<rparr>) pe"
  note f = kp_stat_facts[OF pe0_def, simplified]
  have ok0: "pe_ok c U eq (event # cl) pe0"
    using ok by (rule pe_ok_same) (use ok f in \<open>auto simp: pe_ok_def\<close>)
  have d: "event \<notin> set xs" using pe_ok_pevents(2)[OF ok, of k] pv by simp
  obtain pe1 where p1: "rollback_event_loop (length (pevents pe0 k)) c net k event pe0 = Inr pe1"
    "pevents pe1 k = ys" "GVT_sig pe1 = GVT_sig pe0" "\<forall>b. qsig (heap pe1 b) = qsig (heap pe0 b)"
    "\<forall>s pe'. wf_sig s \<longrightarrow> sig_key s = sig_key (head_sig pe1 k) \<longrightarrow> pe' = tw_event_free event (set_last_sig k s pe1) \<longrightarrow>
      pe_ok c U eq cl pe' \<and> undone c {event} k (xs @ [event]) ys pe0 pe'"
    using rollback_event_loop_ok[OF ok0, of k xs ys "length (pevents pe0 k)" net] d pv unfolding f(6) by auto
  define s where "s = (case pevents pe1 k of [] \<Rightarrow> GVT_sig pe1 | h # _ \<Rightarrow> qsig (heap pe1 h))"
  have run: "tw_kp_rollback_event c net event pe = Inr (set_last_sig k s pe1)"
    unfolding tw_kp_rollback_event_def Let_def k pe0_def[symmetric] p1(1) s_def by simp
  have "wf_sig s"
  proof (cases ys)
    case Nil
    then show ?thesis using ok p1(2,3) f(11) by (simp add: s_def pe_ok_def)
  next
    case (Cons h t)
    then show ?thesis using pe_ok_wf[OF ok, of h k] pv p1(2,4) f(1) by (simp add: s_def)
  qed
  then have "pe_ok c U eq cl (tw_event_free event (set_last_sig k s pe1))"
    "undone c {event} k (xs @ [event]) ys pe0 (tw_event_free event (set_last_sig k s pe1))"
    using p1(5) by (auto simp: s_def head_sig_def)
  then show ?thesis using run f by (auto simp: undone_def)
qed

section \<open>Causality\<close>

text \<open>
  The events of a KP are processed in the order of their signatures: the processed queue is
  sorted, newest first; the time of the KP is that of the newest processed event; nothing that
  is pending for the KP is before its time; and nothing is before GVT.
\<close>

definition causal :: "('st, 'bf, 'm) config \<Rightarrow> addr set \<Rightarrow> ('st, 'bf, 'm, 'z) tw_pe_scheme \<Rightarrow> bool" where
  "causal c U pe \<longleftrightarrow>
     (\<forall>k. sorted_wrt (\<lambda>a b. sig_key (qsig (heap pe b)) \<le> sig_key (qsig (heap pe a))) (pevents pe k)) \<and>
     (\<forall>k. pevents pe k \<noteq> [] \<longrightarrow> sig_key (last_sig (kps pe k)) = sig_key (qsig (heap pe (hd (pevents pe k))))) \<and>
     (\<forall>k. pevents pe k = [] \<longrightarrow> sig_key (last_sig (kps pe k)) \<le> sig_key (GVT_sig pe)) \<and>
     (\<forall>a \<in> U. qowner (heap pe a) = TW_pe_pq \<longrightarrow>
        sig_key (last_sig (kps pe (kp_of c (dest_lp (heap pe a))))) \<le> sig_key (qsig (heap pe a))) \<and>
     (\<forall>a \<in> U. live_owner (qowner (heap pe a)) \<longrightarrow> sig_key (GVT_sig pe) \<le> sig_key (qsig (heap pe a)))"

lemma undone_heap_pq:
  assumes "undone_heap F hp' hp xs" "qowner (hp' b) = TW_pe_pq"
  shows "b \<in> set xs \<or> qowner (hp b) = TW_pe_pq"
  using assms by (cases "b \<in> set xs") (auto simp: undone_heap_def split: if_splits)

lemma undone_heap_live:
  assumes "undone_heap F hp' hp xs" "live_owner (qowner (hp' b))"
  shows "b \<in> set xs \<or> live_owner (qowner (hp b))"
  using assms by (cases "b \<in> set xs") (auto simp: undone_heap_def live_owner_def split: if_splits)

lemma causal_undone:
  assumes ok: "pe_ok c U eq cl pe" and ca: "causal c U pe" and u: "undone c F k xs ys pe pe'"
  shows "causal c U pe'"
proof -
  have pv: "pevents pe k = xs @ ys" "\<And>j. pevents pe' j = (if j = k then ys else pevents pe j)"
    and ls: "\<And>j. j \<noteq> k \<Longrightarrow> last_sig (kps pe' j) = last_sig (kps pe j)"
    and uh: "undone_heap F (heap pe') (heap pe) xs" and gv: "GVT_sig pe' = GVT_sig pe"
    and lk: "xs = [] \<Longrightarrow> last_sig (kps pe' k) = last_sig (kps pe k)"
      "xs \<noteq> [] \<Longrightarrow> sig_key (last_sig (kps pe' k)) = sig_key (head_sig pe' k)"
    using u by (auto simp: undone_def)
  note qs = undone_heap_qsig[OF uh]
  have srt: "sorted_wrt (\<lambda>a b. sig_key (qsig (heap pe b)) \<le> sig_key (qsig (heap pe a))) (pevents pe j)" for j
    using ca by (simp add: causal_def)
  have hd: "pevents pe j \<noteq> [] \<Longrightarrow> sig_key (last_sig (kps pe j)) = sig_key (qsig (heap pe (hd (pevents pe j))))" for j
    using ca by (simp add: causal_def)
  have hs: "ys \<noteq> [] \<Longrightarrow> head_sig pe' k = qsig (heap pe (hd ys))" "ys = [] \<Longrightarrow> head_sig pe' k = GVT_sig pe"
    using pv(2)[of k] gv qs by (auto simp: head_sig_def neq_Nil_conv)
  have xU: "x \<in> U \<and> qowner (heap pe x) = TW_kp_pevent_q \<and> kp_of c (dest_lp (heap pe x)) = k" if "x \<in> set xs" for x
    using pe_ok_pevents(1)[OF ok, of k] pv(1) that by auto
  have gvt: "sig_key (GVT_sig pe) \<le> sig_key (qsig (heap pe x))" if "x \<in> U" "live_owner (qowner (heap pe x))" for x
    using ca that by (simp add: causal_def)
  have bound: "sig_key (head_sig pe' k) \<le> sig_key (qsig (heap pe x))" if "x \<in> set xs" for x
  proof (cases "ys = []")
    case True
    then show ?thesis using gvt[of x] xU[OF that] hs(2) by (simp add: live_owner_def)
  next
    case False
    then show ?thesis using srt[of k] that hs(1) by (auto simp: pv(1) sorted_wrt_append)
  qed
  have old: "sig_key (last_sig (kps pe (kp_of c (dest_lp (heap pe b))))) \<le> sig_key (qsig (heap pe b))"
    if "b \<in> U" "qowner (heap pe b) = TW_pe_pq" for b
    using ca that by (simp add: causal_def)
  have pq: "sig_key (last_sig (kps pe' (kp_of c (dest_lp (heap pe' b))))) \<le> sig_key (qsig (heap pe' b))"
    if b: "b \<in> U" "qowner (heap pe' b) = TW_pe_pq" for b
  proof (cases "kp_of c (dest_lp (heap pe b)) = k")
    case False
    then have "qowner (heap pe b) = TW_pe_pq" using undone_heap_pq[OF uh b(2)] xU by auto
    then show ?thesis using old[OF b(1)] ls[OF False] by (simp add: qs)
  next
    case True
    show ?thesis
    proof (cases "xs = []")
      case True
      then have "qowner (heap pe b) = TW_pe_pq" using undone_heap_pq[OF uh b(2)] by simp
      then show ?thesis using old[OF b(1)] lk(1)[OF True] \<open>kp_of c (dest_lp (heap pe b)) = k\<close> by (simp add: qs)
    next
      case False
      have "sig_key (head_sig pe' k) \<le> sig_key (qsig (heap pe b))"
        using undone_heap_pq[OF uh b(2)]
      proof
        assume "qowner (heap pe b) = TW_pe_pq"
        then have "sig_key (qsig (heap pe (hd xs))) \<le> sig_key (qsig (heap pe b))"
          using old[OF b(1)] hd[of k] pv(1) False True by simp
        then show ?thesis using bound[of "hd xs"] False by fastforce
      qed (rule bound)
      then show ?thesis using lk(2)[OF False] True by (simp add: qs)
    qed
  qed
  have "sorted_wrt (\<lambda>a b. sig_key (qsig (heap pe' b)) \<le> sig_key (qsig (heap pe' a))) (pevents pe' j)" for j
    using srt[of j] pv(1) by (auto simp: qs pv(2) sorted_wrt_append)
  moreover have "sig_key (last_sig (kps pe' j)) = sig_key (qsig (heap pe' (hd (pevents pe' j))))"
    if "pevents pe' j \<noteq> []" for j
  proof (cases "j = k")
    case True
    then show ?thesis
      using that hs(1) lk hd[of k] pv(1) by (cases "xs = []") (auto simp: qs pv(2))
  next
    case False
    then show ?thesis using that hd[of j] ls[of j] by (simp add: qs pv(2))
  qed
  moreover have "sig_key (GVT_sig pe') \<le> sig_key (qsig (heap pe' b))" if "b \<in> U" "live_owner (qowner (heap pe' b))" for b
    using undone_heap_live[OF uh that(2)] gvt[of b] xU[of b] that(1) by (auto simp: qs gv live_owner_def)
  moreover have "sig_key (last_sig (kps pe' j)) \<le> sig_key (GVT_sig pe')" if "pevents pe' j = []" for j
  proof (cases "j = k")
    case True
    then have "ys = []" using that pv(2) by simp
    then show ?thesis
      using True lk hs(2) ca pv(1) by (cases "xs = []") (auto simp: gv causal_def)
  next
    case False
    then show ?thesis using that ca ls[OF False] by (simp add: pv(2) gv causal_def)
  qed
  ultimately show ?thesis using pq unfolding causal_def by blast
qed

text \<open>After \<open>tw_kp_rollback_to_sig\<close> everything that stays processed is before the signature.\<close>

lemma rollback_to_sig_before:
  assumes ok: "pe_ok c U eq cl pe" and ca: "causal c U pe" and s: "wf_sig s"
    and x: "x \<in> set (dropWhile (\<lambda>e. tw_event_sig_compare_ptr (qsig (heap pe e)) s \<ge> 0) (pevents pe k))"
  shows "sig_key (qsig (heap pe x)) < sig_key s"
proof -
  let ?P = "\<lambda>e. tw_event_sig_compare_ptr (qsig (heap pe e)) s \<ge> 0"
  obtain h t where ht: "dropWhile ?P (pevents pe k) = h # t" using x by (cases "dropWhile ?P (pevents pe k)") auto
  then have "\<not> ?P h" using hd_dropWhile[of ?P "pevents pe k"] by simp
  moreover have mem: "y \<in> set (pevents pe k)" if "y \<in> set (h # t)" for y using that ht by (metis set_dropWhileD)
  ultimately have "sig_key (qsig (heap pe h)) < sig_key s"
    using pe_ok_wf[OF ok, of h k] s by (auto simp: tw_event_sig_compare_ptr_key cmp3_def split: if_splits)
  moreover have "sorted_wrt (\<lambda>a b. sig_key (qsig (heap pe b)) \<le> sig_key (qsig (heap pe a))) (h # t)"
    using ca takeWhile_dropWhile_id[of ?P "pevents pe k"] unfolding causal_def ht by (metis sorted_wrt_append)
  ultimately show ?thesis using x ht by auto
qed

end
