(* ===== verification/History.thy ===== *)
theory History
  imports Kp_Rollback
begin

text \<open>
  Reverse computation against saved state: a snapshot \<open>L0\<close> of the LPs is what undoing all
  processed events of a KP, newest first, leads back to. Undoing some of them keeps this, so an
  LP rolled back is in a state that saving its state would have given.
\<close>

definition lp_good :: "('st \<Rightarrow> bool) \<Rightarrow> 'st tw_lp \<Rightarrow> bool" where
  "lp_good G l \<longleftrightarrow> G (cur_state l) \<and> \<not> suspend_flag l"

fun history :: "('st, 'bf, 'm) config \<Rightarrow> ('st \<Rightarrow> bool) \<Rightarrow> (nat \<Rightarrow> 'st tw_lp) \<Rightarrow> nat
    \<Rightarrow> (addr \<Rightarrow> ('bf, 'm) pevent) \<Rightarrow> addr list \<Rightarrow> (nat \<Rightarrow> 'st tw_lp) \<Rightarrow> bool" where
  "history c G L0 k hp [] L \<longleftrightarrow> (\<forall>i. kp_of c i = k \<longrightarrow> lp_good G (L i) \<and> L i = L0 i)"
| "history c G L0 k hp (e # es) L \<longleftrightarrow>
     (\<forall>i. kp_of c i = k \<longrightarrow> lp_good G (L i)) \<and> history c G L0 k hp es (undo_step c hp e L)"

lemma history_good: "history c G L0 k hp es L \<Longrightarrow> kp_of c i = k \<Longrightarrow> lp_good G (L i)"
  by (cases es) auto

lemma undo_step_at: "L' i = L i \<Longrightarrow> undo_step c hp e L' i = undo_step c hp e L i"
  by (cases "i = dest_lp (hp e)") (simp_all add: undo_step_def Let_def)

lemma history_cong:
  "(\<And>e. e \<in> set es \<Longrightarrow> undo_same (hp' e) (hp e)) \<Longrightarrow> (\<And>i. kp_of c i = k \<Longrightarrow> L' i = L i) \<Longrightarrow>
   history c G L0 k hp' es L' = history c G L0 k hp es L"
proof (induction es arbitrary: L L')
  case (Cons e es)
  have u: "undo_step c hp' e = undo_step c hp e" using Cons.prems(1)[of e] undo_step_same by simp
  have "history c G L0 k hp' es (undo_step c hp' e L') = history c G L0 k hp es (undo_step c hp e L)"
    unfolding u by (rule Cons.IH) (use Cons.prems(1) in simp, rule undo_step_at[OF Cons.prems(2)])
  then show ?case using Cons.prems(2) by simp
qed simp

lemma history_undo: "history c G L0 k hp (xs @ ys) L \<Longrightarrow> history c G L0 k hp ys (undo c hp xs L)"
  by (induction xs arbitrary: L) auto

lemma undo_other: "(\<And>e. e \<in> set xs \<Longrightarrow> dest_lp (hp e) \<noteq> i) \<Longrightarrow> undo c hp xs L i = L i"
proof (induction xs arbitrary: L)
  case (Cons e xs)
  have "undo_step c hp e L i = L i" using Cons.prems[of e] by (simp add: undo_step_def Let_def)
  moreover have "undo c hp xs (undo_step c hp e L) i = undo_step c hp e L i"
    by (rule Cons.IH) (use Cons.prems in simp)
  ultimately show ?case by simp
qed simp

text \<open>Undoing the whole history leads to the snapshot.\<close>

lemma history_all: "history c G L0 k hp es L \<Longrightarrow> kp_of c i = k \<Longrightarrow> undo c hp es L i = L0 i"
  by (induction es arbitrary: L) auto

text \<open>When the oldest events are committed, the snapshot moves up to them.\<close>

lemma history_commit:
  "history c G L0 k hp (xs @ ys) L \<Longrightarrow> history c G (undo c hp xs L) k hp xs L"
proof (induction xs arbitrary: L)
  case Nil
  then show ?case using history_good[OF Nil.prems] by simp
qed simp

section \<open>The histories of all KPs\<close>

definition traced :: "('st, 'bf, 'm) config \<Rightarrow> ('st \<Rightarrow> bool) \<Rightarrow> (nat \<Rightarrow> 'st tw_lp)
    \<Rightarrow> ('st, 'bf, 'm, 'z) tw_pe_scheme \<Rightarrow> bool" where
  "traced c G L0 pe \<longleftrightarrow> (\<forall>k. history c G L0 k (heap pe) (pevents pe k) (lps pe))"

definition keeps_trace :: "('st, 'bf, 'm) config \<Rightarrow> ('st, 'bf, 'm, 'z) tw_pe_scheme
    \<Rightarrow> ('st, 'bf, 'm, 'z) tw_pe_scheme \<Rightarrow> bool" where
  "keeps_trace c pe pe' \<longleftrightarrow> (\<forall>G L0. traced c G L0 pe \<longrightarrow> traced c G L0 pe') \<and>
     (\<forall>b. qsig (heap pe' b) = qsig (heap pe b))"

lemma keeps_trace_refl [simp]: "keeps_trace c pe pe"
  by (simp add: keeps_trace_def)

lemma keeps_trace_trans: "keeps_trace c pe pe1 \<Longrightarrow> keeps_trace c pe1 pe2 \<Longrightarrow> keeps_trace c pe pe2"
  by (simp add: keeps_trace_def)

lemma keeps_trace_same:
  assumes "lps pe' = lps pe" "\<And>k. pevents pe' k = pevents pe k"
    "\<And>k e. e \<in> set (pevents pe k) \<Longrightarrow> undo_same (heap pe' e) (heap pe e)"
    "\<And>b. qsig (heap pe' b) = qsig (heap pe b)"
  shows "keeps_trace c pe pe'"
proof -
  have "history c G L0 k (heap pe') (pevents pe' k) (lps pe') = history c G L0 k (heap pe) (pevents pe k) (lps pe)" for G L0 k
    unfolding assms(1,2) by (rule history_cong) (use assms(3) in simp_all)
  then show ?thesis using assms(4) by (simp add: keeps_trace_def traced_def)
qed

lemma keeps_trace_undone:
  assumes ok: "pe_ok c U eq cl pe" and u: "undone c F k xs ys pe pe'"
  shows "keeps_trace c pe pe'"
proof -
  have pv: "pevents pe k = xs @ ys" "\<And>j. pevents pe' j = (if j = k then ys else pevents pe j)"
    and l: "lps pe' = undo c (heap pe) xs (lps pe)" and uh: "undone_heap F (heap pe') (heap pe) xs"
    using u by (simp_all add: undone_def)
  have same: "undo_same (heap pe' b) (heap pe b)" if "b \<notin> set xs" for b
  proof -
    have "heap pe' b = (if b \<in> kids_of (heap pe) xs then cancelled (heap pe b) else heap pe b)"
      using uh that unfolding undone_heap_def by blast
    then show ?thesis by simp
  qed
  have kp: "kp_of c (dest_lp (heap pe b)) = j" if "b \<in> set (pevents pe j)" for b j
    using pe_ok_pevents(1)[OF ok, of j] that by auto
  have "history c G L0 j (heap pe') (pevents pe' j) (lps pe')" if t: "traced c G L0 pe" for G L0 j
  proof (cases "j = k")
    case True
    have "history c G L0 k (heap pe) (xs @ ys) (lps pe)"
      using t pv(1) unfolding traced_def by metis
    then have "history c G L0 k (heap pe) ys (undo c (heap pe) xs (lps pe))" by (rule history_undo)
    moreover have "b \<notin> set xs" if "b \<in> set ys" for b
      using pe_ok_pevents(2)[OF ok, of k] that unfolding pv(1) by auto
    ultimately show ?thesis using True history_cong[of ys "heap pe'" "heap pe" c k] same by (simp add: pv(2) l)
  next
    case False
    have "dest_lp (heap pe e) \<noteq> i" if "e \<in> set xs" "kp_of c i = j" for e i
    proof -
      have "e \<in> set (pevents pe k)" using that(1) pv(1) by simp
      then show ?thesis using kp that(2) False by blast
    qed
    then have "lps pe' i = lps pe i" if "kp_of c i = j" for i
      unfolding l using that by (intro undo_other) blast
    moreover have "b \<notin> set xs" if "b \<in> set (pevents pe j)" for b
    proof
      assume "b \<in> set xs"
      then have "b \<in> set (pevents pe k)" using pv(1) by simp
      then show False using kp[of b k] kp[OF that] False by simp
    qed
    moreover have "history c G L0 j (heap pe) (pevents pe j) (lps pe)" using t by (simp add: traced_def)
    ultimately show ?thesis using False history_cong[of "pevents pe j" "heap pe'" "heap pe" c j] same by (simp add: pv(2))
  qed
  then show ?thesis using undone_heap_qsig(1)[OF uh] by (simp add: keeps_trace_def traced_def)
qed

end
