(* ===== verification/Sched_Queues.thy ===== *)
theory Sched_Queues
  imports History
begin

text \<open>
  The two queues the scheduler empties before it processes events (\<open>core/tw-sched.c\<close>):
  \<open>tw_sched_event_q\<close> puts the arrivals into the pending queue and rolls back for stragglers,
  \<open>tw_sched_cancel_q\<close> removes the cancelled events. Neither fails, and both keep the state
  well formed and causal.
\<close>

section \<open>Arrivals\<close>

lemma owned_event_q:
  assumes "pe_ok c U eq cl pe"
  shows "set eq = {x \<in> U. qowner (heap pe x) = TW_pe_event_q}" "distinct eq"
    "finite U"
  using assms unfolding pe_ok_def owned_def by metis+

text \<open>A cancelled arrival is dropped from the list and waits for the cancel queue.\<close>

lemma owned_anti:
  assumes o: "owned c U hp fq (e # es) q pk"
    and hp': "hp' = hp(e := (hp e)\<lparr>qowner := TW_pe_anti_msg\<rparr>)"
  shows "owned c U hp' fq es q pk"
proof -
  have k: "key_at hp' = key_at hp" "wf_at hp' = wf_at hp"
    unfolding hp' by (rule key_at_cong, simp) (rule wf_at_cong, simp)
  have e: "set (e # es) = {x \<in> U. qowner (hp x) = TW_pe_event_q}" "distinct (e # es)"
    using o by (simp_all only: owned_def)
  then have e': "e \<in> U" "qowner (hp e) = TW_pe_event_q" by auto
  have ow: "qowner (hp' b) = (if b = e then TW_pe_anti_msg else qowner (hp b))"
    "dest_lp (hp' b) = dest_lp (hp b)" "qsig (hp' b) = qsig (hp b)" for b
    by (simp_all add: hp')
  show ?thesis
    unfolding owned_def k
  proof (intro conjI allI)
    fix i
    have "set (pk i) = {x \<in> U. qowner (hp x) = TW_kp_pevent_q \<and> kp_of c (dest_lp (hp x)) = i}"
      using o unfolding owned_def by metis
    then show "set (pk i) = {x \<in> U. qowner (hp' x) = TW_kp_pevent_q \<and> kp_of c (dest_lp (hp' x)) = i}"
      using e' by (auto simp: ow)
    show "inj_on (key_at hp) {x \<in> U. live_owner (qowner (hp' x))}"
      using o by (rule_tac inj_on_subset[of _ "{x \<in> U. live_owner (qowner (hp x))}"])
        (auto simp: owned_def ow live_owner_def split: if_splits)
    have "set es = {x \<in> U. qowner (hp x) = TW_pe_event_q} - {e}" using e by auto
    then show "set es = {x \<in> U. qowner (hp' x) = TW_pe_event_q}" by (auto simp: ow)
  qed (use o e' e(2) in \<open>auto simp: owned_def ow\<close>)
qed

text \<open>
  Changing the owner of one event that is not processed keeps the lists of children and the
  marks.
\<close>

lemma kids_reown:
  assumes "kids U hp (processed U hp)" "hp' = hp(e := (hp e)\<lparr>out_msgs := ms, qowner := w\<rparr>)"
    "qowner (hp e) \<noteq> TW_kp_pevent_q" "w \<noteq> TW_kp_pevent_q"
    "live_owner w \<or> (\<forall>b \<in> processed U hp. e \<notin> set (caused_by_me (hp b)))"
  shows "kids U hp' (processed U hp')" "processed U hp' = processed U hp"
proof -
  show p: "processed U hp' = processed U hp" using assms(2-4) by auto
  have c: "caused_by_me (hp' b) = caused_by_me (hp b)" "dest_lp (hp' b) = dest_lp (hp b)" "src_lp (hp' b) = src_lp (hp b)" for b
    using assms(2) by simp_all
  have l: "live_owner (qowner (hp' x))" if "b \<in> processed U hp" "x \<in> set (caused_by_me (hp b))" for b x
  proof (cases "x = e")
    case True
    then show ?thesis using that assms(2,5) by auto
  next
    case False
    then show ?thesis using childrenD(4)[OF assms(1) that] assms(2) by simp
  qed
  show "kids U hp' (processed U hp')"
    unfolding p kids_def c
  proof (intro conjI ballI impI)
    fix b assume b: "b \<in> processed U hp"
    show "distinct (caused_by_me (hp b))" "b \<notin> set (caused_by_me (hp b))"
      by (rule childrenD(1,2)[OF assms(1) b])+
    fix x assume x: "x \<in> set (caused_by_me (hp b))"
    show "x \<in> U" "src_lp (hp x) = dest_lp (hp b)" by (rule childrenD(3)[OF assms(1) b x], rule childrenD(5)[OF assms(1) b x])
    show "live_owner (qowner (hp' x))" by (rule l[OF b x])
  next
    fix b b' assume "b \<in> processed U hp" "b' \<in> processed U hp" "b \<noteq> b'"
    then show "set (caused_by_me (hp b)) \<inter> set (caused_by_me (hp b')) = {}" by (rule children_disjoint[OF assms(1)])
  qed
qed

lemma causal_reown:
  assumes ca: "causal c U pe" and ok: "pe_ok c U eq cl pe"
    and hp': "heap pe' = (heap pe)(e := (heap pe e)\<lparr>out_msgs := ms, qowner := w\<rparr>)"
    and w: "w = TW_pe_pq \<longrightarrow> sig_key (last_sig (kps pe (kp_of c (dest_lp (heap pe e))))) \<le> sig_key (qsig (heap pe e))"
      "live_owner w \<longrightarrow> live_owner (qowner (heap pe e))"
    and kp: "\<And>k. pevents pe' k = pevents pe k" "\<And>k. last_sig (kps pe' k) = last_sig (kps pe k)" "GVT_sig pe' = GVT_sig pe"
  shows "causal c U pe'"
proof -
  have s: "qsig (heap pe' b) = qsig (heap pe b)" "dest_lp (heap pe' b) = dest_lp (heap pe b)" for b
    by (simp_all add: hp')
  have o: "qowner (heap pe' b) = (if b = e then w else qowner (heap pe b))" for b by (simp add: hp')
  show ?thesis
    using ca w unfolding causal_def s kp o by auto
qed

lemma pe_ok_anti:
  assumes ok: "pe_ok c U (e # es) cl pe" and st: "st_cancel_q (heap pe e)"
  shows "pe_ok c U es cl (upd_ev e (\<lambda>v. v\<lparr>qowner := TW_pe_anti_msg\<rparr>) pe)"
proof -
  let ?pe' = "upd_ev e (\<lambda>v. v\<lparr>qowner := TW_pe_anti_msg\<rparr>) pe" and ?hp = "heap pe"
  note o = ok[unfolded pe_ok_def]
  have e: "e \<in> U" "qowner (?hp e) = TW_pe_event_q" using owned_event_q(1)[OF ok] by auto
  have k: "kids U ?hp (processed U ?hp)" and c: "cancel_ok U ?hp (cl @ cancel_q pe)" using o by simp_all
  have hp': "heap ?pe' = ?hp(e := (?hp e)\<lparr>out_msgs := out_msgs (?hp e), qowner := TW_pe_anti_msg\<rparr>)"
    by (simp add: pe_simps)
  have ecq: "e \<in> set (cl @ cancel_q pe)"
    unfolding cancel_okD(2)[OF c] using e st by (simp add: in_use_def live_owner_def)
  have nc: "\<forall>b \<in> processed U ?hp. e \<notin> set (caused_by_me (?hp b))"
    using cancel_okD(3)[OF c] ecq by blast
  have k': "kids U (heap ?pe') (processed U (heap ?pe'))" and p: "processed U (heap ?pe') = processed U ?hp"
    using kids_reown[OF k hp'] e nc by (simp_all add: live_owner_def)
  have "cancel_ok U (heap ?pe') (cl @ cancel_q ?pe')"
  proof -
    have "{x \<in> U. in_use (qowner (heap ?pe' x)) \<and> st_cancel_q (heap ?pe' x)} = set (cl @ cancel_q pe)"
      unfolding cancel_okD(2)[OF c] using e by (auto simp: pe_simps in_use_def live_owner_def)
    moreover have "caused_by_me (heap ?pe' b) = caused_by_me (?hp b)" for b by (simp add: pe_simps)
    moreover have "\<forall>x\<in>U. qowner (heap ?pe' x) = TW_pe_anti_msg \<longrightarrow> st_cancel_q (heap ?pe' x)"
      using cancel_okD(4)[OF c] st by (simp add: pe_simps)
    ultimately show ?thesis
      using cancel_okD(1,3)[OF c] unfolding cancel_ok_def p by (simp add: pe_simps)
  qed
  moreover have "owned c U (heap ?pe') (free_q ?pe') es (pq ?pe') (pevents ?pe')"
    using owned_anti[of c U ?hp "free_q pe" e es "pq pe" "pevents pe" "heap ?pe'"] o by (simp add: pe_simps)
  moreover have "\<forall>a \<in> U. live_owner (qowner (heap ?pe' a)) \<longrightarrow> ev_recv_ts (heap ?pe' a) = recv_ts (qsig (heap ?pe' a))"
    using o by (auto simp: pe_simps live_owner_def)
  moreover have "\<forall>a \<in> U. idle (heap ?pe' a)"
    using o by (auto simp: pe_simps idle_def)
  ultimately show ?thesis
    using o k' unfolding pe_ok_def good_streams_def by (simp add: pe_simps)
qed

lemma pe_ok_enqueue_event_q:
  assumes ok: "pe_ok c U (e # es) cl pe"
  shows "\<exists>pe'. pq_enqueue e pe = Inr pe' \<and> pe_ok c U es cl pe' \<and>
    heap pe' = (heap pe)(e := (heap pe e)\<lparr>qowner := TW_pe_pq\<rparr>) \<and>
    kps pe' = kps pe \<and> event_q pe' = event_q pe \<and> GVT_sig pe' = GVT_sig pe \<and> cev_abort pe' = cev_abort pe \<and> lps pe' = lps pe"
proof -
  let ?hp = "heap pe"
  note o = ok[unfolded pe_ok_def]
  have e: "e \<in> U" "qowner (?hp e) = TW_pe_event_q" using owned_event_q(1)[OF ok] by auto
  have k: "kids U ?hp (processed U ?hp)" and c: "cancel_ok U ?hp (cl @ cancel_q pe)" using o by simp_all
  obtain q' where q': "tw_pq_enqueue (lt_rand (?hp(e := (?hp e)\<lparr>qowner := TW_pe_pq\<rparr>))) (pq pe) e = Inr q'"
    "owned c U (?hp(e := (?hp e)\<lparr>qowner := TW_pe_pq\<rparr>)) (free_q pe) es q' (pevents pe)"
    using owned_enqueue_event_q[of c U ?hp "free_q pe" "[]" e es "pq pe" "pevents pe"] o by auto
  define pe' where "pe' = (upd_ev e (\<lambda>v. v\<lparr>qowner := TW_pe_pq\<rparr>) pe)\<lparr>pq := q'\<rparr>"
  have run: "pq_enqueue e pe = Inr pe'"
    using q'(1) by (simp add: pq_enqueue_def pe'_def pe_simps Let_def)
  have pe': "heap pe' = ?hp(e := (?hp e)\<lparr>out_msgs := out_msgs (?hp e), qowner := TW_pe_pq\<rparr>)" "free_q pe' = free_q pe" "pq pe' = q'"
    "lps pe' = lps pe" "kps pe' = kps pe" "event_q pe' = event_q pe"
    "cev_abort pe' = cev_abort pe" "GVT_sig pe' = GVT_sig pe" "cancel_q pe' = cancel_q pe"
    by (simp_all add: pe'_def pe_simps)
  have k': "kids U (heap pe') (processed U (heap pe'))" and p: "processed U (heap pe') = processed U ?hp"
    using kids_reown[OF k pe'(1)] e by (simp_all add: live_owner_def)
  have "cancel_ok U (heap pe') (cl @ cancel_q pe')"
  proof -
    have "{x \<in> U. in_use (qowner (heap pe' x)) \<and> st_cancel_q (heap pe' x)} = set (cl @ cancel_q pe)"
      unfolding cancel_okD(2)[OF c] using e by (auto simp: pe' in_use_def live_owner_def)
    moreover have "caused_by_me (heap pe' b) = caused_by_me (?hp b)" for b by (simp add: pe')
    moreover have "\<forall>x\<in>U. qowner (heap pe' x) = TW_pe_anti_msg \<longrightarrow> st_cancel_q (heap pe' x)"
      using cancel_okD(4)[OF c] by (simp add: pe')
    ultimately show ?thesis
      using cancel_okD(1,3)[OF c] unfolding cancel_ok_def p by (simp add: pe')
  qed
  moreover have "\<forall>a \<in> U. live_owner (qowner (heap pe' a)) \<longrightarrow> ev_recv_ts (heap pe' a) = recv_ts (qsig (heap pe' a))"
    using o e by (auto simp: pe' live_owner_def)
  moreover have "owned c U (heap pe') (free_q pe') es (pq pe') (pevents pe')" using q'(2) by (simp add: pe')
  moreover have "\<forall>a \<in> U. idle (heap pe' a)"
    using o e by (auto simp: pe' idle_def)
  ultimately have "pe_ok c U es cl pe'"
    using o k' unfolding pe_ok_def good_streams_def by (simp add: pe'(4,5,8))
  with run pe' show ?thesis by (intro exI[of _ pe']) simp
qed

text \<open>
  A straggler: after the rollback nothing that stays processed for its KP, and not the time of
  the KP, is after it.
\<close>

lemma straggler_time:
  assumes ok: "pe_ok c U eq cl pe" and ca: "causal c U pe" and s: "wf_sig s" "sig_key (GVT_sig pe) \<le> sig_key s"
    and u: "undone c F k (takeWhile P (pevents pe k)) (dropWhile P (pevents pe k)) pe pe'"
    and P: "P = (\<lambda>e. tw_event_sig_compare_ptr (qsig (heap pe e)) s \<ge> 0)"
  shows "sig_key (last_sig (kps pe' k)) \<le> sig_key s"
proof (cases "takeWhile P (pevents pe k)")
  case Nil
  then have ls: "last_sig (kps pe' k) = last_sig (kps pe k)" using u by (simp add: undone_def)
  show ?thesis
  proof (cases "pevents pe k")
    case Nil
    then show ?thesis using ca s(2) ls unfolding causal_def by (metis order_trans)
  next
    case (Cons h t)
    then have "\<not> P h" using Nil by (auto split: if_splits)
    then have "sig_key (qsig (heap pe h)) < sig_key s"
      using pe_ok_wf[OF ok, of h k] Cons s(1) unfolding P
      by (auto simp: tw_event_sig_compare_ptr_key cmp3_def split: if_splits)
    moreover have "sig_key (last_sig (kps pe k)) = sig_key (qsig (heap pe h))"
      using ca Cons unfolding causal_def by (metis list.distinct(1) list.sel(1))
    ultimately show ?thesis using ls by simp
  qed
next
  case (Cons a t)
  then have ls: "sig_key (last_sig (kps pe' k)) = sig_key (head_sig pe' k)"
    and gv: "GVT_sig pe' = GVT_sig pe" and pv: "pevents pe' k = dropWhile P (pevents pe k)"
    and uh: "undone_heap F (heap pe') (heap pe) (takeWhile P (pevents pe k))"
    using u by (auto simp: undone_def)
  show ?thesis
  proof (cases "dropWhile P (pevents pe k)")
    case Nil
    then have "pevents pe' k = []" using pv by simp
    then show ?thesis using ls gv s(2) by (simp add: head_sig_def)
  next
    case (Cons h list)
    then have "sig_key (qsig (heap pe h)) < sig_key s"
      using rollback_to_sig_before[OF ok ca s(1), of h k] unfolding P by simp
    moreover have "pevents pe' k = h # list" using pv Cons by simp
    ultimately show ?thesis using ls undone_heap_qsig(1)[OF uh] by (simp add: head_sig_def)
  qed
qed

lemma spin_events_ok:
  assumes "pe_ok c U es cl pe" "causal c U pe"
  shows "\<exists>pe'. spin_events c net es pe = Inr pe' \<and> pe_ok c U [] cl pe' \<and> causal c U pe' \<and>
    keeps_trace c pe pe' \<and> event_q pe' = event_q pe \<and> GVT_sig pe' = GVT_sig pe \<and> cev_abort pe' = cev_abort pe"
  using assms
proof (induction es arbitrary: pe)
  case Nil
  then show ?case by simp
next
  case (Cons e es)
  have e: "e \<in> U" "qowner (heap pe e) = TW_pe_event_q" using owned_event_q(1)[OF Cons.prems(1)] by auto
  show ?case
  proof (cases "st_cancel_q (heap pe e)")
    case True
    let ?pe1 = "upd_ev e (\<lambda>v. v\<lparr>qowner := TW_pe_anti_msg\<rparr>) pe"
    have step: "spin_events c net (e # es) pe = spin_events c net es ?pe1" using e True by simp
    have "causal c U ?pe1"
      by (rule causal_reown[OF Cons.prems(2,1), where w = TW_pe_anti_msg and ms = "out_msgs (heap pe e)" and e = e])
        (simp_all add: pe_simps live_owner_def)
    moreover have kt: "keeps_trace c pe ?pe1" by (rule keeps_trace_same) (simp_all add: pe_simps undo_same_def)
    moreover have "event_q ?pe1 = event_q pe" "GVT_sig ?pe1 = GVT_sig pe" "cev_abort ?pe1 = cev_abort pe" by (simp_all add: pe_simps)
    ultimately show ?thesis
      using Cons.IH[OF pe_ok_anti[OF Cons.prems(1) True]] keeps_trace_trans[OF kt] unfolding step by metis
  next
    case False
    let ?k = "kp_of c (dest_lp (heap pe e))" and ?s = "qsig (heap pe e)"
    let ?r = "if tw_event_sig_compare_ptr (last_sig (kps pe ?k)) ?s > 0
       then tw_kp_rollback_to_sig c net ?k ?s pe else Inr pe"
    have wf: "wf_sig ?s" "wf_sig (last_sig (kps pe ?k))" and gs: "sig_key (GVT_sig pe) \<le> sig_key ?s"
      using Cons.prems e by (auto simp: pe_ok_def owned_def causal_def live_owner_def)
    obtain pe1 where p1: "?r = Inr pe1" "pe_ok c U (e # es) cl pe1" "causal c U pe1"
      "qsig (heap pe1 e) = ?s" "dest_lp (heap pe1 e) = dest_lp (heap pe e)"
      "sig_key (last_sig (kps pe1 ?k)) \<le> sig_key ?s" "event_q pe1 = event_q pe" "GVT_sig pe1 = GVT_sig pe"
      "cev_abort pe1 = cev_abort pe" "keeps_trace c pe pe1"
    proof (cases "tw_event_sig_compare_ptr (last_sig (kps pe ?k)) ?s > 0")
      case False
      then have "sig_key (last_sig (kps pe ?k)) \<le> sig_key ?s"
        using wf by (auto simp: tw_event_sig_compare_ptr_key cmp3_def split: if_splits)
      then show ?thesis using False Cons.prems that[of pe] by simp
    next
      case True
      define P where "P = (\<lambda>b. tw_event_sig_compare_ptr (qsig (heap pe b)) ?s \<ge> 0)"
      obtain pe1 where p1: "tw_kp_rollback_to_sig c net ?k ?s pe = Inr pe1" "pe_ok c U (e # es) cl pe1"
        "undone c {} ?k (takeWhile P (pevents pe ?k)) (dropWhile P (pevents pe ?k)) pe pe1"
        using rollback_to_sig_ok[OF Cons.prems(1) P_def] by blast
      have "causal c U pe1" by (rule causal_undone[OF Cons.prems p1(3)])
      moreover have "sig_key (last_sig (kps pe1 ?k)) \<le> sig_key ?s"
        by (rule straggler_time[OF Cons.prems wf(1) gs p1(3) P_def])
      moreover have "undone_heap {} (heap pe1) (heap pe) (takeWhile P (pevents pe ?k))"
        using p1(3) by (simp add: undone_def)
      ultimately show ?thesis using p1 True that[of pe1] keeps_trace_undone[OF Cons.prems(1) p1(3)]
        by (simp add: undone_heap_qsig undone_def)
    qed
    obtain pe2 where p2: "pq_enqueue e pe1 = Inr pe2" "pe_ok c U es cl pe2"
      "heap pe2 = (heap pe1)(e := (heap pe1 e)\<lparr>qowner := TW_pe_pq\<rparr>)"
      "kps pe2 = kps pe1" "event_q pe2 = event_q pe1" "GVT_sig pe2 = GVT_sig pe1" "cev_abort pe2 = cev_abort pe1" "lps pe2 = lps pe1"
      using pe_ok_enqueue_event_q[OF p1(2)] by blast
    have e1: "qowner (heap pe1 e) = TW_pe_event_q" using owned_event_q(1)[OF p1(2)] by auto
    have ca2: "causal c U pe2"
      by (rule causal_reown[OF p1(3,2), where w = TW_pe_pq and ms = "out_msgs (heap pe1 e)" and e = e])
        (use p1(4-6) p2 e1 in \<open>simp_all add: live_owner_def\<close>)
    have "spin_events c net (e # es) pe = spin_events c net es pe2"
      using e False p1(1) p2(1) by (simp add: Let_def)
    moreover have "keeps_trace c pe1 pe2" by (rule keeps_trace_same) (simp_all add: p2 undo_same_def)
    then have kt: "keeps_trace c pe pe2" using p1(10) keeps_trace_trans by blast
    ultimately show ?thesis using Cons.IH[OF p2(2) ca2] p1(7-9) p2(5-7) keeps_trace_trans[OF kt] by metis
  qed
qed

text \<open>One pass empties the queue: the arrivals come from this process or were read before.\<close>

lemma sched_event_q_ok:
  assumes "pe_ok c U (event_q pe) cl pe" "causal c U pe"
  shows "\<exists>pe'. tw_sched_event_q (Suc n) c net pe = Inr pe' \<and> pe_ok c U [] cl pe' \<and> causal c U pe' \<and>
    keeps_trace c pe pe' \<and> event_q pe' = [] \<and> GVT_sig pe' = GVT_sig pe \<and> cev_abort pe' = cev_abort pe"
proof (cases "event_q pe = []")
  case True
  then show ?thesis using assms by (simp add: tw_sched_event_q.simps)
next
  case False
  let ?pe0 = "pe\<lparr>event_q := []\<rparr>"
  have "pe_ok c U (event_q pe) cl ?pe0" using assms(1) by (rule pe_ok_same) (use assms(1) in \<open>auto simp: pe_ok_def\<close>)
  moreover have "causal c U ?pe0" using assms(2) by (simp add: causal_def)
  ultimately obtain pe' where "spin_events c net (event_q pe) ?pe0 = Inr pe'" "pe_ok c U [] cl pe'" "causal c U pe'"
    "event_q pe' = []" "GVT_sig pe' = GVT_sig pe" "cev_abort pe' = cev_abort pe" "keeps_trace c ?pe0 pe'"
    using spin_events_ok[of c U "event_q pe" cl ?pe0 net] by auto
  moreover have "keeps_trace c pe ?pe0" by (rule keeps_trace_same) simp_all
  ultimately show ?thesis using False keeps_trace_trans[of c pe ?pe0 pe']
    by (intro exI[of _ pe']) (subst tw_sched_event_q.simps, simp, subst tw_sched_event_q.simps, simp)
qed


section \<open>Cancelled events\<close>

definition busy :: "addr set \<Rightarrow> (addr \<Rightarrow> ('bf, 'm) pevent) \<Rightarrow> addr set" where
  "busy U hp = {x \<in> U. qowner (hp x) \<noteq> TW_pe_free_q}"

text \<open>A cancelled event that was not processed is freed.\<close>

lemma pe_ok_free:
  assumes ok: "pe_ok c U eq (e # cl) pe"
    and hp': "heap pe' = (heap pe)(e := (heap pe e)\<lparr>out_msgs := [], qowner := TW_pe_free_q\<rparr>)"
    and ne: "qowner (heap pe e) \<noteq> TW_kp_pevent_q"
    and o': "owned c U (heap pe') (free_q pe') eq' (pq pe') (pevents pe')"
    and same: "lps pe' = lps pe" "kps pe' = kps pe" "cancel_q pe' = cancel_q pe" "GVT_sig pe' = GVT_sig pe"
  shows "pe_ok c U eq' cl pe'" "busy U (heap pe') \<subset> busy U (heap pe)"
proof -
  let ?hp = "heap pe"
  note o = ok[unfolded pe_ok_def]
  have k: "kids U ?hp (processed U ?hp)" and c: "cancel_ok U ?hp ((e # cl) @ cancel_q pe)" using o by simp_all
  have e: "e \<in> U" "in_use (qowner (?hp e))"
    using cancel_okD(2)[OF c] by auto
  have nc: "\<forall>b \<in> processed U ?hp. e \<notin> set (caused_by_me (?hp b))" using cancel_okD(3)[OF c] by auto
  have k': "kids U (heap pe') (processed U (heap pe'))" and p: "processed U (heap pe') = processed U ?hp"
    using kids_reown[OF k hp' ne] nc by simp_all
  have "set (cl @ cancel_q pe) = {x \<in> U. in_use (qowner (?hp x)) \<and> st_cancel_q (?hp x)} - {e}"
    using cancel_okD(1,2)[OF c] by auto
  then have "set (cl @ cancel_q pe) = {x \<in> U. in_use (qowner (heap pe' x)) \<and> st_cancel_q (heap pe' x)}"
    by (auto simp: hp' in_use_def live_owner_def)
  moreover have "set (caused_by_me (heap pe' b)) \<inter> set (cl @ cancel_q pe) = {}" if "b \<in> processed U ?hp" for b
  proof -
    have "caused_by_me (heap pe' b) = caused_by_me (?hp b)" by (simp add: hp')
    then show ?thesis using cancel_okD(3)[OF c that] by auto
  qed
  moreover have "\<forall>x\<in>U. qowner (heap pe' x) = TW_pe_anti_msg \<longrightarrow> st_cancel_q (heap pe' x)"
    using cancel_okD(4)[OF c] by (simp add: hp')
  moreover have "distinct (cl @ cancel_q pe)" using cancel_okD(1)[OF c] by simp
  ultimately have "cancel_ok U (heap pe') (cl @ cancel_q pe')"
    unfolding cancel_ok_def p same by (intro conjI ballI[where A = "processed U ?hp"])
  moreover have "\<forall>a \<in> U. live_owner (qowner (heap pe' a)) \<longrightarrow> ev_recv_ts (heap pe' a) = recv_ts (qsig (heap pe' a))"
    using o by (auto simp: hp' live_owner_def)
  moreover have "\<forall>a \<in> U. idle (heap pe' a)"
    using o by (auto simp: hp' idle_def)
  ultimately show "pe_ok c U eq' cl pe'"
    using o o' k' unfolding pe_ok_def good_streams_def same by simp
  have "busy U (heap pe') = busy U ?hp - {e}" by (auto simp: busy_def hp')
  moreover have "e \<in> busy U ?hp" using e by (auto simp: busy_def in_use_def live_owner_def)
  ultimately show "busy U (heap pe') \<subset> busy U ?hp" by blast
qed

lemma busy_undone:
  assumes u: "undone c {e} k (xs @ [e]) ys pe pe'" and e: "e \<in> U"
    and p: "set (xs @ [e]) \<subseteq> processed U (heap pe)" and k: "kids U (heap pe) (processed U (heap pe))"
  shows "busy U (heap pe') \<subset> busy U (heap pe)"
proof -
  have uh: "undone_heap {e} (heap pe') (heap pe) (xs @ [e])" using u by (simp add: undone_def)
  have "qowner (heap pe' e) = TW_pe_free_q" using uh by (auto simp: undone_heap_def)
  moreover have "qowner (heap pe e) = TW_kp_pevent_q" using p by simp
  moreover have "qowner (heap pe x) \<noteq> TW_pe_free_q" if "x \<in> U" "qowner (heap pe' x) \<noteq> TW_pe_free_q" for x
  proof (cases "x \<in> set (xs @ [e])")
    case True
    then show ?thesis using p by auto
  next
    case False
    then have "heap pe' x = (if x \<in> kids_of (heap pe) (xs @ [e]) then cancelled (heap pe x) else heap pe x)"
      using uh unfolding undone_heap_def by blast
    then show ?thesis using that(2) by (auto split: if_splits)
  qed
  ultimately show ?thesis using e by (auto simp: busy_def)
qed

text \<open>One round of the loop over the cancelled events.\<close>

lemma cancel_one:
  assumes ok: "pe_ok c U (event_q pe) (e # cl) pe" and ca: "causal c U pe"
  shows "\<exists>pe'. cancel_owner_switch c net e pe = Inr pe' \<and>
    pe_ok c U (event_q pe') cl pe' \<and> causal c U pe' \<and> busy U (heap pe') \<subset> busy U (heap pe) \<and>
    keeps_trace c pe pe' \<and> set (event_q pe') \<subseteq> set (event_q pe) \<and> GVT_sig pe' = GVT_sig pe \<and> cev_abort pe' = cev_abort pe"
proof -
  note o = ok[unfolded pe_ok_def]
  have c: "cancel_ok U (heap pe) ((e # cl) @ cancel_q pe)" using o by simp
  have e: "e \<in> U" "in_use (qowner (heap pe e))" using cancel_okD(2)[OF c] by auto
  have ow: "owned c U (heap pe) (free_q pe) (event_q pe) (pq pe) (pevents pe)" using o by simp
  have pk: "distinct (pevents pe k)" "qowner (heap pe e) \<noteq> TW_kp_pevent_q \<Longrightarrow> set (pevents pe k) = set (pevents pe k) - {e}" for k
    using pe_ok_pevents[OF ok, of k] by auto
  have eq: "distinct (event_q pe)" "set (event_q pe) = {x \<in> U. qowner (heap pe x) = TW_pe_event_q}"
    using owned_event_q[OF ok] by blast+
  have goal: ?thesis if "qowner (heap pe e) \<noteq> TW_kp_pevent_q"
    "heap pe' = (heap pe)(e := (heap pe e)\<lparr>out_msgs := [], qowner := TW_pe_free_q\<rparr>)"
    "owned c U (heap pe') (free_q pe') (event_q pe') (pq pe') (pevents pe')"
    "lps pe' = lps pe" "kps pe' = kps pe" "cancel_q pe' = cancel_q pe" "GVT_sig pe' = GVT_sig pe"
    "set (event_q pe') \<subseteq> set (event_q pe)" "cev_abort pe' = cev_abort pe"
    "cancel_owner_switch c net e pe = Inr pe'" for pe'
  proof -
    have "causal c U pe'"
      by (rule causal_reown[OF ca ok that(2)]) (use that(5,7) in \<open>simp_all add: live_owner_def\<close>)
    moreover have "keeps_trace c pe pe'" by (rule keeps_trace_same) (simp_all add: that(2,4,5) undo_same_def)
    ultimately show ?thesis using pe_ok_free[OF ok that(2,1,3-7)] that(7-10) by blast
  qed
  consider "qowner (heap pe e) = TW_pe_event_q" | "qowner (heap pe e) = TW_pe_anti_msg"
    | "qowner (heap pe e) = TW_pe_pq" | "qowner (heap pe e) = TW_kp_pevent_q"
    using e(2) by (auto simp: in_use_def live_owner_def)
  then show ?thesis
  proof cases
    case 1
    let ?pe' = "tw_event_free e (pe\<lparr>event_q := remove1 e (event_q pe)\<rparr>)"
    have "owned c U (heap ?pe') (e # free_q pe) (remove1 e (event_q pe)) (pq pe) (pevents pe)"
      by (rule owned_free_any[OF ow e(1)]) (use 1 pk eq in \<open>auto simp: pe_simps\<close>)
    then show ?thesis by (intro goal[of ?pe']) (use 1 in \<open>auto simp: pe_simps cancel_owner_switch_def dest: set_remove1_subset[THEN subsetD]\<close>)
  next
    case 2
    let ?pe' = "tw_event_free e pe"
    have "owned c U (heap ?pe') (e # free_q pe) (event_q pe) (pq pe) (pevents pe)"
      by (rule owned_free_any[OF ow e(1)]) (use 2 pk eq in \<open>auto simp: pe_simps\<close>)
    then show ?thesis by (intro goal[of ?pe']) (use 2 in \<open>auto simp: pe_simps cancel_owner_switch_def\<close>)
  next
    case 3
    let ?hp = "(heap pe)(e := (heap pe e)\<lparr>out_msgs := [], qowner := TW_pe_free_q\<rparr>)"
    obtain q' where q': "tw_pq_delete_any (pq pe) e = Inr q'" "owned c U ?hp (e # free_q pe) (event_q pe) q' (pevents pe)"
      using owned_free_pq[OF ow e(1) 3, of ?hp] by auto
    define pe' where "pe' = tw_event_free e (upd_ev e (\<lambda>e. e\<lparr>qowner := No_owner\<rparr>) (pe\<lparr>pq := q'\<rparr>))"
    have h: "heap pe' = ?hp" by (simp add: pe'_def pe_simps)
    show ?thesis
      by (rule goal[of pe']) (use 3 q' h in \<open>simp_all add: pe'_def pe_simps pq_delete_any_def cancel_owner_switch_def\<close>)
  next
    case 4
    let ?k = "kp_of c (dest_lp (heap pe e))"
    have "e \<in> set (pevents pe ?k)" using pe_ok_pevents(1)[OF ok, of ?k] e(1) 4 by simp
    then obtain xs ys where pv: "pevents pe ?k = xs @ e # ys" by (auto simp: in_set_conv_decomp)
    obtain pe1 where p1: "tw_kp_rollback_event c net e pe = Inr pe1"
      "pe_ok c U (event_q pe) cl (tw_event_free e pe1)"
      "undone c {e} ?k (xs @ [e]) ys pe (tw_event_free e pe1)"
      using rollback_event_free_ok[OF ok refl pv] by blast
    have "busy U (heap (tw_event_free e pe1)) \<subset> busy U (heap pe)"
      using pe_ok_pevents(3)[OF ok, of ?k] pv o by (intro busy_undone[OF p1(3) e(1)]) auto
    then show ?thesis
      using p1 4 causal_undone[OF ok ca p1(3)] keeps_trace_undone[OF ok p1(3)] by (simp add: undone_def cancel_owner_switch_def)
  qed
qed

lemma cancel_events_ok:
  assumes "pe_ok c U (event_q pe) cl pe" "causal c U pe"
  shows "\<exists>pe'. cancel_events c net cl pe = Inr pe' \<and> pe_ok c U (event_q pe') [] pe' \<and> causal c U pe' \<and>
    (cl \<noteq> [] \<longrightarrow> busy U (heap pe') \<subset> busy U (heap pe)) \<and>
    keeps_trace c pe pe' \<and> set (event_q pe') \<subseteq> set (event_q pe) \<and> GVT_sig pe' = GVT_sig pe \<and> cev_abort pe' = cev_abort pe"
  using assms
proof (induction cl arbitrary: pe)
  case Nil
  then show ?case by simp
next
  case (Cons e cl)
  have c: "cancel_ok U (heap pe) ((e # cl) @ cancel_q pe)" using Cons.prems(1) by (simp add: pe_ok_def)
  have e: "st_cancel_q (heap pe e)" "qowner (heap pe e) \<noteq> No_owner" "qowner (heap pe e) \<noteq> TW_pe_free_q"
  proof -
    have "in_use (qowner (heap pe e)) \<and> st_cancel_q (heap pe e)" using cancel_okD(2)[OF c] by auto
    then show "st_cancel_q (heap pe e)" "qowner (heap pe e) \<noteq> No_owner" "qowner (heap pe e) \<noteq> TW_pe_free_q"
      by (auto simp: in_use_def live_owner_def)
  qed
  obtain pe1 where p1: "cancel_owner_switch c net e pe = Inr pe1"
    "pe_ok c U (event_q pe1) cl pe1" "causal c U pe1" "busy U (heap pe1) \<subset> busy U (heap pe)"
    "set (event_q pe1) \<subseteq> set (event_q pe)" "GVT_sig pe1 = GVT_sig pe" "cev_abort pe1 = cev_abort pe" "keeps_trace c pe pe1"
    using cancel_one[OF Cons.prems, of net] by blast
  have run: "cancel_events c net (e # cl) pe = cancel_events c net cl pe1" using p1(1) e by simp
  obtain pe2 where p2: "cancel_events c net cl pe1 = Inr pe2" "pe_ok c U (event_q pe2) [] pe2" "causal c U pe2"
    "cl \<noteq> [] \<longrightarrow> busy U (heap pe2) \<subset> busy U (heap pe1)" "cl = [] \<longrightarrow> pe2 = pe1"
    "set (event_q pe2) \<subseteq> set (event_q pe1)" "GVT_sig pe2 = GVT_sig pe1" "cev_abort pe2 = cev_abort pe1" "keeps_trace c pe1 pe2"
    using Cons.IH[OF p1(2,3)] by (cases cl) auto
  have "busy U (heap pe2) \<subset> busy U (heap pe)" using p1(4) p2(4,5) by (cases cl) auto
  then show ?case using p1(5-7) p2 keeps_trace_trans[OF p1(8) p2(9)] unfolding run by (intro exI[of _ pe2]) auto
qed

text \<open>Every pass over the queue frees an event, so the number of buffers in use bounds the passes.\<close>

lemma sched_cancel_q_ok:
  assumes "pe_ok c U (event_q pe) [] pe" "causal c U pe" "card (busy U (heap pe)) \<le> n"
  shows "\<exists>pe'. tw_sched_cancel_q n c net pe = Inr pe' \<and> pe_ok c U (event_q pe') [] pe' \<and> causal c U pe' \<and>
    keeps_trace c pe pe' \<and> cancel_q pe' = [] \<and> set (event_q pe') \<subseteq> set (event_q pe) \<and> GVT_sig pe' = GVT_sig pe \<and> cev_abort pe' = cev_abort pe"
  using assms
proof (induction n arbitrary: pe)
  case 0
  have "finite (busy U (heap pe))" using owned_event_q(3)[OF "0.prems"(1)] by (simp add: busy_def)
  then have b: "busy U (heap pe) = {}" using "0.prems"(3) by simp
  have "cancel_ok U (heap pe) (cancel_q pe)" using "0.prems"(1) by (simp add: pe_ok_def)
  then have "set (cancel_q pe) \<subseteq> busy U (heap pe)"
    by (auto simp: busy_def in_use_def live_owner_def dest!: cancel_okD(2))
  then have "cancel_q pe = []" using b by simp
  then show ?case using "0.prems" by (simp add: tw_sched_cancel_q.simps)
next
  case (Suc n)
  show ?case
  proof (cases "cancel_q pe = []")
    case True
    then show ?thesis using Suc.prems by (simp add: tw_sched_cancel_q.simps)
  next
    case False
    let ?pe0 = "pe\<lparr>cancel_q := []\<rparr>"
    have ok0: "pe_ok c U (event_q ?pe0) (cancel_q pe) ?pe0"
      using Suc.prems(1) by (simp add: pe_ok_def good_streams_def)
    have ca0: "causal c U ?pe0" using Suc.prems(2) by (simp add: causal_def)
    obtain pe1 where p1: "cancel_events c net (cancel_q pe) ?pe0 = Inr pe1" "pe_ok c U (event_q pe1) [] pe1"
      "causal c U pe1" "busy U (heap pe1) \<subset> busy U (heap pe)" "set (event_q pe1) \<subseteq> set (event_q pe)"
      "GVT_sig pe1 = GVT_sig pe" "cev_abort pe1 = cev_abort pe" "keeps_trace c ?pe0 pe1"
      using cancel_events_ok[OF ok0 ca0, of net] False by auto
    have "finite (busy U (heap pe))" using owned_event_q(3)[OF Suc.prems(1)] by (simp add: busy_def)
    then have "card (busy U (heap pe1)) \<le> n" using psubset_card_mono[OF _ p1(4)] Suc.prems(3) by simp
    then obtain pe2 where "tw_sched_cancel_q n c net pe1 = Inr pe2" "pe_ok c U (event_q pe2) [] pe2" "causal c U pe2"
      "cancel_q pe2 = []" "set (event_q pe2) \<subseteq> set (event_q pe1)" "GVT_sig pe2 = GVT_sig pe1" "cev_abort pe2 = cev_abort pe1"
      "keeps_trace c pe1 pe2"
      using Suc.IH[OF p1(2,3)] by blast
    moreover have "keeps_trace c pe ?pe0" by (rule keeps_trace_same) simp_all
    ultimately show ?thesis using False p1 keeps_trace_trans[of c pe ?pe0 pe1] keeps_trace_trans[of c pe pe1 pe2]
      by (intro exI[of _ pe2]) (subst tw_sched_cancel_q.simps, auto)
  qed
qed

end
