(* ===== verification/Send_Effect.thy ===== *)
theory Send_Effect
  imports Sched_Queues
begin

text \<open>
  The effect of a handler's sends (\<open>tw_event_new_user_prio\<close> in \<open>core/ross-inline.h\<close> followed by
  \<open>tw_event_send\<close> in \<open>core/tw-event.c\<close>) on the state of the PE, for events that stay on the node:
  a send never fails and keeps the invariant, and it is counted among the things a rollback of
  the sender undoes.
\<close>

section \<open>Taking a buffer from the free list\<close>

lemma pq_inv_cong:
  assumes "\<And>x. x \<in> set (contents q) \<Longrightarrow> k' x = k x" "\<And>x. x \<in> set (contents q) \<Longrightarrow> w' x = w x"
  shows "pq_inv k' w' q = pq_inv k w q"
proof -
  have "sorted_wrt (\<lambda>a b. k' a < k' b) (contents q) = sorted_wrt (\<lambda>a b. k a < k b) (contents q)"
    using assms(1) by (intro iffI; elim sorted_wrt_mono_rel[rotated]) auto
  then show ?thesis using assms(2) by (simp add: pq_inv_def key_sorted_def)
qed

lemma owned_cong_on:
  assumes o: "owned c U hp fq eq q pk"
    and s: "\<And>b. b \<in> U \<Longrightarrow> rand_key (hp' b) = rand_key (hp b) \<and> qsig (hp' b) = qsig (hp b) \<and>
      qowner (hp' b) = qowner (hp b) \<and> dest_lp (hp' b) = dest_lp (hp b)"
  shows "owned c U hp' fq eq q pk"
proof -
  have sub: "set (contents q) \<subseteq> U" using o by (auto simp: owned_def)
  have pq: "pq_inv (key_at hp') (wf_at hp') q = pq_inv (key_at hp) (wf_at hp) q"
    using s sub by (intro pq_inv_cong) (auto simp: key_at_def wf_at_def)
  have same: "{a \<in> U. P (qowner (hp' a))} = {a \<in> U. P (qowner (hp a))}" for P using s by auto
  have same2: "{a \<in> U. qowner (hp' a) = w \<and> kp_of c (dest_lp (hp' a)) = k} = {a \<in> U. qowner (hp a) = w \<and> kp_of c (dest_lp (hp a)) = k}" for w k
    using s by auto
  have inj: "inj_on (key_at hp') {a \<in> U. live_owner (qowner (hp a))} = inj_on (key_at hp) {a \<in> U. live_owner (qowner (hp a))}"
    by (rule inj_on_cong) (use s in \<open>simp add: key_at_def\<close>)
  show ?thesis
    using o s unfolding owned_def pq same2 same[of "\<lambda>w. w = TW_pe_free_q"] same[of "\<lambda>w. w = TW_pe_event_q"]
      same[of "\<lambda>w. w = TW_pe_pq"] same[of live_owner] inj by simp
qed

lemma owned_take_free:
  assumes o: "owned c U hp (fs @ [a]) eq q pk"
    and s: "\<And>b. b \<in> U \<Longrightarrow> b \<noteq> a \<Longrightarrow> rand_key (hp' b) = rand_key (hp b) \<and> qsig (hp' b) = qsig (hp b) \<and>
      qowner (hp' b) = qowner (hp b) \<and> dest_lp (hp' b) = dest_lp (hp b)"
    and a: "qowner (hp' a) = No_owner" "wf_sig (qsig (hp' a))"
  shows "owned c U hp' fs eq q pk" "a \<in> U" "qowner (hp a) = TW_pe_free_q"
proof -
  have fq: "set (fs @ [a]) = {x \<in> U. qowner (hp x) = TW_pe_free_q}" "distinct (fs @ [a])"
    using o by (simp_all only: owned_def)
  then show a': "a \<in> U" "qowner (hp a) = TW_pe_free_q" by auto
  have ow: "qowner (hp' b) = (if b = a then No_owner else qowner (hp b))" if "b \<in> U" for b using s a that by auto
  have fs: "set fs = {x \<in> U. qowner (hp' x) = TW_pe_free_q}"
  proof -
    have "set fs = {x \<in> U. qowner (hp x) = TW_pe_free_q} - {a}" using fq by auto
    then show ?thesis using ow by (auto split: if_splits)
  qed
  have c: "set (contents q) = {x \<in> U. qowner (hp x) = TW_pe_pq}" using o by (simp add: owned_def)
  have cs: "x \<in> U \<and> x \<noteq> a" if "x \<in> set (contents q)" for x using that a'(2) unfolding c by auto
  have pq: "pq_inv (key_at hp') (wf_at hp') q = pq_inv (key_at hp) (wf_at hp) q"
    by (rule pq_inv_cong) (use s cs in \<open>simp_all add: key_at_def wf_at_def\<close>)
  have same: "{x \<in> U. qowner (hp' x) = w} = {x \<in> U. qowner (hp x) = w}" if "w \<noteq> TW_pe_free_q" "w \<noteq> No_owner" for w
    using ow a'(2) that by (auto split: if_splits)
  have live: "{x \<in> U. live_owner (qowner (hp' x))} = {x \<in> U. live_owner (qowner (hp x))}"
    using ow a'(2) by (auto simp: live_owner_def split: if_splits)
  have same2: "{x \<in> U. qowner (hp' x) = TW_kp_pevent_q \<and> kp_of c (dest_lp (hp' x)) = k} = {x \<in> U. qowner (hp x) = TW_kp_pevent_q \<and> kp_of c (dest_lp (hp x)) = k}" for k
  proof -
    have "qowner (hp' x) = TW_kp_pevent_q \<and> kp_of c (dest_lp (hp' x)) = k \<longleftrightarrow> qowner (hp x) = TW_kp_pevent_q \<and> kp_of c (dest_lp (hp x)) = k"
      if "x \<in> U" for x
      using s[OF that] ow[OF that] a'(2) by (cases "x = a") auto
    then show ?thesis by blast
  qed
  have inj: "inj_on (key_at hp') {x \<in> U. live_owner (qowner (hp x))} = inj_on (key_at hp) {x \<in> U. live_owner (qowner (hp x))}"
  proof (rule inj_on_cong)
    fix x assume x: "x \<in> {x \<in> U. live_owner (qowner (hp x))}"
    then have "x \<noteq> a" using a'(2) by (auto simp: live_owner_def)
    then show "key_at hp' x = key_at hp x" using s x by (simp add: key_at_def)
  qed
  have wf: "\<forall>x\<in>U. wf_sig (qsig (hp' x))"
    using o s a(2) unfolding owned_def by metis
  show "owned c U hp' fs eq q pk"
    using o wf fs fq(2) unfolding owned_def pq same2 live inj
    using same[of TW_pe_event_q] same[of TW_pe_pq] by simp
qed

text \<open>A new event that goes to the arrival queue.\<close>

lemma owned_arrive_new:
  assumes o: "owned c U hp fq eq q pk" and a: "a \<in> U" "qowner (hp a) = No_owner"
    and key: "\<And>b. b \<in> U \<Longrightarrow> live_owner (qowner (hp b)) \<Longrightarrow> key_at hp b \<noteq> key_at hp a"
    and hp': "hp' = hp(a := (hp a)\<lparr>qowner := TW_pe_event_q\<rparr>)"
  shows "owned c U hp' fq (eq @ [a]) q pk"
proof -
  have k: "key_at hp' = key_at hp" "wf_at hp' = wf_at hp"
    unfolding hp' by (rule key_at_cong, simp) (rule wf_at_cong, simp)
  have ow: "qowner (hp' b) = (if b = a then TW_pe_event_q else qowner (hp b))" "dest_lp (hp' b) = dest_lp (hp b)"
    "qsig (hp' b) = qsig (hp b)" for b
    by (simp_all add: hp')
  have live: "{x \<in> U. live_owner (qowner (hp' x))} = insert a {x \<in> U. live_owner (qowner (hp x))}"
    using a by (auto simp: live_owner_def ow)
  have inj: "inj_on (key_at hp) (insert a {x \<in> U. live_owner (qowner (hp x))})"
    unfolding inj_on_insert using o key by (force simp: owned_def)
  have "set (pk i) = {x \<in> U. qowner (hp' x) = TW_kp_pevent_q \<and> kp_of c (dest_lp (hp' x)) = i}" for i
  proof -
    have "set (pk i) = {x \<in> U. qowner (hp x) = TW_kp_pevent_q \<and> kp_of c (dest_lp (hp x)) = i}"
      using o unfolding owned_def by metis
    then show ?thesis using a by (auto simp: ow)
  qed
  then show ?thesis
    using o a inj unfolding owned_def k live by (auto simp: ow)
qed

section \<open>A send keeps the state well formed\<close>

text \<open>The invariant reads these parts of the events only.\<close>

definition inv_same :: "('bf, 'm) pevent \<Rightarrow> ('bf, 'm) pevent \<Rightarrow> bool" where
  "inv_same e e' \<longleftrightarrow> rand_key e = rand_key e' \<and> qsig e = qsig e' \<and> qowner e = qowner e' \<and> dest_lp e = dest_lp e' \<and>
     src_lp e = src_lp e' \<and> caused_by_me e = caused_by_me e' \<and> st_cancel_q e = st_cancel_q e' \<and> ev_recv_ts e = ev_recv_ts e'"

lemma pe_ok_cong_on:
  assumes ok: "pe_ok c U eq cl pe" and h: "\<And>b. b \<in> U \<Longrightarrow> inv_same (heap pe' b) (heap pe b)"
    and same: "free_q pe' = free_q pe" "pq pe' = pq pe" "cancel_q pe' = cancel_q pe" "GVT_sig pe' = GVT_sig pe"
      "\<And>k. pevents pe' k = pevents pe k" "\<And>k. wf_sig (last_sig (kps pe' k))" "good_streams pe'"
      "\<And>b. b \<in> U \<Longrightarrow> idle (heap pe' b)"
  shows "pe_ok c U eq cl pe'"
proof -
  note o = pe_okD[OF ok]
  have pv: "pevents pe' = pevents pe" using same(5) by (rule ext)
  have hi: "rand_key (heap pe' b) = rand_key (heap pe b)" "qsig (heap pe' b) = qsig (heap pe b)"
    "qowner (heap pe' b) = qowner (heap pe b)" "dest_lp (heap pe' b) = dest_lp (heap pe b)"
    "src_lp (heap pe' b) = src_lp (heap pe b)" "caused_by_me (heap pe' b) = caused_by_me (heap pe b)"
    "st_cancel_q (heap pe' b) = st_cancel_q (heap pe b)" "ev_recv_ts (heap pe' b) = ev_recv_ts (heap pe b)" if "b \<in> U" for b
    using h[OF that] by (simp_all add: inv_same_def)
  have ow: "owned c U (heap pe') (free_q pe') eq (pq pe') (pevents pe')"
    unfolding same(1,2) pv by (rule owned_cong_on[OF o(3)]) (simp add: hi)
  have p: "processed U (heap pe') = processed U (heap pe)" using hi(3) by auto
  have ki: "kids U (heap pe') (processed U (heap pe))"
    unfolding kids_def
  proof (intro conjI ballI impI)
    fix b assume b: "b \<in> processed U (heap pe)"
    then have c: "caused_by_me (heap pe' b) = caused_by_me (heap pe b)" "dest_lp (heap pe' b) = dest_lp (heap pe b)"
      by (simp_all add: hi)
    show "distinct (caused_by_me (heap pe' b))" "b \<notin> set (caused_by_me (heap pe' b))"
      unfolding c by (rule childrenD(1,2)[OF o(4) b])+
    fix x assume "x \<in> set (caused_by_me (heap pe' b))"
    then have x: "x \<in> set (caused_by_me (heap pe b))" by (simp only: c)
    then show xU: "x \<in> U" by (rule childrenD(3)[OF o(4) b])
    show "live_owner (qowner (heap pe' x))" "src_lp (heap pe' x) = dest_lp (heap pe' b)"
      using childrenD(4,5)[OF o(4) b x] c xU by (simp_all add: hi)
  next
    fix b b' assume b: "b \<in> processed U (heap pe)" "b' \<in> processed U (heap pe)" "b \<noteq> b'"
    then have "caused_by_me (heap pe' b) = caused_by_me (heap pe b)" "caused_by_me (heap pe' b') = caused_by_me (heap pe b')"
      by (simp_all add: hi)
    then show "set (caused_by_me (heap pe' b)) \<inter> set (caused_by_me (heap pe' b')) = {}"
      using children_disjoint[OF o(4) b] by simp
  qed
  have ca: "cancel_ok U (heap pe') (cl @ cancel_q pe')"
  proof -
    have "{x \<in> U. in_use (qowner (heap pe' x)) \<and> st_cancel_q (heap pe' x)} = {x \<in> U. in_use (qowner (heap pe x)) \<and> st_cancel_q (heap pe x)}"
      using hi(3,7) by auto
    moreover have "set (caused_by_me (heap pe' b)) \<inter> set (cl @ cancel_q pe) = {}" if "b \<in> processed U (heap pe)" for b
      using cancel_okD(3)[OF o(5) that] that by (simp add: hi)
    moreover have "\<forall>x \<in> U. qowner (heap pe' x) = TW_pe_anti_msg \<longrightarrow> st_cancel_q (heap pe' x)"
      using cancel_okD(4)[OF o(5)] by (simp add: hi)
    ultimately show ?thesis
      using cancel_okD(1,2)[OF o(5)] unfolding cancel_ok_def p same(3) by (intro conjI ballI[where A = "processed U (heap pe)"]) simp_all
  qed
  show ?thesis
    by (rule pe_okI) (use o(1,6,7) ow ki ca same in \<open>simp_all add: hi p\<close>)
qed

lemma causal_cong_on:
  assumes ca: "causal c U pe" and ok: "pe_ok c U eq cl pe" and h: "\<And>b. b \<in> U \<Longrightarrow> inv_same (heap pe' b) (heap pe b)"
    and same: "\<And>k. pevents pe' k = pevents pe k" "\<And>k. last_sig (kps pe' k) = last_sig (kps pe k)" "GVT_sig pe' = GVT_sig pe"
  shows "causal c U pe'"
proof -
  have U: "set (pevents pe k) \<subseteq> U" for k using pe_ok_pevents(3)[OF ok, of k] by auto
  have q: "qsig (heap pe' b) = qsig (heap pe b)" if "b \<in> U" for b using h[OF that] by (simp add: inv_same_def)
  have "sorted_wrt (\<lambda>a b. sig_key (qsig (heap pe' b)) \<le> sig_key (qsig (heap pe' a))) (pevents pe k)" for k
  proof (rule sorted_wrt_mono_rel)
    show "sorted_wrt (\<lambda>a b. sig_key (qsig (heap pe b)) \<le> sig_key (qsig (heap pe a))) (pevents pe k)"
      using ca by (simp add: causal_def)
    show "sig_key (qsig (heap pe' y)) \<le> sig_key (qsig (heap pe' x))"
      if "x \<in> set (pevents pe k)" "y \<in> set (pevents pe k)" "sig_key (qsig (heap pe y)) \<le> sig_key (qsig (heap pe x))" for x y
      using that U[of k] by (simp add: q subset_iff)
  qed
  moreover have "sig_key (last_sig (kps pe k)) = sig_key (qsig (heap pe' (hd (pevents pe k))))" if "pevents pe k \<noteq> []" for k
  proof -
    have "hd (pevents pe k) \<in> U" using U[of k] that by (auto dest: hd_in_set)
    then show ?thesis using ca that by (simp add: q causal_def)
  qed
  ultimately show ?thesis
    using ca h unfolding causal_def same by (auto simp: inv_same_def)
qed

text \<open>
  \<open>a\<close> is the event that sends and \<open>e\<close> the new one, in a state in which \<open>a\<close> counts as processed.
\<close>

lemma pe_ok_send:
  assumes ok: "pe_ok c U eq cl pe" and a: "a \<in> processed U (heap pe)" and fq: "free_q pe = free_q pe' @ [e]"
    and hp': "\<And>b. b \<in> U \<Longrightarrow> b \<noteq> e \<Longrightarrow> b \<noteq> a \<Longrightarrow> heap pe' b = heap pe b"
      "heap pe' a = (heap pe a)\<lparr>caused_by_me := e # caused_by_me (heap pe a)\<rparr>"
    and ne: "wf_sig (qsig (heap pe' e))" "ev_recv_ts (heap pe' e) = recv_ts (qsig (heap pe' e))"
      "src_lp (heap pe' e) = dest_lp (heap pe a)" "\<not> st_cancel_q (heap pe' e)"
      "caused_by_me (heap pe' e) = []" "aborted_total (heap pe' e) = 0"
    and w: "qowner (heap pe' e) = TW_pe_pq \<or> qowner (heap pe' e) = TW_pe_event_q"
    and o': "owned c U (heap pe') (free_q pe') eq' (pq pe') (pevents pe')"
    and st: "good_streams pe'" "cancel_q pe' = cancel_q pe" "GVT_sig pe' = GVT_sig pe"
      "\<And>k. wf_sig (last_sig (kps pe' k))"
  shows "pe_ok c U eq' cl pe'"
proof -
  let ?hp = "heap pe" and ?hp' = "heap pe'"
  note o = ok[unfolded pe_ok_def]
  have k: "kids U ?hp (processed U ?hp)" and c: "cancel_ok U ?hp (cl @ cancel_q pe)" using o by simp_all
  have "set (free_q pe) = {x \<in> U. qowner (?hp x) = TW_pe_free_q}" using o by (simp add: owned_def)
  then have e: "e \<in> U" "qowner (?hp e) = TW_pe_free_q" using fq by auto
  have ae: "a \<noteq> e" using a e(2) by auto
  have fresh: "e \<notin> set (caused_by_me (?hp b))" if "b \<in> processed U ?hp" for b
    using childrenD(4)[OF k that, of e] e(2) by (auto simp: live_owner_def)
  have ow: "qowner (?hp' b) = (if b = e then qowner (?hp' e) else qowner (?hp b))" if "b \<in> U" for b
    using hp'(1)[OF that] hp'(2) by (cases "b = a") auto
  have sel: "dest_lp (?hp' b) = dest_lp (?hp b)" "src_lp (?hp' b) = src_lp (?hp b)" "qsig (?hp' b) = qsig (?hp b)"
    "ev_recv_ts (?hp' b) = ev_recv_ts (?hp b)" "st_cancel_q (?hp' b) = st_cancel_q (?hp b)"
    "caused_by_me (?hp' b) = (if b = a then e # caused_by_me (?hp a) else caused_by_me (?hp b))" if "b \<in> U" "b \<noteq> e" for b
    using hp'(1)[OF that] hp'(2) by (cases "b = a"; simp)+
  have "qowner (?hp' x) = TW_kp_pevent_q \<longleftrightarrow> qowner (?hp x) = TW_kp_pevent_q" if "x \<in> U" for x
    using ow[OF that] w e(2) by (cases "x = e") auto
  then have p: "processed U ?hp' = processed U ?hp" by blast
  have live: "live_owner (qowner (?hp' x)) \<longleftrightarrow> x = e \<or> live_owner (qowner (?hp x))" if "x \<in> U" for x
    using ow[OF that] w by (auto simp: live_owner_def)
  have pU: "b \<in> U \<and> b \<noteq> e" if "b \<in> processed U ?hp" for b using that e(2) by auto
  have k': "kids U ?hp' (processed U ?hp')"
    unfolding p kids_def
  proof (intro conjI ballI impI)
    fix b assume b: "b \<in> processed U ?hp"
    note bU = pU[OF b]
    show "distinct (caused_by_me (?hp' b))" "b \<notin> set (caused_by_me (?hp' b))"
      using childrenD(1,2)[OF k b] fresh[OF b] bU by (auto simp: sel)
    fix x assume x: "x \<in> set (caused_by_me (?hp' b))"
    show "x \<in> U" "live_owner (qowner (?hp' x))" "src_lp (?hp' x) = dest_lp (?hp' b)"
    proof -
      have "x \<in> U \<and> live_owner (qowner (?hp' x)) \<and> src_lp (?hp' x) = dest_lp (?hp' b)"
      proof (cases "x = e")
        case True
        then have "b = a" using x fresh[OF b] bU by (auto simp: sel split: if_splits)
        then show ?thesis using True e ne(3) live[OF e(1)] bU by (simp add: sel)
      next
        case False
        then have "x \<in> set (caused_by_me (?hp b))" using x bU by (auto simp: sel split: if_splits)
        then have "x \<in> U" "live_owner (qowner (?hp x))" "src_lp (?hp x) = dest_lp (?hp b)"
          using childrenD(3-5)[OF k b] by blast+
        then show ?thesis using False live[of x] bU by (simp add: sel)
      qed
      then show "x \<in> U" "live_owner (qowner (?hp' x))" "src_lp (?hp' x) = dest_lp (?hp' b)" by simp_all
    qed
  next
    fix b b' assume b: "b \<in> processed U ?hp" "b' \<in> processed U ?hp" "b \<noteq> b'"
    show "set (caused_by_me (?hp' b)) \<inter> set (caused_by_me (?hp' b')) = {}"
      using children_disjoint[OF k b] fresh[OF b(1)] fresh[OF b(2)] pU[OF b(1)] pU[OF b(2)] b(3) by (auto simp: sel)
  qed
  have c': "cancel_ok U ?hp' (cl @ cancel_q pe')"
    unfolding cancel_ok_def p st
  proof (intro conjI ballI)
    show "distinct (cl @ cancel_q pe)" by (rule cancel_okD(1)[OF c])
    have "x \<in> set (cl @ cancel_q pe) \<longleftrightarrow> x \<in> U \<and> in_use (qowner (?hp x)) \<and> st_cancel_q (?hp x)" for x
      using cancel_okD(2)[OF c] by auto
    moreover have "x \<in> U \<Longrightarrow> in_use (qowner (?hp x)) \<and> st_cancel_q (?hp x) \<longleftrightarrow> in_use (qowner (?hp' x)) \<and> st_cancel_q (?hp' x)" for x
      using ow[of x] sel(5)[of x] e(2) ne(4) by (cases "x = e") (auto simp: in_use_def live_owner_def)
    ultimately show "set (cl @ cancel_q pe) = {x \<in> U. in_use (qowner (?hp' x)) \<and> st_cancel_q (?hp' x)}"
      by blast
    have ncq: "e \<notin> set (cl @ cancel_q pe)"
      using cancel_okD(2)[OF c] e(2) by (auto simp: in_use_def live_owner_def)
    fix b assume b: "b \<in> processed U ?hp"
    show "set (caused_by_me (?hp' b)) \<inter> set (cl @ cancel_q pe) = {}"
      using cancel_okD(3)[OF c b] ncq pU[OF b] by (auto simp: sel)
  next
    fix x assume x: "x \<in> U"
    show "qowner (?hp' x) = TW_pe_anti_msg \<longrightarrow> st_cancel_q (?hp' x)"
      using cancel_okD(4)[OF c x] ow[OF x] sel(5)[OF x] w by (cases "x = e") auto
  qed
  have "\<forall>x \<in> U. live_owner (qowner (?hp' x)) \<longrightarrow> ev_recv_ts (?hp' x) = recv_ts (qsig (?hp' x))"
  proof (intro ballI impI)
    fix x assume x: "x \<in> U" "live_owner (qowner (?hp' x))"
    then show "ev_recv_ts (?hp' x) = recv_ts (qsig (?hp' x))"
      using o live[OF x(1)] ne(2) by (cases "x = e") (auto simp: sel)
  qed
  moreover have "\<forall>x \<in> U. idle (?hp' x)"
  proof
    fix x assume x: "x \<in> U"
    show "idle (?hp' x)"
    proof (cases "x = e")
      case True
      then show ?thesis using ne(5,6) by (simp add: idle_def)
    next
      case False
      show ?thesis
      proof (cases "x = a")
        case True
        then show ?thesis using a hp'(2) by (simp add: idle_def)
      qed (use hp'(1)[OF x False] pe_okD(9)[OF ok x] in simp)
    qed
  qed
  ultimately show ?thesis
    using o o' k' c' st unfolding pe_ok_def by simp
qed


section \<open>The effect of a send\<close>

text \<open>
  What a handler's send has to satisfy here: it goes to an LP of this node, into the future or, with
  no offset, behind the event that is being processed. Adding a positive offset has to change
  the time where the sum is before the end of the simulation; a very small offset does not, and behind
  the end there is no event. Events that are sent to other PEs are the subject of \<open>Net_Send\<close> and
  \<open>Net_Props\<close>; the invariant of a single PE that these theories are about has none.
\<close>

definition send_ok :: "('st, 'bf, 'm) config \<Rightarrow> tw_event_sig \<Rightarrow> 'm send \<Rightarrow> bool" where
  "send_ok c s x \<longleftrightarrow> 0 \<le> offset_ts x \<and> 0 \<le> prio x \<and> prio x \<le> 1 \<and> map_pe c (to_gid x) = mynode c \<and>
     (offset_ts x > 0 \<longrightarrow> ts_add c (recv_ts s) (offset_ts x) < ts_end c \<longrightarrow> recv_ts s < ts_add c (recv_ts s) (offset_ts x)) \<and>
     (offset_ts x = 0 \<longrightarrow> ts_add c (recv_ts s) 0 = recv_ts s \<and> priority s \<le> prio x \<and>
        tie_lineage_length s < MAX_TIE_CHAIN)"

lemma prefix_less: "xs < xs @ [u :: real]"
  by (induction xs) auto

lemma new_event_sig_ok:
  assumes e: "length (event_tiebreaker e_sig) = MAX_TIE_CHAIN" and s: "wf_sig s" and x: "send_ok c s x"
    and recv: "recv = ts_add c (recv_ts s) (offset_ts x)"
  shows "\<exists>s'. new_event_sig e_sig s recv (offset_ts x) (prio x) u = Inr s' \<and> wf_sig s' \<and> recv_ts s' = recv \<and>
    (recv < ts_end c \<longrightarrow> sig_key s < sig_key s')"
proof (cases "offset_ts x = 0")
  case True
  let ?n = "tie_lineage_length s"
  have n: "?n < MAX_TIE_CHAIN" and r: "recv = recv_ts s" "priority s \<le> prio x" using x recv True by (auto simp: send_ok_def)
  let ?t = "(copy_tie_loop ?n (event_tiebreaker s) (event_tiebreaker e_sig))[?n := u]"
  have "take ?n (copy_tie_loop ?n (event_tiebreaker s) (event_tiebreaker e_sig)) = take ?n (event_tiebreaker s)"
    using e s n by (intro take_copy_tie_loop) (auto simp: wf_sig_def)
  then have "take (?n + 1) ?t = take ?n (event_tiebreaker s) @ [u]"
    using e n by (simp add: take_Suc_conv_app_nth)
  then have "sig_key s < (recv, prio x, take (?n + 1) ?t)"
    using r prefix_less[of "take ?n (event_tiebreaker s)" u] by (auto simp: sig_key_def less_prod_def)
  then show ?thesis
    using True e n unfolding new_event_sig_def by (simp add: Let_def wf_sig_def sig_key_def)
next
  case False
  then have r: "recv < ts_end c \<Longrightarrow> recv_ts s < recv" using x recv by (auto simp: send_ok_def)
  then show ?thesis
    using False e unfolding new_event_sig_def
    by (simp add: Let_def wf_sig_def sig_key_def less_prod_def MAX_TIE_CHAIN_def)
qed

text \<open>An event that was just made by \<open>tw_event_new\<close> for a send of the LP \<open>lp\<close>.\<close>

definition new_event_ok :: "('st, 'bf, 'm) config \<Rightarrow> nat \<Rightarrow> 'm send \<Rightarrow> tw_event_sig \<Rightarrow> ('bf, 'm) pevent \<Rightarrow> bool" where
  "new_event_ok c lp x s e \<longleftrightarrow> wf_sig (qsig e) \<and> ev_recv_ts e = recv_ts (qsig e) \<and> sig_key s < sig_key (qsig e) \<and>
     src_lp e = lp \<and> dest_lp e = to_gid x \<and> send_pe e = mynode c \<and> caused_by_me e = [] \<and> aborted_total e = 0 \<and>
     qowner e = No_owner \<and> \<not> st_cancel_q e \<and> out_msgs e = []"

lemma event_new_effect:
  assumes x: "send_ok c s x" and s: "qsig (heap pe (cur_event pe)) = s" "wf_sig s" "recv_ts (last_sig (kps pe (kp_of c lp))) = recv_ts s"
    and opt: "protocol c \<noteq> CONSERVATIVE" "protocol c \<noteq> SEQUENTIAL"
    and v: "valid_stream (core_rng (lps pe lp))"
    and fq: "free_q pe = fs @ [e]" "ts_add c (recv_ts s) (offset_ts x) < ts_end c"
    and e: "length (event_tiebreaker (qsig (heap pe e))) = MAX_TIE_CHAIN" "e \<noteq> cur_event pe"
  shows "\<exists>ne pe'. tw_event_new_user_prio c (to_gid x) (offset_ts x) lp (prio x) pe = Inr (e, pe') \<and>
    heap pe' = (heap pe)(e := ne) \<and> new_event_ok c lp x s ne \<and>
    free_q pe' = fs \<and> lps pe' = (lps pe)(lp := (lps pe lp)\<lparr>core_rng := core_fwd (core_rng (lps pe lp))\<rparr>) \<and>
    kps pe' = kps pe \<and> event_q pe' = event_q pe \<and> cancel_q pe' = cancel_q pe \<and> pq pe' = pq pe \<and>
    cur_event pe' = cur_event pe \<and> cev_abort pe' = cev_abort pe \<and> GVT_sig pe' = GVT_sig pe \<and> seq_num pe' = seq_num pe"
proof -
  define recv where "recv = ts_add c (recv_ts s) (offset_ts x)"
  define pe1 where "pe1 = upd_ev e (\<lambda>e. e\<lparr>caused_by_me := [], qowner := No_owner,
            st_cancel_q := False, st_cancel_asend := False, st_remote := False, event_id := 0\<rparr>) (pe\<lparr>free_q := fs\<rparr>)"
  have grab: "grab_for_send c recv pe = Inr (e, pe1)"
    using fq by (simp add: grab_for_send_def tw_event_grab_def recv_def pe1_def)
  define pe2 where "pe2 = upd_ev e (\<lambda>v. v\<lparr>send_pe := mynode c, dest_lp := to_gid x, dest_lpid := to_gid x,
                 src_lp := lp, ev_recv_ts := recv, send_ts := tw_now c lp pe1,
                 critical_path := lp_critical_path (lps pe1 lp) + 1, aborted_total := 0\<rparr>) pe1"
  have f2: "lps pe2 = lps pe" "kps pe2 = kps pe" "cur_event pe2 = cur_event pe" "event_q pe2 = event_q pe"
    "cancel_q pe2 = cancel_q pe" "pq pe2 = pq pe" "free_q pe2 = fs" "cev_abort pe2 = cev_abort pe" "GVT_sig pe2 = GVT_sig pe"
    "seq_num pe2 = seq_num pe"
    "\<And>b. b \<noteq> e \<Longrightarrow> heap pe2 b = heap pe b"
    by (simp_all add: pe2_def pe1_def pe_simps)
  obtain u where u: "core_unif lp pe2 = Inr (u, upd_lp lp (\<lambda>l. l\<lparr>core_rng := core_fwd (core_rng l)\<rparr>) pe2)"
    using core_unif_eq[of pe2 lp] v f2(1) by auto
  let ?pe3 = "upd_lp lp (\<lambda>l. l\<lparr>core_rng := core_fwd (core_rng l)\<rparr>) pe2"
  have q: "qsig (heap pe2 e) = qsig (heap pe e)" "qsig (heap ?pe3 (cur_event ?pe3)) = s" "qsig (heap ?pe3 e) = qsig (heap pe e)"
    using s e by (simp_all add: pe2_def pe1_def pe_simps)
  obtain s' where s': "new_event_sig (qsig (heap ?pe3 e)) (qsig (heap ?pe3 (cur_event ?pe3))) recv (offset_ts x) (prio x) u = Inr s'"
    "wf_sig s'" "recv_ts s' = recv" "sig_key s < sig_key s'"
    using new_event_sig_ok[of "qsig (heap pe e)" s c x recv u] e s(2) x fq(2) unfolding q recv_def by auto
  define pe4 where "pe4 = tw_free_output_messages e False (upd_ev e (\<lambda>v. v\<lparr>qsig := s'\<rparr>) ?pe3)"
  have now: "tw_now c lp pe = recv_ts s" using s by (simp add: tw_now_def)
  have run: "tw_event_new_user_prio c (to_gid x) (offset_ts x) lp (prio x) pe = Inr (e, pe4)"
    unfolding tw_event_new_user_prio_def Let_def now
    using x opt grab u s'(1) by (simp add: send_ok_def recv_def[symmetric] pe2_def[symmetric] pe4_def)
  have h4: "heap pe4 = (heap pe)(e := heap pe4 e)" "heap pe4 e = (heap pe2 e)\<lparr>qsig := s', out_msgs := []\<rparr>"
    by (rule ext) (simp_all add: pe4_def pe_simps f2(11))
  have ne: "new_event_ok c lp x s (heap pe4 e)"
    unfolding h4(2) new_event_ok_def using s' by (simp add: pe2_def pe1_def pe_simps)
  show ?thesis
    by (rule exI[of _ "heap pe4 e"], rule exI[of _ pe4]) (intro conjI run h4(1) ne; simp add: pe4_def pe_simps f2(1-10))
qed

text \<open>Past the end of time, or without a free buffer, the send uses the abort event.\<close>

lemma event_new_abort:
  assumes x: "send_ok c s x" and s: "qsig (heap pe (cur_event pe)) = s" "wf_sig s" "recv_ts (last_sig (kps pe (kp_of c lp))) = recv_ts s"
    and opt: "protocol c \<noteq> CONSERVATIVE" "protocol c \<noteq> SEQUENTIAL"
    and v: "valid_stream (core_rng (lps pe lp))"
    and fq: "free_q pe = [] \<or> \<not> ts_add c (recv_ts s) (offset_ts x) < ts_end c"
    and e: "abort_event c \<noteq> cur_event pe" "length (event_tiebreaker (qsig (heap pe (abort_event c)))) = MAX_TIE_CHAIN"
  shows "\<exists>ne pe'. tw_event_new_user_prio c (to_gid x) (offset_ts x) lp (prio x) pe = Inr (abort_event c, pe') \<and>
    heap pe' = (heap pe)(abort_event c := ne) \<and> wf_sig (qsig ne) \<and>
    free_q pe' = free_q pe \<and> lps pe' = (lps pe)(lp := (lps pe lp)\<lparr>core_rng := core_fwd (core_rng (lps pe lp))\<rparr>) \<and>
    kps pe' = kps pe \<and> event_q pe' = event_q pe \<and> cancel_q pe' = cancel_q pe \<and> pq pe' = pq pe \<and>
    cur_event pe' = cur_event pe \<and> cev_abort pe' = cev_abort pe \<and> GVT_sig pe' = GVT_sig pe \<and> seq_num pe' = seq_num pe"
proof -
  let ?e = "abort_event c"
  define recv where "recv = ts_add c (recv_ts s) (offset_ts x)"
  have grab: "grab_for_send c recv pe = Inr (?e, pe)"
    using fq opt by (auto simp: grab_for_send_def tw_event_grab_def recv_def)
  define pe2 where "pe2 = upd_ev ?e (\<lambda>v. v\<lparr>send_pe := mynode c, dest_lp := to_gid x, dest_lpid := to_gid x,
                 src_lp := lp, ev_recv_ts := recv, send_ts := tw_now c lp pe,
                 critical_path := lp_critical_path (lps pe lp) + 1, aborted_total := 0\<rparr>) pe"
  have f2: "lps pe2 = lps pe" "kps pe2 = kps pe" "cur_event pe2 = cur_event pe" "event_q pe2 = event_q pe"
    "cancel_q pe2 = cancel_q pe" "pq pe2 = pq pe" "free_q pe2 = free_q pe" "cev_abort pe2 = cev_abort pe" "GVT_sig pe2 = GVT_sig pe"
    "seq_num pe2 = seq_num pe"
    "\<And>b. b \<noteq> ?e \<Longrightarrow> heap pe2 b = heap pe b"
    by (simp_all add: pe2_def pe_simps)
  obtain u where u: "core_unif lp pe2 = Inr (u, upd_lp lp (\<lambda>l. l\<lparr>core_rng := core_fwd (core_rng l)\<rparr>) pe2)"
    using core_unif_eq[of pe2 lp] v f2(1) by auto
  let ?pe3 = "upd_lp lp (\<lambda>l. l\<lparr>core_rng := core_fwd (core_rng l)\<rparr>) pe2"
  have q: "qsig (heap ?pe3 (cur_event ?pe3)) = s" "qsig (heap ?pe3 ?e) = qsig (heap pe ?e)"
    using s e by (simp_all add: pe2_def pe_simps)
  obtain s' where s': "new_event_sig (qsig (heap ?pe3 ?e)) (qsig (heap ?pe3 (cur_event ?pe3))) recv (offset_ts x) (prio x) u = Inr s'"
    "wf_sig s'"
    using new_event_sig_ok[of "qsig (heap pe ?e)" s c x recv u] e(2) s(2) x unfolding q recv_def by auto
  define pe4 where "pe4 = tw_free_output_messages ?e False (upd_ev ?e (\<lambda>v. v\<lparr>qsig := s'\<rparr>) ?pe3)"
  have now: "tw_now c lp pe = recv_ts s" using s by (simp add: tw_now_def)
  have run: "tw_event_new_user_prio c (to_gid x) (offset_ts x) lp (prio x) pe = Inr (?e, pe4)"
    unfolding tw_event_new_user_prio_def Let_def now
    using x opt grab u s'(1) by (simp add: send_ok_def recv_def[symmetric] pe2_def[symmetric] pe4_def)
  have h4: "heap pe4 = (heap pe)(?e := heap pe4 ?e)" "wf_sig (qsig (heap pe4 ?e))"
    by (rule ext) (use s'(2) in \<open>simp_all add: pe4_def pe_simps f2(11)\<close>)
  show ?thesis
    by (rule exI[of _ "heap pe4 ?e"], rule exI[of _ pe4]) (intro conjI run h4; simp add: pe4_def pe_simps f2(1-10))
qed


section \<open>Sending\<close>

text \<open>The state in which the event being processed already counts as processed.\<close>

definition as_processed :: "('st, 'bf, 'm) config \<Rightarrow> addr \<Rightarrow> ('st, 'bf, 'm, 'z) tw_pe_scheme \<Rightarrow> ('st, 'bf, 'm, 'z) tw_pe_scheme" where
  "as_processed c a pe = upd_kp (kp_of c (dest_lp (heap pe a))) (\<lambda>kp. kp\<lparr>pevent_q := a # pevent_q kp\<rparr>)
     (upd_ev a (\<lambda>v. v\<lparr>qowner := TW_kp_pevent_q\<rparr>) pe)"

lemma as_processed_sel [simp]:
  "heap (as_processed c a pe) = (heap pe)(a := (heap pe a)\<lparr>qowner := TW_kp_pevent_q\<rparr>)"
  "lps (as_processed c a pe) = lps pe" "event_q (as_processed c a pe) = event_q pe"
  "cancel_q (as_processed c a pe) = cancel_q pe" "pq (as_processed c a pe) = pq pe" "free_q (as_processed c a pe) = free_q pe"
  "cur_event (as_processed c a pe) = cur_event pe" "cev_abort (as_processed c a pe) = cev_abort pe"
  "GVT_sig (as_processed c a pe) = GVT_sig pe" "seq_num (as_processed c a pe) = seq_num pe"
  "pevents (as_processed c a pe) j = (if j = kp_of c (dest_lp (heap pe a)) then a # pevents pe j else pevents pe j)"
  "last_sig (kps (as_processed c a pe) j) = last_sig (kps pe j)"
  by (simp_all add: as_processed_def pe_simps)

text \<open>The event \<open>a\<close> is in the handler.\<close>

definition running :: "('st, 'bf, 'm) config \<Rightarrow> addr set \<Rightarrow> addr list \<Rightarrow> addr \<Rightarrow> ('st, 'bf, 'm, 'z) tw_pe_scheme \<Rightarrow> bool" where
  "running c U cl a pe \<longleftrightarrow> pe_ok c U (event_q pe) cl (as_processed c a pe) \<and> causal c U (as_processed c a pe) \<and>
     a \<in> U \<and> qowner (heap pe a) = No_owner \<and> cur_event pe = a \<and>
     sig_key (last_sig (kps pe (kp_of c (dest_lp (heap pe a))))) = sig_key (qsig (heap pe a)) \<and>
     abort_event c \<notin> U \<and> wf_sig (qsig (heap pe (abort_event c)))"

text \<open>The ids the next \<open>n\<close> events of this PE get are not those of events in use.\<close>

definition fresh_ids :: "('st, 'bf, 'm) config \<Rightarrow> addr set \<Rightarrow> nat \<Rightarrow> ('st, 'bf, 'm, 'z) tw_pe_scheme \<Rightarrow> bool" where
  "fresh_ids c U n pe \<longleftrightarrow>
     (\<forall>b \<in> U. live_owner (qowner (heap pe b)) \<or> b = cur_event pe \<longrightarrow> send_pe (heap pe b) = mynode c \<longrightarrow>
        (\<forall>i. 1 \<le> i \<and> i \<le> n \<longrightarrow> event_id (heap pe b) \<noteq> seq_num pe + of_nat i)) \<and> n < 2 ^ 32"

lemma rand_key_neq: "event_id e \<noteq> event_id e' \<or> send_pe e \<noteq> send_pe e' \<Longrightarrow> rand_key e \<noteq> rand_key e'"
  by (auto simp: rand_key_def)

text \<open>The events taken from the free list are the new children of the current event.\<close>

definition grown :: "addr set \<Rightarrow> addr \<Rightarrow> ('st, 'bf, 'm, 'z) tw_pe_scheme \<Rightarrow> ('st, 'bf, 'm, 'z) tw_pe_scheme \<Rightarrow> bool" where
  "grown U a pe pe' \<longleftrightarrow> set (caused_by_me (heap pe' a)) =
     set (caused_by_me (heap pe a)) \<union> {b \<in> U. qowner (heap pe b) = TW_pe_free_q \<and> qowner (heap pe' b) \<noteq> TW_pe_free_q}"

text \<open>They come after it; and where every KP is at its time or before, they all go to the pending queue.\<close>

definition kids_later :: "addr set \<Rightarrow> addr \<Rightarrow> ('st, 'bf, 'm, 'z) tw_pe_scheme \<Rightarrow> ('st, 'bf, 'm, 'z) tw_pe_scheme \<Rightarrow> bool" where
  "kids_later U a pe pe' \<longleftrightarrow> (\<forall>b \<in> U. qowner (heap pe b) = TW_pe_free_q \<longrightarrow> qowner (heap pe' b) \<noteq> TW_pe_free_q \<longrightarrow>
     sig_key (qsig (heap pe a)) < sig_key (qsig (heap pe' b)))"

definition kps_behind :: "('st, 'bf, 'm) config \<Rightarrow> addr \<Rightarrow> ('st, 'bf, 'm, 'z) tw_pe_scheme \<Rightarrow> bool" where
  "kps_behind c a pe \<longleftrightarrow> (\<forall>i. sig_key (last_sig (kps pe (kp_of c i))) \<le> sig_key (qsig (heap pe a)))"

text \<open>What one send leaves of the state.\<close>

definition sent_one :: "('st, 'bf, 'm) config \<Rightarrow> addr set \<Rightarrow> addr \<Rightarrow> ('st, 'bf, 'm, 'z) tw_pe_scheme \<Rightarrow> ('st, 'bf, 'm, 'z) tw_pe_scheme \<Rightarrow> bool" where
  "sent_one c U a pe pe' \<longleftrightarrow>
     (let lp = dest_lp (heap pe a) in
      lps pe' = (lps pe)(lp := (lps pe lp)\<lparr>core_rng := core_fwd (core_rng (lps pe lp))\<rparr>) \<and>
      kps pe' = kps pe \<and> GVT_sig pe' = GVT_sig pe \<and> cancel_q pe' = cancel_q pe \<and>
      (\<exists>cs m. heap pe' a = (heap pe a)\<lparr>caused_by_me := cs, aborted_total := m\<rparr> \<and>
         length cs + m = length (caused_by_me (heap pe a)) + aborted_total (heap pe a) + 1) \<and>
      (\<forall>b \<in> U. b \<noteq> a \<longrightarrow> qowner (heap pe b) \<noteq> TW_pe_free_q \<longrightarrow> heap pe' b = heap pe b) \<and>
      grown U a pe pe' \<and> kids_later U a pe pe' \<and> (kps_behind c a pe \<longrightarrow> event_q pe' = event_q pe))"

definition one_send :: "('st, 'bf, 'm) config \<Rightarrow> ('st, 'bf, 'm, 'z) tw_pe_scheme net_ops \<Rightarrow> nat \<Rightarrow> 'm send
    \<Rightarrow> ('st, 'bf, 'm, 'z) pe_step" where
  "one_send c net lp x pe =
     ebind (tw_event_new_user_prio c (to_gid x) (offset_ts x) lp (prio x) pe) (\<lambda>(e, pe).
       tw_event_send c net e (upd_ev e (\<lambda>v. v\<lparr>msg := content x\<rparr>) pe))"

lemma do_sends_one: "do_sends c net lp (x # xs) pe = ebind (one_send c net lp x pe) (do_sends c net lp xs)"
  by (cases "tw_event_new_user_prio c (to_gid x) (offset_ts x) lp (prio x) pe") (auto simp: one_send_def)

lemma running_facts:
  assumes r: "running c U cl a pe"
  shows "good_rng (the_rng c)" "good_streams pe" "a \<in> processed U (heap (as_processed c a pe))"
    "owned c U (heap (as_processed c a pe)) (free_q pe) (event_q pe) (pq pe) (pevents (as_processed c a pe))"
    "wf_sig (qsig (heap pe a))" "\<And>b. b \<in> U \<Longrightarrow> wf_sig (qsig (heap pe b))"
    "set (free_q pe) = {b \<in> U. qowner (heap pe b) = TW_pe_free_q}" "abort_event c \<noteq> a"
proof -
  have ok: "pe_ok c U (event_q pe) cl (as_processed c a pe)" and a: "a \<in> U" "qowner (heap pe a) = No_owner" "abort_event c \<notin> U"
    using r by (simp_all add: running_def)
  note d = pe_okD[OF ok, unfolded as_processed_sel(6) as_processed_sel(5)]
  show "good_rng (the_rng c)" "good_streams pe" using d(1,2) by (simp_all add: good_streams_def)
  show o: "owned c U (heap (as_processed c a pe)) (free_q pe) (event_q pe) (pq pe) (pevents (as_processed c a pe))"
    by (rule d(3))
  show "a \<in> processed U (heap (as_processed c a pe))" using a(1) by simp
  show "abort_event c \<noteq> a" using a by metis
  show wf: "wf_sig (qsig (heap pe b))" if "b \<in> U" for b
    using ownedD(9)[OF o that] by (cases "b = a") auto
  show "wf_sig (qsig (heap pe a))" by (rule wf[OF a(1)])
  have "qowner (heap (as_processed c a pe) b) = TW_pe_free_q \<longleftrightarrow> qowner (heap pe b) = TW_pe_free_q" for b
    using a(2) by (cases "b = a") simp_all
  then show "set (free_q pe) = {b \<in> U. qowner (heap pe b) = TW_pe_free_q}"
    using ownedD(4)[OF o] by simp
qed

text \<open>A send that fails for want of a buffer, or goes past the end of time.\<close>

lemma send_aborted:
  assumes r: "running c U cl a pe" and x: "send_ok c (qsig (heap pe a)) x"
    and opt: "protocol c \<noteq> CONSERVATIVE" "protocol c \<noteq> SEQUENTIAL"
    and fq: "free_q pe = [] \<or> \<not> ts_add c (recv_ts (qsig (heap pe a))) (offset_ts x) < ts_end c"
    and fr: "fresh_ids c U (Suc n) pe"
  shows "\<exists>pe'. one_send c net (dest_lp (heap pe a)) x pe = Inr pe' \<and> running c U cl a pe' \<and> sent_one c U a pe pe' \<and>
    fresh_ids c U n pe'"
proof -
  let ?lp = "dest_lp (heap pe a)" and ?ab = "abort_event c" and ?s = "qsig (heap pe a)"
  note f = running_facts[OF r]
  have cur: "cur_event pe = a" "recv_ts (last_sig (kps pe (kp_of c ?lp))) = recv_ts ?s" using r by (simp_all add: running_def sig_key_def)
  have v: "valid_stream (core_rng (lps pe ?lp))" using f(2) by (simp add: good_streams_def)
  obtain ne pe1 where p1: "tw_event_new_user_prio c (to_gid x) (offset_ts x) ?lp (prio x) pe = Inr (?ab, pe1)"
    "heap pe1 = (heap pe)(?ab := ne)" "wf_sig (qsig ne)"
    "free_q pe1 = free_q pe" "lps pe1 = (lps pe)(?lp := (lps pe ?lp)\<lparr>core_rng := core_fwd (core_rng (lps pe ?lp))\<rparr>)"
    "kps pe1 = kps pe" "event_q pe1 = event_q pe" "cancel_q pe1 = cancel_q pe" "pq pe1 = pq pe"
    "cur_event pe1 = cur_event pe" "GVT_sig pe1 = GVT_sig pe" "seq_num pe1 = seq_num pe"
    using event_new_abort[OF x, of pe ?lp] cur f(5,8) opt v fq r by (auto simp: running_def wf_sig_def)
  define pe2 where "pe2 = upd_ev ?ab (\<lambda>v. v\<lparr>msg := content x\<rparr>) pe1"
  define pe3 where "pe3 = (if ev_recv_ts (heap pe2 ?ab) < ts_end c then pe2\<lparr>cev_abort := True\<rparr> else pe2)"
  define pe4 where "pe4 = upd_ev a (\<lambda>e. e\<lparr>aborted_total := aborted_total e + 1\<rparr>) pe3"
  have cur3: "cur_event pe3 = a" by (simp add: pe3_def pe2_def pe_simps p1(10) cur)
  have run: "one_send c net ?lp x pe = Inr pe4"
    unfolding one_send_def p1(1) ebind.simps prod.case pe2_def[symmetric] tw_event_send_def Let_def
    by (simp only: simp_thms if_True pe3_def[symmetric] pe4_def cur3)
  have ab: "?ab \<noteq> a" "?ab \<notin> U" using r by (auto simp: running_def)
  have h: "heap pe4 b = (if b = a then (heap pe a)\<lparr>aborted_total := aborted_total (heap pe a) + 1\<rparr> else heap pe b)" if "b \<noteq> ?ab" for b
    using that ab by (simp add: pe4_def pe3_def pe2_def pe_simps p1(2))
  have hab: "wf_sig (qsig (heap pe4 ?ab))"
    using p1(3) ab by (simp add: pe4_def pe3_def pe2_def pe_simps p1(2))
  have rest: "lps pe4 = lps pe1" "kps pe4 = kps pe" "event_q pe4 = event_q pe" "cancel_q pe4 = cancel_q pe" "pq pe4 = pq pe"
    "free_q pe4 = free_q pe" "cur_event pe4 = a" "GVT_sig pe4 = GVT_sig pe" "seq_num pe4 = seq_num pe"
    using cur3 by (simp_all add: pe4_def pe3_def pe2_def pe_simps p1)
  let ?V = "as_processed c a pe" and ?V' = "as_processed c a pe4"
  have ok: "pe_ok c U (event_q pe) cl ?V" "causal c U ?V" using r by (simp_all add: running_def)
  have pv: "pevents ?V' j = pevents ?V j" "last_sig (kps ?V' j) = last_sig (kps ?V j)" for j
    using h[OF ab(1)[symmetric]] by (simp_all add: rest)
  have isame: "inv_same (heap ?V' b) (heap ?V b)" if "b \<in> U" for b
  proof -
    have "b \<noteq> ?ab" using that ab by auto
    then show ?thesis using h[of b] by (cases "b = a") (simp_all add: inv_same_def)
  qed
  have gs: "good_streams ?V'" using f(2) by (auto simp: rest(1) p1(5) good_streams_def)
  have idl: "idle (heap ?V' b)" if "b \<in> U" for b
  proof -
    have "b \<noteq> ?ab" using that ab by auto
    then show ?thesis
      using h[of b] pe_okD(9)[OF ok(1) that] by (cases "b = a") (simp_all add: idle_def)
  qed
  have "pe_ok c U (event_q pe4) cl ?V'"
    unfolding rest(3) by (rule pe_ok_cong_on[OF ok(1) isame _ _ _ _ pv(1) _ gs idl])
      (use pe_okD(8)[OF ok(1)] in \<open>simp_all add: rest\<close>)
  moreover have "causal c U ?V'"
    by (rule causal_cong_on[OF ok(2,1) isame pv]) (simp_all add: rest)
  ultimately have ok': "pe_ok c U (event_q pe4) cl ?V'" "causal c U ?V'" .
  have "running c U cl a pe4"
    using r ok' h[OF ab(1)[symmetric]] hab rest(2,7) by (simp add: running_def)
  moreover have "sent_one c U a pe pe4"
    unfolding sent_one_def Let_def
  proof (intro conjI ballI impI)
    fix b assume "b \<in> U" "b \<noteq> a"
    then show "heap pe4 b = heap pe b" using h[of b] ab by (cases "b = ?ab") auto
  next
    show "\<exists>cs m. heap pe4 a = (heap pe a)\<lparr>caused_by_me := cs, aborted_total := m\<rparr> \<and>
      length cs + m = length (caused_by_me (heap pe a)) + aborted_total (heap pe a) + 1"
      using h[OF ab(1)[symmetric]]
      by (intro exI[of _ "caused_by_me (heap pe a)"] exI[of _ "aborted_total (heap pe a) + 1"]) simp
  next
    have "qowner (heap pe4 b) = qowner (heap pe b)" if "b \<in> U" for b
      using h[of b] ab(2) that by (cases "b = ?ab") auto
    then show "grown U a pe pe4" "kids_later U a pe pe4"
      using h[OF ab(1)[symmetric]] by (auto simp: grown_def kids_later_def)
  qed (simp_all add: rest p1(5))
  moreover have "fresh_ids c U n pe4"
    unfolding fresh_ids_def
  proof (intro conjI ballI impI allI)
    show "n < 2 ^ 32" using fr by (simp add: fresh_ids_def)
    fix b i assume b: "b \<in> U" "live_owner (qowner (heap pe4 b)) \<or> b = cur_event pe4" "send_pe (heap pe4 b) = mynode c" "1 \<le> i \<and> i \<le> n"
    then have "b \<noteq> ?ab" using ab by auto
    then show "event_id (heap pe4 b) \<noteq> seq_num pe4 + of_nat i"
      using b h[of b] fr cur unfolding fresh_ids_def rest by (auto split: if_splits)
  qed
  ultimately show ?thesis using run by blast
qed


text \<open>A send that gets a buffer: the event goes to the pending queue or to the arrival queue.\<close>

definition stamped :: "('st, 'bf, 'm) config \<Rightarrow> addr \<Rightarrow> ('st, 'bf, 'm, 'z) tw_pe_scheme \<Rightarrow> ('st, 'bf, 'm, 'z) tw_pe_scheme" where
  "stamped c e pe =
     (let src = src_lp (heap pe e);
          pe = pe\<lparr>seq_num := seq_num pe + 1\<rparr>;
          pe = upd_ev e (\<lambda>v. v\<lparr>event_id := seq_num pe\<rparr>) pe
      in upd_ev e (\<lambda>v. v\<lparr>send_lp := gid_of c src\<rparr>) pe)"

definition linked :: "('st, 'bf, 'm) config \<Rightarrow> addr \<Rightarrow> ('st, 'bf, 'm, 'z) tw_pe_scheme \<Rightarrow> ('st, 'bf, 'm, 'z) tw_pe_scheme" where
  "linked c e pe = upd_ev e (\<lambda>v. v\<lparr>dest_lp := local_lp c (dest_lp v)\<rparr>)
     (link_causality e (cur_event (stamped c e pe)) (stamped c e pe))"

lemma stamped_sel:
  "heap (stamped c e pe) = (heap pe)(e := (heap pe e)\<lparr>event_id := seq_num pe + 1, send_lp := gid_of c (src_lp (heap pe e))\<rparr>)"
  "cur_event (stamped c e pe) = cur_event pe"
  by (simp_all add: stamped_def Let_def pe_simps)

lemma event_send_local:
  assumes "e \<noteq> abort_event c" "map_pe c (dest_lp (heap pe e)) = mynode c" "protocol c \<noteq> CONSERVATIVE"
    "out_msgs (heap pe e) = []"
  shows "tw_event_send c net e pe =
    (if tw_event_sig_compare_ptr (last_sig (kps (linked c e pe) (kp_of c (dest_lp (heap (linked c e pe) e))))) (qsig (heap (linked c e pe) e)) \<le> 0
     then pq_enqueue e (linked c e pe)
     else let pe3 = upd_ev e (\<lambda>v. v\<lparr>qowner := TW_pe_event_q\<rparr>) (linked c e pe); pe4 = pe3\<lparr>event_q := event_q pe3 @ [e]\<rparr>
          in Inr (note_transient (qsig (heap pe4 e)) pe4))"
proof -
  define src where "src = src_lp (heap pe e)"
  define pe1 where "pe1 = upd_ev e (\<lambda>v. v\<lparr>event_id := seq_num (pe\<lparr>seq_num := seq_num pe + 1\<rparr>)\<rparr>) (pe\<lparr>seq_num := seq_num pe + 1\<rparr>)"
  have st: "upd_ev e (\<lambda>v. v\<lparr>send_lp := gid_of c src\<rparr>) pe1 = stamped c e pe"
    by (simp add: stamped_def Let_def pe1_def src_def)
  have d: "dest_lp (heap pe1 e) = dest_lp (heap pe e)" by (simp add: pe1_def pe_simps)
  have out: "out_msgs (heap (stamped c e pe) e) = []" using assms(4) by (simp add: stamped_sel)
  have np: "\<not> (protocol c = CONSERVATIVE \<and> X)" for X using assms(3) by simp
  have no: "\<not> out_msgs (heap (stamped c e pe) e) \<noteq> []" using out by simp
  show ?thesis
    unfolding tw_event_send_def src_def[symmetric] if_not_P[OF assms(1)] Let_def
    unfolding pe1_def[symmetric] st d if_not_P[OF np] if_not_P[OF no] if_P[OF assms(2)] linked_def[symmetric] ..
qed

lemma lt_rand_cong:
  assumes "\<And>b. ev_recv_ts (hp' b) = ev_recv_ts (hp b)" "\<And>b. qsig (hp' b) = qsig (hp b)"
    "\<And>b. event_id (hp' b) = event_id (hp b)" "\<And>b. send_pe (hp' b) = send_pe (hp b)"
  shows "lt_rand hp' = lt_rand hp"
  by (intro ext) (simp only: lt_rand_def tw_pq_compare_less_than_rand_def assms)

lemma causal_send:
  assumes ca: "causal c U pe" and ok: "pe_ok c U eq cl pe" and a: "a \<in> processed U (heap pe)"
    and e: "e \<in> U" "qowner (heap pe e) = TW_pe_free_q"
    and hp': "\<And>b. b \<in> U \<Longrightarrow> b \<noteq> e \<Longrightarrow> b \<noteq> a \<Longrightarrow> heap pe' b = heap pe b"
      "heap pe' a = (heap pe a)\<lparr>caused_by_me := e # caused_by_me (heap pe a)\<rparr>"
    and ne: "sig_key (qsig (heap pe a)) \<le> sig_key (qsig (heap pe' e))"
      "qowner (heap pe' e) = TW_pe_pq \<Longrightarrow>
        sig_key (last_sig (kps pe (kp_of c (dest_lp (heap pe' e))))) \<le> sig_key (qsig (heap pe' e))"
    and same: "\<And>k. pevents pe' k = pevents pe k" "\<And>k. last_sig (kps pe' k) = last_sig (kps pe k)" "GVT_sig pe' = GVT_sig pe"
  shows "causal c U pe'"
proof -
  have sel: "qsig (heap pe' b) = qsig (heap pe b)" "qowner (heap pe' b) = qowner (heap pe b)" "dest_lp (heap pe' b) = dest_lp (heap pe b)"
    if "b \<in> U" "b \<noteq> e" for b
    using hp'(1)[OF that] hp'(2) by (cases "b = a"; simp)+
  have pv: "b \<in> U \<and> b \<noteq> e" if "b \<in> set (pevents pe k)" for b k
    using pe_ok_pevents(3)[OF ok, of k] that e(2) by auto
  have "sorted_wrt (\<lambda>a b. sig_key (qsig (heap pe' b)) \<le> sig_key (qsig (heap pe' a))) (pevents pe k)" for k
  proof (rule sorted_wrt_mono_rel)
    show "sorted_wrt (\<lambda>a b. sig_key (qsig (heap pe b)) \<le> sig_key (qsig (heap pe a))) (pevents pe k)"
      using ca by (simp add: causal_def)
    show "sig_key (qsig (heap pe' y)) \<le> sig_key (qsig (heap pe' x))"
      if "x \<in> set (pevents pe k)" "y \<in> set (pevents pe k)" "sig_key (qsig (heap pe y)) \<le> sig_key (qsig (heap pe x))" for x y
      using that pv[of x k] pv[of y k] by (simp add: sel)
  qed
  moreover have "sig_key (last_sig (kps pe k)) = sig_key (qsig (heap pe' (hd (pevents pe k))))" if "pevents pe k \<noteq> []" for k
    using ca that pv[of "hd (pevents pe k)" k] by (simp add: sel causal_def)
  moreover have "sig_key (last_sig (kps pe k)) \<le> sig_key (GVT_sig pe)" if "pevents pe k = []" for k
    using ca that by (simp add: causal_def)
  moreover have "sig_key (last_sig (kps pe (kp_of c (dest_lp (heap pe' b))))) \<le> sig_key (qsig (heap pe' b))"
    if "b \<in> U" "qowner (heap pe' b) = TW_pe_pq" for b
    using ca that ne(2) sel[of b] by (cases "b = e") (auto simp: causal_def)
  moreover have "sig_key (GVT_sig pe) \<le> sig_key (qsig (heap pe' b))" if "b \<in> U" "live_owner (qowner (heap pe' b))" for b
  proof (cases "b = e")
    case True
    have "sig_key (GVT_sig pe) \<le> sig_key (qsig (heap pe a))"
      using ca a by (simp add: causal_def live_owner_def)
    then show ?thesis using True ne(1) by simp
  next
    case False
    then show ?thesis using ca that sel[of b] by (simp add: causal_def)
  qed
  ultimately show ?thesis unfolding causal_def same by blast
qed


lemma linked_sel:
  "seq_num (linked c e pe) = seq_num pe + 1" "lps (linked c e pe) = lps pe" "kps (linked c e pe) = kps pe"
  "event_q (linked c e pe) = event_q pe" "cancel_q (linked c e pe) = cancel_q pe" "pq (linked c e pe) = pq pe"
  "free_q (linked c e pe) = free_q pe" "cur_event (linked c e pe) = cur_event pe" "GVT_sig (linked c e pe) = GVT_sig pe"
  by (simp_all add: linked_def stamped_def Let_def link_causality_def pe_simps)

lemma linked_heap:
  assumes "e \<noteq> cur_event pe"
  shows "heap (linked c e pe) e = (heap pe e)\<lparr>event_id := seq_num pe + 1, send_lp := gid_of c (src_lp (heap pe e)),
      dest_lp := local_lp c (dest_lp (heap pe e))\<rparr>"
    "heap (linked c e pe) (cur_event pe) = (heap pe (cur_event pe))\<lparr>caused_by_me := e # caused_by_me (heap pe (cur_event pe))\<rparr>"
    "b \<noteq> e \<Longrightarrow> b \<noteq> cur_event pe \<Longrightarrow> heap (linked c e pe) b = heap pe b"
  using assms by (simp_all add: linked_def link_causality_def pe_simps stamped_sel)

text \<open>The new event is in front of the chain of \<open>a\<close> and in no queue yet.\<close>

lemma send_linked:
  assumes r: "running c U cl a pe" and x: "send_ok c (qsig (heap pe a)) x"
    and opt: "protocol c \<noteq> CONSERVATIVE" "protocol c \<noteq> SEQUENTIAL"
    and fq: "free_q pe = fs @ [e]" "ts_add c (recv_ts (qsig (heap pe a))) (offset_ts x) < ts_end c"
  shows "\<exists>pe2. one_send c net (dest_lp (heap pe a)) x pe =
      (if tw_event_sig_compare_ptr (last_sig (kps pe (kp_of c (dest_lp (heap pe2 e))))) (qsig (heap pe2 e)) \<le> 0
       then pq_enqueue e pe2
       else let pe3 = upd_ev e (\<lambda>v. v\<lparr>qowner := TW_pe_event_q\<rparr>) pe2; pe4 = pe3\<lparr>event_q := event_q pe3 @ [e]\<rparr>
          in Inr (note_transient (qsig (heap pe4 e)) pe4)) \<and>
    e \<in> U \<and> qowner (heap pe e) = TW_pe_free_q \<and> e \<noteq> a \<and>
    heap pe2 a = (heap pe a)\<lparr>caused_by_me := e # caused_by_me (heap pe a)\<rparr> \<and>
    (\<forall>b. b \<noteq> e \<longrightarrow> b \<noteq> a \<longrightarrow> heap pe2 b = heap pe b) \<and>
    wf_sig (qsig (heap pe2 e)) \<and> ev_recv_ts (heap pe2 e) = recv_ts (qsig (heap pe2 e)) \<and>
    sig_key (qsig (heap pe a)) < sig_key (qsig (heap pe2 e)) \<and> src_lp (heap pe2 e) = dest_lp (heap pe a) \<and>
    send_pe (heap pe2 e) = mynode c \<and> event_id (heap pe2 e) = seq_num pe + 1 \<and> qowner (heap pe2 e) = No_owner \<and>
    \<not> st_cancel_q (heap pe2 e) \<and> caused_by_me (heap pe2 e) = [] \<and> aborted_total (heap pe2 e) = 0 \<and>
    free_q pe2 = fs \<and> lps pe2 = (lps pe)(dest_lp (heap pe a) := (lps pe (dest_lp (heap pe a)))
      \<lparr>core_rng := core_fwd (core_rng (lps pe (dest_lp (heap pe a))))\<rparr>) \<and>
    kps pe2 = kps pe \<and> event_q pe2 = event_q pe \<and> cancel_q pe2 = cancel_q pe \<and> pq pe2 = pq pe \<and>
    cur_event pe2 = a \<and> GVT_sig pe2 = GVT_sig pe \<and> seq_num pe2 = seq_num pe + 1"
proof -
  let ?lp = "dest_lp (heap pe a)" and ?s = "qsig (heap pe a)"
  note f = running_facts[OF r]
  have cur: "cur_event pe = a" "recv_ts (last_sig (kps pe (kp_of c ?lp))) = recv_ts ?s" and aU: "qowner (heap pe a) = No_owner" "abort_event c \<notin> U"
    using r by (simp_all add: running_def sig_key_def)
  have e: "e \<in> U" "qowner (heap pe e) = TW_pe_free_q" using f(7) fq(1) by auto
  then have ne: "e \<noteq> a" "e \<noteq> abort_event c" using aU by auto
  have v: "valid_stream (core_rng (lps pe ?lp))" using f(2) by (simp add: good_streams_def)
  have len: "length (event_tiebreaker (qsig (heap pe e))) = MAX_TIE_CHAIN" using f(6)[OF e(1)] by (simp add: wf_sig_def)
  obtain n pe1 where p1: "tw_event_new_user_prio c (to_gid x) (offset_ts x) ?lp (prio x) pe = Inr (e, pe1)"
    "heap pe1 = (heap pe)(e := n)" "new_event_ok c ?lp x ?s n"
    "free_q pe1 = fs" "lps pe1 = (lps pe)(?lp := (lps pe ?lp)\<lparr>core_rng := core_fwd (core_rng (lps pe ?lp))\<rparr>)"
    "kps pe1 = kps pe" "event_q pe1 = event_q pe" "cancel_q pe1 = cancel_q pe" "pq pe1 = pq pe"
    "cur_event pe1 = cur_event pe" "GVT_sig pe1 = GVT_sig pe" "seq_num pe1 = seq_num pe"
    using event_new_effect[OF x _ f(5) cur(2) opt v fq len] ne(1) cur(1) by auto
  define pe1' where "pe1' = upd_ev e (\<lambda>v. v\<lparr>msg := content x\<rparr>) pe1"
  have he: "heap pe1' e = n\<lparr>msg := content x\<rparr>" "b \<noteq> e \<Longrightarrow> heap pe1' b = heap pe b" for b
    by (simp_all add: pe1'_def pe_simps p1(2))
  have c1: "cur_event pe1' = a" by (simp add: pe1'_def pe_simps p1(10) cur)
  have n: "out_msgs (heap pe1' e) = []" "map_pe c (dest_lp (heap pe1' e)) = mynode c"
    using p1(3) x by (simp_all add: he(1) new_event_ok_def send_ok_def)
  define pe2 where "pe2 = linked c e pe1'"
  note lh = linked_heap[of e pe1', where c = c, unfolded c1, OF ne(1), folded pe2_def]
  have sel: "seq_num pe2 = seq_num pe + 1" "lps pe2 = lps pe1" "kps pe2 = kps pe"
    "event_q pe2 = event_q pe" "cancel_q pe2 = cancel_q pe" "pq pe2 = pq pe"
    "free_q pe2 = fs" "cur_event pe2 = a" "GVT_sig pe2 = GVT_sig pe"
    by (simp_all add: pe2_def linked_sel c1) (simp_all add: pe1'_def pe_simps p1)
  have run: "one_send c net ?lp x pe =
      (if tw_event_sig_compare_ptr (last_sig (kps pe (kp_of c (dest_lp (heap pe2 e))))) (qsig (heap pe2 e)) \<le> 0
       then pq_enqueue e pe2
       else let pe3 = upd_ev e (\<lambda>v. v\<lparr>qowner := TW_pe_event_q\<rparr>) pe2; pe4 = pe3\<lparr>event_q := event_q pe3 @ [e]\<rparr>
          in Inr (note_transient (qsig (heap pe4 e)) pe4))"
    unfolding one_send_def p1(1) ebind.simps prod.case pe1'_def[symmetric] event_send_local[OF ne(2) n(2) opt(1) n(1)]
      pe2_def[symmetric] sel(3) ..
  have h: "heap pe2 a = (heap pe a)\<lparr>caused_by_me := e # caused_by_me (heap pe a)\<rparr>"
    "\<forall>b. b \<noteq> e \<longrightarrow> b \<noteq> a \<longrightarrow> heap pe2 b = heap pe b"
    using lh(2,3) he(2) ne(1) by auto
  have m: "wf_sig (qsig (heap pe2 e))" "ev_recv_ts (heap pe2 e) = recv_ts (qsig (heap pe2 e))"
    "sig_key ?s < sig_key (qsig (heap pe2 e))" "src_lp (heap pe2 e) = ?lp" "send_pe (heap pe2 e) = mynode c"
    "event_id (heap pe2 e) = seq_num pe + 1" "qowner (heap pe2 e) = No_owner" "\<not> st_cancel_q (heap pe2 e)"
    "caused_by_me (heap pe2 e) = []" "aborted_total (heap pe2 e) = 0"
    using p1(3,12) unfolding lh(1) he(1) by (simp_all add: new_event_ok_def pe1'_def pe_simps)
  show ?thesis
    by (rule exI[of _ pe2]) (intro conjI run e ne(1) h m sel trans[OF sel(2) p1(5)])
qed


text \<open>The two ways the new event can go keep the invariant.\<close>

lemma send_queued:
  assumes r: "running c U cl a pe" and opt: "free_q pe = fs @ [e]"
    and p2: "e \<in> U" "qowner (heap pe e) = TW_pe_free_q" "e \<noteq> a"
      "heap pe2 a = (heap pe a)\<lparr>caused_by_me := e # caused_by_me (heap pe a)\<rparr>"
      "\<forall>b. b \<noteq> e \<longrightarrow> b \<noteq> a \<longrightarrow> heap pe2 b = heap pe b"
      "wf_sig (qsig (heap pe2 e))" "ev_recv_ts (heap pe2 e) = recv_ts (qsig (heap pe2 e))"
      "sig_key (qsig (heap pe a)) < sig_key (qsig (heap pe2 e))" "src_lp (heap pe2 e) = dest_lp (heap pe a)"
      "send_pe (heap pe2 e) = mynode c" "event_id (heap pe2 e) = seq_num pe + 1" "qowner (heap pe2 e) = No_owner"
      "\<not> st_cancel_q (heap pe2 e)" "caused_by_me (heap pe2 e) = [] \<and> aborted_total (heap pe2 e) = 0"
      "free_q pe2 = fs" "lps pe2 = (lps pe)(dest_lp (heap pe a) := (lps pe (dest_lp (heap pe a)))
        \<lparr>core_rng := core_fwd (core_rng (lps pe (dest_lp (heap pe a))))\<rparr>)"
      "kps pe2 = kps pe" "cancel_q pe2 = cancel_q pe"
      "cur_event pe2 = a" "GVT_sig pe2 = GVT_sig pe" "seq_num pe2 = seq_num pe + 1"
    and p3: "heap pe3 = (heap pe2)(e := (heap pe2 e)\<lparr>qowner := w\<rparr>)" "w = TW_pe_pq \<or> w = TW_pe_event_q"
      "free_q pe3 = fs" "lps pe3 = lps pe2" "kps pe3 = kps pe2" "cancel_q pe3 = cancel_q pe2" "cur_event pe3 = a"
      "GVT_sig pe3 = GVT_sig pe2" "seq_num pe3 = seq_num pe2"
      "owned c U (heap (as_processed c a pe3)) fs (event_q pe3) (pq pe3) (pevents (as_processed c a pe3))"
      "w = TW_pe_pq \<Longrightarrow> sig_key (last_sig (kps pe (kp_of c (dest_lp (heap pe2 e))))) \<le> sig_key (qsig (heap pe2 e))"
      "kps_behind c a pe \<Longrightarrow> event_q pe3 = event_q pe"
    and fr: "fresh_ids c U (Suc n) pe"
  shows "running c U cl a pe3 \<and> sent_one c U a pe pe3 \<and> fresh_ids c U n pe3"
proof -
  let ?V = "as_processed c a pe" and ?V' = "as_processed c a pe3"
  note f = running_facts[OF r]
  have ok: "pe_ok c U (event_q pe) cl ?V" and ca: "causal c U ?V" and aU: "a \<in> U" "qowner (heap pe a) = No_owner"
    "abort_event c \<notin> U" "sig_key (last_sig (kps pe (kp_of c (dest_lp (heap pe a))))) = sig_key (qsig (heap pe a))"
    "wf_sig (qsig (heap pe (abort_event c)))" and cur: "cur_event pe = a"
    using r by (simp_all add: running_def)
  have ha: "heap pe3 a = (heap pe a)\<lparr>caused_by_me := e # caused_by_me (heap pe a)\<rparr>"
    using p3(1) p2(3,4) by simp
  have he: "heap pe3 e = (heap pe2 e)\<lparr>qowner := w\<rparr>" using p3(1) by simp
  have hb: "heap pe3 b = heap pe b" if "b \<noteq> e" "b \<noteq> a" for b using p3(1) p2(5) that by simp
  have pv: "pevents ?V' j = pevents ?V j" "last_sig (kps ?V' j) = last_sig (kps ?V j)" for j
    using ha by (simp_all add: p3(5) p2(17))
  have V: "heap ?V' b = heap ?V b" if "b \<in> U" "b \<noteq> e" "b \<noteq> a" for b using hb that by simp
  have Va: "heap ?V' a = (heap ?V a)\<lparr>caused_by_me := e # caused_by_me (heap ?V a)\<rparr>"
    by (simp add: ha)
  have Ve: "heap ?V' e = heap pe3 e" "heap ?V e = heap pe e" using p2(3) by simp_all
  have gs: "good_streams ?V'"
    using f(2) by (auto simp: good_streams_def p3(4) p2(16))
  have e1: "wf_sig (qsig (heap ?V' e))" "ev_recv_ts (heap ?V' e) = recv_ts (qsig (heap ?V' e))"
      "src_lp (heap ?V' e) = dest_lp (heap ?V a)" "\<not> st_cancel_q (heap ?V' e)"
      "caused_by_me (heap ?V' e) = []" "aborted_total (heap ?V' e) = 0"
    unfolding Ve he using p2(6,7,9,13,14) by simp_all
  have e2: "qowner (heap ?V' e) = TW_pe_pq \<or> qowner (heap ?V' e) = TW_pe_event_q"
    unfolding Ve he using p3(2) by simp
  have o': "owned c U (heap ?V') (free_q ?V') (event_q pe3) (pq ?V') (pevents ?V')"
    using p3(10) by (simp add: p3(3))
  have fq: "free_q ?V = free_q ?V' @ [e]" using opt by (simp add: p3(3))
  have cqs: "cancel_q ?V' = cancel_q ?V" "GVT_sig ?V' = GVT_sig ?V"
    by (simp_all add: p3(6,8) p2(18,20))
  have wl: "wf_sig (last_sig (kps ?V' j))" for j using pe_okD(8)[OF ok, of j] by (simp only: pv)
  have "pe_ok c U (event_q pe3) cl ?V'"
    by (rule pe_ok_send[OF ok f(3) fq V Va e1 e2 o' gs cqs wl])
  moreover have "causal c U ?V'"
  proof (rule causal_send[OF ca ok f(3) p2(1) _ V Va _ _ pv cqs(2)])
    show "qowner (heap ?V e) = TW_pe_free_q" using p2(2) Ve by simp
    show "sig_key (qsig (heap ?V a)) \<le> sig_key (qsig (heap ?V' e))" unfolding Ve he using p2(8) by simp
    show "sig_key (last_sig (kps ?V (kp_of c (dest_lp (heap ?V' e))))) \<le> sig_key (qsig (heap ?V' e))"
      if "qowner (heap ?V' e) = TW_pe_pq"
      using that p3(11) unfolding Ve he by simp
  qed
  moreover have ab: "abort_event c \<noteq> e" "abort_event c \<noteq> a" using aU p2(1) by auto
  ultimately have "running c U cl a pe3"
    using aU hb[OF ab] unfolding running_def by (simp add: ha p3(5,7) p2(17))
  moreover have "sent_one c U a pe pe3"
    unfolding sent_one_def Let_def
  proof (intro conjI ballI impI)
    fix b assume "b \<in> U" "b \<noteq> a" "qowner (heap pe b) \<noteq> TW_pe_free_q"
    then have "b \<noteq> e" using p2(2) by auto
    then show "heap pe3 b = heap pe b" using hb \<open>b \<noteq> a\<close> by simp
  next
    show "\<exists>cs m. heap pe3 a = (heap pe a)\<lparr>caused_by_me := cs, aborted_total := m\<rparr> \<and>
      length cs + m = length (caused_by_me (heap pe a)) + aborted_total (heap pe a) + 1"
      by (intro exI[of _ "e # caused_by_me (heap pe a)"] exI[of _ "aborted_total (heap pe a)"]) (simp add: ha)
  next
    have "{b \<in> U. qowner (heap pe b) = TW_pe_free_q \<and> qowner (heap pe3 b) \<noteq> TW_pe_free_q} = {e}"
    proof (intro set_eqI iffI)
      fix b assume b: "b \<in> {b \<in> U. qowner (heap pe b) = TW_pe_free_q \<and> qowner (heap pe3 b) \<noteq> TW_pe_free_q}"
      then have "b \<noteq> a" using aU(2) by auto
      then show "b \<in> {e}" using b hb[of b] by (cases "b = e") auto
    next
      fix b assume "b \<in> {e}"
      then show "b \<in> {b \<in> U. qowner (heap pe b) = TW_pe_free_q \<and> qowner (heap pe3 b) \<noteq> TW_pe_free_q}"
        using p2(1,2) p3(2) he by auto
    qed
    then show "grown U a pe pe3" unfolding grown_def by (simp add: ha)
    have "sig_key (qsig (heap pe a)) < sig_key (qsig (heap pe3 b))"
      if b: "b \<in> U" "qowner (heap pe b) = TW_pe_free_q" "qowner (heap pe3 b) \<noteq> TW_pe_free_q" for b
    proof -
      have "b = e" using b \<open>_ = {e}\<close> by blast
      then show ?thesis using p2(8) he by simp
    qed
    then show "kids_later U a pe pe3" unfolding kids_later_def by blast
  next
    assume "kps_behind c a pe"
    then show "event_q pe3 = event_q pe" by (rule p3(12))
  qed (simp_all add: p3(3-9) p2)
  moreover have "fresh_ids c U n pe3"
    unfolding fresh_ids_def
  proof (intro conjI ballI impI allI)
    show n: "n < 2 ^ 32" using fr by (simp add: fresh_ids_def)
    fix b i assume b: "b \<in> U" "live_owner (qowner (heap pe3 b)) \<or> b = cur_event pe3" "send_pe (heap pe3 b) = mynode c" "1 \<le> i \<and> i \<le> n"
    have sq: "seq_num pe3 + of_nat i = seq_num pe + of_nat (Suc i)" by (simp add: p3(9) p2(21))
    show "event_id (heap pe3 b) \<noteq> seq_num pe3 + of_nat i"
    proof (cases "b = e")
      case True
      have "(of_nat i :: 32 word) \<noteq> 0" using b(4) n nat_dvd_not_less[of i "2 ^ 32"] by (auto simp: word_of_nat_eq_0_iff)
      then show ?thesis unfolding True he using p2(11) p3(9) p2(21) by simp
    next
      case False
      have "event_id (heap pe3 b) = event_id (heap pe b)" "send_pe (heap pe3 b) = send_pe (heap pe b)"
        "qowner (heap pe3 b) = qowner (heap pe b)"
        using hb[OF False] ha by (cases "b = a"; simp)+
      then show ?thesis
        using b fr cur p3(7) unfolding fresh_ids_def sq by (auto simp del: of_nat_Suc)
    qed
  qed
  ultimately show ?thesis by blast
qed

lemma one_send_ok:
  assumes r: "running c U cl a pe" and x: "send_ok c (qsig (heap pe a)) x"
    and opt: "protocol c \<noteq> CONSERVATIVE" "protocol c \<noteq> SEQUENTIAL" and fr: "fresh_ids c U (Suc n) pe"
  shows "\<exists>pe'. one_send c net (dest_lp (heap pe a)) x pe = Inr pe' \<and> running c U cl a pe' \<and> sent_one c U a pe pe' \<and>
    fresh_ids c U n pe'"
proof (cases "free_q pe = [] \<or> \<not> ts_add c (recv_ts (qsig (heap pe a))) (offset_ts x) < ts_end c")
  case True
  then show ?thesis using send_aborted[OF r x opt _ fr] by blast
next
  case False
  then obtain fs e where fq: "free_q pe = fs @ [e]" "ts_add c (recv_ts (qsig (heap pe a))) (offset_ts x) < ts_end c"
    by (metis append_butlast_last_id)
  note f = running_facts[OF r]
  obtain pe2 where run: "one_send c net (dest_lp (heap pe a)) x pe =
      (if tw_event_sig_compare_ptr (last_sig (kps pe (kp_of c (dest_lp (heap pe2 e))))) (qsig (heap pe2 e)) \<le> 0
       then pq_enqueue e pe2
       else let pe3 = upd_ev e (\<lambda>v. v\<lparr>qowner := TW_pe_event_q\<rparr>) pe2; pe4 = pe3\<lparr>event_q := event_q pe3 @ [e]\<rparr>
          in Inr (note_transient (qsig (heap pe4 e)) pe4))"
    and p2: "e \<in> U" "qowner (heap pe e) = TW_pe_free_q" "e \<noteq> a"
      "heap pe2 a = (heap pe a)\<lparr>caused_by_me := e # caused_by_me (heap pe a)\<rparr>"
      "\<forall>b. b \<noteq> e \<longrightarrow> b \<noteq> a \<longrightarrow> heap pe2 b = heap pe b"
      "wf_sig (qsig (heap pe2 e))" "ev_recv_ts (heap pe2 e) = recv_ts (qsig (heap pe2 e))"
      "sig_key (qsig (heap pe a)) < sig_key (qsig (heap pe2 e))" "src_lp (heap pe2 e) = dest_lp (heap pe a)"
      "send_pe (heap pe2 e) = mynode c" "event_id (heap pe2 e) = seq_num pe + 1" "qowner (heap pe2 e) = No_owner"
      "\<not> st_cancel_q (heap pe2 e)" "caused_by_me (heap pe2 e) = [] \<and> aborted_total (heap pe2 e) = 0"
      "free_q pe2 = fs" "lps pe2 = (lps pe)(dest_lp (heap pe a) := (lps pe (dest_lp (heap pe a)))
        \<lparr>core_rng := core_fwd (core_rng (lps pe (dest_lp (heap pe a))))\<rparr>)"
      "kps pe2 = kps pe" "event_q pe2 = event_q pe" "cancel_q pe2 = cancel_q pe" "pq pe2 = pq pe"
      "cur_event pe2 = a" "GVT_sig pe2 = GVT_sig pe" "seq_num pe2 = seq_num pe + 1"
    using send_linked[OF r x opt fq, of net] by blast
  note queued = send_queued[OF r fq(1) p2(1-17,19,21-23) _ _ _ _ _ _ _ _ _ _ _ _ fr]
  have aU: "a \<in> U" "qowner (heap pe a) = No_owner" "cur_event pe = a" using r by (simp_all add: running_def)
  let ?V = "as_processed c a pe" and ?V2 = "as_processed c a pe2"
  have pv: "pevents ?V2 = pevents ?V" using p2(4,17) by (simp add: fun_eq_iff)
  have V2: "heap ?V2 b = heap ?V b" if "b \<noteq> e" "b \<noteq> a" for b using p2(5) that by simp
  have V2a: "heap ?V2 a = (heap ?V a)\<lparr>caused_by_me := e # caused_by_me (heap ?V a)\<rparr>" by (simp add: p2(4))
  have V2e: "heap ?V2 e = heap pe2 e" "heap ?V e = heap pe e" using p2(3) by simp_all
  have o1: "owned c U (heap ?V) (fs @ [e]) (event_q pe) (pq pe) (pevents ?V)" using f(4) fq(1) by simp
  have s: "rand_key (heap ?V2 b) = rand_key (heap ?V b) \<and> qsig (heap ?V2 b) = qsig (heap ?V b) \<and>
      qowner (heap ?V2 b) = qowner (heap ?V b) \<and> dest_lp (heap ?V2 b) = dest_lp (heap ?V b)" if "b \<in> U" "b \<noteq> e" for b
    using V2[OF that(2)] V2a by (cases "b = a"; simp only: rand_key_upd; simp)
  have o2: "owned c U (heap ?V2) fs (event_q pe) (pq pe) (pevents ?V)"
    by (rule owned_take_free(1)[OF o1 s]) (use p2(6,12) V2e in simp_all)
  have key: "key_at (heap ?V2) b \<noteq> key_at (heap ?V2) e" if b: "b \<in> U" "live_owner (qowner (heap ?V2 b))" for b
  proof -
    have be: "b \<noteq> e" using b(2) p2(12) V2e by (auto simp: live_owner_def)
    have "event_id (heap ?V2 b) = event_id (heap pe b)" "send_pe (heap ?V2 b) = send_pe (heap pe b)"
      using V2[OF be] V2a by (cases "b = a"; simp)+
    moreover have "live_owner (qowner (heap pe b)) \<or> b = cur_event pe"
      using V2[OF be] b(2) aU(3) by (cases "b = a") auto
    ultimately have "event_id (heap ?V2 b) \<noteq> event_id (heap ?V2 e) \<or> send_pe (heap ?V2 b) \<noteq> send_pe (heap ?V2 e)"
      using fr b(1) p2(10,11) unfolding V2e fresh_ids_def by (metis le_add1 of_nat_1 order_refl plus_1_eq_Suc)
    then show ?thesis unfolding key_at_def by (rule rand_key_neq)
  qed
  have no: "qowner (heap ?V2 e) = No_owner" using p2(12) V2e by simp
  let ?cmp = "tw_event_sig_compare_ptr (last_sig (kps pe (kp_of c (dest_lp (heap pe2 e))))) (qsig (heap pe2 e)) \<le> 0"
  show ?thesis
  proof (cases ?cmp)
    case True
    obtain q' where q': "tw_pq_enqueue (lt_rand ((heap ?V2)(e := (heap ?V2 e)\<lparr>qowner := TW_pe_pq\<rparr>))) (pq pe) e = Inr q'"
      "owned c U ((heap ?V2)(e := (heap ?V2 e)\<lparr>qowner := TW_pe_pq\<rparr>)) fs (event_q pe) q' (pevents ?V)"
      using owned_enqueue_new[OF o2 p2(1) no key] by blast
    define pe3 where "pe3 = (upd_ev e (\<lambda>v. v\<lparr>qowner := TW_pe_pq\<rparr>) pe2)\<lparr>pq := q'\<rparr>"
    have h3: "heap pe3 = (heap pe2)(e := (heap pe2 e)\<lparr>qowner := TW_pe_pq\<rparr>)" by (simp add: pe3_def pe_simps)
    have V3: "heap (as_processed c a pe3) = (heap ?V2)(e := (heap ?V2 e)\<lparr>qowner := TW_pe_pq\<rparr>)"
      using p2(3) by (simp add: h3 fun_upd_twist)
    have lt: "lt_rand (heap pe3) = lt_rand (heap (as_processed c a pe3))"
      by (rule lt_rand_cong) simp_all
    have enq: "pq_enqueue e pe2 = Inr pe3"
      using q'(1) unfolding V3[symmetric] lt[symmetric] h3
      by (simp add: pq_enqueue_def Let_def pe3_def pe_simps p2(20))
    have "sig_key (last_sig (kps pe (kp_of c (dest_lp (heap pe2 e))))) \<le> sig_key (qsig (heap pe2 e))"
    proof -
      have "wf_sig (last_sig (kps pe j))" for j
        using pe_okD(8)[of c U "event_q pe" cl ?V j] r by (simp add: running_def)
      then show ?thesis using True p2(6) by (auto simp: tw_event_sig_compare_ptr_key cmp3_def split: if_splits)
    qed
    moreover have "pevents (as_processed c a pe3) = pevents ?V"
      using p2(3,4,17) by (simp add: fun_eq_iff h3) (simp add: pe3_def pe_simps p2(17))
    moreover have "event_q pe3 = event_q pe" "pq pe3 = q'" by (simp_all add: pe3_def pe_simps p2(18))
    ultimately have "running c U cl a pe3 \<and> sent_one c U a pe pe3 \<and> fresh_ids c U n pe3"
      using q'(2) by (intro queued[where w = TW_pe_pq, OF h3]) (simp_all only: V3, simp_all add: pe3_def pe_simps p2(15,21))
    then show ?thesis using run enq True by auto
  next
    case False
    define pe4 where "pe4 = (upd_ev e (\<lambda>v. v\<lparr>qowner := TW_pe_event_q\<rparr>) pe2)\<lparr>event_q := event_q pe2 @ [e]\<rparr>"
    define pe5 where "pe5 = note_transient (qsig (heap pe4 e)) pe4"
    have h5: "heap pe5 = (heap pe2)(e := (heap pe2 e)\<lparr>qowner := TW_pe_event_q\<rparr>)"
      by (simp add: pe5_def pe4_def pe_simps)
    have V5: "heap (as_processed c a pe5) = (heap ?V2)(e := (heap ?V2 e)\<lparr>qowner := TW_pe_event_q\<rparr>)"
      using p2(3) by (simp add: h5 fun_upd_twist)
    have o5: "owned c U (heap (as_processed c a pe5)) fs (event_q pe @ [e]) (pq pe) (pevents ?V)"
      by (rule owned_arrive_new[OF o2 p2(1) no key V5])
    have pv5: "pevents (as_processed c a pe5) = pevents ?V"
      using p2(3,4,17) by (simp add: fun_eq_iff h5) (simp add: pe5_def pe4_def pe_simps p2(17))
    have "event_q pe5 = event_q pe @ [e]" "pq pe5 = pq pe" by (simp_all add: pe5_def pe4_def pe_simps p2(18,20))
    then have own: "owned c U (heap (as_processed c a pe5)) fs (event_q pe5) (pq pe5) (pevents (as_processed c a pe5))"
      using o5 unfolding pv5 by simp
    have many: "\<not> kps_behind c a pe"
    proof
      assume "kps_behind c a pe"
      then have "sig_key (last_sig (kps pe (kp_of c (dest_lp (heap pe2 e))))) \<le> sig_key (qsig (heap pe a))"
        by (simp add: kps_behind_def)
      moreover have "wf_sig (last_sig (kps pe j))" for j
        using pe_okD(8)[of c U "event_q pe" cl ?V j] r by (simp add: running_def)
      ultimately show False using False p2(6,8) by (auto simp: tw_event_sig_compare_ptr_key cmp3_def split: if_splits)
    qed
    have "running c U cl a pe5 \<and> sent_one c U a pe pe5 \<and> fresh_ids c U n pe5"
      by (rule queued[where w = TW_pe_event_q, OF h5 _ _ _ _ _ _ _ _ own]) (use many in \<open>simp_all add: pe5_def pe4_def pe_simps p2(15,21)\<close>)
    moreover have "one_send c net (dest_lp (heap pe a)) x pe = Inr pe5"
      unfolding run if_not_P[OF False] Let_def by (simp add: pe5_def pe4_def pe_simps)
    ultimately show ?thesis by blast
  qed
qed

end
