(* ===== verification/Process.thy ===== *)
theory Process
  imports Send_Effect
begin

text \<open>
  Processing an event (\<open>tw_sched_batch\<close> in \<open>core/tw-sched.c\<close>): the event leaves the pending queue,
  its handler runs and sends, and the event joins the processed queue. Each step keeps the
  invariant and the order of time, and is undone exactly by a rollback.
\<close>

section \<open>All sends of a handler\<close>

definition sent :: "('st, 'bf, 'm) config \<Rightarrow> addr set \<Rightarrow> addr \<Rightarrow> nat \<Rightarrow> ('st, 'bf, 'm, 'z) tw_pe_scheme \<Rightarrow> ('st, 'bf, 'm, 'z) tw_pe_scheme \<Rightarrow> bool" where
  "sent c U a n pe pe' \<longleftrightarrow>
     (let lp = dest_lp (heap pe a) in
      lps pe' = (lps pe)(lp := (lps pe lp)\<lparr>core_rng := (core_fwd ^^ n) (core_rng (lps pe lp))\<rparr>) \<and>
      kps pe' = kps pe \<and> GVT_sig pe' = GVT_sig pe \<and> cancel_q pe' = cancel_q pe \<and>
      (\<exists>cs m. heap pe' a = (heap pe a)\<lparr>caused_by_me := cs, aborted_total := m\<rparr> \<and>
         length cs + m = length (caused_by_me (heap pe a)) + aborted_total (heap pe a) + n) \<and>
      (\<forall>b \<in> U. b \<noteq> a \<longrightarrow> qowner (heap pe b) \<noteq> TW_pe_free_q \<longrightarrow> heap pe' b = heap pe b) \<and>
      grown U a pe pe' \<and> kids_later U a pe pe' \<and> (kps_behind c a pe \<longrightarrow> event_q pe' = event_q pe))"

lemma grown_trans:
  assumes "grown U a pe pe1" "grown U a pe1 pe2" "qowner (heap pe1 a) = qowner (heap pe a)" "qowner (heap pe2 a) = qowner (heap pe a)"
    "\<forall>b \<in> U. b \<noteq> a \<longrightarrow> qowner (heap pe b) \<noteq> TW_pe_free_q \<longrightarrow> heap pe1 b = heap pe b"
    "\<forall>b \<in> U. b \<noteq> a \<longrightarrow> qowner (heap pe1 b) \<noteq> TW_pe_free_q \<longrightarrow> heap pe2 b = heap pe1 b"
  shows "grown U a pe pe2"
proof -
  have "qowner (heap pe b) = TW_pe_free_q \<and> qowner (heap pe2 b) \<noteq> TW_pe_free_q \<longleftrightarrow>
      qowner (heap pe b) = TW_pe_free_q \<and> qowner (heap pe1 b) \<noteq> TW_pe_free_q \<or>
      qowner (heap pe1 b) = TW_pe_free_q \<and> qowner (heap pe2 b) \<noteq> TW_pe_free_q" if b: "b \<in> U" for b
    using assms(3,4) assms(5,6)[THEN bspec, OF b] by (cases "b = a") (simp, metis)
  then show ?thesis using assms(1,2) unfolding grown_def by blast
qed

lemma sent_0: "sent c U a 0 pe pe"
  by (auto simp: sent_def grown_def kids_later_def Let_def intro!: exI[of _ "caused_by_me (heap pe a)"] exI[of _ "aborted_total (heap pe a)"])

lemma sent_Suc:
  assumes s1: "sent_one c U a pe pe1" and s2: "sent c U a n pe1 pe2"
  shows "sent c U a (Suc n) pe pe2"
proof -
  let ?lp = "dest_lp (heap pe a)"
  obtain cs m where 1: "heap pe1 a = (heap pe a)\<lparr>caused_by_me := cs, aborted_total := m\<rparr>"
    "length cs + m = length (caused_by_me (heap pe a)) + aborted_total (heap pe a) + 1"
    using s1 unfolding sent_one_def Let_def by blast
  obtain cs' m' where 2: "heap pe2 a = (heap pe1 a)\<lparr>caused_by_me := cs', aborted_total := m'\<rparr>"
    "length cs' + m' = length (caused_by_me (heap pe1 a)) + aborted_total (heap pe1 a) + n"
    using s2 unfolding sent_def Let_def by blast
  have d: "dest_lp (heap pe1 a) = ?lp" using 1 by simp
  have l1: "lps pe1 = (lps pe)(?lp := (lps pe ?lp)\<lparr>core_rng := core_fwd (core_rng (lps pe ?lp))\<rparr>)"
    using s1 unfolding sent_one_def Let_def by blast
  have l2: "lps pe2 = (lps pe1)(?lp := (lps pe1 ?lp)\<lparr>core_rng := (core_fwd ^^ n) (core_rng (lps pe1 ?lp))\<rparr>)"
    using s2 unfolding sent_def Let_def d by blast
  have "lps pe2 = (lps pe)(?lp := (lps pe ?lp)\<lparr>core_rng := (core_fwd ^^ Suc n) (core_rng (lps pe ?lp))\<rparr>)"
    unfolding l2 l1 by (simp add: funpow_swap1)
  moreover have "heap pe2 a = (heap pe a)\<lparr>caused_by_me := cs', aborted_total := m'\<rparr>" using 1(1) 2(1) by simp
  moreover have "length cs' + m' = length (caused_by_me (heap pe a)) + aborted_total (heap pe a) + Suc n" using 1 2(2) by simp
  moreover have "heap pe2 b = heap pe b" if "b \<in> U" "b \<noteq> a" "qowner (heap pe b) \<noteq> TW_pe_free_q" for b
    using s1 s2 that unfolding sent_one_def sent_def Let_def by (metis (no_types, lifting))
  moreover have "grown U a pe pe2"
  proof (rule grown_trans)
    show "grown U a pe pe1" using s1 unfolding sent_one_def Let_def by blast
    show "grown U a pe1 pe2" using s2 unfolding sent_def Let_def by blast
    show "qowner (heap pe1 a) = qowner (heap pe a)" "qowner (heap pe2 a) = qowner (heap pe a)" using 1(1) 2(1) by simp_all
  qed (use s1 s2 in \<open>unfold sent_one_def sent_def Let_def, blast+\<close>)
  moreover have "kids_later U a pe pe2"
    unfolding kids_later_def
  proof (intro ballI impI)
    fix b assume b: "b \<in> U" "qowner (heap pe b) = TW_pe_free_q" "qowner (heap pe2 b) \<noteq> TW_pe_free_q"
    have l: "kids_later U a pe pe1" "kids_later U a pe1 pe2" and q: "qsig (heap pe1 a) = qsig (heap pe a)"
      using s1 s2 1(1) unfolding sent_one_def sent_def Let_def by simp_all
    show "sig_key (qsig (heap pe a)) < sig_key (qsig (heap pe2 b))"
    proof (cases "qowner (heap pe1 b) = TW_pe_free_q")
      case True
      then show ?thesis using l(2) b unfolding kids_later_def q by blast
    next
      case False
      have k1: "sig_key (qsig (heap pe a)) < sig_key (qsig (heap pe1 b))" using l(1) b(1,2) False unfolding kids_later_def by blast
      have "qsig (heap pe2 b) = qsig (heap pe1 b)"
        using s2 b(1) False 2(1) unfolding sent_def Let_def by (cases "b = a") auto
      then show ?thesis using k1 by simp
    qed
  qed
  moreover have "event_q pe2 = event_q pe" if k: "kps_behind c a pe"
  proof -
    have "kps pe1 = kps pe" using s1 unfolding sent_one_def Let_def by blast
    then have "kps_behind c a pe1" using k 1(1) by (simp add: kps_behind_def)
    then show ?thesis using s1 s2 k unfolding sent_one_def sent_def Let_def by simp
  qed
  ultimately show ?thesis
    using s1 s2 unfolding sent_one_def sent_def Let_def by auto
qed

lemma do_sends_ok:
  assumes "running c U cl a pe" "\<forall>x \<in> set xs. send_ok c (qsig (heap pe a)) x"
    "protocol c \<noteq> CONSERVATIVE" "protocol c \<noteq> SEQUENTIAL" "fresh_ids c U (length xs + m) pe"
  shows "\<exists>pe'. do_sends c net (dest_lp (heap pe a)) xs pe = Inr pe' \<and> running c U cl a pe' \<and> sent c U a (length xs) pe pe' \<and>
    fresh_ids c U m pe'"
  using assms
proof (induction xs arbitrary: pe)
  case Nil
  then show ?case by (simp add: sent_0)
next
  case (Cons x xs)
  obtain pe1 where p1: "one_send c net (dest_lp (heap pe a)) x pe = Inr pe1" "running c U cl a pe1" "sent_one c U a pe pe1"
    "fresh_ids c U (length xs + m) pe1"
    using one_send_ok[OF Cons.prems(1) _ Cons.prems(3,4), of x "length xs + m" net] Cons.prems(2,5) by auto
  have a: "dest_lp (heap pe1 a) = dest_lp (heap pe a)" "qsig (heap pe1 a) = qsig (heap pe a)"
    using p1(3) unfolding sent_one_def Let_def by auto
  obtain pe2 where "do_sends c net (dest_lp (heap pe1 a)) xs pe1 = Inr pe2" "running c U cl a pe2" "sent c U a (length xs) pe1 pe2"
    "fresh_ids c U m pe2"
    using Cons.IH[OF p1(2) _ Cons.prems(3,4) p1(4)] Cons.prems(2) a by auto
  then show ?case
    using p1(1,3) a sent_Suc unfolding do_sends_one by auto
qed

section \<open>The event leaves the pending queue\<close>

lemma owned_process:
  assumes o: "owned c U hp fq eq q pk" and q: "contents q = a # contents q'" "pq_inv (key_at hp) (wf_at hp) q'"
    and hp': "hp' = hp(a := (hp a)\<lparr>qowner := TW_kp_pevent_q\<rparr>)" and k: "k = kp_of c (dest_lp (hp a))"
  shows "owned c U hp' fq eq q' (pk(k := a # pk k))"
proof -
  have ks: "key_at hp' = key_at hp" "wf_at hp' = wf_at hp"
    unfolding hp' by (rule key_at_cong, simp) (rule wf_at_cong, simp)
  have ow: "qowner (hp' b) = (if b = a then TW_kp_pevent_q else qowner (hp b))" "dest_lp (hp' b) = dest_lp (hp b)"
    "qsig (hp' b) = qsig (hp b)" for b
    by (simp_all add: hp')
  have c: "set (contents q) = {x \<in> U. qowner (hp x) = TW_pe_pq}" by (rule ownedD(6)[OF o])
  have a: "a \<in> U" "qowner (hp a) = TW_pe_pq" using c q(1) by auto
  have "pq_inv (key_at hp) (wf_at hp) q" using o by (simp add: owned_def)
  then have d: "a \<notin> set (contents q')" unfolding pq_inv_def q(1) by auto
  have c': "set (contents q') = {x \<in> U. qowner (hp' x) = TW_pe_pq}"
  proof -
    have "set (contents q') = set (contents q) - {a}" using d by (simp add: q(1))
    then show ?thesis unfolding c by (auto simp: ow)
  qed
  have pk: "set ((pk(k := a # pk k)) i) = {x \<in> U. qowner (hp' x) = TW_kp_pevent_q \<and> kp_of c (dest_lp (hp' x)) = i}" for i
  proof -
    have "set (pk i) = {x \<in> U. qowner (hp x) = TW_kp_pevent_q \<and> kp_of c (dest_lp (hp x)) = i}" by (rule ownedD(7)[OF o])
    then show ?thesis using a k by (auto simp: ow)
  qed
  have dk: "distinct ((pk(k := a # pk k)) i)" for i
    using ownedD(7,8)[OF o, of i] ownedD(7)[OF o, of k] a(2) by auto
  have live: "{x \<in> U. live_owner (qowner (hp' x))} = {x \<in> U. live_owner (qowner (hp x))}"
    using a by (auto simp: live_owner_def ow)
  have fe: "set fq = {x \<in> U. qowner (hp' x) = TW_pe_free_q}" "set eq = {x \<in> U. qowner (hp' x) = TW_pe_event_q}"
    using ownedD(4,5)[OF o] a by (auto simp: ow)
  show ?thesis
    using o pk dk c' q(2) fe unfolding owned_def ks live by (auto simp: ow)
qed

lemma least_key_sig:
  assumes ok: "pe_ok c U eq cl pe" and q: "contents (pq pe) = a # as" and b: "b \<in> set as"
  shows "sig_key (qsig (heap pe a)) \<le> sig_key (qsig (heap pe b))"
proof -
  have o: "owned c U (heap pe) (free_q pe) eq (pq pe) (pevents pe)" by (rule pe_okD(3)[OF ok])
  then have "pq_inv (key_at (heap pe)) (wf_at (heap pe)) (pq pe)" by (simp add: owned_def)
  then have k: "key_at (heap pe) a < key_at (heap pe) b" using b unfolding pq_inv_def q by simp
  have "a \<in> U \<and> qowner (heap pe a) = TW_pe_pq" "b \<in> U \<and> qowner (heap pe b) = TW_pe_pq"
    using ownedD(6)[OF o] q b by auto
  then have "ev_recv_ts (heap pe a) = recv_ts (qsig (heap pe a))" "ev_recv_ts (heap pe b) = recv_ts (qsig (heap pe b))"
    using pe_okD(6)[OF ok] by (simp_all add: live_owner_def)
  then show ?thesis using k by (auto simp: key_at_def rand_key_def sig_key_def less_eq_prod_def less_prod_def)
qed

text \<open>
  The least pending event is taken out, becomes the current event and moves its KP to its time.
\<close>

lemma dequeue_running:
  assumes ok: "pe_ok c U (event_q pe) cl pe" and ca: "causal c U pe"
    and ab: "abort_event c \<notin> U" "wf_sig (qsig (heap pe (abort_event c)))"
    and q: "contents (pq pe) = a # as"
  shows "\<exists>pe1. pq_dequeue pe = Inr (Some a, pe1) \<and> heap pe1 = (heap pe)(a := (heap pe a)\<lparr>qowner := No_owner\<rparr>) \<and>
    lps pe1 = lps pe \<and> kps pe1 = kps pe \<and> a \<in> U \<and> qowner (heap pe a) = TW_pe_pq \<and> event_q pe1 = event_q pe \<and>
    cancel_q pe1 = cancel_q pe \<and> GVT_sig pe1 = GVT_sig pe \<and> seq_num pe1 = seq_num pe \<and> cev_abort pe1 = cev_abort pe \<and>
    running c U cl a (set_last_sig (kp_of c (dest_lp (heap pe a)))
      (tw_copy_event_sig (last_sig (kps pe (kp_of c (dest_lp (heap pe a))))) (qsig (heap pe a))) (pe1\<lparr>cur_event := a\<rparr>))"
proof -
  let ?k = "kp_of c (dest_lp (heap pe a))" and ?hp = "heap pe"
  let ?s = "tw_copy_event_sig (last_sig (kps pe ?k)) (qsig (?hp a))"
  have o: "owned c U ?hp (free_q pe) (event_q pe) (pq pe) (pevents pe)" by (rule pe_okD(3)[OF ok])
  then have inv: "pq_inv (key_at ?hp) (wf_at ?hp) (pq pe)" by (simp add: owned_def)
  obtain q' where q': "tw_pq_dequeue (pq pe) = Inr (Some a, q')" "pq_inv (key_at ?hp) (wf_at ?hp) q'" "contents q' = as"
    using pq.dequeue_Cons[OF inv q] by auto
  define pe1 where "pe1 = upd_ev a (\<lambda>e. e\<lparr>qowner := No_owner\<rparr>) (pe\<lparr>pq := q'\<rparr>)"
  define pe2 where "pe2 = set_last_sig ?k ?s (pe1\<lparr>cur_event := a\<rparr>)"
  have run: "pq_dequeue pe = Inr (Some a, pe1)" using q'(1) by (simp add: pq_dequeue_def pe1_def)
  have h1: "heap pe1 = ?hp(a := (?hp a)\<lparr>qowner := No_owner\<rparr>)" by (simp add: pe1_def pe_simps)
  have a: "a \<in> U" "qowner (?hp a) = TW_pe_pq" using ownedD(6)[OF o] q by auto
  have wf: "wf_sig (qsig (?hp a))" by (rule ownedD(9)[OF o a(1)])
  have s: "wf_sig ?s" "sig_key ?s = sig_key (qsig (?hp a))" using wf pe_okD(8)[OF ok] by simp_all
  let ?V = "as_processed c a pe2"
  define hv where "hv = heap ?V"
  have V: "hv = ?hp(a := (?hp a)\<lparr>qowner := TW_kp_pevent_q\<rparr>)"
    by (simp add: hv_def pe2_def pe_simps h1)
  have rest: "free_q ?V = free_q pe" "event_q ?V = event_q pe" "cancel_q ?V = cancel_q pe" "pq ?V = q'" "lps ?V = lps pe"
    "GVT_sig ?V = GVT_sig pe" "cur_event pe2 = a" "event_q pe2 = event_q pe"
    by (simp_all add: pe2_def pe_simps pe1_def)
  have pv: "pevents ?V = (pevents pe)(?k := a # pevents pe ?k)"
    by (rule ext) (simp add: pe2_def pe_simps pe1_def)
  have pvj: "pevents ?V j = (if j = ?k then a # pevents pe ?k else pevents pe j)" for j
    using fun_cong[OF pv, of j] by simp
  have ls: "last_sig (kps ?V j) = (if j = ?k then ?s else last_sig (kps pe j))" for j
    by (simp add: pe2_def pe_simps pe1_def)
  have ov: "owned c U (hv) (free_q ?V) (event_q pe) (pq ?V) (pevents ?V)"
    unfolding rest pv by (rule owned_process[OF o _ q'(2) V refl]) (simp add: q q'(3))
  have ow: "qowner (hv b) = (if b = a then TW_kp_pevent_q else qowner (?hp b))"
    "caused_by_me (hv b) = caused_by_me (?hp b)" "dest_lp (hv b) = dest_lp (?hp b)" "src_lp (hv b) = src_lp (?hp b)"
    "qsig (hv b) = qsig (?hp b)" "st_cancel_q (hv b) = st_cancel_q (?hp b)" "ev_recv_ts (hv b) = ev_recv_ts (?hp b)"
    "aborted_total (hv b) = aborted_total (?hp b)" for b
    unfolding V by simp_all
  have pr: "processed U (hv) = insert a (processed U ?hp)" using a by (auto simp: ow)
  have a0: "caused_by_me (?hp a) = []" using pe_okD(9)[OF ok a(1)] a(2) by (simp add: idle_def)
  have lv: "live_owner (qowner (hv b)) = live_owner (qowner (?hp b))" for b using a by (simp add: ow live_owner_def)
  have kd: "kids U (hv) (processed U (hv))"
    using pe_okD(4)[OF ok] a0 unfolding pr kids_def ow(2-4) lv by (simp add: ball_simps)
  have cn: "cancel_ok U (hv) (cl @ cancel_q ?V)"
  proof -
    note c = pe_okD(5)[OF ok]
    have "{x \<in> U. in_use (qowner (hv x)) \<and> st_cancel_q (hv x)} = {x \<in> U. in_use (qowner (?hp x)) \<and> st_cancel_q (?hp x)}"
      using a by (auto simp: ow in_use_def live_owner_def)
    moreover have "set (caused_by_me (hv b)) \<inter> set (cl @ cancel_q ?V) = {}" if "b \<in> processed U (hv)" for b
      using that cancel_okD(3)[OF c, of b] a0 unfolding pr ow(2) rest by (cases "b = a") simp_all
    moreover have "\<forall>x\<in>U. qowner (hv x) = TW_pe_anti_msg \<longrightarrow> st_cancel_q (hv x)"
      using cancel_okD(4)[OF c] by (auto simp: ow)
    ultimately show ?thesis
      using cancel_okD(1,2)[OF c] unfolding cancel_ok_def rest
      by (intro conjI ballI[where A = "processed U (hv)"]) simp_all
  qed
  have okV: "pe_ok c U (event_q pe) cl ?V"
  proof (rule pe_okI[OF pe_okD(1)[OF ok] _ ov[unfolded hv_def] kd[unfolded hv_def] cn[unfolded hv_def]], unfold hv_def[symmetric])
    show "good_streams ?V" using pe_okD(2)[OF ok] unfolding good_streams_def rest .
    show "wf_sig (GVT_sig ?V)" using pe_okD(7)[OF ok] by (simp only: rest)
    show "wf_sig (last_sig (kps ?V j))" for j unfolding ls using s(1) pe_okD(8)[OF ok] by simp
    fix b assume b: "b \<in> U"
    show "idle (hv b)" using pe_okD(9)[OF ok b] unfolding idle_def ow by auto
    assume "live_owner (qowner (hv b))"
    then show "ev_recv_ts (hv b) = recv_ts (qsig (hv b))" using pe_okD(6)[OF ok b] unfolding lv ow(5,7) by simp
  qed
  have pqc: "sig_key (last_sig (kps pe (kp_of c (dest_lp (?hp b))))) \<le> sig_key (qsig (?hp b))" if "b \<in> U" "qowner (?hp b) = TW_pe_pq" for b
    using ca that by (simp add: causal_def)
  have srt: "sorted_wrt (\<lambda>a b. sig_key (qsig (?hp b)) \<le> sig_key (qsig (?hp a))) (pevents pe j)" for j
    using ca by (simp add: causal_def)
  have hd: "pevents pe j \<noteq> [] \<Longrightarrow> sig_key (last_sig (kps pe j)) = sig_key (qsig (?hp (hd (pevents pe j))))" for j
    using ca by (simp add: causal_def)
  have top: "sig_key (qsig (?hp b)) \<le> sig_key (qsig (?hp a))" if "b \<in> set (pevents pe ?k)" for b
  proof -
    obtain h t where ht: "pevents pe ?k = h # t" using \<open>b \<in> set (pevents pe ?k)\<close> by (cases "pevents pe ?k") auto
    have "sig_key (qsig (?hp b)) \<le> sig_key (qsig (?hp h))" using that srt[of ?k] ht by auto
    also have "\<dots> = sig_key (last_sig (kps pe ?k))" using hd[of ?k] ht by simp
    also have "\<dots> \<le> sig_key (qsig (?hp a))" by (rule pqc[OF a])
    finally show ?thesis .
  qed
  have "sorted_wrt (\<lambda>a b. sig_key (qsig (hv b)) \<le> sig_key (qsig (hv a))) (pevents ?V j)" for j
    using srt[of j] top unfolding ow pvj by auto
  moreover have "sig_key (last_sig (kps ?V j)) = sig_key (qsig (hv (hd (pevents ?V j))))" if "pevents ?V j \<noteq> []" for j
    using that hd[of j] s(2) unfolding ow pvj ls by (cases "j = ?k") simp_all
  moreover have "sig_key (last_sig (kps ?V j)) \<le> sig_key (GVT_sig ?V)" if "pevents ?V j = []" for j
    using that ca unfolding pvj ls rest by (cases "j = ?k") (simp_all add: causal_def)
  moreover have "sig_key (last_sig (kps ?V (kp_of c (dest_lp (hv b))))) \<le> sig_key (qsig (hv b))"
    if b: "b \<in> U" "qowner (hv b) = TW_pe_pq" for b
  proof -
    have b': "b \<noteq> a" "qowner (?hp b) = TW_pe_pq" using b(2) by (auto simp: ow split: if_splits)
    then have "b \<in> set as" using ownedD(6)[OF o] b(1) q by auto
    then have "sig_key (qsig (?hp a)) \<le> sig_key (qsig (?hp b))" by (rule least_key_sig[OF ok q])
    then show ?thesis using pqc[OF b(1) b'(2)] s(2) unfolding ow ls by simp
  qed
  moreover have "sig_key (GVT_sig ?V) \<le> sig_key (qsig (hv b))" if "b \<in> U" "live_owner (qowner (hv b))" for b
    using that ca unfolding lv ow(5) rest causal_def by blast
  ultimately have caV: "causal c U ?V" unfolding causal_def hv_def[symmetric] by blast
  have "abort_event c \<noteq> a" using ab(1) a(1) by auto
  then have rn: "running c U cl a pe2"
    using okV caV a ab s(2) unfolding running_def rest(7,8)
    by (simp add: pe2_def pe_simps h1)
  show ?thesis
    by (rule exI[of _ pe1]) (intro conjI run h1 a rn[unfolded pe2_def]; simp add: pe1_def pe_simps)
qed


section \<open>Processing and its undoing\<close>

text \<open>
  What the model's two handlers promise each other for an event and a state that is \<open>good\<close>: the
  reverse handler, given the state, bit field and message the forward handler left, gives back the
  state and the message.
\<close>

locale reversible_handlers =
  fixes good :: "'st \<Rightarrow> bool" and fwd :: "'st \<Rightarrow> 'bf \<Rightarrow> 'm \<Rightarrow> ('st, 'bf, 'm) outcome"
    and bwd :: "'st \<Rightarrow> 'bf \<Rightarrow> 'm \<Rightarrow> 'st \<times> 'bf \<times> 'm" and bf :: 'bf
  assumes undoes: "good s \<Longrightarrow> let out = fwd s bf m in \<exists>bf'. bwd (o_state out) (o_bf out) (o_msg out) = (s, bf', m)"
    and stays_good: "good s \<Longrightarrow> good (o_state (fwd s bf m))"
    and no_suspend: "good s \<Longrightarrow> o_suspend (fwd s bf m) = None"

definition handlers_ok :: "('st \<Rightarrow> bool) \<Rightarrow> ('st, 'bf, 'm) config \<Rightarrow> nat \<Rightarrow> bool" where
  "handlers_ok G c lp \<longleftrightarrow> has_revent c lp \<and>
     (\<forall>s s'. sig_key s = sig_key s' \<longrightarrow> reversible_handlers G (event_h c lp s) (revent_h c lp s') (bf0 c))"

text \<open>The handler of an event sends at most \<open>n\<close> events, each of which it may send.\<close>

definition sends_ok :: "('st, 'bf, 'm) config \<Rightarrow> nat \<Rightarrow> ('bf, 'm) pevent \<Rightarrow> 'st \<Rightarrow> bool" where
  "sends_ok c n e st \<longleftrightarrow> (\<forall>s. sig_key s = sig_key (qsig e) \<longrightarrow>
     length (o_sends (event_h c (dest_lp e) s st (bf0 c) (msg e))) \<le> n \<and>
     (\<forall>x \<in> set (o_sends (event_h c (dest_lp e) s st (bf0 c) (msg e))). send_ok c (qsig e) x))"

lemma fresh_ids_mono: "fresh_ids c U n pe \<Longrightarrow> m \<le> n \<Longrightarrow> fresh_ids c U m pe"
  by (auto simp: fresh_ids_def)

text \<open>An update of fields the invariant does not read keeps it.\<close>

lemma running_upd:
  assumes r: "running c U cl a pe"
    and h: "heap pe' = (heap pe)(a := (heap pe a)\<lparr>cv := b, msg := m, critical_path := p\<rparr>)"
    and l: "good_streams pe'" and same: "free_q pe' = free_q pe" "pq pe' = pq pe" "cancel_q pe' = cancel_q pe" "event_q pe' = event_q pe"
      "GVT_sig pe' = GVT_sig pe" "cur_event pe' = cur_event pe" "\<And>k. pevents pe' k = pevents pe k" "\<And>k. last_sig (kps pe' k) = last_sig (kps pe k)"
  shows "running c U cl a pe'"
proof -
  let ?V = "as_processed c a pe" and ?V' = "as_processed c a pe'"
  have ok: "pe_ok c U (event_q pe) cl ?V" and ca: "causal c U ?V" and a: "a \<in> U" "qowner (heap pe a) = No_owner" "abort_event c \<notin> U"
    using r by (simp_all add: running_def)
  have isame: "inv_same (heap ?V' x) (heap ?V x)" for x
    unfolding inv_same_def by (cases "x = a") (simp_all add: h rand_key_def)
  have d: "dest_lp (heap pe' a) = dest_lp (heap pe a)" by (simp add: h)
  have idl: "idle (heap ?V' x)" if "x \<in> U" for x
    using pe_okD(9)[OF ok that] unfolding idle_def by (cases "x = a") (simp_all add: h)
  have pv: "pevents ?V' j = pevents ?V j" "last_sig (kps ?V' j) = last_sig (kps ?V j)" for j
    by (simp_all add: d same)
  have gs: "good_streams ?V'" using l by (simp add: good_streams_def)
  have "pe_ok c U (event_q pe) cl ?V'"
    by (rule pe_ok_cong_on[OF ok isame _ _ _ _ pv(1) _ gs idl])
      (use pe_okD(8)[OF ok] in \<open>simp_all add: same\<close>)
  moreover have "causal c U ?V'" by (rule causal_cong_on[OF ca ok isame pv]) (simp add: same)
  moreover have "abort_event c \<noteq> a" using a by auto
  ultimately show ?thesis
    using r unfolding running_def by (simp add: h same)
qed

definition start_processing :: "('st, 'bf, 'm) config \<Rightarrow> addr \<Rightarrow> ('st, 'bf, 'm, 'z) tw_pe_scheme \<Rightarrow> ('st, 'bf, 'm, 'z) tw_pe_scheme" where
  "start_processing c a pe = set_last_sig (kp_of c (dest_lp (heap pe a)))
     (tw_copy_event_sig (last_sig (kps pe (kp_of c (dest_lp (heap pe a))))) (qsig (heap pe a))) (pe\<lparr>cur_event := a\<rparr>)"

text \<open>
  The LP is not suspended and the handlers fit each other: processing the event succeeds, and
  undoing it gives back all LPs as they were.
\<close>

lemma start_processing_sel:
  "heap (start_processing c a pe) = heap pe" "lps (start_processing c a pe) = lps pe"
  "pevents (start_processing c a pe) j = pevents pe j"
  by (simp_all add: start_processing_def pe_simps)

lemma process_event_ok:
  assumes rn: "running c U cl a (start_processing c a pe)" and act: "\<not> suspend_flag (lps pe (dest_lp (heap pe a)))"
    and h: "handlers_ok G c (dest_lp (heap pe a))" and g: "G (cur_state (lps pe (dest_lp (heap pe a))))"
    and x: "sends_ok c n (heap pe a) (cur_state (lps pe (dest_lp (heap pe a))))" "fresh_ids c U (n + r) (start_processing c a pe)"
    and opt: "protocol c \<noteq> CONSERVATIVE" "protocol c \<noteq> SEQUENTIAL"
    and a0: "caused_by_me (heap pe a) = []" "aborted_total (heap pe a) = 0"
  shows "\<exists>pe'. process_event c net a pe = Inr pe' \<and> running c U cl a pe' \<and>
    undo_step c (heap pe') a (lps pe') = lps pe \<and> \<not> suspend_flag (lps pe' (dest_lp (heap pe a))) \<and>
    (\<forall>j. pevents pe' j = pevents pe j) \<and> GVT_sig pe' = GVT_sig pe \<and> cancel_q pe' = cancel_q pe \<and>
    dest_lp (heap pe' a) = dest_lp (heap pe a) \<and> qsig (heap pe' a) = qsig (heap pe a) \<and> fresh_ids c U r pe' \<and>
    G (cur_state (lps pe' (dest_lp (heap pe a)))) \<and> grown U a pe pe' \<and>
    ((\<forall>i j. kp_of c i = kp_of c j) \<longrightarrow> event_q pe' = event_q pe) \<and>
    (\<forall>j. j \<noteq> dest_lp (heap pe a) \<longrightarrow> lps pe' j = lps pe j) \<and>
    (\<forall>b \<in> U. b \<noteq> a \<longrightarrow> qowner (heap pe b) \<noteq> TW_pe_free_q \<longrightarrow> heap pe' b = heap pe b)"
proof -
  let ?lp = "dest_lp (heap pe a)"
  let ?k = "kp_of c ?lp" and ?l = "lps pe ?lp"
  define pe1 where "pe1 = start_processing c a pe"
  define out where "out = event_h c ?lp (last_sig (kps pe1 ?k)) (cur_state ?l) (bf0 c) (msg (heap pe a))"
  have f1: "heap pe1 = heap pe" "lps pe1 = lps pe" "pevents pe1 j = pevents pe j" for j
    unfolding pe1_def by (simp_all add: start_processing_sel)
  have ks: "sig_key (last_sig (kps pe1 ?k)) = sig_key (qsig (heap pe a))"
    using rn f1 unfolding running_def pe1_def[symmetric] by simp
  have rv: "reversible_handlers G (event_h c ?lp (last_sig (kps pe1 ?k))) (revent_h c ?lp (qsig (heap pe a))) (bf0 c)"
    using h ks by (simp add: handlers_ok_def)
  obtain bf' where bw: "revent_h c ?lp (qsig (heap pe a)) (o_state out) (o_bf out) (o_msg out) = (cur_state ?l, bf', msg (heap pe a))"
    using reversible_handlers.undoes[OF rv g, of "msg (heap pe a)"] unfolding out_def[symmetric] Let_def by blast
  have ns: "o_suspend out = None"
    using reversible_handlers.no_suspend[OF rv g] unfolding out_def .
  let ?xs = "o_sends out"
  have xs: "length ?xs \<le> n" "\<forall>y \<in> set ?xs. send_ok c (qsig (heap pe a)) y"
    using x(1) ks unfolding sends_ok_def out_def by blast+
  let ?cp = "max (lp_critical_path ?l) (critical_path (heap pe a)) + 1"
  define pe2 where "pe2 = upd_ev a (\<lambda>v. v\<lparr>cv := o_bf out, msg := o_msg out\<rparr>) (upd_lp ?lp (\<lambda>l. l\<lparr>cur_state := o_state out\<rparr>)
     (upd_lp ?lp (\<lambda>l. l\<lparr>lp_critical_path := ?cp\<rparr>) (upd_ev a (\<lambda>v. v\<lparr>cv := bf0 c\<rparr>) pe1)))"
  have h2: "heap pe2 = (heap pe1)(a := (heap pe1 a)\<lparr>cv := o_bf out, msg := o_msg out, critical_path := critical_path (heap pe a)\<rparr>)"
    by (simp add: pe2_def pe_simps f1)
  have l2: "lps pe2 = (lps pe)(?lp := ?l\<lparr>lp_critical_path := ?cp, cur_state := o_state out\<rparr>)"
    by (simp add: pe2_def pe_simps f1)
  have rest2: "free_q pe2 = free_q pe1" "pq pe2 = pq pe1" "cancel_q pe2 = cancel_q pe1" "event_q pe2 = event_q pe1"
      "GVT_sig pe2 = GVT_sig pe1" "cur_event pe2 = cur_event pe1" "kps pe2 = kps pe1" "seq_num pe2 = seq_num pe1"
    by (simp_all add: pe2_def pe_simps)
  have gs1: "good_streams pe" using running_facts(2)[OF rn] by (simp add: good_streams_def start_processing_sel)
  have r2: "running c U cl a pe2"
    by (rule running_upd[OF rn[folded pe1_def] h2]) (use gs1 in \<open>simp_all add: rest2 good_streams_def l2\<close>)
  have fr2: "fresh_ids c U (length ?xs + r) pe2"
  proof -
    have "fresh_ids c U (length ?xs + r) pe1" using fresh_ids_mono[OF x(2), of "length ?xs + r"] xs(1) by (simp add: pe1_def)
    then show ?thesis unfolding fresh_ids_def rest2 h2 by (auto split: if_splits)
  qed
  have a2: "dest_lp (heap pe2 a) = ?lp" "qsig (heap pe2 a) = qsig (heap pe a)" by (simp_all add: h2 f1)
  obtain pe3 where p3: "do_sends c net ?lp ?xs pe2 = Inr pe3" "running c U cl a pe3" "sent c U a (length ?xs) pe2 pe3" "fresh_ids c U r pe3"
    using do_sends_ok[OF r2 _ opt fr2, of net] xs(2) unfolding a2 by blast
  obtain cs m where c3: "heap pe3 a = (heap pe2 a)\<lparr>caused_by_me := cs, aborted_total := m\<rparr>"
    "length cs + m = length ?xs"
    using p3(3) a0 unfolding sent_def Let_def h2 f1 by auto
  have l3: "lps pe3 = (lps pe2)(?lp := (lps pe2 ?lp)\<lparr>core_rng := (core_fwd ^^ length ?xs) (core_rng (lps pe2 ?lp))\<rparr>)"
    "kps pe3 = kps pe2" "GVT_sig pe3 = GVT_sig pe2" "cancel_q pe3 = cancel_q pe2"
    "\<And>b. b \<in> U \<Longrightarrow> b \<noteq> a \<Longrightarrow> qowner (heap pe2 b) \<noteq> TW_pe_free_q \<Longrightarrow> heap pe3 b = heap pe2 b"
    using p3(3) unfolding sent_def Let_def a2(1) by blast+
  define pe4 where "pe4 = upd_kp ?k (\<lambda>kp. kp\<lparr>s_nevent_processed := s_nevent_processed kp + 1\<rparr>)
    (upd_ev a (\<lambda>v. v\<lparr>critical_path := lp_critical_path ?l\<rparr>) pe3)"
  have h4: "heap pe4 = (heap pe3)(a := (heap pe3 a)\<lparr>cv := cv (heap pe3 a), msg := msg (heap pe3 a), critical_path := lp_critical_path ?l\<rparr>)"
    by (simp add: pe4_def pe_simps)
  have rest4: "lps pe4 = lps pe3" "free_q pe4 = free_q pe3" "pq pe4 = pq pe3" "cancel_q pe4 = cancel_q pe3" "event_q pe4 = event_q pe3"
      "GVT_sig pe4 = GVT_sig pe3" "cur_event pe4 = cur_event pe3" "pevents pe4 j = pevents pe3 j" "last_sig (kps pe4 j) = last_sig (kps pe3 j)" for j
    by (simp_all add: pe4_def pe_simps)
  have gs3: "good_streams pe3" using running_facts(2)[OF p3(2)] .
  have r4: "running c U cl a pe4"
    by (rule running_upd[OF p3(2) h4]) (use gs3 in \<open>simp_all add: rest4 good_streams_def\<close>)
  have run_ev: "run_event c net a (upd_lp ?lp (\<lambda>l. l\<lparr>lp_critical_path := ?cp\<rparr>) (upd_ev a (\<lambda>v. v\<lparr>cv := bf0 c\<rparr>) pe1)) = Inr pe3"
    using p3(1) ns unfolding run_event_def Let_def
    by (simp add: pe_simps f1 tw_now_sig_def out_def[symmetric] pe2_def[unfolded Suc_eq_plus1[symmetric], symmetric])
  have st: "set_last_sig ?k (tw_copy_event_sig (last_sig (kps pe ?k)) (qsig (heap pe a))) (pe\<lparr>cur_event := a\<rparr>) = pe1"
    by (simp add: pe1_def start_processing_def)
  have run: "process_event c net a pe = Inr pe4"
    using act run_ev h unfolding process_event_def Let_def
    by (simp add: handlers_ok_def st pe_simps(1-45) f1 pe4_def)
  have e4: "heap pe4 a = (heap pe a)\<lparr>cv := o_bf out, msg := o_msg out, critical_path := lp_critical_path ?l, caused_by_me := cs, aborted_total := m\<rparr>"
    by (simp add: h4 c3(1) h2 f1)
  have v: "valid_stream (core_rng ?l)" using gs1 by (simp add: good_streams_def)
  have l4: "lps pe4 ?lp = ?l\<lparr>lp_critical_path := ?cp, cur_state := o_state out, core_rng := (core_fwd ^^ length ?xs) (core_rng ?l)\<rparr>"
    by (simp add: rest4(1) l3(1) l2)
  have view: "rollback_view c a (heap pe4 a) (lps pe4 ?lp) =
      ((lps pe4 ?lp)\<lparr>cur_state := cur_state ?l, lp_critical_path := lp_critical_path ?l\<rparr>, bf', msg (heap pe a))"
  proof -
    have "\<not> suspend_flag (lps pe4 ?lp)" unfolding l4 using act by simp
    then have "rollback_view c a (heap pe4 a) (lps pe4 ?lp) = reverse_view c (heap pe4 a) (lps pe4 ?lp)"
      by (rule rollback_view_active)
    also have "\<dots> = ((lps pe4 ?lp)\<lparr>cur_state := cur_state ?l, lp_critical_path := lp_critical_path ?l\<rparr>, bf', msg (heap pe a))"
      unfolding reverse_view_def e4 l4 using bw by simp
    finally show ?thesis .
  qed
  have dl: "dest_lp (heap pe4 a) = ?lp" by (simp add: e4)
  have cnt: "length (caused_by_me (heap pe4 a)) + aborted_total (heap pe4 a) = length ?xs" using c3(2) by (simp add: e4)
  have un: "undo_step c (heap pe4) a (lps pe4) = lps pe"
    unfolding undo_step_def Let_def dl view cnt fst_conv
  proof (rule ext)
    fix j
    show "((lps pe4)(?lp := (lps pe4 ?lp)\<lparr>cur_state := cur_state ?l, lp_critical_path := lp_critical_path ?l,
        core_rng := (core_back ^^ length ?xs) (core_rng (lps pe4 ?lp))\<rparr>)) j = lps pe j"
      using v by (cases "j = ?lp") (simp_all add: l4, simp add: rest4(1) l3(1) l2)
  qed
  have oth: "\<forall>j. j \<noteq> ?lp \<longrightarrow> lps pe4 j = lps pe j" by (simp add: rest4(1) l3(1) l2)
  have hb: "heap pe4 b = heap pe b" if "b \<in> U" "b \<noteq> a" "qowner (heap pe b) \<noteq> TW_pe_free_q" for b
    using l3(5)[OF that(1,2)] that by (simp add: h4 h2 f1)
  have qs: "qsig (heap pe4 a) = qsig (heap pe a)" by (simp add: e4)
  have fr4: "fresh_ids c U r pe4"
    using p3(4) unfolding fresh_ids_def rest4 h4 by (auto simp: pe4_def pe_simps)
  show ?thesis
  proof (rule exI[of _ pe4], intro conjI run r4 un dl qs fr4 oth ballI impI allI)
    show "\<not> suspend_flag (lps pe4 ?lp)" using act by (simp add: l4)
    show "G (cur_state (lps pe4 ?lp))"
      using reversible_handlers.stays_good[OF rv g] unfolding out_def by (simp add: l4 out_def)
    show "pevents pe4 j = pevents pe j" for j by (simp add: rest4 l3(2) rest2 f1)
    show "GVT_sig pe4 = GVT_sig pe" by (simp add: rest4 l3(3) rest2) (simp add: pe1_def start_processing_def pe_simps)
    show "cancel_q pe4 = cancel_q pe" by (simp add: rest4 l3(4) rest2) (simp add: pe1_def start_processing_def pe_simps)
    have "grown U a pe2 pe3" using p3(3) unfolding sent_def Let_def by blast
    moreover have "qowner (heap pe2 b) = qowner (heap pe b)" "qowner (heap pe4 b) = qowner (heap pe3 b)"
      "caused_by_me (heap pe2 b) = caused_by_me (heap pe b)" "caused_by_me (heap pe4 b) = caused_by_me (heap pe3 b)" for b
      by (simp_all add: h4 h2 f1)
    ultimately show "grown U a pe pe4" unfolding grown_def by simp
    show "event_q pe4 = event_q pe" if "\<forall>i j. kp_of c i = kp_of c j"
    proof -
      have "kps_behind c a pe2"
        unfolding kps_behind_def
      proof
        fix i
        have "kp_of c i = kp_of c (dest_lp (heap pe2 a))" using that by blast
        then show "sig_key (last_sig (kps pe2 (kp_of c i))) \<le> sig_key (qsig (heap pe2 a))" using r2 by (simp add: running_def)
      qed
      then have "event_q pe3 = event_q pe2" using p3(3) unfolding sent_def Let_def by blast
      then show ?thesis by (simp add: rest4 rest2) (simp add: pe1_def start_processing_def pe_simps)
    qed
  qed (rule hb)
qed


section \<open>The end of a round\<close>

lemma finish_event_ok:
  assumes "running c U cl a pe" "\<not> cev_abort pe"
  shows "finish_event c net a pe = Inr (True, as_processed c a pe)" "pe_ok c U (event_q pe) cl (as_processed c a pe)"
    "causal c U (as_processed c a pe)"
  using assms by (simp_all add: finish_event_def running_def as_processed_def Let_def)

text \<open>The event whose sends ran out of buffers is taken out of the processed queue.\<close>

lemma owned_unprocess:
  assumes o: "owned c U hp fq eq q pk" and a: "pk k = a # es" and hp': "hp' = hp(a := (hp a)\<lparr>qowner := No_owner\<rparr>)"
  shows "owned c U hp' fq eq q (pk(k := es))" "a \<in> U"
    "b \<in> U \<Longrightarrow> live_owner (qowner (hp' b)) \<Longrightarrow> key_at hp' b \<noteq> key_at hp' a"
proof -
  have ks: "key_at hp' = key_at hp" "wf_at hp' = wf_at hp"
    unfolding hp' by (rule key_at_cong, simp) (rule wf_at_cong, simp)
  have ow: "qowner (hp' b) = (if b = a then No_owner else qowner (hp b))" "dest_lp (hp' b) = dest_lp (hp b)"
    "qsig (hp' b) = qsig (hp b)" for b
    by (simp_all add: hp')
  have a': "a \<in> U" "qowner (hp a) = TW_kp_pevent_q" "kp_of c (dest_lp (hp a)) = k" using ownedD(7)[OF o, of k] a by auto
  show "a \<in> U" by (rule a'(1))
  have pk: "set ((pk(k := es)) i) = {x \<in> U. qowner (hp' x) = TW_kp_pevent_q \<and> kp_of c (dest_lp (hp' x)) = i}" for i
  proof (cases "i = k")
    case True
    have "set es = set (pk k) - {a}" using ownedD(8)[OF o, of k] a by auto
    also have "\<dots> = {x \<in> U. qowner (hp x) = TW_kp_pevent_q \<and> kp_of c (dest_lp (hp x)) = k} - {a}"
      by (simp only: ownedD(7)[OF o, of k])
    finally show ?thesis using True by (auto simp: ow)
  next
    case False
    then have "(pk(k := es)) i = pk i" by simp
    then show ?thesis using a' False by (auto simp: ow ownedD(7)[OF o, of i])
  qed
  have dk: "distinct ((pk(k := es)) i)" for i using ownedD(8)[OF o, of i] a by (auto split: if_splits)
  have live: "{x \<in> U. live_owner (qowner (hp' x))} = {x \<in> U. live_owner (qowner (hp x))} - {a}"
    by (auto simp: live_owner_def ow)
  have inj: "inj_on (key_at hp) ({x \<in> U. live_owner (qowner (hp x))} - {a})"
    by (rule inj_on_diff[OF ownedD(10)[OF o]])
  have fe: "set fq = {x \<in> U. qowner (hp' x) = TW_pe_free_q}" "set eq = {x \<in> U. qowner (hp' x) = TW_pe_event_q}"
    "set (contents q) = {x \<in> U. qowner (hp' x) = TW_pe_pq}"
    using ownedD(4-6)[OF o] a' by (auto simp: ow)
  show "owned c U hp' fq eq q (pk(k := es))"
  proof -
    have "finite U" "card U < 2 ^ 32 - 1" "pq_inv (key_at hp) (wf_at hp) q" "\<forall>x\<in>U. wf_sig (qsig (hp' x))"
      using o unfolding owned_def ow by simp_all
    then show ?thesis
      unfolding owned_def ks live by (intro conjI allI pk dk fe inj ownedD(2,3)[OF o])
  qed
  show "key_at hp' b \<noteq> key_at hp' a" if "b \<in> U" "live_owner (qowner (hp' b))"
  proof
    assume "key_at hp' b = key_at hp' a"
    moreover have "b \<in> {x \<in> U. live_owner (qowner (hp x))}" "a \<in> {x \<in> U. live_owner (qowner (hp x))}" "b \<noteq> a"
      using that a' by (auto simp: ow live_owner_def split: if_splits)
    ultimately show False using ownedD(10)[OF o] unfolding ks by (auto dest: inj_onD)
  qed
qed

text \<open>
  An event that could not send is undone on the spot and goes back to the pending queue. The
  KP is set to the time of the \<^emph>\<open>oldest\<close> processed event (\<open>tw_eventq_peek\<close> is the tail).
\<close>

lemma finish_event_abort:
  assumes r: "running c U cl a pe" and ab: "cev_abort pe"
  shows "\<exists>pe'. finish_event c net a pe = Inr (False, pe') \<and> pe_ok c U (event_q pe') cl pe' \<and> event_q pe' = event_q pe \<and>
    lps pe' = undo_step c (heap (as_processed c a pe)) a (lps pe) \<and> (\<forall>j. pevents pe' j = pevents pe j) \<and>
    rolled (heap pe') (heap (as_processed c a pe)) a TW_pe_pq \<and> GVT_sig pe' = GVT_sig pe \<and> \<not> cev_abort pe' \<and>
    sig_key (last_sig (kps pe' (kp_of c (dest_lp (heap pe a))))) =
      sig_key (case pevents pe (kp_of c (dest_lp (heap pe a))) of [] \<Rightarrow> GVT_sig pe
        | _ \<Rightarrow> qsig (heap pe (last (pevents pe (kp_of c (dest_lp (heap pe a)))))))"
proof -
  let ?V = "as_processed c a pe" and ?k = "kp_of c (dest_lp (heap pe a))" and ?i = "dest_lp (heap pe a)"
  let ?es = "caused_by_me (heap pe a)"
  define pe0 where "pe0 = pe\<lparr>cev_abort := False\<rparr>"
  have ok: "pe_ok c U (event_q pe) cl ?V" and aU: "a \<in> U" "qowner (heap pe a) = No_owner"
    using r by (simp_all add: running_def)
  note o = pe_okD[OF ok]
  have pk: "pevents ?V ?k = a # pevents pe ?k" by simp
  have aP: "a \<in> processed U (heap ?V)" using aU(1) by simp
  have hp: "heap pe = (heap ?V)(a := (heap ?V a)\<lparr>qowner := No_owner\<rparr>)"
    using aU(2) by (intro ext) simp
  have pkes: "(pevents ?V)(?k := pevents pe ?k) = pevents pe" by (rule ext) simp
  have un: "owned c U (heap pe) (free_q pe) (event_q pe) (pq pe) (pevents pe)"
    "\<And>b. b \<in> U \<Longrightarrow> live_owner (qowner (heap pe b)) \<Longrightarrow> key_at (heap pe) b \<noteq> key_at (heap pe) a"
    using owned_unprocess[OF o(3) pk hp] unfolding pkes as_processed_sel(5,6) by blast+
  have ch: "distinct ?es" "a \<notin> set ?es" "\<forall>e \<in> set ?es. e \<in> U \<and> live_owner (qowner (heap pe e)) \<and> src_lp (heap pe e) = ?i"
  proof -
    have c: "caused_by_me (heap ?V a) = ?es" "dest_lp (heap ?V a) = ?i" by simp_all
    note cd = childrenD[OF o(4) aP, unfolded c]
    show "distinct ?es" and na: "a \<notin> set ?es" by (rule cd(1), rule cd(2))
    show "\<forall>e \<in> set ?es. e \<in> U \<and> live_owner (qowner (heap pe e)) \<and> src_lp (heap pe e) = ?i"
    proof
      fix e assume e: "e \<in> set ?es"
      then have "e \<noteq> a" using na by auto
      then show "e \<in> U \<and> live_owner (qowner (heap pe e)) \<and> src_lp (heap pe e) = ?i"
        using cd(3-5)[OF e] by simp
    qed
  qed
  obtain l' bf m where v: "rollback_view c a (heap pe a) (lps pe ?i) = (l', bf, m)"
    by (cases "rollback_view c a (heap pe a) (lps pe ?i)") auto
  have h0: "heap pe0 = heap pe" "free_q pe0 = free_q pe" "pq pe0 = pq pe" "lps pe0 = lps pe" "kps pe0 = kps pe" "event_q pe0 = event_q pe"
    "cancel_q pe0 = cancel_q pe" "GVT_sig pe0 = GVT_sig pe" "cev_abort pe0 = False"
    by (simp_all add: pe0_def)
  have g0: "good_streams pe0" using running_facts(2)[OF r] by (simp add: good_streams_def h0)
  obtain pe1 where p1: "tw_event_rollback c net a pe0 = Inr pe1" "good_streams pe1"
    "owned c U (heap pe1) (free_q pe1) (event_q pe) (pq pe1) (pevents pe)"
    "heap pe1 = (\<lambda>b. if b = a then (heap pe a)\<lparr>out_msgs := [], cv := bf, msg := m, aborted_total := 0, caused_by_me := []\<rparr>
      else if b \<in> set ?es then cancelled (heap pe b) else heap pe b)"
    "cancel_q pe1 = rev (filter (\<lambda>b. qowner (heap pe b) \<noteq> TW_pe_pq) ?es) @ cancel_q pe"
    "lps pe1 = (lps pe)(?i := l'\<lparr>core_rng := (core_back ^^ (length ?es + aborted_total (heap pe a))) (core_rng (lps pe ?i))\<rparr>)"
    "kps pe1 = (kps pe)(?k := (kps pe ?k)\<lparr>last_sig := qsig (heap pe a), s_e_rbs := s_e_rbs (kps pe ?k) + 1\<rparr>)"
    "event_q pe1 = event_q pe" "GVT_sig pe1 = GVT_sig pe" "\<not> cev_abort pe1"
    using rollback_effect[of c pe0 U "event_q pe" "pevents pe" a ?i l' bf m net, unfolded h0, OF o(1) g0 un(1) ch refl v]
    by blast
  have a1: "qowner (heap pe1 a) = No_owner" using aU(2) by (simp add: p1(4))
  have key1: "key_at (heap pe1) b \<noteq> key_at (heap pe1) a" if b: "b \<in> U" "live_owner (qowner (heap pe1 b))" for b
  proof -
    have k: "key_at (heap pe1) = key_at (heap pe)" by (rule key_at_cong) (simp add: p1(4))
    have "live_owner (qowner (heap pe b))" using b(2) aU(2) by (auto simp: p1(4) live_owner_def split: if_splits)
    then show ?thesis unfolding k by (rule un(2)[OF b(1)])
  qed
  obtain q' where q': "tw_pq_enqueue (lt_rand ((heap pe1)(a := (heap pe1 a)\<lparr>qowner := TW_pe_pq\<rparr>))) (pq pe1) a = Inr q'"
    "owned c U ((heap pe1)(a := (heap pe1 a)\<lparr>qowner := TW_pe_pq\<rparr>)) (free_q pe1) (event_q pe) q' (pevents pe)"
    using owned_enqueue_new[OF p1(3) aU(1) a1 key1] by blast
  define pe2 where "pe2 = (upd_ev a (\<lambda>v. v\<lparr>qowner := TW_pe_pq\<rparr>) pe1)\<lparr>pq := q'\<rparr>"
  have enq: "pq_enqueue a pe1 = Inr pe2" using q'(1) by (simp add: pq_enqueue_def pe2_def pe_simps Let_def)
  have h2: "heap pe2 = (heap pe1)(a := (heap pe1 a)\<lparr>qowner := TW_pe_pq\<rparr>)" "kps pe2 = kps pe1" "event_q pe2 = event_q pe"
    "lps pe2 = lps pe1" "free_q pe2 = free_q pe1" "pq pe2 = q'" "cancel_q pe2 = cancel_q pe1" "GVT_sig pe2 = GVT_sig pe"
    by (simp_all add: pe2_def pe_simps p1(8,9))
  have pv2: "pevents pe2 j = pevents pe j" for j by (simp add: h2(2) p1(7))
  define s where "s = tw_copy_event_sig (last_sig (kps pe2 ?k)) (case pevents pe2 ?k of [] \<Rightarrow> GVT_sig pe2 | _ \<Rightarrow> qsig (heap pe2 (last (pevents pe2 ?k))))"
  define pe3 where "pe3 = tw_gvt_force_update c (set_last_sig ?k s pe2)"
  have d: "dest_lp (heap pe0 a) = ?i" by (simp add: h0)
  have run: "finish_event c net a pe = Inr (False, pe3)"
    using ab p1(1) enq unfolding finish_event_def Let_def pe0_def[symmetric]
    by (simp add: pe3_def s_def)
  have h3: "heap pe3 = heap pe2" "kps pe3 = (kps pe2)(?k := (kps pe2 ?k)\<lparr>last_sig := s\<rparr>)" "event_q pe3 = event_q pe"
    "lps pe3 = lps pe1" "free_q pe3 = free_q pe1" "pq pe3 = q'" "cancel_q pe3 = cancel_q pe1" "GVT_sig pe3 = GVT_sig pe" "\<not> cev_abort pe3"
    by (simp_all add: pe3_def tw_gvt_force_update_def pe_simps h2) (simp add: pe2_def pe_simps p1(10))
  have pv3: "pevents pe3 j = pevents pe j" for j using pv2 by (simp add: h3(2))
  have own: "x\<lparr>out_msgs := [], cv := bf, msg := m, aborted_total := 0, caused_by_me := [], qowner := w\<rparr>
      = x\<lparr>qowner := w', out_msgs := [], cv := bf, msg := m, aborted_total := 0, caused_by_me := [], qowner := w\<rparr>" for w w' and x :: "('b, 'c) pevent"
    by simp
  have rl: "rolled (heap pe3) (heap ?V) a TW_pe_pq"
    unfolding rolled_def
  proof (intro conjI allI impI)
    have "heap pe3 a = (heap ?V a)\<lparr>out_msgs := [], cv := bf, msg := m, aborted_total := 0, caused_by_me := [], qowner := TW_pe_pq\<rparr>"
      by (simp add: h3(1) h2(1) p1(4))
    then show "\<exists>bf m. heap pe3 a = (heap ?V a)\<lparr>out_msgs := [], cv := bf, msg := m, aborted_total := 0, caused_by_me := [], qowner := TW_pe_pq\<rparr>"
      by blast
    fix b assume "b \<noteq> a"
    then show "heap pe3 b = (if b \<in> set (caused_by_me (heap ?V a)) then cancelled (heap ?V b) else heap ?V b)"
      by (simp add: h3(1) h2(1) p1(4))
  qed
  have wfs: "wf_sig (case pevents pe ?k of [] \<Rightarrow> GVT_sig pe | _ \<Rightarrow> qsig (heap pe (last (pevents pe ?k))))"
  proof (cases "pevents pe ?k")
    case Nil
    then show ?thesis using o(7) by simp
  next
    case (Cons h t)
    have "last (pevents pe ?k) \<in> set (pevents pe ?k)" using Cons by simp
    then have "last (pevents pe ?k) \<in> U" using ownedD(7)[OF un(1), of ?k] by blast
    then show ?thesis using Cons running_facts(6)[OF r] by simp
  qed
  have qs2: "qsig (heap pe2 b) = qsig (heap pe b)" for b by (simp add: h2(1) p1(4))
  have s': "s = tw_copy_event_sig (qsig (heap pe a)) (case pevents pe ?k of [] \<Rightarrow> GVT_sig pe | _ \<Rightarrow> qsig (heap pe (last (pevents pe ?k))))"
    unfolding s_def pv2 qs2 by (simp add: h2(2,8) p1(7) split: list.split)
  have s: "wf_sig s" "sig_key s = sig_key (case pevents pe ?k of [] \<Rightarrow> GVT_sig pe | _ \<Rightarrow> qsig (heap pe (last (pevents pe ?k))))"
    unfolding s' using wfs running_facts(5)[OF r] by (auto intro: wf_copy_sig sig_key_copy)
  have k': "kids U (heap pe3) (processed U (heap pe3))"
    using kids_rollback[OF o(4) aP rl] processed_rolled[OF rl, of U] by (simp add: live_owner_def)
  have c0: "caused_by_me (heap ?V a) = ?es" by simp
  have fl: "qowner (heap ?V x) = qowner (heap pe x)" if "x \<in> set ?es" for x
    using ch(2) that by (cases "x = a") auto
  have c': "cancel_ok U (heap pe3) (cl @ cancel_q pe3)"
  proof (rule cancel_rollback[OF o(4) aP rl _ o(5)])
    show "distinct (cl @ cancel_q pe3)"
      using ch(1) cancel_okD(3)[OF o(5) aP, unfolded c0] cancel_okD(1)[OF o(5)] unfolding h3(7) p1(5) by auto
    show "set (cl @ cancel_q pe3) = {x \<in> set (cl @ cancel_q ?V) \<union> {x \<in> set (caused_by_me (heap ?V a)). qowner (heap ?V x) \<noteq> TW_pe_pq}.
        TW_pe_pq = TW_pe_free_q \<longrightarrow> x \<noteq> a}"
      using fl ch(2) unfolding h3(7) p1(5) c0 by auto
  qed simp
  have pvf: "pevents pe3 = pevents pe" using pv3 by (rule ext)
  have "pe_ok c U (event_q pe3) cl pe3"
  proof (rule pe_okI[OF o(1) _ _ k' c'])
    show "good_streams pe3" using p1(2) by (simp add: good_streams_def h3(4))
    show "owned c U (heap pe3) (free_q pe3) (event_q pe3) (pq pe3) (pevents pe3)"
      using q'(2) unfolding pvf h3(1,3,5,6) h2(1) .
    show "wf_sig (GVT_sig pe3)" using o(7) by (simp add: h3(8))
    show "wf_sig (last_sig (kps pe3 j))" for j using s(1) o(8)[of j] by (simp add: h3(2) h2(2) p1(7))
    fix b assume b: "b \<in> U"
    show "idle (heap pe3 b)" by (rule idle_rolled[OF rl o(9)[OF b]])
    assume "live_owner (qowner (heap pe3 b))"
    then have "live_owner (qowner (heap ?V b))"
      unfolding rolledD(11)[OF rl] by (auto simp: live_owner_def split: if_splits)
    then show "ev_recv_ts (heap pe3 b) = recv_ts (qsig (heap pe3 b))"
      using o(6)[OF b] by (simp only: rolledD(9,10)[OF rl])
  qed
  moreover have "lps pe3 = undo_step c (heap ?V) a (lps pe)"
  proof -
    have "rollback_view c a (heap ?V a) (lps pe ?i) = rollback_view c a (heap pe a) (lps pe ?i)"
      by (simp add: rollback_view_def reverse_view_def Let_def)
    then show ?thesis unfolding h3(4) p1(6) undo_step_def Let_def using v by simp
  qed
  moreover have "sig_key (last_sig (kps pe3 ?k)) = sig_key (case pevents pe ?k of [] \<Rightarrow> GVT_sig pe | _ \<Rightarrow> qsig (heap pe (last (pevents pe ?k))))"
    using s(2) by (simp add: h3(2))
  ultimately show ?thesis
    using run pv3 rl h3(3,8,9) by (intro exI[of _ pe3] conjI allI) simp_all
qed

end
