(* ===== verification/Batch.thy ===== *)
theory Batch
  imports Process
begin

text \<open>
  \<open>tw_sched_batch\<close> (\<open>core/tw-sched.c\<close>): a batch of rounds keeps the invariant of the PE and the
  histories of its LPs. The order of time is kept as well, up to the round in which an event
  runs out of buffers for its sends.
\<close>

text \<open>
  The contract of a model: for every event and every good state, its handlers fit each other,
  and for every event at the time \<open>t0\<close> or later it sends at most \<open>n\<close> events, which it may send: to
  LPs of this PE, and into the future as far as the simulation goes. \<open>t0\<close> is the time of GVT in what
  follows. A model that sends to other PEs does not meet it; what becomes of such sends is
  shown in \<open>Net_Send\<close> and \<open>Net_Props\<close>.
\<close>

definition model_ok :: "('st, 'bf, 'm) config \<Rightarrow> ('st \<Rightarrow> bool) \<Rightarrow> nat \<Rightarrow> real \<Rightarrow> bool" where
  "model_ok c G n t0 \<longleftrightarrow> (\<forall>lp. handlers_ok G c lp) \<and>
     (\<forall>e :: ('bf, 'm) pevent. \<forall>st. wf_sig (qsig e) \<longrightarrow> t0 \<le> recv_ts (qsig e) \<longrightarrow> G st \<longrightarrow> sends_ok c n e st) \<and>
     protocol c \<noteq> CONSERVATIVE \<and> protocol c \<noteq> SEQUENTIAL"

text \<open>
  The invariant of a PE; \<open>tw_inv\<close> also says that no handler has run out of buffers.
\<close>

definition tw_base :: "('st, 'bf, 'm) config \<Rightarrow> addr set \<Rightarrow> ('st \<Rightarrow> bool) \<Rightarrow> (nat \<Rightarrow> 'st tw_lp)
    \<Rightarrow> ('st, 'bf, 'm, 'z) tw_pe_scheme \<Rightarrow> bool" where
  "tw_base c U G L0 pe \<longleftrightarrow> pe_ok c U (event_q pe) [] pe \<and> traced c G L0 pe \<and>
     abort_event c \<notin> U \<and> wf_sig (qsig (heap pe (abort_event c)))"

lemma tw_baseD:
  assumes "tw_base c U G L0 pe"
  shows "pe_ok c U (event_q pe) [] pe" "traced c G L0 pe" "abort_event c \<notin> U" "wf_sig (qsig (heap pe (abort_event c)))"
  using assms by (simp_all add: tw_base_def)

definition tw_inv :: "('st, 'bf, 'm) config \<Rightarrow> addr set \<Rightarrow> ('st \<Rightarrow> bool) \<Rightarrow> (nat \<Rightarrow> 'st tw_lp)
    \<Rightarrow> ('st, 'bf, 'm, 'z) tw_pe_scheme \<Rightarrow> bool" where
  "tw_inv c U G L0 pe \<longleftrightarrow> pe_ok c U (event_q pe) [] pe \<and> traced c G L0 pe \<and> \<not> cev_abort pe \<and>
     abort_event c \<notin> U \<and> wf_sig (qsig (heap pe (abort_event c)))"

lemma tw_invD:
  assumes "tw_inv c U G L0 pe"
  shows "pe_ok c U (event_q pe) [] pe" "traced c G L0 pe" "\<not> cev_abort pe" "abort_event c \<notin> U"
    "wf_sig (qsig (heap pe (abort_event c)))"
  using assms by (simp_all add: tw_inv_def)

lemma tw_inv_base: "tw_inv c U G L0 pe \<longleftrightarrow> tw_base c U G L0 pe \<and> \<not> cev_abort pe"
  by (auto simp: tw_inv_def tw_base_def)

lemma tw_inv_same:
  assumes i: "tw_inv c U G L0 pe" and h: "heap pe' = heap pe" "free_q pe' = free_q pe" "pq pe' = pq pe" "lps pe' = lps pe"
    "cancel_q pe' = cancel_q pe" "kps pe' = kps pe" "GVT_sig pe' = GVT_sig pe" "event_q pe' = event_q pe"
    "cev_abort pe' = cev_abort pe"
  shows "tw_inv c U G L0 pe'" "causal c U pe \<Longrightarrow> causal c U pe'"
proof -
  have "pe_ok c U (event_q pe) [] pe'"
    by (rule pe_ok_same[OF tw_invD(1)[OF i]]) (use pe_okD(8)[OF tw_invD(1)[OF i]] in \<open>simp_all add: h\<close>)
  then show "tw_inv c U G L0 pe'" using i by (simp add: tw_inv_def traced_def h)
  show "causal c U pe \<Longrightarrow> causal c U pe'" by (simp add: causal_def h)
qed

text \<open>The queues of arrivals and of cancelled events.\<close>

lemma tw_inv_event_q:
  assumes i: "tw_inv c U G L0 pe" and ca: "causal c U pe"
  shows "\<exists>pe'. tw_sched_event_q (Suc n) c net pe = Inr pe' \<and> tw_inv c U G L0 pe' \<and> causal c U pe' \<and>
    event_q pe' = [] \<and> GVT_sig pe' = GVT_sig pe"
proof -
  obtain pe' where p: "tw_sched_event_q (Suc n) c net pe = Inr pe'" "pe_ok c U [] [] pe'" "causal c U pe'"
    "keeps_trace c pe pe'" "event_q pe' = []" "GVT_sig pe' = GVT_sig pe" "cev_abort pe' = cev_abort pe"
    using sched_event_q_ok[OF tw_invD(1)[OF i] ca, of n net] by blast
  then show ?thesis using i by (intro exI[of _ pe']) (simp add: tw_inv_def keeps_trace_def)
qed

lemma tw_inv_cancel_q:
  assumes i: "tw_inv c U G L0 pe" and ca: "causal c U pe" and n: "card (busy U (heap pe)) \<le> n"
  shows "\<exists>pe'. tw_sched_cancel_q n c net pe = Inr pe' \<and> tw_inv c U G L0 pe' \<and> causal c U pe' \<and>
    cancel_q pe' = [] \<and> set (event_q pe') \<subseteq> set (event_q pe) \<and> GVT_sig pe' = GVT_sig pe"
proof -
  obtain pe' where p: "tw_sched_cancel_q n c net pe = Inr pe'" "pe_ok c U (event_q pe') [] pe'" "causal c U pe'"
    "keeps_trace c pe pe'" "cancel_q pe' = []" "set (event_q pe') \<subseteq> set (event_q pe)" "GVT_sig pe' = GVT_sig pe"
    "cev_abort pe' = cev_abort pe"
    using sched_cancel_q_ok[OF tw_invD(1)[OF i] ca n, of net] by blast
  then show ?thesis using i by (intro exI[of _ pe']) (simp add: tw_inv_def keeps_trace_def)
qed

section \<open>One round\<close>

lemma causal_gvt_recv:
  "causal c U pe \<Longrightarrow> a \<in> U \<Longrightarrow> live_owner (qowner (heap pe a)) \<Longrightarrow> recv_ts (GVT_sig pe) \<le> recv_ts (qsig (heap pe a))"
  by (fastforce simp: causal_def sig_key_def less_eq_prod_def)

lemma fresh_ids_dequeue:
  assumes f: "fresh_ids c U n pe" and h: "heap pe1 = (heap pe)(a := (heap pe a)\<lparr>qowner := No_owner\<rparr>)"
    and a: "live_owner (qowner (heap pe a))" and s: "seq_num pe1 = seq_num pe"
  shows "fresh_ids c U n (start_processing c a pe1)"
  using assms by (auto simp: fresh_ids_def start_processing_def pe_simps live_owner_def)

lemma process_next:
  assumes i: "tw_base c U G L0 pe" and ca: "causal c U pe" and m: "model_ok c G n (recv_ts (GVT_sig pe))" and f: "fresh_ids c U (n + r) pe"
    and q: "contents (pq pe) = a # as"
  shows "\<exists>pe1 pe2. pq_dequeue pe = Inr (Some a, pe1) \<and> process_event c net a pe1 = Inr pe2 \<and> running c U [] a pe2 \<and>
    undo_step c (heap pe2) a (lps pe2) = lps pe \<and> (\<forall>j. pevents pe2 j = pevents pe j) \<and> GVT_sig pe2 = GVT_sig pe \<and>
    dest_lp (heap pe2 a) = dest_lp (heap pe a) \<and> qsig (heap pe2 a) = qsig (heap pe a) \<and> fresh_ids c U r pe2 \<and>
    (\<forall>i. lp_good G (lps pe2 i)) \<and> (\<forall>j. j \<noteq> dest_lp (heap pe a) \<longrightarrow> lps pe2 j = lps pe j) \<and>
    (\<forall>j. \<forall>b \<in> set (pevents pe j). b \<in> U \<and> b \<noteq> a \<and> heap pe2 b = heap pe b) \<and> a \<in> U \<and>
    (\<forall>b \<in> U. b \<noteq> a \<longrightarrow> qowner (heap pe b) \<noteq> TW_pe_free_q \<longrightarrow> heap pe2 b = heap pe b) \<and>
    set (caused_by_me (heap pe2 a)) = {b \<in> U. qowner (heap pe b) = TW_pe_free_q \<and> qowner (heap pe2 b) \<noteq> TW_pe_free_q} \<and>
    qowner (heap pe a) = TW_pe_pq \<and> cancel_q pe2 = cancel_q pe \<and> ((\<forall>i j. kp_of c i = kp_of c j) \<longrightarrow> event_q pe2 = event_q pe)"
proof -
  note inv = tw_baseD[OF i]
  let ?i = "dest_lp (heap pe a)" and ?k = "kp_of c (dest_lp (heap pe a))"
  obtain pe1 where p1: "pq_dequeue pe = Inr (Some a, pe1)" "heap pe1 = (heap pe)(a := (heap pe a)\<lparr>qowner := No_owner\<rparr>)"
    "lps pe1 = lps pe" "kps pe1 = kps pe" "a \<in> U" "qowner (heap pe a) = TW_pe_pq" "event_q pe1 = event_q pe"
    "cancel_q pe1 = cancel_q pe" "GVT_sig pe1 = GVT_sig pe" "seq_num pe1 = seq_num pe" "cev_abort pe1 = cev_abort pe"
    "running c U [] a (set_last_sig ?k (tw_copy_event_sig (last_sig (kps pe ?k)) (qsig (heap pe a))) (pe1\<lparr>cur_event := a\<rparr>))"
    using dequeue_running[OF inv(1) ca inv(3,4) q] by blast
  have e1: "dest_lp (heap pe1 a) = ?i" "qsig (heap pe1 a) = qsig (heap pe a)" "caused_by_me (heap pe1 a) = caused_by_me (heap pe a)"
    "aborted_total (heap pe1 a) = aborted_total (heap pe a)"
    by (simp_all add: p1(2))
  have rn: "running c U [] a (start_processing c a pe1)"
    using p1(12) by (simp add: start_processing_def e1 p1(4))
  have idle: "caused_by_me (heap pe1 a) = []" "aborted_total (heap pe1 a) = 0"
    using pe_okD(9)[OF inv(1) p1(5)] p1(6) by (simp_all add: idle_def e1)
  have hist: "history c G L0 j (heap pe) (pevents pe j) (lps pe)" for j using inv(2) by (simp add: traced_def)
  have good: "lp_good G (lps pe i)" for i by (rule history_good[OF hist refl])
  have wfa: "wf_sig (qsig (heap pe1 a))" using ownedD(9)[OF pe_okD(3)[OF inv(1)] p1(5)] by (simp add: e1)
  have late: "recv_ts (GVT_sig pe) \<le> recv_ts (qsig (heap pe1 a))"
    using causal_gvt_recv[OF ca p1(5)] p1(6) by (simp add: e1 live_owner_def)
  have so: "sends_ok c n (heap pe1 a) (cur_state (lps pe1 (dest_lp (heap pe1 a))))"
    using m wfa late good[of ?i] unfolding model_ok_def by (simp add: lp_good_def e1 p1(3))
  have fr: "fresh_ids c U (n + r) (start_processing c a pe1)"
    by (rule fresh_ids_dequeue[OF f p1(2)]) (simp_all add: p1 live_owner_def)
  have mo: "handlers_ok G c (dest_lp (heap pe1 a))" "protocol c \<noteq> CONSERVATIVE" "protocol c \<noteq> SEQUENTIAL"
    using m by (simp_all add: model_ok_def)
  have g1: "\<not> suspend_flag (lps pe1 (dest_lp (heap pe1 a)))" "G (cur_state (lps pe1 (dest_lp (heap pe1 a))))"
    using good[of ?i] by (simp_all add: lp_good_def e1 p1(3))
  obtain pe2 where p2: "process_event c net a pe1 = Inr pe2" "running c U [] a pe2"
    "undo_step c (heap pe2) a (lps pe2) = lps pe1" "\<not> suspend_flag (lps pe2 (dest_lp (heap pe1 a)))"
    "\<forall>j. pevents pe2 j = pevents pe1 j" "GVT_sig pe2 = GVT_sig pe1" "dest_lp (heap pe2 a) = dest_lp (heap pe1 a)"
    "qsig (heap pe2 a) = qsig (heap pe1 a)"
    "fresh_ids c U r pe2" "G (cur_state (lps pe2 (dest_lp (heap pe1 a))))"
    "\<forall>j. j \<noteq> dest_lp (heap pe1 a) \<longrightarrow> lps pe2 j = lps pe1 j"
    "\<forall>b \<in> U. b \<noteq> a \<longrightarrow> qowner (heap pe1 b) \<noteq> TW_pe_free_q \<longrightarrow> heap pe2 b = heap pe1 b"
    "grown U a pe1 pe2" "(\<forall>i j. kp_of c i = kp_of c j) \<longrightarrow> event_q pe2 = event_q pe1" "cancel_q pe2 = cancel_q pe1"
    using process_event_ok[OF rn g1(1) mo(1) g1(2) so fr mo(2,3) idle, of net] by blast
  have pev: "\<forall>j. \<forall>b \<in> set (pevents pe j). b \<in> U \<and> b \<noteq> a \<and> heap pe2 b = heap pe b"
  proof (intro allI ballI)
    fix j b assume "b \<in> set (pevents pe j)"
    then have b: "b \<in> U \<and> qowner (heap pe b) = TW_kp_pevent_q" using pe_ok_pevents(1)[OF inv(1), of j] by auto
    then have "b \<noteq> a" using p1(6) by auto
    then show "b \<in> U \<and> b \<noteq> a \<and> heap pe2 b = heap pe b" using p2(12) b by (simp add: p1(2))
  qed
  have good2: "\<forall>i. lp_good G (lps pe2 i)"
  proof
    show "lp_good G (lps pe2 i)" for i
      using p2(4,10,11) good[of i] by (cases "i = ?i") (simp_all add: e1 p1(3) lp_good_def)
  qed
  have hb: "\<forall>b \<in> U. b \<noteq> a \<longrightarrow> qowner (heap pe b) \<noteq> TW_pe_free_q \<longrightarrow> heap pe2 b = heap pe b"
    using p2(12) by (simp add: p1(2))
  have kids: "set (caused_by_me (heap pe2 a)) = {b \<in> U. qowner (heap pe b) = TW_pe_free_q \<and> qowner (heap pe2 b) \<noteq> TW_pe_free_q}"
  proof -
    have "qowner (heap pe1 b) = TW_pe_free_q \<longleftrightarrow> qowner (heap pe b) = TW_pe_free_q" for b
      using p1(6) by (simp add: p1(2))
    then show ?thesis using p2(13) unfolding grown_def by (simp only: idle(1) list.set Un_empty_left)
  qed
  have rest: "undo_step c (heap pe2) a (lps pe2) = lps pe" "\<forall>j. pevents pe2 j = pevents pe j" "GVT_sig pe2 = GVT_sig pe"
    "dest_lp (heap pe2 a) = dest_lp (heap pe a)" "qsig (heap pe2 a) = qsig (heap pe a)" "cancel_q pe2 = cancel_q pe"
    "\<forall>j. j \<noteq> dest_lp (heap pe a) \<longrightarrow> lps pe2 j = lps pe j" "(\<forall>i j. kp_of c i = kp_of c j) \<longrightarrow> event_q pe2 = event_q pe"
    by (fact p2(3,5-8,11,14,15)[unfolded e1 p1(3,4,7-9)])+
  show ?thesis
    by (rule exI[of _ pe1], rule exI[of _ pe2]) (intro conjI p1(1,5,6) p2(1,2,9) pev good2 hb kids rest)
qed

text \<open>Joining the processed queue, the event is what its history says.\<close>

lemma keep_processed:
  assumes i: "tw_base c U G L0 pe" and r: "running c U [] a pe2" and us: "undo_step c (heap pe2) a (lps pe2) = lps pe"
    and p: "\<forall>j. pevents pe2 j = pevents pe j" "dest_lp (heap pe2 a) = lp" "\<forall>i. lp_good G (lps pe2 i)"
      "\<forall>j. j \<noteq> lp \<longrightarrow> lps pe2 j = lps pe j"
      "\<forall>j. \<forall>b \<in> set (pevents pe j). b \<in> U \<and> b \<noteq> a \<and> heap pe2 b = heap pe b"
  shows "tw_base c U G L0 (as_processed c a pe2)"
proof -
  let ?V = "as_processed c a pe2" and ?k = "kp_of c lp"
  have v: "pevents ?V j = (if j = ?k then a # pevents pe j else pevents pe j)" for j
    using p(1,2) by simp
  have hist: "history c G L0 j (heap pe) (pevents pe j) (lps pe)" for j using tw_baseD(2)[OF i] by (simp add: traced_def)
  have hv: "heap ?V = (heap pe2)(a := (heap pe2 a)\<lparr>qowner := TW_kp_pevent_q\<rparr>)" by simp
  have same: "undo_same (heap ?V b) (heap pe b)" if "b \<in> set (pevents pe j)" for b j
  proof -
    have "b \<noteq> a" "heap pe2 b = heap pe b" using p(5) that by blast+
    then show ?thesis by (simp add: hv)
  qed
  have us': "undo_step c (heap ?V) a (lps pe2) = lps pe"
    using undo_step_same[of "heap ?V" a "heap pe2" c] us by (simp add: hv undo_same_def)
  have "history c G L0 j (heap ?V) (pevents ?V j) (lps ?V)" for j
  proof (cases "j = ?k")
    case True
    have "history c G L0 j (heap ?V) (pevents pe j) (lps pe)"
      using hist[of j] history_cong[of "pevents pe j" "heap ?V" "heap pe" c j "lps pe" "lps pe" G L0] same by simp
    then show ?thesis using True p(3) us' unfolding v by simp
  next
    case False
    have "lps pe2 i = lps pe i" if "kp_of c i = j" for i
      using p(4) that False by metis
    then have "history c G L0 j (heap ?V) (pevents pe j) (lps pe2)"
      using hist[of j] history_cong[of "pevents pe j" "heap ?V" "heap pe" c j "lps pe2" "lps pe" G L0] same by simp
    then show ?thesis using False unfolding v by simp
  qed
  moreover have "abort_event c \<noteq> a" using r by (auto simp: running_def)
  moreover have "pe_ok c U (event_q ?V) [] ?V" "wf_sig (qsig (heap ?V (abort_event c)))" "abort_event c \<notin> U"
    using r calculation(2) by (simp_all add: running_def)
  ultimately show ?thesis by (simp add: tw_base_def traced_def)
qed

lemma round_process:
  assumes i: "tw_inv c U G L0 pe" and ca: "causal c U pe" and m: "model_ok c G n (recv_ts (GVT_sig pe))" and f: "fresh_ids c U (n + r) pe"
    and q: "contents (pq pe) = a # as"
  shows "\<exists>go pe'. ebind (pq_dequeue pe) (\<lambda>(x, me). case x of None \<Rightarrow> Inr (False, me)
      | Some a \<Rightarrow> ebind (process_event c net a me) (finish_event c net a)) = Inr (go, pe') \<and>
    tw_inv c U G L0 pe' \<and> GVT_sig pe' = GVT_sig pe \<and> (go \<longrightarrow> causal c U pe' \<and> fresh_ids c U r pe')"
proof -
  let ?i = "dest_lp (heap pe a)"
  have base: "tw_base c U G L0 pe" using i by (simp add: tw_inv_base)
  obtain pe1 pe2 where p1: "pq_dequeue pe = Inr (Some a, pe1)" and p2: "process_event c net a pe1 = Inr pe2" "running c U [] a pe2"
    "undo_step c (heap pe2) a (lps pe2) = lps pe" "\<forall>j. pevents pe2 j = pevents pe j" "GVT_sig pe2 = GVT_sig pe"
    "dest_lp (heap pe2 a) = ?i" "qsig (heap pe2 a) = qsig (heap pe a)" "fresh_ids c U r pe2" "\<forall>i. lp_good G (lps pe2 i)"
    "\<forall>j. j \<noteq> ?i \<longrightarrow> lps pe2 j = lps pe j" "\<forall>j. \<forall>b \<in> set (pevents pe j). b \<in> U \<and> b \<noteq> a \<and> heap pe2 b = heap pe b" "a \<in> U"
    using process_next[OF base ca m f q, of net] by blast
  have pv: "b \<in> U" "b \<noteq> a" "heap pe2 b = heap pe b" if "b \<in> set (pevents pe j)" for b j
    using p2(11) that by blast+
  have hist: "history c G L0 j (heap pe) (pevents pe j) (lps pe)" for j using tw_invD(2)[OF i] by (simp add: traced_def)
  have ab: "abort_event c \<notin> U" "wf_sig (qsig (heap pe2 (abort_event c)))" using p2(2) by (simp_all add: running_def)
  show ?thesis
  proof (cases "cev_abort pe2")
    case False
    let ?V = "as_processed c a pe2"
    note fin = finish_event_ok[OF p2(2) False]
    have hv: "heap ?V = (heap pe2)(a := (heap pe2 a)\<lparr>qowner := TW_kp_pevent_q\<rparr>)" by simp
    have "tw_inv c U G L0 ?V"
      using keep_processed[OF base p2(2,3,4,6,9,10,11)] False by (simp add: tw_inv_base)
    moreover have "fresh_ids c U r ?V"
      using p2(8,2) unfolding fresh_ids_def running_def by (auto simp: as_processed_sel(7,10) hv)
    ultimately show ?thesis
      using p1 p2(1,5) fin(1,3) by (intro exI[of _ True] exI[of _ ?V]) simp
  next
    case True
    obtain pe3 where p3: "finish_event c net a pe2 = Inr (False, pe3)" "pe_ok c U (event_q pe3) [] pe3"
      "lps pe3 = undo_step c (heap (as_processed c a pe2)) a (lps pe2)" "\<forall>j. pevents pe3 j = pevents pe2 j"
      "rolled (heap pe3) (heap (as_processed c a pe2)) a TW_pe_pq" "GVT_sig pe3 = GVT_sig pe2" "\<not> cev_abort pe3"
      using finish_event_abort[OF p2(2) True, of net] by blast
    have l: "lps pe3 = lps pe"
      using undo_step_same[of "heap (as_processed c a pe2)" a "heap pe2" c] p2(3) p3(3) by (simp add: undo_same_def)
    have same: "undo_same (heap pe3 b) (heap pe b)" if "b \<in> set (pevents pe j)" for b j
      using rolledD(5)[OF p3(5), of b] pv[OF that] by auto
    have "history c G L0 j (heap pe3) (pevents pe3 j) (lps pe3)" for j
      using hist[of j] history_cong[of "pevents pe j" "heap pe3" "heap pe" c j "lps pe" "lps pe" G L0] same p3(4) p2(4)
      by (simp add: l)
    moreover have "qsig (heap pe3 b) = qsig (heap pe2 b)" for b
      using rolledD(9)[OF p3(5), of b] by simp
    ultimately have "tw_inv c U G L0 pe3"
      using p3(2,7) ab by (simp add: tw_inv_def traced_def)
    then show ?thesis
      using p1 p2(1,5) p3(1,6) by (intro exI[of _ False] exI[of _ pe3]) simp
  qed
qed

section \<open>The batch\<close>

text \<open>
  The one error a round can end with: the free buffers have been below the threshold too often
  in a row.
\<close>

definition starved :: "('st, 'bf, 'm) config \<Rightarrow> ('st, 'bf, 'm, 'z) tw_pe_scheme \<Rightarrow> bool" where
  "starved c pe \<longleftrightarrow> length (free_q pe) \<le> gvt_threshold c \<and> no_free_event_buffers pe + 1 \<ge> max_alloc_fail_count"

lemma sched_round_starved:
  "starved c pe \<Longrightarrow> sched_round c net pe = Inl (Tw_Error ''Event allocation failed consecutive times.  Exiting.'')"
  by (simp add: sched_round_def starved_def max_alloc_fail_count_def Let_def)

lemma force_update_GVT [simp]: "GVT_sig (tw_gvt_force_update c pe) = GVT_sig pe"
  by (simp add: tw_gvt_force_update_def)

lemma tw_inv_force_update: "tw_inv c U G L0 pe \<Longrightarrow> tw_inv c U G L0 (tw_gvt_force_update c pe)"
  by (erule tw_inv_same(1)) (simp_all add: tw_gvt_force_update_def)

lemma sched_round_ok:
  assumes i: "tw_inv c U G L0 pe" and ca: "causal c U pe" and m: "model_ok c G n (recv_ts (GVT_sig pe))" and f: "fresh_ids c U (n + r) pe"
    and st: "\<not> starved c pe"
  shows "\<exists>go pe'. sched_round c net pe = Inr (go, pe') \<and> tw_inv c U G L0 pe' \<and> GVT_sig pe' = GVT_sig pe \<and>
    (go \<longrightarrow> causal c U pe' \<and> fresh_ids c U r pe' \<and> length (free_q pe) > gvt_threshold c)"
proof (cases "length (free_q pe) \<le> gvt_threshold c")
  case True
  define me where "me = pe\<lparr>no_free_event_buffers := no_free_event_buffers pe + 1\<rparr>"
  have "tw_inv c U G L0 me" by (rule tw_inv_same(1)[OF i]) (simp_all add: me_def)
  moreover have "sched_round c net pe = Inr (False, tw_gvt_force_update c me)"
    using True st by (simp add: sched_round_def starved_def Let_def me_def)
  moreover have "GVT_sig me = GVT_sig pe" by (simp add: me_def)
  ultimately show ?thesis using tw_inv_force_update by (intro exI[of _ False] exI[of _ "tw_gvt_force_update c me"]) simp
next
  case False
  define me where "me = pe\<lparr>no_free_event_buffers := 0\<rparr>"
  let ?h = "has_hook c \<and> (hook_status (hook_trigger me) = GVT_HOOK_STATUS_timestamp
             \<or> hook_status (hook_trigger me) = GVT_HOOK_STATUS_model_call)
           \<and> tw_event_sig_compare_ptr (sig_at (hook_trigger me)) (tw_pq_minimum_sig_ptr (heap me) (pq me)) \<le> 0"
  have me: "tw_inv c U G L0 me" "causal c U me" "GVT_sig me = GVT_sig pe" "fresh_ids c U (n + r) me"
    using tw_inv_same[OF i, of me] ca f by (simp_all add: me_def fresh_ids_def)
  have run: "sched_round c net pe = (if ?h then Inr (False, tw_gvt_force_update c me)
      else ebind (pq_dequeue me) (\<lambda>(r, me). case r of None \<Rightarrow> Inr (False, me)
        | Some a \<Rightarrow> ebind (process_event c net a me) (finish_event c net a)))"
    unfolding sched_round_def Let_def if_not_P[OF False] me_def[symmetric] by (rule refl)
  show ?thesis
  proof (cases ?h)
    case True
    show ?thesis unfolding run if_P[OF True] using tw_inv_force_update[OF me(1)] me(3)
      by (intro exI[of _ False] exI[of _ "tw_gvt_force_update c me"]) simp
  next
    case no: False
    show ?thesis
    proof (cases "contents (pq me)")
      case Nil
      have "pq_inv (key_at (heap me)) (wf_at (heap me)) (pq me)"
        using pe_okD(3)[OF tw_invD(1)[OF me(1)]] by (simp add: owned_def)
      then have "tw_pq_dequeue (pq me) = Inr (None, pq me)" by (rule pq.dequeue_empty[OF _ Nil])
      then have "pq_dequeue me = Inr (None, me)" by (simp add: pq_dequeue_def)
      then show ?thesis unfolding run if_not_P[OF no] using me by (intro exI[of _ False] exI[of _ me]) simp
    next
      case (Cons a as)
      obtain go pe' where "ebind (pq_dequeue me) (\<lambda>(x, me). case x of None \<Rightarrow> Inr (False, me)
          | Some a \<Rightarrow> ebind (process_event c net a me) (finish_event c net a)) = Inr (go, pe')"
        "tw_inv c U G L0 pe'" "GVT_sig pe' = GVT_sig me" "go \<longrightarrow> causal c U pe' \<and> fresh_ids c U r pe'"
        using round_process[OF me(1,2) _ me(4) Cons, of net] m me(3) by auto
      then show ?thesis unfolding run if_not_P[OF no] using me(3) False by (intro exI[of _ go] exI[of _ pe']) simp
    qed
  qed
qed

text \<open>
  A batch either ends in a state that keeps the invariant, or reports that the buffers ran out.
\<close>

lemma batch_loop_ok:
  assumes "tw_inv c U G L0 pe" "causal c U pe" "model_ok c G n (recv_ts (GVT_sig pe))" "fresh_ids c U (b * n) pe"
  shows "batch_loop b c net pe = Inl (Tw_Error ''Event allocation failed consecutive times.  Exiting.'') \<or>
    (\<exists>pe'. batch_loop b c net pe = Inr pe' \<and> tw_inv c U G L0 pe' \<and> GVT_sig pe' = GVT_sig pe)"
  using assms
proof (induction b arbitrary: pe)
  case (Suc b)
  show ?case
  proof (cases "starved c pe")
    case True
    then show ?thesis by (simp add: sched_round_starved)
  next
    case False
    obtain go pe1 where p1: "sched_round c net pe = Inr (go, pe1)" "tw_inv c U G L0 pe1" "GVT_sig pe1 = GVT_sig pe"
      "go \<longrightarrow> causal c U pe1 \<and> fresh_ids c U (b * n) pe1"
      using sched_round_ok[OF Suc.prems(1-3), of "b * n", OF _ False, of net] Suc.prems(4) by auto
    show ?thesis
    proof (cases go)
      case True
      then show ?thesis using Suc.IH[OF p1(2)] Suc.prems(3) p1 by simp
    next
      case False
      then show ?thesis using p1 by simp
    qed
  qed
qed simp

text \<open>
  When the queue runs dry or the batch is used up, the state is also causal: only an event
  undone for want of buffers breaks that.
\<close>

fun rounds :: "nat \<Rightarrow> ('st, 'bf, 'm) config \<Rightarrow> ('st, 'bf, 'm, 'z) tw_pe_scheme net_ops
    \<Rightarrow> ('st, 'bf, 'm, 'z) tw_pe_scheme \<Rightarrow> ross_error + (bool \<times> ('st, 'bf, 'm, 'z) tw_pe_scheme)" where
  "rounds 0 c net me = Inr (True, me)"
| "rounds (Suc n) c net me = ebind (sched_round c net me) (\<lambda>(go, me). if go then rounds n c net me else Inr (False, me))"

lemma batch_loop_rounds: "batch_loop n c net me = ebind (rounds n c net me) (\<lambda>(go, me). Inr me)"
proof (induction n arbitrary: me)
  case (Suc n)
  show ?case by (cases "sched_round c net me") (auto simp: Suc.IH)
qed simp

lemma rounds_causal:
  assumes "tw_inv c U G L0 pe" "causal c U pe" "model_ok c G n (recv_ts (GVT_sig pe))" "fresh_ids c U (b * n) pe"
    "rounds b c net pe = Inr (True, pe')"
  shows "causal c U pe'"
  using assms
proof (induction b arbitrary: pe)
  case (Suc b)
  have ns: "\<not> starved c pe"
  proof
    assume "starved c pe"
    then show False using Suc.prems(5) by (simp add: sched_round_starved)
  qed
  obtain go pe1 where p1: "sched_round c net pe = Inr (go, pe1)" "tw_inv c U G L0 pe1"
    "go \<longrightarrow> causal c U pe1 \<and> fresh_ids c U (b * n) pe1" "GVT_sig pe1 = GVT_sig pe"
    using sched_round_ok[OF Suc.prems(1-3), of "b * n", OF _ ns, of net] Suc.prems(4) by auto
  then show ?case using Suc.IH[OF p1(2)] Suc.prems(3,5) by (cases go) auto
qed simp

end
