(* ===== verification/Phold.thy ===== *)
theory Phold
  imports Batch
begin

text \<open>
  The PHOLD model (\<open>models/phold/phold.main.c\<close>), the benchmark that comes with the simulator: its
  event handler, its reverse handler and its mapping of LPs, and the proof that they meet the
  contract the optimistic scheduler needs.
\<close>

section \<open>The model\<close>

text \<open>
  The options and globals the handlers read: \<open>total_lps\<close> is \<open>g_tw_nlp * tw_nnodes()\<close>, \<open>c_log\<close> the
  \<open>log\<close> of the C library, \<open>lp_generator\<close> the generator behind \<open>lp->rng\<close>.
\<close>

record phold_env =
  ttl_lps :: "32 word"
  percent_remote :: real
  mean :: real
  ph_lookahead :: real
  g_tw_nlp :: nat
  total_lps :: nat
  c_log :: "real \<Rightarrow> real"
  lp_generator :: tw_rng

text \<open>The state of an LP with its random stream; the bit field is \<open>tw_bf\<close>, whose bit 1 is \<open>c1\<close>.\<close>

record phold_state =
  dummy_state :: int
  rng :: tw_rng_stream

type_synonym tw_bf = "32 word"

text \<open>
  \<open>tw_rand_exponential\<close> of \<open>core/ross-random-internal.c\<close>, in doubles. The logarithm of 0 is infinite; the
  product with it is infinite, or not a number where \<open>Lambda\<close> is 0.
\<close>

definition tw_rand_exponential :: "phold_env \<Rightarrow> tw_rng_stream \<Rightarrow> real \<Rightarrow> ross_error + (real \<times> tw_rng_stream)" where
  "tw_rand_exponential ph g Lambda =
     (case rng_gen_val g of
        None \<Rightarrow> Inl Int_Overflow
      | Some (u, g') \<Rightarrow> if u = 0 then Inl Not_Finite else Inr (fl (- Lambda * c_log ph u), g'))"

definition phold_event_handler :: "phold_env \<Rightarrow> nat \<Rightarrow> phold_state \<Rightarrow> tw_bf \<Rightarrow> int
    \<Rightarrow> ross_error + (phold_state, tw_bf, int) outcome" where
  "phold_event_handler ph gid s bf m =
     (case rng_gen_val (rng s) of
        None \<Rightarrow> Inl Int_Overflow
      | Some (u, g) \<Rightarrow>
          ebind
            (if u \<le> percent_remote ph then
               (case tw_rand_integer g 0 (uint (ttl_lps ph - 1)) of
                  None \<Rightarrow> Inl Int_Overflow
                | Some (d, g) \<Rightarrow> Inr (set_bit 1 bf, nat d, g))
             else Inr (unset_bit 1 bf, gid, g))
            (\<lambda>(bf, dest, g).
               if dest \<ge> total_lps ph then Inl (Tw_Error ''bad dest'')
               else
                 ebind (tw_rand_exponential ph g (mean ph)) (\<lambda>(x, g).
                   Inr \<lparr>o_state = s\<lparr>rng := g\<rparr>, o_bf = bf, o_msg = m,
                     o_sends = [\<lparr>to_gid = dest, offset_ts = fl (x + ph_lookahead ph), prio = 1, content = m\<rparr>],
                     o_suspend = None\<rparr>)))"

text \<open>\<open>tw_rand_reverse_unif\<close>, and the reverse handler: two steps back, and a third for \<open>c1\<close>.\<close>

definition tw_rand_reverse_unif :: "phold_env \<Rightarrow> tw_rng_stream \<Rightarrow> ross_error + tw_rng_stream" where
  "tw_rand_reverse_unif ph g =
     (case rng_gen_reverse_val (lp_generator ph) g of
        Inl err \<Rightarrow> Inl err
      | Inr None \<Rightarrow> Inl Int_Overflow
      | Inr (Some (_, g')) \<Rightarrow> Inr g')"

definition phold_event_handler_rc :: "phold_env \<Rightarrow> phold_state \<Rightarrow> tw_bf \<Rightarrow> int
    \<Rightarrow> ross_error + (phold_state \<times> tw_bf \<times> int)" where
  "phold_event_handler_rc ph s bf m =
     ebind (tw_rand_reverse_unif ph (rng s)) (\<lambda>g.
     ebind (tw_rand_reverse_unif ph g) (\<lambda>g.
     ebind (if bit bf 1 then tw_rand_reverse_unif ph g else Inr g) (\<lambda>g.
       Inr (s\<lparr>rng := g\<rparr>, bf, m))))"

definition phold_map :: "phold_env \<Rightarrow> nat \<Rightarrow> nat" where
  "phold_map ph gid = gid div g_tw_nlp ph"

section \<open>The contract\<close>

definition phold_good :: "phold_state \<Rightarrow> bool" where
  "phold_good s \<longleftrightarrow> valid_stream (rng s)"

text \<open>The end of the simulation, \<open>g_tw_ts_end\<close>, is at its default.\<close>

definition ph_end :: real where
  "ph_end = 100000"

text \<open>
  What is asked of the options: there are LPs, no more are addressed than there are, the lookahead is a
  double that is large enough to tell times before the end of the simulation apart, and logarithms of
  numbers up to 1 are not positive.
\<close>

definition phold_env_ok :: "phold_env \<Rightarrow> bool" where
  "phold_env_ok ph \<longleftrightarrow> 0 < ttl_lps ph \<and> unat (ttl_lps ph) \<le> total_lps ph \<and> 0 \<le> mean ph \<and>
     fl (ph_lookahead ph) = ph_lookahead ph \<and> 0 < ph_lookahead ph \<and> ph_end \<le> 2 ^ 50 * ph_lookahead ph \<and>
     (\<forall>u. 0 < u \<and> u \<le> 1 \<longrightarrow> c_log ph u \<le> 0) \<and> (\<exists>sd v w. rng_init sd v w = Some (lp_generator ph))"

text \<open>One number has been drawn from \<open>g\<close>, which leaves \<open>g'\<close>.\<close>

definition drawn :: "phold_env \<Rightarrow> tw_rng_stream \<Rightarrow> tw_rng_stream \<Rightarrow> bool" where
  "drawn ph g g' \<longleftrightarrow> valid_stream g' \<and> tw_rand_reverse_unif ph g' = Inr g"

lemma draw_unif:
  assumes "phold_env_ok ph" "valid_stream g"
  shows "\<exists>u. rng_gen_val g = Some (u, core_fwd g) \<and> 0 \<le> u \<and> u \<le> 1 \<and> drawn ph g (core_fwd g)"
proof -
  obtain sd v w where r: "rng_init sd v w = Some (lp_generator ph)" using assms(1) by (auto simp: phold_env_ok_def)
  obtain u where "rng_gen_val g = Some (u, core_fwd g)" "0 \<le> u" "u \<le> 1"
    using rng_gen_val_unit[OF assms(2)] unfolding core_fwd_def by blast
  moreover obtain u' g' u'' where "rng_gen_val g = Some (u', g')" "valid_stream g'"
    "rng_gen_reverse_val (lp_generator ph) g' = Inr (Some (u'', g))"
    using rng_reverse_restores[OF r assms(2)] by blast
  ultimately show ?thesis by (simp add: drawn_def tw_rand_reverse_unif_def)
qed

lemma drawn_core: "phold_env_ok ph \<Longrightarrow> valid_stream g \<Longrightarrow> drawn ph g (core_fwd g)"
  using draw_unif by blast

lemma draw_integer:
  assumes "phold_env_ok ph" "valid_stream g" "0 \<le> high" "high < 2 ^ 32" "rng_gen_val g = Some (u, g')"
  shows "\<exists>k. tw_rand_integer g 0 high = Some (k, g') \<and> 0 \<le> k \<and> (if u = 1 then k = high + 1 else k \<le> high)"
proof -
  obtain sd v w where r: "rng_init sd v w = Some (lp_generator ph)" using assms(1) by (auto simp: phold_env_ok_def)
  obtain k g1 u1 where "tw_rand_integer g 0 high = Some (k, g1)" "rng_gen_val g = Some (u1, g1)" "0 \<le> k"
    "if u1 = 1 then k = high + 1 else k \<le> high"
    using rand_integer_bounds[OF r assms(2), of 0 high] assms(3,4) by (auto simp: LONG_MAX_def)
  then show ?thesis using assms(5) by simp
qed

lemma draw_exponential:
  assumes "phold_env_ok ph" "valid_stream g" "rng_gen_val g = Some (u, g')" "u \<noteq> 0"
  shows "\<exists>x. tw_rand_exponential ph g (mean ph) = Inr (x, g') \<and> 0 \<le> x"
proof -
  have "0 < u" "u \<le> 1" using draw_unif[OF assms(1,2)] assms(3,4) by auto
  then have "c_log ph u \<le> 0" "0 \<le> mean ph" using assms(1) by (simp_all add: phold_env_ok_def)
  then have "0 \<le> fl (- mean ph * c_log ph u)" by (intro fl_ge_0) (simp add: mult_nonneg_nonpos)
  then show ?thesis using assms(3,4) by (simp add: tw_rand_exponential_def)
qed

text \<open>Adding an offset that is not below the lookahead gives a later time, as far as the simulation goes.\<close>

lemma offset_grows:
  assumes "phold_env_ok ph" "ph_lookahead ph \<le> x" "0 \<le> t" "fl (t + x) < ph_end"
  shows "t < fl (t + x)"
proof -
  have la: "0 < ph_lookahead ph" "ph_end \<le> 2 ^ 50 * ph_lookahead ph" using assms(1) by (simp_all add: phold_env_ok_def)
  define y where "y = t + x"
  have y: "0 \<le> y" using assms(2,3) la by (simp add: y_def)
  have err: "\<bar>fl y - y\<bar> \<le> y / 2 ^ 53" by (rule fl_error[OF y])
  have "y / 2 ^ 53 \<le> y / 2" using y by (intro divide_left_mono) simp_all
  then have "y \<le> 2 * fl y" using err by linarith
  then have "y < 2 * ph_end" using assms(4) unfolding y_def[symmetric] by linarith
  then have "y < 2 ^ 51 * x" using la assms(2) by simp
  then have "y / 2 ^ 53 < x" using assms(2) la by (simp add: divide_less_eq)
  then show ?thesis using err unfolding y_def by linarith
qed

text \<open>How many numbers the handler draws.\<close>

definition draws :: "phold_env \<Rightarrow> phold_state \<Rightarrow> nat" where
  "draws ph s = (case rng_gen_val (rng s) of None \<Rightarrow> 0 | Some (u, g) \<Rightarrow> if u \<le> percent_remote ph then 3 else 2)"

text \<open>The draw of the number \<open>u\<close> in the \<open>n\<close>-th place, counted from 0.\<close>

definition draws_at :: "phold_state \<Rightarrow> nat \<Rightarrow> real \<Rightarrow> bool" where
  "draws_at s n u \<longleftrightarrow> (\<exists>g. rng_gen_val ((core_fwd ^^ n) (rng s)) = Some (u, g))"

definition bad_dest :: ross_error where
  "bad_dest = Tw_Error ''bad dest''"

lemma ttl_bound:
  assumes "phold_env_ok ph" "0 \<le> k" "if u = 1 then k = uint (ttl_lps ph - 1) + 1 else k \<le> uint (ttl_lps ph - 1)"
  shows "nat k \<ge> total_lps ph \<longleftrightarrow> u = 1 \<and> unat (ttl_lps ph) = total_lps ph"
proof -
  have t: "0 < ttl_lps ph" "unat (ttl_lps ph) \<le> total_lps ph" using assms(1) by (simp_all add: phold_env_ok_def)
  define N where "N = unat (ttl_lps ph)"
  have "unat (ttl_lps ph - 1) = unat (ttl_lps ph) - 1" using t(1) by (simp add: unat_minus_one word_neq_0_conv)
  moreover have "0 < N" using t(1) by (simp add: N_def word_less_nat_alt)
  ultimately have h: "uint (ttl_lps ph - 1) = int N - 1" unfolding uint_nat N_def[symmetric] by simp
  have k: "nat k \<ge> total_lps ph \<longleftrightarrow> int (total_lps ph) \<le> k" using assms(2) by (simp add: le_nat_iff)
  show ?thesis using t(2) assms(3) unfolding k h N_def[symmetric] by (auto split: if_splits)
qed

text \<open>The tail of the handler, from a destination that was found and the stream \<open>g\<close>.\<close>

lemma send_part:
  assumes e: "phold_env_ok ph" and v: "valid_stream g" and u: "rng_gen_val g = Some (u, g')"
  shows "ebind (tw_rand_exponential ph g (mean ph)) (\<lambda>(x, g). Inr (f (fl (x + ph_lookahead ph)) g)) = Inl Not_Finite \<and> u = 0 \<or>
    (\<exists>x. ebind (tw_rand_exponential ph g (mean ph)) (\<lambda>(x, g). Inr (f (fl (x + ph_lookahead ph)) g)) = Inr (f x g') \<and>
       ph_lookahead ph \<le> x \<and> u \<noteq> 0)"
proof (cases "u = 0")
  case True
  then show ?thesis using u by (simp add: tw_rand_exponential_def)
next
  case False
  obtain x where x: "tw_rand_exponential ph g (mean ph) = Inr (x, g')" "0 \<le> x" using draw_exponential[OF e v u False] by blast
  have "fl (ph_lookahead ph) = ph_lookahead ph" using e by (simp add: phold_env_ok_def)
  then have "ph_lookahead ph \<le> fl (x + ph_lookahead ph)" using fl_mono[of "ph_lookahead ph" "x + ph_lookahead ph"] x(2) by simp
  then show ?thesis using x(1) False by auto
qed

lemma phold_handler:
  assumes e: "phold_env_ok ph" and g: "phold_good s" and gid: "gid < total_lps ph"
  obtains u where "draws_at s 0 u" "draws ph s = (if u \<le> percent_remote ph then 3 else 2)"
    "(u \<le> percent_remote ph \<and> unat (ttl_lps ph) = total_lps ph \<and> draws_at s 1 1 \<and> phold_event_handler ph gid s bf m = Inl bad_dest) \<or>
     (\<not> (u \<le> percent_remote ph \<and> unat (ttl_lps ph) = total_lps ph \<and> draws_at s 1 1) \<and> draws_at s (draws ph s - 1) 0 \<and>
        phold_event_handler ph gid s bf m = Inl Not_Finite) \<or>
     (\<not> (u \<le> percent_remote ph \<and> unat (ttl_lps ph) = total_lps ph \<and> draws_at s 1 1) \<and> \<not> draws_at s (draws ph s - 1) 0 \<and>
      (\<exists>dest x. phold_event_handler ph gid s bf m = Inr \<lparr>o_state = s\<lparr>rng := (core_fwd ^^ draws ph s) (rng s)\<rparr>,
         o_bf = (if u \<le> percent_remote ph then set_bit 1 bf else unset_bit 1 bf), o_msg = m,
         o_sends = [\<lparr>to_gid = dest, offset_ts = x, prio = 1, content = m\<rparr>], o_suspend = None\<rparr> \<and>
       dest < total_lps ph \<and> (\<not> u \<le> percent_remote ph \<longrightarrow> dest = gid) \<and> ph_lookahead ph \<le> x))"
proof -
  let ?g = "rng s"
  have v: "valid_stream ?g" "valid_stream (core_fwd ?g)" "valid_stream (core_fwd (core_fwd ?g))"
    using g by (simp_all add: phold_good_def)
  obtain u where u: "rng_gen_val ?g = Some (u, core_fwd ?g)" using draw_unif[OF e v(1)] by blast
  obtain u1 where u1: "rng_gen_val (core_fwd ?g) = Some (u1, core_fwd (core_fwd ?g))" using draw_unif[OF e v(2)] by blast
  obtain u2 where u2: "rng_gen_val (core_fwd (core_fwd ?g)) = Some (u2, core_fwd (core_fwd (core_fwd ?g)))"
    using draw_unif[OF e v(3)] by blast
  have at: "draws_at s 0 w \<longleftrightarrow> w = u" "draws_at s 1 w \<longleftrightarrow> w = u1" "draws_at s 2 w \<longleftrightarrow> w = u2" for w
    using u u1 u2 by (auto simp: draws_at_def numeral_2_eq_2)
  have d: "draws ph s = (if u \<le> percent_remote ph then 3 else 2)" by (simp add: draws_def u)
  show thesis
  proof (rule that[of u])
    show "draws_at s 0 u" by (simp add: at)
    show "draws ph s = (if u \<le> percent_remote ph then 3 else 2)" by (rule d)
    show "(u \<le> percent_remote ph \<and> unat (ttl_lps ph) = total_lps ph \<and> draws_at s 1 1 \<and> phold_event_handler ph gid s bf m = Inl bad_dest) \<or>
     (\<not> (u \<le> percent_remote ph \<and> unat (ttl_lps ph) = total_lps ph \<and> draws_at s 1 1) \<and> draws_at s (draws ph s - 1) 0 \<and>
        phold_event_handler ph gid s bf m = Inl Not_Finite) \<or>
     (\<not> (u \<le> percent_remote ph \<and> unat (ttl_lps ph) = total_lps ph \<and> draws_at s 1 1) \<and> \<not> draws_at s (draws ph s - 1) 0 \<and>
      (\<exists>dest x. phold_event_handler ph gid s bf m = Inr \<lparr>o_state = s\<lparr>rng := (core_fwd ^^ draws ph s) (rng s)\<rparr>,
         o_bf = (if u \<le> percent_remote ph then set_bit 1 bf else unset_bit 1 bf), o_msg = m,
         o_sends = [\<lparr>to_gid = dest, offset_ts = x, prio = 1, content = m\<rparr>], o_suspend = None\<rparr> \<and>
       dest < total_lps ph \<and> (\<not> u \<le> percent_remote ph \<longrightarrow> dest = gid) \<and> ph_lookahead ph \<le> x))"
    proof (cases "u \<le> percent_remote ph")
      case True
      have h: "0 \<le> uint (ttl_lps ph - 1)" "uint (ttl_lps ph - 1) < 2 ^ 32"
        using uint_bounded[of "ttl_lps ph - 1"] by simp_all
      obtain k where k: "tw_rand_integer (core_fwd ?g) 0 (uint (ttl_lps ph - 1)) = Some (k, core_fwd (core_fwd ?g))" "0 \<le> k"
        "if u1 = 1 then k = uint (ttl_lps ph - 1) + 1 else k \<le> uint (ttl_lps ph - 1)"
        using draw_integer[OF e v(2) h u1] by blast
      note tb = ttl_bound[OF e k(2,3)]
      let ?f = "\<lambda>x g. \<lparr>o_state = s\<lparr>rng := g\<rparr>, o_bf = set_bit 1 bf, o_msg = m,
          o_sends = [\<lparr>to_gid = nat k, offset_ts = x, prio = 1, content = m\<rparr>], o_suspend = None\<rparr>"
      have run: "phold_event_handler ph gid s bf m = (if nat k \<ge> total_lps ph then Inl bad_dest
          else ebind (tw_rand_exponential ph (core_fwd (core_fwd ?g)) (mean ph)) (\<lambda>(x, g). Inr (?f (fl (x + ph_lookahead ph)) g)))"
        unfolding phold_event_handler_def using True u k(1) by (simp add: bad_dest_def)
      have "draws ph s - 1 = 2" "draws ph s = Suc (Suc (Suc 0))" using True d by simp_all
      then show ?thesis
        using True send_part[OF e v(3) u2, of ?f] tb unfolding run at \<open>draws ph s - 1 = 2\<close> by (auto simp: not_le)
    next
      case False
      let ?f = "\<lambda>x g. \<lparr>o_state = s\<lparr>rng := g\<rparr>, o_bf = unset_bit 1 bf, o_msg = m,
          o_sends = [\<lparr>to_gid = gid, offset_ts = x, prio = 1, content = m\<rparr>], o_suspend = None\<rparr>"
      have run: "phold_event_handler ph gid s bf m =
          ebind (tw_rand_exponential ph (core_fwd ?g) (mean ph)) (\<lambda>(x, g). Inr (?f (fl (x + ph_lookahead ph)) g))"
        unfolding phold_event_handler_def using False u gid by simp
      have "draws ph s - 1 = 1" "draws ph s = Suc (Suc 0)" using False d by simp_all
      then show ?thesis
        using False send_part[OF e v(2) u1, of ?f] gid unfolding run at \<open>draws ph s - 1 = 1\<close> by auto
    qed
  qed
qed

lemma core_fwd_back:
  assumes v: "valid_stream g"
  shows "core_fwd (core_back g) = g"
proof -
  have "map (\<lambda>j. a_of j * Cg (core_back g) ! j mod m_of j) [0..<4] = map (\<lambda>j. Cg g ! j) [0..<4]"
  proof (intro map_cong refl)
    fix j :: nat assume j: "j \<in> set [0..<4]"
    have "a_of j * (b_of j * Cg g ! j mod m_of j) mod m_of j
        = (a_of j * b_of j mod m_of j) * Cg g ! j mod m_of j"
      by (simp add: mod_mult_right_eq mod_mult_left_eq ac_simps)
    then show "a_of j * Cg (core_back g) ! j mod m_of j = Cg g ! j"
      using j good_consts(4)[OF j] valid_streamD[OF v j] by (simp add: core_back_def mod_pos_pos_trivial)
  qed
  also have "\<dots> = Cg g" using v by (simp add: valid_stream_def wf_seed_map)
  finally show ?thesis by (simp add: core_back_def core_fwd_def)
qed

text \<open>
  A state of the stream in which the second number that is drawn is exactly 1: its components are 1, 1, 7
  and 7 at the second draw.
\<close>

definition to_one :: tw_rng_stream where
  "to_one = core_back (core_back \<lparr>st_count = 2, Ig = [1, 2, 3, 4], Lg = [1, 2, 3, 4], Cg = [1, 1, 7, 7]\<rparr>)"

lemma to_one: "phold_good \<lparr>dummy_state = 0, rng = to_one\<rparr>" "draws_at \<lparr>dummy_state = 0, rng = to_one\<rparr> 1 1"
proof -
  let ?g = "\<lparr>st_count = 2, Ig = [1, 2, 3, 4], Lg = [1, 2, 3, 4], Cg = [1, 1, 7, 7]\<rparr>"
  have v: "valid_stream ?g" by (simp add: valid_stream_def wf_seed4)
  then show "phold_good \<lparr>dummy_state = 0, rng = to_one\<rparr>" by (simp add: phold_good_def to_one_def)
  have f: "core_fwd to_one = core_back ?g" "core_fwd (core_back ?g) = ?g" using v by (simp_all add: to_one_def core_fwd_back)
  obtain u where u: "rng_gen_val (core_back ?g) = Some (u, core_fwd (core_back ?g))"
    "u = rng_combine (Cg ?g ! 0) (Cg ?g ! 1) (Cg ?g ! 2) (Cg ?g ! 3)"
  proof -
    have c: "a_of j * Cg (core_back ?g) ! j mod m_of j = Cg ?g ! j" if "j < 4" for j
      using arg_cong[OF f(2), of "\<lambda>g. Cg g ! j"] that by (simp add: core_fwd_def)
    show thesis
      by (rule rng_gen_val_unit[of "core_back ?g"]) (use v that c[of 0] c[of 1] c[of 2] c[of 3] in \<open>simp_all add: core_fwd_def\<close>)
  qed
  have "u = 1" unfolding u(2) by (simp add: rng_combine_one)
  then show "draws_at \<lparr>dummy_state = 0, rng = to_one\<rparr> 1 1" using u(1) f by (auto simp: draws_at_def)
qed

text \<open>The reverse handler goes back as many steps as the handler went forward.\<close>

lemma back_step:
  assumes "phold_env_ok ph" "valid_stream g"
  shows "tw_rand_reverse_unif ph (core_fwd g) = Inr g"
  using drawn_core[OF assms] by (simp add: drawn_def)

lemma phold_reverse:
  assumes e: "phold_env_ok ph" and g: "valid_stream g"
  shows "phold_event_handler_rc ph (s\<lparr>rng := (core_fwd ^^ (if bit bf 1 then 3 else 2)) g\<rparr>) bf m = Inr (s\<lparr>rng := g\<rparr>, bf, m)"
  using back_step[OF e] g by (simp add: phold_event_handler_rc_def numeral_2_eq_2 numeral_3_eq_3)

text \<open>
  C28: what PHOLD promises, and where it ends. The lookahead is any double from $2^{-50}$ times the end
  of the simulation on. For every LP and every state of its random stream, an event has
  one of three outcomes, as the draws decide. The handler calls \<open>tw_error\<close> exactly when an event for
  another LP is due, the draw of its destination is exactly 1 and all LPs are addressed: the draw then
  gives the number behind the last LP. Else, where the draw for the offset is exactly 0, the logarithm
  is infinite. In all other cases the handler sends one event, to an LP there is, with an offset of at
  least the lookahead, so that its time is later, rounded as it is, if it is before the end of the
  simulation; and the reverse handler gives back the state, the message and the random stream the
  handler was given. The first outcome does occur: if all events go to LPs drawn at random and all LPs
  are addressed, there is a state of the stream from which the handler calls \<open>tw_error\<close>.
\<close>

theorem phold_meets_contract:
  assumes e: "phold_env_ok ph" and gid: "gid < total_lps ph"
  shows "(\<forall>s bf m. phold_good s \<longrightarrow>
      (case phold_event_handler ph gid s bf m of
         Inl err \<Rightarrow>
           if draws ph s = 3 \<and> unat (ttl_lps ph) = total_lps ph \<and> draws_at s 1 1 then err = Tw_Error ''bad dest''
           else err = Not_Finite \<and> draws_at s (draws ph s - 1) 0
       | Inr out \<Rightarrow>
           \<not> (draws ph s = 3 \<and> unat (ttl_lps ph) = total_lps ph \<and> draws_at s 1 1) \<and> \<not> draws_at s (draws ph s - 1) 0 \<and>
           phold_good (o_state out) \<and> o_suspend out = None \<and>
           (\<exists>dest x. o_sends out = [\<lparr>to_gid = dest, offset_ts = x, prio = 1, content = m\<rparr>] \<and> dest < total_lps ph \<and>
              ph_lookahead ph \<le> x \<and> (\<forall>t. 0 \<le> t \<longrightarrow> fl (t + x) < ph_end \<longrightarrow> t < fl (t + x))) \<and>
           (\<exists>bf'. phold_event_handler_rc ph (o_state out) (o_bf out) (o_msg out) = Inr (s, bf', m)))) \<and>
    (1 \<le> percent_remote ph \<and> unat (ttl_lps ph) = total_lps ph \<longrightarrow>
      (\<exists>s. phold_good s \<and> (\<forall>bf m. phold_event_handler ph gid s bf m = Inl (Tw_Error ''bad dest''))))"
proof (intro conjI allI impI)
  fix s bf m assume g: "phold_good s"
  then have v: "valid_stream (rng s)" by (simp add: phold_good_def)
  note r = phold_reverse[OF e v]
  have grow: "\<forall>t. 0 \<le> t \<longrightarrow> fl (t + x) < ph_end \<longrightarrow> t < fl (t + x)" if "ph_lookahead ph \<le> x" for x
    using offset_grows[OF e that] by blast
  show "case phold_event_handler ph gid s bf m of
         Inl err \<Rightarrow>
           if draws ph s = 3 \<and> unat (ttl_lps ph) = total_lps ph \<and> draws_at s 1 1 then err = Tw_Error ''bad dest''
           else err = Not_Finite \<and> draws_at s (draws ph s - 1) 0
       | Inr out \<Rightarrow>
           \<not> (draws ph s = 3 \<and> unat (ttl_lps ph) = total_lps ph \<and> draws_at s 1 1) \<and> \<not> draws_at s (draws ph s - 1) 0 \<and>
           phold_good (o_state out) \<and> o_suspend out = None \<and>
           (\<exists>dest x. o_sends out = [\<lparr>to_gid = dest, offset_ts = x, prio = 1, content = m\<rparr>] \<and> dest < total_lps ph \<and>
              ph_lookahead ph \<le> x \<and> (\<forall>t. 0 \<le> t \<longrightarrow> fl (t + x) < ph_end \<longrightarrow> t < fl (t + x))) \<and>
           (\<exists>bf'. phold_event_handler_rc ph (o_state out) (o_bf out) (o_msg out) = Inr (s, bf', m))"
  proof (rule phold_handler[OF e g gid, of bf m])
    fix u assume d: "draws ph s = (if u \<le> percent_remote ph then 3 else 2)"
      and c: "(u \<le> percent_remote ph \<and> unat (ttl_lps ph) = total_lps ph \<and> draws_at s 1 1 \<and>
        phold_event_handler ph gid s bf m = Inl bad_dest) \<or>
     (\<not> (u \<le> percent_remote ph \<and> unat (ttl_lps ph) = total_lps ph \<and> draws_at s 1 1) \<and> draws_at s (draws ph s - 1) 0 \<and>
        phold_event_handler ph gid s bf m = Inl Not_Finite) \<or>
     (\<not> (u \<le> percent_remote ph \<and> unat (ttl_lps ph) = total_lps ph \<and> draws_at s 1 1) \<and> \<not> draws_at s (draws ph s - 1) 0 \<and>
      (\<exists>dest x. phold_event_handler ph gid s bf m = Inr \<lparr>o_state = s\<lparr>rng := (core_fwd ^^ draws ph s) (rng s)\<rparr>,
         o_bf = (if u \<le> percent_remote ph then set_bit 1 bf else unset_bit 1 bf), o_msg = m,
         o_sends = [\<lparr>to_gid = dest, offset_ts = x, prio = 1, content = m\<rparr>], o_suspend = None\<rparr> \<and>
       dest < total_lps ph \<and> (\<not> u \<le> percent_remote ph \<longrightarrow> dest = gid) \<and> ph_lookahead ph \<le> x))"
    have d3: "draws ph s = 3 \<longleftrightarrow> u \<le> percent_remote ph" by (simp add: d)
    from c show ?thesis
    proof (elim disjE conjE exE)
      fix dest x assume h: "phold_event_handler ph gid s bf m = Inr \<lparr>o_state = s\<lparr>rng := (core_fwd ^^ draws ph s) (rng s)\<rparr>,
         o_bf = (if u \<le> percent_remote ph then set_bit 1 bf else unset_bit 1 bf), o_msg = m,
         o_sends = [\<lparr>to_gid = dest, offset_ts = x, prio = 1, content = m\<rparr>], o_suspend = None\<rparr>"
        "dest < total_lps ph" "ph_lookahead ph \<le> x"
        and n: "\<not> (u \<le> percent_remote ph \<and> unat (ttl_lps ph) = total_lps ph \<and> draws_at s 1 1)" "\<not> draws_at s (draws ph s - 1) 0"
      have b: "(if bit (if u \<le> percent_remote ph then set_bit 1 bf else unset_bit 1 bf) 1 then 3 else 2) = draws ph s"
        by (simp add: d bit_set_bit_iff bit_unset_bit_iff)
      note r' = r[where s = s and bf = "if u \<le> percent_remote ph then set_bit 1 bf else unset_bit 1 bf" and m = m, unfolded b]
      show ?thesis unfolding h(1) d3 sum.case using n h(2,3) grow[OF h(3)] v r' by (simp add: phold_good_def)
    qed (simp_all add: d3 bad_dest_def)
  qed
next
  assume all: "1 \<le> percent_remote ph \<and> unat (ttl_lps ph) = total_lps ph"
  let ?s = "\<lparr>dummy_state = 0, rng = to_one\<rparr>"
  have "phold_event_handler ph gid ?s bf m = Inl (Tw_Error ''bad dest'')" for bf m
  proof (rule phold_handler[OF e to_one(1) gid, of bf m])
    fix u assume u: "draws_at ?s 0 u"
    have "valid_stream to_one" using to_one(1) by (simp add: phold_good_def)
    then have "u \<le> 1" using draw_unif[OF e, of to_one] u by (auto simp: draws_at_def)
    then show ?thesis
      if "(u \<le> percent_remote ph \<and> unat (ttl_lps ph) = total_lps ph \<and> draws_at ?s 1 1 \<and> phold_event_handler ph gid ?s bf m = Inl bad_dest) \<or>
        \<not> (u \<le> percent_remote ph \<and> unat (ttl_lps ph) = total_lps ph \<and> draws_at ?s 1 1) \<and> P \<or>
        \<not> (u \<le> percent_remote ph \<and> unat (ttl_lps ph) = total_lps ph \<and> draws_at ?s 1 1) \<and> Q" for P Q
      using that all to_one(2) by (auto simp: bad_dest_def)
  qed
  then show "\<exists>s. phold_good s \<and> (\<forall>bf m. phold_event_handler ph gid s bf m = Inl (Tw_Error ''bad dest''))"
    using to_one(1) by blast
qed

section \<open>A run of the model\<close>

text \<open>
  The handlers as the scheduler's model takes them. There they are total: an event at which PHOLD ends
  the program, or an infinite logarithm, is given an outcome that sends nothing and moves the
  stream by the two steps the reverse handler goes back.
\<close>

definition phold_event :: "phold_env \<Rightarrow> nat \<Rightarrow> phold_state \<Rightarrow> tw_bf \<Rightarrow> int \<Rightarrow> (phold_state, tw_bf, int) outcome" where
  "phold_event ph gid s bf m =
     (case phold_event_handler ph gid s bf m of
        Inr out \<Rightarrow> out
      | Inl _ \<Rightarrow> \<lparr>o_state = s\<lparr>rng := core_fwd (core_fwd (rng s))\<rparr>, o_bf = unset_bit 1 bf, o_msg = m, o_sends = [], o_suspend = None\<rparr>)"

definition phold_revent :: "phold_env \<Rightarrow> phold_state \<Rightarrow> tw_bf \<Rightarrow> int \<Rightarrow> phold_state \<times> tw_bf \<times> int" where
  "phold_revent ph s bf m = (case phold_event_handler_rc ph s bf m of Inr r \<Rightarrow> r | Inl _ \<Rightarrow> (s, bf, m))"

lemma phold_event_cases:
  assumes e: "phold_env_ok ph" and g: "phold_good s" and gid: "gid < total_lps ph"
  obtains out where "phold_event ph gid s bf m = out" "o_msg out = m" "o_suspend out = None" "phold_good (o_state out)"
    "phold_event_handler_rc ph (o_state out) (o_bf out) m = Inr (s, o_bf out, m)"
    "percent_remote ph < 0 \<Longrightarrow> o_sends out = [] \<or>
      (\<exists>x. o_sends out = [\<lparr>to_gid = gid, offset_ts = x, prio = 1, content = m\<rparr>] \<and> ph_lookahead ph \<le> x)"
proof -
  note fin = that
  have v: "valid_stream (rng s)" using g by (simp add: phold_good_def)
  obtain u where u: "draws_at s 0 u" "draws ph s = (if u \<le> percent_remote ph then 3 else 2)"
    "phold_event_handler ph gid s bf m = Inl bad_dest \<or> phold_event_handler ph gid s bf m = Inl Not_Finite \<or>
      (\<exists>dest x. phold_event_handler ph gid s bf m = Inr \<lparr>o_state = s\<lparr>rng := (core_fwd ^^ draws ph s) (rng s)\<rparr>,
         o_bf = (if u \<le> percent_remote ph then set_bit 1 bf else unset_bit 1 bf), o_msg = m,
         o_sends = [\<lparr>to_gid = dest, offset_ts = x, prio = 1, content = m\<rparr>], o_suspend = None\<rparr> \<and>
       dest < total_lps ph \<and> (\<not> u \<le> percent_remote ph \<longrightarrow> dest = gid) \<and> ph_lookahead ph \<le> x)"
    by (rule phold_handler[OF e g gid, of bf m]) blast
  have u0: "0 \<le> u" using draw_unif[OF e v] u(1) by (auto simp: draws_at_def)
  note r = phold_reverse[OF e v, where s = s and m = m]
  from u(3) show thesis
  proof (elim disjE exE conjE)
    fix dest x
    let ?bf = "if u \<le> percent_remote ph then set_bit 1 bf else unset_bit 1 bf"
    let ?out = "\<lparr>o_state = s\<lparr>rng := (core_fwd ^^ draws ph s) (rng s)\<rparr>, o_bf = ?bf, o_msg = m,
         o_sends = [\<lparr>to_gid = dest, offset_ts = x, prio = 1, content = m\<rparr>], o_suspend = None\<rparr>"
    assume h: "phold_event_handler ph gid s bf m = Inr ?out" "\<not> u \<le> percent_remote ph \<longrightarrow> dest = gid" "ph_lookahead ph \<le> x"
    have b: "(if bit ?bf 1 then 3 else 2) = draws ph s" by (simp add: u(2) bit_set_bit_iff bit_unset_bit_iff)
    show thesis
      by (rule that[of ?out]) (use h u0 v r[where bf = ?bf, unfolded b] in \<open>simp_all add: phold_event_def phold_good_def\<close>)
  next
    let ?out = "\<lparr>o_state = s\<lparr>rng := core_fwd (core_fwd (rng s))\<rparr>, o_bf = unset_bit 1 bf, o_msg = m, o_sends = [], o_suspend = None\<rparr>"
    have r2: "phold_event_handler_rc ph (s\<lparr>rng := core_fwd (core_fwd (rng s))\<rparr>) (unset_bit 1 bf) m = Inr (s, unset_bit 1 bf, m)"
      using r[where bf = "unset_bit 1 bf"] by (simp add: bit_unset_bit_iff numeral_2_eq_2)
    show thesis if "phold_event_handler ph gid s bf m = Inl bad_dest"
      by (rule fin[of ?out])
        (use that r2 v in \<open>simp_all add: phold_event_def phold_good_def\<close>)
    show thesis if "phold_event_handler ph gid s bf m = Inl Not_Finite"
      by (rule fin[of ?out])
        (use that r2 v in \<open>simp_all add: phold_event_def phold_good_def\<close>)
  qed
qed

lemma phold_reversible:
  assumes "phold_env_ok ph" "gid < total_lps ph"
  shows "reversible_handlers phold_good (phold_event ph gid) (phold_revent ph) bf"
proof
  fix s m assume g: "phold_good s"
  obtain out where h: "phold_event ph gid s bf m = out" "o_msg out = m" "o_suspend out = None" "phold_good (o_state out)"
    "phold_event_handler_rc ph (o_state out) (o_bf out) m = Inr (s, o_bf out, m)"
    using phold_event_cases[OF assms(1) g assms(2), of bf m] by blast
  show "let out = phold_event ph gid s bf m in \<exists>bf'. phold_revent ph (o_state out) (o_bf out) (o_msg out) = (s, bf', m)"
    by (simp add: phold_revent_def h)
  show "phold_good (o_state (phold_event ph gid s bf m))" by (simp add: h)
  show "o_suspend (phold_event ph gid s bf m) = None" by (simp add: h)
qed

text \<open>
  The configuration of the first node of an optimistic run on several: the LPs are dealt to the KPs in
  blocks (\<open>map_linear\<close> in \<open>core/tw-setup.c\<close>), and the ids of its LPs are their indices. Times are added and
  subtracted in doubles. The tables have no entries beyond the LPs there are, which the model fills with
  the first.
\<close>

definition phold_table :: "phold_env \<Rightarrow> nat \<Rightarrow> nat" where
  "phold_table ph i = (if i < g_tw_nlp ph then i else 0)"

definition phold_config :: "phold_env \<Rightarrow> nat \<Rightarrow> addr \<Rightarrow> (phold_state, tw_bf, int) config" where
  "phold_config ph npk ab =
     \<lparr>protocol = OPTIMISTIC, mynode = 0, nkp = 16, ts_end = ph_end, lookahead = ph_lookahead ph, mblock = 16,
      gvt_threshold = 1000, gvt_interval = 16, has_hook = False, ts_add = (\<lambda>x y. fl (x + y)), ts_sub = (\<lambda>x y. fl (x - y)),
      the_rng = lp_generator ph, abort_event = ab, gid_of = phold_table ph, kp_of = (\<lambda>i. i div npk),
      local_lp = phold_table ph, map_pe = phold_map ph, bf0 = 0, event_h = (\<lambda>lp _. phold_event ph (phold_table ph lp)),
      revent_h = (\<lambda>_ _. phold_revent ph), has_revent = (\<lambda>_. True), commit_h = Some (\<lambda>_ s _ _. s)\<rparr>"

lemma phold_config_sel [simp]:
  "protocol (phold_config ph n ab) = OPTIMISTIC" "mynode (phold_config ph n ab) = 0"
  "ts_add (phold_config ph n ab) = (\<lambda>x y. fl (x + y))" "ts_end (phold_config ph n ab) = ph_end"
  "abort_event (phold_config ph n ab) = ab" "map_pe (phold_config ph n ab) = phold_map ph" "bf0 (phold_config ph n ab) = 0"
  "event_h (phold_config ph n ab) lp s = phold_event ph (phold_table ph lp)" "revent_h (phold_config ph n ab) lp s = phold_revent ph"
  "the_rng (phold_config ph n ab) = lp_generator ph" "kp_of (phold_config ph n ab) i = i div n" "has_revent (phold_config ph n ab) i"
  by (simp_all add: phold_config_def)

text \<open>With no remote events, a run of PHOLD meets the contract of the theories on a single PE.\<close>

lemma phold_contract:
  assumes e: "phold_env_ok ph" and n: "0 < g_tw_nlp ph" "g_tw_nlp ph \<le> total_lps ph" and far: "percent_remote ph < 0" and t0: "0 \<le> t0"
  shows "model_ok (phold_config ph npk ab) phold_good 1 t0"
proof -
  have t: "phold_table ph lp < total_lps ph" "phold_map ph (phold_table ph lp) = 0" for lp
    using n by (simp_all add: phold_table_def phold_map_def)
  have h: "handlers_ok phold_good (phold_config ph npk ab) lp" for lp
    using phold_reversible[OF e t(1)] by (simp add: handlers_ok_def)
  have "sends_ok (phold_config ph npk ab) 1 ev st" if g: "phold_good st" and late: "t0 \<le> recv_ts (qsig ev)"
    for ev :: "(32 word, int) pevent" and st
  proof -
    obtain out where o: "phold_event ph (phold_table ph (dest_lp ev)) st 0 (msg ev) = out"
      "o_sends out = [] \<or> (\<exists>x. o_sends out = [\<lparr>to_gid = phold_table ph (dest_lp ev), offset_ts = x, prio = 1, content = msg ev\<rparr>] \<and>
        ph_lookahead ph \<le> x)"
      using phold_event_cases[OF e g t(1), of "dest_lp ev" 0 "msg ev"] far by blast
    have la: "0 < ph_lookahead ph" using e by (simp add: phold_env_ok_def)
    have "recv_ts (qsig ev) < fl (recv_ts (qsig ev) + x)" if "ph_lookahead ph \<le> x" "fl (recv_ts (qsig ev) + x) < ph_end" for x
      using offset_grows[OF e that(1) _ that(2)] late t0 by simp
    then show ?thesis using o la by (auto simp: sends_ok_def send_ok_def t(2))
  qed
  then show ?thesis using h by (simp add: model_ok_def)
qed

text \<open>
  The defaults of \<open>phold.h\<close> on two nodes, after \<open>main\<close> has taken the lookahead from the mean, and the
  same without remote events.
\<close>

definition phold_default :: phold_env where
  "phold_default = \<lparr>ttl_lps = 16, percent_remote = 1 / 4, mean = 0, ph_lookahead = 1, g_tw_nlp = 8, total_lps = 16,
     c_log = ln, lp_generator = the (rng_init None 31 41)\<rparr>"

definition phold_local :: phold_env where
  "phold_local = phold_default\<lparr>percent_remote := - 1\<rparr>"

lemma phold_default_ok: "phold_env_ok phold_default" "phold_env_ok phold_local"
proof -
  have "ln u \<le> 0" if "0 < u" "u \<le> 1" for u :: real using that by (simp add: ln_le_zero_iff)
  moreover have "rng_init None 31 41 = Some (lp_generator phold_default)"
    by (simp add: phold_default_def rng_init_value)
  ultimately show "phold_env_ok phold_default"
    unfolding phold_env_ok_def by (intro conjI exI allI impI) (auto simp: phold_default_def ph_end_def)
  then show "phold_env_ok phold_local" by (simp add: phold_env_ok_def phold_local_def)
qed

interpretation phold: reversible_handlers phold_good "phold_event phold_default (phold_table phold_default lp)"
    "phold_revent phold_default" bf for lp bf
  by (rule phold_reversible[OF phold_default_ok(1)]) (simp add: phold_table_def phold_default_def)

theorem phold_meets_contract_witness:
  "(\<exists>s. phold_good s \<and> (\<forall>bf m. phold_event_handler (phold_default\<lparr>percent_remote := 1\<rparr>) 3 s bf m = Inl (Tw_Error ''bad dest'')))"
proof -
  have "phold_env_ok (phold_default\<lparr>percent_remote := 1\<rparr>)" using phold_default_ok(1) by (simp add: phold_env_ok_def)
  from phold_meets_contract[OF this, of 3] show ?thesis by (simp add: phold_default_def)
qed

end
