(* ===== verification/Tw_Example.thy ===== *)
theory Tw_Example
  imports Phold
begin

text \<open>
  A state of a PE that runs the PHOLD model: two processed events of LP 0 at times 2 and 4, an
  arrival at time 3, which is a straggler, a pending event at time 5 and a free buffer. The
  second processed event can be cancelled as well. The properties of the protocol are applied to
  this state.
\<close>

definition ex_stream :: tw_rng_stream where
  "ex_stream = \<lparr>st_count = 0, Ig = [1, 2, 3, 4], Lg = [1, 2, 3, 4], Cg = [1, 2, 3, 4]\<rparr>"

definition ex_sig :: "real \<Rightarrow> tw_event_sig" where
  "ex_sig t = \<lparr>recv_ts = t, priority = 1, tie_lineage_length = 1, event_tiebreaker = replicate MAX_TIE_CHAIN 0\<rparr>"

definition ex_event :: "nat \<Rightarrow> tw_event_owner \<Rightarrow> bool \<Rightarrow> real \<Rightarrow> (tw_bf, int) pevent" where
  "ex_event i w cn t = \<lparr>nextp = None, prevp = None, qowner = w, qsig = ex_sig t, caused_by_me = [],
     event_id = of_nat i, aborted_total = 0, st_cancel_q = cn, st_cancel_asend = False, st_remote = False,
     critical_path = 0, dest_lp = 0, src_lp = 0, ev_recv_ts = t, send_pe = 0, send_lp = 0, dest_lpid = 0,
     send_ts = 0, out_msgs = [], cv = 0, msg = 0\<rparr>"

definition ex_heap :: "bool \<Rightarrow> addr \<Rightarrow> (tw_bf, int) pevent" where
  "ex_heap cn a = (if a = 0 then ex_event 1 TW_kp_pevent_q False 2
     else if a = 1 then ex_event 2 TW_kp_pevent_q cn 4
     else if a = 2 then ex_event 3 TW_pe_event_q False 3
     else if a = 3 then ex_event 4 TW_pe_pq False 5
     else ex_event 0 TW_pe_free_q False 0)"

definition ex_lp :: "phold_state tw_lp" where
  "ex_lp = \<lparr>cur_state = \<lparr>dummy_state = 0, rng = ex_stream\<rparr>, core_rng = ex_stream, lp_critical_path = 0,
     suspend_flag = False, suspend_event = None, suspend_sig = ex_sig 0, suspend_error_number = 0,
     suspend_do_orig_event_rc = 0\<rparr>"

definition ex_pe :: "bool \<Rightarrow> (phold_state, tw_bf, int) tw_pe" where
  "ex_pe cn = \<lparr>heap = ex_heap cn, lps = (\<lambda>_. ex_lp),
     kps = (\<lambda>k. \<lparr>pevent_q = if k = 0 then [1, 0] else [],
       last_sig = if k = 0 then ex_sig 4 else ex_sig 0,
       s_nevent_processed = 0, s_e_rbs = 0, s_rb_total = 0, s_rb_secondary = 0\<rparr>),
     event_q = [2], cancel_q = (if cn then [1] else []),
     pq = \<lparr>root = Node Leaf 3 Leaf, least = Some 3, nitems = 1, max_size = 1\<rparr>, free_q = [4],
     cur_event = 1, cev_abort = False, gvt_status = False, trans_msg_sig = ex_sig 0, GVT_sig = ex_sig 0,
     GVT_prev_sig = ex_sig 0, seq_num = 4, min_detected_offset = 1, no_free_event_buffers = 0, gvt_cnt = 0,
     gvt_force = 0, hook_trigger = \<lparr>hook_status = GVT_HOOK_STATUS_disabled, sig_at = ex_sig 0, starting_at = 0, nums = 0\<rparr>,
     printed = []\<rparr>"

definition ex_config :: "(phold_state, tw_bf, int) config" where
  "ex_config = phold_config phold_local 1 99"

definition ex_net :: "(phold_state, tw_bf, int) tw_pe net_ops" where
  "ex_net = \<lparr>net_send = (\<lambda>_ pe. Inr pe), net_cancel = (\<lambda>_ pe. Inr pe)\<rparr>"

abbreviation ex_U :: "addr set" where
  "ex_U \<equiv> {0, 1, 2, 3, 4}"

lemma ex_sig_facts [simp]:
  "wf_sig (ex_sig t)" "recv_ts (ex_sig t) = t" "sig_key (ex_sig s) \<le> sig_key (ex_sig t) \<longleftrightarrow> s \<le> t"
  "sig_key (ex_sig s) = sig_key (ex_sig t) \<longleftrightarrow> s = t" "sig_key (ex_sig s) < sig_key (ex_sig t) \<longleftrightarrow> s < t"
  by (auto simp: ex_sig_def wf_sig_def MAX_TIE_CHAIN_def sig_key_def less_eq_prod_def less_prod_def)

lemma ex_event_sel [simp]:
  "qowner (ex_event i w cn t) = w" "qsig (ex_event i w cn t) = ex_sig t" "caused_by_me (ex_event i w cn t) = []"
  "aborted_total (ex_event i w cn t) = 0" "st_cancel_q (ex_event i w cn t) = cn" "dest_lp (ex_event i w cn t) = 0"
  "ev_recv_ts (ex_event i w cn t) = t" "event_id (ex_event i w cn t) = of_nat i" "cv (ex_event i w cn t) = 0"
  "send_pe (ex_event i w cn t) = 0"
  by (simp_all add: ex_event_def)

lemma ex_pe_sel [simp]:
  "heap (ex_pe cn) = ex_heap cn" "lps (ex_pe cn) i = ex_lp" "event_q (ex_pe cn) = [2]"
  "cancel_q (ex_pe cn) = (if cn then [1] else [])" "free_q (ex_pe cn) = [4]"
  "pq (ex_pe cn) = \<lparr>root = Node Leaf 3 Leaf, least = Some 3, nitems = 1, max_size = 1\<rparr>"
  "GVT_sig (ex_pe cn) = ex_sig 0" "\<not> cev_abort (ex_pe cn)" "cur_event (ex_pe cn) = 1"
  "pevent_q (kps (ex_pe cn) k) = (if k = 0 then [1, 0] else [])"
  "last_sig (kps (ex_pe cn) k) = (if k = 0 then ex_sig 4 else ex_sig 0)" "seq_num (ex_pe cn) = 4"
  by (simp_all add: ex_pe_def)

lemma ex_valid: "valid_stream ex_stream"
  by (simp add: ex_stream_def valid_stream_def wf_seed4)

lemma ex_good_rng: "good_rng (the_rng ex_config)"
  using rng_init_good[of None 31 41] by (simp add: ex_config_def phold_local_def phold_default_def rng_init_value)

lemma ex_kp [simp]: "kp_of ex_config i = i" "abort_event ex_config = 99" "mynode ex_config = 0"
  by (simp_all add: ex_config_def)

lemma ex_owned:
  "owned ex_config ex_U (ex_heap cn) [4] [2] \<lparr>root = Node Leaf 3 Leaf, least = Some 3, nitems = 1, max_size = 1\<rparr>
     (\<lambda>k. if k = 0 then [1, 0] else [])"
proof -
  let ?hp = "ex_heap cn"
  have "inj_on (key_at ?hp) {a \<in> ex_U. live_owner (qowner (?hp a))}"
    by (rule inj_onI) (auto simp: key_at_def rand_key_def ex_heap_def split: if_splits)
  moreover have "pq_inv (key_at ?hp) (wf_at ?hp) \<lparr>root = Node Leaf 3 Leaf, least = Some 3, nitems = 1, max_size = 1\<rparr>"
    by (simp add: pq_inv_def contents_def wf_at_def ex_heap_def)
  moreover have "wf_sig (qsig (?hp a))" for a by (simp add: ex_heap_def)
  moreover have "set (if k = 0 then [1, 0] else []) = {a \<in> ex_U. qowner (?hp a) = TW_kp_pevent_q \<and> kp_of ex_config (dest_lp (?hp a)) = k}" for k :: nat
    by (auto simp: ex_heap_def)
  ultimately show ?thesis
    by (auto simp: owned_def ex_heap_def contents_def split: if_splits)
qed

lemma ex_ok: "pe_ok ex_config ex_U [2] [] (ex_pe cn)"
proof (rule pe_okI[OF ex_good_rng])
  show "good_streams (ex_pe cn)" by (simp add: good_streams_def ex_lp_def ex_valid)
  show "owned ex_config ex_U (heap (ex_pe cn)) (free_q (ex_pe cn)) [2]
      (pq (ex_pe cn)) (pevents (ex_pe cn))"
    using ex_owned by simp
  show "kids ex_U (heap (ex_pe cn)) (processed ex_U (heap (ex_pe cn)))"
    by (auto simp: kids_def ex_heap_def split: if_splits)
  show "cancel_ok ex_U (heap (ex_pe cn)) ([] @ cancel_q (ex_pe cn))"
    by (auto simp: cancel_ok_def ex_heap_def in_use_def live_owner_def split: if_splits)
qed (auto simp: ex_heap_def idle_def)

lemma ex_causal: "causal ex_config ex_U (ex_pe cn)"
  by (auto simp: causal_def ex_heap_def live_owner_def)

text \<open>The LPs as they were before the two processed events.\<close>

definition ex_L0 :: "nat \<Rightarrow> phold_state tw_lp" where
  "ex_L0 = undo ex_config (ex_heap False) [1, 0] (\<lambda>_. ex_lp)"

lemma ex_undo_step:
  assumes "lp_good phold_good (L 0)" "a < 2"
  shows "lp_good phold_good (undo_step ex_config (ex_heap cn) a L 0)"
    "i \<noteq> 0 \<Longrightarrow> undo_step ex_config (ex_heap cn) a L i = L i"
proof -
  have a: "a = 0 \<or> a = 1" using assms(2) by auto
  have "good_rng (lp_generator phold_local)" using ex_good_rng by (simp add: ex_config_def)
  then have "tw_rand_reverse_unif phold_local g = Inr (core_back g)" if "valid_stream g" for g
    using rng_reverse_value[of "lp_generator phold_local" g] that
    by (auto simp: tw_rand_reverse_unif_def good_rng_def core_back_def)
  then have "phold_revent phold_local s 0 0 = (s\<lparr>rng := core_back (core_back (rng s))\<rparr>, 0, 0)" if "valid_stream (rng s)" for s
    using that by (simp add: phold_revent_def phold_event_handler_rc_def)
  moreover have "valid_stream (rng (cur_state (L 0)))" "\<not> suspend_flag (L 0)"
    using assms(1) by (simp_all add: lp_good_def phold_good_def)
  moreover have "msg (ex_heap cn a) = 0" "dest_lp (ex_heap cn a) = 0" "cv (ex_heap cn a) = 0"
    using a by (auto simp: ex_heap_def ex_event_def)
  ultimately show "lp_good phold_good (undo_step ex_config (ex_heap cn) a L 0)"
    "i \<noteq> 0 \<Longrightarrow> undo_step ex_config (ex_heap cn) a L i = L i"
    by (simp_all add: undo_step_def Let_def rollback_view_active reverse_view_def lp_good_def phold_good_def ex_config_def)
qed

lemma ex_lp_good: "lp_good phold_good ex_lp"
  by (simp add: lp_good_def phold_good_def ex_lp_def ex_valid)

lemma ex_history:
  "history ex_config phold_good ex_L0 k (ex_heap cn) (if k = 0 then [1, 0] else []) (\<lambda>_. ex_lp)"
proof -
  let ?h = "ex_heap cn" and ?L = "\<lambda>_ :: nat. ex_lp"
  let ?L1 = "undo_step ex_config ?h 1 ?L"
  have same: "undo_step ex_config (ex_heap False) a = undo_step ex_config ?h a" for a
    by (rule undo_step_same) (simp add: undo_same_def ex_heap_def ex_event_def)
  have L0: "ex_L0 = undo_step ex_config ?h 0 ?L1" by (simp add: ex_L0_def same)
  have g1: "lp_good phold_good (?L1 0)" using ex_undo_step(1)[of ?L 1] ex_lp_good by simp
  have g0: "lp_good phold_good (undo_step ex_config ?h 0 ?L1 0)" using ex_undo_step(1)[of ?L1 0] g1 by simp
  have other: "ex_L0 k = ex_lp" if "k \<noteq> 0"
    using ex_undo_step(2)[of ?L1 0 k cn] g1 ex_undo_step(2)[of ?L 1 k cn] ex_lp_good that
    by (simp add: L0)
  show ?thesis using g0 g1 ex_lp_good L0 other by auto
qed

lemma ex_inv: "tw_inv ex_config ex_U phold_good ex_L0 (ex_pe cn)"
proof -
  have l: "lps (ex_pe cn) = (\<lambda>_. ex_lp)" by (rule ext) simp
  have "traced ex_config phold_good ex_L0 (ex_pe cn)"
    unfolding traced_def l using ex_history by simp
  then show ?thesis using ex_ok[of cn] by (simp add: tw_inv_def ex_heap_def)
qed

lemma ex_fresh: "n < 2 ^ 31 \<Longrightarrow> fresh_ids ex_config ex_U n (ex_pe cn)"
proof -
  assume n: "n < 2 ^ 31"
  have "(of_nat j :: 32 word) \<noteq> 4 + of_nat i" if "1 \<le> i" "i \<le> n" "j \<le> 4" for i j
  proof
    assume "(of_nat j :: 32 word) = 4 + of_nat i"
    then have "(of_nat j :: 32 word) = of_nat (4 + i)" by simp
    then have "unat (of_nat j :: 32 word) = unat (of_nat (4 + i) :: 32 word)" by simp
    then have "j mod 2 ^ 32 = (4 + i) mod 2 ^ 32" unfolding unat_of_nat by simp
    then show False using that n by simp
  qed
  note ne = this[of _ 1] this[of _ 2] this[of _ 3] this[of _ 4] this[of _ 0]
  show ?thesis using n ne by (auto simp: fresh_ids_def ex_heap_def)
qed

lemma ex_model: "0 \<le> t0 \<Longrightarrow> model_ok ex_config phold_good 1 t0"
  unfolding ex_config_def by (rule phold_contract[OF phold_default_ok(2)]) (simp_all add: phold_local_def phold_default_def)

section \<open>A PE at the start of a run\<close>

text \<open>One event is pending, at time 2, nothing has been processed, and all LPs are on one KP.\<close>

definition ex_dconfig :: "(phold_state, tw_bf, int) config" where
  "ex_dconfig = ex_config\<lparr>kp_of := (\<lambda>_. 0), nkp := 1\<rparr>"

definition ex_dheap :: "addr \<Rightarrow> (tw_bf, int) pevent" where
  "ex_dheap a = (if a = 0 then ex_event 1 TW_pe_pq False 2 else ex_event 0 TW_pe_free_q False 0)"

definition ex_dpe :: "(phold_state, tw_bf, int) tw_pe" where
  "ex_dpe = (ex_pe False)\<lparr>heap := ex_dheap,
     kps := (\<lambda>k. \<lparr>pevent_q = [], last_sig = ex_sig 0, s_nevent_processed = 0, s_e_rbs = 0, s_rb_total = 0, s_rb_secondary = 0\<rparr>),
     event_q := [], pq := \<lparr>root = Node Leaf 0 Leaf, least = Some 0, nitems = 1, max_size = 1\<rparr>, free_q := [1, 2, 3, 4],
     cur_event := 0, seq_num := 1\<rparr>"

lemma ex_dpe_sel [simp]:
  "heap ex_dpe = ex_dheap" "lps ex_dpe = (\<lambda>_. ex_lp)" "event_q ex_dpe = []" "cancel_q ex_dpe = []" "free_q ex_dpe = [1, 2, 3, 4]"
  "pq ex_dpe = \<lparr>root = Node Leaf 0 Leaf, least = Some 0, nitems = 1, max_size = 1\<rparr>"
  "GVT_sig ex_dpe = ex_sig 0" "\<not> cev_abort ex_dpe" "cur_event ex_dpe = 0" "pevent_q (kps ex_dpe k) = []"
  "last_sig (kps ex_dpe k) = ex_sig 0" "seq_num ex_dpe = 1"
  by (simp_all add: ex_dpe_def fun_eq_iff)

lemma ex_dconfig_sel [simp]:
  "kp_of ex_dconfig i = 0" "abort_event ex_dconfig = 99" "mynode ex_dconfig = 0" "nkp ex_dconfig = 1" "the_rng ex_dconfig = the_rng ex_config"
  by (simp_all add: ex_dconfig_def)

lemma model_ok_kps: "model_ok (c\<lparr>kp_of := f, nkp := k\<rparr>) G n t0 = model_ok c G n t0"
  by (simp add: model_ok_def handlers_ok_def sends_ok_def send_ok_def)

lemma ex_dok: "pe_ok ex_dconfig ex_U [] [] ex_dpe"
proof (rule pe_okI)
  let ?hp = "ex_dheap"
  have "inj_on (key_at ?hp) {a \<in> ex_U. live_owner (qowner (?hp a))}"
    by (rule inj_onI) (auto simp: ex_dheap_def live_owner_def split: if_splits)
  moreover have "pq_inv (key_at ?hp) (wf_at ?hp) (pq ex_dpe)"
    by (simp add: pq_inv_def contents_def wf_at_def ex_dheap_def)
  moreover have "wf_sig (qsig (?hp a))" for a by (simp add: ex_dheap_def)
  ultimately show "owned ex_dconfig ex_U (heap ex_dpe) (free_q ex_dpe) [] (pq ex_dpe) (pevents ex_dpe)"
    by (auto simp: owned_def ex_dheap_def contents_def)
  show "kids ex_U (heap ex_dpe) (processed ex_U (heap ex_dpe))"
    by (auto simp: kids_def ex_dheap_def split: if_splits)
  show "cancel_ok ex_U (heap ex_dpe) ([] @ cancel_q ex_dpe)"
    by (auto simp: cancel_ok_def ex_dheap_def in_use_def live_owner_def split: if_splits)
  show "good_streams ex_dpe" by (simp add: good_streams_def ex_lp_def ex_valid)
  show "good_rng (the_rng ex_dconfig)" using ex_good_rng by simp
qed (auto simp: ex_dheap_def idle_def)

lemma ex_dbase: "tw_base ex_dconfig ex_U phold_good (lps ex_dpe) ex_dpe"
  using ex_dok by (simp add: tw_base_def traced_def ex_lp_good ex_dheap_def)

lemma ex_dcausal: "causal ex_dconfig ex_U ex_dpe"
  by (auto simp: causal_def ex_dheap_def live_owner_def split: if_splits)

lemma ex_dfresh: "n < 2 ^ 31 \<Longrightarrow> fresh_ids ex_dconfig ex_U n ex_dpe"
proof -
  assume n: "n < 2 ^ 31"
  have "(of_nat i :: 32 word) \<noteq> 0" if "1 \<le> i" "i \<le> n" for i
    using that n nat_dvd_not_less[of i "2 ^ 32"] by (auto simp: word_of_nat_eq_0_iff)
  then show ?thesis using n by (auto simp: fresh_ids_def ex_dheap_def live_owner_def split: if_splits)
qed

lemma ex_dmodel: "0 \<le> t0 \<Longrightarrow> model_ok ex_dconfig phold_good 1 t0"
  using ex_model by (simp add: ex_dconfig_def model_ok_kps)

end
