(* ===== verification/Tw_Props.thy ===== *)
theory Tw_Props
  imports Tw_Example
begin

text \<open>
  The properties of the Time Warp protocol on one PE, each with its application to the example
  state.
\<close>

section \<open>Rollback\<close>

text \<open>
  C3: \<open>tw_kp_rollback_to_sig\<close> returns, and undoes exactly the processed events of the KP that are
  not before the given signature: they are the newest ones, they are undone newest first, each
  is pending again or was freed as a child of another, and what stays processed lies before the
  signature. The state stays well formed and in order.
\<close>

theorem rollback_to_sig_exact:
  assumes "pe_ok c U (event_q pe) [] pe" "causal c U pe" "wf_sig to_sig"
  shows "\<exists>pe' xs ys. tw_kp_rollback_to_sig c net k to_sig pe = Inr pe' \<and>
    pevents pe k = xs @ ys \<and> pevents pe' k = ys \<and>
    (\<forall>e \<in> set xs. sig_key to_sig \<le> sig_key (qsig (heap pe e)) \<and> qowner (heap pe' e) \<in> {TW_pe_pq, TW_pe_free_q}) \<and>
    (\<forall>e \<in> set ys. sig_key (qsig (heap pe e)) < sig_key to_sig) \<and>
    lps pe' = undo c (heap pe) xs (lps pe) \<and> (\<forall>j. j \<noteq> k \<longrightarrow> pevents pe' j = pevents pe j) \<and>
    pe_ok c U (event_q pe') [] pe' \<and> causal c U pe'"
proof -
  define P where "P = (\<lambda>e. tw_event_sig_compare_ptr (qsig (heap pe e)) to_sig \<ge> 0)"
  obtain pe' where p: "tw_kp_rollback_to_sig c net k to_sig pe = Inr pe'" "pe_ok c U (event_q pe) [] pe'"
    "undone c {} k (takeWhile P (pevents pe k)) (dropWhile P (pevents pe k)) pe pe'"
    using rollback_to_sig_ok[OF assms(1) P_def] by blast
  have xs: "sig_key to_sig \<le> sig_key (qsig (heap pe e))" if "e \<in> set (takeWhile P (pevents pe k))" for e
  proof -
    have "P e" "wf_sig (qsig (heap pe e))"
      using set_takeWhileD[OF that] pe_ok_wf[OF assms(1)] by blast+
    then show ?thesis using assms(3) by (simp add: P_def tw_event_sig_compare_ptr_key)
  qed
  have ys: "sig_key (qsig (heap pe e)) < sig_key to_sig" if "e \<in> set (dropWhile P (pevents pe k))" for e
    using rollback_to_sig_before[OF assms] that unfolding P_def by blast
  have ow: "qowner (heap pe' e) \<in> {TW_pe_pq, TW_pe_free_q}" if "e \<in> set (takeWhile P (pevents pe k))" for e
    using p(3) that unfolding undone_def undone_heap_def by blast
  have ca: "causal c U pe'" by (rule causal_undone[OF assms(1,2) p(3)])
  show ?thesis
    using p xs ys ow ca
    by (intro exI[of _ pe'] exI[of _ "takeWhile P (pevents pe k)"] exI[of _ "dropWhile P (pevents pe k)"])
      (auto simp: undone_def)
qed

theorem rollback_to_sig_exact_witness:
  "\<exists>pe' xs ys. tw_kp_rollback_to_sig ex_config ex_net 0 (ex_sig 3) (ex_pe False) = Inr pe' \<and>
    xs @ ys = [1, 0] \<and> pevents pe' 0 = ys \<and> lps pe' = undo ex_config (ex_heap False) xs (lps (ex_pe False))"
  using rollback_to_sig_exact[of ex_config ex_U "ex_pe False" "ex_sig 3" ex_net 0]
    ex_ok[of False] ex_causal[of False]
  by auto

text \<open>
  What the scheduler does between two fossil collections, from the state \<open>pe0\<close> on: it takes in
  arrivals, cancels events and runs batches, each in a state that is in order. In between the
  network may leave arrivals, mark events as cancelled and move buffers, and GVT may advance, but
  LPs and processed events are not touched.
\<close>

definition untouched :: "('st, 'bf, 'm) config \<Rightarrow> addr set \<Rightarrow> ('st, 'bf, 'm, 'z) tw_pe_scheme
    \<Rightarrow> ('st, 'bf, 'm, 'z) tw_pe_scheme \<Rightarrow> bool" where
  "untouched c U pe pe' \<longleftrightarrow> pe_ok c U (event_q pe') [] pe' \<and> lps pe' = lps pe \<and>
     (\<forall>k. pevents pe' k = pevents pe k \<and> (\<forall>e \<in> set (pevents pe k). undo_same (heap pe' e) (heap pe e))) \<and>
     cev_abort pe' = cev_abort pe \<and> qsig (heap pe' (abort_event c)) = qsig (heap pe (abort_event c)) \<and>
     recv_ts (GVT_sig pe) \<le> recv_ts (GVT_sig pe')"

inductive scheduled :: "('st, 'bf, 'm) config \<Rightarrow> ('st, 'bf, 'm, 'z) tw_pe_scheme net_ops \<Rightarrow> addr set \<Rightarrow> nat
    \<Rightarrow> ('st, 'bf, 'm, 'z) tw_pe_scheme \<Rightarrow> ('st, 'bf, 'm, 'z) tw_pe_scheme \<Rightarrow> bool"
  for c net U n pe0 where
  begun: "scheduled c net U n pe0 pe0"
| arrivals: "scheduled c net U n pe0 pe \<Longrightarrow> causal c U pe \<Longrightarrow> tw_sched_event_q 1 c net pe = Inr pe' \<Longrightarrow>
    scheduled c net U n pe0 pe'"
| cancels: "scheduled c net U n pe0 pe \<Longrightarrow> causal c U pe \<Longrightarrow>
    tw_sched_cancel_q (card (busy U (heap pe))) c net pe = Inr pe' \<Longrightarrow> scheduled c net U n pe0 pe'"
| batch: "scheduled c net U n pe0 pe \<Longrightarrow> causal c U pe \<Longrightarrow> fresh_ids c U (mblock c * n) pe \<Longrightarrow>
    tw_sched_batch c net pe = Inr pe' \<Longrightarrow> scheduled c net U n pe0 pe'"
| others: "scheduled c net U n pe0 pe \<Longrightarrow> untouched c U pe pe' \<Longrightarrow> scheduled c net U n pe0 pe'"

text \<open>A well-formed state in which nothing has been processed and the LPs are in states the handlers can undo.\<close>

definition snapshot :: "('st, 'bf, 'm) config \<Rightarrow> addr set \<Rightarrow> ('st \<Rightarrow> bool) \<Rightarrow> ('st, 'bf, 'm, 'z) tw_pe_scheme \<Rightarrow> bool" where
  "snapshot c U G pe \<longleftrightarrow> pe_ok c U (event_q pe) [] pe \<and> (\<forall>k. pevents pe k = []) \<and>
     (\<forall>i. G (cur_state (lps pe i)) \<and> \<not> suspend_flag (lps pe i)) \<and> \<not> cev_abort pe \<and>
     abort_event c \<notin> U \<and> wf_sig (qsig (heap pe (abort_event c)))"

lemma model_ok_later: "model_ok c G n t \<Longrightarrow> t \<le> t' \<Longrightarrow> model_ok c G n t'"
  by (fastforce simp: model_ok_def intro: order_trans)

lemma scheduled_inv:
  assumes "scheduled c net U n pe0 pe" "snapshot c U G pe0" "model_ok c G n (recv_ts (GVT_sig pe0))"
  shows "tw_inv c U G (lps pe0) pe \<and> recv_ts (GVT_sig pe0) \<le> recv_ts (GVT_sig pe)"
  using assms(1)
proof induction
  case begun
  then show ?case using assms(2) by (simp add: snapshot_def tw_inv_def traced_def lp_good_def)
next
  case (arrivals pe pe')
  then show ?case using tw_inv_event_q[of c U G "lps pe0" pe 0 net] by auto
next
  case (cancels pe pe')
  then show ?case using tw_inv_cancel_q[of c U G "lps pe0" pe "card (busy U (heap pe))" net] by auto
next
  case (batch pe pe')
  have "model_ok c G n (recv_ts (GVT_sig pe))" using model_ok_later[OF assms(3)] batch.IH by blast
  then show ?case using batch batch_loop_ok[of c U G "lps pe0" pe n "mblock c" net] by (auto simp: tw_sched_batch_def)
next
  case (others pe pe')
  have "history c G (lps pe0) k (heap pe') (pevents pe' k) (lps pe')" for k
  proof -
    have "history c G (lps pe0) k (heap pe) (pevents pe k) (lps pe)" using others.IH by (simp add: tw_inv_def traced_def)
    then show ?thesis
      using others.hyps(2) history_cong[of "pevents pe k" "heap pe'" "heap pe" c k "lps pe'" "lps pe" G "lps pe0"]
      by (simp add: untouched_def)
  qed
  then show ?case using others by (auto simp: untouched_def tw_inv_def traced_def)
qed

text \<open>
  C4: reverse computation is as good as saved state. Let a PE start from a state in which nothing
  has been processed, with a model whose reverse handler undoes \<^emph>\<open>one\<close> event, and let the scheduler
  take in arrivals and stragglers, cancel events and run batches in any order and any number. Then
  rolling back all processed events of a KP, however they came about, returns each of its LPs to
  exactly the state it started from: model state and its random stream, tie-breaker stream and
  critical path. As everywhere on one PE, the model sends to LPs of this PE only.
\<close>

theorem rollback_restores_snapshot:
  assumes start: "snapshot c U G pe0" "model_ok c G n (recv_ts (GVT_sig pe0))" and run: "scheduled c net U n pe0 pe"
    and e: "\<forall>e \<in> set (pevents pe k). sig_key s \<le> sig_key (qsig (heap pe e))" and w: "wf_sig s"
  shows "\<exists>pe'. tw_kp_rollback_to_sig c net k s pe = Inr pe' \<and> pevents pe' k = [] \<and>
    (\<forall>i. kp_of c i = k \<longrightarrow> lps pe' i = lps pe0 i)"
proof -
  define P where "P = (\<lambda>e. tw_event_sig_compare_ptr (qsig (heap pe e)) s \<ge> 0)"
  have i: "tw_inv c U G (lps pe0) pe" using scheduled_inv[OF run start] by blast
  note ok = tw_invD(1)[OF i]
  obtain pe' where p: "tw_kp_rollback_to_sig c net k s pe = Inr pe'" "pe_ok c U (event_q pe) [] pe'"
    "undone c {} k (takeWhile P (pevents pe k)) (dropWhile P (pevents pe k)) pe pe'"
    using rollback_to_sig_ok[OF ok P_def] by blast
  have "\<forall>e \<in> set (pevents pe k). P e"
    using e w pe_ok_wf[OF ok] by (auto simp: P_def tw_event_sig_compare_ptr_key)
  then have d: "dropWhile P (pevents pe k) = []" by simp
  have "traced c G (lps pe0) pe'" using keeps_trace_undone[OF ok p(3)] tw_invD(2)[OF i] by (simp add: keeps_trace_def)
  then have "history c G (lps pe0) k (heap pe') (pevents pe' k) (lps pe')" by (simp add: traced_def)
  moreover have "pevents pe' k = []" using p(3) d by (simp add: undone_def)
  ultimately show ?thesis using p(1) by auto
qed

text \<open>A PE that may use all its buffers, and a batch of one event.\<close>

definition ex_rconfig :: "(phold_state, tw_bf, int) config" where
  "ex_rconfig = ex_dconfig\<lparr>gvt_threshold := 0, mblock := 1\<rparr>"

lemma ex_rsame:
  "pe_ok ex_rconfig = pe_ok ex_dconfig" "causal ex_rconfig = causal ex_dconfig" "fresh_ids ex_rconfig = fresh_ids ex_dconfig"
  "model_ok ex_rconfig = model_ok ex_dconfig" "kp_of ex_rconfig = kp_of ex_dconfig" "abort_event ex_rconfig = abort_event ex_dconfig"
  "mblock ex_rconfig = 1" "gvt_threshold ex_rconfig = 0"
  by (simp_all add: fun_eq_iff pe_ok_def owned_def causal_def fresh_ids_def model_ok_def handlers_ok_def sends_ok_def send_ok_def ex_rconfig_def)

lemma ex_snapshot: "snapshot ex_rconfig ex_U phold_good ex_dpe"
  using ex_dok ex_lp_good[unfolded lp_good_def] by (simp add: snapshot_def ex_rsame ex_dheap_def)

theorem rollback_restores_snapshot_witness:
  "\<exists>pe s pe'. tw_sched_batch ex_rconfig ex_net ex_dpe = Inr pe \<and> tw_kp_rollback_to_sig ex_rconfig ex_net 0 s pe = Inr pe' \<and>
    pevents pe' 0 = [] \<and> (\<forall>i. lps pe' i = ex_lp)"
proof -
  have m: "model_ok ex_rconfig phold_good 1 (recv_ts (GVT_sig ex_dpe))" using ex_dmodel by (simp add: ex_rsame)
  have i: "tw_inv ex_rconfig ex_U phold_good (lps ex_dpe) ex_dpe"
    using scheduled_inv[OF begun ex_snapshot m] by blast
  have ca: "causal ex_rconfig ex_U ex_dpe" using ex_dcausal by (simp add: ex_rsame)
  have f: "fresh_ids ex_rconfig ex_U (mblock ex_rconfig * 1) ex_dpe" using ex_dfresh[of 1] by (simp add: ex_rsame)
  have ns: "\<not> starved ex_rconfig ex_dpe" by (simp add: starved_def ex_rsame)
  obtain go pe where "sched_round ex_rconfig ex_net ex_dpe = Inr (go, pe)"
    using sched_round_ok[OF i ca m _ ns, of 0 ex_net] f by (auto simp: ex_rsame)
  then have b: "tw_sched_batch ex_rconfig ex_net ex_dpe = Inr pe" by (simp add: tw_sched_batch_def ex_rsame)
  have run: "scheduled ex_rconfig ex_net ex_U 1 ex_dpe pe" by (rule batch[OF begun ca f b])
  let ?ts = "(\<lambda>e. recv_ts (qsig (heap pe e))) ` set (pevents pe 0)"
  define s where "s = ex_sig (Min (insert 0 ?ts) - 1)"
  have "sig_key s \<le> sig_key (qsig (heap pe e))" if "e \<in> set (pevents pe 0)" for e
  proof -
    have "Min (insert 0 ?ts) \<le> recv_ts (qsig (heap pe e))" using that by (intro Min_le) auto
    then show ?thesis by (auto simp: s_def sig_key_def ex_sig_def less_eq_prod_def)
  qed
  then obtain pe' where "tw_kp_rollback_to_sig ex_rconfig ex_net 0 s pe = Inr pe'" "pevents pe' 0 = []"
      "\<forall>i. kp_of ex_rconfig i = 0 \<longrightarrow> lps pe' i = lps ex_dpe i"
    using rollback_restores_snapshot[OF ex_snapshot m run, of 0 s] by (auto simp: s_def)
  then show ?thesis using b by (auto simp: ex_rsame)
qed

text \<open>
  C13: an anti-message for a processed event. \<open>tw_kp_rollback_event\<close> returns; it undoes the events
  that were processed after the cancelled one, and that event, and nothing else. Once the
  scheduler has freed the event, the state is well formed and in order again.
\<close>

theorem rollback_event_exact:
  assumes "pe_ok c U (event_q pe) (event # cl) pe" "causal c U pe" "pevents pe k = xs @ event # ys"
    "kp_of c (dest_lp (heap pe event)) = k"
  shows "\<exists>pe1. tw_kp_rollback_event c net event pe = Inr pe1 \<and>
    (let pe' = tw_event_free event pe1 in
      pevents pe' k = ys \<and> lps pe' = undo c (heap pe) (xs @ [event]) (lps pe) \<and> qowner (heap pe' event) = TW_pe_free_q \<and>
      pe_ok c U (event_q pe') cl pe' \<and> causal c U pe')"
proof -
  obtain pe1 where p: "tw_kp_rollback_event c net event pe = Inr pe1" "pe_ok c U (event_q pe) cl (tw_event_free event pe1)"
    "undone c {event} k (xs @ [event]) ys pe (tw_event_free event pe1)"
    using rollback_event_free_ok[OF assms(1,4,3)] by blast
  have "causal c U (tw_event_free event pe1)" by (rule causal_undone[OF assms(1,2) p(3)])
  moreover have "qowner (heap (tw_event_free event pe1) event) = TW_pe_free_q"
    by (simp add: pe_simps)
  ultimately show ?thesis using p by (intro exI[of _ pe1]) (auto simp: undone_def Let_def)
qed

theorem rollback_event_exact_witness:
  "\<exists>pe1. tw_kp_rollback_event ex_config ex_net 1 ((ex_pe True)\<lparr>cancel_q := []\<rparr>) = Inr pe1 \<and>
    pevents (tw_event_free 1 pe1) 0 = [0] \<and> qowner (heap (tw_event_free 1 pe1) 1) = TW_pe_free_q"
proof -
  let ?pe = "(ex_pe True)\<lparr>cancel_q := []\<rparr>"
  have "pe_ok ex_config ex_U [2] [1] ?pe"
    using ex_ok[of True] by (simp add: pe_ok_def good_streams_def)
  moreover have "causal ex_config ex_U ?pe" using ex_causal[of True] by (simp add: causal_def)
  ultimately show ?thesis
    using rollback_event_exact[of ex_config ex_U ?pe 1 "[]" 0 "[]" "[0]" ex_net] by (auto simp: ex_heap_def Let_def)
qed

section \<open>The scheduler\<close>

text \<open>
  C7: \<open>tw_sched_event_q\<close> returns after one pass with the queue empty. Every arrival that was not
  cancelled is pending, a straggler after its KP has been rolled back behind it, so that the
  events of every KP are still processed in order and no pending event lies in the past of its
  KP. The histories of the LPs are kept.
\<close>

theorem event_q_stragglers:
  assumes "tw_inv c U G L0 pe" "causal c U pe"
  shows "\<exists>pe'. tw_sched_event_q 1 c net pe = Inr pe' \<and> event_q pe' = [] \<and> tw_inv c U G L0 pe' \<and> causal c U pe'"
  using tw_inv_event_q[OF assms, of 0 net] by auto

theorem event_q_stragglers_witness:
  "\<exists>pe'. tw_sched_event_q 1 ex_config ex_net (ex_pe False) = Inr pe' \<and> event_q pe' = [] \<and>
    tw_inv ex_config ex_U phold_good ex_L0 pe' \<and> causal ex_config ex_U pe'"
  by (rule event_q_stragglers[OF ex_inv ex_causal])

text \<open>
  C12: \<open>tw_sched_cancel_q\<close> terminates, although undoing a cancelled event puts the events it had
  caused on the queue again: each round frees a buffer, so the number of buffers in use bounds
  the rounds. It never reports an error and leaves the queue empty, the state in order and the
  histories of the LPs intact. This is about cancelled events whose children are events of this PE, as
  the invariant has it: a child on another PE would be cancelled by \<open>tw_net_cancel\<close>, which reads the
  network within the loop and may bring further arrivals and cancellations.
\<close>

theorem cancel_q_terminates:
  assumes "tw_inv c U G L0 pe" "causal c U pe"
  shows "\<exists>pe'. tw_sched_cancel_q (card {a \<in> U. qowner (heap pe a) \<noteq> TW_pe_free_q}) c net pe = Inr pe' \<and>
    cancel_q pe' = [] \<and> tw_inv c U G L0 pe' \<and> causal c U pe'"
  using tw_inv_cancel_q[OF assms, of "card {a \<in> U. qowner (heap pe a) \<noteq> TW_pe_free_q}" net]
  by (auto simp: busy_def)

theorem cancel_q_terminates_witness:
  "\<exists>n pe'. tw_sched_cancel_q n ex_config ex_net (ex_pe True) = Inr pe' \<and> cancel_q pe' = [] \<and>
    tw_inv ex_config ex_U phold_good ex_L0 pe' \<and> causal ex_config ex_U pe'"
  using cancel_q_terminates[OF ex_inv[of True] ex_causal[of True], of ex_net] by blast

text \<open>
  C6: a batch. For a model that keeps its contract and as long as event ids are fresh,
  \<open>tw_sched_batch\<close> either reports that the event buffers ran out, or leaves a state in which
  every buffer is where its owner field says, all queues are well formed and the histories of
  the LPs lead back to the snapshot. The model sends to LPs of this PE only, from GVT on and into
  the future up to the end of the run, and the events processed so far have caused only events of
  this PE.
\<close>

theorem batch_keeps_invariant:
  assumes "tw_inv c U G L0 pe" "causal c U pe" "model_ok c G n (recv_ts (GVT_sig pe))" "fresh_ids c U (mblock c * n) pe"
  shows "tw_sched_batch c net pe = Inl (Tw_Error ''Event allocation failed consecutive times.  Exiting.'') \<or>
    (\<exists>pe'. tw_sched_batch c net pe = Inr pe' \<and> tw_inv c U G L0 pe' \<and> GVT_sig pe' = GVT_sig pe)"
  unfolding tw_sched_batch_def by (rule batch_loop_ok[OF assms])

theorem batch_keeps_invariant_witness:
  "tw_sched_batch ex_config ex_net (ex_pe False) =
      Inl (Tw_Error ''Event allocation failed consecutive times.  Exiting.'') \<or>
    (\<exists>pe'. tw_sched_batch ex_config ex_net (ex_pe False) = Inr pe' \<and>
      tw_inv ex_config ex_U phold_good ex_L0 pe' \<and> GVT_sig pe' = ex_sig 0)"
proof -
  have "fresh_ids ex_config ex_U (mblock ex_config * 1) (ex_pe False)"
    by (rule ex_fresh) (simp add: ex_config_def phold_config_def)
  moreover have "model_ok ex_config phold_good 1 (recv_ts (GVT_sig (ex_pe False)))" by (rule ex_model) simp
  ultimately show ?thesis using batch_keeps_invariant[OF ex_inv ex_causal, of 1 False ex_net] by simp
qed

section \<open>Processing and undoing\<close>

text \<open>
  C5: processing the next event and rolling back to its own time restores every LP exactly: the
  state and random stream of the model, the tie-breaker stream that the sends drew from, and the
  critical path. The processed queue is as it was before. The model keeps its contract from GVT on:
  its reverse handler undoes one event, and what it sends goes to LPs of this PE and into the
  future, so far as the sum of the times is before the end of the run.
\<close>

theorem process_then_rollback:
  assumes i: "tw_inv c U G L0 pe" and ca: "causal c U pe" and m: "model_ok c G n (recv_ts (GVT_sig pe))" and f: "fresh_ids c U (n + r) pe"
    and q: "contents (pq pe) = a # as" and k: "k = kp_of c (dest_lp (heap pe a))"
    and new: "\<forall>b \<in> set (pevents pe k). sig_key (qsig (heap pe b)) < sig_key (qsig (heap pe a))"
  shows "\<exists>pe1 pe2. pq_dequeue pe = Inr (Some a, pe1) \<and> process_event c net a pe1 = Inr pe2 \<and>
    (\<not> cev_abort pe2 \<longrightarrow>
      (\<exists>pe3 pe4. finish_event c net a pe2 = Inr (True, pe3) \<and> pevents pe3 k = a # pevents pe k \<and>
        tw_kp_rollback_to_sig c net k (qsig (heap pe a)) pe3 = Inr pe4 \<and> lps pe4 = lps pe \<and> pevents pe4 k = pevents pe k))"
proof -
  obtain pe1 pe2 where p: "pq_dequeue pe = Inr (Some a, pe1)" "process_event c net a pe1 = Inr pe2" "running c U [] a pe2"
    "undo_step c (heap pe2) a (lps pe2) = lps pe" "\<forall>j. pevents pe2 j = pevents pe j"
    "dest_lp (heap pe2 a) = dest_lp (heap pe a)" "qsig (heap pe2 a) = qsig (heap pe a)"
    "\<forall>j. \<forall>b \<in> set (pevents pe j). b \<in> U \<and> b \<noteq> a \<and> heap pe2 b = heap pe b"
    using process_next[OF i[unfolded tw_inv_base, THEN conjunct1] ca m f q, of net] by blast
  let ?V = "as_processed c a pe2"
  define P where "P = (\<lambda>e. tw_event_sig_compare_ptr (qsig (heap ?V e)) (qsig (heap pe a)) \<ge> 0)"
  have wa: "wf_sig (qsig (heap pe a))" using running_facts(5)[OF p(3)] p(7) by simp
  have pv: "pevents ?V k = a # pevents pe k" using p(5,6) k by simp
  have "P a" using p(7) wa by (simp add: P_def tw_event_sig_compare_ptr_key)
  moreover have "\<not> P b" if "b \<in> set (pevents pe k)" for b
  proof -
    have b: "b \<noteq> a" "heap pe2 b = heap pe b" "b \<in> U" using p(8) that by blast+
    have "wf_sig (qsig (heap pe b))" using running_facts(6)[OF p(3) b(3)] b(2) by simp
    moreover have "sig_key (qsig (heap pe b)) < sig_key (qsig (heap pe a))" using new that by blast
    ultimately show ?thesis using b wa by (simp add: P_def tw_event_sig_compare_ptr_key not_le)
  qed
  ultimately have td: "takeWhile P (pevents ?V k) = [a]" "dropWhile P (pevents ?V k) = pevents pe k"
    unfolding pv by (cases "pevents pe k"; simp)+
  have "\<exists>pe3 pe4. finish_event c net a pe2 = Inr (True, pe3) \<and> pevents pe3 k = a # pevents pe k \<and>
      tw_kp_rollback_to_sig c net k (qsig (heap pe a)) pe3 = Inr pe4 \<and> lps pe4 = lps pe \<and> pevents pe4 k = pevents pe k"
    if na: "\<not> cev_abort pe2"
  proof -
    note fin = finish_event_ok[OF p(3) na]
    obtain pe4 where p4: "tw_kp_rollback_to_sig c net k (qsig (heap pe a)) ?V = Inr pe4"
      "undone c {} k [a] (pevents pe k) ?V pe4"
      using rollback_to_sig_ok[OF fin(2) P_def, of net k] unfolding td by blast
    have "undo_step c (heap ?V) a (lps pe2) = lps pe"
      using undo_step_same[of "heap ?V" a "heap pe2" c] p(4) by (simp add: undo_same_def)
    then have "lps pe4 = lps pe" using p4(2) by (simp add: undone_def)
    moreover have "pevents pe4 k = pevents pe k" using p4(2) by (simp add: undone_def)
    ultimately show ?thesis using fin(1) pv p4(1) by blast
  qed
  then show ?thesis using p(1,2) by blast
qed

theorem process_then_rollback_witness:
  "\<exists>pe1 pe2. pq_dequeue (ex_pe False) = Inr (Some 3, pe1) \<and> process_event ex_config ex_net 3 pe1 = Inr pe2 \<and>
    (\<not> cev_abort pe2 \<longrightarrow>
      (\<exists>pe3 pe4. finish_event ex_config ex_net 3 pe2 = Inr (True, pe3) \<and> pevents pe3 0 = [3, 1, 0] \<and>
        tw_kp_rollback_to_sig ex_config ex_net 0 (ex_sig 5) pe3 = Inr pe4 \<and> lps pe4 = lps (ex_pe False) \<and>
        pevents pe4 0 = [1, 0]))"
proof -
  have "fresh_ids ex_config ex_U (1 + 1) (ex_pe False)" by (rule ex_fresh) simp
  moreover have "model_ok ex_config phold_good 1 (recv_ts (GVT_sig (ex_pe False)))" by (rule ex_model) simp
  ultimately show ?thesis
    using process_then_rollback[OF ex_inv ex_causal, of 1 False 1 3 "[]" 0 ex_net] by (simp add: contents_def ex_heap_def)
qed

text \<open>
  C14: an event whose sends found no free buffer is undone on the spot, and the KP's clock is set to
  its \<^emph>\<open>oldest\<close> processed event, since \<open>tw_eventq_peek\<close> gives the tail of the queue. After that,
  an arrival anywhere between the oldest and a newer processed event passes the straggler test
  of \<open>tw_sched_event_q\<close> although that newer event, which stays processed, should have been undone.
\<close>

theorem abort_misses_straggler:
  assumes r: "running c U cl a pe" and ab: "cev_abort pe" and k: "k = kp_of c (dest_lp (heap pe a))"
    and old: "pevents pe k = xs @ [old]" and x: "x \<in> set xs" and s: "wf_sig s"
      "sig_key (qsig (heap pe old)) \<le> sig_key s" "sig_key s < sig_key (qsig (heap pe x))"
  shows "\<exists>pe'. finish_event c net a pe = Inr (False, pe') \<and> x \<in> set (pevents pe' k) \<and>
    tw_event_sig_compare_ptr s (qsig (heap pe' x)) < 0 \<and>
    \<not> tw_event_sig_compare_ptr (last_sig (kps pe' k)) s > 0"
proof -
  obtain pe' where p: "finish_event c net a pe = Inr (False, pe')" "pe_ok c U (event_q pe') cl pe'"
    "\<forall>j. pevents pe' j = pevents pe j" "rolled (heap pe') (heap (as_processed c a pe)) a TW_pe_pq"
    "sig_key (last_sig (kps pe' k)) = sig_key (case pevents pe k of [] \<Rightarrow> GVT_sig pe | _ \<Rightarrow> qsig (heap pe (last (pevents pe k))))"
    using finish_event_abort[OF r ab, of net] unfolding k by blast
  have q: "qsig (heap pe' x) = qsig (heap pe x)" using rolledD(9)[OF p(4), of x] by simp
  have xp: "x \<in> set (pevents pe' k)" using p(3) old x by simp
  have w: "wf_sig (qsig (heap pe' x))" "wf_sig (last_sig (kps pe' k))"
    using pe_ok_wf[OF p(2) xp] pe_okD(8)[OF p(2)] by simp_all
  have "sig_key (last_sig (kps pe' k)) = sig_key (qsig (heap pe old))"
    using p(5) old by (cases xs) simp_all
  then show ?thesis
    using p(1) xp w q s by (intro exI[of _ pe']) (simp add: tw_event_sig_compare_ptr_key)
qed

text \<open>The event at time 5 is in its handler, and the arrival would be at time 3.\<close>

theorem abort_misses_straggler_witness:
  "\<exists>pe pe'. cev_abort pe \<and> finish_event ex_config ex_net 3 pe = Inr (False, pe') \<and> 1 \<in> set (pevents pe' 0) \<and>
    tw_event_sig_compare_ptr (ex_sig 3) (qsig (heap pe' 1)) < 0 \<and>
    \<not> tw_event_sig_compare_ptr (last_sig (kps pe' 0)) (ex_sig 3) > 0"
proof -
  let ?x = "ex_pe False"
  have q0: "contents (pq ?x) = 3 # []" by (simp add: contents_def)
  obtain pe1 :: "(phold_state, tw_bf, int) tw_pe" where p: "heap pe1 = (heap ?x)(3 := (heap ?x 3)\<lparr>qowner := No_owner\<rparr>)" "lps pe1 = lps ?x" "kps pe1 = kps ?x"
    "running ex_config ex_U [] 3 (set_last_sig (kp_of ex_config (dest_lp (heap ?x 3)))
      (tw_copy_event_sig (last_sig (kps ?x (kp_of ex_config (dest_lp (heap ?x 3))))) (qsig (heap ?x 3))) (pe1\<lparr>cur_event := 3\<rparr>))"
    using dequeue_running[OF tw_invD(1)[OF ex_inv[of False]] ex_causal[of False] tw_invD(4,5)[OF ex_inv[of False]] q0]
    by blast
  define pe2 where "pe2 = set_last_sig 0 (tw_copy_event_sig (ex_sig 4) (ex_sig 5)) (pe1\<lparr>cur_event := 3\<rparr>)"
  define pe where "pe = pe2\<lparr>cev_abort := True\<rparr>"
  have r2: "running ex_config ex_U [] 3 pe2" using p(4) by (simp add: pe2_def ex_heap_def)
  have h: "heap pe = (heap pe2)(3 := (heap pe2 3)\<lparr>cv := cv (heap pe2 3), msg := msg (heap pe2 3), critical_path := critical_path (heap pe2 3)\<rparr>)"
    by (simp add: pe_def)
  have r: "running ex_config ex_U [] 3 pe"
    by (rule running_upd[OF r2 h]) (use running_facts(2)[OF r2] in \<open>simp_all add: pe_def good_streams_def\<close>)
  have hp: "heap pe = heap pe1" by (simp add: pe_def pe2_def pe_simps)
  have d: "0 = kp_of ex_config (dest_lp (heap pe 3))" by (simp add: hp p(1) ex_heap_def)
  have v: "pevents pe 0 = [1] @ [0]" by (simp add: pe_def pe2_def pe_simps p(3))
  have q: "qsig (heap pe 0) = ex_sig 2" "qsig (heap pe 1) = ex_sig 4" by (simp_all add: hp p(1) ex_heap_def)
  have "cev_abort pe" by (simp add: pe_def)
  then show ?thesis
    using abort_misses_straggler[OF r _ d v, of 1 "ex_sig 3" ex_net] q by (subst ex_simps(2), intro exI[of _ pe]) simp
qed

end
