(* ===== verification/Avl_Tree.thy ===== *)
theory Avl_Tree
  imports Splay_PQ
begin

text \<open>
  The AVL tree in which a PE keeps the events it received from other PEs, so that it finds them
  when they are cancelled (\<open>core/avl_tree.c\<close>), and the calls of the event store on top of it
  (\<open>core/hash-quadratic.c\<close> with \<open>AVL_TREE\<close>).
\<close>

section \<open>Trees\<close>

text \<open>
  \<open>child[0]\<close> and \<open>child[1]\<close> are the subtrees, \<open>d = 1\<close> is \<open>True\<close>. The nodes come from a list of
  free nodes of the PE; the tree is a value, so that of this list only the length is kept.
\<close>

datatype 'e avl = AVL_EMPTY | AvlNode "'e avl" 'e nat "'e avl"

fun child :: "bool \<Rightarrow> 'e avl \<Rightarrow> 'e avl" where
  "child d AVL_EMPTY = AVL_EMPTY"
| "child d (AvlNode l k h r) = (if d then r else l)"

fun set_child :: "bool \<Rightarrow> 'e avl \<Rightarrow> 'e avl \<Rightarrow> 'e avl" where
  "set_child d c AVL_EMPTY = AVL_EMPTY"
| "set_child d c (AvlNode l k h r) = (if d then AvlNode l k h c else AvlNode c k h r)"

fun avlGetHeight :: "'e avl \<Rightarrow> nat" where
  "avlGetHeight AVL_EMPTY = 0"
| "avlGetHeight (AvlNode l k h r) = h"

fun avlFixHeight :: "'e avl \<Rightarrow> ross_error + 'e avl" where
  "avlFixHeight AVL_EMPTY = Inl (Assertion ''t != AVL_EMPTY'')"
| "avlFixHeight (AvlNode l k h r) = Inr (AvlNode l k (1 + max (avlGetHeight l) (avlGetHeight r)) r)"

text \<open>\<open>avlRotate\<close>: a missing \<open>child[d]\<close> is a null pointer that is followed.\<close>

fun avlRotate :: "'e avl \<Rightarrow> bool \<Rightarrow> ross_error + 'e avl" where
  "avlRotate oldRoot d =
     (case child d oldRoot of
        AVL_EMPTY \<Rightarrow> Inl Bad_Pointer
      | newRoot \<Rightarrow>
          let oldMiddle = child (\<not> d) newRoot in
          ebind (avlFixHeight (set_child d oldMiddle oldRoot)) (\<lambda>oldRoot.
            avlFixHeight (set_child (\<not> d) oldRoot newRoot)))"

text \<open>The body of the loop of \<open>avlRebalance\<close> for a \<open>child[d]\<close> that is too tall.\<close>

definition fix_tall :: "'e avl \<Rightarrow> bool \<Rightarrow> ross_error + 'e avl" where
  "fix_tall t d =
     (if avlGetHeight (child d (child d t)) > avlGetHeight (child (\<not> d) (child d t)) then avlRotate t d
      else ebind (avlRotate (child d t) (\<not> d)) (\<lambda>c. avlRotate (set_child d c t) d))"

definition avlRebalance :: "'e avl \<Rightarrow> ross_error + 'e avl" where
  "avlRebalance t =
     (if t = AVL_EMPTY then Inr t
      else if avlGetHeight (child False t) > avlGetHeight (child True t) + 1 then fix_tall t False
      else if avlGetHeight (child True t) > avlGetHeight (child False t) + 1 then fix_tall t True
      else avlFixHeight t)"

text \<open>\<open>avl_alloc\<close> and \<open>avl_free\<close> on the number of free nodes; the last one is never handed out.\<close>

definition avl_alloc :: "nat \<Rightarrow> ross_error + nat" where
  "avl_alloc n =
     (if n = 0 then Inl Bad_Pointer
      else if n = 1 then Inl (Tw_Error ''AVL tree out of memory.'')
      else Inr (n - 1))"

definition avl_free :: "nat \<Rightarrow> nat" where
  "avl_free n = n + 1"

fun avlDestroy :: "'e avl \<Rightarrow> nat \<Rightarrow> nat" where
  "avlDestroy AVL_EMPTY n = n"
| "avlDestroy (AvlNode l k h r) n = avl_free (avlDestroy r (avlDestroy l n))"

text \<open>
  The comparison of two events that all operations repeat: \<open>None\<close> when they are the same event,
  otherwise whether the first is the smaller.
\<close>

definition avl_less :: "'z tw_event_scheme \<Rightarrow> 'z tw_event_scheme \<Rightarrow> bool option" where
  "avl_less k t =
     (if cmp3 (ev_recv_ts k) (ev_recv_ts t) = 0 then
        if event_tiebreaker (qsig k) ! 0 = event_tiebreaker (qsig t) ! 0 then
          if event_id k = event_id t then
            if send_pe k = send_pe t then None
            else Some (\<not> send_pe k > send_pe t)
          else Some (\<not> event_id k > event_id t)
        else Some (\<not> event_tiebreaker (qsig k) ! 0 > event_tiebreaker (qsig t) ! 0)
      else Some (\<not> cmp3 (ev_recv_ts k) (ev_recv_ts t) > 0))"

definition avl_lt :: "(addr \<Rightarrow> 'z tw_event_scheme) \<Rightarrow> addr \<Rightarrow> addr \<Rightarrow> bool option" where
  "avl_lt hp a b = avl_less (hp a) (hp b)"

fun avlSearch :: "('e \<Rightarrow> 'e \<Rightarrow> bool option) \<Rightarrow> 'e avl \<Rightarrow> 'e \<Rightarrow> bool" where
  "avlSearch lt AVL_EMPTY key = False"
| "avlSearch lt (AvlNode l k h r) key =
     (case lt key k of None \<Rightarrow> True | Some True \<Rightarrow> avlSearch lt l key | Some False \<Rightarrow> avlSearch lt r key)"

text \<open>\<open>avlInsert\<close>: an identical event is reported on the console and goes to the left.\<close>

fun avlInsert :: "('e \<Rightarrow> 'e \<Rightarrow> bool option) \<Rightarrow> 'e avl \<Rightarrow> nat \<Rightarrow> 'e \<Rightarrow> ross_error + ('e avl \<times> nat)" where
  "avlInsert lt AVL_EMPTY n key = ebind (avl_alloc n) (\<lambda>n. Inr (AvlNode AVL_EMPTY key 1 AVL_EMPTY, n))"
| "avlInsert lt (AvlNode l k h r) n key =
     (if lt key k = Some False
      then ebind (avlInsert lt r n key) (\<lambda>(r, n). ebind (avlRebalance (AvlNode l k h r)) (\<lambda>t. Inr (t, n)))
      else ebind (avlInsert lt l n key) (\<lambda>(l, n). ebind (avlRebalance (AvlNode l k h r)) (\<lambda>t. Inr (t, n))))"

fun avlDeleteMin :: "'e avl \<Rightarrow> nat \<Rightarrow> ross_error + ('e \<times> 'e avl \<times> nat)" where
  "avlDeleteMin AVL_EMPTY n = Inl Bad_Pointer"
| "avlDeleteMin (AvlNode l k h r) n =
     (if l = AVL_EMPTY then ebind (avlRebalance r) (\<lambda>t. Inr (k, t, avl_free n))
      else ebind (avlDeleteMin l n) (\<lambda>(m, l, n). ebind (avlRebalance (AvlNode l k h r)) (\<lambda>t. Inr (m, t, n))))"

fun avlDelete :: "('e \<Rightarrow> 'e \<Rightarrow> bool option) \<Rightarrow> 'e avl \<Rightarrow> nat \<Rightarrow> 'e \<Rightarrow> ross_error + ('e \<times> 'e avl \<times> nat)" where
  "avlDelete lt AVL_EMPTY n key = Inl (Tw_Error ''We never look for non-existent events!'')"
| "avlDelete lt (AvlNode l k h r) n key =
     (case lt key k of
        None \<Rightarrow>
          if r \<noteq> AVL_EMPTY
          then ebind (avlDeleteMin r n) (\<lambda>(m, r, n). ebind (avlRebalance (AvlNode l m h r)) (\<lambda>t. Inr (k, t, n)))
          else ebind (avlRebalance l) (\<lambda>t. Inr (k, t, avl_free n))
      | Some True \<Rightarrow> ebind (avlDelete lt l n key) (\<lambda>(x, l, n). ebind (avlRebalance (AvlNode l k h r)) (\<lambda>t. Inr (x, t, n)))
      | Some False \<Rightarrow> ebind (avlDelete lt r n key) (\<lambda>(x, r, n). ebind (avlRebalance (AvlNode l k h r)) (\<lambda>t. Inr (x, t, n))))"

fun avlSanityCheck :: "'e avl \<Rightarrow> bool" where
  "avlSanityCheck AVL_EMPTY = True"
| "avlSanityCheck (AvlNode l k h r) \<longleftrightarrow>
     avlSanityCheck l \<and> avlSanityCheck r \<and> h = 1 + max (avlGetHeight l) (avlGetHeight r)"

section \<open>Rebalancing\<close>

fun elems :: "'e avl \<Rightarrow> 'e list" where
  "elems AVL_EMPTY = []"
| "elems (AvlNode l k h r) = elems l @ k # elems r"

fun nodes :: "'e avl \<Rightarrow> nat" where
  "nodes AVL_EMPTY = 0"
| "nodes (AvlNode l k h r) = 1 + nodes l + nodes r"

lemma nodes_elems: "nodes t = length (elems t)"
  by (induction t) auto

lemma height_pos [simp]: "avlSanityCheck t \<Longrightarrow> avlGetHeight t = 0 \<longleftrightarrow> t = AVL_EMPTY"
  by (cases t) auto

lemma rotate_ok:
  assumes "child d (AvlNode l k h r) \<noteq> AVL_EMPTY" "avlSanityCheck l" "avlSanityCheck r"
  shows "\<exists>t'. avlRotate (AvlNode l k h r) d = Inr t' \<and> avlSanityCheck t' \<and> elems t' = elems (AvlNode l k h r)"
  using assms by (cases d; cases l; cases r) auto

text \<open>
  Whatever the heights of the two subtrees, rebalancing succeeds, keeps the elements in order
  and leaves correct heights.
\<close>

lemma fix_tall_ok:
  assumes t: "t = AvlNode l k h r" and s: "avlSanityCheck l" "avlSanityCheck r"
    and tall: "avlGetHeight (child d t) > avlGetHeight (child (\<not> d) t) + 1"
  shows "\<exists>t'. fix_tall t d = Inr t' \<and> avlSanityCheck t' \<and> elems t' = elems t"
proof -
  let ?c = "child d t"
  have sc: "avlSanityCheck ?c" using t s by simp
  have ne: "?c \<noteq> AVL_EMPTY" using tall by (cases ?c) auto
  then obtain cl ck ch cr where c: "?c = AvlNode cl ck ch cr" by (cases ?c) auto
  show ?thesis
  proof (cases "avlGetHeight (child d ?c) > avlGetHeight (child (\<not> d) ?c)")
    case True
    then show ?thesis using rotate_ok[of d l k h r] ne t s by (simp add: fix_tall_def)
  next
    case False
    have "child (\<not> d) ?c \<noteq> AVL_EMPTY"
    proof
      assume "child (\<not> d) ?c = AVL_EMPTY"
      then have "avlGetHeight (child (\<not> d) ?c) = 0" "avlGetHeight (child d ?c) = 0" using False by simp_all
      then have "ch = 1" using sc c by (cases d) simp_all
      then show False using tall c by simp
    qed
    then obtain c' where c': "avlRotate ?c (\<not> d) = Inr c'" "avlSanityCheck c'" "elems c' = elems ?c"
      using rotate_ok[of "\<not> d" cl ck ch cr] c sc by auto
    have ne': "c' \<noteq> AVL_EMPTY" using c'(3) c by (cases c') auto
    obtain l' r' where t': "set_child d c' t = AvlNode l' k h r'" "avlSanityCheck l'" "avlSanityCheck r'"
      "elems l' @ k # elems r' = elems t" "child d (AvlNode l' k h r') = c'"
      using t s c' by (cases d) auto
    then obtain t'' where "avlRotate (set_child d c' t) d = Inr t''" "avlSanityCheck t''" "elems t'' = elems t"
      using rotate_ok[of d l' k h r'] ne' by auto
    then show ?thesis using False c'(1) by (simp add: fix_tall_def)
  qed
qed

lemma rebalance_ok:
  assumes "avlSanityCheck l" "avlSanityCheck r"
  shows "\<exists>t'. avlRebalance (AvlNode l k h r) = Inr t' \<and> avlSanityCheck t' \<and> elems t' = elems (AvlNode l k h r)"
  using fix_tall_ok[OF refl assms, of False k h] fix_tall_ok[OF refl assms, of True k h] assms
  by (auto simp: avlRebalance_def)

lemma rebalance_sane: "avlSanityCheck t \<Longrightarrow> \<exists>t'. avlRebalance t = Inr t' \<and> avlSanityCheck t' \<and> elems t' = elems t"
proof (cases t)
  case (AvlNode l k h r)
  then show "avlSanityCheck t \<Longrightarrow> ?thesis" using rebalance_ok[of l r k h] by simp
qed (simp add: avlRebalance_def)

section \<open>Operations\<close>

lemma delete_min_ok:
  "avlSanityCheck t \<Longrightarrow> t \<noteq> AVL_EMPTY \<Longrightarrow>
   \<exists>t'. avlDeleteMin t n = Inr (hd (elems t), t', n + 1) \<and> avlSanityCheck t' \<and> elems t' = tl (elems t)"
proof (induction t)
  case (AvlNode l k h r)
  show ?case
  proof (cases "l = AVL_EMPTY")
    case True
    then show ?thesis using rebalance_sane[of r] AvlNode.prems by (auto simp: avl_free_def)
  next
    case False
    then obtain l' where l': "avlDeleteMin l n = Inr (hd (elems l), l', n + 1)" "avlSanityCheck l'" "elems l' = tl (elems l)"
      using AvlNode by auto
    moreover obtain t' where "avlRebalance (AvlNode l' k h r) = Inr t'" "avlSanityCheck t'" "elems t' = elems (AvlNode l' k h r)"
      using rebalance_ok[of l' r k h] l'(2) AvlNode.prems by auto
    moreover have "elems l \<noteq> []" using False by (cases l) auto
    ultimately show ?thesis using False by simp
  qed
qed simp

lemma insort_right:
  "(\<forall>x \<in> set xs. key x < key e) \<Longrightarrow> key k < key e \<Longrightarrow>
   insort_key key e (xs @ k # ys) = xs @ k # insort_key key e ys"
  by (induction xs) auto

context keyed_cmp
begin

lemma avl_search:
  "key_sorted key (elems t) \<Longrightarrow> ok e \<Longrightarrow> \<forall>x \<in> set (elems t). ok x \<Longrightarrow>
   avlSearch lt t e \<longleftrightarrow> key e \<in> key ` set (elems t)"
proof (induction t)
  case (AvlNode l k h r)
  then show ?case by (cases "lt e k") (auto simp: lt split: bool.split if_splits)
qed simp

lemma avl_insert:
  assumes "avlSanityCheck t" "key_sorted key (elems t)" "key e \<notin> key ` set (elems t)"
    "ok e" "\<forall>x \<in> set (elems t). ok x" "2 \<le> n"
  shows "\<exists>t'. avlInsert lt t n e = Inr (t', n - 1) \<and> avlSanityCheck t' \<and> elems t' = insort_key key e (elems t)"
  using assms
proof (induction t)
  case AVL_EMPTY
  then show ?case by (simp add: avl_alloc_def)
next
  case (AvlNode l k h r)
  have ne: "key e \<noteq> key k" using AvlNode.prems by auto
  have l: "\<forall>x \<in> set (elems l). key x < key k" and r: "\<forall>x \<in> set (elems r). key k < key x"
    using AvlNode.prems(2) by auto
  show ?case
  proof (cases "key k < key e")
    case True
    then have d: "lt e k = Some False" using AvlNode.prems by simp
    obtain r' where r': "avlInsert lt r n e = Inr (r', n - 1)" "avlSanityCheck r'" "elems r' = insort_key key e (elems r)"
      using AvlNode.IH(2) AvlNode.prems by auto
    obtain t' where t': "avlRebalance (AvlNode l k h r') = Inr t'" "avlSanityCheck t'" "elems t' = elems (AvlNode l k h r')"
      using rebalance_ok[of l r' k h] r'(2) AvlNode.prems by auto
    have "insort_key key e (elems l @ k # elems r) = elems l @ k # insort_key key e (elems r)"
      using l True by (intro insort_right) auto
    then show ?thesis using d r' t' by simp
  next
    case False
    then have ek: "key e < key k" using ne by simp
    then have d: "lt e k = Some True" using AvlNode.prems by simp
    obtain l' where l': "avlInsert lt l n e = Inr (l', n - 1)" "avlSanityCheck l'" "elems l' = insort_key key e (elems l)"
      using AvlNode.IH(1) AvlNode.prems by auto
    obtain t' where t': "avlRebalance (AvlNode l' k h r) = Inr t'" "avlSanityCheck t'" "elems t' = elems (AvlNode l' k h r)"
      using rebalance_ok[of l' r k h] l'(2) AvlNode.prems by auto
    have "insort_key key e (xs @ k # ys) = insort_key key e xs @ k # ys" for xs ys
      using ek by (induction xs) auto
    then show ?thesis using d l' t' by simp
  qed
qed

lemma avl_delete:
  assumes "avlSanityCheck t" "key_sorted key (elems t)" "x \<in> set (elems t)" "key x = key e"
    "ok e" "\<forall>x \<in> set (elems t). ok x"
  shows "\<exists>t'. avlDelete lt t n e = Inr (x, t', n + 1) \<and> avlSanityCheck t' \<and> elems t' = remove1 x (elems t)"
  using assms
proof (induction t)
  case (AvlNode l k h r)
  have l: "\<forall>y \<in> set (elems l). key y < key k" and r: "\<forall>y \<in> set (elems r). key k < key y"
    using AvlNode.prems(2) by auto
  have s: "avlSanityCheck l" "avlSanityCheck r" using AvlNode.prems(1) by simp_all
  show ?case
  proof (cases "key e = key k")
    case True
    then have d: "lt e k = None" using AvlNode.prems by simp
    have x: "x = k" using AvlNode.prems(3,4) l r True by auto
    have nl: "k \<notin> set (elems l)" using l by auto
    show ?thesis
    proof (cases "r = AVL_EMPTY")
      case True
      then show ?thesis using d x nl rebalance_sane[OF s(1)] by (auto simp: avl_free_def remove1_append)
    next
      case False
      obtain r' where r': "avlDeleteMin r n = Inr (hd (elems r), r', n + 1)" "avlSanityCheck r'" "elems r' = tl (elems r)"
        using delete_min_ok[OF s(2) False] by blast
      obtain t' where "avlRebalance (AvlNode l (hd (elems r)) h r') = Inr t'" "avlSanityCheck t'"
        "elems t' = elems (AvlNode l (hd (elems r)) h r')"
        using rebalance_ok[OF s(1) r'(2)] by blast
      moreover have "elems r \<noteq> []" using False by (cases r) auto
      ultimately show ?thesis using d x nl r' False by (simp add: remove1_append)
    qed
  next
    case False
    show ?thesis
    proof (cases "key e < key k")
      case True
      then have d: "lt e k = Some True" using AvlNode.prems by simp
      have x: "x \<in> set (elems l)" using AvlNode.prems(3,4) True r by auto
      obtain l' where l': "avlDelete lt l n e = Inr (x, l', n + 1)" "avlSanityCheck l'" "elems l' = remove1 x (elems l)"
        using AvlNode.IH(1) AvlNode.prems x by auto
      obtain t' where t': "avlRebalance (AvlNode l' k h r) = Inr t'" "avlSanityCheck t'" "elems t' = elems (AvlNode l' k h r)"
        using rebalance_ok[OF l'(2) s(2)] by blast
      show ?thesis using d l' t' x by (simp add: remove1_append)
    next
      case gt: False
      then have ke: "key k < key e" using False by simp
      then have d: "lt e k = Some False" using AvlNode.prems by simp
      have x: "x \<in> set (elems r)" "x \<notin> set (elems l)" "x \<noteq> k" using AvlNode.prems(3,4) ke l by auto
      obtain r' where r': "avlDelete lt r n e = Inr (x, r', n + 1)" "avlSanityCheck r'" "elems r' = remove1 x (elems r)"
        using AvlNode.IH(2) AvlNode.prems x by auto
      obtain t' where t': "avlRebalance (AvlNode l k h r') = Inr t'" "avlSanityCheck t'" "elems t' = elems (AvlNode l k h r')"
        using rebalance_ok[OF s(1) r'(2)] by blast
      show ?thesis using d r' t' x by (simp add: remove1_append)
    qed
  qed
qed simp

lemma avl_delete_absent:
  assumes "avlSanityCheck t" "key_sorted key (elems t)" "key e \<notin> key ` set (elems t)" "ok e" "\<forall>x \<in> set (elems t). ok x"
  shows "avlDelete lt t n e = Inl (Tw_Error ''We never look for non-existent events!'')"
  using assms
proof (induction t)
  case (AvlNode l k h r)
  then show ?case by (cases "lt e k") (auto simp: lt image_Un split: bool.split if_splits)
qed simp

end

section \<open>Balance\<close>

fun avl_balanced :: "'e avl \<Rightarrow> bool" where
  "avl_balanced AVL_EMPTY = True"
| "avl_balanced (AvlNode l k h r) \<longleftrightarrow> avl_balanced l \<and> avl_balanced r \<and>
     avlGetHeight l \<le> avlGetHeight r + 1 \<and> avlGetHeight r \<le> avlGetHeight l + 1"

text \<open>
  A tree that grew by an insertion is a single node, or its two subtrees differ in height. This
  is what the choice between single and double rotation needs.
\<close>

definition grown :: "'e avl \<Rightarrow> 'e avl \<Rightarrow> bool" where
  "grown t t' \<longleftrightarrow> avlGetHeight t' = avlGetHeight t \<or>
     avlGetHeight t' = avlGetHeight t + 1 \<and>
       (t = AVL_EMPTY \<or> avlGetHeight (child False t') \<noteq> avlGetHeight (child True t'))"

lemma sane_node: "avlSanityCheck t \<Longrightarrow> avlGetHeight t = Suc n \<Longrightarrow>
    \<exists>l k r. t = AvlNode l k (Suc n) r \<and> n = max (avlGetHeight l) (avlGetHeight r) \<and> avlSanityCheck l \<and> avlSanityCheck r"
  by (cases t) auto

lemma height_small: "avlSanityCheck t \<Longrightarrow> avlGetHeight t \<le> Suc 0 \<Longrightarrow> Suc 0 \<noteq> avlGetHeight t \<Longrightarrow> t = AVL_EMPTY"
  by (cases t) auto

lemma rebalance_grown:
  assumes s: "avlSanityCheck c" "avlSanityCheck (AvlNode l k h r)" and b: "avl_balanced c" "avl_balanced (AvlNode l k h r)"
    and g: "grown (child d (AvlNode l k h r)) c"
    and t': "avlRebalance (set_child d c (AvlNode l k h r)) = Inr t'"
  shows "avl_balanced t' \<and> grown (AvlNode l k h r) t'"
proof (cases "avlGetHeight c > avlGetHeight (child (\<not> d) (AvlNode l k h r)) + 1")
  case False
  then show ?thesis using s b g t' by (cases d) (auto simp: avlRebalance_def grown_def max_def dest: height_small split: if_splits)
next
  case True
  define H where "H = avlGetHeight (child (\<not> d) (AvlNode l k h r))"
  have hc: "avlGetHeight c = Suc (Suc H)" "avlGetHeight (child d (AvlNode l k h r)) = Suc H"
    "avlGetHeight (child False c) \<noteq> avlGetHeight (child True c)"
    using True b g unfolding grown_def H_def by (cases d; cases "l = AVL_EMPTY"; cases "r = AVL_EMPTY"; auto)+
  obtain cl ck cr where c: "c = AvlNode cl ck (Suc (Suc H)) cr" "Suc H = max (avlGetHeight cl) (avlGetHeight cr)"
    "avlSanityCheck cl" "avlSanityCheck cr"
    using sane_node[OF s(1) hc(1)] by blast
  show ?thesis
  proof (cases d)
    case False
    note d = this
    have r: "avlGetHeight r = H" "avl_balanced r" using b d by (simp_all add: H_def)
    show ?thesis
    proof (cases "avlGetHeight cl > avlGetHeight cr")
      case True
      then show ?thesis using t' c b r d s hc
        by (auto simp: avlRebalance_def fix_tall_def grown_def max_def split: if_splits)
    next
      case False
      then have "avlGetHeight cr = Suc H" "avlGetHeight cl = H" using c hc b(1) by auto
      moreover obtain x y z where "cr = AvlNode x y (Suc H) z" "H = max (avlGetHeight x) (avlGetHeight z)"
        using sane_node[OF c(4) calculation(1)] by blast
      ultimately show ?thesis using t' c b r d s hc
        by (auto simp: avlRebalance_def fix_tall_def grown_def max_def split: if_splits)
    qed
  next
    case True
    note d = this
    have l: "avlGetHeight l = H" "avl_balanced l" using b d by (simp_all add: H_def)
    show ?thesis
    proof (cases "avlGetHeight cr > avlGetHeight cl")
      case True
      then show ?thesis using t' c b l d s hc
        by (auto simp: avlRebalance_def fix_tall_def grown_def max_def split: if_splits)
    next
      case False
      then have "avlGetHeight cl = Suc H" "avlGetHeight cr = H" using c hc b(1) by auto
      moreover obtain x y z where "cl = AvlNode x y (Suc H) z" "H = max (avlGetHeight x) (avlGetHeight z)"
        using sane_node[OF c(3) calculation(1)] by blast
      ultimately show ?thesis using t' c b l d s hc
        by (auto simp: avlRebalance_def fix_tall_def grown_def max_def split: if_splits)
    qed
  qed
qed

lemma insert_grown:
  "avlInsert lt t n e = Inr (t', n') \<Longrightarrow> avlSanityCheck t \<Longrightarrow> avl_balanced t \<Longrightarrow>
   avlSanityCheck t' \<and> avl_balanced t' \<and> grown t t'"
proof (induction t arbitrary: t' n')
  case AVL_EMPTY
  then show ?case by (auto simp: avl_alloc_def grown_def split: if_splits)
next
  case (AvlNode l k h r)
  define d where "d = (lt e k = Some False)"
  obtain c where c: "avlInsert lt (child d (AvlNode l k h r)) n e = Inr (c, n')"
    "avlRebalance (set_child d c (AvlNode l k h r)) = Inr t'"
    using AvlNode.prems(1) by (cases d) (auto simp: d_def bind_simps split: if_splits)
  have ih: "avlSanityCheck c \<and> avl_balanced c \<and> grown (child d (AvlNode l k h r)) c"
    using AvlNode.IH c(1) AvlNode.prems(2,3) by (cases d) auto
  obtain t1 where "avlRebalance (set_child d c (AvlNode l k h r)) = Inr t1" "avlSanityCheck t1"
    using rebalance_ok[of c r k h] rebalance_ok[of l c k h] ih AvlNode.prems(2) by (cases d) auto
  moreover have "avl_balanced t' \<and> grown (AvlNode l k h r) t'"
    using rebalance_grown[OF _ AvlNode.prems(2) _ AvlNode.prems(3) _ c(2)] ih by blast
  ultimately show ?case using c(2) by (metis sum.inject(2))
qed

section \<open>The order of the events\<close>

definition avl_key :: "'z tw_event_scheme \<Rightarrow> real \<times> real \<times> 32 word \<times> nat" where
  "avl_key e = (ev_recv_ts e, event_tiebreaker (qsig e) ! 0, event_id e, send_pe e)"

interpretation avl: keyed_cmp "avl_lt hp" "\<lambda>a. avl_key (hp a)" "\<lambda>_. True" for hp
  by unfold_locales (auto simp: avl_lt_def avl_less_def avl_key_def less_prod_def)

section \<open>Properties\<close>

text \<open>The store after the events \<open>es\<close> have arrived.\<close>

fun fill :: "(addr \<Rightarrow> 'z tw_event_scheme) \<Rightarrow> addr list \<Rightarrow> addr avl \<Rightarrow> nat \<Rightarrow> ross_error + (addr avl \<times> nat)" where
  "fill hp [] t n = Inr (t, n)"
| "fill hp (e # es) t n = ebind (avlInsert (avl_lt hp) t n e) (\<lambda>(t, n). fill hp es t n)"

definition store_ok :: "(addr \<Rightarrow> 'z tw_event_scheme) \<Rightarrow> addr avl \<Rightarrow> bool" where
  "store_ok hp t \<longleftrightarrow> avlSanityCheck t \<and> key_sorted (\<lambda>a. avl_key (hp a)) (elems t)"

lemma fill_ok:
  assumes "store_ok hp t" "avl_balanced t" "inj_on (\<lambda>a. avl_key (hp a)) (set es \<union> set (elems t))" "distinct es"
    "set es \<inter> set (elems t) = {}" "length es < n"
  shows "\<exists>t'. fill hp es t n = Inr (t', n - length es) \<and> store_ok hp t' \<and> avl_balanced t' \<and>
    set (elems t') = set es \<union> set (elems t)"
  using assms
proof (induction es arbitrary: t n)
  case (Cons e es)
  have ne: "avl_key (hp e) \<notin> (\<lambda>a. avl_key (hp a)) ` set (elems t)"
    using Cons.prems(3,5) by (auto dest: inj_onD)
  obtain t1 where t1: "avlInsert (avl_lt hp) t n e = Inr (t1, n - 1)" "avlSanityCheck t1"
    "elems t1 = insort_key (\<lambda>a. avl_key (hp a)) e (elems t)"
    using avl.avl_insert[of t hp e n] Cons.prems(1,6) ne by (auto simp: store_ok_def)
  have b1: "avl_balanced t1" using insert_grown[OF t1(1)] Cons.prems(1,2) by (simp add: store_ok_def)
  have ok1: "store_ok hp t1"
    using t1(2,3) key_sorted_insort[OF _ ne] Cons.prems(1) by (simp add: store_ok_def)
  have s1: "set (elems t1) = insert e (set (elems t))" by (simp add: t1(3) set_insort_key)
  have len: "length es < n - 1" using Cons.prems(6) by simp
  have inj: "inj_on (\<lambda>a. avl_key (hp a)) (set es \<union> set (elems t1))" "distinct es" "set es \<inter> set (elems t1) = {}"
    using Cons.prems(3,4,5) s1 by (auto simp: insert_commute)
  obtain t' where "fill hp es t1 (n - 1) = Inr (t', n - 1 - length es)" "store_ok hp t'" "avl_balanced t'"
    "set (elems t') = set es \<union> set (elems t1)"
    using Cons.IH[OF ok1 b1 inj len] by blast
  then show ?case using t1(1) s1 by auto
qed auto

text \<open>
  C33: the store is the set of the events that arrived. After any sequence of distinct events has
  been inserted, an anti-message, which carries the times, id and sender of one of them, finds
  and removes exactly that event, and gives back its node; the others stay. The tree has correct
  heights and, as long as nothing was deleted, is balanced.
\<close>

theorem avl_store_finds_cancelled:
  assumes "distinct es" "inj_on (\<lambda>a. avl_key (hp a)) (set es)" "length es < n"
    and x: "x \<in> set es" "avl_key (hp anti) = avl_key (hp x)"
  shows "\<exists>t t'. fill hp es AVL_EMPTY n = Inr (t, n - length es) \<and> avlSanityCheck t \<and> avl_balanced t \<and>
    avlSearch (avl_lt hp) t anti \<and>
    avlDelete (avl_lt hp) t (n - length es) anti = Inr (x, t', n - length es + 1) \<and>
    set (elems t') = set es - {x} \<and> \<not> avlSearch (avl_lt hp) t' anti"
proof -
  let ?key = "\<lambda>a. avl_key (hp a)"
  obtain t where t: "fill hp es AVL_EMPTY n = Inr (t, n - length es)" "store_ok hp t" "avl_balanced t" "set (elems t) = set es"
    using fill_ok[of hp AVL_EMPTY es n] assms by (auto simp: store_ok_def)
  have s: "avlSanityCheck t" "key_sorted ?key (elems t)" using t(2) by (simp_all add: store_ok_def)
  obtain t' where t': "avlDelete (avl_lt hp) t (n - length es) anti = Inr (x, t', n - length es + 1)" "avlSanityCheck t'"
    "elems t' = remove1 x (elems t)"
    using avl.avl_delete[OF s, of x anti "n - length es"] x t(4) by auto
  have "distinct (elems t)" using key_sorted_distinct[OF s(2)] by (simp add: distinct_map)
  then have st: "set (elems t') = set es - {x}" using t'(3) t(4) by simp
  have s': "key_sorted ?key (elems t')" using key_sorted_remove1[OF s(2)] t'(3) by simp
  have "\<not> avlSearch (avl_lt hp) t' anti"
    using avl.avl_search[OF s'] st x assms(2) by (auto dest: inj_onD)
  moreover have "avlSearch (avl_lt hp) t anti" using avl.avl_search[OF s(2), of anti] t(4) x by auto
  ultimately show ?thesis using t(1,3) s(1) t'(1) st by blast
qed

definition ex_store_event :: "nat \<Rightarrow> tw_event" where
  "ex_store_event t = \<lparr>nextp = None, prevp = None, qowner = TW_pe_pq,
     qsig = \<lparr>recv_ts = real t, priority = 1, tie_lineage_length = 1, event_tiebreaker = replicate MAX_TIE_CHAIN 0\<rparr>,
     caused_by_me = [], event_id = of_nat t, aborted_total = 0, st_cancel_q = False, st_cancel_asend = False,
     st_remote = True, critical_path = 0, dest_lp = 0, src_lp = 0, ev_recv_ts = real t, send_pe = 1, send_lp = 0,
     dest_lpid = 0, send_ts = 0, out_msgs = []\<rparr>"

lemma ex_store_key [simp]: "avl_key (ex_store_event s) = avl_key (ex_store_event t) \<longleftrightarrow> s = t"
  by (auto simp: avl_key_def ex_store_event_def)

text \<open>The anti-message is the event buffer 13, its original the event buffer 3.\<close>

theorem avl_store_finds_cancelled_witness:
  "\<exists>t t'. fill (\<lambda>a. ex_store_event (a mod 10)) [4, 2, 3, 7] AVL_EMPTY 16 = Inr (t, 12) \<and>
    avlDelete (avl_lt (\<lambda>a. ex_store_event (a mod 10))) t 12 13 = Inr (3, t', 13) \<and> set (elems t') = {4, 2, 7}"
  using avl_store_finds_cancelled[of "[4, 2, 3, 7]" "\<lambda>a. ex_store_event (a mod 10)" 16 3 13]
  by (auto simp: inj_on_def)

text \<open>
  The node list of the store is never used up: with \<open>N\<close> nodes and \<open>N - 1\<close> events stored, the
  next arrival ends the program with the error \<open>AVL tree out of memory\<close>, although one node is
  free (\<open>avl_alloc\<close> tests the successor of the node it is about to hand out).
\<close>

theorem avl_capacity:
  assumes "distinct es" "inj_on (\<lambda>a. avl_key (hp a)) (set es)" "length es + 1 = n"
  shows "\<exists>t. fill hp es AVL_EMPTY n = Inr (t, 1) \<and> nodes t = n - 1 \<and>
    avlInsert (avl_lt hp) t 1 e = Inl (Tw_Error ''AVL tree out of memory.'')"
proof -
  obtain t where t: "fill hp es AVL_EMPTY n = Inr (t, n - length es)" "store_ok hp t" "set (elems t) = set es"
    using fill_ok[of hp AVL_EMPTY es n] assms by (auto simp: store_ok_def)
  have "distinct (elems t)" using t(2) key_sorted_distinct[of "\<lambda>a. avl_key (hp a)" "elems t"]
    by (simp add: distinct_map store_ok_def)
  then have "nodes t = length es"
    using t(3) assms(1) by (metis nodes_elems distinct_card)
  moreover have "avlInsert lt t 1 e = Inl (Tw_Error ''AVL tree out of memory.'')" for lt :: "addr \<Rightarrow> addr \<Rightarrow> bool option" and t
    by (induction t) (simp_all add: avl_alloc_def)
  moreover have "n - length es = 1" using assms(3) by auto
  ultimately show ?thesis using t(1) assms(3) by auto
qed

theorem avl_capacity_witness:
  "\<exists>t. fill ex_store_event [4, 2, 3] AVL_EMPTY 4 = Inr (t, 1) \<and> nodes t = 3 \<and>
    avlInsert (avl_lt ex_store_event) t 1 7 = Inl (Tw_Error ''AVL tree out of memory.'')"
  using avl_capacity[of "[4, 2, 3]" ex_store_event 4 7] by (auto simp: inj_on_def)



end
