(* ===== verification/Network.thy ===== *)
theory Network
  imports Avl_Tree Batch
begin

text \<open>
  The network layer on MPI (\<open>core/network-mpi.c\<close>) and the event store it uses to find the
  events that other PEs cancel (the AVL variant of \<open>core/hash-quadratic.c\<close>).

  MPI itself is not part of the program. The three calls the layer makes in a run are fields of
  a record, functions on a state of the outside world: \<open>MPI_Isend\<close> is given the content of the
  event and the rank of the receiver, \<open>MPI_Irecv\<close> posts a buffer, and both give a request;
  \<open>MPI_Testsome\<close> gives the indices of the requests that are done, for a receive with the content
  that came in. \<open>None\<close> is a result other than \<open>MPI_SUCCESS\<close>.
\<close>

section \<open>State\<close>

record ('e, 'r, 'w) mpi =
  MPI_Isend :: "'e \<Rightarrow> nat \<Rightarrow> 'w \<Rightarrow> ('r \<times> 'w) option"
  MPI_Irecv :: "'w \<Rightarrow> ('r \<times> 'w) option"
  MPI_Testsome :: "'r option list \<Rightarrow> 'w \<Rightarrow> ((nat \<times> 'e option) list \<times> 'w) option"

text \<open>\<open>struct act_q\<close>: two arrays and the number of entries in use.\<close>

record 'r act_q =
  act_name :: string
  event_list :: "addr option list"
  req_list :: "'r option list"
  cur :: nat

record ('st, 'bf, 'm, 'r, 'w) net_pe = "('st, 'bf, 'm) tw_pe" +
  outq :: "addr list"
  posted_sends :: "'r act_q"
  posted_recvs :: "'r act_q"
  s_nwhite_sent :: int
  s_nwhite_recv :: int
  avl_tree :: "nat \<Rightarrow> addr avl"
  avl_nodes :: nat
  avl_tree_size :: int
  world :: 'w

record ('bf, 'm, 'r, 'w) net_config =
  the_mpi :: "(('bf, 'm) pevent, 'r, 'w) mpi"
  read_buffer :: nat
  send_buffer :: nat
  world_size :: nat
  net_fuel :: nat

definition init_q :: "string \<Rightarrow> nat \<Rightarrow> 'r act_q" where
  "init_q name len = \<lparr>act_name = name, event_list = replicate len None, req_list = replicate len None, cur = 0\<rparr>"

text \<open>The part of \<open>tw_net_start\<close> that chooses the protocol: a single PE runs sequentially.\<close>

definition start_protocol :: "nat \<Rightarrow> tw_synch \<Rightarrow> tw_synch" where
  "start_protocol nnodes p =
     (if nnodes = 1 then
        if p = NO_SYNCH then SEQUENTIAL
        else if p = CONSERVATIVE \<or> p = OPTIMISTIC then SEQUENTIAL
        else p
      else p)"

section \<open>The event store\<close>

text \<open>\<open>tw_hash_create\<close>: the option \<open>avl-size\<close> is the logarithm of the number of nodes.\<close>

definition tw_hash_create :: "nat \<Rightarrow> ('st, 'bf, 'm, 'r, 'w, 'z) net_pe_scheme \<Rightarrow> ('st, 'bf, 'm, 'r, 'w, 'z) net_pe_scheme" where
  "tw_hash_create avl_node_count pe = pe\<lparr>avl_tree_size := 0, avl_nodes := 2 ^ avl_node_count\<rparr>"

definition tw_hash_insert :: "('st, 'bf, 'm) config \<Rightarrow> addr \<Rightarrow> ('st, 'bf, 'm, 'r, 'w, 'z) net_pe_scheme
    \<Rightarrow> ross_error + ('st, 'bf, 'm, 'r, 'w, 'z) net_pe_scheme" where
  "tw_hash_insert c a pe =
     (let pe = pe\<lparr>avl_tree_size := avl_tree_size pe + 1\<rparr>;
          k = kp_of c (dest_lp (heap pe a))
      in ebind (avlInsert (avl_lt (heap pe)) (avl_tree pe k) (avl_nodes pe) a) (\<lambda>(t, n).
           Inr (pe\<lparr>avl_tree := (avl_tree pe)(k := t), avl_nodes := n\<rparr>)))"

definition tw_hash_remove :: "('st, 'bf, 'm) config \<Rightarrow> addr \<Rightarrow> ('st, 'bf, 'm, 'r, 'w, 'z) net_pe_scheme
    \<Rightarrow> ross_error + (addr \<times> ('st, 'bf, 'm, 'r, 'w, 'z) net_pe_scheme)" where
  "tw_hash_remove c a pe =
     (let pe = pe\<lparr>avl_tree_size := avl_tree_size pe - 1\<rparr>;
          k = kp_of c (dest_lp (heap pe a))
      in ebind (avlDelete (avl_lt (heap pe)) (avl_tree pe k) (avl_nodes pe) a) (\<lambda>(x, t, n).
           Inr (x, pe\<lparr>avl_tree := (avl_tree pe)(k := t), avl_nodes := n\<rparr>)))"

section \<open>Finished operations\<close>

text \<open>
  The second loop of \<open>test_q\<close>, which closes the gaps: \<open>i\<close> runs over the entries in use, of which
  \<open>k\<close> are left, and \<open>n\<close> is where the next one goes.
\<close>

fun collapse_loop :: "nat \<Rightarrow> nat \<Rightarrow> nat \<Rightarrow> 'r act_q \<Rightarrow> 'r act_q" where
  "collapse_loop 0 i n q = q"
| "collapse_loop (Suc k) i n q =
     (if event_list q ! i \<noteq> None then
        let q = (if i \<noteq> n then q\<lparr>event_list := (event_list q)[n := event_list q ! i],
                     req_list := (req_list q)[n := req_list q ! i]\<rparr> else q)
        in collapse_loop k (Suc i) (Suc n) q
      else collapse_loop k (Suc i) n q)"

text \<open>
  The first loop of \<open>test_q\<close>. The queue is one of two fields of the state, given by its selector
  and its update. MPI has written what it received into the buffers before.
\<close>

fun deliver :: "'r act_q \<Rightarrow> (nat \<times> ('bf, 'm) pevent option) list \<Rightarrow> ('st, 'bf, 'm, 'r, 'w, 'z) net_pe_scheme
    \<Rightarrow> ('st, 'bf, 'm, 'r, 'w, 'z) net_pe_scheme" where
  "deliver q [] pe = pe"
| "deliver q ((n, x) # xs) pe =
     deliver q xs (case (event_list q ! n, x) of (Some e, Some v) \<Rightarrow> upd_ev e (\<lambda>_. v) pe | _ \<Rightarrow> pe)"

fun finish_loop :: "(('st, 'bf, 'm, 'r, 'w, 'z) net_pe_scheme \<Rightarrow> 'r act_q)
    \<Rightarrow> (('r act_q \<Rightarrow> 'r act_q) \<Rightarrow> ('st, 'bf, 'm, 'r, 'w, 'z) net_pe_scheme \<Rightarrow> ('st, 'bf, 'm, 'r, 'w, 'z) net_pe_scheme)
    \<Rightarrow> (addr \<Rightarrow> ('st, 'bf, 'm, 'r, 'w, 'z) net_pe_scheme \<Rightarrow> ross_error + ('st, 'bf, 'm, 'r, 'w, 'z) net_pe_scheme)
    \<Rightarrow> nat list \<Rightarrow> ('st, 'bf, 'm, 'r, 'w, 'z) net_pe_scheme \<Rightarrow> ross_error + ('st, 'bf, 'm, 'r, 'w, 'z) net_pe_scheme" where
  "finish_loop q upd finish [] pe = Inr pe"
| "finish_loop q upd finish (n # ns) pe =
     (case event_list (q pe) ! n of
        None \<Rightarrow> Inl Bad_Pointer
      | Some e \<Rightarrow>
          ebind (finish e (upd (\<lambda>v. v\<lparr>event_list := (event_list v)[n := None]\<rparr>) pe)) (finish_loop q upd finish ns))"

text \<open>\<open>test_q\<close>; the result tells whether anything was finished.\<close>

definition test_q :: "('bf, 'm, 'r, 'w) net_config
    \<Rightarrow> (('st, 'bf, 'm, 'r, 'w, 'z) net_pe_scheme \<Rightarrow> 'r act_q)
    \<Rightarrow> (('r act_q \<Rightarrow> 'r act_q) \<Rightarrow> ('st, 'bf, 'm, 'r, 'w, 'z) net_pe_scheme \<Rightarrow> ('st, 'bf, 'm, 'r, 'w, 'z) net_pe_scheme)
    \<Rightarrow> (addr \<Rightarrow> ('st, 'bf, 'm, 'r, 'w, 'z) net_pe_scheme \<Rightarrow> ross_error + ('st, 'bf, 'm, 'r, 'w, 'z) net_pe_scheme)
    \<Rightarrow> ('st, 'bf, 'm, 'r, 'w, 'z) net_pe_scheme \<Rightarrow> ross_error + (bool \<times> ('st, 'bf, 'm, 'r, 'w, 'z) net_pe_scheme)" where
  "test_q nc q upd finish me =
     (if cur (q me) = 0 then Inr (False, me)
      else case MPI_Testsome (the_mpi nc) (take (cur (q me)) (req_list (q me))) (world me) of
        None \<Rightarrow> Inl (Tw_Error ''MPI_testsome failed'')
      | Some (ready, w) \<Rightarrow>
          let me = me\<lparr>world := w\<rparr> in
          if ready = [] then Inr (False, me)
          else
            ebind (finish_loop q upd finish (map fst ready) (deliver (q me) ready me)) (\<lambda>me.
              let me = upd (\<lambda>v. collapse_loop (cur v) 0 0 v) me;
                  me = upd (\<lambda>v. v\<lparr>cur := cur v - length ready\<rparr>) me
              in Inr (True, me)))"

section \<open>Receiving\<close>

text \<open>\<open>recv_begin\<close>; the first argument is the number of openings in the queue.\<close>

fun recv_begin_loop :: "nat \<Rightarrow> ('bf, 'm, 'r, 'w) net_config \<Rightarrow> bool \<Rightarrow> ('st, 'bf, 'm, 'r, 'w, 'z) net_pe_scheme
    \<Rightarrow> ross_error + (bool \<times> ('st, 'bf, 'm, 'r, 'w, 'z) net_pe_scheme)" where
  "recv_begin_loop 0 nc changed me = Inr (changed, me)"
| "recv_begin_loop (Suc k) nc changed me =
     (let id = cur (posted_recvs me) in
      case tw_event_grab me of
        (None, me) \<Rightarrow>
          if tw_gvt_inprogress me
          then Inl (Tw_Error ''Out of events in GVT! Consider increasing --extramem'')
          else Inr (changed, me)
      | (Some e, me) \<Rightarrow>
          (case MPI_Irecv (the_mpi nc) (world me) of
             None \<Rightarrow> Inr (changed, tw_event_free e me)
           | Some (r, w) \<Rightarrow>
               let me = me\<lparr>world := w, posted_recvs := (posted_recvs me)
                   \<lparr>req_list := (req_list (posted_recvs me))[id := Some r],
                    event_list := (event_list (posted_recvs me))[id := Some e],
                    cur := cur (posted_recvs me) + 1\<rparr>\<rparr>
               in recv_begin_loop k nc True me))"

definition recv_begin :: "('bf, 'm, 'r, 'w) net_config \<Rightarrow> ('st, 'bf, 'm, 'r, 'w, 'z) net_pe_scheme
    \<Rightarrow> ross_error + (bool \<times> ('st, 'bf, 'm, 'r, 'w, 'z) net_pe_scheme)" where
  "recv_begin nc me = recv_begin_loop (read_buffer nc - cur (posted_recvs me)) nc False me"

text \<open>
  \<open>recv_finish\<close>. The LPs of a process belong to its one PE, so \<open>dest_pe\<close> is \<open>me\<close> and the last
  error, an event for another PE, cannot occur.
\<close>

definition recv_finish :: "('st, 'bf, 'm) config \<Rightarrow> ('bf, 'm, 'r, 'w) net_config \<Rightarrow> addr
    \<Rightarrow> ('st, 'bf, 'm, 'r, 'w, 'z) net_pe_scheme \<Rightarrow> ross_error + ('st, 'bf, 'm, 'r, 'w, 'z) net_pe_scheme" where
  "recv_finish c nc e me =
     (let me = me\<lparr>s_nwhite_recv := s_nwhite_recv me + 1\<rparr>;
          me = upd_ev e (\<lambda>v. v\<lparr>dest_lp := local_lp c (dest_lp v)\<rparr>) me in
      if int (send_pe (heap me e)) > int (world_size nc) - 1 then Inl (Tw_Error ''bad sendpe_id'')
      else
        let me = upd_ev e (\<lambda>v. v\<lparr>caused_by_me := []\<rparr>) me in
        if tw_event_sig_compare_ptr (qsig (heap me e)) (GVT_sig me) < 0 then Inl (Tw_Error ''Received straggler'')
        else
          let me = note_transient (qsig (heap me e)) me in
          if st_cancel_q (heap me e) then
            ebind (tw_hash_remove c e me) (\<lambda>(cancel, me).
              let me = upd_ev cancel (\<lambda>v. v\<lparr>st_cancel_q := True, st_remote := False\<rparr>) me;
                  me = me\<lparr>cancel_q := cancel # cancel_q me\<rparr>
              in Inr (tw_event_free e me))
          else
            ebind (if protocol c = OPTIMISTIC \<or> protocol c = OPTIMISTIC_DEBUG \<or> protocol c = OPTIMISTIC_REALTIME
                   then ebind (tw_hash_insert c e me) (\<lambda>me. Inr (upd_ev e (\<lambda>v. v\<lparr>st_remote := True\<rparr>) me))
                   else Inr me) (\<lambda>me.
              if tw_event_sig_compare_ptr (last_sig (kps me (kp_of c (dest_lp (heap me e))))) (qsig (heap me e)) \<le> 0
                 \<and> cancel_q me = []
              then pq_enqueue e me
              else
                let me = upd_ev e (\<lambda>v. v\<lparr>qowner := TW_pe_event_q\<rparr>) me
                in Inr (me\<lparr>event_q := event_q me @ [e]\<rparr>)))"

section \<open>Sending\<close>

text \<open>
  \<open>send_begin\<close>; the first argument is the number of openings in the queue. The event sent is
  the one at the tail of the list of outgoing events.
\<close>

fun send_begin_loop :: "nat \<Rightarrow> ('st, 'bf, 'm) config \<Rightarrow> ('bf, 'm, 'r, 'w) net_config \<Rightarrow> bool
    \<Rightarrow> ('st, 'bf, 'm, 'r, 'w, 'z) net_pe_scheme \<Rightarrow> ross_error + (bool \<times> ('st, 'bf, 'm, 'r, 'w, 'z) net_pe_scheme)" where
  "send_begin_loop 0 c nc changed me = Inr (changed, me)"
| "send_begin_loop (Suc k) c nc changed me =
     (let id = cur (posted_sends me) in
      if outq me = [] then Inr (changed, me)
      else
        let e = last (outq me) in
        if e = abort_event c then Inl (Tw_Error ''Sending abort event!'')
        else
          let dest_pe = map_pe c (dest_lp (heap me e));
              me = upd_ev e (\<lambda>v. v\<lparr>send_pe := mynode c, send_lp := gid_of c (src_lp v)\<rparr>) me in
          case MPI_Isend (the_mpi nc) (heap me e) dest_pe (world me) of
            None \<Rightarrow> Inr (changed, me)
          | Some (r, w) \<Rightarrow>
              let me = me\<lparr>world := w, outq := butlast (outq me)\<rparr>;
                  me = upd_ev e (\<lambda>v. v\<lparr>qowner := (if st_cancel_q v then TW_net_acancel else TW_net_asend)\<rparr>) me;
                  me = me\<lparr>posted_sends := (posted_sends me)
                      \<lparr>req_list := (req_list (posted_sends me))[id := Some r],
                       event_list := (event_list (posted_sends me))[id := Some e],
                       cur := cur (posted_sends me) + 1\<rparr>,
                     s_nwhite_sent := s_nwhite_sent me + 1\<rparr>
              in send_begin_loop k c nc True me)"

definition send_begin :: "('st, 'bf, 'm) config \<Rightarrow> ('bf, 'm, 'r, 'w) net_config
    \<Rightarrow> ('st, 'bf, 'm, 'r, 'w, 'z) net_pe_scheme \<Rightarrow> ross_error + (bool \<times> ('st, 'bf, 'm, 'r, 'w, 'z) net_pe_scheme)" where
  "send_begin c nc me = send_begin_loop (send_buffer nc - cur (posted_sends me)) c nc False me"

definition send_finish :: "('st, 'bf, 'm) config \<Rightarrow> addr
    \<Rightarrow> ('st, 'bf, 'm, 'r, 'w, 'z) net_pe_scheme \<Rightarrow> ross_error + ('st, 'bf, 'm, 'r, 'w, 'z) net_pe_scheme" where
  "send_finish c e me =
     (if qowner (heap me e) = TW_net_asend then
        if st_cancel_asend (heap me e) then
          (let me = upd_ev e (\<lambda>v. v\<lparr>st_cancel_asend := False, st_cancel_q := True\<rparr>) me
           in Inr (me\<lparr>outq := outq me @ [e]\<rparr>))
        else
          (let me = upd_ev e (\<lambda>v. v\<lparr>qowner := TW_pe_sevent_q\<rparr>) me
           in Inr (if protocol c = CONSERVATIVE then tw_event_free e me else me))
      else if qowner (heap me e) = TW_net_acancel then Inr (tw_event_free e me)
      else Inl (Tw_Error ''Don't know how to finish send''))"

section \<open>The calls of the layer\<close>

text \<open>The loops run as long as a round changes anything; \<open>net_fuel\<close> bounds their rounds.\<close>

fun service_queues :: "nat \<Rightarrow> ('st, 'bf, 'm) config \<Rightarrow> ('bf, 'm, 'r, 'w) net_config
    \<Rightarrow> ('st, 'bf, 'm, 'r, 'w, 'z) net_pe_scheme \<Rightarrow> ross_error + ('st, 'bf, 'm, 'r, 'w, 'z) net_pe_scheme" where
  "service_queues 0 c nc me = Inl Out_Of_Fuel"
| "service_queues (Suc n) c nc me =
     ebind (test_q nc posted_recvs posted_recvs_update (recv_finish c nc) me) (\<lambda>(ch1, me).
     ebind (test_q nc posted_sends posted_sends_update (send_finish c) me) (\<lambda>(ch2, me).
     ebind (recv_begin nc me) (\<lambda>(ch3, me).
     ebind (send_begin c nc me) (\<lambda>(ch4, me).
       if ch1 \<or> ch2 \<or> ch3 \<or> ch4 then service_queues n c nc me else Inr me))))"

definition tw_net_read :: "('st, 'bf, 'm) config \<Rightarrow> ('bf, 'm, 'r, 'w) net_config
    \<Rightarrow> ('st, 'bf, 'm, 'r, 'w, 'z) net_pe_scheme \<Rightarrow> ross_error + ('st, 'bf, 'm, 'r, 'w, 'z) net_pe_scheme" where
  "tw_net_read c nc me = service_queues (net_fuel nc) c nc me"

fun send_loop :: "nat \<Rightarrow> ('st, 'bf, 'm) config \<Rightarrow> ('bf, 'm, 'r, 'w) net_config
    \<Rightarrow> ('st, 'bf, 'm, 'r, 'w, 'z) net_pe_scheme \<Rightarrow> ross_error + ('st, 'bf, 'm, 'r, 'w, 'z) net_pe_scheme" where
  "send_loop 0 c nc me = Inl Out_Of_Fuel"
| "send_loop (Suc n) c nc me =
     ebind (test_q nc posted_sends posted_sends_update (send_finish c) me) (\<lambda>(ch1, me).
     ebind (send_begin c nc me) (\<lambda>(ch2, me).
       if ch1 \<or> ch2 then send_loop n c nc me else Inr me))"

definition tw_net_send :: "('st, 'bf, 'm) config \<Rightarrow> ('bf, 'm, 'r, 'w) net_config \<Rightarrow> addr
    \<Rightarrow> ('st, 'bf, 'm, 'r, 'w, 'z) net_pe_scheme \<Rightarrow> ross_error + ('st, 'bf, 'm, 'r, 'w, 'z) net_pe_scheme" where
  "tw_net_send c nc e me =
     (let me = upd_ev e (\<lambda>v. v\<lparr>st_remote := False, qowner := TW_net_outq\<rparr>) me;
          me = me\<lparr>outq := e # outq me\<rparr>
      in send_loop (net_fuel nc) c nc me)"

definition tw_net_cancel :: "('st, 'bf, 'm) config \<Rightarrow> ('bf, 'm, 'r, 'w) net_config \<Rightarrow> addr
    \<Rightarrow> ('st, 'bf, 'm, 'r, 'w, 'z) net_pe_scheme \<Rightarrow> ross_error + ('st, 'bf, 'm, 'r, 'w, 'z) net_pe_scheme" where
  "tw_net_cancel c nc e me =
     (case qowner (heap me e) of
        TW_net_outq \<Rightarrow> Inr (tw_event_free e (me\<lparr>outq := remove1 e (outq me)\<rparr>))
      | TW_net_asend \<Rightarrow>
          service_queues (net_fuel nc) c nc (upd_ev e (\<lambda>v. v\<lparr>st_cancel_asend := True\<rparr>) me)
      | TW_pe_sevent_q \<Rightarrow>
          (let me = upd_ev e (\<lambda>v. v\<lparr>st_cancel_q := True\<rparr>) me
           in service_queues (net_fuel nc) c nc (me\<lparr>outq := e # outq me\<rparr>))
      | _ \<Rightarrow> Inl (Tw_Error ''Don't know how to cancel event''))"

text \<open>The two calls that the protocol makes.\<close>

definition mpi_net :: "('st, 'bf, 'm) config \<Rightarrow> ('bf, 'm, 'r, 'w) net_config
    \<Rightarrow> ('st, 'bf, 'm, 'r, 'w, 'z) net_pe_scheme net_ops" where
  "mpi_net c nc = \<lparr>net_send = tw_net_send c nc, net_cancel = tw_net_cancel c nc\<rparr>"

text \<open>\<open>tw_net_start\<close>, after the world size is known and the PE is set up.\<close>

definition tw_net_start :: "('bf, 'm, 'r, 'w) net_config \<Rightarrow> ('st, 'bf, 'm, 'r, 'w, 'z) net_pe_scheme
    \<Rightarrow> ross_error + ('st, 'bf, 'm, 'r, 'w, 'z) net_pe_scheme" where
  "tw_net_start nc me =
     (if send_buffer nc < 1 then Inl (Tw_Error ''network send buffer must be >= 1'')
      else if read_buffer nc < 1 then Inl (Tw_Error ''network read buffer must be >= 1'')
      else
        let me = me\<lparr>posted_sends := init_q ''MPI send queue'' (send_buffer nc),
                    posted_recvs := init_q ''MPI recv queue'' (read_buffer nc)\<rparr>
        in ebind (recv_begin nc me) (\<lambda>(changed, me). Inr me))"

section \<open>The least signature on its way out\<close>

fun min_sig_loop :: "(addr \<Rightarrow> ('bf, 'm) pevent) \<Rightarrow> addr list \<Rightarrow> tw_event_sig \<Rightarrow> tw_event_sig" where
  "min_sig_loop hp [] m = m"
| "min_sig_loop hp (e # es) m =
     min_sig_loop hp es (if tw_event_sig_compare_ptr m (qsig (hp e)) > 0 then qsig (hp e) else m)"

fun min_ts_loop :: "(addr \<Rightarrow> ('bf, 'm) pevent) \<Rightarrow> addr list \<Rightarrow> real \<Rightarrow> real" where
  "min_ts_loop hp [] m = m"
| "min_ts_loop hp (e # es) m = min_ts_loop hp es (if cmp3 m (ev_recv_ts (hp e)) > 0 then ev_recv_ts (hp e) else m)"

text \<open>The events of a queue, up to \<open>cur\<close>.\<close>

definition posted :: "'r act_q \<Rightarrow> addr list" where
  "posted q = map the (take (cur q) (event_list q))"

definition tw_net_minimum :: "('st, 'bf, 'm, 'r, 'w, 'z) net_pe_scheme \<Rightarrow> real" where
  "tw_net_minimum me = min_ts_loop (heap me) (posted (posted_sends me)) (min_ts_loop (heap me) (outq me) DBL_MAX)"

definition tw_net_minimum_sig_ptr :: "('st, 'bf, 'm, 'r, 'w, 'z) net_pe_scheme \<Rightarrow> tw_event_sig" where
  "tw_net_minimum_sig_ptr me =
     min_sig_loop (heap me) (posted (posted_sends me)) (min_sig_loop (heap me) (outq me) g_tw_max_sig)"

end
