(* ===== verification/Net_Lemmas.thy ===== *)
theory Net_Lemmas
  imports Network
begin

text \<open>
  The queues of posted operations (\<open>test_q\<close>), the sending side of the network layer with the
  termination of its loop, and the least signature on its way out (\<open>core/network-mpi.c\<close>).
\<close>

section \<open>The least signature on its way out\<close>

lemma min_sig_loop_ok:
  "\<forall>e \<in> set es. wf_sig (qsig (hp e)) \<Longrightarrow> wf_sig m \<Longrightarrow>
   wf_sig (min_sig_loop hp es m) \<and> sig_key (min_sig_loop hp es m) \<le> sig_key m \<and>
   (\<forall>e \<in> set es. sig_key (min_sig_loop hp es m) \<le> sig_key (qsig (hp e))) \<and>
   min_sig_loop hp es m \<in> insert m ((\<lambda>e. qsig (hp e)) ` set es)"
proof (induction es arbitrary: m)
  case (Cons e es)
  let ?m = "if tw_event_sig_compare_ptr m (qsig (hp e)) > 0 then qsig (hp e) else m"
  have m: "wf_sig ?m" "sig_key ?m \<le> sig_key m" "sig_key ?m \<le> sig_key (qsig (hp e))"
    using Cons.prems by (auto simp: tw_event_sig_compare_ptr_key)
  note ih = Cons.IH[of ?m]
  have "sig_key (min_sig_loop hp es ?m) \<le> sig_key ?m" using ih m(1) Cons.prems by auto
  then have le: "sig_key (min_sig_loop hp es ?m) \<le> sig_key m" "sig_key (min_sig_loop hp es ?m) \<le> sig_key (qsig (hp e))"
    using m(2,3) by (meson order_trans)+
  have "min_sig_loop hp es ?m \<in> insert ?m ((\<lambda>e. qsig (hp e)) ` set es)" using ih m(1) Cons.prems by auto
  then have "min_sig_loop hp es ?m \<in> insert m ((\<lambda>e. qsig (hp e)) ` set (e # es))" by (auto split: if_splits)
  moreover have "wf_sig (min_sig_loop hp es ?m)" "\<forall>x \<in> set es. sig_key (min_sig_loop hp es ?m) \<le> sig_key (qsig (hp x))"
    using ih m(1) Cons.prems by auto
  ultimately show ?case using le by simp
qed simp

section \<open>Arrays with holes\<close>

definition live :: "addr option list \<Rightarrow> addr list" where
  "live es = map the (filter (\<lambda>x. x \<noteq> None) es)"

lemma live_simps [simp]:
  "live [] = []" "live (Some e # es) = e # live es" "live (None # es) = live es"
  "live (xs @ ys) = live xs @ live ys"
  by (simp_all add: live_def)

lemma live_full: "None \<notin> set es \<Longrightarrow> live es = map the es"
  unfolding live_def by (metis (mono_tags, lifting) filter_True)

lemma in_live: "e \<in> set (live es) \<longleftrightarrow> Some e \<in> set es"
  by (force simp: live_def)

lemma live_clear:
  assumes "n < length es" "es ! n = Some e" "distinct (live es)"
  shows "live (es[n := None]) = remove1 e (live es)"
proof -
  have es: "es = take n es @ Some e # drop (Suc n) es" using id_take_nth_drop[OF assms(1)] assms(2) by simp
  have up: "es[n := None] = take n es @ None # drop (Suc n) es" by (rule upd_conv_take_nth_drop[OF assms(1)])
  have l: "live es = live (take n es) @ e # live (drop (Suc n) es)" by (subst es) simp
  have "e \<notin> set (live (take n es))" using assms(3) unfolding l by auto
  then show ?thesis unfolding up l by (simp add: remove1_append)
qed

definition slots :: "'r act_q \<Rightarrow> (addr option \<times> 'r option) list" where
  "slots q = zip (event_list q) (req_list q)"

definition entries :: "'r act_q \<Rightarrow> (addr option \<times> 'r option) list" where
  "entries q = take (cur q) (slots q)"

definition full_q :: "'r act_q \<Rightarrow> bool" where
  "full_q q \<longleftrightarrow> None \<notin> set (take (cur q) (event_list q))"

lemma live_map: "live (map f xs) = map (\<lambda>i. the (f i)) (filter (\<lambda>i. f i \<noteq> None) xs)"
  by (induction xs) auto

lemma fst_entries: "cur q \<le> length (event_list q) \<Longrightarrow> length (req_list q) = length (event_list q) \<Longrightarrow>
    take (cur q) (event_list q) = map fst (entries q) \<and> take (cur q) (req_list q) = map snd (entries q)"
  by (simp add: entries_def slots_def take_zip)

lemma full_entry:
  assumes "full_q q" "n < cur q" "cur q \<le> length (event_list q)"
  shows "event_list q ! n \<noteq> None"
  using assms by (auto simp: full_q_def in_set_conv_nth)

lemma collapse_loop_ok:
  assumes "i + k \<le> length (event_list q)" "length (req_list q) = length (event_list q)" "n \<le> i"
  shows "cur (collapse_loop k i n q) = cur q" "length (event_list (collapse_loop k i n q)) = length (event_list q)"
    "length (req_list (collapse_loop k i n q)) = length (event_list q)"
    "take (n + length (filter (\<lambda>x. fst x \<noteq> None) (take k (drop i (slots q))))) (slots (collapse_loop k i n q)) =
     take n (slots q) @ filter (\<lambda>x. fst x \<noteq> None) (take k (drop i (slots q)))"
  using assms
proof (induction k arbitrary: i n q)
  case (Suc k)
  {
    case 1 then show ?case using Suc.IH(1) by (simp add: Let_def)
  next
    case 2 then show ?case using Suc.IH(2) by (simp add: Let_def)
  next
    case 3 then show ?case using Suc.IH(3) by (simp add: Let_def)
  next
    case 4
    define q' where "q' = q\<lparr>event_list := (event_list q)[n := event_list q ! i], req_list := (req_list q)[n := req_list q ! i]\<rparr>"
    have i: "i < length (slots q)" using 4 by (simp add: slots_def)
    have d: "drop i (slots q) = slots q ! i # drop (Suc i) (slots q)" using i by (rule Cons_nth_drop_Suc[symmetric])
    have s: "slots q ! i = (event_list q ! i, req_list q ! i)" using i by (simp add: slots_def)
    show ?case
    proof (cases "event_list q ! i = None")
      case True
      then show ?thesis using Suc.IH(4)[of "Suc i" q n] 4 by (simp add: d s)
    next
      case False
      have q': "slots q' = (slots q)[n := slots q ! i]" by (simp add: q'_def slots_def zip_update s[unfolded slots_def])
      have col: "collapse_loop (Suc k) i n q = collapse_loop k (Suc i) (Suc n) q'"
      proof (cases "i = n")
        case True
        have "q' = q" using True by (simp add: q'_def)
        then show ?thesis using False True by simp
      qed (use False in \<open>simp add: q'_def Let_def\<close>)
      have t: "take (Suc n) (slots q') = take n (slots q) @ [slots q ! i]"
        using i 4 by (simp add: q' take_Suc_conv_app_nth)
      have dr: "drop (Suc i) (slots q') = drop (Suc i) (slots q)" using 4 by (simp add: q')
      show ?thesis
        using Suc.IH(4)[of "Suc i" q' "Suc n"] 4 False unfolding col t dr by (simp add: q'_def d s)
    qed
  }
qed simp_all

lemma collapse_entries:
  assumes "cur q \<le> length (event_list q)" "length (req_list q) = length (event_list q)"
  shows "take (length (filter (\<lambda>x. fst x \<noteq> None) (entries q))) (slots (collapse_loop (cur q) 0 0 q)) =
    filter (\<lambda>x. fst x \<noteq> None) (entries q)"
  using collapse_loop_ok(4)[of 0 "cur q" q 0] assms by (simp add: entries_def)

section \<open>Finished operations\<close>

text \<open>
  What \<open>test_q\<close> relies on: the queue is a field of the state, and finishing an operation leaves
  the queue alone.
\<close>

locale act_queue =
  fixes q :: "('st, 'bf, 'm, 'r, 'w, 'z) net_pe_scheme \<Rightarrow> 'r act_q"
    and upd :: "('r act_q \<Rightarrow> 'r act_q) \<Rightarrow> ('st, 'bf, 'm, 'r, 'w, 'z) net_pe_scheme \<Rightarrow> ('st, 'bf, 'm, 'r, 'w, 'z) net_pe_scheme"
    and finish :: "addr \<Rightarrow> ('st, 'bf, 'm, 'r, 'w, 'z) net_pe_scheme \<Rightarrow> ross_error + ('st, 'bf, 'm, 'r, 'w, 'z) net_pe_scheme"
  assumes q_upd [simp]: "q (upd f s) = f (q s)"
    and q_ev [simp]: "q (upd_ev a g s) = q s"
    and q_world [simp]: "q (s\<lparr>world := w\<rparr>) = q s"
    and q_finish: "finish e s = Inr s' \<Longrightarrow> q s' = q s"
begin

lemma q_deliver [simp]: "q (deliver v xs s) = q s"
  by (induction v xs s rule: deliver.induct) (simp_all split: option.split)

lemma finish_loop_q:
  "finish_loop q upd finish ns s = Inr s' \<Longrightarrow>
   q s' = (q s)\<lparr>event_list := fold (\<lambda>n es. es[n := None]) ns (event_list (q s))\<rparr>"
proof (induction ns arbitrary: s)
  case (Cons n ns)
  then obtain e s1 where "finish e (upd (\<lambda>v. v\<lparr>event_list := (event_list v)[n := None]\<rparr>) s) = Inr s1"
    "finish_loop q upd finish ns s1 = Inr s'"
    by (auto simp: bind_simps split: option.splits)
  then show ?case using Cons.IH q_finish by fastforce
qed simp

lemma clear_length [simp]: "length (fold (\<lambda>n es. es[n := None]) ns es) = length es"
  by (induction ns arbitrary: es) simp_all

lemma clear_nth: "i < length es \<Longrightarrow> fold (\<lambda>n es. es[n := None]) ns es ! i = (if i \<in> set ns then None else es ! i)"
  by (induction ns arbitrary: es) (auto simp: nth_list_update)

lemma test_q_entries:
  assumes t: "test_q nc q upd finish me = Inr (b, me')"
    and size: "cur (q me) \<le> length (event_list (q me))" "length (req_list (q me)) = length (event_list (q me))"
    and full: "None \<notin> set (take (cur (q me)) (event_list (q me)))"
    and mpi: "MPI_Testsome (the_mpi nc) (take (cur (q me)) (req_list (q me))) (world me) = Some (ready, w)"
    and idx: "distinct (map fst ready)" "set (map fst ready) \<subseteq> {..<cur (q me)}"
  shows "entries (q me') = map ((!) (entries (q me))) (filter (\<lambda>i. i \<notin> set (map fst ready)) [0..<cur (q me)])"
    "cur (q me') = cur (q me) - length ready"
    "length (event_list (q me')) = length (event_list (q me))" "length (req_list (q me')) = length (event_list (q me))"
proof -
  let ?q = "q me" and ?I = "set (map fst ready)"
  have ent: "length (entries ?q) = cur ?q" using size by (simp add: entries_def slots_def)
  have "entries (q me') = map ((!) (entries ?q)) (filter (\<lambda>i. i \<notin> ?I) [0..<cur ?q]) \<and> cur (q me') = cur ?q - length ready \<and>
    length (event_list (q me')) = length (event_list ?q) \<and> length (req_list (q me')) = length (event_list ?q)"
  proof (cases "cur ?q = 0 \<or> ready = []")
    case True
    then have r: "ready = []" using idx(2) by (cases ready) auto
    have "q me' = q me"
    proof (cases "cur ?q = 0")
      case True
      then show ?thesis using t by (simp add: test_q_def)
    next
      case False
      then have "me' = me\<lparr>world := w\<rparr>" using t mpi by (simp add: test_q_def r)
      then show ?thesis by simp
    qed
    then show ?thesis using map_nth[of "entries ?q"] size(2) r unfolding ent by simp
  next
    case False
    then obtain s where s: "finish_loop q upd finish (map fst ready) (deliver ?q ready (me\<lparr>world := w\<rparr>)) = Inr s"
      "me' = upd (\<lambda>v. v\<lparr>cur := cur v - length ready\<rparr>) (upd (\<lambda>v. collapse_loop (cur v) 0 0 v) s)"
      using t mpi by (auto simp: test_q_def bind_simps Let_def)
    define qs where "qs = q s"
    have qs: "qs = ?q\<lparr>event_list := fold (\<lambda>n es. es[n := None]) (map fst ready) (event_list ?q)\<rparr>"
      using finish_loop_q[OF s(1)] by (simp add: qs_def)
    have qm: "q me' = (collapse_loop (cur qs) 0 0 qs)\<lparr>cur := cur (collapse_loop (cur qs) 0 0 qs) - length ready\<rparr>"
      by (simp add: s(2) qs_def)
    have sz: "cur qs \<le> length (event_list qs)" "length (req_list qs) = length (event_list qs)"
      using size by (simp_all add: qs)
    note col = collapse_loop_ok(1-3)[of 0 "cur qs" qs 0]
    have fil: "filter (\<lambda>x. fst x \<noteq> None) (entries qs) = map ((!) (entries ?q)) (filter (\<lambda>i. i \<notin> ?I) [0..<cur ?q])"
    proof -
      have "entries qs = map (\<lambda>i. if i \<in> ?I then (None, req_list ?q ! i) else entries ?q ! i) [0..<cur ?q]"
        using size by (intro nth_equalityI) (auto simp: entries_def slots_def qs clear_nth)
      moreover have "fst (entries ?q ! i) \<noteq> None" if "i < cur ?q" for i
        using that full size by (auto simp: entries_def slots_def in_set_conv_nth)
      ultimately show ?thesis
        by (auto simp: filter_map o_def intro!: map_cong filter_cong)
    qed
    have len: "length (filter (\<lambda>x. fst x \<noteq> None) (entries qs)) = cur ?q - length ready"
    proof -
      have "card ?I = length ready" using distinct_card[OF idx(1)] by simp
      moreover have "length (filter (\<lambda>i. i \<notin> ?I) [0..<cur ?q]) = card ({..<cur ?q} - ?I)"
        by (subst distinct_card[symmetric]) (auto intro!: arg_cong[of _ _ card])
      ultimately show ?thesis using fil idx(2) by (simp add: card_Diff_subset)
    qed
    have cq: "cur (q me') = cur ?q - length ready" using col(1) sz by (simp add: qm qs)
    have "entries (q me') = take (cur ?q - length ready) (slots (collapse_loop (cur qs) 0 0 qs))"
      using cq by (simp add: entries_def qm slots_def)
    also have "\<dots> = filter (\<lambda>x. fst x \<noteq> None) (entries qs)" using collapse_entries[OF sz] len by simp
    also note fil
    finally have "entries (q me') = map ((!) (entries ?q)) (filter (\<lambda>i. i \<notin> ?I) [0..<cur ?q])" .
    moreover have "length (event_list (q me')) = length (event_list ?q)" "length (req_list (q me')) = length (event_list ?q)"
      using col(2,3) sz by (simp_all add: qm qs)
    ultimately show ?thesis using cq by simp
  qed
  then show "entries (q me') = map ((!) (entries (q me))) (filter (\<lambda>i. i \<notin> set (map fst ready)) [0..<cur (q me)])"
    "cur (q me') = cur (q me) - length ready"
    "length (event_list (q me')) = length (event_list (q me))" "length (req_list (q me')) = length (event_list (q me))"
    by simp_all
qed

text \<open>
  What is left when something was finished: the state is the one after the loop with the gaps
  closed, which loses no event and mixes no requests.
\<close>

lemma test_q_rest:
  assumes t: "test_q nc q upd finish me = Inr (b, me')"
    and size: "cur (q me) \<le> length (event_list (q me))" "length (req_list (q me)) = length (event_list (q me))"
    and full: "full_q (q me)"
    and mpi: "MPI_Testsome (the_mpi nc) (take (cur (q me)) (req_list (q me))) (world me) = Some (ready, w)"
    and idx: "distinct (map fst ready)" "set (map fst ready) \<subseteq> {..<cur (q me)}"
    and some: "cur (q me) \<noteq> 0" "ready \<noteq> []"
    and fin: "finish_loop q upd finish (map fst ready) (deliver (q me) ready (me\<lparr>world := w\<rparr>)) = Inr s"
  shows "me' = upd (\<lambda>v. v\<lparr>cur := cur v - length ready\<rparr>) (upd (\<lambda>v. collapse_loop (cur v) 0 0 v) s)"
    "live (take (cur (q me')) (event_list (q me'))) = live (take (cur (q s)) (event_list (q s)))"
    "full_q (q me')" "set (take (cur (q me')) (req_list (q me'))) \<subseteq> set (take (cur (q me)) (req_list (q me)))"
proof -
  let ?q = "q me" and ?I = "set (map fst ready)"
  show "me' = upd (\<lambda>v. v\<lparr>cur := cur v - length ready\<rparr>) (upd (\<lambda>v. collapse_loop (cur v) 0 0 v) s)"
    using t mpi some fin by (simp add: test_q_def Let_def)
  note te = test_q_entries[OF t size full[unfolded full_q_def] mpi idx]
  have fe: "take (cur (q me')) (event_list (q me')) = map fst (entries (q me'))"
    "take (cur (q me')) (req_list (q me')) = map snd (entries (q me'))"
    using fst_entries[of "q me'"] te(2-4) size by simp_all
  have el: "entries ?q ! j = (event_list ?q ! j, req_list ?q ! j)" if "j < cur ?q" for j
    using that size by (simp add: entries_def slots_def)
  have ok: "event_list ?q ! j \<noteq> None" if "j < cur ?q" for j
    using that full size by (auto simp: full_q_def in_set_conv_nth)
  have "fst x \<noteq> None" if "x \<in> set (entries (q me'))" for x
    using that ok by (auto simp: te(1) el)
  then show "full_q (q me')" unfolding full_q_def fe by force
  show "set (take (cur (q me')) (req_list (q me'))) \<subseteq> set (take (cur (q me)) (req_list (q me)))"
  proof
    fix r assume "r \<in> set (take (cur (q me')) (req_list (q me')))"
    then obtain j where "j < cur ?q" "r = req_list ?q ! j" by (auto simp: fe te(1) el)
    then show "r \<in> set (take (cur (q me)) (req_list (q me)))" using size by (auto simp: in_set_conv_nth)
  qed
  have "map fst (entries (q me')) = map (\<lambda>j. event_list ?q ! j) (filter (\<lambda>j. j \<notin> ?I) [0..<cur ?q])"
    unfolding te(1) by (auto simp: el)
  moreover have "filter (\<lambda>j. event_list ?q ! j \<noteq> None) (filter (\<lambda>j. j \<notin> ?I) [0..<cur ?q]) = filter (\<lambda>j. j \<notin> ?I) [0..<cur ?q]"
    using ok by (intro filter_True) auto
  ultimately have l: "live (take (cur (q me')) (event_list (q me'))) =
      map (\<lambda>j. the (event_list ?q ! j)) (filter (\<lambda>j. j \<notin> ?I) [0..<cur ?q])"
    by (simp only: fe live_map)
  have "q s = ?q\<lparr>event_list := fold (\<lambda>n es. es[n := None]) (map fst ready) (event_list ?q)\<rparr>"
    using finish_loop_q[OF fin] by simp
  moreover have "take (cur ?q) (fold (\<lambda>n es. es[n := None]) (map fst ready) (event_list ?q)) =
      map (\<lambda>j. if j \<in> ?I then None else event_list ?q ! j) [0..<cur ?q]"
    using size by (intro nth_equalityI) (auto simp: clear_nth)
  moreover have "filter (\<lambda>j. (if j \<in> ?I then None else event_list ?q ! j) \<noteq> None) [0..<cur ?q] = filter (\<lambda>j. j \<notin> ?I) [0..<cur ?q]"
    using ok by (intro filter_cong) auto
  ultimately have "live (take (cur (q s)) (event_list (q s))) =
      map (\<lambda>j. the (event_list ?q ! j)) (filter (\<lambda>j. j \<notin> ?I) [0..<cur ?q])"
    by (auto simp: live_map)
  with l show "live (take (cur (q me')) (event_list (q me'))) = live (take (cur (q s)) (event_list (q s)))" by simp
qed

end

lemma upd_ev_net [simp]:
  "posted_sends (upd_ev a g s) = posted_sends s" "posted_recvs (upd_ev a g s) = posted_recvs s"
  "outq (upd_ev a g s) = outq s" "world (upd_ev a g s) = world s" "avl_tree (upd_ev a g s) = avl_tree s"
  "avl_nodes (upd_ev a g s) = avl_nodes s" "avl_tree_size (upd_ev a g s) = avl_tree_size s"
  "s_nwhite_sent (upd_ev a g s) = s_nwhite_sent s" "s_nwhite_recv (upd_ev a g s) = s_nwhite_recv s"
  by (simp_all add: upd_ev_def)

lemma free_net [simp]:
  "posted_sends (tw_event_free a s) = posted_sends s" "posted_recvs (tw_event_free a s) = posted_recvs s"
  "outq (tw_event_free a s) = outq s" "world (tw_event_free a s) = world s" "avl_tree (tw_event_free a s) = avl_tree s"
  "avl_nodes (tw_event_free a s) = avl_nodes s" "avl_tree_size (tw_event_free a s) = avl_tree_size s"
  "s_nwhite_sent (tw_event_free a s) = s_nwhite_sent s" "s_nwhite_recv (tw_event_free a s) = s_nwhite_recv s"
  by (simp_all add: tw_event_free_def tw_free_output_messages_def Let_def)

lemma note_net [simp]:
  "posted_sends (note_transient g s) = posted_sends s" "posted_recvs (note_transient g s) = posted_recvs s"
  "outq (note_transient g s) = outq s" "world (note_transient g s) = world s" "avl_tree (note_transient g s) = avl_tree s"
  "avl_nodes (note_transient g s) = avl_nodes s" "avl_tree_size (note_transient g s) = avl_tree_size s"
  "s_nwhite_sent (note_transient g s) = s_nwhite_sent s" "s_nwhite_recv (note_transient g s) = s_nwhite_recv s"
  by (simp_all add: note_transient_def)

lemma pq_enqueue_net:
  "pq_enqueue a s = Inr s' \<Longrightarrow> posted_sends s' = posted_sends s \<and> posted_recvs s' = posted_recvs s \<and> outq s' = outq s \<and>
     s_nwhite_sent s' = s_nwhite_sent s \<and> s_nwhite_recv s' = s_nwhite_recv s \<and> avl_tree s' = avl_tree s \<and>
     avl_nodes s' = avl_nodes s \<and> world s' = world s"
  by (auto simp: pq_enqueue_def bind_simps Let_def)

lemma hash_net:
  "tw_hash_insert c a s = Inr s' \<Longrightarrow> posted_sends s' = posted_sends s \<and> posted_recvs s' = posted_recvs s \<and> outq s' = outq s \<and>
     s_nwhite_sent s' = s_nwhite_sent s \<and> s_nwhite_recv s' = s_nwhite_recv s"
  "tw_hash_remove c a s = Inr (x, s') \<Longrightarrow> posted_sends s' = posted_sends s \<and> posted_recvs s' = posted_recvs s \<and> outq s' = outq s \<and>
     s_nwhite_sent s' = s_nwhite_sent s \<and> s_nwhite_recv s' = s_nwhite_recv s"
  by (auto simp: tw_hash_insert_def tw_hash_remove_def bind_simps Let_def)

lemma recv_finish_net:
  "recv_finish c nc e s = Inr s' \<Longrightarrow> posted_sends s' = posted_sends s \<and> posted_recvs s' = posted_recvs s \<and> outq s' = outq s \<and>
     s_nwhite_sent s' = s_nwhite_sent s \<and> s_nwhite_recv s' = s_nwhite_recv s + 1"
  by (auto simp: recv_finish_def bind_simps Let_def dest!: hash_net pq_enqueue_net split: if_splits)

lemma send_finish_net:
  "send_finish c e s = Inr s' \<Longrightarrow> posted_sends s' = posted_sends s \<and> posted_recvs s' = posted_recvs s \<and>
     s_nwhite_sent s' = s_nwhite_sent s \<and> s_nwhite_recv s' = s_nwhite_recv s"
  by (auto simp: send_finish_def Let_def split: if_splits)

interpretation recvs: act_queue posted_recvs posted_recvs_update "recv_finish c nc" for c nc
  by unfold_locales (auto dest: recv_finish_net)

interpretation sends: act_queue posted_sends posted_sends_update "send_finish c" for c
  by unfold_locales (auto dest: send_finish_net)

end
