(* ===== verification/Net_Send.thy ===== *)
theory Net_Send
  imports Net_Lemmas
begin

text \<open>
  The sending side of the network layer (\<open>core/network-mpi.c\<close>): the loop of \<open>tw_net_send\<close>
  ends, and no event on its way out is lost.
\<close>

section \<open>What MPI promises\<close>

text \<open>
  Errors of MPI end the program, so a call that returns has succeeded. \<open>MPI_Testsome\<close> reports
  requests of its argument, each once, and nothing is written to the buffer of a send
  (\<open>is_send\<close> tells the requests of sends).
\<close>

definition mpi_ok :: "('r \<Rightarrow> bool) \<Rightarrow> ('e, 'r, 'w) mpi \<Rightarrow> bool" where
  "mpi_ok is_send m \<longleftrightarrow>
     (\<forall>e d w. \<exists>r w'. MPI_Isend m e d w = Some (r, w') \<and> is_send r) \<and>
     (\<forall>rs w. \<exists>ready w'. MPI_Testsome m rs w = Some (ready, w') \<and> distinct (map fst ready) \<and>
        (\<forall>(i, x) \<in> set ready. i < length rs \<and> (\<forall>r. rs ! i = Some r \<longrightarrow> is_send r \<longrightarrow> x = None)))"

section \<open>Events on their way out\<close>

definition in_transit :: "('st, 'bf, 'm, 'r, 'w, 'z) net_pe_scheme \<Rightarrow> addr list" where
  "in_transit s = live (take (cur (posted_sends s)) (event_list (posted_sends s)))"

definition outgoing :: "('st, 'bf, 'm, 'r, 'w, 'z) net_pe_scheme \<Rightarrow> addr list" where
  "outgoing s = outq s @ in_transit s"

definition sends_inv :: "('r \<Rightarrow> bool) \<Rightarrow> ('st, 'bf, 'm) config \<Rightarrow> ('bf, 'm, 'r, 'w) net_config
    \<Rightarrow> ('st, 'bf, 'm, 'r, 'w, 'z) net_pe_scheme \<Rightarrow> bool" where
  "sends_inv is_send c nc s \<longleftrightarrow>
     (let q = posted_sends s in
      cur q \<le> send_buffer nc \<and> length (event_list q) = send_buffer nc \<and> length (req_list q) = send_buffer nc \<and>
      (\<forall>r \<in> set (take (cur q) (req_list q)). \<exists>x. r = Some x \<and> is_send x) \<and>
      distinct (outgoing s) \<and> abort_event c \<notin> set (outgoing s) \<and>
      (\<forall>e \<in> set (in_transit s). qowner (heap s e) = (if st_cancel_q (heap s e) then TW_net_acancel else TW_net_asend)))"

text \<open>
  An event that is cancelled is sent once more, so that an event in the list counts for two
  sends and two completions, and a cancelled one for half as many.
\<close>

definition send_weight :: "('st, 'bf, 'm, 'r, 'w, 'z) net_pe_scheme \<Rightarrow> nat" where
  "send_weight s =
     (\<Sum>e \<leftarrow> outq s. if st_cancel_q (heap s e) then 2 else 4) +
     (\<Sum>e \<leftarrow> in_transit s. if st_cancel_q (heap s e) then 1 else 3)"

text \<open>The event is to be, or was, cancelled at its receiver.\<close>

definition revoked :: "('bf, 'm) pevent \<Rightarrow> bool" where
  "revoked e \<longleftrightarrow> st_cancel_q e \<or> st_cancel_asend e"

text \<open>
  What becomes of an event: it is still on its way, or it was sent and kept for a later
  cancellation, or it was sent and its buffer is free, which happens to a revoked event after
  the cancellation was sent.
\<close>

definition fate :: "('st, 'bf, 'm) config \<Rightarrow> ('st, 'bf, 'm, 'r, 'w, 'z) net_pe_scheme \<Rightarrow> addr \<Rightarrow> bool" where
  "fate c s e \<longleftrightarrow> e \<in> set (outgoing s) \<or>
     qowner (heap s e) = TW_pe_sevent_q \<and> \<not> revoked (heap s e) \<or>
     qowner (heap s e) = TW_pe_free_q \<and> e \<in> set (free_q s) \<and> (revoked (heap s e) \<or> protocol c = CONSERVATIVE)"

text \<open>The part of the state that sending leaves alone.\<close>

definition net_frame :: "('st, 'bf, 'm, 'r, 'w, 'z) net_pe_scheme \<Rightarrow> ('st, 'bf, 'm, 'r, 'w, 'z) net_pe_scheme \<Rightarrow> bool" where
  "net_frame s s' \<longleftrightarrow>
     lps s' = lps s \<and> kps s' = kps s \<and> event_q s' = event_q s \<and> cancel_q s' = cancel_q s \<and> pq s' = pq s \<and>
     cur_event s' = cur_event s \<and> cev_abort s' = cev_abort s \<and> GVT_sig s' = GVT_sig s \<and> seq_num s' = seq_num s \<and>
     trans_msg_sig s' = trans_msg_sig s \<and> gvt_status s' = gvt_status s \<and> s_nwhite_recv s' = s_nwhite_recv s"

lemma net_frame_refl [simp]: "net_frame s s"
  by (simp add: net_frame_def)

lemma net_frame_trans: "net_frame s s' \<Longrightarrow> net_frame s' s'' \<Longrightarrow> net_frame s s''"
  by (simp add: net_frame_def)

text \<open>An event is the same when it has the same time and id; its sender is filled in.\<close>

definition same_event :: "('st, 'bf, 'm) config \<Rightarrow> ('bf, 'm) pevent \<Rightarrow> ('bf, 'm) pevent \<Rightarrow> bool" where
  "same_event c v v' \<longleftrightarrow> qsig v' = qsig v \<and> ev_recv_ts v' = ev_recv_ts v \<and> event_id v' = event_id v \<and>
     (send_pe v' = send_pe v \<or> send_pe v' = mynode c)"

lemma same_event_refl [simp]: "same_event c v v"
  by (simp add: same_event_def)

lemma same_event_trans: "same_event c v v' \<Longrightarrow> same_event c v' v'' \<Longrightarrow> same_event c v v''"
  by (auto simp: same_event_def)

text \<open>A buffer enters the free list when it leaves the network.\<close>

definition freed :: "('st, 'bf, 'm, 'r, 'w, 'z) net_pe_scheme \<Rightarrow> ('st, 'bf, 'm, 'r, 'w, 'z) net_pe_scheme \<Rightarrow> bool" where
  "freed s s' \<longleftrightarrow> (\<exists>fs. free_q s' = fs @ free_q s \<and> distinct fs \<and> set fs \<subseteq> set (outgoing s) - set (outgoing s'))"

definition sent :: "('st, 'bf, 'm) config \<Rightarrow> ('st, 'bf, 'm, 'r, 'w, 'z) net_pe_scheme
    \<Rightarrow> ('st, 'bf, 'm, 'r, 'w, 'z) net_pe_scheme \<Rightarrow> bool" where
  "sent c s s' \<longleftrightarrow>
     (\<forall>a. revoked (heap s' a) = revoked (heap s a)) \<and>
     (\<forall>a. a \<notin> set (outgoing s) \<longrightarrow> heap s' a = heap s a \<and> a \<notin> set (outgoing s')) \<and>
     (\<forall>a \<in> set (outgoing s). fate c s' a \<and> same_event c (heap s a) (heap s' a)) \<and> freed s s' \<and> net_frame s s'"

lemma sent_refl [simp]: "sent c s s"
  by (simp add: sent_def fate_def freed_def)

lemma freed_subset: "freed s s' \<Longrightarrow> set (free_q s) \<subseteq> set (free_q s')"
  by (auto simp: freed_def)

lemma sent_trans:
  assumes a: "sent c s s'" and b: "sent c s' s''"
  shows "sent c s s''"
proof -
  have fr: "freed s s''"
  proof -
    obtain fs where fs: "free_q s' = fs @ free_q s" "distinct fs" "set fs \<subseteq> set (outgoing s) - set (outgoing s')"
      using a by (auto simp: sent_def freed_def)
    obtain gs where gs: "free_q s'' = gs @ free_q s'" "distinct gs" "set gs \<subseteq> set (outgoing s') - set (outgoing s'')"
      using b by (auto simp: sent_def freed_def)
    have o1: "set (outgoing s') \<subseteq> set (outgoing s)" using a unfolding sent_def by blast
    have o2: "set (outgoing s'') \<subseteq> set (outgoing s')" using b unfolding sent_def by blast
    have "distinct (gs @ fs)" using fs(2,3) gs(2,3) by auto
    moreover have "set (gs @ fs) \<subseteq> set (outgoing s) - set (outgoing s'')" using fs(3) gs(3) o1 o2 by auto
    ultimately show ?thesis using fs(1) gs(1) unfolding freed_def by (intro exI[of _ "gs @ fs"]) simp
  qed
  have "fate c s'' e \<and> same_event c (heap s e) (heap s'' e)" if e: "e \<in> set (outgoing s)" for e
  proof (cases "e \<in> set (outgoing s')")
    case True
    then show ?thesis using a b e same_event_trans unfolding sent_def by metis
  next
    case False
    then have "heap s'' e = heap s' e" "set (free_q s') \<subseteq> set (free_q s'')" using b freed_subset by (auto simp: sent_def)
    moreover have "fate c s' e" "same_event c (heap s e) (heap s' e)" using a e by (simp_all add: sent_def)
    ultimately show ?thesis using False by (auto simp: fate_def)
  qed
  moreover have "net_frame s s''"
    using a b net_frame_trans by (auto simp: sent_def)
  moreover have "heap s'' x = heap s x \<and> x \<notin> set (outgoing s'')" if "x \<notin> set (outgoing s)" for x
    using a b that by (simp add: sent_def)
  ultimately show ?thesis using a b fr by (simp add: sent_def)
qed

section \<open>One finished send\<close>

lemma in_transit_clear:
  assumes "n < cur (posted_sends s)" "cur (posted_sends s) \<le> length (event_list (posted_sends s))"
    "event_list (posted_sends s) ! n = Some e" "distinct (in_transit s)"
  shows "in_transit (posted_sends_update (\<lambda>v. v\<lparr>event_list := (event_list v)[n := None]\<rparr>) s) = remove1 e (in_transit s)"
    "e \<in> set (in_transit s)"
proof -
  let ?es = "take (cur (posted_sends s)) (event_list (posted_sends s))"
  have n: "n < length ?es" "?es ! n = Some e" using assms by simp_all
  show "in_transit (posted_sends_update (\<lambda>v. v\<lparr>event_list := (event_list v)[n := None]\<rparr>) s) = remove1 e (in_transit s)"
    using live_clear[OF n] assms(4) by (simp add: in_transit_def take_update_swap)
  have "Some e \<in> set ?es" using n by (metis nth_mem)
  then show "e \<in> set (in_transit s)" by (simp add: in_transit_def in_live)
qed

lemma sum_list_cong: "(\<And>x. x \<in> set xs \<Longrightarrow> f x = g x) \<Longrightarrow> sum_list (map f xs) = sum_list (map g xs)"
  by (metis map_cong)

lemma sum_list_remove1: "e \<in> set xs \<Longrightarrow> sum_list (map f xs) = f e + sum_list (map f (remove1 e xs))"
  for f :: "'a \<Rightarrow> nat"
  by (rule sum_list_map_remove1)

text \<open>What becomes of the buffer, and whether it goes out again.\<close>

definition finished :: "('st, 'bf, 'm) config \<Rightarrow> ('bf, 'm) pevent \<Rightarrow> ('bf, 'm) pevent" where
  "finished c v =
     (if st_cancel_q v then v\<lparr>out_msgs := [], qowner := TW_pe_free_q\<rparr>
      else if st_cancel_asend v then v\<lparr>st_cancel_asend := False, st_cancel_q := True\<rparr>
      else if protocol c = CONSERVATIVE then v\<lparr>out_msgs := [], qowner := TW_pe_free_q\<rparr>
      else v\<lparr>qowner := TW_pe_sevent_q\<rparr>)"

definition resend :: "('bf, 'm) pevent \<Rightarrow> bool" where
  "resend v \<longleftrightarrow> \<not> st_cancel_q v \<and> st_cancel_asend v"

lemma send_finish_effect:
  assumes "qowner (heap s e) = (if st_cancel_q (heap s e) then TW_net_acancel else TW_net_asend)"
  shows "\<exists>s'. send_finish c e s = Inr s' \<and> heap s' = (heap s)(e := finished c (heap s e)) \<and>
    outq s' = outq s @ (if resend (heap s e) then [e] else []) \<and> posted_sends s' = posted_sends s \<and> world s' = world s \<and>
    free_q s' = (if qowner (finished c (heap s e)) = TW_pe_free_q then e # free_q s else free_q s) \<and>
    net_frame s s'"
proof (cases "st_cancel_q (heap s e)")
  case True
  then show ?thesis using assms
    by (auto simp: send_finish_def finished_def resend_def pe_simps net_frame_def tw_event_free_def tw_free_output_messages_def Let_def)
next
  case False
  then show ?thesis using assms
    by (cases "st_cancel_asend (heap s e)"; cases "protocol c = CONSERVATIVE")
      (auto simp: send_finish_def finished_def resend_def pe_simps net_frame_def tw_event_free_def tw_free_output_messages_def Let_def)
qed

lemma finished_sel:
  "revoked (finished c v) = revoked v" "same_event c' v (finished c v)" "resend v \<Longrightarrow> st_cancel_q (finished c v)"
  "\<not> resend v \<Longrightarrow> qowner (finished c v) = TW_pe_sevent_q \<and> \<not> revoked v \<or>
     qowner (finished c v) = TW_pe_free_q \<and> (revoked v \<or> protocol c = CONSERVATIVE)"
  by (auto simp: finished_def resend_def revoked_def same_event_def)

lemma finished_resend: "resend v \<Longrightarrow> qowner (finished c v) = qowner v"
  by (auto simp: finished_def resend_def)

lemma send_finish_ok:
  fixes s :: "('st, 'bf, 'm, 'r, 'w, 'z) net_pe_scheme"
  assumes i: "sends_inv is_send c nc s" and n: "n < cur (posted_sends s)" "event_list (posted_sends s) ! n = Some e"
  shows "\<exists>s'. send_finish c e (posted_sends_update (\<lambda>v. v\<lparr>event_list := (event_list v)[n := None]\<rparr>) s) = Inr s' \<and>
    sends_inv is_send c nc s' \<and> sent c s s' \<and> send_weight s' < send_weight s \<and>
    posted_sends s' = (posted_sends s)\<lparr>event_list := (event_list (posted_sends s))[n := None]\<rparr> \<and> world s' = world s"
proof -
  let ?s = "posted_sends_update (\<lambda>v. v\<lparr>event_list := (event_list v)[n := None]\<rparr>) s"
  let ?v = "heap s e"
  have d: "distinct (outq s)" "distinct (in_transit s)" "set (outq s) \<inter> set (in_transit s) = {}"
    using i by (auto simp: sends_inv_def Let_def outgoing_def)
  have tr: "in_transit ?s = remove1 e (in_transit s)" "e \<in> set (in_transit s)"
    using in_transit_clear[of n s e] n i d by (auto simp: sends_inv_def Let_def)
  have ow: "qowner ?v = (if st_cancel_q ?v then TW_net_acancel else TW_net_asend)"
    using i tr(2) by (simp add: sends_inv_def Let_def)
  have eo: "e \<notin> set (outq s)" using d(3) tr(2) by auto
  obtain s' where s': "send_finish c e ?s = Inr s'" "heap s' = (heap s)(e := finished c ?v)"
    "outq s' = outq s @ (if resend ?v then [e] else [])" "posted_sends s' = posted_sends ?s" "world s' = world s"
    "free_q s' = (if qowner (finished c ?v) = TW_pe_free_q then e # free_q s else free_q s)" "net_frame ?s s'"
    using send_finish_effect[of ?s e c] ow by auto
  have it: "in_transit s' = remove1 e (in_transit s)" using tr(1) by (simp add: in_transit_def s'(4))
  have og: "set (outgoing s') = (if resend ?v then set (outgoing s) else set (outgoing s) - {e})"
    using eo d(2) tr(2) by (auto simp: outgoing_def s'(3) it)
  have inv: "sends_inv is_send c nc s'"
  proof -
    have "distinct (outgoing s')" using d eo by (auto simp: outgoing_def s'(3) it)
    moreover have "abort_event c \<notin> set (outgoing s')" using i og by (auto simp: sends_inv_def Let_def)
    moreover have "\<forall>a \<in> set (in_transit s'). qowner (heap s' a) = (if st_cancel_q (heap s' a) then TW_net_acancel else TW_net_asend)"
      using i d(2) by (simp add: sends_inv_def Let_def it s'(2))
    ultimately show ?thesis using i by (simp add: sends_inv_def Let_def s'(4))
  qed
  have ft: "fate c s' a \<and> same_event c (heap s a) (heap s' a)" if "a \<in> set (outgoing s)" for a
  proof (cases "a = e")
    case True
    then show ?thesis using finished_sel(1)[of c ?v] finished_sel(2)[of c ?v c] finished_sel(4)[of ?v c] og that s'(6) by (auto simp: fate_def s'(2))
  next
    case False
    then show ?thesis using og that by (simp add: fate_def s'(2))
  qed
  have sn: "sent c s s'"
  proof -
    have "freed s s'"
    proof (cases "qowner (finished c ?v) = TW_pe_free_q")
      case True
      then have "\<not> resend ?v" using finished_resend[of ?v c] ow by (auto split: if_splits)
      then show ?thesis using True og tr(2) s'(6) by (auto simp: freed_def outgoing_def intro!: exI[of _ "[e]"])
    next
      case False
      then show ?thesis using s'(6) by (simp add: freed_def)
    qed
    then show ?thesis
      using ft og tr(2) s'(7) finished_sel(1)[of c ?v] unfolding sent_def
      by (intro conjI allI impI ballI) (auto simp: outgoing_def s'(2) net_frame_def)
  qed
  have w1: "(\<Sum>a \<leftarrow> in_transit s. if st_cancel_q (heap s a) then 1 else 3) =
      (if st_cancel_q ?v then 1 else 3) + (\<Sum>a \<leftarrow> in_transit s'. if st_cancel_q (heap s' a) then 1 else (3::nat))"
    unfolding it sum_list_remove1[OF tr(2)] using d(2)
    by (intro arg_cong2[of _ _ _ _ "(+)"] refl sum_list_cong) (auto simp: s'(2))
  have "(\<Sum>a \<leftarrow> outq s. if st_cancel_q (heap s' a) then 2 else 4) = (\<Sum>a \<leftarrow> outq s. if st_cancel_q (heap s a) then 2 else (4::nat))"
    using eo by (intro sum_list_cong) (auto simp: s'(2))
  then have w2: "(\<Sum>a \<leftarrow> outq s'. if st_cancel_q (heap s' a) then 2 else 4) =
      (\<Sum>a \<leftarrow> outq s. if st_cancel_q (heap s a) then 2 else 4) + (if resend ?v then 2 else (0::nat))"
    using finished_sel(3)[of ?v c] by (auto simp: s'(2,3))
  have "send_weight s' < send_weight s" unfolding send_weight_def w1 w2 by (auto simp: resend_def)
  then show ?thesis using s'(1,4,5) inv sn by auto
qed


text \<open>A list of finished sends.\<close>

lemma finish_sends:
  fixes s :: "('st, 'bf, 'm, 'r, 'w, 'z) net_pe_scheme"
  assumes "sends_inv is_send c nc s" "distinct ns"
    "\<forall>n \<in> set ns. n < cur (posted_sends s) \<and> event_list (posted_sends s) ! n \<noteq> None"
  shows "\<exists>s'. finish_loop posted_sends posted_sends_update (send_finish c) ns s = Inr s' \<and> sends_inv is_send c nc s' \<and>
    sent c s s' \<and> send_weight s' + length ns \<le> send_weight s \<and> world s' = world s \<and>
    posted_sends s' = (posted_sends s)\<lparr>event_list := fold (\<lambda>n es. es[n := None]) ns (event_list (posted_sends s))\<rparr>"
  using assms
proof (induction ns arbitrary: s)
  case (Cons n ns)
  let ?s = "posted_sends_update (\<lambda>v. v\<lparr>event_list := (event_list v)[n := None]\<rparr>) s"
  obtain e where e: "event_list (posted_sends s) ! n = Some e" using Cons.prems(3) by auto
  obtain s1 where s1: "send_finish c e ?s = Inr s1" "sends_inv is_send c nc s1" "sent c s s1" "send_weight s1 < send_weight s"
    "posted_sends s1 = (posted_sends s)\<lparr>event_list := (event_list (posted_sends s))[n := None]\<rparr>" "world s1 = world s"
    using send_finish_ok[OF Cons.prems(1) _ e] Cons.prems(3) by auto
  have "\<forall>i \<in> set ns. i < cur (posted_sends s1) \<and> event_list (posted_sends s1) ! i \<noteq> None"
  proof
    fix j assume j: "j \<in> set ns"
    then have "j \<noteq> n" using Cons.prems(2) by auto
    then show "j < cur (posted_sends s1) \<and> event_list (posted_sends s1) ! j \<noteq> None"
      using Cons.prems(3) j by (simp add: s1(5))
  qed
  then obtain s' where s': "finish_loop posted_sends posted_sends_update (send_finish c) ns s1 = Inr s'" "sends_inv is_send c nc s'"
    "sent c s1 s'" "send_weight s' + length ns \<le> send_weight s1" "world s' = world s1"
    "posted_sends s' = (posted_sends s1)\<lparr>event_list := fold (\<lambda>n es. es[n := None]) ns (event_list (posted_sends s1))\<rparr>"
    using Cons.IH[OF s1(2)] Cons.prems(2) by auto
  have "sent c s s'" by (rule sent_trans[OF s1(3) s'(3)])
  then show ?case using e s1 s' by auto
qed simp

lemma in_transit_full: "full_q (posted_sends s) \<Longrightarrow> in_transit s = posted (posted_sends s)"
  by (simp add: full_q_def in_transit_def posted_def live_full)

text \<open>\<open>test_q\<close> on the posted sends.\<close>

lemma deliver_none:
  "\<forall>(i, x) \<in> set xs. x = None \<Longrightarrow> deliver q xs s = s"
  by (induction xs) (auto split: option.split)

text \<open>Replacing the array of posted sends by one with the same events.\<close>

lemma same_transit:
  fixes s :: "('st, 'bf, 'm, 'r, 'w, 'z) net_pe_scheme"
  assumes "in_transit (posted_sends_update f s) = in_transit s"
  shows "outgoing (posted_sends_update f s) = outgoing s" "send_weight (posted_sends_update f s) = send_weight s"
    "sent c t s \<Longrightarrow> sent c t (posted_sends_update f s)"
    "sends_inv is_send c nc s \<Longrightarrow> cur (f (posted_sends s)) \<le> send_buffer nc \<Longrightarrow>
     length (event_list (f (posted_sends s))) = send_buffer nc \<Longrightarrow> length (req_list (f (posted_sends s))) = send_buffer nc \<Longrightarrow>
     \<forall>r \<in> set (take (cur (f (posted_sends s))) (req_list (f (posted_sends s)))). \<exists>x. r = Some x \<and> is_send x \<Longrightarrow>
     sends_inv is_send c nc (posted_sends_update f s)"
proof -
  show o: "outgoing (posted_sends_update f s) = outgoing s" using assms by (simp add: outgoing_def)
  show "send_weight (posted_sends_update f s) = send_weight s" by (simp add: send_weight_def assms)
  have "fate c (posted_sends_update f s) a = fate c s a" for a by (simp add: fate_def o)
  moreover have "net_frame t (posted_sends_update f s) = net_frame t s" by (simp add: net_frame_def)
  moreover have "freed t (posted_sends_update f s) = freed t s" by (simp add: freed_def o)
  ultimately show "sent c t s \<Longrightarrow> sent c t (posted_sends_update f s)" by (simp add: sent_def o)
  show "sends_inv is_send c nc s \<Longrightarrow> cur (f (posted_sends s)) \<le> send_buffer nc \<Longrightarrow>
     length (event_list (f (posted_sends s))) = send_buffer nc \<Longrightarrow> length (req_list (f (posted_sends s))) = send_buffer nc \<Longrightarrow>
     \<forall>r \<in> set (take (cur (f (posted_sends s))) (req_list (f (posted_sends s)))). \<exists>x. r = Some x \<and> is_send x \<Longrightarrow>
     sends_inv is_send c nc (posted_sends_update f s)"
    by (simp add: sends_inv_def Let_def o assms)
qed

lemma test_sends:
  fixes s :: "('st, 'bf, 'm, 'r, 'w, 'z) net_pe_scheme"
  assumes i: "sends_inv is_send c nc s" and fq: "full_q (posted_sends s)" and m: "mpi_ok is_send (the_mpi nc)"
  shows "\<exists>b s'. test_q nc posted_sends posted_sends_update (send_finish c) s = Inr (b, s') \<and> sends_inv is_send c nc s' \<and>
    full_q (posted_sends s') \<and> sent c s s' \<and> send_weight s' + (if b then 1 else 0) \<le> send_weight s"
proof -
  let ?q = "posted_sends s"
  have sz: "cur ?q \<le> length (event_list ?q)" "length (req_list ?q) = length (event_list ?q)"
    using i by (simp_all add: sends_inv_def Let_def)
  obtain ready w where mp: "MPI_Testsome (the_mpi nc) (take (cur ?q) (req_list ?q)) (world s) = Some (ready, w)"
    "distinct (map fst ready)"
    "\<forall>(i, x) \<in> set ready. i < length (take (cur ?q) (req_list ?q)) \<and>
       (\<forall>r. take (cur ?q) (req_list ?q) ! i = Some r \<longrightarrow> is_send r \<longrightarrow> x = None)"
    using m unfolding mpi_ok_def by blast
  have idx: "set (map fst ready) \<subseteq> {..<cur ?q}" using mp(3) sz by auto
  have none: "x = None" if "(j, x) \<in> set ready" for j x
  proof -
    have j: "j < length (take (cur ?q) (req_list ?q))" "\<forall>r. take (cur ?q) (req_list ?q) ! j = Some r \<longrightarrow> is_send r \<longrightarrow> x = None"
      using mp(3) that by auto
    then obtain r where "take (cur ?q) (req_list ?q) ! j = Some r" "is_send r"
      using i by (metis nth_mem sends_inv_def)
    then show ?thesis using j(2) by blast
  qed
  show ?thesis
  proof (cases "cur ?q = 0")
    case True
    then show ?thesis using i fq by (auto simp: test_q_def)
  next
    case c0: False
    define s0 where "s0 = s\<lparr>world := w\<rparr>"
    have i0: "sends_inv is_send c nc s0" "send_weight s0 = send_weight s" "sent c s s0" "posted_sends s0 = ?q"
      using i by (simp_all add: s0_def sends_inv_def outgoing_def in_transit_def send_weight_def sent_def fate_def net_frame_def freed_def)
    show ?thesis
    proof (cases "ready = []")
      case True
      then show ?thesis using c0 mp(1) i0 fq by (intro exI[of _ False] exI[of _ s0]) (simp add: test_q_def s0_def)
    next
      case False
      have "\<forall>n \<in> set (map fst ready). n < cur ?q \<and> event_list ?q ! n \<noteq> None"
        using idx full_entry[OF fq _ sz(1)] by auto
      then obtain s1 where s1: "finish_loop posted_sends posted_sends_update (send_finish c) (map fst ready) s0 = Inr s1"
        "sends_inv is_send c nc s1" "sent c s0 s1" "send_weight s1 + length ready \<le> send_weight s0"
        "posted_sends s1 = ?q\<lparr>event_list := fold (\<lambda>n es. es[n := None]) (map fst ready) (event_list ?q)\<rparr>"
        using finish_sends[OF i0(1) mp(2)] i0(4) by auto
      define s' where "s' = posted_sends_update (\<lambda>v. v\<lparr>cur := cur v - length ready\<rparr>)
        (posted_sends_update (\<lambda>v. collapse_loop (cur v) 0 0 v) s1)"
      have dn: "deliver ?q ready (s\<lparr>world := w\<rparr>) = s\<lparr>world := w\<rparr>" by (rule deliver_none) (use none in blast)
      have t: "test_q nc posted_sends posted_sends_update (send_finish c) s = Inr (True, s')"
        using c0 mp(1) False s1(1) dn by (simp add: test_q_def s'_def s0_def Let_def)
      note te = sends.test_q_entries[OF t sz _ mp(1,2) idx]
      note rest = sends.test_q_rest[OF t sz fq mp(1,2) idx c0 False]
      have fin: "finish_loop posted_sends posted_sends_update (send_finish c) (map fst ready) (deliver ?q ready (s\<lparr>world := w\<rparr>)) = Inr s1"
        using s1(1) by (simp add: dn s0_def)
      define f where "f = (\<lambda>v :: 'r act_q. (collapse_loop (cur v) 0 0 v)\<lparr>cur := cur (collapse_loop (cur v) 0 0 v) - length ready\<rparr>)"
      have sf: "s' = posted_sends_update f s1" by (simp add: s'_def f_def o_def)
      have len: "length (event_list (posted_sends s')) = send_buffer nc" "length (req_list (posted_sends s')) = send_buffer nc"
        "cur (posted_sends s') \<le> send_buffer nc"
        using te(2-4) fq i by (simp_all add: full_q_def sends_inv_def Let_def le_diff_conv trans_le_add1)
      have reqs: "\<forall>r \<in> set (take (cur (posted_sends s')) (req_list (posted_sends s'))). \<exists>x. r = Some x \<and> is_send x"
        using rest(4)[OF fin] i unfolding sends_inv_def Let_def by blast
      have full': "full_q (posted_sends s')" by (rule rest(3)[OF fin])
      have it: "in_transit (posted_sends_update f s1) = in_transit s1"
        using rest(2)[OF fin] unfolding in_transit_def sf .
      have "sends_inv is_send c nc s'"
        using same_transit(4)[OF it s1(2)] len reqs by (simp add: sf)
      moreover have "sent c s s'" using same_transit(3)[OF it sent_trans[OF i0(3) s1(3)]] by (simp add: sf)
      moreover have "send_weight s' + 1 \<le> send_weight s"
        using same_transit(2)[OF it] s1(4) i0(2) False by (cases ready) (simp_all add: sf)
      ultimately show ?thesis using t full' by (intro exI[of _ True] exI[of _ s']) simp
    qed
  qed
qed


section \<open>Starting sends\<close>

lemma post_send:
  fixes s :: "('st, 'bf, 'm, 'r, 'w, 'z) net_pe_scheme"
  assumes i: "sends_inv is_send c nc s" and fq: "full_q (posted_sends s)" and o: "outq s = es @ [e]"
    and k: "cur (posted_sends s) < send_buffer nc" and r: "is_send r"
    and h: "heap s1 = (heap s)(e := v)" and v: "qowner v = (if st_cancel_q (heap s e) then TW_net_acancel else TW_net_asend)"
      "st_cancel_q v = st_cancel_q (heap s e)" "st_cancel_asend v = st_cancel_asend (heap s e)" "same_event c (heap s e) v"
    and out: "outq s1 = es" and fr: "net_frame s s1" "free_q s1 = free_q s"
    and ps: "posted_sends s1 = (posted_sends s)\<lparr>req_list := (req_list (posted_sends s))[cur (posted_sends s) := Some r],
        event_list := (event_list (posted_sends s))[cur (posted_sends s) := Some e], cur := cur (posted_sends s) + 1\<rparr>"
  shows "sends_inv is_send c nc s1" "full_q (posted_sends s1)" "sent c s s1" "send_weight s1 < send_weight s"
proof -
  let ?q = "posted_sends s" and ?n = "cur (posted_sends s)"
  have len: "length (event_list ?q) = send_buffer nc" "length (req_list ?q) = send_buffer nc"
    using i by (simp_all add: sends_inv_def Let_def)
  have te: "take (Suc ?n) ((event_list ?q)[?n := Some e]) = take ?n (event_list ?q) @ [Some e]"
    "take (Suc ?n) ((req_list ?q)[?n := Some r]) = take ?n (req_list ?q) @ [Some r]"
    using k len by (simp_all add: take_Suc_conv_app_nth)
  have it: "in_transit s1 = in_transit s @ [e]" by (simp add: in_transit_def ps te)
  have d: "distinct (es @ [e] @ in_transit s)" using i by (simp add: sends_inv_def Let_def outgoing_def o)
  then have ne: "e \<notin> set es" "e \<notin> set (in_transit s)" by auto
  have og: "set (outgoing s1) = set (outgoing s)" by (auto simp: outgoing_def out it o)
  show "sends_inv is_send c nc s1"
    unfolding sends_inv_def Let_def
  proof (intro conjI)
    show "distinct (outgoing s1)" using d by (auto simp: outgoing_def out it)
    show "abort_event c \<notin> set (outgoing s1)" unfolding og using i by (simp add: sends_inv_def Let_def)
    show "\<forall>a \<in> set (in_transit s1). qowner (heap s1 a) = (if st_cancel_q (heap s1 a) then TW_net_acancel else TW_net_asend)"
      using i v ne by (auto simp: it h sends_inv_def Let_def)
    show "\<forall>r \<in> set (take (cur (posted_sends s1)) (req_list (posted_sends s1))). \<exists>x. r = Some x \<and> is_send x"
      using i r by (auto simp: ps te sends_inv_def Let_def)
  qed (use k len in \<open>simp_all add: ps\<close>)
  show "full_q (posted_sends s1)" using fq by (simp add: full_q_def ps te)
  have "fate c s1 a" if "a \<in> set (outgoing s)" for a using that og by (simp add: fate_def)
  then show "sent c s s1"
    using v fr og o unfolding sent_def by (auto simp: h revoked_def outgoing_def freed_def)
  have "(\<Sum>a \<leftarrow> es. if st_cancel_q (heap s1 a) then 2 else 4) = (\<Sum>a \<leftarrow> es. if st_cancel_q (heap s a) then 2 else (4::nat))"
    "(\<Sum>a \<leftarrow> in_transit s. if st_cancel_q (heap s1 a) then 1 else 3) = (\<Sum>a \<leftarrow> in_transit s. if st_cancel_q (heap s a) then 1 else (3::nat))"
    using ne by (auto simp: h intro!: sum_list_cong)
  then show "send_weight s1 < send_weight s" by (simp add: send_weight_def out it o h v(2))
qed

lemma send_begin_loop_ok:
  fixes s :: "('st, 'bf, 'm, 'r, 'w, 'z) net_pe_scheme"
  assumes "sends_inv is_send c nc s" "full_q (posted_sends s)" "mpi_ok is_send (the_mpi nc)"
    "k + cur (posted_sends s) = send_buffer nc"
  shows "\<exists>b s'. send_begin_loop k c nc ch s = Inr (b, s') \<and> sends_inv is_send c nc s' \<and> full_q (posted_sends s') \<and>
    sent c s s' \<and> send_weight s' + (if b \<and> \<not> ch then 1 else 0) \<le> send_weight s \<and> (b \<longrightarrow> ch \<or> send_weight s' < send_weight s) \<and>
    (outq s' = [] \<or> cur (posted_sends s') = send_buffer nc)"
  using assms
proof (induction k arbitrary: ch s)
  case (Suc k)
  show ?case
  proof (cases "outq s" rule: rev_cases)
    case Nil
    then show ?thesis using Suc.prems by auto
  next
    case (snoc es e)
    have ab: "e \<noteq> abort_event c" using Suc.prems(1) snoc by (auto simp: sends_inv_def Let_def outgoing_def)
    let ?s0 = "upd_ev e (\<lambda>v. v\<lparr>send_pe := mynode c, send_lp := gid_of c (src_lp v)\<rparr>) s"
    obtain r w where m: "MPI_Isend (the_mpi nc) (heap ?s0 e) (map_pe c (dest_lp (heap s e))) (world s) = Some (r, w)" "is_send r"
      using Suc.prems(3) unfolding mpi_ok_def by blast
    define v where "v = (heap s e)\<lparr>send_pe := mynode c, send_lp := gid_of c (src_lp (heap s e)),
      qowner := (if st_cancel_q (heap s e) then TW_net_acancel else TW_net_asend)\<rparr>"
    define s1 where "s1 = (let me = ?s0\<lparr>world := w, outq := butlast (outq ?s0)\<rparr>;
        me = upd_ev e (\<lambda>v. v\<lparr>qowner := (if st_cancel_q v then TW_net_acancel else TW_net_asend)\<rparr>) me
      in me\<lparr>posted_sends := (posted_sends me)\<lparr>req_list := (req_list (posted_sends me))[cur (posted_sends s) := Some r],
           event_list := (event_list (posted_sends me))[cur (posted_sends s) := Some e], cur := cur (posted_sends me) + 1\<rparr>,
         s_nwhite_sent := s_nwhite_sent me + 1\<rparr>)"
    have st: "send_begin_loop (Suc k) c nc ch s = send_begin_loop k c nc True s1"
      using ab m(1) by (simp add: snoc Let_def s1_def pe_simps)
    have s1: "heap s1 = (heap s)(e := v)" "outq s1 = es" "net_frame s s1" "free_q s1 = free_q s"
      "posted_sends s1 = (posted_sends s)\<lparr>req_list := (req_list (posted_sends s))[cur (posted_sends s) := Some r],
        event_list := (event_list (posted_sends s))[cur (posted_sends s) := Some e], cur := cur (posted_sends s) + 1\<rparr>"
      by (simp_all add: s1_def v_def Let_def pe_simps snoc net_frame_def)
    have p: "sends_inv is_send c nc s1" "full_q (posted_sends s1)" "sent c s s1" "send_weight s1 < send_weight s"
      using post_send[OF Suc.prems(1,2) snoc _ m(2) s1(1) _ _ _ _ s1(2-5)] Suc.prems(4) by (simp_all add: v_def same_event_def)
    obtain b s' where s': "send_begin_loop k c nc True s1 = Inr (b, s')" "sends_inv is_send c nc s'" "full_q (posted_sends s')"
      "sent c s1 s'" "send_weight s' \<le> send_weight s1" "outq s' = [] \<or> cur (posted_sends s') = send_buffer nc"
      using Suc.IH[OF p(1,2) Suc.prems(3), of True] Suc.prems(4) by (auto simp: s1(5))
    then show ?thesis using st p(4) sent_trans[OF p(3) s'(4)] by (intro exI[of _ b] exI[of _ s']) auto
  qed
qed auto

text \<open>The loop of \<open>tw_net_send\<close>.\<close>

lemma send_loop_ok:
  fixes s :: "('st, 'bf, 'm, 'r, 'w, 'z) net_pe_scheme"
  assumes "sends_inv is_send c nc s" "full_q (posted_sends s)" "mpi_ok is_send (the_mpi nc)" "send_weight s < n"
  shows "\<exists>s'. send_loop n c nc s = Inr s' \<and> sends_inv is_send c nc s' \<and> full_q (posted_sends s') \<and> sent c s s' \<and>
    (outq s' = [] \<or> cur (posted_sends s') = send_buffer nc)"
  using assms
proof (induction n arbitrary: s)
  case (Suc n)
  obtain b1 s1 where s1: "test_q nc posted_sends posted_sends_update (send_finish c) s = Inr (b1, s1)" "sends_inv is_send c nc s1"
    "full_q (posted_sends s1)" "sent c s s1" "send_weight s1 + (if b1 then 1 else 0) \<le> send_weight s"
    using test_sends[OF Suc.prems(1-3)] by blast
  have "send_buffer nc - cur (posted_sends s1) + cur (posted_sends s1) = send_buffer nc"
    using s1(2) by (simp add: sends_inv_def Let_def)
  then obtain b2 s2 where s2: "send_begin c nc s1 = Inr (b2, s2)" "sends_inv is_send c nc s2" "full_q (posted_sends s2)"
    "sent c s1 s2" "send_weight s2 + (if b2 then 1 else 0) \<le> send_weight s1"
    "outq s2 = [] \<or> cur (posted_sends s2) = send_buffer nc"
    using send_begin_loop_ok[OF s1(2,3) Suc.prems(3), of "send_buffer nc - cur (posted_sends s1)" False]
    unfolding send_begin_def by simp blast
  have t: "sent c s s2" by (rule sent_trans[OF s1(4) s2(4)])
  show ?case
  proof (cases "b1 \<or> b2")
    case False
    then show ?thesis using s1(1) s2 t by auto
  next
    case True
    then have "send_weight s2 < n" using s1(5) s2(5) Suc.prems(4) by auto
    then obtain s' where "send_loop n c nc s2 = Inr s'" "sends_inv is_send c nc s'" "full_q (posted_sends s')" "sent c s2 s'"
      "outq s' = [] \<or> cur (posted_sends s') = send_buffer nc"
      using Suc.IH[OF s2(2,3) Suc.prems(3)] by blast
    then show ?thesis using s1(1) s2(1) True sent_trans[OF t] by auto
  qed
qed simp

end
