(* ===== verification/Net_Props.thy ===== *)
theory Net_Props
  imports Net_Send Tw_Example
begin

text \<open>
  The properties of the network layer (\<open>core/network-mpi.c\<close>) and a state they are applied to:
  MPI with requests that say whether they are sends, in which every operation is done at the
  next test.
\<close>

definition ex_mpi :: "((tw_bf, int) pevent, bool, (tw_bf, int) pevent list) mpi" where
  "ex_mpi = \<lparr>MPI_Isend = (\<lambda>e d w. Some (True, w @ [e])), MPI_Irecv = (\<lambda>w. Some (False, w)),
     MPI_Testsome = (\<lambda>rs w. Some (map (\<lambda>i. (i, None)) (filter (\<lambda>i. rs ! i = Some True) [0..<length rs]), w))\<rparr>"

lemma ex_mpi_ok: "mpi_ok (\<lambda>r. r) ex_mpi"
  by (auto simp: mpi_ok_def ex_mpi_def o_def)

definition ex_nc :: "(tw_bf, int, bool, (tw_bf, int) pevent list) net_config" where
  "ex_nc = \<lparr>the_mpi = ex_mpi, read_buffer = 2, send_buffer = 2, world_size = 2, net_fuel = 20\<rparr>"

text \<open>
  Event 5 is being sent and was cancelled meanwhile, event 6 waits, event 7 is new; buffers 8
  and 9 have received an event of the other PE and its cancellation.
\<close>

definition ex_remote :: "bool \<Rightarrow> (tw_bf, int) pevent" where
  "ex_remote cn = (ex_event 9 TW_net_asend cn (11 / 2))\<lparr>send_pe := 1, dest_lp := 0\<rparr>"

definition ex_nheap :: "addr \<Rightarrow> (tw_bf, int) pevent" where
  "ex_nheap = (ex_heap False)(5 := (ex_event 5 TW_net_asend False 6)\<lparr>st_cancel_asend := True\<rparr>,
     6 := ex_event 6 TW_net_outq False 7, 7 := ex_event 7 No_owner False 8,
     8 := ex_remote False, 9 := ex_remote True)"

definition ex_npe :: "(phold_state, tw_bf, int, bool, (tw_bf, int) pevent list) net_pe" where
  "ex_npe = tw_pe.extend ((ex_pe False)\<lparr>heap := ex_nheap\<rparr>)
     (net_pe.fields [6] \<lparr>act_name = ''MPI send queue'', event_list = [Some 5, None], req_list = [Some True, None], cur = 1\<rparr>
        (init_q ''MPI recv queue'' 2) 1 0 (\<lambda>_. AVL_EMPTY) 4 0 [])"

lemma ex_npe_sel [simp]:
  "heap ex_npe = ex_nheap" "outq ex_npe = [6]" "cur (posted_sends ex_npe) = 1" "event_list (posted_sends ex_npe) = [Some 5, None]"
  "req_list (posted_sends ex_npe) = [Some True, None]" "pq ex_npe = pq (ex_pe False)" "cancel_q ex_npe = []"
  "event_q ex_npe = [2]" "kps ex_npe = kps (ex_pe False)" "GVT_sig ex_npe = ex_sig 0" "gvt_status ex_npe = False"
  "avl_tree ex_npe k = AVL_EMPTY" "avl_nodes ex_npe = 4" "free_q ex_npe = [4]"
  by (simp_all add: ex_npe_def net_pe.defs tw_pe.defs) (simp_all add: ex_pe_def)

lemma ex_nheap_sel [simp]:
  "ex_nheap 5 = (ex_event 5 TW_net_asend False 6)\<lparr>st_cancel_asend := True\<rparr>" "ex_nheap 6 = ex_event 6 TW_net_outq False 7"
  "ex_nheap 7 = ex_event 7 No_owner False 8" "ex_nheap 8 = ex_remote False" "ex_nheap 9 = ex_remote True"
  "ex_nheap 3 = ex_event 4 TW_pe_pq False 5"
  by (simp_all add: ex_nheap_def ex_heap_def)

lemma ex_sends_inv: "sends_inv (\<lambda>r. r) ex_config ex_nc ex_npe" "full_q (posted_sends ex_npe)" "outgoing ex_npe = [6, 5]"
  "send_weight ex_npe = 7"
  by (auto simp: sends_inv_def full_q_def outgoing_def in_transit_def send_weight_def ex_nc_def)

text \<open>
  C30: \<open>tw_net_send\<close> returns, and no event on its way out is lost. Its loop runs for at most
  \<open>4 * (waiting) + 3 * (posted)\<close> rounds, a revoked event being sent twice. When it ends, there
  is nothing left to send or no room to send it; every event that waited or was posted is still
  on its way, or was sent and is kept so that it can be cancelled, or its buffer is free, which
  happens to a revoked one after the cancellation was sent. The queues of the protocol and all
  other events are not touched.
\<close>

theorem net_send_returns:
  assumes m: "mpi_ok is_send (the_mpi nc)" and i: "sends_inv is_send c nc s" "full_q (posted_sends s)"
    and e: "e \<notin> set (outgoing s)" "e \<noteq> abort_event c"
    and n: "4 * (length (outq s) + 1) + 3 * length (in_transit s) < net_fuel nc"
  shows "\<exists>s'. tw_net_send c nc e s = Inr s' \<and> (outq s' = [] \<or> cur (posted_sends s') = send_buffer nc) \<and>
    sends_inv is_send c nc s' \<and> full_q (posted_sends s') \<and> net_frame s s' \<and>
    (\<forall>a \<in> set (e # outgoing s). fate c s' a \<and> revoked (heap s' a) = revoked (heap s a)) \<and>
    (\<forall>a. a \<notin> set (e # outgoing s) \<longrightarrow> heap s' a = heap s a)"
proof -
  define s0 where "s0 = (let me = upd_ev e (\<lambda>v. v\<lparr>st_remote := False, qowner := TW_net_outq\<rparr>) s in me\<lparr>outq := e # outq me\<rparr>)"
  have s0: "heap s0 = (heap s)(e := (heap s e)\<lparr>st_remote := False, qowner := TW_net_outq\<rparr>)" "outq s0 = e # outq s"
    "posted_sends s0 = posted_sends s" "net_frame s s0"
    by (simp_all add: s0_def pe_simps net_frame_def)
  have it: "in_transit s0 = in_transit s" by (simp add: in_transit_def s0(3))
  have og: "outgoing s0 = e # outgoing s" by (simp add: outgoing_def s0(2) it)
  have ne: "e \<notin> set (in_transit s)" using e(1) by (simp add: outgoing_def)
  have "\<forall>a \<in> set (in_transit s). qowner (heap s0 a) = (if st_cancel_q (heap s0 a) then TW_net_acancel else TW_net_asend)"
    using i(1) ne by (auto simp: sends_inv_def Let_def s0(1))
  then have i0: "sends_inv is_send c nc s0"
    using i(1) e by (simp add: sends_inv_def Let_def og it s0(3))
  have "(\<Sum>a \<leftarrow> outq s0. if st_cancel_q (heap s0 a) then 2 else 4) \<le> (\<Sum>a \<leftarrow> outq s0. 4::nat)"
    "(\<Sum>a \<leftarrow> in_transit s0. if st_cancel_q (heap s0 a) then 1 else 3) \<le> (\<Sum>a \<leftarrow> in_transit s0. 3::nat)"
    by (rule sum_list_mono, simp)+
  then have "send_weight s0 \<le> 4 * length (outq s0) + 3 * length (in_transit s0)"
    unfolding send_weight_def by (simp add: sum_list_triv)
  then have "send_weight s0 < net_fuel nc" using n by (simp add: s0(2) it)
  then obtain s' where s': "send_loop (net_fuel nc) c nc s0 = Inr s'" "sends_inv is_send c nc s'" "full_q (posted_sends s')"
    "sent c s0 s'" "outq s' = [] \<or> cur (posted_sends s') = send_buffer nc"
    using send_loop_ok[OF i0 _ m, of "net_fuel nc"] i(2) by (auto simp: s0(3))
  have "revoked (heap s0 a) = revoked (heap s a)" for a by (simp add: s0(1) revoked_def)
  moreover have "tw_net_send c nc e s = Inr s'" using s'(1) by (simp add: tw_net_send_def s0_def Let_def)
  ultimately show ?thesis
    using s'(2-5) net_frame_trans[OF s0(4)] by (intro exI[of _ s']) (auto simp: sent_def og s0(1))
qed

theorem net_send_returns_witness:
  "\<exists>s'. tw_net_send ex_config ex_nc 7 ex_npe = Inr s' \<and> (outq s' = [] \<or> cur (posted_sends s') = 2) \<and>
    fate ex_config s' 5 \<and> revoked (heap s' 5)"
  using net_send_returns[OF _ ex_sends_inv(1,2), of 7] ex_mpi_ok
  by (auto simp: ex_nc_def ex_sends_inv(3) in_transit_def revoked_def)

lemma net_minimum_ok:
  assumes i: "full_q (posted_sends s)" and wf: "\<forall>a \<in> set (outgoing s). wf_sig (qsig (heap s a))"
  shows "(\<forall>a \<in> set (outgoing s). tw_event_sig_compare_ptr (tw_net_minimum_sig_ptr s) (qsig (heap s a)) \<le> 0) \<and>
    tw_net_minimum_sig_ptr s \<in> insert g_tw_max_sig ((\<lambda>a. qsig (heap s a)) ` set (outgoing s)) \<and>
    wf_sig (tw_net_minimum_sig_ptr s)"
proof -
  let ?p = "posted (posted_sends s)"
  have og: "set (outgoing s) = set (outq s) \<union> set ?p" by (simp add: outgoing_def in_transit_full[OF i])
  define m where "m = min_sig_loop (heap s) (outq s) g_tw_max_sig"
  have a: "wf_sig m" "\<forall>e \<in> set (outq s). sig_key m \<le> sig_key (qsig (heap s e))" "m \<in> insert g_tw_max_sig ((\<lambda>e. qsig (heap s e)) ` set (outq s))"
    using min_sig_loop_ok[of "outq s" "heap s" g_tw_max_sig] wf by (auto simp: m_def og)
  let ?n = "tw_net_minimum_sig_ptr s"
  have b: "wf_sig ?n" "sig_key ?n \<le> sig_key m" "\<forall>e \<in> set ?p. sig_key ?n \<le> sig_key (qsig (heap s e))"
    "?n \<in> insert m ((\<lambda>e. qsig (heap s e)) ` set ?p)"
    using min_sig_loop_ok[of ?p "heap s" m] a(1) wf by (auto simp: m_def og tw_net_minimum_sig_ptr_def)
  have "sig_key ?n \<le> sig_key (qsig (heap s e))" if "e \<in> set (outgoing s)" for e
    using that a(2) b(2,3) by (auto simp: og)
  moreover have "?n \<in> insert g_tw_max_sig ((\<lambda>a. qsig (heap s a)) ` set (outgoing s))" using a(3) b(4) by (auto simp: og)
  ultimately show ?thesis using wf b(1) by (simp add: tw_event_sig_compare_ptr_key)
qed

text \<open>
  C32: \<open>tw_net_minimum_sig_ptr\<close> is no later than any event that waits to be sent or is being
  sent, and is the signature of one of them or the greatest one.
\<close>

theorem net_minimum_bounds:
  assumes i: "full_q (posted_sends s)" and wf: "\<forall>a \<in> set (outgoing s). wf_sig (qsig (heap s a))"
  shows "(\<forall>a \<in> set (outgoing s). tw_event_sig_compare_ptr (tw_net_minimum_sig_ptr s) (qsig (heap s a)) \<le> 0) \<and>
    tw_net_minimum_sig_ptr s \<in> insert g_tw_max_sig ((\<lambda>a. qsig (heap s a)) ` set (outgoing s)) \<and>
    wf_sig (tw_net_minimum_sig_ptr s)"
  using assms by (rule net_minimum_ok)

theorem net_minimum_bounds_witness:
  "tw_event_sig_compare_ptr (tw_net_minimum_sig_ptr ex_npe) (ex_sig 6) \<le> 0 \<and>
   tw_event_sig_compare_ptr (tw_net_minimum_sig_ptr ex_npe) (ex_sig 7) \<le> 0"
  using net_minimum_bounds[of ex_npe] ex_sends_inv by simp

text \<open>
  C31: \<open>test_q\<close> on the posted sends keeps the unfinished operations. Whatever indices MPI reports
  as done, the events and requests of the others stay together, in their order, in the first
  entries of the two arrays.
\<close>

theorem test_q_keeps_unfinished:
  assumes "test_q nc posted_sends posted_sends_update (send_finish c) me = Inr (b, me')"
    and "cur (posted_sends me) \<le> length (event_list (posted_sends me))"
    and "length (req_list (posted_sends me)) = length (event_list (posted_sends me))"
    and "full_q (posted_sends me)"
    and "MPI_Testsome (the_mpi nc) (take (cur (posted_sends me)) (req_list (posted_sends me))) (world me) = Some (ready, w)"
    and "distinct (map fst ready)" "set (map fst ready) \<subseteq> {..<cur (posted_sends me)}"
  shows "entries (posted_sends me') =
    map ((!) (entries (posted_sends me))) (filter (\<lambda>i. i \<notin> set (map fst ready)) [0..<cur (posted_sends me)]) \<and>
    cur (posted_sends me') = cur (posted_sends me) - length ready"
  using sends.test_q_entries[OF assms(1-3) _ assms(5-7)] assms(4) by (simp add: full_q_def)

theorem test_q_keeps_unfinished_witness:
  "\<exists>b me'. test_q ex_nc posted_sends posted_sends_update (send_finish ex_config) ex_npe = Inr (b, me') \<and>
    cur (posted_sends me') = 0"
proof -
  obtain b s' where t: "test_q ex_nc posted_sends posted_sends_update (send_finish ex_config) ex_npe = Inr (b, s')"
    using test_sends[OF ex_sends_inv(1,2)] ex_mpi_ok by (auto simp: ex_nc_def)
  have "MPI_Testsome (the_mpi ex_nc) (take 1 (req_list (posted_sends ex_npe))) (world ex_npe) = Some ([(0, None)], world ex_npe)"
    by (simp add: ex_nc_def ex_mpi_def)
  then show ?thesis using test_q_keeps_unfinished[OF t, of "[(0, None)]"] ex_sends_inv(2) t by auto
qed

end
