(* ===== verification/Net_Recv.thy ===== *)
theory Net_Recv
  imports Net_Props
begin

text \<open>
  The receiving side of the network layer (\<open>core/network-mpi.c\<close>): an event and the anti-message
  that follows it.
\<close>

section \<open>An event\<close>

definition received :: "('st, 'bf, 'm) config \<Rightarrow> ('bf, 'm) pevent \<Rightarrow> ('bf, 'm) pevent" where
  "received c v = v\<lparr>dest_lp := local_lp c (dest_lp v), caused_by_me := []\<rparr>"

text \<open>What an event must be for the PE to take it.\<close>

definition arrives :: "('st, 'bf, 'm) config \<Rightarrow> ('bf, 'm, 'r, 'w) net_config \<Rightarrow> ('st, 'bf, 'm, 'r, 'w, 'z) net_pe_scheme
    \<Rightarrow> ('bf, 'm) pevent \<Rightarrow> bool" where
  "arrives c nc me v \<longleftrightarrow> send_pe v < world_size nc \<and> wf_sig (qsig v) \<and> wf_sig (GVT_sig me) \<and>
     sig_key (GVT_sig me) \<le> sig_key (qsig v)"

lemma avl_key_received [simp]: "avl_key (received c v) = avl_key v" "rand_key (received c v) = rand_key v"
    "qsig (received c v) = qsig v" "st_cancel_q (received c v) = st_cancel_q v" "send_pe (received c v) = send_pe v"
  by (simp_all add: avl_key_def rand_key_def received_def)

lemma avl_key_flags [simp]: "avl_key (v\<lparr>st_remote := r\<rparr>) = avl_key v" "avl_key (v\<lparr>qowner := w\<rparr>) = avl_key v"
    "avl_key (v\<lparr>st_cancel_q := q\<rparr>) = avl_key v" "rand_key (v\<lparr>st_remote := r\<rparr>) = rand_key v"
  by (simp_all add: avl_key_def rand_key_def)

lemma recv_event:
  fixes me :: "('st, 'bf, 'm, 'r, 'w, 'z) net_pe_scheme"
  assumes a: "arrives c nc me (heap me a)" "\<not> st_cancel_q (heap me a)" "protocol c = OPTIMISTIC"
    and k: "k = kp_of c (local_lp c (dest_lp (heap me a)))"
    and t: "store_ok (heap me) (avl_tree me k)" "avl_key (heap me a) \<notin> (\<lambda>x. avl_key (heap me x)) ` set (elems (avl_tree me k))"
      "2 \<le> avl_nodes me"
    and q: "pq_inv (key_at (heap me)) (wf_at (heap me)) (pq me)" "key_at (heap me) a \<notin> key_at (heap me) ` set (contents (pq me))"
      "Suc (length (contents (pq me))) < 2 ^ 32"
    and e: "event_q me = []" "cancel_q me = []"
  shows "\<exists>me' w. recv_finish c nc a me = Inr me' \<and> w \<in> {TW_pe_pq, TW_pe_event_q} \<and>
    heap me' = (heap me)(a := (received c (heap me a))\<lparr>st_remote := True, qowner := w\<rparr>) \<and>
    (w = TW_pe_pq \<longrightarrow> contents (pq me') = insort_key (key_at (heap me)) a (contents (pq me)) \<and> event_q me' = []) \<and>
    (w = TW_pe_event_q \<longrightarrow> pq me' = pq me \<and> event_q me' = [a]) \<and> pq_inv (key_at (heap me)) (wf_at (heap me)) (pq me') \<and>
    cancel_q me' = [] \<and> avlSanityCheck (avl_tree me' k) \<and> (\<forall>j. j \<noteq> k \<longrightarrow> avl_tree me' j = avl_tree me j) \<and>
    elems (avl_tree me' k) = insort_key (\<lambda>x. avl_key (heap me x)) a (elems (avl_tree me k)) \<and> avl_nodes me' = avl_nodes me - 1 \<and>
    free_q me' = free_q me \<and> kps me' = kps me \<and> lps me' = lps me \<and> GVT_sig me' = GVT_sig me"
proof -
  define v where "v = received c (heap me a)"
  define m0 where "m0 = note_transient (qsig v) (upd_ev a (\<lambda>v. v\<lparr>caused_by_me := []\<rparr>)
    (upd_ev a (\<lambda>v. v\<lparr>dest_lp := local_lp c (dest_lp v)\<rparr>) (me\<lparr>s_nwhite_recv := s_nwhite_recv me + 1\<rparr>)))"
  have h0: "heap m0 = (heap me)(a := v)" "pq m0 = pq me" "event_q m0 = []" "cancel_q m0 = []" "avl_tree m0 = avl_tree me"
    "avl_nodes m0 = avl_nodes me" "free_q m0 = free_q me" "kps m0 = kps me" "lps m0 = lps me" "GVT_sig m0 = GVT_sig me"
    by (simp_all add: m0_def pe_simps v_def received_def e)
  have ak: "(\<lambda>x. avl_key (heap m0 x)) = (\<lambda>x. avl_key (heap me x))" by (rule ext) (simp add: h0(1) v_def)
  have kd: "kp_of c (dest_lp (heap m0 a)) = k" by (simp add: h0(1) v_def received_def k)
  obtain t' where t': "avlInsert (avl_lt (heap m0)) (avl_tree me k) (avl_nodes me) a = Inr (t', avl_nodes me - 1)" "avlSanityCheck t'"
    "elems t' = insort_key (\<lambda>x. avl_key (heap me x)) a (elems (avl_tree me k))"
    using avl.avl_insert[of "avl_tree me k" "heap m0" a "avl_nodes me"] t unfolding store_ok_def ak by (auto simp: h0(1) v_def)
  define mi where "mi = (m0\<lparr>avl_tree_size := avl_tree_size m0 + 1\<rparr>)\<lparr>avl_tree := (avl_tree me)(k := t'), avl_nodes := avl_nodes me - 1\<rparr>"
  define m1 where "m1 = upd_ev a (\<lambda>v. v\<lparr>st_remote := True\<rparr>) mi"
  have h1: "heap m1 = (heap me)(a := v\<lparr>st_remote := True\<rparr>)" "pq m1 = pq me" "event_q m1 = []" "cancel_q m1 = []"
    "avl_tree m1 = (avl_tree me)(k := t')" "avl_nodes m1 = avl_nodes me - 1" "free_q m1 = free_q me" "kps m1 = kps me"
    "lps m1 = lps me" "GVT_sig m1 = GVT_sig me"
    by (simp_all add: m1_def mi_def pe_simps h0)
  have ins: "tw_hash_insert c a m0 = Inr mi" using t'(1) kd h0 by (simp add: tw_hash_insert_def mi_def Let_def)
  have ar: "\<not> int (send_pe (heap me a)) > int (world_size nc) - 1" "\<not> tw_event_sig_compare_ptr (qsig (heap me a)) (GVT_sig me) < 0"
    using a(1) by (auto simp: arrives_def tw_event_sig_compare_ptr_key)
  let ?last = "tw_event_sig_compare_ptr (last_sig (kps me k)) (qsig (heap me a)) \<le> 0"
  have r: "recv_finish c nc a me = (if ?last then pq_enqueue a m1 else
      (let m = upd_ev a (\<lambda>v. v\<lparr>qowner := TW_pe_event_q\<rparr>) m1 in Inr (m\<lparr>event_q := event_q m @ [a]\<rparr>)))"
  proof -
    have "recv_finish c nc a me =
      ebind (ebind (tw_hash_insert c a m0) (\<lambda>me. Inr (upd_ev a (\<lambda>v. v\<lparr>st_remote := True\<rparr>) me))) (\<lambda>me.
        if tw_event_sig_compare_ptr (last_sig (kps me (kp_of c (dest_lp (heap me a))))) (qsig (heap me a)) \<le> 0 \<and> cancel_q me = []
        then pq_enqueue a me else
          let me = upd_ev a (\<lambda>v. v\<lparr>qowner := TW_pe_event_q\<rparr>) me in Inr (me\<lparr>event_q := event_q me @ [a]\<rparr>))"
      using ar a(2,3) unfolding recv_finish_def m0_def v_def by (simp add: Let_def pe_simps received_def)
    then show ?thesis by (simp add: ins m1_def[symmetric] h1 v_def received_def k[symmetric])
  qed
  show ?thesis
  proof (cases ?last)
    case False
    then show ?thesis using r t'(2,3) h1 q(1) e
      by (intro exI[of _ "(upd_ev a (\<lambda>v. v\<lparr>qowner := TW_pe_event_q\<rparr>) m1)\<lparr>event_q := event_q m1 @ [a]\<rparr>"] exI[of _ TW_pe_event_q])
        (simp add: pe_simps v_def)
  next
    case True
    let ?hp = "(heap me)(a := v\<lparr>st_remote := True, qowner := TW_pe_pq\<rparr>)"
    have kk: "key_at ?hp = key_at (heap me)" "wf_at ?hp = wf_at (heap me)"
      by (rule key_at_cong, simp add: v_def) (rule wf_at_cong, simp add: v_def)
    have "wf_at (heap me) a" using a(1) by (simp add: arrives_def wf_at_def)
    then obtain q' where q': "tw_pq_enqueue (lt_rand ?hp) (pq me) a = Inr q'" "pq_inv (key_at (heap me)) (wf_at (heap me)) q'"
      "contents q' = insort_key (key_at (heap me)) a (contents (pq me))"
      using pq.enqueue_Inr[of ?hp "pq me" a] q by (auto simp: kk)
    have "pq_enqueue a m1 = Inr ((upd_ev a (\<lambda>e. e\<lparr>qowner := TW_pe_pq\<rparr>) m1)\<lparr>pq := q'\<rparr>)"
      using q'(1) by (simp add: pq_enqueue_def Let_def pe_simps h1)
    then show ?thesis using r True t'(2,3) h1 q'(2,3)
      by (intro exI[of _ "(upd_ev a (\<lambda>e. e\<lparr>qowner := TW_pe_pq\<rparr>) m1)\<lparr>pq := q'\<rparr>"] exI[of _ TW_pe_pq])
        (simp add: pe_simps v_def)
  qed
qed


section \<open>An anti-message\<close>

lemma recv_anti:
  fixes me :: "('st, 'bf, 'm, 'r, 'w, 'z) net_pe_scheme"
  assumes b: "arrives c nc me (heap me b)" "st_cancel_q (heap me b)"
    and k: "k = kp_of c (local_lp c (dest_lp (heap me b)))"
    and t: "store_ok (heap me) (avl_tree me k)" "a \<in> set (elems (avl_tree me k))" "avl_key (heap me a) = avl_key (heap me b)"
    and ab: "a \<noteq> b"
  shows "\<exists>me'. recv_finish c nc b me = Inr me' \<and> cancel_q me' = a # cancel_q me \<and>
    heap me' = (heap me)(a := (heap me a)\<lparr>st_cancel_q := True, st_remote := False\<rparr>,
      b := (received c (heap me b))\<lparr>out_msgs := [], qowner := TW_pe_free_q\<rparr>) \<and>
    free_q me' = b # free_q me \<and> pq me' = pq me \<and> event_q me' = event_q me \<and>
    elems (avl_tree me' k) = remove1 a (elems (avl_tree me k)) \<and> (\<forall>j. j \<noteq> k \<longrightarrow> avl_tree me' j = avl_tree me j) \<and>
    avl_nodes me' = avl_nodes me + 1 \<and> kps me' = kps me \<and> lps me' = lps me \<and> GVT_sig me' = GVT_sig me"
proof -
  define v where "v = received c (heap me b)"
  define m0 where "m0 = note_transient (qsig v) (upd_ev b (\<lambda>v. v\<lparr>caused_by_me := []\<rparr>)
    (upd_ev b (\<lambda>v. v\<lparr>dest_lp := local_lp c (dest_lp v)\<rparr>) (me\<lparr>s_nwhite_recv := s_nwhite_recv me + 1\<rparr>)))"
  have h0: "heap m0 = (heap me)(b := v)" "pq m0 = pq me" "event_q m0 = event_q me" "cancel_q m0 = cancel_q me" "avl_tree m0 = avl_tree me"
    "avl_nodes m0 = avl_nodes me" "free_q m0 = free_q me" "kps m0 = kps me" "lps m0 = lps me" "GVT_sig m0 = GVT_sig me"
    by (simp_all add: m0_def pe_simps v_def received_def)
  have ak: "(\<lambda>x. avl_key (heap m0 x)) = (\<lambda>x. avl_key (heap me x))" by (rule ext) (simp add: h0(1) v_def)
  have kd: "kp_of c (dest_lp (heap m0 b)) = k" by (simp add: h0(1) v_def received_def k)
  have "avl_key (heap m0 a) = avl_key (heap m0 b)" using t(3) ab by (simp add: h0(1) v_def)
  then obtain t' where t': "avlDelete (avl_lt (heap m0)) (avl_tree me k) (avl_nodes me) b = Inr (a, t', avl_nodes me + 1)" "avlSanityCheck t'"
    "elems t' = remove1 a (elems (avl_tree me k))"
    using avl.avl_delete[of "avl_tree me k" "heap m0" a b "avl_nodes me"] t(1,2) unfolding store_ok_def ak by auto
  define mi where "mi = (m0\<lparr>avl_tree_size := avl_tree_size m0 - 1\<rparr>)\<lparr>avl_tree := (avl_tree me)(k := t'), avl_nodes := avl_nodes me + 1\<rparr>"
  have del: "tw_hash_remove c b m0 = Inr (a, mi)" using t'(1) kd h0 by (simp add: tw_hash_remove_def mi_def Let_def)
  have ar: "\<not> int (send_pe (heap me b)) > int (world_size nc) - 1" "\<not> tw_event_sig_compare_ptr (qsig (heap me b)) (GVT_sig me) < 0"
    using b(1) by (auto simp: arrives_def tw_event_sig_compare_ptr_key)
  have "recv_finish c nc b me = ebind (tw_hash_remove c b m0) (\<lambda>(cancel, me).
      let me = upd_ev cancel (\<lambda>v. v\<lparr>st_cancel_q := True, st_remote := False\<rparr>) me;
          me = me\<lparr>cancel_q := cancel # cancel_q me\<rparr> in Inr (tw_event_free b me))"
    using ar b(2) unfolding recv_finish_def m0_def v_def by (simp add: Let_def pe_simps received_def)
  then have r: "recv_finish c nc b me = Inr (tw_event_free b ((upd_ev a (\<lambda>v. v\<lparr>st_cancel_q := True, st_remote := False\<rparr>) mi)
      \<lparr>cancel_q := a # cancel_q me\<rparr>))"
    by (simp add: del Let_def mi_def h0 pe_simps)
  show ?thesis unfolding r
    by (rule exI[of _ "tw_event_free b ((upd_ev a (\<lambda>v. v\<lparr>st_cancel_q := True, st_remote := False\<rparr>) mi)\<lparr>cancel_q := a # cancel_q me\<rparr>)"])
      (use ab t'(3) in \<open>simp add: pe_simps mi_def h0 v_def fun_eq_iff\<close>)
qed

text \<open>
  C29: an anti-message takes back the event it follows, without a trace. If an event arrives
  from another PE and then its anti-message, and the scheduler empties the arrival queue and the
  cancel queue, no event is rolled back, whether the event was a straggler or not: the pending
  events, the clocks of the KPs, the LPs, the event store and all other events are as before,
  and both buffers are free.
\<close>

theorem anti_message_annihilates:
  fixes me :: "('st, 'bf, 'm, 'r, 'w, 'z) net_pe_scheme"
  assumes a: "arrives c nc me (heap me a)" "\<not> st_cancel_q (heap me a)" "protocol c = OPTIMISTIC"
    and b: "a \<noteq> b" "st_cancel_q (heap me b)" "send_pe (heap me b) < world_size nc" "qsig (heap me b) = qsig (heap me a)"
      "dest_lp (heap me b) = dest_lp (heap me a)" "avl_key (heap me b) = avl_key (heap me a)"
    and k: "k = kp_of c (local_lp c (dest_lp (heap me a)))"
    and t: "store_ok (heap me) (avl_tree me k)" "avl_key (heap me a) \<notin> (\<lambda>x. avl_key (heap me x)) ` set (elems (avl_tree me k))"
      "2 \<le> avl_nodes me"
    and q: "pq_inv (key_at (heap me)) (wf_at (heap me)) (pq me)" "key_at (heap me) a \<notin> key_at (heap me) ` set (contents (pq me))"
      "Suc (length (contents (pq me))) < 2 ^ 32"
    and e: "event_q me = []" "cancel_q me = []"
  shows "\<exists>m1 m2 m3 m4. recv_finish c nc a me = Inr m1 \<and> recv_finish c nc b m1 = Inr m2 \<and>
    tw_sched_event_q 2 c net m2 = Inr m3 \<and> tw_sched_cancel_q 2 c net m3 = Inr m4 \<and>
    contents (pq m4) = contents (pq me) \<and> event_q m4 = [] \<and> cancel_q m4 = [] \<and> lps m4 = lps me \<and> kps m4 = kps me \<and>
    (\<forall>j. elems (avl_tree m4 j) = elems (avl_tree me j)) \<and> free_q m4 = a # b # free_q me \<and>
    (\<forall>x. x \<noteq> a \<longrightarrow> x \<noteq> b \<longrightarrow> heap m4 x = heap me x)"
proof -
  obtain m1 w where m1: "recv_finish c nc a me = Inr m1" "w \<in> {TW_pe_pq, TW_pe_event_q}"
    "heap m1 = (heap me)(a := (received c (heap me a))\<lparr>st_remote := True, qowner := w\<rparr>)"
    "w = TW_pe_pq \<longrightarrow> contents (pq m1) = insort_key (key_at (heap me)) a (contents (pq me)) \<and> event_q m1 = []"
    "w = TW_pe_event_q \<longrightarrow> pq m1 = pq me \<and> event_q m1 = [a]" "pq_inv (key_at (heap me)) (wf_at (heap me)) (pq m1)"
    "cancel_q m1 = []" "avlSanityCheck (avl_tree m1 k)" "\<forall>j. j \<noteq> k \<longrightarrow> avl_tree m1 j = avl_tree me j"
    "elems (avl_tree m1 k) = insort_key (\<lambda>x. avl_key (heap me x)) a (elems (avl_tree me k))" "free_q m1 = free_q me" "kps m1 = kps me"
    "lps m1 = lps me" "GVT_sig m1 = GVT_sig me"
    using recv_event[OF a k t q e] by blast
  have ak: "(\<lambda>x. avl_key (heap m1 x)) = (\<lambda>x. avl_key (heap me x))" by (rule ext) (simp add: m1(3))
  have hb: "heap m1 b = heap me b" using b(1) by (simp add: m1(3))
  have p1: "arrives c nc m1 (heap m1 b)" using a(1) b(3,4) by (simp add: arrives_def hb m1(14))
  have p2: "store_ok (heap m1) (avl_tree m1 k)"
    using t(1) key_sorted_insort[OF _ t(2)] m1(8,10) unfolding store_ok_def ak by simp
  have p3: "avl_key (heap m1 a) = avl_key (heap m1 b)" using b(6) hb by (simp add: m1(3))
  have p4: "a \<in> set (elems (avl_tree m1 k))" by (simp add: m1(10) set_insort_key)
  have p5: "st_cancel_q (heap m1 b)" "k = kp_of c (local_lp c (dest_lp (heap m1 b)))" using b k by (simp_all add: hb)
  obtain m2 where m2: "recv_finish c nc b m1 = Inr m2" "cancel_q m2 = [a]"
    "heap m2 = (heap m1)(a := (heap m1 a)\<lparr>st_cancel_q := True, st_remote := False\<rparr>,
      b := (received c (heap m1 b))\<lparr>out_msgs := [], qowner := TW_pe_free_q\<rparr>)"
    "free_q m2 = b # free_q me" "pq m2 = pq m1" "event_q m2 = event_q m1" "elems (avl_tree m2 k) = remove1 a (elems (avl_tree m1 k))"
    "\<forall>j. j \<noteq> k \<longrightarrow> avl_tree m2 j = avl_tree m1 j" "kps m2 = kps me" "lps m2 = lps me"
    using recv_anti[OF p1 p5 p2 p4 p3 b(1)] unfolding m1(7,11-13) by blast
  have tree: "elems (avl_tree m2 j) = elems (avl_tree me j)" for j
    using m1(9) m2(8) by (cases "j = k") (simp_all add: m2(7) m1(10) remove1_insort_key)
  have ha: "qowner (heap m2 a) = w" "st_cancel_q (heap m2 a)" using b(1) by (simp_all add: m2(3) m1(3))
  have hx: "heap m2 x = heap me x" if "x \<noteq> a" "x \<noteq> b" for x using that by (simp add: m2(3) m1(3))
  show ?thesis
  proof (cases "w = TW_pe_pq")
    case True
    have ctn: "contents (pq m2) = insort_key (key_at (heap me)) a (contents (pq me))" using m1(4) True by (simp add: m2(5))
    then have "a \<in> set (contents (pq m2))" by (simp add: set_insort_key)
    then obtain q' where q': "tw_pq_delete_any (pq m2) a = Inr q'" "contents q' = remove1 a (contents (pq m2))"
      using pq.delete_any_Inr[of "heap me" "pq m2" a] m1(6) by (auto simp: m2(5))
    define m4 where "m4 = tw_event_free a (upd_ev a (\<lambda>e. e\<lparr>qowner := No_owner\<rparr>) ((m2\<lparr>cancel_q := []\<rparr>)\<lparr>pq := q'\<rparr>))"
    have "event_q m2 = []" using m1(4) True by (simp add: m2(6))
    then have "tw_sched_event_q 2 c net m2 = Inr m2" by (subst tw_sched_event_q.simps) simp
    moreover have "tw_sched_cancel_q 2 c net m2 = Inr m4"
      using ha True q'(1) unfolding numeral_2_eq_2
      by (subst tw_sched_cancel_q.simps) (simp add: m2(2) cancel_owner_switch_def pq_delete_any_def m4_def tw_sched_cancel_q.simps pe_simps)
    moreover have "contents q' = contents (pq me)" by (simp add: q'(2) ctn remove1_insort_key)
    ultimately show ?thesis using m1(1) m2(1) tree hx \<open>event_q m2 = []\<close>
      by (intro exI[of _ m1] exI[of _ m2] exI[of _ m4]) (simp add: m4_def pe_simps m2(4,9,10))
  next
    case False
    then have w: "w = TW_pe_event_q" using m1(2) by simp
    then have eq: "event_q m2 = [a]" "pq m2 = pq me" using m1(5) by (simp_all add: m2(5,6))
    define m3 where "m3 = upd_ev a (\<lambda>v. v\<lparr>qowner := TW_pe_anti_msg\<rparr>) (m2\<lparr>event_q := []\<rparr>)"
    define m4 where "m4 = tw_event_free a (m3\<lparr>cancel_q := []\<rparr>)"
    have "tw_sched_event_q 2 c net m2 = Inr m3"
      using ha w unfolding numeral_2_eq_2
      by (subst tw_sched_event_q.simps) (simp add: eq m3_def tw_sched_event_q.simps pe_simps)
    moreover have "tw_sched_cancel_q 2 c net m3 = Inr m4"
      using ha unfolding numeral_2_eq_2
      by (subst tw_sched_cancel_q.simps) (simp add: m2(2) m3_def cancel_owner_switch_def m4_def tw_sched_cancel_q.simps pe_simps)
    ultimately show ?thesis using m1(1) m2(1) tree hx eq(2)
      by (intro exI[of _ m1] exI[of _ m2] exI[of _ m3] exI[of _ m4]) (simp add: m3_def m4_def pe_simps m2(4,9,10))
  qed
qed

theorem anti_message_annihilates_witness:
  "\<exists>m1 m2 m3 m4. recv_finish ex_config ex_nc 8 (ex_npe\<lparr>event_q := []\<rparr>) = Inr m1 \<and> recv_finish ex_config ex_nc 9 m1 = Inr m2 \<and>
    tw_sched_event_q 2 ex_config (mpi_net ex_config ex_nc) m2 = Inr m3 \<and> tw_sched_cancel_q 2 ex_config (mpi_net ex_config ex_nc) m3 = Inr m4 \<and>
    contents (pq m4) = [3] \<and> free_q m4 = [8, 9, 4]"
proof -
  let ?me = "ex_npe\<lparr>event_q := []\<rparr>"
  have "arrives ex_config ex_nc ?me (heap ?me 8)"
    by (simp add: arrives_def ex_remote_def ex_nc_def)
  moreover have "pq_inv (key_at (heap ?me)) (wf_at (heap ?me)) (pq ?me)"
    by (simp add: pq_inv_def contents_def wf_at_def)
  moreover have "key_at (heap ?me) 8 \<notin> key_at (heap ?me) ` set (contents (pq ?me))"
    by (simp add: key_at_def rand_key_def contents_def ex_remote_def)
  moreover have "avl_key (heap ?me 9) = avl_key (heap ?me 8)" by (simp add: avl_key_def ex_remote_def ex_event_def)
  ultimately have "\<exists>m1 m2 m3 m4. recv_finish ex_config ex_nc 8 ?me = Inr m1 \<and> recv_finish ex_config ex_nc 9 m1 = Inr m2 \<and>
    tw_sched_event_q 2 ex_config (mpi_net ex_config ex_nc) m2 = Inr m3 \<and> tw_sched_cancel_q 2 ex_config (mpi_net ex_config ex_nc) m3 = Inr m4 \<and>
    contents (pq m4) = contents (pq ?me) \<and> event_q m4 = [] \<and> cancel_q m4 = [] \<and> lps m4 = lps ?me \<and> kps m4 = kps ?me \<and>
    (\<forall>j. elems (avl_tree m4 j) = elems (avl_tree ?me j)) \<and> free_q m4 = 8 # 9 # free_q ?me \<and>
    (\<forall>x. x \<noteq> 8 \<longrightarrow> x \<noteq> 9 \<longrightarrow> heap m4 x = heap ?me x)"
    using anti_message_annihilates[of ex_config ex_nc ?me 8 9 _ "mpi_net ex_config ex_nc"]
    by (auto simp: ex_remote_def ex_nc_def store_ok_def contents_def ex_config_def phold_config_def)
  then show ?thesis by (auto simp: contents_def)
qed

end
