(* ===== verification/Gvt.thy ===== *)
theory Gvt
  imports Net_Recv
begin

text \<open>
  Global virtual time (\<open>core/gvt/mpi_allreduce.c\<close>): when a PE starts a computation, the
  collective computation itself, fossil collection (\<open>core/tw-pe.c\<close>, \<open>core/tw-eventq.h\<close>), the
  triggers of the GVT hook and the step that calls it (\<open>core/tw-sched.c\<close>).
\<close>

section \<open>State\<close>

record ('st, 'bf, 'm, 'r, 'w) gvt_pe = "('st, 'bf, 'm, 'r, 'w) net_pe" +
  gvt_no_change :: nat
  all_reduce_cnt :: nat
  gvt_done :: int

definition g_tw_gvt_max_no_change :: nat where
  "g_tw_gvt_max_no_change = 10000"

section \<open>Starting a computation\<close>

definition NOT_PAST_LOOKAHEAD :: "('st, 'bf, 'm) config \<Rightarrow> real \<Rightarrow> ('st, 'bf, 'm, 'z) tw_pe_scheme \<Rightarrow> bool" where
  "NOT_PAST_LOOKAHEAD c max_opt_lookahead pe \<longleftrightarrow>
     ts_sub c (recv_ts (tw_pq_minimum_sig_ptr (heap pe) (pq pe))) (recv_ts (GVT_sig pe)) < max_opt_lookahead"

definition PAST_GVT_HOOK_ACTIVATION :: "('st, 'bf, 'm, 'z) tw_pe_scheme \<Rightarrow> bool" where
  "PAST_GVT_HOOK_ACTIVATION pe \<longleftrightarrow>
     hook_status (hook_trigger pe) = GVT_HOOK_STATUS_timestamp \<and>
     tw_event_sig_compare_ptr (tw_pq_minimum_sig_ptr (heap pe) (pq pe)) (sig_at (hook_trigger pe)) \<ge> 0"

definition tw_gvt_step1 :: "('st, 'bf, 'm) config \<Rightarrow> real \<Rightarrow> ('st, 'bf, 'm, 'z) tw_pe_scheme \<Rightarrow> ('st, 'bf, 'm, 'z) tw_pe_scheme" where
  "tw_gvt_step1 c max_opt_lookahead me =
     (if gvt_status me then me
      else
        let me = me\<lparr>gvt_cnt := gvt_cnt me + 1\<rparr>;
            still_within_interval = gvt_cnt me < gvt_interval c
        in if still_within_interval \<and> NOT_PAST_LOOKAHEAD c max_opt_lookahead me \<and> \<not> PAST_GVT_HOOK_ACTIVATION me
           then me else me\<lparr>gvt_status := True\<rparr>)"

text \<open>
  The variant for real time: \<open>elapsed\<close> is what the clock shows since the start of the interval.
\<close>

definition tw_gvt_step1_realtime :: "('st, 'bf, 'm) config \<Rightarrow> real \<Rightarrow> nat \<Rightarrow> nat
    \<Rightarrow> ('st, 'bf, 'm, 'z) tw_pe_scheme \<Rightarrow> ('st, 'bf, 'm, 'z) tw_pe_scheme" where
  "tw_gvt_step1_realtime c max_opt_lookahead elapsed realtime_interval me =
     (if gvt_status me then me
      else
        let still_within_interval = elapsed < realtime_interval
        in if still_within_interval \<and> NOT_PAST_LOOKAHEAD c max_opt_lookahead me \<and> \<not> PAST_GVT_HOOK_ACTIVATION me
           then me else me\<lparr>gvt_status := True\<rparr>)"

section \<open>Fossil collection\<close>

text \<open>
  \<open>tw_eventq_fossil_collect\<close> on the list of the queue: what stays and what is cut off at the
  tail. \<open>Event_Queue\<close> has the linked operation.
\<close>

definition fossil_split :: "(addr \<Rightarrow> ('bf, 'm) pevent) \<Rightarrow> tw_event_sig \<Rightarrow> addr list \<Rightarrow> addr list \<times> addr list" where
  "fossil_split hp gvt q =
     (let older = (\<lambda>a. tw_event_sig_compare_ptr (qsig (hp a)) gvt < 0) in
      if q = [] \<or> \<not> older (last q) then (q, [])
      else if older (hd q) then ([], q)
      else (rev (dropWhile older (rev q)), rev (takeWhile older (rev q))))"

text \<open>The events it caused that were sent to other PEs are no longer needed.\<close>

fun free_sent :: "addr list \<Rightarrow> ('st, 'bf, 'm, 'z) tw_pe_scheme \<Rightarrow> ('st, 'bf, 'm, 'z) tw_pe_scheme" where
  "free_sent [] pe = pe"
| "free_sent (e # es) pe =
     free_sent es (if qowner (heap pe e) = TW_pe_sevent_q then tw_event_free e pe else pe)"

text \<open>The body of the loop of \<open>tw_eventq_push_list\<close>.\<close>

definition commit_event :: "('st, 'bf, 'm) config \<Rightarrow> addr \<Rightarrow> ('st, 'bf, 'm, 'r, 'w, 'z) net_pe_scheme
    \<Rightarrow> ross_error + ('st, 'bf, 'm, 'r, 'w, 'z) net_pe_scheme" where
  "commit_event c a pe =
     (let lp = dest_lp (heap pe a);
          pe = (case commit_h c of
              None \<Rightarrow> pe
            | Some f \<Rightarrow> upd_lp lp (\<lambda>l. l\<lparr>cur_state := f lp (cur_state l) (cv (heap pe a)) (msg (heap pe a))\<rparr>) pe);
          pe = tw_free_output_messages a True pe
      in ebind (if event_id (heap pe a) \<noteq> 0 \<and> st_remote (heap pe a)
                then ebind (tw_hash_remove c a pe) (\<lambda>(x, pe). Inr pe) else Inr pe) (\<lambda>pe.
         Inr (if caused_by_me (heap pe a) \<noteq> []
              then upd_ev a (\<lambda>v. v\<lparr>caused_by_me := [], qowner := TW_pe_free_q\<rparr>) (free_sent (caused_by_me (heap pe a)) pe)
              else pe)))"

fun commit_events :: "('st, 'bf, 'm) config \<Rightarrow> addr list \<Rightarrow> ('st, 'bf, 'm, 'r, 'w, 'z) net_pe_scheme
    \<Rightarrow> ross_error + ('st, 'bf, 'm, 'r, 'w, 'z) net_pe_scheme" where
  "commit_events c [] pe = Inr pe"
| "commit_events c (a # as) pe = ebind (commit_event c a pe) (commit_events c as)"

definition kp_fossil_collect :: "('st, 'bf, 'm) config \<Rightarrow> nat \<Rightarrow> ('st, 'bf, 'm, 'r, 'w, 'z) net_pe_scheme
    \<Rightarrow> ross_error + ('st, 'bf, 'm, 'r, 'w, 'z) net_pe_scheme" where
  "kp_fossil_collect c k pe =
     (case fossil_split (heap pe) (GVT_sig pe) (pevent_q (kps pe k)) of
        (keep, old) \<Rightarrow>
          let pe = upd_kp k (\<lambda>kp. kp\<lparr>pevent_q := keep\<rparr>) pe;
              pe = pe\<lparr>free_q := old @ free_q pe\<rparr>
          in commit_events c (rev old) pe)"

fun fossil_collect_kps :: "('st, 'bf, 'm) config \<Rightarrow> nat list \<Rightarrow> ('st, 'bf, 'm, 'r, 'w, 'z) net_pe_scheme
    \<Rightarrow> ross_error + ('st, 'bf, 'm, 'r, 'w, 'z) net_pe_scheme" where
  "fossil_collect_kps c [] pe = Inr pe"
| "fossil_collect_kps c (k # ks) pe = ebind (kp_fossil_collect c k pe) (fossil_collect_kps c ks)"

definition tw_pe_fossil_collect :: "('st, 'bf, 'm) config \<Rightarrow> ('st, 'bf, 'm, 'r, 'w, 'z) net_pe_scheme
    \<Rightarrow> ross_error + ('st, 'bf, 'm, 'r, 'w, 'z) net_pe_scheme" where
  "tw_pe_fossil_collect c pe = fossil_collect_kps c [0..<nkp c] pe"

section \<open>The computation\<close>

text \<open>
  \<open>tw_gvt_step2\<close> is entered by all PEs and runs in lock step: the PEs are a list, in the order of
  their ranks, \<open>cs\<close> and \<open>ncs\<close> their configurations, and the outside world is handed from one to
  the next. A round reads the network on every PE and adds up the messages that were sent and
  not yet received; the first argument bounds the rounds.
\<close>

fun read_all :: "(nat \<Rightarrow> ('st, 'bf, 'm) config) \<Rightarrow> (nat \<Rightarrow> ('bf, 'm, 'r, 'w) net_config) \<Rightarrow> nat
    \<Rightarrow> ('st, 'bf, 'm, 'r, 'w, 'z) net_pe_scheme list \<Rightarrow> 'w
    \<Rightarrow> ross_error + (('st, 'bf, 'm, 'r, 'w, 'z) net_pe_scheme list \<times> 'w)" where
  "read_all cs ncs i [] w = Inr ([], w)"
| "read_all cs ncs i (me # mes) w =
     ebind (tw_net_read (cs i) (ncs i) (me\<lparr>world := w\<rparr>)) (\<lambda>me.
     ebind (read_all cs ncs (Suc i) mes (world me)) (\<lambda>(mes, w). Inr (me # mes, w)))"

definition local_white :: "('st, 'bf, 'm, 'r, 'w, 'z) net_pe_scheme \<Rightarrow> int" where
  "local_white me = s_nwhite_sent me - s_nwhite_recv me"

fun white_loop :: "nat \<Rightarrow> (nat \<Rightarrow> ('st, 'bf, 'm) config) \<Rightarrow> (nat \<Rightarrow> ('bf, 'm, 'r, 'w) net_config)
    \<Rightarrow> ('st, 'bf, 'm, 'r, 'w, 'z) gvt_pe_scheme list \<Rightarrow> 'w
    \<Rightarrow> ross_error + (('st, 'bf, 'm, 'r, 'w, 'z) gvt_pe_scheme list \<times> 'w)" where
  "white_loop 0 cs ncs mes w = Inl Out_Of_Fuel"
| "white_loop (Suc n) cs ncs mes w =
     ebind (read_all cs ncs 0 mes w) (\<lambda>(mes, w).
       let total_white = (\<Sum>me \<leftarrow> mes. local_white me);
           mes = map (\<lambda>me. me\<lparr>all_reduce_cnt := all_reduce_cnt me + 1\<rparr>) mes
       in if total_white = 0 then Inr (mes, w) else white_loop n cs ncs mes w)"

text \<open>
  The lower bound of one PE. The local variable \<open>lvt_sig\<close> is not initialised, and the copy writes
  the part of the chain that is in use: \<open>u\<close> is what the stack holds.
\<close>

definition gvt_lvt :: "('st, 'bf, 'm) config \<Rightarrow> tw_event_sig \<Rightarrow> ('st, 'bf, 'm, 'r, 'w, 'z) net_pe_scheme \<Rightarrow> tw_event_sig" where
  "gvt_lvt c u me =
     (let pq_min_sig = tw_copy_event_sig g_tw_max_sig (tw_pq_minimum_sig_ptr (heap me) (pq me));
          net_min_sig = tw_copy_event_sig g_tw_max_sig (tw_net_minimum_sig_ptr me);
          lvt_sig = tw_copy_event_sig u (trans_msg_sig me);
          lvt_sig = (if tw_event_sig_compare_ptr lvt_sig pq_min_sig > 0 then tw_copy_event_sig lvt_sig pq_min_sig else lvt_sig);
          lvt_sig = (if tw_event_sig_compare_ptr lvt_sig net_min_sig > 0 then tw_copy_event_sig lvt_sig net_min_sig else lvt_sig)
      in if has_hook c \<and> hook_status (hook_trigger me) \<noteq> GVT_HOOK_STATUS_disabled
            \<and> tw_event_sig_compare_ptr lvt_sig (sig_at (hook_trigger me)) > 0
         then tw_copy_event_sig lvt_sig (sig_at (hook_trigger me)) else lvt_sig)"

text \<open>\<open>MPI_Allreduce\<close> with the operator \<open>find_min_sig\<close>.\<close>

fun reduce_sigs :: "tw_event_sig list \<Rightarrow> ross_error + tw_event_sig" where
  "reduce_sigs [] = Inl Bad_Pointer"
| "reduce_sigs [s] = Inr s"
| "reduce_sigs (s # t # ss) =
     ebind (reduce_sigs (t # ss)) (\<lambda>r. ebind (find_min_sig [s] [r]) (\<lambda>out. Inr (hd out)))"

text \<open>The rest of the function on one PE, once the global minimum is known.\<close>

definition gvt_commit :: "('st, 'bf, 'm) config \<Rightarrow> tw_event_sig \<Rightarrow> ('st, 'bf, 'm, 'r, 'w, 'z) gvt_pe_scheme
    \<Rightarrow> ross_error + ('st, 'bf, 'm, 'r, 'w, 'z) gvt_pe_scheme" where
  "gvt_commit c gvt_sig me =
     (let me = me\<lparr>all_reduce_cnt := all_reduce_cnt me + 1\<rparr>;
          changed = tw_event_sig_compare_ptr gvt_sig (GVT_prev_sig me) < 0;
          gvt_sig = (if changed then gvt_sig else tw_copy_event_sig gvt_sig (GVT_prev_sig me));
          me = (if changed then me\<lparr>gvt_no_change := 0\<rparr> else me\<lparr>gvt_no_change := gvt_no_change me + 1\<rparr>)
      in if \<not> changed \<and> gvt_no_change me \<ge> g_tw_gvt_max_no_change
         then Inl (Tw_Error ''GVT computed times in a row without changing'')
         else if tw_event_sig_compare_ptr (GVT_sig me) gvt_sig > 0
         then Inl (Tw_Error ''GVT decreased'')
         else
           let me = me\<lparr>s_nwhite_sent := 0, s_nwhite_recv := 0,
                 trans_msg_sig := tw_copy_event_sig (trans_msg_sig me) g_tw_max_sig,
                 GVT_sig := tw_copy_event_sig (GVT_sig me) gvt_sig, gvt_status := False, gvt_cnt := 0\<rparr>
           in ebind (if protocol c = OPTIMISTIC \<or> protocol c = OPTIMISTIC_REALTIME
                     then tw_pe_fossil_collect c me else Inr me) (\<lambda>me.
                Inr (me\<lparr>gvt_done := gvt_done me + 1\<rparr>)))"

fun commit_all :: "(nat \<Rightarrow> ('st, 'bf, 'm) config) \<Rightarrow> tw_event_sig \<Rightarrow> nat \<Rightarrow> ('st, 'bf, 'm, 'r, 'w, 'z) gvt_pe_scheme list
    \<Rightarrow> ross_error + ('st, 'bf, 'm, 'r, 'w, 'z) gvt_pe_scheme list" where
  "commit_all cs gvt i [] = Inr []"
| "commit_all cs gvt i (me # mes) =
     ebind (gvt_commit (cs i) gvt me) (\<lambda>me. ebind (commit_all cs gvt (Suc i) mes) (\<lambda>mes. Inr (me # mes)))"

definition lvts :: "(nat \<Rightarrow> ('st, 'bf, 'm) config) \<Rightarrow> (nat \<Rightarrow> tw_event_sig)
    \<Rightarrow> ('st, 'bf, 'm, 'r, 'w, 'z) net_pe_scheme list \<Rightarrow> tw_event_sig list" where
  "lvts cs us mes = map (\<lambda>i. gvt_lvt (cs i) (us i) (mes ! i)) [0..<length mes]"

text \<open>
  A PE that is not computing returns at once, and the others wait for it: then nobody gets past
  the first collective call.
\<close>

definition tw_gvt_step2 :: "nat \<Rightarrow> (nat \<Rightarrow> ('st, 'bf, 'm) config) \<Rightarrow> (nat \<Rightarrow> ('bf, 'm, 'r, 'w) net_config) \<Rightarrow> (nat \<Rightarrow> tw_event_sig)
    \<Rightarrow> ('st, 'bf, 'm, 'r, 'w, 'z) gvt_pe_scheme list \<Rightarrow> 'w
    \<Rightarrow> ross_error + (('st, 'bf, 'm, 'r, 'w, 'z) gvt_pe_scheme list \<times> 'w)" where
  "tw_gvt_step2 n cs ncs us mes w =
     (if list_all (\<lambda>me. \<not> gvt_status me) mes then Inr (mes, w)
      else if list_ex (\<lambda>me. \<not> gvt_status me) mes then Inl Out_Of_Fuel
      else ebind (white_loop n cs ncs mes w) (\<lambda>(mes, w).
     ebind (reduce_sigs (lvts cs us mes)) (\<lambda>gvt.
     ebind (commit_all cs gvt 0 mes) (\<lambda>mes. Inr (mes, w)))))"

section \<open>The GVT hook\<close>

definition tw_trigger_gvt_hook_at_event_sig :: "tw_event_sig \<Rightarrow> ('st, 'bf, 'm, 'z) tw_pe_scheme \<Rightarrow> ('st, 'bf, 'm, 'z) tw_pe_scheme" where
  "tw_trigger_gvt_hook_at_event_sig t pe =
     pe\<lparr>hook_trigger := (hook_trigger pe)\<lparr>hook_status := GVT_HOOK_STATUS_timestamp, sig_at := t\<rparr>\<rparr>"

definition tw_trigger_gvt_hook_at :: "real \<Rightarrow> ('st, 'bf, 'm, 'z) tw_pe_scheme \<Rightarrow> ('st, 'bf, 'm, 'z) tw_pe_scheme" where
  "tw_trigger_gvt_hook_at t pe =
     (let time_sig = \<lparr>recv_ts = t, priority = 0, tie_lineage_length = 1, event_tiebreaker = replicate MAX_TIE_CHAIN 0\<rparr>
      in pe\<lparr>hook_trigger := (hook_trigger pe)\<lparr>hook_status := GVT_HOOK_STATUS_timestamp, sig_at := time_sig\<rparr>\<rparr>)"

definition tw_trigger_gvt_hook_every :: "int \<Rightarrow> ('st, 'bf, 'm, 'r, 'w, 'z) gvt_pe_scheme
    \<Rightarrow> ross_error + ('st, 'bf, 'm, 'r, 'w, 'z) gvt_pe_scheme" where
  "tw_trigger_gvt_hook_every num_gvt_calls pe =
     (if num_gvt_calls \<le> 0 then Inl (Tw_Error ''tw_trigger_gvt_hook_every has been called with a non-positive argument'')
      else Inr (pe\<lparr>hook_trigger := (hook_trigger pe)\<lparr>hook_status := GVT_HOOK_STATUS_every_n_gvt,
          starting_at := gvt_done pe, nums := num_gvt_calls,
          sig_at := tw_copy_event_sig (sig_at (hook_trigger pe)) g_tw_max_sig\<rparr>\<rparr>))"

definition tw_trigger_gvt_hook_when_model_calls :: "('st, 'bf, 'm, 'z) tw_pe_scheme \<Rightarrow> ('st, 'bf, 'm, 'z) tw_pe_scheme" where
  "tw_trigger_gvt_hook_when_model_calls pe =
     pe\<lparr>hook_trigger := (hook_trigger pe)\<lparr>hook_status := GVT_HOOK_STATUS_model_call,
       sig_at := tw_copy_event_sig (sig_at (hook_trigger pe)) g_tw_max_sig\<rparr>\<rparr>"

text \<open>
  \<open>tw_trigger_gvt_hook_now\<close> stores the time of the LP and appends a zero to its chain; it tests the
  length of the chain it overwrites, not of the one it extends.
\<close>

definition tw_trigger_gvt_hook_now :: "('st, 'bf, 'm) config \<Rightarrow> nat \<Rightarrow> ('st, 'bf, 'm, 'z) pe_step" where
  "tw_trigger_gvt_hook_now c lp pe =
     (if protocol c = CONSERVATIVE \<or> protocol c = OPTIMISTIC_DEBUG then Inr pe
      else if hook_status (hook_trigger pe) \<noteq> GVT_HOOK_STATUS_model_call
      then Inl (Tw_Error ''tw_trigger_gvt_hook_now called without tw_trigger_gvt_hook_when_model_calls'')
      else if tie_lineage_length (sig_at (hook_trigger pe)) \<ge> MAX_TIE_CHAIN
      then Inl (Tw_Error ''Maximum zero-offset tie chain reached'')
      else
        let s = tw_copy_event_sig (sig_at (hook_trigger pe)) (tw_now_sig c lp pe);
            n = tie_lineage_length s
        in if n \<ge> MAX_TIE_CHAIN then Inl Bad_Pointer
           else Inr (pe\<lparr>hook_trigger := (hook_trigger pe)\<lparr>sig_at := s\<lparr>event_tiebreaker := (event_tiebreaker s)[n := 0],
               tie_lineage_length := n + 1\<rparr>\<rparr>, gvt_status := True\<rparr>))"

definition tw_trigger_gvt_hook_now_rev :: "('st, 'bf, 'm, 'z) tw_pe_scheme \<Rightarrow> ('st, 'bf, 'm, 'z) tw_pe_scheme" where
  "tw_trigger_gvt_hook_now_rev pe =
     pe\<lparr>hook_trigger := (hook_trigger pe)\<lparr>sig_at := tw_copy_event_sig (sig_at (hook_trigger pe)) g_tw_max_sig\<rparr>\<rparr>"

text \<open>
  \<open>tw_gvt_hook_step\<close>: the two reductions over the PEs are the arguments \<open>all_past\<close> and
  \<open>any_past\<close> (\<open>is_gvt_past_hook_threshold\<close> and \<open>does_any_pe\<close>); \<open>hook\<close> is the model's function.
\<close>

definition past_hook :: "('st, 'bf, 'm, 'z) tw_pe_scheme \<Rightarrow> bool" where
  "past_hook me \<longleftrightarrow> tw_event_sig_compare_ptr (GVT_sig me) (sig_at (hook_trigger me)) \<ge> 0"

definition is_gvt_past_hook_threshold :: "('st, 'bf, 'm, 'z) tw_pe_scheme list \<Rightarrow> bool" where
  "is_gvt_past_hook_threshold mes = list_all past_hook mes"

definition does_any_pe :: "bool list \<Rightarrow> bool" where
  "does_any_pe vals = list_ex (\<lambda>b. b) vals"

definition tw_gvt_hook_step :: "('st, 'bf, 'm) config \<Rightarrow> bool \<Rightarrow> bool
    \<Rightarrow> (bool \<Rightarrow> ('st, 'bf, 'm, 'r, 'w, 'z) gvt_pe_scheme \<Rightarrow> ('st, 'bf, 'm, 'r, 'w, 'z) gvt_pe_scheme)
    \<Rightarrow> ('st, 'bf, 'm, 'r, 'w, 'z) gvt_pe_scheme \<Rightarrow> ross_error + ('st, 'bf, 'm, 'r, 'w, 'z) gvt_pe_scheme" where
  "tw_gvt_hook_step c all_past any_past hook me =
     (let t = hook_trigger me in
      if has_hook c \<and> hook_status t \<noteq> GVT_HOOK_STATUS_disabled then
        let (triggered, t) = (case hook_status t of
              GVT_HOOK_STATUS_timestamp \<Rightarrow> (all_past, if all_past then t\<lparr>hook_status := GVT_HOOK_STATUS_disabled\<rparr> else t)
            | GVT_HOOK_STATUS_every_n_gvt \<Rightarrow> (c_rem (gvt_done me - starting_at t) (nums t) = 0, t)
            | GVT_HOOK_STATUS_model_call \<Rightarrow> (any_past, if any_past then t\<lparr>sig_at := tw_copy_event_sig (sig_at t) g_tw_max_sig\<rparr> else t)
            | GVT_HOOK_STATUS_disabled \<Rightarrow> (False, t));
            me = me\<lparr>hook_trigger := t\<rparr>
        in if triggered then
             let past_end_time = recv_ts (GVT_sig me) \<ge> ts_end c in
             if past_end_time \<and> hook_status t \<noteq> GVT_HOOK_STATUS_timestamp then
               let me = me\<lparr>GVT_sig := tw_copy_event_sig (GVT_sig me) (sig_at t)\<rparr> in
               if tw_event_sig_compare_ptr (GVT_sig me) (tw_pq_minimum_sig_ptr (heap me) (pq me)) \<le> 0
               then Inr (hook past_end_time me)
               else Inl (Assertion ''tw_event_sig_compare_ptr(&me->GVT_sig, tw_pq_minimum_sig_ptr(me->pq)) <= 0'')
             else Inr (hook past_end_time me)
           else Inr me
      else Inr me)"

end
