(* ===== verification/Net_Inv.thy ===== *)
theory Net_Inv
  imports Gvt
begin

text \<open>
  What reading the network keeps (\<open>core/network-mpi.c\<close>): every event buffer has one place, the
  number of messages in the network is the number of those sent less those received, and
  during a GVT computation the least time of the arrivals is noted.
\<close>

section \<open>Elements of the event store\<close>

text \<open>Without any assumption on the tree: what a successful operation does to the elements.\<close>

lemma rotate_elems: "avlRotate t d = Inr t' \<Longrightarrow> elems t' = elems t"
  by (cases t; cases d; cases "child d t") (auto simp: Let_def split: avl.splits)

lemma set_child_elems: "child d t \<noteq> AVL_EMPTY \<Longrightarrow> elems c = elems (child d t) \<Longrightarrow> elems (set_child d c t) = elems t"
  by (cases t; cases d) auto

lemma fix_tall_elems:
  assumes "fix_tall t d = Inr t'"
  shows "elems t' = elems t"
proof (cases "avlGetHeight (child d (child d t)) > avlGetHeight (child (\<not> d) (child d t))")
  case True
  then show ?thesis using assms rotate_elems by (auto simp: fix_tall_def)
next
  case False
  then obtain c where c: "avlRotate (child d t) (\<not> d) = Inr c" "avlRotate (set_child d c t) d = Inr t'"
    using assms by (auto simp: fix_tall_def bind_simps)
  have "child d t \<noteq> AVL_EMPTY" using c(1) by auto
  then have "elems (set_child d c t) = elems t" using rotate_elems[OF c(1)] by (rule set_child_elems)
  then show ?thesis using rotate_elems[OF c(2)] by simp
qed

lemma rebalance_elems: "avlRebalance t = Inr t' \<Longrightarrow> elems t' = elems t"
  by (cases t) (auto simp: avlRebalance_def dest: fix_tall_elems split: if_splits)

lemma insert_elems: "avlInsert lt t n e = Inr (t', n') \<Longrightarrow> set (elems t') = insert e (set (elems t))"
proof (induction t arbitrary: t' n')
  case (AvlNode l k h r)
  then show ?case by (auto simp: bind_simps dest!: rebalance_elems split: if_splits)
qed (auto simp: bind_simps)

lemma delete_min_elems: "avlDeleteMin t n = Inr (m, t', n') \<Longrightarrow> set (elems t) = insert m (set (elems t'))"
proof (induction t arbitrary: m t' n')
  case (AvlNode l k h r)
  then show ?case by (cases "l = AVL_EMPTY") (auto simp: bind_simps dest!: rebalance_elems)
qed simp

lemma delete_elems:
  "avlDelete lt t n key = Inr (x, t', n') \<Longrightarrow> x \<in> set (elems t) \<and> lt key x = None \<and> set (elems t') \<subseteq> set (elems t)"
proof (induction t arbitrary: x t' n')
  case (AvlNode l k h r)
  show ?case
  proof (cases "lt key k")
    case None
    show ?thesis
    proof (cases "r = AVL_EMPTY")
      case True
      then show ?thesis using AvlNode.prems None by (auto simp: bind_simps dest!: rebalance_elems)
    next
      case False
      then show ?thesis using AvlNode.prems None
        by (auto simp: bind_simps dest!: rebalance_elems dest: delete_min_elems)
    qed
  next
    case (Some b)
    then show ?thesis using AvlNode.prems AvlNode.IH
      by (cases b) (fastforce simp: bind_simps dest!: rebalance_elems)+
  qed
qed simp

section \<open>The invariant\<close>

definition held :: "('st, 'bf, 'm, 'r, 'w, 'z) net_pe_scheme \<Rightarrow> addr set" where
  "held me = set (contents (pq me)) \<union> set (event_q me) \<union> set (cancel_q me) \<union> (\<Union>k. set (elems (avl_tree me k)))"

definition waiting :: "('st, 'bf, 'm, 'r, 'w, 'z) net_pe_scheme \<Rightarrow> addr list" where
  "waiting me = live (take (cur (posted_recvs me)) (event_list (posted_recvs me)))"

text \<open>
  The signature of an event is determined by what identifies it (\<open>sig_of\<close>): an anti-message is
  a copy of its event.
\<close>

definition good_event :: "(real \<times> real \<times> 32 word \<times> nat \<Rightarrow> tw_event_sig) \<Rightarrow> ('bf, 'm) pevent \<Rightarrow> bool" where
  "good_event sig_of v \<longleftrightarrow> wf_sig (qsig v) \<and> ev_recv_ts v = recv_ts (qsig v) \<and> qsig v = sig_of (avl_key v)"

text \<open>During a GVT computation an arrival that is not pending yet is noted.\<close>

definition noted :: "('st, 'bf, 'm, 'z) tw_pe_scheme \<Rightarrow> bool" where
  "noted me \<longleftrightarrow> wf_sig (trans_msg_sig me) \<and> (gvt_status me \<longrightarrow>
     (\<forall>a \<in> set (event_q me) \<union> set (cancel_q me). sig_key (trans_msg_sig me) \<le> sig_key (qsig (heap me a))))"

definition recvs_ok :: "('r \<Rightarrow> bool) \<Rightarrow> ('bf, 'm, 'r, 'w) net_config \<Rightarrow> 'r act_q \<Rightarrow> bool" where
  "recvs_ok is_send nc q \<longleftrightarrow> cur q \<le> read_buffer nc \<and> length (event_list q) = read_buffer nc \<and>
     length (req_list q) = read_buffer nc \<and> (\<forall>r \<in> set (take (cur q) (req_list q)). \<exists>x. r = Some x \<and> \<not> is_send x)"

definition bufs_ok :: "addr set \<Rightarrow> ('st, 'bf, 'm, 'r, 'w, 'z) net_pe_scheme \<Rightarrow> bool" where
  "bufs_ok U me \<longleftrightarrow> finite U \<and> card U < 2 ^ 32 - 1 \<and> set (free_q me) \<union> set (waiting me) \<union> held me \<union> set (outgoing me) \<subseteq> U \<and>
     distinct (free_q me @ waiting me) \<and> (set (free_q me) \<union> set (waiting me)) \<inter> (held me \<union> set (outgoing me)) = {} \<and>
     held me \<inter> set (outgoing me) = {}"

definition events_ok :: "(real \<times> real \<times> 32 word \<times> nat \<Rightarrow> tw_event_sig) \<Rightarrow> ('st, 'bf, 'm) config
    \<Rightarrow> ('st, 'bf, 'm, 'r, 'w, 'z) net_pe_scheme \<Rightarrow> bool" where
  "events_ok sig_of c me \<longleftrightarrow> (\<forall>a \<in> held me \<union> set (outgoing me). good_event sig_of (heap me a)) \<and>
     (\<forall>a \<in> set (outgoing me). send_pe (heap me a) = mynode c) \<and> wf_sig (GVT_sig me) \<and>
     pq_inv (key_at (heap me)) (wf_at (heap me)) (pq me)"

definition net_inv :: "addr set \<Rightarrow> ('r \<Rightarrow> bool) \<Rightarrow> (real \<times> real \<times> 32 word \<times> nat \<Rightarrow> tw_event_sig) \<Rightarrow> ('st, 'bf, 'm) config
    \<Rightarrow> ('bf, 'm, 'r, 'w) net_config \<Rightarrow> ('st, 'bf, 'm, 'r, 'w, 'z) net_pe_scheme \<Rightarrow> bool" where
  "net_inv U is_send sig_of c nc me \<longleftrightarrow> bufs_ok U me \<and> events_ok sig_of c me \<and> noted me \<and>
     recvs_ok is_send nc (posted_recvs me) \<and> sends_inv is_send c nc me"

lemma pq_inv_keys:
  assumes "\<And>a. a \<in> set (contents q) \<Longrightarrow> key' a = key a" "\<And>a. a \<in> set (contents q) \<Longrightarrow> ok' a = ok a"
  shows "pq_inv key' ok' q = pq_inv key ok q"
proof -
  have "key_sorted key' xs = key_sorted key xs" if "\<And>a. a \<in> set xs \<Longrightarrow> key' a = key a" for xs
    using that by (induction xs) auto
  then show ?thesis using assms by (auto simp: pq_inv_def)
qed

lemma key_at_same: "good_event s (hp a) \<Longrightarrow> hp' a = hp a \<Longrightarrow> key_at hp' a = key_at hp a"
  by (simp add: key_at_def)

text \<open>A successful insertion into the pending queue.\<close>

lemma pq_enqueue_success:
  assumes "tw_pq_enqueue (lt_rand hp) q a = Inr q'" "pq_inv (key_at hp) (wf_at hp) q" "wf_sig (qsig (hp a))"
    "Suc (length (contents q)) < 2 ^ 32"
  shows "pq_inv (key_at hp) (wf_at hp) q'" "set (contents q') = insert a (set (contents q))"
proof -
  have wf: "wf_at hp a" using assms(3) by (simp add: wf_at_def)
  have "key_at hp a \<notin> key_at hp ` set (contents q)"
    using pq.enqueue_Inl[OF assms(2) wf] assms(1) by auto
  then obtain q2 where "tw_pq_enqueue (lt_rand hp) q a = Inr q2" "pq_inv (key_at hp) (wf_at hp) q2"
    "contents q2 = insort_key (key_at hp) a (contents q)"
    using pq.enqueue_Inr[OF assms(2) wf] assms(4) by blast
  then show "pq_inv (key_at hp) (wf_at hp) q'" "set (contents q') = insert a (set (contents q))"
    using assms(1) by (auto simp: set_insort_key)
qed


section \<open>One event received\<close>

definition same_id :: "('bf, 'm) pevent \<Rightarrow> ('bf, 'm) pevent \<Rightarrow> bool" where
  "same_id v v' \<longleftrightarrow> qsig v' = qsig v \<and> ev_recv_ts v' = ev_recv_ts v \<and> avl_key v' = avl_key v \<and> rand_key v' = rand_key v"

lemma same_id_simps [simp]:
  "same_id v v" "same_id v (v\<lparr>st_remote := r\<rparr>)" "same_id v (v\<lparr>qowner := w\<rparr>)" "same_id v (v\<lparr>st_cancel_q := q\<rparr>)"
  "same_id v (received c v)" "same_id v (v\<lparr>out_msgs := ms\<rparr>)"
  by (simp_all add: same_id_def avl_key_def rand_key_def received_def)

lemma same_id_trans: "same_id u v \<Longrightarrow> same_id v w \<Longrightarrow> same_id u w"
  by (simp add: same_id_def)

lemma same_id_good: "same_id v v' \<Longrightarrow> good_event s v' = good_event s v"
  by (simp add: same_id_def good_event_def)

definition recv_start :: "('st, 'bf, 'm) config \<Rightarrow> addr \<Rightarrow> ('st, 'bf, 'm, 'r, 'w, 'z) net_pe_scheme \<Rightarrow> ('st, 'bf, 'm, 'r, 'w, 'z) net_pe_scheme" where
  "recv_start c e me = note_transient (qsig (heap me e)) (upd_ev e (\<lambda>v. v\<lparr>caused_by_me := []\<rparr>)
     (upd_ev e (\<lambda>v. v\<lparr>dest_lp := local_lp c (dest_lp v)\<rparr>) (me\<lparr>s_nwhite_recv := s_nwhite_recv me + 1\<rparr>)))"

lemma recv_start_sel:
  "heap (recv_start c e me) = (heap me)(e := received c (heap me e))" "pq (recv_start c e me) = pq me"
  "event_q (recv_start c e me) = event_q me" "cancel_q (recv_start c e me) = cancel_q me" "avl_tree (recv_start c e me) = avl_tree me"
  "free_q (recv_start c e me) = free_q me" "GVT_sig (recv_start c e me) = GVT_sig me" "gvt_status (recv_start c e me) = gvt_status me"
  "trans_msg_sig (recv_start c e me) = trans_msg_sig (note_transient (qsig (heap me e)) me)" "world (recv_start c e me) = world me"
  by (simp_all add: recv_start_def pe_simps received_def note_transient_def tw_gvt_inprogress_def)

lemma recv_finish_elim:
  assumes "recv_finish c nc e me = Inr me'"
  obtains
    (anti) x mi where "tw_hash_remove c e (recv_start c e me) = Inr (x, mi)"
      "me' = tw_event_free e ((upd_ev x (\<lambda>v. v\<lparr>st_cancel_q := True, st_remote := False\<rparr>) mi)\<lparr>cancel_q := x # cancel_q mi\<rparr>)"
  | (event) mi where "mi = recv_start c e me \<or>
      (\<exists>mj. tw_hash_insert c e (recv_start c e me) = Inr mj \<and> mi = upd_ev e (\<lambda>v. v\<lparr>st_remote := True\<rparr>) mj)"
      "pq_enqueue e mi = Inr me' \<or> me' = (upd_ev e (\<lambda>v. v\<lparr>qowner := TW_pe_event_q\<rparr>) mi)\<lparr>event_q := event_q mi @ [e]\<rparr>"
proof -
  let ?m0 = "recv_start c e me"
  have E: "recv_finish c nc e me = (if int (send_pe (heap me e)) > int (world_size nc) - 1 then Inl (Tw_Error ''bad sendpe_id'')
      else if tw_event_sig_compare_ptr (qsig (heap me e)) (GVT_sig me) < 0 then Inl (Tw_Error ''Received straggler'')
      else if st_cancel_q (heap me e) then
        ebind (tw_hash_remove c e ?m0) (\<lambda>(cancel, me).
          let me = upd_ev cancel (\<lambda>v. v\<lparr>st_cancel_q := True, st_remote := False\<rparr>) me;
              me = me\<lparr>cancel_q := cancel # cancel_q me\<rparr> in Inr (tw_event_free e me))
      else ebind (if protocol c = OPTIMISTIC \<or> protocol c = OPTIMISTIC_DEBUG \<or> protocol c = OPTIMISTIC_REALTIME
          then ebind (tw_hash_insert c e ?m0) (\<lambda>me. Inr (upd_ev e (\<lambda>v. v\<lparr>st_remote := True\<rparr>) me)) else Inr ?m0) (\<lambda>me.
        if tw_event_sig_compare_ptr (last_sig (kps me (kp_of c (dest_lp (heap me e))))) (qsig (heap me e)) \<le> 0 \<and> cancel_q me = []
        then pq_enqueue e me
        else let me = upd_ev e (\<lambda>v. v\<lparr>qowner := TW_pe_event_q\<rparr>) me in Inr (me\<lparr>event_q := event_q me @ [e]\<rparr>)))"
    unfolding recv_finish_def recv_start_def by (simp add: Let_def pe_simps)
  show thesis using E[unfolded assms, symmetric] anti event
    by (auto simp: bind_simps Let_def pe_simps split: if_splits)
qed


text \<open>What it does to the parts of the state the invariant looks at.\<close>

lemma recv_effect:
  assumes r: "recv_finish c nc e me = Inr me'" and e: "e \<notin> held me"
    and q: "pq_inv (key_at (heap me)) (wf_at (heap me)) (pq me)" "wf_sig (qsig (heap me e))" "Suc (length (contents (pq me))) < 2 ^ 32"
  shows "(\<forall>a. a \<noteq> e \<longrightarrow> a \<notin> held me \<longrightarrow> heap me' a = heap me a)" "same_id (heap me a) (heap me' a)"
    "free_q me' = e # free_q me \<and> held me' \<subseteq> held me \<or> free_q me' = free_q me \<and> held me' \<subseteq> insert e (held me)"
    "pq_inv (key_at (heap me')) (wf_at (heap me')) (pq me')"
    "\<forall>a \<in> set (event_q me') \<union> set (cancel_q me'). a \<in> set (event_q me) \<union> set (cancel_q me) \<or> a = e \<or>
       a \<in> held me \<and> avl_key (heap me a) = avl_key (heap me e)"
    "trans_msg_sig me' = trans_msg_sig (note_transient (qsig (heap me e)) me)" "gvt_status me' = gvt_status me"
    "GVT_sig me' = GVT_sig me" "world me' = world me"
proof -
  have "(\<forall>a. a \<noteq> e \<longrightarrow> a \<notin> held me \<longrightarrow> heap me' a = heap me a) \<and> (\<forall>a. same_id (heap me a) (heap me' a)) \<and>
    (free_q me' = e # free_q me \<and> held me' \<subseteq> held me \<or> free_q me' = free_q me \<and> held me' \<subseteq> insert e (held me)) \<and>
    pq_inv (key_at (heap me')) (wf_at (heap me')) (pq me') \<and>
    (\<forall>a \<in> set (event_q me') \<union> set (cancel_q me'). a \<in> set (event_q me) \<union> set (cancel_q me) \<or> a = e \<or>
       a \<in> held me \<and> avl_key (heap me a) = avl_key (heap me e)) \<and>
    trans_msg_sig me' = trans_msg_sig (note_transient (qsig (heap me e)) me) \<and> gvt_status me' = gvt_status me \<and>
    GVT_sig me' = GVT_sig me \<and> world me' = world me"
    using r
  proof (cases rule: recv_finish_elim)
    case (anti x mi)
    obtain k t' n' where d: "avlDelete (avl_lt (heap (recv_start c e me))) (avl_tree me k) (avl_nodes me) e = Inr (x, t', n')"
      "mi = (recv_start c e me)\<lparr>avl_tree_size := avl_tree_size (recv_start c e me) - 1, avl_tree := (avl_tree me)(k := t'), avl_nodes := n'\<rparr>"
      using anti(1) by (auto simp: tw_hash_remove_def bind_simps Let_def recv_start_def)
    have x: "x \<in> set (elems (avl_tree me k))" "set (elems t') \<subseteq> set (elems (avl_tree me k))"
      "avl_lt (heap (recv_start c e me)) e x = None"
      using delete_elems[OF d(1)] by auto
    have xh: "x \<in> held me" using x(1) by (auto simp: held_def)
    then have xe: "x \<noteq> e" using e by auto
    have "avl_key (heap (recv_start c e me) e) = avl_key (heap (recv_start c e me) x)"
      using x(3) avl.lt_None by blast
    then have xk: "avl_key (heap me x) = avl_key (heap me e)" using xe by (simp add: recv_start_sel)
    have h: "heap me' = (heap me)(x := (heap me x)\<lparr>st_cancel_q := True, st_remote := False\<rparr>,
        e := (received c (heap me e))\<lparr>out_msgs := [], qowner := TW_pe_free_q\<rparr>)"
      using xe by (auto simp: anti(2) d(2) pe_simps recv_start_sel fun_eq_iff)
    have f: "free_q me' = e # free_q me" "pq me' = pq me" "event_q me' = event_q me" "cancel_q me' = x # cancel_q me"
      "avl_tree me' = (avl_tree me)(k := t')" "gvt_status me' = gvt_status me" "GVT_sig me' = GVT_sig me" "world me' = world me"
      by (simp_all add: anti(2) d(2) pe_simps recv_start_sel)
    have tm: "trans_msg_sig me' = trans_msg_sig (note_transient (qsig (heap me e)) me)"
      by (simp add: anti(2) d(2) recv_start_sel pe_simps tw_event_free_def tw_free_output_messages_def Let_def)
    have "held me' \<subseteq> held me"
      using xh x(2) by (auto simp: held_def f split: if_splits)
    moreover have "same_id (heap me a) (heap me' a)" for a
      by (cases "a = e"; cases "a = x") (auto simp: h intro: same_id_trans[OF same_id_simps(5)] simp: same_id_def avl_key_def rand_key_def received_def)
    moreover have "heap me' a = heap me a" if "a \<noteq> e" "a \<notin> held me" for a using that xh by (auto simp: h)
    moreover have "pq_inv (key_at (heap me')) (wf_at (heap me')) (pq me')"
      using q(1) calculation(2) by (subst pq_inv_keys[of _ _ "key_at (heap me)" _ "wf_at (heap me)"])
        (simp_all add: f key_at_def wf_at_def same_id_def)
    ultimately show ?thesis using xh xk tm by (auto simp: f)
  next
    case (event mi)
    have mi: "heap mi e = (received c (heap me e))\<lparr>st_remote := st_remote (heap mi e)\<rparr>" "\<forall>a. a \<noteq> e \<longrightarrow> heap mi a = heap me a"
      "pq mi = pq me" "event_q mi = event_q me" "cancel_q mi = cancel_q me" "free_q mi = free_q me"
      "(\<Union>k. set (elems (avl_tree mi k))) \<subseteq> insert e (\<Union>k. set (elems (avl_tree me k)))"
      "gvt_status mi = gvt_status me" "GVT_sig mi = GVT_sig me" "world mi = world me"
      "trans_msg_sig mi = trans_msg_sig (note_transient (qsig (heap me e)) me)"
      using event(1)
      by (auto simp: recv_start_sel tw_hash_insert_def bind_simps Let_def pe_simps dest!: insert_elems split: if_splits)
    have id: "same_id (heap me a) (heap mi a)" for a
    proof (cases "a = e")
      case True
      have "same_id (heap me e) ((received c (heap me e))\<lparr>st_remote := st_remote (heap mi e)\<rparr>)"
        by (rule same_id_trans[OF same_id_simps(5)[of _ c]]) simp
      then show ?thesis using True mi(1) by metis
    qed (use mi(2) in simp)
    have key: "key_at (heap mi) = key_at (heap me)" "wf_at (heap mi) = wf_at (heap me)"
      using id by (auto simp: key_at_def wf_at_def same_id_def fun_eq_iff)
    obtain w where w: "heap me' = (heap mi)(e := (heap mi e)\<lparr>qowner := w\<rparr>)" "cancel_q me' = cancel_q me"
      "set (event_q me') \<subseteq> insert e (set (event_q me))" "free_q me' = free_q me" "avl_tree me' = avl_tree mi"
      "gvt_status me' = gvt_status me" "GVT_sig me' = GVT_sig me" "world me' = world me" "trans_msg_sig me' = trans_msg_sig mi"
      "pq me' = pq me \<or> tw_pq_enqueue (lt_rand (heap me')) (pq me) e = Inr (pq me')"
      using event(2)
    proof
      assume "pq_enqueue e mi = Inr me'"
      then show thesis by (intro that[of TW_pe_pq]) (auto simp: pq_enqueue_def bind_simps Let_def pe_simps mi(3-6,8-10))
    next
      assume "me' = (upd_ev e (\<lambda>v. v\<lparr>qowner := TW_pe_event_q\<rparr>) mi)\<lparr>event_q := event_q mi @ [e]\<rparr>"
      then show thesis by (intro that[of TW_pe_event_q]) (auto simp: upd_ev_def mi(3-6,8-10))
    qed
    have id': "same_id (heap me a) (heap me' a)" for a
      using same_id_trans[OF id[of a]] by (simp add: w(1))
    have key': "key_at (heap me') = key_at (heap me)" "wf_at (heap me') = wf_at (heap me)"
      using id' by (auto simp: key_at_def wf_at_def same_id_def fun_eq_iff)
    have pq: "pq_inv (key_at (heap me')) (wf_at (heap me')) (pq me') \<and> set (contents (pq me')) \<subseteq> insert e (set (contents (pq me)))"
    proof (cases "pq me' = pq me")
      case False
      then have en: "tw_pq_enqueue (lt_rand (heap me')) (pq me) e = Inr (pq me')" using w(10) by simp
      have "wf_sig (qsig (heap me' e))" using id'[of e] q(2) by (simp add: same_id_def)
      then show ?thesis using pq_enqueue_success[OF en _ _ q(3)] q(1) by (simp add: key')
    qed (use q(1) in \<open>auto simp: key'\<close>)
    have "held me' \<subseteq> insert e (held me)" using pq w(2,3) mi(7) by (auto simp: held_def w(5))
    moreover have "heap me' a = heap me a" if "a \<noteq> e" for a using that mi(2) by (simp add: w(1))
    moreover have "\<forall>a \<in> set (event_q me') \<union> set (cancel_q me'). a \<in> set (event_q me) \<union> set (cancel_q me) \<or> a = e"
      using w(2,3) by auto
    ultimately show ?thesis using id' pq w(4,6-9) mi(11) by auto
  qed
  then show "(\<forall>a. a \<noteq> e \<longrightarrow> a \<notin> held me \<longrightarrow> heap me' a = heap me a)" "same_id (heap me a) (heap me' a)"
    "free_q me' = e # free_q me \<and> held me' \<subseteq> held me \<or> free_q me' = free_q me \<and> held me' \<subseteq> insert e (held me)"
    "pq_inv (key_at (heap me')) (wf_at (heap me')) (pq me')"
    "\<forall>a \<in> set (event_q me') \<union> set (cancel_q me'). a \<in> set (event_q me) \<union> set (cancel_q me) \<or> a = e \<or>
       a \<in> held me \<and> avl_key (heap me a) = avl_key (heap me e)"
    "trans_msg_sig me' = trans_msg_sig (note_transient (qsig (heap me e)) me)" "gvt_status me' = gvt_status me"
    "GVT_sig me' = GVT_sig me" "world me' = world me"
    by blast+
qed


lemma note_transient_trans:
  assumes "wf_sig (trans_msg_sig me)" "wf_sig t"
  shows "wf_sig (trans_msg_sig (note_transient t me))"
    "gvt_status me \<Longrightarrow> sig_key (trans_msg_sig (note_transient t me)) \<le> sig_key t"
    "sig_key (trans_msg_sig (note_transient t me)) \<le> sig_key (trans_msg_sig me)"
  using assms by (auto simp: note_transient_def tw_gvt_inprogress_def tw_event_sig_compare_ptr_key)

lemma contents_small:
  assumes "pq_inv key ok q" "set (contents q) \<subseteq> U" "finite U" "card U < 2 ^ 32 - 1"
  shows "Suc (length (contents q)) < 2 ^ 32"
proof -
  have "distinct (contents q)" using key_sorted_distinct[of key "contents q"] assms(1) by (simp add: pq_inv_def distinct_map)
  then have "length (contents q) = card (set (contents q))" by (simp add: distinct_card)
  also have "\<dots> \<le> card U" using assms(2,3) by (rule card_mono[rotated])
  finally show ?thesis using assms(4) by simp
qed

lemma recv_finish_inv:
  assumes i: "net_inv U is_send sig_of c nc me" and e: "e \<in> U" "e \<notin> set (free_q me) \<union> set (waiting me) \<union> held me \<union> set (outgoing me)"
    "good_event sig_of (heap me e)" and r: "recv_finish c nc e me = Inr me'"
  shows "net_inv U is_send sig_of c nc me'" "waiting me' = waiting me" "\<forall>a \<in> set (waiting me). heap me' a = heap me a"
    "world me' = world me" "gvt_status me' = gvt_status me" "GVT_sig me' = GVT_sig me"
proof -
  have b: "bufs_ok U me" and ev: "events_ok sig_of c me" and no: "noted me" and rc: "recvs_ok is_send nc (posted_recvs me)"
    and si: "sends_inv is_send c nc me"
    using i by (simp_all add: net_inv_def)
  have sub: "set (contents (pq me)) \<subseteq> U" using b by (auto simp: bufs_ok_def held_def)
  have q: "pq_inv (key_at (heap me)) (wf_at (heap me)) (pq me)" "wf_sig (qsig (heap me e))" "Suc (length (contents (pq me))) < 2 ^ 32"
    using ev e(3) b contents_small[OF _ sub] by (auto simp: events_ok_def good_event_def bufs_ok_def)
  have en: "e \<notin> held me" using e(2) by simp
  note eff = recv_effect[OF r en q]
  note net = recv_finish_net[OF r]
  have wt: "waiting me' = waiting me" and og: "outgoing me' = outgoing me"
    using net by (simp_all add: waiting_def outgoing_def in_transit_def)
  have w: "heap me' a = heap me a" if "a \<in> set (waiting me) \<union> set (outgoing me)" for a
    using eff(1) that e(2) b by (auto simp: bufs_ok_def)
  have he: "held me' \<subseteq> insert e (held me)" using eff(3) by auto
  have b': "bufs_ok U me'"
    using eff(3)
  proof
    assume "free_q me' = e # free_q me \<and> held me' \<subseteq> held me"
    then show ?thesis using b e(1,2) unfolding bufs_ok_def wt og disjoint_iff subset_iff by simp blast
  next
    assume "free_q me' = free_q me \<and> held me' \<subseteq> insert e (held me)"
    then show ?thesis using b e(1,2) unfolding bufs_ok_def wt og disjoint_iff subset_iff by auto
  qed
  have ev': "events_ok sig_of c me'"
  proof -
    have "good_event sig_of (heap me' a)" if "a \<in> held me' \<union> set (outgoing me')" for a
    proof -
      have "good_event sig_of (heap me a)" using that he e(3) ev by (auto simp: og events_ok_def)
      then show ?thesis using same_id_good[OF eff(2)] by blast
    qed
    moreover have "send_pe (heap me' a) = mynode c" if "a \<in> set (outgoing me')" for a
      using that w ev by (simp add: og events_ok_def)
    ultimately show ?thesis using ev eff(4,8) by (simp add: events_ok_def)
  qed
  have no': "noted me'"
  proof -
    have wf: "wf_sig (trans_msg_sig me)" using no by (simp add: noted_def)
    note nt = note_transient_trans[OF wf q(2)]
    have "sig_key (trans_msg_sig me') \<le> sig_key (qsig (heap me' a))"
      if g: "gvt_status me" and a: "a \<in> set (event_q me') \<union> set (cancel_q me')" for a
    proof -
      have s: "qsig (heap me' a) = qsig (heap me a)" using eff(2) by (simp add: same_id_def)
      consider "a \<in> set (event_q me) \<union> set (cancel_q me)" | "a = e" | "a \<in> held me" "avl_key (heap me a) = avl_key (heap me e)"
        using eff(5) a by blast
      then show ?thesis
      proof cases
        case 1
        then show ?thesis using no g nt(3) unfolding s eff(6) noted_def by (meson order_trans)
      next
        case 2
        then show ?thesis using nt(2) g unfolding s eff(6) by simp
      next
        case 3
        then have "qsig (heap me a) = qsig (heap me e)" using ev e(3) by (simp add: events_ok_def good_event_def)
        then show ?thesis using nt(2) g unfolding s eff(6) by simp
      qed
    qed
    then show ?thesis using nt(1) by (simp add: noted_def eff(6,7))
  qed
  have "sends_inv is_send c nc me'"
    using si w net by (simp add: sends_inv_def Let_def og in_transit_def outgoing_def)
  then show "net_inv U is_send sig_of c nc me'" using b' ev' no' rc net by (simp add: net_inv_def)
  show "waiting me' = waiting me" by (rule wt)
  show "\<forall>a \<in> set (waiting me). heap me' a = heap me a" using w by simp
  show "world me' = world me" "gvt_status me' = gvt_status me" "GVT_sig me' = GVT_sig me" by (rule eff(9) eff(7) eff(8))+
qed

text \<open>A list of received events.\<close>

lemma waiting_clear:
  assumes "n < cur (posted_recvs s)" "cur (posted_recvs s) \<le> length (event_list (posted_recvs s))"
    "event_list (posted_recvs s) ! n = Some e" "distinct (waiting s)"
  shows "waiting (posted_recvs_update (\<lambda>v. v\<lparr>event_list := (event_list v)[n := None]\<rparr>) s) = remove1 e (waiting s)"
    "e \<in> set (waiting s)"
proof -
  let ?es = "take (cur (posted_recvs s)) (event_list (posted_recvs s))"
  have n: "n < length ?es" "?es ! n = Some e" using assms by simp_all
  show "waiting (posted_recvs_update (\<lambda>v. v\<lparr>event_list := (event_list v)[n := None]\<rparr>) s) = remove1 e (waiting s)"
    using live_clear[OF n] assms(4) by (simp add: waiting_def take_update_swap)
  have "Some e \<in> set ?es" using n by (metis nth_mem)
  then show "e \<in> set (waiting s)" by (simp add: waiting_def in_live)
qed

lemma net_inv_recvs:
  assumes "net_inv U is_send sig_of c nc s" "recvs_ok is_send nc q" "live (take (cur q) (event_list q)) = remove1 e (waiting s)"
    "posted_recvs s1 = q" "heap s1 = heap s" "outq s1 = outq s" "posted_sends s1 = posted_sends s" "held s1 = held s" "free_q s1 = free_q s"
    "pq s1 = pq s" "GVT_sig s1 = GVT_sig s" "event_q s1 = event_q s" "cancel_q s1 = cancel_q s" "trans_msg_sig s1 = trans_msg_sig s"
    "gvt_status s1 = gvt_status s"
  shows "net_inv U is_send sig_of c nc s1"
proof -
  have w: "waiting s1 = remove1 e (waiting s)" using assms(3,4) by (simp add: waiting_def)
  have o: "outgoing s1 = outgoing s" "in_transit s1 = in_transit s" by (simp_all add: outgoing_def in_transit_def assms(6,7))
  have b: "distinct (free_q s @ waiting s)" "(set (free_q s) \<union> set (waiting s)) \<inter> (held s \<union> set (outgoing s)) = {}"
    using assms(1) by (simp_all add: net_inv_def bufs_ok_def)
  have "set (waiting s1) \<subseteq> set (waiting s)" unfolding w by (rule set_remove1_subset)
  moreover have "distinct (free_q s1 @ waiting s1)" using b(1) calculation by (auto simp: w assms(9))
  ultimately have "bufs_ok U s1" using assms(1) by (auto simp: net_inv_def bufs_ok_def o assms)
  then show ?thesis using assms(1,2)
    by (simp add: net_inv_def events_ok_def noted_def sends_inv_def Let_def o assms(4-8,10-15))
qed

lemma finish_recvs_inv:
  fixes me :: "('st, 'bf, 'm, 'r, 'w, 'z) net_pe_scheme"
  assumes "net_inv U is_send sig_of c nc me" "distinct ns"
    "\<forall>n \<in> set ns. n < cur (posted_recvs me) \<and> (\<exists>e. event_list (posted_recvs me) ! n = Some e \<and> good_event sig_of (heap me e))"
    "finish_loop posted_recvs posted_recvs_update (recv_finish c nc) ns me = Inr me'"
  shows "net_inv U is_send sig_of c nc me' \<and> world me' = world me \<and> gvt_status me' = gvt_status me \<and> GVT_sig me' = GVT_sig me \<and>
    s_nwhite_recv me' = s_nwhite_recv me + int (length ns) \<and> s_nwhite_sent me' = s_nwhite_sent me \<and> posted_sends me' = posted_sends me"
  using assms
proof (induction ns arbitrary: me)
  case (Cons n ns)
  let ?s = "posted_recvs_update (\<lambda>v. v\<lparr>event_list := (event_list v)[n := None]\<rparr>) me"
  obtain e where e: "n < cur (posted_recvs me)" "event_list (posted_recvs me) ! n = Some e" "good_event sig_of (heap me e)"
    using Cons.prems(3) by auto
  obtain s1 where s1: "recv_finish c nc e ?s = Inr s1" "finish_loop posted_recvs posted_recvs_update (recv_finish c nc) ns s1 = Inr me'"
    using Cons.prems(4) e(2) by (auto simp: bind_simps)
  have rc: "recvs_ok is_send nc (posted_recvs me)" and b: "bufs_ok U me" using Cons.prems(1) by (simp_all add: net_inv_def)
  have dw: "distinct (waiting me)" using b by (simp add: bufs_ok_def)
  have wc: "waiting ?s = remove1 e (waiting me)" "e \<in> set (waiting me)"
    using waiting_clear[OF e(1) _ e(2) dw] rc by (auto simp: recvs_ok_def)
  have h: "held ?s = held me" "outgoing ?s = outgoing me" by (simp_all add: held_def outgoing_def in_transit_def)
  have i1: "net_inv U is_send sig_of c nc ?s"
    by (rule net_inv_recvs[OF Cons.prems(1), where q = "posted_recvs ?s" and e = e])
      (use rc wc(1) h in \<open>simp_all add: recvs_ok_def waiting_def\<close>)
  have eU: "e \<in> U" "e \<notin> set (free_q ?s) \<union> set (waiting ?s) \<union> held ?s \<union> set (outgoing ?s)"
    using b wc dw by (auto simp: bufs_ok_def h)
  note st = recv_finish_inv[OF i1 eU _ s1(1)] and net = recv_finish_net[OF s1(1)]
  have ge: "good_event sig_of (heap ?s e)" using e(3) by simp
  have "\<forall>m \<in> set ns. m < cur (posted_recvs s1) \<and> (\<exists>e. event_list (posted_recvs s1) ! m = Some e \<and> good_event sig_of (heap s1 e))"
  proof
    fix m assume m: "m \<in> set ns"
    then have mn: "m \<noteq> n" using Cons.prems(2) by auto
    obtain x where x: "m < cur (posted_recvs me)" "event_list (posted_recvs me) ! m = Some x" "good_event sig_of (heap me x)"
      using Cons.prems(3) m by auto
    have xm: "event_list (posted_recvs ?s) ! m = Some x" using x(2) mn by simp
    have xw: "x \<in> set (waiting ?s)"
    proof -
      have l: "m < length (take (cur (posted_recvs ?s)) (event_list (posted_recvs ?s)))"
        using x(1) rc by (simp add: recvs_ok_def)
      have n: "take (cur (posted_recvs ?s)) (event_list (posted_recvs ?s)) ! m = Some x"
        using xm x(1) by simp
      have "Some x \<in> set (take (cur (posted_recvs ?s)) (event_list (posted_recvs ?s)))"
        using nth_mem[OF l] unfolding n .
      then show ?thesis by (simp add: waiting_def in_live)
    qed
    have qs: "posted_recvs s1 = posted_recvs ?s" using net by simp
    have hx: "heap s1 x = heap me x" using st(3)[OF ge] xw by simp
    show "m < cur (posted_recvs s1) \<and> (\<exists>e. event_list (posted_recvs s1) ! m = Some e \<and> good_event sig_of (heap s1 e))"
      unfolding qs using xm x(1,3) by (intro conjI exI[of _ x]) (simp_all add: hx)
  qed
  then have "net_inv U is_send sig_of c nc me' \<and> world me' = world s1 \<and> gvt_status me' = gvt_status s1 \<and> GVT_sig me' = GVT_sig s1 \<and>
    s_nwhite_recv me' = s_nwhite_recv s1 + int (length ns) \<and> s_nwhite_sent me' = s_nwhite_sent s1 \<and> posted_sends me' = posted_sends s1"
    using Cons.IH[OF st(1)[OF ge] _ _ s1(2)] Cons.prems(2) by simp
  then show ?case using st(4-6)[OF ge] net by simp
qed simp

end
