(* ===== verification/Net_Flow.thy ===== *)
theory Net_Flow
  imports Net_Inv "HOL-Library.Multiset"
begin

text \<open>
  The messages in the network (\<open>core/network-mpi.c\<close>): every call of the layer keeps the balance
  between the messages that are under way and the counters of those sent and received.
\<close>

section \<open>Messages under way\<close>

text \<open>
  What is under way is a multiset of events, a function of the state of the outside world.
  \<open>MPI_Isend\<close> adds the event, \<open>MPI_Testsome\<close> takes out what it delivers, and every receive that is
  done delivers something. MPI neither loses nor invents messages.
\<close>

definition delivered :: "(nat \<times> 'e option) list \<Rightarrow> 'e multiset" where
  "delivered ready = mset (map (\<lambda>(i, x). the x) (filter (\<lambda>(i, x). x \<noteq> None) ready))"

definition mpi_flow :: "('r \<Rightarrow> bool) \<Rightarrow> ('w \<Rightarrow> 'e multiset) \<Rightarrow> ('e, 'r, 'w) mpi \<Rightarrow> bool" where
  "mpi_flow is_send flight m \<longleftrightarrow>
     (\<forall>e d w r w'. MPI_Isend m e d w = Some (r, w') \<longrightarrow> flight w' = add_mset e (flight w)) \<and>
     (\<forall>w r w'. MPI_Irecv m w = Some (r, w') \<longrightarrow> \<not> is_send r \<and> flight w' = flight w) \<and>
     (\<forall>rs w ready w'. MPI_Testsome m rs w = Some (ready, w') \<longrightarrow> flight w = flight w' + delivered ready \<and>
        (\<forall>(i, x) \<in> set ready. \<forall>r. rs ! i = Some r \<longrightarrow> \<not> is_send r \<longrightarrow> x \<noteq> None))"

lemma mpi_flowD:
  assumes "mpi_flow is_send flight m"
  shows "MPI_Isend m e d w = Some (r, w') \<Longrightarrow> flight w' = add_mset e (flight w)"
    "MPI_Irecv m w = Some (r, w') \<Longrightarrow> \<not> is_send r \<and> flight w' = flight w"
    "MPI_Testsome m rs w = Some (ready, w') \<Longrightarrow> flight w = flight w' + delivered ready"
    "MPI_Testsome m rs w = Some (ready, w') \<Longrightarrow> (i, x) \<in> set ready \<Longrightarrow> rs ! i = Some r \<Longrightarrow> \<not> is_send r \<Longrightarrow> x \<noteq> None"
proof -
  have a: "\<forall>e d w r w'. MPI_Isend m e d w = Some (r, w') \<longrightarrow> flight w' = add_mset e (flight w)"
    and b: "\<forall>w r w'. MPI_Irecv m w = Some (r, w') \<longrightarrow> \<not> is_send r \<and> flight w' = flight w"
    and c: "\<forall>rs w ready w'. MPI_Testsome m rs w = Some (ready, w') \<longrightarrow> flight w = flight w' + delivered ready \<and>
        (\<forall>(i, x) \<in> set ready. \<forall>r. rs ! i = Some r \<longrightarrow> \<not> is_send r \<longrightarrow> x \<noteq> None)"
    using assms unfolding mpi_flow_def by simp_all
  show "MPI_Isend m e d w = Some (r, w') \<Longrightarrow> flight w' = add_mset e (flight w)" using a by blast
  show "MPI_Irecv m w = Some (r, w') \<Longrightarrow> \<not> is_send r \<and> flight w' = flight w" using b by blast
  show "MPI_Testsome m rs w = Some (ready, w') \<Longrightarrow> flight w = flight w' + delivered ready" using c by blast
  show "MPI_Testsome m rs w = Some (ready, w') \<Longrightarrow> (i, x) \<in> set ready \<Longrightarrow> rs ! i = Some r \<Longrightarrow> \<not> is_send r \<Longrightarrow> x \<noteq> None"
    using c by blast
qed

lemma mpi_testD:
  "mpi_ok is_send m \<Longrightarrow> \<exists>ready w'. MPI_Testsome m rs w = Some (ready, w') \<and> distinct (map fst ready) \<and>
     (\<forall>(i, x) \<in> set ready. i < length rs)"
  unfolding mpi_ok_def by (elim conjE allE[of _ rs] allE[of _ w]) blast

lemma mpi_testD':
  "mpi_ok is_send m \<Longrightarrow> \<exists>ready w'. MPI_Testsome m rs w = Some (ready, w') \<and> (\<forall>(i, x) \<in> set ready. i < length rs) \<and>
     (\<forall>(i, x) \<in> set ready. \<forall>r. rs ! i = Some r \<longrightarrow> is_send r \<longrightarrow> x = None)"
  unfolding mpi_ok_def by (elim conjE allE[of _ rs] allE[of _ w]) blast

definition balance :: "('w \<Rightarrow> 'e multiset) \<Rightarrow> ('st, 'bf, 'm, 'r, 'w, 'z) net_pe_scheme \<Rightarrow> int" where
  "balance flight me = int (size (flight (world me))) - (s_nwhite_sent me - s_nwhite_recv me)"

definition flow_ok :: "addr set \<Rightarrow> ('r \<Rightarrow> bool) \<Rightarrow> (real \<times> real \<times> 32 word \<times> nat \<Rightarrow> tw_event_sig)
    \<Rightarrow> ('w \<Rightarrow> ('bf, 'm) pevent multiset) \<Rightarrow> ('st, 'bf, 'm) config
    \<Rightarrow> ('bf, 'm, 'r, 'w) net_config \<Rightarrow> ('st, 'bf, 'm, 'r, 'w, 'z) net_pe_scheme \<Rightarrow> bool" where
  "flow_ok U is_send sig_of flight c nc me \<longleftrightarrow> net_inv U is_send sig_of c nc me \<and>
     full_q (posted_recvs me) \<and> full_q (posted_sends me) \<and> (\<forall>v \<in># flight (world me). good_event sig_of v)"

text \<open>What a call of the layer keeps.\<close>

definition net_kept :: "('w \<Rightarrow> 'e multiset) \<Rightarrow> ('st, 'bf, 'm, 'r, 'w, 'z) net_pe_scheme
    \<Rightarrow> ('st, 'bf, 'm, 'r, 'w, 'z) net_pe_scheme \<Rightarrow> bool" where
  "net_kept flight me me' \<longleftrightarrow> balance flight me' = balance flight me \<and> gvt_status me' = gvt_status me \<and> GVT_sig me' = GVT_sig me"

lemma net_kept_refl [simp]: "net_kept flight me me"
  by (simp add: net_kept_def)

lemma net_kept_trans: "net_kept flight a b \<Longrightarrow> net_kept flight b c \<Longrightarrow> net_kept flight a c"
  by (simp add: net_kept_def)

section \<open>Received messages\<close>

lemma deliver_heap:
  "\<exists>hp. deliver q xs s = s\<lparr>heap := hp\<rparr> \<and>
     (\<forall>a. hp a = heap s a \<and> (\<forall>(n, x) \<in> set xs. event_list q ! n = Some a \<longrightarrow> x = None) \<or>
       (\<exists>n. (n, Some (hp a)) \<in> set xs \<and> event_list q ! n = Some a))"
proof (induction xs arbitrary: s)
  case Nil
  show ?case by (intro exI[of _ "heap s"]) simp
next
  case (Cons x xs)
  obtain n y where x: "x = (n, y)" by (cases x)
  define h where "h = (case (event_list q ! n, y) of (Some e, Some v) \<Rightarrow> (heap s)(e := v) | _ \<Rightarrow> heap s)"
  have s: "deliver q (x # xs) s = deliver q xs (s\<lparr>heap := h\<rparr>)"
    by (simp add: x h_def upd_ev_def split: option.split)
  obtain hp where hp: "deliver q xs (s\<lparr>heap := h\<rparr>) = (s\<lparr>heap := h\<rparr>)\<lparr>heap := hp\<rparr>"
    "\<forall>a. hp a = heap (s\<lparr>heap := h\<rparr>) a \<and> (\<forall>(n, x) \<in> set xs. event_list q ! n = Some a \<longrightarrow> x = None) \<or>
       (\<exists>n. (n, Some (hp a)) \<in> set xs \<and> event_list q ! n = Some a)"
    using Cons.IH by blast
  have "hp a = heap s a \<and> (\<forall>(n, x) \<in> set (x # xs). event_list q ! n = Some a \<longrightarrow> x = None) \<or>
       (\<exists>n. (n, Some (hp a)) \<in> set (x # xs) \<and> event_list q ! n = Some a)" for a
  proof (cases "\<exists>n. (n, Some (hp a)) \<in> set xs \<and> event_list q ! n = Some a")
    case False
    then have "hp a = h a" "\<forall>(n, x) \<in> set xs. event_list q ! n = Some a \<longrightarrow> x = None" using hp(2) by auto
    then show ?thesis by (cases y; cases "event_list q ! n"; cases "event_list q ! n = Some a") (auto simp: h_def x)
  qed (auto simp: x)
  then show ?case using hp(1) unfolding s by (intro exI[of _ hp]) simp
qed

lemma net_inv_heap:
  assumes "net_inv U is_send sig_of c nc s" "\<forall>a \<in> held s \<union> set (outgoing s). hp a = heap s a"
  shows "net_inv U is_send sig_of c nc (s\<lparr>heap := hp\<rparr>)"
proof -
  let ?s = "s\<lparr>heap := hp\<rparr>"
  have same: "held ?s = held s" "outgoing ?s = outgoing s" "waiting ?s = waiting s" "in_transit ?s = in_transit s"
    by (simp_all add: held_def outgoing_def waiting_def in_transit_def)
  have h: "hp a = heap s a" if "a \<in> set (contents (pq s)) \<or> a \<in> set (event_q s) \<or> a \<in> set (cancel_q s) \<or> a \<in> set (in_transit s)" for a
    using that assms(2) by (auto simp: held_def outgoing_def)
  have "pq_inv (key_at hp) (wf_at hp) (pq s) = pq_inv (key_at (heap s)) (wf_at (heap s)) (pq s)"
    by (rule pq_inv_keys) (simp_all add: key_at_def wf_at_def h)
  then have "events_ok sig_of c ?s" using assms unfolding net_inv_def events_ok_def same by simp
  moreover have "noted ?s" using assms(1) h by (auto simp: net_inv_def noted_def)
  moreover have "sends_inv is_send c nc ?s" using assms(1) h by (simp add: net_inv_def sends_inv_def Let_def same)
  moreover have "bufs_ok U ?s" using assms(1) by (simp add: net_inv_def bufs_ok_def same)
  ultimately show ?thesis using assms(1) by (simp add: net_inv_def)
qed

lemma net_inv_world: "net_inv U is_send sig_of c nc (s\<lparr>world := w\<rparr>) = net_inv U is_send sig_of c nc s"
  by (simp add: net_inv_def bufs_ok_def events_ok_def noted_def sends_inv_def Let_def held_def outgoing_def waiting_def in_transit_def)

text \<open>Closing the gaps of the posted receives.\<close>

lemma net_inv_repost:
  assumes "net_inv U is_send sig_of c nc s" "recvs_ok is_send nc (f (posted_recvs s))"
    "live (take (cur (f (posted_recvs s))) (event_list (f (posted_recvs s)))) = waiting s"
  shows "net_inv U is_send sig_of c nc (posted_recvs_update f s)"
proof -
  let ?s = "posted_recvs_update f s"
  have same: "held ?s = held s" "outgoing ?s = outgoing s" "waiting ?s = waiting s" "in_transit ?s = in_transit s"
    using assms(3) by (simp_all add: held_def outgoing_def waiting_def in_transit_def)
  then show ?thesis using assms(1,2)
    by (simp add: net_inv_def bufs_ok_def events_ok_def noted_def sends_inv_def Let_def)
qed

lemma test_recvs:
  fixes me :: "('st, 'bf, 'm, 'r, 'w, 'z) net_pe_scheme"
  assumes f: "flow_ok U is_send sig_of flight c nc me" and m: "mpi_ok is_send (the_mpi nc)" "mpi_flow is_send flight (the_mpi nc)"
    and t: "test_q nc posted_recvs posted_recvs_update (recv_finish c nc) me = Inr (b, me')"
  shows "flow_ok U is_send sig_of flight c nc me' \<and> net_kept flight me me'"
proof -
  let ?q = "posted_recvs me"
  have i: "net_inv U is_send sig_of c nc me" and fq: "full_q ?q" using f by (simp_all add: flow_ok_def)
  have rc: "recvs_ok is_send nc ?q" using i by (simp add: net_inv_def)
  have sz: "cur ?q \<le> length (event_list ?q)" "length (req_list ?q) = length (event_list ?q)"
    using rc by (simp_all add: recvs_ok_def)
  let ?rs = "take (cur ?q) (req_list ?q)"
  obtain ready w where mp: "MPI_Testsome (the_mpi nc) ?rs (world me) = Some (ready, w)" "distinct (map fst ready)"
    "\<forall>(i, x) \<in> set ready. i < length ?rs"
    using mpi_testD[OF m(1)] by blast
  have idx: "set (map fst ready) \<subseteq> {..<cur ?q}" using mp(3) sz by auto
  note fl = mpi_flowD(3,4)[OF m(2) mp(1)]
  have some: "x \<noteq> None" if "(j, x) \<in> set ready" for j x
  proof -
    have "j < length ?rs" using mp(3) that by auto
    then have "?rs ! j \<in> set ?rs" by (rule nth_mem)
    then obtain r where "?rs ! j = Some r" "\<not> is_send r" using rc by (auto simp: recvs_ok_def)
    then show ?thesis using fl(2) that by blast
  qed
  have del: "delivered ready = mset (map (\<lambda>(i, x). the x) ready)"
    using some unfolding delivered_def by (intro arg_cong[of _ _ mset] arg_cong[of _ _ "map _"] filter_True) auto
  have good: "good_event sig_of v" if "(j, Some v) \<in> set ready" for j v
  proof -
    have "v \<in># delivered ready" using that unfolding del by force
    then show ?thesis using f fl(1) by (simp add: flow_ok_def)
  qed
  show ?thesis
  proof (cases "cur ?q = 0")
    case True
    then show ?thesis using f t by (simp add: test_q_def)
  next
    case c0: False
    show ?thesis
    proof (cases "ready = []")
      case True
      then have "me' = me\<lparr>world := w\<rparr>" using t mp(1) c0 by (simp add: test_q_def)
      then show ?thesis using f fl(1) True
        by (simp add: flow_ok_def net_inv_world net_kept_def balance_def delivered_def)
    next
      case False
      define s0 where "s0 = deliver ?q ready (me\<lparr>world := w\<rparr>)"
      obtain s where s: "finish_loop posted_recvs posted_recvs_update (recv_finish c nc) (map fst ready) s0 = Inr s"
        using t mp(1) c0 False by (auto simp: test_q_def bind_simps s0_def)
      note rest = recvs.test_q_rest[OF t sz fq mp(1,2) idx c0 False s[unfolded s0_def]]
      obtain hp where hp: "s0 = me\<lparr>world := w, heap := hp\<rparr>"
        "\<forall>a. hp a = heap me a \<and> (\<forall>(n, x) \<in> set ready. event_list ?q ! n = Some a \<longrightarrow> x = None) \<or>
          (\<exists>n. (n, Some (hp a)) \<in> set ready \<and> event_list ?q ! n = Some a)"
        using deliver_heap[of ?q ready "me\<lparr>world := w\<rparr>"] by (auto simp: s0_def)
      have wait: "a \<in> set (waiting me)" if "(n, x) \<in> set ready" "event_list ?q ! n = Some a" for n x a
      proof -
        have n: "n < length (take (cur ?q) (event_list ?q))" using that(1) mp(3) sz by auto
        then have "take (cur ?q) (event_list ?q) ! n = Some a" using that(2) by simp
        then show ?thesis using nth_mem[OF n] by (simp add: waiting_def in_live)
      qed
      have "(set (free_q me) \<union> set (waiting me)) \<inter> (held me \<union> set (outgoing me)) = {}"
        using i by (simp only: net_inv_def bufs_ok_def)
      then have "hp a = heap me a" if "a \<in> held me \<union> set (outgoing me)" for a
        using hp(2)[rule_format, of a] wait that by blast
      then have i0: "net_inv U is_send sig_of c nc s0"
        unfolding hp(1) by (intro net_inv_heap) (simp_all add: net_inv_world i held_def outgoing_def in_transit_def)
      have ns: "\<forall>n \<in> set (map fst ready). n < cur (posted_recvs s0) \<and>
          (\<exists>e. event_list (posted_recvs s0) ! n = Some e \<and> good_event sig_of (heap s0 e))"
      proof
        fix n assume "n \<in> set (map fst ready)"
        then obtain v where v: "(n, Some v) \<in> set ready" using some by fastforce
        have n: "n < cur ?q" using idx v by force
        obtain e where e: "event_list ?q ! n = Some e" using full_entry[OF fq n sz(1)] by blast
        have "\<exists>n. (n, Some (hp e)) \<in> set ready" using hp(2) v e by blast
        then have "good_event sig_of (hp e)" using good by blast
        then show "n < cur (posted_recvs s0) \<and> (\<exists>e. event_list (posted_recvs s0) ! n = Some e \<and> good_event sig_of (heap s0 e))"
          using n e by (simp add: hp(1))
      qed
      note fi = finish_recvs_inv[OF i0 mp(2) ns s]
      define f where "f = (\<lambda>v :: 'r act_q. (collapse_loop (cur v) 0 0 v)\<lparr>cur := cur (collapse_loop (cur v) 0 0 v) - length ready\<rparr>)"
      have me': "me' = posted_recvs_update f s" unfolding rest(1) by (simp add: f_def o_def)
      note te = recvs.test_q_entries[OF t sz fq[unfolded full_q_def] mp(1,2) idx]
      have "recvs_ok is_send nc (posted_recvs me')"
        using rc rest(4) te(2-4) unfolding recvs_ok_def by auto
      moreover have "live (take (cur (f (posted_recvs s))) (event_list (f (posted_recvs s)))) = waiting s"
        using rest(2) by (simp add: me' waiting_def)
      ultimately have "net_inv U is_send sig_of c nc me'"
        unfolding me' using fi by (intro net_inv_repost) simp_all
      moreover have "full_q (posted_recvs me')" by (rule rest)
      moreover have "full_q (posted_sends me')" using f fi by (simp add: me' flow_ok_def hp(1))
      moreover have "world me' = w" "gvt_status me' = gvt_status me" "GVT_sig me' = GVT_sig me"
        "s_nwhite_recv me' = s_nwhite_recv me + int (length ready)" "s_nwhite_sent me' = s_nwhite_sent me"
        using fi by (simp_all add: me' hp(1))
      moreover have "size (flight (world me)) = size (flight w) + length ready"
        using fl(1) by (simp add: del)
      ultimately show ?thesis using f fl(1) by (simp add: flow_ok_def net_kept_def balance_def)
    qed
  qed
qed

section \<open>Sent messages\<close>

lemma same_event_good:
  assumes "same_event c v v'" "good_event sig_of v" "send_pe v = mynode c"
  shows "good_event sig_of v'" "send_pe v' = mynode c"
  using assms by (auto simp: same_event_def good_event_def avl_key_def)

lemma sent_inv:
  assumes i: "net_inv U is_send sig_of c nc s" and si: "sends_inv is_send c nc s'" and st: "sent c s s'"
    and fr: "posted_recvs s' = posted_recvs s" "avl_tree s' = avl_tree s"
  shows "net_inv U is_send sig_of c nc s'"
proof -
  have b: "bufs_ok U s" and ev: "events_ok sig_of c s" and no: "noted s" using i by (simp_all add: net_inv_def)
  obtain fs where fs: "free_q s' = fs @ free_q s" "distinct fs" "set fs \<subseteq> set (outgoing s) - set (outgoing s')"
    using st by (auto simp: sent_def freed_def)
  have nf: "net_frame s s'" using st by (simp add: sent_def)
  have same: "waiting s' = waiting s" "held s' = held s" using nf by (simp_all add: waiting_def held_def net_frame_def fr)
  have og: "a \<in> set (outgoing s)" if "a \<in> set (outgoing s')" for a using st that unfolding sent_def by blast
  have hp: "heap s' a = heap s a" if "a \<in> held s" for a
  proof -
    have "a \<notin> set (outgoing s)" using b that unfolding bufs_ok_def by blast
    then show ?thesis using st by (simp add: sent_def)
  qed
  have gd: "good_event sig_of (heap s' a) \<and> send_pe (heap s' a) = mynode c" if "a \<in> set (outgoing s')" for a
    using same_event_good[of c "heap s a" "heap s' a" sig_of] st og[OF that] ev by (simp add: sent_def events_ok_def)
  have "bufs_ok U s'"
    unfolding bufs_ok_def same fs(1)
  proof (intro conjI)
    have "set (outgoing s) \<inter> set (free_q s @ waiting s) = {}" using b by (auto simp: bufs_ok_def)
    then show "distinct ((fs @ free_q s) @ waiting s)" using b fs(2,3) by (auto simp: bufs_ok_def)
    show "(set (fs @ free_q s) \<union> set (waiting s)) \<inter> (held s \<union> set (outgoing s')) = {}"
      using b fs(3) og unfolding bufs_ok_def disjoint_iff by auto
    show "held s \<inter> set (outgoing s') = {}" using b og unfolding bufs_ok_def by blast
    show "set (fs @ free_q s) \<union> set (waiting s) \<union> held s \<union> set (outgoing s') \<subseteq> U" using b fs(3) og unfolding bufs_ok_def by auto
  qed (use b in \<open>simp_all add: bufs_ok_def\<close>)
  moreover have "events_ok sig_of c s'"
  proof -
    have "pq s' = pq s" "GVT_sig s' = GVT_sig s" using nf by (simp_all add: net_frame_def)
    moreover have "pq_inv (key_at (heap s')) (wf_at (heap s')) (pq s) = pq_inv (key_at (heap s)) (wf_at (heap s)) (pq s)"
      by (rule pq_inv_keys) (simp_all add: key_at_def wf_at_def hp held_def)
    ultimately show ?thesis using ev gd hp unfolding events_ok_def same by auto
  qed
  moreover have "noted s'"
    using no nf hp by (auto simp: noted_def net_frame_def held_def)
  ultimately show ?thesis using i si by (simp add: net_inv_def fr)
qed

lemma finish_sends_frame:
  "finish_loop posted_sends posted_sends_update (send_finish c) ns s = Inr s' \<Longrightarrow>
   posted_recvs s' = posted_recvs s \<and> avl_tree s' = avl_tree s \<and> world s' = world s \<and>
   s_nwhite_sent s' = s_nwhite_sent s \<and> s_nwhite_recv s' = s_nwhite_recv s"
proof (induction ns arbitrary: s)
  case (Cons n ns)
  then obtain e s1 where "send_finish c e (posted_sends_update (\<lambda>v. v\<lparr>event_list := (event_list v)[n := None]\<rparr>) s) = Inr s1"
    "finish_loop posted_sends posted_sends_update (send_finish c) ns s1 = Inr s'"
    by (auto simp: bind_simps split: option.splits)
  moreover have "posted_recvs s1 = posted_recvs s \<and> avl_tree s1 = avl_tree s \<and> world s1 = world s \<and>
      s_nwhite_sent s1 = s_nwhite_sent s \<and> s_nwhite_recv s1 = s_nwhite_recv s"
    using calculation(1) by (auto simp: send_finish_def Let_def split: if_splits)
  ultimately show ?case using Cons.IH by simp
qed simp

lemma test_sends_flow:
  fixes me :: "('st, 'bf, 'm, 'r, 'w, 'z) net_pe_scheme"
  assumes f: "flow_ok U is_send sig_of flight c nc me" and m: "mpi_ok is_send (the_mpi nc)" "mpi_flow is_send flight (the_mpi nc)"
    and t: "test_q nc posted_sends posted_sends_update (send_finish c) me = Inr (b, me')"
  shows "flow_ok U is_send sig_of flight c nc me' \<and> net_kept flight me me'"
proof -
  let ?q = "posted_sends me"
  have i: "net_inv U is_send sig_of c nc me" and fq: "full_q ?q" using f by (simp_all add: flow_ok_def)
  have si: "sends_inv is_send c nc me" using i by (simp add: net_inv_def)
  have s: "sends_inv is_send c nc me'" "full_q (posted_sends me')" "sent c me me'"
    using test_sends[OF si fq m(1)] t by auto
  let ?rs = "take (cur ?q) (req_list ?q)"
  obtain ready w where mp: "MPI_Testsome (the_mpi nc) ?rs (world me) = Some (ready, w)" "\<forall>(i, x) \<in> set ready. i < length ?rs"
    "\<forall>(i, x) \<in> set ready. \<forall>r. ?rs ! i = Some r \<longrightarrow> is_send r \<longrightarrow> x = None"
    using mpi_testD'[OF m(1)] by blast
  have none: "x = None" if "(j, x) \<in> set ready" for j x
  proof -
    have "j < length ?rs" using mp(2) that by auto
    then have "?rs ! j \<in> set ?rs" by (rule nth_mem)
    then obtain r where "?rs ! j = Some r" "is_send r" using si by (auto simp: sends_inv_def Let_def)
    then show ?thesis using mp(3) that by blast
  qed
  have "delivered ready = {#}" using none by (force simp: delivered_def filter_empty_conv)
  then have fl: "flight w = flight (world me)" using mpi_flowD(3)[OF m(2) mp(1)] by simp
  obtain hp where hp: "deliver ?q ready (me\<lparr>world := w\<rparr>) = me\<lparr>world := w, heap := hp\<rparr>"
    using deliver_heap[of ?q ready "me\<lparr>world := w\<rparr>"] by auto
  have fr: "posted_recvs me' = posted_recvs me \<and> avl_tree me' = avl_tree me \<and> flight (world me') = flight (world me) \<and>
      s_nwhite_sent me' = s_nwhite_sent me \<and> s_nwhite_recv me' = s_nwhite_recv me"
  proof (cases "cur ?q = 0 \<or> ready = []")
    case True
    then show ?thesis
    proof (cases "cur ?q = 0")
      case True
      then have "me' = me" using t by (simp add: test_q_def)
      then show ?thesis by simp
    next
      case False
      then have "me' = me\<lparr>world := w\<rparr>" using t mp(1) True by (simp add: test_q_def)
      then show ?thesis using fl by simp
    qed
  next
    case False
    then obtain s where s: "finish_loop posted_sends posted_sends_update (send_finish c) (map fst ready) (me\<lparr>world := w, heap := hp\<rparr>) = Inr s"
      "me' = posted_sends_update (\<lambda>v. v\<lparr>cur := cur v - length ready\<rparr>) (posted_sends_update (\<lambda>v. collapse_loop (cur v) 0 0 v) s)"
      using t mp(1) by (auto simp: test_q_def bind_simps Let_def hp)
    then show ?thesis using finish_sends_frame[OF s(1)] fl by simp
  qed
  then have "net_inv U is_send sig_of c nc me'" by (intro sent_inv[OF i s(1,3)]) simp_all
  moreover have "net_frame me me'" using s(3) by (simp add: sent_def)
  ultimately show ?thesis using f s(2) fr by (simp add: flow_ok_def net_kept_def balance_def net_frame_def)
qed

section \<open>Posting receives\<close>

text \<open>Buffers that move between the free list and the posted receives.\<close>

lemma net_inv_move:
  assumes i: "net_inv U is_send sig_of c nc s" and d: "distinct (free_q s1 @ waiting s1)"
    and m: "set (free_q s1) \<union> set (waiting s1) = set (free_q s) \<union> set (waiting s)"
    and h: "\<forall>a \<in> held s \<union> set (outgoing s). heap s1 a = heap s a"
    and rc: "recvs_ok is_send nc (posted_recvs s1)"
    and eq: "held s1 = held s" "outq s1 = outq s" "posted_sends s1 = posted_sends s" "pq s1 = pq s" "event_q s1 = event_q s"
      "cancel_q s1 = cancel_q s" "GVT_sig s1 = GVT_sig s" "trans_msg_sig s1 = trans_msg_sig s" "gvt_status s1 = gvt_status s"
  shows "net_inv U is_send sig_of c nc s1"
proof -
  let ?s = "s\<lparr>heap := heap s1\<rparr>"
  have n: "net_inv U is_send sig_of c nc ?s" by (rule net_inv_heap[OF i h])
  have o: "outgoing s1 = outgoing s" "in_transit s1 = in_transit s" by (simp_all add: outgoing_def in_transit_def eq)
  have o': "outgoing ?s = outgoing s" "in_transit ?s = in_transit s" "held ?s = held s" "waiting ?s = waiting s"
    by (simp_all add: outgoing_def in_transit_def held_def waiting_def)
  have "bufs_ok U s1" using i d m by (simp add: net_inv_def bufs_ok_def o eq)
  moreover have "events_ok sig_of c s1" using n by (simp add: net_inv_def events_ok_def o o' eq)
  moreover have "noted s1" using n by (simp add: net_inv_def noted_def eq)
  moreover have "sends_inv is_send c nc s1" using n by (simp add: net_inv_def sends_inv_def Let_def o o' eq)
  ultimately show ?thesis using rc by (simp add: net_inv_def)
qed

lemma recv_begin_flow:
  fixes me :: "('st, 'bf, 'm, 'r, 'w, 'z) net_pe_scheme"
  assumes "flow_ok U is_send sig_of flight c nc me" "mpi_flow is_send flight (the_mpi nc)"
    "k + cur (posted_recvs me) = read_buffer nc" "recv_begin_loop k nc ch me = Inr (b, me')"
  shows "flow_ok U is_send sig_of flight c nc me' \<and> net_kept flight me me'"
  using assms
proof (induction k arbitrary: ch me)
  case (Suc k)
  have i: "net_inv U is_send sig_of c nc me" using Suc.prems(1) by (simp add: flow_ok_def)
  have rc: "recvs_ok is_send nc (posted_recvs me)" and b: "bufs_ok U me" using i by (simp_all add: net_inv_def)
  show ?case
  proof (cases "free_q me" rule: rev_cases)
    case Nil
    then show ?thesis using Suc.prems(1,4) by (auto simp: tw_event_grab_def Let_def split: if_splits)
  next
    case (snoc fs e)
    define v where "v = (heap me e)\<lparr>caused_by_me := [], qowner := No_owner, st_cancel_q := False, st_cancel_asend := False,
      st_remote := False, event_id := 0\<rparr>"
    define m1 where "m1 = upd_ev e (\<lambda>_. v) (me\<lparr>free_q := fs\<rparr>)"
    have g: "tw_event_grab me = (Some e, m1)"
      by (simp add: tw_event_grab_def snoc m1_def v_def upd_ev_def)
    have d: "e \<notin> set fs" "e \<notin> set (waiting me)" "e \<notin> held me" "e \<notin> set (outgoing me)" "distinct fs" "distinct (waiting me)"
      "set fs \<inter> set (waiting me) = {}"
      using b unfolding bufs_ok_def by (auto simp: snoc)
    have m1: "heap m1 = (heap me)(e := v)" "free_q m1 = fs" "posted_recvs m1 = posted_recvs me" "world m1 = world me"
      by (simp_all add: m1_def pe_simps)
    show ?thesis
    proof (cases "MPI_Irecv (the_mpi nc) (world me)")
      case None
      define m2 where "m2 = tw_event_free e m1"
      have me': "me' = m2" using Suc.prems(4) by (simp add: g m1(4) None Let_def m2_def)
      have m2: "heap m2 = (heap me)(e := v\<lparr>out_msgs := [], qowner := TW_pe_free_q\<rparr>)" "free_q m2 = e # fs" "pq m2 = pq me"
        "event_q m2 = event_q me" "cancel_q m2 = cancel_q me" "GVT_sig m2 = GVT_sig me" "trans_msg_sig m2 = trans_msg_sig me"
        "gvt_status m2 = gvt_status me" "outq m2 = outq me" "posted_sends m2 = posted_sends me" "posted_recvs m2 = posted_recvs me"
        "avl_tree m2 = avl_tree me" "world m2 = world me" "s_nwhite_sent m2 = s_nwhite_sent me" "s_nwhite_recv m2 = s_nwhite_recv me"
        by (simp_all add: m2_def m1_def pe_simps)
          (simp_all add: upd_ev_def tw_event_free_def tw_free_output_messages_def Let_def)
      have w: "waiting m2 = waiting me" "held m2 = held me" by (simp_all add: waiting_def held_def m2)
      have "net_inv U is_send sig_of c nc m2"
        by (rule net_inv_move[OF i]) (use d rc in \<open>auto simp: m2 w snoc\<close>)
      then show ?thesis using Suc.prems(1) by (simp add: me' flow_ok_def net_kept_def balance_def m2)
    next
      case (Some rw)
      obtain r w where rw: "rw = (r, w)" by (cases rw)
      define n where "n = cur (posted_recvs me)"
      define m2 where "m2 = m1\<lparr>world := w, posted_recvs := (posted_recvs m1)\<lparr>req_list := (req_list (posted_recvs m1))[n := Some r],
          event_list := (event_list (posted_recvs m1))[n := Some e], cur := n + 1\<rparr>\<rparr>"
      have st: "recv_begin_loop k nc True m2 = Inr (b, me')"
        using Suc.prems(4) by (simp add: g m1(3,4) Some rw Let_def m2_def n_def)
      have m2: "heap m2 = (heap me)(e := v)" "free_q m2 = fs" "pq m2 = pq me"
        "event_q m2 = event_q me" "cancel_q m2 = cancel_q me" "GVT_sig m2 = GVT_sig me" "trans_msg_sig m2 = trans_msg_sig me"
        "gvt_status m2 = gvt_status me" "outq m2 = outq me" "posted_sends m2 = posted_sends me"
        "avl_tree m2 = avl_tree me" "world m2 = w" "s_nwhite_sent m2 = s_nwhite_sent me" "s_nwhite_recv m2 = s_nwhite_recv me"
        "posted_recvs m2 = (posted_recvs me)\<lparr>req_list := (req_list (posted_recvs me))[n := Some r],
          event_list := (event_list (posted_recvs me))[n := Some e], cur := n + 1\<rparr>"
        by (simp_all add: m2_def m1_def pe_simps)
      have fl: "\<not> is_send r" "flight w = flight (world me)" using mpi_flowD(2)[OF Suc.prems(2) Some[unfolded rw]] by simp_all
      have n: "n < length (event_list (posted_recvs me))" "n < length (req_list (posted_recvs me))" "n < read_buffer nc"
        using rc Suc.prems(3) by (simp_all add: recvs_ok_def n_def)
      have te: "take (Suc n) ((event_list (posted_recvs me))[n := Some e]) = take n (event_list (posted_recvs me)) @ [Some e]"
        "take (Suc n) ((req_list (posted_recvs me))[n := Some r]) = take n (req_list (posted_recvs me)) @ [Some r]"
        using n by (simp_all add: take_Suc_conv_app_nth)
      have w: "waiting m2 = waiting me @ [e]" by (simp add: waiting_def m2 te) (simp add: n_def)
      have he: "held m2 = held me" by (simp add: held_def m2)
      have rc2: "recvs_ok is_send nc (posted_recvs m2)"
        using rc n fl(1) unfolding recvs_ok_def by (auto simp: m2 te) (auto simp: n_def)
      have "net_inv U is_send sig_of c nc m2"
        by (rule net_inv_move[OF i _ _ _ rc2]) (use d in \<open>auto simp: m2 w he snoc\<close>)
      moreover have "full_q (posted_recvs m2)" using Suc.prems(1) unfolding flow_ok_def full_q_def by (simp add: m2 te) (simp add: n_def)
      ultimately have "flow_ok U is_send sig_of flight c nc m2 \<and> net_kept flight me m2"
        using Suc.prems(1) by (simp add: flow_ok_def net_kept_def balance_def m2 fl(2))
      then show ?thesis using Suc.IH[OF _ Suc.prems(2) _ st] Suc.prems(3) net_kept_trans by (auto simp: m2 n_def)
    qed
  qed
qed simp

section \<open>Starting sends\<close>

lemma send_begin_flow:
  fixes me :: "('st, 'bf, 'm, 'r, 'w, 'z) net_pe_scheme"
  assumes "flow_ok U is_send sig_of flight c nc me" "mpi_ok is_send (the_mpi nc)" "mpi_flow is_send flight (the_mpi nc)"
    "k + cur (posted_sends me) = send_buffer nc" "send_begin_loop k c nc ch me = Inr (b, me')"
  shows "flow_ok U is_send sig_of flight c nc me' \<and> net_kept flight me me'"
  using assms
proof (induction k arbitrary: ch me)
  case (Suc k)
  have i: "net_inv U is_send sig_of c nc me" and fq: "full_q (posted_sends me)" using Suc.prems(1) by (simp_all add: flow_ok_def)
  have si: "sends_inv is_send c nc me" and ev: "events_ok sig_of c me" using i by (simp_all add: net_inv_def)
  show ?case
  proof (cases "outq me" rule: rev_cases)
    case Nil
    then show ?thesis using Suc.prems by auto
  next
    case (snoc es e)
    have ab: "e \<noteq> abort_event c" using si snoc by (auto simp: sends_inv_def Let_def outgoing_def)
    define u where "u = (heap me e)\<lparr>send_pe := mynode c, send_lp := gid_of c (src_lp (heap me e))\<rparr>"
    define v where "v = u\<lparr>qowner := (if st_cancel_q (heap me e) then TW_net_acancel else TW_net_asend)\<rparr>"
    let ?s0 = "upd_ev e (\<lambda>v. v\<lparr>send_pe := mynode c, send_lp := gid_of c (src_lp v)\<rparr>) me"
    obtain r w where m: "MPI_Isend (the_mpi nc) u (map_pe c (dest_lp (heap me e))) (world me) = Some (r, w)" "is_send r"
      using Suc.prems(2) unfolding mpi_ok_def by blast
    have m': "MPI_Isend (the_mpi nc) (heap ?s0 e) (map_pe c (dest_lp (heap me e))) (world me) = Some (r, w)"
      using m(1) by (simp add: u_def pe_simps)
    let ?n = "cur (posted_sends me)"
    define s1 where "s1 = (let me' = ?s0\<lparr>world := w, outq := butlast (outq ?s0)\<rparr>;
        me' = upd_ev e (\<lambda>v. v\<lparr>qowner := (if st_cancel_q v then TW_net_acancel else TW_net_asend)\<rparr>) me'
      in me'\<lparr>posted_sends := (posted_sends me')\<lparr>req_list := (req_list (posted_sends me'))[?n := Some r],
           event_list := (event_list (posted_sends me'))[?n := Some e], cur := cur (posted_sends me') + 1\<rparr>,
         s_nwhite_sent := s_nwhite_sent me' + 1\<rparr>)"
    have st: "send_begin_loop k c nc True s1 = Inr (b, me')"
      using Suc.prems(5) ab m' by (simp add: snoc Let_def s1_def pe_simps)
    have s1: "heap s1 = (heap me)(e := v)" "outq s1 = es" "net_frame me s1" "free_q s1 = free_q me"
      "posted_sends s1 = (posted_sends me)\<lparr>req_list := (req_list (posted_sends me))[?n := Some r],
        event_list := (event_list (posted_sends me))[?n := Some e], cur := ?n + 1\<rparr>"
      "posted_recvs s1 = posted_recvs me" "avl_tree s1 = avl_tree me" "world s1 = w" "s_nwhite_sent s1 = s_nwhite_sent me + 1"
      by (simp_all add: s1_def v_def u_def Let_def pe_simps snoc net_frame_def)
    have se: "same_event c (heap me e) v" by (simp add: v_def u_def same_event_def)
    have p: "sends_inv is_send c nc s1" "full_q (posted_sends s1)" "sent c me s1"
      using post_send[OF si fq snoc _ m(2) s1(1) _ _ _ se s1(2-5)] Suc.prems(4) by (simp_all add: v_def u_def)
    have n1: "net_inv U is_send sig_of c nc s1" by (rule sent_inv[OF i p(1,3) s1(6,7)])
    have "same_event c (heap me e) u" by (simp add: u_def same_event_def)
    moreover have "good_event sig_of (heap me e)" "send_pe (heap me e) = mynode c"
      using ev by (simp_all add: events_ok_def outgoing_def snoc)
    ultimately have "good_event sig_of u" using same_event_good by blast
    moreover have fl: "flight w = add_mset u (flight (world me))" by (rule mpi_flowD(1)[OF Suc.prems(3) m(1)])
    ultimately have "flow_ok U is_send sig_of flight c nc s1" using Suc.prems(1) n1 p(2) by (simp add: flow_ok_def s1(6,8))
    moreover have "net_kept flight me s1" using s1(3) fl by (simp add: net_kept_def balance_def net_frame_def s1(8,9))
    ultimately show ?thesis using Suc.IH[OF _ Suc.prems(2,3) _ st] Suc.prems(4) net_kept_trans by (auto simp: s1(5))
  qed
qed simp

section \<open>Reading the network\<close>

lemma service_queues_flow:
  fixes me :: "('st, 'bf, 'm, 'r, 'w, 'z) net_pe_scheme"
  assumes "flow_ok U is_send sig_of flight c nc me" "mpi_ok is_send (the_mpi nc)" "mpi_flow is_send flight (the_mpi nc)"
    "service_queues n c nc me = Inr me'"
  shows "flow_ok U is_send sig_of flight c nc me' \<and> net_kept flight me me'"
  using assms
proof (induction n arbitrary: me)
  case (Suc n)
  obtain b1 s1 b2 s2 b3 s3 b4 s4 where s:
    "test_q nc posted_recvs posted_recvs_update (recv_finish c nc) me = Inr (b1, s1)"
    "test_q nc posted_sends posted_sends_update (send_finish c) s1 = Inr (b2, s2)"
    "recv_begin nc s2 = Inr (b3, s3)" "send_begin c nc s3 = Inr (b4, s4)"
    "(if b1 \<or> b2 \<or> b3 \<or> b4 then service_queues n c nc s4 else Inr s4) = Inr me'"
    using Suc.prems(4) by (auto simp: bind_simps)
  note m = Suc.prems(2,3)
  have 1: "flow_ok U is_send sig_of flight c nc s1 \<and> net_kept flight me s1" by (rule test_recvs[OF Suc.prems(1) m s(1)])
  have 2: "flow_ok U is_send sig_of flight c nc s2 \<and> net_kept flight s1 s2" by (rule test_sends_flow[OF conjunct1[OF 1] m s(2)])
  have "cur (posted_recvs s2) \<le> read_buffer nc" using 2 by (simp add: flow_ok_def net_inv_def recvs_ok_def)
  then have 3: "flow_ok U is_send sig_of flight c nc s3 \<and> net_kept flight s2 s3"
    by (intro recv_begin_flow[OF conjunct1[OF 2] m(2) _ s(3)[unfolded recv_begin_def]]) simp
  have "cur (posted_sends s3) \<le> send_buffer nc" using 3 by (simp add: flow_ok_def net_inv_def sends_inv_def Let_def)
  then have 4: "flow_ok U is_send sig_of flight c nc s4 \<and> net_kept flight s3 s4"
    by (intro send_begin_flow[OF conjunct1[OF 3] m _ s(4)[unfolded send_begin_def]]) simp
  have k: "net_kept flight me s4" using 1 2 3 4 by (simp add: net_kept_def)
  show ?case
  proof (cases "b1 \<or> b2 \<or> b3 \<or> b4")
    case True
    then have "service_queues n c nc s4 = Inr me'" using s(5) by metis
    then show ?thesis using Suc.IH[OF _ m] 4 k by (auto simp: net_kept_def)
  next
    case False
    then show ?thesis using s(5) 4 k by simp
  qed
qed simp

end
