(* ===== verification/Gvt_Lemmas.thy ===== *)
theory Gvt_Lemmas
  imports Net_Flow
begin

text \<open>
  The computation of global virtual time (\<open>core/gvt/mpi_allreduce.c\<close>): the cut is consistent,
  the bound of one PE, the reduction, and what fossil collection leaves alone.
\<close>

section \<open>What the network leaves alone\<close>

definition net_other :: "('st, 'bf, 'm, 'z) tw_pe_scheme \<Rightarrow> ('st, 'bf, 'm, 'z) tw_pe_scheme \<Rightarrow> bool" where
  "net_other s s' \<longleftrightarrow> hook_trigger s' = hook_trigger s \<and> GVT_prev_sig s' = GVT_prev_sig s \<and> GVT_sig s' = GVT_sig s"

lemma net_other_refl [simp]: "net_other s s"
  by (simp add: net_other_def)

lemma net_other_trans: "net_other s s' \<Longrightarrow> net_other s' s'' \<Longrightarrow> net_other s s''"
  by (simp add: net_other_def)

lemma net_other_simps [simp]:
  "hook_trigger (upd_ev a g s) = hook_trigger s" "GVT_prev_sig (upd_ev a g s) = GVT_prev_sig s"
  "hook_trigger (tw_event_free a s) = hook_trigger s" "GVT_prev_sig (tw_event_free a s) = GVT_prev_sig s"
  "hook_trigger (note_transient t s) = hook_trigger s" "GVT_prev_sig (note_transient t s) = GVT_prev_sig s"
  "GVT_sig (upd_ev a g s) = GVT_sig s" "GVT_sig (tw_event_free a s) = GVT_sig s" "GVT_sig (note_transient t s) = GVT_sig s"
  by (simp_all add: upd_ev_def tw_event_free_def tw_free_output_messages_def note_transient_def Let_def)

lemma recv_finish_other:
  assumes r: "recv_finish c nc e s = Inr s'"
  shows "net_other s s'"
  using r
proof (cases rule: recv_finish_elim)
  case (anti x mi)
  then show ?thesis by (auto simp: net_other_def tw_hash_remove_def bind_simps Let_def recv_start_def)
next
  case (event mi)
  then have "net_other s mi" by (auto simp: net_other_def tw_hash_insert_def bind_simps Let_def recv_start_def)
  then show ?thesis using event(2) by (auto simp: net_other_def pq_enqueue_def bind_simps Let_def)
qed

lemma send_finish_other: "send_finish c e s = Inr s' \<Longrightarrow> net_other s s'"
  by (auto simp: net_other_def send_finish_def Let_def split: if_splits)

lemma finish_loop_other:
  assumes "\<And>f s. net_other s (upd f s)" "\<And>e s s'. finish e s = Inr s' \<Longrightarrow> net_other s s'"
  shows "finish_loop q upd finish ns s = Inr s' \<Longrightarrow> net_other s s'"
proof (induction ns arbitrary: s)
  case (Cons n ns)
  then obtain e s1 where s1: "finish e (upd (\<lambda>v. v\<lparr>event_list := (event_list v)[n := None]\<rparr>) s) = Inr s1"
    "finish_loop q upd finish ns s1 = Inr s'"
    by (auto simp: bind_simps split: option.splits)
  show ?case by (rule net_other_trans[OF net_other_trans[OF assms(1) assms(2)[OF s1(1)]] Cons.IH[OF s1(2)]])
qed simp

lemma test_q_other:
  assumes "\<And>f s. net_other s (upd f s)" "\<And>e s s'. finish e s = Inr s' \<Longrightarrow> net_other s s'"
    and t: "test_q nc q upd finish s = Inr (b, s')"
  shows "net_other s s'"
proof (cases "cur (q s) = 0")
  case True
  then show ?thesis using t by (simp add: test_q_def)
next
  case False
  then obtain ready w where mp: "MPI_Testsome (the_mpi nc) (take (cur (q s)) (req_list (q s))) (world s) = Some (ready, w)"
    using t by (auto simp: test_q_def split: option.splits)
  show ?thesis
  proof (cases "ready = []")
    case True
    then show ?thesis using t False mp by (auto simp: test_q_def net_other_def)
  next
    case ne: False
    obtain hp where hp: "deliver (q (s\<lparr>world := w\<rparr>)) ready (s\<lparr>world := w\<rparr>) = s\<lparr>world := w, heap := hp\<rparr>"
      using deliver_heap[of "q (s\<lparr>world := w\<rparr>)" ready "s\<lparr>world := w\<rparr>"] by auto
    obtain s1 where s1: "finish_loop q upd finish (map fst ready) (s\<lparr>world := w, heap := hp\<rparr>) = Inr s1"
      "s' = upd (\<lambda>v. v\<lparr>cur := cur v - length ready\<rparr>) (upd (\<lambda>v. collapse_loop (cur v) 0 0 v) s1)"
      using t False mp ne by (auto simp: test_q_def bind_simps Let_def hp)
    have "net_other (s\<lparr>world := w, heap := hp\<rparr>) s1" by (rule finish_loop_other[OF assms(1,2) s1(1)])
    then have o: "net_other s s1" by (simp add: net_other_def)
    show ?thesis unfolding s1(2) by (rule net_other_trans[OF net_other_trans[OF o assms(1)] assms(1)])
  qed
qed

lemma recv_begin_other: "recv_begin_loop k nc ch s = Inr (b, s') \<Longrightarrow> net_other s s'"
proof (induction k arbitrary: ch s)
  case (Suc k)
  then show ?case
    by (auto simp: Let_def tw_event_grab_def net_other_def split: if_splits option.splits) (fastforce simp: net_other_def)?
qed simp

lemma send_begin_other: "send_begin_loop k c nc ch s = Inr (b, s') \<Longrightarrow> net_other s s'"
proof (induction k arbitrary: ch s)
  case (Suc k)
  then show ?case
    by (fastforce simp: Let_def net_other_def split: if_splits option.splits)
qed simp

lemma service_queues_other: "service_queues n c nc s = Inr s' \<Longrightarrow> net_other s s'"
proof (induction n arbitrary: s)
  case (Suc n)
  obtain b1 s1 b2 s2 b3 s3 b4 s4 where s:
    "test_q nc posted_recvs posted_recvs_update (recv_finish c nc) s = Inr (b1, s1)"
    "test_q nc posted_sends posted_sends_update (send_finish c) s1 = Inr (b2, s2)"
    "recv_begin nc s2 = Inr (b3, s3)" "send_begin c nc s3 = Inr (b4, s4)"
    "(if b1 \<or> b2 \<or> b3 \<or> b4 then service_queues n c nc s4 else Inr s4) = Inr s'"
    using Suc.prems by (auto simp: bind_simps)
  have "net_other s s1" by (rule test_q_other[OF _ recv_finish_other s(1)]) (simp add: net_other_def)
  moreover have "net_other s1 s2" by (rule test_q_other[OF _ send_finish_other s(2)]) (simp add: net_other_def)
  moreover have "net_other s2 s3" using s(3) unfolding recv_begin_def by (rule recv_begin_other)
  moreover have "net_other s3 s4" using s(4) unfolding send_begin_def by (rule send_begin_other)
  ultimately have "net_other s s4" by (simp add: net_other_def)
  moreover have "net_other s4 s'" using s(5) Suc.IH by (auto split: if_splits)
  ultimately show ?case by (rule net_other_trans)
qed simp

section \<open>The cut\<close>

text \<open>A property of all PEs, with their ranks.\<close>

definition all_pes :: "(nat \<Rightarrow> 's \<Rightarrow> bool) \<Rightarrow> nat \<Rightarrow> 's list \<Rightarrow> bool" where
  "all_pes P i mes \<longleftrightarrow> (\<forall>j < length mes. P (i + j) (mes ! j))"

lemma all_pes_simps [simp]:
  "all_pes P i []" "all_pes P i (me # mes) \<longleftrightarrow> P i me \<and> all_pes P (Suc i) mes"
  by (simp_all add: all_pes_def All_less_Suc2)

lemma all_pes_map: "all_pes P i (map f mes) \<longleftrightarrow> all_pes (\<lambda>i s. P i (f s)) i mes"
  by (simp add: all_pes_def)

lemma all_pes_mono: "all_pes P i mes \<Longrightarrow> (\<And>i s. P i s \<Longrightarrow> Q i s) \<Longrightarrow> all_pes Q i mes"
  by (simp add: all_pes_def)

definition rank_ok :: "(nat \<Rightarrow> addr set) \<Rightarrow> ('r \<Rightarrow> bool) \<Rightarrow> (real \<times> real \<times> 32 word \<times> nat \<Rightarrow> tw_event_sig)
    \<Rightarrow> (nat \<Rightarrow> ('st, 'bf, 'm) config) \<Rightarrow> (nat \<Rightarrow> ('bf, 'm, 'r, 'w) net_config)
    \<Rightarrow> nat \<Rightarrow> ('st, 'bf, 'm, 'r, 'w, 'z) net_pe_scheme \<Rightarrow> bool" where
  "rank_ok Us is_send sig_of cs ncs i me \<longleftrightarrow>
     net_inv (Us i) is_send sig_of (cs i) (ncs i) me \<and> full_q (posted_recvs me) \<and> full_q (posted_sends me)"

definition net_mpi :: "('r \<Rightarrow> bool) \<Rightarrow> ('w \<Rightarrow> ('bf, 'm) pevent multiset) \<Rightarrow> (nat \<Rightarrow> ('bf, 'm, 'r, 'w) net_config) \<Rightarrow> bool" where
  "net_mpi is_send flight ncs \<longleftrightarrow> (\<forall>i. mpi_ok is_send (the_mpi (ncs i)) \<and> mpi_flow is_send flight (the_mpi (ncs i)))"

text \<open>The messages that are counted as sent and not as received.\<close>

definition whites :: "('st, 'bf, 'm, 'r, 'w, 'z) net_pe_scheme list \<Rightarrow> int" where
  "whites mes = (\<Sum>me \<leftarrow> mes. local_white me)"

lemma whites_simps [simp]: "whites [] = 0" "whites (me # mes) = local_white me + whites mes"
  by (simp_all add: whites_def)

text \<open>What the network and the scheduler leave alone.\<close>

definition same_gvt :: "('st, 'bf, 'm, 'z) tw_pe_scheme \<Rightarrow> ('st, 'bf, 'm, 'z) tw_pe_scheme \<Rightarrow> bool" where
  "same_gvt me me' \<longleftrightarrow> GVT_sig me' = GVT_sig me \<and> gvt_status me' = gvt_status me \<and> net_other me me'"

lemma same_gvt_trans: "list_all2 same_gvt xs ys \<Longrightarrow> list_all2 same_gvt ys zs \<Longrightarrow> list_all2 same_gvt xs zs"
  by (rule list_all2_trans[of same_gvt same_gvt]) (auto simp: same_gvt_def net_other_def)

lemma read_all_flow:
  assumes "all_pes (rank_ok Us is_send sig_of cs ncs) i mes" "net_mpi is_send flight ncs" "\<forall>v \<in># flight w. good_event sig_of v"
    "read_all cs ncs i mes w = Inr (mes', w')"
  shows "all_pes (rank_ok Us is_send sig_of cs ncs) i mes' \<and> (\<forall>v \<in># flight w'. good_event sig_of v) \<and>
    int (size (flight w')) - whites mes' = int (size (flight w)) - whites mes \<and> list_all2 same_gvt mes mes'"
  using assms
proof (induction mes arbitrary: i w mes')
  case (Cons me mes)
  obtain m1 ms where m1: "tw_net_read (cs i) (ncs i) (me\<lparr>world := w\<rparr>) = Inr m1"
    "read_all cs ncs (Suc i) mes (world m1) = Inr (ms, w')" "mes' = m1 # ms"
    using Cons.prems(4) by (auto simp: bind_simps)
  have mp: "mpi_ok is_send (the_mpi (ncs i))" "mpi_flow is_send flight (the_mpi (ncs i))"
    using Cons.prems(2) by (simp_all add: net_mpi_def)
  have "flow_ok (Us i) is_send sig_of flight (cs i) (ncs i) (me\<lparr>world := w\<rparr>)"
    using Cons.prems(1,3) by (simp add: flow_ok_def rank_ok_def net_inv_world)
  from service_queues_flow[OF this mp m1(1)[unfolded tw_net_read_def]]
  have f: "flow_ok (Us i) is_send sig_of flight (cs i) (ncs i) m1" "net_kept flight (me\<lparr>world := w\<rparr>) m1" by simp_all
  have "all_pes (rank_ok Us is_send sig_of cs ncs) (Suc i) ms \<and> (\<forall>v \<in># flight w'. good_event sig_of v) \<and>
    int (size (flight w')) - whites ms = int (size (flight (world m1))) - whites mes \<and> list_all2 same_gvt mes ms"
    using Cons.IH[OF _ Cons.prems(2) _ m1(2)] Cons.prems(1) f(1) by (simp add: flow_ok_def)
  moreover have "rank_ok Us is_send sig_of cs ncs i m1" using f(1) by (simp add: flow_ok_def rank_ok_def)
  moreover have "int (size (flight (world m1))) - local_white m1 = int (size (flight w)) - local_white me" "same_gvt me m1"
    using f(2) service_queues_other[OF m1(1)[unfolded tw_net_read_def]]
    by (simp_all add: net_kept_def balance_def local_white_def same_gvt_def net_other_def)
  ultimately show ?case by (simp add: m1(3))
qed simp

lemma rank_ok_cnt: "rank_ok Us is_send sig_of cs ncs i (me\<lparr>all_reduce_cnt := n\<rparr>) = rank_ok Us is_send sig_of cs ncs i me"
  for me :: "('st, 'bf, 'm, 'r, 'w, 'z) gvt_pe_scheme"
  by (simp add: rank_ok_def net_inv_def bufs_ok_def events_ok_def noted_def sends_inv_def Let_def held_def outgoing_def waiting_def in_transit_def)

lemma white_loop_flow:
  assumes "all_pes (rank_ok Us is_send sig_of cs ncs) 0 mes" "net_mpi is_send flight ncs" "\<forall>v \<in># flight w. good_event sig_of v"
    "white_loop n cs ncs mes w = Inr (mes', w')"
  shows "all_pes (rank_ok Us is_send sig_of cs ncs) 0 mes' \<and> whites mes' = 0 \<and>
    int (size (flight w')) = int (size (flight w)) - whites mes \<and> list_all2 same_gvt mes mes'"
  using assms
proof (induction n arbitrary: mes w)
  case (Suc n)
  obtain ms w1 where r: "read_all cs ncs 0 mes w = Inr (ms, w1)"
    using Suc.prems(4) by (auto simp: bind_simps)
  let ?ms = "map (\<lambda>me. me\<lparr>all_reduce_cnt := all_reduce_cnt me + 1\<rparr>) ms"
  have st: "(if whites ms = 0 then Inr (?ms, w1) else white_loop n cs ncs ?ms w1) = Inr (mes', w')"
    using Suc.prems(4) by (simp add: r whites_def Let_def split: if_splits)
  note f = read_all_flow[OF Suc.prems(1-3) r]
  have w: "whites ?ms = whites ms" by (induction ms) (simp_all add: local_white_def)
  have p: "all_pes (rank_ok Us is_send sig_of cs ncs) 0 ?ms" using f by (simp add: all_pes_map rank_ok_cnt)
  have s: "list_all2 same_gvt mes ?ms" unfolding list_all2_map2
    by (rule list_all2_mono[of same_gvt]) (use f in \<open>simp_all add: same_gvt_def net_other_def\<close>)
  show ?case
  proof (cases "whites ms = 0")
    case True
    then have "mes' = ?ms" "w' = w1" using st by simp_all
    then show ?thesis using True f p s w by simp
  next
    case False
    then have r': "white_loop n cs ncs ?ms w1 = Inr (mes', w')" using st by simp
    have g: "\<forall>v \<in># flight w1. good_event sig_of v" using f by blast
    have "list_all2 same_gvt mes mes'"
      using same_gvt_trans[OF s] Suc.IH[OF p Suc.prems(2) g r'] by blast
    then show ?thesis using Suc.IH[OF p Suc.prems(2) g r'] f w by simp
  qed
qed simp

section \<open>The bound of one PE\<close>

lemma wf_copy_any: "length (event_tiebreaker u) = MAX_TIE_CHAIN \<Longrightarrow> wf_sig s \<Longrightarrow>
    wf_sig (tw_copy_event_sig u s) \<and> sig_key (tw_copy_event_sig u s) = sig_key s"
  by (simp add: wf_sig_def sig_key_def tw_copy_event_sig_def take_copy_tie_loop)

definition hook_wf :: "('st, 'bf, 'm, 'z) tw_pe_scheme \<Rightarrow> bool" where
  "hook_wf me \<longleftrightarrow> wf_sig (sig_at (hook_trigger me))"

text \<open>The events that a PE has not processed yet, or that are on their way out of it.\<close>

definition unprocessed :: "('st, 'bf, 'm, 'r, 'w, 'z) net_pe_scheme \<Rightarrow> addr set" where
  "unprocessed me = set (contents (pq me)) \<union> set (event_q me) \<union> set (cancel_q me) \<union> set (outgoing me)"

lemma lower_sig:
  assumes "wf_sig l" "wf_sig m"
  defines "l' \<equiv> if tw_event_sig_compare_ptr l m > 0 then tw_copy_event_sig l m else l"
  shows "wf_sig l'" "sig_key l' = min (sig_key l) (sig_key m)"
  using assms by (auto simp: tw_event_sig_compare_ptr_key min_def)

lemma pq_min_wf: "pq_inv (key_at hp) (wf_at hp) q \<Longrightarrow> wf_sig (tw_pq_minimum_sig_ptr hp q)"
  by (cases "contents q") (auto simp: pq_inv_def tw_pq_minimum_sig_ptr_def wf_at_def)

lemma gvt_lvt_bound:
  assumes p: "rank_ok Us is_send sig_of cs ncs i me" "gvt_status me" "hook_wf me" and u: "length (event_tiebreaker u) = MAX_TIE_CHAIN"
  shows "wf_sig (gvt_lvt c u me)"
    "a \<in> unprocessed me \<Longrightarrow> sig_key (gvt_lvt c u me) \<le> sig_key (qsig (heap me a))"
proof -
  have ev: "events_ok sig_of (cs i) me" and no: "noted me" and fq: "full_q (posted_sends me)"
    using p(1) by (simp_all add: rank_ok_def net_inv_def)
  have q: "pq_inv (key_at (heap me)) (wf_at (heap me)) (pq me)" using ev by (simp add: events_ok_def)
  have good: "good_event sig_of (heap me a)" if "a \<in> held me \<union> set (outgoing me)" for a
    using ev that unfolding events_ok_def by blast
  define pm where "pm = tw_pq_minimum_sig_ptr (heap me) (pq me)"
  define nm where "nm = tw_net_minimum_sig_ptr me"
  define t where "t = trans_msg_sig me"
  have pm: "wf_sig pm" unfolding pm_def by (rule pq_min_wf[OF q])
  have gw: "wf_sig (qsig (heap me a)) \<and> ev_recv_ts (heap me a) = recv_ts (qsig (heap me a))" if "a \<in> held me \<union> set (outgoing me)" for a
    using good[OF that] unfolding good_event_def by blast
  then have "\<forall>a \<in> set (outgoing me). wf_sig (qsig (heap me a))" by blast
  note nmo = net_minimum_ok[OF fq this]
  have nm: "wf_sig nm" using nmo by (simp add: nm_def)
  have t: "wf_sig t" using no by (simp add: t_def noted_def)
  define l1 where "l1 = tw_copy_event_sig u t"
  have l1: "wf_sig l1" "sig_key l1 = sig_key t" using wf_copy_any[OF u t] by (simp_all add: l1_def)
  define pc where "pc = tw_copy_event_sig g_tw_max_sig pm"
  define ncp where "ncp = tw_copy_event_sig g_tw_max_sig nm"
  have pc: "wf_sig pc" "sig_key pc = sig_key pm" "wf_sig ncp" "sig_key ncp = sig_key nm" using pm nm by (simp_all add: pc_def ncp_def)
  define l2 where "l2 = (if tw_event_sig_compare_ptr l1 pc > 0 then tw_copy_event_sig l1 pc else l1)"
  note l2 = lower_sig[OF l1(1) pc(1), folded l2_def]
  define l3 where "l3 = (if tw_event_sig_compare_ptr l2 ncp > 0 then tw_copy_event_sig l2 ncp else l2)"
  note l3 = lower_sig[OF l2(1) pc(3), folded l3_def]
  have h: "wf_sig (sig_at (hook_trigger me))" using p(3) by (simp add: hook_wf_def)
  note l4 = lower_sig[OF l3(1) h]
  have g: "gvt_lvt c u me = (if has_hook c \<and> hook_status (hook_trigger me) \<noteq> GVT_HOOK_STATUS_disabled
      \<and> tw_event_sig_compare_ptr l3 (sig_at (hook_trigger me)) > 0 then tw_copy_event_sig l3 (sig_at (hook_trigger me)) else l3)"
    unfolding gvt_lvt_def Let_def l3_def l2_def l1_def pc_def ncp_def pm_def nm_def t_def by (rule refl)
  show "wf_sig (gvt_lvt c u me)" using l3(1) h by (simp add: g)
  have "sig_key (gvt_lvt c u me) \<le> sig_key l3" using l4(2) l3(1) h by (auto simp: g min_def split: if_splits)
  also have "sig_key l3 = min (min (sig_key t) (sig_key pm)) (sig_key nm)" by (simp add: l3 l2 l1 pc)
  finally have le: "sig_key (gvt_lvt c u me) \<le> sig_key t" "sig_key (gvt_lvt c u me) \<le> sig_key pm"
    "sig_key (gvt_lvt c u me) \<le> sig_key nm" by simp_all
  show "sig_key (gvt_lvt c u me) \<le> sig_key (qsig (heap me a))" if a: "a \<in> unprocessed me"
  proof -
    consider "a \<in> set (contents (pq me))" | "a \<in> set (event_q me) \<union> set (cancel_q me)" | "a \<in> set (outgoing me)"
      using a by (auto simp: unprocessed_def)
    then show ?thesis
    proof cases
      case 1
      have "\<forall>e \<in> set (contents (pq me)). ev_recv_ts (heap me e) = recv_ts (qsig (heap me e))"
        using gw by (simp add: held_def)
      then have "tw_event_sig_compare_ptr pm (qsig (heap me a)) \<le> 0" using pq_minimum_bound[OF q] 1 by (simp add: pm_def)
      moreover have "wf_sig (qsig (heap me a))" using gw[of a] 1 by (simp add: held_def)
      ultimately show ?thesis using le(2) pm by (simp add: tw_event_sig_compare_ptr_key)
    next
      case 2
      then have "sig_key t \<le> sig_key (qsig (heap me a))" using no p(2) unfolding noted_def t_def by blast
      then show ?thesis using le(1) by simp
    next
      case 3
      then have "tw_event_sig_compare_ptr nm (qsig (heap me a)) \<le> 0" "wf_sig (qsig (heap me a))"
        using nmo gw[of a] by (simp_all add: nm_def)
      then show ?thesis using le(3) nm by (simp add: tw_event_sig_compare_ptr_key)
    qed
  qed
qed

lemma reduce_sigs_min:
  assumes "\<forall>s \<in> set ss. wf_sig s" "reduce_sigs ss = Inr g"
  shows "wf_sig g \<and> (\<forall>s \<in> set ss. sig_key g \<le> sig_key s) \<and> sig_key g \<in> sig_key ` set ss"
  using assms
proof (induction ss arbitrary: g rule: reduce_sigs.induct)
  case (3 s t ss)
  obtain r out where r: "reduce_sigs (t # ss) = Inr r" "find_min_sig [s] [r] = Inr out" "g = hd out"
    using "3.prems"(2) by (auto simp: bind_simps simp del: find_min_sig.simps)
  have ih: "wf_sig r \<and> (\<forall>s \<in> set (t # ss). sig_key r \<le> sig_key s) \<and> sig_key r \<in> sig_key ` set (t # ss)"
    using "3.IH" "3.prems"(1) r(1) by simp
  have ws: "wf_sig s" using "3.prems"(1) by simp
  have "find_min_sig1 s r = Inr g" using r(2,3) by (auto simp: bind_simps)
  then have "g = (if tw_event_sig_compare_ptr s r < 0 then tw_copy_event_sig r s else r)"
    by (auto simp: find_min_sig1_def split: if_splits)
  then have "wf_sig g" "sig_key g = min (sig_key s) (sig_key r)"
    using ws ih by (auto simp: tw_event_sig_compare_ptr_key min_def)
  then show ?case using ih by (auto simp: min_def)
qed simp_all

section \<open>Fossil collection\<close>

definition fossil_frame :: "('st, 'bf, 'm, 'r, 'w, 'z) net_pe_scheme \<Rightarrow> ('st, 'bf, 'm, 'r, 'w, 'z) net_pe_scheme \<Rightarrow> bool" where
  "fossil_frame s s' \<longleftrightarrow> pq s' = pq s \<and> event_q s' = event_q s \<and> cancel_q s' = cancel_q s \<and> outq s' = outq s \<and>
     posted_sends s' = posted_sends s \<and> GVT_sig s' = GVT_sig s \<and> gvt_status s' = gvt_status s \<and> kps s' = kps s \<and>
     (\<forall>a. qsig (heap s' a) = qsig (heap s a)) \<and> GVT_prev_sig s' = GVT_prev_sig s"

lemma fossil_frame_refl [simp]: "fossil_frame s s"
  by (simp add: fossil_frame_def)

lemma fossil_frame_trans: "fossil_frame s s' \<Longrightarrow> fossil_frame s' s'' \<Longrightarrow> fossil_frame s s''"
  by (simp add: fossil_frame_def)

lemma fossil_frame_free [simp]: "fossil_frame s (tw_event_free a s)"
  by (simp add: fossil_frame_def pe_simps)

lemma ebind_InrE: "ebind m f = Inr b \<Longrightarrow> (\<And>a. m = Inr a \<Longrightarrow> f a = Inr b \<Longrightarrow> P) \<Longrightarrow> P"
  by (cases m) auto

lemma free_sent_frame: "fossil_frame s (free_sent es s)"
proof (induction es arbitrary: s)
  case (Cons e es)
  have "fossil_frame s (free_sent es (tw_event_free e s))" by (rule fossil_frame_trans[OF fossil_frame_free Cons.IH])
  then show ?case using Cons.IH[of s] by simp
qed simp

lemma commit_event_frame:
  fixes s :: "('st, 'bf, 'm, 'r, 'w, 'z) net_pe_scheme"
  assumes "commit_event c a s = Inr s'"
  shows "fossil_frame s s'"
proof -
  let ?f = "\<lambda>s. case commit_h c of None \<Rightarrow> s
            | Some f \<Rightarrow> upd_lp (dest_lp (heap s a)) (\<lambda>l. l\<lparr>cur_state := f (dest_lp (heap s a)) (cur_state l) (cv (heap s a)) (msg (heap s a))\<rparr>) s"
  define s1 where "s1 = tw_free_output_messages a True (?f s)"
  have 1: "fossil_frame s s1"
    by (auto simp: fossil_frame_def s1_def tw_free_output_messages_def upd_ev_def upd_lp_def Let_def split: option.split)
  define tail where "tail = (\<lambda>s2 :: ('st, 'bf, 'm, 'r, 'w, 'z) net_pe_scheme. if caused_by_me (heap s2 a) \<noteq> []
      then upd_ev a (\<lambda>v. v\<lparr>caused_by_me := [], qowner := TW_pe_free_q\<rparr>) (free_sent (caused_by_me (heap s2 a)) s2) else s2)"
  have c: "commit_event c a s = ebind (if event_id (heap s1 a) \<noteq> 0 \<and> st_remote (heap s1 a)
      then ebind (tw_hash_remove c a s1) (\<lambda>(x, pe). Inr pe) else Inr s1) (\<lambda>s. Inr (tail s))"
    unfolding commit_event_def Let_def s1_def tail_def by (rule refl)
  obtain s2 where s2: "(if event_id (heap s1 a) \<noteq> 0 \<and> st_remote (heap s1 a)
      then ebind (tw_hash_remove c a s1) (\<lambda>(x, pe). Inr pe) else Inr s1) = Inr s2" "s' = tail s2"
    using assms unfolding c by (elim ebind_InrE) simp
  have 2: "fossil_frame s1 s2"
    using s2(1) by (auto simp: tw_hash_remove_def bind_simps Let_def fossil_frame_def split: if_splits)
  have "fossil_frame s2 s'"
    using free_sent_frame[of s2 "caused_by_me (heap s2 a)"] by (simp add: s2(2) tail_def fossil_frame_def pe_simps)
  then show ?thesis using 1 2 fossil_frame_trans by blast
qed

lemma commit_events_frame: "commit_events c as s = Inr s' \<Longrightarrow> fossil_frame s s'"
proof (induction "as" arbitrary: s)
  case (Cons a "as")
  then show ?case using commit_event_frame fossil_frame_trans by (fastforce simp: bind_simps)
qed simp

text \<open>The queue of processed events has the latest one first.\<close>

definition kp_sorted :: "('st, 'bf, 'm, 'z) tw_pe_scheme \<Rightarrow> nat \<Rightarrow> bool" where
  "kp_sorted pe k \<longleftrightarrow> (\<forall>a \<in> set (pevent_q (kps pe k)). wf_sig (qsig (heap pe a))) \<and>
     sorted_wrt (\<lambda>a b. sig_key (qsig (heap pe b)) \<le> sig_key (qsig (heap pe a))) (pevent_q (kps pe k))"

lemma fossil_split_filter:
  assumes "\<forall>a \<in> set q. wf_sig (qsig (hp a))" "wf_sig g"
    "sorted_wrt (\<lambda>a b. sig_key (qsig (hp b)) \<le> sig_key (qsig (hp a))) q"
  shows "fossil_split hp g q = (filter (\<lambda>a. sig_key g \<le> sig_key (qsig (hp a))) q, filter (\<lambda>a. sig_key (qsig (hp a)) < sig_key g) q)"
proof -
  define older where "older = (\<lambda>a. tw_event_sig_compare_ptr (qsig (hp a)) g < 0)"
  have o: "older a \<longleftrightarrow> sig_key (qsig (hp a)) < sig_key g" if "a \<in> set q" for a
    using assms(1,2) that by (simp add: older_def tw_event_sig_compare_ptr_key)
  have split: "dropWhile older (rev q) = rev (filter (\<lambda>a. \<not> older a) q) \<and> takeWhile older (rev q) = rev (filter older q)"
    using assms(3) o
  proof (induction q rule: rev_induct)
    case (snoc x q)
    have ih: "dropWhile older (rev q) = rev (filter (\<lambda>a. \<not> older a) q) \<and> takeWhile older (rev q) = rev (filter older q)"
      using snoc by (simp add: sorted_wrt_append)
    show ?case
    proof (cases "older x")
      case True
      then show ?thesis using ih by simp
    next
      case False
      have "\<not> older y" if "y \<in> set q" for y
      proof -
        have "sig_key (qsig (hp x)) \<le> sig_key (qsig (hp y))" using snoc.prems(1) that by (simp add: sorted_wrt_append)
        then show ?thesis using snoc.prems(2)[of x] snoc.prems(2)[of y] that False by auto
      qed
      then have "filter older q = []" "filter (\<lambda>a. \<not> older a) q = q" by (simp_all add: filter_empty_conv)
      then show ?thesis using False by simp
    qed
  qed simp
  have eq: "filter older q = filter (\<lambda>a. sig_key (qsig (hp a)) < sig_key g) q"
    "filter (\<lambda>a. \<not> older a) q = filter (\<lambda>a. sig_key g \<le> sig_key (qsig (hp a))) q"
    using o by (auto intro!: filter_cong)
  have "fossil_split hp g q = (filter (\<lambda>a. \<not> older a) q, filter older q)"
  proof (cases "q = [] \<or> \<not> older (last q)")
    case True
    have "\<not> older a" if "a \<in> set q" for a
    proof -
      have "dropWhile older (rev q) = rev q" using True that by (cases q rule: rev_cases) auto
      then have "filter (\<lambda>a. \<not> older a) q = q" using split by simp
      then show ?thesis using that by (simp add: filter_id_conv)
    qed
    then show ?thesis using True by (auto simp: fossil_split_def older_def[symmetric] Let_def filter_empty_conv)
  next
    case F: False
    show ?thesis
    proof (cases "older (hd q)")
      case True
      have "older a" if "a \<in> set q" for a
      proof -
        have "sig_key (qsig (hp a)) \<le> sig_key (qsig (hp (hd q)))" using assms(3) that by (cases q) auto
        then show ?thesis using True F o[of "hd q"] o[OF that] by auto
      qed
      then show ?thesis using F True by (auto simp: fossil_split_def older_def[symmetric] Let_def filter_empty_conv)
    next
      case False
      then show ?thesis using F split by (simp add: fossil_split_def older_def[symmetric] Let_def)
    qed
  qed
  then show ?thesis by (simp add: eq)
qed

text \<open>What stays in the queue of a KP.\<close>

definition kept_events :: "('st, 'bf, 'm, 'z) tw_pe_scheme \<Rightarrow> tw_event_sig \<Rightarrow> nat \<Rightarrow> addr list" where
  "kept_events s g k = filter (\<lambda>a. sig_key g \<le> sig_key (qsig (heap s a))) (pevent_q (kps s k))"

lemma kp_fossil_frame:
  assumes "kp_fossil_collect c k s = Inr s'"
  shows "fossil_frame (s\<lparr>kps := kps s'\<rparr>) s'"
proof -
  obtain keep old where "commit_events c (rev old) ((upd_kp k (\<lambda>kp. kp\<lparr>pevent_q := keep\<rparr>) s)\<lparr>free_q := old @ free_q s\<rparr>) = Inr s'"
    using assms by (auto simp: kp_fossil_collect_def Let_def upd_kp_def split: prod.splits)
  from commit_events_frame[OF this] show ?thesis by (simp add: fossil_frame_def upd_kp_def)
qed

lemma fossil_collect_frame: "fossil_collect_kps c ks s = Inr s' \<Longrightarrow> fossil_frame (s\<lparr>kps := kps s'\<rparr>) s'"
proof (induction ks arbitrary: s)
  case (Cons k ks)
  then obtain s1 where s1: "kp_fossil_collect c k s = Inr s1" "fossil_collect_kps c ks s1 = Inr s'"
    by (auto elim: ebind_InrE)
  show ?case using kp_fossil_frame[OF s1(1)] Cons.IH[OF s1(2)] by (simp add: fossil_frame_def)
qed (simp add: fossil_frame_def)

lemma kp_fossil_effect:
  assumes "kp_fossil_collect c k s = Inr s'" "kp_sorted s k" "wf_sig (GVT_sig s)"
  shows "kps s' = (kps s)(k := (kps s k)\<lparr>pevent_q := kept_events s (GVT_sig s) k\<rparr>)"
proof -
  define old where "old = filter (\<lambda>a. sig_key (qsig (heap s a)) < sig_key (GVT_sig s)) (pevent_q (kps s k))"
  define s1 where "s1 = (upd_kp k (\<lambda>kp. kp\<lparr>pevent_q := kept_events s (GVT_sig s) k\<rparr>) s)\<lparr>free_q := old @ free_q s\<rparr>"
  have "fossil_split (heap s) (GVT_sig s) (pevent_q (kps s k)) = (kept_events s (GVT_sig s) k, old)"
    using fossil_split_filter[of "pevent_q (kps s k)" "heap s" "GVT_sig s"] assms(2,3)
    by (simp add: kp_sorted_def kept_events_def old_def)
  then have "commit_events c (rev old) s1 = Inr s'"
    using assms(1) by (simp add: kp_fossil_collect_def s1_def Let_def upd_kp_def)
  then have f: "fossil_frame s1 s'" by (rule commit_events_frame)
  then show "kps s' = (kps s)(k := (kps s k)\<lparr>pevent_q := kept_events s (GVT_sig s) k\<rparr>)"
    by (simp add: fossil_frame_def s1_def upd_kp_def)
qed

lemma fossil_collect_effect:
  assumes "fossil_collect_kps c ks s = Inr s'" "\<forall>k \<in> set ks. kp_sorted s k" "wf_sig (GVT_sig s)" "distinct ks"
  shows "pevent_q (kps s' j) = (if j \<in> set ks then kept_events s (GVT_sig s) j else pevent_q (kps s j))"
  using assms
proof (induction ks arbitrary: s)
  case (Cons k ks)
  obtain s1 where s1: "kp_fossil_collect c k s = Inr s1" "fossil_collect_kps c ks s1 = Inr s'"
    using Cons.prems(1) by (auto elim: ebind_InrE)
  have kk: "kp_sorted s k" using Cons.prems(2) by simp
  note e = kp_fossil_effect[OF s1(1) kk Cons.prems(3)] and fr = kp_fossil_frame[OF s1(1)]
  have hq: "qsig (heap s1 a) = qsig (heap s a)" for a using fr by (simp add: fossil_frame_def)
  have g: "GVT_sig s1 = GVT_sig s" using fr by (simp add: fossil_frame_def)
  have kps1: "pevent_q (kps s1 j) = (if j = k then kept_events s (GVT_sig s) k else pevent_q (kps s j))" for j
    by (simp add: e)
  have "\<forall>j \<in> set ks. kp_sorted s1 j"
    using Cons.prems(2,4) by (auto simp: kp_sorted_def kps1 hq)
  then have ih: "pevent_q (kps s' j) = (if j \<in> set ks then kept_events s1 (GVT_sig s1) j else pevent_q (kps s1 j))"
    using Cons.IH[OF s1(2)] Cons.prems(3,4) g by simp
  then show ?case using Cons.prems(4) by (auto simp: kps1 g kept_events_def hq)
qed simp

text \<open>
  Fossil collection succeeds: it takes an event that came from another PE out of the event store,
  which holds it.
\<close>

definition stored :: "('st, 'bf, 'm) config \<Rightarrow> addr set \<Rightarrow> ('st, 'bf, 'm, 'r, 'w, 'z) net_pe_scheme \<Rightarrow> bool" where
  "stored c A s \<longleftrightarrow> (\<forall>k. store_ok (heap s) (avl_tree s k)) \<and>
     (\<forall>a \<in> A. event_id (heap s a) \<noteq> 0 \<longrightarrow> st_remote (heap s a) \<longrightarrow> a \<in> set (elems (avl_tree s (kp_of c (dest_lp (heap s a))))))"

definition same_entry :: "('bf, 'm) pevent \<Rightarrow> ('bf, 'm) pevent \<Rightarrow> bool" where
  "same_entry v v' \<longleftrightarrow> event_id v' = event_id v \<and> st_remote v' = st_remote v \<and> dest_lp v' = dest_lp v \<and> avl_key v' = avl_key v"

lemma same_entry_simps [simp]: "same_entry v v" "same_entry v (v\<lparr>out_msgs := ms\<rparr>)" "same_entry v (v\<lparr>caused_by_me := es, qowner := w\<rparr>)"
    "same_entry v (v\<lparr>out_msgs := ms, qowner := w\<rparr>)"
  by (simp_all add: same_entry_def avl_key_def)

lemma stored_cong:
  assumes "stored c A s" "\<forall>x. same_entry (heap s x) (heap s' x)" "avl_tree s' = avl_tree s"
  shows "stored c A s'"
proof -
  have k: "(\<lambda>x. avl_key (heap s' x)) = (\<lambda>x. avl_key (heap s x))" using assms(2) by (simp add: same_entry_def)
  have "store_ok (heap s') t = store_ok (heap s) t" for t by (simp add: store_ok_def k)
  then show ?thesis using assms by (simp add: stored_def same_entry_def)
qed

lemma free_sent_same: "avl_tree (free_sent es s) = avl_tree s \<and> same_entry (heap s x) (heap (free_sent es s) x)"
proof (induction es arbitrary: s)
  case (Cons e es)
  have "same_entry (heap s x) (heap (tw_event_free e s) x)" by (simp add: pe_simps)
  then have "same_entry (heap s x) (heap (free_sent es (tw_event_free e s)) x)"
    using Cons.IH[of "tw_event_free e s"] unfolding same_entry_def by metis
  then show ?case using Cons.IH[of s] Cons.IH[of "tw_event_free e s"] by simp
qed simp

lemma commit_event_ok:
  fixes s :: "('st, 'bf, 'm, 'r, 'w, 'z) net_pe_scheme"
  assumes st: "stored c A s" and a: "a \<in> A"
  shows "\<exists>s'. commit_event c a s = Inr s' \<and> stored c (A - {a}) s'"
proof -
  define s1 where "s1 = tw_free_output_messages a True (case commit_h c of None \<Rightarrow> s
            | Some f \<Rightarrow> upd_lp (dest_lp (heap s a)) (\<lambda>l. l\<lparr>cur_state := f (dest_lp (heap s a)) (cur_state l) (cv (heap s a)) (msg (heap s a))\<rparr>) s)"
  define tail where "tail = (\<lambda>s2 :: ('st, 'bf, 'm, 'r, 'w, 'z) net_pe_scheme. if caused_by_me (heap s2 a) \<noteq> []
      then upd_ev a (\<lambda>v. v\<lparr>caused_by_me := [], qowner := TW_pe_free_q\<rparr>) (free_sent (caused_by_me (heap s2 a)) s2) else s2)"
  have c: "commit_event c a s = ebind (if event_id (heap s1 a) \<noteq> 0 \<and> st_remote (heap s1 a)
      then ebind (tw_hash_remove c a s1) (\<lambda>(x, pe). Inr pe) else Inr s1) (\<lambda>s. Inr (tail s))"
    unfolding commit_event_def Let_def s1_def tail_def by (rule refl)
  have "heap s1 = (heap s)(a := (heap s a)\<lparr>out_msgs := []\<rparr>)" "avl_tree s1 = avl_tree s"
    by (auto simp: s1_def tw_free_output_messages_def upd_ev_def upd_lp_def Let_def split: option.split)
  then have s1: "stored c A s1" using st by (intro stored_cong[of c A s s1]) simp_all
  have tail: "stored c B (tail s2)" if "stored c B s2" for B s2
  proof (rule stored_cong[OF that])
    show "\<forall>x. same_entry (heap s2 x) (heap (tail s2) x)"
      using free_sent_same[of "caused_by_me (heap s2 a)" s2] by (auto simp: tail_def same_entry_def pe_simps avl_key_def)
    show "avl_tree (tail s2) = avl_tree s2" using free_sent_same[of "caused_by_me (heap s2 a)" s2] by (simp add: tail_def)
  qed
  show ?thesis
  proof (cases "event_id (heap s1 a) \<noteq> 0 \<and> st_remote (heap s1 a)")
    case False
    have "stored c (A - {a}) s1" using s1 by (simp add: stored_def)
    then show ?thesis unfolding c if_not_P[OF False] using tail by simp
  next
    case True
    define k where "k = kp_of c (dest_lp (heap s1 a))"
    have e: "a \<in> set (elems (avl_tree s1 k))" "store_ok (heap s1) (avl_tree s1 k)" using s1 a True by (simp_all add: stored_def k_def)
    obtain t where t: "avlDelete (avl_lt (heap s1)) (avl_tree s1 k) (avl_nodes s1) a = Inr (a, t, avl_nodes s1 + 1)"
      "avlSanityCheck t" "elems t = remove1 a (elems (avl_tree s1 k))"
      using avl.avl_delete[of "avl_tree s1 k" "heap s1" a a "avl_nodes s1"] e by (auto simp: store_ok_def)
    define s2 where "s2 = s1\<lparr>avl_tree_size := avl_tree_size s1 - 1, avl_tree := (avl_tree s1)(k := t), avl_nodes := avl_nodes s1 + 1\<rparr>"
    have r: "tw_hash_remove c a s1 = Inr (a, s2)" by (simp add: tw_hash_remove_def Let_def t(1) k_def[symmetric] s2_def)
    have "key_sorted (\<lambda>x. avl_key (heap s1 x)) (elems (avl_tree s1 k))" using e(2) by (simp add: store_ok_def)
    then have "store_ok (heap s1) t" using t(2,3) key_sorted_remove1 by (simp add: store_ok_def)
    then have "stored c (A - {a}) s2"
      using s1 t(3) by (auto simp: stored_def s2_def)
    then show ?thesis using True tail by (simp add: c r)
  qed
qed

lemma commit_events_ok:
  "stored c A s \<Longrightarrow> set as \<subseteq> A \<Longrightarrow> distinct as \<Longrightarrow> \<exists>s'. commit_events c as s = Inr s' \<and> stored c (A - set as) s'"
proof (induction "as" arbitrary: A s)
  case (Cons a "as")
  obtain s1 where s1: "commit_event c a s = Inr s1" "stored c (A - {a}) s1"
    using commit_event_ok[OF Cons.prems(1)] Cons.prems(2) by auto
  obtain s' where "commit_events c as s1 = Inr s'" "stored c (A - {a} - set as) s'"
    using Cons.IH[OF s1(2)] Cons.prems(2,3) by auto
  then show ?case using s1(1) by (auto simp: Diff_insert2[symmetric] insert_commute)
qed auto

definition all_processed :: "('st, 'bf, 'm, 'z) tw_pe_scheme \<Rightarrow> nat list \<Rightarrow> addr list" where
  "all_processed s ks = concat (map (\<lambda>k. pevent_q (kps s k)) ks)"

lemma kp_fossil_ok:
  assumes "stored c A s" "set (pevent_q (kps s k)) \<subseteq> A" "distinct (pevent_q (kps s k))" "kp_sorted s k" "wf_sig (GVT_sig s)"
  shows "\<exists>s'. kp_fossil_collect c k s = Inr s' \<and> stored c (A - set (pevent_q (kps s k))) s'"
proof -
  define old where "old = filter (\<lambda>a. sig_key (qsig (heap s a)) < sig_key (GVT_sig s)) (pevent_q (kps s k))"
  define s1 where "s1 = (upd_kp k (\<lambda>kp. kp\<lparr>pevent_q := kept_events s (GVT_sig s) k\<rparr>) s)\<lparr>free_q := old @ free_q s\<rparr>"
  have "fossil_split (heap s) (GVT_sig s) (pevent_q (kps s k)) = (kept_events s (GVT_sig s) k, old)"
    using fossil_split_filter[of "pevent_q (kps s k)" "heap s" "GVT_sig s"] assms(4,5)
    by (simp add: kp_sorted_def kept_events_def old_def)
  then have r: "kp_fossil_collect c k s = commit_events c (rev old) s1"
    by (simp add: kp_fossil_collect_def s1_def Let_def upd_kp_def)
  have "stored c A s1" by (rule stored_cong[OF assms(1)]) (simp_all add: s1_def upd_kp_def)
  moreover have "set (rev old) \<subseteq> A" "distinct (rev old)" using assms(2,3) by (auto simp: old_def)
  ultimately obtain s' where s': "commit_events c (rev old) s1 = Inr s'" "stored c (A - set (rev old)) s'"
    using commit_events_ok by blast
  have "stored c (A - set (pevent_q (kps s k))) s'" using s'(2) by (auto simp: stored_def old_def)
  then show ?thesis using s'(1) r by simp
qed

lemma fossil_collect_ok:
  assumes "stored c (set (all_processed s ks)) s" "distinct (all_processed s ks)" "distinct ks" "\<forall>k \<in> set ks. kp_sorted s k" "wf_sig (GVT_sig s)"
  shows "\<exists>s'. fossil_collect_kps c ks s = Inr s'"
  using assms
proof (induction ks arbitrary: s)
  case (Cons k ks)
  have d: "distinct (pevent_q (kps s k))" "distinct (all_processed s ks)" "set (pevent_q (kps s k)) \<inter> set (all_processed s ks) = {}"
    and ss: "kp_sorted s k" using Cons.prems(2,4) by (simp_all add: all_processed_def)
  obtain s1 where s1: "kp_fossil_collect c k s = Inr s1" "stored c (set (all_processed s (k # ks)) - set (pevent_q (kps s k))) s1"
    using kp_fossil_ok[OF Cons.prems(1) _ d(1) ss Cons.prems(5)] by (auto simp: all_processed_def)
  note fr = kp_fossil_frame[OF s1(1)] and e = kp_fossil_effect[OF s1(1) ss Cons.prems(5)]
  have p: "all_processed s1 ks = all_processed s ks" using Cons.prems(3) unfolding all_processed_def by (auto simp: e intro!: arg_cong[of _ _ concat])
  have "set (all_processed s (k # ks)) - set (pevent_q (kps s k)) = set (all_processed s ks)" using d(3) by (auto simp: all_processed_def)
  then have "stored c (set (all_processed s1 ks)) s1" using s1(2) by (simp add: p)
  moreover have "\<forall>j \<in> set ks. kp_sorted s1 j" using Cons.prems(3,4) fr by (auto simp: kp_sorted_def e fossil_frame_def)
  moreover have "wf_sig (GVT_sig s1)" using Cons.prems(5) fr by (simp add: fossil_frame_def)
  ultimately show ?case using Cons.IH[of s1] Cons.prems(3) d(2) p s1(1) by auto
qed simp

text \<open>
  Which buffers a collection releases: the collected events themselves, and those of the events they
  caused that wait for an acknowledgement only (\<open>TW_pe_sevent_q\<close>).
\<close>

definition sent_by :: "addr set \<Rightarrow> (addr \<Rightarrow> ('bf, 'm) pevent) \<Rightarrow> addr set" where
  "sent_by D hp = {x. (\<exists>a \<in> D. x \<in> set (caused_by_me (hp a))) \<and> qowner (hp x) = TW_pe_sevent_q}"

definition free_pool :: "('st, 'bf, 'm, 'z) tw_pe_scheme \<Rightarrow> bool" where
  "free_pool s \<longleftrightarrow> distinct (free_q s) \<and> (\<forall>x \<in> set (free_q s). qowner (heap s x) \<noteq> TW_pe_sevent_q)"

definition released :: "addr set \<Rightarrow> ('st, 'bf, 'm, 'z) tw_pe_scheme \<Rightarrow> ('st, 'bf, 'm, 'z) tw_pe_scheme \<Rightarrow> bool" where
  "released D s s' \<longleftrightarrow> free_pool s' \<and> set (free_q s') = set (free_q s) \<union> D \<union> sent_by D (heap s) \<and>
     (\<forall>x. x \<notin> D \<longrightarrow> heap s' x = (if x \<in> sent_by D (heap s) then (heap s x)\<lparr>out_msgs := [], qowner := TW_pe_free_q\<rparr> else heap s x)) \<and>
     (\<forall>a \<in> D. caused_by_me (heap s' a) = [] \<and> qowner (heap s' a) \<noteq> TW_pe_sevent_q)"

lemma released_empty: "free_pool s \<Longrightarrow> released {} s s"
  by (simp add: released_def sent_by_def)

lemma released_trans:
  assumes r1: "released D1 s s1" and r2: "released D2 s1 s2" and o: "\<forall>a \<in> D1 \<union> D2. qowner (heap s a) \<noteq> TW_pe_sevent_q"
  shows "released (D1 \<union> D2) s s2"
proof -
  have n: "a \<notin> sent_by D (heap s)" if "a \<in> D1 \<union> D2" for a D using o that by (simp add: sent_by_def)
  have h1: "heap s1 x = (if x \<in> sent_by D1 (heap s) then (heap s x)\<lparr>out_msgs := [], qowner := TW_pe_free_q\<rparr> else heap s x)" if "x \<notin> D1" for x
    using r1 that by (simp add: released_def)
  have d1: "caused_by_me (heap s1 a) = []" "qowner (heap s1 a) \<noteq> TW_pe_sevent_q" if "a \<in> D1" for a
    using r1 that by (simp_all add: released_def)
  have c2: "caused_by_me (heap s1 a) = caused_by_me (heap s a)" if "a \<in> D2 - D1" for a using h1[of a] that by simp
  have ow: "qowner (heap s1 x) = TW_pe_sevent_q \<longleftrightarrow> qowner (heap s x) = TW_pe_sevent_q \<and> x \<notin> sent_by D1 (heap s)" for x
    using h1[of x] d1(2)[of x] o by (cases "x \<in> D1") auto
  have sp: "sent_by D2 (heap s1) = sent_by (D2 - D1) (heap s) - sent_by D1 (heap s)"
  proof -
    have "(\<exists>a \<in> D2. x \<in> set (caused_by_me (heap s1 a))) \<longleftrightarrow> (\<exists>a \<in> D2 - D1. x \<in> set (caused_by_me (heap s a)))" for x
      using d1(1) c2 by (metis DiffD1 DiffI empty_iff list.set(1))
    then show ?thesis by (auto simp: sent_by_def ow)
  qed
  have un: "sent_by (D1 \<union> D2) (heap s) = sent_by D1 (heap s) \<union> sent_by D2 (heap s1)"
    unfolding sp by (auto simp: sent_by_def)
  have "heap s2 x = (if x \<in> sent_by (D1 \<union> D2) (heap s) then (heap s x)\<lparr>out_msgs := [], qowner := TW_pe_free_q\<rparr> else heap s x)"
    if x: "x \<notin> D1 \<union> D2" for x
  proof -
    have "heap s2 x = (if x \<in> sent_by D2 (heap s1) then (heap s1 x)\<lparr>out_msgs := [], qowner := TW_pe_free_q\<rparr> else heap s1 x)"
      using r2 x by (simp add: released_def)
    then show ?thesis using h1[of x] x unfolding un sp by auto
  qed
  moreover have "caused_by_me (heap s2 a) = [] \<and> qowner (heap s2 a) \<noteq> TW_pe_sevent_q" if "a \<in> D1 \<union> D2" for a
  proof (cases "a \<in> D2")
    case True
    then show ?thesis using r2 by (simp add: released_def)
  next
    case False
    then have a: "a \<in> D1" using that by simp
    then have "a \<notin> sent_by D2 (heap s1)" using d1(2)[OF a] by (simp add: sent_by_def)
    then have "heap s2 a = heap s1 a" using r2 False by (simp add: released_def)
    then show ?thesis using d1[OF a] by simp
  qed
  ultimately show ?thesis using r1 r2 unfolding released_def un by blast
qed

lemma free_sent_heap:
  "free_pool s \<Longrightarrow> free_pool (free_sent es s) \<and>
    set (free_q (free_sent es s)) = set (free_q s) \<union> {x \<in> set es. qowner (heap s x) = TW_pe_sevent_q} \<and>
    (\<forall>x. heap (free_sent es s) x = (if x \<in> set es \<and> qowner (heap s x) = TW_pe_sevent_q
       then (heap s x)\<lparr>out_msgs := [], qowner := TW_pe_free_q\<rparr> else heap s x))"
proof (induction es arbitrary: s)
  case (Cons e es)
  show ?case
  proof (cases "qowner (heap s e) = TW_pe_sevent_q")
    case True
    define s1 where "s1 = tw_event_free e s"
    have h: "heap s1 = (heap s)(e := (heap s e)\<lparr>out_msgs := [], qowner := TW_pe_free_q\<rparr>)" "free_q s1 = e # free_q s"
      by (simp_all add: s1_def tw_event_free_def tw_free_output_messages_def upd_ev_def)
    have "free_pool s1" using Cons.prems True by (auto simp: free_pool_def h)
    note ih = Cons.IH[OF this]
    have f: "free_sent (e # es) s = free_sent es s1" using True by (simp add: s1_def)
    have "{x \<in> set (e # es). qowner (heap s x) = TW_pe_sevent_q} = insert e {x \<in> set es. qowner (heap s1 x) = TW_pe_sevent_q}"
      using True by (auto simp: h)
    moreover have "heap (free_sent es s1) x = (if x \<in> set (e # es) \<and> qowner (heap s x) = TW_pe_sevent_q
       then (heap s x)\<lparr>out_msgs := [], qowner := TW_pe_free_q\<rparr> else heap s x)" for x
      using ih True by (cases "x = e") (simp_all add: h)
    ultimately show ?thesis using ih unfolding f by (simp add: h(2))
  next
    case False
    then show ?thesis using Cons.IH[OF Cons.prems] by auto
  qed
qed simp

lemma commit_event_released:
  fixes s :: "('st, 'bf, 'm, 'r, 'w, 'z) net_pe_scheme"
  assumes r: "commit_event c a s = Inr s'" and p: "free_pool s" and a: "a \<in> set (free_q s)"
  shows "released {a} s s'"
proof -
  let ?f = "\<lambda>s. case commit_h c of None \<Rightarrow> s
            | Some f \<Rightarrow> upd_lp (dest_lp (heap s a)) (\<lambda>l. l\<lparr>cur_state := f (dest_lp (heap s a)) (cur_state l) (cv (heap s a)) (msg (heap s a))\<rparr>) s"
  define s1 where "s1 = tw_free_output_messages a True (?f s)"
  have 1: "free_q s1 = free_q s" "heap s1 = (heap s)(a := (heap s a)\<lparr>out_msgs := []\<rparr>)"
    by (auto simp: s1_def tw_free_output_messages_def upd_ev_def upd_lp_def Let_def split: option.split)
  define tail where "tail = (\<lambda>s2 :: ('st, 'bf, 'm, 'r, 'w, 'z) net_pe_scheme. if caused_by_me (heap s2 a) \<noteq> []
      then upd_ev a (\<lambda>v. v\<lparr>caused_by_me := [], qowner := TW_pe_free_q\<rparr>) (free_sent (caused_by_me (heap s2 a)) s2) else s2)"
  have c: "commit_event c a s = ebind (if event_id (heap s1 a) \<noteq> 0 \<and> st_remote (heap s1 a)
      then ebind (tw_hash_remove c a s1) (\<lambda>(x, pe). Inr pe) else Inr s1) (\<lambda>s. Inr (tail s))"
    unfolding commit_event_def Let_def s1_def tail_def by (rule refl)
  obtain s2 where s2: "(if event_id (heap s1 a) \<noteq> 0 \<and> st_remote (heap s1 a)
      then ebind (tw_hash_remove c a s1) (\<lambda>(x, pe). Inr pe) else Inr s1) = Inr s2" "s' = tail s2"
    using r unfolding c by (elim ebind_InrE) simp
  have 2: "free_q s2 = free_q s" "heap s2 = (heap s)(a := (heap s a)\<lparr>out_msgs := []\<rparr>)"
    using s2(1) 1 by (auto simp: tw_hash_remove_def bind_simps Let_def split: if_splits)
  have p2: "free_pool s2" using p by (simp add: free_pool_def 2)
  have o: "qowner (heap s a) \<noteq> TW_pe_sevent_q" using p a by (simp add: free_pool_def)
  have sb: "sent_by {a} (heap s) = {x \<in> set (caused_by_me (heap s a)). qowner (heap s2 x) = TW_pe_sevent_q}"
    using o by (auto simp: sent_by_def 2)
  show ?thesis
  proof (cases "caused_by_me (heap s a) = []")
    case True
    then have "s' = s2" by (simp add: s2(2) tail_def 2)
    then show ?thesis using True p2 a o by (auto simp: released_def sent_by_def 2)
  next
    case False
    let ?t = "free_sent (caused_by_me (heap s a)) s2"
    have s': "s' = upd_ev a (\<lambda>v. v\<lparr>caused_by_me := [], qowner := TW_pe_free_q\<rparr>) ?t" using False by (simp add: s2(2) tail_def 2)
    have t: "free_pool ?t" "set (free_q ?t) = set (free_q s) \<union> sent_by {a} (heap s)"
      "\<And>x. heap ?t x = (if x \<in> sent_by {a} (heap s) then (heap s2 x)\<lparr>out_msgs := [], qowner := TW_pe_free_q\<rparr> else heap s2 x)"
      using free_sent_heap[OF p2, of "caused_by_me (heap s a)"] by (auto simp: sb 2(1))
    have "free_pool s'" using t(1) by (auto simp: free_pool_def s' pe_simps)
    moreover have "set (free_q s') = set (free_q s) \<union> {a} \<union> sent_by {a} (heap s)" using t(2) a by (auto simp: s' pe_simps)
    moreover have "heap s' x = (if x \<in> sent_by {a} (heap s) then (heap s x)\<lparr>out_msgs := [], qowner := TW_pe_free_q\<rparr> else heap s x)"
      if "x \<notin> {a}" for x
      using that t(3)[of x] by (simp add: s' pe_simps 2)
    moreover have "\<forall>x \<in> {a}. caused_by_me (heap s' x) = [] \<and> qowner (heap s' x) \<noteq> TW_pe_sevent_q" by (simp add: s' pe_simps)
    ultimately show ?thesis unfolding released_def by blast
  qed
qed

lemma released_pool: "released D s s' \<Longrightarrow> free_pool s'"
  by (simp add: released_def)

lemma commit_events_released:
  "commit_events c as s = Inr s' \<Longrightarrow> free_pool s \<Longrightarrow> set as \<subseteq> set (free_q s) \<Longrightarrow> released (set as) s s'"
proof (induction "as" arbitrary: s)
  case (Cons a "as")
  obtain s1 where s1: "commit_event c a s = Inr s1" "commit_events c as s1 = Inr s'"
    using Cons.prems(1) by (auto elim: ebind_InrE)
  have r1: "released {a} s s1" using commit_event_released[OF s1(1) Cons.prems(2)] Cons.prems(3) by simp
  have "set as \<subseteq> set (free_q s1)" using r1 Cons.prems(3) by (auto simp: released_def)
  from Cons.IH[OF s1(2) released_pool[OF r1] this] have r2: "released (set as) s1 s'" .
  have "\<forall>x \<in> {a} \<union> set as. qowner (heap s x) \<noteq> TW_pe_sevent_q" using Cons.prems(2,3) by (auto simp: free_pool_def)
  from released_trans[OF r1 r2 this] show ?case by simp
qed (simp add: released_empty)

definition old_events :: "('st, 'bf, 'm, 'z) tw_pe_scheme \<Rightarrow> tw_event_sig \<Rightarrow> nat list \<Rightarrow> addr set" where
  "old_events s g ks = {a \<in> set (all_processed s ks). sig_key (qsig (heap s a)) < sig_key g}"

lemma kp_fossil_released:
  assumes "kp_fossil_collect c k s = Inr s'" "kp_sorted s k" "wf_sig (GVT_sig s)" "free_pool s"
    "distinct (pevent_q (kps s k) @ free_q s)" "\<forall>a \<in> set (pevent_q (kps s k)). qowner (heap s a) \<noteq> TW_pe_sevent_q"
  shows "released (old_events s (GVT_sig s) [k]) s s'"
proof -
  define old where "old = filter (\<lambda>a. sig_key (qsig (heap s a)) < sig_key (GVT_sig s)) (pevent_q (kps s k))"
  define s1 where "s1 = (upd_kp k (\<lambda>kp. kp\<lparr>pevent_q := kept_events s (GVT_sig s) k\<rparr>) s)\<lparr>free_q := old @ free_q s\<rparr>"
  have "fossil_split (heap s) (GVT_sig s) (pevent_q (kps s k)) = (kept_events s (GVT_sig s) k, old)"
    using fossil_split_filter[of "pevent_q (kps s k)" "heap s" "GVT_sig s"] assms(2,3)
    by (simp add: kp_sorted_def kept_events_def old_def)
  then have r: "commit_events c (rev old) s1 = Inr s'"
    using assms(1) by (simp add: kp_fossil_collect_def s1_def Let_def upd_kp_def)
  have h: "heap s1 = heap s" "free_q s1 = old @ free_q s" by (simp_all add: s1_def upd_kp_def)
  have "free_pool s1" using assms(4-6) by (auto simp: free_pool_def h old_def)
  from commit_events_released[OF r this] have "released (set old) s1 s'" by (simp add: h)
  moreover have "old_events s (GVT_sig s) [k] = set old" by (auto simp: old_events_def all_processed_def old_def)
  ultimately show ?thesis by (auto simp: released_def h)
qed

lemma fossil_collect_released:
  assumes "fossil_collect_kps c ks s = Inr s'" "\<forall>k \<in> set ks. kp_sorted s k" "wf_sig (GVT_sig s)" "distinct ks" "free_pool s"
    "distinct (all_processed s ks @ free_q s)" "\<forall>a \<in> set (all_processed s ks). qowner (heap s a) \<noteq> TW_pe_sevent_q"
  shows "released (old_events s (GVT_sig s) ks) s s'"
  using assms
proof (induction ks arbitrary: s)
  case (Cons k ks)
  obtain s1 where s1: "kp_fossil_collect c k s = Inr s1" "fossil_collect_kps c ks s1 = Inr s'"
    using Cons.prems(1) by (auto elim: ebind_InrE)
  have ss: "kp_sorted s k" using Cons.prems(2) by simp
  have q: "all_processed s (k # ks) = pevent_q (kps s k) @ all_processed s ks" by (simp add: all_processed_def)
  have r1: "released (old_events s (GVT_sig s) [k]) s s1"
    using Cons.prems(6,7) by (intro kp_fossil_released[OF s1(1) ss Cons.prems(3,5)]) (auto simp: q)
  note fr = kp_fossil_frame[OF s1(1)] and e = kp_fossil_effect[OF s1(1) ss Cons.prems(3)]
  have p: "all_processed s1 ks = all_processed s ks" using Cons.prems(4) unfolding all_processed_def by (auto simp: e intro!: arg_cong[of _ _ concat])
  have g: "GVT_sig s1 = GVT_sig s" "\<And>a. qsig (heap s1 a) = qsig (heap s a)" using fr by (simp_all add: fossil_frame_def)
  have D: "old_events s (GVT_sig s) [k] \<subseteq> set (pevent_q (kps s k))" by (auto simp: old_events_def all_processed_def)
  have same: "heap s1 a = heap s a" "a \<notin> set (free_q s1)" if "a \<in> set (all_processed s ks)" for a
  proof -
    have n: "a \<notin> old_events s (GVT_sig s) [k]" "a \<notin> sent_by (old_events s (GVT_sig s) [k]) (heap s)" "a \<notin> set (free_q s)"
      using that D Cons.prems(6,7) by (auto simp: q sent_by_def)
    then show "heap s1 a = heap s a" "a \<notin> set (free_q s1)" using r1 by (simp_all add: released_def)
  qed
  have r2: "released (old_events s1 (GVT_sig s1) ks) s1 s'"
  proof (rule Cons.IH[OF s1(2)])
    show "\<forall>k \<in> set ks. kp_sorted s1 k" using Cons.prems(2,4) by (auto simp: kp_sorted_def e g)
    show "wf_sig (GVT_sig s1)" using Cons.prems(3) by (simp add: g)
    show "distinct ks" using Cons.prems(4) by simp
    show "free_pool s1" by (rule released_pool[OF r1])
    then show "distinct (all_processed s1 ks @ free_q s1)" using Cons.prems(6) same(2) by (auto simp: p q free_pool_def)
    show "\<forall>a \<in> set (all_processed s1 ks). qowner (heap s1 a) \<noteq> TW_pe_sevent_q" using Cons.prems(7) same(1) by (simp add: p q)
  qed
  have o: "old_events s1 (GVT_sig s1) ks = old_events s (GVT_sig s) ks" by (simp add: old_events_def p g)
  have "old_events s (GVT_sig s) (k # ks) = old_events s (GVT_sig s) [k] \<union> old_events s (GVT_sig s) ks"
    by (auto simp: old_events_def all_processed_def)
  then show ?case using released_trans[OF r1 r2[unfolded o]] Cons.prems(7) by (auto simp: old_events_def)
qed (simp add: released_empty old_events_def all_processed_def)

section \<open>The end of the computation\<close>

text \<open>The state that enters fossil collection.\<close>

lemma gvt_commit_elim:
  fixes me :: "('st, 'bf, 'm, 'r, 'w, 'z) gvt_pe_scheme"
  assumes r: "gvt_commit c g me = Inr me'"
  obtains g' m2 m3 where
    "g' = (if tw_event_sig_compare_ptr g (GVT_prev_sig me) < 0 then g else tw_copy_event_sig g (GVT_prev_sig me))"
    "GVT_sig m2 = tw_copy_event_sig (GVT_sig me) g'" "kps m2 = kps me" "heap m2 = heap me" "pq m2 = pq me" "event_q m2 = event_q me"
    "cancel_q m2 = cancel_q me" "outq m2 = outq me" "posted_sends m2 = posted_sends me" "gvt_status m2 = False"
    "GVT_prev_sig m2 = GVT_prev_sig me" "free_q m2 = free_q me" "\<not> tw_event_sig_compare_ptr (GVT_sig me) g' > 0"
    "(if protocol c = OPTIMISTIC \<or> protocol c = OPTIMISTIC_REALTIME then tw_pe_fossil_collect c m2 else Inr m2) = Inr m3"
    "me' = m3\<lparr>gvt_done := gvt_done m3 + 1\<rparr>"
proof -
  define m0 where "m0 = me\<lparr>all_reduce_cnt := all_reduce_cnt me + 1\<rparr>"
  have m0: "GVT_prev_sig m0 = GVT_prev_sig me" by (simp add: m0_def)
  define changed where "changed \<longleftrightarrow> tw_event_sig_compare_ptr g (GVT_prev_sig m0) < 0"
  define g' where "g' = (if changed then g else tw_copy_event_sig g (GVT_prev_sig m0))"
  define m1 where "m1 = (if changed then m0\<lparr>gvt_no_change := 0\<rparr> else m0\<lparr>gvt_no_change := gvt_no_change m0 + 1\<rparr>)"
  have m1: "GVT_sig m1 = GVT_sig me" "kps m1 = kps me" "heap m1 = heap me" "pq m1 = pq me" "event_q m1 = event_q me" "cancel_q m1 = cancel_q me"
    "outq m1 = outq me" "posted_sends m1 = posted_sends me" "trans_msg_sig m1 = trans_msg_sig me" "GVT_prev_sig m1 = GVT_prev_sig me" "free_q m1 = free_q me" by (simp_all add: m1_def m0_def)
  define m2 where "m2 = m1\<lparr>s_nwhite_sent := 0, s_nwhite_recv := 0, trans_msg_sig := tw_copy_event_sig (trans_msg_sig m1) g_tw_max_sig,
      GVT_sig := tw_copy_event_sig (GVT_sig m1) g', gvt_status := False, gvt_cnt := 0\<rparr>"
  have m2: "GVT_sig m2 = tw_copy_event_sig (GVT_sig me) g'" "kps m2 = kps me" "heap m2 = heap me" "pq m2 = pq me" "event_q m2 = event_q me"
    "cancel_q m2 = cancel_q me" "outq m2 = outq me" "posted_sends m2 = posted_sends me" "gvt_status m2 = False"
    "GVT_prev_sig m2 = GVT_prev_sig me" "free_q m2 = free_q me" by (simp_all add: m2_def m1)
  have run: "gvt_commit c g me = (if \<not> changed \<and> gvt_no_change m1 \<ge> g_tw_gvt_max_no_change
      then Inl (Tw_Error ''GVT computed times in a row without changing'')
      else if tw_event_sig_compare_ptr (GVT_sig m1) g' > 0 then Inl (Tw_Error ''GVT decreased'')
      else ebind (if protocol c = OPTIMISTIC \<or> protocol c = OPTIMISTIC_REALTIME then tw_pe_fossil_collect c m2 else Inr m2) (\<lambda>me.
        Inr (me\<lparr>gvt_done := gvt_done me + 1\<rparr>)))"
    unfolding gvt_commit_def Let_def m2_def g'_def changed_def m1_def m0_def by (rule refl)
  obtain m3 where m3: "(if protocol c = OPTIMISTIC \<or> protocol c = OPTIMISTIC_REALTIME then tw_pe_fossil_collect c m2 else Inr m2) = Inr m3"
    "me' = m3\<lparr>gvt_done := gvt_done m3 + 1\<rparr>" "\<not> tw_event_sig_compare_ptr (GVT_sig me) g' > 0"
  proof -
    have n: "\<not> (\<not> changed \<and> gvt_no_change m1 \<ge> g_tw_gvt_max_no_change)" "\<not> tw_event_sig_compare_ptr (GVT_sig m1) g' > 0"
      using r unfolding run by (auto split: if_splits)
    show thesis using r unfolding run if_not_P[OF n(1)] if_not_P[OF n(2)] by (elim ebind_InrE) (use n(2) that in \<open>simp add: m1\<close>)
  qed
  show thesis
    by (rule that[of g' m2 m3]) (use m3 in \<open>simp_all add: m2 g'_def changed_def m0\<close>)
qed

lemma gvt_commit_ok:
  fixes me :: "('st, 'bf, 'm, 'r, 'w, 'z) gvt_pe_scheme"
  assumes r: "gvt_commit c g me = Inr me'" and wf: "wf_sig g" "wf_sig (GVT_prev_sig me)" "wf_sig (GVT_sig me)"
  shows "wf_sig (GVT_sig me')" "sig_key (GVT_sig me') = min (sig_key g) (sig_key (GVT_prev_sig me))"
    "sig_key (GVT_sig me) \<le> sig_key (GVT_sig me')" "unprocessed me' = unprocessed me" "\<forall>a. qsig (heap me' a) = qsig (heap me a)"
    "gvt_status me' = False"
    "protocol c = OPTIMISTIC \<or> protocol c = OPTIMISTIC_REALTIME \<Longrightarrow> \<forall>k < nkp c. kp_sorted me k \<Longrightarrow> k < nkp c \<Longrightarrow>
      pevent_q (kps me' k) = kept_events me (GVT_sig me') k"
proof -
  obtain g' m2 m3 where gd: "g' = (if tw_event_sig_compare_ptr g (GVT_prev_sig me) < 0 then g else tw_copy_event_sig g (GVT_prev_sig me))"
    and m2: "GVT_sig m2 = tw_copy_event_sig (GVT_sig me) g'" "kps m2 = kps me" "heap m2 = heap me" "pq m2 = pq me" "event_q m2 = event_q me"
      "cancel_q m2 = cancel_q me" "outq m2 = outq me" "posted_sends m2 = posted_sends me" "gvt_status m2 = False"
      "GVT_prev_sig m2 = GVT_prev_sig me" "free_q m2 = free_q me"
    and c0: "\<not> tw_event_sig_compare_ptr (GVT_sig me) g' > 0"
    and c1: "(if protocol c = OPTIMISTIC \<or> protocol c = OPTIMISTIC_REALTIME then tw_pe_fossil_collect c m2 else Inr m2) = Inr m3"
      "me' = m3\<lparr>gvt_done := gvt_done m3 + 1\<rparr>"
    by (rule gvt_commit_elim[OF r])
  note m3 = c1 c0
  have g': "wf_sig g'" "sig_key g' = min (sig_key g) (sig_key (GVT_prev_sig me))"
    using wf(1,2) by (auto simp: gd tw_event_sig_compare_ptr_key min_def)
  have G: "wf_sig (GVT_sig m2)" "sig_key (GVT_sig m2) = sig_key g'" using wf(3) g'(1) by (simp_all add: m2)
  have fo: "fossil_frame (m2\<lparr>kps := kps m3\<rparr>) m3"
    using m3(1) fossil_collect_frame[of c "[0..<nkp c]" m2 m3] by (auto simp: tw_pe_fossil_collect_def fossil_frame_def split: if_splits)
  have gm: "GVT_sig me' = GVT_sig m2" using fo by (simp add: m3(2) fossil_frame_def)
  show "wf_sig (GVT_sig me')" "sig_key (GVT_sig me') = min (sig_key g) (sig_key (GVT_prev_sig me))"
    using G g' by (simp_all add: gm)
  show "sig_key (GVT_sig me) \<le> sig_key (GVT_sig me')"
    using m3(3) wf(3) g'(1) G(2) by (simp add: gm tw_event_sig_compare_ptr_key not_less split: if_splits)
  have "pq m3 = pq me \<and> event_q m3 = event_q me \<and> cancel_q m3 = cancel_q me \<and> outq m3 = outq me \<and> posted_sends m3 = posted_sends me"
    using fo by (simp add: fossil_frame_def m2)
  then show "unprocessed me' = unprocessed me" by (simp add: unprocessed_def outgoing_def in_transit_def m3(2))
  show "\<forall>a. qsig (heap me' a) = qsig (heap me a)" "gvt_status me' = False" using fo by (simp_all add: m3(2) fossil_frame_def m2)
  assume p: "protocol c = OPTIMISTIC \<or> protocol c = OPTIMISTIC_REALTIME" and srt: "\<forall>k < nkp c. kp_sorted me k" and k: "k < nkp c"
  have "\<forall>k \<in> set [0..<nkp c]. kp_sorted m2 k" using srt by (simp add: kp_sorted_def m2)
  moreover have "fossil_collect_kps c [0..<nkp c] m2 = Inr m3" using m3(1) p by (simp add: tw_pe_fossil_collect_def)
  ultimately have "pevent_q (kps m3 k) = kept_events m2 (GVT_sig m2) k"
    using fossil_collect_effect[of c "[0..<nkp c]" m2 m3 k] G(1) k by simp
  then show "pevent_q (kps me' k) = kept_events me (GVT_sig me') k" unfolding gm by (simp add: m3(2) kept_events_def m2)
qed

lemma gvt_commit_released:
  fixes me :: "('st, 'bf, 'm, 'r, 'w, 'z) gvt_pe_scheme"
  assumes r: "gvt_commit c g me = Inr me'" and wf: "wf_sig g" "wf_sig (GVT_prev_sig me)" "wf_sig (GVT_sig me)"
    and p: "protocol c = OPTIMISTIC \<or> protocol c = OPTIMISTIC_REALTIME" and so: "\<forall>k < nkp c. kp_sorted me k"
    and f: "free_pool me" "distinct (all_processed me [0..<nkp c] @ free_q me)"
      "\<forall>a \<in> set (all_processed me [0..<nkp c]). qowner (heap me a) \<noteq> TW_pe_sevent_q"
  shows "released (old_events me (GVT_sig me') [0..<nkp c]) me me'"
proof -
  obtain g' m2 m3 where gd: "g' = (if tw_event_sig_compare_ptr g (GVT_prev_sig me) < 0 then g else tw_copy_event_sig g (GVT_prev_sig me))"
    and m2: "GVT_sig m2 = tw_copy_event_sig (GVT_sig me) g'" "kps m2 = kps me" "heap m2 = heap me" "free_q m2 = free_q me"
    and m3: "(if protocol c = OPTIMISTIC \<or> protocol c = OPTIMISTIC_REALTIME then tw_pe_fossil_collect c m2 else Inr m2) = Inr m3"
      "me' = m3\<lparr>gvt_done := gvt_done m3 + 1\<rparr>"
    by (rule gvt_commit_elim[OF r])
  have c: "fossil_collect_kps c [0..<nkp c] m2 = Inr m3" using m3(1) p by (simp add: tw_pe_fossil_collect_def)
  have "wf_sig g'" using wf(1,2) by (auto simp: gd)
  then have G: "wf_sig (GVT_sig m2)" using wf(3) by (simp add: m2)
  have q: "all_processed m2 ks = all_processed me ks" for ks by (simp add: all_processed_def m2)
  have "GVT_sig m3 = GVT_sig m2" using fossil_collect_frame[OF c] by (simp add: fossil_frame_def)
  then have gm: "GVT_sig me' = GVT_sig m2" by (simp add: m3(2))
  have "free_pool m2" using f(1) by (simp add: free_pool_def m2)
  moreover have "\<forall>k \<in> set [0..<nkp c]. kp_sorted m2 k" using so by (simp add: kp_sorted_def m2)
  ultimately have "released (old_events m2 (GVT_sig m2) [0..<nkp c]) m2 m3"
    using f(2,3) G by (intro fossil_collect_released[OF c]) (simp_all add: q m2)
  moreover have "old_events m2 (GVT_sig m2) [0..<nkp c] = old_events me (GVT_sig me') [0..<nkp c]"
    by (simp add: old_events_def q gm m2(3))
  ultimately show ?thesis by (simp add: released_def free_pool_def m2(3,4) m3(2))
qed

lemma gvt_commit_returns:
  fixes me :: "('st, 'bf, 'm, 'r, 'w, 'z) gvt_pe_scheme"
  assumes wf: "wf_sig g" "wf_sig (GVT_prev_sig me)" "wf_sig (GVT_sig me)"
    and g: "sig_key (GVT_sig me) \<le> sig_key g" "sig_key g < sig_key (GVT_prev_sig me)"
    and f: "stored c (set (all_processed me [0..<nkp c])) me" "distinct (all_processed me [0..<nkp c])" "\<forall>k < nkp c. kp_sorted me k"
  shows "\<exists>me'. gvt_commit c g me = Inr me'"
proof -
  define m2 where "m2 = me\<lparr>all_reduce_cnt := all_reduce_cnt me + 1, gvt_no_change := 0, s_nwhite_sent := 0, s_nwhite_recv := 0,
      trans_msg_sig := tw_copy_event_sig (trans_msg_sig me) g_tw_max_sig,
      GVT_sig := tw_copy_event_sig (GVT_sig me) g, gvt_status := False, gvt_cnt := 0\<rparr>"
  have "tw_event_sig_compare_ptr g (GVT_prev_sig me) < 0" "\<not> tw_event_sig_compare_ptr (GVT_sig me) g > 0"
    using wf g by (simp_all add: tw_event_sig_compare_ptr_key)
  then have r: "gvt_commit c g me = ebind (if protocol c = OPTIMISTIC \<or> protocol c = OPTIMISTIC_REALTIME then tw_pe_fossil_collect c m2 else Inr m2)
      (\<lambda>me. Inr (me\<lparr>gvt_done := gvt_done me + 1\<rparr>))"
    by (simp add: gvt_commit_def Let_def m2_def)
  have m2: "kps m2 = kps me" "heap m2 = heap me" "avl_tree m2 = avl_tree me" "GVT_sig m2 = tw_copy_event_sig (GVT_sig me) g"
    by (simp_all add: m2_def)
  have p: "all_processed m2 ks = all_processed me ks" for ks by (simp add: all_processed_def m2)
  have "stored c (set (all_processed m2 [0..<nkp c])) m2" unfolding p by (rule stored_cong[OF f(1)]) (simp_all add: m2)
  moreover have "\<forall>k \<in> set [0..<nkp c]. kp_sorted m2 k" using f(3) by (simp add: kp_sorted_def m2)
  ultimately obtain m3 where "fossil_collect_kps c [0..<nkp c] m2 = Inr m3"
    using fossil_collect_ok[of c m2 "[0..<nkp c]"] f(2) wf by (auto simp: p m2)
  then show ?thesis by (simp add: r tw_pe_fossil_collect_def)
qed

end
