(* ===== verification/Gvt_Props.thy ===== *)
theory Gvt_Props
  imports Gvt_Lemmas
begin

text \<open>
  The properties of the GVT computation (\<open>core/gvt/mpi_allreduce.c\<close>) and of fossil collection
  (\<open>core/tw-pe.c\<close>, \<open>core/tw-eventq.h\<close>), and the PEs they are applied to.
\<close>

section \<open>All PEs\<close>

lemma commit_all_nth:
  "commit_all cs g i mes = Inr mes' \<Longrightarrow> length mes' = length mes \<and> (\<forall>j < length mes. gvt_commit (cs (i + j)) g (mes ! j) = Inr (mes' ! j))"
proof (induction mes arbitrary: i mes')
  case (Cons me mes)
  then obtain m1 ms where m: "gvt_commit (cs i) g me = Inr m1" "commit_all cs g (Suc i) mes = Inr ms" "mes' = m1 # ms"
    by (auto simp: bind_simps)
  then show ?case using Cons.IH[OF m(2)] by (simp add: All_less_Suc2)
qed simp

text \<open>What the computation starts from.\<close>

definition gvt_ready :: "(nat \<Rightarrow> addr set) \<Rightarrow> ('r \<Rightarrow> bool) \<Rightarrow> (real \<times> real \<times> 32 word \<times> nat \<Rightarrow> tw_event_sig)
    \<Rightarrow> ('w \<Rightarrow> ('bf, 'm) pevent multiset) \<Rightarrow> (nat \<Rightarrow> ('st, 'bf, 'm) config) \<Rightarrow> (nat \<Rightarrow> ('bf, 'm, 'r, 'w) net_config)
    \<Rightarrow> ('st, 'bf, 'm, 'r, 'w, 'z) net_pe_scheme list \<Rightarrow> 'w \<Rightarrow> bool" where
  "gvt_ready Us is_send sig_of flight cs ncs mes w \<longleftrightarrow>
     net_mpi is_send flight ncs \<and> all_pes (rank_ok Us is_send sig_of cs ncs) 0 mes \<and>
     (\<forall>v \<in># flight w. good_event sig_of v) \<and> int (size (flight w)) = whites mes \<and>
     (\<forall>me \<in> set mes. gvt_status me \<and> hook_wf me \<and> GVT_prev_sig me = g_tw_max_sig)"

lemma gvt_cut:
  assumes ok: "gvt_ready Us is_send sig_of flight cs ncs mes w" and st: "tw_gvt_step2 n cs ncs us mes w = Inr (mes', w')"
    and ne: "mes \<noteq> []"
  obtains mes1 g where "flight w' = {#}" "all_pes (rank_ok Us is_send sig_of cs ncs) 0 mes1" "list_all2 same_gvt mes mes1"
    "reduce_sigs (lvts cs us mes1) = Inr g" "commit_all cs g 0 mes1 = Inr mes'"
proof -
  have "\<not> list_all (\<lambda>me. \<not> gvt_status me) mes" "\<not> list_ex (\<lambda>me. \<not> gvt_status me) mes"
    using ok ne by (cases mes; auto simp: gvt_ready_def list_ex_iff)+
  then obtain mes1 w1 g where m: "white_loop n cs ncs mes w = Inr (mes1, w1)" "reduce_sigs (lvts cs us mes1) = Inr g"
    "commit_all cs g 0 mes1 = Inr mes'" "w1 = w'"
    using st by (auto simp: tw_gvt_step2_def bind_simps)
  have "all_pes (rank_ok Us is_send sig_of cs ncs) 0 mes1 \<and> whites mes1 = 0 \<and>
      int (size (flight w1)) = int (size (flight w)) - whites mes \<and> list_all2 same_gvt mes mes1"
    using ok by (intro white_loop_flow[OF _ _ _ m(1)]) (simp_all add: gvt_ready_def)
  moreover have "flight w' = {#}" using calculation ok m(4) by (simp add: gvt_ready_def)
  ultimately show thesis using that m by blast
qed

text \<open>
  C1: GVT is a lower bound of all that can still happen. If the counters of the PEs account for
  the messages under way when the PEs enter the computation, then when it returns no message is
  under way, and the GVT of every PE is at most the time of every event that is pending, has
  arrived, is to be cancelled or is on its way out on any PE. All PEs agree on GVT, and it has not
  decreased.
\<close>

theorem gvt_safe:
  fixes mes :: "('st, 'bf, 'm, 'r, 'w, 'z) gvt_pe_scheme list"
  assumes ok: "gvt_ready Us is_send sig_of flight cs ncs mes w" and us: "\<forall>i. length (event_tiebreaker (us i)) = MAX_TIE_CHAIN"
    and wf: "\<forall>me \<in> set mes. wf_sig (GVT_sig me)" and ne: "mes \<noteq> []"
    and st: "tw_gvt_step2 n cs ncs us mes w = Inr (mes', w')"
  shows "flight w' = {#} \<and> length mes' = length mes \<and> (\<forall>m1 \<in> set mes'. \<forall>m2 \<in> set mes'.
      tw_event_sig_compare_ptr (GVT_sig m1) (GVT_sig m2) = 0 \<and>
      (\<forall>a \<in> unprocessed m2. tw_event_sig_compare_ptr (GVT_sig m1) (qsig (heap m2 a)) \<le> 0)) \<and>
    (\<forall>i < length mes. tw_event_sig_compare_ptr (GVT_sig (mes ! i)) (GVT_sig (mes' ! i)) \<le> 0)"
proof -
  obtain mes1 g where m: "flight w' = {#}" "all_pes (rank_ok Us is_send sig_of cs ncs) 0 mes1" "list_all2 same_gvt mes mes1"
    "reduce_sigs (lvts cs us mes1) = Inr g" "commit_all cs g 0 mes1 = Inr mes'"
    using gvt_cut[OF ok st ne] .
  have len: "length mes1 = length mes" using m(3) by (simp add: list_all2_lengthD)
  have same: "GVT_sig (mes1 ! i) = GVT_sig (mes ! i)" "gvt_status (mes1 ! i)" "hook_wf (mes1 ! i)" "GVT_prev_sig (mes1 ! i) = g_tw_max_sig"
    if "i < length mes" for i
    using list_all2_nthD[OF m(3) that] ok that by (simp_all add: gvt_ready_def same_gvt_def net_other_def hook_wf_def)
  have rk: "rank_ok Us is_send sig_of cs ncs i (mes1 ! i)" if "i < length mes" for i
    using m(2) that len by (simp add: all_pes_def)
  note lv = gvt_lvt_bound[OF rk same(2,3) us[rule_format]]
  have "\<forall>s \<in> set (lvts cs us mes1). wf_sig s" using lv(1) by (auto simp: lvts_def len)
  from reduce_sigs_min[OF this m(4)]
  have g: "wf_sig g" "\<forall>i < length mes. sig_key g \<le> sig_key (gvt_lvt (cs i) (us i) (mes1 ! i))" by (auto simp: lvts_def len)
  note c = commit_all_nth[OF m(5)]
  have wfi: "wf_sig (GVT_sig (mes1 ! i))" if "i < length mes" for i using same(1) wf that by simp
  have co: "wf_sig (GVT_sig (mes' ! i))" "sig_key (GVT_sig (mes' ! i)) = min (sig_key g) (sig_key g_tw_max_sig)"
    "sig_key (GVT_sig (mes ! i)) \<le> sig_key (GVT_sig (mes' ! i))" "unprocessed (mes' ! i) = unprocessed (mes1 ! i)"
    "\<forall>a. qsig (heap (mes' ! i) a) = qsig (heap (mes1 ! i) a)" if i: "i < length mes" for i
    using gvt_commit_ok(1-5)[of "cs i" g "mes1 ! i" "mes' ! i", OF _ g(1) _ wfi[OF i]] c same[OF i] i by (simp_all add: len)
  have low: "tw_event_sig_compare_ptr (GVT_sig (mes' ! i)) (qsig (heap (mes' ! j) a)) \<le> 0"
    if "i < length mes" "j < length mes" "a \<in> unprocessed (mes' ! j)" for i j a
  proof -
    have "sig_key (GVT_sig (mes' ! i)) \<le> sig_key g" using co(2)[OF that(1)] by simp
    also have "\<dots> \<le> sig_key (gvt_lvt (cs j) (us j) (mes1 ! j))" using g(2) that(2) by blast
    also have "\<dots> \<le> sig_key (qsig (heap (mes1 ! j) a))" using lv(2)[OF that(2) that(2)] co(4)[OF that(2)] that(2,3) by simp
    finally have le: "sig_key (GVT_sig (mes' ! i)) \<le> sig_key (qsig (heap (mes' ! j) a))" using co(5)[OF that(2)] by simp
    have "wf_sig (qsig (heap (mes' ! j) a))"
    proof -
      have "a \<in> held (mes1 ! j) \<union> set (outgoing (mes1 ! j))" using that(3) co(4)[OF that(2)] by (auto simp: unprocessed_def held_def)
      then have "wf_sig (qsig (heap (mes1 ! j) a))"
        using rk[OF that(2)] unfolding rank_ok_def net_inv_def events_ok_def good_event_def by blast
      then show ?thesis using co(5)[OF that(2)] by simp
    qed
    then show ?thesis using le co(1)[OF that(1)] by (simp add: tw_event_sig_compare_ptr_key)
  qed
  have eq: "tw_event_sig_compare_ptr (GVT_sig (mes' ! i)) (GVT_sig (mes' ! j)) = 0" if "i < length mes" "j < length mes" for i j
    using co(1,2) that by (simp add: tw_event_sig_compare_ptr_key)
  have inc: "tw_event_sig_compare_ptr (GVT_sig (mes ! i)) (GVT_sig (mes' ! i)) \<le> 0" if "i < length mes" for i
    using co(1,3)[OF that] wf that by (simp add: tw_event_sig_compare_ptr_key)
  have len': "length mes' = length mes" using c len by simp
  show ?thesis using m(1) low eq inc len' by (auto simp: in_set_conv_nth)
qed

section \<open>An example\<close>

text \<open>
  Two PEs, in which PE 0 has a pending event at time 5 and two processed ones, and PE 1 has
  sent it an event for time 11/2 that is still under way. MPI delivers the first message under way to
  its receiver as soon as that has posted a buffer.
\<close>

definition ex_gmpi :: "nat \<Rightarrow> ((tw_bf, int) pevent, bool, (nat \<times> (tw_bf, int) pevent) list) mpi" where
  "ex_gmpi i = \<lparr>MPI_Isend = (\<lambda>e d w. Some (True, w @ [(d, e)])), MPI_Irecv = (\<lambda>w. Some (False, w)),
     MPI_Testsome = (\<lambda>rs w.
       let sends = map (\<lambda>j. (j, None)) (filter (\<lambda>j. rs ! j = Some True) [0..<length rs])
       in case w of [] \<Rightarrow> Some (sends, w)
         | (d, e) # w' \<Rightarrow>
             if d = i \<and> Some False \<in> set rs then Some ((length (takeWhile (\<lambda>r. r \<noteq> Some False) rs), Some e) # sends, w')
             else Some (sends, w))\<rparr>"

definition ex_gnc :: "nat \<Rightarrow> (tw_bf, int, bool, (nat \<times> (tw_bf, int) pevent) list) net_config" where
  "ex_gnc i = \<lparr>the_mpi = ex_gmpi i, read_buffer = 1, send_buffer = 1, world_size = 2, net_fuel = 3\<rparr>"

definition ex_flight :: "(nat \<times> (tw_bf, int) pevent) list \<Rightarrow> (tw_bf, int) pevent multiset" where
  "ex_flight w = mset (map snd w)"

definition ex_gc :: "nat \<Rightarrow> (phold_state, tw_bf, int) config" where
  "ex_gc i = ex_config\<lparr>mynode := i, nkp := 1, local_lp := (\<lambda>k. k)\<rparr>"

definition ex_gpe :: "nat \<Rightarrow> (phold_state, tw_bf, int, bool, (nat \<times> (tw_bf, int) pevent) list) gvt_pe" where
  "ex_gpe i = net_pe.extend (tw_pe.extend
       ((ex_pe False)\<lparr>heap := (if i = 0 then ex_heap False else (ex_heap False)(3 := ex_event 4 TW_pe_pq False 7)),
          event_q := [], gvt_status := True, trans_msg_sig := g_tw_max_sig, GVT_prev_sig := g_tw_max_sig\<rparr>)
       (net_pe.fields [] (init_q ''MPI send queue'' 1)
          \<lparr>act_name = ''MPI recv queue'', event_list = [Some 8], req_list = [Some False], cur = 1\<rparr>
          (if i = 0 then 0 else 1) 0 (\<lambda>_. AVL_EMPTY) 4 0 []))
     (gvt_pe.fields 0 0 0)"

lemma ex_gmpi_ok: "net_mpi (\<lambda>r. r) ex_flight ex_gnc"
proof -
  have l: "length (takeWhile (\<lambda>r. r \<noteq> Some False) rs) < length rs \<and> rs ! length (takeWhile (\<lambda>r. r \<noteq> Some False) rs) = Some False"
    if "Some False \<in> set rs" for rs :: "bool option list"
    using that by (induction rs) auto
  have "mpi_ok (\<lambda>r. r) (ex_gmpi i)" for i
    unfolding mpi_ok_def
  proof (intro conjI allI)
    fix rs :: "bool option list" and w :: "(nat \<times> (tw_bf, int) pevent) list"
    show "\<exists>ready w'. MPI_Testsome (ex_gmpi i) rs w = Some (ready, w') \<and> distinct (map fst ready) \<and>
        (\<forall>(j, x) \<in> set ready. j < length rs \<and> (\<forall>r. rs ! j = Some r \<longrightarrow> r \<longrightarrow> x = None))"
      using l[of rs] by (cases w) (auto simp: ex_gmpi_def Let_def o_def)
  qed (auto simp: ex_gmpi_def intro: exI[of _ True])
  moreover have "mpi_flow (\<lambda>r. r) ex_flight (ex_gmpi i)" for i
    unfolding mpi_flow_def
  proof (intro conjI allI impI)
    fix rs w ready w' assume t: "MPI_Testsome (ex_gmpi i) rs w = Some (ready, w')"
    have d: "delivered (map (\<lambda>j. (j, None)) xs) = {#}" for xs :: "nat list" by (simp add: delivered_def)
    have d1: "delivered ((k, Some e) # r) = add_mset e (delivered r)" for k :: nat and e :: "(tw_bf, int) pevent" and r
      by (simp add: delivered_def)
    show "ex_flight w = ex_flight w' + delivered ready"
      using t by (auto simp: ex_gmpi_def Let_def ex_flight_def d d1 split: list.splits if_splits)
    show "\<forall>(j, x) \<in> set ready. \<forall>r. rs ! j = Some r \<longrightarrow> \<not> r \<longrightarrow> x \<noteq> None"
      using t by (auto simp: ex_gmpi_def Let_def split: list.splits if_splits)
  qed (auto simp: ex_gmpi_def ex_flight_def)
  ultimately show ?thesis by (simp add: net_mpi_def ex_gnc_def)
qed

lemma ex_gpe_sel [simp]:
  "heap (ex_gpe 0) = ex_heap False" "heap (ex_gpe (Suc 0)) = (ex_heap False)(3 := ex_event 4 TW_pe_pq False 7)"
  "outq (ex_gpe i) = []" "posted_sends (ex_gpe i) = init_q ''MPI send queue'' 1"
  "posted_recvs (ex_gpe i) = \<lparr>act_name = ''MPI recv queue'', event_list = [Some 8], req_list = [Some False], cur = 1\<rparr>"
  "pq (ex_gpe i) = pq (ex_pe False)" "cancel_q (ex_gpe i) = []" "event_q (ex_gpe i) = []" "kps (ex_gpe i) = kps (ex_pe False)"
  "GVT_sig (ex_gpe i) = ex_sig 0" "gvt_status (ex_gpe i)" "avl_tree (ex_gpe i) k = AVL_EMPTY" "avl_nodes (ex_gpe i) = 4"
  "free_q (ex_gpe i) = [4]" "trans_msg_sig (ex_gpe i) = g_tw_max_sig" "GVT_prev_sig (ex_gpe i) = g_tw_max_sig"
  "s_nwhite_sent (ex_gpe i) = (if i = 0 then 0 else 1)" "s_nwhite_recv (ex_gpe i) = 0"
  "hook_trigger (ex_gpe i) = \<lparr>hook_status = GVT_HOOK_STATUS_disabled, sig_at = ex_sig 0, starting_at = 0, nums = 0\<rparr>"
  "avl_tree_size (ex_gpe i) = 0" "gvt_no_change (ex_gpe i) = 0"
  by (simp_all add: ex_gpe_def gvt_pe.defs net_pe.defs tw_pe.defs) (simp_all add: ex_pe_def)

definition ex_sig_of :: "real \<times> real \<times> 32 word \<times> nat \<Rightarrow> tw_event_sig" where
  "ex_sig_of = (\<lambda>(t, _). ex_sig t)"

abbreviation ex_w :: "(nat \<times> (tw_bf, int) pevent) list" where
  "ex_w \<equiv> [(0, ex_remote False)]"

lemma ex_gvt_ready: "gvt_ready (\<lambda>_. {0..9}) (\<lambda>r. r) ex_sig_of ex_flight ex_gc ex_gnc [ex_gpe 0, ex_gpe 1] ex_w"
proof -
  have h: "held (ex_gpe i) = {3}" "waiting (ex_gpe i) = [8]" "outgoing (ex_gpe i) = []" "in_transit (ex_gpe i) = []" for i
    by (simp_all add: held_def waiting_def outgoing_def in_transit_def contents_def init_q_def)
  have q: "pq_inv (key_at (heap (ex_gpe i))) (wf_at (heap (ex_gpe i))) (pq (ex_pe False))" if "i < 2" for i
    using that by (auto simp: less_2_cases_iff pq_inv_def contents_def wf_at_def ex_heap_def)
  have "good_event ex_sig_of (heap (ex_gpe i) 3)" if "i < 2" for i
    using that by (auto simp: less_2_cases_iff good_event_def ex_sig_of_def avl_key_def ex_heap_def)
  then have "rank_ok (\<lambda>_. {0..9}) (\<lambda>r. r) ex_sig_of ex_gc ex_gnc i (ex_gpe i)" if "i < 2" for i
    using that q by (simp add: rank_ok_def net_inv_def bufs_ok_def events_ok_def noted_def recvs_ok_def sends_inv_def Let_def h
        ex_gnc_def full_q_def init_q_def exI[of Not False])
  moreover have "good_event ex_sig_of (ex_remote False)"
    by (simp add: good_event_def ex_sig_of_def avl_key_def ex_remote_def)
  ultimately show ?thesis using ex_gmpi_ok
    by (simp add: gvt_ready_def ex_flight_def hook_wf_def local_white_def)
qed

lemma ex_nets [simp]:
  "read_buffer (ex_gnc i) = 1" "send_buffer (ex_gnc i) = 1" "world_size (ex_gnc i) = 2" "net_fuel (ex_gnc i) = 3" "the_mpi (ex_gnc i) = ex_gmpi i"
  "MPI_Testsome (ex_gmpi i) [Some False] [] = Some ([], [])"
  "MPI_Testsome (ex_gmpi i) [Some False] ex_w = (if i = 0 then Some ([(0, Some (ex_remote False))], []) else Some ([], ex_w))"
  "MPI_Irecv (ex_gmpi i) w = Some (False, w)"
  by (simp_all add: ex_gnc_def ex_gmpi_def)

lemma ex_gc_sel [simp]:
  "kp_of (ex_gc i) k = k" "local_lp (ex_gc i) 0 = 0" "protocol (ex_gc i) = OPTIMISTIC" "nkp (ex_gc i) = 1" "has_hook (ex_gc i) = False"
  "commit_h (ex_gc i) = Some (\<lambda>_ s _ _. s)"
  by (simp_all add: ex_gc_def ex_config_def) (simp_all add: phold_config_def)

lemma ex_read1: "tw_net_read (ex_gc (Suc 0)) (ex_gnc (Suc 0)) ((ex_gpe (Suc 0))\<lparr>world := []\<rparr>) = Inr ((ex_gpe (Suc 0))\<lparr>world := []\<rparr>)"
  by (simp add: tw_net_read_def numeral_3_eq_3 test_q_def recv_begin_def send_begin_def init_q_def)

definition ex_gheap :: "addr \<Rightarrow> (tw_bf, int) pevent" where
  "ex_gheap = (ex_heap False)(8 := (ex_remote False)\<lparr>st_remote := True, qowner := TW_pe_pq\<rparr>)"

definition ex_got :: "(bool act_q \<Rightarrow> bool act_q) \<Rightarrow> (phold_state, tw_bf, int, bool, (nat \<times> (tw_bf, int) pevent) list) gvt_pe" where
  "ex_got f = (posted_recvs_update f ((ex_gpe 0)\<lparr>world := []\<rparr>))\<lparr>s_nwhite_recv := 1,
     trans_msg_sig := tw_copy_event_sig g_tw_max_sig (ex_sig (11 / 2)), avl_tree_size := 1,
     avl_tree := (avl_tree (ex_gpe 0))(0 := AvlNode AVL_EMPTY 8 (Suc 0) AVL_EMPTY), avl_nodes := 3, heap := ex_gheap,
     pq := \<lparr>root = node_of (Node Leaf 3 Leaf, 8, Leaf), least = Some 3, nitems = 2, max_size = 2\<rparr>\<rparr>"

lemma ex_below_max: "t < 1000 \<Longrightarrow> sig_key (ex_sig t) < sig_key g_tw_max_sig"
  by (rule sig_key_below_max) (simp add: DBL_MAX_def)

lemma ex_recv:
  "recv_finish (ex_gc 0) (ex_gnc 0) 8 (posted_recvs_update f ((ex_gpe 0)\<lparr>world := [], heap := (ex_heap False)(8 := ex_remote False)\<rparr>)) =
   Inr (ex_got f)"
proof -
  have lt: "lt_rand ex_gheap 3 8 = Some True"
    by (simp add: ex_gheap_def ex_remote_def ex_heap_def key_at_def rand_key_def less_prod_def ex_event_def lt_rand_def
        tw_pq_compare_less_than_rand_def tw_event_sig_compare_ptr_key)
  have hp: "((ex_heap False)(8 := ex_event 9 TW_net_asend False (11 / 2)
      \<lparr>send_pe := Suc 0, dest_lp := 0, caused_by_me := [], st_remote := True, qowner := TW_pe_pq\<rparr>)) = ex_gheap"
    by (simp add: ex_gheap_def ex_remote_def ex_event_def)
  show ?thesis using less_imp_le[OF ex_below_max[of "11 / 2"]]
    by (simp add: recv_finish_def Let_def upd_ev_def note_transient_def tw_hash_insert_def pq_enqueue_def ex_remote_def avl_alloc_def
        tw_event_sig_compare_ptr_key not_less tw_gvt_inprogress_def tw_pq_enqueue_def hp lt new_least_def ex_got_def)
qed

definition ex_s1 :: "(phold_state, tw_bf, int, bool, (nat \<times> (tw_bf, int) pevent) list) gvt_pe" where
  "ex_s1 = posted_recvs_update ((\<lambda>v. v\<lparr>cur := cur v - Suc 0\<rparr>) \<circ> (\<lambda>v. collapse_loop (cur v) 0 0 v))
     (ex_got (\<lambda>v. v\<lparr>event_list := (event_list v)[0 := None]\<rparr>))"

lemma ex_s1_sel [simp]:
  "posted_recvs ex_s1 = \<lparr>act_name = ''MPI recv queue'', event_list = [None], req_list = [Some False], cur = 0\<rparr>" "world ex_s1 = []"
  "posted_sends ex_s1 = init_q ''MPI send queue'' 1" "outq ex_s1 = []" "free_q ex_s1 = [4]" "heap ex_s1 = ex_gheap"
  "pq ex_s1 = \<lparr>root = Node (Node Leaf 3 Leaf) 8 Leaf, least = Some 3, nitems = 2, max_size = 2\<rparr>"
  "kps ex_s1 = kps (ex_pe False)" "trans_msg_sig ex_s1 = tw_copy_event_sig g_tw_max_sig (ex_sig (11 / 2))" "GVT_sig ex_s1 = ex_sig 0"
  "GVT_prev_sig ex_s1 = g_tw_max_sig" "avl_tree ex_s1 k = (if k = 0 then AvlNode AVL_EMPTY 8 1 AVL_EMPTY else AVL_EMPTY)"
  "hook_trigger ex_s1 = \<lparr>hook_status = GVT_HOOK_STATUS_disabled, sig_at = ex_sig 0, starting_at = 0, nums = 0\<rparr>"
  "s_nwhite_sent ex_s1 = 0" "s_nwhite_recv ex_s1 = 1" "gvt_no_change ex_s1 = 0"
  by (simp_all add: ex_s1_def ex_got_def node_of_def)

definition ex_m0 :: "(phold_state, tw_bf, int, bool, (nat \<times> (tw_bf, int) pevent) list) gvt_pe" where
  "ex_m0 = ex_s1\<lparr>free_q := [], heap := ex_gheap(4 := (ex_gheap 4)\<lparr>caused_by_me := [], qowner := No_owner, st_cancel_q := False,
       st_cancel_asend := False, st_remote := False, event_id := 0\<rparr>),
     posted_recvs := \<lparr>act_name = ''MPI recv queue'', event_list = [Some 4], req_list = [Some False], cur = 1\<rparr>, world := []\<rparr>"

lemma ex_read0: "tw_net_read (ex_gc 0) (ex_gnc 0) ((ex_gpe 0)\<lparr>world := ex_w\<rparr>) = Inr ex_m0"
proof -
  have t: "test_q (ex_gnc 0) posted_recvs posted_recvs_update (recv_finish (ex_gc 0) (ex_gnc 0)) ((ex_gpe 0)\<lparr>world := ex_w\<rparr>) = Inr (True, ex_s1)"
    by (simp add: test_q_def upd_ev_def ex_recv ex_s1_def)
  show ?thesis
    by (simp add: tw_net_read_def numeral_3_eq_3 t)
      (simp add: test_q_def recv_begin_def send_begin_def init_q_def upd_ev_def tw_event_grab_def ex_m0_def)
qed

lemma ex_m0_sel [simp]:
  "world ex_m0 = []" "outq ex_m0 = []" "posted_sends ex_m0 = init_q ''MPI send queue'' 1"
  "pq ex_m0 = \<lparr>root = Node (Node Leaf 3 Leaf) 8 Leaf, least = Some 3, nitems = 2, max_size = 2\<rparr>"
  "kps ex_m0 = kps (ex_pe False)" "trans_msg_sig ex_m0 = tw_copy_event_sig g_tw_max_sig (ex_sig (11 / 2))" "GVT_sig ex_m0 = ex_sig 0"
  "GVT_prev_sig ex_m0 = g_tw_max_sig" "avl_tree ex_m0 k = (if k = 0 then AvlNode AVL_EMPTY 8 1 AVL_EMPTY else AVL_EMPTY)"
  "hook_trigger ex_m0 = \<lparr>hook_status = GVT_HOOK_STATUS_disabled, sig_at = ex_sig 0, starting_at = 0, nums = 0\<rparr>"
  "s_nwhite_sent ex_m0 = 0" "s_nwhite_recv ex_m0 = 1" "gvt_no_change ex_m0 = 0"
  "heap ex_m0 8 = (ex_remote False)\<lparr>st_remote := True, qowner := TW_pe_pq\<rparr>"
  "heap ex_m0 0 = ex_event 1 TW_kp_pevent_q False 2" "heap ex_m0 (Suc 0) = ex_event 2 TW_kp_pevent_q False 4"
  "heap ex_m0 3 = ex_event 4 TW_pe_pq False 5"
  by (simp_all add: ex_m0_def ex_gheap_def ex_heap_def)

definition ex_done :: "(phold_state, tw_bf, int, bool, (nat \<times> (tw_bf, int) pevent) list) gvt_pe list" where
  "ex_done = map (\<lambda>me. me\<lparr>all_reduce_cnt := all_reduce_cnt me + 1\<rparr>) [ex_m0, (ex_gpe 1)\<lparr>world := []\<rparr>]"

lemma ex_white: "white_loop 1 ex_gc ex_gnc [ex_gpe 0, ex_gpe 1] ex_w = Inr (ex_done, [])"
  by (simp add: ex_read0 ex_read1 local_white_def ex_done_def)

lemma copy_sig_length: "tie_lineage_length (tw_copy_event_sig a b) = tie_lineage_length b" "tie_lineage_length (ex_sig t) = 1"
  by (simp_all add: tw_copy_event_sig_def ex_sig_def)

lemma ex_lvts:
  "sig_key (gvt_lvt (ex_gc 0) (ex_sig 0) (ex_done ! 0)) = sig_key (ex_sig 5) \<and>
   tie_lineage_length (gvt_lvt (ex_gc 0) (ex_sig 0) (ex_done ! 0)) = 1"
  "sig_key (gvt_lvt (ex_gc (Suc 0)) (ex_sig 0) (ex_done ! Suc 0)) = sig_key (ex_sig 7) \<and>
   tie_lineage_length (gvt_lvt (ex_gc (Suc 0)) (ex_sig 0) (ex_done ! Suc 0)) = 1"
  using ex_below_max[of 5, THEN less_not_sym] ex_below_max[of 7, THEN less_not_sym] ex_below_max[of 5, THEN less_imp_neq]
    ex_below_max[of 7, THEN less_imp_neq]
  by (simp_all add: gvt_lvt_def Let_def ex_done_def tw_net_minimum_sig_ptr_def tw_pq_minimum_sig_ptr_def posted_def init_q_def
      tw_event_sig_compare_ptr_key copy_sig_length)

lemma ex_gvt: "\<exists>g. reduce_sigs (lvts ex_gc (\<lambda>_. ex_sig 0) ex_done) = Inr g \<and> wf_sig g \<and> sig_key g = sig_key (ex_sig 5)"
proof -
  let ?a = "gvt_lvt (ex_gc 0) (ex_sig 0) (ex_done ! 0)" and ?b = "gvt_lvt (ex_gc (Suc 0)) (ex_sig 0) (ex_done ! Suc 0)"
  have l: "lvts ex_gc (\<lambda>_. ex_sig 0) ex_done = [?a, ?b]" by (simp add: lvts_def) (simp add: ex_done_def upt_rec numeral_2_eq_2)
  have wf: "wf_sig ?a" "wf_sig ?b"
    by (simp_all add: gvt_lvt_def Let_def ex_done_def tw_net_minimum_sig_ptr_def tw_pq_minimum_sig_ptr_def posted_def init_q_def)
  obtain g where "find_min_sig1 ?a ?b = Inr g" "wf_sig g" "sig_key g = min (sig_key ?a) (sig_key ?b)"
    using find_min_sig1_ok[OF wf] ex_lvts by (auto simp: MAX_TIE_CHAIN_def)
  then show ?thesis using ex_lvts by (simp add: l min_def)
qed

lemma ex_stored: "stored (ex_gc 0) {0, Suc 0} (ex_done ! 0)" "stored (ex_gc (Suc 0)) {0, Suc 0} (ex_done ! Suc 0)"
  by (simp_all add: stored_def ex_done_def store_ok_def) (simp_all add: ex_heap_def ex_event_def)

lemma ex_commits:
  assumes g: "wf_sig g" "sig_key g = sig_key (ex_sig 5)"
  shows "\<exists>mes. commit_all ex_gc g 0 ex_done = Inr mes"
proof -
  have c: "\<exists>me'. gvt_commit (ex_gc i) g (ex_done ! i) = Inr me'" if i: "i < 2" for i
  proof (rule gvt_commit_returns)
    show "stored (ex_gc i) (set (all_processed (ex_done ! i) [0..<nkp (ex_gc i)])) (ex_done ! i)"
      using i ex_stored by (auto simp: less_2_cases_iff all_processed_def ex_done_def insert_commute)
    show "\<forall>k < nkp (ex_gc i). kp_sorted (ex_done ! i) k"
      using i by (auto simp: less_2_cases_iff kp_sorted_def ex_done_def) (simp_all add: ex_heap_def)
  qed (use i g ex_below_max[of 5] in \<open>auto simp: less_2_cases_iff ex_done_def all_processed_def\<close>)
  obtain m0 where m0: "gvt_commit (ex_gc 0) g (ex_done ! 0) = Inr m0" using c[of 0] by auto
  obtain m1 where m1: "gvt_commit (ex_gc (Suc 0)) g (ex_done ! Suc 0) = Inr m1" using c[of "Suc 0"] by auto
  have d: "ex_done = [ex_done ! 0, ex_done ! Suc 0]" by (simp add: ex_done_def)
  show ?thesis by (subst d) (simp add: m0 m1 del: nth.simps)
qed

lemma ex_step: "\<exists>mes. tw_gvt_step2 1 ex_gc ex_gnc (\<lambda>_. ex_sig 0) [ex_gpe 0, ex_gpe 1] ex_w = Inr (mes, [])"
proof -
  obtain g where g: "reduce_sigs (lvts ex_gc (\<lambda>_. ex_sig 0) ex_done) = Inr g" "wf_sig g" "sig_key g = sig_key (ex_sig 5)"
    using ex_gvt by blast
  obtain mes where "commit_all ex_gc g 0 ex_done = Inr mes" using ex_commits[OF g(2,3)] by blast
  then show ?thesis using g(1) ex_white by (simp add: tw_gvt_step2_def)
qed

theorem gvt_safe_witness:
  "\<exists>m0 m1. tw_gvt_step2 1 ex_gc ex_gnc (\<lambda>_. ex_sig 0) [ex_gpe 0, ex_gpe 1] ex_w = Inr ([m0, m1], []) \<and>
    tw_event_sig_compare_ptr (GVT_sig m0) (GVT_sig m1) = 0"
proof -
  obtain mes where st: "tw_gvt_step2 1 ex_gc ex_gnc (\<lambda>_. ex_sig 0) [ex_gpe 0, ex_gpe 1] ex_w = Inr (mes, [])" using ex_step by blast
  have l: "length (event_tiebreaker (ex_sig 0)) = MAX_TIE_CHAIN" by (simp add: ex_sig_def)
  have "length mes = 2 \<and> (\<forall>m1 \<in> set mes. \<forall>m2 \<in> set mes. tw_event_sig_compare_ptr (GVT_sig m1) (GVT_sig m2) = 0)"
    using gvt_safe[OF ex_gvt_ready _ _ _ st] l by auto
  then show ?thesis using st by (auto simp: numeral_2_eq_2 length_Suc_conv)
qed

section \<open>Fossil collection\<close>

text \<open>
  C2: fossil collection releases exactly the events before GVT. When a PE adopts a GVT that is not
  before its old one, and the event store holds the processed events that came from other PEs, the
  step succeeds, GVT is the new one, and every KP keeps exactly the processed events that are not
  before it, in their order, so that everything a later straggler can roll back is still there. The
  buffers of the others, and those of the events they had sent to other PEs, are in the list of free
  buffers, each once, next to what was there, and no other buffer; the content of all other buffers is
  as before.
\<close>

theorem fossils_are_before_gvt:
  fixes me :: "('st, 'bf, 'm, 'r, 'w, 'z) gvt_pe_scheme"
  assumes wf: "wf_sig g" "wf_sig (GVT_prev_sig me)" "wf_sig (GVT_sig me)"
    and g: "tw_event_sig_compare_ptr (GVT_sig me) g \<le> 0" "tw_event_sig_compare_ptr g (GVT_prev_sig me) < 0"
    and f: "stored c (set (all_processed me [0..<nkp c])) me" "\<forall>k < nkp c. kp_sorted me k"
    and q: "distinct (all_processed me [0..<nkp c] @ free_q me)"
      "\<forall>a \<in> set (all_processed me [0..<nkp c] @ free_q me). qowner (heap me a) \<noteq> TW_pe_sevent_q"
    and p: "protocol c = OPTIMISTIC \<or> protocol c = OPTIMISTIC_REALTIME"
  shows "\<exists>me'. gvt_commit c g me = Inr me' \<and> tw_event_sig_compare_ptr (GVT_sig me') g = 0 \<and> gvt_status me' = False \<and>
    unprocessed me' = unprocessed me \<and>
    (\<forall>k < nkp c. pevent_q (kps me' k) = filter (\<lambda>a. tw_event_sig_compare_ptr (qsig (heap me a)) g \<ge> 0) (pevent_q (kps me k))) \<and>
    released {a \<in> set (all_processed me [0..<nkp c]). tw_event_sig_compare_ptr (qsig (heap me a)) g < 0} me me'"
proof -
  have k: "sig_key (GVT_sig me) \<le> sig_key g" "sig_key g < sig_key (GVT_prev_sig me)"
    using g wf by (simp_all add: tw_event_sig_compare_ptr_key not_less split: if_splits)
  obtain me' where r: "gvt_commit c g me = Inr me'" using gvt_commit_returns[OF wf k f(1) _ f(2)] q(1) by auto
  note e = gvt_commit_ok[OF r wf]
  have gk: "sig_key (GVT_sig me') = sig_key g" using e(2) k(2) by simp
  have "pevent_q (kps me' j) = filter (\<lambda>a. tw_event_sig_compare_ptr (qsig (heap me a)) g \<ge> 0) (pevent_q (kps me j))" if "j < nkp c" for j
  proof -
    have "wf_sig (qsig (heap me a))" if "a \<in> set (pevent_q (kps me j))" for a
      using f(2) \<open>j < nkp c\<close> that by (simp add: kp_sorted_def)
    then show ?thesis using e(7)[OF p f(2) that] wf(1)
      by (auto simp: kept_events_def gk tw_event_sig_compare_ptr_key not_less intro!: filter_cong)
  qed
  moreover have "released {a \<in> set (all_processed me [0..<nkp c]). tw_event_sig_compare_ptr (qsig (heap me a)) g < 0} me me'"
  proof -
    have w: "wf_sig (qsig (heap me a))" if "a \<in> set (all_processed me [0..<nkp c])" for a
      using f(2) that by (auto simp: all_processed_def kp_sorted_def)
    have "free_pool me" using q by (simp add: free_pool_def)
    then have "released (old_events me (GVT_sig me') [0..<nkp c]) me me'"
      using q by (intro gvt_commit_released[OF r wf p f(2)]) simp_all
    moreover have "old_events me (GVT_sig me') [0..<nkp c] =
        {a \<in> set (all_processed me [0..<nkp c]). tw_event_sig_compare_ptr (qsig (heap me a)) g < 0}"
      using w wf(1) by (auto simp: old_events_def gk tw_event_sig_compare_ptr_key)
    ultimately show ?thesis by simp
  qed
  ultimately show ?thesis using r e(1,4,6) gk wf(1) by (auto simp: tw_event_sig_compare_ptr_key)
qed

theorem fossils_are_before_gvt_witness:
  "\<exists>me'. gvt_commit (ex_gc 0) (ex_sig 3) (ex_gpe 0) = Inr me' \<and> pevent_q (kps me' 0) = [1] \<and> set (free_q me') = {4, 0}"
proof -
  have "stored (ex_gc 0) {0, Suc 0} (ex_gpe 0)" by (simp add: stored_def store_ok_def) (simp add: ex_heap_def ex_event_def)
  then have st: "stored (ex_gc 0) (set (all_processed (ex_gpe 0) [0..<nkp (ex_gc 0)])) (ex_gpe 0)"
    by (simp add: all_processed_def insert_commute)
  have so: "\<forall>k < nkp (ex_gc 0). kp_sorted (ex_gpe 0) k" by (simp add: kp_sorted_def) (simp add: ex_heap_def)
  have di: "distinct (all_processed (ex_gpe 0) [0..<nkp (ex_gc 0)] @ free_q (ex_gpe 0))" by (simp add: all_processed_def)
  have ow: "\<forall>a \<in> set (all_processed (ex_gpe 0) [0..<nkp (ex_gc 0)] @ free_q (ex_gpe 0)). qowner (heap (ex_gpe 0) a) \<noteq> TW_pe_sevent_q"
    by (simp add: all_processed_def) (simp add: ex_heap_def ex_event_def)
  have "\<exists>me'. gvt_commit (ex_gc 0) (ex_sig 3) (ex_gpe 0) = Inr me' \<and> tw_event_sig_compare_ptr (GVT_sig me') (ex_sig 3) = 0 \<and>
    gvt_status me' = False \<and> unprocessed me' = unprocessed (ex_gpe 0) \<and> (\<forall>k < nkp (ex_gc 0). pevent_q (kps me' k) =
      filter (\<lambda>a. tw_event_sig_compare_ptr (qsig (heap (ex_gpe 0) a)) (ex_sig 3) \<ge> 0) (pevent_q (kps (ex_gpe 0) k))) \<and>
    released {a \<in> set (all_processed (ex_gpe 0) [0..<nkp (ex_gc 0)]). tw_event_sig_compare_ptr (qsig (heap (ex_gpe 0) a)) (ex_sig 3) < 0}
      (ex_gpe 0) me'"
    by (rule fossils_are_before_gvt[OF _ _ _ _ _ st so di ow]) (use ex_below_max[of 3] in \<open>simp_all add: tw_event_sig_compare_ptr_key\<close>)
  moreover have "{a \<in> set (all_processed (ex_gpe 0) [0..<nkp (ex_gc 0)]). tw_event_sig_compare_ptr (qsig (heap (ex_gpe 0) a)) (ex_sig 3) < 0} = {0}"
    by (auto simp: all_processed_def) (simp_all add: ex_heap_def tw_event_sig_compare_ptr_key)
  moreover have "sent_by {0} (ex_heap False) = {}" by (auto simp: sent_by_def ex_heap_def ex_event_def)
  ultimately show ?thesis by (auto simp: released_def tw_event_sig_compare_ptr_key ex_heap_def)
qed

end
