(* ===== verification/Schedulers.thy ===== *)
theory Schedulers
  imports Gvt
begin

text \<open>
  The schedulers of \<open>core/tw-sched.c\<close>: the sequential one, the one that checks every rollback
  (with \<open>core/check-revent/crv-state.c\<close>), the optimistic debug scheduler and the parallel ones,
  conservative, optimistic and optimistic in real time. Statistics, printing and the model's
  \<open>final\<close> function are left out.
\<close>

section \<open>The GVT hook of the sequential schedulers\<close>

text \<open>\<open>PQ_MINUMUM\<close> and \<open>CMP_GVT_HOOK_TO_NEXT_IN_QUEUE\<close>\<close>

definition pq_minimum_ts :: "('st, 'bf, 'm, 'z) tw_pe_scheme \<Rightarrow> real" where
  "pq_minimum_ts me = recv_ts (tw_pq_minimum_sig_ptr (heap me) (pq me))"

definition cmp_hook_to_next :: "('st, 'bf, 'm, 'z) tw_pe_scheme \<Rightarrow> int" where
  "cmp_hook_to_next me = tw_event_sig_compare_ptr (sig_at (hook_trigger me)) (tw_pq_minimum_sig_ptr (heap me) (pq me))"

definition tw_gvt_hook_step_seq :: "('st, 'bf, 'm) config
    \<Rightarrow> (bool \<Rightarrow> ('st, 'bf, 'm, 'z) tw_pe_scheme \<Rightarrow> ('st, 'bf, 'm, 'z) tw_pe_scheme)
    \<Rightarrow> ('st, 'bf, 'm, 'z) pe_step" where
  "tw_gvt_hook_step_seq c hook me =
     (let t = hook_trigger me; st = hook_status t in
      if has_hook c \<and> st \<noteq> GVT_HOOK_STATUS_disabled then
        if st \<noteq> GVT_HOOK_STATUS_timestamp \<and> st \<noteq> GVT_HOOK_STATUS_model_call
        then Inr (me\<lparr>hook_trigger := t\<lparr>hook_status := GVT_HOOK_STATUS_disabled\<rparr>\<rparr>)
        else
          let triggered = (if st = GVT_HOOK_STATUS_timestamp
                then cmp_hook_to_next me \<le> 0 \<or> tw_pq_get_size (pq me) = 0
                else cmp_hook_to_next me < 0)
          in if \<not> triggered then Inr me
             else
               let me = me\<lparr>GVT_sig := tw_copy_event_sig (GVT_sig me) (sig_at t)\<rparr> in
               if tw_event_sig_compare_ptr (GVT_sig me) (tw_pq_minimum_sig_ptr (heap me) (pq me)) \<le> 0 then
                 let t = (if st = GVT_HOOK_STATUS_timestamp then t\<lparr>hook_status := GVT_HOOK_STATUS_disabled\<rparr>
                          else t\<lparr>sig_at := tw_copy_event_sig (sig_at t) g_tw_max_sig\<rparr>);
                     me = me\<lparr>hook_trigger := t\<rparr>;
                     past_end_time = pq_minimum_ts me > ts_end c
                 in Inr (hook past_end_time me)
               else Inl (Assertion ''tw_event_sig_compare_ptr(&me->GVT_sig, tw_pq_minimum_sig_ptr(me->pq)) <= 0'')
      else Inr me)"

section \<open>The sequential scheduler\<close>

text \<open>The event just dequeued becomes the current one and sets the time of its KP.\<close>

definition begin_event :: "('st, 'bf, 'm) config \<Rightarrow> addr \<Rightarrow> ('st, 'bf, 'm, 'z) tw_pe_scheme \<Rightarrow> ('st, 'bf, 'm, 'z) tw_pe_scheme" where
  "begin_event c a me =
     (let k = kp_of c (dest_lp (heap me a));
          me = me\<lparr>cur_event := a\<rparr>;
          me = set_last_sig k (tw_copy_event_sig (last_sig (kps me k)) (qsig (heap me a))) me
      in upd_ev a (\<lambda>v. v\<lparr>cv := bf0 c\<rparr>) me)"

text \<open>\<open>clp->critical_path = ROSS_MAX(clp->critical_path, cev->critical_path)+1\<close>\<close>

definition advance_critical_path :: "addr \<Rightarrow> ('st, 'bf, 'm, 'z) tw_pe_scheme \<Rightarrow> ('st, 'bf, 'm, 'z) tw_pe_scheme" where
  "advance_critical_path a me =
     upd_lp (dest_lp (heap me a)) (\<lambda>l. l\<lparr>lp_critical_path := max (lp_critical_path l) (critical_path (heap me a)) + 1\<rparr>) me"

text \<open>The commit handler, where the type of the LP has one.\<close>

definition run_commit :: "('st, 'bf, 'm) config \<Rightarrow> nat \<Rightarrow> addr \<Rightarrow> ('st, 'bf, 'm, 'z) tw_pe_scheme \<Rightarrow> ('st, 'bf, 'm, 'z) tw_pe_scheme" where
  "run_commit c lp a me =
     (case commit_h c of
        None \<Rightarrow> me
      | Some f \<Rightarrow> upd_lp lp (\<lambda>l. l\<lparr>cur_state := f lp (cur_state l) (cv (heap me a)) (msg (heap me a))\<rparr>) me)"

definition count_processed :: "nat \<Rightarrow> nat \<Rightarrow> ('st, 'bf, 'm, 'z) tw_pe_scheme \<Rightarrow> ('st, 'bf, 'm, 'z) tw_pe_scheme" where
  "count_processed k n me = upd_kp k (\<lambda>kp. kp\<lparr>s_nevent_processed := s_nevent_processed kp + n\<rparr>) me"

definition no_memory :: ross_error where
  "no_memory = Tw_Error ''insufficient event memory''"

definition sequential_event :: "('st, 'bf, 'm) config \<Rightarrow> ('st, 'bf, 'm, 'z) tw_pe_scheme net_ops \<Rightarrow> addr
    \<Rightarrow> ('st, 'bf, 'm, 'z) pe_step" where
  "sequential_event c net a me =
     (let lp = dest_lp (heap me a); k = kp_of c lp;
          me = advance_critical_path a (begin_event c a me) in
      ebind (run_event c net a me) (\<lambda>me.
        let me = run_commit c lp a me in
        if cev_abort me then Inl no_memory
        else Inr (tw_event_free a (count_processed k 1 me))))"

text \<open>
  One round of the loop; \<open>False\<close> leaves it. The event handler is a parameter: the scheduler that
  checks rollbacks has the same loop.
\<close>

definition sequential_round :: "('st, 'bf, 'm) config
    \<Rightarrow> (bool \<Rightarrow> ('st, 'bf, 'm, 'z) tw_pe_scheme \<Rightarrow> ('st, 'bf, 'm, 'z) tw_pe_scheme)
    \<Rightarrow> (addr \<Rightarrow> ('st, 'bf, 'm, 'z) pe_step)
    \<Rightarrow> ('st, 'bf, 'm, 'z) tw_pe_scheme \<Rightarrow> ross_error + (bool \<times> ('st, 'bf, 'm, 'z) tw_pe_scheme)" where
  "sequential_round c hook ev me =
     ebind (tw_gvt_hook_step_seq c hook me) (\<lambda>me.
       if pq_minimum_ts me > ts_end c then Inr (False, me)
       else ebind (pq_dequeue me) (\<lambda>(x, me).
         case x of None \<Rightarrow> Inr (False, me)
         | Some a \<Rightarrow> ebind (ev a me) (\<lambda>me. Inr (True, me))))"

fun sequential_loop :: "nat \<Rightarrow> ('st, 'bf, 'm) config
    \<Rightarrow> (bool \<Rightarrow> ('st, 'bf, 'm, 'z) tw_pe_scheme \<Rightarrow> ('st, 'bf, 'm, 'z) tw_pe_scheme)
    \<Rightarrow> (addr \<Rightarrow> ('st, 'bf, 'm, 'z) pe_step) \<Rightarrow> ('st, 'bf, 'm, 'z) pe_step" where
  "sequential_loop 0 c hook ev me = Inl Out_Of_Fuel"
| "sequential_loop (Suc n) c hook ev me =
     ebind (sequential_round c hook ev me) (\<lambda>(go, me). if go then sequential_loop n c hook ev me else Inr me)"

definition many_nodes :: ross_error where
  "many_nodes = Tw_Error ''Sequential Scheduler used for world size greater than 1.''"

definition tw_scheduler_sequential :: "nat \<Rightarrow> nat \<Rightarrow> ('st, 'bf, 'm) config
    \<Rightarrow> (bool \<Rightarrow> ('st, 'bf, 'm, 'z) tw_pe_scheme \<Rightarrow> ('st, 'bf, 'm, 'z) tw_pe_scheme)
    \<Rightarrow> ('st, 'bf, 'm, 'z) tw_pe_scheme net_ops \<Rightarrow> ('st, 'bf, 'm, 'z) pe_step" where
  "tw_scheduler_sequential fuel nnodes c hook net me =
     (if nnodes > 1 then Inl many_nodes else sequential_loop fuel c hook (sequential_event c net) me)"

section \<open>The scheduler that checks rollbacks\<close>

text \<open>
  A checkpointer of an LP (\<open>crv_checkpointer\<close>): \<open>save_lp\<close> and \<open>check_lps\<close> where the model gives
  them; the checkpoints are values of the type of the LP's state. \<open>save_lp\<close> is a function of the model:
  it tells how many bytes it stores into the checkpoint, and what they stand for.
\<close>

record 'st crv_checkpointer =
  lptype :: nat
  sz_storage :: nat
  save_lp :: "('st \<Rightarrow> nat \<times> 'st) option"
  check_lps :: "('st \<Rightarrow> 'st \<Rightarrow> bool) option"

text \<open>\<open>crv_init_checkpoints\<close>: the first checkpointer in the list for the type of each LP, and the size of the largest.\<close>

fun find_checkpointer :: "nat \<Rightarrow> 'st crv_checkpointer list \<Rightarrow> 'st crv_checkpointer option" where
  "find_checkpointer t [] = None"
| "find_checkpointer t (k # ks) = (if t = lptype k then Some k else find_checkpointer t ks)"

definition crv_init_checkpoints :: "nat list \<Rightarrow> 'st crv_checkpointer list \<Rightarrow> nat \<times> 'st crv_checkpointer option list" where
  "crv_init_checkpoints lptypes ks =
     (if ks = [] then (0, [])
      else let cs = map (\<lambda>t. find_checkpointer t ks) lptypes
           in (fold (\<lambda>k m. case k of None \<Rightarrow> m | Some k \<Rightarrow> if sz_storage k > m then sz_storage k else m) cs 0, cs))"

definition get_chkpntr :: "'st crv_checkpointer option list \<Rightarrow> nat \<Rightarrow> 'st crv_checkpointer option" where
  "get_chkpntr cs lp = (if cs = [] then None else cs ! lp)"

record 'st crv_lpstate =
  saved_state :: 'st
  saved_core_rng :: tw_rng_stream

text \<open>
  A store of \<open>n\<close> bytes from the start of a buffer of \<open>cap\<close> bytes, as \<open>memcpy\<close> makes it.
\<close>

definition write_buf :: "nat \<Rightarrow> nat \<Rightarrow> 'a \<Rightarrow> ross_error + 'a" where
  "write_buf cap n v = (if n > cap then Inl Bad_Pointer else Inr v)"

text \<open>
  The copy goes into a buffer of \<open>buf\<close> bytes; \<open>szs\<close> are the sizes of the states of the LPs.
\<close>

definition crv_copy_lpstate :: "nat \<Rightarrow> nat list \<Rightarrow> 'st crv_checkpointer option list \<Rightarrow> nat \<Rightarrow> 'st tw_lp
    \<Rightarrow> ross_error + 'st crv_lpstate" where
  "crv_copy_lpstate buf szs cs lp l =
     ebind (case Option.bind (get_chkpntr cs lp) save_lp of
         Some f \<Rightarrow> let (n, v) = f (cur_state l) in write_buf buf n v
       | None \<Rightarrow> write_buf buf (szs ! lp) (cur_state l))
       (\<lambda>v. Inr \<lparr>saved_state = v, saved_core_rng = core_rng l\<rparr>)"

text \<open>An inconsistency is reported and ends the program.\<close>

definition crv_check_lpstates :: "'st crv_checkpointer option list \<Rightarrow> nat \<Rightarrow> 'st tw_lp \<Rightarrow> 'st crv_lpstate \<Rightarrow> ross_error option" where
  "crv_check_lpstates cs lp l snap =
     (let state_equal = (case Option.bind (get_chkpntr cs lp) check_lps of
            None \<Rightarrow> saved_state snap = cur_state l
          | Some f \<Rightarrow> f (saved_state snap) (cur_state l))
      in if \<not> state_equal then Some (Tw_Error ''The state of the LP is not consistent when rollbacking!'')
         else if saved_core_rng snap \<noteq> core_rng l
         then Some (Tw_Error ''Random number generation `core_rng` did not rollback properly!'')
         else None)"

definition crv_check :: "'st crv_checkpointer option list \<Rightarrow> nat \<Rightarrow> 'st crv_lpstate \<Rightarrow> ('st, 'bf, 'm, 'z) pe_step" where
  "crv_check cs lp snap me =
     (case crv_check_lpstates cs lp (lps me lp) snap of None \<Rightarrow> Inr me | Some e \<Rightarrow> Inl e)"

definition count_rollback :: "nat \<Rightarrow> ('st, 'bf, 'm, 'z) tw_pe_scheme \<Rightarrow> ('st, 'bf, 'm, 'z) tw_pe_scheme" where
  "count_rollback k me = upd_kp k (\<lambda>kp. kp\<lparr>s_rb_total := s_rb_total kp + 1\<rparr>) me"

definition rollback_check_event :: "('st, 'bf, 'm) config \<Rightarrow> nat \<Rightarrow> nat list \<Rightarrow> 'st crv_checkpointer option list
    \<Rightarrow> ('st, 'bf, 'm, 'z) tw_pe_scheme net_ops \<Rightarrow> addr \<Rightarrow> ('st, 'bf, 'm, 'z) pe_step" where
  "rollback_check_event c buf szs cs net a me =
     (let lp = dest_lp (heap me a); k = kp_of c lp;
          me = advance_critical_path a (begin_event c a me) in
      ebind (crv_copy_lpstate buf szs cs lp (lps me lp)) (\<lambda>prev.
      ebind (run_event c net a me) (\<lambda>me.
        if cev_abort me then Inl no_memory
        else
          ebind (crv_copy_lpstate buf szs cs lp (lps me lp)) (\<lambda>cur.
          ebind (tw_event_rollback c net a me) (\<lambda>me.
          ebind (crv_check cs lp prev me) (\<lambda>me.
          ebind (run_event c net a me) (\<lambda>me.
          ebind (crv_check cs lp cur (run_commit c lp a me)) (\<lambda>me.
            if cev_abort me then Inl no_memory
            else Inr (tw_event_free a (count_rollback k (count_processed k 2 me)))))))))))"

text \<open>
  The buffers for the checkpoints are allocated with the size of the largest LP, before the
  checkpointers are known: the size these need is computed and not used.
\<close>

definition largest_lp_size :: "nat list \<Rightarrow> nat" where
  "largest_lp_size szs = fold (\<lambda>s m. if s > m then s else m) szs 0"

definition tw_scheduler_sequential_rollback_check :: "nat \<Rightarrow> nat \<Rightarrow> ('st, 'bf, 'm) config
    \<Rightarrow> (bool \<Rightarrow> ('st, 'bf, 'm, 'z) tw_pe_scheme \<Rightarrow> ('st, 'bf, 'm, 'z) tw_pe_scheme)
    \<Rightarrow> ('st, 'bf, 'm, 'z) tw_pe_scheme net_ops \<Rightarrow> nat list \<Rightarrow> nat list \<Rightarrow> 'st crv_checkpointer list
    \<Rightarrow> ('st, 'bf, 'm, 'z) pe_step" where
  "tw_scheduler_sequential_rollback_check fuel nnodes c hook net lptypes szs ks me =
     (if nnodes > 1 then Inl many_nodes
      else
        let buf = largest_lp_size szs; (largest_lp_checkpoint, cs) = crv_init_checkpoints lptypes ks
        in sequential_loop fuel c hook (rollback_check_event c buf szs cs net) me)"

section \<open>The optimistic debug scheduler\<close>

definition debug_event :: "('st, 'bf, 'm) config \<Rightarrow> ('st, 'bf, 'm, 'z) tw_pe_scheme net_ops \<Rightarrow> addr
    \<Rightarrow> ('st, 'bf, 'm, 'z) pe_step" where
  "debug_event c net a me =
     (let lp = dest_lp (heap me a); k = kp_of c lp;
          me = begin_event c a me;
          prev_cp = lp_critical_path (lps me lp);
          me = advance_critical_path a me in
      ebind (run_event c net a me) (\<lambda>me.
        let me = upd_ev a (\<lambda>v. v\<lparr>critical_path := prev_cp\<rparr>) me;
            me = count_processed k 1 me;
            me = upd_ev a (\<lambda>v. v\<lparr>qowner := TW_kp_pevent_q\<rparr>) me
        in Inr (upd_kp k (\<lambda>kp. kp\<lparr>pevent_q := a # pevent_q kp\<rparr>) me)))"

fun debug_loop :: "nat \<Rightarrow> ('st, 'bf, 'm) config \<Rightarrow> ('st, 'bf, 'm, 'z) tw_pe_scheme net_ops
    \<Rightarrow> ('st, 'bf, 'm, 'z) pe_step" where
  "debug_loop 0 c net me = Inl Out_Of_Fuel"
| "debug_loop (Suc n) c net me =
     ebind (pq_dequeue me) (\<lambda>(x, me).
       case x of None \<Rightarrow> Inr me
       | Some a \<Rightarrow> ebind (debug_event c net a me) (\<lambda>me.
           if length (free_q me) \<le> 1024 then Inr me else debug_loop n c net me))"

definition g_tw_rollback_time :: real where
  "g_tw_rollback_time = 1 / 10 ^ 9"

text \<open>\<open>(tw_event_sig){ g_tw_rollback_time, 0 }\<close>; the members that are not given are zero.\<close>

definition zero_time :: tw_event_sig where
  "zero_time = \<lparr>recv_ts = g_tw_rollback_time, priority = 0, tie_lineage_length = 0,
     event_tiebreaker = replicate MAX_TIE_CHAIN 0\<rparr>"

definition tw_scheduler_optimistic_debug :: "nat \<Rightarrow> nat \<Rightarrow> ('st, 'bf, 'm) config \<Rightarrow> ('st, 'bf, 'm, 'z) tw_pe_scheme net_ops
    \<Rightarrow> ('st, 'bf, 'm, 'z) pe_step" where
  "tw_scheduler_optimistic_debug fuel nnodes c net me =
     (if nnodes > 1 then Inl many_nodes
      else if nkp c > 1 then Inl (Tw_Error ''Number of KPs is greater than 1.'')
      else ebind (debug_loop fuel c net me) (tw_kp_rollback_to_sig c net 0 zero_time))"

end
