(* ===== verification/Debug_Run.thy ===== *)
theory Debug_Run
  imports Schedulers Batch
begin

text \<open>
  The optimistic debug scheduler runs the model forwards until the buffers run low and then rolls
  everything back: for a model that keeps its contract this is the identity on the LPs and on the
  set of pending events.
\<close>

lemma debug_event_process:
  assumes "has_revent c (dest_lp (heap pe a))" "\<not> suspend_flag (lps pe (dest_lp (heap pe a)))"
    "\<And>pe'. process_event c net a pe = Inr pe' \<Longrightarrow> dest_lp (heap pe' a) = dest_lp (heap pe a)"
  shows "debug_event c net a pe = ebind (process_event c net a pe) (\<lambda>pe. Inr (as_processed c a pe))"
proof -
  let ?lp = "dest_lp (heap pe a)"
  have b: "begin_event c a pe = upd_ev a (\<lambda>v. v\<lparr>cv := bf0 c\<rparr>)
      (set_last_sig (kp_of c ?lp) (tw_copy_event_sig (last_sig (kps pe (kp_of c ?lp))) (qsig (heap pe a))) (pe\<lparr>cur_event := a\<rparr>))" (is "_ = ?b")
    by (simp add: begin_event_def Let_def)
  have d: "dest_lp (heap ?b a) = ?lp" "lps ?b = lps pe" by (simp_all add: pe_simps)
  have cp: "advance_critical_path a ?b =
      upd_lp ?lp (\<lambda>l. l\<lparr>lp_critical_path := max (lp_critical_path (lps ?b ?lp)) (critical_path (heap ?b a)) + 1\<rparr>) ?b"
    unfolding advance_critical_path_def d(1) by (simp add: upd_lp_def)
  let ?r = "run_event c net a (advance_critical_path a ?b)"
  have p: "process_event c net a pe = ebind ?r (\<lambda>pe'. Inr (count_processed (kp_of c ?lp) 1
      (upd_ev a (\<lambda>v. v\<lparr>critical_path := lp_critical_path (lps pe ?lp)\<rparr>) pe')))"
    using assms(1,2) unfolding process_event_def Let_def cp
    by (simp add: pe_simps count_processed_def)
      (cases "run_event c net a (advance_critical_path a ?b)"; simp add: cp pe_simps)
  show ?thesis
  proof (cases ?r)
    case (Inl e)
    then show ?thesis unfolding p debug_event_def Let_def b by simp
  next
    case (Inr pe')
    let ?q = "count_processed (kp_of c ?lp) 1 (upd_ev a (\<lambda>v. v\<lparr>critical_path := lp_critical_path (lps pe ?lp)\<rparr>) pe')"
    have "process_event c net a pe = Inr ?q" unfolding p Inr by simp
    then have "dest_lp (heap ?q a) = ?lp" by (rule assms(3))
    then have "dest_lp (heap pe' a) = ?lp" by (simp add: count_processed_def pe_simps)
    then show ?thesis using Inr unfolding p debug_event_def Let_def b
      by (simp add: d(2) as_processed_def count_processed_def pe_simps)
  qed
qed


lemma pq_dequeue_frame:
  assumes "pq_dequeue pe = Inr (x, pe1)"
  shows "dest_lp (heap pe1 b) = dest_lp (heap pe b)" "lps pe1 = lps pe" "hook_trigger pe1 = hook_trigger pe" "GVT_sig pe1 = GVT_sig pe"
proof -
  obtain r q where "tw_pq_dequeue (pq pe) = Inr (r, q)"
    using assms by (cases "tw_pq_dequeue (pq pe)") (auto simp: pq_dequeue_def)
  then show "dest_lp (heap pe1 b) = dest_lp (heap pe b)" "lps pe1 = lps pe" "hook_trigger pe1 = hook_trigger pe" "GVT_sig pe1 = GVT_sig pe"
    using assms by (cases r; auto simp: pq_dequeue_def pe_simps)+
qed

text \<open>
  What a forward run keeps: every event in use was pending at the start or is the child of a
  processed event, children come after their parent, and nothing waits to be cancelled.
\<close>

definition debug_inv :: "('st, 'bf, 'm) config \<Rightarrow> addr set \<Rightarrow> ('st \<Rightarrow> bool) \<Rightarrow> (nat \<Rightarrow> 'st tw_lp) \<Rightarrow> addr set \<Rightarrow> tw_event_sig
    \<Rightarrow> ('st, 'bf, 'm, 'z) tw_pe_scheme \<Rightarrow> bool" where
  "debug_inv c U G L0 P0 z pe \<longleftrightarrow> tw_base c U G L0 pe \<and> causal c U pe \<and> event_q pe = [] \<and> cancel_q pe = [] \<and>
     {b \<in> U. live_owner (qowner (heap pe b))} = P0 \<union> kids_of (heap pe) (pevents pe 0) \<and>
     P0 \<inter> kids_of (heap pe) (pevents pe 0) = {} \<and> tidy (heap pe) (pevents pe 0) \<and>
     (\<forall>b \<in> U. live_owner (qowner (heap pe b)) \<longrightarrow> sig_key z \<le> sig_key (qsig (heap pe b)))"

lemma debug_inv_ok: "debug_inv c U G L0 P0 z pe \<Longrightarrow> pe_ok c U (event_q pe) [] pe"
  unfolding debug_inv_def tw_base_def by blast

lemma tidy_extend:
  assumes t: "tidy hp es" and same: "\<forall>b. live_owner (qowner (hp b)) \<longrightarrow> b \<in> U \<longrightarrow> b \<noteq> a \<longrightarrow> hp' b = hp b"
    and es: "set es \<subseteq> processed U hp" "kids_of hp es \<subseteq> U" and a: "qowner (hp a) = TW_pe_pq"
    and k: "\<forall>b \<in> set (caused_by_me (hp' a)). qowner (hp' b) = TW_pe_pq"
  shows "tidy hp' (a # es)"
  unfolding tidy_def
proof (intro allI impI ballI)
  fix us e vs b assume s: "a # es = us @ e # vs" and b: "b \<in> set (caused_by_me (hp' e))"
  show "qowner (hp' b) = TW_pe_pq \<or> b \<in> set us"
  proof (cases us)
    case Nil
    then show ?thesis using s b k by simp
  next
    case (Cons u us')
    then have s': "u = a" "es = us' @ e # vs" using s by simp_all
    then have e: "e \<in> U" "qowner (hp e) = TW_kp_pevent_q" "e \<in> set es" using es(1) by auto
    then have "e \<noteq> a" using a by auto
    then have "hp' e = hp e" using same e by (simp add: live_owner_def)
    then have b': "b \<in> set (caused_by_me (hp e))" "b \<in> U" using b e(3) es(2) by (auto simp: kids_of_def)
    then have "qowner (hp b) = TW_pe_pq \<or> b \<in> set us'" using t s'(2) unfolding tidy_def by blast
    then show ?thesis using same b'(2) unfolding Cons s'(1) by (cases "b = a") (auto simp: live_owner_def)
  qed
qed

lemma debug_step:
  assumes i: "debug_inv c U G L0 P0 z pe" and m: "model_ok c G n (recv_ts (GVT_sig pe))" and f: "fresh_ids c U (n + r) pe" and k: "\<forall>i. kp_of c i = 0"
    and q: "contents (pq pe) = a # as"
  shows "\<exists>pe1 pe2. pq_dequeue pe = Inr (Some a, pe1) \<and> debug_event c net a pe1 = Inr pe2 \<and> debug_inv c U G L0 P0 z pe2 \<and>
    fresh_ids c U r pe2 \<and> GVT_sig pe2 = GVT_sig pe \<and> pevents pe2 0 = a # pevents pe 0 \<and> a \<in> U - set (pevents pe 0) \<and>
    (\<forall>b \<in> U. live_owner (qowner (heap pe b)) \<longrightarrow> live_owner (qowner (heap pe2 b)) \<and> qsig (heap pe2 b) = qsig (heap pe b))"
proof -
  have base: "tw_base c U G L0 pe" and ca: "causal c U pe" and eq: "event_q pe = []" and cq: "cancel_q pe = []"
    and lv: "{b \<in> U. live_owner (qowner (heap pe b))} = P0 \<union> kids_of (heap pe) (pevents pe 0)"
    and dj: "P0 \<inter> kids_of (heap pe) (pevents pe 0) = {}" and td: "tidy (heap pe) (pevents pe 0)"
    and zs: "\<forall>b \<in> U. live_owner (qowner (heap pe b)) \<longrightarrow> sig_key z \<le> sig_key (qsig (heap pe b))"
    using i by (simp_all add: debug_inv_def)
  obtain pe1 pe2 where p: "pq_dequeue pe = Inr (Some a, pe1)" "process_event c net a pe1 = Inr pe2" "running c U [] a pe2"
    "undo_step c (heap pe2) a (lps pe2) = lps pe" "\<forall>j. pevents pe2 j = pevents pe j" "dest_lp (heap pe2 a) = dest_lp (heap pe a)"
    "qsig (heap pe2 a) = qsig (heap pe a)" "fresh_ids c U r pe2"
    "\<forall>i. lp_good G (lps pe2 i)" "\<forall>j. j \<noteq> dest_lp (heap pe a) \<longrightarrow> lps pe2 j = lps pe j"
    "\<forall>j. \<forall>b \<in> set (pevents pe j). b \<in> U \<and> b \<noteq> a \<and> heap pe2 b = heap pe b" "a \<in> U"
    "\<forall>b \<in> U. b \<noteq> a \<longrightarrow> qowner (heap pe b) \<noteq> TW_pe_free_q \<longrightarrow> heap pe2 b = heap pe b"
    "set (caused_by_me (heap pe2 a)) = {b \<in> U. qowner (heap pe b) = TW_pe_free_q \<and> qowner (heap pe2 b) \<noteq> TW_pe_free_q}"
    "qowner (heap pe a) = TW_pe_pq" "cancel_q pe2 = cancel_q pe" "(\<forall>i j. kp_of c i = kp_of c j) \<longrightarrow> event_q pe2 = event_q pe"
    "GVT_sig pe2 = GVT_sig pe"
    using process_next[OF base ca m f q, of net] by (elim exE conjE) (rule that, assumption+)
  let ?V = "as_processed c a pe2"
  have bV: "tw_base c U G L0 ?V" by (rule keep_processed[OF base p(3,4,5,6,9,10,11)])
  have caV: "causal c U ?V" using p(3) by (simp add: running_def)
  have pv: "pevents ?V 0 = a # pevents pe 0" using p(5) k by simp
  have hV: "heap ?V b = heap pe b" if "b \<in> U" "b \<noteq> a" "qowner (heap pe b) \<noteq> TW_pe_free_q" for b
    using p(13) that by simp
  note okV = tw_baseD(1)[OF bV] note oV = pe_okD(3)[OF okV]
  have pr: "set (pevents pe 0) \<subseteq> processed U (heap pe)" by (rule pe_ok_pevents(3)[OF tw_baseD(1)[OF base]])
  have eV: "event_q ?V = []" "cancel_q ?V = []" using p(16,17) eq cq k by simp_all
  have nfree: "qowner (heap pe b) \<noteq> TW_pe_free_q" if "live_owner (qowner (heap pe b))" for b
    using that by (auto simp: live_owner_def)
  have aP: "a \<in> processed U (heap ?V)" using p(12) by simp
  note ch = childrenD[OF pe_okD(4)[OF okV] aP]
  have na: "a \<notin> set (pevents pe 0)" using pr p(15) by auto
  have kU: "set (caused_by_me (heap pe2 a)) \<subseteq> U" unfolding p(14) by blast
  have kid: "qowner (heap ?V b) = TW_pe_pq \<and> sig_key z \<le> sig_key (qsig (heap ?V b))" if b: "b \<in> set (caused_by_me (heap pe2 a))" for b
  proof -
    have b': "b \<in> U" "qowner (heap pe b) = TW_pe_free_q" "b \<noteq> a" using b p(14,15) by auto
    have "live_owner (qowner (heap ?V b))" using ch(4) b by simp
    moreover have "qowner (heap ?V b) \<noteq> TW_pe_event_q" using ownedD(5)[OF oV] eV(1) b'(1) by auto
    moreover have "qowner (heap ?V b) \<noteq> TW_kp_pevent_q"
    proof
      assume "qowner (heap ?V b) = TW_kp_pevent_q"
      then have "b \<in> set (pevents ?V 0)" using ownedD(7)[OF oV, of 0] b'(1) k by simp
      then have "b \<in> set (pevents pe 0)" using b'(3) pv by simp
      then show False using pr b'(2) by auto
    qed
    ultimately have w: "qowner (heap ?V b) = TW_pe_pq" by (auto simp: live_owner_def)
    have "sig_key z \<le> sig_key (qsig (heap pe a))" using zs p(12,15) by (simp add: live_owner_def)
    also have "\<dots> = sig_key (last_sig (kps ?V 0))" using p(3,7) k by (simp add: running_def)
    also have "\<dots> \<le> sig_key (qsig (heap ?V b))" using caV b'(1) w k unfolding causal_def by metis
    finally show ?thesis using w by simp
  qed
  have same: "heap ?V b = heap pe b" if "b \<in> U" "b \<noteq> a" "live_owner (qowner (heap pe b))" for b
    by (rule hV[OF that(1,2) nfree[OF that(3)]])
  have kk: "kids_of (heap ?V) (pevents ?V 0) = set (caused_by_me (heap pe2 a)) \<union> kids_of (heap pe) (pevents pe 0)"
  proof -
    have "(\<Union>e \<in> set (pevents pe 0). set (caused_by_me (heap ?V e))) = (\<Union>e \<in> set (pevents pe 0). set (caused_by_me (heap pe e)))"
      using p(11) by (intro SUP_cong) simp_all
    then show ?thesis unfolding pv kids_of_def by simp
  qed
  have liveV: "{b \<in> U. live_owner (qowner (heap ?V b))} = {b \<in> U. live_owner (qowner (heap pe b))} \<union> set (caused_by_me (heap pe2 a))"
  proof (intro set_eqI iffI)
    fix b assume b: "b \<in> {b \<in> U. live_owner (qowner (heap ?V b))}"
    show "b \<in> {b \<in> U. live_owner (qowner (heap pe b))} \<union> set (caused_by_me (heap pe2 a))"
    proof (cases "b = a")
      case True
      then show ?thesis using p(12,15) by (simp add: live_owner_def)
    next
      case False
      then have "qowner (heap ?V b) = qowner (heap pe2 b)" by simp
      then have "qowner (heap pe b) = TW_pe_free_q \<Longrightarrow> b \<in> set (caused_by_me (heap pe2 a))"
        unfolding p(14) using b by (auto simp: live_owner_def simp del: as_processed_sel(1))
      then show ?thesis using b hV[of b] False by (cases "qowner (heap pe b) = TW_pe_free_q") auto
    qed
  next
    fix b assume b: "b \<in> {b \<in> U. live_owner (qowner (heap pe b))} \<union> set (caused_by_me (heap pe2 a))"
    then show "b \<in> {b \<in> U. live_owner (qowner (heap ?V b))}"
    proof
      assume "b \<in> {b \<in> U. live_owner (qowner (heap pe b))}"
      then show ?thesis using same[of b] p(12) by (cases "b = a") (auto simp: live_owner_def)
    next
      assume "b \<in> set (caused_by_me (heap pe2 a))"
      then show ?thesis using kid[of b] kU by (auto simp: live_owner_def simp del: as_processed_sel(1))
    qed
  qed
  have kidsU: "kids_of (heap pe) (pevents pe 0) \<subseteq> U" using lv by auto
  have inv: "debug_inv c U G L0 P0 z ?V"
    unfolding debug_inv_def
  proof (intro conjI bV caV eV)
    show "{b \<in> U. live_owner (qowner (heap ?V b))} = P0 \<union> kids_of (heap ?V) (pevents ?V 0)"
      unfolding liveV lv kk by blast
    have "P0 \<inter> set (caused_by_me (heap pe2 a)) = {}"
    proof -
      have "live_owner (qowner (heap pe b))" if "b \<in> P0" for b using lv that by blast
      then show ?thesis unfolding p(14) using nfree by blast
    qed
    then show "P0 \<inter> kids_of (heap ?V) (pevents ?V 0) = {}" unfolding kk using dj by blast
    show "tidy (heap ?V) (pevents ?V 0)"
      unfolding pv by (rule tidy_extend[OF td _ pr kidsU p(15)]) (use kid same in \<open>auto simp del: as_processed_sel(1)\<close>, simp)
    show "\<forall>b \<in> U. live_owner (qowner (heap ?V b)) \<longrightarrow> sig_key z \<le> sig_key (qsig (heap ?V b))"
    proof (intro ballI impI)
      fix b assume b: "b \<in> U" "live_owner (qowner (heap ?V b))"
      have "b \<in> {b \<in> U. live_owner (qowner (heap pe b))} \<union> set (caused_by_me (heap pe2 a))"
        using b unfolding liveV[symmetric] by blast
      then show "sig_key z \<le> sig_key (qsig (heap ?V b))"
        using kid[of b] zs p(7) same[OF b(1)] by (cases "b = a") auto
    qed
  qed
  have fr: "fresh_ids c U r ?V"
    using p(8,3) unfolding fresh_ids_def running_def by auto
  have d1: "dest_lp (heap pe1 a) = dest_lp (heap pe a)" "lps pe1 = lps pe"
    using pq_dequeue_frame[OF p(1)] by simp_all
  have g: "lp_good G (lps pe i)" for i
    by (rule history_good[of c G L0 "kp_of c i" "heap pe" "pevents pe (kp_of c i)"])
      (use tw_baseD(2)[OF base] in \<open>auto simp: traced_def\<close>)
  have "debug_event c net a pe1 = Inr ?V"
    using debug_event_process[of c pe1 a net] p(2,6) m g d1 by (simp add: model_ok_def handlers_ok_def lp_good_def)
  moreover have "live_owner (qowner (heap ?V b)) \<and> qsig (heap ?V b) = qsig (heap pe b)" if "b \<in> U" "live_owner (qowner (heap pe b))" for b
    using same[OF that(1) _ that(2)] p(7) that by (cases "b = a") (auto simp: live_owner_def)
  ultimately show ?thesis using p(1,12,18) inv fr pv na by (intro exI[of _ pe1] exI[of _ ?V]) simp
qed


text \<open>Each round moves one more event to the processed queue, so the loop ends within as many rounds as there are buffers.\<close>

lemma debug_loop_ok:
  assumes "debug_inv c U G L0 P0 z pe" "model_ok c G n (recv_ts (GVT_sig pe))" "fresh_ids c U (k * n) pe" "\<forall>i. kp_of c i = 0"
    "card (U - set (pevents pe 0)) \<le> k"
  shows "\<exists>pe'. debug_loop (Suc k) c net pe = Inr pe' \<and> debug_inv c U G L0 P0 z pe' \<and>
    (\<forall>b \<in> U. live_owner (qowner (heap pe b)) \<longrightarrow> live_owner (qowner (heap pe' b)) \<and> qsig (heap pe' b) = qsig (heap pe b))"
  using assms
proof (induction k arbitrary: pe)
  case (0 pe)
  have ok: "pe_ok c U (event_q pe) [] pe" by (rule debug_inv_ok[OF 0(1)])
  note o = pe_okD(3)[OF ok]
  have "U \<subseteq> set (pevents pe 0)" using 0 ownedD(1)[OF o] by simp
  then have "{a \<in> U. qowner (heap pe a) = TW_pe_pq} = {}" using pe_ok_pevents(3)[OF ok, of 0] by auto
  then have "contents (pq pe) = []" using ownedD(6)[OF o] by (metis set_empty)
  moreover have "pq_inv (key_at (heap pe)) (wf_at (heap pe)) (pq pe)" using o by (simp add: owned_def)
  ultimately have "tw_pq_dequeue (pq pe) = Inr (None, pq pe)" by (intro pq.dequeue_empty)
  then have "pq_dequeue pe = Inr (None, pe)" by (simp add: pq_dequeue_def)
  then show ?case using 0 by simp
next
  case (Suc k pe)
  have ok: "pe_ok c U (event_q pe) [] pe" by (rule debug_inv_ok[OF Suc.prems(1)])
  note o = pe_okD(3)[OF ok]
  show ?case
  proof (cases "contents (pq pe)")
    case Nil
    have "pq_inv (key_at (heap pe)) (wf_at (heap pe)) (pq pe)" using o by (simp add: owned_def)
    then have "tw_pq_dequeue (pq pe) = Inr (None, pq pe)" by (rule pq.dequeue_empty[OF _ Nil])
    then have "pq_dequeue pe = Inr (None, pe)" by (simp add: pq_dequeue_def)
    then show ?thesis using Suc.prems by (subst debug_loop.simps) simp
  next
    case (Cons a as)
    have f: "fresh_ids c U (n + k * n) pe" using Suc.prems(3) by simp
    obtain pe1 pe2 where p: "pq_dequeue pe = Inr (Some a, pe1)" "debug_event c net a pe1 = Inr pe2" "debug_inv c U G L0 P0 z pe2"
      "fresh_ids c U (k * n) pe2" "pevents pe2 0 = a # pevents pe 0" "a \<in> U - set (pevents pe 0)" "GVT_sig pe2 = GVT_sig pe"
      "\<forall>b \<in> U. live_owner (qowner (heap pe b)) \<longrightarrow> live_owner (qowner (heap pe2 b)) \<and> qsig (heap pe2 b) = qsig (heap pe b)"
      using debug_step[OF Suc.prems(1,2) f Suc.prems(4) Cons, of net] by blast
    have "U - set (pevents pe2 0) = (U - set (pevents pe 0)) - {a}" using p(5) by auto
    then have c: "card (U - set (pevents pe2 0)) \<le> k" using Suc.prems(5) p(6) ownedD(1)[OF o] by simp
    show ?thesis
    proof (cases "length (free_q pe2) \<le> 1024")
      case True
      then have "debug_loop (Suc (Suc k)) c net pe = Inr pe2" using p(1,2) by (subst debug_loop.simps) simp
      then show ?thesis using p(3,8) by blast
    next
      case False
      then have "debug_loop (Suc (Suc k)) c net pe = debug_loop (Suc k) c net pe2" using p(1,2) by (subst debug_loop.simps) simp
      moreover have "model_ok c G n (recv_ts (GVT_sig pe2))" using Suc.prems(2) p(7) by simp
      ultimately show ?thesis using Suc.IH[OF p(3) _ p(4) Suc.prems(4) c] p(8) by fastforce
    qed
  qed
qed


text \<open>
  The rollback at the end: everything that was processed is undone, everything that was sent is
  freed, and what was pending at the start is pending again.
\<close>

lemma zero_time_wf: "wf_sig zero_time"
  by (simp add: zero_time_def wf_sig_def MAX_TIE_CHAIN_def)

lemma debug_rollback:
  assumes i: "debug_inv c U G L0 P0 zero_time pe" and k: "\<forall>i. kp_of c i = 0"
  shows "\<exists>pe'. tw_kp_rollback_to_sig c net 0 zero_time pe = Inr pe' \<and> lps pe' = L0 \<and> event_q pe' = [] \<and> cancel_q pe' = [] \<and>
    pevents pe' 0 = [] \<and> set (contents (pq pe')) = P0 \<and> (\<forall>b. qsig (heap pe' b) = qsig (heap pe b))"
proof -
  define P where "P = (\<lambda>e. tw_event_sig_compare_ptr (qsig (heap pe e)) zero_time \<ge> 0)"
  have base: "tw_base c U G L0 pe" and eq: "event_q pe = []" and cq: "cancel_q pe = []"
    and lv: "{b \<in> U. live_owner (qowner (heap pe b))} = P0 \<union> kids_of (heap pe) (pevents pe 0)"
    and dj: "P0 \<inter> kids_of (heap pe) (pevents pe 0) = {}" and td: "tidy (heap pe) (pevents pe 0)"
    and zs: "\<forall>b \<in> U. live_owner (qowner (heap pe b)) \<longrightarrow> sig_key zero_time \<le> sig_key (qsig (heap pe b))"
    using i by (simp_all add: debug_inv_def)
  note ok = tw_baseD(1)[OF base]
  have pr: "set (pevents pe 0) \<subseteq> processed U (heap pe)" by (rule pe_ok_pevents(3)[OF ok])
  have "P e" if "e \<in> set (pevents pe 0)" for e
  proof -
    have "e \<in> U" "live_owner (qowner (heap pe e))" using pr that by (auto simp: live_owner_def)
    then show ?thesis using zs pe_ok_wf[OF ok that] zero_time_wf by (simp add: P_def tw_event_sig_compare_ptr_key)
  qed
  then have w: "takeWhile P (pevents pe 0) = pevents pe 0" "dropWhile P (pevents pe 0) = []"
    by (simp_all add: takeWhile_eq_all_conv)
  obtain pe' where p: "tw_kp_rollback_to_sig c net 0 zero_time pe = Inr pe'" "pe_ok c U (event_q pe) [] pe'"
    "undone c {} 0 (pevents pe 0) [] pe pe'" "cancel_q pe' = cancel_q pe"
    "\<forall>b \<in> kids_of (heap pe) (pevents pe 0). qowner (heap pe' b) = TW_pe_free_q"
    using rollback_to_sig_ok[OF ok P_def, of net 0] td unfolding w by blast
  have u: "undone_heap {} (heap pe') (heap pe) (pevents pe 0)" "pevents pe' 0 = []" "event_q pe' = []"
    using p(3) eq by (simp_all add: undone_def)
  have "traced c G L0 pe'" using keeps_trace_undone[OF ok p(3)] tw_baseD(2)[OF base] by (simp add: keeps_trace_def)
  then have "history c G L0 0 (heap pe') (pevents pe' 0) (lps pe')" by (simp add: traced_def)
  then have l: "lps pe' = L0" using u(2) k by auto
  note o' = pe_okD(3)[OF p(2)[unfolded eq]]
  have nproc: "processed U (heap pe') = {}" using ownedD(7)[OF o', of 0] u(2) k by simp
  have neq: "{b \<in> U. qowner (heap pe' b) = TW_pe_event_q} = {}" using ownedD(5)[OF o'] by simp
  have "{b \<in> U. qowner (heap pe' b) = TW_pe_pq} = P0"
  proof (intro set_eqI iffI)
    fix b assume b: "b \<in> {b \<in> U. qowner (heap pe' b) = TW_pe_pq}"
    then have "b \<in> set (pevents pe 0) \<or> live_owner (qowner (heap pe b))"
      using undone_heap_live[OF u(1), of b] by (simp add: live_owner_def)
    then have "b \<in> {b \<in> U. live_owner (qowner (heap pe b))}" using b pr by (auto simp: live_owner_def)
    moreover have "b \<notin> kids_of (heap pe) (pevents pe 0)" using p(5) b by auto
    ultimately show "b \<in> P0" unfolding lv by blast
  next
    fix b assume b: "b \<in> P0"
    then have b': "b \<in> U" "live_owner (qowner (heap pe b))" "b \<notin> kids_of (heap pe) (pevents pe 0)" using lv dj by blast+
    show "b \<in> {b \<in> U. qowner (heap pe' b) = TW_pe_pq}"
    proof (cases "b \<in> set (pevents pe 0)")
      case True
      then show ?thesis using u(1) b' unfolding undone_heap_def by auto
    next
      case False
      then have "heap pe' b = heap pe b" using u(1) b'(3) by (simp add: undone_heap_def)
      then show ?thesis using b' nproc neq by (auto simp: live_owner_def)
    qed
  qed
  then have "set (contents (pq pe')) = P0" using ownedD(6)[OF o'] by simp
  then show ?thesis using p(1,4) l u cq undone_heap_qsig(1)[OF u(1)] by (intro exI[of _ pe']) simp
qed

lemma debug_run:
  assumes base: "tw_base c U G (lps pe) pe" and ca: "causal c U pe" and m: "model_ok c G n (recv_ts (GVT_sig pe))" and f: "fresh_ids c U (card U * n) pe"
    and k: "\<forall>i. kp_of c i = 0" "nkp c \<le> 1" and q: "pevents pe 0 = []" "event_q pe = []" "cancel_q pe = []"
    and z: "\<forall>b \<in> set (contents (pq pe)). sig_key zero_time \<le> sig_key (qsig (heap pe b))"
  shows "\<exists>pe'. tw_scheduler_optimistic_debug (Suc (card U)) 1 c net pe = Inr pe' \<and> lps pe' = lps pe \<and>
    event_q pe' = [] \<and> cancel_q pe' = [] \<and> pevents pe' 0 = [] \<and> set (contents (pq pe')) = set (contents (pq pe)) \<and>
    (\<forall>b \<in> set (contents (pq pe)). qsig (heap pe' b) = qsig (heap pe b))"
proof -
  let ?P = "set (contents (pq pe))"
  note o = pe_okD(3)[OF tw_baseD(1)[OF base]]
  have "{b \<in> U. qowner (heap pe b) = TW_kp_pevent_q} = {}" using ownedD(7)[OF o, of 0] q(1) k(1) by simp
  moreover have "{b \<in> U. qowner (heap pe b) = TW_pe_event_q} = {}" using ownedD(5)[OF o] q(2) by simp
  ultimately have lv: "{b \<in> U. live_owner (qowner (heap pe b))} = ?P" unfolding ownedD(6)[OF o] by (auto simp: live_owner_def)
  then have "debug_inv c U G (lps pe) ?P zero_time pe"
    using base ca q z unfolding debug_inv_def by (auto simp: tidy_def)
  then obtain pe1 where p1: "debug_loop (Suc (card U)) c net pe = Inr pe1" "debug_inv c U G (lps pe) ?P zero_time pe1"
    "\<forall>b \<in> U. live_owner (qowner (heap pe b)) \<longrightarrow> live_owner (qowner (heap pe1 b)) \<and> qsig (heap pe1 b) = qsig (heap pe b)"
    using debug_loop_ok[OF _ m f k(1), of "lps pe" ?P zero_time net] q(1) by auto
  obtain pe2 where p2: "tw_kp_rollback_to_sig c net 0 zero_time pe1 = Inr pe2" "lps pe2 = lps pe" "event_q pe2 = []" "cancel_q pe2 = []"
    "pevents pe2 0 = []" "set (contents (pq pe2)) = ?P" "\<forall>b. qsig (heap pe2 b) = qsig (heap pe1 b)"
    using debug_rollback[OF p1(2) k(1), of net] by blast
  have "tw_scheduler_optimistic_debug (Suc (card U)) 1 c net pe = Inr pe2"
    unfolding tw_scheduler_optimistic_debug_def using k(2) p1(1) p2(1) by (simp del: debug_loop.simps)
  moreover have "qsig (heap pe2 b) = qsig (heap pe b)" if "b \<in> ?P" for b
    using p1(3) p2(7) lv that by auto
  ultimately show ?thesis using p2(2-6) by (intro exI[of _ pe2]) simp
qed

end
