(* ===== verification/Sequential.thy ===== *)
theory Sequential
  imports Debug_Run
begin

text \<open>
  The sequential scheduler processes the events in the order of their time. Its protocol differs
  from the optimistic one in a send only where the buffers run out, and GVT is not kept up; both
  are bridged here, so that what is known of sends carries over.
\<close>

section \<open>GVT does not matter for a send\<close>

definition with_gvt :: "tw_event_sig \<Rightarrow> ('st, 'bf, 'm, 'z) tw_pe_scheme \<Rightarrow> ('st, 'bf, 'm, 'z) tw_pe_scheme" where
  "with_gvt g pe = pe\<lparr>GVT_sig := g\<rparr>"

lemma with_gvt_sel [simp]:
  "heap (with_gvt g pe) = heap pe" "lps (with_gvt g pe) = lps pe" "kps (with_gvt g pe) = kps pe" "event_q (with_gvt g pe) = event_q pe"
  "cancel_q (with_gvt g pe) = cancel_q pe" "pq (with_gvt g pe) = pq pe" "free_q (with_gvt g pe) = free_q pe"
  "cur_event (with_gvt g pe) = cur_event pe" "cev_abort (with_gvt g pe) = cev_abort pe" "gvt_status (with_gvt g pe) = gvt_status pe"
  "trans_msg_sig (with_gvt g pe) = trans_msg_sig pe" "seq_num (with_gvt g pe) = seq_num pe" "GVT_sig (with_gvt g pe) = g"
  "hook_trigger (with_gvt g pe) = hook_trigger pe"
  by (simp_all add: with_gvt_def)

lemma with_gvt_upd:
  "upd_ev a f (with_gvt g pe) = with_gvt g (upd_ev a f pe)" "upd_lp i h (with_gvt g pe) = with_gvt g (upd_lp i h pe)"
  "(with_gvt g pe)\<lparr>free_q := fq\<rparr> = with_gvt g (pe\<lparr>free_q := fq\<rparr>)" "(with_gvt g pe)\<lparr>seq_num := n\<rparr> = with_gvt g (pe\<lparr>seq_num := n\<rparr>)"
  "(with_gvt g pe)\<lparr>cev_abort := b\<rparr> = with_gvt g (pe\<lparr>cev_abort := b\<rparr>)" "(with_gvt g pe)\<lparr>event_q := es\<rparr> = with_gvt g (pe\<lparr>event_q := es\<rparr>)"
  "(with_gvt g pe)\<lparr>pq := q\<rparr> = with_gvt g (pe\<lparr>pq := q\<rparr>)" "(with_gvt g pe)\<lparr>trans_msg_sig := s\<rparr> = with_gvt g (pe\<lparr>trans_msg_sig := s\<rparr>)"
  by (simp_all add: with_gvt_def upd_ev_def upd_lp_def)

lemma ebind_map: "ebind (map_sum id f m) k = ebind m (\<lambda>x. k (f x))" "map_sum id h (ebind m k') = ebind m (\<lambda>x. map_sum id h (k' x))"
  by (cases m; simp)+

lemma grab_gvt: "tw_event_grab (with_gvt g pe) = map_prod id (with_gvt g) (tw_event_grab pe)"
  by (simp add: tw_event_grab_def with_gvt_upd)

lemma new_gvt:
  assumes p: "protocol c = SEQUENTIAL"
  shows "tw_event_new_user_prio c d off lp pr (with_gvt g pe) = map_sum id (map_prod id (with_gvt g)) (tw_event_new_user_prio c d off lp pr pe)"
proof -
  have grab: "grab_for_send c t (with_gvt g pe) = map_sum id (map_prod id (with_gvt g)) (grab_for_send c t pe)" for t
    by (simp add: grab_for_send_def grab_gvt p split: prod.splits option.splits)
  have unif: "core_unif lp (with_gvt g pe) = map_sum id (map_prod id (with_gvt g)) (core_unif lp pe)" for pe :: "('st, 'bf, 'm, 'z) tw_pe_scheme"
    by (simp add: core_unif_def with_gvt_upd split: option.splits)
  show ?thesis
    unfolding tw_event_new_user_prio_def Let_def
    by (simp add: p grab tw_now_def with_gvt_upd unif tw_free_output_messages_def ebind_map split_def)
qed

lemma send_gvt:
  assumes p: "protocol c = SEQUENTIAL" and l: "map_pe c (dest_lp (heap pe e)) = mynode c"
  shows "tw_event_send c net e (with_gvt g pe) = map_sum id (with_gvt g) (tw_event_send c net' e pe)"
proof -
  have link: "link_causality e a (with_gvt g pe) = with_gvt g (link_causality e a pe)" for a and pe :: "('st, 'bf, 'm, 'z) tw_pe_scheme"
    by (simp add: link_causality_def with_gvt_upd)
  have trans: "note_transient s (with_gvt g pe) = with_gvt g (note_transient s pe)" for s and pe :: "('st, 'bf, 'm, 'z) tw_pe_scheme"
    by (simp add: note_transient_def tw_gvt_inprogress_def with_gvt_upd)
  have enq: "pq_enqueue e (with_gvt g pe) = map_sum id (with_gvt g) (pq_enqueue e pe)" for pe :: "('st, 'bf, 'm, 'z) tw_pe_scheme"
    by (simp add: pq_enqueue_def with_gvt_upd ebind_map Let_def)
  show ?thesis
    by (simp add: tw_event_send_def Let_def p with_gvt_upd link trans enq link_causality_def pe_simps l)
qed

section \<open>The protocol matters only without buffers\<close>

definition optimistic :: "('st, 'bf, 'm) config \<Rightarrow> ('st, 'bf, 'm) config" where
  "optimistic c = c\<lparr>protocol := OPTIMISTIC\<rparr>"

lemma optimistic_sel [simp]:
  "protocol (optimistic c) = OPTIMISTIC" "mynode (optimistic c) = mynode c" "ts_end (optimistic c) = ts_end c"
  "ts_add (optimistic c) = ts_add c" "ts_sub (optimistic c) = ts_sub c" "lookahead (optimistic c) = lookahead c"
  "the_rng (optimistic c) = the_rng c" "abort_event (optimistic c) = abort_event c" "gid_of (optimistic c) = gid_of c"
  "kp_of (optimistic c) = kp_of c" "local_lp (optimistic c) = local_lp c" "map_pe (optimistic c) = map_pe c" "bf0 (optimistic c) = bf0 c"
  "event_h (optimistic c) = event_h c" "revent_h (optimistic c) = revent_h c" "has_revent (optimistic c) = has_revent c"
  by (simp_all add: optimistic_def)

definition no_buffers :: ross_error where
  "no_buffers = Tw_Error ''No free event buffers''"

lemma new_optimistic:
  assumes p: "protocol c = SEQUENTIAL"
  shows "tw_event_new_user_prio c d off lp pr pe = Inl no_buffers \<or>
    tw_event_new_user_prio (optimistic c) d off lp pr pe = tw_event_new_user_prio c d off lp pr pe"
proof -
  have "grab_for_send c t pe = Inl no_buffers \<or> grab_for_send (optimistic c) t pe = grab_for_send c t pe" for t
    by (simp add: grab_for_send_def p no_buffers_def split: prod.splits option.splits)
  from this[of "ts_add c (recv_ts (last_sig (kps pe (kp_of c lp)))) off"] show ?thesis
    unfolding tw_event_new_user_prio_def Let_def by (elim disjE) (simp_all add: p tw_now_def)
qed

lemma send_optimistic: "protocol c = SEQUENTIAL \<Longrightarrow> tw_event_send (optimistic c) net a pe = tw_event_send c net a pe"
  by (simp add: tw_event_send_def Let_def tw_now_def)

lemma new_dest:
  assumes "tw_event_new_user_prio c d off lp pr pe = Inr (e, pe')"
  shows "dest_lp (heap pe' e) = d"
proof -
  obtain e1 pe1 u pe2 s where
    p: "core_unif lp (upd_ev e1 (\<lambda>v. v\<lparr>send_pe := mynode c, dest_lp := d, dest_lpid := d,
         src_lp := lp, ev_recv_ts := ts_add c (tw_now c lp pe) off, send_ts := tw_now c lp pe1,
         critical_path := lp_critical_path (lps pe1 lp) + 1, aborted_total := 0\<rparr>) pe1) = Inr (u, pe2)"
    "(e, pe') = (e1, tw_free_output_messages e1 False (upd_ev e1 (\<lambda>v. v\<lparr>qsig := s\<rparr>) pe2))"
    using assms unfolding tw_event_new_user_prio_def Let_def
    by (auto simp: bind_simps tw_now_def split: if_splits)
  have "heap pe2 = heap (upd_ev e1 (\<lambda>v. v\<lparr>send_pe := mynode c, dest_lp := d, dest_lpid := d,
         src_lp := lp, ev_recv_ts := ts_add c (tw_now c lp pe) off, send_ts := tw_now c lp pe1,
         critical_path := lp_critical_path (lps pe1 lp) + 1, aborted_total := 0\<rparr>) pe1)"
    using p(1) by (auto simp: core_unif_def pe_simps split: option.splits)
  then show ?thesis using p(2) by (simp add: pe_simps)
qed

text \<open>All sends of a handler; in particular they leave GVT alone.\<close>

lemma sends_gvt:
  assumes p: "protocol c = SEQUENTIAL" and l: "\<forall>x \<in> set xs. map_pe c (to_gid x) = mynode c"
  shows "do_sends c net lp xs (with_gvt g pe) = map_sum id (with_gvt g) (do_sends c net lp xs pe)"
  using l
proof (induction xs arbitrary: pe)
  case (Cons x xs)
  have "tw_event_send c net e (upd_ev e f (with_gvt g pe1)) = map_sum id (with_gvt g) (tw_event_send c net e (upd_ev e f pe1))"
    if "tw_event_new_user_prio c (to_gid x) (offset_ts x) lp (prio x) pe = Inr (e, pe1)" "f = (\<lambda>v. v\<lparr>msg := content x\<rparr>)" for e f pe1
    unfolding with_gvt_upd using new_dest[OF that(1)] Cons.prems that(2) by (intro send_gvt[OF p]) (simp add: pe_simps)
  then show ?case
    using Cons by (cases "tw_event_new_user_prio c (to_gid x) (offset_ts x) lp (prio x) pe") (auto simp: new_gvt[OF p] ebind_map ebind_map[unfolded id_def])
qed simp

lemma sends_keep_gvt:
  assumes "protocol c = SEQUENTIAL" "\<forall>x \<in> set xs. map_pe c (to_gid x) = mynode c" "do_sends c net lp xs pe = Inr pe'"
  shows "GVT_sig pe' = GVT_sig pe"
proof -
  have "with_gvt (GVT_sig pe) pe = pe" by (simp add: with_gvt_def)
  then have "pe' = with_gvt (GVT_sig pe) pe'" using sends_gvt[OF assms(1,2), of net lp "GVT_sig pe" pe] assms(3) by simp
  then show ?thesis by (metis with_gvt_sel(13))
qed

lemma sends_optimistic:
  assumes p: "protocol c = SEQUENTIAL" and l: "\<forall>x \<in> set xs. map_pe c (to_gid x) = mynode c"
  shows "do_sends c net lp xs pe = Inl no_buffers \<or>
    do_sends (optimistic c) net' lp xs (with_gvt g pe) = map_sum id (with_gvt g) (do_sends c net lp xs pe)"
  using l
proof (induction xs arbitrary: pe)
  case (Cons x xs)
  let ?n = "tw_event_new_user_prio c (to_gid x) (offset_ts x) lp (prio x) pe"
  show ?case
  proof (cases ?n)
    case (Inl e)
    then show ?thesis using new_optimistic[OF p, of "to_gid x" "offset_ts x" lp "prio x" "with_gvt g pe"]
      by (auto simp: new_gvt[OF p])
  next
    case (Inr r)
    obtain e pe1 where r: "r = (e, pe1)" by (cases r)
    have n': "tw_event_new_user_prio (optimistic c) (to_gid x) (offset_ts x) lp (prio x) (with_gvt g pe) = Inr (e, with_gvt g pe1)"
      using new_optimistic[OF p, of "to_gid x" "offset_ts x" lp "prio x" "with_gvt g pe"] Inr r by (simp add: new_gvt[OF p])
    let ?pe = "upd_ev e (\<lambda>v. v\<lparr>msg := content x\<rparr>) pe1"
    have d: "map_pe c (dest_lp (heap ?pe e)) = mynode c"
      using new_dest[OF Inr[unfolded r]] Cons.prems by (simp add: pe_simps)
    note s = send_gvt[OF p d, of net' g net]
    show ?thesis
    proof (cases "tw_event_send c net e ?pe")
      case (Inl err)
      then show ?thesis using Inr r n' s by (simp add: with_gvt_upd send_optimistic[OF p])
    next
      case (Inr pe2)
      then show ?thesis using \<open>?n = Inr r\<close> r n' s Cons.IH[of pe2] Cons.prems by (simp add: with_gvt_upd send_optimistic[OF p])
    qed
  qed
qed simp

section \<open>The invariant of the sequential run\<close>

text \<open>
  What the sequential scheduler needs of a model: the handler sends at most \<open>n\<close> events, to LPs of
  this process and into the future, for every event from the time \<open>t0\<close> on, and it and the commit handler
  keep the states \<open>G\<close>. Nothing is asked of a reverse handler.
\<close>

definition seq_model :: "('st, 'bf, 'm) config \<Rightarrow> ('st \<Rightarrow> bool) \<Rightarrow> nat \<Rightarrow> real \<Rightarrow> bool" where
  "seq_model c G n t0 \<longleftrightarrow> protocol c = SEQUENTIAL \<and>
     (\<forall>e :: ('bf, 'm) pevent. \<forall>st. wf_sig (qsig e) \<longrightarrow> t0 \<le> recv_ts (qsig e) \<longrightarrow> G st \<longrightarrow> sends_ok c n e st) \<and>
     (\<forall>lp s st m. G st \<longrightarrow> G (o_state (event_h c lp s st (bf0 c) m))) \<and>
     (\<forall>f lp st bf m. commit_h c = Some f \<longrightarrow> G st \<longrightarrow> G (f lp st bf m))"

text \<open>All events in use are pending, and none is before the time of any KP.\<close>

definition seq_inv :: "('st, 'bf, 'm) config \<Rightarrow> addr set \<Rightarrow> ('st \<Rightarrow> bool) \<Rightarrow> ('st, 'bf, 'm, 'z) tw_pe_scheme \<Rightarrow> bool" where
  "seq_inv c U G pe \<longleftrightarrow> pe_ok c U [] [] pe \<and> event_q pe = [] \<and> cancel_q pe = [] \<and> (\<forall>k. pevents pe k = []) \<and>
     (\<forall>i. G (cur_state (lps pe i))) \<and> abort_event c \<notin> U \<and> wf_sig (qsig (heap pe (abort_event c))) \<and>
     (\<forall>k. \<forall>b \<in> U. qowner (heap pe b) = TW_pe_pq \<longrightarrow> sig_key (last_sig (kps pe k)) \<le> sig_key (qsig (heap pe b)))"

lemma seq_invD:
  assumes "seq_inv c U G pe"
  shows "pe_ok c U [] [] pe" "event_q pe = []" "cancel_q pe = []" "pevents pe k = []" "G (cur_state (lps pe i))"
    "abort_event c \<notin> U" "wf_sig (qsig (heap pe (abort_event c)))"
    "b \<in> U \<Longrightarrow> qowner (heap pe b) = TW_pe_pq \<Longrightarrow> sig_key (last_sig (kps pe k)) \<le> sig_key (qsig (heap pe b))"
  using assms by (simp_all add: seq_inv_def)

text \<open>The configuration counts only for what both protocols share.\<close>

lemma same_config:
  "pe_ok (optimistic c) = pe_ok c" "causal (optimistic c) = causal c" "running (optimistic c) = running c"
  "sends_ok (optimistic c) = sends_ok c" "send_ok (optimistic c) = send_ok c" "fresh_ids (optimistic c) = fresh_ids c"
  "Process.sent (optimistic c) = Process.sent c" "kps_behind (optimistic c) = kps_behind c"
proof -
  have o: "owned (optimistic c) = owned c" by (simp add: owned_def fun_eq_iff)
  show p: "pe_ok (optimistic c) = pe_ok c" by (simp add: pe_ok_def o fun_eq_iff)
  show cs: "causal (optimistic c) = causal c" by (simp add: causal_def fun_eq_iff)
  have a: "as_processed (optimistic c) = as_processed c" by (simp add: as_processed_def fun_eq_iff)
  show "running (optimistic c) = running c" by (simp add: running_def p cs a fun_eq_iff)
  show so: "send_ok (optimistic c) = send_ok c" by (simp add: send_ok_def fun_eq_iff)
  show "sends_ok (optimistic c) = sends_ok c" by (simp add: sends_ok_def so fun_eq_iff)
  show "fresh_ids (optimistic c) = fresh_ids c" by (simp add: fresh_ids_def fun_eq_iff)
  show k: "kps_behind (optimistic c) = kps_behind c" by (simp add: kps_behind_def fun_eq_iff)
  show "Process.sent (optimistic c) = Process.sent c" by (simp add: Process.sent_def k fun_eq_iff)
qed

text \<open>The event that was processed goes to the free list: the queues are as before without it.\<close>

lemma free_running:
  assumes r: "running c U [] a pe" and e: "event_q pe = []" "cancel_q pe = []" "\<forall>k. pevents pe k = []"
    and h: "heap pe' = (heap pe)(a := (heap pe a)\<lparr>out_msgs := [], qowner := TW_pe_free_q\<rparr>)"
    and f: "free_q pe' = a # free_q pe" "pq pe' = pq pe" "cancel_q pe' = []"
    and g: "good_streams pe'" "wf_sig (GVT_sig pe')" "\<forall>k. last_sig (kps pe' k) = last_sig (kps pe k)" "\<forall>k. pevents pe' k = []"
  shows "pe_ok c U [] [] pe'"
proof -
  let ?V = "as_processed c a pe" and ?k = "kp_of c (dest_lp (heap pe a))"
  have a: "a \<in> U" "qowner (heap pe a) = No_owner" and ok: "pe_ok c U [] [] ?V" using r e by (simp_all add: running_def)
  have pv: "pevents ?V j = (if j = ?k then [a] else [])" for j using e(3) by simp
  have o: "owned c U (heap ?V) (free_q pe) [] (pq pe) (pevents ?V)" using pe_okD(3)[OF ok] by simp
  note D = ownedD[OF o]
  have w: "qowner (heap pe' b) = (if b = a then TW_pe_free_q else qowner (heap ?V b))" for b by (simp add: h)
  have rest: "caused_by_me (heap pe' b) = caused_by_me (heap ?V b)" "st_cancel_q (heap pe' b) = st_cancel_q (heap ?V b)"
    "aborted_total (heap pe' b) = aborted_total (heap ?V b)" "qsig (heap pe' b) = qsig (heap ?V b)"
    "dest_lp (heap pe' b) = dest_lp (heap ?V b)" "ev_recv_ts (heap pe' b) = ev_recv_ts (heap ?V b)"
    "rand_key (heap pe' b) = rand_key (heap ?V b)" for b
    by (simp_all add: h)
  have aV: "qowner (heap ?V a) = TW_kp_pevent_q" by simp
  have proc: "{b \<in> U. qowner (heap ?V b) = TW_kp_pevent_q \<and> kp_of c (dest_lp (heap ?V b)) = j} = set (pevents ?V j)" for j
    by (rule D(7)[symmetric])
  have one: "b = a" if "b \<in> U" "qowner (heap ?V b) = TW_kp_pevent_q" for b
    using proc[of "kp_of c (dest_lp (heap ?V b))"] that pv by (auto split: if_splits)
  have none: "qowner (heap pe' b) \<noteq> TW_kp_pevent_q" if "b \<in> U" for b
  proof
    assume p: "qowner (heap pe' b) = TW_kp_pevent_q"
    then have "b \<noteq> a" using w[of b] by auto
    then have "qowner (heap ?V b) = TW_kp_pevent_q" using p w[of b] by simp
    then show False using one[OF that] \<open>b \<noteq> a\<close> by simp
  qed
  have ks: "key_at (heap pe') = key_at (heap ?V)" "wf_at (heap pe') = wf_at (heap ?V)"
    by (rule key_at_cong, simp only: rest, rule wf_at_cong, simp only: rest)
  have live: "{b \<in> U. live_owner (qowner (heap pe' b))} \<subseteq> {b \<in> U. live_owner (qowner (heap ?V b))}"
    using a aV by (auto simp: w live_owner_def split: if_splits)
  have "owned c U (heap pe') (a # free_q pe) [] (pq pe) (\<lambda>k. [])"
    unfolding owned_def ks
  proof (intro conjI allI ballI)
    show "finite U" "card U < 2 ^ 32 - 1" using o by (simp_all add: owned_def)
    show "distinct (a # free_q pe)" using D(2,4) aV by auto
    show "pq_inv (key_at (heap ?V)) (wf_at (heap ?V)) (pq pe)" using o by (simp add: owned_def)
    show "set (a # free_q pe) = {b \<in> U. qowner (heap pe' b) = TW_pe_free_q}" using D(4) a(1) by (auto simp: w)
    show "set [] = {b \<in> U. qowner (heap pe' b) = TW_pe_event_q}" using D(5) aV by (auto simp: w)
    show "set (contents (pq pe)) = {b \<in> U. qowner (heap pe' b) = TW_pe_pq}" unfolding D(6) using aV by (auto simp: w)
    show "set [] = {b \<in> U. qowner (heap pe' b) = TW_kp_pevent_q \<and> kp_of c (dest_lp (heap pe' b)) = k}" for k using none by auto
    show "wf_sig (qsig (heap pe' b))" if "b \<in> U" for b unfolding rest(4) by (rule D(9)[OF that])
    show "inj_on (key_at (heap ?V)) {b \<in> U. live_owner (qowner (heap pe' b))}" by (rule inj_on_subset[OF D(10) live])
  qed simp_all
  moreover have "processed U (heap pe') = {}" using none by auto
  moreover have "kids U (heap pe') (processed U (heap pe'))" unfolding calculation(2) by (simp add: kids_def)
  moreover have "cancel_ok U (heap pe') ([] @ cancel_q pe')"
  proof -
    note C = pe_okD(5)[OF ok]
    have "{b \<in> U. in_use (qowner (heap ?V b)) \<and> st_cancel_q (heap ?V b)} = {}" using cancel_okD(2)[OF C] e(2) by simp
    then have "{b \<in> U. in_use (qowner (heap pe' b)) \<and> st_cancel_q (heap pe' b)} = {}"
      unfolding rest(2) w using aV by (auto simp: in_use_def live_owner_def split: if_splits)
    moreover have "\<forall>b \<in> U. qowner (heap pe' b) = TW_pe_anti_msg \<longrightarrow> st_cancel_q (heap pe' b)"
    proof (intro ballI impI)
      fix b assume b: "b \<in> U" "qowner (heap pe' b) = TW_pe_anti_msg"
      then have "b \<noteq> a" using w[of b] by auto
      then have "qowner (heap ?V b) = TW_pe_anti_msg" using b(2) w[of b] by simp
      then show "st_cancel_q (heap pe' b)" unfolding rest(2) by (rule cancel_okD(4)[OF C b(1)])
    qed
    ultimately show ?thesis unfolding cancel_ok_def f(3) using none by auto
  qed
  moreover have "ev_recv_ts (heap pe' b) = recv_ts (qsig (heap pe' b))" if "b \<in> U" "live_owner (qowner (heap pe' b))" for b
    unfolding rest(4,6) by (rule pe_okD(6)[OF ok]) (use that live in auto)
  moreover have "idle (heap pe' b)" if "b \<in> U" for b
    using pe_okD(9)[OF ok that] unfolding idle_def rest(1,3) w by (cases "b = a") auto
  moreover have "wf_sig (last_sig (kps pe' k))" for k using pe_okD(8)[OF ok, of k] g(3) by simp
  moreover have "pevents pe' = (\<lambda>k. [])" using g(4) by (simp add: fun_eq_iff)
  ultimately show ?thesis using pe_okD(1)[OF ok] g(1,2) f by (intro pe_okI) simp_all
qed

section \<open>One event\<close>

lemma dequeue_gvt: "pq_dequeue (with_gvt g pe) = map_sum id (map_prod id (with_gvt g)) (pq_dequeue pe)"
  unfolding pq_dequeue_def
  by (cases "tw_pq_dequeue (pq pe)") (auto simp: with_gvt_upd split: option.splits)

text \<open>The state in which the handler has run but its events are not sent.\<close>

definition handled :: "('st, 'bf, 'm) config \<Rightarrow> addr \<Rightarrow> ('st, 'bf, 'm) outcome \<Rightarrow> ('st, 'bf, 'm, 'z) tw_pe_scheme
    \<Rightarrow> ('st, 'bf, 'm, 'z) tw_pe_scheme" where
  "handled c a out pe =
     (let lp = dest_lp (heap pe a);
          pe = upd_ev a (\<lambda>v. v\<lparr>cv := o_bf out, msg := o_msg out\<rparr>) (upd_lp lp (\<lambda>l. l\<lparr>cur_state := o_state out\<rparr>) pe)
      in case o_suspend out of None \<Rightarrow> pe | Some (rc, n) \<Rightarrow> tw_lp_suspend c lp rc n pe)"

lemma handled_sel:
  "heap (handled c a out pe) = (heap pe)(a := (heap pe a)\<lparr>cv := o_bf out, msg := o_msg out\<rparr>)"
  "kps (handled c a out pe) = kps pe" "free_q (handled c a out pe) = free_q pe" "pq (handled c a out pe) = pq pe"
  "event_q (handled c a out pe) = event_q pe" "cancel_q (handled c a out pe) = cancel_q pe" "GVT_sig (handled c a out pe) = GVT_sig pe"
  "cur_event (handled c a out pe) = cur_event pe" "seq_num (handled c a out pe) = seq_num pe"
  "core_rng (lps (handled c a out pe) i) = core_rng (lps pe i)"
  "cur_state (lps (handled c a out pe) i) = (if i = dest_lp (heap pe a) then o_state out else cur_state (lps pe i))"
  by (cases "o_suspend out"; auto simp: handled_def Let_def pe_simps tw_lp_suspend_def)+

lemma run_event_handled:
  "run_event c net a pe =
     (let lp = dest_lp (heap pe a); out = event_h c lp (tw_now_sig c lp pe) (cur_state (lps pe lp)) (cv (heap pe a)) (msg (heap pe a))
      in do_sends c net lp (o_sends out) (handled c a out pe))"
  by (simp add: run_event_def handled_def Let_def)

lemma begin_gvt: "begin_event c a (with_gvt g pe) = with_gvt g (begin_event c a pe)"
  by (simp add: begin_event_def Let_def with_gvt_def upd_ev_def upd_kp_def set_last_sig_def)

lemma begin_sel:
  fixes pe c a defines "k \<equiv> kp_of c (dest_lp (heap pe a))"
  shows "heap (begin_event c a pe) = (heap pe)(a := (heap pe a)\<lparr>cv := bf0 c\<rparr>)" "lps (begin_event c a pe) = lps pe"
    "last_sig (kps (begin_event c a pe) j) = (if j = k then tw_copy_event_sig (last_sig (kps pe k)) (qsig (heap pe a)) else last_sig (kps pe j))"
    "pevents (begin_event c a pe) j = pevents pe j" "free_q (begin_event c a pe) = free_q pe" "pq (begin_event c a pe) = pq pe"
    "event_q (begin_event c a pe) = event_q pe" "cancel_q (begin_event c a pe) = cancel_q pe" "cur_event (begin_event c a pe) = a"
    "seq_num (begin_event c a pe) = seq_num pe" "GVT_sig (begin_event c a pe) = GVT_sig pe"
  by (simp_all add: begin_event_def Let_def pe_simps k_def)

lemma advance_sel:
  "heap (advance_critical_path a pe) = heap pe" "kps (advance_critical_path a pe) = kps pe" "free_q (advance_critical_path a pe) = free_q pe"
  "pq (advance_critical_path a pe) = pq pe" "event_q (advance_critical_path a pe) = event_q pe" "cancel_q (advance_critical_path a pe) = cancel_q pe"
  "GVT_sig (advance_critical_path a pe) = GVT_sig pe" "cur_event (advance_critical_path a pe) = cur_event pe"
  "seq_num (advance_critical_path a pe) = seq_num pe"
  "core_rng (lps (advance_critical_path a pe) i) = core_rng (lps pe i)" "cur_state (lps (advance_critical_path a pe) i) = cur_state (lps pe i)"
  by (simp_all add: advance_critical_path_def pe_simps)

text \<open>
  The start of an event: with its time as GVT, the least pending event is in the handler as the
  optimistic scheduler would have it.
\<close>

lemma start_running:
  assumes i: "seq_inv c U G pe" and f: "fresh_ids c U n pe" and q: "contents (pq pe) = a # as"
  defines "g \<equiv> qsig (heap pe a)"
  shows "\<exists>pe1. pq_dequeue pe = Inr (Some a, pe1) \<and> a \<in> U \<and> qowner (heap pe a) = TW_pe_pq \<and>
    running c U [] a (with_gvt g (begin_event c a pe1)) \<and> fresh_ids c U n (with_gvt g (begin_event c a pe1)) \<and>
    heap pe1 = (heap pe)(a := (heap pe a)\<lparr>qowner := No_owner\<rparr>) \<and> lps pe1 = lps pe \<and> kps pe1 = kps pe \<and> event_q pe1 = [] \<and>
    cancel_q pe1 = [] \<and> GVT_sig pe1 = GVT_sig pe"
proof -
  let ?W = "with_gvt g pe" and ?k = "kp_of c (dest_lp (heap pe a))"
  note I = seq_invD[OF i]
  have o: "owned c U (heap pe) (free_q pe) [] (pq pe) (pevents pe)" by (rule pe_okD(3)[OF I(1)])
  have a: "a \<in> U" "qowner (heap pe a) = TW_pe_pq" using ownedD(6)[OF o] q by auto
  have wf: "wf_sig g" using ownedD(9)[OF o a(1)] by (simp add: g_def)
  have ok: "pe_ok c U (event_q ?W) [] ?W"
    using I(1,2) wf by (simp add: pe_ok_def good_streams_def)
  have least: "sig_key g \<le> sig_key (qsig (heap pe b))" if "b \<in> U" "qowner (heap pe b) = TW_pe_pq" for b
    using least_key_sig[OF I(1) q, of b] ownedD(6)[OF o] q that unfolding g_def by (cases "b = a") auto
  have live: "qowner (heap pe b) = TW_pe_pq" if "b \<in> U" "live_owner (qowner (heap pe b))" for b
    using that ownedD(5)[OF o] ownedD(7)[OF o, of "kp_of c (dest_lp (heap pe b))"] I(4) by (auto simp: live_owner_def)
  have ca: "causal c U ?W"
    using I(4) I(8)[OF a, folded g_def] I(8) least live by (simp add: causal_def)
  obtain p1 where p: "pq_dequeue ?W = Inr (Some a, p1)" "heap p1 = (heap pe)(a := (heap pe a)\<lparr>qowner := No_owner\<rparr>)"
      "lps p1 = lps pe" "kps p1 = kps pe" "event_q p1 = []" "cancel_q p1 = []" "seq_num p1 = seq_num pe"
      "running c U [] a (set_last_sig ?k (tw_copy_event_sig (last_sig (kps pe ?k)) (qsig (heap pe a))) (p1\<lparr>cur_event := a\<rparr>))"
    using dequeue_running[OF ok ca I(6)] I(2,3,7) q by auto
  obtain pe1 where d: "pq_dequeue pe = Inr (Some a, pe1)" "p1 = with_gvt g pe1"
    using p(1) unfolding dequeue_gvt by (cases "pq_dequeue pe") auto
  have s: "heap pe1 = (heap pe)(a := (heap pe a)\<lparr>qowner := No_owner\<rparr>)" "lps pe1 = lps pe" "kps pe1 = kps pe" "event_q pe1 = []"
    "cancel_q pe1 = []" "seq_num pe1 = seq_num pe" using p(2-7) by (simp_all add: d(2))
  let ?S = "set_last_sig ?k (tw_copy_event_sig (last_sig (kps pe ?k)) (qsig (heap pe a))) (p1\<lparr>cur_event := a\<rparr>)"
  have "running c U [] a (with_gvt g (begin_event c a pe1))"
  proof (rule running_upd[OF p(8), where b = "bf0 c" and m = "msg (heap ?S a)" and p = "critical_path (heap ?S a)"])
    have "good_streams pe" by (rule pe_okD(2)[OF I(1)])
    then show "good_streams (with_gvt g (begin_event c a pe1))" by (simp add: good_streams_def begin_sel s)
  qed (simp_all add: pe_simps d(2) begin_sel s)
  moreover have "fresh_ids c U n (with_gvt g (begin_event c a pe1))"
    using f a unfolding fresh_ids_def by (auto simp: begin_sel s live_owner_def)
  moreover have "GVT_sig pe1 = GVT_sig pe" by (rule pq_dequeue_frame(4)[OF d(1)])
  ultimately show ?thesis using d(1) a s by blast
qed

text \<open>The handler runs and its events are sent, unless there are no buffers.\<close>

lemma run_event_ok:
  assumes r: "running c U [] a (with_gvt g m)" and e: "event_q m = []" "cancel_q m = []" and k: "kps_behind c a m"
    and f: "fresh_ids c U (n + l) (with_gvt g m)" and mo: "seq_model c G n t0" and cv: "cv (heap m a) = bf0 c"
    and late: "t0 \<le> recv_ts (qsig (heap m a))" and gs: "\<forall>i. G (cur_state (lps m i))"
  shows "run_event c net a m = Inl no_buffers \<or>
    (\<exists>m'. run_event c net a m = Inr m' \<and> running c U [] a (with_gvt g m') \<and> fresh_ids c U l (with_gvt g m') \<and> kps m' = kps m \<and>
       event_q m' = [] \<and> cancel_q m' = [] \<and> qsig (heap m' a) = qsig (heap m a) \<and> dest_lp (heap m' a) = dest_lp (heap m a) \<and>
       (\<forall>i. G (cur_state (lps m' i))) \<and> (\<forall>b \<in> U. b \<noteq> a \<longrightarrow> qowner (heap m b) \<noteq> TW_pe_free_q \<longrightarrow> heap m' b = heap m b) \<and>
       kids_later U a m m' \<and> GVT_sig m' = GVT_sig m)"
proof -
  let ?lp = "dest_lp (heap m a)"
  define out where "out = event_h c ?lp (tw_now_sig c ?lp m) (cur_state (lps m ?lp)) (cv (heap m a)) (msg (heap m a))"
  define h where "h = handled c a out m"
  let ?xs = "o_sends out" and ?h = "with_gvt g h"
  have run: "run_event c net a m = do_sends c net ?lp ?xs h" unfolding run_event_handled Let_def out_def h_def ..
  have p: "protocol c = SEQUENTIAL" using mo by (simp add: seq_model_def)
  note R = running_facts[OF r]
  have ks: "sig_key (tw_now_sig c ?lp m) = sig_key (qsig (heap m a))" using r by (simp add: running_def tw_now_sig_def)
  have wf: "wf_sig (qsig (heap m a))" using R(5) by simp
  then have "sends_ok c n (heap m a) (cur_state (lps m ?lp))" using mo gs late by (simp add: seq_model_def)
  then have xs: "length ?xs \<le> n" "\<forall>x \<in> set ?xs. send_ok c (qsig (heap m a)) x"
    using ks cv unfolding sends_ok_def out_def by metis+
  have loc: "\<forall>x \<in> set ?xs. map_pe c (to_gid x) = mynode c" using xs(2) by (simp add: send_ok_def)
  have gst: "good_streams ?h" using R(2) by (simp add: good_streams_def h_def handled_sel)
  have rh: "running c U [] a ?h"
    by (rule running_upd[OF r, where b = "o_bf out" and m = "o_msg out" and p = "critical_path (heap m a)"])
      (use gst in \<open>simp_all add: h_def handled_sel\<close>)
  have ch: "qsig (heap h a) = qsig (heap m a)" "dest_lp (heap h a) = ?lp" "qowner (heap h b) = qowner (heap m b)" for b
    by (simp_all add: h_def handled_sel)
  have fh: "fresh_ids c U (length ?xs + l) ?h"
    using fresh_ids_mono[OF f, of "length ?xs + l"] xs(1) unfolding fresh_ids_def by (auto simp: h_def handled_sel split: if_splits)
  note S = do_sends_ok[where c = "optimistic c", unfolded same_config]
  obtain q where q: "do_sends (optimistic c) net ?lp ?xs ?h = Inr q" "running c U [] a q" "Process.sent c U a (length ?xs) ?h q" "fresh_ids c U l q"
    using S[OF rh _ _ _ fh] xs(2) by (auto simp: ch)
  show ?thesis
  proof (cases "do_sends c net ?lp ?xs h = Inl no_buffers")
    case True
    then show ?thesis unfolding run by blast
  next
    case False
    then have "do_sends (optimistic c) net ?lp ?xs ?h = map_sum id (with_gvt g) (do_sends c net ?lp ?xs h)"
      using sends_optimistic[OF p loc, of net ?lp h net g] by blast
    then obtain m' where m': "do_sends c net ?lp ?xs h = Inr m'" "q = with_gvt g m'"
      using q(1) by (cases "do_sends c net ?lp ?xs h") auto
    have kb: "kps_behind c a ?h" using k by (simp add: kps_behind_def h_def handled_sel)
    have s: "kps m' = kps h" "event_q m' = event_q h" "cancel_q m' = cancel_q h" "kids_later U a ?h q"
      "lps m' = (lps h)(?lp := (lps h ?lp)\<lparr>core_rng := (core_fwd ^^ length ?xs) (core_rng (lps h ?lp))\<rparr>)"
      "\<forall>b \<in> U. b \<noteq> a \<longrightarrow> qowner (heap h b) \<noteq> TW_pe_free_q \<longrightarrow> heap m' b = heap h b"
      using q(3) kb unfolding Process.sent_def Let_def m'(2) by (simp_all add: ch)
    obtain cs t where c': "heap m' a = (heap h a)\<lparr>caused_by_me := cs, aborted_total := t\<rparr>"
      using q(3) unfolding Process.sent_def Let_def m'(2) by auto
    have gs': "G (cur_state (lps m' i))" for i
    proof -
      have "G (o_state out)" using mo gs unfolding seq_model_def out_def cv by blast
      then show ?thesis using gs by (simp add: s(5) h_def handled_sel)
    qed
    have kl: "kids_later U a m m'" using s(4) unfolding kids_later_def m'(2) by (simp add: ch)
    have same: "\<forall>b \<in> U. b \<noteq> a \<longrightarrow> qowner (heap m b) \<noteq> TW_pe_free_q \<longrightarrow> heap m' b = heap m b"
      using s(6) by (simp add: h_def handled_sel)
    have "kps m' = kps m" "event_q m' = []" "cancel_q m' = []" using s(1-3) e by (simp_all add: h_def handled_sel)
    moreover have "qsig (heap m' a) = qsig (heap m a)" "dest_lp (heap m' a) = ?lp" by (simp_all add: c' ch)
    moreover have "GVT_sig m' = GVT_sig m" using sends_keep_gvt[OF p loc m'(1)] by (simp add: h_def handled_sel)
    ultimately show ?thesis using m'(1) q(2,4) gs' kl same unfolding run m'(2) by blast
  qed
qed

lemma sequential_step:
  assumes i: "seq_inv c U G pe" and mo: "seq_model c G n t0" and f: "fresh_ids c U (n + l) pe" and q: "contents (pq pe) = a # as"
    and late: "t0 \<le> recv_ts (qsig (heap pe a))"
  shows "\<exists>pe1. pq_dequeue pe = Inr (Some a, pe1) \<and>
    (sequential_event c net a pe1 = Inl no_buffers \<or> sequential_event c net a pe1 = Inl no_memory \<or>
     (\<exists>pe2. sequential_event c net a pe1 = Inr pe2 \<and> seq_inv c U G pe2 \<and> fresh_ids c U l pe2 \<and> cur_event pe2 = a \<and>
        qsig (heap pe2 a) = qsig (heap pe a) \<and>
        (\<forall>b \<in> U. qowner (heap pe2 b) = TW_pe_pq \<longrightarrow> sig_key (qsig (heap pe a)) \<le> sig_key (qsig (heap pe2 b)))))"
proof -
  let ?g = "qsig (heap pe a)"
  note I = seq_invD[OF i]
  obtain pe1 where d: "pq_dequeue pe = Inr (Some a, pe1)" "a \<in> U" "qowner (heap pe a) = TW_pe_pq"
    "running c U [] a (with_gvt ?g (begin_event c a pe1))" "fresh_ids c U (n + l) (with_gvt ?g (begin_event c a pe1))"
    "heap pe1 = (heap pe)(a := (heap pe a)\<lparr>qowner := No_owner\<rparr>)" "lps pe1 = lps pe" "kps pe1 = kps pe" "event_q pe1 = []"
    "cancel_q pe1 = []" "GVT_sig pe1 = GVT_sig pe"
    using start_running[OF i f q] by blast
  define m where "m = advance_critical_path a (begin_event c a pe1)"
  have dl: "dest_lp (heap pe1 a) = dest_lp (heap pe a)" by (simp add: d(6))
  have sm: "heap m = (heap pe)(a := (heap pe a)\<lparr>qowner := No_owner, cv := bf0 c\<rparr>)" "event_q m = []" "cancel_q m = []"
    "pevents m j = []" "GVT_sig m = GVT_sig pe" "cur_state (lps m j) = cur_state (lps pe j)" for j
    unfolding m_def by (simp_all add: advance_sel begin_sel d I(4))
  have ls: "sig_key (last_sig (kps m j)) \<le> sig_key ?g" for j
  proof -
    have "sig_key (last_sig (kps pe j)) \<le> sig_key ?g" by (rule I(8)[OF d(2,3)])
    moreover have "wf_sig (last_sig (kps pe j))" for j by (rule pe_okD(8)[OF I(1)])
    moreover have "wf_sig ?g" using ownedD(9)[OF pe_okD(3)[OF I(1)] d(2)] .
    ultimately show ?thesis unfolding m_def by (simp add: advance_sel begin_sel d(6,8))
  qed
  have gst: "good_streams (with_gvt ?g m)" using running_facts(2)[OF d(4)] by (simp add: good_streams_def m_def advance_sel)
  have rm: "running c U [] a (with_gvt ?g m)"
    by (rule running_upd[OF d(4), where b = "bf0 c" and m = "msg (heap m a)" and p = "critical_path (heap m a)"])
      (use gst in \<open>simp_all add: m_def advance_sel begin_sel d(6)\<close>)
  have fm: "fresh_ids c U (n + l) (with_gvt ?g m)" using d(5) by (simp add: fresh_ids_def m_def advance_sel)
  have kb: "kps_behind c a m" unfolding kps_behind_def using ls by (simp add: sm(1))
  have lm: "recv_ts (qsig (heap m a)) = recv_ts (qsig (heap pe a))" by (simp add: sm(1))
  have cvm: "cv (heap m a) = bf0 c" and gm: "\<forall>i. G (cur_state (lps m i))" using I(5) by (simp_all add: sm)
  have ev: "sequential_event c net a pe1 = ebind (run_event c net a m) (\<lambda>me.
      let me = run_commit c (dest_lp (heap pe a)) a me in
      if cev_abort me then Inl no_memory else Inr (tw_event_free a (count_processed (kp_of c (dest_lp (heap pe a))) 1 me)))"
    by (simp add: sequential_event_def Let_def m_def dl)
  show ?thesis
  proof (cases "run_event c net a m = Inl no_buffers")
    case True
    then show ?thesis using d(1) ev by simp
  next
    case False
    then obtain m' where m': "run_event c net a m = Inr m'" "running c U [] a (with_gvt ?g m')" "fresh_ids c U l (with_gvt ?g m')"
      "kps m' = kps m" "event_q m' = []" "cancel_q m' = []" "qsig (heap m' a) = qsig (heap m a)" "dest_lp (heap m' a) = dest_lp (heap m a)"
      "\<forall>i. G (cur_state (lps m' i))" "\<forall>b \<in> U. b \<noteq> a \<longrightarrow> qowner (heap m b) \<noteq> TW_pe_free_q \<longrightarrow> heap m' b = heap m b"
      "kids_later U a m m'" "GVT_sig m' = GVT_sig m"
      using run_event_ok[OF rm sm(2,3) kb fm mo cvm late[folded lm] gm, of net] by (elim disjE exE conjE) (blast, rule that, assumption+)
    define v where "v = run_commit c (dest_lp (heap pe a)) a m'"
    define pe2 where "pe2 = tw_event_free a (count_processed (kp_of c (dest_lp (heap pe a))) 1 v)"
    have sv: "heap v = heap m'" "kps v = kps m'" "free_q v = free_q m'" "pq v = pq m'" "event_q v = event_q m'" "cancel_q v = cancel_q m'"
      "GVT_sig v = GVT_sig m'" "cur_event v = cur_event m'" "seq_num v = seq_num m'" "core_rng (lps v j) = core_rng (lps m' j)" for j
      unfolding v_def run_commit_def by (cases "commit_h c"; simp add: pe_simps)+
    have gv: "G (cur_state (lps v j))" for j
      using m'(9) mo unfolding v_def run_commit_def seq_model_def by (cases "commit_h c") (auto simp: pe_simps)
    have s2: "heap pe2 = (heap m')(a := (heap m' a)\<lparr>out_msgs := [], qowner := TW_pe_free_q\<rparr>)" "free_q pe2 = a # free_q m'" "pq pe2 = pq m'"
      "event_q pe2 = []" "cancel_q pe2 = []" "lps pe2 = lps v" "GVT_sig pe2 = GVT_sig m'" "cur_event pe2 = cur_event m'" "seq_num pe2 = seq_num m'"
      "pevents pe2 j = []" "last_sig (kps pe2 j) = last_sig (kps m j)" for j
      unfolding pe2_def count_processed_def using m'(4-6) sm(4) by (simp_all add: pe_simps sv)
    have cur: "cur_event m' = a" using m'(2) by (simp add: running_def)
    have ab: "abort_event c \<noteq> a" "wf_sig (qsig (heap m' (abort_event c)))" using m'(2) by (auto simp: running_def)
    have gvt: "GVT_sig m' = GVT_sig pe"
      using m'(12) by (simp add: sm)
    have "pe_ok c U [] [] pe2"
    proof (rule free_running[OF m'(2)])
      show "good_streams pe2" using running_facts(2)[OF m'(2)] by (simp add: good_streams_def s2(6) sv(10))
      show "wf_sig (GVT_sig pe2)" unfolding s2(7) gvt by (rule pe_okD(7)[OF I(1)])
    qed (simp_all add: s2 m' sm)
    have later: "sig_key ?g \<le> sig_key (qsig (heap pe2 b))" if b: "b \<in> U" "qowner (heap pe2 b) = TW_pe_pq" for b
    proof -
      have ba: "b \<noteq> a" "heap pe2 b = heap m' b" using b(2) by (auto simp: s2(1) split: if_splits)
      show ?thesis
      proof (cases "qowner (heap m b) = TW_pe_free_q")
        case True
        then show ?thesis using m'(11) b ba unfolding kids_later_def sm(1) by (auto simp: less_imp_le)
      next
        case False
        then have "heap m' b = heap pe b" using m'(10) b(1) ba(1) by (simp add: sm(1))
        then have "qowner (heap pe b) = TW_pe_pq" "qsig (heap pe2 b) = qsig (heap pe b)" using b(2) ba by simp_all
        moreover have "set (contents (pq pe)) = {x \<in> U. qowner (heap pe x) = TW_pe_pq}" by (rule ownedD(6)[OF pe_okD(3)[OF I(1)]])
        ultimately show ?thesis using least_key_sig[OF I(1) q, of b] q b(1) ba(1) by auto
      qed
    qed
    have "seq_inv c U G pe2"
      unfolding seq_inv_def
    proof (intro conjI allI ballI impI)
      show "sig_key (last_sig (kps pe2 k)) \<le> sig_key (qsig (heap pe2 b))" if "b \<in> U" "qowner (heap pe2 b) = TW_pe_pq" for k b
        using ls[of k] later[OF that] by (simp add: s2)
    qed (use I(6) gv ab \<open>pe_ok c U [] [] pe2\<close> in \<open>simp_all add: s2\<close>)
    moreover have "fresh_ids c U l pe2"
      using m'(3) cur unfolding fresh_ids_def by (auto simp: s2 live_owner_def split: if_splits)
    moreover have "qsig (heap pe2 a) = ?g" using m'(7) by (simp add: s2 sm)
    moreover have "sequential_event c net a pe1 = (if cev_abort v then Inl no_memory else Inr pe2)"
      unfolding ev m'(1) by (simp add: v_def pe2_def Let_def)
    ultimately show ?thesis using d(1) later cur s2(8) by (cases "cev_abort v") auto
  qed
qed

section \<open>The whole run\<close>

text \<open>The signatures of the events that are processed, in the order in which they are.\<close>

fun sequential_trace :: "nat \<Rightarrow> ('st, 'bf, 'm) config
    \<Rightarrow> (bool \<Rightarrow> ('st, 'bf, 'm, 'z) tw_pe_scheme \<Rightarrow> ('st, 'bf, 'm, 'z) tw_pe_scheme)
    \<Rightarrow> (addr \<Rightarrow> ('st, 'bf, 'm, 'z) pe_step) \<Rightarrow> ('st, 'bf, 'm, 'z) tw_pe_scheme \<Rightarrow> tw_event_sig list" where
  "sequential_trace 0 c hook ev me = []"
| "sequential_trace (Suc n) c hook ev me =
     (case sequential_round c hook ev me of
        Inr (True, me') \<Rightarrow> qsig (heap me' (cur_event me')) # sequential_trace n c hook ev me'
      | _ \<Rightarrow> [])"

lemma pq_minimum_least: "pq_inv key w q \<Longrightarrow> contents q = a # as \<Longrightarrow> tw_pq_minimum_sig_ptr hp q = qsig (hp a)"
  by (simp add: pq_inv_def tw_pq_minimum_sig_ptr_def)

lemma sequential_run:
  fixes hook net c pe and k :: nat
  assumes "seq_inv c U G pe" "seq_model c G n t0" "fresh_ids c U (k * n) pe" "\<not> has_hook c"
    and late: "\<forall>b \<in> set (contents (pq pe)). t0 \<le> recv_ts (qsig (heap pe b))"
  defines "r \<equiv> sequential_loop k c hook (sequential_event c net) pe" and "t \<equiv> sequential_trace k c hook (sequential_event c net) pe"
  shows "sorted (map sig_key t) \<and> (\<forall>s \<in> set t. recv_ts s \<le> ts_end c) \<and>
    (\<forall>z. (\<forall>b \<in> set (contents (pq pe)). z \<le> sig_key (qsig (heap pe b))) \<longrightarrow> (\<forall>s \<in> set t. z \<le> sig_key s)) \<and>
    (r = Inl no_buffers \<or> r = Inl no_memory \<or> r = Inl Out_Of_Fuel \<and> length t = k \<or>
     (\<exists>pe'. r = Inr pe' \<and> seq_inv c U G pe' \<and> (\<forall>b \<in> set (contents (pq pe')). ts_end c < recv_ts (qsig (heap pe' b)))))"
  using assms(1,3) late unfolding r_def t_def
proof (induction k arbitrary: pe)
  case (Suc k)
  note I = seq_invD[OF Suc.prems(1)]
  have o: "owned c U (heap pe) (free_q pe) [] (pq pe) (pevents pe)" by (rule pe_okD(3)[OF I(1)])
  then have inv: "pq_inv (key_at (heap pe)) (wf_at (heap pe)) (pq pe)" by (simp add: owned_def)
  have hk: "tw_gvt_hook_step_seq c hook pe = Inr pe" using assms(4) by (simp add: tw_gvt_hook_step_seq_def Let_def)
  note C = ownedD(6)[OF o]
  show ?case
  proof (cases "contents (pq pe)")
    case Nil
    then have "pq_dequeue pe = Inr (None, pe)"
      using pq.dequeue_empty[OF inv Nil] by (simp add: pq_dequeue_def)
    then have r: "sequential_round c hook (sequential_event c net) pe = Inr (False, pe)"
      by (simp add: sequential_round_def hk)
    show ?thesis using Nil Suc.prems(1) by (simp add: r)
  next
    case (Cons a as)
    have mn: "pq_minimum_ts pe = recv_ts (qsig (heap pe a))"
      unfolding pq_minimum_ts_def pq_minimum_least[OF inv Cons] ..
    have least: "sig_key (qsig (heap pe a)) \<le> sig_key (qsig (heap pe b))" if "b \<in> set (contents (pq pe))" for b
      using least_key_sig[OF I(1) Cons, of b] that Cons by auto
    show ?thesis
    proof (cases "pq_minimum_ts pe > ts_end c")
      case True
      then have r: "sequential_round c hook (sequential_event c net) pe = Inr (False, pe)"
        by (simp add: sequential_round_def hk)
      have "ts_end c < recv_ts (qsig (heap pe b))" if "b \<in> set (contents (pq pe))" for b
      proof -
        have "recv_ts (qsig (heap pe a)) \<le> recv_ts (qsig (heap pe b))"
          using least[OF that] by (auto simp: less_eq_prod_def)
        then show ?thesis using True mn by simp
      qed
      then show ?thesis using Suc.prems(1) by (simp add: r)
    next
      case False
      have f: "fresh_ids c U (n + k * n) pe" using Suc.prems(2) by simp
      obtain pe1 where d: "pq_dequeue pe = Inr (Some a, pe1)"
        and ev: "sequential_event c net a pe1 = Inl no_buffers \<or> sequential_event c net a pe1 = Inl no_memory \<or>
          (\<exists>pe2. sequential_event c net a pe1 = Inr pe2 \<and> seq_inv c U G pe2 \<and> fresh_ids c U (k * n) pe2 \<and> cur_event pe2 = a \<and>
            qsig (heap pe2 a) = qsig (heap pe a) \<and>
            (\<forall>b \<in> U. qowner (heap pe2 b) = TW_pe_pq \<longrightarrow> sig_key (qsig (heap pe a)) \<le> sig_key (qsig (heap pe2 b))))"
        using sequential_step[OF Suc.prems(1) assms(2) f Cons, of net] Suc.prems(3) Cons by auto
      have rd: "sequential_round c hook (sequential_event c net) pe =
          ebind (sequential_event c net a pe1) (\<lambda>me. Inr (True, me))"
        using False d by (simp add: sequential_round_def hk)
      show ?thesis
      proof (cases "\<exists>e. sequential_event c net a pe1 = Inl e")
        case True
        then show ?thesis using ev unfolding sequential_loop.simps sequential_trace.simps rd by auto
      next
        case False
        then obtain pe2 where s: "sequential_event c net a pe1 = Inr pe2" "seq_inv c U G pe2" "fresh_ids c U (k * n) pe2"
          "cur_event pe2 = a" "qsig (heap pe2 a) = qsig (heap pe a)"
          "\<forall>b \<in> U. qowner (heap pe2 b) = TW_pe_pq \<longrightarrow> sig_key (qsig (heap pe a)) \<le> sig_key (qsig (heap pe2 b))"
          using ev by blast
        let ?t = "sequential_trace k c hook (sequential_event c net) pe2"
        have "set (contents (pq pe2)) = {x \<in> U. qowner (heap pe2 x) = TW_pe_pq}"
          by (rule ownedD(6)[OF pe_okD(3)[OF seq_invD(1)[OF s(2)]]])
        then have "\<forall>b \<in> set (contents (pq pe2)). sig_key (qsig (heap pe a)) \<le> sig_key (qsig (heap pe2 b))" using s(6) by simp
        moreover from this have "\<forall>b \<in> set (contents (pq pe2)). t0 \<le> recv_ts (qsig (heap pe2 b))"
          using Suc.prems(3) Cons by (fastforce simp: less_eq_prod_def)
        note IH = Suc.IH[OF s(2,3) this]
        ultimately have lb: "\<forall>x \<in> set ?t. sig_key (qsig (heap pe a)) \<le> sig_key x" using IH by blast
        have l: "sequential_loop (Suc k) c hook (sequential_event c net) pe = sequential_loop k c hook (sequential_event c net) pe2"
          "sequential_trace (Suc k) c hook (sequential_event c net) pe = qsig (heap pe a) # ?t"
          unfolding sequential_loop.simps sequential_trace.simps rd by (simp_all add: s(1,4,5))
        have a1: "recv_ts (qsig (heap pe a)) \<le> ts_end c" using \<open>\<not> pq_minimum_ts pe > ts_end c\<close> mn by simp
        show ?thesis
          unfolding l
        proof (intro conjI allI impI)
          show "sorted (map sig_key (qsig (heap pe a) # ?t))" using IH lb by simp
          show "\<forall>x \<in> set (qsig (heap pe a) # ?t). recv_ts x \<le> ts_end c" using IH a1 by simp
          show "\<forall>x \<in> set (qsig (heap pe a) # ?t). z \<le> sig_key x"
            if z: "\<forall>b \<in> set (contents (pq pe)). z \<le> sig_key (qsig (heap pe b))" for z
          proof -
            have "z \<le> sig_key (qsig (heap pe a))" using z Cons by simp
            then show ?thesis using lb by (auto intro: order_trans)
          qed
        qed (use IH in simp)
      qed
    qed
  qed
qed simp

end
