(* ===== verification/Frames.thy ===== *)
theory Frames
  imports Time_Warp
begin

text \<open>
  What the protocol leaves alone: a function of the state that does not depend on the queues, the
  events, the LPs, the KPs and the counters of a PE, and that the network calls keep, is kept by
  every operation of the scheduler that returns.
\<close>

lemma ebindE: "ebind m f = Inr b \<Longrightarrow> (\<And>a. m = Inr a \<Longrightarrow> f a = Inr b \<Longrightarrow> P) \<Longrightarrow> P"
  by (cases m) auto

locale observation =
  fixes obs :: "('st, 'bf, 'm, 'z) tw_pe_scheme \<Rightarrow> 'o" and net :: "('st, 'bf, 'm, 'z) tw_pe_scheme net_ops"
  assumes upd [simp]:
      "obs (pe\<lparr>heap := h\<rparr>) = obs pe" "obs (pe\<lparr>lps := l\<rparr>) = obs pe" "obs (pe\<lparr>kps := k\<rparr>) = obs pe"
      "obs (pe\<lparr>event_q := q\<rparr>) = obs pe" "obs (pe\<lparr>cancel_q := q\<rparr>) = obs pe" "obs (pe\<lparr>pq := p\<rparr>) = obs pe"
      "obs (pe\<lparr>free_q := q\<rparr>) = obs pe" "obs (pe\<lparr>cur_event := a\<rparr>) = obs pe" "obs (pe\<lparr>cev_abort := b\<rparr>) = obs pe"
      "obs (pe\<lparr>trans_msg_sig := s\<rparr>) = obs pe" "obs (pe\<lparr>seq_num := w\<rparr>) = obs pe"
      "obs (pe\<lparr>min_detected_offset := r\<rparr>) = obs pe" "obs (pe\<lparr>no_free_event_buffers := n\<rparr>) = obs pe"
      "obs (pe\<lparr>gvt_cnt := n, gvt_force := m\<rparr>) = obs pe" "obs (pe\<lparr>gvt_force := m\<rparr>) = obs pe" "obs (pe\<lparr>gvt_cnt := m\<rparr>) = obs pe"
    and network: "net_send net a pe = Inr pe' \<Longrightarrow> obs pe' = obs pe" "net_cancel net a pe = Inr pe' \<Longrightarrow> obs pe' = obs pe"
begin

lemma parts [simp]:
  "obs (upd_ev a f pe) = obs pe" "obs (upd_lp i g pe) = obs pe" "obs (upd_kp k h pe) = obs pe"
  "obs (set_last_sig k s pe) = obs pe" "obs (tw_free_output_messages a False pe) = obs pe" "obs (tw_event_free a pe) = obs pe"
  "obs (note_transient s pe) = obs pe" "obs (link_causality a b pe) = obs pe" "obs (tw_gvt_force_update c pe) = obs pe"
  "obs (run_revent c a pe) = obs pe" "obs (rollback_handler c a pe) = obs pe" "obs (local_cancel a pe) = obs pe"
  "obs (tw_lp_suspend c i x y pe) = obs pe"
  by (simp_all add: upd_ev_def upd_lp_def upd_kp_def set_last_sig_def tw_free_output_messages_def tw_event_free_def
      note_transient_def link_causality_def tw_gvt_force_update_def run_revent_def rollback_handler_def local_cancel_def
      tw_lp_suspend_def Let_def split: prod.split)

lemma pq_calls:
  "pq_enqueue a pe = Inr pe' \<Longrightarrow> obs pe' = obs pe" "pq_delete_any a pe = Inr pe' \<Longrightarrow> obs pe' = obs pe"
  "pq_dequeue pe = Inr (x, pe') \<Longrightarrow> obs pe' = obs pe"
  by (auto simp: pq_enqueue_def pq_delete_any_def pq_dequeue_def Let_def elim!: ebindE split: option.splits)

lemma grab: "tw_event_grab pe = (x, pe') \<Longrightarrow> obs pe' = obs pe"
  by (auto simp: tw_event_grab_def split: if_splits)

lemma core: "core_unif lp pe = Inr (u, pe') \<Longrightarrow> obs pe' = obs pe" "core_reverse_unif c lp pe = Inr pe' \<Longrightarrow> obs pe' = obs pe"
  by (auto simp: core_unif_def core_reverse_unif_def split: option.splits sum.splits)

lemma event_new:
  assumes "tw_event_new_user_prio c g off lp pr pe = Inr (e, pe')"
  shows "obs pe' = obs pe"
proof -
  define me where "me = (if protocol c = CONSERVATIVE \<and> off < min_detected_offset pe then pe\<lparr>min_detected_offset := off\<rparr> else pe)"
  have m: "obs me = obs pe" by (simp add: me_def)
  have "obs q = obs me" if "grab_for_send c r me = Inr (x, q)" for x q r
    using that grab by (auto simp: grab_for_send_def split: if_splits option.splits prod.splits)
  then show ?thesis
    using assms m unfolding tw_event_new_user_prio_def Let_def me_def[symmetric]
    by (auto split: if_splits elim!: ebindE dest!: core(1))
qed

lemma event_send: "tw_event_send c net a pe = Inr pe' \<Longrightarrow> obs pe' = obs pe"
  unfolding tw_event_send_def Let_def
  by (auto split: if_splits elim!: ebindE dest!: pq_calls network)

lemma sends: "do_sends c net lp xs pe = Inr pe' \<Longrightarrow> obs pe' = obs pe"
proof (induction xs arbitrary: pe)
  case (Cons x xs)
  then show ?case by (fastforce elim!: ebindE dest!: event_new event_send)
qed simp

lemma run_event: "run_event c net a pe = Inr pe' \<Longrightarrow> obs pe' = obs pe"
  unfolding run_event_def Let_def by (drule sends) (simp split: option.splits prod.splits)

lemma cancel: "event_cancel net a pe = Inr pe' \<Longrightarrow> obs pe' = obs pe"
  unfolding event_cancel_def Let_def
  by (auto split: tw_event_owner.splits elim!: ebindE dest!: pq_calls network)

lemma children: "cancel_children c net es pe = Inr pe' \<Longrightarrow> obs pe' = obs pe"
proof (induction es arbitrary: pe)
  case (Cons e es)
  then show ?case by (fastforce elim!: ebindE dest!: core cancel)
qed simp

lemma aborted: "reverse_aborted c a n pe = Inr pe' \<Longrightarrow> obs pe' = obs pe"
proof (induction n arbitrary: pe)
  case (Suc n)
  then show ?case by (fastforce elim!: ebindE dest!: core)
qed simp

lemma rollback: "tw_event_rollback c net a pe = Inr pe' \<Longrightarrow> obs pe' = obs pe"
  unfolding tw_event_rollback_def Let_def by (auto elim!: ebindE dest!: children aborted)

lemma rollback_loop: "rollback_loop n c net k s pe = Inr pe' \<Longrightarrow> obs pe' = obs pe"
proof (induction n arbitrary: pe)
  case 0
  then show ?case by (auto simp: rollback_loop.simps split: list.splits if_splits)
next
  case (Suc n)
  show ?case
    using Suc.prems unfolding rollback_loop.simps[of "Suc n"] Let_def
    by (auto split: list.splits if_splits elim!: ebindE dest!: Suc.IH rollback pq_calls)
qed

lemma rollback_to_sig: "tw_kp_rollback_to_sig c net k s pe = Inr pe' \<Longrightarrow> obs pe' = obs pe"
  unfolding tw_kp_rollback_to_sig_def Let_def by (drule rollback_loop) simp

lemma rollback_event_loop: "rollback_event_loop n c net k e pe = Inr pe' \<Longrightarrow> obs pe' = obs pe"
proof (induction n arbitrary: pe)
  case 0
  then show ?case by (auto simp: rollback_event_loop.simps Let_def split: list.splits if_splits dest!: rollback)
next
  case (Suc n)
  show ?case
    using Suc.prems unfolding rollback_event_loop.simps[of "Suc n"] Let_def
    by (auto split: list.splits if_splits elim!: ebindE dest!: Suc.IH rollback pq_calls)
qed

lemma rollback_event: "tw_kp_rollback_event c net e pe = Inr pe' \<Longrightarrow> obs pe' = obs pe"
  unfolding tw_kp_rollback_event_def Let_def by (auto elim!: ebindE dest!: rollback_event_loop)

lemma spin: "spin_events c net es pe = Inr pe' \<Longrightarrow> obs pe' = obs pe"
proof (induction es arbitrary: pe)
  case (Cons e es)
  show ?case
    using Cons.prems unfolding spin_events.simps Let_def
    by (auto split: if_splits elim!: ebindE dest!: Cons.IH rollback_to_sig pq_calls)
qed simp

lemma sched_event_q: "tw_sched_event_q n c net pe = Inr pe' \<Longrightarrow> obs pe' = obs pe"
proof (induction n arbitrary: pe)
  case 0
  then show ?case by (auto simp: tw_sched_event_q.simps split: if_splits)
next
  case (Suc n)
  then show ?case by (auto simp: tw_sched_event_q.simps[of "Suc n"] split: if_splits elim!: ebindE dest!: Suc.IH spin)
qed

lemma cancel_events: "cancel_events c net es pe = Inr pe' \<Longrightarrow> obs pe' = obs pe"
proof (induction es arbitrary: pe)
  case (Cons e es)
  have "obs q = obs pe" if "cancel_owner_switch c net e pe = Inr q" for q
    using that by (auto simp: cancel_owner_switch_def split: tw_event_owner.splits elim!: ebindE dest!: pq_calls rollback_event)
  then show ?case
    using Cons.prems by (auto split: if_splits elim!: ebindE dest!: Cons.IH)
qed simp

lemma sched_cancel_q: "tw_sched_cancel_q n c net pe = Inr pe' \<Longrightarrow> obs pe' = obs pe"
proof (induction n arbitrary: pe)
  case 0
  then show ?case by (auto simp: tw_sched_cancel_q.simps split: if_splits)
next
  case (Suc n)
  then show ?case by (auto simp: tw_sched_cancel_q.simps[of "Suc n"] split: if_splits elim!: ebindE dest!: Suc.IH cancel_events)
qed

lemma process: "process_event c net a pe = Inr pe' \<Longrightarrow> obs pe' = obs pe"
  unfolding process_event_def Let_def by (auto split: if_splits elim!: ebindE dest!: run_event)

lemma finish: "finish_event c net a pe = Inr (go, pe') \<Longrightarrow> obs pe' = obs pe"
  unfolding finish_event_def Let_def by (auto split: if_splits elim!: ebindE dest!: rollback pq_calls)

lemma sched_round: "sched_round c net pe = Inr (go, pe') \<Longrightarrow> obs pe' = obs pe"
  unfolding sched_round_def Let_def
  by (auto split: if_splits option.splits elim!: ebindE dest!: pq_calls(3) process finish)

lemma batch: "batch_loop n c net pe = Inr pe' \<Longrightarrow> obs pe' = obs pe"
proof (induction n arbitrary: pe)
  case (Suc n)
  then show ?case by (fastforce split: if_splits elim!: ebindE dest!: sched_round)
qed simp

end

end
