(* ===== verification/Realtime.thy ===== *)
theory Realtime
  imports Schedulers Batch
begin

text \<open>
  The batch of the optimistic scheduler in real time (\<open>tw_sched_batch_realtime\<close> in
  \<open>core/tw-sched.c\<close>). It differs from the other batch in how it asks for a GVT computation and in
  a look at the clock after every event.
\<close>

record ('st, 'bf, 'm, 'r, 'w) rt_pe = "('st, 'bf, 'm, 'r, 'w) gvt_pe" +
  g_tw_gvt_interval_start_cycles :: "64 word"

definition tw_gvt_force_update_realtime :: "('st, 'bf, 'm, 'r, 'w, 'z) rt_pe_scheme \<Rightarrow> ('st, 'bf, 'm, 'r, 'w, 'z) rt_pe_scheme" where
  "tw_gvt_force_update_realtime pe = pe\<lparr>gvt_force := gvt_force pe + 1, g_tw_gvt_interval_start_cycles := 0\<rparr>"

text \<open>The end of a round; \<open>now\<close> is what the clock shows there.\<close>

definition finish_event_realtime :: "('st, 'bf, 'm) config \<Rightarrow> ('st, 'bf, 'm, 'r, 'w, 'z) rt_pe_scheme net_ops \<Rightarrow> 64 word \<Rightarrow> 64 word \<Rightarrow> addr
    \<Rightarrow> ('st, 'bf, 'm, 'r, 'w, 'z) rt_pe_scheme \<Rightarrow> ross_error + (bool \<times> ('st, 'bf, 'm, 'r, 'w, 'z) rt_pe_scheme)" where
  "finish_event_realtime c net realtime_interval now a pe =
     (let k = kp_of c (dest_lp (heap pe a)) in
      if cev_abort pe then
        let pe = pe\<lparr>cev_abort := False\<rparr> in
        ebind (tw_event_rollback c net a pe) (\<lambda>pe.
        ebind (pq_enqueue a pe) (\<lambda>pe.
          let s = (case pevent_q (kps pe k) of [] \<Rightarrow> GVT_sig pe | _ \<Rightarrow> qsig (heap pe (last (pevent_q (kps pe k)))));
              pe = set_last_sig k (tw_copy_event_sig (last_sig (kps pe k)) s) pe
          in Inr (False, tw_gvt_force_update_realtime pe)))
      else
        let pe = upd_ev a (\<lambda>v. v\<lparr>qowner := TW_kp_pevent_q\<rparr>) pe;
            pe = upd_kp k (\<lambda>kp. kp\<lparr>pevent_q := a # pevent_q kp\<rparr>) pe
        in if now - g_tw_gvt_interval_start_cycles pe > realtime_interval
           then Inr (False, tw_gvt_force_update_realtime pe) else Inr (True, pe))"

definition sched_round_realtime :: "('st, 'bf, 'm) config \<Rightarrow> ('st, 'bf, 'm, 'r, 'w, 'z) rt_pe_scheme net_ops \<Rightarrow> 64 word \<Rightarrow> 64 word
    \<Rightarrow> ('st, 'bf, 'm, 'r, 'w, 'z) rt_pe_scheme \<Rightarrow> ross_error + (bool \<times> ('st, 'bf, 'm, 'r, 'w, 'z) rt_pe_scheme)" where
  "sched_round_realtime c net realtime_interval now me =
     (if length (free_q me) \<le> gvt_threshold c then
        let me = me\<lparr>no_free_event_buffers := no_free_event_buffers me + 1\<rparr> in
        if no_free_event_buffers me > 10 \<and> no_free_event_buffers me \<ge> max_alloc_fail_count
        then Inl (Tw_Error ''Event allocation failed consecutive times.  Exiting.'')
        else Inr (False, tw_gvt_force_update_realtime me)
      else
        let me = me\<lparr>no_free_event_buffers := 0\<rparr> in
        if has_hook c \<and> (hook_status (hook_trigger me) = GVT_HOOK_STATUS_timestamp
             \<or> hook_status (hook_trigger me) = GVT_HOOK_STATUS_model_call)
           \<and> tw_event_sig_compare_ptr (sig_at (hook_trigger me)) (tw_pq_minimum_sig_ptr (heap me) (pq me)) \<le> 0
        then Inr (False, tw_gvt_force_update_realtime me)
        else
          ebind (pq_dequeue me) (\<lambda>(r, me).
            case r of
              None \<Rightarrow> Inr (False, me)
            | Some a \<Rightarrow> ebind (process_event c net a me) (finish_event_realtime c net realtime_interval now a)))"

text \<open>\<open>clock n\<close> is what the clock shows in the round with \<open>n\<close> rounds left.\<close>

fun batch_loop_realtime :: "nat \<Rightarrow> ('st, 'bf, 'm) config \<Rightarrow> ('st, 'bf, 'm, 'r, 'w, 'z) rt_pe_scheme net_ops \<Rightarrow> 64 word \<Rightarrow> (nat \<Rightarrow> 64 word)
    \<Rightarrow> ('st, 'bf, 'm, 'r, 'w, 'z) rt_pe_scheme \<Rightarrow> ross_error + ('st, 'bf, 'm, 'r, 'w, 'z) rt_pe_scheme" where
  "batch_loop_realtime 0 c net i clock me = Inr me"
| "batch_loop_realtime (Suc n) c net i clock me =
     ebind (sched_round_realtime c net i (clock (Suc n)) me) (\<lambda>(go, me).
       if go then batch_loop_realtime n c net i clock me else Inr me)"

definition tw_sched_batch_realtime :: "('st, 'bf, 'm) config \<Rightarrow> ('st, 'bf, 'm, 'r, 'w, 'z) rt_pe_scheme net_ops \<Rightarrow> 64 word \<Rightarrow> (nat \<Rightarrow> 64 word)
    \<Rightarrow> ('st, 'bf, 'm, 'r, 'w, 'z) rt_pe_scheme \<Rightarrow> ross_error + ('st, 'bf, 'm, 'r, 'w, 'z) rt_pe_scheme" where
  "tw_sched_batch_realtime c net realtime_interval clock me = batch_loop_realtime (mblock c) c net realtime_interval clock me"

section \<open>The two batches agree\<close>

text \<open>
  The states agree in every field, those of the network included, but for the two counters and the
  start of the interval, with which the batches ask for a GVT computation.
\<close>

definition same_work :: "('st, 'bf, 'm, 'r, 'w, 'z) rt_pe_scheme \<Rightarrow> ('st, 'bf, 'm, 'r, 'w, 'z) rt_pe_scheme \<Rightarrow> bool" where
  "same_work pe pe' \<longleftrightarrow> (\<exists>cnt force start. pe' = pe\<lparr>gvt_cnt := cnt, gvt_force := force, g_tw_gvt_interval_start_cycles := start\<rparr>)"

lemma same_work_refl [simp]: "same_work pe pe"
proof -
  have "pe = pe\<lparr>gvt_cnt := gvt_cnt pe, gvt_force := gvt_force pe, g_tw_gvt_interval_start_cycles := g_tw_gvt_interval_start_cycles pe\<rparr>"
    by simp
  then show ?thesis unfolding same_work_def by blast
qed

lemma same_work_update [simp]:
  fixes pe :: "('st, 'bf, 'm, 'r, 'w, 'z) rt_pe_scheme"
  shows "same_work (tw_gvt_force_update c pe) (tw_gvt_force_update_realtime pe)"
    "same_work pe (tw_gvt_force_update_realtime pe)"
proof -
  have "tw_gvt_force_update_realtime pe = (tw_gvt_force_update c pe)
      \<lparr>gvt_cnt := gvt_cnt pe, gvt_force := gvt_force pe + 1, g_tw_gvt_interval_start_cycles := 0\<rparr>"
    by (simp add: tw_gvt_force_update_def tw_gvt_force_update_realtime_def)
  then show "same_work (tw_gvt_force_update c pe) (tw_gvt_force_update_realtime pe)" unfolding same_work_def by blast
  have "tw_gvt_force_update_realtime pe = pe
      \<lparr>gvt_cnt := gvt_cnt pe, gvt_force := gvt_force pe + 1, g_tw_gvt_interval_start_cycles := 0\<rparr>"
    by (simp add: tw_gvt_force_update_realtime_def)
  then show "same_work pe (tw_gvt_force_update_realtime pe)" unfolding same_work_def by blast
qed

text \<open>A round of one batch and of the other; the second may stop where the first goes on, when the interval is over.\<close>

definition same_round :: "64 word \<Rightarrow> 64 word \<Rightarrow> ross_error + (bool \<times> ('st, 'bf, 'm, 'r, 'w, 'z) rt_pe_scheme)
    \<Rightarrow> ross_error + (bool \<times> ('st, 'bf, 'm, 'r, 'w, 'z) rt_pe_scheme) \<Rightarrow> bool" where
  "same_round i now r r' \<longleftrightarrow> (case r of Inl e \<Rightarrow> r' = Inl e
     | Inr (go, pe) \<Rightarrow> case r' of Inl e \<Rightarrow> False | Inr (go', pe') \<Rightarrow> same_work pe pe' \<and> (go' \<longrightarrow> go \<and> pe' = pe) \<and>
         (go \<and> \<not> go' \<longrightarrow> now - g_tw_gvt_interval_start_cycles pe > i))"

lemma same_round_simps [simp]:
  "same_round i now (Inl e) (Inl e)" "same_round i now (Inr (False, pe)) (Inr (False, pe')) = same_work pe pe'"
  "same_round i now (Inr (True, pe)) (Inr (True, pe))"
  "same_round i now (Inr (True, pe)) (Inr (False, pe')) = (same_work pe pe' \<and> now - g_tw_gvt_interval_start_cycles pe > i)"
  by (simp_all add: same_round_def)

lemma same_roundE:
  assumes "same_round i now r r'"
  obtains e where "r = Inl e" "r' = Inl e"
  | go pe go' pe' where "r = Inr (go, pe)" "r' = Inr (go', pe')" "same_work pe pe'" "go' \<longrightarrow> go \<and> pe' = pe"
      "go \<and> \<not> go' \<longrightarrow> now - g_tw_gvt_interval_start_cycles pe > i"
  using assms unfolding same_round_def by (cases r; cases r') auto

lemma finish_event_same:
  fixes pe :: "('st, 'bf, 'm, 'r, 'w, 'z) rt_pe_scheme"
  shows "same_round i now (finish_event c net a pe) (finish_event_realtime c net i now a pe)"
proof (cases "cev_abort pe")
  case True
  show ?thesis
  proof (cases "tw_event_rollback c net a (pe\<lparr>cev_abort := False\<rparr>)")
    case (Inl e)
    then show ?thesis using True by (simp add: finish_event_def finish_event_realtime_def Let_def)
  next
    case (Inr q)
    then show ?thesis using True by (cases "pq_enqueue a q") (simp_all add: finish_event_def finish_event_realtime_def Let_def)
  qed
next
  case False
  then show ?thesis by (simp add: finish_event_def finish_event_realtime_def Let_def)
qed

lemma sched_round_same:
  fixes pe :: "('st, 'bf, 'm, 'r, 'w, 'z) rt_pe_scheme"
  shows "same_round i now (sched_round c net pe) (sched_round_realtime c net i now pe)"
proof (cases "length (free_q pe) \<le> gvt_threshold c")
  case True
  then show ?thesis by (simp add: sched_round_def sched_round_realtime_def Let_def)
next
  case False
  define me where "me = pe\<lparr>no_free_event_buffers := 0\<rparr>"
  let ?h = "has_hook c \<and> (hook_status (hook_trigger me) = GVT_HOOK_STATUS_timestamp
             \<or> hook_status (hook_trigger me) = GVT_HOOK_STATUS_model_call)
           \<and> tw_event_sig_compare_ptr (sig_at (hook_trigger me)) (tw_pq_minimum_sig_ptr (heap me) (pq me)) \<le> 0"
  let ?step = "\<lambda>fin. ebind (pq_dequeue me) (\<lambda>(r, me). case r of None \<Rightarrow> Inr (False, me)
        | Some a \<Rightarrow> ebind (process_event c net a me) (fin a))"
  have run: "sched_round c net pe = (if ?h then Inr (False, tw_gvt_force_update c me) else ?step (finish_event c net))"
    "sched_round_realtime c net i now pe = (if ?h then Inr (False, tw_gvt_force_update_realtime me)
       else ?step (finish_event_realtime c net i now))"
    unfolding sched_round_def sched_round_realtime_def Let_def if_not_P[OF False] me_def[symmetric] by (rule refl)+
  have "same_round i now (?step (finish_event c net)) (?step (finish_event_realtime c net i now))"
  proof (cases "pq_dequeue me")
    case (Inr p)
    show ?thesis
    proof (cases "fst p")
      case None
      then show ?thesis using Inr by (cases p) simp
    next
      case (Some a)
      then show ?thesis using Inr finish_event_same by (cases p; cases "process_event c net a (snd p)") auto
    qed
  qed simp
  moreover have "same_round i now (Inr (False, tw_gvt_force_update c me)) (Inr (False, tw_gvt_force_update_realtime me))" by simp
  ultimately show ?thesis unfolding run by (cases ?h) (simp_all only: if_True if_False simp_thms)
qed

text \<open>The same for whole batches.\<close>

definition same_result :: "ross_error + ('st, 'bf, 'm, 'r, 'w, 'z) rt_pe_scheme \<Rightarrow> ross_error + ('st, 'bf, 'm, 'r, 'w, 'z) rt_pe_scheme \<Rightarrow> bool" where
  "same_result r r' \<longleftrightarrow> (case r of Inl e \<Rightarrow> r' = Inl e | Inr pe \<Rightarrow> case r' of Inl e \<Rightarrow> False | Inr pe' \<Rightarrow> same_work pe pe')"

lemma same_result_simps [simp]:
  "same_result (Inl e) (Inl e)" "same_result (Inr pe) (Inr pe') = same_work pe pe'"
  by (simp_all add: same_result_def)

text \<open>After \<open>m\<close> of \<open>n\<close> rounds the batch in real time stopped before the other, for the clock.\<close>

definition interval_over :: "('st, 'bf, 'm) config \<Rightarrow> ('st, 'bf, 'm, 'r, 'w, 'z) rt_pe_scheme net_ops \<Rightarrow> 64 word \<Rightarrow> (nat \<Rightarrow> 64 word)
    \<Rightarrow> nat \<Rightarrow> nat \<Rightarrow> ('st, 'bf, 'm, 'r, 'w, 'z) rt_pe_scheme \<Rightarrow> bool" where
  "interval_over c net i clock n m pe \<longleftrightarrow> 0 < m \<and>
     (\<exists>q. batch_loop m c net pe = Inr q \<and> clock (Suc n - m) - g_tw_gvt_interval_start_cycles q > i)"

lemma batch_same:
  fixes pe :: "('st, 'bf, 'm, 'r, 'w, 'z) rt_pe_scheme"
  shows "\<exists>m \<le> n. same_result (batch_loop m c net pe) (batch_loop_realtime n c net i clock pe) \<and>
    (m = n \<or> interval_over c net i clock n m pe)"
proof (induction n arbitrary: pe)
  case 0
  then show ?case by simp
next
  case (Suc n)
  have "same_round i (clock (Suc n)) (sched_round c net pe) (sched_round_realtime c net i (clock (Suc n)) pe)" by (rule sched_round_same)
  then show ?case
  proof (cases rule: same_roundE)
    case (1 e)
    note err = 1
    then show ?thesis by (intro exI[of _ "Suc n"]) simp
  next
    case (2 go pe1 go' pe2)
    note ok = 2
    show ?thesis
    proof (cases go')
      case True
      have s: "batch_loop (Suc m) c net pe = batch_loop m c net pe1" for m using ok(1,4) True by simp
      have r: "batch_loop_realtime (Suc n) c net i clock pe = batch_loop_realtime n c net i clock pe1" using ok(2,4) True by simp
      obtain m where m: "m \<le> n" "same_result (batch_loop m c net pe1) (batch_loop_realtime n c net i clock pe1)"
        "m = n \<or> interval_over c net i clock n m pe1"
        using Suc.IH[of pe1] by blast
      have "interval_over c net i clock (Suc n) (Suc m) pe" if "interval_over c net i clock n m pe1"
        using that unfolding interval_over_def s by simp
      then show ?thesis using m unfolding r s[symmetric] by (intro exI[of _ "Suc m"]) auto
    next
      case False
      show ?thesis
      proof (cases go)
        case True
        then show ?thesis using ok False by (intro exI[of _ "Suc 0"]) (simp add: interval_over_def)
      next
        case stop: False
        then show ?thesis using ok False by (intro exI[of _ "Suc n"]) simp
      qed
    qed
  qed
qed

text \<open>
  C11: the batch in real time does what the ordinary batch does, and stops earlier only for the clock. Its
  result is that of the whole ordinary batch, or of its first rounds, at least one, at the end of which more
  time has passed since the start of the interval than the interval allows. It is the same error, or a state
  with the same events, queues, LPs, KPs, network and GVT, which differs in nothing but the counters \<open>gvt_cnt\<close>
  and \<open>gvt_force\<close> and the start of the interval, with which it asks for a GVT computation.
\<close>

theorem realtime_batch_prefix:
  fixes pe :: "('st, 'bf, 'm, 'r, 'w, 'z) rt_pe_scheme"
  shows "\<exists>m \<le> mblock c. same_result (batch_loop m c net pe) (tw_sched_batch_realtime c net i clock pe) \<and>
    (batch_loop m c net pe = tw_sched_batch c net pe \<or> interval_over c net i clock (mblock c) m pe)"
proof -
  obtain m where m: "m \<le> mblock c" "same_result (batch_loop m c net pe) (tw_sched_batch_realtime c net i clock pe)"
    "m = mblock c \<or> interval_over c net i clock (mblock c) m pe"
    using batch_same[of "mblock c" c net pe i clock] unfolding tw_sched_batch_realtime_def by blast
  then show ?thesis unfolding tw_sched_batch_def by blast
qed

end
