(* ===== verification/Parallel.thy ===== *)
theory Parallel
  imports Gvt_Lemmas Frames Realtime
begin

text \<open>
  The main loops of the three parallel schedulers of \<open>core/tw-sched.c\<close>, conservative, optimistic and
  optimistic in real time, on all PEs at once. A PE runs on its own until it starts a GVT
  computation, where it waits for the others. The steps of the PEs interleave in any order; the
  network is handed from step to step. The three loops have the same form: one relation covers them.
\<close>

section \<open>All PEs\<close>

text \<open>Where a PE is: in the loop, waiting in the computation, after it, and out of the loop.\<close>

datatype phase = Looping | In_gvt | After_gvt | Finished

text \<open>What is fixed in a run.\<close>

record ('st, 'bf, 'm, 'r, 'w, 'z) par_run =
  run_fuel :: nat
  run_cs :: "nat \<Rightarrow> ('st, 'bf, 'm) config"
  run_ncs :: "nat \<Rightarrow> ('bf, 'm, 'r, 'w) net_config"
  run_lookahead :: real
  run_stack :: "nat \<Rightarrow> tw_event_sig"
  run_hook :: "bool \<Rightarrow> ('st, 'bf, 'm, 'r, 'w, 'z) gvt_pe_scheme \<Rightarrow> ('st, 'bf, 'm, 'r, 'w, 'z) gvt_pe_scheme"
  run_interval :: "64 word"

type_synonym ('st, 'bf, 'm, 'r, 'w, 'z) pes = "(phase \<times> ('st, 'bf, 'm, 'r, 'w, 'z) gvt_pe_scheme) list"

text \<open>\<open>tw_gvt_hook_step\<close> on every PE; its two reductions are over all of them.\<close>

fun hook_all :: "('st, 'bf, 'm, 'r, 'w, 'z) par_run \<Rightarrow> bool \<Rightarrow> bool \<Rightarrow> nat \<Rightarrow> ('st, 'bf, 'm, 'r, 'w, 'z) gvt_pe_scheme list
    \<Rightarrow> ross_error + ('st, 'bf, 'm, 'r, 'w, 'z) gvt_pe_scheme list" where
  "hook_all R all_past any_past i [] = Inr []"
| "hook_all R all_past any_past i (me # mes) =
     ebind (tw_gvt_hook_step (run_cs R i) all_past any_past (run_hook R) me) (\<lambda>me.
     ebind (hook_all R all_past any_past (Suc i) mes) (\<lambda>mes. Inr (me # mes)))"

text \<open>
  The parts of an iteration of a PE before and after \<open>tw_gvt_step2\<close> are \<open>poll\<close> and \<open>process\<close>; \<open>mark\<close> is
  the last line of \<open>tw_gvt_step2\<close>, which only the loop in real time makes use of. \<open>t\<close> is what the
  clock shows in a step.
\<close>

inductive par_step :: "('t \<Rightarrow> nat \<Rightarrow> nat \<Rightarrow> ('st, 'bf, 'm, 'r, 'w, 'z) gvt_pe_scheme \<Rightarrow> ross_error + ('st, 'bf, 'm, 'r, 'w, 'z) gvt_pe_scheme)
    \<Rightarrow> ('t \<Rightarrow> nat \<Rightarrow> ('st, 'bf, 'm, 'r, 'w, 'z) gvt_pe_scheme \<Rightarrow> ross_error + (phase \<times> ('st, 'bf, 'm, 'r, 'w, 'z) gvt_pe_scheme))
    \<Rightarrow> ('t \<Rightarrow> ('st, 'bf, 'm, 'r, 'w, 'z) gvt_pe_scheme \<Rightarrow> ('st, 'bf, 'm, 'r, 'w, 'z) gvt_pe_scheme)
    \<Rightarrow> ('st, 'bf, 'm, 'r, 'w, 'z) par_run \<Rightarrow> ('st, 'bf, 'm, 'r, 'w, 'z) pes \<times> 'w \<Rightarrow> ('st, 'bf, 'm, 'r, 'w, 'z) pes \<times> 'w \<Rightarrow> bool"
  for poll process mark R where
  enter: "i < length ps \<Longrightarrow> ps ! i = (Looping, me) \<Longrightarrow> poll t i (length ps) (me\<lparr>world := w\<rparr>) = Inr me' \<Longrightarrow>
     gvt_status me' \<Longrightarrow> par_step poll process mark R (ps, w) (ps[i := (In_gvt, me')], world me')"
| iterate: "i < length ps \<Longrightarrow> ps ! i = (Looping, me) \<Longrightarrow> poll t i (length ps) (me\<lparr>world := w\<rparr>) = Inr me' \<Longrightarrow>
     \<not> gvt_status me' \<Longrightarrow> process t' i me' = Inr (ph, me'') \<Longrightarrow>
     par_step poll process mark R (ps, w) (ps[i := (ph, me'')], world me'')"
| compute: "\<forall>p \<in> set ps. fst p = In_gvt \<Longrightarrow>
     tw_gvt_step2 (run_fuel R) (run_cs R) (run_ncs R) (run_stack R) (map snd ps) w = Inr (mes, w') \<Longrightarrow>
     hook_all R (is_gvt_past_hook_threshold mes) (does_any_pe (map past_hook mes)) 0 (map (\<lambda>i. mark (ts i) (mes ! i)) [0..<length mes])
       = Inr mes' \<Longrightarrow>
     par_step poll process mark R (ps, w) (map (Pair After_gvt) mes', w')"
| leave: "i < length ps \<Longrightarrow> ps ! i = (After_gvt, me) \<Longrightarrow> process t i (me\<lparr>world := w\<rparr>) = Inr (ph, me') \<Longrightarrow>
     par_step poll process mark R (ps, w) (ps[i := (ph, me')], world me')"

inductive_cases par_stepE: "par_step poll process mark R (ps, w) s'"

section \<open>The optimistic loop\<close>

text \<open>The part of an iteration before \<open>tw_gvt_step2\<close>.\<close>

definition opt_poll :: "nat \<Rightarrow> ('st, 'bf, 'm) config \<Rightarrow> ('bf, 'm, 'r, 'w) net_config \<Rightarrow> real \<Rightarrow> nat
    \<Rightarrow> ('st, 'bf, 'm, 'r, 'w, 'z) net_pe_scheme \<Rightarrow> ross_error + ('st, 'bf, 'm, 'r, 'w, 'z) net_pe_scheme" where
  "opt_poll fuel c nc max_opt_lookahead nnodes me =
     ebind (if nnodes > 1 then tw_net_read c nc me else Inr me) (\<lambda>me.
       let me = tw_gvt_step1 c max_opt_lookahead me in
       ebind (tw_sched_event_q fuel c (mpi_net c nc) me) (tw_sched_cancel_q fuel c (mpi_net c nc)))"

text \<open>The part after it: the end of the run, or a batch.\<close>

definition opt_process :: "('st, 'bf, 'm) config \<Rightarrow> ('bf, 'm, 'r, 'w) net_config
    \<Rightarrow> ('st, 'bf, 'm, 'r, 'w, 'z) net_pe_scheme \<Rightarrow> ross_error + (phase \<times> ('st, 'bf, 'm, 'r, 'w, 'z) net_pe_scheme)" where
  "opt_process c nc me =
     (if recv_ts (GVT_sig me) > ts_end c then Inr (Finished, me)
      else ebind (tw_sched_batch c (mpi_net c nc) me) (\<lambda>me. Inr (Looping, me)))"

definition opt_step :: "('st, 'bf, 'm, 'r, 'w, 'z) par_run \<Rightarrow> ('st, 'bf, 'm, 'r, 'w, 'z) pes \<times> 'w \<Rightarrow> ('st, 'bf, 'm, 'r, 'w, 'z) pes \<times> 'w \<Rightarrow> bool" where
  "opt_step R = par_step (\<lambda>_ :: unit. \<lambda>i. opt_poll (run_fuel R) (run_cs R i) (run_ncs R i) (run_lookahead R))
     (\<lambda>_ i. opt_process (run_cs R i) (run_ncs R i)) (\<lambda>_ me. me) R"

section \<open>The loop in real time\<close>

text \<open>The clock is read in \<open>tw_gvt_step1_realtime\<close>, in every round of the batch and at the end of a GVT computation.\<close>

definition rt_poll :: "nat \<Rightarrow> ('st, 'bf, 'm) config \<Rightarrow> ('bf, 'm, 'r, 'w) net_config \<Rightarrow> real \<Rightarrow> 64 word \<Rightarrow> 64 word \<Rightarrow> nat
    \<Rightarrow> ('st, 'bf, 'm, 'r, 'w, 'z) rt_pe_scheme \<Rightarrow> ross_error + ('st, 'bf, 'm, 'r, 'w, 'z) rt_pe_scheme" where
  "rt_poll fuel c nc max_opt_lookahead interval now nnodes me =
     ebind (if nnodes > 1 then tw_net_read c nc me else Inr me) (\<lambda>me.
       let me = tw_gvt_step1_realtime c max_opt_lookahead (unat (now - g_tw_gvt_interval_start_cycles me)) (unat interval) me in
       ebind (tw_sched_event_q fuel c (mpi_net c nc) me) (tw_sched_cancel_q fuel c (mpi_net c nc)))"

definition rt_process :: "('st, 'bf, 'm) config \<Rightarrow> ('bf, 'm, 'r, 'w) net_config \<Rightarrow> 64 word \<Rightarrow> (nat \<Rightarrow> 64 word)
    \<Rightarrow> ('st, 'bf, 'm, 'r, 'w, 'z) rt_pe_scheme \<Rightarrow> ross_error + (phase \<times> ('st, 'bf, 'm, 'r, 'w, 'z) rt_pe_scheme)" where
  "rt_process c nc interval clock me =
     (if recv_ts (GVT_sig me) > ts_end c then Inr (Finished, me)
      else ebind (tw_sched_batch_realtime c (mpi_net c nc) interval clock me) (\<lambda>me. Inr (Looping, me)))"

definition rt_mark :: "64 word \<Rightarrow> ('st, 'bf, 'm, 'r, 'w, 'z) rt_pe_scheme \<Rightarrow> ('st, 'bf, 'm, 'r, 'w, 'z) rt_pe_scheme" where
  "rt_mark now me = me\<lparr>g_tw_gvt_interval_start_cycles := now\<rparr>"

definition rt_step :: "('st, 'bf, 'm, 'r, 'w, ('z) rt_pe_ext) par_run \<Rightarrow> ('st, 'bf, 'm, 'r, 'w, ('z) rt_pe_ext) pes \<times> 'w
    \<Rightarrow> ('st, 'bf, 'm, 'r, 'w, ('z) rt_pe_ext) pes \<times> 'w \<Rightarrow> bool" where
  "rt_step R = par_step
     (\<lambda>t i. rt_poll (run_fuel R) (run_cs R i) (run_ncs R i) (run_lookahead R) (run_interval R) (t (0 :: nat)))
     (\<lambda>t i. rt_process (run_cs R i) (run_ncs R i) (run_interval R) t) (\<lambda>t. rt_mark (t 0)) R"

section \<open>The conservative loop\<close>

definition cons_poll :: "nat \<Rightarrow> ('st, 'bf, 'm) config \<Rightarrow> ('bf, 'm, 'r, 'w) net_config \<Rightarrow> real \<Rightarrow> nat
    \<Rightarrow> ('st, 'bf, 'm, 'r, 'w, 'z) net_pe_scheme \<Rightarrow> ross_error + ('st, 'bf, 'm, 'r, 'w, 'z) net_pe_scheme" where
  "cons_poll fuel c nc max_opt_lookahead nnodes me =
     ebind (if nnodes > 1 then tw_net_read c nc me else Inr me) (\<lambda>me.
       tw_sched_event_q fuel c (mpi_net c nc) (tw_gvt_step1 c max_opt_lookahead me))"

definition kp_ahead :: ross_error where
  "kp_ahead = Tw_Error ''Found KP last time > current event time''"

definition conservative_event :: "('st, 'bf, 'm) config \<Rightarrow> ('st, 'bf, 'm, 'z) tw_pe_scheme net_ops \<Rightarrow> addr \<Rightarrow> ('st, 'bf, 'm, 'z) pe_step" where
  "conservative_event c net a me =
     (let lp = dest_lp (heap me a); k = kp_of c lp in
      if tw_event_sig_compare_ptr (last_sig (kps me k)) (qsig (heap me a)) > 0 then Inl kp_ahead
      else
        let me = advance_critical_path a (begin_event c a me) in
        ebind (run_event c net a me) (\<lambda>me.
          let me = count_processed k 1 (run_commit c lp a me) in
          if cev_abort me then Inl no_memory else Inr (tw_event_free a me)))"

text \<open>The test for GVT plus lookahead comes before the one for the hook; with no pending event its time is \<open>DBL_MAX\<close>.\<close>

definition conservative_round :: "('st, 'bf, 'm) config \<Rightarrow> ('st, 'bf, 'm, 'z) tw_pe_scheme net_ops
    \<Rightarrow> ('st, 'bf, 'm, 'z) tw_pe_scheme \<Rightarrow> ross_error + (bool \<times> ('st, 'bf, 'm, 'z) tw_pe_scheme)" where
  "conservative_round c net me =
     (if length (free_q me) \<le> gvt_threshold c then Inr (False, tw_gvt_force_update c me)
      else if pq_minimum_ts me \<ge> ts_add c (recv_ts (GVT_sig me)) (lookahead c) then Inr (False, me)
      else if has_hook c \<and> hook_status (hook_trigger me) = GVT_HOOK_STATUS_timestamp \<and> cmp_hook_to_next me \<le> 0
      then Inr (False, tw_gvt_force_update c me)
      else
        ebind (pq_dequeue me) (\<lambda>(x, me).
          case x of None \<Rightarrow> Inr (False, me)
          | Some a \<Rightarrow> ebind (conservative_event c net a me) (\<lambda>me. Inr (True, me))))"

fun conservative_loop :: "nat \<Rightarrow> ('st, 'bf, 'm) config \<Rightarrow> ('st, 'bf, 'm, 'z) tw_pe_scheme net_ops \<Rightarrow> ('st, 'bf, 'm, 'z) pe_step" where
  "conservative_loop 0 c net me = Inr me"
| "conservative_loop (Suc n) c net me =
     ebind (conservative_round c net me) (\<lambda>(go, me). if go then conservative_loop n c net me else Inr me)"

definition cons_process :: "('st, 'bf, 'm) config \<Rightarrow> ('bf, 'm, 'r, 'w) net_config
    \<Rightarrow> ('st, 'bf, 'm, 'r, 'w, 'z) net_pe_scheme \<Rightarrow> ross_error + (phase \<times> ('st, 'bf, 'm, 'r, 'w, 'z) net_pe_scheme)" where
  "cons_process c nc me =
     (if recv_ts (GVT_sig me) > ts_end c then Inr (Finished, me)
      else ebind (conservative_loop (mblock c) c (mpi_net c nc) me) (\<lambda>me. Inr (Looping, me)))"

definition cons_step :: "('st, 'bf, 'm, 'r, 'w, 'z) par_run \<Rightarrow> ('st, 'bf, 'm, 'r, 'w, 'z) pes \<times> 'w \<Rightarrow> ('st, 'bf, 'm, 'r, 'w, 'z) pes \<times> 'w \<Rightarrow> bool" where
  "cons_step R = par_step (\<lambda>_ :: unit. \<lambda>i. cons_poll (run_fuel R) (run_cs R i) (run_ncs R i) (run_lookahead R))
     (\<lambda>_ i. cons_process (run_cs R i) (run_ncs R i)) (\<lambda>_ me. me) R"

section \<open>GVT changes in the computation only\<close>

lemma service_queues_obs: "service_queues n c nc me = Inr me' \<Longrightarrow> GVT_sig me' = GVT_sig me \<and> GVT_prev_sig me' = GVT_prev_sig me"
  by (drule service_queues_other) (simp add: net_other_def)

lemma send_loop_other: "send_loop n c nc s = Inr s' \<Longrightarrow> net_other s s'"
proof (induction n arbitrary: s)
  case (Suc n)
  obtain b1 s1 b2 s2 where s: "test_q nc posted_sends posted_sends_update (send_finish c) s = Inr (b1, s1)"
    "send_begin c nc s1 = Inr (b2, s2)" "(if b1 \<or> b2 then send_loop n c nc s2 else Inr s2) = Inr s'"
    using Suc.prems by (auto simp: bind_simps split: prod.splits)
  have "net_other s s1"
    by (rule test_q_other[OF _ _ s(1)]) (auto simp: net_other_def dest: send_finish_other)
  moreover have "net_other s1 s2" using s(2) unfolding send_begin_def by (rule send_begin_other)
  moreover have "net_other s2 s'" using s(3) Suc.IH by (auto split: if_splits)
  ultimately show ?case using net_other_trans by blast
qed simp

lemma net_send_other: "tw_net_send c nc e me = Inr me' \<Longrightarrow> net_other me me'"
  using send_loop_other by (fastforce simp: tw_net_send_def Let_def net_other_def)

lemma net_cancel_other: "tw_net_cancel c nc e me = Inr me' \<Longrightarrow> net_other me me'"
  unfolding tw_net_cancel_def Let_def
  by (auto simp: net_other_def split: tw_event_owner.splits dest!: service_queues_other)

interpretation gvt_obs: observation "\<lambda>pe. (GVT_sig pe, GVT_prev_sig pe)" "mpi_net c nc" for c nc
  by unfold_locales (auto simp: mpi_net_def net_other_def dest: net_send_other net_cancel_other)


context observation
begin

lemma conservative_event: "conservative_event c net a pe = Inr pe' \<Longrightarrow> obs pe' = obs pe"
  unfolding conservative_event_def Let_def
  by (auto simp: begin_event_def advance_critical_path_def count_processed_def run_commit_def Let_def
      split: if_splits option.splits elim!: ebindE dest!: run_event)

lemma conservative_round: "conservative_round c net pe = Inr (go, pe') \<Longrightarrow> obs pe' = obs pe"
  unfolding conservative_round_def Let_def
  by (auto split: if_splits option.splits elim!: ebindE dest!: pq_calls(3) conservative_event)

lemma conservative_loop: "conservative_loop n c net pe = Inr pe' \<Longrightarrow> obs pe' = obs pe"
proof (induction n arbitrary: pe)
  case (Suc n)
  then show ?case by (fastforce split: if_splits elim!: ebindE dest!: conservative_round)
qed simp

end

text \<open>What the three loops have in common; in the following \<open>kept\<close> is that GVT and the previous GVT are the same.\<close>

definition kept :: "('st, 'bf, 'm, 'z) tw_pe_scheme \<Rightarrow> ('st, 'bf, 'm, 'z) tw_pe_scheme \<Rightarrow> bool" where
  "kept me me' \<longleftrightarrow> GVT_sig me' = GVT_sig me \<and> GVT_prev_sig me' = GVT_prev_sig me"

lemma kept_trans: "kept a b \<Longrightarrow> kept b d \<Longrightarrow> kept a d"
  by (simp add: kept_def)

lemma kept_read: "(if b then tw_net_read c nc me else Inr me) = Inr m1 \<Longrightarrow> kept me m1"
  by (auto simp: kept_def tw_net_read_def split: if_splits dest: service_queues_obs)

lemma kept_step1: "kept me (tw_gvt_step1 c la me)" "kept me (tw_gvt_step1_realtime c la x y me)"
  by (simp_all add: kept_def tw_gvt_step1_def tw_gvt_step1_realtime_def Let_def)

lemma kept_event_q: "tw_sched_event_q n c (mpi_net c nc) me = Inr me' \<Longrightarrow> kept me me'"
  by (drule gvt_obs.sched_event_q) (simp add: kept_def)

lemma kept_cancel_q: "tw_sched_cancel_q n c (mpi_net c nc) me = Inr me' \<Longrightarrow> kept me me'"
  by (drule gvt_obs.sched_cancel_q) (simp add: kept_def)

lemmas kept_poll = kept_read kept_step1 kept_event_q kept_cancel_q

lemma kept_batch: "batch_loop n c (mpi_net c nc) me = Inr me' \<Longrightarrow> kept me me'"
  by (drule gvt_obs.batch) (simp add: kept_def)

lemma kept_batch_realtime:
  fixes me :: "('st, 'bf, 'm, 'r, 'w, 'z) rt_pe_scheme"
  assumes "tw_sched_batch_realtime c (mpi_net c nc) i clock me = Inr me'"
  shows "kept me me'"
proof -
  obtain m where "same_result (batch_loop m c (mpi_net c nc) me) (Inr me')"
    using batch_same[of "mblock c" c "mpi_net c nc" me i clock] assms unfolding tw_sched_batch_realtime_def by auto
  then obtain q where "batch_loop m c (mpi_net c nc) me = Inr q" "same_work q me'"
    by (cases "batch_loop m c (mpi_net c nc) me") (auto simp: same_result_def)
  then show ?thesis using kept_batch[of m c nc me q] by (auto simp: kept_def same_work_def)
qed

lemma kept_conservative: "conservative_loop n c (mpi_net c nc) me = Inr me' \<Longrightarrow> kept me me'"
  by (drule gvt_obs.conservative_loop) (simp add: kept_def)

section \<open>All PEs have the same GVT\<close>

text \<open>
  All PEs have the time \<open>t\<close> as GVT and the same previous one; a PE in the loop or in the computation has
  not reached the end of the run, and one that has left the loop has.
\<close>

definition agreed :: "('st, 'bf, 'm, 'r, 'w, 'z) par_run \<Rightarrow> real \<Rightarrow> tw_event_sig \<Rightarrow> ('st, 'bf, 'm, 'r, 'w, 'z) pes \<Rightarrow> bool" where
  "agreed R t v ps \<longleftrightarrow> (\<forall>i < length ps. recv_ts (GVT_sig (snd (ps ! i))) = t \<and> GVT_prev_sig (snd (ps ! i)) = v \<and>
     (fst (ps ! i) = Looping \<or> fst (ps ! i) = In_gvt \<longrightarrow> t \<le> ts_end (run_cs R i)) \<and>
     (fst (ps ! i) = Finished \<longrightarrow> t > ts_end (run_cs R i)))"

lemma agreed_update:
  assumes "agreed R t v ps" "i < length ps" "recv_ts (GVT_sig me) = t" "GVT_prev_sig me = v"
    "ph = Looping \<or> ph = In_gvt \<Longrightarrow> t \<le> ts_end (run_cs R i)" "ph = Finished \<Longrightarrow> t > ts_end (run_cs R i)"
  shows "agreed R t v (ps[i := (ph, me)])"
  using assms unfolding agreed_def by (auto simp: nth_list_update)

text \<open>The computation gives every PE the same time, and none before the last one.\<close>

lemma read_all_obs:
  "read_all cs ncs i mes w = Inr (mes', w') \<Longrightarrow> list_all2 (\<lambda>a b. GVT_sig b = GVT_sig a \<and> GVT_prev_sig b = GVT_prev_sig a) mes mes'"
proof (induction mes arbitrary: i w mes')
  case (Cons me mes)
  then obtain m1 ms where m: "tw_net_read (cs i) (ncs i) (me\<lparr>world := w\<rparr>) = Inr m1"
    "read_all cs ncs (Suc i) mes (world m1) = Inr (ms, w')" "mes' = m1 # ms"
    by (auto elim!: ebindE)
  have "GVT_sig m1 = GVT_sig me \<and> GVT_prev_sig m1 = GVT_prev_sig me"
    using service_queues_obs[OF m(1)[unfolded tw_net_read_def]] by simp
  then show ?case using Cons.IH[OF m(2)] m(3) by simp
qed simp

lemma white_loop_obs:
  fixes mes :: "('st, 'bf, 'm, 'r, 'w, 'z) gvt_pe_scheme list"
  shows "white_loop n cs ncs mes w = Inr (mes', w') \<Longrightarrow>
    list_all2 (\<lambda>a b. GVT_sig b = GVT_sig a \<and> GVT_prev_sig b = GVT_prev_sig a) mes mes'"
proof (induction n arbitrary: mes w)
  case (Suc n)
  let ?f = "map (\<lambda>me :: ('st, 'bf, 'm, 'r, 'w, 'z) gvt_pe_scheme. me\<lparr>all_reduce_cnt := all_reduce_cnt me + 1\<rparr>)"
  obtain q where q: "read_all cs ncs 0 mes w = Inr q"
    "(case q of (ms, w1) \<Rightarrow> if (\<Sum>me \<leftarrow> ms. local_white me) = 0 then Inr (?f ms, w1) else white_loop n cs ncs (?f ms) w1) = Inr (mes', w')"
    by (rule ebindE[OF Suc.prems[unfolded white_loop.simps Let_def]])
  obtain ms w1 where ms: "q = (ms, w1)" by (cases q)
  note m = q[unfolded ms prod.case]
  have a: "list_all2 (\<lambda>a b. GVT_sig b = GVT_sig a \<and> GVT_prev_sig b = GVT_prev_sig a) mes (?f ms)"
    using read_all_obs[OF m(1)] by (simp add: list_all2_conv_all_nth)
  have b: "list_all2 (\<lambda>a b. GVT_sig b = GVT_sig a \<and> GVT_prev_sig b = GVT_prev_sig a) (?f ms) mes'"
    using m(2) Suc.IH[of "?f ms" w1] by (auto split: if_splits simp: list_all2_conv_all_nth)
  show ?case by (rule list_all2_trans[OF _ a b]) simp
qed simp

definition new_gvt_ts :: "tw_event_sig \<Rightarrow> tw_event_sig \<Rightarrow> real" where
  "new_gvt_ts v g = recv_ts (if tw_event_sig_compare_ptr g v < 0 then g else tw_copy_event_sig g v)"

lemma gvt_commit_obs:
  assumes "gvt_commit c g me = Inr me'"
  shows "recv_ts (GVT_sig me') = new_gvt_ts (GVT_prev_sig me) g" "GVT_prev_sig me' = GVT_prev_sig me"
    "recv_ts (GVT_sig me) \<le> new_gvt_ts (GVT_prev_sig me) g"
proof -
  obtain g' m2 m3 where g': "g' = (if tw_event_sig_compare_ptr g (GVT_prev_sig me) < 0 then g else tw_copy_event_sig g (GVT_prev_sig me))"
    and m2: "GVT_sig m2 = tw_copy_event_sig (GVT_sig me) g'" "GVT_prev_sig m2 = GVT_prev_sig me"
    and c0: "\<not> tw_event_sig_compare_ptr (GVT_sig me) g' > 0"
    and c1: "(if protocol c = OPTIMISTIC \<or> protocol c = OPTIMISTIC_REALTIME then tw_pe_fossil_collect c m2 else Inr m2) = Inr m3"
      "me' = m3\<lparr>gvt_done := gvt_done m3 + 1\<rparr>"
    by (rule gvt_commit_elim[OF assms])
  have f: "GVT_sig m3 = GVT_sig m2" "GVT_prev_sig m3 = GVT_prev_sig m2"
    using c1(1) fossil_collect_frame[of c "[0..<nkp c]" m2 m3] by (auto simp: tw_pe_fossil_collect_def fossil_frame_def split: if_splits)
  have "recv_ts (tw_copy_event_sig a b) = recv_ts b" for a b by (simp add: tw_copy_event_sig_def)
  then show "recv_ts (GVT_sig me') = new_gvt_ts (GVT_prev_sig me) g" "GVT_prev_sig me' = GVT_prev_sig me"
    by (simp_all add: c1(2) f m2 g' new_gvt_ts_def)
  show "recv_ts (GVT_sig me) \<le> new_gvt_ts (GVT_prev_sig me) g"
    using c0 unfolding new_gvt_ts_def g'[symmetric] by (auto simp: tw_event_sig_compare_ptr_def split: if_splits)
qed


lemma commit_all_obs:
  assumes "commit_all cs g i mes = Inr mes'" "\<forall>me \<in> set mes. GVT_prev_sig me = v"
  shows "list_all2 (\<lambda>a b. recv_ts (GVT_sig b) = new_gvt_ts v g \<and> GVT_prev_sig b = v \<and> recv_ts (GVT_sig a) \<le> new_gvt_ts v g) mes mes'"
  using assms
proof (induction mes arbitrary: i mes')
  case (Cons me mes)
  then obtain m ms where m: "gvt_commit (cs i) g me = Inr m" "commit_all cs g (Suc i) mes = Inr ms" "mes' = m # ms"
    by (auto elim!: ebindE)
  have "GVT_prev_sig me = v" using Cons.prems(2) by simp
  then show ?case using gvt_commit_obs[OF m(1)] Cons.IH[OF m(2)] Cons.prems(2) m(3) by simp
qed simp

lemma step2_obs:
  assumes r: "tw_gvt_step2 n cs ncs us mes w = Inr (mes', w')"
    and v: "\<forall>me \<in> set mes. GVT_prev_sig me = v" and t: "\<forall>me \<in> set mes. recv_ts (GVT_sig me) = t"
  shows "\<exists>t'. t \<le> t' \<and> length mes' = length mes \<and> (\<forall>me \<in> set mes'. recv_ts (GVT_sig me) = t' \<and> GVT_prev_sig me = v)"
proof (cases "list_all (\<lambda>me. \<not> gvt_status me) mes")
  case True
  then have "mes' = mes" using r by (simp add: tw_gvt_step2_def)
  then show ?thesis using v t by blast
next
  case False
  then have "mes \<noteq> []" by auto
  obtain ms w1 g where m: "white_loop n cs ncs mes w = Inr (ms, w1)" "commit_all cs g 0 ms = Inr mes'"
    using r False unfolding tw_gvt_step2_def by (auto split: if_splits elim!: ebindE)
  note o = white_loop_obs[OF m(1)]
  have ms: "length ms = length mes" "\<forall>me \<in> set ms. GVT_prev_sig me = v" "\<forall>me \<in> set ms. recv_ts (GVT_sig me) = t"
    using o v t unfolding list_all2_conv_all_nth all_set_conv_all_nth by simp_all
  note c = commit_all_obs[OF m(2) ms(2)]
  have l: "length mes' = length ms" using c by (simp add: list_all2_conv_all_nth)
  have "\<forall>me \<in> set mes'. recv_ts (GVT_sig me) = new_gvt_ts v g \<and> GVT_prev_sig me = v"
    using c unfolding list_all2_conv_all_nth all_set_conv_all_nth by simp
  moreover have "t \<le> new_gvt_ts v g"
  proof -
    obtain m0 ms0 where 0: "ms = m0 # ms0" using \<open>mes \<noteq> []\<close> ms(1) by (cases ms) auto
    then obtain m1 where "recv_ts (GVT_sig m0) \<le> new_gvt_ts v g" "recv_ts (GVT_sig m0) = t"
      using c ms(3) by (auto simp: list_all2_Cons1)
    then show ?thesis by simp
  qed
  ultimately show ?thesis using l ms(1) by (intro exI[of _ "new_gvt_ts v g"]) simp
qed

lemma hook_all_none: "\<forall>j. \<not> has_hook (run_cs R j) \<Longrightarrow> hook_all R a b i mes = Inr mes"
  by (induction mes arbitrary: i) (simp_all add: tw_gvt_hook_step_def Let_def)


section \<open>The loops\<close>

text \<open>
  A loop that changes GVT in the computation only, and that ends when GVT is past the end of the run.
\<close>

locale gvt_loop =
  fixes poll :: "'t \<Rightarrow> nat \<Rightarrow> nat \<Rightarrow> ('st, 'bf, 'm, 'r, 'w, 'z) gvt_pe_scheme \<Rightarrow> ross_error + ('st, 'bf, 'm, 'r, 'w, 'z) gvt_pe_scheme"
    and process :: "'t \<Rightarrow> nat \<Rightarrow> ('st, 'bf, 'm, 'r, 'w, 'z) gvt_pe_scheme \<Rightarrow> ross_error + (phase \<times> ('st, 'bf, 'm, 'r, 'w, 'z) gvt_pe_scheme)"
    and mark :: "'t \<Rightarrow> ('st, 'bf, 'm, 'r, 'w, 'z) gvt_pe_scheme \<Rightarrow> ('st, 'bf, 'm, 'r, 'w, 'z) gvt_pe_scheme"
    and R :: "('st, 'bf, 'm, 'r, 'w, 'z) par_run"
  assumes poll_keeps: "poll t i n me = Inr me' \<Longrightarrow> kept me me'"
    and process_keeps: "process t i me = Inr (ph, me') \<Longrightarrow> kept me me' \<and>
        ph = (if recv_ts (GVT_sig me) > ts_end (run_cs R i) then Finished else Looping)"
    and mark_keeps: "kept me (mark t me)"
begin

lemma step_agreed:
  assumes st: "par_step poll process mark R (ps, w) (ps', w')" and a: "agreed R t v ps" and h: "\<forall>j. \<not> has_hook (run_cs R j)"
  shows "\<exists>t'. t \<le> t' \<and> agreed R t' v ps' \<and> length ps' = length ps"
  using st
proof cases
  case (enter i me x me')
  have o: "recv_ts (GVT_sig me) = t" "GVT_prev_sig me = v" "t \<le> ts_end (run_cs R i)"
    using a enter(3,4) unfolding agreed_def by auto
  have "agreed R t v (ps[i := (In_gvt, me')])"
    by (rule agreed_update[OF a enter(3)]) (use poll_keeps[OF enter(5)] o in \<open>simp_all add: kept_def\<close>)
  then show ?thesis unfolding enter(1) by auto
next
  case (iterate i me x me' y ph me'')
  have o: "recv_ts (GVT_sig me) = t" "GVT_prev_sig me = v" "t \<le> ts_end (run_cs R i)"
    using a iterate(3,4) unfolding agreed_def by auto
  have "agreed R t v (ps[i := (ph, me'')])"
    by (rule agreed_update[OF a iterate(3)])
      (use poll_keeps[OF iterate(5)] process_keeps[OF iterate(7)] o in \<open>simp_all add: kept_def split: if_splits\<close>)
  then show ?thesis unfolding iterate(1) by auto
next
  case (compute mes ts mes')
  let ?ms = "map (\<lambda>i. mark (ts i) (mes ! i)) [0..<length mes]"
  have m: "mes' = ?ms" using compute(4) by (simp add: hook_all_none[OF h])
  have "\<forall>me \<in> set (map snd ps). GVT_prev_sig me = v" "\<forall>me \<in> set (map snd ps). recv_ts (GVT_sig me) = t"
    using a unfolding agreed_def all_set_conv_all_nth by simp_all
  then obtain t' where t': "t \<le> t'" "length mes = length (map snd ps)" "\<forall>me \<in> set mes. recv_ts (GVT_sig me) = t' \<and> GVT_prev_sig me = v"
    using step2_obs[OF compute(3)] by blast
  then have "agreed R t' v (map (Pair After_gvt) ?ms)" using mark_keeps by (simp add: agreed_def kept_def)
  then show ?thesis using t' unfolding compute(1) m by auto
next
  case (leave i me x ph me')
  have o: "recv_ts (GVT_sig me) = t" "GVT_prev_sig me = v"
    using a leave(3,4) unfolding agreed_def by auto
  have "agreed R t v (ps[i := (ph, me')])"
    by (rule agreed_update[OF a leave(3)])
      (use process_keeps[OF leave(5)] o in \<open>simp_all add: kept_def split: if_splits\<close>)
  then show ?thesis unfolding leave(1) by auto
qed

lemma reachable_agreed:
  assumes "(par_step poll process mark R)\<^sup>*\<^sup>* (ps, w) (ps', w')" "agreed R t v ps" "\<forall>j. \<not> has_hook (run_cs R j)"
  shows "\<exists>t'. t \<le> t' \<and> agreed R t' v ps' \<and> length ps' = length ps"
  using assms(1)
proof (induction ps' w' rule: rtranclp_induct2)
  case refl
  then show ?case using assms(2) by auto
next
  case (step ps1 w1 ps2 w2)
  then show ?case using step_agreed[OF step.hyps(2) _ assms(3)] by (metis order_trans)
qed

end

text \<open>The three loops are such loops.\<close>

lemma opt_poll_kept: "opt_poll n c nc la nn me = Inr me' \<Longrightarrow> kept me me'"
  unfolding opt_poll_def Let_def by (elim ebindE) (meson kept_poll kept_trans)

lemma rt_poll_kept: "rt_poll n c nc la i now nn me = Inr me' \<Longrightarrow> kept me me'"
  unfolding rt_poll_def Let_def by (elim ebindE) (meson kept_poll kept_trans)

lemma cons_poll_kept: "cons_poll n c nc la nn me = Inr me' \<Longrightarrow> kept me me'"
  unfolding cons_poll_def Let_def by (elim ebindE) (meson kept_poll kept_trans)

lemma kept_refl [simp]: "kept me me"
  by (simp add: kept_def)

interpretation opt_loop: gvt_loop "\<lambda>_ :: unit. \<lambda>i. opt_poll (run_fuel R) (run_cs R i) (run_ncs R i) (run_lookahead R)"
    "\<lambda>_ i. opt_process (run_cs R i) (run_ncs R i)" "\<lambda>_ me. me" R for R
  by unfold_locales (auto simp: opt_process_def tw_sched_batch_def elim!: ebindE split: if_splits dest: opt_poll_kept kept_batch)

interpretation rt_loop: gvt_loop "\<lambda>t i. rt_poll (run_fuel R) (run_cs R i) (run_ncs R i) (run_lookahead R) (run_interval R) (t (0 :: nat))"
    "\<lambda>t i. rt_process (run_cs R i) (run_ncs R i) (run_interval R) t" "\<lambda>t. rt_mark (t 0)" R for R
  by unfold_locales
    (auto simp: rt_process_def rt_mark_def kept_def[of _ "_ \<lparr>g_tw_gvt_interval_start_cycles := _\<rparr>"] elim!: ebindE split: if_splits
      dest: rt_poll_kept kept_batch_realtime)

interpretation cons_loop: gvt_loop "\<lambda>_ :: unit. \<lambda>i. cons_poll (run_fuel R) (run_cs R i) (run_ncs R i) (run_lookahead R)"
    "\<lambda>_ i. cons_process (run_cs R i) (run_ncs R i)" "\<lambda>_ me. me" R for R
  by unfold_locales (auto simp: cons_process_def elim!: ebindE split: if_splits dest: cons_poll_kept kept_conservative)

text \<open>A step of one of the three loops.\<close>

definition loop_step :: "('st, 'bf, 'm, 'r, 'w, ('z) rt_pe_ext) par_run \<Rightarrow>
    (('st, 'bf, 'm, 'r, 'w, ('z) rt_pe_ext) pes \<times> 'w \<Rightarrow> ('st, 'bf, 'm, 'r, 'w, ('z) rt_pe_ext) pes \<times> 'w \<Rightarrow> bool) \<Rightarrow> bool" where
  "loop_step R step \<longleftrightarrow> step = cons_step R \<or> step = opt_step R \<or> step = rt_step R"

lemma loop_step_agreed:
  assumes "loop_step R step" "step (ps, w) (ps', w')" "agreed R t v ps" "\<forall>j. \<not> has_hook (run_cs R j)"
  shows "\<exists>t'. t \<le> t' \<and> agreed R t' v ps' \<and> length ps' = length ps"
  using assms unfolding loop_step_def cons_step_def opt_step_def rt_step_def
  by (elim disjE) (simp_all add: opt_loop.step_agreed rt_loop.step_agreed cons_loop.step_agreed)

lemma loop_reachable_agreed:
  assumes "loop_step R step" "step\<^sup>*\<^sup>* (ps, w) (ps', w')" "agreed R t v ps" "\<forall>j. \<not> has_hook (run_cs R j)"
  shows "\<exists>t'. t \<le> t' \<and> agreed R t' v ps' \<and> length ps' = length ps"
  using assms unfolding loop_step_def cons_step_def opt_step_def rt_step_def
  by (elim disjE) (simp_all add: opt_loop.reachable_agreed rt_loop.reachable_agreed cons_loop.reachable_agreed)

end
