(* ===== verification/Sched_Props.thy ===== *)
theory Sched_Props
  imports Sequential Parallel Gvt_Props
begin

text \<open>
  The properties of the schedulers of \<open>Schedulers\<close>, applied to the PHOLD model on a PE with one
  pending event.
\<close>

section \<open>The optimistic debug scheduler\<close>

text \<open>
  C8: the optimistic debug scheduler is the identity. For a model that keeps its contract, from a
  state in which nothing has been processed and with all LPs on one KP, it returns within as many
  rounds as there are buffers; all LPs are what they were, model state, random streams and
  critical path, the pending events are exactly those at the start, and everything the run sent
  has been cancelled and freed.
\<close>

theorem debug_scheduler_identity:
  assumes "tw_base c U G (lps pe) pe" "causal c U pe" "model_ok c G n (recv_ts (GVT_sig pe))" "fresh_ids c U (card U * n) pe"
    "\<forall>i. kp_of c i = 0" "nkp c \<le> 1" "pevents pe 0 = []" "event_q pe = []" "cancel_q pe = []"
    "\<forall>b \<in> set (contents (pq pe)). sig_key zero_time \<le> sig_key (qsig (heap pe b))"
  shows "\<exists>pe'. tw_scheduler_optimistic_debug (Suc (card U)) 1 c net pe = Inr pe' \<and> lps pe' = lps pe \<and>
    event_q pe' = [] \<and> cancel_q pe' = [] \<and> pevents pe' 0 = [] \<and> set (contents (pq pe')) = set (contents (pq pe)) \<and>
    (\<forall>b \<in> set (contents (pq pe)). qsig (heap pe' b) = qsig (heap pe b))"
  using debug_run[OF assms] .

theorem debug_scheduler_identity_witness:
  "\<exists>pe'. tw_scheduler_optimistic_debug (Suc (card ex_U)) 1 ex_dconfig ex_net ex_dpe = Inr pe' \<and> lps pe' = (\<lambda>_. ex_lp) \<and>
    set (contents (pq pe')) = {0}"
proof -
  have "model_ok ex_dconfig phold_good 1 (recv_ts (GVT_sig ex_dpe))" using ex_dmodel by simp
  moreover have "fresh_ids ex_dconfig ex_U (card ex_U * 1) ex_dpe" by (rule ex_dfresh) simp
  moreover have "\<forall>b \<in> set (contents (pq ex_dpe)). sig_key zero_time \<le> sig_key (qsig (heap ex_dpe b))"
    by (simp add: contents_def ex_dheap_def zero_time_def g_tw_rollback_time_def sig_key_def ex_sig_def less_eq_prod_def)
  ultimately obtain pe' where "tw_scheduler_optimistic_debug (Suc (card ex_U)) 1 ex_dconfig ex_net ex_dpe = Inr pe'"
      "lps pe' = lps ex_dpe" "set (contents (pq pe')) = set (contents (pq ex_dpe))"
    using debug_scheduler_identity[OF ex_dbase ex_dcausal, of 1 ex_net] by auto
  then show ?thesis by (intro exI[of _ pe']) (simp add: contents_def)
qed

section \<open>The sequential schedulers\<close>

text \<open>
  C9: the sequential scheduler runs the model in the order of time. On a single PE, with any number
  of KPs and no GVT hook, the events it processes come in ascending order of their signatures and
  none is after the end of the run. It ends only when no event is pending or all pending ones are
  after the end, or because the buffers ran out; no other error occurs, and each round of a run that
  has not ended has processed one more event. The reverse handlers of the model are not needed, and
  the model keeps its contract from the time \<open>t0\<close> on, before which nothing is pending.
\<close>

theorem sequential_in_order:
  assumes "seq_inv c U G pe" "seq_model c G n t0" "fresh_ids c U (k * n) pe" "\<not> has_hook c"
    "\<forall>b \<in> set (contents (pq pe)). t0 \<le> recv_ts (qsig (heap pe b))"
  shows "sorted (map sig_key (sequential_trace k c hook (sequential_event c net) pe)) \<and>
    (\<forall>s \<in> set (sequential_trace k c hook (sequential_event c net) pe). recv_ts s \<le> ts_end c) \<and>
    (tw_scheduler_sequential k 1 c hook net pe = Inl no_buffers \<or> tw_scheduler_sequential k 1 c hook net pe = Inl no_memory \<or>
     tw_scheduler_sequential k 1 c hook net pe = Inl Out_Of_Fuel \<and> length (sequential_trace k c hook (sequential_event c net) pe) = k \<or>
     (\<exists>pe'. tw_scheduler_sequential k 1 c hook net pe = Inr pe' \<and> seq_inv c U G pe' \<and>
        (\<forall>b \<in> set (contents (pq pe')). ts_end c < recv_ts (qsig (heap pe' b)))))"
  using sequential_run[OF assms, of hook net] by (simp add: tw_scheduler_sequential_def)

definition ex_sconfig :: "(phold_state, tw_bf, int) config" where
  "ex_sconfig = ex_dconfig\<lparr>protocol := SEQUENTIAL\<rparr>"

lemma ex_commit: "commit_h ex_config = Some (\<lambda>_ s _ _. s)" "\<not> has_hook ex_config"
  by (simp_all add: ex_config_def phold_config_def)

lemma ex_stays: "phold_good st \<Longrightarrow> phold_good (o_state (event_h ex_config lp s st (bf0 ex_config) m))"
proof -
  have "reversible_handlers phold_good (event_h ex_config lp s) (revent_h ex_config lp s) (bf0 ex_config)"
    using ex_model[of 0] by (simp add: model_ok_def handlers_ok_def)
  then show "phold_good st \<Longrightarrow> phold_good (o_state (event_h ex_config lp s st (bf0 ex_config) m))"
    by (rule reversible_handlers.stays_good)
qed

lemma ex_seq:
  "seq_inv ex_sconfig ex_U phold_good ex_dpe" "seq_model ex_sconfig phold_good 1 0" "fresh_ids ex_sconfig ex_U 5 ex_dpe"
  "\<not> has_hook ex_sconfig"
proof -
  have c: "pe_ok ex_sconfig = pe_ok ex_dconfig" "fresh_ids ex_sconfig = fresh_ids ex_dconfig" "sends_ok ex_sconfig = sends_ok ex_config"
    by (simp_all add: fun_eq_iff pe_ok_def owned_def fresh_ids_def sends_ok_def send_ok_def ex_sconfig_def ex_dconfig_def)
  show "seq_inv ex_sconfig ex_U phold_good ex_dpe"
    using ex_dok ex_lp_good[unfolded lp_good_def] unfolding seq_inv_def c by (auto simp: ex_sconfig_def ex_dheap_def split: if_splits)
  show "seq_model ex_sconfig phold_good 1 0"
    using ex_model[of 0] ex_stays unfolding seq_model_def c model_ok_def
    by (auto simp: ex_sconfig_def ex_dconfig_def ex_commit)
  show "fresh_ids ex_sconfig ex_U 5 ex_dpe" unfolding c by (rule ex_dfresh) simp
  show "\<not> has_hook ex_sconfig" by (simp add: ex_sconfig_def ex_dconfig_def ex_commit)
qed

theorem sequential_in_order_witness:
  "sorted (map sig_key (sequential_trace 5 ex_sconfig (\<lambda>_ me. me) (sequential_event ex_sconfig ex_net) ex_dpe)) \<and>
    tw_scheduler_sequential 5 1 ex_sconfig (\<lambda>_ me. me) ex_net ex_dpe \<noteq> Inl Bad_Pointer"
  using sequential_in_order[OF ex_seq(1,2) _ ex_seq(4), of 5 "\<lambda>_ me. me" ex_net] ex_seq(3)
  by (auto simp: no_buffers_def no_memory_def contents_def ex_dheap_def)

text \<open>The buffer that \<open>crv_init_checkpoints\<close> asks for is large enough for each checkpointer it found.\<close>

lemma largest_checkpoint:
  assumes "find_checkpointer t ks = Some k" "t \<in> set lptypes"
  shows "sz_storage k \<le> fst (crv_init_checkpoints lptypes ks)"
proof -
  let ?f = "\<lambda>k m. case k of None \<Rightarrow> m | Some k \<Rightarrow> if sz_storage k > m then sz_storage k else m"
  have up: "m \<le> fold ?f cs m" for cs :: "'a crv_checkpointer option list" and m
  proof (induction cs arbitrary: m)
    case (Cons x cs)
    have "m \<le> ?f x m" by (auto split: option.split)
    then show ?case using Cons.IH[of "?f x m"] by simp
  qed simp
  have "sz_storage k \<le> fold ?f cs m" if "Some k \<in> set cs" for cs m
    using that
  proof (induction cs arbitrary: m)
    case (Cons x cs)
    show ?case
    proof (cases "Some k = x")
      case True
      then have "sz_storage k \<le> ?f x m" by auto
      then show ?thesis using up[of "?f x m" cs] by simp
    next
      case False
      then show ?thesis using Cons.IH[of "?f x m"] Cons.prems by simp
    qed
  qed simp
  moreover have "Some k \<in> set (map (\<lambda>t. find_checkpointer t ks) lptypes)" using assms by force
  moreover have "ks \<noteq> []" using assms(1) by auto
  ultimately show ?thesis by (simp add: crv_init_checkpoints_def Let_def)
qed

text \<open>
  C22: a checkpoint can overrun its buffer. The scheduler that checks rollbacks allocates the
  buffers with the size of the largest state of an LP, and looks up the size of the largest
  checkpoint only afterwards. Where the next event is for an LP whose checkpointer fills a
  checkpoint that is larger than every LP state, the scheduler writes behind the buffer before it
  handles that event. A buffer of the size that it computes and does not use would hold the copy.
\<close>

theorem checkpoint_overruns:
  assumes me: "tw_gvt_hook_step_seq c hook me = Inr me1" "pq_minimum_ts me1 \<le> ts_end c" "pq_dequeue me1 = Inr (Some a, me2)"
    and lp: "lp = dest_lp (heap me2 a)" "lp < length lptypes"
    and k: "find_checkpointer (lptypes ! lp) ks = Some k" "save_lp k = Some f" "\<forall>s. fst (f s) = sz_storage k"
    and large: "largest_lp_size szs < sz_storage k"
  shows "tw_scheduler_sequential_rollback_check (Suc n) 1 c hook net lptypes szs ks me = Inl Bad_Pointer \<and>
    (\<exists>v. crv_copy_lpstate (max (largest_lp_size szs) (fst (crv_init_checkpoints lptypes ks))) szs
      (snd (crv_init_checkpoints lptypes ks)) lp (lps me2 lp) = Inr v)"
proof
  let ?cs = "snd (crv_init_checkpoints lptypes ks)"
  have "ks \<noteq> []" using k(1) by auto
  then have g: "Option.bind (get_chkpntr ?cs lp) save_lp = Some f"
    using k(1,2) lp(2) by (auto simp: get_chkpntr_def crv_init_checkpoints_def Let_def)
  have "crv_copy_lpstate (largest_lp_size szs) szs ?cs lp l = Inl Bad_Pointer" for l
  proof (cases "f (cur_state l)")
    case (Pair m v)
    then have "m = sz_storage k" using k(3)[rule_format, of "cur_state l"] by simp
    then show ?thesis using large Pair by (simp add: crv_copy_lpstate_def g write_buf_def)
  qed
  then have e: "rollback_check_event c (largest_lp_size szs) szs ?cs net a me2 = Inl Bad_Pointer"
    unfolding lp(1) by (simp add: rollback_check_event_def Let_def)
  have "sequential_round c hook (rollback_check_event c (largest_lp_size szs) szs ?cs net) me = Inl Bad_Pointer"
    using me(2) by (simp add: sequential_round_def me(1,3) e)
  then show "tw_scheduler_sequential_rollback_check (Suc n) 1 c hook net lptypes szs ks me = Inl Bad_Pointer"
    by (simp add: tw_scheduler_sequential_rollback_check_def split_beta)
  have "sz_storage k \<le> fst (crv_init_checkpoints lptypes ks)" by (rule largest_checkpoint[OF k(1)]) (use lp(2) in simp)
  then show "\<exists>v. crv_copy_lpstate (max (largest_lp_size szs) (fst (crv_init_checkpoints lptypes ks))) szs ?cs lp (lps me2 lp) = Inr v"
    using k(3)[rule_format, of "cur_state (lps me2 lp)"]
    by (cases "f (cur_state (lps me2 lp))") (simp add: crv_copy_lpstate_def g write_buf_def)
qed

definition ex_checkpointer :: "phold_state crv_checkpointer" where
  "ex_checkpointer = \<lparr>lptype = 0, sz_storage = 64, save_lp = Some (\<lambda>s. (64, s)), check_lps = None\<rparr>"

theorem checkpoint_overruns_witness:
  "tw_scheduler_sequential_rollback_check 1 1 ex_sconfig (\<lambda>_ me. me) ex_net [0, 0] [8, 8] [ex_checkpointer] ex_dpe
    = Inl Bad_Pointer"
proof -
  have q: "tw_pq_dequeue (pq ex_dpe) = Inr (Some 0, \<lparr>root = Leaf, least = None, nitems = 0, max_size = 1\<rparr>)"
    by code_simp
  have s: "tw_gvt_hook_step_seq ex_sconfig (\<lambda>_ me. me) ex_dpe = Inr ex_dpe" "pq_minimum_ts ex_dpe \<le> ts_end ex_sconfig"
    using ex_seq(4)
    by (simp_all add: tw_gvt_hook_step_seq_def Let_def pq_minimum_ts_def tw_pq_minimum_sig_ptr_def ex_dheap_def
      ex_sconfig_def ex_dconfig_def ex_config_def phold_config_def ph_end_def)
  define me2 where "me2 = snd (projr (pq_dequeue ex_dpe))"
  have d: "pq_dequeue ex_dpe = Inr (Some 0, me2)" using q by (simp add: pq_dequeue_def me2_def)
  have l: "0 = dest_lp (heap me2 0)" using pq_dequeue_frame(1)[OF d, of 0] by (simp add: ex_dheap_def)
  show ?thesis
    using checkpoint_overruns[OF s d l, of "[0, 0]" "[ex_checkpointer]" ex_checkpointer "\<lambda>s. (64, s)" "[8, 8]" 0 ex_net]
    by (simp add: ex_checkpointer_def largest_lp_size_def)
qed

section \<open>The parallel schedulers on all PEs\<close>

text \<open>
  C10: the PEs leave the loop of a parallel scheduler together, in each of the three loops
  (conservative, optimistic, optimistic in real time). In every state that is reached by
  interleaving the iterations of the PEs and the common GVT computations, all PEs have the same
  GVT, which has not decreased; no PE is in the loop or waits in a computation when another one
  has left; and unless all have left, some PE can go on by itself or all wait in the computation,
  so that it takes place.
\<close>

theorem parallel_leave_together:
  assumes "loop_step R step" "step\<^sup>*\<^sup>* (ps, w) (ps', w')" "agreed R t v ps" "\<forall>j. \<not> has_hook (run_cs R j)"
    "\<forall>i j. ts_end (run_cs R i) = ts_end (run_cs R j)"
  shows "\<exists>t'. t \<le> t' \<and> (\<forall>p \<in> set ps'. recv_ts (GVT_sig (snd p)) = t') \<and>
    ((\<exists>p \<in> set ps'. fst p = Finished) \<longrightarrow> (\<forall>p \<in> set ps'. fst p = Finished \<or> fst p = After_gvt \<and> t' > ts_end (run_cs R 0))) \<and>
    ((\<forall>p \<in> set ps'. fst p = Finished) \<or> (\<forall>p \<in> set ps'. fst p = In_gvt) \<or>
     (\<exists>p \<in> set ps'. fst p = Looping \<or> fst p = After_gvt))"
proof -
  obtain t' where t': "t \<le> t'" "agreed R t' v ps'" using loop_reachable_agreed[OF assms(1-4)] by blast
  have e: "ts_end (run_cs R i) = ts_end (run_cs R 0)" for i using assms(5) by blast
  have p: "recv_ts (GVT_sig (snd p)) = t' \<and> (fst p = Looping \<or> fst p = In_gvt \<longrightarrow> t' \<le> ts_end (run_cs R 0)) \<and>
      (fst p = Finished \<longrightarrow> t' > ts_end (run_cs R 0))" if p: "p \<in> set ps'" for p
  proof -
    obtain i where "i < length ps'" "ps' ! i = p" using p by (auto simp: in_set_conv_nth)
    then show ?thesis using t'(2) e[of i] unfolding agreed_def by auto
  qed
  show ?thesis
  proof (intro exI[of _ t'] conjI t'(1) ballI impI)
    show "recv_ts (GVT_sig (snd q)) = t'" if "q \<in> set ps'" for q using p[OF that] by blast
    show "fst q = Finished \<or> fst q = After_gvt \<and> t' > ts_end (run_cs R 0)"
      if "\<exists>q \<in> set ps'. fst q = Finished" "q \<in> set ps'" for q
    proof -
      have "t' > ts_end (run_cs R 0)" using p that(1) by blast
      then show ?thesis using p[OF that(2)] by (cases "fst q") simp_all
    qed
    show "(\<forall>q \<in> set ps'. fst q = Finished) \<or> (\<forall>q \<in> set ps'. fst q = In_gvt) \<or>
        (\<exists>q \<in> set ps'. fst q = Looping \<or> fst q = After_gvt)"
    proof (cases "\<exists>q \<in> set ps'. fst q = Finished")
      case True
      then have "t' > ts_end (run_cs R 0)" using p by blast
      then have "fst q \<noteq> In_gvt" if "q \<in> set ps'" for q using p[OF that] by auto
      then show ?thesis by (metis phase.exhaust)
    next
      case False
      then show ?thesis by (metis phase.exhaust)
    qed
  qed
qed

definition ex_rpe :: "nat \<Rightarrow> (phold_state, tw_bf, int, bool, (nat \<times> (tw_bf, int) pevent) list) rt_pe" where
  "ex_rpe i = (gvt_pe.extend (ex_gpe i) \<lparr>g_tw_gvt_interval_start_cycles = 7\<rparr>)\<lparr>GVT_sig := ex_sig 100001\<rparr>"

lemma ex_rpe_sel: "recv_ts (GVT_sig (ex_rpe i)) = 100001" "GVT_prev_sig (ex_rpe i) = g_tw_max_sig"
  by (simp_all add: ex_rpe_def ex_gpe_def rt_pe.defs gvt_pe.defs net_pe.defs tw_pe.defs)

definition ex_run :: "(phold_state, tw_bf, int, bool, (nat \<times> (tw_bf, int) pevent) list, unit rt_pe_ext) par_run" where
  "ex_run = \<lparr>run_fuel = 1, run_cs = ex_gc, run_ncs = ex_gnc, run_lookahead = 1, run_stack = (\<lambda>_. ex_sig 0), run_hook = (\<lambda>_ me. me), run_interval = 5\<rparr>"

lemma ex_gc_no_hook: "\<not> has_hook (ex_gc j)" "ts_end (ex_gc j) = 100000"
  by (simp_all add: ex_gc_def ex_config_def phold_config_def ph_end_def)

theorem parallel_leave_together_witness:
  "\<exists>ps' w'. rt_step ex_run ([(After_gvt, ex_rpe 0), (After_gvt, ex_rpe 1)], ex_w) (ps', w') \<and> fst (ps' ! 0) = Finished \<and>
     (\<exists>t'. 100001 \<le> t' \<and> (\<forall>p \<in> set ps'. recv_ts (GVT_sig (snd p)) = t'))"
proof -
  let ?ps = "[(After_gvt, ex_rpe 0), (After_gvt, ex_rpe 1)]" and ?me = "(ex_rpe 0)\<lparr>world := ex_w\<rparr>"
  have st: "rt_step ex_run (?ps, ex_w) (?ps[0 := (Finished, ?me)], world ?me)"
    unfolding rt_step_def
    by (rule par_step.leave[where me = "ex_rpe 0"]) (simp_all add: rt_process_def ex_run_def ex_rpe_sel ex_gc_no_hook)
  have a: "agreed ex_run 100001 g_tw_max_sig ?ps"
    by (auto simp: agreed_def less_Suc_eq ex_rpe_sel)
  have h: "\<forall>j. \<not> has_hook (run_cs ex_run j)" "\<forall>i j. ts_end (run_cs ex_run i) = ts_end (run_cs ex_run j)"
    by (simp_all add: ex_run_def ex_gc_no_hook)
  have l: "loop_step ex_run (rt_step ex_run)" by (simp add: loop_step_def)
  have "\<exists>t'. 100001 \<le> t' \<and> (\<forall>p \<in> set (?ps[0 := (Finished, ?me)]). recv_ts (GVT_sig (snd p)) = t')"
    using parallel_leave_together[OF l r_into_rtranclp[where r = "rt_step ex_run", OF st] a h] by blast
  moreover have "fst (?ps[0 := (Finished, ?me)] ! 0) = Finished" by simp
  ultimately show ?thesis using st by blast
qed

end
