(* ===== verification/Setup.thy ===== *)
theory Setup
  imports Doubles
begin

text \<open>
  Setting up a process (\<open>core/tw-setup.c\<close>, \<open>core/tw-lp.c\<close>, \<open>core/tw-kp.c\<close>): the tables of
  LPs and KPs, the two mappings of LPs to KPs and processes the kernel has, and the checks before
  the run. Numbers are natural numbers below the bound of their C type; where the code can leave the
  range the reduction is written out (\<open>mod 2 ^ 64\<close> for \<open>tw_lpid\<close>, \<open>mod 2 ^ 32\<close> for an
  \<open>unsigned int\<close>). The tables are arrays of pointers to records, lists of options here; there are no
  analysis LPs, which are part of the instrumentation.
\<close>

section \<open>Tables\<close>

text \<open>\<open>tw_lptype\<close>: which handlers a type has, and the size of its state.\<close>

record tw_lptype =
  t_init :: bool
  t_pre_run :: bool
  t_event :: bool
  t_revent :: bool
  t_commit :: bool
  t_final :: bool
  t_map :: bool
  state_sz :: nat

definition null_type :: tw_lptype where
  "null_type = \<lparr>t_init = False, t_pre_run = False, t_event = False, t_revent = False, t_commit = False, t_final = False,
     t_map = False, state_sz = 0\<rparr>"

record lp_entry =
  lp_id :: nat
  lp_gid :: nat
  lp_pe :: "nat option"
  lp_kp :: "nat option"
  lp_type :: "tw_lptype option"

record kp_entry =
  kp_id :: nat
  kp_pe :: "nat option"
  lp_count :: nat

datatype tw_lp_map = LINEAR | ROUND_ROBIN | CUSTOM

record ross_setup =
  g_tw_mynode :: nat
  nnodes :: nat
  g_tw_nlp :: nat
  g_tw_nkp :: nat
  nkp_per_pe :: nat
  g_tw_lp_offset :: nat
  optimistic_debug :: bool
  g_tw_mapping :: tw_lp_map
  g_tw_lp :: "lp_entry option list"
  g_tw_kp :: "kp_entry option list"
  g_tw_lp_types :: "tw_lptype list"
  g_tw_delta_sz :: nat

text \<open>The single PE of the process has the number of the process.\<close>

definition g_tw_pe :: "ross_setup \<Rightarrow> nat option" where
  "g_tw_pe s = Some (g_tw_mynode s)"

section \<open>Placing LPs and KPs\<close>

definition tw_kp_onpe :: "nat \<Rightarrow> nat option \<Rightarrow> ross_setup \<Rightarrow> ross_error + ross_setup" where
  "tw_kp_onpe k pe s =
     (if k \<ge> g_tw_nkp s then Inl (Tw_Error ''ID exceeded MAX KPs'')
      else if g_tw_kp s ! k \<noteq> None then Inl (Tw_Error ''KP already allocated'')
      else Inr (s\<lparr>g_tw_kp := (g_tw_kp s)[k := Some \<lparr>kp_id = k, kp_pe = pe, lp_count = 0\<rparr>]\<rparr>))"

definition tw_lp_onpe :: "nat \<Rightarrow> nat option \<Rightarrow> nat \<Rightarrow> ross_setup \<Rightarrow> ross_error + ross_setup" where
  "tw_lp_onpe i pe gid s =
     (if i \<ge> g_tw_nlp s then Inl (Tw_Error ''ID exceeded MAX LPs'')
      else if g_tw_lp s ! i \<noteq> None then Inl (Tw_Error ''LP already allocated'')
      else Inr (s\<lparr>g_tw_lp := (g_tw_lp s)[i := Some \<lparr>lp_id = i, lp_gid = gid, lp_pe = pe, lp_kp = None, lp_type = None\<rparr>]\<rparr>))"

text \<open>The LP and the KP are given by their places in the tables; the KP is not checked.\<close>

definition tw_lp_onkp :: "nat \<Rightarrow> nat \<Rightarrow> ross_setup \<Rightarrow> ross_error + ross_setup" where
  "tw_lp_onkp i k s =
     (case g_tw_lp s ! i of
        None \<Rightarrow> Inl (Tw_Error ''Bad LP pointer!'')
      | Some l \<Rightarrow>
          case g_tw_kp s ! k of
            None \<Rightarrow> Inl Bad_Pointer
          | Some kp \<Rightarrow> Inr (s\<lparr>g_tw_lp := (g_tw_lp s)[i := Some (l\<lparr>lp_kp := Some k\<rparr>)],
                             g_tw_kp := (g_tw_kp s)[k := Some (kp\<lparr>lp_count := lp_count kp + 1\<rparr>)]\<rparr>))"

section \<open>The linear mapping\<close>

text \<open>
  \<open>(int)ceil((double) g_tw_nlp / (double) g_tw_nkp)\<close>: the numbers and the quotient are rounded to
  doubles, and the conversion of a quotient that is infinite or too large for an \<open>int\<close> is undefined.
\<close>

definition nlp_per_kp :: "ross_setup \<Rightarrow> ross_error + nat" where
  "nlp_per_kp s = (if g_tw_nkp s = 0 then Inl Int_Overflow
     else case i32 \<lceil>fl (fl (real (g_tw_nlp s)) / fl (real (g_tw_nkp s)))\<rceil> of
       None \<Rightarrow> Inl Int_Overflow
     | Some n \<Rightarrow> Inr (nat n))"

text \<open>The inner loop with \<open>r\<close> rounds left gives the next LP and the state.\<close>

fun linear_lps :: "nat \<Rightarrow> nat \<Rightarrow> nat \<Rightarrow> ross_setup \<Rightarrow> ross_error + (nat \<times> ross_setup)" where
  "linear_lps 0 kpid lpid s = Inr (lpid, s)"
| "linear_lps (Suc r) kpid lpid s =
     (if lpid < g_tw_nlp s then
        ebind (tw_lp_onpe lpid (g_tw_pe s) ((g_tw_lp_offset s + lpid) mod 2 ^ 64) s) (\<lambda>s.
        ebind (tw_lp_onkp lpid kpid s) (linear_lps r kpid (lpid + 1)))
      else Inr (lpid, s))"

fun linear_kps :: "nat \<Rightarrow> nat \<Rightarrow> nat \<Rightarrow> nat \<Rightarrow> ross_setup \<Rightarrow> ross_error + ross_setup" where
  "linear_kps 0 n kpid lpid s = Inr s"
| "linear_kps (Suc r) n kpid lpid s =
     ebind (tw_kp_onpe kpid (g_tw_pe s) s) (\<lambda>s.
     ebind (linear_lps n kpid lpid s) (\<lambda>(lpid, s). linear_kps r n (kpid + 1) lpid s))"

definition map_linear :: "ross_setup \<Rightarrow> ross_error + ross_setup" where
  "map_linear s =
     ebind (nlp_per_kp s) (\<lambda>n.
       if n = 0 then Inl (Tw_Error ''Not enough KPs defined'')
       else
         let s = s\<lparr>g_tw_lp_offset := (g_tw_mynode s * g_tw_nlp s) mod 2 ^ 64\<rparr> in
         ebind (linear_kps (nkp_per_pe s) n 0 0 s) (\<lambda>s.
           case g_tw_lp s ! (g_tw_nlp s - 1) of
             None \<Rightarrow> Inl (Tw_Error ''Not all LPs defined!'')
           | Some l \<Rightarrow> if lp_gid l \<noteq> (g_tw_lp_offset s + g_tw_nlp s - 1) mod 2 ^ 64
                       then Inl (Tw_Error ''LPs not sequentially enumerated!'') else Inr s))"

section \<open>The round-robin mapping\<close>

text \<open>
  The stride and the first number are kept in an \<open>int\<close>, and the loop counter is an \<open>unsigned int\<close>.
\<close>

definition to_int :: "nat \<Rightarrow> int" where
  "to_int n = signed_take_bit 31 (int n)"

definition to_lpid :: "int \<Rightarrow> nat" where
  "to_lpid k = nat (k mod 2 ^ 64)"

fun round_robin_loop :: "nat \<Rightarrow> nat \<Rightarrow> nat \<Rightarrow> ross_setup \<Rightarrow> ross_error + ross_setup" where
  "round_robin_loop 0 i lpid s = Inr s"
| "round_robin_loop (Suc r) i lpid s =
     (let kpid = i mod g_tw_nkp s in
      ebind (tw_lp_onpe i (g_tw_pe s) lpid s) (\<lambda>s.
      ebind (tw_kp_onpe kpid (g_tw_pe s) s) (\<lambda>s.
      ebind (tw_lp_onkp i kpid s) (round_robin_loop r ((i + 1) mod 2 ^ 32) (to_lpid (int lpid + to_int (nnodes s)))))))"

definition map_round_robin :: "ross_setup \<Rightarrow> ross_error + ross_setup" where
  "map_round_robin s =
     (if g_tw_nlp s > 0 \<and> g_tw_nkp s = 0 then Inl Int_Overflow
      else round_robin_loop (g_tw_nlp s) 0 (to_lpid (to_int (g_tw_mynode s))) s)"

section \<open>Defining the LPs and checking them\<close>

definition early_sanity_check :: "ross_setup \<Rightarrow> ross_error + ross_setup" where
  "early_sanity_check s =
     (if g_tw_nlp s = 0 then Inl (Tw_Error ''need at least one LP'')
      else if nkp_per_pe s = 0 then Inr (s\<lparr>g_tw_nkp := 1\<rparr>) else Inr s)"

text \<open>\<open>custom\<close> is the model's own mapping, where it has one.\<close>

definition tw_define_lps :: "(ross_setup \<Rightarrow> ross_error + ross_setup) option \<Rightarrow> nat \<Rightarrow> ross_setup \<Rightarrow> ross_error + ross_setup" where
  "tw_define_lps custom nlp s =
     ebind (early_sanity_check (s\<lparr>g_tw_nlp := nlp\<rparr>)) (\<lambda>s.
       let s = (if g_tw_nkp s = 1 \<and> \<not> optimistic_debug s then s\<lparr>g_tw_nkp := nkp_per_pe s\<rparr> else s);
           s = s\<lparr>g_tw_kp := replicate (g_tw_nkp s) None, g_tw_lp := replicate (g_tw_nlp s) None\<rparr>
       in case g_tw_mapping s of
            LINEAR \<Rightarrow> map_linear s
          | ROUND_ROBIN \<Rightarrow> map_round_robin s
          | CUSTOM \<Rightarrow> (case custom of
                None \<Rightarrow> Inl (Tw_Error ''CUSTOM mapping flag set but not custom mapping function!'')
              | Some f \<Rightarrow> f s))"

text \<open>The entry of the table is read before the number is checked.\<close>

definition tw_lp_settype :: "nat \<Rightarrow> tw_lptype \<Rightarrow> ross_setup \<Rightarrow> ross_error + ross_setup" where
  "tw_lp_settype i t s =
     (if i \<ge> length (g_tw_lp s) then Inl Bad_Pointer
      else if i \<ge> g_tw_nlp s then Inl (Tw_Error ''ID exceeded MAX LPs'')
      else case g_tw_lp s ! i of
        None \<Rightarrow> Inl (Tw_Error ''LP has no PE assigned.'')
      | Some l \<Rightarrow>
          if lp_pe l = None then Inl (Tw_Error ''LP has no PE assigned.'')
          else Inr (s\<lparr>g_tw_lp := (g_tw_lp s)[i := Some (l\<lparr>lp_type := Some t\<rparr>)],
                      g_tw_delta_sz := (if state_sz t > g_tw_delta_sz s then state_sz t else g_tw_delta_sz s)\<rparr>))"

text \<open>
  \<open>tw_lp_setup_types\<close>, with the model's mapping of LPs to types where it has one. The loop counter is
  an \<open>unsigned int\<close>: with more than $2^{32}$ LPs it comes back to 0, and the loop, if no round fails,
  goes on for ever.
\<close>

fun setup_types_loop :: "(nat \<Rightarrow> nat) \<Rightarrow> nat list \<Rightarrow> ross_setup \<Rightarrow> ross_error + ross_setup" where
  "setup_types_loop typemap [] s = Inr s"
| "setup_types_loop typemap (i # is') s =
     (case g_tw_lp s ! i of
        None \<Rightarrow> Inl Bad_Pointer
      | Some l \<Rightarrow>
          if typemap (lp_gid l) \<ge> length (g_tw_lp_types s) then Inl Bad_Pointer
          else setup_types_loop typemap is'
            (s\<lparr>g_tw_lp := (g_tw_lp s)[i := Some (l\<lparr>lp_type := Some (g_tw_lp_types s ! typemap (lp_gid l))\<rparr>)]\<rparr>))"

definition tw_lp_setup_types :: "(nat \<Rightarrow> nat) option \<Rightarrow> ross_setup \<Rightarrow> ross_error + ross_setup" where
  "tw_lp_setup_types typemap s =
     (if g_tw_lp_types s = [] then Inl (Tw_Error ''No LP types are defined'')
      else case typemap of
        None \<Rightarrow> Inl (Tw_Error ''No LP type mapping is defined'')
      | Some f \<Rightarrow>
          if g_tw_nlp s \<le> 2 ^ 32 then setup_types_loop f [0..<g_tw_nlp s] s
          else ebind (setup_types_loop f [0..<2 ^ 32] s) (\<lambda>s. Inl Out_Of_Fuel))"

definition check_kp :: "ross_setup \<Rightarrow> nat \<Rightarrow> ross_error option" where
  "check_kp s k =
     (case g_tw_kp s ! k of
        None \<Rightarrow> Some (Tw_Error ''Local KP is NULL'')
      | Some kp \<Rightarrow> if kp_pe kp = None then Some (Tw_Error ''Local KP has no PE assigned.'') else None)"

text \<open>The type is compared with an empty one through its pointer, which is null where no type was set.\<close>

definition check_lp :: "ross_setup \<Rightarrow> nat \<Rightarrow> ross_error option" where
  "check_lp s i =
     (case g_tw_lp s ! i of
        None \<Rightarrow> Some (Tw_Error ''LP has no PE assigned.'')
      | Some l \<Rightarrow>
          if lp_pe l = None then Some (Tw_Error ''LP has no PE assigned.'')
          else case lp_kp l of
            None \<Rightarrow> Some (Tw_Error ''LP not mapped to a KP!'')
          | Some k \<Rightarrow>
              case g_tw_kp s ! k of
                None \<Rightarrow> Some Bad_Pointer
              | Some kp \<Rightarrow>
                  if lp_pe l \<noteq> kp_pe kp then Some (Tw_Error ''LP has mismatched KP and PE.'')
                  else case lp_type l of
                    None \<Rightarrow> Some Bad_Pointer
                  | Some t \<Rightarrow> if t = null_type then Some (Tw_Error ''LP has no type.'') else None)"

fun first_error :: "('a \<Rightarrow> ross_error option) \<Rightarrow> 'a list \<Rightarrow> ross_error option" where
  "first_error f [] = None"
| "first_error f (x # xs) = (case f x of Some e \<Rightarrow> Some e | None \<Rightarrow> first_error f xs)"

definition late_sanity_check :: "ross_setup \<Rightarrow> ross_error + unit" where
  "late_sanity_check s =
     (case first_error (check_kp s) [0..<g_tw_nkp s] of
        Some e \<Rightarrow> Inl e
      | None \<Rightarrow> (case first_error (check_lp s) [0..<g_tw_nlp s] of Some e \<Rightarrow> Inl e | None \<Rightarrow> Inr ()))"

section \<open>Looking up an LP by its global number\<close>

text \<open>
  \<open>tw_getlocal_lp\<close> without the checks of \<open>ROSS_runtime_checks\<close>; it gives an entry of the table.
  \<open>custom\<close> is the model's own function.
\<close>

definition tw_getlocal_lp :: "(nat \<Rightarrow> nat) \<Rightarrow> ross_setup \<Rightarrow> nat \<Rightarrow> ross_error + lp_entry option" where
  "tw_getlocal_lp custom s gid =
     (let i = (case g_tw_mapping s of
          CUSTOM \<Rightarrow> custom gid
        | ROUND_ROBIN \<Rightarrow> gid div nnodes s
        | LINEAR \<Rightarrow> to_lpid (int gid - int (g_tw_lp_offset s)))
      in if i < length (g_tw_lp s) then Inr (g_tw_lp s ! i) else Inl Bad_Pointer)"

end
