(* ===== verification/Setup_Props.thy ===== *)
theory Setup_Props
  imports Setup
begin

text \<open>
  What the set-up of \<open>Setup\<close> gives: with the linear mapping the tables are complete and agree with
  each other, and the LPs are found by their global numbers; with the round-robin mapping that
  is so only where there are as many LPs as KPs.
\<close>

section \<open>Numbers in their range\<close>

lemma to_int_small [simp]: "n < 2147483648 \<Longrightarrow> to_int n = int n"
  by (simp add: to_int_def signed_take_bit_int_eq_self)

lemma to_lpid_small [simp]: "n < 18446744073709551616 \<Longrightarrow> to_lpid (int n) = n"
  by (simp add: to_lpid_def)

text \<open>The rounded quotient still has the right ceiling.\<close>

lemma nlp_per_kp_exact:
  assumes "g_tw_nlp s < 2 ^ 31" "0 < g_tw_nkp s" "g_tw_nkp s < 2 ^ 32"
  shows "nlp_per_kp s = Inr ((g_tw_nlp s + g_tw_nkp s - 1) div g_tw_nkp s)"
proof -
  define a b where "a = g_tw_nlp s" and "b = g_tw_nkp s"
  define n where "n = (a + b - 1) div b"
  have ab: "a < 2 ^ 31" "0 < b" "b < 2 ^ 32" using assms by (simp_all add: a_def b_def)
  have ex: "fl (real a) = real a" "fl (real b) = real b"
    using fl_of_int[of "int a"] fl_of_int[of "int b"] ab by simp_all
  define x where "x = real a / real b"
  have m: "(a + b - 1) mod b < b" "n * b + (a + b - 1) mod b = a + b - 1" using ab(2) by (simp_all add: n_def)
  have le: "a \<le> n * b" and lt: "n * b < a + b" using m ab(2) by linarith+
  have n31: "n < 2 ^ 31"
  proof (rule ccontr)
    assume "\<not> n < 2 ^ 31"
    then have "a < n" using ab(1) by simp
    then have "n = (n - 1) + 1" "a \<le> n - 1" by simp_all
    moreover have "(n - 1) * 1 \<le> (n - 1) * b" using ab(2) by (intro mult_le_mono2) simp
    ultimately have "a + b \<le> (n - 1) * b + b" by linarith
    also have "\<dots> = n * b" using \<open>n = (n - 1) + 1\<close> by (metis add_mult_distrib mult_1)
    finally show False using lt by simp
  qed
  have "x \<le> real n" using le ab(2) by (simp add: x_def divide_le_eq flip: of_nat_mult)
  then have "fl x \<le> fl (real n)" by (rule fl_mono)
  moreover have "fl (real n) = real n" using fl_of_int[of "int n"] n31 by simp
  ultimately have u: "fl x \<le> real n" by simp
  have x0: "0 \<le> x" by (simp add: x_def)
  have l: "real n - 1 < fl x"
  proof -
    have "real (n * b) + 1 \<le> real (a + b)" using lt by linarith
    then have "real n * real b + 1 \<le> real a + real b" by simp
    then have "(real n * real b + 1) / real b \<le> (real a + real b) / real b" using ab(2) by (simp add: divide_right_mono)
    then have "real n + 1 / real b \<le> x + 1" using ab(2) by (simp add: x_def add_divide_distrib)
    moreover have "x / 2 ^ 53 < 1 / real b" using ab(1,2) by (simp add: x_def divide_less_eq)
    moreover have "x - x / 2 ^ 53 \<le> fl x" using fl_error[OF x0] by linarith
    ultimately show ?thesis by linarith
  qed
  have "\<lceil>fl x\<rceil> = int n" using u l by (intro ceiling_unique) simp_all
  moreover have "i32 (int n) = Some (int n)" using n31 by simp
  ultimately show ?thesis using ab(2) ex by (simp add: nlp_per_kp_def a_def b_def n_def x_def)
qed

section \<open>The tables during the set-up\<close>

text \<open>
  The first \<open>p\<close> LPs and the first \<open>q\<close> KPs are placed; \<open>f\<close> gives the KP of an LP, \<open>g\<close> its global
  number and \<open>ty\<close> its type.
\<close>

definition placed :: "(nat \<Rightarrow> nat) \<Rightarrow> (nat \<Rightarrow> nat) \<Rightarrow> (nat \<Rightarrow> tw_lptype option) \<Rightarrow> nat \<Rightarrow> nat \<Rightarrow> ross_setup \<Rightarrow> ross_setup" where
  "placed f g ty q p s = s\<lparr>
     g_tw_lp := map (\<lambda>i. if i < p then Some \<lparr>lp_id = i, lp_gid = g i, lp_pe = g_tw_pe s, lp_kp = Some (f i), lp_type = ty i\<rparr>
                     else None) [0..<g_tw_nlp s],
     g_tw_kp := map (\<lambda>k. if k < q then Some \<lparr>kp_id = k, kp_pe = g_tw_pe s, lp_count = card {i. i < p \<and> f i = k}\<rparr>
                     else None) [0..<g_tw_nkp s]\<rparr>"

lemma placed_sel [simp]:
  "g_tw_nlp (placed f g ty q p s) = g_tw_nlp s" "g_tw_nkp (placed f g ty q p s) = g_tw_nkp s"
  "g_tw_pe (placed f g ty q p s) = g_tw_pe s" "g_tw_lp_offset (placed f g ty q p s) = g_tw_lp_offset s"
  "nnodes (placed f g ty q p s) = nnodes s" "g_tw_lp_types (placed f g ty q p s) = g_tw_lp_types s"
  "g_tw_mapping (placed f g ty q p s) = g_tw_mapping s" "g_tw_mynode (placed f g ty q p s) = g_tw_mynode s"
  "length (g_tw_lp (placed f g ty q p s)) = g_tw_nlp s" "length (g_tw_kp (placed f g ty q p s)) = g_tw_nkp s"
  by (simp_all add: placed_def g_tw_pe_def)

lemma placed_nth [simp]:
  "i < g_tw_nlp s \<Longrightarrow> g_tw_lp (placed f g ty q p s) ! i =
     (if i < p then Some \<lparr>lp_id = i, lp_gid = g i, lp_pe = g_tw_pe s, lp_kp = Some (f i), lp_type = ty i\<rparr> else None)"
  "k < g_tw_nkp s \<Longrightarrow> g_tw_kp (placed f g ty q p s) ! k =
     (if k < q then Some \<lparr>kp_id = k, kp_pe = g_tw_pe s, lp_count = card {i. i < p \<and> f i = k}\<rparr> else None)"
  by (simp_all add: placed_def)

text \<open>Two states with the same tables that differ nowhere else are the same.\<close>

lemma tables_eq:
  assumes "length xs = n" "length ys = m" "\<And>i. i < n \<Longrightarrow> xs ! i = xs' i" "\<And>k. k < m \<Longrightarrow> ys ! k = ys' k"
  shows "s\<lparr>g_tw_lp := xs, g_tw_kp := ys\<rparr> = s\<lparr>g_tw_lp := map xs' [0..<n], g_tw_kp := map ys' [0..<m]\<rparr>"
proof -
  have "xs = map xs' [0..<n]" "ys = map ys' [0..<m]" using assms by (auto intro!: nth_equalityI)
  then show ?thesis by simp
qed

lemma place_kp:
  assumes "q < g_tw_nkp s" "\<forall>i < p. f i \<noteq> q"
  shows "tw_kp_onpe q (g_tw_pe s) (placed f g ty q p s) = Inr (placed f g ty (Suc q) p s)"
proof -
  have c: "card {i. i < p \<and> f i = q} = 0" using assms(2) by (auto simp: card_eq_0_iff)
  have "g_tw_kp (placed f g ty q p s) ! q = None" using assms(1) by simp
  then have "tw_kp_onpe q (g_tw_pe s) (placed f g ty q p s) =
      Inr ((placed f g ty q p s)\<lparr>g_tw_kp := (g_tw_kp (placed f g ty q p s))[q := Some \<lparr>kp_id = q, kp_pe = g_tw_pe s, lp_count = 0\<rparr>]\<rparr>)"
    using assms(1) by (simp add: tw_kp_onpe_def)
  also have "\<dots> = Inr (placed f g ty (Suc q) p s)"
    unfolding placed_def using c by (auto intro!: arg_cong[where f = Inr] tables_eq simp: nth_list_update less_Suc_eq)
  finally show ?thesis .
qed

lemma place_lp:
  assumes "p < g_tw_nlp s" "f p < q" "q \<le> g_tw_nkp s" "ty p = None"
  shows "ebind (tw_lp_onpe p (g_tw_pe s) (g p) (placed f g ty q p s)) (tw_lp_onkp p (f p)) = Inr (placed f g ty q (Suc p) s)"
proof -
  let ?s = "placed f g ty q p s" and ?l = "\<lparr>lp_id = p, lp_gid = g p, lp_pe = g_tw_pe s, lp_kp = None, lp_type = None\<rparr>"
  have 1: "tw_lp_onpe p (g_tw_pe s) (g p) ?s = Inr (?s\<lparr>g_tw_lp := (g_tw_lp ?s)[p := Some ?l]\<rparr>)"
    using assms(1) by (simp add: tw_lp_onpe_def)
  have c: "card {i. i < Suc p \<and> f i = k} = card {i. i < p \<and> f i = k} + (if k = f p then 1 else 0)" for k
  proof (cases "k = f p")
    case True
    then have "{i. i < Suc p \<and> f i = k} = insert p {i. i < p \<and> f i = k}" by auto
    then show ?thesis using True by simp
  next
    case False
    then have "{i. i < Suc p \<and> f i = k} = {i. i < p \<and> f i = k}" by (auto simp: less_Suc_eq)
    then show ?thesis using False by simp
  qed
  have k: "f p < g_tw_nkp s" using assms by simp
  have "tw_lp_onkp p (f p) (?s\<lparr>g_tw_lp := (g_tw_lp ?s)[p := Some ?l]\<rparr>) =
      Inr (?s\<lparr>g_tw_lp := (g_tw_lp ?s)[p := Some (?l\<lparr>lp_kp := Some (f p)\<rparr>)],
        g_tw_kp := (g_tw_kp ?s)[f p := Some \<lparr>kp_id = f p, kp_pe = g_tw_pe s, lp_count = card {i. i < p \<and> f i = f p} + 1\<rparr>]\<rparr>)"
    using assms k by (simp add: tw_lp_onkp_def)
  also have "\<dots> = Inr (placed f g ty q (Suc p) s)"
    unfolding placed_def using assms c
    by (auto intro!: arg_cong[where f = Inr] tables_eq simp: nth_list_update less_Suc_eq)
  finally show ?thesis unfolding 1 by simp
qed

section \<open>The linear mapping\<close>

lemma linear_lps_ok:
  assumes "\<And>i. p \<le> i \<Longrightarrow> i < p + r \<Longrightarrow> f i = k" "k < q" "q \<le> g_tw_nkp s" "p \<le> g_tw_nlp s"
    "\<And>i. g i = g_tw_lp_offset s + i" "\<And>i. ty i = None" "g_tw_lp_offset s + g_tw_nlp s \<le> 2 ^ 64"
  shows "linear_lps r k p (placed f g ty q p s) = Inr (min (p + r) (g_tw_nlp s), placed f g ty q (min (p + r) (g_tw_nlp s)) s)"
  using assms(1,4)
proof (induction r arbitrary: p)
  case (Suc r)
  show ?case
  proof (cases "p < g_tw_nlp s")
    case True
    have fp: "f p = k" using Suc.prems(1)[of p] by simp
    have "ebind (tw_lp_onpe p (g_tw_pe s) (g p) (placed f g ty q p s)) (tw_lp_onkp p k) = Inr (placed f g ty q (Suc p) s)"
      using place_lp[of p s f q ty g] True assms(2,3,6) fp by simp
    moreover have "(g_tw_lp_offset s + p) mod 2 ^ 64 = g_tw_lp_offset s + p" using True assms(7) by simp
    ultimately obtain s1 where s1: "tw_lp_onpe p (g_tw_pe s) ((g_tw_lp_offset s + p) mod 2 ^ 64) (placed f g ty q p s) = Inr s1"
      "tw_lp_onkp p k s1 = Inr (placed f g ty q (Suc p) s)"
      unfolding assms(5) by (auto simp: ebind_Inr_iff)
    have "linear_lps r k (Suc p) (placed f g ty q (Suc p) s) =
        Inr (min (Suc p + r) (g_tw_nlp s), placed f g ty q (min (Suc p + r) (g_tw_nlp s)) s)"
      using True Suc.prems(1) by (intro Suc.IH) simp_all
    then show ?thesis using True s1 by simp
  qed (use Suc.prems(2) in simp)
qed simp

lemma linear_kps_ok:
  assumes "\<And>i. f i = i div n" "0 < n" "\<And>i. g i = g_tw_lp_offset s + i" "\<And>i. ty i = None" "k + r \<le> g_tw_nkp s"
    "g_tw_lp_offset s + g_tw_nlp s \<le> 2 ^ 64"
  shows "linear_kps r n k (min (k * n) (g_tw_nlp s)) (placed f g ty k (min (k * n) (g_tw_nlp s)) s) =
    Inr (placed f g ty (k + r) (min ((k + r) * n) (g_tw_nlp s)) s)"
  using assms(5)
proof (induction r arbitrary: k)
  case (Suc r)
  let ?p = "min (k * n) (g_tw_nlp s)"
  have lt: "f i < k" if "i < ?p" for i using that assms(1,2) by (simp add: less_mult_imp_div_less)
  have ne: "\<forall>i < ?p. f i \<noteq> k" using lt by fastforce
  have kp: "tw_kp_onpe k (g_tw_pe s) (placed f g ty k ?p s) = Inr (placed f g ty (Suc k) ?p s)"
    using Suc.prems by (intro place_kp ne) simp
  have lps: "linear_lps n k ?p (placed f g ty (Suc k) ?p s) =
      Inr (min (Suc k * n) (g_tw_nlp s), placed f g ty (Suc k) (min (Suc k * n) (g_tw_nlp s)) s)"
  proof (cases "k * n \<le> g_tw_nlp s")
    case True
    then have p: "?p = k * n" by simp
    have "f i = k" if "k * n \<le> i" "i < k * n + n" for i
      unfolding assms(1) using that by (intro div_nat_eqI) (simp_all add: algebra_simps)
    then have "linear_lps n k (k * n) (placed f g ty (Suc k) (k * n) s) =
        Inr (min (k * n + n) (g_tw_nlp s), placed f g ty (Suc k) (min (k * n + n) (g_tw_nlp s)) s)"
      using Suc.prems True by (intro linear_lps_ok assms(3,4,6)) simp_all
    then show ?thesis unfolding p by (simp add: add.commute)
  next
    case False
    then have p: "?p = g_tw_nlp s" "min (Suc k * n) (g_tw_nlp s) = g_tw_nlp s" by simp_all
    obtain n' where "n = Suc n'" using assms(2) by (cases n) auto
    then show ?thesis unfolding p by simp
  qed
  show ?case using Suc.IH[of "Suc k"] Suc.prems kp lps by simp
qed simp

text \<open>The last LP is on a KP there is.\<close>

lemma ceiling_enough:
  fixes a b :: nat
  assumes "0 < b"
  shows "a \<le> b * ((a + b - 1) div b)"
proof -
  have "(a + b - 1) mod b < b" using assms by simp
  moreover have "b * ((a + b - 1) div b) + (a + b - 1) mod b = a + b - 1" by simp
  ultimately show ?thesis using assms by linarith
qed

text \<open>
  What is fixed when the LPs are placed. The numbers of LPs, of processes and of KPs are such that no
  conversion of the code changes them.
\<close>

definition setup_ready :: "nat \<Rightarrow> ross_setup \<Rightarrow> bool" where
  "setup_ready nlp s \<longleftrightarrow> 0 < nlp \<and> 0 < nkp_per_pe s \<and> (g_tw_nkp s = 1 \<and> \<not> optimistic_debug s \<or> g_tw_nkp s = nkp_per_pe s) \<and>
     nlp < 2 ^ 31 \<and> g_tw_mynode s < 2 ^ 31 \<and> nnodes s < 2 ^ 31 \<and> nkp_per_pe s < 2 ^ 32"

lemma setup_ready_offset: "setup_ready nlp s \<Longrightarrow> g_tw_mynode s * nlp + nlp < 2 ^ 63"
proof -
  assume "setup_ready nlp s"
  then have "(g_tw_mynode s + 1) * nlp < 2 ^ 31 * 2 ^ 31 + 1"
    using mult_le_mono[of "g_tw_mynode s + 1" "2 ^ 31" nlp "2 ^ 31"] by (simp add: setup_ready_def)
  then show ?thesis by simp
qed

definition emptied :: "nat \<Rightarrow> ross_setup \<Rightarrow> ross_setup" where
  "emptied nlp s = s\<lparr>g_tw_nlp := nlp, g_tw_nkp := nkp_per_pe s, g_tw_kp := replicate (nkp_per_pe s) None, g_tw_lp := replicate nlp None\<rparr>"

lemma emptied_sel [simp]:
  "g_tw_nlp (emptied nlp s) = nlp" "g_tw_nkp (emptied nlp s) = nkp_per_pe s" "nkp_per_pe (emptied nlp s) = nkp_per_pe s"
  "g_tw_mynode (emptied nlp s) = g_tw_mynode s" "nnodes (emptied nlp s) = nnodes s" "g_tw_mapping (emptied nlp s) = g_tw_mapping s"
  "g_tw_lp_types (emptied nlp s) = g_tw_lp_types s"
  by (simp_all add: emptied_def)

lemma define_lps_emptied:
  assumes "setup_ready nlp s"
  shows "tw_define_lps custom nlp s = (case g_tw_mapping s of LINEAR \<Rightarrow> map_linear (emptied nlp s)
    | ROUND_ROBIN \<Rightarrow> map_round_robin (emptied nlp s)
    | CUSTOM \<Rightarrow> (case custom of None \<Rightarrow> Inl (Tw_Error ''CUSTOM mapping flag set but not custom mapping function!'') | Some f \<Rightarrow> f (emptied nlp s)))"
proof -
  let ?s1 = "s\<lparr>g_tw_nlp := nlp\<rparr>"
  let ?s2 = "if g_tw_nkp ?s1 = 1 \<and> \<not> optimistic_debug ?s1 then ?s1\<lparr>g_tw_nkp := nkp_per_pe ?s1\<rparr> else ?s1"
  have e: "early_sanity_check ?s1 = Inr ?s1" using assms by (simp add: early_sanity_check_def setup_ready_def)
  have "?s2 = s\<lparr>g_tw_nlp := nlp, g_tw_nkp := nkp_per_pe s\<rparr>" using assms by (auto simp: setup_ready_def)
  then have "?s2\<lparr>g_tw_kp := replicate (g_tw_nkp ?s2) None, g_tw_lp := replicate (g_tw_nlp ?s2) None\<rparr> = emptied nlp s"
    by (simp add: emptied_def)
  then show ?thesis unfolding tw_define_lps_def e ebind.simps Let_def by (simp only: emptied_sel)
qed

lemma placed_none: "placed f g ty 0 0 s = s\<lparr>g_tw_lp := replicate (g_tw_nlp s) None, g_tw_kp := replicate (g_tw_nkp s) None\<rparr>"
  unfolding placed_def by (simp add: map_replicate_const)

lemma define_lps_linear:
  fixes nlp s
  defines "n \<equiv> (nlp + nkp_per_pe s - 1) div nkp_per_pe s"
  assumes r: "setup_ready nlp s" and m: "g_tw_mapping s = LINEAR"
  shows "tw_define_lps custom nlp s = Inr (placed (\<lambda>i. i div n) (\<lambda>i. g_tw_mynode s * nlp + i) (\<lambda>_. None) (nkp_per_pe s) nlp
      ((emptied nlp s)\<lparr>g_tw_lp_offset := g_tw_mynode s * nlp\<rparr>))" "0 < n" "nlp \<le> nkp_per_pe s * n"
proof -
  let ?f = "\<lambda>i. i div n" and ?g = "\<lambda>i. g_tw_mynode s * nlp + i" and ?ty = "\<lambda>i :: nat. None"
    and ?s = "(emptied nlp s)\<lparr>g_tw_lp_offset := g_tw_mynode s * nlp\<rparr>"
  have pos: "0 < nlp" "0 < nkp_per_pe s" using r by (simp_all add: setup_ready_def)
  show le: "nlp \<le> nkp_per_pe s * n" unfolding n_def by (rule ceiling_enough[OF pos(2)])
  then show n: "0 < n" using pos by (cases n) auto
  have e: "placed ?f ?g ?ty 0 0 ?s = ?s" unfolding placed_none by (simp add: emptied_def)
  have "linear_kps (nkp_per_pe s) n 0 0 ?s = Inr (placed ?f ?g ?ty (nkp_per_pe s) nlp ?s)"
    using linear_kps_ok[of ?f n ?g ?s ?ty 0 "nkp_per_pe s"] n le setup_ready_offset[OF r] by (simp add: e min_absorb2)
  then show "tw_define_lps custom nlp s = Inr (placed ?f ?g ?ty (nkp_per_pe s) nlp ?s)"
    unfolding define_lps_emptied[OF r] using m pos n setup_ready_offset[OF r] r nlp_per_kp_exact[of "emptied nlp s"]
    by (simp add: map_linear_def n_def Let_def setup_ready_def)
qed

section \<open>Types, checks and look-up\<close>

lemma setup_types_ok:
  assumes "\<forall>i < g_tw_nlp s. tm (g i) < length (g_tw_lp_types s)" "j \<le> g_tw_nlp s"
  shows "setup_types_loop tm [j..<g_tw_nlp s] (placed f g ty q (g_tw_nlp s) s) =
    Inr (placed f g (\<lambda>i. if j \<le> i then Some (g_tw_lp_types s ! tm (g i)) else ty i) q (g_tw_nlp s) s)"
  using assms(2)
proof (induction "g_tw_nlp s - j" arbitrary: j ty)
  case 0
  then have "[j..<g_tw_nlp s] = []" by simp
  moreover have "placed f g (\<lambda>i. if j \<le> i then Some (g_tw_lp_types s ! tm (g i)) else ty i) q (g_tw_nlp s) s = placed f g ty q (g_tw_nlp s) s"
    using 0 by (auto simp: placed_def)
  ultimately show ?case by (simp only: setup_types_loop.simps)
next
  case (Suc r)
  let ?p = "g_tw_nlp s" and ?t = "ty(j := Some (g_tw_lp_types s ! tm (g j)))"
  have j: "j < ?p" "[j..<?p] = j # [Suc j..<?p]" using Suc.hyps(2) by (simp_all add: upt_conv_Cons)
  have upd: "(placed f g ty q ?p s)\<lparr>g_tw_lp := (g_tw_lp (placed f g ty q ?p s))[j :=
      Some \<lparr>lp_id = j, lp_gid = g j, lp_pe = g_tw_pe s, lp_kp = Some (f j), lp_type = Some (g_tw_lp_types s ! tm (g j))\<rparr>]\<rparr> = placed f g ?t q ?p s"
  proof -
    have "(g_tw_lp (placed f g ty q ?p s))[j := Some \<lparr>lp_id = j, lp_gid = g j, lp_pe = g_tw_pe s, lp_kp = Some (f j),
        lp_type = Some (g_tw_lp_types s ! tm (g j))\<rparr>] = g_tw_lp (placed f g ?t q ?p s)"
      using j(1) by (intro nth_equalityI) (simp_all add: nth_list_update)
    then show ?thesis by (simp add: placed_def)
  qed
  have e: "(\<lambda>i. if Suc j \<le> i then Some (g_tw_lp_types s ! tm (g i)) else ?t i) = (\<lambda>i. if j \<le> i then Some (g_tw_lp_types s ! tm (g i)) else ty i)"
    by (auto simp: fun_eq_iff Suc_le_eq)
  have "setup_types_loop tm [Suc j..<?p] (placed f g ?t q ?p s) =
      Inr (placed f g (\<lambda>i. if j \<le> i then Some (g_tw_lp_types s ! tm (g i)) else ty i) q ?p s)"
    using Suc.hyps(1)[of "Suc j" ?t] Suc.hyps(2) j(1) unfolding e by simp
  moreover have "\<not> length (g_tw_lp_types s) \<le> tm (g j)" using assms(1) j(1) by (simp add: not_le)
  ultimately show ?case using j upd by simp
qed

lemma first_error_none: "first_error f xs = None \<longleftrightarrow> (\<forall>x \<in> set xs. f x = None)"
  by (induction xs) (auto split: option.splits)

lemma placed_sane:
  assumes "\<forall>i < g_tw_nlp s. f i < g_tw_nkp s \<and> (\<exists>t. ty i = Some t \<and> t \<noteq> null_type)"
  shows "late_sanity_check (placed f g ty (g_tw_nkp s) (g_tw_nlp s) s) = Inr ()"
proof -
  let ?s = "placed f g ty (g_tw_nkp s) (g_tw_nlp s) s"
  have "check_kp ?s k = None" if "k < g_tw_nkp s" for k using that by (simp add: check_kp_def g_tw_pe_def)
  then have k: "first_error (check_kp ?s) [0..<g_tw_nkp ?s] = None" by (simp add: first_error_none)
  have "check_lp ?s i = None" if i: "i < g_tw_nlp s" for i
  proof -
    obtain t where "f i < g_tw_nkp s" "ty i = Some t" "t \<noteq> null_type" using assms i by blast
    then show ?thesis using i by (simp add: check_lp_def g_tw_pe_def)
  qed
  then have "first_error (check_lp ?s) [0..<g_tw_nlp ?s] = None" by (simp add: first_error_none)
  then show ?thesis using k by (simp add: late_sanity_check_def)
qed

text \<open>
  The tables conform to each other: every LP has its number, its process, a type that is not empty
  and a KP there is, and every KP counts its LPs.
\<close>

definition conform :: "ross_setup \<Rightarrow> bool" where
  "conform s \<longleftrightarrow> length (g_tw_lp s) = g_tw_nlp s \<and> length (g_tw_kp s) = g_tw_nkp s \<and>
     (\<forall>i < g_tw_nlp s. \<exists>l k t. g_tw_lp s ! i = Some l \<and> lp_id l = i \<and> lp_pe l = g_tw_pe s \<and>
        lp_kp l = Some k \<and> k < g_tw_nkp s \<and> lp_type l = Some t \<and> t \<in> set (g_tw_lp_types s) \<and> t \<noteq> null_type) \<and>
     (\<forall>k < g_tw_nkp s. \<exists>kp. g_tw_kp s ! k = Some kp \<and> kp_id kp = k \<and> kp_pe kp = g_tw_pe s \<and>
        lp_count kp = card {i. i < g_tw_nlp s \<and> Option.bind (g_tw_lp s ! i) lp_kp = Some k})"

lemma placed_conform:
  assumes "\<forall>i < g_tw_nlp s. f i < g_tw_nkp s \<and> (\<exists>t. ty i = Some t \<and> t \<in> set (g_tw_lp_types s) \<and> t \<noteq> null_type)"
  shows "conform (placed f g ty (g_tw_nkp s) (g_tw_nlp s) s)"
proof -
  have "{i. i < g_tw_nlp s \<and> Option.bind (g_tw_lp (placed f g ty (g_tw_nkp s) (g_tw_nlp s) s) ! i) lp_kp = Some k} =
      {i. i < g_tw_nlp s \<and> f i = k}" for k
    by auto
  then show ?thesis unfolding conform_def using assms by simp
qed

text \<open>What the model has to give for its LP types.\<close>

definition types_ok :: "(nat \<Rightarrow> nat) \<Rightarrow> ross_setup \<Rightarrow> bool" where
  "types_ok tm s \<longleftrightarrow> (\<forall>gid. tm gid < length (g_tw_lp_types s)) \<and> null_type \<notin> set (g_tw_lp_types s) \<and> g_tw_lp_types s \<noteq> []"

lemma types_placed:
  assumes t: "types_ok tm s" and n: "g_tw_nlp s \<le> 2 ^ 32"
  shows "tw_lp_setup_types (Some tm) (placed f g ty q (g_tw_nlp s) s) =
    Inr (placed f g (\<lambda>i. if 0 \<le> i then Some (g_tw_lp_types s ! tm (g i)) else ty i) q (g_tw_nlp s) s)"
proof -
  have "\<forall>i < g_tw_nlp s. tm (g i) < length (g_tw_lp_types s)" using t by (simp add: types_ok_def)
  then show ?thesis
    using setup_types_ok[where tm = tm and g = g and j = 0 and f = f and ty = ty and q = q and s = s] t n
    unfolding tw_lp_setup_types_def by (simp add: types_ok_def)
qed

lemma setup_types_placed:
  assumes t: "types_ok tm s" and n: "g_tw_nlp s \<le> 2 ^ 32" and f: "\<forall>i < g_tw_nlp s. f i < g_tw_nkp s"
  shows "\<exists>s2. tw_lp_setup_types (Some tm) (placed f g ty (g_tw_nkp s) (g_tw_nlp s) s) = Inr s2 \<and> late_sanity_check s2 = Inr () \<and>
    conform s2 \<and> (\<forall>i < g_tw_nlp s. \<exists>l. g_tw_lp s2 ! i = Some l \<and> lp_id l = i \<and> lp_pe l = Some (g_tw_mynode s) \<and> lp_gid l = g i \<and>
       lp_kp l = Some (f i) \<and> lp_type l = Some (g_tw_lp_types s ! tm (g i))) \<and>
    g_tw_nlp s2 = g_tw_nlp s \<and> g_tw_mapping s2 = g_tw_mapping s \<and> nnodes s2 = nnodes s \<and> g_tw_lp_offset s2 = g_tw_lp_offset s"
proof -
  let ?t = "\<lambda>i. if 0 \<le> i then Some (g_tw_lp_types s ! tm (g i)) else ty i"
  let ?s2 = "placed f g ?t (g_tw_nkp s) (g_tw_nlp s) s"
  have in_types: "g_tw_lp_types s ! tm (g i) \<in> set (g_tw_lp_types s)" "g_tw_lp_types s ! tm (g i) \<noteq> null_type" for i
    using t nth_mem[of "tm (g i)" "g_tw_lp_types s"] unfolding types_ok_def by metis+
  have "tw_lp_setup_types (Some tm) (placed f g ty (g_tw_nkp s) (g_tw_nlp s) s) = Inr ?s2" by (rule types_placed[OF t n])
  moreover have "late_sanity_check ?s2 = Inr ()" by (rule placed_sane) (use f in_types in simp)
  moreover have "conform ?s2" by (rule placed_conform) (use f in_types in simp)
  ultimately show ?thesis by (intro exI[of _ ?s2]) (simp add: g_tw_pe_def)
qed

lemma define_lps_conform:
  assumes r: "setup_ready nlp s" and m: "g_tw_mapping s = LINEAR" and t: "types_ok tm s"
  shows "\<exists>s1 s2. tw_define_lps custom nlp s = Inr s1 \<and> tw_lp_setup_types (Some tm) s1 = Inr s2 \<and>
    late_sanity_check s2 = Inr () \<and> conform s2 \<and>
    (\<forall>i < nlp. \<exists>l. g_tw_lp s2 ! i = Some l \<and> lp_id l = i \<and> lp_pe l = Some (g_tw_mynode s) \<and>
       lp_gid l = g_tw_mynode s * nlp + i \<and> lp_kp l = Some (i div ((nlp + nkp_per_pe s - 1) div nkp_per_pe s)) \<and>
       lp_type l = Some (g_tw_lp_types s ! tm (lp_gid l))) \<and>
    g_tw_nlp s2 = nlp \<and> g_tw_mapping s2 = LINEAR \<and> g_tw_lp_offset s2 = g_tw_mynode s * nlp"
proof -
  let ?n = "(nlp + nkp_per_pe s - 1) div nkp_per_pe s" and ?s = "(emptied nlp s)\<lparr>g_tw_lp_offset := g_tw_mynode s * nlp\<rparr>"
  let ?g = "\<lambda>i. g_tw_mynode s * nlp + i"
  note d = define_lps_linear[OF r m]
  have f: "i div ?n < nkp_per_pe s" if "i < nlp" for i
    using that d(2,3) by (simp add: less_mult_imp_div_less)
  let ?s1 = "placed (\<lambda>i. i div ?n) ?g (\<lambda>_. None) (nkp_per_pe s) nlp ?s"
  have k: "g_tw_nlp ?s = nlp" "g_tw_nkp ?s = nkp_per_pe s" "g_tw_mapping ?s = LINEAR" "g_tw_lp_offset ?s = g_tw_mynode s * nlp"
    using m by (simp_all add: emptied_def)
  have "types_ok tm ?s" "nlp \<le> 2 ^ 32" using t r by (simp_all add: types_ok_def setup_ready_def)
  moreover have "g_tw_mynode ?s = g_tw_mynode s" "g_tw_lp_types ?s = g_tw_lp_types s" by (simp_all add: emptied_def)
  ultimately obtain s2 where s2: "tw_lp_setup_types (Some tm) ?s1 = Inr s2" "late_sanity_check s2 = Inr ()" "conform s2"
    "\<forall>i < nlp. \<exists>l. g_tw_lp s2 ! i = Some l \<and> lp_id l = i \<and> lp_pe l = Some (g_tw_mynode s) \<and> lp_gid l = ?g i \<and>
       lp_kp l = Some (i div ?n) \<and> lp_type l = Some (g_tw_lp_types s ! tm (?g i))"
    "g_tw_nlp s2 = nlp" "g_tw_mapping s2 = LINEAR" "g_tw_lp_offset s2 = g_tw_mynode s * nlp"
    using setup_types_placed[of tm ?s "\<lambda>i. i div ?n" ?g "\<lambda>_. None"] f unfolding k by auto
  show ?thesis using s2(4) by (intro exI[of _ ?s1] exI[of _ s2] conjI d(1) s2) fastforce
qed

section \<open>The round-robin mapping\<close>

lemma tables_commute: "s\<lparr>g_tw_kp := ys, g_tw_lp := xs\<rparr> = s\<lparr>g_tw_lp := xs, g_tw_kp := ys\<rparr>"
  by (cases s) simp

lemma round_robin_step:
  assumes p: "p < g_tw_nkp s" "p < g_tw_nlp s" and g: "g p = m + p * nnodes s" and ty: "ty p = None"
    and small: "g_tw_nlp s < 2 ^ 31" "m < 2 ^ 31" "nnodes s < 2 ^ 31"
  shows "round_robin_loop (Suc r) p (m + p * nnodes s) (placed (\<lambda>i. i) g ty p p s) =
    round_robin_loop r (Suc p) (m + Suc p * nnodes s) (placed (\<lambda>i. i) g ty (Suc p) (Suc p) s)"
proof -
  let ?f = "\<lambda>i :: nat. i"
  let ?l = "\<lparr>lp_id = p, lp_gid = g p, lp_pe = g_tw_pe s, lp_kp = None, lp_type = None\<rparr>"
    and ?k = "\<lparr>kp_id = p, kp_pe = g_tw_pe s, lp_count = 0\<rparr>"
  let ?put = "\<lambda>s'. s'\<lparr>g_tw_lp := (g_tw_lp s')[p := Some ?l]\<rparr>"
  let ?s0 = "placed ?f g ty p p s" and ?s1 = "placed ?f g ty (Suc p) p s"
  have 1: "tw_lp_onpe p (g_tw_pe s) (m + p * nnodes s) ?s0 = Inr (?put ?s0)"
    using p g by (simp add: tw_lp_onpe_def)
  have "tw_kp_onpe p (g_tw_pe s) ?s0 = Inr ?s1" by (rule place_kp) (use p in auto)
  then have s1: "?s1 = ?s0\<lparr>g_tw_kp := (g_tw_kp ?s0)[p := Some ?k]\<rparr>"
    using p by (simp add: tw_kp_onpe_def)
  have "g_tw_lp ?s1 = g_tw_lp ?s0" by (simp add: placed_def)
  then have "?put ?s1 = ?s0\<lparr>g_tw_lp := (g_tw_lp ?s0)[p := Some ?l], g_tw_kp := (g_tw_kp ?s0)[p := Some ?k]\<rparr>"
    unfolding s1 by (simp add: tables_commute)
  moreover have "g_tw_pe (?put ?s0) = g_tw_pe s" by (simp add: g_tw_pe_def placed_def)
  ultimately have 2: "tw_kp_onpe p (g_tw_pe (?put ?s0)) (?put ?s0) = Inr (?put ?s1)"
    using p by (simp add: tw_kp_onpe_def)
  have "tw_lp_onpe p (g_tw_pe s) (g p) ?s1 = Inr (?put ?s1)" using p by (simp add: tw_lp_onpe_def)
  then have 3: "tw_lp_onkp p p (?put ?s1) = Inr (placed ?f g ty (Suc p) (Suc p) s)"
    using place_lp[of p s ?f "Suc p" ty g] p ty by simp
  have n: "nnodes (?put ?s1) = nnodes s" "p mod g_tw_nkp ?s0 = p" "g_tw_pe ?s0 = g_tw_pe s" using p by simp_all
  have "Suc p * nnodes s \<le> 2 ^ 31 * 2 ^ 31" using p(2) small by (intro mult_le_mono) simp_all
  then have lt: "m + Suc p * nnodes s < 18446744073709551616" using small(2) by simp
  have e: "int (m + p * nnodes s) + to_int (nnodes s) = int (m + Suc p * nnodes s)" using small(3) by simp
  have l: "to_lpid (int (m + p * nnodes s) + to_int (nnodes s)) = m + Suc p * nnodes s"
    unfolding e by (rule to_lpid_small[OF lt])
  have i: "(p + 1) mod 2 ^ 32 = Suc p" using p(2) small(1) by simp
  show ?thesis
    unfolding round_robin_loop.simps Let_def n 1 ebind.simps 2 3 i l by (rule refl)
qed

lemma round_robin_ok:
  assumes "p + r \<le> g_tw_nkp s" "p + r \<le> g_tw_nlp s" "\<And>i. g i = m + i * nnodes s" "\<And>i. ty i = None"
    "g_tw_nlp s < 2 ^ 31" "m < 2 ^ 31" "nnodes s < 2 ^ 31"
  shows "round_robin_loop r p (m + p * nnodes s) (placed (\<lambda>i. i) g ty p p s) = Inr (placed (\<lambda>i. i) g ty (p + r) (p + r) s)"
  using assms(1,2)
proof (induction r arbitrary: p)
  case (Suc r)
  have "round_robin_loop (Suc r) p (m + p * nnodes s) (placed (\<lambda>i. i) g ty p p s) =
      round_robin_loop r (Suc p) (m + Suc p * nnodes s) (placed (\<lambda>i. i) g ty (Suc p) (Suc p) s)"
    using Suc.prems assms(3-7) by (intro round_robin_step) simp_all
  also have "\<dots> = Inr (placed (\<lambda>i. i) g ty (Suc p + r) (Suc p + r) s)" using Suc.prems by (intro Suc.IH) simp_all
  finally show ?case by simp
qed simp

text \<open>With more LPs than KPs the second round comes to a KP that is there already.\<close>

lemma round_robin_fails:
  assumes "g_tw_nkp s < p + r" "p + r \<le> g_tw_nlp s" "p \<le> g_tw_nkp s" "0 < g_tw_nkp s"
    "\<And>i. g i = m + i * nnodes s" "\<And>i. ty i = None"
    "g_tw_nlp s < 2 ^ 31" "m < 2 ^ 31" "nnodes s < 2 ^ 31"
  shows "round_robin_loop r p (m + p * nnodes s) (placed (\<lambda>i. i) g ty p p s) = Inl (Tw_Error ''KP already allocated'')"
  using assms(1-3)
proof (induction r arbitrary: p)
  case (Suc r)
  show ?case
  proof (cases "p = g_tw_nkp s")
    case True
    let ?l = "\<lparr>lp_id = p, lp_gid = g p, lp_pe = g_tw_pe s, lp_kp = None, lp_type = None\<rparr>" and ?s0 = "placed (\<lambda>i. i) g ty p p s"
    let ?s1 = "?s0\<lparr>g_tw_lp := (g_tw_lp ?s0)[p := Some ?l]\<rparr>"
    have "tw_lp_onpe p (g_tw_pe s) (m + p * nnodes s) ?s0 = Inr ?s1"
      using True Suc.prems assms(5) by (simp add: tw_lp_onpe_def)
    moreover have "p mod g_tw_nkp s = 0" using True by simp
    moreover have "tw_kp_onpe 0 pe ?s1 = Inl (Tw_Error ''KP already allocated'')" for pe
      using True assms(4) by (simp add: tw_kp_onpe_def)
    ultimately show ?thesis by simp
  next
    case False
    have "round_robin_loop (Suc r) p (m + p * nnodes s) (placed (\<lambda>i. i) g ty p p s) =
        round_robin_loop r (Suc p) (m + Suc p * nnodes s) (placed (\<lambda>i. i) g ty (Suc p) (Suc p) s)"
      using Suc.prems False assms(5-9) by (intro round_robin_step) simp_all
    then show ?thesis using Suc.IH[of "Suc p"] Suc.prems False by simp
  qed
qed simp

lemma first_error_some:
  assumes "\<forall>x \<in> set xs. f x = None \<or> f x = Some e" "\<exists>x \<in> set xs. f x \<noteq> None"
  shows "first_error f xs = Some e"
  using assms by (induction xs) (auto split: option.splits)

lemma placed_insane:
  assumes "q < g_tw_nkp s"
  shows "late_sanity_check (placed f g ty q p s) = Inl (Tw_Error ''Local KP is NULL'')"
proof -
  have "first_error (check_kp (placed f g ty q p s)) [0..<g_tw_nkp s] = Some (Tw_Error ''Local KP is NULL'')"
  proof (rule first_error_some)
    show "\<forall>k \<in> set [0..<g_tw_nkp s]. check_kp (placed f g ty q p s) k = None \<or>
        check_kp (placed f g ty q p s) k = Some (Tw_Error ''Local KP is NULL'')"
      by (auto simp: check_kp_def g_tw_pe_def)
    show "\<exists>k \<in> set [0..<g_tw_nkp s]. check_kp (placed f g ty q p s) k \<noteq> None"
      by (rule bexI[of _ q]) (use assms in \<open>simp_all add: check_kp_def\<close>)
  qed
  then show ?thesis by (simp add: late_sanity_check_def)
qed

lemma define_lps_round_robin:
  assumes r: "setup_ready nlp s" and m: "g_tw_mapping s = ROUND_ROBIN"
  shows "nlp \<le> nkp_per_pe s \<Longrightarrow> tw_define_lps custom nlp s =
      Inr (placed (\<lambda>i. i) (\<lambda>i. g_tw_mynode s + i * nnodes s) (\<lambda>_. None) nlp nlp (emptied nlp s))"
    "nkp_per_pe s < nlp \<Longrightarrow> tw_define_lps custom nlp s = Inl (Tw_Error ''KP already allocated'')"
proof -
  let ?g = "\<lambda>i. g_tw_mynode s + i * nnodes s" and ?ty = "\<lambda>i :: nat. None"
  have pos: "0 < nkp_per_pe s" and small: "nlp < 2 ^ 31" "g_tw_mynode s < 2 ^ 31" "nnodes s < 2 ^ 31"
    using r by (simp_all add: setup_ready_def)
  have e: "placed (\<lambda>i. i) ?g ?ty 0 0 (emptied nlp s) = emptied nlp s" unfolding placed_none by (simp add: emptied_def)
  have d: "tw_define_lps custom nlp s = round_robin_loop nlp 0 (g_tw_mynode s + 0 * nnodes s) (placed (\<lambda>i. i) ?g ?ty 0 0 (emptied nlp s))"
    unfolding define_lps_emptied[OF r] e using m pos small by (simp add: map_round_robin_def)
  show "tw_define_lps custom nlp s = Inr (placed (\<lambda>i. i) ?g ?ty nlp nlp (emptied nlp s))" if "nlp \<le> nkp_per_pe s"
    unfolding d using that round_robin_ok[of 0 nlp "emptied nlp s" ?g "g_tw_mynode s" ?ty] small by simp
  show "tw_define_lps custom nlp s = Inl (Tw_Error ''KP already allocated'')" if "nkp_per_pe s < nlp"
    unfolding d using that pos small round_robin_fails[of "emptied nlp s" 0 nlp ?g "g_tw_mynode s" ?ty] by simp
qed

section \<open>Properties\<close>

text \<open>
  C15: the linear mapping gives well-typed tables. For any number of LPs, and with the number of
  KPs the command line gives, defining the LPs and setting their types succeed; in the result every
  LP has its number, its process, a KP there is and the type the model's map gives for its global
  number, which is not empty, every KP counts its LPs, and the checks before the run pass. LP \<open>i\<close> of
  a process has the global number \<open>mynode * nlp + i\<close>, and consecutive LPs share a KP.
\<close>

theorem linear_setup_conform:
  assumes "setup_ready nlp s" "g_tw_mapping s = LINEAR" "types_ok tm s"
  shows "\<exists>s1 s2. tw_define_lps custom nlp s = Inr s1 \<and> tw_lp_setup_types (Some tm) s1 = Inr s2 \<and>
    late_sanity_check s2 = Inr () \<and> conform s2 \<and>
    (\<forall>i < nlp. \<exists>l. g_tw_lp s2 ! i = Some l \<and> lp_id l = i \<and> lp_pe l = Some (g_tw_mynode s) \<and>
       lp_gid l = g_tw_mynode s * nlp + i \<and> lp_kp l = Some (i div ((nlp + nkp_per_pe s - 1) div nkp_per_pe s)) \<and>
       lp_type l = Some (g_tw_lp_types s ! tm (lp_gid l)))"
  using define_lps_conform[OF assms, of custom] by blast

definition ex_setup :: "nat \<Rightarrow> tw_lp_map \<Rightarrow> ross_setup" where
  "ex_setup n m = \<lparr>g_tw_mynode = n, nnodes = 2, g_tw_nlp = 0, g_tw_nkp = 1, nkp_per_pe = 2, g_tw_lp_offset = 0,
     optimistic_debug = False, g_tw_mapping = m, g_tw_lp = [], g_tw_kp = [],
     g_tw_lp_types = [null_type\<lparr>t_event := True, state_sz := 8\<rparr>], g_tw_delta_sz = 0\<rparr>"

lemma ex_setup_ok:
  "0 < nlp \<Longrightarrow> nlp < 2 ^ 31 \<Longrightarrow> n < 2 ^ 31 \<Longrightarrow> setup_ready nlp (ex_setup n m)" "g_tw_mapping (ex_setup n m) = m" "types_ok (\<lambda>_. 0) (ex_setup n m)"
  "g_tw_mynode (ex_setup n m) = n" "nkp_per_pe (ex_setup n m) = 2" "nnodes (ex_setup n m) = 2"
  by (simp_all add: ex_setup_def setup_ready_def types_ok_def null_type_def)

theorem linear_setup_conform_witness:
  "\<exists>s1 s2. tw_define_lps None 5 (ex_setup 1 LINEAR) = Inr s1 \<and> tw_lp_setup_types (Some (\<lambda>_. 0)) s1 = Inr s2 \<and>
    late_sanity_check s2 = Inr () \<and> conform s2"
proof -
  have "setup_ready 5 (ex_setup 1 LINEAR)" by (rule ex_setup_ok(1)) simp_all
  from linear_setup_conform[OF this ex_setup_ok(2,3), of None] show ?thesis by blast
qed

text \<open>
  C24: an LP is found by its global number. With the linear mapping on \<open>N\<close> processes, each global
  number below \<open>N * nlp\<close> belongs to exactly one LP of one process, and \<open>tw_getlocal_lp\<close> gives this LP
  when it is called there.
\<close>

theorem global_number_roundtrip:
  assumes s: "\<forall>n < N. setup_ready nlp (s n) \<and> g_tw_mapping (s n) = LINEAR \<and> g_tw_mynode (s n) = n"
    and d: "\<forall>n < N. tw_define_lps custom nlp (s n) = Inr (s1 n)" and g: "gid < N * nlp"
  shows "\<exists>l. tw_getlocal_lp cmap (s1 (gid div nlp)) gid = Inr (Some l) \<and> lp_gid l = gid \<and>
    (\<forall>n < N. \<forall>i < nlp. (\<exists>l. g_tw_lp (s1 n) ! i = Some l \<and> lp_gid l = gid) \<longleftrightarrow> n = gid div nlp \<and> i = gid mod nlp)"
proof -
  have nlp: "0 < nlp" using g by (cases nlp) auto
  have div: "gid div nlp < N" using g by (simp add: less_mult_imp_div_less)
  have e: "g_tw_nlp (s1 n) = nlp \<and> g_tw_mapping (s1 n) = LINEAR \<and> g_tw_lp_offset (s1 n) = n * nlp \<and> length (g_tw_lp (s1 n)) = nlp \<and>
      (\<forall>i < nlp. \<exists>l. g_tw_lp (s1 n) ! i = Some l \<and> lp_gid l = n * nlp + i)" if n: "n < N" for n
  proof -
    have "setup_ready nlp (s n)" "g_tw_mapping (s n) = LINEAR" "g_tw_mynode (s n) = n" using s n by blast+
    note dl = define_lps_linear(1)[OF this(1,2), of custom, unfolded this(3)]
    have "tw_define_lps custom nlp (s n) = Inr (s1 n)" using d n by blast
    then have s1: "s1 n = placed (\<lambda>i. i div ((nlp + nkp_per_pe (s n) - 1) div nkp_per_pe (s n))) (\<lambda>i. n * nlp + i) (\<lambda>_. None)
        (nkp_per_pe (s n)) nlp ((emptied nlp (s n))\<lparr>g_tw_lp_offset := n * nlp\<rparr>)"
      unfolding dl by simp
    have "g_tw_nlp ((emptied nlp (s n))\<lparr>g_tw_lp_offset := n * nlp\<rparr>) = nlp" by simp
    then show ?thesis using \<open>g_tw_mapping (s n) = LINEAR\<close> unfolding s1 by simp
  qed
  have at: "gid = (gid div nlp) * nlp + gid mod nlp" by simp
  have m: "gid mod nlp < nlp" using nlp by simp
  have "nlp < 2 ^ 31" using s div unfolding setup_ready_def by blast
  then have i: "to_lpid (int gid - int (gid div nlp) * int nlp) = gid mod nlp"
  proof -
    have "int gid - int (gid div nlp) * int nlp = int (gid mod nlp)"
      by (simp add: zmod_int zdiv_int minus_div_mult_eq_mod)
    moreover have "gid mod nlp < 18446744073709551616" using m \<open>nlp < 2 ^ 31\<close> by simp
    ultimately show ?thesis by (simp only: to_lpid_small)
  qed
  obtain l where l: "g_tw_lp (s1 (gid div nlp)) ! (gid mod nlp) = Some l" "lp_gid l = gid"
    using e[OF div] m at by metis
  have "tw_getlocal_lp cmap (s1 (gid div nlp)) gid = Inr (Some l)"
    using e[OF div] m l(1) by (simp add: tw_getlocal_lp_def i)
  moreover have "(\<exists>l. g_tw_lp (s1 n) ! i = Some l \<and> lp_gid l = gid) \<longleftrightarrow> n = gid div nlp \<and> i = gid mod nlp" if "n < N" "i < nlp" for n i
  proof -
    have "(\<exists>l. g_tw_lp (s1 n) ! i = Some l \<and> lp_gid l = gid) \<longleftrightarrow> gid = n * nlp + i" using e[OF that(1)] that(2) by fastforce
    also have "\<dots> \<longleftrightarrow> n = gid div nlp \<and> i = gid mod nlp" using that(2) nlp by (auto simp: at[symmetric])
    finally show ?thesis .
  qed
  ultimately show ?thesis using l(2) by blast
qed

theorem global_number_roundtrip_witness:
  "\<exists>s1 l. tw_define_lps None 5 (ex_setup 1 LINEAR) = Inr s1 \<and> tw_getlocal_lp (\<lambda>g. g) s1 7 = Inr (Some l) \<and> lp_gid l = 7"
proof -
  have "\<exists>t. tw_define_lps None 5 (ex_setup n LINEAR) = Inr t" if "n < 2" for n
    using that define_lps_linear(1)[OF ex_setup_ok(1,2), where nlp = 5 and custom = None] by auto
  then obtain s1 where "\<forall>n < 2. tw_define_lps None 5 (ex_setup n LINEAR) = Inr (s1 n)" by metis
  moreover have "(7 :: nat) < 2 * 5" by simp
  ultimately obtain l where "tw_getlocal_lp (\<lambda>g. g) (s1 1) 7 = Inr (Some l)" "lp_gid l = 7"
    using global_number_roundtrip[of 2 5 "\<lambda>n. ex_setup n LINEAR" None s1 7 "\<lambda>g. g"] ex_setup_ok by auto
  then show ?thesis using \<open>\<forall>n < 2. _ n\<close> by (intro exI[of _ "s1 1"]) auto
qed

text \<open>
  C25: the round-robin mapping needs as many LPs as KPs. With more LPs it ends in an error, because it
  sets up the KP of every LP anew; with fewer the checks before the run find a KP that was not
  set up; with equally many the tables are well typed.
\<close>

theorem round_robin_needs_equal:
  assumes "setup_ready nlp s" "g_tw_mapping s = ROUND_ROBIN" "types_ok tm s"
  shows "(nlp > nkp_per_pe s \<longrightarrow> tw_define_lps custom nlp s = Inl (Tw_Error ''KP already allocated'')) \<and>
    (nlp \<le> nkp_per_pe s \<longrightarrow> (\<exists>s1 s2. tw_define_lps custom nlp s = Inr s1 \<and> tw_lp_setup_types (Some tm) s1 = Inr s2 \<and>
       (if nlp < nkp_per_pe s then late_sanity_check s2 = Inl (Tw_Error ''Local KP is NULL'')
        else late_sanity_check s2 = Inr () \<and> conform s2)))"
proof (intro conjI impI)
  show "tw_define_lps custom nlp s = Inl (Tw_Error ''KP already allocated'')" if "nlp > nkp_per_pe s"
    by (rule define_lps_round_robin(2)[OF assms(1,2) that])
  assume le: "nlp \<le> nkp_per_pe s"
  let ?s = "emptied nlp s" and ?g = "\<lambda>i. g_tw_mynode s + i * nnodes s"
  let ?s1 = "placed (\<lambda>i. i) ?g (\<lambda>_. None) nlp nlp ?s"
  have t: "types_ok tm ?s" using assms(3) by (simp add: types_ok_def)
  have n32: "nlp \<le> 2 ^ 32" using assms(1) by (simp add: setup_ready_def)
  note d = define_lps_round_robin(1)[OF assms(1,2) le, of custom]
  show "\<exists>s1 s2. tw_define_lps custom nlp s = Inr s1 \<and> tw_lp_setup_types (Some tm) s1 = Inr s2 \<and>
      (if nlp < nkp_per_pe s then late_sanity_check s2 = Inl (Tw_Error ''Local KP is NULL'')
       else late_sanity_check s2 = Inr () \<and> conform s2)"
  proof (cases "nlp < nkp_per_pe s")
    case True
    obtain ty where ty: "tw_lp_setup_types (Some tm) ?s1 = Inr (placed (\<lambda>i. i) ?g ty nlp nlp ?s)"
      using types_placed[OF t, of "\<lambda>i. i" ?g "\<lambda>_. None" nlp] n32 by auto
    moreover have "late_sanity_check (placed (\<lambda>i. i) ?g ty nlp nlp ?s) = Inl (Tw_Error ''Local KP is NULL'')"
      by (rule placed_insane) (use True in simp)
    ultimately show ?thesis using d True by (intro exI[of _ ?s1] exI[of _ "placed (\<lambda>i. i) ?g ty nlp nlp ?s"]) simp
  next
    case False
    then have n: "nkp_per_pe s = nlp" using le by simp
    have "\<exists>s2. tw_lp_setup_types (Some tm) (placed (\<lambda>i. i) ?g (\<lambda>_. None) (g_tw_nkp ?s) (g_tw_nlp ?s) ?s) = Inr s2 \<and>
        late_sanity_check s2 = Inr () \<and> conform s2"
      using setup_types_placed[OF t, of "\<lambda>i. i" ?g "\<lambda>_. None"] n n32 by auto
    then show ?thesis using d n by auto
  qed
qed

theorem round_robin_needs_equal_witness:
  "tw_define_lps None 3 (ex_setup 0 ROUND_ROBIN) = Inl (Tw_Error ''KP already allocated'') \<and>
   (\<exists>s1. tw_define_lps None 2 (ex_setup 0 ROUND_ROBIN) = Inr s1)"
  using round_robin_needs_equal[OF ex_setup_ok(1,2,3), where nlp = 3 and custom = None] round_robin_needs_equal[OF ex_setup_ok(1,2,3), where nlp = 2 and custom = None]
  by (fastforce simp: ex_setup_ok)

end
