(* ===== verification/Buddy.thy ===== *)
theory Buddy
  imports Ross_Prelude "HOL-Library.Word"
begin

unbundle bit_operations_syntax

text \<open>
  The buddy allocator (\<open>core/buddy.c\<close>). A pointer is its offset from \<open>buddy_base_address\<close>. The memory
  is seen in two ways: as the header that is read at an offset, and as bytes. A header is written
  and read as a whole; \<open>memset\<close> clears both views. The bytes of a header are not looked at.
\<close>

section \<open>Blocks and buckets\<close>

datatype purpose = FREE | USED

record buddy_list =
  blk_size :: nat
  blk_use :: purpose

text \<open>The free blocks of one size; \<open>bkt_ptr\<close> is the linked list of their offsets.\<close>

record buddy_bucket =
  bkt_ptr :: "nat list"
  bkt_count :: nat
  bkt_order :: nat

text \<open>The table ends with an entry that is not valid; here it is the end of the list.\<close>

record buddy_system =
  arena :: nat
  hdr :: "nat \<Rightarrow> buddy_list"
  bytes :: "nat \<Rightarrow> 8 word"
  g_tw_buddy_master :: "buddy_bucket list"

definition BUDDY_BLOCK_ORDER :: nat where
  "BUDDY_BLOCK_ORDER = 6"

text \<open>\<open>sizeof(buddy_list_t)\<close>: two pointers, the size, the use and the padding.\<close>

definition header_size :: nat where
  "header_size = 32"

definition no_header :: buddy_list where
  "no_header = \<lparr>blk_size = 0, blk_use = FREE\<rparr>"

definition next_power2 :: "32 word \<Rightarrow> 32 word" where
  "next_power2 v =
     (if v < push_bit BUDDY_BLOCK_ORDER 1 then push_bit BUDDY_BLOCK_ORDER 1
      else
        let v = v - 1;
            v = v OR drop_bit 1 v;
            v = v OR drop_bit 2 v;
            v = v OR drop_bit 4 v;
            v = v OR drop_bit 8 v;
            v = v OR drop_bit 16 v
        in v + 1)"

section \<open>Access to memory\<close>

definition read_hdr :: "nat \<Rightarrow> buddy_system \<Rightarrow> ross_error + buddy_list" where
  "read_hdr a m = (if a + header_size \<le> arena m then Inr (hdr m a) else Inl Bad_Pointer)"

definition write_hdr :: "nat \<Rightarrow> buddy_list \<Rightarrow> buddy_system \<Rightarrow> ross_error + buddy_system" where
  "write_hdr a h m = (if a + header_size \<le> arena m then Inr (m\<lparr>hdr := (hdr m)(a := h)\<rparr>) else Inl Bad_Pointer)"

text \<open>\<open>memset(blt+1, 0, size)\<close>\<close>

definition clear_block :: "nat \<Rightarrow> nat \<Rightarrow> buddy_system \<Rightarrow> ross_error + buddy_system" where
  "clear_block a sz m =
     (if a + header_size + sz \<le> arena m
      then Inr (m\<lparr>hdr := (\<lambda>x. if a + header_size \<le> x \<and> x < a + header_size + sz then no_header else hdr m x),
                  bytes := (\<lambda>x. if a + header_size \<le> x \<and> x < a + header_size + sz then 0 else bytes m x)\<rparr>)
      else Inl Bad_Pointer)"

definition upd_bucket :: "nat \<Rightarrow> (buddy_bucket \<Rightarrow> buddy_bucket) \<Rightarrow> buddy_system \<Rightarrow> buddy_system" where
  "upd_bucket i f m = m\<lparr>g_tw_buddy_master := (g_tw_buddy_master m)[i := f (g_tw_buddy_master m ! i)]\<rparr>"

text \<open>\<open>blbt->count--; LIST_REMOVE(blt, ...)\<close> and \<open>blbt->count++; LIST_INSERT_HEAD(..., blt, ...)\<close>\<close>

definition bucket_remove :: "nat \<Rightarrow> buddy_bucket \<Rightarrow> buddy_bucket" where
  "bucket_remove a b = b\<lparr>bkt_count := bkt_count b - 1, bkt_ptr := remove1 a (bkt_ptr b)\<rparr>"

definition bucket_insert :: "nat \<Rightarrow> buddy_bucket \<Rightarrow> buddy_bucket" where
  "bucket_insert a b = b\<lparr>bkt_count := bkt_count b + 1, bkt_ptr := a # bkt_ptr b\<rparr>"

text \<open>\<open>while (size > (1 << blbt->order)) blbt++\<close>; \<open>None\<close> at the end of the table.\<close>

fun find_bucket :: "nat \<Rightarrow> buddy_bucket list \<Rightarrow> nat \<Rightarrow> nat option" where
  "find_bucket sz [] i = None"
| "find_bucket sz (b # bs) i = (if sz > 2 ^ bkt_order b then find_bucket sz bs (i + 1) else Some i)"

section \<open>Creating the table\<close>

text \<open>\<open>1 << power_of_two\<close> is computed in an \<open>int\<close>.\<close>

definition create_buddy_table :: "nat \<Rightarrow> ross_error + buddy_system" where
  "create_buddy_table power_of_two =
     (let p = (if power_of_two < BUDDY_BLOCK_ORDER then BUDDY_BLOCK_ORDER else power_of_two);
          list_count = p - BUDDY_BLOCK_ORDER + 1 in
      if p \<ge> 31 then Inl Int_Overflow
      else
        let bsystem = map (\<lambda>i. \<lparr>bkt_ptr = [], bkt_count = 0, bkt_order = i + BUDDY_BLOCK_ORDER\<rparr>) [0..<list_count];
            m = \<lparr>arena = 2 ^ p, hdr = (\<lambda>_. no_header), bytes = (\<lambda>_. 0), g_tw_buddy_master = bsystem\<rparr>
        in ebind (write_hdr 0 \<lparr>blk_size = 2 ^ p - header_size, blk_use = FREE\<rparr> m) (\<lambda>m.
             Inr (upd_bucket (list_count - 1) (bucket_insert 0) m)))"

section \<open>Allocating\<close>

definition buddy_split :: "nat \<Rightarrow> buddy_system \<Rightarrow> ross_error + buddy_system" where
  "buddy_split i m =
     (let b = g_tw_buddy_master m ! i in
      if bkt_count b = 0 then Inl (Assertion ''Bucket contains no entries!'')
      else case bkt_ptr b of
        [] \<Rightarrow> Inl (Assertion ''LIST_FIRST returned NULL'')
      | blt # _ \<Rightarrow>
          if i = 0 then Inl Bad_Pointer
          else
            let m = upd_bucket i (bucket_remove blt) m;
                sz = 2 ^ bkt_order (g_tw_buddy_master m ! (i - 1));
                new_blt = blt + sz;
                h = \<lparr>blk_size = sz - header_size, blk_use = FREE\<rparr> in
            ebind (write_hdr blt h m) (\<lambda>m.
            ebind (write_hdr new_blt h m) (\<lambda>m.
              Inr (upd_bucket (i - 1) (bucket_insert blt) (upd_bucket (i - 1) (bucket_insert new_blt) m)))))"

text \<open>\<open>while (split_count--) buddy_split(blbt--)\<close>\<close>

fun split_down :: "nat \<Rightarrow> nat \<Rightarrow> buddy_system \<Rightarrow> ross_error + buddy_system" where
  "split_down 0 i m = Inr m"
| "split_down (Suc n) i m = ebind (buddy_split i m) (split_down n (i - 1))"

text \<open>The first bucket from a place on that has an entry.\<close>

fun first_nonempty :: "buddy_bucket list \<Rightarrow> nat \<Rightarrow> nat option" where
  "first_nonempty [] i = None"
| "first_nonempty (b # bs) i = (if bkt_count b = 0 then first_nonempty bs (i + 1) else Some i)"

definition buddy_full :: ross_error where
  "buddy_full = Tw_Error ''Increase buddy-size''"

definition take_first :: "nat \<Rightarrow> buddy_system \<Rightarrow> ross_error + (nat \<times> buddy_system)" where
  "take_first i m =
     (case bkt_ptr (g_tw_buddy_master m ! i) of
        [] \<Rightarrow> Inl buddy_full
      | blt # _ \<Rightarrow>
          let m = upd_bucket i (bucket_remove blt) m in
          ebind (read_hdr blt m) (\<lambda>h.
          ebind (write_hdr blt (h\<lparr>blk_use := USED\<rparr>) m) (\<lambda>m. Inr (blt + header_size, m))))"

definition buddy_alloc :: "32 word \<Rightarrow> buddy_system \<Rightarrow> ross_error + (nat \<times> buddy_system)" where
  "buddy_alloc sz m =
     (let sz = next_power2 (sz + word_of_nat header_size) in
      case find_bucket (unat sz) (g_tw_buddy_master m) 0 of
        None \<Rightarrow> Inl buddy_full
      | Some i \<Rightarrow>
          case first_nonempty (drop i (g_tw_buddy_master m)) i of
            None \<Rightarrow> Inl buddy_full
          | Some j \<Rightarrow> ebind (split_down (j - i) j m) (take_first i))"

section \<open>Freeing\<close>

text \<open>
  \<open>buddy_try_merge\<close> with the count of merges so far; the fuel bounds the rounds. The entry behind the
  last bucket is not one to insert into.
\<close>

fun try_merge :: "nat \<Rightarrow> nat \<Rightarrow> nat \<Rightarrow> buddy_system \<Rightarrow> ross_error + (nat \<times> buddy_system)" where
  "try_merge 0 blt merge_count m = Inl Out_Of_Fuel"
| "try_merge (Suc n) blt merge_count m =
     ebind (read_hdr blt m) (\<lambda>h.
       let sz = blk_size h + header_size in
       case find_bucket sz (g_tw_buddy_master m) 0 of
         None \<Rightarrow> Inl Bad_Pointer
       | Some i \<Rightarrow>
           let possible_buddy = blt XOR sz in
           ebind (read_hdr possible_buddy m) (\<lambda>p.
             if blk_use p = FREE \<and> blk_size p = sz - header_size then
               let m = (if merge_count > 0 then upd_bucket i (bucket_remove blt) m else m) in
               if bkt_count (g_tw_buddy_master m ! i) = 0
               then Inl (Assertion ''bucket containing buddy has zero elements'')
               else if i + 1 \<ge> length (g_tw_buddy_master m) then Inl Bad_Pointer
               else
                 let m = upd_bucket i (bucket_remove possible_buddy) m;
                     smallest_address = min blt possible_buddy in
                 ebind (write_hdr smallest_address \<lparr>blk_size = 2 * sz - header_size, blk_use = FREE\<rparr> m) (\<lambda>m.
                 ebind (clear_block smallest_address (2 * sz - header_size) (upd_bucket (i + 1) (bucket_insert smallest_address) m)) (\<lambda>m.
                   try_merge n smallest_address (merge_count + 1) m))
             else Inr (merge_count, m)))"

definition buddy_try_merge :: "nat \<Rightarrow> buddy_system \<Rightarrow> ross_error + (nat \<times> buddy_system)" where
  "buddy_try_merge blt m = try_merge (length (g_tw_buddy_master m) + 1) blt 0 m"

text \<open>The block joins its bucket.\<close>

definition put_free :: "nat \<Rightarrow> nat \<Rightarrow> nat \<Rightarrow> buddy_system \<Rightarrow> ross_error + buddy_system" where
  "put_free i blt sz m =
     ebind (write_hdr blt \<lparr>blk_size = sz - header_size, blk_use = FREE\<rparr> m) (\<lambda>m.
       clear_block blt (sz - header_size) (upd_bucket i (bucket_insert blt) m))"

definition buddy_free :: "nat \<Rightarrow> buddy_system \<Rightarrow> ross_error + buddy_system" where
  "buddy_free p m =
     (if p < header_size then Inl Bad_Pointer
      else
        let blt = p - header_size in
        ebind (read_hdr blt m) (\<lambda>h.
          let sz = blk_size h + header_size in
          case find_bucket sz (g_tw_buddy_master m) 0 of
            None \<Rightarrow> Inl Bad_Pointer
          | Some i \<Rightarrow>
              let b = g_tw_buddy_master m ! i in
              if blk_use h \<noteq> USED then
                (if blt \<in> set (bkt_ptr b) then Inr m
                 else Inl (Assertion ''buddy with FREE status not in freelist''))
              else if bkt_count b = 0 then put_free i blt sz m
              else
                ebind (buddy_try_merge blt m) (\<lambda>(merged, m').
                  if merged > 0 then
                    (if bkt_count b > bkt_count (g_tw_buddy_master m' ! i) then Inr m'
                     else Inl (Assertion ''initial_count > blbt->count''))
                  else put_free i blt sz m')))"

end
