(* ===== verification/Buddy_Lemmas.thy ===== *)
theory Buddy_Lemmas
  imports Buddy
begin

text \<open>
  The buddy allocator keeps a tiling of its arena into aligned blocks whose sizes are powers of two, with
  the free blocks in the buckets and no two free buddies.
\<close>

section \<open>The next power of two\<close>

text \<open>The \<open>n\<close> bits from \<open>h\<close> downwards are set, and none above.\<close>

definition ones_below :: "'a :: len word \<Rightarrow> nat \<Rightarrow> nat \<Rightarrow> bool" where
  "ones_below w h n \<longleftrightarrow> (\<forall>i. i \<le> h \<longrightarrow> h < i + n \<longrightarrow> bit w i) \<and> (\<forall>i. h < i \<longrightarrow> \<not> bit w i)"

lemma ones_below_double:
  assumes "ones_below w h n"
  shows "ones_below (w OR drop_bit n w) h (2 * n)"
proof -
  have "bit (w OR drop_bit n w) i" if "i \<le> h" "h < i + 2 * n" for i
  proof (cases "h < i + n")
    case True
    then show ?thesis using assms that by (simp add: ones_below_def bit_or_iff)
  next
    case False
    then have "bit w (n + i)" using assms that by (simp add: ones_below_def)
    then show ?thesis by (simp add: bit_or_iff bit_drop_bit_eq)
  qed
  moreover have "\<not> bit (w OR drop_bit n w) i" if "h < i" for i
    using assms that by (simp add: ones_below_def bit_or_iff bit_drop_bit_eq)
  ultimately show ?thesis by (simp add: ones_below_def)
qed

lemma ones_below_mask:
  fixes w :: "32 word"
  assumes "ones_below w h 32" "h < 32"
  shows "w = mask (h + 1)"
proof (rule bit_eqI)
  fix i assume "possible_bit TYPE(32 word) i"
  then have "i < 32" by (simp add: possible_bit_word)
  then show "bit w i = bit (mask (h + 1) :: 32 word) i"
    using assms by (cases "i \<le> h") (auto simp: ones_below_def bit_mask_iff)
qed

lemma highest_bit:
  fixes w :: "32 word"
  assumes "w \<noteq> 0"
  obtains h where "h < 32" "ones_below w h 1" "2 ^ h \<le> unat w" "unat w < 2 ^ (h + 1)"
proof -
  have "1 \<le> unat w" using assms by (simp add: unat_gt_0 Suc_le_eq)
  then obtain h where h: "2 ^ h \<le> unat w" "unat w < 2 ^ (h + 1)" using ex_power_ivl1[of 2 "unat w"] by auto
  have "unat w < 2 ^ 32" using unsigned_less[of w] by simp
  then have "(2 :: nat) ^ h < 2 ^ 32" using h(1) by linarith
  then have h32: "h < 32" by (rule power_less_imp_less_exp[rotated]) simp
  have b: "bit w i \<longleftrightarrow> odd (unat w div 2 ^ i)" for i by (metis bit_iff_odd bit_unsigned_iff possible_bit_nat)
  have "unat w div 2 ^ h = 1" using h by (intro div_nat_eqI) simp_all
  then have "bit w h" by (simp add: b)
  moreover have "\<not> bit w i" if "h < i" for i
  proof -
    have "(2 :: nat) ^ (h + 1) \<le> 2 ^ i" using that by (intro power_increasing) simp_all
    then have "unat w div 2 ^ i = 0" using h(2) by simp
    then show ?thesis by (simp add: b)
  qed
  ultimately have "ones_below w h 1" by (auto simp: ones_below_def le_less_Suc_eq)
  then show ?thesis using that h h32 by blast
qed

lemma unat_power:
  assumes "k < 32"
  shows "unat (2 ^ k :: 32 word) = 2 ^ k"
proof -
  have "unat (word_of_nat (2 ^ k) :: 32 word) = 2 ^ k" using assms by (subst unsigned_of_nat) (simp add: take_bit_nat_eq_self)
  then show ?thesis by simp
qed

lemma next_power2_smear:
  assumes h: "h < 32" "ones_below (v - 1) h 1" and v: "\<not> v < push_bit BUDDY_BLOCK_ORDER 1"
  shows "next_power2 v = 2 ^ (h + 1)"
proof -
  define w where "w = v - 1"
  define w1 where "w1 = w OR drop_bit 1 w"
  define w2 where "w2 = w1 OR drop_bit 2 w1"
  define w3 where "w3 = w2 OR drop_bit 4 w2"
  define w4 where "w4 = w3 OR drop_bit 8 w3"
  define w5 where "w5 = w4 OR drop_bit 16 w4"
  have "ones_below w5 h 32"
    using ones_below_double[OF ones_below_double[OF ones_below_double[OF ones_below_double[OF ones_below_double[OF h(2)]]]]]
    unfolding w1_def w2_def w3_def w4_def w5_def w_def by simp
  then have "w5 = mask (h + 1)" by (rule ones_below_mask) (rule h(1))
  then have n: "w5 + 1 = 2 ^ (h + 1)" by (simp add: mask_eq_exp_minus_1)
  show ?thesis
    using v unfolding n[symmetric] w5_def w4_def w3_def w2_def w1_def w_def by (simp add: next_power2_def Let_def)
qed

lemma next_power2_value:
  assumes v: "unat v \<le> 2 ^ 31"
  obtains k where "6 \<le> k" "k \<le> 31" "unat (next_power2 v) = 2 ^ k" "unat v \<le> 2 ^ k" "k = 6 \<or> 2 ^ (k - 1) < unat v"
proof (cases "unat v < 64")
  case True
  then have "v < 64" by (simp add: word_less_nat_alt)
  then have "next_power2 v = 64" by (simp add: next_power2_def BUDDY_BLOCK_ORDER_def)
  then show ?thesis using True by (intro that[of 6]) simp_all
next
  case False
  define w where "w = v - 1"
  have v0: "v \<noteq> 0" using False by auto
  have uw: "unat w = unat v - 1" unfolding w_def using v0 by (simp add: unat_minus_one)
  then have "w \<noteq> 0" using False by auto
  then obtain h where h: "h < 32" "ones_below w h 1" "2 ^ h \<le> unat w" "unat w < 2 ^ (h + 1)" by (rule highest_bit)
  have "\<not> v < push_bit BUDDY_BLOCK_ORDER 1" using False by (simp add: word_less_nat_alt BUDDY_BLOCK_ORDER_def)
  then have nv: "next_power2 v = 2 ^ (h + 1)" using h(1,2) unfolding w_def by (intro next_power2_smear)
  have "(2 :: nat) ^ h < 2 ^ 31" using h(3) uw v v0 False by linarith
  then have h31: "h < 31" by (rule power_less_imp_less_exp[rotated]) simp
  have "(63 :: nat) < 2 ^ (h + 1)" using h(4) uw False by linarith
  then have h5: "5 \<le> h"
  proof (rule contrapos_pp)
    assume "\<not> 5 \<le> h"
    then have "(2 :: nat) ^ (h + 1) \<le> 2 ^ 5" by (intro power_increasing) simp_all
    then show "\<not> (63 :: nat) < 2 ^ (h + 1)" by simp
  qed
  have "unat (next_power2 v) = 2 ^ (h + 1)" unfolding nv by (rule unat_power) (use h31 in simp)
  moreover have "unat v \<le> 2 ^ (h + 1)" "2 ^ h < unat v" using h(3,4) uw False by linarith+
  ultimately show ?thesis using h5 h31 by (intro that[of "h + 1"]) simp_all
qed

text \<open>Above the largest power of two the result wraps round to zero.\<close>

lemma next_power2_huge:
  assumes v: "2 ^ 31 < unat v"
  shows "next_power2 v = 0"
proof -
  define w where "w = v - 1"
  have v0: "v \<noteq> 0" using v by auto
  have uw: "unat w = unat v - 1" unfolding w_def using v0 by (simp add: unat_minus_one)
  then have "w \<noteq> 0" using v by auto
  then obtain h where h: "h < 32" "ones_below w h 1" "2 ^ h \<le> unat w" "unat w < 2 ^ (h + 1)" by (rule highest_bit)
  have h31: "h = 31"
  proof (rule ccontr)
    assume "h \<noteq> 31"
    then have "(2 :: nat) ^ (h + 1) \<le> 2 ^ 31" using h(1) by (intro power_increasing) simp_all
    then show False using h(4) uw v by linarith
  qed
  have n: "\<not> v < push_bit BUDDY_BLOCK_ORDER 1" using v by (simp add: word_less_nat_alt BUDDY_BLOCK_ORDER_def)
  show ?thesis unfolding next_power2_smear[OF h(1,2)[unfolded w_def] n] h31 by simp
qed

section \<open>Aligned blocks\<close>

lemma aligned_sub:
  fixes d e a p :: nat
  assumes "d dvd a" "d dvd e" "a \<le> p" "p < a + e"
  shows "a \<le> p div d * d" "p div d * d + d \<le> a + e"
proof -
  obtain x y where xy: "a = d * x" "e = d * y" using assms(1,2) by (auto elim!: dvdE)
  have d: "0 < d" using assms(3,4) xy by (cases d) auto
  have "x \<le> p div d" using assms(3) xy d by (simp add: less_eq_div_iff_mult_less_eq mult.commute)
  then show "a \<le> p div d * d" unfolding xy by (simp add: mult.commute)
  have "p < d * (x + y)" using assms(4) xy by (simp add: distrib_left)
  then have "p div d < x + y" using d by (simp add: less_mult_imp_div_less mult.commute)
  then have "(p div d + 1) * d \<le> (x + y) * d" by (intro mult_le_mono1) simp
  then show "p div d * d + d \<le> a + e" unfolding xy by (simp add: algebra_simps)
qed

text \<open>The buddy of the block of order \<open>k\<close> at \<open>a\<close>: the other half of the block of order \<open>k + 1\<close> around it.\<close>

definition buddy_of :: "nat \<Rightarrow> nat \<Rightarrow> nat" where
  "buddy_of a k = (if even (a div 2 ^ k) then a + 2 ^ k else a - 2 ^ k)"

lemma xor_even_half:
  fixes b :: nat
  assumes "even (b div 2 ^ k)"
  shows "b XOR 2 ^ k = b + 2 ^ k"
proof -
  have "\<not> bit b k" using assms by (simp add: bit_iff_odd)
  then have "flip_bit k b = b + 2 ^ k" by (simp add: flip_bit_eq_if set_bit_eq)
  then show ?thesis by (simp add: flip_bit_eq_xor push_bit_of_1)
qed

lemma buddy_of_xor: "a XOR 2 ^ k = buddy_of a k"
proof (cases "even (a div 2 ^ k)")
  case True
  then show ?thesis by (simp add: xor_even_half buddy_of_def)
next
  case False
  then have le: "2 ^ k \<le> a" by (metis div_less even_zero not_less)
  define b where "b = a - 2 ^ k"
  have ab: "a = b + 2 ^ k" using le by (simp add: b_def)
  have "a div 2 ^ k = b div 2 ^ k + 1" unfolding ab by simp
  then have "b XOR 2 ^ k = a" using False ab by (simp add: xor_even_half)
  then have "a XOR 2 ^ k = (b XOR 2 ^ k) XOR 2 ^ k" by simp
  also have "\<dots> = b" by (simp add: xor.assoc)
  finally show ?thesis using False by (simp add: buddy_of_def b_def)
qed

lemma div_halves: "(2 ^ k * x) div 2 ^ k = x" "(2 ^ k * x) div 2 ^ (k + 1) = (x :: nat) div 2"
proof -
  have "(2 ^ k * x) div (2 ^ k * 2) = x div 2" by (rule div_mult_mult1) simp
  then show "(2 ^ k * x) div 2 ^ (k + 1) = x div 2" by (simp add: mult.commute)
qed simp

lemma half_aligned:
  assumes "(2 :: nat) ^ k dvd a"
  shows "a = a div 2 ^ (k + 1) * 2 ^ (k + 1) + (if even (a div 2 ^ k) then 0 else 2 ^ k)"
proof -
  obtain x where x: "a = 2 ^ k * x" using assms by (auto elim!: dvdE)
  show ?thesis
  proof (cases "even x")
    case True
    then obtain y where "x = 2 * y" by (elim evenE)
    then show ?thesis unfolding x div_halves by simp
  next
    case False
    then obtain y where "x = 2 * y + 1" by (elim oddE)
    then show ?thesis unfolding x div_halves by (simp add: distrib_left)
  qed
qed

lemma buddy_of_props:
  assumes "2 ^ k dvd a"
  shows "2 ^ k dvd buddy_of a k" "min a (buddy_of a k) = a div 2 ^ (k + 1) * 2 ^ (k + 1)"
    "buddy_of (buddy_of a k) k = a" "buddy_of a k \<noteq> a" "max a (buddy_of a k) = min a (buddy_of a k) + 2 ^ k"
proof -
  obtain x where x: "a = 2 ^ k * x" using assms by (auto elim!: dvdE)
  have d: "a div 2 ^ k = x" unfolding x by (rule div_halves)
  have "buddy_of a k = 2 ^ k * (if even x then x + 1 else x - 1)" unfolding buddy_of_def d unfolding x by (simp add: algebra_simps)
  moreover have "\<not> even x \<Longrightarrow> 1 \<le> x" by (cases x) auto
  ultimately show "2 ^ k dvd buddy_of a k" "buddy_of a k \<noteq> a" "max a (buddy_of a k) = min a (buddy_of a k) + 2 ^ k"
    "buddy_of (buddy_of a k) k = a"
    unfolding x by (auto simp: buddy_of_def min_def max_def algebra_simps)
  show "min a (buddy_of a k) = a div 2 ^ (k + 1) * 2 ^ (k + 1)"
    using half_aligned[OF assms] by (auto simp: buddy_of_def)
qed

lemma aligned_eq:
  fixes b c d :: nat
  assumes "d dvd b" "d dvd c" "c \<le> b" "b < c + d"
  shows "b = c"
proof -
  have "d dvd b - c" using assms(1,2) by (rule dvd_diff_nat)
  moreover have "b - c < d" using assms(3,4) by linarith
  ultimately have "b - c = 0" using nat_dvd_not_less by blast
  then show ?thesis using assms(3) by simp
qed

lemma below_end: "a + 2 ^ k \<le> e \<Longrightarrow> a < (e :: nat)"
  by (rule less_le_trans[of _ "a + 2 ^ k"]) simp_all

section \<open>Tilings of the arena\<close>

text \<open>A block is its offset and its order.\<close>

fun blk :: "nat \<times> nat \<Rightarrow> nat set" where
  "blk (a, k) = {a..<a + 2 ^ k}"

definition tiling :: "nat \<Rightarrow> (nat \<times> nat) set \<Rightarrow> bool" where
  "tiling n T \<longleftrightarrow> (\<forall>(a, k) \<in> T. 6 \<le> k \<and> k \<le> n \<and> 2 ^ k dvd a \<and> a + 2 ^ k \<le> 2 ^ n) \<and>
     (\<forall>x \<in> T. \<forall>y \<in> T. x \<noteq> y \<longrightarrow> blk x \<inter> blk y = {}) \<and> (\<forall>p < 2 ^ n. \<exists>x \<in> T. p \<in> blk x)"

text \<open>No two free blocks are buddies.\<close>

definition coalesced :: "nat \<Rightarrow> (nat \<times> nat) set \<Rightarrow> bool" where
  "coalesced n F \<longleftrightarrow> (\<forall>(a, k) \<in> F. k < n \<longrightarrow> (buddy_of a k, k) \<notin> F)"

lemma tilingD:
  assumes "tiling n T" "(a, k) \<in> T"
  shows "6 \<le> k" "k \<le> n" "2 ^ k dvd a" "a + 2 ^ k \<le> 2 ^ n" "a \<in> blk (a, k)"
  using assms by (auto simp: tiling_def)

lemma tiling_same:
  assumes "tiling n T" "x \<in> T" "y \<in> T" "p \<in> blk x" "p \<in> blk y"
  shows "x = y"
  using assms unfolding tiling_def by blast

lemma tiling_cover:
  assumes "tiling n T" "p < 2 ^ n"
  obtains a k where "(a, k) \<in> T" "p \<in> blk (a, k)"
proof -
  obtain x where "x \<in> T" "p \<in> blk x" using assms unfolding tiling_def by blast
  then show ?thesis using that by (cases x) blast
qed

lemma blk_halves: "blk (a, k + 1) = blk (a, k) \<union> blk (a + 2 ^ k, k)"
  by auto

lemma tiling_merge:
  assumes t: "tiling n (insert (a, k) (insert (a + 2 ^ k, k) R))" and a: "2 ^ (k + 1) dvd a" and r: "(a, k) \<notin> R" "(a + 2 ^ k, k) \<notin> R" and k: "k < n"
  shows "tiling n (insert (a, k + 1) R)" "(a, k + 1) \<notin> R"
proof -
  have e: "a + 2 ^ (k + 1) \<le> 2 ^ n" using tilingD(4)[OF t, of "a + 2 ^ k" k] by simp
  have ne: "(a, k) \<noteq> (a + 2 ^ k, k)" by simp
  have d: "blk (a, k + 1) \<inter> blk y = {}" if "y \<in> R" for y
  proof -
    have "y \<noteq> (a, k)" "y \<noteq> (a + 2 ^ k, k)" using that r by metis+
    then have "blk (a, k) \<inter> blk y = {}" "blk (a + 2 ^ k, k) \<inter> blk y = {}" using t that unfolding tiling_def by blast+
    then show ?thesis unfolding blk_halves by blast
  qed
  then show "(a, k + 1) \<notin> R" by fastforce
  show "tiling n (insert (a, k + 1) R)"
    unfolding tiling_def
  proof (intro conjI)
    show "\<forall>(b, j) \<in> insert (a, k + 1) R. 6 \<le> j \<and> j \<le> n \<and> 2 ^ j dvd b \<and> b + 2 ^ j \<le> 2 ^ n"
      using t a e k tilingD(1)[OF t, of a k] unfolding tiling_def by auto
    show "\<forall>x \<in> insert (a, k + 1) R. \<forall>y \<in> insert (a, k + 1) R. x \<noteq> y \<longrightarrow> blk x \<inter> blk y = {}"
      using t d unfolding tiling_def by blast
    show "\<forall>p < 2 ^ n. \<exists>x \<in> insert (a, k + 1) R. p \<in> blk x"
    proof (intro allI impI)
      fix p :: nat assume "p < 2 ^ n"
      then obtain x where "x \<in> insert (a, k) (insert (a + 2 ^ k, k) R)" "p \<in> blk x" using t unfolding tiling_def by blast
      then show "\<exists>x \<in> insert (a, k + 1) R. p \<in> blk x" using blk_halves[of a k] by blast
    qed
  qed
qed

lemma tiling_split:
  assumes t: "tiling n (insert (a, k + 1) R)" and r: "(a, k + 1) \<notin> R" and k: "6 \<le> k"
  shows "tiling n (insert (a, k) (insert (a + 2 ^ k, k) R))" "(a, k) \<notin> R" "(a + 2 ^ k, k) \<notin> R"
proof -
  have e: "a + 2 ^ (k + 1) \<le> 2 ^ n" "2 ^ (k + 1) dvd a" "k + 1 \<le> n" using tilingD[OF t, of a "k + 1"] by simp_all
  have dv: "2 ^ k dvd a" using e(2) by (meson dvd_trans le_add1 le_imp_power_dvd)
  have "blk (a, k + 1) \<inter> blk y = {}" if "y \<in> R" for y
  proof -
    have "y \<noteq> (a, k + 1)" using that r by metis
    then show ?thesis using t that unfolding tiling_def by blast
  qed
  then have d: "blk (a, k) \<inter> blk y = {}" "blk (a + 2 ^ k, k) \<inter> blk y = {}" if "y \<in> R" for y
    using that unfolding blk_halves by blast+
  then show n: "(a, k) \<notin> R" "(a + 2 ^ k, k) \<notin> R" by fastforce+
  have ab: "blk (a, k) \<inter> blk (a + 2 ^ k, k) = {}" by auto
  let ?T = "insert (a, k) (insert (a + 2 ^ k, k) R)"
  show "tiling n ?T"
    unfolding tiling_def
  proof (intro conjI)
    show "\<forall>(b, j) \<in> ?T. 6 \<le> j \<and> j \<le> n \<and> 2 ^ j dvd b \<and> b + 2 ^ j \<le> 2 ^ n"
      using t e k dv unfolding tiling_def by auto
    show "\<forall>x \<in> ?T. \<forall>y \<in> ?T. x \<noteq> y \<longrightarrow> blk x \<inter> blk y = {}"
      using t d ab unfolding tiling_def by blast
    show "\<forall>p < 2 ^ n. \<exists>x \<in> ?T. p \<in> blk x"
    proof (intro allI impI)
      fix p :: nat assume "p < 2 ^ n"
      then obtain x where "x \<in> insert (a, k + 1) R" "p \<in> blk x" using t unfolding tiling_def by blast
      then show "\<exists>x \<in> ?T. p \<in> blk x" using blk_halves[of a k] by blast
    qed
  qed
qed

lemma buddy_inside:
  assumes "(2 :: nat) ^ k dvd a" "2 ^ (k + 1) dvd c" "2 ^ (k + 1) dvd e" "c \<le> a" "a < c + e"
  shows "c \<le> buddy_of a k" "buddy_of a k + 2 ^ k \<le> c + e"
proof -
  note s = aligned_sub[OF assms(2-5)]
  note b = buddy_of_props[OF assms(1)]
  show "c \<le> buddy_of a k" using s(1) b(2) by linarith
  have "max a (buddy_of a k) + 2 ^ k \<le> c + e" using s(2) b(2,5) by simp
  then show "buddy_of a k + 2 ^ k \<le> c + e" by linarith
qed

text \<open>Where the buddy of a block would be, a block begins that is not larger.\<close>

lemma buddy_block:
  assumes t: "tiling n T" and x: "(a, k) \<in> T" and k: "k < n"
  obtains j where "j \<le> k" "(buddy_of a k, j) \<in> T" "buddy_of a k + 2 ^ k \<le> 2 ^ n"
proof -
  let ?b = "buddy_of a k"
  note a = tilingD[OF t x]
  note bp = buddy_of_props[OF a(3)]
  have "(2 :: nat) ^ (k + 1) dvd 2 ^ n" using k by (intro le_imp_power_dvd) simp
  then have b: "?b + 2 ^ k \<le> 2 ^ n" using buddy_inside[OF a(3), of 0 "2 ^ n"] below_end[OF a(4)] by simp
  have "?b < 2 ^ n" by (rule below_end[OF b])
  then obtain c j where c: "(c, j) \<in> T" "?b \<in> blk (c, j)" by (rule tiling_cover[OF t])
  note cj = tilingD[OF t c(1)]
  have bc: "c \<le> ?b" "?b < c + 2 ^ j" using c(2) by simp_all
  show ?thesis
  proof (cases "j \<le> k")
    case True
    have "2 ^ j dvd ?b" using bp(1) True by (meson dvd_trans le_imp_power_dvd)
    then have "?b = c" by (rule aligned_eq[OF _ cj(3) bc])
    then show ?thesis using that True c(1) b by simp
  next
    case False
    then have kj: "(2 :: nat) ^ (k + 1) dvd 2 ^ j" by (intro le_imp_power_dvd) simp
    then have "2 ^ (k + 1) dvd c" using cj(3) dvd_trans by blast
    then have "c \<le> a" "a + 2 ^ k \<le> c + 2 ^ j"
      using buddy_inside[OF bp(1) _ kj bc] unfolding bp(3) by simp_all
    then have "a \<in> blk (c, j)" using below_end[of a k "c + 2 ^ j"] by simp
    then have "(c, j) = (a, k)" using tiling_same[OF t c(1) x] a(5) by blast
    then show ?thesis using False by simp
  qed
qed

text \<open>A part of the arena that is free and coalesced is one block.\<close>

lemma free_region:
  assumes t: "tiling n T" and a: "2 ^ k dvd a" "a + 2 ^ k \<le> 2 ^ n" "k \<le> n" and f: "\<And>x. x \<in> T \<Longrightarrow> blk x \<inter> blk (a, k) \<noteq> {} \<Longrightarrow> x \<in> F \<and> snd x \<le> k"
    and c: "coalesced n F"
  shows "(a, k) \<in> T"
proof (rule ccontr)
  assume n: "(a, k) \<notin> T"
  define S where "S = {x \<in> T. blk x \<inter> blk (a, k) \<noteq> {}}"
  have "a < 2 ^ n" by (rule below_end[OF a(2)])
  then obtain x where "x \<in> T" "a \<in> blk x" using tiling_cover[OF t] by metis
  then have "x \<in> S" by (auto simp: S_def)
  then obtain p j where m: "(p, j) \<in> S" "\<And>y. y \<in> S \<Longrightarrow> j \<le> snd y"
    using ex_has_least_nat[of "\<lambda>x. x \<in> S" x snd] by (metis prod.collapse)
  have pT: "(p, j) \<in> T" "(p, j) \<in> F" "j \<le> k" using m(1) f by (auto simp: S_def)
  note pj = tilingD[OF t pT(1)]
  have inside: "a \<le> q \<and> q + 2 ^ i \<le> a + 2 ^ k" if qi: "(q, i) \<in> S" for q i
  proof -
    have q: "(q, i) \<in> T" "i \<le> k" using qi f[of "(q, i)"] by (auto simp: S_def)
    obtain r where "r \<in> blk (q, i)" "r \<in> blk (a, k)" using qi unfolding S_def by blast
    then have r: "q \<le> r" "r < q + 2 ^ i" "a \<le> r" "r < a + 2 ^ k" by simp_all
    have d: "(2 :: nat) ^ i dvd 2 ^ k" by (rule le_imp_power_dvd[OF q(2)])
    then have d': "2 ^ i dvd a" using a(1) by (rule dvd_trans)
    have "q \<le> r div 2 ^ i * 2 ^ i" "r div 2 ^ i * 2 ^ i + 2 ^ i \<le> q + 2 ^ i"
      by (rule aligned_sub[OF tilingD(3)[OF t q(1)] dvd_refl r(1,2)])+
    then have "r div 2 ^ i * 2 ^ i = q" by linarith
    then show ?thesis using aligned_sub[OF d' d r(3,4)] by simp
  qed
  have jk: "j < k"
  proof (rule ccontr)
    assume "\<not> j < k"
    then have "j = k" using pT(3) by simp
    then have "p = a" using inside[OF m(1)] by simp
    then show False using n pT(1) \<open>j = k\<close> by simp
  qed
  then have jn: "j < n" using a(3) by simp
  obtain i where i: "i \<le> j" "(buddy_of p j, i) \<in> T" using buddy_block[OF t pT(1) jn] by metis
  have d2: "(2 :: nat) ^ (j + 1) dvd 2 ^ k" using jk by (intro le_imp_power_dvd) simp
  then have d1: "2 ^ (j + 1) dvd a" using a(1) by (rule dvd_trans)
  have "p < a + 2 ^ k" using inside[OF m(1)] below_end by blast
  then have "a \<le> buddy_of p j" "buddy_of p j + 2 ^ j \<le> a + 2 ^ k"
    using buddy_inside[OF pj(3) d1 d2] inside[OF m(1)] by simp_all
  then have "buddy_of p j \<in> blk (a, k)" using below_end[of "buddy_of p j" j "a + 2 ^ k"] by simp
  moreover have "buddy_of p j \<in> blk (buddy_of p j, i)" by simp
  ultimately have S: "(buddy_of p j, i) \<in> S" using i(2) unfolding S_def by blast
  then have "i = j" using m(2)[OF S] i(1) by simp
  moreover have "(buddy_of p j, i) \<in> F" using S f[OF i(2)] by (auto simp: S_def)
  ultimately show False using c pT(2) jn by (auto simp: coalesced_def)
qed

end
