(* ===== verification/Buddy_Alloc.thy ===== *)
theory Buddy_Alloc
  imports Buddy_Lemmas
begin

text \<open>What the state of the allocator represents, and what an allocation does to it.\<close>

section \<open>Representation\<close>

definition headers_ok :: "(nat \<times> nat) set \<Rightarrow> (nat \<times> nat) set \<Rightarrow> (nat \<Rightarrow> buddy_list) \<Rightarrow> bool" where
  "headers_ok T F h \<longleftrightarrow> (\<forall>(a, k) \<in> T. h a = \<lparr>blk_size = 2 ^ k - header_size, blk_use = (if (a, k) \<in> F then FREE else USED)\<rparr>)"

definition bucket_ok :: "(nat \<times> nat) set \<Rightarrow> nat \<Rightarrow> buddy_bucket \<Rightarrow> bool" where
  "bucket_ok F k b \<longleftrightarrow> bkt_order b = k \<and> distinct (bkt_ptr b) \<and> bkt_count b = length (bkt_ptr b) \<and> set (bkt_ptr b) = {a. (a, k) \<in> F}"

definition table_ok :: "nat \<Rightarrow> (nat \<times> nat) set \<Rightarrow> buddy_bucket list \<Rightarrow> bool" where
  "table_ok n F tb \<longleftrightarrow> length tb = n - 5 \<and> (\<forall>k. 6 \<le> k \<longrightarrow> k \<le> n \<longrightarrow> bucket_ok F k (tb ! (k - 6)))"

text \<open>\<open>T\<close> are the blocks of an arena of \<open>2 ^ n\<close> bytes, \<open>F\<close> the free ones.\<close>

definition buddy_rep :: "nat \<Rightarrow> (nat \<times> nat) set \<Rightarrow> (nat \<times> nat) set \<Rightarrow> buddy_system \<Rightarrow> bool" where
  "buddy_rep n T F m \<longleftrightarrow> 6 \<le> n \<and> arena m = 2 ^ n \<and> tiling n T \<and> F \<subseteq> T \<and> headers_ok T F (hdr m) \<and> table_ok n F (g_tw_buddy_master m)"

definition buddy_inv :: "nat \<Rightarrow> (nat \<times> nat) set \<Rightarrow> (nat \<times> nat) set \<Rightarrow> buddy_system \<Rightarrow> bool" where
  "buddy_inv n T F m \<longleftrightarrow> buddy_rep n T F m \<and> coalesced n F"

lemma buddy_repD:
  assumes "buddy_rep n T F m"
  shows "6 \<le> n" "arena m = 2 ^ n" "tiling n T" "F \<subseteq> T" "headers_ok T F (hdr m)" "table_ok n F (g_tw_buddy_master m)"
  using assms by (simp_all add: buddy_rep_def)

lemma headers_okD:
  "headers_ok T F h \<Longrightarrow> (a, k) \<in> T \<Longrightarrow> h a = \<lparr>blk_size = 2 ^ k - header_size, blk_use = (if (a, k) \<in> F then FREE else USED)\<rparr>"
  by (auto simp: headers_ok_def)

lemma table_okD:
  assumes "table_ok n F tb" "6 \<le> k" "k \<le> n"
  shows "k - 6 < length tb" "bkt_order (tb ! (k - 6)) = k" "distinct (bkt_ptr (tb ! (k - 6)))"
    "bkt_count (tb ! (k - 6)) = length (bkt_ptr (tb ! (k - 6)))" "set (bkt_ptr (tb ! (k - 6))) = {a. (a, k) \<in> F}"
  using assms by (auto simp: table_ok_def bucket_ok_def)

lemma table_insert:
  assumes "table_ok n F tb" "6 \<le> k" "k \<le> n" "(a, k) \<notin> F"
  shows "table_ok n (insert (a, k) F) (tb[k - 6 := bucket_insert a (tb ! (k - 6))])"
  unfolding table_ok_def
proof (intro conjI allI impI)
  fix j assume j: "6 \<le> j" "j \<le> n"
  show "bucket_ok (insert (a, k) F) j (tb[k - 6 := bucket_insert a (tb ! (k - 6))] ! (j - 6))"
  proof (cases "j = k")
    case True
    then show ?thesis using table_okD[OF assms(1-3)] assms(4) by (auto simp: bucket_ok_def bucket_insert_def)
  next
    case False
    then have "j - 6 \<noteq> k - 6" using j assms(2) by simp
    then show ?thesis using False table_okD[OF assms(1) j] by (auto simp: bucket_ok_def)
  qed
qed (use assms(1) in \<open>simp add: table_ok_def\<close>)

lemma table_remove:
  assumes "table_ok n F tb" "6 \<le> k" "k \<le> n" "(a, k) \<in> F"
  shows "table_ok n (F - {(a, k)}) (tb[k - 6 := bucket_remove a (tb ! (k - 6))])"
  unfolding table_ok_def
proof (intro conjI allI impI)
  fix j assume j: "6 \<le> j" "j \<le> n"
  show "bucket_ok (F - {(a, k)}) j (tb[k - 6 := bucket_remove a (tb ! (k - 6))] ! (j - 6))"
  proof (cases "j = k")
    case True
    then show ?thesis using table_okD[OF assms(1-3)] assms(4)
      by (auto simp: bucket_ok_def bucket_remove_def length_remove1)
  next
    case False
    then have "j - 6 \<noteq> k - 6" using j assms(2) by simp
    then show ?thesis using False table_okD[OF assms(1) j] by (auto simp: bucket_ok_def)
  qed
qed (use assms(1) in \<open>simp add: table_ok_def\<close>)

text \<open>Finding buckets.\<close>

lemma find_bucket_first:
  assumes "i < length tb" "\<forall>j < i. sz > 2 ^ bkt_order (tb ! j)" "sz \<le> 2 ^ bkt_order (tb ! i)"
  shows "find_bucket sz tb s = Some (s + i)"
  using assms
proof (induction tb arbitrary: i s)
  case (Cons b tb)
  show ?case
  proof (cases i)
    case (Suc i')
    have "find_bucket sz tb (s + 1) = Some (s + 1 + i')"
      using Cons.prems unfolding Suc by (intro Cons.IH) auto
    then show ?thesis using Cons.prems(2)[unfolded Suc] Suc by fastforce
  qed (use Cons.prems in simp)
qed simp

lemma find_bucket_none: "\<forall>j < length tb. sz > 2 ^ bkt_order (tb ! j) \<Longrightarrow> find_bucket sz tb s = None"
proof (induction tb arbitrary: s)
  case (Cons b tb)
  then have "\<forall>j < length tb. sz > 2 ^ bkt_order (tb ! j)" "sz > 2 ^ bkt_order b" by fastforce+
  then show ?case using Cons.IH by simp
qed simp

lemma find_order:
  assumes "table_ok n F tb" "6 \<le> k" "k \<le> n" "sz \<le> 2 ^ k" "k = 6 \<or> 2 ^ (k - 1) < sz"
  shows "find_bucket sz tb 0 = Some (k - 6)"
proof -
  have "find_bucket sz tb 0 = Some (0 + (k - 6))"
  proof (rule find_bucket_first)
    show "k - 6 < length tb" "sz \<le> 2 ^ bkt_order (tb ! (k - 6))" using table_okD[OF assms(1-3)] assms(4) by simp_all
    show "\<forall>j < k - 6. sz > 2 ^ bkt_order (tb ! j)"
    proof (intro allI impI)
      fix j assume j: "j < k - 6"
      then have "bkt_order (tb ! j) = j + 6" using table_okD(2)[OF assms(1), of "j + 6"] assms(3) by simp
      moreover have "(2 :: nat) ^ (j + 6) \<le> 2 ^ (k - 1)" using j by (intro power_increasing) simp_all
      ultimately show "sz > 2 ^ bkt_order (tb ! j)" using assms(5) j by (metis less_numeral_extra(3) order_le_less_trans cancel_comm_monoid_add_class.diff_cancel not_less_zero)
    qed
  qed
  then show ?thesis by simp
qed

lemma find_too_large:
  assumes "table_ok n F tb" "6 \<le> n" "2 ^ n < sz"
  shows "find_bucket sz tb 0 = None"
proof (rule find_bucket_none, intro allI impI)
  fix j assume "j < length tb"
  then have j: "j + 6 \<le> n" using assms(1,2) by (simp add: table_ok_def)
  then have "bkt_order (tb ! j) = j + 6" using table_okD(2)[OF assms(1), of "j + 6"] by simp
  then have "(2 :: nat) ^ bkt_order (tb ! j) \<le> 2 ^ n" using j by (intro power_increasing) simp_all
  then show "sz > 2 ^ bkt_order (tb ! j)" using assms(3) by linarith
qed

lemma find_own_bucket:
  assumes "buddy_rep n T F m" "(a, k) \<in> T"
  shows "find_bucket (2 ^ k - header_size + header_size) (g_tw_buddy_master m) 0 = Some (k - 6)" "2 ^ k - header_size + header_size = 2 ^ k"
proof -
  note k = tilingD[OF buddy_repD(3)[OF assms(1)] assms(2)]
  have "(2 :: nat) ^ 6 \<le> 2 ^ k" using k(1) by (intro power_increasing) simp_all
  then show e: "2 ^ k - header_size + header_size = 2 ^ k" by (simp add: header_size_def)
  have "k = 6 \<or> (2 :: nat) ^ (k - 1) < 2 ^ k" using k(1) by simp
  then show "find_bucket (2 ^ k - header_size + header_size) (g_tw_buddy_master m) 0 = Some (k - 6)"
    unfolding e by (intro find_order[OF buddy_repD(6)[OF assms(1)] k(1,2)]) simp_all
qed

lemma first_nonempty_cases:
  obtains (none) "first_nonempty tb s = None" "\<forall>j < length tb. bkt_count (tb ! j) = 0"
  | (some) i where "first_nonempty tb s = Some (s + i)" "i < length tb" "bkt_count (tb ! i) \<noteq> 0" "\<forall>j < i. bkt_count (tb ! j) = 0"
proof -
  have "first_nonempty tb s = None \<and> (\<forall>j < length tb. bkt_count (tb ! j) = 0) \<or>
    (\<exists>i. first_nonempty tb s = Some (s + i) \<and> i < length tb \<and> bkt_count (tb ! i) \<noteq> 0 \<and> (\<forall>j < i. bkt_count (tb ! j) = 0))"
  proof (induction tb arbitrary: s)
    case (Cons b tb)
    show ?case
    proof (cases "bkt_count b = 0")
      case True
      from Cons.IH[of "s + 1"] show ?thesis
      proof
        assume "first_nonempty tb (s + 1) = None \<and> (\<forall>j < length tb. bkt_count (tb ! j) = 0)"
        then show ?thesis using True by (auto simp: nth_Cons split: nat.splits)
      next
        assume "\<exists>i. first_nonempty tb (s + 1) = Some (s + 1 + i) \<and> i < length tb \<and> bkt_count (tb ! i) \<noteq> 0 \<and> (\<forall>j < i. bkt_count (tb ! j) = 0)"
        then obtain i where "first_nonempty tb (s + 1) = Some (s + 1 + i)" "i < length tb" "bkt_count (tb ! i) \<noteq> 0" "\<forall>j < i. bkt_count (tb ! j) = 0"
          by blast
        then show ?thesis using True by (intro disjI2 exI[of _ "Suc i"]) (auto simp: nth_Cons split: nat.splits)
      qed
    next
      case False
      then show ?thesis by (intro disjI2 exI[of _ 0]) simp
    qed
  qed simp
  then show ?thesis using none some by blast
qed

section \<open>Splitting\<close>

lemma block_header_fits:
  assumes "tiling n T" "(a, k) \<in> T"
  shows "a + header_size \<le> 2 ^ n" "a + header_size + (2 ^ k - header_size) \<le> 2 ^ n" "header_size \<le> 2 ^ k"
proof -
  note t = tilingD[OF assms]
  have "(2 :: nat) ^ 6 \<le> 2 ^ k" using t(1) by (intro power_increasing) simp_all
  then show "a + header_size \<le> 2 ^ n" "a + header_size + (2 ^ k - header_size) \<le> 2 ^ n" "header_size \<le> 2 ^ k"
    using t(4) by (simp_all add: header_size_def)
qed

text \<open>A new header in one block leaves those of the others alone.\<close>

lemma offset_unique:
  assumes "tiling n T" "(a, k) \<in> T" "(a, j) \<in> T"
  shows "k = j"
  using tiling_same[OF assms(1-3), of a] tilingD(5)[OF assms(1,2)] tilingD(5)[OF assms(1,3)] by simp

lemma split_ok:
  assumes r: "buddy_rep n T F m" and k: "6 \<le> k" "k + 1 \<le> n" and p: "bkt_ptr (g_tw_buddy_master m ! (k + 1 - 6)) = a # as"
  defines "T' \<equiv> insert (a, k) (insert (a + 2 ^ k, k) (T - {(a, k + 1)}))"
    and "F' \<equiv> insert (a, k) (insert (a + 2 ^ k, k) (F - {(a, k + 1)}))"
  shows "\<exists>m'. buddy_split (k + 1 - 6) m = Inr m' \<and> buddy_rep n T' F' m' \<and> bytes m' = bytes m \<and>
    (\<exists>bs. bkt_ptr (g_tw_buddy_master m' ! (k - 6)) = a # bs)"
    "(a, k + 1) \<in> F" "(a, k) \<notin> T" "(a + 2 ^ k, k) \<notin> T" "T' - F' = T - F"
proof -
  let ?tb = "g_tw_buddy_master m" and ?i = "k + 1 - 6" and ?b = "a + 2 ^ k"
  let ?h = "\<lparr>blk_size = 2 ^ k - header_size, blk_use = FREE\<rparr>"
  note R = buddy_repD[OF r]
  have k1: "6 \<le> k + 1" using k by simp
  note tk = table_okD[OF R(6) k1 k(2)]
  show aF: "(a, k + 1) \<in> F" using tk(5) unfolding p by auto
  then have aT: "(a, k + 1) \<in> T" using R(4) by blast
  define Rs where "Rs = T - {(a, k + 1)}"
  have T: "T = insert (a, k + 1) Rs" "(a, k + 1) \<notin> Rs" using aT by (auto simp: Rs_def)
  have "tiling n (insert (a, k + 1) Rs)" using R(3) unfolding T(1) .
  note sp = tiling_split[OF this T(2) k(1)]
  show nT: "(a, k) \<notin> T" "(?b, k) \<notin> T" using sp(2,3) unfolding T(1) by simp_all
  have nF: "(a, k) \<notin> F" "(?b, k) \<notin> F" using nT R(4) by blast+
  show "T' - F' = T - F" unfolding T'_def F'_def using aF nT by blast
  have tT': "tiling n T'" using sp(1) unfolding T'_def Rs_def .
  define tb1 where "tb1 = ?tb[?i := bucket_remove a (?tb ! ?i)]"
  define tb2 where "tb2 = tb1[k - 6 := bucket_insert ?b (tb1 ! (k - 6))]"
  define tb3 where "tb3 = tb2[k - 6 := bucket_insert a (tb2 ! (k - 6))]"
  have o1: "table_ok n (F - {(a, k + 1)}) tb1" unfolding tb1_def by (rule table_remove[OF R(6) k1 k(2) aF])
  have kn: "k \<le> n" using k by simp
  have o2: "table_ok n (insert (?b, k) (F - {(a, k + 1)})) tb2" unfolding tb2_def by (rule table_insert[OF o1 k(1) kn]) (use nF in simp)
  have o3: "table_ok n F' tb3" unfolding tb3_def F'_def by (rule table_insert[OF o2 k(1) kn]) (use nF in simp)
  define m' where "m' = m\<lparr>g_tw_buddy_master := tb3, hdr := (hdr m)(a := ?h, ?b := ?h)\<rparr>"
  have ord: "bkt_order (tb1 ! (?i - 1)) = k" using table_okD(2)[OF o1 k(1) kn] k by simp
  have fit: "a + header_size \<le> 2 ^ n" "?b + header_size \<le> 2 ^ n"
    using block_header_fits(1)[OF tT', of a k] block_header_fits(1)[OF tT', of ?b k] by (simp_all add: T'_def)
  have "buddy_split ?i m = Inr m'"
  proof -
    have c: "bkt_count (?tb ! ?i) \<noteq> 0" using tk(4) p by simp
    define i where "i = ?i"
    have i: "i \<noteq> 0" "i - 1 = k - 6" using k by (simp_all add: i_def)
    have m1: "upd_bucket i (bucket_remove a) m = m\<lparr>g_tw_buddy_master := tb1\<rparr>" by (simp only: upd_bucket_def tb1_def i_def)
    have m2: "upd_bucket (k - 6) (bucket_insert a) (upd_bucket (k - 6) (bucket_insert ?b) (m\<lparr>g_tw_buddy_master := tb1, hdr := h\<rparr>)) =
        m\<lparr>g_tw_buddy_master := tb3, hdr := h\<rparr>" for h
      by (simp add: upd_bucket_def tb2_def tb3_def)
    show ?thesis
      using c i R(2) fit ord p unfolding buddy_split_def Let_def i_def[symmetric] by (simp add: m1 m2 write_hdr_def m'_def)
  qed
  moreover have "headers_ok T' F' (hdr m')"
    unfolding headers_ok_def
  proof clarify
    fix c j assume x: "(c, j) \<in> T'"
    show "hdr m' c = \<lparr>blk_size = 2 ^ j - header_size, blk_use = (if (c, j) \<in> F' then FREE else USED)\<rparr>"
    proof (cases "c = a \<or> c = ?b")
      case True
      then have "j = k" using offset_unique[OF tT' x, of k] by (auto simp: T'_def)
      then show ?thesis using True by (auto simp: m'_def F'_def)
    next
      case False
      then have "(c, j) \<in> T" "(c, j) \<noteq> (a, k + 1)" using x by (auto simp: T'_def)
      then show ?thesis using False headers_okD[OF R(5), of c j] by (simp add: m'_def F'_def)
    qed
  qed
  moreover have "F' \<subseteq> T'" using R(4) unfolding F'_def T'_def by blast
  moreover have "bkt_ptr (g_tw_buddy_master m' ! (k - 6)) = a # bkt_ptr (tb2 ! (k - 6))"
    using table_okD(1)[OF o2 k(1) kn] by (simp add: m'_def tb3_def bucket_insert_def)
  ultimately show "\<exists>m'. buddy_split ?i m = Inr m' \<and> buddy_rep n T' F' m' \<and> bytes m' = bytes m \<and>
      (\<exists>bs. bkt_ptr (g_tw_buddy_master m' ! (k - 6)) = a # bs)"
    using R(1,2) tT' o3 by (intro exI[of _ m']) (simp add: buddy_rep_def m'_def)
qed

lemma split_down_ok:
  assumes "buddy_rep n T F m" "6 \<le> k" "k + d \<le> n" "bkt_ptr (g_tw_buddy_master m ! (k + d - 6)) = a # as"
    "coalesced n (F - {(a, k + d)})" "\<forall>(p, q) \<in> F. \<not> (k \<le> q \<and> q < k + d)"
  shows "\<exists>T' F' m' a' as'. split_down d (k + d - 6) m = Inr m' \<and> buddy_rep n T' F' m' \<and> bkt_ptr (g_tw_buddy_master m' ! (k - 6)) = a' # as' \<and>
    coalesced n (F' - {(a', k)}) \<and> T' - F' = T - F \<and> bytes m' = bytes m"
  using assms
proof (induction d arbitrary: T F m a as)
  case 0
  then show ?case by (intro exI[of _ T] exI[of _ F] exI[of _ m] exI[of _ a] exI[of _ as]) simp
next
  case (Suc d)
  let ?b = "a + 2 ^ (k + d)"
  let ?T = "insert (a, k + d) (insert (?b, k + d) (T - {(a, k + d + 1)}))"
  let ?F = "insert (a, k + d) (insert (?b, k + d) (F - {(a, k + d + 1)}))"
  have kd: "6 \<le> k + d" "k + d + 1 \<le> n" using Suc.prems(2,3) by simp_all
  have p: "bkt_ptr (g_tw_buddy_master m ! (k + d + 1 - 6)) = a # as" using Suc.prems(4) by simp
  note sp = split_ok[OF Suc.prems(1) kd p]
  obtain m1 bs where m1: "buddy_split (k + d + 1 - 6) m = Inr m1" "buddy_rep n ?T ?F m1" "bytes m1 = bytes m"
    "bkt_ptr (g_tw_buddy_master m1 ! (k + d - 6)) = a # bs"
    using sp(1) by blast
  have none: "(p, q) \<in> F \<Longrightarrow> k \<le> q \<Longrightarrow> q < k + Suc d \<Longrightarrow> False" for p q using Suc.prems(6) by blast
  have "(a, k + d) \<notin> F - {(a, k + d + 1)}" using none[of a "k + d"] by auto
  then have F: "?F - {(a, k + d)} = insert (?b, k + d) (F - {(a, k + Suc d)})" by auto
  have ba: "buddy_of ?b (k + d) = a"
  proof -
    have "2 ^ (k + d + 1) dvd a" using tilingD(3)[OF buddy_repD(3)[OF Suc.prems(1)], of a "k + d + 1"] sp(2) buddy_repD(4)[OF Suc.prems(1)] by blast
    then obtain x where x: "a = 2 ^ (k + d) * (2 * x)" by (auto elim!: dvdE)
    have "?b = 2 ^ (k + d) * (2 * x + 1)" unfolding x by simp
    then have "?b div 2 ^ (k + d) = 2 * x + 1" by (simp only: div_halves)
    then show ?thesis by (simp add: buddy_of_def)
  qed
  have c: "coalesced n (?F - {(a, k + d)})"
    unfolding F coalesced_def
  proof clarify
    fix p q assume x: "(p, q) \<in> insert (?b, k + d) (F - {(a, k + Suc d)})" "q < n" "(buddy_of p q, q) \<in> insert (?b, k + d) (F - {(a, k + Suc d)})"
    show False
    proof (cases "q = k + d")
      case True
      then have "p = ?b" "buddy_of p q = ?b" using x(1,3) none[of p q] none[of "buddy_of p q" q] by auto
      then show False using ba True by simp
    next
      case False
      then show False using x Suc.prems(5) by (auto simp: coalesced_def)
    qed
  qed
  have e: "\<forall>(p, q) \<in> ?F. \<not> (k \<le> q \<and> q < k + d)" using none by fastforce
  have le: "k + d \<le> n" using kd by simp
  obtain T' F' m' a' as' where r: "split_down d (k + d - 6) m1 = Inr m'" "buddy_rep n T' F' m'" "bkt_ptr (g_tw_buddy_master m' ! (k - 6)) = a' # as'"
    "coalesced n (F' - {(a', k)})" "T' - F' = ?T - ?F" "bytes m' = bytes m1"
    using Suc.IH[OF m1(2) Suc.prems(2) le m1(4) c e] by (elim exE conjE) (rule that, assumption+)
  have "split_down (Suc d) (k + Suc d - 6) m = Inr m'"
    using m1(1) r(1) kd by (simp add: Suc_diff_le)
  moreover have "T' - F' = T - F" using r(5) sp(5) by simp
  moreover have "bytes m' = bytes m" using r(6) m1(3) by simp
  ultimately show ?case using r(2-4) by blast
qed

section \<open>Allocating\<close>

lemma take_first_ok:
  assumes r: "buddy_rep n T F m" and k: "6 \<le> k" "k \<le> n" and p: "bkt_ptr (g_tw_buddy_master m ! (k - 6)) = a # as"
    and c: "coalesced n (F - {(a, k)})"
  shows "\<exists>m'. take_first (k - 6) m = Inr (a + header_size, m') \<and> buddy_inv n T (F - {(a, k)}) m' \<and> bytes m' = bytes m" "(a, k) \<in> F"
proof -
  note R = buddy_repD[OF r] and tk = table_okD[OF buddy_repD(6)[OF r] k]
  show aF: "(a, k) \<in> F" using tk(5) unfolding p by auto
  then have aT: "(a, k) \<in> T" using R(4) by blast
  let ?tb = "(g_tw_buddy_master m)[k - 6 := bucket_remove a (g_tw_buddy_master m ! (k - 6))]"
  let ?m = "m\<lparr>g_tw_buddy_master := ?tb, hdr := (hdr m)(a := \<lparr>blk_size = 2 ^ k - header_size, blk_use = USED\<rparr>)\<rparr>"
  have fit: "a + header_size \<le> 2 ^ n" by (rule block_header_fits(1)[OF R(3) aT])
  have h: "hdr m a = \<lparr>blk_size = 2 ^ k - header_size, blk_use = FREE\<rparr>" using headers_okD[OF R(5) aT] aF by simp
  have "take_first (k - 6) m = Inr (a + header_size, ?m)"
    using fit R(2) p h by (simp add: take_first_def Let_def upd_bucket_def read_hdr_def write_hdr_def)
  moreover have "headers_ok T (F - {(a, k)}) (hdr ?m)"
    unfolding headers_ok_def
  proof clarify
    fix c j assume x: "(c, j) \<in> T"
    show "hdr ?m c = \<lparr>blk_size = 2 ^ j - header_size, blk_use = (if (c, j) \<in> F - {(a, k)} then FREE else USED)\<rparr>"
    proof (cases "c = a")
      case True
      then have "j = k" using offset_unique[OF R(3) _ aT] x by simp
      then show ?thesis using True by simp
    qed (use headers_okD[OF R(5) x] in simp)
  qed
  ultimately show "\<exists>m'. take_first (k - 6) m = Inr (a + header_size, m') \<and> buddy_inv n T (F - {(a, k)}) m' \<and> bytes m' = bytes m"
    using R(1,2,3,4) c table_remove[OF R(6) k aF] by (intro exI[of _ ?m]) (auto simp: buddy_inv_def buddy_rep_def)
qed

text \<open>
  An allocation either takes a block that was free and is large enough, or reports that none is.
\<close>

lemma alloc_ok:
  assumes i: "buddy_inv n T F m" and sz: "unat sz + header_size \<le> 2 ^ 31"
  shows "(\<exists>a k T' F' m'. buddy_alloc sz m = Inr (a + header_size, m') \<and> buddy_inv n T' F' m' \<and> T' - F' = insert (a, k) (T - F) \<and>
      (a, k) \<notin> T - F \<and> unat sz + header_size \<le> 2 ^ k \<and> (k = 6 \<or> 2 ^ (k - 1) < unat sz + header_size) \<and> bytes m' = bytes m) \<or>
    buddy_alloc sz m = Inl buddy_full \<and> (\<forall>(a, k) \<in> F. 2 ^ k < unat sz + header_size)"
proof -
  have r: "buddy_rep n T F m" and c: "coalesced n F" using i by (simp_all add: buddy_inv_def)
  note R = buddy_repD[OF r]
  let ?tb = "g_tw_buddy_master m" and ?v = "sz + word_of_nat header_size"
  have v: "unat ?v = unat sz + header_size"
  proof -
    have "unat (word_of_nat header_size :: 32 word) = header_size" by (simp add: header_size_def)
    then show ?thesis using sz by (subst unat_add_lem[THEN iffD1]) simp_all
  qed
  have "unat ?v \<le> 2 ^ 31" using sz unfolding v .
  then obtain k where k: "6 \<le> k" "k \<le> 31" "unat (next_power2 ?v) = 2 ^ k" "unat ?v \<le> 2 ^ k" "k = 6 \<or> 2 ^ (k - 1) < unat ?v"
    by (rule next_power2_value)
  have small: "2 ^ q < unat ?v" if "q < k" "6 \<le> q" for q
  proof -
    have "(2 :: nat) ^ q \<le> 2 ^ (k - 1)" using that by (intro power_increasing) simp_all
    then show ?thesis using k(5) that by linarith
  qed
  have least: "6 \<le> q" if "(p, q) \<in> F" for p q using that tilingD(1)[OF R(3), of p q] R(4) by blast
  show ?thesis
  proof (cases "k \<le> n")
    case False
    have "(2 :: nat) ^ n < 2 ^ k" using False by (intro power_strict_increasing) simp_all
    then have "find_bucket (2 ^ k) ?tb 0 = None" by (intro find_too_large[OF R(6,1)])
    then have "buddy_alloc sz m = Inl buddy_full" by (simp add: buddy_alloc_def Let_def k(3))
    moreover have "2 ^ q < unat sz + header_size" if "(p, q) \<in> F" for p q
      using small[of q] least[OF that] tilingD(2)[OF R(3), of p q] R(4) that False unfolding v by auto
    ultimately show ?thesis by blast
  next
    case kn: True
    have "k = 6 \<or> (2 :: nat) ^ (k - 1) < 2 ^ k" using k(1) by simp
    then have f: "find_bucket (2 ^ k) ?tb 0 = Some (k - 6)" by (intro find_order[OF R(6) k(1) kn]) simp_all
    have cnt: "bkt_count (?tb ! (q - 6)) = card {a. (a, q) \<in> F}" if "6 \<le> q" "q \<le> n" for q
      using table_okD[OF R(6) that] by (metis distinct_card)
    have fin: "finite {a. (a, q) \<in> F}" if "6 \<le> q" "q \<le> n" for q
      using table_okD(5)[OF R(6) that] by (metis finite_set)
    have len: "length (drop (k - 6) ?tb) = n - k + 1" using R(1,6) k(1) kn by (simp add: table_ok_def)
    have nth: "drop (k - 6) ?tb ! j = ?tb ! (k + j - 6)" if "j < n - k + 1" for j
      using that k(1) len by (simp add: add.commute)
    show ?thesis
    proof (cases rule: first_nonempty_cases[of "drop (k - 6) ?tb" "k - 6"])
      case none
      have "buddy_alloc sz m = Inl buddy_full" using none(1) by (simp add: buddy_alloc_def Let_def k(3) f)
      moreover have "2 ^ q < unat sz + header_size" if x: "(p, q) \<in> F" for p q
      proof (cases "q < k")
        case True
        then show ?thesis using small least[OF x] unfolding v by simp
      next
        case False
        have q: "q \<le> n" using tilingD(2)[OF R(3), of p q] R(4) x by blast
        then have "q - k < length (drop (k - 6) ?tb)" using len False by simp
        then have "bkt_count (drop (k - 6) ?tb ! (q - k)) = 0" using none(2) by blast
        then have "bkt_count (?tb ! (q - 6)) = 0" using nth[of "q - k"] False q by simp
        then have "{a. (a, q) \<in> F} = {}" using cnt[of q] fin[of q] least[OF x] q by simp
        then show ?thesis using x by blast
      qed
      ultimately show ?thesis by blast
    next
      case (some d)
      have d: "d < n - k + 1" using some(2) len by simp
      then have kd: "k + d \<le> n" using kn by simp
      have ne: "bkt_count (?tb ! (k + d - 6)) \<noteq> 0" using some(3) nth[OF d] by simp
      have k6: "6 \<le> k + d" using k(1) by simp
      obtain a as where p: "bkt_ptr (?tb ! (k + d - 6)) = a # as"
        using ne table_okD(4)[OF R(6) k6 kd] by (cases "bkt_ptr (?tb ! (k + d - 6))") simp_all
      have gap: "\<forall>(p, q) \<in> F. \<not> (k \<le> q \<and> q < k + d)"
      proof clarify
        fix p q assume x: "(p, q) \<in> F" "k \<le> q" "q < k + d"
        then have "bkt_count (drop (k - 6) ?tb ! (q - k)) = 0" using some(4) by simp
        then have "bkt_count (?tb ! (q - 6)) = 0" using nth[of "q - k"] x d by simp
        then have "{a. (a, q) \<in> F} = {}" using cnt[of q] fin[of q] x k(1) kd by simp
        then show False using x by blast
      qed
      have c': "coalesced n (F - {(a, k + d)})" using c by (auto simp: coalesced_def)
      obtain T' F' m1 a' as' where s: "split_down d (k + d - 6) m = Inr m1" "buddy_rep n T' F' m1"
        "bkt_ptr (g_tw_buddy_master m1 ! (k - 6)) = a' # as'" "coalesced n (F' - {(a', k)})" "T' - F' = T - F" "bytes m1 = bytes m"
        using split_down_ok[OF r k(1) kd p c' gap] by blast
      obtain m' where m': "take_first (k - 6) m1 = Inr (a' + header_size, m')" "buddy_inv n T' (F' - {(a', k)}) m'" "bytes m' = bytes m1"
        using take_first_ok(1)[OF s(2) k(1) kn s(3,4)] by blast
      have aF: "(a', k) \<in> F'" by (rule take_first_ok(2)[OF s(2) k(1) kn s(3,4)])
      have "k - 6 + d = k + d - 6" "k + d - 6 - (k - 6) = d" using k(1) by simp_all
      then have "buddy_alloc sz m = Inr (a' + header_size, m')"
        using some(1) s(1) m'(1) by (simp del: diff_diff_left add: buddy_alloc_def Let_def k(3) f)
      moreover have "T' - (F' - {(a', k)}) = insert (a', k) (T - F)" "(a', k) \<notin> T - F"
        using s(5) aF buddy_repD(4)[OF s(2)] by blast+
      ultimately show ?thesis using m'(2,3) s(6) k(4,5) unfolding v by (intro disjI1 exI[of _ a'] exI[of _ k] exI[of _ T'] exI[of _ "F' - {(a', k)}"] exI[of _ m']) simp
    qed
  qed
qed

lemma create_ok:
  assumes "6 \<le> p" "p < 31"
  shows "\<exists>m. create_buddy_table p = Inr m \<and> buddy_inv p {(0, p)} {(0, p)} m"
proof -
  let ?bs = "map (\<lambda>i. \<lparr>bkt_ptr = [], bkt_count = 0, bkt_order = i + BUDDY_BLOCK_ORDER\<rparr>) [0..<p - BUDDY_BLOCK_ORDER + 1]"
  let ?h = "\<lparr>blk_size = 2 ^ p - header_size, blk_use = FREE\<rparr>"
  let ?m = "\<lparr>arena = 2 ^ p, hdr = (\<lambda>_. no_header)(0 := ?h), bytes = (\<lambda>_. 0),
      g_tw_buddy_master = ?bs[p - 6 := bucket_insert 0 (?bs ! (p - 6))]\<rparr>"
  have "(2 :: nat) ^ 6 \<le> 2 ^ p" using assms by (intro power_increasing) simp_all
  then have h: "header_size \<le> 2 ^ p" by (simp add: header_size_def)
  have "table_ok p {} ?bs" using assms by (auto simp: table_ok_def bucket_ok_def BUDDY_BLOCK_ORDER_def nth_append)
  then have "table_ok p {(0, p)} (?bs[p - 6 := bucket_insert 0 (?bs ! (p - 6))])" using assms(1) by (intro table_insert) simp_all
  then have "buddy_inv p {(0, p)} {(0, p)} ?m"
    using assms(1) by (auto simp: buddy_inv_def buddy_rep_def tiling_def headers_ok_def coalesced_def)
  moreover have "create_buddy_table p = Inr ?m"
    using assms h by (simp add: create_buddy_table_def Let_def write_hdr_def upd_bucket_def BUDDY_BLOCK_ORDER_def)
  ultimately show ?thesis by blast
qed

end
