(* ===== verification/Buddy_Free.thy ===== *)
theory Buddy_Free
  imports Buddy_Alloc
begin

text \<open>Freeing a block merges it with its buddy as long as that is free.\<close>

section \<open>Blocks inside each other\<close>

lemma coalesced_mono: "coalesced n F \<Longrightarrow> F' \<subseteq> F \<Longrightarrow> coalesced n F'"
  by (auto simp: coalesced_def)

lemma aligned_nested:
  assumes "2 ^ q dvd p" "2 ^ k dvd a" "k \<le> q" "blk (p, q) \<inter> blk (a, k) \<noteq> {}"
  shows "blk (a, k) \<subseteq> blk (p, q)"
proof -
  obtain r where "r \<in> blk (p, q)" "r \<in> blk (a, k)" using assms(4) by blast
  then have r: "p \<le> r" "r < p + 2 ^ q" "a \<le> r" "r < a + 2 ^ k" by simp_all
  have d: "(2 :: nat) ^ k dvd 2 ^ q" by (rule le_imp_power_dvd[OF assms(3)])
  then have dp: "2 ^ k dvd p" using assms(1) by (rule dvd_trans)
  have "a \<le> r div 2 ^ k * 2 ^ k" "r div 2 ^ k * 2 ^ k + 2 ^ k \<le> a + 2 ^ k"
    by (rule aligned_sub[OF assms(2) dvd_refl r(3,4)])+
  then have "r div 2 ^ k * 2 ^ k = a" by linarith
  then have "p \<le> a" "a + 2 ^ k \<le> p + 2 ^ q" using aligned_sub[OF dp d r(1,2)] by simp_all
  then show ?thesis by auto
qed

lemma whole_arena:
  assumes "tiling n T" "(a, k) \<in> T" "u \<in> T" "u \<noteq> (a, k)"
  shows "k < n"
proof (rule ccontr)
  assume "\<not> k < n"
  note t = tilingD[OF assms(1,2)]
  have k: "k = n" "a = 0" using t \<open>\<not> k < n\<close> by simp_all
  obtain c j where u: "u = (c, j)" by (cases u)
  note tu = tilingD[OF assms(1) assms(3)[unfolded u]]
  have "c \<in> blk (a, k)" using k below_end[OF tu(4)] by simp
  moreover have "c \<in> blk u" using tu(5) u by simp
  ultimately show False using tiling_same[OF assms(1-3)] assms(4) by blast
qed

text \<open>What begins where the buddy is, seen through its header.\<close>

lemma buddy_header:
  assumes r: "buddy_rep n T F m" and x: "(a, k) \<in> T" and k: "k < n"
  obtains h where "read_hdr (buddy_of a k) m = Inr h"
    "blk_use h = FREE \<and> blk_size h = 2 ^ k - header_size \<longleftrightarrow> (buddy_of a k, k) \<in> F"
proof -
  note R = buddy_repD[OF r]
  obtain j where j: "j \<le> k" "(buddy_of a k, j) \<in> T" by (rule buddy_block[OF R(3) x k])
  note h = headers_okD[OF R(5) j(2)]
  have "read_hdr (buddy_of a k) m = Inr (hdr m (buddy_of a k))"
    using block_header_fits(1)[OF R(3) j(2)] R(2) by (simp add: read_hdr_def)
  moreover have "blk_use (hdr m (buddy_of a k)) = FREE \<and> blk_size (hdr m (buddy_of a k)) = 2 ^ k - header_size \<longleftrightarrow> (buddy_of a k, k) \<in> F"
  proof
    assume e: "blk_use (hdr m (buddy_of a k)) = FREE \<and> blk_size (hdr m (buddy_of a k)) = 2 ^ k - header_size"
    then have "(2 :: nat) ^ j - header_size = 2 ^ k - header_size" by (simp add: h)
    then have "(2 :: nat) ^ j = 2 ^ k"
      using block_header_fits(3)[OF R(3) j(2)] block_header_fits(3)[OF R(3) x] by linarith
    then have "j = k" by simp
    then show "(buddy_of a k, k) \<in> F" using e by (simp add: h split: if_splits)
  next
    assume f: "(buddy_of a k, k) \<in> F"
    then have "k = j" using offset_unique[OF R(3) _ j(2)] R(4) by blast
    then show "blk_use (hdr m (buddy_of a k)) = FREE \<and> blk_size (hdr m (buddy_of a k)) = 2 ^ k - header_size"
      unfolding h using f by simp
  qed
  ultimately show ?thesis by (rule that)
qed

section \<open>One merge\<close>

text \<open>The data of the blocks in use.\<close>

definition same_data :: "(nat \<times> nat) set \<Rightarrow> buddy_system \<Rightarrow> buddy_system \<Rightarrow> bool" where
  "same_data U m m' \<longleftrightarrow> (\<forall>x \<in> U. \<forall>p \<in> blk x. bytes m' p = bytes m p)"

lemma merge_step:
  assumes r: "buddy_rep n T F m" and x: "(a, k) \<in> T" "mc > 0 \<longleftrightarrow> (a, k) \<in> F" and k: "k < n" and b: "(buddy_of a k, k) \<in> F"
  defines "s \<equiv> min a (buddy_of a k)" and "R \<equiv> T - {(a, k), (buddy_of a k, k)}"
  shows "\<exists>m'. try_merge (Suc fuel) a mc m = try_merge fuel s (mc + 1) m' \<and>
      buddy_rep n (insert (s, k + 1) R) (insert (s, k + 1) (F - {(a, k), (buddy_of a k, k)})) m' \<and>
      same_data R m m' \<and> bkt_count (g_tw_buddy_master m' ! (k - 6)) < bkt_count (g_tw_buddy_master m ! (k - 6)) \<and>
      (\<forall>q. 6 \<le> q \<longrightarrow> q < k \<longrightarrow> g_tw_buddy_master m' ! (q - 6) = g_tw_buddy_master m ! (q - 6))" "(s, k + 1) \<notin> T"
proof -
  let ?b = "buddy_of a k" and ?tb = "g_tw_buddy_master m"
  note B = buddy_repD[OF r] and tx = tilingD[OF buddy_repD(3)[OF r] x(1)]
  note bp = buddy_of_props[OF tx(3)]
  have bT: "(?b, k) \<in> T" using b B(4) by blast
  have ab: "{(a, k), (?b, k)} = {(s, k), (s + 2 ^ k, k)}" using bp(4,5) unfolding s_def by (auto simp: min_def max_def split: if_splits)
  have T: "T = insert (s, k) (insert (s + 2 ^ k, k) R)"
  proof -
    have "T = {(a, k), (?b, k)} \<union> R" using x(1) bT unfolding R_def by blast
    then show ?thesis unfolding ab by blast
  qed
  have nR: "(s, k) \<notin> R" "(s + 2 ^ k, k) \<notin> R" unfolding R_def ab by blast+
  have "2 ^ (k + 1) dvd s" unfolding s_def bp(2) by simp
  note mg = tiling_merge[OF B(3)[unfolded T] this nR k]
  show nT: "(s, k + 1) \<notin> T" using mg(2) unfolding T by simp
  let ?F = "F - {(a, k), (?b, k)}" and ?F' = "insert (s, k + 1) (F - {(a, k), (?b, k)})" and ?T' = "insert (s, k + 1) R"
  have k6: "6 \<le> k" "k \<le> n" "6 \<le> k + 1" "k + 1 \<le> n" using tx(1) k by simp_all
  define tb1 where "tb1 = (if mc > 0 then ?tb[k - 6 := bucket_remove a (?tb ! (k - 6))] else ?tb)"
  define tb2 where "tb2 = tb1[k - 6 := bucket_remove ?b (tb1 ! (k - 6))]"
  define tb3 where "tb3 = tb2[k - 6 + 1 := bucket_insert s (tb2 ! (k - 6 + 1))]"
  have o1: "table_ok n (F - {(a, k)}) tb1"
    using table_remove[OF B(6) k6(1,2), of a] x(2) B(6) unfolding tb1_def by (cases "mc > 0") simp_all
  have b1: "(?b, k) \<in> F - {(a, k)}" using b bp(4) by simp
  have fs: "F - {(a, k)} - {(?b, k)} = ?F" by blast
  have o2: "table_ok n ?F tb2" using table_remove[OF o1 k6(1,2) b1] unfolding tb2_def fs .
  have sF: "(s, k + 1) \<notin> ?F" using nT B(4) by blast
  have o3: "table_ok n ?F' tb3"
  proof -
    have "k + 1 - 6 = k - 6 + 1" using k6(1) by simp
    then show ?thesis using table_insert[OF o2 k6(3,4) sF] unfolding tb3_def by (simp only:)
  qed
  note t0 = table_okD[OF B(6) k6(1,2)] and t1 = table_okD[OF o1 k6(1,2)] and t2 = table_okD[OF o2 k6(1,2)]
  have c1: "bkt_count (tb1 ! (k - 6)) \<noteq> 0" using t1(4,5) b1 by (metis (mono_tags, lifting) length_0_conv mem_Collect_eq not_in_set_insert list.set(1) empty_iff)
  have count: "bkt_count (tb3 ! (k - 6)) < bkt_count (?tb ! (k - 6))"
  proof -
    have "tb3 ! (k - 6) = bucket_remove ?b (tb1 ! (k - 6))"
      using t1(1) by (simp add: tb3_def tb2_def)
    then have "bkt_count (tb3 ! (k - 6)) < bkt_count (tb1 ! (k - 6))" using c1 by (simp add: bucket_remove_def)
    also have "\<dots> \<le> bkt_count (?tb ! (k - 6))" using t0(1) by (simp add: tb1_def bucket_remove_def)
    finally show ?thesis .
  qed
  have low: "tb3 ! (q - 6) = ?tb ! (q - 6)" if "6 \<le> q" "q < k" for q
    using that by (simp add: tb3_def tb2_def tb1_def)
  have len: "length tb2 = length ?tb" "\<not> k - 6 + 1 \<ge> length ?tb"
    using B(6) k6 by (simp_all add: tb2_def tb1_def table_ok_def)
  let ?h = "\<lparr>blk_size = 2 * 2 ^ k - header_size, blk_use = FREE\<rparr>"
  let ?in = "\<lambda>p. s + header_size \<le> p \<and> p < s + header_size + (2 * 2 ^ k - header_size)"
  define m' where "m' = m\<lparr>g_tw_buddy_master := tb3, hdr := (\<lambda>p. if ?in p then no_header else ((hdr m)(s := ?h)) p),
      bytes := (\<lambda>p. if ?in p then 0 else bytes m p)\<rparr>"
  note fits = block_header_fits[OF mg(1), of s "k + 1"]
  have e: "s + header_size \<le> 2 ^ n" "s + header_size + (2 * 2 ^ k - header_size) \<le> 2 ^ n" "header_size \<le> 2 * 2 ^ k"
    using fits by simp_all
  have run: "try_merge (Suc fuel) a mc m = try_merge fuel s (mc + 1) m'"
  proof -
    obtain h where h: "read_hdr ?b m = Inr h" "blk_use h = FREE \<and> blk_size h = 2 ^ k - header_size"
      using buddy_header[OF r x(1) k] b by metis
    have ra: "read_hdr a m = Inr (hdr m a)" using block_header_fits(1)[OF B(3) x(1)] B(2) by (simp add: read_hdr_def)
    have ha: "blk_size (hdr m a) = 2 ^ k - header_size" using headers_okD[OF B(5) x(1)] by simp
    note f = find_own_bucket[OF r x(1)]
    let ?m1 = "if mc > 0 then upd_bucket (k - 6) (bucket_remove a) m else m"
    have m1: "?m1 = m\<lparr>g_tw_buddy_master := tb1\<rparr>" by (simp add: upd_bucket_def tb1_def)
    have len1: "length tb1 = length ?tb" by (simp add: tb1_def)
    have m2: "upd_bucket (k - 6) (bucket_remove ?b) (m\<lparr>g_tw_buddy_master := tb1\<rparr>) = m\<lparr>g_tw_buddy_master := tb2\<rparr>"
      by (simp add: upd_bucket_def tb2_def)
    have m3: "upd_bucket (k - 6 + 1) (bucket_insert s) (m\<lparr>g_tw_buddy_master := tb2, hdr := g\<rparr>) = m\<lparr>g_tw_buddy_master := tb3, hdr := g\<rparr>" for g
      by (simp add: upd_bucket_def tb3_def)
    have w: "write_hdr s ?h (m\<lparr>g_tw_buddy_master := tb2\<rparr>) = Inr (m\<lparr>g_tw_buddy_master := tb2, hdr := (hdr m)(s := ?h)\<rparr>)"
      using e(1) B(2) by (simp add: write_hdr_def)
    have cl: "clear_block s (2 * 2 ^ k - header_size) (m\<lparr>g_tw_buddy_master := tb3, hdr := (hdr m)(s := ?h)\<rparr>) = Inr m'"
      using e(2) B(2) by (simp add: clear_block_def m'_def cong: if_cong)
    have c1': "bkt_count (g_tw_buddy_master (m\<lparr>g_tw_buddy_master := tb1\<rparr>) ! (k - 6)) \<noteq> 0" using c1 by simp
    have l1': "\<not> k - 6 + 1 \<ge> length (g_tw_buddy_master (m\<lparr>g_tw_buddy_master := tb1\<rparr>))" using len len1 by simp
    show ?thesis
      unfolding try_merge.simps ra ebind.simps Let_def ha f(2) f(1)[unfolded f(2)] option.case buddy_of_xor h(1) if_P[OF h(2)] m1 if_not_P[OF c1'] if_not_P[OF l1']
        m2 s_def[symmetric] w m3 cl by (rule refl)
  qed
  have hdrs: "headers_ok ?T' ?F' (hdr m')"
    unfolding headers_ok_def
  proof clarify
    fix c j assume y: "(c, j) \<in> ?T'"
    show "hdr m' c = \<lparr>blk_size = 2 ^ j - header_size, blk_use = (if (c, j) \<in> ?F' then FREE else USED)\<rparr>"
    proof (cases "(c, j) = (s, k + 1)")
      case True
      then show ?thesis by (simp add: m'_def header_size_def)
    next
      case False
      then have cT: "(c, j) \<in> R" using y by blast
      have ne: "c \<notin> blk (s, k + 1)"
        using tiling_same[OF mg(1), of "(c, j)" "(s, k + 1)" c] False y tilingD(5)[OF mg(1) y] by blast
      have "c \<noteq> s" "\<not> ?in c" using ne e(3) by auto
      then have "hdr m' c = hdr m c" by (auto simp: m'_def)
      moreover have "(c, j) \<in> ?F' \<longleftrightarrow> (c, j) \<in> F" using False cT unfolding R_def by auto
      ultimately show ?thesis using headers_okD[OF B(5), of c j] cT by (simp add: R_def)
    qed
  qed
  have data: "same_data R m m'"
    unfolding same_data_def
  proof (intro ballI)
    fix y p assume y: "y \<in> R" "p \<in> blk y"
    have "y \<noteq> (s, k + 1)" using y(1) mg(2) by metis
    then have "p \<notin> blk (s, k + 1)" using tiling_same[OF mg(1), of y "(s, k + 1)" p] y by blast
    then have "\<not> ?in p" using e(3) by auto
    then show "bytes m' p = bytes m p" by (auto simp: m'_def)
  qed
  have sub: "?F' \<subseteq> ?T'" using B(4) unfolding R_def by blast
  have "buddy_rep n ?T' ?F' m'"
    unfolding buddy_rep_def using B(1,2) mg(1) hdrs o3 sub by (simp add: m'_def)
  then show "\<exists>m'. try_merge (Suc fuel) a mc m = try_merge fuel s (mc + 1) m' \<and> buddy_rep n ?T' ?F' m' \<and> same_data R m m' \<and>
      bkt_count (g_tw_buddy_master m' ! (k - 6)) < bkt_count (?tb ! (k - 6)) \<and>
      (\<forall>q. 6 \<le> q \<longrightarrow> q < k \<longrightarrow> g_tw_buddy_master m' ! (q - 6) = ?tb ! (q - 6))"
    using run data count low by (intro exI[of _ m']) (simp add: m'_def)
qed

section \<open>Merging as far as possible\<close>

lemma no_merge:
  assumes r: "buddy_rep n T F m" and x: "(a, k) \<in> T" and k: "k < n" and b: "(buddy_of a k, k) \<notin> F"
    and c: "coalesced n (F - {(a, k)})"
  shows "try_merge (Suc fuel) a mc m = Inr (mc, m)" "coalesced n (insert (a, k) F)"
proof -
  note B = buddy_repD[OF r] and bp = buddy_of_props[OF tilingD(3)[OF buddy_repD(3)[OF r] x]]
  obtain h where h: "read_hdr (buddy_of a k) m = Inr h" "\<not> (blk_use h = FREE \<and> blk_size h = 2 ^ k - header_size)"
    using buddy_header[OF r x k] b by metis
  have ra: "read_hdr a m = Inr (hdr m a)" using block_header_fits(1)[OF B(3) x] B(2) by (simp add: read_hdr_def)
  have ha: "blk_size (hdr m a) = 2 ^ k - header_size" using headers_okD[OF B(5) x] by simp
  note f = find_own_bucket[OF r x]
  show "try_merge (Suc fuel) a mc m = Inr (mc, m)"
    unfolding try_merge.simps ra ebind.simps Let_def ha f(2) f(1)[unfolded f(2)] option.case buddy_of_xor h(1) if_not_P[OF h(2)] by (rule refl)
  show "coalesced n (insert (a, k) F)"
    unfolding coalesced_def
  proof clarify
    fix p q assume y: "(p, q) \<in> insert (a, k) F" "q < n" "(buddy_of p q, q) \<in> insert (a, k) F"
    have "(p, q) \<in> T" using y(1) x B(4) by blast
    then have pp: "buddy_of (buddy_of p q) q = p" using buddy_of_props(3) tilingD(3)[OF B(3)] by blast
    show False
    proof (cases "(p, q) = (a, k) \<or> (buddy_of p q, q) = (a, k)")
      case True
      then show False using y b bp(4) pp by auto
    next
      case False
      then show False using y c by (auto simp: coalesced_def)
    qed
  qed
qed

text \<open>The loop stopped at once, or after at least one merge.\<close>

definition merge_result :: "nat \<Rightarrow> (nat \<times> nat) set \<Rightarrow> (nat \<times> nat) set \<Rightarrow> nat \<Rightarrow> nat \<Rightarrow> nat \<Rightarrow> buddy_system
    \<Rightarrow> (nat \<times> nat) set \<Rightarrow> (nat \<times> nat) set \<Rightarrow> nat \<Rightarrow> buddy_system \<Rightarrow> bool" where
  "merge_result n T F a k mc m T' F' mc' m' \<longleftrightarrow>
    (mc' = mc \<and> m' = m \<and> T' = T \<and> F' = F \<and> coalesced n (insert (a, k) F) \<or>
     mc' > mc \<and> coalesced n F' \<and> T' - F' = T - F - {(a, k)} \<and> same_data (T' - F') m m' \<and>
       bkt_count (g_tw_buddy_master m' ! (k - 6)) < bkt_count (g_tw_buddy_master m ! (k - 6))) \<and>
    (\<forall>q. 6 \<le> q \<longrightarrow> q < k \<longrightarrow> g_tw_buddy_master m' ! (q - 6) = g_tw_buddy_master m ! (q - 6))"

lemma try_merge_ok:
  assumes "buddy_rep n T F m" "(a, k) \<in> T" "mc > 0 \<longleftrightarrow> (a, k) \<in> F" "coalesced n (F - {(a, k)})" "u \<in> T - F" "u \<noteq> (a, k)" "n - k < fuel"
  shows "\<exists>T' F' m' mc'. try_merge fuel a mc m = Inr (mc', m') \<and> buddy_rep n T' F' m' \<and> merge_result n T F a k mc m T' F' mc' m'"
  using assms
proof (induction fuel arbitrary: T F m a k mc)
  case (Suc fuel)
  note r = Suc.prems(1) and x = Suc.prems(2)
  note B = buddy_repD[OF r]
  have k: "k < n" using whole_arena[OF B(3) x, of u] Suc.prems(5,6) by blast
  let ?b = "buddy_of a k"
  show ?case
  proof (cases "(?b, k) \<in> F")
    case False
    then show ?thesis using no_merge[OF r x k False Suc.prems(4)] r
      by (intro exI[of _ T] exI[of _ F] exI[of _ m] exI[of _ mc]) (simp add: merge_result_def)
  next
    case True
    define s where "s = min a ?b"
    let ?T = "insert (s, k + 1) (T - {(a, k), (?b, k)})" and ?F = "insert (s, k + 1) (F - {(a, k), (?b, k)})"
    note ms = merge_step[OF r x Suc.prems(3) k True, folded s_def]
    obtain m1 where m1: "try_merge (Suc fuel) a mc m = try_merge fuel s (mc + 1) m1" "buddy_rep n ?T ?F m1"
      "same_data (T - {(a, k), (?b, k)}) m m1" "bkt_count (g_tw_buddy_master m1 ! (k - 6)) < bkt_count (g_tw_buddy_master m ! (k - 6))"
      "\<forall>q. 6 \<le> q \<longrightarrow> q < k \<longrightarrow> g_tw_buddy_master m1 ! (q - 6) = g_tw_buddy_master m ! (q - 6)"
      using ms(1)[of fuel] by blast
    have nT: "(s, k + 1) \<notin> T" by (rule ms(2))
    have c: "coalesced n (?F - {(s, k + 1)})" by (rule coalesced_mono[OF Suc.prems(4)]) auto
    have u: "u \<in> ?T - ?F" "u \<noteq> (s, k + 1)" using Suc.prems(5,6) True nT by blast+
    have uu: "?T - ?F = T - F - {(a, k)}" using nT True by blast
    have e: "mc + 1 > 0 \<longleftrightarrow> (s, k + 1) \<in> ?F" by simp
    have f: "n - (k + 1) < fuel" using Suc.prems(7) k by linarith
    have k6: "6 \<le> k" by (rule tilingD(1)[OF B(3) x])
    have "\<exists>T' F' m' mc'. try_merge fuel s (mc + 1) m1 = Inr (mc', m') \<and> buddy_rep n T' F' m' \<and>
        merge_result n ?T ?F s (k + 1) (mc + 1) m1 T' F' mc' m'"
      by (rule Suc.IH[OF m1(2) insertI1 e c u f])
    then obtain T' F' m' mc' where o12: "try_merge fuel s (mc + 1) m1 = Inr (mc', m')" "buddy_rep n T' F' m'"
      "merge_result n ?T ?F s (k + 1) (mc + 1) m1 T' F' mc' m'"
      by (elim exE conjE) (rule that)
    have o: "mc' = mc + 1 \<and> m' = m1 \<and> T' = ?T \<and> F' = ?F \<and> coalesced n (insert (s, k + 1) ?F) \<or>
       mc' > mc + 1 \<and> coalesced n F' \<and> T' - F' = ?T - ?F - {(s, k + 1)} \<and> same_data (T' - F') m1 m' \<and>
         bkt_count (g_tw_buddy_master m' ! (k + 1 - 6)) < bkt_count (g_tw_buddy_master m1 ! (k + 1 - 6))"
      "\<forall>q. 6 \<le> q \<longrightarrow> q < k + 1 \<longrightarrow> g_tw_buddy_master m' ! (q - 6) = g_tw_buddy_master m1 ! (q - 6)"
      using o12(3) unfolding merge_result_def by (rule conjunct1, rule conjunct2)
    have id: "same_data U m1 m1" for U by (simp add: same_data_def)
    have tw: "insert (s, k + 1) ?F = ?F" by (rule insert_absorb) (rule insertI1)
    have un: "T - F - {(a, k)} - {(s, k + 1)} = T - F - {(a, k)}" using nT by blast
    have res: "mc' > mc \<and> coalesced n F' \<and> T' - F' = T - F - {(a, k)} \<and> same_data (T' - F') m1 m'"
      using o(1)
    proof (elim disjE conjE)
      assume q: "mc' = mc + 1" "m' = m1" "T' = ?T" "F' = ?F" "coalesced n (insert (s, k + 1) ?F)"
      show ?thesis unfolding q(2,3,4) uu using q(1,5) id unfolding tw by simp
    next
      assume q: "mc' > mc + 1" "coalesced n F'" "T' - F' = ?T - ?F - {(s, k + 1)}" "same_data (T' - F') m1 m'"
      show ?thesis using q(1,2,3,4) unfolding uu un by simp
    qed
    note res = res[THEN conjunct1] res[THEN conjunct2, THEN conjunct1] res[THEN conjunct2, THEN conjunct2, THEN conjunct1]
      res[THEN conjunct2, THEN conjunct2, THEN conjunct2]
    have sub: "T' - F' \<subseteq> T - {(a, k), (?b, k)}" using res(3) True by blast
    then have "same_data (T' - F') m m'" using res(4) m1(3) unfolding same_data_def by (metis subsetD)
    moreover have "bkt_count (g_tw_buddy_master m' ! (k - 6)) < bkt_count (g_tw_buddy_master m ! (k - 6))"
      using o(2) k6 m1(4) by simp
    moreover have "\<forall>q. 6 \<le> q \<longrightarrow> q < k \<longrightarrow> g_tw_buddy_master m' ! (q - 6) = g_tw_buddy_master m ! (q - 6)"
      using o(2) m1(5) by simp
    ultimately have "merge_result n T F a k mc m T' F' mc' m'"
      unfolding merge_result_def using res(1-3) by blast
    then show ?thesis using m1(1) o12(1,2) by (intro exI[of _ T'] exI[of _ F'] exI[of _ m'] exI[of _ mc']) simp
  qed
qed simp

text \<open>Where nothing else is in use, the merges go up to the whole arena, whose buddy lies behind its end.\<close>

lemma rest_is_buddy:
  assumes r: "buddy_rep n T F m" and x: "(a, k) \<in> T" and k: "k < n" and c: "coalesced n (F - {(a, k)})" and all: "T - F \<subseteq> {(a, k)}"
  shows "(buddy_of a k, k) \<in> F"
proof -
  let ?b = "buddy_of a k"
  note B = buddy_repD[OF r] and tx = tilingD[OF buddy_repD(3)[OF r] x]
  note bp = buddy_of_props[OF tx(3)]
  obtain j where j: "j \<le> k" "(?b, j) \<in> T" "?b + 2 ^ k \<le> 2 ^ n" by (rule buddy_block[OF B(3) x k])
  have dis: "blk (a, k) \<inter> blk (?b, k) = {}" using bp(5) by (auto simp: min_def max_def split: if_splits)
  have "(?b, k) \<in> T"
  proof (rule free_region[OF B(3) bp(1) j(3) tx(2) _ c])
    fix y assume y: "y \<in> T" "blk y \<inter> blk (?b, k) \<noteq> {}"
    obtain p q where pq: "y = (p, q)" by (cases y)
    have "y \<noteq> (a, k)" using y(2) dis by blast
    moreover have "q \<le> k"
    proof (rule ccontr)
      assume q: "\<not> q \<le> k"
      then have "blk (?b, k) \<subseteq> blk y"
        using y aligned_nested[OF tilingD(3)[OF B(3), of p q] bp(1)] unfolding pq by simp
      then have "?b \<in> blk y" using below_end[of ?b k "?b + 2 ^ k"] by auto
      then have "y = (?b, j)" using tiling_same[OF B(3) y(1) j(2)] tilingD(5)[OF B(3) j(2)] by blast
      then show False using q j(1) pq by simp
    qed
    ultimately show "y \<in> F - {(a, k)} \<and> snd y \<le> k" using y(1) all pq by auto
  qed
  moreover have "(?b, k) \<noteq> (a, k)" using bp(4) by simp
  ultimately show ?thesis using all by blast
qed

lemma try_merge_top:
  assumes "buddy_rep n T F m" "(a, k) \<in> T" "mc > 0 \<longleftrightarrow> (a, k) \<in> F" "coalesced n (F - {(a, k)})" "T - F \<subseteq> {(a, k)}" "n - k < fuel"
  shows "try_merge fuel a mc m = Inl Bad_Pointer"
  using assms
proof (induction fuel arbitrary: T F m a k mc)
  case (Suc fuel)
  note r = Suc.prems(1) and x = Suc.prems(2)
  note B = buddy_repD[OF r] and tx = tilingD[OF buddy_repD(3)[OF r] x]
  show ?case
  proof (cases "k = n")
    case True
    then have a: "a = 0" using tx(4) by simp
    have ra: "read_hdr a m = Inr (hdr m a)" using block_header_fits(1)[OF B(3) x] B(2) by (simp add: read_hdr_def)
    have ha: "blk_size (hdr m a) = 2 ^ k - header_size" using headers_okD[OF B(5) x] by simp
    note f = find_own_bucket[OF r x]
    have "buddy_of a k = 2 ^ n" using a True by (simp add: buddy_of_def)
    then have h: "read_hdr (buddy_of a k) m = Inl Bad_Pointer" using B(2) by (simp add: read_hdr_def header_size_def)
    show ?thesis
      unfolding try_merge.simps ra ebind.simps Let_def ha f(2) f(1)[unfolded f(2)] option.case buddy_of_xor h by (rule refl)
  next
    case False
    then have k: "k < n" using tx(2) by simp
    have b: "(buddy_of a k, k) \<in> F" by (rule rest_is_buddy[OF r x k Suc.prems(4,5)])
    define s where "s = min a (buddy_of a k)"
    let ?T = "insert (s, k + 1) (T - {(a, k), (buddy_of a k, k)})" and ?F = "insert (s, k + 1) (F - {(a, k), (buddy_of a k, k)})"
    obtain m1 where m1: "try_merge (Suc fuel) a mc m = try_merge fuel s (mc + 1) m1" "buddy_rep n ?T ?F m1"
      using merge_step(1)[OF r x Suc.prems(3) k b, of fuel, folded s_def] by blast
    have c: "coalesced n (?F - {(s, k + 1)})" by (rule coalesced_mono[OF Suc.prems(4)]) auto
    have f: "n - (k + 1) < fuel" using Suc.prems(6) k by linarith
    have all: "?T - ?F \<subseteq> {(s, k + 1)}" using Suc.prems(5) by blast
    have "try_merge fuel s (mc + 1) m1 = Inl Bad_Pointer" by (rule Suc.IH[OF m1(2) insertI1 _ c all f]) simp
    then show ?thesis using m1(1) by simp
  qed
qed simp

end
