(* ===== verification/Buddy_Props.thy ===== *)
theory Buddy_Props
  imports Buddy_Free
begin

text \<open>The properties of the buddy allocator.\<close>

section \<open>Freeing\<close>

lemma put_free_ok:
  assumes r: "buddy_rep n T F m" and x: "(a, k) \<in> T - F" and c: "coalesced n (insert (a, k) F)"
  shows "\<exists>m'. put_free (k - 6) a (2 ^ k) m = Inr m' \<and> buddy_inv n T (insert (a, k) F) m' \<and> same_data (T - F - {(a, k)}) m m'"
proof -
  note B = buddy_repD[OF r]
  have xT: "(a, k) \<in> T" "(a, k) \<notin> F" using x by simp_all
  note fits = block_header_fits[OF B(3) xT(1)] and tx = tilingD[OF B(3) xT(1)]
  let ?h = "\<lparr>blk_size = 2 ^ k - header_size, blk_use = FREE\<rparr>"
  let ?in = "\<lambda>p. a + header_size \<le> p \<and> p < a + header_size + (2 ^ k - header_size)"
  define tb where "tb = (g_tw_buddy_master m)[k - 6 := bucket_insert a (g_tw_buddy_master m ! (k - 6))]"
  define m' where "m' = m\<lparr>g_tw_buddy_master := tb, hdr := (\<lambda>p. if ?in p then no_header else ((hdr m)(a := ?h)) p),
      bytes := (\<lambda>p. if ?in p then 0 else bytes m p)\<rparr>"
  have run: "put_free (k - 6) a (2 ^ k) m = Inr m'"
    using fits B(2) by (simp add: put_free_def write_hdr_def clear_block_def upd_bucket_def m'_def tb_def cong: if_cong)
  have tab: "table_ok n (insert (a, k) F) tb" unfolding tb_def by (rule table_insert[OF B(6) tx(1,2) xT(2)])
  have out: "p \<notin> blk (a, k)" if "y \<in> T" "y \<noteq> (a, k)" "p \<in> blk y" for y p
    using tiling_same[OF B(3) that(1) xT(1) that(3)] that(2) by blast
  have "headers_ok T (insert (a, k) F) (hdr m')"
    unfolding headers_ok_def
  proof clarify
    fix c j assume y: "(c, j) \<in> T"
    show "hdr m' c = \<lparr>blk_size = 2 ^ j - header_size, blk_use = (if (c, j) \<in> insert (a, k) F then FREE else USED)\<rparr>"
    proof (cases "(c, j) = (a, k)")
      case True
      then show ?thesis by (simp add: m'_def header_size_def)
    next
      case False
      then have "c \<notin> blk (a, k)" using out[OF y] tilingD(5)[OF B(3) y] by blast
      then have "c \<noteq> a" "\<not> ?in c" using fits(3) by auto
      then have "hdr m' c = hdr m c" by (auto simp: m'_def)
      then show ?thesis using headers_okD[OF B(5) y] False by simp
    qed
  qed
  then have "buddy_inv n T (insert (a, k) F) m'"
    using B(1-4) xT(1) tab c by (simp add: buddy_inv_def buddy_rep_def m'_def)
  moreover have "same_data (T - F - {(a, k)}) m m'"
    unfolding same_data_def
  proof (intro ballI)
    fix y p assume y: "y \<in> T - F - {(a, k)}" "p \<in> blk y"
    then have "p \<notin> blk (a, k)" using out by blast
    then have "\<not> ?in p" using fits(3) by auto
    then show "bytes m' p = bytes m p" by (auto simp: m'_def)
  qed
  ultimately show ?thesis using run by blast
qed

text \<open>The first steps of \<open>buddy_free\<close> for a block in use.\<close>

lemma free_start:
  assumes r: "buddy_rep n T F m" and x: "(a, k) \<in> T - F"
  shows "buddy_free (a + header_size) m =
    (let b = g_tw_buddy_master m ! (k - 6) in
     if bkt_count b = 0 then put_free (k - 6) a (2 ^ k) m
     else ebind (buddy_try_merge a m) (\<lambda>(merged, m').
       if merged > 0 then
         (if bkt_count b > bkt_count (g_tw_buddy_master m' ! (k - 6)) then Inr m'
          else Inl (Assertion ''initial_count > blbt->count''))
       else put_free (k - 6) a (2 ^ k) m'))"
proof -
  note B = buddy_repD[OF r]
  have xT: "(a, k) \<in> T" "(a, k) \<notin> F" using x by simp_all
  have "read_hdr a m = Inr \<lparr>blk_size = 2 ^ k - header_size, blk_use = USED\<rparr>"
    using block_header_fits(1)[OF B(3) xT(1)] B(2) headers_okD[OF B(5) xT(1)] xT(2) by (simp add: read_hdr_def)
  then have h: "read_hdr a m = Inr \<lparr>blk_size = 2 ^ k - header_size, blk_use = USED\<rparr>" .
  note f = find_own_bucket[OF r xT(1)]
  have p: "\<not> a + header_size < header_size" "a + header_size - header_size = a" by simp_all
  show ?thesis
    unfolding buddy_free_def if_not_P[OF p(1)] p(2) Let_def h ebind.simps buddy_list.simps f(2) f(1)[unfolded f(2)] option.case by simp
qed

lemma free_ok:
  assumes i: "buddy_inv n T F m" and x: "(a, k) \<in> T - F" and o: "k = n \<or> T - F \<noteq> {(a, k)}"
  shows "\<exists>T' F' m'. buddy_free (a + header_size) m = Inr m' \<and> buddy_inv n T' F' m' \<and> T' - F' = T - F - {(a, k)} \<and> same_data (T' - F') m m'"
proof -
  have r: "buddy_rep n T F m" and c: "coalesced n F" using i by (simp_all add: buddy_inv_def)
  note B = buddy_repD[OF r]
  have xT: "(a, k) \<in> T" "(a, k) \<notin> F" using x by simp_all
  note tx = tilingD[OF B(3) xT(1)]
  note tab = table_okD[OF B(6) tx(1,2)]
  have put: "\<exists>T' F' m'. put_free (k - 6) a (2 ^ k) m = Inr m' \<and> buddy_inv n T' F' m' \<and> T' - F' = T - F - {(a, k)} \<and> same_data (T' - F') m m'"
    if cc: "coalesced n (insert (a, k) F)"
  proof -
    have "T - insert (a, k) F = T - F - {(a, k)}" by blast
    then show ?thesis using put_free_ok[OF r x cc] by metis
  qed
  show ?thesis
  proof (cases "bkt_count (g_tw_buddy_master m ! (k - 6)) = 0")
    case True
    then have "{b. (b, k) \<in> F} = {}" using tab(4,5) by simp
    then have none: "(b, k) \<notin> F" for b by blast
    have "coalesced n (insert (a, k) F)"
    proof (cases "k < n")
      case True
      have "coalesced n (F - {(a, k)})" by (rule coalesced_mono[OF c]) blast
      then show ?thesis by (rule no_merge(2)[OF r xT(1) True none])
    next
      case False
      then have "k = n" using tx(2) by simp
      then show ?thesis using c none by (auto simp: coalesced_def)
    qed
    then show ?thesis using put free_start[OF r x] True by (simp add: Let_def)
  next
    case False
    then have "bkt_ptr (g_tw_buddy_master m ! (k - 6)) \<noteq> []" using tab(4) by simp
    then obtain b where "b \<in> set (bkt_ptr (g_tw_buddy_master m ! (k - 6)))" by (meson list.set_sel(1))
    then have b: "(b, k) \<in> F" using tab(5) by simp
    then have "k < n" using whole_arena[OF B(3) xT(1), of "(b, k)"] B(4) xT(2) by blast
    then obtain u where u: "u \<in> T - F" "u \<noteq> (a, k)" using o x by blast
    have c': "coalesced n (F - {(a, k)})" by (rule coalesced_mono[OF c]) blast
    have fuel: "n - k < length (g_tw_buddy_master m) + 1" using B(1,6) tx(1,2) by (simp add: table_ok_def)
    have mc: "(0 :: nat) < 0 \<longleftrightarrow> (a, k) \<in> F" using xT(2) by simp
    have "\<exists>T' F' m' mc'. buddy_try_merge a m = Inr (mc', m') \<and> buddy_rep n T' F' m' \<and> merge_result n T F a k 0 m T' F' mc' m'"
      unfolding buddy_try_merge_def by (rule try_merge_ok[OF r xT(1) mc c' u fuel])
    then obtain T' F' m' mc' where m: "buddy_try_merge a m = Inr (mc', m')" "buddy_rep n T' F' m'" "merge_result n T F a k 0 m T' F' mc' m'"
      by (elim exE conjE) (rule that)
    note st = free_start[OF r x, unfolded Let_def if_not_P[OF False] m(1) ebind.simps prod.case]
    from m(3) show ?thesis unfolding merge_result_def
    proof (elim conjE disjE)
      assume q: "mc' = 0" "m' = m" "coalesced n (insert (a, k) F)"
      have "buddy_free (a + header_size) m = put_free (k - 6) a (2 ^ k) m" unfolding st using q(1,2) by simp
      then show ?thesis using put[OF q(3)] by simp
    next
      assume q: "0 < mc'" "coalesced n F'" "T' - F' = T - F - {(a, k)}" "same_data (T' - F') m m'"
        "bkt_count (g_tw_buddy_master m' ! (k - 6)) < bkt_count (g_tw_buddy_master m ! (k - 6))"
      have "buddy_free (a + header_size) m = Inr m'" unfolding st using q(1,5) by simp
      moreover have "buddy_inv n T' F' m'" using m(2) q(2) by (simp add: buddy_inv_def)
      ultimately show ?thesis using q(3,4) by (intro exI[of _ T'] exI[of _ F'] exI[of _ m']) (simp del: Diff_insert)
    qed
  qed
qed

lemma free_last:
  assumes i: "buddy_inv n T F m" and x: "T - F = {(a, k)}" and k: "k < n"
  shows "buddy_free (a + header_size) m = Inl Bad_Pointer"
proof -
  have r: "buddy_rep n T F m" and c: "coalesced n F" using i by (simp_all add: buddy_inv_def)
  note B = buddy_repD[OF r]
  have xT: "(a, k) \<in> T" "(a, k) \<notin> F" "(a, k) \<in> T - F" using x by blast+
  note tx = tilingD[OF B(3) xT(1)]
  note tab = table_okD[OF B(6) tx(1,2)]
  have c': "coalesced n (F - {(a, k)})" by (rule coalesced_mono[OF c]) blast
  have all: "T - F \<subseteq> {(a, k)}" using x by blast
  have "(buddy_of a k, k) \<in> F" by (rule rest_is_buddy[OF r xT(1) k c' all])
  then have "bkt_ptr (g_tw_buddy_master m ! (k - 6)) \<noteq> []" using tab(5) by auto
  then have n0: "bkt_count (g_tw_buddy_master m ! (k - 6)) \<noteq> 0" using tab(4) by simp
  have fuel: "n - k < length (g_tw_buddy_master m) + 1" using B(1,6) tx(1,2) by (simp add: table_ok_def)
  have mc: "(0 :: nat) < 0 \<longleftrightarrow> (a, k) \<in> F" using xT(2) by simp
  have "buddy_try_merge a m = Inl Bad_Pointer"
    unfolding buddy_try_merge_def by (rule try_merge_top[OF r xT(1) mc c' all fuel])
  then show ?thesis using free_start[OF r xT(3)] n0 by (simp add: Let_def)
qed

section \<open>The blocks in use determine the free ones\<close>

lemma free_block_same:
  assumes t: "tiling n T" "tiling n T'" and f: "F \<subseteq> T" "F' \<subseteq> T'" and c: "coalesced n F" "coalesced n F'" and u: "T - F = T' - F'"
    and x: "(a, k) \<in> F"
  shows "(a, k) \<in> F'"
proof -
  have xT: "(a, k) \<in> T" using x f(1) by blast
  note tx = tilingD[OF t(1) xT]
  have "a < 2 ^ n" by (rule below_end[OF tx(4)])
  then obtain p q where y: "(p, q) \<in> T'" "a \<in> blk (p, q)" by (rule tiling_cover[OF t(2)])
  note ty = tilingD[OF t(2) y(1)]
  have yF: "(p, q) \<in> F'"
  proof (rule ccontr)
    assume "(p, q) \<notin> F'"
    then have "(p, q) \<in> T - F" using y(1) u by blast
    then show False using tiling_same[OF t(1) _ xT y(2) tx(5)] x by blast
  qed
  show ?thesis
  proof (cases "q \<le> k")
    case True
    have "(a, k) \<in> T'"
    proof (rule free_region[OF t(2) tx(3,4,2) _ c(2)])
      fix z assume z: "z \<in> T'" "blk z \<inter> blk (a, k) \<noteq> {}"
      obtain b j where zb: "z = (b, j)" by (cases z)
      have "z \<in> F'"
      proof (rule ccontr)
        assume "z \<notin> F'"
        then have "z \<in> T - F" using z(1) u by blast
        then show False using tiling_same[OF t(1) _ xT, of z] z(2) x by blast
      qed
      moreover have "j \<le> k"
      proof (rule ccontr)
        assume j: "\<not> j \<le> k"
        then have "blk (a, k) \<subseteq> blk z" using aligned_nested[OF tilingD(3)[OF t(2), of b j] tx(3)] z unfolding zb by simp
        then have "z = (p, q)" using tiling_same[OF t(2) z(1) y(1) _ y(2)] tx(5) by blast
        then show False using j True zb by simp
      qed
      ultimately show "z \<in> F' \<and> snd z \<le> k" using zb by simp
    qed
    then show ?thesis using x u by blast
  next
    case False
    have ay: "blk (p, q) \<inter> blk (a, k) \<noteq> {}" using y(2) tx(5) by blast
    have "(p, q) \<in> T"
    proof (rule free_region[OF t(1) ty(3,4,2) _ c(1)])
      fix z assume z: "z \<in> T" "blk z \<inter> blk (p, q) \<noteq> {}"
      obtain b j where zb: "z = (b, j)" by (cases z)
      have "z \<in> F"
      proof (rule ccontr)
        assume "z \<notin> F"
        then have "z \<in> T' - F'" using z(1) u by blast
        then show False using tiling_same[OF t(2) _ y(1), of z] z(2) yF by blast
      qed
      moreover have "j \<le> q"
      proof (rule ccontr)
        assume j: "\<not> j \<le> q"
        then have "blk (p, q) \<subseteq> blk z" using aligned_nested[OF tilingD(3)[OF t(1), of b j] ty(3)] z unfolding zb by simp
        then have "z = (a, k)" using tiling_same[OF t(1) z(1) xT _ tx(5)] y(2) by blast
        then show False using j False zb by simp
      qed
      ultimately show "z \<in> F \<and> snd z \<le> q" using zb by simp
    qed
    then have "(p, q) = (a, k)" by (rule tiling_same[OF t(1) _ xT y(2) tx(5)])
    then show ?thesis using False by simp
  qed
qed

lemma free_unique:
  assumes "buddy_inv n T F m" "buddy_inv n T' F' m'" "T - F = T' - F'"
  shows "T = T'" "F = F'"
proof -
  have r: "buddy_rep n T F m" "buddy_rep n T' F' m'" "coalesced n F" "coalesced n F'" using assms(1,2) by (simp_all add: buddy_inv_def)
  note B = buddy_repD(3,4)[OF r(1)] buddy_repD(3,4)[OF r(2)]
  have "F \<subseteq> F'"
  proof
    fix x assume "x \<in> F"
    then show "x \<in> F'" using free_block_same[OF B(1,3,2,4) r(3,4) assms(3)] by (cases x) blast
  qed
  moreover have "F' \<subseteq> F"
  proof
    fix x assume "x \<in> F'"
    then show "x \<in> F" using free_block_same[OF B(3,1,4,2) r(4,3) assms(3)[symmetric]] by (cases x) blast
  qed
  ultimately show F: "F = F'" by blast
  then show "T = T'" using assms(3) B(2,4) by blast
qed

section \<open>Properties\<close>

text \<open>
  C16: an allocation is correct and complete. For a request that with its header is at most
  \<open>2 ^ 31\<close> bytes, \<open>buddy_alloc\<close> either gives the data area of a block that was not in use, of the
  smallest order that holds the request, or reports that the arena is too small, which it does only
  when every free block is too small. The other blocks in use and all data stay as they are, no
  assertion fails, and no two free blocks are buddies afterwards.
\<close>

theorem buddy_alloc_fits:
  assumes "buddy_inv n T F m" "unat sz + header_size \<le> 2 ^ 31"
  shows "(\<exists>a k T' F' m'. buddy_alloc sz m = Inr (a + header_size, m') \<and> buddy_inv n T' F' m' \<and> T' - F' = insert (a, k) (T - F) \<and>
      (a, k) \<notin> T - F \<and> unat sz + header_size \<le> 2 ^ k \<and> (k = 6 \<or> 2 ^ (k - 1) < unat sz + header_size) \<and> bytes m' = bytes m) \<or>
    buddy_alloc sz m = Inl buddy_full \<and> (\<forall>(a, k) \<in> F. 2 ^ k < unat sz + header_size)"
  by (rule alloc_ok[OF assms])

lemma ex_table:
  obtains m where "create_buddy_table 10 = Inr m" "buddy_inv 10 {(0, 10)} {(0, 10)} m"
  using create_ok[of 10] by auto

theorem buddy_alloc_fits_witness:
  "\<exists>m a m'. create_buddy_table 10 = Inr m \<and> buddy_alloc 100 m = Inr (a + header_size, m')"
proof -
  obtain m where m: "create_buddy_table 10 = Inr m" "buddy_inv 10 {(0, 10)} {(0, 10)} m" by (rule ex_table)
  have "unat (100 :: 32 word) + header_size \<le> 2 ^ 31" by (simp add: header_size_def)
  from buddy_alloc_fits[OF m(2) this] show ?thesis using m(1) by (auto simp: header_size_def)
qed

text \<open>
  C17: freeing is correct. Freeing the data area of a block in use succeeds and gives back that block
  and nothing else; the data of the other blocks stay as they are, no assertion fails, and free
  buddies are merged again. This holds unless the block is the last one in use and smaller than the
  arena.
\<close>

theorem buddy_free_frees:
  assumes "buddy_inv n T F m" "(a, k) \<in> T - F" "k = n \<or> T - F \<noteq> {(a, k)}"
  shows "\<exists>T' F' m'. buddy_free (a + header_size) m = Inr m' \<and> buddy_inv n T' F' m' \<and> T' - F' = T - F - {(a, k)} \<and>
    same_data (T' - F') m m'"
  by (rule free_ok[OF assms])

text \<open>One block in use takes less than the whole arena, so a second one fits.\<close>

lemma alloc_exact:
  assumes i: "buddy_inv n T F m" and o: "unat sz + header_size \<le> 2 ^ k" "6 \<le> k" "k \<le> 31" "k = 6 \<or> 2 ^ (k - 1) < unat sz + header_size"
    and f: "(b, j) \<in> F" "k \<le> j"
  shows "\<exists>a T' F' m'. buddy_alloc sz m = Inr (a + header_size, m') \<and> buddy_inv n T' F' m' \<and> T' - F' = insert (a, k) (T - F) \<and> (a, k) \<notin> T - F"
proof -
  have "(2 :: nat) ^ k \<le> 2 ^ 31" using o(3) by (intro power_increasing) simp_all
  then have s: "unat sz + header_size \<le> 2 ^ 31" using o(1) by linarith
  have "(2 :: nat) ^ k \<le> 2 ^ j" using f(2) by (intro power_increasing) simp_all
  then have "\<not> (\<forall>(a, k) \<in> F. 2 ^ k < unat sz + header_size)" 
  proof (intro notI)
    assume all: "\<forall>(a, k) \<in> F. 2 ^ k < unat sz + header_size"
    have "2 ^ j < unat sz + header_size" using bspec[OF all f(1)] by simp
    then show False using o(1) \<open>(2 :: nat) ^ k \<le> 2 ^ j\<close> by linarith
  qed
  then obtain a q T' F' m' where A: "buddy_alloc sz m = Inr (a + header_size, m')" "buddy_inv n T' F' m'" "T' - F' = insert (a, q) (T - F)"
    "(a, q) \<notin> T - F" "unat sz + header_size \<le> 2 ^ q" "q = 6 \<or> 2 ^ (q - 1) < unat sz + header_size"
    using alloc_ok[OF i s] by blast
  have "(a, q) \<in> T'" using A(3) by blast
  then have q6: "6 \<le> q" using tilingD(1)[OF buddy_repD(3), of n T' F' m'] A(2) by (simp add: buddy_inv_def)
  have "q = k"
  proof (rule ccontr)
    assume "q \<noteq> k"
    then consider "q < k" | "k < q" by linarith
    then show False
    proof cases
      case 1
      then have "(2 :: nat) ^ q \<le> 2 ^ (k - 1)" by (intro power_increasing) simp_all
      then show False using 1 q6 o(4) A(5) by linarith
    next
      case 2
      then have "(2 :: nat) ^ k \<le> 2 ^ (q - 1)" by (intro power_increasing) simp_all
      then show False using 2 o(1,2) A(6) by linarith
    qed
  qed
  then show ?thesis using A(1-4) by blast
qed

text \<open>Two small blocks in an arena of 1024 bytes.\<close>

lemma ex_first:
  obtains m0 a m1 T F where "create_buddy_table 10 = Inr m0" "buddy_alloc 20 m0 = Inr (a + header_size, m1)" "buddy_inv 10 T F m1" "T - F = {(a, 6)}"
proof -
  obtain m where m: "create_buddy_table 10 = Inr m" "buddy_inv 10 {(0, 10)} {(0, 10)} m" by (rule ex_table)
  have "unat (20 :: 32 word) + header_size \<le> 2 ^ 6" by (simp add: header_size_def)
  then have "\<exists>a T' F' m'. buddy_alloc 20 m = Inr (a + header_size, m') \<and> buddy_inv 10 T' F' m' \<and> T' - F' = insert (a, 6) ({(0, 10)} - {(0, 10)}) \<and>
      (a, 6) \<notin> {(0 :: nat, 10 :: nat)} - {(0, 10)}"
    by (intro alloc_exact[OF m(2), where b = 0 and j = 10]) simp_all
  then show ?thesis using that m(1) by (auto simp del: insert_iff)
qed

lemma ex_second:
  assumes i: "buddy_inv 10 T F m" and u: "T - F = {(a, 6)}"
  obtains b T' F' m' where "buddy_alloc 20 m = Inr (b + header_size, m')" "buddy_inv 10 T' F' m'" "T' - F' = {(b, 6), (a, 6)}" "b \<noteq> a"
proof -
  have r: "buddy_rep 10 T F m" using i by (simp add: buddy_inv_def)
  note B = buddy_repD[OF r]
  define p :: nat where "p = (if a < 64 then 512 else 0)"
  have aT: "(a, 6) \<in> T" using u by blast
  have p: "p < 2 ^ 10" by (simp add: p_def)
  then obtain c j where c: "(c, j) \<in> T" "p \<in> blk (c, j)" by (rule tiling_cover[OF B(3)])
  have "(c, j) \<noteq> (a, 6)" using c(2) by (auto simp: p_def split: if_splits)
  then have cF: "(c, j) \<in> F" using c(1) u by blast
  have "unat (20 :: 32 word) + header_size \<le> 2 ^ 6" by (simp add: header_size_def)
  then have "\<exists>b T' F' m'. buddy_alloc 20 m = Inr (b + header_size, m') \<and> buddy_inv 10 T' F' m' \<and> T' - F' = insert (b, 6) (T - F) \<and> (b, 6) \<notin> T - F"
    by (intro alloc_exact[OF i, where b = c and j = j]) (use cF tilingD(1)[OF B(3) c(1)] in simp_all)
  then show ?thesis using that unfolding u by auto
qed

theorem buddy_free_frees_witness:
  "\<exists>m0 p m1 q m2 m3. create_buddy_table 10 = Inr m0 \<and> buddy_alloc 20 m0 = Inr (p, m1) \<and> buddy_alloc 20 m1 = Inr (q, m2) \<and> buddy_free p m2 = Inr m3"
proof -
  obtain m0 a m1 T F where 1: "create_buddy_table 10 = Inr m0" "buddy_alloc 20 m0 = Inr (a + header_size, m1)" "buddy_inv 10 T F m1" "T - F = {(a, 6)}"
    by (rule ex_first)
  obtain b T' F' m2 where 2: "buddy_alloc 20 m1 = Inr (b + header_size, m2)" "buddy_inv 10 T' F' m2" "T' - F' = {(b, 6), (a, 6)}" "b \<noteq> a"
    by (rule ex_second[OF 1(3,4)])
  have "(a, 6) \<in> T' - F'" "(6 :: nat) = 10 \<or> T' - F' \<noteq> {(a, 6)}" unfolding 2(3) using 2(4) by auto
  from buddy_free_frees[OF 2(2) this] obtain m3 where "buddy_free (a + header_size) m2 = Inr m3" by blast
  then show ?thesis using 1(1,2) 2(1) by blast
qed

text \<open>
  C23: an allocation and the freeing of what it gave leave no trace. While another block is in use,
  \<open>buddy_free\<close> after \<open>buddy_alloc\<close> gives back exactly the blocks and the free blocks there were
  before: whatever was split has been merged again.
\<close>

theorem buddy_alloc_free_roundtrip:
  assumes i: "buddy_inv n T F m" and o: "T - F \<noteq> {}" and sz: "unat sz + header_size \<le> 2 ^ 31" and a: "buddy_alloc sz m = Inr (p, m1)"
  shows "\<exists>m2. buddy_free p m1 = Inr m2 \<and> buddy_inv n T F m2 \<and> same_data (T - F) m m2"
proof -
  obtain b k T1 F1 where A: "p = b + header_size" "buddy_inv n T1 F1 m1" "T1 - F1 = insert (b, k) (T - F)" "(b, k) \<notin> T - F" "bytes m1 = bytes m"
    using alloc_ok[OF i sz] unfolding a by auto
  have x: "(b, k) \<in> T1 - F1" "k = n \<or> T1 - F1 \<noteq> {(b, k)}" unfolding A(3) using o A(4) by blast+
  obtain T2 F2 m2 where f: "buddy_free (b + header_size) m1 = Inr m2" "buddy_inv n T2 F2 m2" "T2 - F2 = T1 - F1 - {(b, k)}" "same_data (T2 - F2) m1 m2"
    using free_ok[OF A(2) x] by blast
  have u: "T2 - F2 = T - F" unfolding f(3) A(3) using A(4) by blast
  have "T2 = T" "F2 = F" using free_unique[OF f(2) i u] by blast+
  then show ?thesis using f(1,2,4) A(1,5) by (intro exI[of _ m2]) (simp add: same_data_def)
qed

theorem buddy_alloc_free_roundtrip_witness:
  "\<exists>m1 p m2 m3 T F. buddy_inv 10 T F m1 \<and> T - F \<noteq> {} \<and> buddy_alloc 20 m1 = Inr (p, m2) \<and> buddy_free p m2 = Inr m3 \<and> buddy_inv 10 T F m3"
proof -
  obtain m0 a m1 T F where 1: "create_buddy_table 10 = Inr m0" "buddy_alloc 20 m0 = Inr (a + header_size, m1)" "buddy_inv 10 T F m1" "T - F = {(a, 6)}"
    by (rule ex_first)
  obtain b T' F' m2 where 2: "buddy_alloc 20 m1 = Inr (b + header_size, m2)" "buddy_inv 10 T' F' m2" "T' - F' = {(b, 6), (a, 6)}" "b \<noteq> a"
    by (rule ex_second[OF 1(3,4)])
  have "T - F \<noteq> {}" "unat (20 :: 32 word) + header_size \<le> 2 ^ 31" using 1(4) by (simp_all add: header_size_def)
  then obtain m3 where "buddy_free (b + header_size) m2 = Inr m3" "buddy_inv 10 T F m3"
    using buddy_alloc_free_roundtrip[OF 1(3) _ _ 2(1)] by blast
  then show ?thesis using 1(3) 2(1) \<open>T - F \<noteq> {}\<close> by blast
qed

text \<open>
  C26: freeing the last block in use reads behind the arena. Where it is the only block in use and
  smaller than the arena, the merges go up to the whole arena, and the loop then looks for the buddy
  of the arena at its end, outside the memory that was allocated.
\<close>

theorem buddy_free_last_block:
  assumes "buddy_inv n T F m" "T - F = {(a, k)}" "k < n"
  shows "buddy_free (a + header_size) m = Inl Bad_Pointer"
  by (rule free_last[OF assms])

theorem buddy_free_last_block_witness:
  "\<exists>m0 p m1. create_buddy_table 10 = Inr m0 \<and> buddy_alloc 20 m0 = Inr (p, m1) \<and> buddy_free p m1 = Inl Bad_Pointer"
proof -
  obtain m0 a m1 T F where 1: "create_buddy_table 10 = Inr m0" "buddy_alloc 20 m0 = Inr (a + header_size, m1)" "buddy_inv 10 T F m1" "T - F = {(a, 6)}"
    by (rule ex_first)
  have "(6 :: nat) < 10" by simp
  from buddy_free_last_block[OF 1(3,4) this] show ?thesis using 1(1,2) by blast
qed

text \<open>
  C27: a request of more than \<open>2 ^ 31\<close> bytes with its header gets a smallest block. The sum of request and header wraps
  round, or the next power of two does, so that the allocation is that of an empty request: it may
  succeed with far less memory than was asked for.
\<close>

theorem buddy_huge_requests:
  assumes i: "buddy_inv n T F m" and sz: "unat sz + header_size > 2 ^ 31"
  shows "buddy_alloc sz m = buddy_alloc 0 m"
proof -
  have r: "buddy_rep n T F m" using i by (simp add: buddy_inv_def)
  note B = buddy_repD[OF r]
  let ?v = "sz + word_of_nat header_size" and ?tb = "g_tw_buddy_master m"
  have le6: "(6 :: nat) \<le> 6" by simp
  have find: "find_bucket q ?tb 0 = Some (6 - 6)" if "q \<le> 64" for q
    by (rule find_order[OF B(6) le6 B(1)]) (use that in simp_all)
  have "unat (next_power2 ?v) \<le> 64"
  proof (cases "unat sz + header_size < 2 ^ 32")
    case True
    have v: "unat ?v = unat sz + header_size"
    proof -
      have "unat (word_of_nat header_size :: 32 word) = header_size" by (simp add: header_size_def)
      then show ?thesis using True by (subst unat_add_lem[THEN iffD1]) simp_all
    qed
    have "next_power2 ?v = 0" by (rule next_power2_huge) (use sz v in simp)
    then show ?thesis by simp
  next
    case False
    have "unat sz < 2 ^ 32" using unsigned_less[of sz] by simp
    then have "unat ?v = unat sz + header_size - 2 ^ 32"
      using False by (simp add: unat_word_ariths(1) header_size_def mod_if)
    then have "unat ?v < 64" using \<open>unat sz < 2 ^ 32\<close> by (simp add: header_size_def)
    then have "?v < 64" by (simp add: word_less_nat_alt)
    then show ?thesis by (simp add: next_power2_def BUDDY_BLOCK_ORDER_def)
  qed
  then have 1: "find_bucket (unat (next_power2 ?v)) ?tb 0 = Some (6 - 6)" by (rule find)
  have "unat (next_power2 (0 + word_of_nat header_size)) \<le> 64"
    by (simp add: next_power2_def BUDDY_BLOCK_ORDER_def header_size_def)
  then have 2: "find_bucket (unat (next_power2 (0 + word_of_nat header_size))) ?tb 0 = Some (6 - 6)" by (rule find)
  show ?thesis unfolding buddy_alloc_def Let_def 1 2 by (rule refl)
qed

theorem buddy_huge_requests_witness:
  "\<exists>m a m'. create_buddy_table 10 = Inr m \<and> buddy_alloc 4294967295 m = Inr (a, m')"
proof -
  obtain m0 a m1 T F where 1: "create_buddy_table 10 = Inr m0" "buddy_alloc 20 m0 = Inr (a + header_size, m1)" "buddy_inv 10 T F m1" "T - F = {(a, 6)}"
    by (rule ex_first)
  obtain m where m: "create_buddy_table 10 = Inr m" "buddy_inv 10 {(0, 10)} {(0, 10)} m" by (rule ex_table)
  have "unat (4294967295 :: 32 word) + header_size > 2 ^ 31" by (simp add: header_size_def)
  then have "buddy_alloc 4294967295 m = buddy_alloc 0 m" by (rule buddy_huge_requests[OF m(2)])
  moreover have "\<exists>a T' F' m'. buddy_alloc 0 m = Inr (a + header_size, m') \<and> buddy_inv 10 T' F' m' \<and> T' - F' = insert (a, 6) ({(0, 10)} - {(0, 10)}) \<and>
      (a, 6) \<notin> {(0 :: nat, 10 :: nat)} - {(0, 10)}"
    by (intro alloc_exact[OF m(2), where b = 0 and j = 10]) (simp_all add: header_size_def)
  ultimately show ?thesis using m(1) by auto
qed

end
