(* ===== verification/Lz4.thy ===== *)
theory Lz4
  imports Ross_Prelude "HOL-Library.Word"
begin

unbundle bit_operations_syntax

text \<open>
  The compressor and the decompressor that \<open>core/tw-state.c\<close> uses (\<open>core/lz4.c\<close>), on a little-endian machine
  of 64 bits. A buffer is the list of its bytes and a pointer an index into it; a read or a write outside it
  is \<open>Bad_Pointer\<close>. \<open>LZ4_compress_generic\<close> is modelled without dictionary and \<open>LZ4_decompress_generic\<close> as
  \<open>LZ4_decompress_fast\<close> calls it; both are always inlined with such constants.
\<close>

section \<open>Memory\<close>

type_synonym buf = "8 word list"

definition mem_byte :: "buf \<Rightarrow> nat \<Rightarrow> ross_error + 8 word" where
  "mem_byte m p = (if p < length m then Inr (m ! p) else Inl Bad_Pointer)"

definition mem_read :: "buf \<Rightarrow> nat \<Rightarrow> nat \<Rightarrow> ross_error + buf" where
  "mem_read m p n = (if p + n \<le> length m then Inr (take n (drop p m)) else Inl Bad_Pointer)"

definition mem_write :: "buf \<Rightarrow> nat \<Rightarrow> buf \<Rightarrow> ross_error + buf" where
  "mem_write m p xs = (if p + length xs \<le> length m then Inr (take p m @ xs @ drop (p + length xs) m) else Inl Bad_Pointer)"

definition LZ4_read16 :: "buf \<Rightarrow> nat \<Rightarrow> ross_error + 16 word" where
  "LZ4_read16 m p = ebind (mem_read m p 2) (\<lambda>bs. Inr (word_rcat (rev bs)))"

definition LZ4_readLE16 :: "buf \<Rightarrow> nat \<Rightarrow> ross_error + 16 word" where
  "LZ4_readLE16 m p = LZ4_read16 m p"

definition LZ4_writeLE16 :: "buf \<Rightarrow> nat \<Rightarrow> 16 word \<Rightarrow> ross_error + buf" where
  "LZ4_writeLE16 m p v = mem_write m p [ucast v, ucast (drop_bit 8 v)]"

definition LZ4_read32 :: "buf \<Rightarrow> nat \<Rightarrow> ross_error + 32 word" where
  "LZ4_read32 m p = ebind (mem_read m p 4) (\<lambda>bs. Inr (word_rcat (rev bs)))"

definition LZ4_read64 :: "buf \<Rightarrow> nat \<Rightarrow> ross_error + 64 word" where
  "LZ4_read64 m p = ebind (mem_read m p 8) (\<lambda>bs. Inr (word_rcat (rev bs)))"

text \<open>\<open>memcpy\<close> of \<open>n\<close> bytes from another buffer, and within one, where the two parts must not overlap.\<close>

definition copy_from :: "buf \<Rightarrow> nat \<Rightarrow> nat \<Rightarrow> nat \<Rightarrow> buf \<Rightarrow> ross_error + buf" where
  "copy_from src n d s m = ebind (mem_read src s n) (mem_write m d)"

definition copy_within :: "nat \<Rightarrow> nat \<Rightarrow> nat \<Rightarrow> buf \<Rightarrow> ross_error + buf" where
  "copy_within n d s m = (if s < d + n \<and> d < s + n then Inl Bad_Pointer else ebind (mem_read m s n) (mem_write m d))"

text \<open>\<open>cp\<close> is the copy of eight bytes.\<close>

function LZ4_wildCopy :: "(nat \<Rightarrow> nat \<Rightarrow> buf \<Rightarrow> ross_error + buf) \<Rightarrow> nat \<Rightarrow> nat \<Rightarrow> nat \<Rightarrow> buf \<Rightarrow> ross_error + buf" where
  "LZ4_wildCopy cp d s e m =
     ebind (cp d s m) (\<lambda>m. if d + 8 < e then LZ4_wildCopy cp (d + 8) (s + 8) e m else Inr m)"
  by pat_completeness auto
termination by (relation "measure (\<lambda>(cp, d, s, e, m). e - d)") auto

declare LZ4_wildCopy.simps [simp del]

section \<open>Constants\<close>

definition MINMATCH :: nat where "MINMATCH = 4"
definition COPYLENGTH :: nat where "COPYLENGTH = 8"
definition LASTLITERALS :: nat where "LASTLITERALS = 5"
definition MFLIMIT :: nat where "MFLIMIT = COPYLENGTH + MINMATCH"
definition LZ4_minLength :: nat where "LZ4_minLength = MFLIMIT + 1"
definition MAX_DISTANCE :: nat where "MAX_DISTANCE = 2 ^ 16 - 1"
definition ML_MASK :: nat where "ML_MASK = 15"
definition RUN_MASK :: nat where "RUN_MASK = 15"
definition LZ4_HASHLOG :: nat where "LZ4_HASHLOG = 14 - 2"
definition LZ4_64Klimit :: nat where "LZ4_64Klimit = 64 * 2 ^ 10 + (MFLIMIT - 1)"
definition LZ4_skipTrigger :: nat where "LZ4_skipTrigger = 6"

definition LZ4_MAX_INPUT_SIZE :: nat where
  "LZ4_MAX_INPUT_SIZE = 2113929216"

definition LZ4_compressBound :: "nat \<Rightarrow> nat" where
  "LZ4_compressBound n = (if n > LZ4_MAX_INPUT_SIZE then 0 else n + n div 255 + 16)"

definition LZ4_STREAMSIZE :: nat where
  "LZ4_STREAMSIZE = (2 ^ (14 - 3) + 4) * 8"

section \<open>Counting equal bytes\<close>

text \<open>\<open>__builtin_ctzll\<close>\<close>

definition count_trailing_zeros :: "64 word \<Rightarrow> nat" where
  "count_trailing_zeros w = length (takeWhile (\<lambda>i. \<not> bit w i) [0..<64])"

definition LZ4_NbCommonBytes :: "64 word \<Rightarrow> nat" where
  "LZ4_NbCommonBytes v = count_trailing_zeros v div 8"

text \<open>The loop over words; \<open>Inl\<close> is the early return.\<close>

function count_words :: "buf \<Rightarrow> nat \<Rightarrow> nat \<Rightarrow> nat \<Rightarrow> ross_error + (nat + (nat \<times> nat))" where
  "count_words m pIn pMatch limit =
     (if pIn + 7 < limit then
        ebind (LZ4_read64 m pMatch) (\<lambda>a. ebind (LZ4_read64 m pIn) (\<lambda>b.
          if a XOR b = 0 then count_words m (pIn + 8) (pMatch + 8) limit
          else Inr (Inl (pIn + LZ4_NbCommonBytes (a XOR b)))))
      else Inr (Inr (pIn, pMatch)))"
  by pat_completeness auto
termination by (relation "measure (\<lambda>(m, pIn, pMatch, limit). limit - pIn)") auto

declare count_words.simps [simp del]

definition LZ4_count :: "buf \<Rightarrow> nat \<Rightarrow> nat \<Rightarrow> nat \<Rightarrow> ross_error + nat" where
  "LZ4_count m pStart pMatch limit =
     ebind (count_words m pStart pMatch limit) (\<lambda>r. case r of
       Inl p \<Rightarrow> Inr (p - pStart)
     | Inr (pIn, pMatch) \<Rightarrow>
         ebind (if pIn + 3 < limit then
                  ebind (LZ4_read32 m pMatch) (\<lambda>a. ebind (LZ4_read32 m pIn) (\<lambda>b.
                    Inr (if a = b then (pIn + 4, pMatch + 4) else (pIn, pMatch))))
                else Inr (pIn, pMatch)) (\<lambda>(pIn, pMatch).
         ebind (if pIn + 1 < limit then
                  ebind (LZ4_read16 m pMatch) (\<lambda>a. ebind (LZ4_read16 m pIn) (\<lambda>b.
                    Inr (if a = b then (pIn + 2, pMatch + 2) else (pIn, pMatch))))
                else Inr (pIn, pMatch)) (\<lambda>(pIn, pMatch).
         ebind (if pIn < limit then
                  ebind (mem_byte m pMatch) (\<lambda>a. ebind (mem_byte m pIn) (\<lambda>b. Inr (if a = b then pIn + 1 else pIn)))
                else Inr pIn) (\<lambda>pIn. Inr (pIn - pStart)))))"

section \<open>The table of positions\<close>

text \<open>Pointers in tables are used on machines of 32 bits only.\<close>

datatype tableType = byU32 | byU16

definition LZ4_hashSequence64 :: "64 word \<Rightarrow> tableType \<Rightarrow> nat" where
  "LZ4_hashSequence64 sequence t =
     (let hashLog = (if t = byU16 then LZ4_HASHLOG + 1 else LZ4_HASHLOG);
          hashMask = push_bit hashLog 1 - 1
      in unat (drop_bit (40 - hashLog) (sequence * 889523592379) AND hashMask))"

definition LZ4_hashPosition :: "buf \<Rightarrow> nat \<Rightarrow> tableType \<Rightarrow> ross_error + nat" where
  "LZ4_hashPosition src p t = ebind (LZ4_read64 src p) (\<lambda>s. Inr (LZ4_hashSequence64 s t))"

definition LZ4_putPositionOnHash :: "nat \<Rightarrow> nat \<Rightarrow> (nat \<Rightarrow> nat) \<Rightarrow> tableType \<Rightarrow> nat \<Rightarrow> nat" where
  "LZ4_putPositionOnHash p h tab t = tab(h := (case t of byU32 \<Rightarrow> take_bit 32 p | byU16 \<Rightarrow> take_bit 16 p))"

definition LZ4_putPosition :: "buf \<Rightarrow> nat \<Rightarrow> (nat \<Rightarrow> nat) \<Rightarrow> tableType \<Rightarrow> ross_error + (nat \<Rightarrow> nat)" where
  "LZ4_putPosition src p tab t = ebind (LZ4_hashPosition src p t) (\<lambda>h. Inr (LZ4_putPositionOnHash p h tab t))"

definition LZ4_getPositionOnHash :: "nat \<Rightarrow> (nat \<Rightarrow> nat) \<Rightarrow> nat" where
  "LZ4_getPositionOnHash h tab = tab h"

definition LZ4_getPosition :: "buf \<Rightarrow> nat \<Rightarrow> (nat \<Rightarrow> nat) \<Rightarrow> tableType \<Rightarrow> ross_error + nat" where
  "LZ4_getPosition src p tab t = ebind (LZ4_hashPosition src p t) (\<lambda>h. Inr (LZ4_getPositionOnHash h tab))"

section \<open>Compression\<close>

definition same_word :: "buf \<Rightarrow> nat \<Rightarrow> nat \<Rightarrow> ross_error + bool" where
  "same_word src match ip = ebind (LZ4_read32 src match) (\<lambda>a. ebind (LZ4_read32 src ip) (\<lambda>b. Inr (a = b)))"

text \<open>The loop that looks for a match; \<open>None\<close> is the jump to the last literals. The fuel bounds its rounds.\<close>

fun find_match :: "nat \<Rightarrow> buf \<Rightarrow> tableType \<Rightarrow> (nat \<Rightarrow> nat) \<Rightarrow> nat \<Rightarrow> 32 word \<Rightarrow> 32 word \<Rightarrow> nat
    \<Rightarrow> ross_error + (nat \<times> nat \<times> (nat \<Rightarrow> nat)) option" where
  "find_match 0 src t tab forwardIp step searchMatchNb forwardH = Inl Out_Of_Fuel"
| "find_match (Suc k) src t tab forwardIp step searchMatchNb forwardH =
     (let h = forwardH; ip = forwardIp; forwardIp = forwardIp + unat step;
          step = drop_bit LZ4_skipTrigger searchMatchNb; searchMatchNb = searchMatchNb + 1 in
      if forwardIp > length src - MFLIMIT then Inr None
      else
        let match = LZ4_getPositionOnHash h tab in
        ebind (LZ4_hashPosition src forwardIp t) (\<lambda>forwardH.
          let tab = LZ4_putPositionOnHash ip h tab t in
          ebind (if t \<noteq> byU16 \<and> match + MAX_DISTANCE < ip then Inr False else same_word src match ip) (\<lambda>found.
            if found then Inr (Some (ip, match, tab))
            else find_match k src t tab forwardIp step searchMatchNb forwardH)))"

fun catch_up :: "buf \<Rightarrow> nat \<Rightarrow> nat \<Rightarrow> nat \<Rightarrow> ross_error + (nat \<times> nat)" where
  "catch_up src anchor ip match =
     (if ip > anchor \<and> match > 0 then
        ebind (mem_byte src (ip - 1)) (\<lambda>a. ebind (mem_byte src (match - 1)) (\<lambda>b.
          if a = b then catch_up src anchor (ip - 1) (match - 1) else Inr (ip, match)))
      else Inr (ip, match))"

declare catch_up.simps [simp del]

text \<open>The bytes of a length after the token.\<close>

fun put_length :: "nat \<Rightarrow> nat \<Rightarrow> buf \<Rightarrow> ross_error + (nat \<times> buf)" where
  "put_length len op dst =
     (if len \<ge> 255 then ebind (mem_write dst op [255]) (put_length (len - 255) (op + 1))
      else ebind (mem_write dst op [word_of_nat len]) (\<lambda>dst. Inr (op + 1, dst)))"

fun put_match_length :: "nat \<Rightarrow> nat \<Rightarrow> buf \<Rightarrow> ross_error + (nat \<times> buf)" where
  "put_match_length len op dst =
     (if len \<ge> 510 then ebind (mem_write dst op [255, 255]) (put_match_length (len - 510) (op + 2))
      else
        ebind (if len \<ge> 255 then ebind (mem_write dst op [255]) (\<lambda>dst. Inr (len - 255, op + 1, dst))
               else Inr (len, op, dst)) (\<lambda>(len, op, dst).
        ebind (mem_write dst op [word_of_nat len]) (\<lambda>dst. Inr (op + 1, dst))))"

declare put_length.simps [simp del] put_match_length.simps [simp del]

text \<open>
  \<open>olimit\<close> is the end of the output where the output is limited. \<open>None\<close> is the return of 0, for an output
  that is too small.
\<close>

definition past_limit :: "nat option \<Rightarrow> nat \<Rightarrow> bool" where
  "past_limit olimit p \<longleftrightarrow> (case olimit of None \<Rightarrow> False | Some l \<Rightarrow> p > l)"

definition emit_literals :: "nat option \<Rightarrow> buf \<Rightarrow> nat \<Rightarrow> nat \<Rightarrow> nat \<Rightarrow> buf \<Rightarrow> ross_error + (nat \<times> nat \<times> buf) option" where
  "emit_literals olimit src anchor ip op dst =
     (let litLength = ip - anchor; token = op; op = op + 1 in
      if past_limit olimit (op + litLength + (2 + 1 + LASTLITERALS) + litLength div 255) then Inr None
      else
        ebind (if litLength \<ge> RUN_MASK then
                 ebind (mem_write dst token [word_of_nat (RUN_MASK * 16)]) (put_length (litLength - RUN_MASK) op)
               else ebind (mem_write dst token [word_of_nat (litLength * 16)]) (\<lambda>dst. Inr (op, dst))) (\<lambda>(op, dst).
        ebind (LZ4_wildCopy (copy_from src 8) op anchor (op + litLength) dst) (\<lambda>dst.
          Inr (Some (token, op + litLength, dst)))))"

text \<open>From \<open>_next_match\<close> to the encoded length of the match.\<close>

definition emit_match :: "nat option \<Rightarrow> buf \<Rightarrow> nat \<Rightarrow> nat \<Rightarrow> nat \<Rightarrow> nat \<Rightarrow> buf \<Rightarrow> ross_error + (nat \<times> nat \<times> buf) option" where
  "emit_match olimit src ip match token op dst =
     ebind (LZ4_writeLE16 dst op (word_of_int (int ip - int match))) (\<lambda>dst.
       let op = op + 2 in
       ebind (LZ4_count src (ip + MINMATCH) (match + MINMATCH) (length src - LASTLITERALS)) (\<lambda>matchLength.
         let ip = ip + (MINMATCH + matchLength) in
         if past_limit olimit (op + (1 + LASTLITERALS) + matchLength div 256) then Inr None
         else
           ebind (mem_byte dst token) (\<lambda>b.
             if matchLength \<ge> ML_MASK then
               ebind (mem_write dst token [b + word_of_nat ML_MASK]) (\<lambda>dst.
               ebind (put_match_length (matchLength - ML_MASK) op dst) (\<lambda>(op, dst). Inr (Some (ip, op, dst))))
             else ebind (mem_write dst token [b + word_of_nat matchLength]) (\<lambda>dst. Inr (Some (ip, op, dst))))))"

definition last_literals :: "nat option \<Rightarrow> buf \<Rightarrow> nat \<Rightarrow> nat \<Rightarrow> buf \<Rightarrow> ross_error + (nat \<times> buf) option" where
  "last_literals olimit src anchor op dst =
     (let lastRun = length src - anchor in
      if past_limit olimit (op + lastRun + 1 + (lastRun + 255 - RUN_MASK) div 255) then Inr None
      else
        ebind (if lastRun \<ge> RUN_MASK then
                 ebind (mem_write dst op [word_of_nat (RUN_MASK * 16)]) (put_length (lastRun - RUN_MASK) (op + 1))
               else ebind (mem_write dst op [word_of_nat (lastRun * 16)]) (\<lambda>dst. Inr (op + 1, dst))) (\<lambda>(op, dst).
        ebind (copy_from src lastRun op anchor dst) (\<lambda>dst. Inr (Some (op + lastRun, dst)))))"

text \<open>Where the main loop is: before the search from \<open>ip\<close>, or at \<open>_next_match\<close>.\<close>

datatype lz4_phase = Search nat nat | Next_match nat nat nat

fun compress_loop :: "nat \<Rightarrow> nat option \<Rightarrow> buf \<Rightarrow> tableType \<Rightarrow> 32 word \<Rightarrow> lz4_phase \<Rightarrow> (nat \<Rightarrow> nat) \<Rightarrow> nat \<Rightarrow> nat \<Rightarrow> buf
    \<Rightarrow> ross_error + (nat \<times> buf) option" where
  "compress_loop 0 olimit src t acceleration ph tab anchor op dst = Inl Out_Of_Fuel"
| "compress_loop (Suc k) olimit src t acceleration (Search ip forwardH) tab anchor op dst =
     ebind (find_match (length src) src t tab ip 1 (push_bit LZ4_skipTrigger acceleration) forwardH) (\<lambda>r. case r of
       None \<Rightarrow> last_literals olimit src anchor op dst
     | Some (ip, match, tab) \<Rightarrow>
         ebind (catch_up src anchor ip match) (\<lambda>(ip, match).
         ebind (emit_literals olimit src anchor ip op dst) (\<lambda>r. case r of
           None \<Rightarrow> Inr None
         | Some (token, op, dst) \<Rightarrow>
             compress_loop k olimit src t acceleration (Next_match ip match token) tab anchor op dst)))"
| "compress_loop (Suc k) olimit src t acceleration (Next_match ip match token) tab anchor op dst =
     ebind (emit_match olimit src ip match token op dst) (\<lambda>r. case r of
       None \<Rightarrow> Inr None
     | Some (ip, op, dst) \<Rightarrow>
         let anchor = ip in
         if ip > length src - MFLIMIT then last_literals olimit src anchor op dst
         else
           ebind (LZ4_putPosition src (ip - 2) tab t) (\<lambda>tab.
           ebind (LZ4_getPosition src ip tab t) (\<lambda>match.
           ebind (LZ4_putPosition src ip tab t) (\<lambda>tab.
           ebind (if match + MAX_DISTANCE \<ge> ip then same_word src match ip else Inr False) (\<lambda>found.
             if found then
               ebind (mem_write dst op [0]) (\<lambda>dst.
                 compress_loop k olimit src t acceleration (Next_match ip match op) tab anchor (op + 1) dst)
             else
               ebind (LZ4_hashPosition src (ip + 1) t) (\<lambda>forwardH.
                 compress_loop k olimit src t acceleration (Search (ip + 1) forwardH) tab anchor op dst))))))"

definition LZ4_compress_generic :: "(nat \<Rightarrow> nat) \<Rightarrow> buf \<Rightarrow> buf \<Rightarrow> nat option \<Rightarrow> tableType \<Rightarrow> 32 word
    \<Rightarrow> ross_error + (nat \<times> buf) option" where
  "LZ4_compress_generic tab src dst olimit t acceleration =
     (if length src > LZ4_MAX_INPUT_SIZE then Inr None
      else if t = byU16 \<and> length src \<ge> LZ4_64Klimit then Inr None
      else if length src < LZ4_minLength then last_literals olimit src 0 0 dst
      else
        ebind (LZ4_putPosition src 0 tab t) (\<lambda>tab.
        ebind (LZ4_hashPosition src 1 t) (\<lambda>forwardH.
          compress_loop (length src) olimit src t acceleration (Search 1 forwardH) tab 0 0 dst)))"

text \<open>\<open>LZ4_resetStream\<close> clears the state, a buffer of \<open>szs\<close> bytes: the table is all zero.\<close>

definition LZ4_resetStream :: "nat \<Rightarrow> ross_error + (nat \<Rightarrow> nat)" where
  "LZ4_resetStream szs = (if szs < LZ4_STREAMSIZE then Inl Bad_Pointer else Inr (\<lambda>_. 0))"

definition LZ4_compress_fast_extState :: "nat \<Rightarrow> buf \<Rightarrow> buf \<Rightarrow> nat \<Rightarrow> 32 word \<Rightarrow> ross_error + (nat \<times> buf) option" where
  "LZ4_compress_fast_extState szs src dst maxOutputSize acceleration =
     ebind (LZ4_resetStream szs) (\<lambda>tab.
       let acceleration = (if sint acceleration < 1 then 1 else acceleration);
           t = (if length src < LZ4_64Klimit then byU16 else byU32)
       in if maxOutputSize \<ge> LZ4_compressBound (length src)
          then LZ4_compress_generic tab src dst None t acceleration
          else LZ4_compress_generic tab src dst (Some maxOutputSize) t acceleration)"

section \<open>Decompression\<close>

function read_length :: "buf \<Rightarrow> nat \<Rightarrow> nat \<Rightarrow> ross_error + (nat \<times> nat)" where
  "read_length src ip len =
     ebind (mem_byte src ip) (\<lambda>s. if s = 255 then read_length src (ip + 1) (len + 255) else Inr (ip + 1, len + unat s))"
  by pat_completeness auto
termination by (relation "measure (\<lambda>(src, ip, len). length src - ip)") (auto simp: mem_byte_def split: if_splits)

declare read_length.simps [simp del]

definition dec32table :: "nat list" where
  "dec32table = [4, 1, 2, 1, 4, 4, 4, 4]"

definition dec64table :: "int list" where
  "dec64table = [0, 0, 0, -1, 0, 1, 2, 3]"

text \<open>The copy of single bytes, each read after the one before was written.\<close>

fun copy_bytes :: "nat \<Rightarrow> nat \<Rightarrow> nat \<Rightarrow> buf \<Rightarrow> ross_error + buf" where
  "copy_bytes 0 d s m = Inr m"
| "copy_bytes (Suc n) d s m = ebind (mem_byte m s) (\<lambda>b. ebind (mem_write m d [b]) (copy_bytes n (d + 1) (s + 1)))"

text \<open>The first eight bytes of a match.\<close>

definition copy_first8 :: "nat \<Rightarrow> nat \<Rightarrow> buf \<Rightarrow> ross_error + (nat \<times> nat \<times> buf)" where
  "copy_first8 op match dst =
     (if op - match < 8 then
        ebind (copy_bytes 4 op match dst) (\<lambda>dst.
        ebind (copy_within 4 (op + 4) (match + dec32table ! (op - match)) dst) (\<lambda>dst.
          Inr (op + 8, nat (int (match + dec32table ! (op - match)) - dec64table ! (op - match)), dst)))
      else ebind (copy_within 8 op match dst) (\<lambda>dst. Inr (op + 8, match + 8, dst)))"

text \<open>The copy of a match; \<open>None\<close> is the jump to \<open>_output_error\<close>.\<close>

definition copy_match :: "nat \<Rightarrow> nat \<Rightarrow> nat \<Rightarrow> nat \<Rightarrow> buf \<Rightarrow> ross_error + (nat \<times> buf) option" where
  "copy_match oend op match len dst =
     (let cpy = op + len in
      ebind (copy_first8 op match dst) (\<lambda>(op, match, dst).
        if cpy + 12 > oend then
          if cpy + LASTLITERALS > oend then Inr None
          else
            ebind (if op + 8 < oend then
                     ebind (LZ4_wildCopy (copy_within 8) op match (oend - 8) dst) (\<lambda>dst. Inr (oend - 8, match + (oend - 8 - op), dst))
                   else Inr (op, match, dst)) (\<lambda>(op, match, dst).
            ebind (copy_bytes (cpy - op) op match dst) (\<lambda>dst. Inr (Some (cpy, dst))))
        else ebind (LZ4_wildCopy (copy_within 8) op match cpy dst) (\<lambda>dst. Inr (Some (cpy, dst)))))"

text \<open>
  The main loop. The value is the number of bytes read, or a negative number after an error; a match that
  begins before the output is a read outside the buffer.
\<close>

fun decompress_loop :: "nat \<Rightarrow> buf \<Rightarrow> nat \<Rightarrow> nat \<Rightarrow> nat \<Rightarrow> buf \<Rightarrow> ross_error + (int \<times> buf)" where
  "decompress_loop 0 src oend ip op dst = Inl Out_Of_Fuel"
| "decompress_loop (Suc k) src oend ip op dst =
     ebind (mem_byte src ip) (\<lambda>token.
       let ip = ip + 1; len = unat (drop_bit 4 token) in
       ebind (if len = RUN_MASK then read_length src ip len else Inr (ip, len)) (\<lambda>(ip, len).
         let cpy = op + len in
         if cpy + COPYLENGTH > oend then
           if cpy \<noteq> oend then Inr (- int ip - 1, dst)
           else ebind (copy_from src len op ip dst) (\<lambda>dst. Inr (int (ip + len), dst))
         else
           ebind (LZ4_wildCopy (copy_from src 8) op ip cpy dst) (\<lambda>dst.
             let ip = ip + len; op = cpy in
             ebind (LZ4_readLE16 src ip) (\<lambda>offset.
               let ip = ip + 2 in
               if unat offset > cpy then Inl Bad_Pointer
               else
                 let match = cpy - unat offset; len = unat (token AND word_of_nat ML_MASK) in
                 ebind (if len = ML_MASK then read_length src ip len else Inr (ip, len)) (\<lambda>(ip, len).
                   ebind (copy_match oend op match (len + MINMATCH) dst) (\<lambda>r. case r of
                     None \<Rightarrow> Inr (- int ip - 1, dst)
                   | Some (op, dst) \<Rightarrow> decompress_loop k src oend ip op dst))))))"

definition LZ4_decompress_fast :: "buf \<Rightarrow> buf \<Rightarrow> nat \<Rightarrow> ross_error + (int \<times> buf)" where
  "LZ4_decompress_fast src dst originalSize =
     (if originalSize = 0 then ebind (mem_byte src 0) (\<lambda>b. Inr (if b = 0 then 1 else -1, dst))
      else decompress_loop (length src) src originalSize 0 0 dst)"

end
