(* ===== verification/Lz4_Lemmas.thy ===== *)
theory Lz4_Lemmas
  imports Lz4 "HOL-Library.Sublist"
begin

text \<open>
  Copying in \<open>core/lz4.c\<close>: the wide copies write more than they should, but what they write at the place
  they should is right. The front of a buffer that is known is a prefix of it.
\<close>

section \<open>Buffers\<close>

lemma prefix_write:
  assumes "prefix out m" "length out + length xs \<le> length m"
  shows "\<exists>m'. mem_write m (length out) xs = Inr m' \<and> prefix (out @ xs) m' \<and> length m' = length m"
proof -
  have "take (length out) m = out" using assms(1) by (auto simp: prefix_def)
  then show ?thesis using assms(2) by (simp add: mem_write_def)
qed

lemma mem_byte_Inr [simp]: "p < length m \<Longrightarrow> mem_byte m p = Inr (m ! p)"
  by (simp add: mem_byte_def)

lemma mem_read_Inr [simp]: "p + n \<le> length m \<Longrightarrow> mem_read m p n = Inr (take n (drop p m))"
  by (simp add: mem_read_def)

lemma prefix_nth: "prefix out m \<Longrightarrow> i < length out \<Longrightarrow> m ! i = out ! i"
  by (auto simp: prefix_def nth_append)

lemma prefix_take_drop: "prefix out m \<Longrightarrow> p + n \<le> length out \<Longrightarrow> take n (drop p m) = take n (drop p out)"
  by (auto simp: prefix_def)

lemma prefix_shorter: "prefix (out @ xs) m \<Longrightarrow> prefix (out @ take n xs) m"
  by (metis append_prefixD append_take_drop_id append.assoc)

text \<open>Words and their bytes.\<close>

lemma unat_small: "n < 2 ^ LENGTH('a) \<Longrightarrow> unat (word_of_nat n :: 'a::len word) = n"
  by (simp add: unsigned_of_nat take_bit_nat_eq_self)

lemma bit_word_rcat:
  fixes ws :: "'a::len word list"
  shows "bit (word_rcat (rev ws) :: 'b::len word) n \<longleftrightarrow>
    n < LENGTH('b) \<and> n div LENGTH('a) < length ws \<and> bit (ws ! (n div LENGTH('a))) (n mod LENGTH('a))"
  by (auto simp: word_rcat_def bit_word_of_int_iff bit_horner_sum_uint_exp_iff)

section \<open>Copying a match, byte by byte\<close>

fun lz_copy :: "nat \<Rightarrow> nat \<Rightarrow> 'a list \<Rightarrow> 'a list" where
  "lz_copy 0 off out = out"
| "lz_copy (Suc k) off out = lz_copy k off (out @ [out ! (length out - off)])"

lemma lz_copy_length [simp]: "length (lz_copy k off out) = length out + k"
  by (induction k arbitrary: out) simp_all

lemma lz_copy_prefix: "prefix out (lz_copy k off out)"
proof (induction k arbitrary: out)
  case (Suc k)
  then show ?case using append_prefixD by (metis lz_copy.simps(2))
qed simp

lemma lz_copy_add: "lz_copy (j + k) off out = lz_copy k off (lz_copy j off out)"
  by (induction j arbitrary: out) simp_all

lemma lz_copy_shorter: "j \<le> k \<Longrightarrow> prefix (lz_copy j off out) (lz_copy k off out)"
  using lz_copy_prefix[of "lz_copy j off out" "k - j" off] by (simp add: lz_copy_add[symmetric])

lemma lz_copy_nth:
  assumes "1 \<le> off" "off \<le> length out" "length out \<le> i" "i < length out + k"
  shows "lz_copy k off out ! i = lz_copy k off out ! (i - off)"
  using assms
proof (induction k arbitrary: out)
  case (Suc k)
  let ?o = "out @ [out ! (length out - off)]"
  have p: "prefix ?o (lz_copy k off ?o)" by (rule lz_copy_prefix)
  show ?case
  proof (cases "i = length out")
    case True
    have "lz_copy k off ?o ! length out = ?o ! length out" "lz_copy k off ?o ! (length out - off) = ?o ! (length out - off)"
      using p by (rule prefix_nth, simp)+
    then show ?thesis using True Suc.prems by (simp add: nth_append)
  next
    case False
    then show ?thesis using Suc.IH[of ?o] Suc.prems by simp
  qed
qed simp

lemma lz_copy_unique:
  assumes "1 \<le> off" "off \<le> length out" "prefix out zs" "length zs = length out + k"
    "\<And>i. length out \<le> i \<Longrightarrow> i < length zs \<Longrightarrow> zs ! i = zs ! (i - off)"
  shows "zs = lz_copy k off out"
  using assms
proof (induction k arbitrary: out)
  case 0
  then show ?case by (auto simp: prefix_def)
next
  case (Suc k)
  obtain ys where ys: "zs = out @ ys" using Suc.prems(3) by (auto simp: prefix_def)
  then have "ys \<noteq> []" using Suc.prems(4) by auto
  note ys = ys this
  have "zs ! length out = out ! (length out - off)"
    using Suc.prems(5)[of "length out"] Suc.prems(1-4) by (auto simp: prefix_nth)
  then have "hd ys = out ! (length out - off)" using ys by (simp add: nth_append hd_conv_nth)
  then have "prefix (out @ [out ! (length out - off)]) zs" using ys by (cases ys) auto
  then show ?case using Suc.IH[of "out @ [out ! (length out - off)]"] Suc.prems by simp
qed

text \<open>What repeats with a distance repeats with its multiples, once it has repeated often enough.\<close>

lemma lz_copy_back:
  assumes "1 \<le> off" "off \<le> length out" "m * off \<le> k" "length out + (m * off - off) \<le> i" "i < length out + k" "1 \<le> m"
  shows "lz_copy k off out ! i = lz_copy k off out ! (i - m * off)"
  using assms(3,4,6)
proof (induction m)
  case (Suc m)
  show ?case
  proof (cases "m = 0")
    case True
    then show ?thesis using lz_copy_nth[of off out i k] assms(1,2,5) Suc.prems by simp
  next
    case False
    have o: "off \<le> m * off" using False by simp
    have "lz_copy k off out ! i = lz_copy k off out ! (i - m * off)"
      using Suc.IH Suc.prems False o by simp
    also have "\<dots> = lz_copy k off out ! (i - m * off - off)"
      using Suc.prems assms(1,2,5) o by (intro lz_copy_nth) simp_all
    finally show ?thesis by (simp add: add.commute)
  qed
qed simp

lemma lz_copy_multiple:
  assumes "1 \<le> off" "off \<le> length out" "1 \<le> m" "m * off \<le> off + j"
  shows "lz_copy k (m * off) (lz_copy j off out) = lz_copy k off (lz_copy j off out)"
proof -
  let ?zs = "lz_copy (j + k) off out"
  have l: "off \<le> m * off" using assms(1,3) by simp
  have "?zs = lz_copy k (m * off) (lz_copy j off out)"
  proof (rule lz_copy_unique)
    show "?zs ! i = ?zs ! (i - m * off)" if "length (lz_copy j off out) \<le> i" "i < length ?zs" for i
    proof -
      have "?zs ! i' = ?zs ! (i' - n * off)" if "1 \<le> n" "n * off \<le> off + j" "length out + j \<le> i'" "i' < length out + j + k" for i' n
        using that(1,2)
      proof (induction n)
        case (Suc n)
        show ?case
        proof (cases "n = 0")
          case True
          then show ?thesis using lz_copy_nth[of off out i' "j + k"] assms(1,2) that(3,4) by simp
        next
          case False
          have s: "?zs ! i' = ?zs ! (i' - n * off)" using Suc.IH Suc.prems False by simp
          have "?zs ! (i' - n * off) = ?zs ! (i' - n * off - off)"
            using Suc.prems that(3,4) assms(1,2) by (intro lz_copy_nth) simp_all
          then show ?thesis using s by (simp add: add.commute)
        qed
      qed simp
      then show ?thesis using that assms(3,4) by simp
    qed
  qed (use assms l in \<open>simp_all add: lz_copy_shorter\<close>)
  then show ?thesis by (simp add: lz_copy_add)
qed

lemma lz_copy_near: "k \<le> off \<Longrightarrow> off \<le> length out \<Longrightarrow> lz_copy k off out = out @ take k (drop (length out - off) out)"
proof -
  assume a: "k \<le> off" "off \<le> length out"
  show ?thesis
  proof (cases "k = 0")
    case False
    have "out @ take k (drop (length out - off) out) = lz_copy k off out"
    proof (rule lz_copy_unique)
      fix i assume "length out \<le> i" "i < length (out @ take k (drop (length out - off) out))"
      then show "(out @ take k (drop (length out - off) out)) ! i = (out @ take k (drop (length out - off) out)) ! (i - off)"
        using a False by (auto simp: nth_append)
    qed (use a False in auto)
    then show ?thesis by simp
  qed simp
qed

section \<open>The copies of the code\<close>

text \<open>How many bytes a wide copy to the end \<open>e\<close> writes from \<open>d\<close>.\<close>

definition wide :: "nat \<Rightarrow> nat \<Rightarrow> nat" where
  "wide d e = 8 * max 1 ((e - d + 7) div 8)"

lemma wide_step: "wide d e = (if d + 8 < e then 8 + wide (d + 8) e else 8)"
proof -
  have "d + 8 < e \<Longrightarrow> (e - d + 7) div 8 = Suc ((e - (d + 8) + 7) div 8)" by simp
  moreover have "\<not> d + 8 < e \<Longrightarrow> (e - d + 7) div 8 \<le> 1" by simp
  moreover have "d + 8 < e \<Longrightarrow> 1 \<le> (e - (d + 8) + 7) div 8" by simp
  ultimately show ?thesis by (auto simp: wide_def max_def)
qed

lemma wide_bounds: "e - d \<le> wide d e" "d + wide d e \<le> max (d + 8) (e + 7)" "8 \<le> wide d e"
  by (auto simp: wide_def max_def)

lemma wide_upto: "wide d (d + n) \<le> n + 8" "n \<le> wide d (d + n)"
  using wide_bounds(2)[of d "d + n"] wide_bounds(1)[of "d + n" d] by (auto simp: max_def split: if_splits)

lemma wildCopy_from:
  assumes "prefix out m" "s + wide (length out) e \<le> length src" "length out + wide (length out) e \<le> length m"
  shows "\<exists>m'. LZ4_wildCopy (copy_from src 8) (length out) s e m = Inr m' \<and>
    prefix (out @ take (wide (length out) e) (drop s src)) m' \<and> length m' = length m"
  using assms
proof (induction "e - length out" arbitrary: out s m rule: less_induct)
  case less
  let ?xs = "take 8 (drop s src)"
  have w: "8 \<le> wide (length out) e" by (rule wide_bounds)
  have x: "length ?xs = 8" using less.prems(2) w by simp
  obtain m1 where m1: "mem_write m (length out) ?xs = Inr m1" "prefix (out @ ?xs) m1" "length m1 = length m"
    using prefix_write[OF less.prems(1), of ?xs] less.prems(3) w x by auto
  have c: "copy_from src 8 (length out) s m = Inr m1" using m1(1) less.prems(2) w by (simp add: copy_from_def)
  show ?case
  proof (cases "length out + 8 < e")
    case True
    have wd: "wide (length out) e = 8 + wide (length (out @ ?xs)) e" using True x by (subst wide_step) simp
    have "\<exists>m'. LZ4_wildCopy (copy_from src 8) (length (out @ ?xs)) (s + 8) e m1 = Inr m' \<and>
        prefix ((out @ ?xs) @ take (wide (length (out @ ?xs)) e) (drop (s + 8) src)) m' \<and> length m' = length m1"
      by (rule less.hyps[OF _ m1(2)]) (use True m1(3) less.prems(2,3) wd x in \<open>simp_all del: length_take length_drop\<close>)
    then obtain m2 where m2: "LZ4_wildCopy (copy_from src 8) (length (out @ ?xs)) (s + 8) e m1 = Inr m2"
      "prefix ((out @ ?xs) @ take (wide (length (out @ ?xs)) e) (drop (s + 8) src)) m2" "length m2 = length m1" by blast
    have "take (wide (length out) e) (drop s src) = ?xs @ take (wide (length (out @ ?xs)) e) (drop (s + 8) src)"
      unfolding wd by (simp add: take_add add.commute)
    then show ?thesis using m2 m1(3) c True x by (simp add: LZ4_wildCopy.simps[of _ "length out"])
  next
    case False
    then have "wide (length out) e = 8" by (subst wide_step) simp
    then show ?thesis using m1 c False by (simp add: LZ4_wildCopy.simps[of _ "length out"])
  qed
qed

lemma copy_within_ok:
  assumes "prefix out m" "n \<le> D" "D \<le> length out" "length out + n \<le> length m" "1 \<le> n"
  shows "\<exists>m'. copy_within n (length out) (length out - D) m = Inr m' \<and> prefix (lz_copy n D out) m' \<and> length m' = length m"
proof -
  let ?xs = "take n (drop (length out - D) out)"
  have t: "take n (drop (length out - D) m) = ?xs" using prefix_take_drop[OF assms(1), of "length out - D" n] assms(2,3) by simp
  have "length ?xs = n" using assms(2,3) by simp
  then obtain m' where "mem_write m (length out) ?xs = Inr m'" "prefix (out @ ?xs) m'" "length m' = length m"
    using prefix_write[OF assms(1), of ?xs] assms(4) by auto
  moreover have "\<not> length out < length out - D + n" using assms(2,3,5) by arith
  ultimately show ?thesis using assms t by (auto simp: copy_within_def lz_copy_near)
qed

lemma wildCopy_within:
  assumes "prefix out m" "8 \<le> D" "D \<le> length out" "length out + wide (length out) e \<le> length m"
  shows "\<exists>m'. LZ4_wildCopy (copy_within 8) (length out) (length out - D) e m = Inr m' \<and>
    prefix (lz_copy (wide (length out) e) D out) m' \<and> length m' = length m"
  using assms
proof (induction "e - length out" arbitrary: out m rule: less_induct)
  case less
  have w: "8 \<le> wide (length out) e" by (rule wide_bounds)
  obtain m1 where m1: "copy_within 8 (length out) (length out - D) m = Inr m1" "prefix (lz_copy 8 D out) m1" "length m1 = length m"
    using copy_within_ok[OF less.prems(1-3)] less.prems(4) w by auto
  show ?case
  proof (cases "length out + 8 < e")
    case True
    have wd: "wide (length out) e = 8 + wide (length (lz_copy 8 D out)) e" using True by (subst wide_step) simp
    have "\<exists>m'. LZ4_wildCopy (copy_within 8) (length (lz_copy 8 D out)) (length (lz_copy 8 D out) - D) e m1 = Inr m' \<and>
        prefix (lz_copy (wide (length (lz_copy 8 D out)) e) D (lz_copy 8 D out)) m' \<and> length m' = length m1"
      by (rule less.hyps[OF _ m1(2)]) (use True m1(3) less.prems(2-4) wd in simp_all)
    then obtain m2 where m2: "LZ4_wildCopy (copy_within 8) (length (lz_copy 8 D out)) (length (lz_copy 8 D out) - D) e m1 = Inr m2"
      "prefix (lz_copy (wide (length (lz_copy 8 D out)) e) D (lz_copy 8 D out)) m2" "length m2 = length m1" by blast
    have s: "length out - D + 8 = length (lz_copy 8 D out) - D" "length out + 8 = length (lz_copy 8 D out)" using less.prems(3) by simp_all
    have "LZ4_wildCopy (copy_within 8) (length out) (length out - D) e m =
        LZ4_wildCopy (copy_within 8) (length out + 8) (length out - D + 8) e m1"
      using True m1(1) by (subst LZ4_wildCopy.simps) simp
    also have "\<dots> = Inr m2" unfolding s by (rule m2(1))
    finally show ?thesis using m2(2,3) m1(3) unfolding wd lz_copy_add by simp
  next
    case False
    then have "wide (length out) e = 8" by (subst wide_step) simp
    then show ?thesis using m1 False by (simp add: LZ4_wildCopy.simps[of _ "length out"])
  qed
qed

lemma copy_bytes_ok:
  assumes "prefix out m" "1 \<le> D" "D \<le> length out" "length out + n \<le> length m"
  shows "\<exists>m'. copy_bytes n (length out) (length out - D) m = Inr m' \<and> prefix (lz_copy n D out) m' \<and> length m' = length m"
  using assms
proof (induction n arbitrary: out m)
  case (Suc n)
  let ?b = "out ! (length out - D)"
  have b: "mem_byte m (length out - D) = Inr ?b"
    using prefix_nth[OF Suc.prems(1), of "length out - D"] Suc.prems by simp
  obtain m1 where m1: "mem_write m (length out) [?b] = Inr m1" "prefix (out @ [?b]) m1" "length m1 = length m"
    using prefix_write[OF Suc.prems(1), of "[?b]"] Suc.prems by auto
  have "length (out @ [?b]) - D = Suc (length out - D)" using Suc.prems(3) by simp
  then show ?case using Suc.IH[OF m1(2)] Suc.prems m1 b by simp
qed simp

end
