(* ===== verification/Lz4_Decode.thy ===== *)
theory Lz4_Decode
  imports Lz4_Lemmas
begin

text \<open>
  The format of compressed data and that \<open>LZ4_decompress_fast\<close> (\<open>core/lz4.c\<close>) expands it.
\<close>

section \<open>The format\<close>

text \<open>A sequence has literals, the distance of a match, and the length of the match less \<open>MINMATCH\<close>.\<close>

type_synonym lz4_seq = "buf \<times> nat \<times> nat"

function ext :: "nat \<Rightarrow> buf" where
  "ext n = (if n \<ge> 255 then 255 # ext (n - 255) else [word_of_nat n])"
  by pat_completeness auto
termination by (relation "measure (\<lambda>n. n)") auto

declare ext.simps [simp del]

definition len_ext :: "nat \<Rightarrow> buf" where
  "len_ext n = (if n \<ge> 15 then ext (n - 15) else [])"

definition token :: "nat \<Rightarrow> nat \<Rightarrow> 8 word" where
  "token a b = word_of_nat (16 * min a 15 + min b 15)"

definition offset_bytes :: "nat \<Rightarrow> buf" where
  "offset_bytes off = (let v = word_of_nat off :: 16 word in [ucast v, ucast (drop_bit 8 v)])"

fun fmt_seq :: "lz4_seq \<Rightarrow> buf" where
  "fmt_seq (l, off, ml) = token (length l) ml # len_ext (length l) @ l @ offset_bytes off @ len_ext ml"

definition fmt_last :: "buf \<Rightarrow> buf" where
  "fmt_last l = token (length l) 0 # len_ext (length l) @ l"

fun expand :: "buf \<Rightarrow> lz4_seq list \<Rightarrow> buf" where
  "expand out [] = out"
| "expand out ((l, off, ml) # ss) = expand (lz_copy (ml + 4) off (out @ l)) ss"

fun seqs_ok :: "nat \<Rightarrow> buf \<Rightarrow> lz4_seq list \<Rightarrow> bool" where
  "seqs_ok n out [] \<longleftrightarrow> True"
| "seqs_ok n out ((l, off, ml) # ss) \<longleftrightarrow> 1 \<le> off \<and> off \<le> length (out @ l) \<and> off < 2 ^ 16 \<and> length (out @ l) + 12 \<le> n \<and>
     length (out @ l) + (ml + 4) + 5 \<le> n \<and> seqs_ok n (lz_copy (ml + 4) off (out @ l)) ss"

lemma expand_append: "expand out (ss @ ts) = expand (expand out ss) ts"
  by (induction out ss rule: expand.induct) simp_all

lemma seqs_ok_append: "seqs_ok n out (ss @ ts) \<longleftrightarrow> seqs_ok n out ss \<and> seqs_ok n (expand out ss) ts"
  by (induction n out ss rule: seqs_ok.induct) auto

lemma expand_end: "seqs_ok n out ss \<Longrightarrow> ss \<noteq> [] \<Longrightarrow> length (expand out ss) + 5 \<le> n"
proof (induction n out ss rule: seqs_ok.induct)
  case (2 n out l off ml ss)
  then show ?case by (cases ss) auto
qed simp

lemma expand_prefix: "prefix out (expand out ss)"
proof (induction out ss rule: expand.induct)
  case (2 out l off ml ss)
  have "prefix (out @ l) (lz_copy (ml + 4) off (out @ l))" by (rule lz_copy_prefix)
  then show ?case using 2 by (metis append_prefixD expand.simps(2) prefix_order.trans)
qed simp

text \<open>Lengths and distances are read as they were written.\<close>

lemma token_parts:
  "unat (drop_bit 4 (token a b)) = min a 15" "unat (token a b AND word_of_nat ML_MASK) = min b 15"
proof -
  have u: "unat (token a b) = 16 * min a 15 + min b 15" unfolding token_def by (rule unat_small) simp
  show "unat (drop_bit 4 (token a b)) = min a 15" by (subst unat_drop_bit_eq) (simp add: u drop_bit_eq_div)
  have "(word_of_nat ML_MASK :: 8 word) = mask 4" by (simp add: ML_MASK_def mask_eq_exp_minus_1)
  then have "token a b AND word_of_nat ML_MASK = take_bit 4 (token a b)" by (simp add: take_bit_eq_mask)
  then have "unat (token a b AND word_of_nat ML_MASK) = take_bit 4 (unat (token a b))" by (simp only: unsigned_take_bit_eq)
  then show "unat (token a b AND word_of_nat ML_MASK) = min b 15" unfolding u by (simp add: take_bit_eq_mod)
qed

lemma read_offset:
  assumes "drop ip src = offset_bytes off @ rest" "off < 2 ^ 16"
  shows "LZ4_readLE16 src ip = Inr (word_of_nat off)" "unat (word_of_nat off :: 16 word) = off"
proof -
  let ?v = "word_of_nat off :: 16 word"
  have "length (offset_bytes off @ rest) = length src - ip" using assms(1) by (metis length_drop)
  then have "ip + 2 \<le> length src" by (simp add: offset_bytes_def Let_def)
  moreover have "word_rcat (rev [ucast ?v :: 8 word, ucast (drop_bit 8 ?v)]) = ?v"
  proof (rule bit_eqI)
    fix n assume n: "possible_bit TYPE(16 word) n"
    then have "n < 16" by simp
    then have "n div 8 = 0 \<and> n mod 8 = n \<and> n < 8 \<or> n div 8 = 1 \<and> 8 + n mod 8 = n" by presburger
    then show "bit (word_rcat (rev [ucast ?v :: 8 word, ucast (drop_bit 8 ?v)]) :: 16 word) n = bit ?v n"
      using \<open>n < 16\<close> unfolding bit_word_rcat by (auto simp: bit_ucast_iff bit_drop_bit_eq)
  qed
  ultimately show "LZ4_readLE16 src ip = Inr ?v"
    using assms(1) by (simp add: LZ4_readLE16_def LZ4_read16_def offset_bytes_def Let_def numeral_2_eq_2)
  show "unat ?v = off" using assms(2) by (intro unat_small) simp
qed

lemma drop_step: "drop ip src = xs @ rest \<Longrightarrow> drop (ip + length xs) src = rest"
  by (metis append_eq_conv_conj drop_drop add.commute)

lemma drop_byte: "drop ip src = b # rest \<Longrightarrow> mem_byte src ip = Inr b"
  by (metis drop_all list.distinct(1) mem_byte_Inr not_le nth_via_drop)

lemma drop_room: "drop ip src = xs @ rest \<Longrightarrow> xs \<noteq> [] \<Longrightarrow> ip + length xs + length rest = length src"
  by (metis append_is_Nil_conv drop_eq_Nil length_append length_drop linorder_not_le less_imp_le add_diff_inverse_nat add.assoc)

lemma read_length_ext:
  assumes "drop ip src = ext n @ rest"
  shows "read_length src ip acc = Inr (ip + length (ext n), acc + n)"
  using assms
proof (induction n arbitrary: ip acc rule: less_induct)
  case (less n)
  show ?case
  proof (cases "n \<ge> 255")
    case True
    then have e: "ext n = 255 # ext (n - 255)" by (subst ext.simps) simp
    have "mem_byte src ip = Inr 255" using less.prems e by (intro drop_byte[where rest = "ext (n - 255) @ rest"]) simp
    moreover have "drop (ip + 1) src = ext (n - 255) @ rest"
      using drop_step[of ip src "[255]" "ext (n - 255) @ rest"] less.prems e by simp
    then have "read_length src (ip + 1) (acc + 255) = Inr (ip + 1 + length (ext (n - 255)), acc + 255 + (n - 255))"
      using less.IH[of "n - 255" "ip + 1" "acc + 255"] True by simp
    ultimately show ?thesis using True e by (subst read_length.simps) simp
  next
    case False
    then have e: "ext n = [word_of_nat n]" by (subst ext.simps) simp
    have u: "unat (word_of_nat n :: 8 word) = n" using False by (intro unat_small) simp
    have "mem_byte src ip = Inr (word_of_nat n)" using less.prems e by (intro drop_byte[where rest = rest]) simp
    moreover have "(word_of_nat n :: 8 word) \<noteq> 255"
    proof
      assume "(word_of_nat n :: 8 word) = 255"
      then have "n = unat (255 :: 8 word)" using u by simp
      then show False using False by simp
    qed
    ultimately show ?thesis using u e by (subst read_length.simps) simp
  qed
qed

text \<open>The same for the length in the token with its extension.\<close>

lemma read_token_length:
  assumes "drop ip src = len_ext n @ rest" "m = min n 15"
  shows "(if m = 15 then read_length src ip m else Inr (ip, m)) = Inr (ip + length (len_ext n), n)"
  using assms read_length_ext[of ip src "n - 15" rest 15] by (auto simp: len_ext_def)

section \<open>The copy of a match\<close>

text \<open>What the two tables are for: the distances after the first four and the first eight bytes are multiples of the offset.\<close>

lemma dec_tables:
  assumes "1 \<le> off" "off < 8"
  shows "\<exists>c. 1 \<le> c \<and> off + 4 - dec32table ! off = c * off \<and> 4 \<le> c * off \<and> c * off \<le> off + 4 \<and> dec32table ! off \<le> 4"
    "\<exists>c. 1 \<le> c \<and> 8 \<le> c * off \<and> c * off \<le> off + 8 \<and> int (c * off) = int off + 8 - int (dec32table ! off) + dec64table ! off"
proof -
  have "off \<in> {1, 2, 3, 4, 5, 6, 7}" using assms by auto
  then show "\<exists>c. 1 \<le> c \<and> off + 4 - dec32table ! off = c * off \<and> 4 \<le> c * off \<and> c * off \<le> off + 4 \<and> dec32table ! off \<le> 4"
  proof (elim insertE emptyE)
    assume "off = 1" then show ?thesis by (intro exI[of _ 4]) (simp add: dec32table_def)
  next
    assume "off = 2" then show ?thesis by (intro exI[of _ 2]) (simp add: dec32table_def)
  next
    assume "off = 3" then show ?thesis by (intro exI[of _ 2]) (simp add: dec32table_def)
  qed (intro exI[of _ 1]; simp add: dec32table_def)+
  show "\<exists>c. 1 \<le> c \<and> 8 \<le> c * off \<and> c * off \<le> off + 8 \<and> int (c * off) = int off + 8 - int (dec32table ! off) + dec64table ! off"
    using \<open>off \<in> {1, 2, 3, 4, 5, 6, 7}\<close>
  proof (elim insertE emptyE)
    assume "off = 1" then show ?thesis by (intro exI[of _ 8]) (simp add: dec32table_def dec64table_def)
  next
    assume "off = 2" then show ?thesis by (intro exI[of _ 4]) (simp add: dec32table_def dec64table_def)
  next
    assume "off = 3" then show ?thesis by (intro exI[of _ 3]) (simp add: dec32table_def dec64table_def)
  qed (intro exI[of _ 2]; simp add: dec32table_def dec64table_def)+
qed

lemma first8:
  assumes p: "prefix out m" and o: "1 \<le> off" "off \<le> length out" and l: "length out + 8 \<le> length m"
  shows "\<exists>m' c. copy_first8 (length out) (length out - off) m = Inr (length out + 8, length out + 8 - c * off, m') \<and>
    prefix (lz_copy 8 off out) m' \<and> length m' = length m \<and> 1 \<le> c \<and> 8 \<le> c * off \<and> c * off \<le> off + 8"
proof (cases "off < 8")
  case True
  obtain c where c: "1 \<le> c" "off + 4 - dec32table ! off = c * off" "4 \<le> c * off" "c * off \<le> off + 4" "dec32table ! off \<le> 4"
    using dec_tables(1)[OF o(1) True] by blast
  obtain e where e: "1 \<le> e" "8 \<le> e * off" "e * off \<le> off + 8" "int (e * off) = int off + 8 - int (dec32table ! off) + dec64table ! off"
    using dec_tables(2)[OF o(1) True] by blast
  obtain m1 where m1: "copy_bytes 4 (length out) (length out - off) m = Inr m1" "prefix (lz_copy 4 off out) m1" "length m1 = length m"
    using copy_bytes_ok[OF p o, of 4] l by auto
  have "\<exists>m'. copy_within 4 (length (lz_copy 4 off out)) (length (lz_copy 4 off out) - c * off) m1 = Inr m' \<and>
      prefix (lz_copy 4 (c * off) (lz_copy 4 off out)) m' \<and> length m' = length m1"
    by (rule copy_within_ok[OF m1(2) c(3)]) (use c(4) o(2) l m1(3) in simp_all)
  then obtain m2 where m2: "copy_within 4 (length (lz_copy 4 off out)) (length (lz_copy 4 off out) - c * off) m1 = Inr m2"
    "prefix (lz_copy 4 (c * off) (lz_copy 4 off out)) m2" "length m2 = length m1" by blast
  have "lz_copy 4 (c * off) (lz_copy 4 off out) = lz_copy (4 + 4) off out"
    unfolding lz_copy_add by (rule lz_copy_multiple[OF o c(1,4)])
  then have 8: "prefix (lz_copy 8 off out) m2" using m2(2) by simp
  have d: "length out - (length out - off) = off" using o(2) by simp
  have s: "length out + 4 = length (lz_copy 4 off out)" "length out - off + dec32table ! off = length (lz_copy 4 off out) - c * off"
    using c(2,5) o(2) by simp_all
  have n: "nat (int (length (lz_copy 4 off out) - c * off) - dec64table ! off) = length out + 8 - e * off"
  proof -
    have "int (length (lz_copy 4 off out) - c * off) = int (length out) - int off + int (dec32table ! off)"
      unfolding s(2)[symmetric] using o(2) by simp
    moreover have "int (length out + 8 - e * off) = int (length out) + 8 - int (e * off)" using e(3) o(2) by simp
    ultimately have "int (length (lz_copy 4 off out) - c * off) - dec64table ! off = int (length out + 8 - e * off)"
      unfolding e(4) by simp
    then show ?thesis by (simp only: nat_int)
  qed
  have "copy_first8 (length out) (length out - off) m = Inr (length out + 8, length out + 8 - e * off, m2)"
    unfolding copy_first8_def d using True m1(1) m2(1) n by (simp only: s if_True ebind.simps)
  then show ?thesis using 8 m2(3) m1(3) e(1-3) by auto
next
  case False
  then obtain m1 where "copy_within 8 (length out) (length out - off) m = Inr m1" "prefix (lz_copy 8 off out) m1" "length m1 = length m"
    using copy_within_ok[OF p, of 8 off] o l by auto
  then show ?thesis using False o by (intro exI[of _ m1] exI[of _ 1]) (simp add: copy_first8_def)
qed

lemma copy_match_ok:
  assumes p: "prefix out m" and o: "1 \<le> off" "off \<le> length out" and l: "oend \<le> length m" "length out + 8 \<le> oend" "length out + len + 5 \<le> oend" "4 \<le> len"
  shows "\<exists>m'. copy_match oend (length out) (length out - off) len m = Inr (Some (length out + len, m')) \<and>
    prefix (lz_copy len off out) m' \<and> length m' = length m"
proof -
  have "length out + 8 \<le> length m" using l by simp
  then obtain m1 c where f: "copy_first8 (length out) (length out - off) m = Inr (length out + 8, length out + 8 - c * off, m1)"
    "prefix (lz_copy 8 off out) m1" "length m1 = length m" "1 \<le> c" "8 \<le> c * off" "c * off \<le> off + 8"
    using first8[OF p o] by blast
  let ?o = "lz_copy 8 off out" and ?D = "c * off" and ?cpy = "length out + len"
  have D: "?D \<le> length ?o" using f(6) o(2) by simp
  have mult: "lz_copy k ?D (lz_copy (8 + j) off out) = lz_copy (8 + j + k) off out" for j k
    unfolding lz_copy_add[of "8 + j"] using f(6) by (intro lz_copy_multiple[OF o f(4)]) simp
  have wild: "\<exists>m'. LZ4_wildCopy (copy_within 8) (length out + 8) (length out + 8 - ?D) e m1 = Inr m' \<and>
      prefix (lz_copy (8 + wide (length out + 8) e) off out) m' \<and> length m' = length m"
    if "length out + 8 + wide (length out + 8) e \<le> length m" for e
    using wildCopy_within[OF f(2,5) D, of e] that f(3) mult[of _ 0] by simp
  have bytes: "\<exists>m'. copy_bytes k (length out + 8 + j) (length out + 8 + j - ?D) m2 = Inr m' \<and>
      prefix (lz_copy (8 + j + k) off out) m' \<and> length m' = length m"
    if "prefix (lz_copy (8 + j) off out) m2" "length m2 = length m" "length out + 8 + j + k \<le> length m" for j k m2
  proof -
    have "\<exists>m'. copy_bytes k (length (lz_copy (8 + j) off out)) (length (lz_copy (8 + j) off out) - ?D) m2 = Inr m' \<and>
        prefix (lz_copy k ?D (lz_copy (8 + j) off out)) m' \<and> length m' = length m2"
      by (rule copy_bytes_ok[OF that(1)]) (use f(4,5) o(1) D that(2,3) in simp_all)
    then show ?thesis unfolding mult using that(2) by (simp add: add.assoc)
  qed
  have short: "prefix (lz_copy len off out) m'" if "prefix (lz_copy k off out) m'" "len \<le> k" for k m'
    using that lz_copy_shorter prefix_order.trans by blast
  show ?thesis
  proof (cases "?cpy + 12 > oend")
    case True
    show ?thesis
    proof (cases "length out + 8 + 8 < oend")
      case room: True
      have w: "length out + 8 + wide (length out + 8) (oend - 8) \<le> length m" "oend - 8 - length out - 8 \<le> wide (length out + 8) (oend - 8)"
        using wide_bounds(1,2)[of "length out + 8" "oend - 8"] wide_bounds(1)[of "oend - 8" "length out + 8"] room l(1) by simp_all
      obtain m2 where m2: "LZ4_wildCopy (copy_within 8) (length out + 8) (length out + 8 - ?D) (oend - 8) m1 = Inr m2"
        "prefix (lz_copy (8 + wide (length out + 8) (oend - 8)) off out) m2" "length m2 = length m"
        using wild[OF w(1)] by blast
      let ?j = "oend - 8 - (length out + 8)"
      have jl: "length out + 8 + ?j + (?cpy - (oend - 8)) \<le> length m" using l room by arith
      have jp: "prefix (lz_copy (8 + ?j) off out) m2"
        using m2(2) lz_copy_shorter[of "8 + ?j" "8 + wide (length out + 8) (oend - 8)" off out] w(2) prefix_order.trans by fastforce
      obtain m3 where m3: "copy_bytes (?cpy - (oend - 8)) (length out + 8 + ?j) (length out + 8 + ?j - ?D) m2 = Inr m3"
        "prefix (lz_copy (8 + ?j + (?cpy - (oend - 8))) off out) m3" "length m3 = length m"
        using bytes[OF jp m2(3) jl] by blast
      have "length out + 8 + ?j = oend - 8" "length out + 8 - ?D + ?j = length out + 8 + ?j - ?D" using room D by simp_all
      then have "copy_match oend (length out) (length out - off) len m = Inr (Some (?cpy, m3))"
        using True room l f(1) m2(1) m3(1) by (simp add: copy_match_def Let_def LASTLITERALS_def)
      moreover have "len \<le> 8 + ?j + (?cpy - (oend - 8))" using room by simp
      ultimately show ?thesis using short[OF m3(2)] m3(3) by blast
    next
      case False
      have jl: "length out + 8 + 0 + (?cpy - (length out + 8)) \<le> length m" using l by arith
      have jp: "prefix (lz_copy (8 + 0) off out) m1" using f(2) by simp
      obtain m3 where m3: "copy_bytes (?cpy - (length out + 8)) (length out + 8) (length out + 8 - ?D) m1 = Inr m3"
        "prefix (lz_copy (8 + (?cpy - (length out + 8))) off out) m3" "length m3 = length m"
        using bytes[OF jp f(3) jl] unfolding add_0_right by blast
      have "copy_match oend (length out) (length out - off) len m = Inr (Some (?cpy, m3))"
        using True False l f(1) m3(1) by (simp add: copy_match_def Let_def LASTLITERALS_def)
      moreover have "len \<le> 8 + (?cpy - (length out + 8))" by simp
      ultimately show ?thesis using short[OF m3(2)] m3(3) by blast
    qed
  next
    case False
    have w: "length out + 8 + wide (length out + 8) ?cpy \<le> length m" "len \<le> 8 + wide (length out + 8) ?cpy"
      using wide_bounds(2)[of "length out + 8" ?cpy] wide_bounds(1)[of ?cpy "length out + 8"] False l(1,4) by auto
    obtain m2 where m2: "LZ4_wildCopy (copy_within 8) (length out + 8) (length out + 8 - ?D) ?cpy m1 = Inr m2"
      "prefix (lz_copy (8 + wide (length out + 8) ?cpy) off out) m2" "length m2 = length m"
      using wild[OF w(1)] by blast
    then have "copy_match oend (length out) (length out - off) len m = Inr (Some (?cpy, m2))"
      using False f(1) by (simp add: copy_match_def Let_def)
    then show ?thesis using short[OF m2(2) w(2)] m2(3) by blast
  qed
qed

section \<open>Decompression\<close>

lemma fmt_long: "5 \<le> length l \<Longrightarrow> 6 \<le> length (concat (map fmt_seq ss) @ fmt_last l)"
  by (simp add: fmt_last_def)

lemma decompress_last:
  assumes "drop ip src = fmt_last l @ rest" "prefix out m" "length out + length l \<le> length m"
  shows "\<exists>m'. decompress_loop (Suc k) src (length out + length l) ip (length out) m = Inr (int (ip + length (fmt_last l)), m') \<and>
    prefix (out @ l) m' \<and> length m' = length m"
proof -
  let ?n = "length l"
  have d: "drop ip src = [token ?n 0] @ (len_ext ?n @ l @ rest)" using assms(1) by (simp add: fmt_last_def)
  have t: "mem_byte src ip = Inr (token ?n 0)" using d by (intro drop_byte) simp
  have d1: "drop (ip + 1) src = len_ext ?n @ (l @ rest)" using drop_step[OF d] by simp
  note r = read_token_length[OF d1 refl]
  let ?ip = "ip + 1 + length (len_ext ?n)"
  have d2: "drop ?ip src = l @ rest" by (rule drop_step[OF d1])
  have "?ip + ?n \<le> length src \<or> l = []" using drop_room[OF d2] by (cases "l = []") simp_all
  moreover have "?ip \<le> length src" using drop_room[OF d] by simp
  ultimately have room: "?ip + ?n \<le> length src" by auto
  obtain m' where m': "mem_write m (length out) l = Inr m'" "prefix (out @ l) m'" "length m' = length m"
    using prefix_write[OF assms(2,3)] by blast
  have c: "copy_from src ?n (length out) ?ip m = Inr m'" using m'(1) room d2 by (simp add: copy_from_def)
  have "decompress_loop (Suc k) src (length out + ?n) ip (length out) m = Inr (int (?ip + ?n), m')"
    unfolding decompress_loop.simps t ebind.simps Let_def token_parts RUN_MASK_def r prod.case
    using c by (simp add: COPYLENGTH_def)
  then show ?thesis using m'(2,3) by (simp add: fmt_last_def add.assoc)
qed

lemma decompress_seq:
  assumes d: "drop ip src = fmt_seq (l, off, ml) @ rest" and r6: "6 \<le> length rest" and p: "prefix out m" and m: "oend \<le> length m"
    and ok: "seqs_ok oend out [(l, off, ml)]"
  shows "\<exists>m'. decompress_loop (Suc k) src oend ip (length out) m =
      decompress_loop k src oend (ip + length (fmt_seq (l, off, ml))) (length (lz_copy (ml + 4) off (out @ l))) m' \<and>
    prefix (lz_copy (ml + 4) off (out @ l)) m' \<and> length m' = length m"
proof -
  let ?n = "length l" and ?t = "token (length l) ml"
  have o: "1 \<le> off" "off \<le> length (out @ l)" "off < 2 ^ 16" "length (out @ l) + 12 \<le> oend" "length (out @ l) + (ml + 4) + 5 \<le> oend"
    using ok by simp_all
  have d0: "drop ip src = [?t] @ (len_ext ?n @ l @ offset_bytes off @ len_ext ml @ rest)" using d by simp
  have t: "mem_byte src ip = Inr ?t" using d0 by (intro drop_byte) simp
  have d1: "drop (ip + 1) src = len_ext ?n @ (l @ offset_bytes off @ len_ext ml @ rest)" using drop_step[OF d0] by simp
  note rl = read_token_length[OF d1 refl]
  let ?ip = "ip + 1 + length (len_ext ?n)"
  have d2: "drop ?ip src = l @ (offset_bytes off @ len_ext ml @ rest)" by (rule drop_step[OF d1])
  have d3: "drop (?ip + ?n) src = offset_bytes off @ (len_ext ml @ rest)" by (rule drop_step[OF d2])
  have two: "length (offset_bytes off) = 2" by (simp add: offset_bytes_def Let_def)
  have d4: "drop (?ip + ?n + 2) src = len_ext ml @ rest" using drop_step[OF d3] two by simp
  note rm = read_token_length[OF d4 refl]
  note ro = read_offset[OF d3 o(3)]
  have room: "?ip + ?n + 8 \<le> length src" using drop_room[OF d3] two r6 by (cases "offset_bytes off = []") auto
  have w: "wide (length out) (length out + ?n) \<le> ?n + 8"
    using wide_bounds(2)[of "length out" "length out + ?n"] by simp
  have wl: "?n \<le> wide (length out) (length out + ?n)" using wide_bounds(1)[of "length out + ?n" "length out"] by simp
  have "\<exists>m'. LZ4_wildCopy (copy_from src 8) (length out) ?ip (length out + ?n) m = Inr m' \<and>
      prefix (out @ take (wide (length out) (length out + ?n)) (drop ?ip src)) m' \<and> length m' = length m"
    by (rule wildCopy_from[OF p]) (use w room o(4) m in simp_all)
  then obtain m1 where m1: "LZ4_wildCopy (copy_from src 8) (length out) ?ip (length out + ?n) m = Inr m1"
    "prefix (out @ take (wide (length out) (length out + ?n)) (drop ?ip src)) m1" "length m1 = length m" by blast
  have "take ?n (take (wide (length out) (length out + ?n)) (drop ?ip src)) = l"
    using wl unfolding d2 by simp
  then have p1: "prefix (out @ l) m1" using prefix_shorter[OF m1(2), of ?n] by simp
  have "\<exists>m'. copy_match oend (length (out @ l)) (length (out @ l) - off) (ml + 4) m1 = Inr (Some (length (out @ l) + (ml + 4), m')) \<and>
      prefix (lz_copy (ml + 4) off (out @ l)) m' \<and> length m' = length m1"
    by (rule copy_match_ok[OF p1 o(1,2)]) (use m m1(3) o(4,5) in simp_all)
  then obtain m2 where m2: "copy_match oend (length (out @ l)) (length (out @ l) - off) (ml + 4) m1 = Inr (Some (length (out @ l) + (ml + 4), m2))"
    "prefix (lz_copy (ml + 4) off (out @ l)) m2" "length m2 = length m1" by blast
  have ip: "?ip + ?n + 2 + length (len_ext ml) = ip + length (fmt_seq (l, off, ml))" using two by simp
  have "decompress_loop (Suc k) src oend ip (length out) m =
      decompress_loop k src oend (?ip + ?n + 2 + length (len_ext ml)) (length (out @ l) + (ml + 4)) m2"
  proof -
    have a: "\<not> length out + ?n + COPYLENGTH > oend" "\<not> off > length out + ?n" using o(2,4) by (simp_all add: COPYLENGTH_def)
    have m2': "copy_match oend (length out + ?n) (length out + ?n - off) (ml + MINMATCH) m1 = Inr (Some (length (out @ l) + (ml + 4), m2))"
      using m2(1) by (simp add: MINMATCH_def)
    have ml: "min ml 15 = ML_MASK \<longleftrightarrow> min ml 15 = 15" by (simp add: ML_MASK_def)
    show ?thesis
      unfolding decompress_loop.simps t ebind.simps Let_def token_parts RUN_MASK_def rl prod.case if_not_P[OF a(1)] m1(1) ro
        if_not_P[OF a(2)] ml rm m2' option.case ..
  qed
  then show ?thesis unfolding ip using m2(2,3) m1(3) by auto
qed

text \<open>What was formatted is expanded.\<close>

lemma decompress_seqs:
  assumes "drop ip src = concat (map fmt_seq ss) @ fmt_last l @ rest" "prefix out m" "oend \<le> length m" "seqs_ok oend out ss"
    "length (expand out ss) + length l = oend" "length ss < k"
  shows "\<exists>m'. decompress_loop k src oend ip (length out) m = Inr (int (ip + length (concat (map fmt_seq ss) @ fmt_last l)), m') \<and>
    prefix (expand out ss @ l) m' \<and> length m' = length m"
  using assms
proof (induction ss arbitrary: ip out m k)
  case Nil
  then obtain k' where k: "k = Suc k'" by (cases k) auto
  have "drop ip src = fmt_last l @ rest" "length out + length l \<le> length m" "length out + length l = oend" using Nil by simp_all
  then show ?case using decompress_last[of ip src l rest out m k'] Nil.prems(2) k by simp
next
  case (Cons s ss)
  obtain l' off ml where s: "s = (l', off, ml)" by (cases s)
  obtain k' where k: "k = Suc k'" using Cons.prems(6) by (cases k) auto
  have ok: "seqs_ok oend out [(l', off, ml)]" "seqs_ok oend (lz_copy (ml + 4) off (out @ l')) ss" using Cons.prems(4) by (simp_all add: s)
  have "5 \<le> length l" using expand_end[OF Cons.prems(4)] Cons.prems(5) by simp
  then have r: "6 \<le> length (concat (map fmt_seq ss) @ fmt_last l @ rest)" using fmt_long[of l ss] by simp
  have d: "drop ip src = fmt_seq (l', off, ml) @ (concat (map fmt_seq ss) @ fmt_last l @ rest)" using Cons.prems(1) by (simp add: s)
  obtain m1 where m1: "decompress_loop (Suc k') src oend ip (length out) m =
      decompress_loop k' src oend (ip + length (fmt_seq (l', off, ml))) (length (lz_copy (ml + 4) off (out @ l'))) m1"
    "prefix (lz_copy (ml + 4) off (out @ l')) m1" "length m1 = length m"
    using decompress_seq[OF d r Cons.prems(2,3) ok(1), of k'] by blast
  have "\<exists>m'. decompress_loop k' src oend (ip + length (fmt_seq (l', off, ml))) (length (lz_copy (ml + 4) off (out @ l'))) m1 =
      Inr (int (ip + length (fmt_seq (l', off, ml)) + length (concat (map fmt_seq ss) @ fmt_last l)), m') \<and>
      prefix (expand (lz_copy (ml + 4) off (out @ l')) ss @ l) m' \<and> length m' = length m1"
    by (rule Cons.IH[OF drop_step[OF d] m1(2) _ ok(2)]) (use Cons.prems(3,5,6) m1(3) k in \<open>simp_all add: s\<close>)
  then show ?case using m1 by (auto simp: k s simp del: fmt_seq.simps decompress_loop.simps)
qed

lemma fmt_seqs_length: "length ss \<le> length (concat (map fmt_seq ss))"
  by (induction ss) (auto simp: Let_def)

text \<open>The decompressor on the whole of a compressed block, whatever follows it.\<close>

lemma decompress_fast_ok:
  assumes "src = concat (map fmt_seq ss) @ fmt_last l @ rest" "seqs_ok n [] ss" "length (expand [] ss) + length l = n" "n \<le> length m"
  shows "\<exists>m'. LZ4_decompress_fast src m n = Inr (int (length (concat (map fmt_seq ss) @ fmt_last l)), m') \<and>
    prefix (expand [] ss @ l) m' \<and> length m' = length m"
proof (cases "n = 0")
  case True
  then have e: "ss = []" "l = []" using expand_end[OF assms(2)] assms(3) by (cases ss; auto)+
  then show ?thesis using assms(1) True by (auto simp: LZ4_decompress_fast_def fmt_last_def token_def len_ext_def mem_byte_def)
next
  case False
  have "length ss < length src" unfolding assms(1) using fmt_seqs_length[of ss] by (simp add: fmt_last_def)
  then show ?thesis
    using decompress_seqs[of 0 src ss l rest "[]" m n "length src"] assms False by (simp add: LZ4_decompress_fast_def)
qed

end
