(* ===== verification/Lz4_Encode.thy ===== *)
theory Lz4_Encode
  imports Lz4_Decode
begin

text \<open>
  The compressor (\<open>LZ4_compress_generic\<close> of \<open>core/lz4.c\<close>) writes the format of \<open>Lz4_Decode\<close> for its input.
\<close>

section \<open>Comparing words compares bytes\<close>

lemma bit_of_byte:
  fixes xs :: buf
  assumes "8 * length xs \<le> LENGTH('b)" "i < length xs" "j < 8"
  shows "bit (word_rcat (rev xs) :: 'b::len word) (8 * i + j) = bit (xs ! i) j"
proof -
  have "8 * i + j < 8 * length xs" using assms(2,3) by simp
  then show ?thesis unfolding bit_word_rcat using assms by simp
qed

lemma byte_eqI: "(\<And>j. j < 8 \<Longrightarrow> bit (x :: 8 word) j = bit y j) \<Longrightarrow> x = y"
  by (rule bit_eqI) simp

lemma rcat_eq_iff:
  fixes xs ys :: buf
  assumes "length xs = length ys" "8 * length xs \<le> LENGTH('b)"
  shows "(word_rcat (rev xs) :: 'b::len word) = word_rcat (rev ys) \<longleftrightarrow> xs = ys"
proof
  assume e: "(word_rcat (rev xs) :: 'b word) = word_rcat (rev ys)"
  show "xs = ys"
  proof (rule nth_equalityI[OF assms(1)])
    fix i assume i: "i < length xs"
    show "xs ! i = ys ! i"
    proof (rule byte_eqI)
      show "bit (xs ! i) j = bit (ys ! i) j" if "j < 8" for j
        using bit_of_byte[OF assms(2) i that] bit_of_byte[of ys i j, where 'b = 'b] assms i that e by simp
    qed
  qed
qed simp

lemma trailing_zeros:
  assumes "w \<noteq> 0"
  shows "count_trailing_zeros w < 64" "bit w (count_trailing_zeros w)" "\<And>i. i < count_trailing_zeros w \<Longrightarrow> \<not> bit w i"
proof -
  let ?c = "count_trailing_zeros w"
  obtain n where n: "bit w n" using assms by (auto simp: bit_eq_iff)
  then have "n < 64" using bit_imp_le_length[of w n] by simp
  then have "\<exists>x \<in> set [0..<64]. bit w x" using n by auto
  then have "?c < length [0..<64]" unfolding count_trailing_zeros_def
    by (metis (mono_tags, lifting) length_takeWhile_le linorder_neqE_nat not_le set_takeWhileD takeWhile_eq_take take_all_iff)
  then show c: "?c < 64" by simp
  show "bit w ?c"
    using nth_length_takeWhile[of "\<lambda>i. \<not> bit w i" "[0..<64]"] c unfolding count_trailing_zeros_def by simp
  show "\<not> bit w i" if "i < ?c" for i
  proof -
    have "takeWhile (\<lambda>i. \<not> bit w i) [0..<64] ! i = [0..<64] ! i" using that unfolding count_trailing_zeros_def by (rule takeWhile_nth)
    moreover have "takeWhile (\<lambda>i. \<not> bit w i) [0..<64] ! i \<in> set (takeWhile (\<lambda>i. \<not> bit w i) [0..<64])"
      using that unfolding count_trailing_zeros_def by (rule nth_mem)
    ultimately show ?thesis using that c by (metis add_0 less_trans nth_upt set_takeWhileD)
  qed
qed

lemma xor_zero_iff: "(a :: 'a::len word) XOR b = 0 \<longleftrightarrow> a = b"
  by (auto simp: bit_eq_iff bit_xor_iff)

lemma common_bytes:
  fixes xs ys :: buf
  assumes l: "length xs = 8" "length ys = 8" and ne: "xs \<noteq> ys"
  defines "k \<equiv> LZ4_NbCommonBytes (word_rcat (rev xs) XOR word_rcat (rev ys))"
  shows "k < 8" "xs ! k \<noteq> ys ! k" "\<And>i. i < k \<Longrightarrow> xs ! i = ys ! i"
proof -
  let ?a = "word_rcat (rev xs) :: 64 word" and ?b = "word_rcat (rev ys) :: 64 word"
  let ?c = "count_trailing_zeros (?a XOR ?b)"
  have "?a \<noteq> ?b" using rcat_eq_iff[of xs ys, where 'b = 64] l ne by simp
  then have "?a XOR ?b \<noteq> 0" by (simp add: xor_zero_iff)
  note t = trailing_zeros[OF this]
  have bits: "bit (?a XOR ?b) (8 * i + j) \<longleftrightarrow> bit (xs ! i) j \<noteq> bit (ys ! i) j" if "i < 8" "j < 8" for i j
    using bit_of_byte[of xs i j, where 'b = 64] bit_of_byte[of ys i j, where 'b = 64] that l by (simp add: bit_xor_iff)
  have k: "k = ?c div 8" by (simp add: k_def LZ4_NbCommonBytes_def)
  show k8: "k < 8" using t(1) unfolding k by (simp add: less_mult_imp_div_less)
  have "bit (?a XOR ?b) (8 * k + ?c mod 8)" using t(2) unfolding k by simp
  then show "xs ! k \<noteq> ys ! k" using bits[OF k8, of "?c mod 8"] by auto
  show "xs ! i = ys ! i" if i: "i < k" for i
  proof (rule byte_eqI)
    show "bit (xs ! i) j = bit (ys ! i) j" if j: "j < 8" for j
    proof -
      have "8 * i + j < 8 * k" using i j by simp
      moreover have "8 * k \<le> ?c" unfolding k by simp
      ultimately have "\<not> bit (?a XOR ?b) (8 * i + j)" by (intro t(3)) simp
      then show ?thesis using bits[of i j] i k8 j by simp
    qed
  qed
qed

text \<open>\<open>n\<close> bytes are the same at \<open>p\<close> and \<open>q\<close>.\<close>

definition same_at :: "buf \<Rightarrow> nat \<Rightarrow> nat \<Rightarrow> nat \<Rightarrow> bool" where
  "same_at m p q n \<longleftrightarrow> (\<forall>i < n. m ! (p + i) = m ! (q + i))"

lemma same_at_0 [simp]: "same_at m p q 0"
  by (simp add: same_at_def)

lemma same_at_take: "p + n \<le> length m \<Longrightarrow> q + n \<le> length m \<Longrightarrow> take n (drop p m) = take n (drop q m) \<longleftrightarrow> same_at m p q n"
  unfolding same_at_def by (auto simp: list_eq_iff_nth_eq)

lemma same_at_add: "same_at m p q (a + b) \<longleftrightarrow> same_at m p q a \<and> same_at m (p + a) (q + a) b"
proof
  assume s: "same_at m p q (a + b)"
  show "same_at m p q a \<and> same_at m (p + a) (q + a) b"
    using s unfolding same_at_def by (auto simp: add.assoc)
next
  assume s: "same_at m p q a \<and> same_at m (p + a) (q + a) b"
  show "same_at m p q (a + b)"
    unfolding same_at_def
  proof (intro allI impI)
    fix i assume i: "i < a + b"
    show "m ! (p + i) = m ! (q + i)"
    proof (cases "i < a")
      case True
      then show ?thesis using s by (simp add: same_at_def)
    next
      case False
      then obtain j where "i = a + j" "j < b" using i by (metis less_add_same_cancel1 add_less_cancel_left le_iff_add not_le)
      then show ?thesis using s by (simp add: same_at_def add.assoc)
    qed
  qed
qed

lemma read_same:
  assumes "p + 4 \<le> length m" "q + 4 \<le> length m"
  shows "\<exists>a b. LZ4_read32 m q = Inr a \<and> LZ4_read32 m p = Inr b \<and> (a = b \<longleftrightarrow> same_at m p q 4)"
  using rcat_eq_iff[of "take 4 (drop q m)" "take 4 (drop p m)", where 'b = 32] assms same_at_take[of p 4 m q]
  by (auto simp: LZ4_read32_def)

lemma read16_same:
  assumes "p + 2 \<le> length m" "q + 2 \<le> length m"
  shows "\<exists>a b. LZ4_read16 m q = Inr a \<and> LZ4_read16 m p = Inr b \<and> (a = b \<longleftrightarrow> same_at m p q 2)"
  using rcat_eq_iff[of "take 2 (drop q m)" "take 2 (drop p m)", where 'b = 16] assms same_at_take[of p 2 m q]
  by (auto simp: LZ4_read16_def)

lemma same_word_ok:
  "p + 4 \<le> length m \<Longrightarrow> q + 4 \<le> length m \<Longrightarrow> same_word m q p = Inr (same_at m p q 4)"
  using read_same[of p m q] by (auto simp: same_word_def)

lemma same_at_Suc: "same_at m p q (Suc n) \<longleftrightarrow> same_at m p q n \<and> m ! (p + n) = m ! (q + n)"
  using same_at_add[of m p q n 1] by (simp add: same_at_def)

lemma same_at_max: "same_at m p q d \<Longrightarrow> m ! (p + c) \<noteq> m ! (q + c) \<Longrightarrow> d \<le> c"
  unfolding same_at_def using not_le by blast

lemma count_words_ok:
  assumes "q \<le> p" "limit \<le> length m"
  shows "\<exists>r. count_words m p q limit = Inr r \<and> (case r of
      Inl e \<Rightarrow> p \<le> e \<and> e < limit \<and> same_at m p q (e - p) \<and> m ! (p + (e - p)) \<noteq> m ! (q + (e - p))
    | Inr (p', q') \<Rightarrow> p \<le> p' \<and> q' = q + (p' - p) \<and> same_at m p q (p' - p) \<and> limit \<le> p' + 7 \<and> p' \<le> max p limit)"
  using assms(1)
proof (induction "limit - p" arbitrary: p q rule: less_induct)
  case less
  show ?case
  proof (cases "p + 7 < limit")
    case True
    let ?x = "take 8 (drop q m)" and ?y = "take 8 (drop p m)"
    have l: "length ?x = 8" "length ?y = 8" using True less.prems assms(2) by simp_all
    let ?a = "word_rcat (rev ?x) :: 64 word" and ?b = "word_rcat (rev ?y) :: 64 word"
    have rd: "LZ4_read64 m q = Inr ?a" "LZ4_read64 m p = Inr ?b" using True less.prems assms(2) by (simp_all add: LZ4_read64_def)
    have eq: "?a XOR ?b = 0 \<longleftrightarrow> ?x = ?y" using rcat_eq_iff[of ?x ?y, where 'b = 64] l by (simp add: xor_zero_iff)
    have s: "?x = ?y \<longleftrightarrow> same_at m p q 8" using same_at_take[of p 8 m q] True less.prems assms(2) by auto
    show ?thesis
    proof (cases "?x = ?y")
      case same: True
      have st: "count_words m p q limit = count_words m (p + 8) (q + 8) limit"
        using True rd eq same by (subst count_words.simps) simp
      obtain r where r: "count_words m (p + 8) (q + 8) limit = Inr r" "case r of
          Inl e \<Rightarrow> p + 8 \<le> e \<and> e < limit \<and> same_at m (p + 8) (q + 8) (e - (p + 8)) \<and> m ! (p + 8 + (e - (p + 8))) \<noteq> m ! (q + 8 + (e - (p + 8)))
        | Inr (p', q') \<Rightarrow> p + 8 \<le> p' \<and> q' = q + 8 + (p' - (p + 8)) \<and> same_at m (p + 8) (q + 8) (p' - (p + 8)) \<and> limit \<le> p' + 7 \<and> p' \<le> max (p + 8) limit"
      proof -
        have "limit - (p + 8) < limit - p" "q + 8 \<le> p + 8" using True less.prems by simp_all
        from less.hyps[OF this] show ?thesis using that by blast
      qed
      have sum: "same_at m p q (e - p) \<longleftrightarrow> same_at m (p + 8) (q + 8) (e - (p + 8))" if "p + 8 \<le> e" for e
      proof -
        have "e - p = 8 + (e - (p + 8))" using that by simp
        then have "same_at m p q (e - p) \<longleftrightarrow> same_at m p q 8 \<and> same_at m (p + 8) (q + 8) (e - (p + 8))"
          by (simp only: same_at_add)
        then show ?thesis using s same by blast
      qed
      show ?thesis
      proof (cases r)
        case (Inl e)
        have e: "p + (e - p) = p + 8 + (e - (p + 8))" "q + (e - p) = q + 8 + (e - (p + 8))" "p + 8 \<le> e" using r(2) Inl by simp_all
        note r2 = r(2)[unfolded Inl sum.case]
        have "m ! (p + (e - p)) \<noteq> m ! (q + (e - p))" unfolding e(1,2) using r2 by blast
        moreover have "p \<le> e" using e(3) by simp
        ultimately show ?thesis using r(1) r2 sum[OF e(3)] unfolding st Inl by (intro exI[of _ "Inl e"]) (simp only: sum.case simp_thms)
      next
        case (Inr pr)
        obtain p' q' where pr: "pr = (p', q')" by (cases pr)
        show ?thesis using r Inr sum[of p'] True unfolding st pr by auto
      qed
    next
      case ne: False
      let ?k = "LZ4_NbCommonBytes (?a XOR ?b)"
      note k = common_bytes[OF l ne]
      have st: "count_words m p q limit = Inr (Inl (p + ?k))"
        using True rd eq ne by (subst count_words.simps) simp
      have nth: "?x ! i = m ! (q + i)" "?y ! i = m ! (p + i)" if "i < 8" for i using that l by simp_all
      have "m ! (p + ?k) \<noteq> m ! (q + ?k)" using k(2) unfolding nth[OF k(1)] by simp
      moreover have "same_at m p q ?k" unfolding same_at_def
      proof (intro allI impI)
        fix i assume i: "i < ?k"
        then have "i < 8" using k(1) by simp
        then show "m ! (p + i) = m ! (q + i)" using k(3)[OF i] nth[of i] by simp
      qed
      ultimately show ?thesis using st k(1) True by auto
    qed
  next
    case False
    then show ?thesis by (subst count_words.simps) simp
  qed
qed

text \<open>The number of equal bytes before the limit.\<close>

lemma LZ4_count_ok:
  assumes "q \<le> p" "limit \<le> length m" "p \<le> limit"
  shows "\<exists>c. LZ4_count m p q limit = Inr c \<and> p + c \<le> limit \<and> same_at m p q c \<and> (p + c < limit \<longrightarrow> m ! (p + c) \<noteq> m ! (q + c))"
proof -
  obtain r where r: "count_words m p q limit = Inr r" "case r of
      Inl e \<Rightarrow> p \<le> e \<and> e < limit \<and> same_at m p q (e - p) \<and> m ! (p + (e - p)) \<noteq> m ! (q + (e - p))
    | Inr (p', q') \<Rightarrow> p \<le> p' \<and> q' = q + (p' - p) \<and> same_at m p q (p' - p) \<and> limit \<le> p' + 7 \<and> p' \<le> max p limit"
    using count_words_ok[OF assms(1,2)] by blast
  show ?thesis
  proof (cases r)
    case (Inl e)
    then show ?thesis using r by (auto simp: LZ4_count_def)
  next
    case (Inr pr)
    obtain p1 q1 where pr: "pr = (p1, q1)" by (cases pr)
    have w: "p \<le> p1" "q1 = q + (p1 - p)" "same_at m p q (p1 - p)" "limit \<le> p1 + 7" "p1 \<le> limit"
      using r(2) assms(3) unfolding Inr pr by simp_all
    have q1: "q1 \<le> p1" using w(1,2) assms(1) by simp
    define x1 where "x1 = (if p1 + 3 < limit \<and> same_at m p1 q1 4 then 4 else 0 :: nat)"
    define x2 where "x2 = x1 + (if p1 + x1 + 1 < limit \<and> same_at m (p1 + x1) (q1 + x1) 2 then 2 else 0)"
    define x3 where "x3 = x2 + (if p1 + x2 < limit \<and> same_at m (p1 + x2) (q1 + x2) 1 then 1 else 0)"
    have one: "(if p1 + 3 < limit then ebind (LZ4_read32 m q1) (\<lambda>a. ebind (LZ4_read32 m p1) (\<lambda>b.
        Inr (if a = b then (p1 + 4, q1 + 4) else (p1, q1)))) else Inr (p1, q1)) = Inr (p1 + x1, q1 + x1)"
      using read_same[of p1 m q1] q1 assms(2) by (auto simp: x1_def)
    have two: "(if p1 + x1 + 1 < limit then ebind (LZ4_read16 m (q1 + x1)) (\<lambda>a. ebind (LZ4_read16 m (p1 + x1)) (\<lambda>b.
        Inr (if a = b then (p1 + x1 + 2, q1 + x1 + 2) else (p1 + x1, q1 + x1)))) else Inr (p1 + x1, q1 + x1)) = Inr (p1 + x2, q1 + x2)"
      using read16_same[of "p1 + x1" m "q1 + x1"] q1 assms(2) by (auto simp: x2_def)
    have three: "(if p1 + x2 < limit then ebind (mem_byte m (q1 + x2)) (\<lambda>a. ebind (mem_byte m (p1 + x2)) (\<lambda>b.
        Inr (if a = b then p1 + x2 + 1 else p1 + x2))) else Inr (p1 + x2)) = Inr (p1 + x3)"
      using q1 assms(2) by (auto simp: x3_def same_at_def)
    have res: "LZ4_count m p q limit = Inr (p1 + x3 - p)"
      unfolding LZ4_count_def r(1) Inr pr ebind.simps sum.case prod.case one two three ..
    have s1: "same_at m p1 q1 x1" by (simp add: x1_def)
    have s2: "same_at m p1 q1 x2" using s1 by (simp add: x2_def same_at_add)
    have s3: "same_at m p1 q1 x3" using s2 by (simp add: x3_def same_at_add)
    have b: "p1 + x3 \<le> limit" using w(5) by (auto simp: x1_def x2_def x3_def split: if_splits)
    have mx: "m ! (p1 + x3) \<noteq> m ! (q1 + x3)" if lt: "p1 + x3 < limit"
    proof
      assume e: "m ! (p1 + x3) = m ! (q1 + x3)"
      then have "same_at m p1 q1 (x3 + 1)" using s3 by (simp add: same_at_Suc)
      have x3: "x3 = x2 + 1"
      proof (rule ccontr)
        assume "x3 \<noteq> x2 + 1"
        then have "x3 = x2" by (auto simp: x3_def split: if_splits)
        then have "p1 + x2 < limit \<and> same_at m (p1 + x2) (q1 + x2) 1" using lt e by (simp add: same_at_def)
        then show False using \<open>x3 = x2\<close> by (simp add: x3_def)
      qed
      have x2: "x2 = x1 + 2"
      proof (rule ccontr)
        assume "x2 \<noteq> x1 + 2"
        then have x: "x2 = x1" by (auto simp: x2_def split: if_splits)
        have "same_at m p1 q1 (x1 + 2)" using \<open>same_at m p1 q1 (x3 + 1)\<close> x x3 by (simp add: numeral_2_eq_2)
        then have "same_at m (p1 + x1) (q1 + x1) 2" unfolding same_at_add by blast
        then have "p1 + x1 + 1 < limit \<and> same_at m (p1 + x1) (q1 + x1) 2" using lt x x3 by simp
        then show False using x by (simp add: x2_def)
      qed
      show False
      proof (cases "x1 = 4")
        case True
        then show False using lt x2 x3 w(4) by simp
      next
        case False
        then have x: "x1 = 0" by (simp add: x1_def split: if_splits)
        have "same_at m p1 q1 4" using \<open>same_at m p1 q1 (x3 + 1)\<close> x x2 x3 by (simp add: eval_nat_numeral)
        then show False using x lt x2 x3 by (simp add: x1_def split: if_splits)
      qed
    qed
    have c: "p + (p1 + x3 - p) = p1 + x3" "q + (p1 + x3 - p) = q1 + x3" using w(1,2) by simp_all
    have e: "p1 + x3 - p = (p1 - p) + x3" "p + (p1 - p) = p1" using w(1) by simp_all
    have "same_at m p q (p1 + x3 - p)" unfolding e(1) same_at_add e(2) w(2)[symmetric] using w(3) s3 by blast
    moreover have "p + (p1 + x3 - p) \<le> limit" unfolding c by (rule b)
    moreover have "p + (p1 + x3 - p) < limit \<longrightarrow> m ! (p + (p1 + x3 - p)) \<noteq> m ! (q + (p1 + x3 - p))" unfolding c using mx by blast
    ultimately show ?thesis using res by blast
  qed
qed

section \<open>Finding a match\<close>

text \<open>Positions fit into the table.\<close>

definition fits :: "tableType \<Rightarrow> nat \<Rightarrow> bool" where
  "fits t n \<longleftrightarrow> (t = byU16 \<longrightarrow> n < LZ4_64Klimit) \<and> n \<le> LZ4_MAX_INPUT_SIZE"

lemma put_fits:
  assumes "fits t n" "p + 12 \<le> n"
  shows "LZ4_putPositionOnHash p h tab t = tab(h := p)"
proof (cases t)
  case byU32
  have "p < 2 ^ 32" using assms by (simp add: fits_def LZ4_MAX_INPUT_SIZE_def)
  then show ?thesis using byU32 by (simp add: LZ4_putPositionOnHash_def take_bit_nat_eq_self)
next
  case byU16
  have "p < 2 ^ 16" using assms byU16 by (simp add: fits_def LZ4_64Klimit_def MFLIMIT_def COPYLENGTH_def MINMATCH_def)
  then show ?thesis using byU16 by (simp add: LZ4_putPositionOnHash_def take_bit_nat_eq_self)
qed

lemma hash_ok: "p + 8 \<le> length src \<Longrightarrow> \<exists>h. LZ4_hashPosition src p t = Inr h"
  by (simp add: LZ4_hashPosition_def LZ4_read64_def)

text \<open>All positions in the table are before \<open>p\<close>.\<close>

definition tab_before :: "(nat \<Rightarrow> nat) \<Rightarrow> nat \<Rightarrow> bool" where
  "tab_before tab p \<longleftrightarrow> (\<forall>h. tab h < p)"

lemma tab_beforeI: "tab_before tab p \<Longrightarrow> p \<le> q \<Longrightarrow> r < q \<Longrightarrow> tab_before (tab(h := r)) q"
  by (auto simp: tab_before_def intro: less_le_trans)

lemma tab_before_mono: "tab_before tab p \<Longrightarrow> p \<le> q \<Longrightarrow> tab_before tab q"
  by (auto simp: tab_before_def intro: less_le_trans)

lemma find_match_ok:
  assumes "fits t (length src)" "13 \<le> length src" "tab_before tab p" "1 \<le> p" "p + 11 \<le> length src" "length src < k + p"
    "1 \<le> unat step" "64 \<le> unat nb" "unat nb + k < 2 ^ 32"
  shows "find_match k src t tab p step nb h = Inr None \<or>
    (\<exists>ip match tab'. find_match k src t tab p step nb h = Inr (Some (ip, match, tab')) \<and> match < ip \<and> p \<le> ip \<and> ip + 12 \<le> length src \<and>
       same_at src ip match 4 \<and> ip - match < 2 ^ 16 \<and> tab_before tab' (ip + 1))"
  using assms(3-)
proof (induction k arbitrary: tab p step nb h)
  case (Suc k)
  let ?f = "p + unat step" and ?m = "LZ4_getPositionOnHash h tab" and ?tab = "LZ4_putPositionOnHash p h tab t"
  show ?case
  proof (cases "?f > length src - MFLIMIT")
    case True
    then show ?thesis by simp
  next
    case False
    have f: "?f + 12 \<le> length src" using False assms(2) by (simp add: MFLIMIT_def COPYLENGTH_def MINMATCH_def)
    obtain h' where h': "LZ4_hashPosition src ?f t = Inr h'" using hash_ok[of ?f src t] f by auto
    have p12: "p + 12 \<le> length src" using f Suc.prems(5) by simp
    have m: "?m < p" using Suc.prems(1) by (simp add: tab_before_def LZ4_getPositionOnHash_def)
    have sw: "same_word src ?m p = Inr (same_at src p ?m 4)" using p12 m by (intro same_word_ok) simp_all
    have tab: "?tab = tab(h := p)" by (rule put_fits[OF assms(1) p12])
    let ?far = "t \<noteq> byU16 \<and> ?m + MAX_DISTANCE < p"
    have st: "find_match (Suc k) src t tab p step nb h = (if \<not> ?far \<and> same_at src p ?m 4 then Inr (Some (p, ?m, ?tab))
        else find_match k src t ?tab ?f (drop_bit 6 nb) (nb + 1) h')"
      using False sw h' by (simp add: Let_def LZ4_skipTrigger_def)
    show ?thesis
    proof (cases "\<not> ?far \<and> same_at src p ?m 4")
      case True
      have "p < 2 ^ 16" if "t = byU16"
        using that p12 assms(1) by (simp add: fits_def LZ4_64Klimit_def MFLIMIT_def COPYLENGTH_def MINMATCH_def)
      then have "p - ?m < 2 ^ 16" using True m by (cases "t = byU16") (auto simp: MAX_DISTANCE_def)
      moreover have "tab_before ?tab (p + 1)" unfolding tab using Suc.prems(1) by (rule tab_beforeI) simp_all
      ultimately show ?thesis using st True m p12 by auto
    next
      case no: False
      have nb: "unat (nb + 1) = unat nb + 1" using Suc.prems(7) by (simp add: unat_word_ariths)
      have step: "1 \<le> unat (drop_bit 6 nb)"
        unfolding unat_drop_bit_eq using Suc.prems(6) by (simp add: drop_bit_eq_div Suc_le_eq div_greater_zero_iff)
      have tb: "tab_before ?tab ?f" unfolding tab by (rule tab_beforeI[OF Suc.prems(1)]) (use Suc.prems(5) in linarith)+
      have "find_match k src t ?tab ?f (drop_bit 6 nb) (nb + 1) h' = Inr None \<or>
        (\<exists>ip match tab'. find_match k src t ?tab ?f (drop_bit 6 nb) (nb + 1) h' = Inr (Some (ip, match, tab')) \<and> match < ip \<and> ?f \<le> ip \<and>
           ip + 12 \<le> length src \<and> same_at src ip match 4 \<and> ip - match < 2 ^ 16 \<and> tab_before tab' (ip + 1))"
        by (rule Suc.IH[OF tb]) (use Suc.prems f nb step in simp_all)
      then show ?thesis using st no by (auto simp: Let_def)
    qed
  qed
qed simp

text \<open>The match is extended backwards by bytes that are equal.\<close>

lemma catch_up_ok:
  assumes "ip \<le> length src" "match \<le> ip" "anchor \<le> ip"
  shows "\<exists>d. catch_up src anchor ip match = Inr (ip - d, match - d) \<and> d \<le> match \<and> d \<le> ip - anchor \<and> same_at src (ip - d) (match - d) d"
  using assms
proof (induction ip arbitrary: match)
  case 0
  then show ?case by (subst catch_up.simps) simp
next
  case (Suc ip)
  show ?case
  proof (cases "Suc ip > anchor \<and> match > 0 \<and> src ! ip = src ! (match - 1)")
    case True
    then have st: "catch_up src anchor (Suc ip) match = catch_up src anchor ip (match - 1)"
      using Suc.prems by (subst catch_up.simps) simp
    have "ip \<le> length src" "match - 1 \<le> ip" "anchor \<le> ip" using Suc.prems True by simp_all
    from Suc.IH[OF this] obtain d where d: "catch_up src anchor ip (match - 1) = Inr (ip - d, match - 1 - d)" "d \<le> match - 1" "d \<le> ip - anchor"
      "same_at src (ip - d) (match - 1 - d) d" by blast
    have dl: "d \<le> ip" "d \<le> match - 1" "Suc d \<le> match" "Suc d \<le> Suc ip - anchor" using d(2,3) True by auto
    have e: "Suc ip - Suc d = ip - d" "match - Suc d = match - 1 - d" "ip - d + d = ip" "match - 1 - d + d = match - 1"
      using dl(1,2) by simp_all
    have "same_at src (Suc ip - Suc d) (match - Suc d) (Suc d)"
      unfolding same_at_Suc e using d(4) True by blast
    moreover have "catch_up src anchor (Suc ip) match = Inr (Suc ip - Suc d, match - Suc d)" unfolding st d(1) e ..
    ultimately show ?thesis using dl(3,4) by blast
  next
    case False
    then have "catch_up src anchor (Suc ip) match = Inr (Suc ip, match)"
      using Suc.prems by (subst catch_up.simps) auto
    then show ?thesis by (intro exI[of _ 0]) simp
  qed
qed

end
