(* ===== verification/Lz4_Compress.thy ===== *)
theory Lz4_Compress
  imports Lz4_Encode
begin

text \<open>
  What \<open>LZ4_compress_generic\<close> (\<open>core/lz4.c\<close>) writes where its output is not limited, and that it fits into
  \<open>LZ4_compressBound\<close> bytes.
\<close>

section \<open>Lengths\<close>

lemma ext_length: "length (ext n) = n div 255 + 1"
proof (induction n rule: less_induct)
  case (less n)
  show ?case
  proof (cases "n \<ge> 255")
    case True
    then have "n div 255 = Suc ((n - 255) div 255)" by simp
    then show ?thesis using less.IH[of "n - 255"] True by (subst ext.simps) simp
  next
    case False
    then show ?thesis by (subst ext.simps) simp
  qed
qed

lemma put_length_ok:
  assumes "prefix out m" "length (out @ ext n) \<le> length m"
  shows "\<exists>m'. put_length n (length out) m = Inr (length (out @ ext n), m') \<and> prefix (out @ ext n) m' \<and> length m' = length m"
  using assms
proof (induction n arbitrary: out m rule: less_induct)
  case (less n)
  show ?case
  proof (cases "n \<ge> 255")
    case True
    then have e: "ext n = 255 # ext (n - 255)" by (subst ext.simps) simp
    obtain m1 where m1: "mem_write m (length out) [255] = Inr m1" "prefix (out @ [255]) m1" "length m1 = length m"
      using prefix_write[OF less.prems(1), of "[255]"] less.prems(2) e by auto
    have "n - 255 < n" using True by simp
    from less.IH[OF this m1(2)] obtain m2 where m2: "put_length (n - 255) (length (out @ [255])) m1 = Inr (length ((out @ [255]) @ ext (n - 255)), m2)"
      "prefix ((out @ [255]) @ ext (n - 255)) m2" "length m2 = length m1"
      using less.prems(2) e m1(3) by auto
    have "put_length n (length out) m = put_length (n - 255) (length (out @ [255])) m1"
      using True m1(1) by (subst put_length.simps) simp
    then show ?thesis using m2 m1(3) e by simp
  next
    case False
    then have e: "ext n = [word_of_nat n]" by (subst ext.simps) simp
    obtain m1 where "mem_write m (length out) [word_of_nat n] = Inr m1" "prefix (out @ [word_of_nat n]) m1" "length m1 = length m"
      using prefix_write[OF less.prems(1), of "[word_of_nat n]"] less.prems(2) e by auto
    then show ?thesis using False e by (subst put_length.simps) simp
  qed
qed

lemma put_match_length_ok:
  assumes "prefix out m" "length (out @ ext n) \<le> length m"
  shows "\<exists>m'. put_match_length n (length out) m = Inr (length (out @ ext n), m') \<and> prefix (out @ ext n) m' \<and> length m' = length m"
  using assms
proof (induction n arbitrary: out m rule: less_induct)
  case (less n)
  show ?case
  proof (cases "n \<ge> 510")
    case True
    then have "ext n = 255 # ext (n - 255)" "ext (n - 255) = 255 # ext (n - 255 - 255)" by (subst ext.simps, simp)+
    then have e: "ext n = [255, 255] @ ext (n - 510)" by simp
    obtain m1 where m1: "mem_write m (length out) [255, 255] = Inr m1" "prefix (out @ [255, 255]) m1" "length m1 = length m"
      using prefix_write[OF less.prems(1), of "[255, 255]"] less.prems(2) e by auto
    have "n - 510 < n" using True by simp
    from less.IH[OF this m1(2)] obtain m2 where m2: "put_match_length (n - 510) (length (out @ [255, 255])) m1 = Inr (length ((out @ [255, 255]) @ ext (n - 510)), m2)"
      "prefix ((out @ [255, 255]) @ ext (n - 510)) m2" "length m2 = length m1"
      using less.prems(2) e m1(3) by auto
    have "put_match_length n (length out) m = put_match_length (n - 510) (length (out @ [255, 255])) m1"
      using True m1(1) by (subst put_match_length.simps) simp
    then show ?thesis using m2 m1(3) e by simp
  next
    case small: False
    show ?thesis
    proof (cases "n \<ge> 255")
      case True
      have "ext (n - 255) = [word_of_nat (n - 255)]" using small by (subst ext.simps) simp
      then have e: "ext n = [255, word_of_nat (n - 255)]" using True by (subst ext.simps) simp
      obtain m1 where m1: "mem_write m (length out) [255] = Inr m1" "prefix (out @ [255]) m1" "length m1 = length m"
        using prefix_write[OF less.prems(1), of "[255]"] less.prems(2) e by auto
      obtain m2 where m2: "mem_write m1 (length (out @ [255])) [word_of_nat (n - 255)] = Inr m2"
        "prefix ((out @ [255]) @ [word_of_nat (n - 255)]) m2" "length m2 = length m1"
        using prefix_write[OF m1(2), of "[word_of_nat (n - 255)]"] less.prems(2) e m1(3) by auto
      have "put_match_length n (length out) m = Inr (length (out @ ext n), m2)"
        using True small m1(1) m2(1) e by (subst put_match_length.simps) simp
      then show ?thesis using m2 m1(3) e by simp
    next
      case False
      then have e: "ext n = [word_of_nat n]" by (subst ext.simps) simp
      obtain m1 where "mem_write m (length out) [word_of_nat n] = Inr m1" "prefix (out @ [word_of_nat n]) m1" "length m1 = length m"
        using prefix_write[OF less.prems(1), of "[word_of_nat n]"] less.prems(2) e by auto
      then show ?thesis using False small e by (subst put_match_length.simps) simp
    qed
  qed
qed

section \<open>Sequences\<close>

text \<open>The token and the length of the literals are as in the format.\<close>

lemma put_token:
  assumes "prefix out m" "length out + 1 + length (len_ext n) \<le> length m"
  shows "\<exists>m'. (if n \<ge> RUN_MASK then ebind (mem_write m (length out) [word_of_nat (RUN_MASK * 16)]) (put_length (n - RUN_MASK) (length out + 1))
      else ebind (mem_write m (length out) [word_of_nat (n * 16)]) (\<lambda>dst. Inr (length out + 1, dst))) =
        Inr (length (out @ token n 0 # len_ext n), m') \<and> prefix (out @ token n 0 # len_ext n) m' \<and> length m' = length m"
proof (cases "n \<ge> 15")
  case True
  have t: "word_of_nat (RUN_MASK * 16) = token n 0" using True by (simp add: token_def RUN_MASK_def)
  obtain m1 where m1: "mem_write m (length out) [token n 0] = Inr m1" "prefix (out @ [token n 0]) m1" "length m1 = length m"
    using prefix_write[OF assms(1), of "[token n 0]"] assms(2) by auto
  have "length ((out @ [token n 0]) @ ext (n - 15)) \<le> length m1" using assms(2) True m1(3) by (simp add: len_ext_def)
  then obtain m2 where "put_length (n - 15) (length (out @ [token n 0])) m1 = Inr (length ((out @ [token n 0]) @ ext (n - 15)), m2)"
    "prefix ((out @ [token n 0]) @ ext (n - 15)) m2" "length m2 = length m1"
    using put_length_ok[OF m1(2)] by blast
  then show ?thesis using True m1 unfolding t by (auto simp: RUN_MASK_def len_ext_def)
next
  case False
  have t: "word_of_nat (n * 16) = token n 0" using False by (simp add: token_def mult.commute)
  obtain m1 where "mem_write m (length out) [token n 0] = Inr m1" "prefix (out @ [token n 0]) m1" "length m1 = length m"
    using prefix_write[OF assms(1), of "[token n 0]"] assms(2) by auto
  then show ?thesis using False unfolding t by (simp add: RUN_MASK_def len_ext_def)
qed

lemma emit_literals_ok:
  assumes p: "prefix out m" and a: "anchor \<le> ip" "ip + 8 \<le> length src"
    and l: "length out + 1 + length (len_ext (ip - anchor)) + (ip - anchor) + 8 \<le> length m"
  defines "out' \<equiv> out @ token (ip - anchor) 0 # len_ext (ip - anchor) @ take (ip - anchor) (drop anchor src)"
  shows "\<exists>m'. emit_literals None src anchor ip (length out) m = Inr (Some (length out, length out', m')) \<and> prefix out' m' \<and> length m' = length m"
proof -
  let ?n = "ip - anchor" and ?h = "out @ token (ip - anchor) 0 # len_ext (ip - anchor)"
  obtain m1 where m1: "(if ?n \<ge> RUN_MASK then ebind (mem_write m (length out) [word_of_nat (RUN_MASK * 16)]) (put_length (?n - RUN_MASK) (length out + 1))
      else ebind (mem_write m (length out) [word_of_nat (?n * 16)]) (\<lambda>dst. Inr (length out + 1, dst))) = Inr (length ?h, m1)"
    "prefix ?h m1" "length m1 = length m"
    using put_token[OF p, of ?n] l by auto
  have w: "wide (length ?h) (length ?h + ?n) \<le> ?n + 8" "?n \<le> wide (length ?h) (length ?h + ?n)"
    by (rule wide_upto)+
  have "\<exists>m'. LZ4_wildCopy (copy_from src 8) (length ?h) anchor (length ?h + ?n) m1 = Inr m' \<and>
      prefix (?h @ take (wide (length ?h) (length ?h + ?n)) (drop anchor src)) m' \<and> length m' = length m1"
  proof (rule wildCopy_from[OF m1(2)])
    have "anchor + (?n + 8) \<le> length src" "length ?h + (?n + 8) \<le> length m1" using a l m1(3) by simp_all
    note room = this
    show "anchor + wide (length ?h) (length ?h + ?n) \<le> length src" by (rule order_trans[OF add_left_mono[OF w(1)] room(1)])
    show "length ?h + wide (length ?h) (length ?h + ?n) \<le> length m1" by (rule order_trans[OF add_left_mono[OF w(1)] room(2)])
  qed
  then obtain m2 where m2: "LZ4_wildCopy (copy_from src 8) (length ?h) anchor (length ?h + ?n) m1 = Inr m2"
    "prefix (?h @ take (wide (length ?h) (length ?h + ?n)) (drop anchor src)) m2" "length m2 = length m1" by blast
  have "take ?n (take (wide (length ?h) (length ?h + ?n)) (drop anchor src)) = take ?n (drop anchor src)" using w(2) by (simp add: min_def)
  then have p2: "prefix (?h @ take ?n (drop anchor src)) m2" using prefix_shorter[OF m2(2), of ?n] by simp
  have o: "out' = ?h @ take ?n (drop anchor src)" "length out' = length ?h + ?n" using a by (simp_all add: out'_def)
  have "emit_literals None src anchor ip (length out) m = Inr (Some (length out, length out', m2))"
    unfolding emit_literals_def Let_def past_limit_def option.case if_False m1(1) ebind.simps prod.case m2(1) o(2) ..
  then show ?thesis using p2 m2(3) m1(3) unfolding o(1) by auto
qed

text \<open>A byte in the front is replaced.\<close>

lemma prefix_replace:
  assumes "prefix (pre @ x # mid) m"
  shows "mem_byte m (length pre) = Inr x" "\<exists>m'. mem_write m (length pre) [y] = Inr m' \<and> prefix (pre @ y # mid) m' \<and> length m' = length m"
  using assms by (auto simp: prefix_def mem_byte_def mem_write_def)

lemma token_add: "token a 0 + word_of_nat (min b 15) = token a b"
  by (simp add: token_def)

lemma emit_match_ok:
  assumes p: "prefix (pre @ token a 0 # mid) m"    and i: "match \<le> ip" "ip + 12 \<le> length src"
    and c: "LZ4_count src (ip + 4) (match + 4) (length src - 5) = Inr ml"
    and l: "length (pre @ token a 0 # mid) + 2 + length (len_ext ml) \<le> length m"
  defines "out' \<equiv> pre @ token a ml # mid @ offset_bytes (ip - match) @ len_ext ml"
  shows "\<exists>m'. emit_match None src ip match (length pre) (length (pre @ token a 0 # mid)) m = Inr (Some (ip + 4 + ml, length out', m')) \<and>
    prefix out' m' \<and> length m' = length m"
proof -
  let ?o = "pre @ token a 0 # mid" and ?off = "ip - match"
  have off: "(word_of_int (int ip - int match) :: 16 word) = word_of_nat ?off" using i(1) by (simp add: of_nat_diff)
  have two: "length (offset_bytes ?off) = 2" by (simp add: offset_bytes_def Let_def)
  obtain m1 where m1: "mem_write m (length ?o) (offset_bytes ?off) = Inr m1" "prefix (?o @ offset_bytes ?off) m1" "length m1 = length m"
    using prefix_write[OF p, of "offset_bytes ?off"] l two by auto
  have w: "LZ4_writeLE16 m (length ?o) (word_of_int (int ip - int match)) = Inr m1"
    unfolding off using m1(1) by (simp add: LZ4_writeLE16_def offset_bytes_def Let_def)
  have p1: "prefix (pre @ token a 0 # (mid @ offset_bytes ?off)) m1" using m1(2) by simp
  note b = prefix_replace(1)[OF p1]
  obtain m2 where m2: "mem_write m1 (length pre) [token a ml] = Inr m2" "prefix (pre @ token a ml # (mid @ offset_bytes ?off)) m2" "length m2 = length m1"
    using prefix_replace(2)[OF p1, of "token a ml"] by blast
  have c': "LZ4_count src (ip + MINMATCH) (match + MINMATCH) (length src - LASTLITERALS) = Inr ml"
    using c by (simp add: MINMATCH_def LASTLITERALS_def)
  have op: "length ?o + 2 = length (pre @ token a ml # (mid @ offset_bytes ?off))" using two by simp
  show ?thesis
  proof (cases "ml \<ge> 15")
    case True
    have t: "token a 0 + word_of_nat ML_MASK = token a ml" using token_add[of a ml] unfolding ML_MASK_def min_absorb2[OF True] .
    have le: "len_ext ml = ext (ml - 15)" using True by (simp add: len_ext_def)
    have "length ((pre @ token a ml # (mid @ offset_bytes ?off)) @ ext (ml - 15)) \<le> length m2" using l two m2(3) m1(3) le by simp
    then obtain m3 where m3: "put_match_length (ml - 15) (length (pre @ token a ml # (mid @ offset_bytes ?off))) m2 =
        Inr (length ((pre @ token a ml # (mid @ offset_bytes ?off)) @ ext (ml - 15)), m3)"
      "prefix ((pre @ token a ml # (mid @ offset_bytes ?off)) @ ext (ml - 15)) m3" "length m3 = length m2"
      using put_match_length_ok[OF m2(2)] by blast
    have o: "out' = (pre @ token a ml # (mid @ offset_bytes ?off)) @ ext (ml - 15)" by (simp add: out'_def le)
    have t15: "ml \<ge> ML_MASK" "ml - ML_MASK = ml - 15" using True by (simp_all add: ML_MASK_def)
    have "emit_match None src ip match (length pre) (length ?o) m = Inr (Some (ip + (MINMATCH + ml), length out', m3))"
      unfolding emit_match_def Let_def past_limit_def option.case if_False w ebind.simps c' b if_P[OF t15(1)] t m2(1) op t15(2) m3(1) prod.case o ..
    then show ?thesis using m3(2,3) m2(3) m1(3) unfolding o by (auto simp: MINMATCH_def add.assoc)
  next
    case False
    have t: "token a 0 + word_of_nat ml = token a ml" using token_add[of a ml] False by (simp add: min_def)
    have le: "len_ext ml = []" using False by (simp add: len_ext_def)
    have o: "out' = pre @ token a ml # (mid @ offset_bytes ?off)" by (simp add: out'_def le)
    have t15: "\<not> ml \<ge> ML_MASK" using False by (simp add: ML_MASK_def)
    have "emit_match None src ip match (length pre) (length ?o) m = Inr (Some (ip + (MINMATCH + ml), length out', m2))"
      unfolding emit_match_def Let_def past_limit_def option.case if_False w ebind.simps c' b if_not_P[OF t15] t m2(1) op o ..
    then show ?thesis using m2(2,3) m1(3) unfolding o by (auto simp: MINMATCH_def add.assoc)
  qed
qed

lemma last_literals_ok:
  assumes "prefix out m" "anchor \<le> length src" "length (out @ fmt_last (drop anchor src)) \<le> length m"
  shows "\<exists>m'. last_literals None src anchor (length out) m = Inr (Some (length (out @ fmt_last (drop anchor src)), m')) \<and>
    prefix (out @ fmt_last (drop anchor src)) m' \<and> length m' = length m"
proof -
  let ?n = "length src - anchor" and ?l = "drop anchor src"
  let ?h = "out @ token ?n 0 # len_ext ?n"
  have f: "out @ fmt_last ?l = ?h @ ?l" by (simp add: fmt_last_def)
  have "length out + 1 + length (len_ext ?n) \<le> length m" using assms(3) unfolding f by simp
  then obtain m1 where m1: "(if ?n \<ge> RUN_MASK then ebind (mem_write m (length out) [word_of_nat (RUN_MASK * 16)]) (put_length (?n - RUN_MASK) (length out + 1))
      else ebind (mem_write m (length out) [word_of_nat (?n * 16)]) (\<lambda>dst. Inr (length out + 1, dst))) = Inr (length ?h, m1)"
    "prefix ?h m1" "length m1 = length m"
    using put_token[OF assms(1), of ?n] by blast
  have "length ?h + length ?l \<le> length m1" using assms(3) m1(3) unfolding f by simp
  then obtain m2 where m2: "mem_write m1 (length ?h) ?l = Inr m2" "prefix (?h @ ?l) m2" "length m2 = length m1"
    using prefix_write[OF m1(2)] by blast
  have "copy_from src ?n (length ?h) anchor m1 = Inr m2" using m2(1) assms(2) by (simp add: copy_from_def)
  then have "last_literals None src anchor (length out) m = Inr (Some (length ?h + ?n, m2))"
    unfolding last_literals_def Let_def past_limit_def option.case if_False m1(1) ebind.simps prod.case by simp
  then show ?thesis using m2(2,3) m1(3) unfolding f by simp
qed

section \<open>The main loop\<close>

text \<open>The bytes that were matched are what the decoder copies.\<close>

lemma matched_copy:
  assumes s: "same_at src ip match n" and i: "match < ip" "ip + n \<le> length src"
  shows "take (ip + n) src = lz_copy n (ip - match) (take ip src)"
proof (rule lz_copy_unique)
  show "prefix (take ip src) (take (ip + n) src)" by (simp add: take_add)
  show "take (ip + n) src ! j = take (ip + n) src ! (j - (ip - match))"
    if "length (take ip src) \<le> j" "j < length (take (ip + n) src)" for j
  proof -
    have j: "ip \<le> j" "j < ip + n" using that i(2) by simp_all
    then obtain k where k: "j = ip + k" "k < n" by (metis add_less_cancel_left le_Suc_ex)
    have "src ! (ip + k) = src ! (match + k)" using s k(2) by (simp add: same_at_def)
    moreover have "j - (ip - match) = match + k" using k(1) i(1) by simp
    ultimately show ?thesis using k i by (simp add: add.commute)
  qed
qed (use i in simp_all)

text \<open>What a sequence takes is at most what it stands for and one byte in 255.\<close>

lemma fmt_seq_length:
  "length (fmt_seq (l, off, ml)) \<le> length l + ml + 4 + (length l + ml + 4) div 255"
proof -
  have e: "length (len_ext k) \<le> k div 255 + 1" for k
  proof (cases "15 \<le> k")
    case True
    have "(k - 15) div 255 \<le> k div 255" by (rule div_le_mono) simp
    then show ?thesis using True by (simp add: len_ext_def ext_length)
  qed (simp add: len_ext_def)
  have m: "length (len_ext ml) + 1 \<le> ml + 1"
  proof (cases "15 \<le> ml")
    case True
    have "(ml - 15) div 255 \<le> ml - 15" by (rule div_le_dividend)
    then show ?thesis using True by (simp add: len_ext_def ext_length)
  qed (simp add: len_ext_def)
  have "length l div 255 \<le> (length l + ml + 4) div 255" by (rule div_le_mono) simp
  then show ?thesis using e[of "length l"] m by (simp add: offset_bytes_def Let_def)
qed

lemma div_add_le: "(a :: nat) div c + b div c \<le> (a + b) div c"
  using div_add1_eq[of a b c] by simp

text \<open>
  The invariant: \<open>ss\<close> are the sequences written so far, they expand to the input before \<open>anchor\<close>.
\<close>

definition encoded :: "buf \<Rightarrow> lz4_seq list \<Rightarrow> nat \<Rightarrow> bool" where
  "encoded src ss anchor \<longleftrightarrow> expand [] ss = take anchor src \<and> seqs_ok (length src) [] ss \<and> anchor \<le> length src \<and>
     length (concat (map fmt_seq ss)) \<le> anchor + anchor div 255"

lemma encoded_Nil: "encoded src [] 0"
  by (simp add: encoded_def)

lemma encoded_step:
  assumes e: "encoded src ss anchor" and i: "anchor \<le> ip" "match < ip" "ip - match < 2 ^ 16" "ip + 12 \<le> length src"
    and s: "same_at src ip match (ml + 4)" "ip + (ml + 4) + 5 \<le> length src"
  shows "encoded src (ss @ [(take (ip - anchor) (drop anchor src), ip - match, ml)]) (ip + ml + 4)"
proof -
  let ?l = "take (ip - anchor) (drop anchor src)" and ?off = "ip - match"
  have a: "expand [] ss = take anchor src" "seqs_ok (length src) [] ss" "length (concat (map fmt_seq ss)) \<le> anchor + anchor div 255"
    using e by (simp_all add: encoded_def)
  have l: "take anchor src @ ?l = take ip src" using i(1) take_add[of anchor "ip - anchor" src] by simp
  have ll: "length ?l = ip - anchor" using i(1,4) by simp
  have x: "expand [] (ss @ [(?l, ?off, ml)]) = take (ip + (ml + 4)) src"
    using matched_copy[OF s(1) i(2)] s(2) l by (simp add: expand_append a(1))
  have ok: "seqs_ok (length src) [] (ss @ [(?l, ?off, ml)])"
    using i s(2) by (simp add: seqs_ok_append a l)
  have "length (fmt_seq (?l, ?off, ml)) \<le> (ip - anchor) + ml + 4 + ((ip - anchor) + ml + 4) div 255"
    using fmt_seq_length[of ?l ?off ml] unfolding ll .
  moreover have "anchor div 255 + ((ip - anchor) + ml + 4) div 255 \<le> (ip + ml + 4) div 255"
    using div_add_le[of anchor 255 "(ip - anchor) + ml + 4"] i(1) by simp
  moreover have "length (concat (map fmt_seq (ss @ [(?l, ?off, ml)]))) = length (concat (map fmt_seq ss)) + length (fmt_seq (?l, ?off, ml))"
    by (simp del: fmt_seq.simps)
  moreover have "anchor + ((ip - anchor) + ml + 4) = ip + ml + 4" using i(1) by simp
  ultimately have "length (concat (map fmt_seq (ss @ [(?l, ?off, ml)]))) \<le> (ip + ml + 4) + (ip + ml + 4) div 255"
    using a(3) by linarith
  then show ?thesis using x ok s(2) unfolding encoded_def by (simp add: add.assoc)
qed

text \<open>What is needed of the output so that all writes are inside it.\<close>

lemma bound_room:
  fixes n anchor b :: nat
  assumes "anchor \<le> n" "b \<le> anchor + anchor div 255"
  shows "b + (1 + (n - anchor) div 255 + 1 + (n - anchor)) \<le> n + n div 255 + 2"
  using div_add_le[of anchor 255 "n - anchor"] assms by simp

definition compressed :: "buf \<Rightarrow> buf \<Rightarrow> ross_error + (nat \<times> buf) option \<Rightarrow> bool" where
  "compressed src m r \<longleftrightarrow> (\<exists>ss anchor m'. encoded src ss anchor \<and>
     r = Inr (Some (length (concat (map fmt_seq ss) @ fmt_last (drop anchor src)), m')) \<and>
     prefix (concat (map fmt_seq ss) @ fmt_last (drop anchor src)) m' \<and> length m' = length m)"

lemma len_ext_length: "length (len_ext k) \<le> k div 255 + 1"
proof (cases "15 \<le> k")
  case True
  have "(k - 15) div 255 \<le> k div 255" by (rule div_le_mono) simp
  then show ?thesis using True by (simp add: len_ext_def ext_length)
qed (simp add: len_ext_def)

lemma finish_compressed:
  assumes e: "encoded src ss anchor" and p: "prefix (concat (map fmt_seq ss)) m" and r: "length src + length src div 255 + 16 \<le> length m"
  shows "compressed src m (last_literals None src anchor (length (concat (map fmt_seq ss))) m)"
proof -
  have a: "anchor \<le> length src" "length (concat (map fmt_seq ss)) \<le> anchor + anchor div 255" using e by (simp_all add: encoded_def)
  have "length (fmt_last (drop anchor src)) \<le> 1 + (length src - anchor) div 255 + 1 + (length src - anchor)"
    using len_ext_length[of "length src - anchor"] by (simp add: fmt_last_def)
  then have "length (concat (map fmt_seq ss) @ fmt_last (drop anchor src)) \<le> length m"
    using bound_room[OF a] r by simp
  from last_literals_ok[OF p a(1) this] show ?thesis using e unfolding compressed_def by blast
qed

text \<open>
  The state at \<open>_next_match\<close>: the token, the literals and their length are written, and from \<open>ip\<close> to some
  \<open>ip0\<close>, behind which the table holds no position, the bytes are known to match.
\<close>

definition at_match :: "buf \<Rightarrow> (nat \<Rightarrow> nat) \<Rightarrow> nat \<Rightarrow> nat \<Rightarrow> nat \<Rightarrow> bool" where
  "at_match src tab anchor ip match \<longleftrightarrow> anchor \<le> ip \<and> match < ip \<and> ip - match < 2 ^ 16 \<and>
     (\<exists>ip0. ip \<le> ip0 \<and> ip0 + 12 \<le> length src \<and> same_at src ip match (ip0 + 4 - ip) \<and> tab_before tab (ip0 + 1))"

definition pending :: "buf \<Rightarrow> lz4_seq list \<Rightarrow> nat \<Rightarrow> nat \<Rightarrow> buf" where
  "pending src ss anchor ip =
     concat (map fmt_seq ss) @ token (ip - anchor) 0 # len_ext (ip - anchor) @ take (ip - anchor) (drop anchor src)"

lemma search_match:
  assumes fit: "fits t (length src)" and n: "13 \<le> length src" and e: "encoded src ss anchor"
    and i: "anchor < ip" "ip + 11 \<le> length src" "tab_before tab ip"
    and acc: "1 \<le> unat acc" "64 * unat acc + length src < 2 ^ 32"
    and p: "prefix (concat (map fmt_seq ss)) m" and room: "length src + length src div 255 + 16 \<le> length m"
  defines "op \<equiv> length (concat (map fmt_seq ss))"
  shows "compress_loop (Suc k) None src t acc (Search ip h) tab anchor op m = last_literals None src anchor op m \<or>
    (\<exists>ip' match tab' m'. compress_loop (Suc k) None src t acc (Search ip h) tab anchor op m =
        compress_loop k None src t acc (Next_match ip' match op) tab' anchor (length (pending src ss anchor ip')) m' \<and>
      at_match src tab' anchor ip' match \<and> prefix (pending src ss anchor ip') m' \<and> length m' = length m)"
proof -
  let ?nb = "push_bit LZ4_skipTrigger acc" and ?f = "find_match (length src) src t tab ip 1 (push_bit LZ4_skipTrigger acc) h"
  have "?nb = acc * 64" by (simp add: LZ4_skipTrigger_def push_bit_eq_mult)
  then have nb: "unat ?nb = 64 * unat acc" using acc(2) by (simp add: unat_word_ariths)
  have f: "?f = Inr None \<or> (\<exists>ip1 match tab'. ?f = Inr (Some (ip1, match, tab')) \<and> match < ip1 \<and> ip \<le> ip1 \<and> ip1 + 12 \<le> length src \<and>
       same_at src ip1 match 4 \<and> ip1 - match < 2 ^ 16 \<and> tab_before tab' (ip1 + 1))"
    by (rule find_match_ok[OF fit n i(3) _ i(2)]) (use i acc nb in simp_all)
  show ?thesis
  proof (cases "?f = Inr None")
    case True
    then show ?thesis by simp
  next
    case False
    then obtain ip1 match1 tab' where f: "?f = Inr (Some (ip1, match1, tab'))" "match1 < ip1" "ip \<le> ip1" "ip1 + 12 \<le> length src"
      "same_at src ip1 match1 4" "ip1 - match1 < 2 ^ 16" "tab_before tab' (ip1 + 1)" using f by blast
    have "ip1 \<le> length src" "match1 \<le> ip1" "anchor \<le> ip1" using f(2-4) i(1) by simp_all
    from catch_up_ok[OF this] obtain d where d: "catch_up src anchor ip1 match1 = Inr (ip1 - d, match1 - d)" "d \<le> match1" "d \<le> ip1 - anchor"
      "same_at src (ip1 - d) (match1 - d) d" by blast
    define ip' where "ip' = ip1 - d"
    define match where "match = match1 - d"
    have r: "anchor \<le> ip'" "ip' + d = ip1" "match + d = match1" using d(2,3) f(2,3) i(1) by (simp_all add: ip'_def match_def)
    have am: "at_match src tab' anchor ip' match"
      unfolding at_match_def
    proof (intro conjI exI[of _ ip1])
      have "ip1 + 4 - ip' = d + 4" using r(2) by simp
      then show "same_at src ip' match (ip1 + 4 - ip')"
        using d(4) f(5) by (simp only: same_at_add ip'_def[symmetric] match_def[symmetric] r)
    qed (use r f(2,4,6,7) in simp_all)
    have a: "anchor \<le> length src" "op \<le> anchor + anchor div 255" using e by (simp_all add: encoded_def op_def)
    have l: "op + 1 + length (len_ext (ip' - anchor)) + (ip' - anchor) + 8 \<le> length m"
    proof -
      have "length (len_ext (ip' - anchor)) \<le> (ip' - anchor) div 255 + 1" by (rule len_ext_length)
      moreover have "anchor div 255 + (ip' - anchor) div 255 \<le> (anchor + (ip' - anchor)) div 255" by (rule div_add_le)
      moreover have "anchor + (ip' - anchor) = ip'" using r(1) by simp
      moreover have "ip' \<le> length src" "ip' div 255 \<le> length src div 255" using r(2) f(4) by (simp_all add: div_le_mono)
      ultimately show ?thesis using a(2) room by linarith
    qed
    have ip8: "ip' + 8 \<le> length src" using r(2) f(4) by simp
    obtain m' where m': "emit_literals None src anchor ip' op m = Inr (Some (op, length (pending src ss anchor ip'), m'))"
      "prefix (pending src ss anchor ip') m'" "length m' = length m"
      using emit_literals_ok[OF p r(1) ip8, folded op_def, OF l] unfolding pending_def by blast
    have "compress_loop (Suc k) None src t acc (Search ip h) tab anchor op m =
        compress_loop k None src t acc (Next_match ip' match op) tab' anchor (length (pending src ss anchor ip')) m'"
      unfolding compress_loop.simps f(1) ebind.simps option.case prod.case d(1) ip'_def[symmetric] match_def[symmetric] m'(1) ..
    then show ?thesis using am m'(2,3) by blast
  qed
qed

text \<open>What the loop can do next.\<close>

definition after_match :: "nat \<Rightarrow> buf \<Rightarrow> tableType \<Rightarrow> 32 word \<Rightarrow> nat \<Rightarrow> nat \<Rightarrow> ross_error + (nat \<times> buf) option \<Rightarrow> bool" where
  "after_match k src t acc anchor len r \<longleftrightarrow> (\<exists>ss anchor' tab m. encoded src ss anchor' \<and> anchor + 4 \<le> anchor' \<and> length m = len \<and>
     (let op = length (concat (map fmt_seq ss)) in
      prefix (concat (map fmt_seq ss)) m \<and> r = last_literals None src anchor' op m \<or>
      (\<exists>match. r = compress_loop k None src t acc (Next_match anchor' match op) tab anchor' (length (pending src ss anchor' anchor')) m \<and>
         at_match src tab anchor' anchor' match \<and> prefix (pending src ss anchor' anchor') m) \<or>
      (\<exists>h. r = compress_loop k None src t acc (Search (anchor' + 1) h) tab anchor' op m \<and> tab_before tab (anchor' + 1) \<and>
         anchor' + 12 \<le> length src \<and> prefix (concat (map fmt_seq ss)) m)))"

lemma count_match:
  assumes "same_at src ip match (ip0 + 4 - ip)" "match < ip" "ip \<le> ip0" "ip0 + 12 \<le> length src"
  shows "\<exists>c. LZ4_count src (ip + 4) (match + 4) (length src - 5) = Inr c \<and> ip + 4 + c + 5 \<le> length src \<and>
    same_at src ip match (c + 4) \<and> ip0 + 4 \<le> ip + 4 + c"
proof -
  have "match + 4 \<le> ip + 4" "length src - 5 \<le> length src" "ip + 4 \<le> length src - 5" using assms(2-4) by simp_all
  from LZ4_count_ok[OF this] obtain c where c: "LZ4_count src (ip + 4) (match + 4) (length src - 5) = Inr c" "ip + 4 + c \<le> length src - 5"
    "same_at src (ip + 4) (match + 4) c" "ip + 4 + c < length src - 5 \<longrightarrow> src ! (ip + 4 + c) \<noteq> src ! (match + 4 + c)" by blast
  have "ip0 + 4 - ip = 4 + (ip0 - ip)" using assms(3) by simp
  then have s: "same_at src ip match 4" "same_at src (ip + 4) (match + 4) (ip0 - ip)" using assms(1) by (simp_all only: same_at_add)
  have "ip0 - ip \<le> c"
  proof (cases "ip + 4 + c < length src - 5")
    case True
    then show ?thesis using same_at_max[OF s(2)] c(4) by blast
  next
    case False
    then show ?thesis using assms(3,4) by simp
  qed
  moreover have "same_at src ip match (c + 4)" using s(1) c(3) by (simp only: add.commute[of c] same_at_add)
  moreover have "ip + 4 + c + 5 \<le> length src" using c(2) assms(3,4) by simp
  ultimately show ?thesis using c(1) assms(3) by (intro exI[of _ c]) simp
qed

lemma match_step:
  assumes fit: "fits t (length src)" and e: "encoded src ss anchor" and am: "at_match src tab anchor ip match"
    and p: "prefix (pending src ss anchor ip) m" and room: "length src + length src div 255 + 16 \<le> length m"
  shows "after_match k src t acc anchor (length m)
    (compress_loop (Suc k) None src t acc (Next_match ip match (length (concat (map fmt_seq ss)))) tab anchor (length (pending src ss anchor ip)) m)"
proof -
  obtain ip0 where a: "anchor \<le> ip" "match < ip" "ip - match < 2 ^ 16" "ip \<le> ip0" "ip0 + 12 \<le> length src"
    "same_at src ip match (ip0 + 4 - ip)" "tab_before tab (ip0 + 1)" using am unfolding at_match_def by blast
  obtain c where c: "LZ4_count src (ip + 4) (match + 4) (length src - 5) = Inr c" "ip + 4 + c + 5 \<le> length src"
    "same_at src ip match (c + 4)" "ip0 + 4 \<le> ip + 4 + c" using count_match[OF a(6,2,4,5)] by blast
  let ?l = "take (ip - anchor) (drop anchor src)" and ?ip = "ip + 4 + c"
  let ?ss = "ss @ [(?l, ip - match, c)]"
  have i12: "ip + 12 \<le> length src" using a(4,5) by simp
  have "ip + (c + 4) + 5 \<le> length src" using c(2) by simp
  from encoded_step[OF e a(1-3) i12 c(3) this] have "encoded src ?ss (ip + c + 4)" .
  moreover have "ip + c + 4 = ?ip" by simp
  ultimately have e': "encoded src ?ss ?ip" by (simp only:)
  let ?op = "length (concat (map fmt_seq ?ss))"
  have ll: "length ?l = ip - anchor" using a(1) i12 by simp
  have b: "?op \<le> ?ip + ?ip div 255" "?ip \<le> length src" using e' by (simp_all add: encoded_def)
  have opl: "?op + 16 \<le> length m" using b room div_le_mono[OF b(2), of 255] by linarith
  have f: "concat (map fmt_seq ?ss) = concat (map fmt_seq ss) @ token (ip - anchor) c # (len_ext (ip - anchor) @ ?l) @ offset_bytes (ip - match) @ len_ext c"
    by (simp add: ll del: length_take length_drop)
  have "length (offset_bytes (ip - match)) = 2" by (simp add: offset_bytes_def Let_def)
  then have "length (pending src ss anchor ip) + 2 + length (len_ext c) \<le> length m"
    using opl unfolding f pending_def by simp
  then obtain m1 where m1: "emit_match None src ip match (length (concat (map fmt_seq ss))) (length (pending src ss anchor ip)) m = Inr (Some (?ip, ?op, m1))"
    "prefix (concat (map fmt_seq ?ss)) m1" "length m1 = length m"
    using emit_match_ok[OF p[unfolded pending_def] less_imp_le[OF a(2)] i12 c(1), folded pending_def] unfolding f by auto
  let ?r = "compress_loop (Suc k) None src t acc (Next_match ip match (length (concat (map fmt_seq ss)))) tab anchor (length (pending src ss anchor ip)) m"
  have later: "anchor + 4 \<le> ?ip" using a(1) by simp
  show ?thesis
  proof (cases "?ip > length src - MFLIMIT")
    case True
    then have "?r = last_literals None src ?ip ?op m1"
      unfolding compress_loop.simps m1(1) ebind.simps option.case prod.case Let_def by simp
    then show ?thesis using e' later m1(2,3) unfolding after_match_def Let_def by blast
  next
    case False
    then have p12: "?ip + 12 \<le> length src" using b(2) i12 by (simp add: MFLIMIT_def COPYLENGTH_def MINMATCH_def)
    obtain h1 where h1: "LZ4_hashPosition src (?ip - 2) t = Inr h1" using hash_ok[of "?ip - 2" src t] p12 by auto
    obtain h2 where h2: "LZ4_hashPosition src ?ip t = Inr h2" using hash_ok[of ?ip src t] p12 by auto
    obtain h3 where h3: "LZ4_hashPosition src (?ip + 1) t = Inr h3" using hash_ok[of "?ip + 1" src t] p12 by auto
    let ?t1 = "tab(h1 := ?ip - 2)"
    let ?t2 = "?t1(h2 := ?ip)" and ?m = "?t1 h2"
    have put: "LZ4_putPosition src (?ip - 2) tab t = Inr ?t1" "LZ4_getPosition src ?ip ?t1 t = Inr ?m" "LZ4_putPosition src ?ip ?t1 t = Inr ?t2"
      using put_fits[OF fit, of "?ip - 2"] put_fits[OF fit p12] p12 h1 h2
      by (simp_all add: LZ4_putPosition_def LZ4_getPosition_def LZ4_getPositionOnHash_def)
    have tb1: "tab_before ?t1 ?ip" by (rule tab_beforeI[OF a(7)]) (use c(4) in simp_all)
    have tb2: "tab_before ?t2 (?ip + 1)" by (rule tab_beforeI[OF tb1]) simp_all
    have ml: "?m < ?ip" using tb1 by (simp only: tab_before_def)
    have sw: "same_word src ?m ?ip = Inr (same_at src ?ip ?m 4)" using p12 ml by (intro same_word_ok) simp_all
    let ?found = "?m + MAX_DISTANCE \<ge> ?ip \<and> same_at src ?ip ?m 4"
    have test: "(if ?m + MAX_DISTANCE \<ge> ?ip then same_word src ?m ?ip else Inr False) = (Inr ?found :: ross_error + bool)" using sw by simp
    have r: "?r = (if ?found then ebind (mem_write m1 ?op [0]) (\<lambda>dst.
          compress_loop k None src t acc (Next_match ?ip ?m ?op) ?t2 ?ip (?op + 1) dst)
        else compress_loop k None src t acc (Search (?ip + 1) h3) ?t2 ?ip ?op m1)"
      unfolding compress_loop.simps m1(1) ebind.simps option.case prod.case Let_def if_not_P[OF False] put test h3 ..
    show ?thesis
    proof (cases ?found)
      case True
      obtain m2 where m2: "mem_write m1 ?op [0] = Inr m2" "prefix (concat (map fmt_seq ?ss) @ [0]) m2" "length m2 = length m1"
        using prefix_write[OF m1(2), of "[0]"] opl m1(3) by auto
      have pd: "pending src ?ss ?ip ?ip = concat (map fmt_seq ?ss) @ [0]"
        by (simp add: pending_def token_def len_ext_def del: map_append concat_append)
      have "x - y < 2 ^ 16" if "y + MAX_DISTANCE \<ge> x" for x y using that by (simp add: MAX_DISTANCE_def)
      then have "?ip - ?m < 2 ^ 16" using True by blast
      then have am': "at_match src ?t2 ?ip ?ip ?m"
        unfolding at_match_def using ml p12 True tb2 by (intro conjI exI[of _ ?ip]) simp_all
      have "?r = compress_loop k None src t acc (Next_match ?ip ?m ?op) ?t2 ?ip (length (pending src ?ss ?ip ?ip)) m2"
        unfolding r pd using True m2(1) by simp
      then show ?thesis using e' later am' m2(2,3) m1(3) pd unfolding after_match_def Let_def by metis
    next
      case False
      then have "?r = compress_loop k None src t acc (Search (?ip + 1) h3) ?t2 ?ip ?op m1" unfolding r by (rule if_not_P)
      then show ?thesis using e' later m1(2,3) tb2 p12 unfolding after_match_def Let_def by blast
    qed
  qed
qed

text \<open>The loop ends, with the input compressed; the fuel is the number of bytes of the input.\<close>

lemma compressed_length: "compressed src m r \<Longrightarrow> length m = length m' \<Longrightarrow> compressed src m' r"
  by (simp add: compressed_def)

lemma compress_loop_ok:
  assumes fit: "fits t (length src)" and n: "13 \<le> length src" and acc: "1 \<le> unat acc" "64 * unat acc + length src < 2 ^ 32"
  shows "(\<forall>ss anchor ip h tab m. encoded src ss anchor \<longrightarrow> anchor < ip \<longrightarrow> ip + 11 \<le> length src \<longrightarrow> tab_before tab ip \<longrightarrow>
      length src \<le> k + anchor \<longrightarrow> prefix (concat (map fmt_seq ss)) m \<longrightarrow> length src + length src div 255 + 16 \<le> length m \<longrightarrow>
      compressed src m (compress_loop k None src t acc (Search ip h) tab anchor (length (concat (map fmt_seq ss))) m)) \<and>
    (\<forall>ss anchor ip match tab m. encoded src ss anchor \<longrightarrow> at_match src tab anchor ip match \<longrightarrow>
      length src \<le> k + 1 + anchor \<longrightarrow> prefix (pending src ss anchor ip) m \<longrightarrow> length src + length src div 255 + 16 \<le> length m \<longrightarrow>
      compressed src m (compress_loop k None src t acc (Next_match ip match (length (concat (map fmt_seq ss)))) tab anchor
        (length (pending src ss anchor ip)) m))"
proof (induction k)
  case 0
  have "\<not> at_match src tab anchor ip match" if "length src \<le> 1 + anchor" for tab anchor ip match
    using that n by (auto simp: at_match_def)
  then show ?case using n by auto
next
  case (Suc k)
  note S = Suc.IH[THEN conjunct1, rule_format] and N = Suc.IH[THEN conjunct2, rule_format]
  show ?case
  proof (intro conjI allI impI)
    fix ss anchor ip h tab and m :: buf
    assume a: "encoded src ss anchor" "anchor < ip" "ip + 11 \<le> length src" "tab_before tab ip" "length src \<le> Suc k + anchor"
      "prefix (concat (map fmt_seq ss)) m" "length src + length src div 255 + 16 \<le> length m"
    let ?r = "compress_loop (Suc k) None src t acc (Search ip h) tab anchor (length (concat (map fmt_seq ss))) m"
    consider "?r = last_literals None src anchor (length (concat (map fmt_seq ss))) m"
      | ip' match tab' m' where "?r = compress_loop k None src t acc (Next_match ip' match (length (concat (map fmt_seq ss)))) tab' anchor
          (length (pending src ss anchor ip')) m'" "at_match src tab' anchor ip' match" "prefix (pending src ss anchor ip') m'" "length m' = length m"
      using search_match[OF fit n a(1-4) acc a(6,7), of k h] by blast
    then show "compressed src m ?r"
    proof cases
      case 1
      then show ?thesis using finish_compressed[OF a(1,6,7)] by simp
    next
      case (2 ip' match tab' m')
      have "compressed src m' ?r" unfolding 2(1) by (rule N[OF a(1) 2(2) _ 2(3)]) (use a(5,7) 2(4) in simp_all)
      then show ?thesis using 2(4) by (rule compressed_length)
    qed
  next
    fix ss anchor ip match tab and m :: buf
    assume a: "encoded src ss anchor" "at_match src tab anchor ip match" "length src \<le> Suc k + 1 + anchor"
      "prefix (pending src ss anchor ip) m" "length src + length src div 255 + 16 \<le> length m"
    let ?r = "compress_loop (Suc k) None src t acc (Next_match ip match (length (concat (map fmt_seq ss)))) tab anchor (length (pending src ss anchor ip)) m"
    have "after_match k src t acc anchor (length m) ?r" by (rule match_step[OF fit a(1,2,4,5)])
    then obtain ss' anchor' tab' m' where b: "encoded src ss' anchor'" "anchor + 4 \<le> anchor'" "length m' = length m"
      "prefix (concat (map fmt_seq ss')) m' \<and> ?r = last_literals None src anchor' (length (concat (map fmt_seq ss'))) m' \<or>
      (\<exists>match. ?r = compress_loop k None src t acc (Next_match anchor' match (length (concat (map fmt_seq ss')))) tab' anchor' (length (pending src ss' anchor' anchor')) m' \<and>
         at_match src tab' anchor' anchor' match \<and> prefix (pending src ss' anchor' anchor') m') \<or>
      (\<exists>h. ?r = compress_loop k None src t acc (Search (anchor' + 1) h) tab' anchor' (length (concat (map fmt_seq ss'))) m' \<and> tab_before tab' (anchor' + 1) \<and>
         anchor' + 12 \<le> length src \<and> prefix (concat (map fmt_seq ss')) m')"
      unfolding after_match_def Let_def by blast
    have room: "length src + length src div 255 + 16 \<le> length m'" using a(5) b(3) by simp
    have "compressed src m' ?r"
      using b(4)
    proof (elim disjE exE conjE)
      assume "prefix (concat (map fmt_seq ss')) m'" "?r = last_literals None src anchor' (length (concat (map fmt_seq ss'))) m'"
      then show ?thesis using finish_compressed[OF b(1) _ room] by simp
    next
      fix match' assume c: "?r = compress_loop k None src t acc (Next_match anchor' match' (length (concat (map fmt_seq ss')))) tab' anchor' (length (pending src ss' anchor' anchor')) m'"
        "at_match src tab' anchor' anchor' match'" "prefix (pending src ss' anchor' anchor') m'"
      show ?thesis unfolding c(1) by (rule N[OF b(1) c(2) _ c(3) room]) (use a(3) b(2) in simp)
    next
      fix h assume c: "?r = compress_loop k None src t acc (Search (anchor' + 1) h) tab' anchor' (length (concat (map fmt_seq ss'))) m'"
        "tab_before tab' (anchor' + 1)" "anchor' + 12 \<le> length src" "prefix (concat (map fmt_seq ss')) m'"
      show ?thesis unfolding c(1) by (rule S[OF b(1) _ _ c(2) _ c(4) room]) (use a(3) b(2) c(3) in simp_all)
    qed
    then show "compressed src m ?r" using b(3) by (rule compressed_length)
  qed
qed

lemma compress_generic_ok:
  assumes fit: "fits t (length src)" and acc: "1 \<le> unat acc" "64 * unat acc + length src < 2 ^ 32"
    and room: "length src + length src div 255 + 16 \<le> length m"
  shows "compressed src m (LZ4_compress_generic (\<lambda>_. 0) src m None t acc)"
proof -
  have lim: "\<not> length src > LZ4_MAX_INPUT_SIZE" "\<not> (t = byU16 \<and> length src \<ge> LZ4_64Klimit)" using fit by (auto simp: fits_def)
  show ?thesis
  proof (cases "length src < LZ4_minLength")
    case True
    then have "LZ4_compress_generic (\<lambda>_. 0) src m None t acc = last_literals None src 0 0 m"
      unfolding LZ4_compress_generic_def if_not_P[OF lim(1)] if_not_P[OF lim(2)] by simp
    then show ?thesis using finish_compressed[OF encoded_Nil _ room] by simp
  next
    case False
    then have n: "13 \<le> length src" by (simp add: LZ4_minLength_def MFLIMIT_def COPYLENGTH_def MINMATCH_def)
    obtain h0 where h0: "LZ4_hashPosition src 0 t = Inr h0" using hash_ok[of 0 src t] n by auto
    obtain h1 where h1: "LZ4_hashPosition src 1 t = Inr h1" using hash_ok[of 1 src t] n by auto
    have "LZ4_putPositionOnHash 0 h0 (\<lambda>_. 0) t = (\<lambda>_. 0)" using put_fits[OF fit, of 0] n by auto
    then have "LZ4_compress_generic (\<lambda>_. 0) src m None t acc = compress_loop (length src) None src t acc (Search 1 h1) (\<lambda>_. 0) 0 0 m"
      using lim False h0 h1 by (auto simp: LZ4_compress_generic_def LZ4_putPosition_def)
    moreover have "compressed src m (compress_loop (length src) None src t acc (Search 1 h1) (\<lambda>_. 0) 0 (length (concat (map fmt_seq []))) m)"
      by (rule compress_loop_ok[OF fit n acc, THEN conjunct1, rule_format, OF encoded_Nil]) (use n room in \<open>simp_all add: tab_before_def\<close>)
    ultimately show ?thesis by simp
  qed
qed

end
