(* ===== verification/Lz4_Props.thy ===== *)
theory Lz4_Props
  imports Lz4_Compress
begin

text \<open>The properties of the compression that state saving uses (\<open>core/lz4.c\<close>).\<close>

lemma compress_fast_ok:
  assumes n: "length src \<le> LZ4_MAX_INPUT_SIZE" and s: "LZ4_STREAMSIZE \<le> szs" and a: "64 * unat acceleration + length src < 2 ^ 32"
    and m: "LZ4_compressBound (length src) \<le> maxOutputSize" "maxOutputSize \<le> length dst"
  shows "compressed src dst (LZ4_compress_fast_extState szs src dst maxOutputSize acceleration)"
proof -
  let ?acc = "if sint acceleration < 1 then 1 else acceleration"
  let ?t = "if length src < LZ4_64Klimit then byU16 else byU32"
  have acc: "1 \<le> unat ?acc" "64 * unat ?acc + length src < 2 ^ 32"
  proof -
    have "unat acceleration \<noteq> 0" if "\<not> sint acceleration < 1" using that by (auto simp: unat_eq_0)
    then show "1 \<le> unat ?acc" by (auto simp: Suc_le_eq)
    show "64 * unat ?acc + length src < 2 ^ 32" using a n by (simp add: LZ4_MAX_INPUT_SIZE_def)
  qed
  have fit: "fits ?t (length src)" using n by (simp add: fits_def)
  have room: "length src + length src div 255 + 16 \<le> length dst" using m n by (simp add: LZ4_compressBound_def)
  have "LZ4_compress_fast_extState szs src dst maxOutputSize acceleration = LZ4_compress_generic (\<lambda>_. 0) src dst None ?t ?acc"
    using s m(1) by (simp add: LZ4_compress_fast_extState_def LZ4_resetStream_def Let_def)
  then show ?thesis using compress_generic_ok[OF fit acc room] by simp
qed

lemma compressed_roundtrip:
  assumes "compressed src dst r" "length src \<le> LZ4_MAX_INPUT_SIZE"
  shows "\<exists>k dst'. r = Inr (Some (k, dst')) \<and> 0 < k \<and> k \<le> LZ4_compressBound (length src) \<and> k \<le> length dst \<and> length dst' = length dst \<and>
    (\<forall>rest out. length src \<le> length out \<longrightarrow> (\<exists>out'. LZ4_decompress_fast (take k dst' @ rest) out (length src) = Inr (int k, out') \<and>
       take (length src) out' = src \<and> length out' = length out))"
proof -
  obtain ss anchor dst' where c: "encoded src ss anchor" "r = Inr (Some (length (concat (map fmt_seq ss) @ fmt_last (drop anchor src)), dst'))"
    "prefix (concat (map fmt_seq ss) @ fmt_last (drop anchor src)) dst'" "length dst' = length dst"
    using assms(1) unfolding compressed_def by blast
  let ?f = "concat (map fmt_seq ss) @ fmt_last (drop anchor src)"
  have e: "expand [] ss = take anchor src" "seqs_ok (length src) [] ss" "anchor \<le> length src" "length (concat (map fmt_seq ss)) \<le> anchor + anchor div 255"
    using c(1) by (simp_all add: encoded_def)
  have "length (fmt_last (drop anchor src)) \<le> 1 + (length src - anchor) div 255 + 1 + (length src - anchor)"
    using len_ext_length[of "length src - anchor"] by (simp add: fmt_last_def)
  then have b: "length ?f \<le> LZ4_compressBound (length src)"
    using bound_room[OF e(3,4)] assms(2) by (simp add: LZ4_compressBound_def)
  have t: "take (length ?f) dst' = ?f" using c(3) by (auto simp: prefix_def)
  have d: "\<exists>out'. LZ4_decompress_fast (take (length ?f) dst' @ rest) out (length src) = Inr (int (length ?f), out') \<and>
      take (length src) out' = src \<and> length out' = length out" if "length src \<le> length out" for rest out
  proof -
    have "\<exists>m'. LZ4_decompress_fast (take (length ?f) dst' @ rest) out (length src) = Inr (int (length ?f), m') \<and>
        prefix (expand [] ss @ drop anchor src) m' \<and> length m' = length out"
      by (rule decompress_fast_ok) (use t e that in simp_all)
    then obtain m' where "LZ4_decompress_fast (take (length ?f) dst' @ rest) out (length src) = Inr (int (length ?f), m')"
      "prefix (expand [] ss @ drop anchor src) m'" "length m' = length out" by blast
    moreover from this(2) have "take (length src) m' = src" unfolding e(1) by (auto simp: prefix_def)
    ultimately show ?thesis by blast
  qed
  have "0 < length ?f" by (simp add: fmt_last_def)
  moreover have "length ?f \<le> length dst" using c(3,4) by (auto simp: prefix_def)
  ultimately show ?thesis using c(2,4) b d by (intro exI[of _ "length ?f"] exI[of _ dst']) blast
qed

text \<open>
  C19: decompression undoes compression. With an output buffer of \<open>LZ4_compressBound\<close> bytes the
  compressor always succeeds, writes nothing outside its buffers and returns the number of bytes it has
  written, at most that bound; from these bytes, whatever follows them in memory, the decompressor restores
  the input, reads exactly as many bytes as were written, and writes nothing outside its output. The
  acceleration must be so small that the counter of the search does not wrap around.
\<close>

theorem lz4_roundtrip:
  assumes "length src \<le> LZ4_MAX_INPUT_SIZE" "LZ4_STREAMSIZE \<le> szs" "64 * unat acceleration + length src < 2 ^ 32"
    "LZ4_compressBound (length src) \<le> maxOutputSize" "maxOutputSize \<le> length dst"
  shows "\<exists>k dst'. LZ4_compress_fast_extState szs src dst maxOutputSize acceleration = Inr (Some (k, dst')) \<and>
    0 < k \<and> k \<le> LZ4_compressBound (length src) \<and> length dst' = length dst \<and>
    (\<forall>rest out. length src \<le> length out \<longrightarrow> (\<exists>out'. LZ4_decompress_fast (take k dst' @ rest) out (length src) = Inr (int k, out') \<and>
       take (length src) out' = src \<and> length out' = length out))"
  using compressed_roundtrip[OF compress_fast_ok[OF assms] assms(1)] by blast

definition ex_lz4_src :: buf where
  "ex_lz4_src = replicate 40 7 @ [1, 2, 3]"

theorem lz4_roundtrip_witness:
  "\<exists>k dst'. LZ4_compress_fast_extState 16416 ex_lz4_src (replicate 100 0) 100 17 = Inr (Some (k, dst')) \<and>
    (\<exists>out'. LZ4_decompress_fast (take k dst') (replicate 43 0) 43 = Inr (int k, out') \<and> take 43 out' = ex_lz4_src)"
proof -
  have l: "length ex_lz4_src = 43" by (simp add: ex_lz4_src_def)
  have "length ex_lz4_src \<le> LZ4_MAX_INPUT_SIZE" "LZ4_STREAMSIZE \<le> 16416" "64 * unat (17 :: 32 word) + length ex_lz4_src < 2 ^ 32"
    "LZ4_compressBound (length ex_lz4_src) \<le> 100" "100 \<le> length (replicate 100 (0 :: 8 word))"
    by (simp_all add: l LZ4_MAX_INPUT_SIZE_def LZ4_STREAMSIZE_def LZ4_compressBound_def)
  from lz4_roundtrip[OF this] obtain k dst' where
    k: "LZ4_compress_fast_extState 16416 ex_lz4_src (replicate 100 0) 100 17 = Inr (Some (k, dst'))"
    "\<And>rest out. 43 \<le> length out \<Longrightarrow> \<exists>out'. LZ4_decompress_fast (take k dst' @ rest) out 43 = Inr (int k, out') \<and> take 43 out' = ex_lz4_src"
    unfolding l by blast
  show ?thesis using k(1) k(2)[of "replicate 43 0" "[]"] by auto
qed

text \<open>
  C20: a large acceleration loses data. With the acceleration \<open>2 ^ 26\<close> the counter of the search wraps
  around to zero, so that the search does not move on and finds the position it has just stored: the match
  of a byte sequence with itself, at distance zero. The output then depends on the last five bytes of the
  input and its length only. The number is taken from the command line unchecked.
\<close>

theorem lz4_acceleration_wraps:
  assumes n: "14 \<le> length src" "length src < LZ4_64Klimit" and s: "LZ4_STREAMSIZE \<le> szs"
    and m: "LZ4_compressBound (length src) \<le> maxOutputSize" "maxOutputSize \<le> length dst"
    and d: "\<not> same_at src 1 0 4" "\<not> same_at src 2 0 4" "\<not> same_at src 2 1 4"
  shows "\<exists>k dst'. LZ4_compress_fast_extState szs src dst maxOutputSize (2 ^ 26) = Inr (Some (k, dst')) \<and>
    take k dst' = fmt_seq ([], 0, length src - 9) @ fmt_last (drop (length src - 5) src)"
proof -
  let ?n = "length src" and ?T = "\<lambda>_ :: nat. 0 :: nat"
  have lim: "?n \<le> LZ4_MAX_INPUT_SIZE" "fits byU16 ?n"
    using n(2) by (simp_all add: fits_def LZ4_64Klimit_def LZ4_MAX_INPUT_SIZE_def MFLIMIT_def COPYLENGTH_def MINMATCH_def)
  have room: "?n + ?n div 255 + 16 \<le> length dst" using m lim by (simp add: LZ4_compressBound_def)
  obtain h0 where h0: "LZ4_hashPosition src 0 byU16 = Inr h0" using hash_ok[of 0 src byU16] n by auto
  obtain h1 where h1: "LZ4_hashPosition src 1 byU16 = Inr h1" using hash_ok[of 1 src byU16] n by auto
  obtain h2 where h2: "LZ4_hashPosition src 2 byU16 = Inr h2" using hash_ok[of 2 src byU16] n by auto
  have put: "LZ4_putPositionOnHash p h tab byU16 = tab(h := p)" if "p \<le> 2" for p h tab
    using put_fits[OF lim(2), of p h tab] that n(1) by simp
  have sw: "same_word src q p = Inr (same_at src p q 4)" if "p \<le> 2" "q \<le> 2" for p q
    using that n(1) by (intro same_word_ok) simp_all
  have z: "push_bit LZ4_skipTrigger (2 ^ 26 :: 32 word) = 0" by (simp add: LZ4_skipTrigger_def)
  have z2: "drop_bit LZ4_skipTrigger (0 :: 32 word) = 0" "drop_bit LZ4_skipTrigger (1 :: 32 word) = 0" by (simp_all add: LZ4_skipTrigger_def)
  let ?t1 = "?T(h1 := 1)"
  let ?t2 = "?t1(h2 := 2)"
  have mf: "\<not> 2 > ?n - MFLIMIT" using n(1) by (simp add: MFLIMIT_def COPYLENGTH_def MINMATCH_def)
  have f3: "find_match (Suc k) src byU16 ?t2 2 0 nb h2 = Inr (Some (2, 2, ?t2))" for k nb
  proof -
    have "same_at src 2 2 4" by (simp add: same_at_def)
    then show ?thesis using mf h2 put[of 2 h2 ?t2] sw[of 2 2] by (simp add: Let_def LZ4_getPositionOnHash_def)
  qed
  have f2: "find_match (Suc (Suc k)) src byU16 ?t1 2 0 1 h2 = Inr (Some (2, 2, ?t2))" for k
  proof -
    have t: "?t1 h2 \<le> 2" "\<not> same_at src 2 (?t1 h2) 4" using d(2,3) by simp_all
    show ?thesis
      unfolding find_match.simps(2)[of "Suc k"] Let_def LZ4_getPositionOnHash_def
      using mf h2 put[of 2 h2 ?t1] sw[OF _ t(1), of 2] t(2) z2 f3 by (simp del: find_match.simps fun_upd_apply)
  qed
  have f1: "find_match (Suc (Suc (Suc k))) src byU16 ?T 1 1 0 h1 = Inr (Some (2, 2, ?t2))" for k
    unfolding find_match.simps(2)[of "Suc (Suc k)"] Let_def LZ4_getPositionOnHash_def
    using mf h2 put[of 1 h1 ?T] sw[of 1 0] d(1) z2 f2 by (simp add: numeral_2_eq_2 del: find_match.simps fun_upd_apply)
  have "?n = Suc (Suc (Suc (?n - 3)))" using n(1) by simp
  then have f: "find_match ?n src byU16 ?T 1 1 (push_bit LZ4_skipTrigger (2 ^ 26)) h1 = Inr (Some (2, 2, ?t2))"
    using f1[of "?n - 3"] unfolding z by simp
  have cu: "catch_up src 0 2 2 = Inr (0, 0)"
  proof -
    have "0 < ?n" "1 < ?n" using n(1) by linarith+
    then have b: "mem_byte src 0 = Inr (src ! 0)" "mem_byte src 1 = Inr (src ! 1)" by (simp_all add: mem_byte_def)
    have "catch_up src 0 0 0 = Inr (0, 0)" by (subst catch_up.simps) simp
    then have "catch_up src 0 1 1 = Inr (0, 0)" using b by (subst catch_up.simps) simp
    then show ?thesis using b by (subst catch_up.simps) simp
  qed
  have p0: "prefix [] dst" by simp
  obtain m1 where m1: "emit_literals None src 0 0 0 dst = Inr (Some (0, 1, m1))" "prefix [token 0 0] m1" "length m1 = length dst"
    using emit_literals_ok[OF p0, of 0 0 src] n(1) room by (auto simp: len_ext_def)
  have c: "LZ4_count src (0 + 4) (0 + 4) (?n - 5) = Inr (?n - 9)"
  proof -
    obtain c where "LZ4_count src 4 4 (?n - 5) = Inr c" "4 + c \<le> ?n - 5" "4 + c < ?n - 5 \<longrightarrow> src ! (4 + c) \<noteq> src ! (4 + c)"
    proof -
      have "4 \<le> ?n - 5" using n(1) by simp
      from LZ4_count_ok[OF order_refl _ this, of src] show ?thesis using that by auto
    qed
    moreover from this have "c = ?n - 9" by auto
    ultimately show ?thesis by simp
  qed
  have l9: "length (len_ext (?n - 9)) \<le> ?n div 255 + 1" using len_ext_length[of "?n - 9"] div_le_mono[of "?n - 9" ?n 255] by simp
  let ?o = "[] @ token 0 (?n - 9) # [] @ offset_bytes (0 - 0) @ len_ext (?n - 9)"
  have "\<exists>m'. emit_match None src 0 0 (length ([] :: buf)) (length ([] @ token 0 0 # [])) m1 = Inr (Some (0 + 4 + (?n - 9), length ?o, m')) \<and>
      prefix ?o m' \<and> length m' = length m1"
  proof -
    have "prefix ([] @ token 0 0 # []) m1" "0 + 12 \<le> ?n" "length ([] @ token 0 0 # []) + 2 + length (len_ext (?n - 9)) \<le> length m1"
      using m1(2,3) n(1) room l9 by simp_all
    from emit_match_ok[OF this(1) order_refl this(2) c this(3)] show ?thesis .
  qed
  then obtain m2 where m2: "emit_match None src 0 0 0 1 m1 = Inr (Some (?n - 5, length ?o, m2))" "prefix ?o m2" "length m2 = length m1"
    using n(1) by auto
  have fs: "?o = fmt_seq ([], 0, ?n - 9)" by (simp add: len_ext_def)
  have lo: "length ?o \<le> ?n div 255 + 4" using l9 by (simp add: offset_bytes_def Let_def)
  have "length (fmt_last (drop (?n - 5) src)) = 6" using n(1) by (simp add: fmt_last_def len_ext_def)
  then have "length (?o @ fmt_last (drop (?n - 5) src)) \<le> length m2" using lo room n(1) m2(3) m1(3) by simp
  from last_literals_ok[OF m2(2) _ this] obtain m3 where
    m3: "last_literals None src (?n - 5) (length ?o) m2 = Inr (Some (length (?o @ fmt_last (drop (?n - 5) src)), m3))"
      "prefix (?o @ fmt_last (drop (?n - 5) src)) m3" by auto
  have end_: "?n - 5 > ?n - MFLIMIT" using n(1) by (simp add: MFLIMIT_def COPYLENGTH_def MINMATCH_def)
  have loop: "compress_loop (Suc (Suc k)) None src byU16 (2 ^ 26) (Search 1 h1) ?T 0 0 dst = last_literals None src (?n - 5) (length ?o) m2" for k
    unfolding compress_loop.simps f ebind.simps option.case prod.case cu m1(1) m2(1) Let_def if_P[OF end_] ..
  have "?n = Suc (Suc (?n - 2))" using n(1) by simp
  then have loop': "compress_loop ?n None src byU16 (2 ^ 26) (Search 1 h1) ?T 0 0 dst = last_literals None src (?n - 5) (length ?o) m2"
    using loop[of "?n - 2"] by simp
  have gen: "LZ4_compress_generic ?T src dst None byU16 (2 ^ 26) = last_literals None src (?n - 5) (length ?o) m2"
  proof -
    have a: "\<not> ?n > LZ4_MAX_INPUT_SIZE" "\<not> (byU16 = byU16 \<and> ?n \<ge> LZ4_64Klimit)" "\<not> ?n < LZ4_minLength"
      using lim n by (simp_all add: LZ4_minLength_def MFLIMIT_def COPYLENGTH_def MINMATCH_def)
    have p: "LZ4_putPosition src 0 ?T byU16 = Inr ?T" using h0 put[of 0 h0 ?T] by (auto simp: LZ4_putPosition_def)
    show ?thesis
      unfolding LZ4_compress_generic_def if_not_P[OF a(1)] if_not_P[OF a(2)] if_not_P[OF a(3)] p ebind.simps h1 loop' ..
  qed
  have "LZ4_compress_fast_extState szs src dst maxOutputSize (2 ^ 26) = LZ4_compress_generic ?T src dst None byU16 (2 ^ 26)"
    using s m(1) n(2) by (simp add: LZ4_compress_fast_extState_def LZ4_resetStream_def Let_def)
  then show ?thesis using m3 unfolding gen fs by (auto simp: prefix_def simp del: fmt_seq.simps)
qed

definition ex_rising :: buf where
  "ex_rising = [1, 2, 3, 4, 5, 6, 7, 8, 9, 10, 11, 12, 13, 14, 15]"

theorem lz4_acceleration_wraps_witness:
  "\<exists>k dst'. LZ4_compress_fast_extState 16416 ex_rising (replicate 60 0) 60 (2 ^ 26) = Inr (Some (k, dst')) \<and>
    take k dst' = [6, 0, 0, 80, 11, 12, 13, 14, 15]"
proof -
  have l: "length ex_rising = 15" by (simp add: ex_rising_def)
  have "\<exists>k dst'. LZ4_compress_fast_extState 16416 ex_rising (replicate 60 0) 60 (2 ^ 26) = Inr (Some (k, dst')) \<and>
      take k dst' = fmt_seq ([], 0, length ex_rising - 9) @ fmt_last (drop (length ex_rising - 5) ex_rising)"
  proof (rule lz4_acceleration_wraps)
    show "\<not> same_at ex_rising 1 0 4" "\<not> same_at ex_rising 2 0 4" "\<not> same_at ex_rising 2 1 4"
      by (auto simp: same_at_def ex_rising_def intro!: exI[of _ 0])
  qed (simp_all add: l LZ4_64Klimit_def MFLIMIT_def COPYLENGTH_def MINMATCH_def LZ4_STREAMSIZE_def LZ4_compressBound_def LZ4_MAX_INPUT_SIZE_def)
  moreover have "fmt_seq ([], 0, length ex_rising - 9) @ fmt_last (drop (length ex_rising - 5) ex_rising) = [6, 0, 0, 80, 11, 12, 13, 14, 15]"
    unfolding l by (simp add: fmt_last_def len_ext_def token_def offset_bytes_def ex_rising_def)
  ultimately show ?thesis by simp
qed

end
