(* ===== verification/Delta_State.thy ===== *)
theory Delta_State
  imports Setup_Props Buddy_Props Lz4_Props
begin

text \<open>
  State saving by differences (\<open>core/tw-state.c\<close>, \<open>tw_delta_alloc\<close> of \<open>core/tw-setup.c\<close>): before an event
  the model takes a snapshot of the state of its LP, afterwards the difference to the new state is
  compressed into a block of the buddy allocator, and an undoing handler restores the old state
  from it. The compression is the LZ4 library of the theories \<open>Lz4\<close> to \<open>Lz4_Props\<close>.
\<close>

section \<open>State\<close>

text \<open>
  The buffers are null before \<open>tw_delta_alloc\<close>, which here is the empty list. \<open>view\<close> is how a header
  is read from bytes: what the allocator would see where data were written over a header.
\<close>

record delta_state =
  cur_bytes :: "8 word list"
  delta_buffer :: "8 word list list"
  delta_buddy :: "nat option"
  delta_size :: nat
  delta_sz :: nat
  g_tw_lz4_knob :: "32 word"
  buddy :: buddy_system

definition write_bytes :: "((nat \<Rightarrow> 8 word) \<Rightarrow> nat \<Rightarrow> buddy_list) \<Rightarrow> nat \<Rightarrow> 8 word list \<Rightarrow> buddy_system \<Rightarrow> ross_error + buddy_system" where
  "write_bytes view a xs m =
     (if a + length xs \<le> arena m then
        let b = (\<lambda>x. if a \<le> x \<and> x < a + length xs then xs ! (x - a) else bytes m x)
        in Inr (m\<lparr>bytes := b, hdr := (\<lambda>x. if a < x + header_size \<and> x < a + length xs then view b x else hdr m x)\<rparr>)
      else Inl Bad_Pointer)"

text \<open>\<open>memcpy\<close> into the front of a buffer.\<close>

definition fill_front :: "8 word list \<Rightarrow> 8 word list \<Rightarrow> 8 word list" where
  "fill_front xs b = xs @ drop (length xs) b"

definition tw_delta_alloc :: "delta_state \<Rightarrow> delta_state" where
  "tw_delta_alloc d =
     (let n = LZ4_compressBound (delta_sz d) in d\<lparr>delta_sz := n, delta_buffer := replicate 3 (replicate n 0)\<rparr>)"

section \<open>Snapshots\<close>

definition tw_snapshot :: "nat \<Rightarrow> delta_state \<Rightarrow> ross_error + delta_state" where
  "tw_snapshot sz d =
     (case delta_buffer d of
        [] \<Rightarrow> Inl (Assertion ''increase --buddy-size argument!'')
      | b # bs \<Rightarrow>
          if sz > length b \<or> sz > length (cur_bytes d) then Inl Bad_Pointer
          else Inr (d\<lparr>delta_buffer := fill_front (take sz (cur_bytes d)) b # bs\<rparr>))"

text \<open>The loop over the bytes; the difference of \<open>unsigned char\<close>s wraps round.\<close>

definition subtract :: "8 word list \<Rightarrow> 8 word list \<Rightarrow> 8 word list" where
  "subtract xs ys = map2 (\<lambda>x y. x - y) xs ys"

text \<open>
  The compressor clears its scratch memory first. Its result is compared with zero and never negative, so a failure,
  which is the result zero, goes on; what it may have left in the output buffer is never read.
\<close>

definition tw_snapshot_delta :: "((nat \<Rightarrow> 8 word) \<Rightarrow> nat \<Rightarrow> buddy_list) \<Rightarrow> nat \<Rightarrow> delta_state \<Rightarrow> ross_error + (nat \<times> delta_state)" where
  "tw_snapshot_delta view sz d =
     (case delta_buffer d of
        [b0, b1, b2] \<Rightarrow>
          if sz > length b0 \<or> sz > length (cur_bytes d) then Inl Bad_Pointer
          else
            let snapshot = fill_front (subtract (take sz (cur_bytes d)) (take sz b0)) b0 in
            ebind (LZ4_compress_fast_extState (length b2) (take sz snapshot) b1 (delta_sz d) (g_tw_lz4_knob d)) (\<lambda>r.
              let (ret_size, b1) = (case r of None \<Rightarrow> (0, b1) | Some (n, dst) \<Rightarrow> (n, dst)) in
              ebind (buddy_alloc (word_of_nat ret_size) (buddy d)) (\<lambda>(p, m).
              ebind (write_bytes view p (take ret_size b1) m) (\<lambda>m.
                Inr (ret_size, d\<lparr>delta_buffer := [snapshot, b1, b2], delta_buddy := Some p,
                  delta_size := ret_size, buddy := m\<rparr>))))
      | _ \<Rightarrow> Inl Bad_Pointer)"

text \<open>The decompressor reads on from the block of the event, up to the end of the arena at most.\<close>

definition tw_snapshot_restore :: "nat \<Rightarrow> delta_state \<Rightarrow> ross_error + delta_state" where
  "tw_snapshot_restore sz d =
     (case (delta_buddy d, delta_buffer d) of
        (Some p, b # bs) \<Rightarrow>
          if sz > length b \<or> sz > length (cur_bytes d) then Inl Bad_Pointer
          else
            ebind (LZ4_decompress_fast (map (bytes (buddy d)) [p..<arena (buddy d)]) b sz) (\<lambda>(ret, b).
              if ret < 0 then Inl (Tw_Error ''LZ4_decompress_fast error'')
              else Inr (d\<lparr>delta_buffer := b # bs,
                     cur_bytes := fill_front (subtract (take sz (cur_bytes d)) (take sz b)) (cur_bytes d)\<rparr>))
      | _ \<Rightarrow> Inl Bad_Pointer)"

section \<open>Lemmas\<close>

lemma bound_mono: "x \<le> y \<Longrightarrow> y \<le> LZ4_MAX_INPUT_SIZE \<Longrightarrow> LZ4_compressBound x \<le> LZ4_compressBound y"
  using div_le_mono[of x y 255] by (simp add: LZ4_compressBound_def)

lemma bound_self: "x \<le> LZ4_MAX_INPUT_SIZE \<Longrightarrow> x \<le> LZ4_compressBound x"
  by (simp add: LZ4_compressBound_def)

lemma front_sel:
  assumes "length xs \<le> length b"
  shows "length (fill_front xs b) = length b" "take (length xs) (fill_front xs b) = xs"
  using assms by (simp_all add: fill_front_def)

lemma subtract_sel: "length (subtract xs ys) = min (length xs) (length ys)"
  by (simp add: subtract_def)

lemma subtract_undo: "length xs = length ys \<Longrightarrow> subtract xs (subtract xs ys) = ys"
  unfolding subtract_def by (induction xs ys rule: list_induct2) simp_all

text \<open>Writing into the data of a block in use keeps the allocator intact.\<close>

lemma write_block:
  assumes i: "buddy_inv n T F m" and x: "(a, k) \<in> T" and l: "header_size + length xs \<le> 2 ^ k"
  shows "\<exists>m'. write_bytes view (a + header_size) xs m = Inr m' \<and> buddy_inv n T F m' \<and> arena m' = arena m \<and>
    map (bytes m') [a + header_size..<a + header_size + length xs] = xs \<and> same_data (T - {(a, k)}) m m'"
proof -
  have r: "buddy_rep n T F m" and c: "coalesced n F" using i by (simp_all add: buddy_inv_def)
  note B = buddy_repD[OF r]
  note X = tilingD[OF B(3) x]
  let ?b = "\<lambda>y. if a + header_size \<le> y \<and> y < a + header_size + length xs then xs ! (y - (a + header_size)) else bytes m y"
  let ?m = "m\<lparr>bytes := ?b, hdr := (\<lambda>y. if a + header_size < y + header_size \<and> y < a + header_size + length xs then view ?b y else hdr m y)\<rparr>"
  have w: "write_bytes view (a + header_size) xs m = Inr ?m"
    using X(4) l unfolding write_bytes_def Let_def B(2) by simp
  have away: "\<not> (a < b \<and> b < a + header_size + length xs)" if y: "(b, j) \<in> T" for b j
  proof
    assume b: "a < b \<and> b < a + header_size + length xs"
    then have "b \<in> blk (a, k)" using l by simp
    then have "(a, k) = (b, j)" using tiling_same[OF B(3) x y] tilingD(5)[OF B(3) y] by blast
    then show False using b by simp
  qed
  have "headers_ok T F (hdr ?m)"
    unfolding headers_ok_def
  proof (intro ballI, clarify)
    fix b j assume y: "(b, j) \<in> T"
    have "hdr ?m b = hdr m b" using away[OF y] by auto
    then show "hdr ?m b = \<lparr>blk_size = 2 ^ j - header_size, blk_use = (if (b, j) \<in> F then FREE else USED)\<rparr>"
      using headers_okD[OF B(5) y] by simp
  qed
  then have "buddy_inv n T F ?m" using B c by (simp add: buddy_inv_def buddy_rep_def)
  moreover have "map (bytes ?m) [a + header_size..<a + header_size + length xs] = xs"
    by (rule nth_equalityI) simp_all
  moreover have "same_data (T - {(a, k)}) m ?m"
    unfolding same_data_def
  proof (intro ballI)
    fix y p assume y: "y \<in> T - {(a, k)}" and p: "p \<in> blk y"
    have "p \<notin> blk (a, k)" using tiling_same[OF B(3) x _ _ p] y by blast
    then show "bytes ?m p = bytes m p" using l by auto
  qed
  ultimately show ?thesis using w by fastforce
qed

text \<open>The buffers after \<open>tw_delta_alloc\<close> for states of at most \<open>mx\<close> bytes.\<close>

definition buffers_ready :: "nat \<Rightarrow> delta_state \<Rightarrow> bool" where
  "buffers_ready mx d \<longleftrightarrow> mx \<le> 2 ^ 30 \<and> delta_sz d = LZ4_compressBound mx \<and>
     (\<exists>b0 b1 b2. delta_buffer d = [b0, b1, b2] \<and> length b0 = delta_sz d \<and> length b1 = delta_sz d \<and> length b2 = delta_sz d)"

lemma alloc_ready: "mx \<le> 2 ^ 30 \<Longrightarrow> delta_sz d = mx \<Longrightarrow> buffers_ready mx (tw_delta_alloc d)"
  by (simp add: buffers_ready_def tw_delta_alloc_def Let_def numeral_3_eq_3)

lemma readyE:
  assumes "buffers_ready mx d"
  obtains b0 b1 b2 where "delta_buffer d = [b0, b1, b2]" "length b0 = LZ4_compressBound mx" "length b1 = LZ4_compressBound mx"
    "length b2 = LZ4_compressBound mx" "delta_sz d = LZ4_compressBound mx" "mx \<le> LZ4_compressBound mx" "mx \<le> LZ4_MAX_INPUT_SIZE"
    "LZ4_compressBound mx < 2 ^ 31 - 32" "LZ4_compressBound mx > 0"
proof -
  have "mx \<le> 2 ^ 30" using assms by (simp add: buffers_ready_def)
  then have m: "mx \<le> LZ4_MAX_INPUT_SIZE" "mx div 255 \<le> 2 ^ 30 div 255"
    by (simp add: LZ4_MAX_INPUT_SIZE_def, intro div_le_mono)
  have "LZ4_compressBound mx < 2 ^ 31 - 32" "LZ4_compressBound mx > 0"
    using m \<open>mx \<le> 2 ^ 30\<close> by (simp_all add: LZ4_compressBound_def)
  then show thesis using that assms m(1) bound_self[OF m(1)] unfolding buffers_ready_def by metis
qed

text \<open>The snapshot, and the difference after the event has changed the state.\<close>

lemma snapshot_ok:
  assumes "buffers_ready mx d" "sz \<le> mx" "length (cur_bytes d) = sz"
  shows "\<exists>d1. tw_snapshot sz d = Inr d1 \<and> buffers_ready mx d1 \<and> take sz (hd (delta_buffer d1)) = cur_bytes d \<and>
    d1 = d\<lparr>delta_buffer := delta_buffer d1\<rparr>"
proof -
  obtain b0 b1 b2 where b: "delta_buffer d = [b0, b1, b2]" "length b0 = LZ4_compressBound mx" "mx \<le> LZ4_compressBound mx"
    by (rule readyE[OF assms(1)])
  have l: "length (cur_bytes d) \<le> length b0" using b assms(2,3) by simp
  note F = front_sel[OF l]
  have "tw_snapshot sz d = Inr (d\<lparr>delta_buffer := [fill_front (cur_bytes d) b0, b1, b2]\<rparr>)"
    using b assms(2,3) by (simp add: tw_snapshot_def)
  moreover have "buffers_ready mx (d\<lparr>delta_buffer := [fill_front (cur_bytes d) b0, b1, b2]\<rparr>)"
    using F(1) b(1) assms(1) by (simp add: buffers_ready_def)
  ultimately show ?thesis using F(2) assms(3)
    by (intro exI[of _ "d\<lparr>delta_buffer := [fill_front (cur_bytes d) b0, b1, b2]\<rparr>"]) simp
qed

text \<open>A compressed form of \<open>x\<close>: from any memory that begins with it, \<open>x\<close> is restored.\<close>

definition restores :: "buf \<Rightarrow> buf \<Rightarrow> bool" where
  "restores c x \<longleftrightarrow> (\<forall>rest out. length x \<le> length out \<longrightarrow>
     (\<exists>out'. LZ4_decompress_fast (c @ rest) out (length x) = Inr (int (length c), out') \<and> take (length x) out' = x \<and> length out' = length out))"

text \<open>The compressor on the buffers: the scratch memory must hold its table, the search counter must not wrap.\<close>

lemma compress_buffers:
  assumes "length x \<le> mx" "mx \<le> LZ4_MAX_INPUT_SIZE" "LZ4_STREAMSIZE \<le> szs" "64 * unat knob + length x < 2 ^ 32"
    and "length b1 = LZ4_compressBound mx"
  shows "\<exists>k b1'. LZ4_compress_fast_extState szs x b1 (LZ4_compressBound mx) knob = Inr (Some (k, b1')) \<and>
    k \<le> LZ4_compressBound mx \<and> length b1' = LZ4_compressBound mx \<and> restores (take k b1') x"
proof -
  have n: "length x \<le> LZ4_MAX_INPUT_SIZE" using assms(1,2) by simp
  have "LZ4_compressBound mx \<le> length b1" using assms(5) by simp
  from compressed_roundtrip[OF compress_fast_ok[OF n assms(3,4) bound_mono[OF assms(1,2)] this] n] obtain k b1' where
    k: "LZ4_compress_fast_extState szs x b1 (LZ4_compressBound mx) knob = Inr (Some (k, b1'))" "k \<le> length b1" "length b1' = length b1"
    "\<And>rest out. length x \<le> length out \<Longrightarrow> \<exists>out'. LZ4_decompress_fast (take k b1' @ rest) out (length x) = Inr (int k, out') \<and>
       take (length x) out' = x \<and> length out' = length out"
    by blast
  have "length (take k b1') = k" using k(2,3) by simp
  then have "restores (take k b1') x" using k(4) unfolding restores_def by metis
  then show ?thesis using k(1,2,3) assms(5) by auto
qed

lemma delta_ok:
  assumes z: "64 * unat (g_tw_lz4_knob d) + sz < 2 ^ 32" and r: "buffers_ready mx d" and sz: "sz \<le> mx" "length (cur_bytes d) = sz"
    and big: "LZ4_STREAMSIZE \<le> LZ4_compressBound mx"
    and i: "buddy_inv n T F (buddy d)" and free: "(q, j) \<in> F" "LZ4_compressBound mx + header_size \<le> 2 ^ j"
  shows "\<exists>a k T' F' d'. tw_snapshot_delta view sz d = Inr (delta_size d', d') \<and> delta_buddy d' = Some (a + header_size) \<and>
    buddy_inv n T' F' (buddy d') \<and> T' - F' = insert (a, k) (T - F) \<and> (a, k) \<notin> T - F \<and> header_size + delta_size d' \<le> 2 ^ k \<and>
    restores (map (bytes (buddy d')) [a + header_size..<a + header_size + delta_size d'])
      (subtract (cur_bytes d) (take sz (hd (delta_buffer d)))) \<and>
    same_data (T - F) (buddy d) (buddy d') \<and> buffers_ready mx d' \<and> cur_bytes d' = cur_bytes d"
proof -
  obtain b0 b1 b2 where b: "delta_buffer d = [b0, b1, b2]" "length b0 = LZ4_compressBound mx" "length b1 = LZ4_compressBound mx"
    "length b2 = LZ4_compressBound mx" "delta_sz d = LZ4_compressBound mx" "mx \<le> LZ4_compressBound mx" "mx \<le> LZ4_MAX_INPUT_SIZE"
    "LZ4_compressBound mx < 2 ^ 31 - 32"
    by (rule readyE[OF r])
  define x where "x = subtract (cur_bytes d) (take sz b0)"
  have lx: "length x = sz" using b sz by (simp add: subtract_sel x_def)
  have sx: "length x \<le> length b0" using lx b sz by simp
  note X = front_sel[OF sx]
  have mx: "length x \<le> mx" "64 * unat (g_tw_lz4_knob d) + length x < 2 ^ 32" "LZ4_STREAMSIZE \<le> length b2"
    using lx sz z big b(4) by simp_all
  obtain l c where c: "LZ4_compress_fast_extState (length b2) x b1 (LZ4_compressBound mx) (g_tw_lz4_knob d) = Inr (Some (l, c))"
      "l \<le> LZ4_compressBound mx" "length c = LZ4_compressBound mx" "restores (take l c) x"
    using compress_buffers[OF mx(1) b(7) mx(3,2) b(3)] by blast
  have lc: "length (take l c) = l" using c(2,3) by simp
  have u: "unat (word_of_nat l :: 32 word) = l" using c(2) b(8) by (simp add: unat_of_nat take_bit_eq_mod)
  have small: "unat (word_of_nat l :: 32 word) + header_size \<le> 2 ^ 31"
    unfolding u using c(2) b(8) by (simp add: header_size_def)
  have room: "\<not> (\<forall>(a, k) \<in> F. 2 ^ k < unat (word_of_nat l :: 32 word) + header_size)"
  proof
    assume "\<forall>(a, k) \<in> F. 2 ^ k < unat (word_of_nat l :: 32 word) + header_size"
    then have "2 ^ j < l + header_size" unfolding u using free(1) by blast
    then show False using c(2) free(2) by linarith
  qed
  obtain a k T' F' m where m: "buddy_alloc (word_of_nat l) (buddy d) = Inr (a + header_size, m)" "buddy_inv n T' F' m"
      "T' - F' = insert (a, k) (T - F)" "(a, k) \<notin> T - F" "l + header_size \<le> 2 ^ k" "bytes m = bytes (buddy d)"
    using alloc_ok[OF i small] room unfolding u by blast
  have ak: "(a, k) \<in> T'" using m(3) by blast
  have fit: "header_size + length (take l c) \<le> 2 ^ k" using m(5) lc by simp
  obtain m' where w: "write_bytes view (a + header_size) (take l c) m = Inr m'" "buddy_inv n T' F' m'"
      "map (bytes m') [a + header_size..<a + header_size + l] = take l c" "same_data (T' - {(a, k)}) m m'"
    using write_block[OF m(2) ak fit, of view] unfolding lc by blast
  let ?d = "d\<lparr>delta_buffer := [fill_front x b0, c, b2], delta_buddy := Some (a + header_size), delta_size := l, buddy := m'\<rparr>"
  have tx: "take sz (fill_front x b0) = x" using X(2) unfolding lx .
  have guard: "\<not> (sz > length b0 \<or> sz > length (cur_bytes d))" using b(2,6) sz by simp
  have run: "tw_snapshot_delta view sz d = Inr (l, ?d)"
    unfolding tw_snapshot_delta_def b(1) list.case if_not_P[OF guard]
    using sz tx m(1) c(1) w(1) b(5) by (simp add: Let_def x_def[symmetric])
  have "buffers_ready mx ?d" using r b X(1) c(3) unfolding buffers_ready_def by simp
  moreover have "same_data (T - F) (buddy d) m'"
  proof -
    have "T - F \<subseteq> T' - {(a, k)}" using m(3,4) by blast
    then show ?thesis using w(4) unfolding same_data_def m(6) by blast
  qed
  ultimately show ?thesis using run w(2,3) m(3,4,5) c(4) b(1) x_def
    by (intro exI[of _ a] exI[of _ k] exI[of _ T'] exI[of _ F'] exI[of _ ?d]) simp
qed

text \<open>Restoring, from any state in which the block of the event still holds what was written.\<close>

lemma restore_ok:
  assumes r: "buffers_ready mx d" and sz: "sz \<le> mx" "length (cur_bytes d) = sz" "length old = sz"
    and p: "delta_buddy d = Some p" "p + l \<le> arena (buddy d)"
    and c: "restores (map (bytes (buddy d)) [p..<p + l]) (subtract (cur_bytes d) old)"
  shows "\<exists>d'. tw_snapshot_restore sz d = Inr d' \<and> cur_bytes d' = old \<and> buddy d' = buddy d \<and> buffers_ready mx d'"
proof -
  obtain b0 b1 b2 where b: "delta_buffer d = [b0, b1, b2]" "length b0 = LZ4_compressBound mx" "mx \<le> LZ4_compressBound mx"
    by (rule readyE[OF r])
  define x where "x = subtract (cur_bytes d) old"
  have lx: "length x = sz" using sz by (simp add: subtract_sel x_def)
  have "[p..<arena (buddy d)] = [p..<p + l] @ [p + l..<arena (buddy d)]"
    using p(2) by (metis le_add1 le_add_diff_inverse upt_add_eq_append)
  then have s: "map (bytes (buddy d)) [p..<arena (buddy d)] =
      map (bytes (buddy d)) [p..<p + l] @ map (bytes (buddy d)) [p + l..<arena (buddy d)]" by simp
  have sx: "sz \<le> length b0" using b sz by simp
  then obtain b' where b': "LZ4_decompress_fast (map (bytes (buddy d)) [p..<arena (buddy d)]) b0 sz = Inr (int l, b')"
      "take sz b' = x" "length b' = length b0"
    using c unfolding s restores_def x_def[symmetric] lx by fastforce
  have e: "subtract (cur_bytes d) x = old" unfolding x_def by (rule subtract_undo) (simp add: sz)
  have "tw_snapshot_restore sz d = Inr (d\<lparr>delta_buffer := [b', b1, b2], cur_bytes := old\<rparr>)"
    using b sz p(1) sx b'(1,2) by (simp add: tw_snapshot_restore_def e fill_front_def)
  moreover have "buffers_ready mx (d\<lparr>delta_buffer := [b', b1, b2], cur_bytes := old\<rparr>)"
    using b'(3) b(1) r by (simp add: buffers_ready_def)
  ultimately show ?thesis by fastforce
qed

section \<open>Properties\<close>

text \<open>
  C18: saving a state by its difference and restoring it is the identity. The model takes a snapshot, an event turns the
  state into any other one, and the difference is compressed into a new block of the buddy
  allocator; this succeeds where a free block can hold a buffer. Later, whatever happened to the
  buffers, the other blocks and the other LPs meanwhile, restoring gives the LP the state of the
  snapshot. The scratch memory must hold the table of the compressor, and the acceleration from the command
  line must be so small that the counter of its search does not wrap around.
\<close>

theorem delta_roundtrip:
  assumes "64 * unat (g_tw_lz4_knob d) + sz < 2 ^ 32" "buffers_ready mx d" "LZ4_STREAMSIZE \<le> LZ4_compressBound mx" "sz \<le> mx"
    and "length (cur_bytes d) = sz" "length new = sz"
    and "buddy_inv n T F (buddy d)" "(q, j) \<in> F" "LZ4_compressBound mx + header_size \<le> 2 ^ j"
  shows "\<exists>d1 d2 a k T' F'. tw_snapshot sz d = Inr d1 \<and> tw_snapshot_delta view sz (d1\<lparr>cur_bytes := new\<rparr>) = Inr (delta_size d2, d2) \<and>
    buddy_inv n T' F' (buddy d2) \<and> T' - F' = insert (a, k) (T - F) \<and> (a, k) \<notin> T - F \<and> same_data (T - F) (buddy d) (buddy d2) \<and>
    (\<forall>d3. cur_bytes d3 = new \<and> delta_buddy d3 = delta_buddy d2 \<and> arena (buddy d3) = arena (buddy d2) \<and>
      same_data {(a, k)} (buddy d2) (buddy d3) \<and> buffers_ready mx d3 \<longrightarrow>
      (\<exists>d4. tw_snapshot_restore sz d3 = Inr d4 \<and> cur_bytes d4 = cur_bytes d \<and> buddy d4 = buddy d3))"
proof -
  obtain d1 where d1: "tw_snapshot sz d = Inr d1" "buffers_ready mx d1" "take sz (hd (delta_buffer d1)) = cur_bytes d"
      "d1 = d\<lparr>delta_buffer := delta_buffer d1\<rparr>"
    using snapshot_ok[OF assms(2,4,5)] by blast
  let ?d = "d1\<lparr>cur_bytes := new\<rparr>"
  have ready: "buffers_ready mx ?d" using d1(2) by (auto simp: buffers_ready_def)
  have bd: "buddy ?d = buddy d" using arg_cong[OF d1(4), of buddy] by simp
  have z: "64 * unat (g_tw_lz4_knob ?d) + sz < 2 ^ 32" using arg_cong[OF d1(4), of g_tw_lz4_knob] assms(1) by simp
  have i: "buddy_inv n T F (buddy ?d)" using assms(7) bd by simp
  have len: "length (cur_bytes ?d) = sz" using assms(6) by simp
  obtain a k T' F' d2 where d2: "tw_snapshot_delta view sz ?d = Inr (delta_size d2, d2)" "delta_buddy d2 = Some (a + header_size)"
      "buddy_inv n T' F' (buddy d2)" "T' - F' = insert (a, k) (T - F)" "(a, k) \<notin> T - F" "header_size + delta_size d2 \<le> 2 ^ k"
      "restores (map (bytes (buddy d2)) [a + header_size..<a + header_size + delta_size d2])
        (subtract (cur_bytes ?d) (take sz (hd (delta_buffer ?d))))"
      "same_data (T - F) (buddy ?d) (buddy d2)"
    using delta_ok[OF z ready assms(4) len assms(3) i assms(8,9), of view] by blast
  have "buddy_rep n T' F' (buddy d2)" "(a, k) \<in> T'" using d2(3,4) by (auto simp: buddy_inv_def)
  then have fit: "a + 2 ^ k \<le> arena (buddy d2)" using tilingD(4)[of n T' a k] by (simp add: buddy_rep_def)
  have "\<exists>d4. tw_snapshot_restore sz d3 = Inr d4 \<and> cur_bytes d4 = cur_bytes d \<and> buddy d4 = buddy d3"
    if c: "cur_bytes d3 = new \<and> delta_buddy d3 = delta_buddy d2 \<and> arena (buddy d3) = arena (buddy d2) \<and>
      same_data {(a, k)} (buddy d2) (buddy d3) \<and> buffers_ready mx d3" for d3
  proof -
    have e: "map (bytes (buddy d3)) [a + header_size..<a + header_size + delta_size d2] =
        map (bytes (buddy d2)) [a + header_size..<a + header_size + delta_size d2]"
      using c d2(6) by (intro map_cong) (auto simp: same_data_def)
    then have m: "restores (map (bytes (buddy d3)) [a + header_size..<a + header_size + delta_size d2]) (subtract (cur_bytes d3) (cur_bytes d))"
      using d2(7) d1(3) c unfolding e by simp
    have r: "buffers_ready mx d3" and l: "length (cur_bytes d3) = sz" using c assms(6) by simp_all
    have p: "delta_buddy d3 = Some (a + header_size)" "a + header_size + delta_size d2 \<le> arena (buddy d3)"
      using c d2(2,6) fit by simp_all
    show ?thesis using restore_ok[OF r assms(4) l assms(5) p m] by blast
  qed
  then show ?thesis using d1(1) d2(1,3,4,5,8) unfolding bd by blast
qed

text \<open>States of four bytes next to larger ones.\<close>

definition ex_delta :: "nat \<Rightarrow> buddy_system \<Rightarrow> delta_state" where
  "ex_delta mx m = tw_delta_alloc \<lparr>cur_bytes = [1, 2, 3, 4], delta_buffer = [], delta_buddy = None, delta_size = 0, delta_sz = mx,
     g_tw_lz4_knob = 17, buddy = m\<rparr>"

lemma ex_delta_ok:
  "mx \<le> 2 ^ 30 \<Longrightarrow> buffers_ready mx (ex_delta mx m)" "cur_bytes (ex_delta mx m) = [1, 2, 3, 4]" "buddy (ex_delta mx m) = m"
  "g_tw_lz4_knob (ex_delta mx m) = 17"
proof -
  show "mx \<le> 2 ^ 30 \<Longrightarrow> buffers_ready mx (ex_delta mx m)" unfolding ex_delta_def by (rule alloc_ready) simp_all
qed (simp_all add: ex_delta_def tw_delta_alloc_def Let_def)

theorem delta_roundtrip_witness:
  "\<exists>m d1 d2. create_buddy_table 16 = Inr m \<and> tw_snapshot 4 (ex_delta 16400 m) = Inr d1 \<and>
    tw_snapshot_delta (\<lambda>_ _. no_header) 4 (d1\<lparr>cur_bytes := [1, 9, 3, 0]\<rparr>) = Inr (delta_size d2, d2)"
proof -
  obtain m where m: "create_buddy_table 16 = Inr m" "buddy_inv 16 {(0, 16)} {(0, 16)} m" using create_ok[of 16] by auto
  have h: "(16400 :: nat) \<le> 2 ^ 30" "LZ4_STREAMSIZE \<le> LZ4_compressBound 16400" "(4 :: nat) \<le> 16400"
    "length (cur_bytes (ex_delta 16400 m)) = 4" "length [1 :: 8 word, 9, 3, 0] = 4" "(0 :: nat, 16 :: nat) \<in> {(0, 16)}"
    "LZ4_compressBound 16400 + header_size \<le> 2 ^ 16" "buddy_inv 16 {(0, 16)} {(0, 16)} (buddy (ex_delta 16400 m))"
    using m(2) by (simp_all add: LZ4_STREAMSIZE_def LZ4_compressBound_def LZ4_MAX_INPUT_SIZE_def header_size_def ex_delta_ok(2,3))
  have z: "64 * unat (g_tw_lz4_knob (ex_delta 16400 m)) + 4 < 2 ^ 32" by (simp add: ex_delta_ok(4))
  show ?thesis using delta_roundtrip[OF z ex_delta_ok(1)[OF h(1)] h(2,3,4,5,8,6,7), where view = "\<lambda>_ _. no_header"] m(1) by blast
qed

text \<open>
  C21: the scratch memory of the compressor is too small for small states. It is as large as a
  compressed state can be, but the compressor first clears a table of 16416 bytes there: where the
  largest state of a model has at most 16335 bytes, every difference writes behind the buffer.
\<close>

theorem delta_scratch_overrun:
  assumes "delta_sz d \<le> 16335" "tw_snapshot sz (tw_delta_alloc d) = Inr d1"
  shows "tw_snapshot_delta view sz (d1\<lparr>cur_bytes := new\<rparr>) = Inl Bad_Pointer"
proof -
  have "LZ4_compressBound (delta_sz d) < LZ4_STREAMSIZE"
    using assms(1) div_le_mono[of "delta_sz d" 16335 255] by (simp add: LZ4_compressBound_def LZ4_STREAMSIZE_def)
  then show ?thesis using assms(2)
    by (auto simp: tw_delta_alloc_def tw_snapshot_def tw_snapshot_delta_def LZ4_compress_fast_extState_def LZ4_resetStream_def
        Let_def numeral_3_eq_3 split: if_splits)
qed

theorem delta_scratch_overrun_witness:
  "\<exists>m d1. create_buddy_table 16 = Inr m \<and> tw_snapshot 4 (tw_delta_alloc (ex_delta 0 m\<lparr>delta_sz := 4\<rparr>)) = Inr d1 \<and>
    tw_snapshot_delta (\<lambda>_ _. no_header) 4 (d1\<lparr>cur_bytes := [0, 0, 0, 0]\<rparr>) = Inl Bad_Pointer"
proof -
  obtain m where m: "create_buddy_table 16 = Inr m" using create_ok[of 16] by auto
  let ?d = "ex_delta 0 m\<lparr>delta_sz := 4\<rparr>"
  have "delta_sz ?d \<le> 16335" by simp
  moreover obtain d1 where "tw_snapshot 4 (tw_delta_alloc ?d) = Inr d1"
    using snapshot_ok[OF alloc_ready[of 4 ?d], of 4] ex_delta_ok(2)[of 0 m] by (auto simp: tw_delta_alloc_def Let_def)
  ultimately show ?thesis using delta_scratch_overrun[of ?d 4] m by blast
qed

text \<open>
  Types that are set by \<open>tw_lp_setup_types\<close> leave the buffers without room. Only \<open>tw_lp_settype\<close>
  raises \<open>g_tw_delta_sz\<close>, so a model that uses the table of types gets buffers of 16 bytes, and the
  snapshot of a larger state writes behind them.
\<close>

theorem types_table_no_delta:
  assumes "tw_lp_setup_types tm s = Inr s'" "g_tw_delta_sz s = 0" "delta_sz d = g_tw_delta_sz s'" "sz > 16"
  shows "tw_snapshot sz (tw_delta_alloc d) = Inl Bad_Pointer"
proof -
  have "g_tw_delta_sz s' = g_tw_delta_sz s" if "setup_types_loop f is s = Inr s'" for f "is"
    using that
  proof (induction f "is" s rule: setup_types_loop.induct)
    case (2 f i js s)
    then show ?case by (fastforce split: option.splits if_splits)
  qed simp
  then have "delta_sz d = 0" using assms(1-3) by (auto simp: tw_lp_setup_types_def ebind_Inr_iff split: if_splits option.splits)
  then show ?thesis using assms(4) by (simp add: tw_delta_alloc_def tw_snapshot_def Let_def LZ4_compressBound_def numeral_3_eq_3)
qed

theorem types_table_no_delta_witness:
  "\<exists>s1 s2 m. tw_define_lps None 5 (ex_setup 1 LINEAR) = Inr s1 \<and> tw_lp_setup_types (Some (\<lambda>_. 0)) s1 = Inr s2 \<and>
    create_buddy_table 16 = Inr m \<and> tw_snapshot 17 (tw_delta_alloc (ex_delta 0 m\<lparr>delta_sz := g_tw_delta_sz s2\<rparr>)) = Inl Bad_Pointer"
proof -
  obtain m where m: "create_buddy_table 16 = Inr m" using create_ok[of 16] by auto
  have r: "setup_ready 5 (ex_setup 1 LINEAR)" by (rule ex_setup_ok(1)) simp_all
  obtain s1 s2 where s: "tw_define_lps None 5 (ex_setup 1 LINEAR) = Inr s1" "tw_lp_setup_types (Some (\<lambda>_. 0)) s1 = Inr s2"
    using define_lps_conform[OF r ex_setup_ok(2,3)] by blast
  have "g_tw_delta_sz s1 = 0"
    using define_lps_linear(1)[OF r ex_setup_ok(2), of None] s(1)
    by (auto simp: placed_def emptied_def ex_setup_def)
  then show ?thesis using types_table_no_delta[OF s(2), of "ex_delta 0 m\<lparr>delta_sz := g_tw_delta_sz s2\<rparr>" 17] s m by simp
qed

end
