(* ===== verification/Spec2Isabelle.thy ===== *)
theory Spec2Isabelle
  imports Tw_Props Gvt_Props Sched_Props Realtime Setup_Props Buddy_Props Delta_State
begin

text \<open>
  A verification development for ROSS, a simulator of discrete events that runs a model in parallel
  with the Time Warp protocol. Paths are those below \<open>src/\<close>.

  The program. A model consists of logical processes (LPs) that exchange events. An event has a
  signature, its time of arrival with tie-breakers, and is processed by the event handler of its
  LP. The LPs of a process are grouped into kernel processes (KPs), and a process is one processing
  element (PE). A PE keeps its pending events in a priority queue; arrivals wait in \<open>event_q\<close>,
  cancelled events in \<open>cancel_q\<close>, free buffers in \<open>free_q\<close>; each KP keeps the events it has processed
  in \<open>pevent_q\<close>, newest first. The optimistic scheduler processes events before it knows that no
  earlier one will come. When one does come, the KP is rolled back: the reverse handlers of the
  model undo the events and the events they had sent are cancelled, on other PEs by anti-messages.
  The PEs compute together a global virtual time (GVT) before which nothing can be rolled back;
  processed events before it are committed and freed.

  Theories and code.
  \<^item> \<open>Ross_Prelude\<close>: the errors of the program as values, the error monad, three-way comparison, facts
    on lists. An assertion, a call of \<open>tw_error\<close>, a use of a bad pointer, an overflow of a signed
    integer, a double that is not finite and a loop out of fuel are different values of \<open>ross_error\<close>.
  \<^item> \<open>Doubles\<close>: the rounding \<open>fl\<close> of a real to the nearest \<open>double\<close>, ties to even, for the arithmetic of the
    random numbers, of PHOLD's times and of the block sizes of the set-up. The exponent is unbounded.
  \<^item> \<open>Event_Sig\<close> (\<open>core/ross-types.h\<close>, \<open>find_min_sig\<close> of \<open>core/gvt/mpi_allreduce.c\<close>): signatures, their
    comparison and its key \<open>sig_key\<close>.
  \<^item> \<open>Event_Queue\<close> (\<open>core/tw-eventq.h\<close>): the doubly linked lists on an explicit heap; they represent
    lists. From \<open>Pe_State\<close> on the queues of a PE are lists of addresses.
  \<^item> \<open>Ross_Types\<close>, \<open>Splay_PQ\<close> (\<open>core/queue/splay.c\<close>): the pending queue; the splay tree with its pointers
    to the parents is a tree with a path. \<open>keyed_cmp\<close> is the contract of a comparison,
    \<open>event_pq\<close> that of a queue.
  \<^item> \<open>Avl_Tree\<close> (\<open>core/avl_tree.c\<close>, the store of \<open>core/hash-quadratic.c\<close> with \<open>AVL_TREE\<close>): the received
    events by which an anti-message finds its event.
  \<^item> \<open>Rng_Clcg4\<close> (\<open>core/rand-clcg4.c\<close>, \<open>core/ross-random-internal.c\<close>): the generator with its reverse step and the
    jump to the streams. The sum of its components is rounded as the code rounds it, so that a number
    can be exactly 1.
  \<^item> \<open>Pe_State\<close> (\<open>core/ross-types.h\<close>, \<open>core/ross-inline.h\<close>): the records of PE, KP and LP, the
    configuration (globals that do not change and the handlers of the model) and the making of events.
  \<^item> \<open>Time_Warp\<close> (\<open>core/tw-event.c\<close>, \<open>core/tw-kp.c\<close>, \<open>core/tw-sched.c\<close>): sending, cancelling, rolling back,
    the two queues of arrivals and the batch. \<open>Tw_Lemmas\<close>, \<open>Rollback\<close>, \<open>Kp_Rollback\<close>, \<open>History\<close>,
    \<open>Sched_Queues\<close>, \<open>Send_Effect\<close>, \<open>Process\<close> and \<open>Batch\<close> prove what they do, \<open>Frames\<close> what they leave alone.
    \<open>Phold\<close> (\<open>models/phold/phold.main.c\<close>) is a model: its handlers meet the contract except for the two
    draws at which the code fails, \<open>Tw_Example\<close> has states of it, \<open>Tw_Props\<close> the properties.
  \<^item> \<open>Network\<close> (\<open>core/network-mpi.c\<close>): posted sends and receives, their completion, anti-messages; with
    \<open>Net_Lemmas\<close>, \<open>Net_Send\<close>, \<open>Net_Recv\<close>, \<open>Net_Inv\<close>, \<open>Net_Flow\<close>, \<open>Net_Props\<close>.
  \<^item> \<open>Gvt\<close> (\<open>core/gvt/mpi_allreduce.c\<close>, \<open>core/tw-pe.c\<close>): the computation of GVT on all PEs, fossil
    collection, the triggers of the GVT hook; with \<open>Gvt_Lemmas\<close> and \<open>Gvt_Props\<close>.
  \<^item> \<open>Schedulers\<close>, \<open>Realtime\<close>, \<open>Parallel\<close> (\<open>core/tw-sched.c\<close>, \<open>core/check-revent/crv-state.c\<close>): the sequential
    scheduler, the one that checks rollbacks, the debug scheduler and the three parallel ones; with
    \<open>Sequential\<close>, \<open>Debug_Run\<close> and \<open>Sched_Props\<close>.
  \<^item> \<open>Setup\<close>, \<open>Setup_Props\<close> (\<open>core/tw-setup.c\<close>, \<open>core/tw-lp.c\<close>, \<open>core/tw-kp.c\<close>): the tables of LPs and KPs.
  \<^item> \<open>Buddy\<close> (\<open>core/buddy.c\<close>) with \<open>Buddy_Lemmas\<close>, \<open>Buddy_Alloc\<close>, \<open>Buddy_Free\<close>, \<open>Buddy_Props\<close>, and \<open>Delta_State\<close>
    (\<open>core/tw-state.c\<close>): the memory for the differences of states, and saving and restoring them.
  \<^item> \<open>Lz4\<close> (\<open>core/lz4.c\<close>, \<open>core/lz4.h\<close>): the compressor and the decompressor of these differences, on
    buffers of bytes in which every read and write is checked. \<open>Lz4_Lemmas\<close> has the memory and words,
    \<open>Lz4_Decode\<close> the format as a list of sequences with its meaning and the decompressor that computes it,
    \<open>Lz4_Encode\<close> and \<open>Lz4_Compress\<close> the compressor that writes it, \<open>Lz4_Props\<close> the properties.

  What is shown. For one PE, an invariant ties the owner of each event to the queue that holds it, the queues to
  the order of time, and the processed events to a snapshot of the LPs that undoing them gives back; the queues
  of arrivals, a batch and the rollbacks keep it, return (or report that the buffers ran out) and undo exactly
  what they should. In this part the processed events have caused events of the same PE only, and the model
  sends to LPs of the PE and, from GVT on, into the future as far as the end of the run; events from elsewhere
  arrive in \<open>event_q\<close> and \<open>cancel_q\<close>. What becomes of events that are sent to other
  PEs, and of their cancellation, is part of the network. For the network, each buffer has one place, each call
  returns within a bound, and the messages sent are those received, under way or kept. Over all PEs, the GVT
  that is computed bounds every unprocessed event and every message, fossil collection returns the buffers of
  what is before it to the pool, of nothing else and each once, and the PEs leave their loops together. The
  sequential scheduler processes in ascending order; the debug scheduler is the identity. The properties of the
  containers (lists, splay tree, AVL tree, buddy allocator) are refinements of lists, multisets, maps and
  tilings, and those of the generator are number theory modulo its moduli. The compressor writes the format of
  LZ4 within its buffers and the decompressor reads back what was compressed, so that saving a state by its
  difference is shown down to the bytes. The theorems of kind error show what the code does where it fails.

  Bounds and fuel. Integers of C are words or numbers with explicit checks where a wrap-around can be reached;
  virtual times are reals, with \<open>ts_add\<close> and \<open>ts_sub\<close> as parameters for the arithmetic
  of \<open>double\<close>, which in the examples are the rounded operations. A rollback loop runs at most once
  for each processed event of the KP, the loop over \<open>cancel_q\<close> as often as buffers are in use, the
  loops of the network at most four times the waiting and three times the posted operations, the merging of
  buddies as often as there are buckets, the debug scheduler as often as there are buffers, the search of the
  compressor and its main loop as often as the input has bytes, the decompressor as often as its source has:
  with that fuel they are shown to return. The main loop of the sequential scheduler and the waiting for white
  messages may run for ever; there the theorems say what holds after any number of rounds. A schedule
  interleaves the PEs at the level of polls, batches and GVT computations.

  Parameters. The handlers of the model, MPI (which requests have completed, which messages have
  arrived, in what order) and the clock. Hypotheses state what their documentation promises;
  an example discharges each of them.

  Not modelled. Statistics, tracing and sampling, printing, the parsing of options, memory
  allocation of the process, RIO checkpoint files and analysis LPs do not influence the events or are
  off in the default build. Of LZ4 the dictionaries, streams, the compression to a given size, the
  decompression with a bound on the input and the variants for machines of 32 bits or other byte order
  are not used by the kernel. The quadratic hash table is not compiled
  with \<open>AVL_TREE\<close>. Code that is compiled without \<open>USE_RAND_TIEBREAKER\<close> is modelled only in the
  comparison of the splay tree. The distributions other than the uniform ones, the binomial and the
  exponential are transcendental functions of the uniform one.
\<close>

end
